(* ===== verification/Prelude.thy ===== *)
theory Prelude
  imports Main "HOL-Library.Word"
begin

text \<open>
  Shared vocabulary of the development: the result codes of the TEE interfaces
  (\<open>lib/libutee/include/tee_api_defines.h\<close>), the rounding macros of
  \<open>lib/libutils/ext/include/util.h\<close>, and the generic facts on words, lists and
  association lists that the component theories use. Code paths in every theory are
  relative to the \<open>optee_os-master\<close> directory of the repository.
\<close>

unbundle bit_operations_syntax

named_theorems inv_defs \<open>definitions of the component invariants\<close>
named_theorems word_nat \<open>facts that move a word expression to nat\<close>

section \<open>Result codes\<close>

text \<open>The codes the modelled functions return; the numeric values play no role in them.\<close>

datatype tee_result =
    TEE_SUCCESS
  | TEE_ERROR_GENERIC
  | TEE_ERROR_ACCESS_DENIED
  | TEE_ERROR_ACCESS_CONFLICT
  | TEE_ERROR_BAD_FORMAT
  | TEE_ERROR_BAD_PARAMETERS
  | TEE_ERROR_BAD_STATE
  | TEE_ERROR_ITEM_NOT_FOUND
  | TEE_ERROR_NOT_SUPPORTED
  | TEE_ERROR_NO_DATA
  | TEE_ERROR_OUT_OF_MEMORY
  | TEE_ERROR_BUSY
  | TEE_ERROR_SECURITY
  | TEE_ERROR_SHORT_BUFFER
  | TEE_ERROR_CANCEL
  | TEE_ERROR_OVERFLOW
  | TEE_ERROR_TARGET_DEAD
  | TEE_ERROR_CORRUPT_OBJECT
  | TEE_ERROR_STORAGE_NOT_AVAILABLE

section \<open>Words read as natural numbers\<close>

lemma unat_drop_bit [word_nat]: "unat (drop_bit n (w :: 'a::len word)) = unat w div 2 ^ n"
proof -
  have "unat (drop_bit n w) = drop_bit n (unat w)" by (rule unat_drop_bit_eq)
  then show ?thesis by (simp add: drop_bit_eq_div)
qed

lemma unat_push_bit [word_nat]:
  "unat (push_bit n (w :: 'a::len word)) = unat w * 2 ^ n mod 2 ^ LENGTH('a)"
proof -
  have "unat (push_bit n w) = take_bit LENGTH('a) (push_bit n (unat w))"
    by (rule unsigned_push_bit_eq)
  then show ?thesis by (simp add: take_bit_eq_mod push_bit_eq_mult)
qed

lemma mult_minus_one_div:
  fixes s k :: nat
  assumes "0 < s" and "0 < k"
  shows "(s * k - 1) div s = k - 1"
proof -
  obtain m where k: "k = Suc m" using assms(2) by (cases k) auto
  then have "s * k - 1 = (s - 1) + m * s" using assms(1) by (simp add: algebra_simps)
  moreover have "((s - 1) + m * s) div s = m"
    using assms(1) by (subst div_mult_self1) simp_all
  ultimately show ?thesis using k by simp
qed

text \<open>Clearing the low \<open>n\<close> bits rounds down to a multiple of \<open>2 ^ n\<close>.\<close>

lemma and_not_low_bits:
  "(w :: 'a::len word) AND NOT (push_bit n 1 - 1) = push_bit n (drop_bit n w)"
proof -
  have "w AND NOT (mask n) = push_bit n (drop_bit n w)"
    by (rule bit_eqI) (auto simp: bit_simps)
  then show ?thesis by (simp add: mask_eq_exp_minus_1 push_bit_of_1)
qed

lemma unat_round_down: "unat ((w :: 'a::len word) AND NOT (push_bit n 1 - 1)) = unat w div 2 ^ n * 2 ^ n"
proof -
  have "unat w div 2 ^ n * 2 ^ n \<le> unat w" by simp
  also have "\<dots> < 2 ^ LENGTH('a)" by (rule unsigned_less)
  finally show ?thesis
    unfolding and_not_low_bits unat_push_bit unat_drop_bit by simp
qed

lemma unat_add_exact [word_nat]:
  fixes a b :: "'a::len word"
  assumes "unat a + unat b < 2 ^ LENGTH('a)"
  shows "unat (a + b) = unat a + unat b"
  using assms by (simp add: unat_word_ariths)

lemma unat_sub_exact [word_nat]:
  fixes a b :: "'a::len word"
  assumes "unat b \<le> unat a"
  shows "unat (a - b) = unat a - unat b"
  using assms by (simp add: unat_sub word_le_nat_alt)

lemma unat_of_nat_exact [word_nat]:
  "n < 2 ^ LENGTH('a) \<Longrightarrow> unat (word_of_nat n :: 'a::len word) = n"
  by (simp add: unat_of_nat)

lemma unat_ucast_exact [word_nat]:
  fixes w :: "'a::len word"
  assumes "unat w < 2 ^ LENGTH('b)"
  shows "unat (ucast w :: 'b::len word) = unat w"
proof -
  have "unat (ucast w :: 'b word) = take_bit LENGTH('b) (unat w)" by (rule unsigned_ucast_eq)
  then show ?thesis using assms by (simp add: take_bit_eq_mod)
qed

lemma unat_ucast_32_64 [simp]: "unat (ucast (w :: 32 word) :: 64 word) = unat w"
  using unsigned_less [of w, where ?'a = nat] by (intro unat_ucast_exact) simp

lemma unat_ucast_16_32 [simp]: "unat (ucast (w :: 16 word) :: 32 word) = unat w"
  using unsigned_less [of w, where ?'a = nat] by (intro unat_ucast_exact) simp

lemma sint_of_small_nat:
  assumes "n < 2 ^ 31"
  shows "sint (word_of_nat n :: 32 word) = int n"
proof -
  have "signed_take_bit 31 (int n) = int n"
    using assms by (subst signed_take_bit_int_eq_self_iff) auto
  then show ?thesis by (simp add: signed_of_nat)
qed

section \<open>Rounding\<close>

text \<open>The rounding macros of \<open>util.h\<close> for a power-of-two \<open>sz\<close>.\<close>

definition ROUNDUP :: "64 word \<Rightarrow> 64 word \<Rightarrow> 64 word" where
  "ROUNDUP v sz = (v + (sz - 1)) AND NOT (sz - 1)"

definition ROUNDDOWN :: "64 word \<Rightarrow> 64 word \<Rightarrow> 64 word" where
  "ROUNDDOWN v sz = v AND NOT (sz - 1)"

lemma ROUNDUP_nat:
  assumes "unat v + 2 ^ sh \<le> 2 ^ 64" and "sh < 64"
  shows "unat (ROUNDUP v (push_bit sh 1)) = (unat v + (2 ^ sh - 1)) div 2 ^ sh * 2 ^ sh"
proof -
  have lt: "(2 :: nat) ^ sh < 2 ^ 64" using assms(2) by (intro power_strict_increasing) auto
  then have one: "unat (push_bit sh 1 :: 64 word) = 2 ^ sh" by (simp add: unat_push_bit del: push_bit_of_1)
  then have "unat (push_bit sh 1 - 1 :: 64 word) = 2 ^ sh - 1"
    by (subst unat_sub_exact) (simp_all del: push_bit_of_1)
  moreover have "unat v + (2 ^ sh - 1) < 2 ^ 64" using assms(1) by (simp add: less_eq_Suc_le)
  ultimately have "unat (v + (push_bit sh 1 - 1)) = unat v + (2 ^ sh - 1)"
    by (subst unat_add_exact) (simp_all del: push_bit_of_1)
  then show ?thesis unfolding ROUNDUP_def unat_round_down by simp
qed

section \<open>Lists updated by index\<close>

lemma nth_update_If:
  "i < length xs \<Longrightarrow> xs[i := v] ! j = (if i = j then v else xs ! j)"
  by (auto simp: nth_list_update)

lemma set_update_subset: "set (xs[i := v]) \<subseteq> insert v (set xs)"
  by (rule set_update_subset_insert)

section \<open>Splitting a list at the first element with a property\<close>

text \<open>
  The linked-list walks of the code (\<open>while (e->next && P(e)) e = e->next\<close>) stop at the
  first element with a property; the facts below are how the proofs speak of it.
\<close>

lemma takeWhile_dropWhile_first:
  assumes "\<exists>x \<in> set xs. P x"
  shows "\<exists>ys z zs. xs = ys @ z # zs \<and> P z \<and> (\<forall>y \<in> set ys. \<not> P y)"
  using split_list_first_prop [OF assms] by blast

lemma all_less_Suc_split: "(\<forall>j < Suc n. P j) \<longleftrightarrow> P 0 \<and> (\<forall>j < n. P (Suc j))"
  using less_Suc_eq_0_disj by auto

lemma last_index_with:
  "P 0 \<Longrightarrow> 0 < n \<Longrightarrow> \<exists>i < n. P i \<and> (Suc i < n \<longrightarrow> \<not> P (Suc i))"
proof (induction n)
  case (Suc m)
  show ?case
  proof (cases "P m")
    case False
    then have "0 < m" using Suc.prems(1) by (cases m) auto
    then obtain i where "i < m" "P i" "Suc i < m \<longrightarrow> \<not> P (Suc i)"
      using Suc.IH Suc.prems(1) by auto
    then show ?thesis using False by (metis less_Suc_eq Suc_lessI)
  qed auto
qed simp

lemma sorted_wrt_insert_after:
  assumes "transp R" and "sorted_wrt R xs" and "i < length xs" and "R (xs ! i) x"
    and "Suc i < length xs \<Longrightarrow> R x (xs ! Suc i)"
  shows "sorted_wrt R (take (Suc i) xs @ x # drop (Suc i) xs)"
proof -
  have "R y x" if y: "y \<in> set (take (Suc i) xs)" for y
  proof -
    from y obtain j where j: "y = xs ! j" "j \<le> i" "j < length xs"
      by (auto simp: in_set_conv_nth)
    show ?thesis
    proof (cases "j = i")
      case False
      then have "R y (xs ! i)" using j assms(2,3) by (simp add: sorted_wrt_iff_nth_less)
      then show ?thesis using assms(1,4) by (blast dest: transpD)
    qed (use j assms(4) in simp)
  qed
  moreover have "R x y" if y: "y \<in> set (drop (Suc i) xs)" for y
  proof -
    from y obtain j where j: "y = xs ! j" "Suc i \<le> j" "j < length xs"
      by (auto simp: in_set_conv_nth)
    show ?thesis
    proof (cases "j = Suc i")
      case False
      then have "R (xs ! Suc i) y" using j assms(2) by (simp add: sorted_wrt_iff_nth_less)
      then show ?thesis using j assms(1,5) by (meson le_less_trans transpD)
    qed (use j assms(5) in simp)
  qed
  moreover have "sorted_wrt R (take (Suc i) xs @ drop (Suc i) xs)" using assms(2) by simp
  ultimately show ?thesis by (simp add: sorted_wrt_append del: append_take_drop_id)
qed

lemma sorted_wrt_remove_at:
  "sorted_wrt R xs \<Longrightarrow> sorted_wrt R (take i xs @ drop (Suc i) xs)"
  by (auto simp: sorted_wrt_iff_nth_less nth_append)

lemma set_take_Un_drop [simp]: "set (take i xs) \<union> set (drop i xs) = set xs"
  by (metis append_take_drop_id set_append)

lemma distinct_map_remove_at:
  assumes "i < length xs" and "distinct (map f xs)"
  shows "set (take i xs @ drop (Suc i) xs) = set xs - {xs ! i}"
    and "distinct (map f (take i xs @ drop (Suc i) xs))"
proof -
  have xs: "xs = take i xs @ xs ! i # drop (Suc i) xs"
    using assms(1) by (simp add: id_take_nth_drop)
  have d: "distinct (map f (take i xs @ xs ! i # drop (Suc i) xs))" using xs assms(2) by simp
  then have "xs ! i \<notin> set (take i xs)" "xs ! i \<notin> set (drop (Suc i) xs)" by auto
  then show "set (take i xs @ drop (Suc i) xs) = set xs - {xs ! i}"
    by (subst (3) xs) auto
  show "distinct (map f (take i xs @ drop (Suc i) xs))" using d by auto
qed

end
