(* ===== verification/Handle.thy ===== *)
theory Handle
  imports Prelude
begin

text \<open>
  The two handle databases: \<open>core/kernel/handle.c\<close> (handles from 0, -1 for failure) and
  \<open>ta/pkcs11/src/handle.c\<close> (handle 0 reserved as invalid). A database is an array of
  pointers that doubles when it is full. A pointer is \<open>None\<close> for NULL. The heap is a
  parameter: \<open>realloc_ok b\<close> says that \<open>realloc\<close> can provide \<open>b\<close> bytes.
\<close>

section \<open>The database\<close>

record 'p handle_db =
  ptrs :: "'p option list"
  max_ptrs :: nat

definition HANDLE_DB_INITIAL_MAX_PTRS :: nat where
  "HANDLE_DB_INITIAL_MAX_PTRS = 4"

text \<open>\<open>sizeof(void *)\<close>; a byte count is a \<open>size_t\<close>, so the product wraps at 64 bits.\<close>

definition ptr_bytes :: "nat \<Rightarrow> nat" where
  "ptr_bytes n = n * 8 mod 2 ^ 64"

text \<open>The cast of a \<open>size_t\<close> index to the \<open>int\<close> the core interface returns.\<close>

definition int_of_size :: "nat \<Rightarrow> int" where
  "int_of_size n = sint (word_of_nat n :: 32 word)"

text \<open>The search loop: the first empty location at or after \<open>n\<close>, or \<open>max_ptrs\<close>.\<close>

function find_empty :: "'p handle_db \<Rightarrow> nat \<Rightarrow> nat" where
  "find_empty db n =
     (if n < max_ptrs db then (if ptrs db ! n = None then n else find_empty db (Suc n)) else n)"
  by pat_completeness auto
termination
  by (relation "measure (\<lambda>(db, n). max_ptrs db - n)") auto

declare find_empty.simps [simp del]

lemma find_empty_unfold:
  "n < max_ptrs db \<Longrightarrow> ptrs db ! n = None \<Longrightarrow> find_empty db n = n"
  "n < max_ptrs db \<Longrightarrow> ptrs db ! n = Some p \<Longrightarrow> find_empty db n = find_empty db (Suc n)"
  "\<not> n < max_ptrs db \<Longrightarrow> find_empty db n = n"
  by (simp_all only: find_empty.simps [of db n] if_True if_False not_Some_eq option.simps simp_thms)

text \<open>The growth step: \<open>realloc\<close>, then the new half is zeroed.\<close>

definition grown_size :: "'p handle_db \<Rightarrow> nat" where
  "grown_size db = (if max_ptrs db \<noteq> 0 then max_ptrs db * 2 else HANDLE_DB_INITIAL_MAX_PTRS)"

definition grow_ptrs :: "(nat \<Rightarrow> bool) \<Rightarrow> 'p handle_db \<Rightarrow> 'p handle_db option" where
  "grow_ptrs realloc_ok db =
     (let new_max_ptrs = grown_size db
      in if realloc_ok (ptr_bytes new_max_ptrs)
         then Some \<lparr>ptrs = ptrs db @ replicate (new_max_ptrs - max_ptrs db) None,
                    max_ptrs = new_max_ptrs\<rparr>
         else None)"

section \<open>core/kernel/handle.c\<close>

text \<open>
  The pointer destructor is called on the live pointers in index order: the list of its
  calls is the effect the model returns. \<open>destructor = False\<close> is a NULL \<open>ptr_destructor\<close>.
\<close>

definition handle_db_destroy ::
    "'p handle_db option \<Rightarrow> bool \<Rightarrow> 'p list \<times> 'p handle_db option" where
  "handle_db_destroy odb destructor =
     (case odb of
        None \<Rightarrow> ([], None)
      | Some db \<Rightarrow>
          (if destructor then map the (filter (\<lambda>p. p \<noteq> None) (take (max_ptrs db) (ptrs db)))
           else [],
           Some (db\<lparr>ptrs := [], max_ptrs := 0\<rparr>)))"

definition handle_db_is_empty :: "'p handle_db option \<Rightarrow> bool" where
  "handle_db_is_empty odb =
     (case odb of
        None \<Rightarrow> True
      | Some db \<Rightarrow> \<not> (\<exists>n \<in> set [0..<max_ptrs db]. ptrs db ! n \<noteq> None))"

definition handle_get ::
    "(nat \<Rightarrow> bool) \<Rightarrow> 'p handle_db option \<Rightarrow> 'p option \<Rightarrow> int \<times> 'p handle_db option" where
  "handle_get realloc_ok odb ptr =
     (case (odb, ptr) of
        (Some db, Some p) \<Rightarrow>
          (let n = find_empty db 0
           in if n < max_ptrs db
              then (int_of_size n, Some (db\<lparr>ptrs := (ptrs db)[n := Some p]\<rparr>))
              else (case grow_ptrs realloc_ok db of
                      None \<Rightarrow> (-1, Some db)
                    | Some db' \<Rightarrow>
                        (int_of_size n, Some (db'\<lparr>ptrs := (ptrs db')[n := Some p]\<rparr>))))
      | _ \<Rightarrow> (-1, odb))"

definition handle_put ::
    "'p handle_db option \<Rightarrow> int \<Rightarrow> 'p option \<times> 'p handle_db option" where
  "handle_put odb handle =
     (case odb of
        None \<Rightarrow> (None, None)
      | Some db \<Rightarrow>
          if handle < 0 \<or> nat handle \<ge> max_ptrs db then (None, Some db)
          else (ptrs db ! nat handle, Some (db\<lparr>ptrs := (ptrs db)[nat handle := None]\<rparr>)))"

definition handle_lookup :: "'p handle_db option \<Rightarrow> int \<Rightarrow> 'p option" where
  "handle_lookup odb handle =
     (case odb of
        None \<Rightarrow> None
      | Some db \<Rightarrow>
          if handle < 0 \<or> nat handle \<ge> max_ptrs db then None else ptrs db ! nat handle)"

section \<open>ta/pkcs11/src/handle.c\<close>

definition pkcs11_handle_db_init :: "'p handle_db" where
  "pkcs11_handle_db_init = \<lparr>ptrs = [], max_ptrs = 0\<rparr>"

definition pkcs11_handle_db_destroy :: "'p handle_db option \<Rightarrow> 'p handle_db option" where
  "pkcs11_handle_db_destroy odb =
     (case odb of None \<Rightarrow> None | Some db \<Rightarrow> Some (db\<lparr>ptrs := [], max_ptrs := 0\<rparr>))"

text \<open>
  The loop starts at index 1, so on an empty database \<open>n\<close> stays 1 and the first handle
  is 1. Handles and sizes are \<open>uint32_t\<close> here: doubling wraps at 32 bits.
\<close>

definition pkcs11_grow_ptrs :: "(nat \<Rightarrow> bool) \<Rightarrow> 'p handle_db \<Rightarrow> 'p handle_db option" where
  "pkcs11_grow_ptrs realloc_ok db =
     (let new_max_ptrs = grown_size db mod 2 ^ 32
      in if realloc_ok (ptr_bytes new_max_ptrs)
         then Some \<lparr>ptrs = take new_max_ptrs (ptrs db) @ replicate (new_max_ptrs - max_ptrs db) None,
                    max_ptrs = new_max_ptrs\<rparr>
         else None)"

definition pkcs11_handle_get ::
    "(nat \<Rightarrow> bool) \<Rightarrow> 'p handle_db option \<Rightarrow> 'p option \<Rightarrow> nat \<times> 'p handle_db option" where
  "pkcs11_handle_get realloc_ok odb ptr =
     (case (odb, ptr) of
        (Some db, Some p) \<Rightarrow>
          (let n = find_empty db 1
           in if n < max_ptrs db
              then (n, Some (db\<lparr>ptrs := (ptrs db)[n := Some p]\<rparr>))
              else (case pkcs11_grow_ptrs realloc_ok db of
                      None \<Rightarrow> (0, Some db)
                    | Some db' \<Rightarrow> (n, Some (db'\<lparr>ptrs := (ptrs db')[n := Some p]\<rparr>))))
      | _ \<Rightarrow> (0, odb))"

definition pkcs11_handle_put ::
    "'p handle_db option \<Rightarrow> nat \<Rightarrow> 'p option \<times> 'p handle_db option" where
  "pkcs11_handle_put odb handle =
     (case odb of
        None \<Rightarrow> (None, None)
      | Some db \<Rightarrow>
          if handle = 0 \<or> handle \<ge> max_ptrs db then (None, Some db)
          else (ptrs db ! handle, Some (db\<lparr>ptrs := (ptrs db)[handle := None]\<rparr>)))"

definition pkcs11_handle_lookup :: "'p handle_db option \<Rightarrow> nat \<Rightarrow> 'p option" where
  "pkcs11_handle_lookup odb handle =
     (case odb of
        None \<Rightarrow> None
      | Some db \<Rightarrow> if handle = 0 \<or> handle \<ge> max_ptrs db then None else ptrs db ! handle)"

text \<open>The reverse lookup: the first index from 1 that holds the pointer, else 0.\<close>

definition pkcs11_handle_lookup_handle :: "'p handle_db \<Rightarrow> 'p option \<Rightarrow> nat" where
  "pkcs11_handle_lookup_handle db ptr =
     (case ptr of
        None \<Rightarrow> 0
      | Some p \<Rightarrow>
          (case List.find (\<lambda>n. ptrs db ! n = Some p) [1..<max_ptrs db] of
             None \<Rightarrow> 0
           | Some n \<Rightarrow> n))"

section \<open>The interface of a handle store\<close>

text \<open>
  What the users of a handle database rely on: a new handle is one that was not in use, it
  finds its pointer and nothing else changes; putting a handle returns what it found and
  makes it unused. Both databases provide it.
\<close>

locale handle_store =
  fixes inv :: "'db \<Rightarrow> bool"
    and get :: "'db \<Rightarrow> 'p \<Rightarrow> 'h option \<times> 'db"
    and put :: "'db \<Rightarrow> 'h \<Rightarrow> 'p option \<times> 'db"
    and lookup :: "'db \<Rightarrow> 'h \<Rightarrow> 'p option"
  assumes get_Some: "inv db \<Longrightarrow> get db p = (Some h, db') \<Longrightarrow>
      lookup db h = None \<and> lookup db' = (lookup db)(h \<mapsto> p) \<and> inv db'"
    and get_None: "inv db \<Longrightarrow> get db p = (None, db') \<Longrightarrow> db' = db"
    and put_law: "inv db \<Longrightarrow> put db h = (r, db') \<Longrightarrow>
      r = lookup db h \<and> lookup db' = (lookup db)(h := None) \<and> inv db'"

text \<open>A client's run: a list of calls, and the events (calls with their results) it sees.\<close>

datatype ('p, 'h) handle_call = Get 'p | Put 'h

datatype ('p, 'h) handle_event = Got 'p "'h option" | Took 'h "'p option"

fun run_handles ::
    "('db \<Rightarrow> 'p \<Rightarrow> 'h option \<times> 'db) \<Rightarrow> ('db \<Rightarrow> 'h \<Rightarrow> 'p option \<times> 'db) \<Rightarrow> 'db \<Rightarrow>
     ('p, 'h) handle_call list \<Rightarrow> ('p, 'h) handle_event list \<times> 'db" where
  "run_handles get put db [] = ([], db)"
| "run_handles get put db (Get p # cs) =
     (let (h, db') = get db p; (es, db'') = run_handles get put db' cs in (Got p h # es, db''))"
| "run_handles get put db (Put h # cs) =
     (let (r, db') = put db h; (es, db'') = run_handles get put db' cs in (Took h r # es, db''))"

text \<open>
  The abstract store is a map; \<open>abs_event\<close> is undefined on an event no map allows: a handle
  handed out while in use, or a put that returns another pointer than the one registered.
\<close>

fun abs_event :: "('h \<rightharpoonup> 'p) \<Rightarrow> ('p, 'h) handle_event \<Rightarrow> ('h \<rightharpoonup> 'p) option" where
  "abs_event m (Got p None) = Some m"
| "abs_event m (Got p (Some h)) = (if m h = None then Some (m(h \<mapsto> p)) else None)"
| "abs_event m (Took h r) = (if m h = r then Some (m(h := None)) else None)"

fun abs_run :: "('h \<rightharpoonup> 'p) \<Rightarrow> ('p, 'h) handle_event list \<Rightarrow> ('h \<rightharpoonup> 'p) option" where
  "abs_run m [] = Some m"
| "abs_run m (e # es) = (case abs_event m e of None \<Rightarrow> None | Some m' \<Rightarrow> abs_run m' es)"

context handle_store
begin

lemma run_refines:
  "inv db \<Longrightarrow> run_handles get put db cs = (es, db') \<Longrightarrow>
     abs_run (lookup db) es = Some (lookup db') \<and> inv db'"
proof (induction cs arbitrary: db es)
  case Nil
  then show ?case by simp
next
  case (Cons c cs)
  show ?case
  proof (cases c)
    case (Get p)
    obtain h db1 where g: "get db p = (h, db1)" by fastforce
    obtain es1 where r: "run_handles get put db1 cs = (es1, db')" "es = Got p h # es1"
      using Cons.prems(2) Get g by (auto simp: Let_def split: prod.splits)
    show ?thesis
    proof (cases h)
      case None
      then show ?thesis using Cons r g get_None by fastforce
    next
      case (Some hh)
      then show ?thesis using Cons.IH Cons.prems(1) r g get_Some by fastforce
    qed
  next
    case (Put h)
    obtain r1 db1 where g: "put db h = (r1, db1)" by fastforce
    then obtain es1 where "run_handles get put db1 cs = (es1, db')" "es = Took h r1 # es1"
      using Cons.prems(2) Put by (auto simp: Let_def split: prod.splits)
    then show ?thesis using Cons.IH Cons.prems(1) g put_law by fastforce
  qed
qed

end

section \<open>The two databases provide it\<close>

text \<open>
  The heap never serves 8 GiB: the core heap is \<open>CFG_CORE_HEAP_SIZE\<close> bytes and a trusted
  application's heap is smaller still. That bounds the number of handles below \<open>2 ^ 30\<close>.
\<close>

definition heap_bounded :: "(nat \<Rightarrow> bool) \<Rightarrow> bool" where
  "heap_bounded realloc_ok \<longleftrightarrow> (\<forall>b. realloc_ok b \<longrightarrow> b < 2 ^ 33)"

definition handle_db_inv :: "'p handle_db \<Rightarrow> bool" where
  [inv_defs]: "handle_db_inv db \<longleftrightarrow> length (ptrs db) = max_ptrs db \<and> max_ptrs db < 2 ^ 30"

text \<open>The content of an index, NULL outside the array.\<close>

definition slot_at :: "'p handle_db \<Rightarrow> nat \<Rightarrow> 'p option" where
  "slot_at db i = (if i < max_ptrs db then ptrs db ! i else None)"

text \<open>In the PKCS#11 database index 0 stays empty as well.\<close>

definition pkcs11_handle_db_inv :: "'p handle_db \<Rightarrow> bool" where
  [inv_defs]: "pkcs11_handle_db_inv db \<longleftrightarrow>
     handle_db_inv db \<and> slot_at db 0 = None"

lemma find_empty_spec:
  "n \<le> find_empty db n \<and>
   (find_empty db n < max_ptrs db \<longrightarrow> ptrs db ! find_empty db n = None) \<and>
   (\<forall>k. n \<le> k \<and> k < find_empty db n \<longrightarrow> k < max_ptrs db \<and> ptrs db ! k \<noteq> None) \<and>
   (n \<le> max_ptrs db \<longrightarrow> find_empty db n \<le> max_ptrs db)"
proof (induction db n rule: find_empty.induct)
  case (1 db n)
  show ?case
  proof (cases "n < max_ptrs db \<and> ptrs db ! n \<noteq> None")
    case True
    then have eq: "find_empty db n = find_empty db (Suc n)" by (subst find_empty.simps) auto
    have "\<And>k. n \<le> k \<Longrightarrow> k = n \<or> Suc n \<le> k" by auto
    then show ?thesis using True "1.IH" eq by (metis Suc_leD Suc_leI)
  next
    case False
    then have "find_empty db n = n" by (subst find_empty.simps) auto
    with False show ?thesis by auto
  qed
qed

lemma int_of_size_small: "n < 2 ^ 31 \<Longrightarrow> int_of_size n = int n"
  by (simp add: int_of_size_def sint_of_small_nat)

lemma grow_ptrs_Some:
  assumes "heap_bounded realloc_ok" and "handle_db_inv db"
    and "grow_ptrs realloc_ok db = Some db'"
  shows "handle_db_inv db' \<and> max_ptrs db < max_ptrs db'
    \<and> ptrs db' = ptrs db @ replicate (max_ptrs db' - max_ptrs db) None"
proof -
  let ?n = "grown_size db"
  have lt: "?n < 2 ^ 31" "max_ptrs db < ?n"
    using assms(2) by (auto simp: grown_size_def inv_defs HANDLE_DB_INITIAL_MAX_PTRS_def)
  then have "ptr_bytes ?n = ?n * 8" by (simp add: ptr_bytes_def)
  moreover have "ptr_bytes ?n < 2 ^ 33"
    using assms(1,3) by (auto simp: grow_ptrs_def heap_bounded_def Let_def split: if_splits)
  ultimately have "?n < 2 ^ 30" by simp
  then show ?thesis
    using assms lt by (auto simp: grow_ptrs_def Let_def inv_defs split: if_splits)
qed

lemma pkcs11_grow_ptrs_eq:
  assumes "heap_bounded realloc_ok" and "handle_db_inv db"
  shows "pkcs11_grow_ptrs realloc_ok db = grow_ptrs realloc_ok db"
proof -
  have "grown_size db < 2 ^ 32" and "length (ptrs db) \<le> grown_size db"
    using assms(2) by (auto simp: grown_size_def inv_defs HANDLE_DB_INITIAL_MAX_PTRS_def)
  then show ?thesis by (simp add: pkcs11_grow_ptrs_def grow_ptrs_def Let_def)
qed

text \<open>The operations with the failure value read as \<open>None\<close>, as the callers test it.\<close>

definition core_get :: "(nat \<Rightarrow> bool) \<Rightarrow> 'p handle_db \<Rightarrow> 'p \<Rightarrow> int option \<times> 'p handle_db" where
  "core_get realloc_ok db p =
     (let (h, odb) = handle_get realloc_ok (Some db) (Some p)
      in (if h = -1 then None else Some h, the odb))"

definition core_put :: "'p handle_db \<Rightarrow> int \<Rightarrow> 'p option \<times> 'p handle_db" where
  "core_put db h = (let (r, odb) = handle_put (Some db) h in (r, the odb))"

definition core_lookup :: "'p handle_db \<Rightarrow> int \<Rightarrow> 'p option" where
  "core_lookup db h = handle_lookup (Some db) h"

definition ta_get :: "(nat \<Rightarrow> bool) \<Rightarrow> 'p handle_db \<Rightarrow> 'p \<Rightarrow> nat option \<times> 'p handle_db" where
  "ta_get realloc_ok db p =
     (let (h, odb) = pkcs11_handle_get realloc_ok (Some db) (Some p)
      in (if h = 0 then None else Some h, the odb))"

definition ta_put :: "'p handle_db \<Rightarrow> nat \<Rightarrow> 'p option \<times> 'p handle_db" where
  "ta_put db h = (let (r, odb) = pkcs11_handle_put (Some db) h in (r, the odb))"

definition ta_lookup :: "'p handle_db \<Rightarrow> nat \<Rightarrow> 'p option" where
  "ta_lookup db h = pkcs11_handle_lookup (Some db) h"

lemmas core_defs = core_get_def core_put_def core_lookup_def
  handle_get_def handle_put_def handle_lookup_def

lemmas ta_defs = ta_get_def ta_put_def ta_lookup_def
  pkcs11_handle_get_def pkcs11_handle_put_def pkcs11_handle_lookup_def

lemma core_lookup_slot: "core_lookup db h = (if h < 0 then None else slot_at db (nat h))"
  by (simp add: core_lookup_def handle_lookup_def slot_at_def)

lemma ta_lookup_slot: "ta_lookup db h = (if h = 0 then None else slot_at db h)"
  by (simp add: ta_lookup_def pkcs11_handle_lookup_def slot_at_def)

lemma slot_at_update:
  "length (ptrs db) = max_ptrs db \<Longrightarrow> n < max_ptrs db \<Longrightarrow>
     slot_at (db\<lparr>ptrs := (ptrs db)[n := v]\<rparr>) = (slot_at db)(n := v)"
  by (auto simp: slot_at_def fun_eq_iff nth_list_update)

text \<open>What a get does to the array: the pointer goes to an empty index of the old or grown one.\<close>

lemma slot_found:
  assumes "heap_bounded realloc_ok" and "handle_db_inv db" and n: "n = find_empty db k"
    and k: "max_ptrs db \<noteq> 0 \<longrightarrow> k \<le> max_ptrs db" "k < 4"
    and db': "(n < max_ptrs db \<and> db1 = db) \<or> (\<not> n < max_ptrs db \<and> grow_ptrs realloc_ok db = Some db1)"
  shows "handle_db_inv db1 \<and> n < max_ptrs db1 \<and> k \<le> n \<and>
    slot_at db1 = slot_at db \<and> slot_at db n = None"
proof (cases "n < max_ptrs db")
  case True
  then show ?thesis using assms find_empty_spec [of k db] by (auto simp: slot_at_def)
next
  case False
  then have g: "grow_ptrs realloc_ok db = Some db1" using db' by simp
  note gs = grow_ptrs_Some [OF assms(1,2) g]
  have n_eq: "n = (if max_ptrs db = 0 then k else max_ptrs db)"
  proof (cases "max_ptrs db = 0")
    case True
    then show ?thesis using n by (subst (asm) find_empty.simps) simp
  next
    case F: False
    then show ?thesis using k n False find_empty_spec [of k db] by auto
  qed
  have "max_ptrs db1 = grown_size db"
    using g by (auto simp: grow_ptrs_def Let_def split: if_splits)
  then have "n < max_ptrs db1"
    using n_eq k by (auto simp: grown_size_def HANDLE_DB_INITIAL_MAX_PTRS_def split: if_splits)
  then show ?thesis
    using gs assms(2) find_empty_spec [of k db] n False
    by (auto simp: inv_defs nth_append slot_at_def fun_eq_iff)
qed

definition slot_for :: "(nat \<Rightarrow> bool) \<Rightarrow> 'p handle_db \<Rightarrow> nat \<Rightarrow> 'p handle_db \<Rightarrow> bool" where
  "slot_for realloc_ok db n db1 \<longleftrightarrow>
     (n < max_ptrs db \<and> db1 = db) \<or> (\<not> n < max_ptrs db \<and> grow_ptrs realloc_ok db = Some db1)"

lemma core_get_cases:
  assumes "heap_bounded realloc_ok" and "handle_db_inv db"
  shows "(core_get realloc_ok db p = (None, db)) \<or>
    (\<exists>db1. slot_for realloc_ok db (find_empty db 0) db1 \<and> core_get realloc_ok db p =
       (Some (int (find_empty db 0)), db1\<lparr>ptrs := (ptrs db1)[find_empty db 0 := Some p]\<rparr>))"
proof -
  have "find_empty db 0 < 2 ^ 31"
    using assms(2) find_empty_spec [of 0 db] by (auto simp: inv_defs)
  then show ?thesis
    by (auto simp: core_defs slot_for_def Let_def int_of_size_small split: option.splits)
qed

lemma ta_get_cases:
  assumes "heap_bounded realloc_ok" and "handle_db_inv db"
  shows "(ta_get realloc_ok db p = (None, db)) \<or>
    (\<exists>db1. slot_for realloc_ok db (find_empty db 1) db1 \<and> ta_get realloc_ok db p =
       (Some (find_empty db 1), db1\<lparr>ptrs := (ptrs db1)[find_empty db 1 := Some p]\<rparr>))"
proof -
  have "find_empty db 1 \<noteq> 0" using find_empty_spec [of 1 db] by auto
  then show ?thesis
    using pkcs11_grow_ptrs_eq [OF assms]
    by (auto simp: ta_defs slot_for_def Let_def split: option.splits)
qed

lemma slot_for_stored:
  assumes "heap_bounded realloc_ok" and "handle_db_inv db"
    and "max_ptrs db \<noteq> 0 \<longrightarrow> k \<le> max_ptrs db" "k < 4"
    and "slot_for realloc_ok db (find_empty db k) db1"
    and "db' = db1\<lparr>ptrs := (ptrs db1)[find_empty db k := Some p]\<rparr>"
  shows "handle_db_inv db' \<and> find_empty db k < max_ptrs db' \<and> k \<le> find_empty db k \<and>
    slot_at db' = (slot_at db)(find_empty db k \<mapsto> p) \<and> slot_at db (find_empty db k) = None"
  using slot_found [OF assms(1,2) refl assms(3,4) assms(5) [unfolded slot_for_def]] assms(6)
  by (auto simp: inv_defs slot_at_update)

locale tee_heap =
  fixes realloc_ok :: "nat \<Rightarrow> bool"
  assumes bounded: "heap_bounded realloc_ok"

sublocale tee_heap \<subseteq> core_store: handle_store handle_db_inv "core_get realloc_ok" core_put core_lookup
proof
  fix db db' :: "'p handle_db" and p h
  assume inv: "handle_db_inv db" and g: "core_get realloc_ok db p = (Some h, db')"
  obtain db1 where s: "slot_for realloc_ok db (find_empty db 0) db1" and h: "h = int (find_empty db 0)"
    and db': "db' = db1\<lparr>ptrs := (ptrs db1)[find_empty db 0 := Some p]\<rparr>"
    using core_get_cases [OF bounded inv, of p] g by auto
  note st = slot_for_stored [OF bounded inv _ _ s db']
  have "core_lookup db' i = ((core_lookup db)(h \<mapsto> p)) i" for i
    using st by (auto simp: core_lookup_slot h)
  then show "core_lookup db h = None \<and> core_lookup db' = (core_lookup db)(h \<mapsto> p) \<and> handle_db_inv db'"
    using st by (auto simp: core_lookup_slot h)
next
  fix db db' :: "'p handle_db" and p
  assume "handle_db_inv db" and "core_get realloc_ok db p = (None, db')"
  then show "db' = db" using core_get_cases [OF bounded, of db p] by auto
next
  fix db db' :: "'p handle_db" and h r
  assume inv: "handle_db_inv db" and g: "core_put db h = (r, db')"
  then have "core_lookup db' i = ((core_lookup db)(h := None)) i" for i
    by (auto simp: core_defs inv_defs nth_list_update split: if_splits)
  then show "r = core_lookup db h \<and> core_lookup db' = (core_lookup db)(h := None) \<and> handle_db_inv db'"
    using inv g by (auto simp: core_defs inv_defs split: if_splits)
qed

sublocale tee_heap \<subseteq> ta_store: handle_store pkcs11_handle_db_inv "ta_get realloc_ok" ta_put ta_lookup
proof
  fix db db' :: "'p handle_db" and p h
  assume inv: "pkcs11_handle_db_inv db" and g: "ta_get realloc_ok db p = (Some h, db')"
  then have inv': "handle_db_inv db" and k: "max_ptrs db \<noteq> 0 \<longrightarrow> 1 \<le> max_ptrs db"
    by (auto simp: pkcs11_handle_db_inv_def)
  obtain db1 where s: "slot_for realloc_ok db (find_empty db 1) db1" and h: "h = find_empty db 1"
    and db': "db' = db1\<lparr>ptrs := (ptrs db1)[find_empty db 1 := Some p]\<rparr>"
    using ta_get_cases [OF bounded inv', of p] g by auto
  note st = slot_for_stored [OF bounded inv' k _ s db']
  have "ta_lookup db' i = ((ta_lookup db)(h \<mapsto> p)) i" for i
    using st by (auto simp: ta_lookup_slot h)
  moreover have "slot_at db' 0 = None"
    using st inv by (auto simp: pkcs11_handle_db_inv_def)
  ultimately show "ta_lookup db h = None \<and> ta_lookup db' = (ta_lookup db)(h \<mapsto> p) \<and> pkcs11_handle_db_inv db'"
    using st by (auto simp: ta_lookup_slot h pkcs11_handle_db_inv_def)
next
  fix db db' :: "'p handle_db" and p
  assume "pkcs11_handle_db_inv db" and "ta_get realloc_ok db p = (None, db')"
  then show "db' = db"
    using ta_get_cases [OF bounded, of db p] by (auto simp: pkcs11_handle_db_inv_def)
next
  fix db db' :: "'p handle_db" and h r
  assume inv: "pkcs11_handle_db_inv db" and g: "ta_put db h = (r, db')"
  then have "ta_lookup db' i = ((ta_lookup db)(h := None)) i" for i
    by (auto simp: ta_defs inv_defs slot_at_def nth_list_update split: if_splits)
  then show "r = ta_lookup db h \<and> ta_lookup db' = (ta_lookup db)(h := None) \<and> pkcs11_handle_db_inv db'"
    using inv g by (auto simp: ta_defs inv_defs slot_at_def nth_list_update split: if_splits)
qed

text \<open>The heap of the default configuration, \<open>CFG_CORE_HEAP_SIZE ?= 65536\<close>.\<close>

definition default_heap :: "nat \<Rightarrow> bool" where
  "default_heap b \<longleftrightarrow> b \<le> 65536"

interpretation default_store: tee_heap default_heap
  by unfold_locales (simp add: heap_bounded_def default_heap_def)

context tee_heap
begin

lemmas core_run = core_store.run_refines
lemmas ta_run = ta_store.run_refines

end

section \<open>Properties\<close>

lemma empty_db [simp]:
  "core_lookup pkcs11_handle_db_init = Map.empty" "ta_lookup pkcs11_handle_db_init = Map.empty"
  "handle_db_inv pkcs11_handle_db_init" "pkcs11_handle_db_inv pkcs11_handle_db_init"
  by (auto simp: core_lookup_slot ta_lookup_slot slot_at_def pkcs11_handle_db_init_def inv_defs)

lemma replicate_4: "replicate 4 x = [x, x, x, x]"
  by (simp add: eval_nat_numeral)

text \<open>
  C30: Any sequence of \<open>handle_get\<close> and \<open>handle_put\<close> calls on an initially empty core handle
  database behaves as a map: no handle is handed out while in use, every put returns the
  pointer registered for the handle, growing the array moves no handle, and at the end
  \<open>handle_lookup\<close> is exactly the map that the events built.
\<close>

theorem core_handle_db_refines_map:
  assumes "heap_bounded realloc_ok"
    and "run_handles (core_get realloc_ok) core_put pkcs11_handle_db_init cs = (es, db)"
  shows "abs_run Map.empty es = Some (core_lookup db)"
  using tee_heap.core_run [OF tee_heap.intro [OF assms(1)] _ assms(2)] by simp

theorem core_handle_db_refines_map_witness:
  "abs_run Map.empty [Got (7 :: nat) (Some 0), Got 8 (Some 1), Took 0 (Some 7), Got 9 (Some 0)]
    = Some (core_lookup \<lparr>ptrs = [Some 9, Some 8, None, None], max_ptrs = 4\<rparr>)"
proof (rule core_handle_db_refines_map [where realloc_ok = default_heap
      and cs = "[Get 7, Get 8, Put 0, Get 9]"])
  show "heap_bounded default_heap" by (rule default_store.bounded)
  show "run_handles (core_get default_heap) core_put pkcs11_handle_db_init [Get 7, Get 8, Put 0, Get 9]
    = ([Got (7 :: nat) (Some 0), Got 8 (Some 1), Took 0 (Some 7), Got 9 (Some 0)],
       \<lparr>ptrs = [Some 9, Some 8, None, None], max_ptrs = 4\<rparr>)"
    by (simp add: core_defs pkcs11_handle_db_init_def grow_ptrs_def grown_size_def find_empty_unfold
        ptr_bytes_def HANDLE_DB_INITIAL_MAX_PTRS_def default_heap_def int_of_size_small replicate_4)
qed

text \<open>
  The PKCS#11 handle database behaves as a map in the same way, and it never uses
  handle 0, the value \<open>handle_get\<close> returns on failure.
\<close>

theorem pkcs11_handle_db_refines_map:
  assumes "heap_bounded realloc_ok"
    and "run_handles (ta_get realloc_ok) ta_put pkcs11_handle_db_init cs = (es, db)"
  shows "abs_run Map.empty es = Some (ta_lookup db) \<and> slot_at db 0 = None"
  using tee_heap.ta_run [OF tee_heap.intro [OF assms(1)] empty_db(4) assms(2)]
  by (simp add: pkcs11_handle_db_inv_def)

theorem pkcs11_handle_db_refines_map_witness:
  "abs_run Map.empty [Got (7 :: nat) (Some 1), Took 1 (Some 7), Took 1 None]
    = Some (ta_lookup \<lparr>ptrs = [None, None, None, None], max_ptrs = 4\<rparr>)"
proof -
  have "run_handles (ta_get default_heap) ta_put pkcs11_handle_db_init [Get 7, Put 1, Put 1]
    = ([Got (7 :: nat) (Some 1), Took 1 (Some 7), Took 1 None],
       \<lparr>ptrs = [None, None, None, None], max_ptrs = 4\<rparr>)"
    by (simp add: ta_defs pkcs11_handle_db_init_def pkcs11_grow_ptrs_def grown_size_def
        find_empty_unfold ptr_bytes_def HANDLE_DB_INITIAL_MAX_PTRS_def default_heap_def replicate_4)
  from pkcs11_handle_db_refines_map [OF default_store.bounded this] show ?thesis by blast
qed

text \<open>The reverse lookup finds a handle of the pointer, and returns 0 only when there is none.\<close>

lemma pkcs11_lookup_handle_correct:
  "(pkcs11_handle_lookup_handle db (Some p) = 0 \<longleftrightarrow> (\<forall>h. ta_lookup db h \<noteq> Some p)) \<and>
   (pkcs11_handle_lookup_handle db (Some p) \<noteq> 0 \<longrightarrow>
      ta_lookup db (pkcs11_handle_lookup_handle db (Some p)) = Some p)"
proof (cases "List.find (\<lambda>n. ptrs db ! n = Some p) [1..<max_ptrs db]")
  case None
  then have "pkcs11_handle_lookup_handle db (Some p) = 0"
    by (simp only: pkcs11_handle_lookup_handle_def option.simps)
  moreover have "\<forall>h. ta_lookup db h \<noteq> Some p"
    using None by (auto simp: find_None_iff ta_lookup_slot slot_at_def)
  ultimately show ?thesis by simp
next
  case (Some n)
  then have "n \<noteq> 0 \<and> n < max_ptrs db \<and> ptrs db ! n = Some p"
    by (auto simp: find_Some_iff)
  then have "ta_lookup db n = Some p" by (auto simp: ta_lookup_slot slot_at_def)
  moreover have "pkcs11_handle_lookup_handle db (Some p) = n"
    using Some by (simp only: pkcs11_handle_lookup_handle_def option.simps)
  ultimately show ?thesis using \<open>n \<noteq> 0 \<and> _\<close> by auto
qed

end
