(* ===== verification/Regions.thy ===== *)
theory Regions
  imports Prelude "HOL-Library.Disjoint_Sets"
begin

text \<open>
  The contract of an allocator of memory regions, as its users rely on it: a region that is
  handed out overlaps no live region, releasing a live region always works and touches no
  other, and a refused allocation leaves everything as it was.
\<close>

locale region_allocator =
  fixes inv :: "'pool \<Rightarrow> bool"
    and live_regions :: "'pool \<Rightarrow> 'r set"
    and region :: "'r \<Rightarrow> nat set"
    and usable :: "'pool \<Rightarrow> 'req \<Rightarrow> bool"
    and alloc :: "'req \<Rightarrow> 'pool \<Rightarrow> ('r option \<times> 'pool) option"
    and release :: "'r \<Rightarrow> 'pool \<Rightarrow> 'pool option"
  assumes separate: "inv p \<Longrightarrow> a \<in> live_regions p \<Longrightarrow> b \<in> live_regions p \<Longrightarrow> a \<noteq> b \<Longrightarrow>
      region a \<inter> region b = {}"
    and alloc_Some: "inv p \<Longrightarrow> usable p q \<Longrightarrow> alloc q p = Some (Some r, p') \<Longrightarrow>
      inv p' \<and> r \<notin> live_regions p \<and> live_regions p' = insert r (live_regions p)"
    and alloc_None: "inv p \<Longrightarrow> usable p q \<Longrightarrow> alloc q p = Some (None, p') \<Longrightarrow> p' = p"
    and alloc_returns: "inv p \<Longrightarrow> usable p q \<Longrightarrow> alloc q p \<noteq> None"
    and release_live: "inv p \<Longrightarrow> r \<in> live_regions p \<Longrightarrow>
      \<exists>p'. release r p = Some p' \<and> inv p' \<and> live_regions p' = live_regions p - {r}"

text \<open>The steps of a well-behaved user: usable requests, and releases of live regions.\<close>

datatype ('req, 'r) region_call = Acquire 'req | Release 'r

inductive region_step ::
    "('pool \<Rightarrow> 'r set) \<Rightarrow> ('pool \<Rightarrow> 'req \<Rightarrow> bool) \<Rightarrow> ('req \<Rightarrow> 'pool \<Rightarrow> ('r option \<times> 'pool) option) \<Rightarrow>
     ('r \<Rightarrow> 'pool \<Rightarrow> 'pool option) \<Rightarrow> ('req, 'r) region_call \<Rightarrow> 'pool \<Rightarrow> 'pool \<Rightarrow> bool"
  for live_regions usable alloc release where
  acquire: "usable p q \<Longrightarrow> alloc q p = Some (r, p') \<Longrightarrow>
     region_step live_regions usable alloc release (Acquire q) p p'"
| release: "r \<in> live_regions p \<Longrightarrow> release r p = Some p' \<Longrightarrow>
     region_step live_regions usable alloc release (Release r) p p'"

inductive_cases acquire_stepE: "region_step live_regions usable alloc release (Acquire q) p p'"
inductive_cases release_stepE: "region_step live_regions usable alloc release (Release r) p p'"

inductive region_run ::
    "('pool \<Rightarrow> 'r set) \<Rightarrow> ('pool \<Rightarrow> 'req \<Rightarrow> bool) \<Rightarrow> ('req \<Rightarrow> 'pool \<Rightarrow> ('r option \<times> 'pool) option) \<Rightarrow>
     ('r \<Rightarrow> 'pool \<Rightarrow> 'pool option) \<Rightarrow> ('req, 'r) region_call list \<Rightarrow> 'pool \<Rightarrow> 'pool \<Rightarrow> bool"
  for live_regions usable alloc release where
  stop: "region_run live_regions usable alloc release [] p p"
| again: "region_step live_regions usable alloc release c p p' \<Longrightarrow>
     region_run live_regions usable alloc release cs p' p'' \<Longrightarrow>
     region_run live_regions usable alloc release (c # cs) p p''"

context region_allocator
begin

lemma step_inv:
  assumes "region_step live_regions usable alloc release c p p'" and "inv p"
  shows "inv p'"
  using assms
proof (cases rule: region_step.cases)
  case (acquire q r)
  then show ?thesis using assms(2) alloc_Some alloc_None by (cases r) metis+
next
  case (release r)
  then show ?thesis using assms(2) release_live by force
qed

lemma run_inv:
  "region_run live_regions usable alloc release cs p p' \<Longrightarrow> inv p \<Longrightarrow> inv p'"
  by (induction rule: region_run.induct) (auto dest: step_inv)

lemma run_disjoint:
  assumes "region_run live_regions usable alloc release cs p p'" and "inv p"
  shows "disjoint_family_on region (live_regions p')"
  using run_inv [OF assms] separate by (auto simp: disjoint_family_on_def)

text \<open>No call of a well-behaved user panics.\<close>

lemma step_possible:
  assumes "inv p"
  shows "usable p q \<Longrightarrow> \<exists>p'. region_step live_regions usable alloc release (Acquire q) p p'"
    and "r \<in> live_regions p \<Longrightarrow> \<exists>p'. region_step live_regions usable alloc release (Release r) p p'"
proof -
  show "usable p q \<Longrightarrow> \<exists>p'. region_step live_regions usable alloc release (Acquire q) p p'"
    using alloc_returns [OF assms] by (metis region_step.acquire option.exhaust prod.exhaust)
  show "r \<in> live_regions p \<Longrightarrow> \<exists>p'. region_step live_regions usable alloc release (Release r) p p'"
    using release_live [OF assms] by (metis region_step.release)
qed

end

end
