(* ===== verification/TeeMm.thy ===== *)
theory TeeMm
  imports Regions
begin

text \<open>
  The page-granular memory manager \<open>core/mm/tee_mm.c\<close>. A pool is a singly linked list of
  entries that starts with a sentinel of size 0; the model holds it as the list of its
  entries in link order, \<open>[]\<close> for a NULL \<open>pool->entry\<close>. Entries are identified by the
  address \<open>malloc\<close> gave them (\<open>mm_id\<close>). Offsets and sizes are \<open>uint32_t\<close> counts of pages,
  addresses and byte sizes are 64-bit words, and every shift happens at the width the code
  has it. The spinlock makes each operation atomic and is not part of the state. \<open>None\<close> as
  the outer result of an operation is a failed assertion or \<open>panic()\<close>.
\<close>

section \<open>State\<close>

record tee_mm_entry =
  mm_id :: nat
  mm_offset :: "32 word"
  mm_size :: "32 word"

record tee_mm_pool =
  entry :: "tee_mm_entry list"
  lo :: "64 word"
  pool_size :: "64 word"
  flags :: "32 word"
  shift :: nat
  max_allocated :: "64 word"

definition TEE_MM_POOL_HI_ALLOC :: "32 word" where
  "TEE_MM_POOL_HI_ALLOC = 1"

definition hi_alloc :: "tee_mm_pool \<Rightarrow> bool" where
  "hi_alloc pool \<longleftrightarrow> flags pool AND TEE_MM_POOL_HI_ALLOC \<noteq> 0"

text \<open>\<open>((size - 1) >> shift) + 1\<close>: the number of pages that hold \<open>size\<close> bytes.\<close>

definition page_count :: "64 word \<Rightarrow> nat \<Rightarrow> 64 word" where
  "page_count sz sh = drop_bit sh (sz - 1) + 1"

section \<open>Initialisation\<close>

text \<open>\<open>head\<close> is what \<open>pcalloc\<close> returns for the sentinel.\<close>

definition tee_mm_init ::
    "nat option \<Rightarrow> tee_mm_pool option \<Rightarrow> 64 word \<Rightarrow> 64 word \<Rightarrow> nat \<Rightarrow> 32 word \<Rightarrow>
     (bool \<times> tee_mm_pool option) option" where
  "tee_mm_init head pool_arg lo_arg size_arg sh fl =
     (case pool_arg of
        None \<Rightarrow> Some (False, None)
      | Some pool \<Rightarrow>
          let lo' = ROUNDUP lo_arg (push_bit sh 1);
              rounded = lo' - lo_arg;
              size' = ROUNDDOWN (size_arg - rounded) (push_bit sh 1)
          in if \<not> drop_bit sh size' < 2 ^ 32 - 1 then None
             else
               let pool' = pool\<lparr>lo := lo', pool_size := size', shift := sh, flags := fl\<rparr>
               in (case head of
                     None \<Rightarrow> Some (False, Some (pool'\<lparr>entry := []\<rparr>))
                   | Some h \<Rightarrow>
                       Some (True, Some (pool'\<lparr>entry := [\<lparr>mm_id = h,
                         mm_offset = (if hi_alloc pool' then ucast (page_count size' sh) else 0),
                         mm_size = 0\<rparr>]\<rparr>))))"

section \<open>Statistics (\<open>CFG_WITH_STATS\<close>)\<close>

definition tee_mm_stats_allocated :: "tee_mm_pool \<Rightarrow> 64 word" where
  "tee_mm_stats_allocated pool =
     ucast (push_bit (shift pool) (fold (\<lambda>e sz. sz + mm_size e) (entry pool) 0))"

definition update_max_allocated :: "tee_mm_pool \<Rightarrow> tee_mm_pool" where
  "update_max_allocated pool =
     (let sz = tee_mm_stats_allocated pool
      in if sz > max_allocated pool then pool\<lparr>max_allocated := sz\<rparr> else pool)"

record malloc_stats =
  stats_size :: "64 word"
  stats_max_allocated :: "64 word"
  stats_allocated :: "64 word"

definition tee_mm_get_pool_stats ::
    "tee_mm_pool option \<Rightarrow> bool \<Rightarrow> (malloc_stats \<times> tee_mm_pool) option" where
  "tee_mm_get_pool_stats pool_arg reset =
     (case pool_arg of
        None \<Rightarrow> None
      | Some pool \<Rightarrow>
          Some (\<lparr>stats_size = pool_size pool, stats_max_allocated = max_allocated pool,
                 stats_allocated = tee_mm_stats_allocated pool\<rparr>,
                if reset then pool\<lparr>max_allocated := 0\<rparr> else pool))"

section \<open>Allocation\<close>

text \<open>
  The walk \<open>while (entry->next != NULL && go_on) entry = entry->next\<close>: the index of the
  entry where it stops.
\<close>

fun walk :: "(tee_mm_entry \<Rightarrow> tee_mm_entry \<Rightarrow> bool) \<Rightarrow> tee_mm_entry list \<Rightarrow> nat" where
  "walk go_on (e # n # es) = (if go_on e n then Suc (walk go_on (n # es)) else 0)"
| "walk go_on _ = 0"

text \<open>\<open>tee_mm_add\<close>: the new entry goes right after the one at index \<open>i\<close>.\<close>

definition tee_mm_add :: "nat \<Rightarrow> tee_mm_entry \<Rightarrow> tee_mm_entry list \<Rightarrow> tee_mm_entry list" where
  "tee_mm_add i nn es = take (Suc i) es @ nn # drop (Suc i) es"

text \<open>The gap is too small: the walk of \<open>tee_mm_alloc\<close> goes on.\<close>

definition gap_too_small :: "tee_mm_pool \<Rightarrow> 64 word \<Rightarrow> tee_mm_entry \<Rightarrow> tee_mm_entry \<Rightarrow> bool" where
  "gap_too_small pool psize e n =
     (if hi_alloc pool then psize > ucast (mm_offset e - mm_offset n - mm_size n)
      else psize > ucast (mm_offset n - mm_size e - mm_offset e))"

text \<open>The check at the end of the list. \<open>None\<close> is \<open>panic("invalid pool")\<close>.\<close>

definition end_has_room :: "tee_mm_pool \<Rightarrow> 64 word \<Rightarrow> tee_mm_entry \<Rightarrow> bool option" where
  "end_has_room pool sz e =
     (if hi_alloc pool then Some (\<not> (ucast (push_bit (shift pool) (mm_offset e)) < sz))
      else if pool_size pool = 0 then None
      else Some (\<not> (pool_size pool - ucast (push_bit (shift pool) (mm_offset e + mm_size e)) < sz)))"

text \<open>\<open>nn\<close> is what \<open>pmalloc\<close> returns for the new entry.\<close>

definition tee_mm_alloc ::
    "nat option \<Rightarrow> tee_mm_pool option \<Rightarrow> 64 word \<Rightarrow>
     (tee_mm_entry option \<times> tee_mm_pool option) option" where
  "tee_mm_alloc nn pool_arg sz =
     (case pool_arg of
        None \<Rightarrow> Some (None, None)
      | Some pool \<Rightarrow>
          if entry pool = [] then Some (None, Some pool)
          else (case nn of
             None \<Rightarrow> Some (None, Some pool)
           | Some p \<Rightarrow>
               let psize = (if sz = 0 then 0 else page_count sz (shift pool));
                   i = walk (gap_too_small pool psize) (entry pool);
                   e = entry pool ! i;
                   room = (if Suc i < length (entry pool) then Some True
                           else end_has_room pool sz e)
               in (case room of
                     None \<Rightarrow> None
                   | Some False \<Rightarrow> Some (None, Some pool)
                   | Some True \<Rightarrow>
                       let mm = \<lparr>mm_id = p,
                             mm_offset = (if hi_alloc pool then ucast (ucast (mm_offset e) - psize)
                                          else mm_offset e + mm_size e),
                             mm_size = ucast psize\<rparr>
                       in Some (Some mm, Some (update_max_allocated
                            (pool\<lparr>entry := tee_mm_add i mm (entry pool)\<rparr>))))))"

definition fit_in_gap ::
    "tee_mm_pool \<Rightarrow> tee_mm_entry \<Rightarrow> tee_mm_entry option \<Rightarrow> 64 word \<Rightarrow> 64 word \<Rightarrow> bool" where
  "fit_in_gap pool e next offslo offshi =
     (if hi_alloc pool
      then \<not> (offshi > ucast (mm_offset e) \<or>
              (case next of None \<Rightarrow> False
               | Some n \<Rightarrow> offslo < ucast (mm_offset n + mm_size n)) \<or>
              push_bit (shift pool) offshi - 1 > pool_size pool)
      else \<not> (offslo < ucast (mm_offset e + mm_size e) \<or>
              (case next of None \<Rightarrow> False | Some n \<Rightarrow> offshi > ucast (mm_offset n)) \<or>
              push_bit (shift pool) offshi > pool_size pool))"

text \<open>The walk of \<open>tee_mm_alloc2\<close> looks at the next entry only.\<close>

definition before_slot :: "tee_mm_pool \<Rightarrow> 64 word \<Rightarrow> 64 word \<Rightarrow> tee_mm_entry \<Rightarrow> bool" where
  "before_slot pool offslo offshi n =
     (if hi_alloc pool then offshi < ucast (mm_offset n + mm_size n)
      else offslo > ucast (mm_offset n))"

definition tee_mm_alloc2 ::
    "nat option \<Rightarrow> tee_mm_pool option \<Rightarrow> 64 word \<Rightarrow> 64 word \<Rightarrow>
     tee_mm_entry option \<times> tee_mm_pool option" where
  "tee_mm_alloc2 nn pool_arg base sz =
     (case pool_arg of
        None \<Rightarrow> (None, None)
      | Some pool \<Rightarrow>
          if entry pool = [] then (None, Some pool)
          else if base + sz < base \<or> base < lo pool then (None, Some pool)
          else (case nn of
             None \<Rightarrow> (None, Some pool)
           | Some p \<Rightarrow>
               let offslo = drop_bit (shift pool) (base - lo pool);
                   offshi = drop_bit (shift pool) (base - lo pool + sz - 1) + 1;
                   i = walk (\<lambda>e n. before_slot pool offslo offshi n) (entry pool);
                   e = entry pool ! i;
                   next = (if Suc i < length (entry pool) then Some (entry pool ! Suc i) else None)
               in if \<not> fit_in_gap pool e next offslo offshi then (None, Some pool)
                  else let mm = \<lparr>mm_id = p, mm_offset = ucast offslo, mm_size = ucast (offshi - offslo)\<rparr>
                       in (Some mm, Some (update_max_allocated
                            (pool\<lparr>entry := tee_mm_add i mm (entry pool)\<rparr>)))))"

section \<open>Release and queries\<close>

text \<open>\<open>p\<close> is the pointer to free; \<open>None\<close> as result is \<open>panic("invalid mm_entry")\<close>.\<close>

definition tee_mm_free :: "tee_mm_pool \<Rightarrow> nat option \<Rightarrow> tee_mm_pool option" where
  "tee_mm_free pool p =
     (case p of
        None \<Rightarrow> Some pool
      | Some q \<Rightarrow>
          let i = walk (\<lambda>e n. mm_id n \<noteq> q) (entry pool)
          in if Suc i < length (entry pool)
             then Some (pool\<lparr>entry := take (Suc i) (entry pool) @ drop (Suc (Suc i)) (entry pool)\<rparr>)
             else None)"

definition tee_mm_get_bytes :: "tee_mm_pool \<Rightarrow> tee_mm_entry option \<Rightarrow> 64 word" where
  "tee_mm_get_bytes pool mm =
     (case mm of None \<Rightarrow> 0 | Some e \<Rightarrow> ucast (push_bit (shift pool) (mm_size e)))"

definition tee_mm_addr_is_within_range :: "tee_mm_pool option \<Rightarrow> 64 word \<Rightarrow> bool" where
  "tee_mm_addr_is_within_range pool_arg addr =
     (case pool_arg of
        None \<Rightarrow> False
      | Some pool \<Rightarrow> addr \<ge> lo pool \<and> addr \<le> lo pool + (pool_size pool - 1))"

definition tee_mm_is_empty :: "tee_mm_pool option \<Rightarrow> bool" where
  "tee_mm_is_empty pool_arg =
     (case pool_arg of None \<Rightarrow> True | Some pool \<Rightarrow> entry pool = [] \<or> length (entry pool) = 1)"

text \<open>The page number of the address is held in a \<open>uint16_t\<close>.\<close>

definition tee_mm_find :: "tee_mm_pool \<Rightarrow> 64 word \<Rightarrow> tee_mm_entry option" where
  "tee_mm_find pool addr =
     (let offset = (ucast (drop_bit (shift pool) (addr - lo pool)) :: 16 word)
      in if \<not> tee_mm_addr_is_within_range (Some pool) addr then None
         else List.find (\<lambda>e. (ucast offset :: 32 word) \<ge> mm_offset e \<and>
                             (ucast offset :: 32 word) < mm_offset e + mm_size e)
                (tl (entry pool)))"

definition tee_mm_get_smem :: "tee_mm_pool \<Rightarrow> tee_mm_entry \<Rightarrow> 64 word" where
  "tee_mm_get_smem pool mm = ucast (push_bit (shift pool) (mm_offset mm)) + lo pool"

text \<open>
  \<open>tee_mm_final\<close> frees the first entry after the sentinel until only the sentinel is left,
  then the sentinel itself.
\<close>

lemma tee_mm_free_first:
  "Suc 0 < length (entry pool) \<Longrightarrow> tee_mm_free pool (Some (mm_id (entry pool ! Suc 0)))
     = Some (pool\<lparr>entry := hd (entry pool) # drop 2 (entry pool)\<rparr>)"
  by (cases "entry pool"; cases "tl (entry pool)") (auto simp: tee_mm_free_def)

function tee_mm_final_loop :: "tee_mm_pool \<Rightarrow> tee_mm_pool option" where
  "tee_mm_final_loop pool =
     (if Suc 0 < length (entry pool)
      then (case tee_mm_free pool (Some (mm_id (entry pool ! 1))) of
              None \<Rightarrow> None
            | Some pool' \<Rightarrow> tee_mm_final_loop pool')
      else Some pool)"
  by pat_completeness auto
termination
  by (relation "measure (\<lambda>pool. length (entry pool))") (auto simp: tee_mm_free_first)

declare tee_mm_final_loop.simps [simp del]

definition tee_mm_final :: "tee_mm_pool option \<Rightarrow> tee_mm_pool option option" where
  "tee_mm_final pool_arg =
     (case pool_arg of
        None \<Rightarrow> Some None
      | Some pool \<Rightarrow>
          if entry pool = [] then Some (Some pool)
          else map_option (\<lambda>p. Some (p\<lparr>entry := []\<rparr>)) (tee_mm_final_loop pool))"

section \<open>The pool invariant\<close>

text \<open>
  Read in natural numbers, the pool has \<open>pages\<close> pages, the entries after the sentinel lie
  one behind the other (towards higher offsets, or lower ones with \<open>TEE_MM_POOL_HI_ALLOC\<close>)
  without overlap, and the last byte of the pool is below 4 GiB from its start, so that the
  32-bit shifts of the code are exact.
\<close>

abbreviation eoff :: "tee_mm_entry \<Rightarrow> nat" where "eoff e \<equiv> unat (mm_offset e)"
abbreviation esz :: "tee_mm_entry \<Rightarrow> nat" where "esz e \<equiv> unat (mm_size e)"

definition pages :: "tee_mm_pool \<Rightarrow> nat" where
  "pages pool = unat (pool_size pool) div 2 ^ shift pool"

definition follows :: "bool \<Rightarrow> tee_mm_entry \<Rightarrow> tee_mm_entry \<Rightarrow> bool" where
  "follows hi a b \<longleftrightarrow> (if hi then eoff b + esz b \<le> eoff a else eoff a + esz a \<le> eoff b)"

definition pool_wf :: "tee_mm_pool \<Rightarrow> bool" where
  [inv_defs]: "pool_wf pool \<longleftrightarrow>
     entry pool \<noteq> [] \<and> distinct (map mm_id (entry pool)) \<and>
     shift pool < 32 \<and> 0 < unat (pool_size pool) \<and> unat (pool_size pool) < 2 ^ 32 \<and>
     2 ^ shift pool dvd unat (pool_size pool) \<and> unat (lo pool) + unat (pool_size pool) \<le> 2 ^ 64 \<and>
     esz (hd (entry pool)) = 0 \<and>
     eoff (hd (entry pool)) = (if hi_alloc pool then pages pool else 0) \<and>
     sorted_wrt (follows (hi_alloc pool)) (entry pool) \<and>
     (\<forall>e \<in> set (entry pool). eoff e + esz e \<le> pages pool)"

definition live :: "tee_mm_pool \<Rightarrow> tee_mm_entry set" where
  "live pool = set (tl (entry pool))"

definition extent :: "tee_mm_entry \<Rightarrow> nat set" where
  "extent e = {eoff e ..< eoff e + esz e}"

lemma transp_follows: "transp (follows hi)"
  by (auto simp: transp_def follows_def)

lemma follows_disjoint: "follows hi a b \<Longrightarrow> extent a \<inter> extent b = {}"
  by (auto simp: follows_def extent_def split: if_splits)

lemma walk_stops:
  "es \<noteq> [] \<Longrightarrow> walk f es < length es \<and>
     (Suc (walk f es) < length es \<longrightarrow> \<not> f (es ! walk f es) (es ! Suc (walk f es))) \<and>
     (\<forall>j < walk f es. f (es ! j) (es ! Suc j))"
proof (induction f es rule: walk.induct)
  case (1 f e n es)
  have "\<forall>j < Suc (walk f (n # es)). f ((e # n # es) ! j) ((e # n # es) ! Suc j)" if "f e n"
    using that 1 by (simp add: all_less_Suc_split)
  with 1 show ?case by auto
qed auto

lemma pages_bounds:
  assumes "pool_wf pool"
  shows "pages pool * 2 ^ shift pool = unat (pool_size pool)" and "pages pool < 2 ^ 32"
    and "0 < pages pool"
proof -
  show eq: "pages pool * 2 ^ shift pool = unat (pool_size pool)"
    using assms by (auto simp: pages_def inv_defs)
  have "pages pool * 1 \<le> pages pool * 2 ^ shift pool" by (rule mult_le_mono2) simp
  then show "pages pool < 2 ^ 32" using eq assms by (auto simp: inv_defs)
  show "0 < pages pool" using eq assms by (auto simp: inv_defs intro: gr0I)
qed

text \<open>The shifts of an offset inside the pool do not overflow 32 bits.\<close>

lemma shifted_exact:
  assumes "pool_wf pool" and "unat w \<le> pages pool"
  shows "unat (push_bit (shift pool) (w :: 32 word)) = unat w * 2 ^ shift pool"
    and "unat w * 2 ^ shift pool \<le> unat (pool_size pool)"
proof -
  show le: "unat w * 2 ^ shift pool \<le> unat (pool_size pool)"
    using assms(2) pages_bounds(1) [OF assms(1)] by (metis mult_le_mono1)
  then show "unat (push_bit (shift pool) w) = unat w * 2 ^ shift pool"
    using assms(1) by (simp add: unat_push_bit inv_defs)
qed

lemma entry_sum:
  assumes "pool_wf pool" and "e \<in> set (entry pool)"
  shows "unat (mm_offset e + mm_size e) = eoff e + esz e"
    and "eoff e + esz e \<le> pages pool" and "eoff e \<le> pages pool"
proof -
  show le: "eoff e + esz e \<le> pages pool" using assms by (auto simp: inv_defs)
  then show "eoff e \<le> pages pool" by simp
  show "unat (mm_offset e + mm_size e) = eoff e + esz e"
    using le pages_bounds(2) [OF assms(1)] by (intro unat_add_exact) auto
qed

lemma page_count_nat:
  assumes "sz \<noteq> 0" and "sh < 64"
  shows "unat (page_count sz sh) = (unat sz - 1) div 2 ^ sh + 1"
proof -
  have "unat sz < 2 ^ 64" using unsigned_less [of sz] by simp
  moreover have "0 < unat sz" using assms(1) by (simp add: unat_gt_0)
  moreover have "(unat sz - 1) div 2 ^ sh \<le> unat sz - 1" by simp
  ultimately have "(unat sz - 1) div 2 ^ sh + 1 < 2 ^ 64" by linarith
  moreover have "unat (drop_bit sh (sz - 1)) = (unat sz - 1) div 2 ^ sh"
    using assms(1) by (simp add: unat_drop_bit unat_minus_one)
  ultimately show ?thesis by (simp add: page_count_def unat_add_exact)
qed

lemma page_count_covers:
  assumes "sz \<noteq> 0" and "sh < 64"
  shows "unat sz \<le> unat (page_count sz sh) * 2 ^ sh"
    and "unat sz \<le> m * 2 ^ sh \<Longrightarrow> unat (page_count sz sh) \<le> m"
proof -
  let ?d = "2 ^ sh :: nat"
  have pos: "0 < unat sz" using assms(1) by (simp add: unat_gt_0)
  have "unat sz - 1 < ?d + (unat sz - 1) div ?d * ?d"
    by (rule dividend_less_div_times) simp
  then have "unat sz \<le> ((unat sz - 1) div ?d + 1) * ?d" using pos by (simp add: algebra_simps)
  then show "unat sz \<le> unat (page_count sz sh) * ?d" by (simp only: page_count_nat [OF assms])
  assume "unat sz \<le> m * ?d"
  then have "(unat sz - 1) div ?d < m" using pos by (intro less_mult_imp_div_less) linarith
  then show "unat (page_count sz sh) \<le> m" by (simp add: page_count_nat [OF assms])
qed

section \<open>Allocation keeps the invariant\<close>

lemma update_max_allocated_frame [simp]:
  "entry (update_max_allocated p) = entry p" "lo (update_max_allocated p) = lo p"
  "pool_size (update_max_allocated p) = pool_size p" "flags (update_max_allocated p) = flags p"
  "shift (update_max_allocated p) = shift p"
  by (auto simp: update_max_allocated_def Let_def)

lemma pool_wf_frame:
  assumes "entry p = entry q" "lo p = lo q" "pool_size p = pool_size q" "flags p = flags q"
    "shift p = shift q"
  shows "pool_wf p = pool_wf q" and "live p = live q"
  using assms by (auto simp: inv_defs pages_def hi_alloc_def live_def)

lemma update_max_allocated_wf [simp]:
  "pool_wf (update_max_allocated p) = pool_wf p" "live (update_max_allocated p) = live p"
  by (rule pool_wf_frame; simp)+

lemma set_tee_mm_add [simp]: "set (tee_mm_add i mm es) = insert mm (set es)"
  by (simp add: tee_mm_add_def)

lemma tee_mm_add_Cons: "tee_mm_add i mm (e # es) = e # take i es @ mm # drop i es"
  by (simp add: tee_mm_add_def)

lemma hd_tee_mm_add [simp]:
  assumes "i < length es"
  shows "hd (tee_mm_add i mm es) = hd es" "set (tl (tee_mm_add i mm es)) = insert mm (set (tl es))"
  using assms by (cases es; simp add: tee_mm_add_Cons)+

lemma add_keeps_wf:
  assumes wf: "pool_wf pool" and i: "i < length (entry pool)"
    and "follows (hi_alloc pool) (entry pool ! i) mm"
    and "Suc i < length (entry pool) \<Longrightarrow> follows (hi_alloc pool) mm (entry pool ! Suc i)"
    and "eoff mm + esz mm \<le> pages pool" and "mm_id mm \<notin> mm_id ` set (entry pool)"
  shows "pool_wf (pool\<lparr>entry := tee_mm_add i mm (entry pool)\<rparr>)"
    and "live (pool\<lparr>entry := tee_mm_add i mm (entry pool)\<rparr>) = insert mm (live pool)"
proof -
  let ?es = "tee_mm_add i mm (entry pool)" and ?p = "pool\<lparr>entry := tee_mm_add i mm (entry pool)\<rparr>"
  have "sorted_wrt (follows (hi_alloc pool)) ?es"
    unfolding tee_mm_add_def using assms by (intro sorted_wrt_insert_after transp_follows) (auto simp: inv_defs)
  moreover have "distinct (map mm_id ?es)"
  proof -
    have "map mm_id ?es = take (Suc i) (map mm_id (entry pool)) @ mm_id mm # drop (Suc i) (map mm_id (entry pool))"
      by (simp add: tee_mm_add_def take_map drop_map)
    moreover have "distinct (map mm_id (entry pool))" using wf by (simp add: inv_defs)
    ultimately show ?thesis
      using assms(6) by (auto simp: set_take_disj_set_drop_if_distinct dest: in_set_takeD in_set_dropD
          simp flip: take_map drop_map)
  qed
  moreover have "?es \<noteq> []" by (simp add: tee_mm_add_def)
  ultimately show "pool_wf ?p"
    using assms by (simp add: inv_defs hi_alloc_def pages_def)
  show "live ?p = insert mm (live pool)" using i by (simp add: live_def)
qed

text \<open>What the place found by \<open>tee_mm_alloc\<close> gives: room for \<open>psize\<close> pages next to entry \<open>i\<close>.\<close>

definition alloc_psize :: "tee_mm_pool \<Rightarrow> 64 word \<Rightarrow> nat" where
  "alloc_psize pool sz = (if sz = 0 then 0 else unat (page_count sz (shift pool)))"

definition room_after :: "tee_mm_pool \<Rightarrow> nat \<Rightarrow> nat \<Rightarrow> bool" where
  "room_after pool i p \<longleftrightarrow>
     (if hi_alloc pool
      then (if Suc i < length (entry pool)
            then eoff (entry pool ! Suc i) + esz (entry pool ! Suc i) + p \<le> eoff (entry pool ! i)
            else p \<le> eoff (entry pool ! i))
      else eoff (entry pool ! i) + esz (entry pool ! i) + p \<le>
           (if Suc i < length (entry pool) then eoff (entry pool ! Suc i) else pages pool))"

lemma adjacent_follows:
  "pool_wf pool \<Longrightarrow> Suc i < length (entry pool) \<Longrightarrow>
     follows (hi_alloc pool) (entry pool ! i) (entry pool ! Suc i)"
  by (auto simp: inv_defs sorted_wrt_iff_nth_less)

text \<open>On adjacent entries of a pool the 32-bit gap computation is exact.\<close>

lemma gap_exact:
  assumes wf: "pool_wf pool" and "Suc i < length (entry pool)"
    and e: "e = entry pool ! i" and n: "n = entry pool ! Suc i"
  shows "gap_too_small pool psize e n \<longleftrightarrow> \<not> room_after pool i (unat psize)"
proof -
  have f: "follows (hi_alloc pool) e n" using adjacent_follows [OF wf assms(2)] e n by simp
  show ?thesis
  proof (cases "hi_alloc pool")
    case True
    then have "unat (mm_offset e - mm_offset n - mm_size n) = eoff e - eoff n - esz n"
      using f by (simp add: follows_def unat_sub_exact)
    then show ?thesis
      using True f assms(2) e n
      by (auto simp: gap_too_small_def room_after_def follows_def word_less_nat_alt)
  next
    case False
    then have "unat (mm_offset n - mm_size e - mm_offset e) = eoff n - esz e - eoff e"
      using f by (simp add: follows_def unat_sub_exact)
    then show ?thesis
      using False f assms(2) e n
      by (auto simp: gap_too_small_def room_after_def follows_def word_less_nat_alt)
  qed
qed

lemma alloc_psize_spec:
  assumes "shift pool < 32"
  shows "unat sz \<le> alloc_psize pool sz * 2 ^ shift pool"
    and "unat sz \<le> m * 2 ^ shift pool \<longleftrightarrow> alloc_psize pool sz \<le> m"
proof -
  show le: "unat sz \<le> alloc_psize pool sz * 2 ^ shift pool"
    using assms page_count_covers(1) [of sz "shift pool"] by (auto simp: alloc_psize_def)
  have "alloc_psize pool sz \<le> m" if "unat sz \<le> m * 2 ^ shift pool"
    using assms that page_count_covers(2) [of sz "shift pool"] by (auto simp: alloc_psize_def)
  moreover have "alloc_psize pool sz \<le> m \<Longrightarrow> alloc_psize pool sz * 2 ^ shift pool \<le> m * 2 ^ shift pool"
    by (rule mult_le_mono1)
  ultimately show "unat sz \<le> m * 2 ^ shift pool \<longleftrightarrow> alloc_psize pool sz \<le> m"
    using le by linarith
qed

text \<open>The check at the end of the list is exact as well: bytes and pages agree.\<close>

lemma end_exact:
  assumes wf: "pool_wf pool" and i: "i < length (entry pool)" "\<not> Suc i < length (entry pool)"
  shows "end_has_room pool sz (entry pool ! i) = Some (room_after pool i (alloc_psize pool sz))"
proof -
  let ?e = "entry pool ! i" and ?s = "2 ^ shift pool :: nat"
  have e: "?e \<in> set (entry pool)" and sh: "shift pool < 32" and nz: "pool_size pool \<noteq> 0"
    using wf i by (auto simp: inv_defs)
  note sum = entry_sum [OF wf e]
  show ?thesis
  proof (cases "hi_alloc pool")
    case True
    have "unat (ucast (push_bit (shift pool) (mm_offset ?e)) :: 64 word) = eoff ?e * ?s"
      using shifted_exact [OF wf sum(3)] by simp
    then show ?thesis
      using True i alloc_psize_spec(2) [OF sh, of sz "eoff ?e"]
      by (simp add: end_has_room_def room_after_def word_less_nat_alt not_less)
  next
    case False
    have sh_sum: "unat (ucast (push_bit (shift pool) (mm_offset ?e + mm_size ?e)) :: 64 word)
        = (eoff ?e + esz ?e) * ?s" and le: "(eoff ?e + esz ?e) * ?s \<le> unat (pool_size pool)"
      using shifted_exact [OF wf, of "mm_offset ?e + mm_size ?e"] sum by auto
    have "unat (pool_size pool - ucast (push_bit (shift pool) (mm_offset ?e + mm_size ?e)))
        = unat (pool_size pool) - (eoff ?e + esz ?e) * ?s"
      using sh_sum le by (simp add: unat_sub_exact)
    also have "\<dots> = (pages pool - (eoff ?e + esz ?e)) * ?s"
      using pages_bounds(1) [OF wf] by (simp add: diff_mult_distrib)
    finally show ?thesis
      using False i nz sum alloc_psize_spec(2) [OF sh, of sz "pages pool - (eoff ?e + esz ?e)"]
      by (simp add: end_has_room_def room_after_def word_less_nat_alt not_less le_diff_conv2 add.commute)
  qed
qed

lemma room_after_bounds:
  assumes wf: "pool_wf pool" and i: "i < length (entry pool)" and r: "room_after pool i a"
  shows "a \<le> pages pool" and "hi_alloc pool \<Longrightarrow> a \<le> eoff (entry pool ! i)"
proof -
  have "eoff (entry pool ! j) \<le> pages pool" if "j < length (entry pool)" for j
    using entry_sum(3) [OF wf] that by simp
  note i1 = this [OF i] and i2 = this [of "Suc i"]
  show "hi_alloc pool \<Longrightarrow> a \<le> eoff (entry pool ! i)"
    using r by (simp add: room_after_def split: if_splits)
  then show "a \<le> pages pool"
    using i1 i2 r by (cases "hi_alloc pool"; cases "Suc i < length (entry pool)")
      (simp_all add: room_after_def)
qed

definition alloc_index :: "tee_mm_pool \<Rightarrow> 64 word \<Rightarrow> nat" where
  "alloc_index pool sz = walk (gap_too_small pool (word_of_nat (alloc_psize pool sz))) (entry pool)"

text \<open>The new entry, given the place.\<close>

definition placed :: "tee_mm_pool \<Rightarrow> nat \<Rightarrow> nat \<Rightarrow> nat \<Rightarrow> tee_mm_entry \<Rightarrow> bool" where
  "placed pool p i a mm \<longleftrightarrow> mm_id mm = p \<and> esz mm = a \<and>
     eoff mm = (if hi_alloc pool then eoff (entry pool ! i) - a
                else eoff (entry pool ! i) + esz (entry pool ! i))"

lemma alloc_index_bound: "pool_wf pool \<Longrightarrow> alloc_index pool sz < length (entry pool)"
  unfolding alloc_index_def using walk_stops by (auto simp: inv_defs)

lemma psize_word:
  "(if sz = 0 then 0 else page_count sz (shift pool)) = (word_of_nat (alloc_psize pool sz) :: 64 word)"
  by (simp add: alloc_psize_def)

lemma alloc_psize_less: "alloc_psize pool sz < 2 ^ 64"
  using unsigned_less [of "page_count sz (shift pool)", where ?'a = nat] by (simp add: alloc_psize_def)

text \<open>
  \<open>tee_mm_alloc\<close> in terms of the place its walk finds: it allocates there exactly when there
  is room, in the middle of the list as at its end.
\<close>

lemma tee_mm_alloc_eq:
  assumes wf: "pool_wf pool"
  shows "if room_after pool (alloc_index pool sz) (alloc_psize pool sz)
    then \<exists>mm. placed pool p (alloc_index pool sz) (alloc_psize pool sz) mm \<and>
      tee_mm_alloc (Some p) (Some pool) sz = Some (Some mm, Some (update_max_allocated
        (pool\<lparr>entry := tee_mm_add (alloc_index pool sz) mm (entry pool)\<rparr>)))
    else tee_mm_alloc (Some p) (Some pool) sz = Some (None, Some pool)"
proof -
  let ?i = "alloc_index pool sz" and ?a = "alloc_psize pool sz" and ?w = "word_of_nat (alloc_psize pool sz) :: 64 word"
  let ?e = "entry pool ! ?i"
  let ?mm = "\<lparr>mm_id = p, mm_offset = (if hi_alloc pool then ucast (ucast (mm_offset ?e) - ?w)
      else mm_offset ?e + mm_size ?e), mm_size = ucast ?w\<rparr>"
  note ib = alloc_index_bound [OF wf, of sz]
  have ne: "entry pool \<noteq> []" using wf by (simp add: inv_defs)
  have w: "unat ?w = ?a" using alloc_psize_less by (simp add: unat_of_nat_exact)
  have room: "(if Suc ?i < length (entry pool) then Some True else end_has_room pool sz ?e)
      = Some (room_after pool ?i ?a)"
    using end_exact [OF wf ib] gap_exact [OF wf _ refl refl, of ?i ?w] w ne
      walk_stops [of "entry pool" "gap_too_small pool ?w"] by (simp add: alloc_index_def)
  have eq: "tee_mm_alloc (Some p) (Some pool) sz = (if room_after pool ?i ?a
      then Some (Some ?mm, Some (update_max_allocated (pool\<lparr>entry := tee_mm_add ?i ?mm (entry pool)\<rparr>)))
      else Some (None, Some pool))"
  proof -
    have "tee_mm_alloc (Some p) (Some pool) sz =
      (case (if Suc ?i < length (entry pool) then Some True else end_has_room pool sz ?e) of
         None \<Rightarrow> None | Some False \<Rightarrow> Some (None, Some pool)
       | Some True \<Rightarrow> Some (Some ?mm, Some (update_max_allocated
           (pool\<lparr>entry := tee_mm_add ?i ?mm (entry pool)\<rparr>))))"
      unfolding tee_mm_alloc_def psize_word Let_def alloc_index_def
      using ne by (simp split del: if_split)
    then show ?thesis unfolding room by simp
  qed
  have "placed pool p ?i ?a ?mm" if r: "room_after pool ?i ?a"
  proof -
    have e: "?e \<in> set (entry pool)" using ib by simp
    note sum = entry_sum [OF wf e]
    note le = room_after_bounds [OF wf ib r]
    then have "?a < 2 ^ 32" using pages_bounds(2) [OF wf] by linarith
    then have "esz ?mm = ?a" using w by (simp add: unat_ucast_exact)
    moreover have "unat (ucast (ucast (mm_offset ?e) - ?w) :: 32 word) = eoff ?e - ?a" if "hi_alloc pool"
    proof -
      have "unat (ucast (mm_offset ?e) - ?w) = eoff ?e - ?a"
        using le(2) [OF that] w by (simp add: unat_sub_exact)
      moreover have "eoff ?e < 2 ^ 32" using unsigned_less [of "mm_offset ?e", where ?'a = nat] by simp
      ultimately show ?thesis by (simp add: unat_ucast_exact)
    qed
    ultimately show ?thesis using sum by (simp add: placed_def)
  qed
  with eq show ?thesis by auto
qed

lemma placed_follows:
  assumes "pool_wf pool" and "i < length (entry pool)" and "room_after pool i a" and "placed pool p i a mm"
  shows "follows (hi_alloc pool) (entry pool ! i) mm"
    and "Suc i < length (entry pool) \<Longrightarrow> follows (hi_alloc pool) mm (entry pool ! Suc i)"
    and "eoff mm + esz mm \<le> pages pool"
proof -
  have le: "eoff (entry pool ! j) \<le> pages pool" if "j < length (entry pool)" for j
    using entry_sum(3) [OF assms(1)] that by simp
  note a = room_after_bounds [OF assms(1-3)]
  show "follows (hi_alloc pool) (entry pool ! i) mm"
    "Suc i < length (entry pool) \<Longrightarrow> follows (hi_alloc pool) mm (entry pool ! Suc i)"
    using assms(3,4) a by (auto simp: placed_def follows_def room_after_def split: if_splits)
  show "eoff mm + esz mm \<le> pages pool"
    using assms(3,4) a le [OF assms(2)] le [of "Suc i"]
    by (cases "hi_alloc pool"; cases "Suc i < length (entry pool)")
      (simp_all add: placed_def room_after_def)
qed

lemma wf_disjoint:
  assumes "pool_wf pool" and "a \<in> live pool" "b \<in> live pool" "a \<noteq> b"
  shows "extent a \<inter> extent b = {}"
proof -
  obtain i j where "i < length (entry pool)" "j < length (entry pool)" "a = entry pool ! i" "b = entry pool ! j"
    using assms(2,3) by (metis in_set_conv_nth list.set_sel(2) live_def tl_Nil)
  moreover have "sorted_wrt (follows (hi_alloc pool)) (entry pool)" using assms(1) by (simp add: inv_defs)
  ultimately have "follows (hi_alloc pool) a b \<or> follows (hi_alloc pool) b a"
    using assms(4) unfolding sorted_wrt_iff_nth_less by (metis linorder_neqE_nat)
  then show ?thesis using follows_disjoint by blast
qed

lemma live_in_entry: "e \<in> live pool \<Longrightarrow> e \<in> set (entry pool)"
  by (metis list.set_sel(2) live_def tl_Nil)

definition fresh :: "tee_mm_pool \<Rightarrow> nat \<Rightarrow> bool" where
  "fresh pool p \<longleftrightarrow> p \<notin> mm_id ` set (entry pool)"

lemma add_placed:
  assumes wf: "pool_wf pool" and "fresh pool p" and "i < length (entry pool)"
    and "follows (hi_alloc pool) (entry pool ! i) mm"
    and "Suc i < length (entry pool) \<Longrightarrow> follows (hi_alloc pool) mm (entry pool ! Suc i)"
    and "eoff mm + esz mm \<le> pages pool" and "mm_id mm = p"
    and p': "pool' = update_max_allocated (pool\<lparr>entry := tee_mm_add i mm (entry pool)\<rparr>)"
  shows "pool_wf pool'" and "live pool' = insert mm (live pool)" and "mm \<notin> live pool"
    and "\<And>x. x \<in> live pool \<Longrightarrow> extent x \<inter> extent mm = {}" and "pages pool' = pages pool"
    and "shift pool' = shift pool" and "lo pool' = lo pool"
proof -
  have id: "mm_id mm \<notin> mm_id ` set (entry pool)" using assms(2,7) by (simp add: fresh_def)
  note a = add_keeps_wf [OF wf assms(3-6) id]
  show wf': "pool_wf pool'" and l: "live pool' = insert mm (live pool)" using a p' by simp_all
  show n: "mm \<notin> live pool" using id live_in_entry by blast
  show "extent x \<inter> extent mm = {}" if "x \<in> live pool" for x
    using that n l by (intro wf_disjoint [OF wf']) auto
  show "pages pool' = pages pool" "shift pool' = shift pool" "lo pool' = lo pool"
    using p' by (simp_all add: pages_def)
qed

text \<open>The bytes of an entry inside the pool.\<close>

lemma entry_bytes:
  assumes wf: "pool_wf pool" and le: "eoff mm + esz mm \<le> pages pool"
  shows "0 < esz mm \<Longrightarrow> unat (tee_mm_get_smem pool mm) = unat (lo pool) + eoff mm * 2 ^ shift pool"
    and "unat (tee_mm_get_bytes pool (Some mm)) = esz mm * 2 ^ shift pool"
    and "unat (lo pool) + (eoff mm + esz mm) * 2 ^ shift pool \<le> unat (lo pool) + unat (pool_size pool)"
proof -
  note p = pages_bounds [OF wf]
  have "(eoff mm + esz mm) * 2 ^ shift pool \<le> pages pool * 2 ^ shift pool" by (rule mult_le_mono1 [OF le])
  then show top: "unat (lo pool) + (eoff mm + esz mm) * 2 ^ shift pool \<le> unat (lo pool) + unat (pool_size pool)"
    using p(1) by simp
  show "unat (tee_mm_get_bytes pool (Some mm)) = esz mm * 2 ^ shift pool"
    using shifted_exact [OF wf, of "mm_size mm"] le by (simp add: tee_mm_get_bytes_def)
  assume pos: "0 < esz mm"
  then have "0 < esz mm * 2 ^ shift pool" by simp
  moreover have "unat (lo pool) + unat (pool_size pool) \<le> 2 ^ 64" using wf by (simp add: inv_defs)
  ultimately have "unat (lo pool) + eoff mm * 2 ^ shift pool < 2 ^ 64"
    using top unfolding add_mult_distrib by linarith
  then show "unat (tee_mm_get_smem pool mm) = unat (lo pool) + eoff mm * 2 ^ shift pool"
    unfolding tee_mm_get_smem_def using shifted_exact(1) [OF wf, of "mm_offset mm"] le
    by (subst unat_add_exact) simp_all
qed

text \<open>What an allocation of \<open>sz\<close> bytes promises.\<close>

definition allocated :: "tee_mm_pool \<Rightarrow> nat \<Rightarrow> tee_mm_entry \<Rightarrow> tee_mm_pool \<Rightarrow> bool" where
  "allocated pool p mm pool' \<longleftrightarrow>
     pool_wf pool' \<and> mm_id mm = p \<and> mm \<notin> live pool \<and> live pool' = insert mm (live pool) \<and>
     (\<forall>x \<in> live pool. extent x \<inter> extent mm = {}) \<and> extent mm \<subseteq> {..< pages pool} \<and>
     eoff mm + esz mm \<le> pages pool"

lemma tee_mm_alloc_allocated:
  assumes wf: "pool_wf pool" and fr: "fresh pool p"
    and a: "tee_mm_alloc (Some p) (Some pool) sz = Some (Some mm, pool'')"
  shows "\<exists>pool'. pool'' = Some pool' \<and> allocated pool p mm pool' \<and> esz mm = alloc_psize pool sz"
proof -
  let ?i = "alloc_index pool sz" and ?a = "alloc_psize pool sz"
  have r: "room_after pool ?i ?a" and pl: "placed pool p ?i ?a mm"
    and p'': "pool'' = Some (update_max_allocated (pool\<lparr>entry := tee_mm_add ?i mm (entry pool)\<rparr>))"
    using tee_mm_alloc_eq [OF wf, of sz p] a by (auto split: if_splits)
  note ib = alloc_index_bound [OF wf, of sz]
  note f = placed_follows [OF wf ib r pl]
  have id: "mm_id mm = p" using pl by (simp add: placed_def)
  note ad = add_placed [OF wf fr ib f id refl]
  show ?thesis
    using ad(1-4) f(3) id pl by (auto simp: p'' allocated_def extent_def placed_def)
qed

section \<open>Allocation is complete\<close>

definition all_sized :: "tee_mm_pool \<Rightarrow> bool" where
  "all_sized pool \<longleftrightarrow> (\<forall>e \<in> live pool. 0 < esz e)"

definition free_pages :: "tee_mm_pool \<Rightarrow> nat \<Rightarrow> nat \<Rightarrow> bool" where
  "free_pages pool b a \<longleftrightarrow> b + a \<le> pages pool \<and> (\<forall>e \<in> live pool. extent e \<inter> {b ..< b + a} = {})"

lemma extent_disjoint_iff:
  "0 < a \<Longrightarrow> 0 < esz e \<Longrightarrow> extent e \<inter> {b ..< b + a} = {} \<longleftrightarrow> eoff e + esz e \<le> b \<or> b + a \<le> eoff e"
  by (auto simp: extent_def disjoint_iff not_le)

lemma free_pages_room:
  assumes wf: "pool_wf pool" and s: "all_sized pool" and f: "free_pages pool b a" and "0 < a"
  shows "\<exists>i < length (entry pool). room_after pool i a"
proof -
  let ?P = "\<lambda>i. if hi_alloc pool then b + a \<le> eoff (entry pool ! i)
               else eoff (entry pool ! i) + esz (entry pool ! i) \<le> b"
  have ne: "entry pool \<noteq> []" using wf by (simp add: inv_defs)
  then have "?P 0" using wf f by (simp add: inv_defs hd_conv_nth free_pages_def)
  then obtain i where i: "i < length (entry pool)" "?P i" "Suc i < length (entry pool) \<longrightarrow> \<not> ?P (Suc i)"
    using last_index_with [of ?P "length (entry pool)"] ne by auto
  have n: "eoff n + esz n \<le> b \<or> b + a \<le> eoff n"
    if "Suc i < length (entry pool)" "n = entry pool ! Suc i" for n
  proof -
    have "n \<in> live pool" using that by (cases "entry pool") (auto simp: live_def)
    then show ?thesis using s f assms(4) extent_disjoint_iff [of a n b] by (auto simp: all_sized_def free_pages_def)
  qed
  have "room_after pool i a"
    using i n [OF _ refl] f by (auto simp: room_after_def free_pages_def split: if_splits)
  then show ?thesis using i(1) by blast
qed

lemma alloc_index_first_fit:
  assumes wf: "pool_wf pool" and "j < length (entry pool)" and "room_after pool j (alloc_psize pool sz)"
  shows "room_after pool (alloc_index pool sz) (alloc_psize pool sz)"
proof -
  let ?f = "gap_too_small pool (word_of_nat (alloc_psize pool sz))" and ?i = "alloc_index pool sz"
  have w: "unat (word_of_nat (alloc_psize pool sz) :: 64 word) = alloc_psize pool sz"
    using alloc_psize_less by (simp add: unat_of_nat_exact)
  have ne: "entry pool \<noteq> []" using wf by (simp add: inv_defs)
  note ws = walk_stops [OF ne, of ?f, folded alloc_index_def]
  have "\<not> j < ?i"
  proof
    assume "j < ?i"
    moreover from this have "Suc j < length (entry pool)" using ws by linarith
    ultimately show False using ws gap_exact [OF wf _ refl refl, of j "word_of_nat (alloc_psize pool sz)"] assms(3) w by auto
  qed
  show ?thesis
  proof (cases "Suc ?i < length (entry pool)")
    case True
    then show ?thesis using ws gap_exact [OF wf True refl refl] w by auto
  next
    case False
    then have "j = ?i" using \<open>\<not> j < ?i\<close> assms(2) by linarith
    then show ?thesis using assms(3) by simp
  qed
qed

section \<open>Release\<close>

lemma walk_to_id:
  assumes d: "distinct (map mm_id es)" and "es \<noteq> []"
  shows "if \<exists>e \<in> set (tl es). mm_id e = q
    then Suc (walk (\<lambda>e n. mm_id n \<noteq> q) es) < length es \<and> mm_id (es ! Suc (walk (\<lambda>e n. mm_id n \<noteq> q) es)) = q
    else \<not> Suc (walk (\<lambda>e n. mm_id n \<noteq> q) es) < length es"
proof -
  let ?i = "walk (\<lambda>e n. mm_id n \<noteq> q) es"
  note ws = walk_stops [OF assms(2), of "\<lambda>e n. mm_id n \<noteq> q"]
  show ?thesis
  proof (cases "\<exists>e \<in> set (tl es). mm_id e = q")
    case True
    then obtain j where j: "j < length (tl es)" "mm_id (tl es ! j) = q" by (metis in_set_conv_nth)
    then have "Suc j < length es" "mm_id (es ! Suc j) = q" by (auto simp: nth_tl)
    then have "\<not> j < ?i" using ws by auto
    then show ?thesis using True ws \<open>Suc j < length es\<close> by auto
  next
    case False
    have "es ! Suc ?i \<in> set (tl es)" if "Suc ?i < length es"
      using that by (cases es) auto
    then show ?thesis using False ws by auto
  qed
qed

lemma tee_mm_free_live:
  assumes wf: "pool_wf pool" and mm: "mm \<in> live pool"
  shows "\<exists>pool'. tee_mm_free pool (Some (mm_id mm)) = Some pool' \<and> pool_wf pool' \<and>
    live pool' = live pool - {mm} \<and> pages pool' = pages pool"
proof -
  let ?es = "entry pool" and ?i = "walk (\<lambda>e n. mm_id n \<noteq> mm_id mm) (entry pool)"
  have ne: "?es \<noteq> []" and d: "distinct (map mm_id ?es)" using wf by (auto simp: inv_defs)
  have i: "Suc ?i < length ?es" "mm_id (?es ! Suc ?i) = mm_id mm"
    using walk_to_id [OF d ne, of "mm_id mm"] mm unfolding live_def by (auto split: if_splits)
  then have at: "?es ! Suc ?i = mm"
    using d live_in_entry [OF mm] by (auto simp: distinct_map dest: inj_onD)
  let ?es' = "take (Suc ?i) ?es @ drop (Suc (Suc ?i)) ?es"
  have hd: "hd ?es' = hd ?es" and es': "?es' \<noteq> []" using ne by (cases ?es; simp)+
  have set: "set ?es' = set ?es - {mm}" and d': "distinct (map mm_id ?es')"
    using distinct_map_remove_at [OF i(1) d] at by auto
  have "sorted_wrt (follows (hi_alloc pool)) ?es'"
    using wf by (intro sorted_wrt_remove_at) (simp add: inv_defs)
  then have "pool_wf (pool\<lparr>entry := ?es'\<rparr>)"
    using wf hd es' set d' by (simp add: inv_defs hi_alloc_def pages_def)
  moreover have "live (pool\<lparr>entry := ?es'\<rparr>) = live pool - {mm}"
  proof -
    have "set (tl ?es') = set ?es' - {hd ?es'}" if "distinct ?es'" "?es' \<noteq> []"
      using that by (cases ?es') auto
    moreover have "set (tl ?es) = set ?es - {hd ?es}" using d ne by (cases ?es) (auto simp: distinct_map)
    moreover have "distinct ?es'" using d' by (auto simp: distinct_map)
    ultimately show ?thesis using set hd es' by (auto simp: live_def)
  qed
  ultimately show ?thesis using i by (auto simp: tee_mm_free_def pages_def Let_def)
qed

section \<open>Allocation at a given address\<close>

text \<open>
  The range \<open>[base, base + sz)\<close> and the pages it touches. The last page of the address
  space is excluded: there \<open>offshi << shift\<close> wraps to 0 in \<open>fit_in_gap\<close>.
\<close>

definition range_ok :: "tee_mm_pool \<Rightarrow> 64 word \<Rightarrow> 64 word \<Rightarrow> bool" where
  "range_ok pool base sz \<longleftrightarrow> 0 < unat sz \<and>
     unat base - unat (lo pool) + unat sz + 2 ^ shift pool \<le> 2 ^ 64"

lemma alloc2_offsets:
  assumes wf: "pool_wf pool" and ok: "range_ok pool base sz" and b: "\<not> base < lo pool"
    and nw: "\<not> base + sz < base"
  defines "d \<equiv> unat base - unat (lo pool)" and "s \<equiv> (2 :: nat) ^ shift pool"
  shows "unat (drop_bit (shift pool) (base - lo pool)) = d div s"
    and "unat (drop_bit (shift pool) (base - lo pool + sz - 1) + 1) = (d + unat sz - 1) div s + 1"
    and "unat (push_bit (shift pool) (drop_bit (shift pool) (base - lo pool + sz - 1) + 1)) =
      unat (drop_bit (shift pool) (base - lo pool + sz - 1) + 1) * s"
proof -
  let ?lo = "drop_bit (shift pool) (base - lo pool)"
  let ?hi = "drop_bit (shift pool) (base - lo pool + sz - 1) + 1"
  have sub: "unat (base - lo pool) = d"
    using b by (simp add: d_def unat_sub_exact word_less_nat_alt)
  then show "unat ?lo = d div s" by (simp add: unat_drop_bit s_def)
  have le: "d + unat sz + s \<le> 2 ^ 64" and pos: "0 < unat sz" using ok by (auto simp: range_ok_def d_def s_def)
  have s1: "1 \<le> s" by (simp add: s_def)
  then have "unat (base - lo pool + sz) = d + unat sz" using sub le by (subst unat_add_exact) auto
  then have m1: "unat (base - lo pool + sz - 1) = d + unat sz - 1"
    using pos by (subst unat_sub_exact) auto
  then have dr: "unat (drop_bit (shift pool) (base - lo pool + sz - 1)) = (d + unat sz - 1) div s"
    by (simp add: unat_drop_bit s_def)
  have dle: "(d + unat sz - 1) div s * s \<le> d + unat sz - 1" by simp
  then have mul: "((d + unat sz - 1) div s + 1) * s < 2 ^ 64"
    using le pos unfolding add_mult_distrib by linarith
  have "(d + unat sz - 1) div s + 1 \<le> ((d + unat sz - 1) div s + 1) * s"
    using mult_le_mono2 [OF s1, of "(d + unat sz - 1) div s + 1"] by (simp only: mult_1_right)
  then have "(d + unat sz - 1) div s + 1 < 2 ^ 64" using mul by linarith
  then show hi: "unat ?hi = (d + unat sz - 1) div s + 1" using dr by (subst unat_add_exact) auto
  show "unat (push_bit (shift pool) ?hi) = unat ?hi * s"
    using mul unfolding unat_push_bit hi s_def [symmetric] by simp
qed

lemma tee_mm_alloc2_allocated:
  assumes wf: "pool_wf pool" and fr: "fresh pool p" and ok: "range_ok pool base sz"
    and a: "tee_mm_alloc2 (Some p) (Some pool) base sz = (Some mm, pool'')"
  shows "\<exists>pool'. pool'' = Some pool' \<and> allocated pool p mm pool' \<and>
    eoff mm * 2 ^ shift pool \<le> unat base - unat (lo pool) \<and>
    unat base - unat (lo pool) + unat sz \<le> (eoff mm + esz mm) * 2 ^ shift pool"
proof -
  let ?lo = "drop_bit (shift pool) (base - lo pool)"
  let ?hi = "drop_bit (shift pool) (base - lo pool + sz - 1) + 1"
  let ?i = "walk (\<lambda>e n. before_slot pool ?lo ?hi n) (entry pool)"
  let ?e = "entry pool ! ?i" and ?d = "unat base - unat (lo pool)" and ?s = "2 ^ shift pool :: nat"
  let ?nx = "if Suc ?i < length (entry pool) then Some (entry pool ! Suc ?i) else None"
  have ne: "entry pool \<noteq> []" using wf by (simp add: inv_defs)
  have nb: "\<not> base < lo pool" and nw: "\<not> base + sz < base"
    and fit: "fit_in_gap pool ?e ?nx ?lo ?hi"
    and mm: "mm = \<lparr>mm_id = p, mm_offset = ucast ?lo, mm_size = ucast (?hi - ?lo)\<rparr>"
    and p'': "pool'' = Some (update_max_allocated (pool\<lparr>entry := tee_mm_add ?i mm (entry pool)\<rparr>))"
    using a ne unfolding tee_mm_alloc2_def Let_def by (auto split: if_splits simp del: push_bit_eq_mult)
  note off = alloc2_offsets [OF wf ok nb nw]
  have ib: "?i < length (entry pool)" using walk_stops [OF ne] by blast
  note sum = entry_sum [OF wf nth_mem [OF ib]]
  have nsum: "unat (mm_offset n + mm_size n) = eoff n + esz n"
    if "Suc ?i < length (entry pool)" "n = entry pool ! Suc ?i" for n
    using entry_sum(1) [OF wf] that nth_mem by blast
  have lohi: "unat ?lo \<le> unat ?hi"
  proof -
    have "?d div ?s \<le> (?d + unat sz - 1) div ?s" using ok by (intro div_le_mono) (auto simp: range_ok_def)
    then show ?thesis using off by simp
  qed
  have top: "unat ?hi \<le> pages pool"
  proof (cases "hi_alloc pool")
    case True
    then show ?thesis using fit sum(3) by (auto simp: fit_in_gap_def word_less_nat_alt not_less)
  next
    case False
    then have "unat ?hi * ?s \<le> pages pool * ?s"
      using fit off(3) pages_bounds(1) [OF wf] by (auto simp: fit_in_gap_def word_less_nat_alt not_less)
    then show ?thesis by simp
  qed
  then have lt: "unat ?hi < 2 ^ 32" using pages_bounds(2) [OF wf] by linarith
  have eo: "eoff mm = unat ?lo" and es: "esz mm = unat ?hi - unat ?lo"
    using lt lohi by (simp_all add: mm unat_ucast_exact unat_sub_exact)
  have fl: "follows (hi_alloc pool) ?e mm"
    using fit eo es lohi sum by (auto simp: fit_in_gap_def follows_def word_less_nat_alt not_less split: if_splits)
  have fr2: "follows (hi_alloc pool) mm (entry pool ! Suc ?i)" if "Suc ?i < length (entry pool)"
    using fit eo es lohi that nsum [OF that refl]
    by (auto simp: fit_in_gap_def follows_def word_less_nat_alt not_less split: if_splits)
  have le: "eoff mm + esz mm \<le> pages pool" using eo es lohi top by simp
  have id: "mm_id mm = p" by (simp add: mm)
  note ad = add_placed [OF wf fr ib fl fr2 le id refl]
  have "?d div ?s * ?s \<le> ?d" by simp
  moreover have "?d + unat sz \<le> unat ?hi * ?s"
  proof -
    have "?d + unat sz - 1 < ?s + (?d + unat sz - 1) div ?s * ?s"
      by (rule dividend_less_div_times) simp
    then show ?thesis using off(2) by simp
  qed
  ultimately show ?thesis
    using ad(1-4) le id eo es lohi off(1) by (auto simp: p'' allocated_def extent_def)
qed

section \<open>A fresh pool\<close>

lemma round_up_bounds:
  fixes v s :: nat
  assumes "0 < s"
  shows "v \<le> (v + (s - 1)) div s * s" and "(v + (s - 1)) div s * s < v + s"
proof -
  have "v + (s - 1) < s + (v + (s - 1)) div s * s" by (rule dividend_less_div_times [OF assms])
  then show "v \<le> (v + (s - 1)) div s * s" using assms by linarith
  have "(v + (s - 1)) div s * s \<le> v + (s - 1)" by simp
  then show "(v + (s - 1)) div s * s < v + s" using assms by linarith
qed

lemma tee_mm_init_wf:
  assumes sh: "sh < 32" and sz: "2 * 2 ^ sh \<le> unat size_arg" "unat size_arg < 2 ^ 32"
    and top: "unat lo_arg + unat size_arg \<le> 2 ^ 64"
    and i: "tee_mm_init (Some h) (Some pool0) lo_arg size_arg sh fl = Some (True, Some pool)"
  shows "pool_wf pool" and "live pool = {}"
proof -
  let ?s = "2 ^ sh :: nat" and ?l = "ROUNDUP lo_arg (push_bit sh 1)"
  let ?z = "ROUNDDOWN (size_arg - (?l - lo_arg)) (push_bit sh 1)"
  let ?p = "pool0\<lparr>lo := ?l, pool_size := ?z, shift := sh, flags := fl\<rparr>"
  have pool: "pool = ?p\<lparr>entry := [\<lparr>mm_id = h,
      mm_offset = (if hi_alloc ?p then ucast (page_count ?z sh) else 0), mm_size = 0\<rparr>]\<rparr>"
    using i unfolding tee_mm_init_def Let_def by (auto split: if_splits)
  have s: "0 < ?s" by simp
  note rb = round_up_bounds [OF s, of "unat lo_arg"]
  have l: "unat ?l = (unat lo_arg + (?s - 1)) div ?s * ?s"
    using sh sz top by (intro ROUNDUP_nat) auto
  then have r: "unat (?l - lo_arg) = unat ?l - unat lo_arg" "unat ?l - unat lo_arg < ?s"
    using rb by (auto simp: unat_sub_exact)
  then have d: "unat (size_arg - (?l - lo_arg)) = unat size_arg - (unat ?l - unat lo_arg)"
    using sz by (subst unat_sub_exact) auto
  have z: "unat ?z = (unat size_arg - (unat ?l - unat lo_arg)) div ?s * ?s"
    unfolding ROUNDDOWN_def unat_round_down d by simp
  have zle: "unat ?z \<le> unat size_arg - (unat ?l - unat lo_arg)" unfolding z by simp
  have "?s \<le> unat size_arg - (unat ?l - unat lo_arg)" using r sz by linarith
  then have "0 < (unat size_arg - (unat ?l - unat lo_arg)) div ?s" by (simp add: div_greater_zero_iff)
  then have z0: "0 < unat ?z" unfolding z by simp
  have z0': "?z \<noteq> 0" using z0 by auto
  have dvd: "?s dvd unat ?z" unfolding z by simp
  have pg: "unat (page_count ?z sh) = unat ?z div ?s"
  proof -
    obtain k where k: "unat ?z = ?s * k" "0 < k" using dvd z0 by (auto elim!: dvdE)
    then have "(unat ?z - 1) div ?s = k - 1"
      using mult_minus_one_div [OF s k(2)] by (simp only:)
    then show ?thesis using page_count_nat [OF z0', of sh] sh k by simp
  qed
  have "unat ?z div ?s \<le> unat ?z" by simp
  then have "unat ?z div ?s < 2 ^ 32" using zle sz by linarith
  then have off: "unat (ucast (page_count ?z sh) :: 32 word) = unat ?z div ?s"
    using pg by (simp add: unat_ucast_exact)
  show "pool_wf pool"
    using sh sz zle z0 dvd off l rb top unfolding pool by (auto simp: inv_defs pages_def hi_alloc_def)
  show "live pool = {}" by (simp add: pool live_def)
qed

section \<open>The allocator contract\<close>

text \<open>Requests of the pool: an allocation anywhere, or at an address, with the new entry's address.\<close>

datatype mm_request = Anywhere nat "64 word" | At_address nat "64 word" "64 word"

fun mm_usable :: "tee_mm_pool \<Rightarrow> mm_request \<Rightarrow> bool" where
  "mm_usable pool (Anywhere p sz) \<longleftrightarrow> fresh pool p"
| "mm_usable pool (At_address p base sz) \<longleftrightarrow> fresh pool p \<and> range_ok pool base sz"

fun mm_alloc :: "mm_request \<Rightarrow> tee_mm_pool \<Rightarrow> (tee_mm_entry option \<times> tee_mm_pool) option" where
  "mm_alloc (Anywhere p sz) pool =
     map_option (\<lambda>(mm, pool'). (mm, the pool')) (tee_mm_alloc (Some p) (Some pool) sz)"
| "mm_alloc (At_address p base sz) pool =
     Some (let (mm, pool') = tee_mm_alloc2 (Some p) (Some pool) base sz in (mm, the pool'))"

definition mm_release :: "tee_mm_entry \<Rightarrow> tee_mm_pool \<Rightarrow> tee_mm_pool option" where
  "mm_release mm pool = tee_mm_free pool (Some (mm_id mm))"

lemma mm_alloc_allocated:
  assumes "pool_wf pool" and "mm_usable pool q" and "mm_alloc q pool = Some (Some mm, pool')"
  shows "\<exists>p. allocated pool p mm pool'"
proof (cases q)
  case (Anywhere p sz)
  then obtain o' where "tee_mm_alloc (Some p) (Some pool) sz = Some (Some mm, o')" "pool' = the o'"
    and "fresh pool p" using assms(2,3) by auto
  then show ?thesis using tee_mm_alloc_allocated [OF assms(1)] by fastforce
next
  case (At_address p base sz)
  then obtain o' where "tee_mm_alloc2 (Some p) (Some pool) base sz = (Some mm, o')" "pool' = the o'"
    and "fresh pool p" "range_ok pool base sz" using assms(2,3) by (auto split: prod.splits)
  then show ?thesis using tee_mm_alloc2_allocated [OF assms(1)] by fastforce
qed

lemma tee_mm_alloc2_None: "tee_mm_alloc2 nn (Some pool) base sz = (None, p') \<Longrightarrow> p' = Some pool"
  by (auto simp: tee_mm_alloc2_def Let_def split: if_splits option.splits)

interpretation mm_pool: region_allocator pool_wf live extent mm_usable mm_alloc mm_release
proof
  show "extent a \<inter> extent b = {}"
    if "pool_wf p" "a \<in> live p" "b \<in> live p" "a \<noteq> b" for p a b
    using that by (rule wf_disjoint)
  show "pool_wf p' \<and> r \<notin> live p \<and> live p' = insert r (live p)"
    if "pool_wf p" "mm_usable p q" "mm_alloc q p = Some (Some r, p')" for p p' q r
    using mm_alloc_allocated [OF that] by (auto simp: allocated_def)
  have alloc: "\<exists>r pool'. tee_mm_alloc (Some a) (Some p) sz = Some (r, Some pool') \<and> (r = None \<longrightarrow> pool' = p)"
    if "pool_wf p" for p a sz
    using tee_mm_alloc_eq [OF that, of sz a] by (auto split: if_splits)
  show "p' = p" if wf: "pool_wf p" and "mm_usable p q" and q: "mm_alloc q p = Some (None, p')" for p p' q
  proof (cases q)
    case (Anywhere a sz)
    then show ?thesis using q alloc [OF wf, of a sz] by auto
  next
    case (At_address a base sz)
    then obtain o' where "tee_mm_alloc2 (Some a) (Some p) base sz = (None, o')" "p' = the o'"
      using q by (auto split: prod.splits)
    then show ?thesis using tee_mm_alloc2_None by fastforce
  qed
  show "mm_alloc q p \<noteq> None" if wf: "pool_wf p" and "mm_usable p q" for p q
  proof (cases q)
    case (Anywhere a sz)
    then show ?thesis using alloc [OF wf, of a sz] by auto
  qed auto
  show "\<exists>p'. mm_release r p = Some p' \<and> pool_wf p' \<and> live p' = live p - {r}"
    if "pool_wf p" "r \<in> live p" for p r
    using tee_mm_free_live [OF that] by (auto simp: mm_release_def)
qed

section \<open>Lookup by address\<close>

lemma page_in_range:
  assumes wf: "pool_wf pool" and "(unat addr - unat (lo pool)) div 2 ^ shift pool < pages pool"
    and le: "lo pool \<le> addr"
  shows "tee_mm_addr_is_within_range (Some pool) addr"
proof -
  have "unat addr - unat (lo pool) < unat (pool_size pool)"
    using assms(2) pages_bounds(1) [OF wf] by (simp add: div_less_iff_less_mult)
  moreover have "unat (pool_size pool - 1) = unat (pool_size pool) - 1"
    using wf by (subst unat_sub_exact) (auto simp: inv_defs)
  then have "unat (lo pool + (pool_size pool - 1)) = unat (lo pool) + (unat (pool_size pool) - 1)"
    using wf by (subst unat_add_exact) (auto simp: inv_defs)
  ultimately show ?thesis
    using le by (auto simp: tee_mm_addr_is_within_range_def word_le_nat_alt)
qed

lemma find_unique:
  assumes "\<And>x y. x \<in> set xs \<Longrightarrow> y \<in> set xs \<Longrightarrow> P x \<Longrightarrow> P y \<Longrightarrow> x = y"
  shows "List.find P xs = Some x \<longleftrightarrow> x \<in> set xs \<and> P x"
  using assms by (induction xs) auto

lemma tee_mm_find_iff:
  assumes wf: "pool_wf pool" and small: "pages pool \<le> 2 ^ 16" and le: "lo pool \<le> addr"
    and page: "(unat addr - unat (lo pool)) div 2 ^ shift pool < 2 ^ 16"
  shows "tee_mm_find pool addr = Some mm \<longleftrightarrow>
    mm \<in> live pool \<and> (unat addr - unat (lo pool)) div 2 ^ shift pool \<in> extent mm"
proof -
  let ?o = "(unat addr - unat (lo pool)) div 2 ^ shift pool"
  let ?w = "ucast (drop_bit (shift pool) (addr - lo pool)) :: 16 word"
  have "unat (drop_bit (shift pool) (addr - lo pool)) = ?o"
    using le by (simp add: unat_drop_bit unat_sub_exact word_le_nat_alt)
  then have w: "unat ?w = ?o" using page by (simp add: unat_ucast_exact)
  have t: "((ucast ?w :: 32 word) \<ge> mm_offset e \<and> (ucast ?w :: 32 word) < mm_offset e + mm_size e)
      \<longleftrightarrow> ?o \<in> extent e" if "e \<in> live pool" for e
    using w entry_sum(1) [OF wf live_in_entry [OF that]]
    by (simp add: extent_def word_le_nat_alt word_less_nat_alt)
  have fnd: "List.find (\<lambda>e. (ucast ?w :: 32 word) \<ge> mm_offset e \<and>
      (ucast ?w :: 32 word) < mm_offset e + mm_size e) (tl (entry pool)) = Some mm
      \<longleftrightarrow> mm \<in> live pool \<and> ?o \<in> extent mm"
    using wf_disjoint [OF wf] t by (subst find_unique) (auto simp: live_def disjoint_iff)
  have r: "tee_mm_addr_is_within_range (Some pool) addr" if "mm \<in> live pool" "?o \<in> extent mm"
    using that entry_sum(2) [OF wf live_in_entry] le
    by (intro page_in_range [OF wf]) (auto simp: extent_def intro: less_le_trans)
  show ?thesis
    using fnd r by (auto simp: tee_mm_find_def Let_def)
qed

section \<open>Properties\<close>


definition example_pool :: "32 word \<Rightarrow> tee_mm_pool" where
  "example_pool fl = \<lparr>entry = [\<lparr>mm_id = 0, mm_offset = (if fl AND 1 \<noteq> 0 then 4 else 0), mm_size = 0\<rparr>],
     lo = 4096, pool_size = 16384, flags = fl, shift = 12, max_allocated = 0\<rparr>"

lemma example_pool_wf: "pool_wf (example_pool 0)" "pool_wf (example_pool 1)"
  by (simp_all add: example_pool_def inv_defs pages_def hi_alloc_def TEE_MM_POOL_HI_ALLOC_def)

lemma example_pool_frame [simp]:
  "entry (example_pool 1) = [\<lparr>mm_id = 0, mm_offset = 4, mm_size = 0\<rparr>]"
  "entry (example_pool 0) = [\<lparr>mm_id = 0, mm_offset = 0, mm_size = 0\<rparr>]"
  "shift (example_pool fl) = 12" "lo (example_pool fl) = 4096" "pool_size (example_pool fl) = 16384"
  "hi_alloc (example_pool 1)" "\<not> hi_alloc (example_pool 0)" "live (example_pool 0) = {}"
  "pages (example_pool fl) = 4"
  by (simp_all add: example_pool_def hi_alloc_def TEE_MM_POOL_HI_ALLOC_def live_def pages_def)








text \<open>
  On a pool of at most 65536 pages, \<open>tee_mm_find\<close> returns an entry exactly when that entry is
  live and covers the address.
\<close>

theorem tee_mm_find_correct:
  assumes "pool_wf pool" and "pages pool \<le> 2 ^ 16" and "tee_mm_addr_is_within_range (Some pool) addr"
  shows "tee_mm_find pool addr = Some mm \<longleftrightarrow>
    mm \<in> live pool \<and> (unat addr - unat (lo pool)) div 2 ^ shift pool \<in> extent mm"
proof (rule tee_mm_find_iff [OF assms(1,2)])
  have lp: "unat (pool_size pool - 1) = unat (pool_size pool) - 1"
    using assms(1) by (subst unat_sub_exact) (auto simp: inv_defs)
  then have "unat (lo pool + (pool_size pool - 1)) = unat (lo pool) + (unat (pool_size pool) - 1)"
    using assms(1) by (subst unat_add_exact) (auto simp: inv_defs)
  then have "unat addr - unat (lo pool) < unat (pool_size pool)"
    using assms(1,3) by (auto simp: tee_mm_addr_is_within_range_def word_le_nat_alt inv_defs)
  then have "(unat addr - unat (lo pool)) div 2 ^ shift pool < pages pool"
    using pages_bounds(1) [OF assms(1)] by (simp add: div_less_iff_less_mult)
  then show "(unat addr - unat (lo pool)) div 2 ^ shift pool < 2 ^ 16" using assms(2) by linarith
  show "lo pool \<le> addr" using assms(3) by (simp add: tee_mm_addr_is_within_range_def)
qed

theorem tee_mm_find_correct_witness:
  "tee_mm_find (example_pool 0) 5000 = None \<and> tee_mm_addr_is_within_range (Some (example_pool 0)) 5000"
proof -
  have r: "tee_mm_addr_is_within_range (Some (example_pool 0)) 5000"
    by (simp add: tee_mm_addr_is_within_range_def)
  have "pages (example_pool 0) \<le> 2 ^ 16" by simp
  from tee_mm_find_correct [OF example_pool_wf(1) this r]
  have "tee_mm_find (example_pool 0) 5000 \<noteq> Some mm" for mm by simp
  then show ?thesis using r by (metis option.exhaust)
qed

definition large_pool :: tee_mm_pool where
  "large_pool = \<lparr>entry = [\<lparr>mm_id = 0, mm_offset = 0, mm_size = 0\<rparr>, \<lparr>mm_id = 1, mm_offset = 65536, mm_size = 1\<rparr>],
     lo = 0, pool_size = 0x20000000, flags = 0, shift = 12, max_allocated = 0\<rparr>"

text \<open>
  The \<open>uint16_t\<close> page number of \<open>tee_mm_find\<close> is too narrow for a pool of more than 65536
  pages: in a well-formed 512 MiB pool of 4 KiB pages, a live entry covers the address, the
  address is in the pool, and the lookup returns NULL.
\<close>

theorem tee_mm_find_truncates:
  "pool_wf large_pool \<and> tee_mm_addr_is_within_range (Some large_pool) (65536 * 4096) \<and>
   \<lparr>mm_id = 1, mm_offset = 65536, mm_size = 1\<rparr> \<in> live large_pool \<and>
   tee_mm_get_smem large_pool \<lparr>mm_id = 1, mm_offset = 65536, mm_size = 1\<rparr> = 65536 * 4096 \<and>
   tee_mm_find large_pool (65536 * 4096) = None"
  by (simp add: large_pool_def inv_defs pages_def hi_alloc_def TEE_MM_POOL_HI_ALLOC_def follows_def
      tee_mm_addr_is_within_range_def live_def tee_mm_get_smem_def tee_mm_find_def)

end
