(* ===== verification/Refcount.thy ===== *)
theory Refcount
  imports Prelude
begin

text \<open>
  Reference counters (\<open>core/kernel/refcount.c\<close>, \<open>core/include/kernel/refcount.h\<close>). The
  counter is an \<open>unsigned int\<close>; both operations load it and then retry a compare-and-swap
  until it succeeds. Other cores run between two attempts, so an execution is given by the
  value of the counter at the load and the values it has at the successive attempts.
\<close>

section \<open>The compare-and-swap loops\<close>

datatype cas_outcome =
    Returned bool "32 word" \<comment> \<open>the boolean result and the value left in the counter\<close>
  | Assert_failed           \<comment> \<open>\<open>assert(oval)\<close> does not hold\<close>
  | Still_trying            \<comment> \<open>every attempt so far lost the race\<close>

text \<open>
  \<open>refcount_inc_loop oval now seen\<close> is the loop with \<open>oval\<close> as last read, \<open>now\<close> the value
  of the counter when the next attempt is made, and \<open>seen\<close> its values at the attempts after
  that. A failing attempt stores the current value in \<open>oval\<close>.
\<close>

fun refcount_inc_loop :: "32 word \<Rightarrow> 32 word list \<Rightarrow> cas_outcome" where
  "refcount_inc_loop oval seen =
     (if oval = 0 then Returned False oval
      else case seen of
          [] \<Rightarrow> Still_trying
        | now # later \<Rightarrow>
            if now = oval then Returned True (oval + 1) else refcount_inc_loop now later)"

declare refcount_inc_loop.simps [simp del]

definition refcount_inc :: "32 word \<Rightarrow> 32 word list \<Rightarrow> cas_outcome" where
  "refcount_inc loaded seen = refcount_inc_loop loaded seen"

fun refcount_dec_loop :: "32 word \<Rightarrow> 32 word list \<Rightarrow> cas_outcome" where
  "refcount_dec_loop oval seen =
     (if oval = 0 then Assert_failed
      else case seen of
          [] \<Rightarrow> Still_trying
        | now # later \<Rightarrow>
            if now = oval then Returned (oval - 1 = 0) (oval - 1) else refcount_dec_loop now later)"

declare refcount_dec_loop.simps [simp del]

definition refcount_dec :: "32 word \<Rightarrow> 32 word list \<Rightarrow> cas_outcome" where
  "refcount_dec loaded seen = refcount_dec_loop loaded seen"

text \<open>Executions without interference: every attempt sees the value that was loaded.\<close>

definition refcount_inc_alone :: "32 word \<Rightarrow> cas_outcome" where
  "refcount_inc_alone v = refcount_inc v [v]"

definition refcount_dec_alone :: "32 word \<Rightarrow> cas_outcome" where
  "refcount_dec_alone v = refcount_dec v [v]"

lemma refcount_inc_alone_eq:
  "refcount_inc_alone v = (if v = 0 then Returned False 0 else Returned True (v + 1))"
  by (simp add: refcount_inc_alone_def refcount_inc_def refcount_inc_loop.simps)

lemma refcount_dec_alone_eq:
  "refcount_dec_alone v = (if v = 0 then Assert_failed else Returned (v = 1) (v - 1))"
  by (simp add: refcount_dec_alone_def refcount_dec_def refcount_dec_loop.simps)

section \<open>Each call takes effect at one instant\<close>

lemma refcount_inc_loop_cases:
  "refcount_inc_loop oval seen = Returned b v \<Longrightarrow>
   (\<exists>x \<in> set (oval # seen). refcount_inc_alone x = Returned b v) \<and>
   (b \<longrightarrow> (\<exists>x \<in> set seen. x \<noteq> 0 \<and> v = x + 1)) \<and> (\<not> b \<longrightarrow> 0 \<in> set (oval # seen))"
proof (induction oval seen rule: refcount_inc_loop.induct)
  case (1 oval seen)
  show ?case
  proof (cases "oval = 0")
    case True
    then show ?thesis
      using 1(2) by (subst (asm) refcount_inc_loop.simps) (simp add: refcount_inc_alone_eq)
  next
    case False
    then obtain now later where seen: "seen = now # later"
      using 1(2) by (subst (asm) refcount_inc_loop.simps) (auto split: list.splits)
    show ?thesis
    proof (cases "now = oval")
      case True
      then show ?thesis
        using 1(2) False seen
        by (subst (asm) refcount_inc_loop.simps) (auto simp: refcount_inc_alone_eq)
    next
      case ne: False
      then have "refcount_inc_loop now later = Returned b v"
        using 1(2) False seen by (subst (asm) refcount_inc_loop.simps) simp
      then show ?thesis using 1(1) [OF False seen ne] seen by auto
    qed
  qed
qed

lemma refcount_dec_loop_cases:
  "refcount_dec_loop oval seen = Returned b v \<Longrightarrow>
   \<exists>x \<in> set seen. x \<noteq> 0 \<and> v = x - 1 \<and> b = (v = 0)"
proof (induction oval seen rule: refcount_dec_loop.induct)
  case (1 oval seen)
  then have "oval \<noteq> 0" by (auto simp: refcount_dec_loop.simps split: if_splits)
  moreover then obtain now later where "seen = now # later"
    using 1(2) by (subst (asm) refcount_dec_loop.simps) (auto split: list.splits)
  ultimately show ?case
    using 1 by (cases "now = oval") (auto simp: refcount_dec_loop.simps [of oval])
qed

text \<open>The loop gives up only when it has lost every race; one undisturbed attempt ends it.\<close>

lemma refcount_inc_loop_progress:
  "refcount_inc_loop oval (seen @ [v, v]) \<noteq> Still_trying"
proof (induction oval seen rule: refcount_inc_loop.induct)
  case (1 oval seen)
  show ?case
    using 1 by (cases seen) (auto simp: refcount_inc_loop.simps)
qed

lemma refcount_dec_loop_progress:
  "refcount_dec_loop oval (seen @ [v, v]) \<noteq> Still_trying"
proof (induction oval seen rule: refcount_dec_loop.induct)
  case (1 oval seen)
  show ?case
    using 1 by (cases seen) (auto simp: refcount_dec_loop.simps)
qed

section \<open>The counter protocol\<close>

text \<open>
  \<open>refcount_inc\<close> and \<open>refcount_dec\<close> are atomic whatever other cores do between their
  attempts. An increment that returns true added one to a non-zero value the counter had at
  some attempt; one that returns false saw the counter at zero and left it there. A decrement
  subtracts one from a non-zero value and returns true exactly when that made the counter
  zero. Both return as soon as the counter is left alone for two attempts.
\<close>

theorem refcount_ops_atomic:
  assumes "refcount_inc l seen = Returned b v" and "refcount_dec l' seen' = Returned b' v'"
  shows "(if b then \<exists>x \<in> set seen. x \<noteq> 0 \<and> v = x + 1 else 0 \<in> set (l # seen) \<and> v = 0)
    \<and> (\<exists>x \<in> set seen'. x \<noteq> 0 \<and> v' = x - 1 \<and> b' = (x = 1))
    \<and> refcount_inc l (others @ [w, w]) \<noteq> Still_trying
    \<and> refcount_dec l (others @ [w, w]) \<noteq> Still_trying"
proof -
  have inc: "refcount_inc_loop l seen = Returned b v" and
    dec: "refcount_dec_loop l' seen' = Returned b' v'"
    using assms by (simp_all add: refcount_inc_def refcount_dec_def)
  have "v = 0" if "\<not> b"
    using refcount_inc_loop_cases [OF inc] that
    by (auto simp: refcount_inc_alone_eq split: if_splits)
  then have "if b then \<exists>x \<in> set seen. x \<noteq> 0 \<and> v = x + 1 else 0 \<in> set (l # seen) \<and> v = 0"
    using refcount_inc_loop_cases [OF inc] by (simp split: if_split) blast?
  moreover have "\<exists>x \<in> set seen'. x \<noteq> 0 \<and> v' = x - 1 \<and> b' = (x = 1)"
    using refcount_dec_loop_cases [OF dec] by fastforce
  ultimately show ?thesis
    unfolding refcount_inc_def refcount_dec_def
    using refcount_inc_loop_progress refcount_dec_loop_progress by blast
qed

text \<open>The counter is loaded as 3; another core makes it 4 before the first attempt.\<close>

lemma refcount_ops_atomic_witness:
  "(\<exists>x \<in> set [4, 4::32 word]. x \<noteq> 0 \<and> 5 = x + 1)
    \<and> (\<exists>x \<in> set [1::32 word]. x \<noteq> 0 \<and> 0 = x - 1 \<and> True = (x = 1))"
  using refcount_ops_atomic [of 3 "[4, 4]" True 5 1 "[1]" True 0 "[]" 7]
  by (simp add: refcount_inc_def refcount_dec_def refcount_inc_loop.simps
      refcount_dec_loop.simps)

text \<open>
  The increment has no overflow guard: from the largest \<open>unsigned int\<close> it stores 0 and
  still returns true, so the count of references is lost, and the next \<open>refcount_dec\<close>
  fails its assertion.
\<close>

theorem refcount_inc_wraps:
  "refcount_inc_alone (- 1) = Returned True 0 \<and> refcount_dec_alone 0 = Assert_failed"
  by (simp add: refcount_inc_alone_eq refcount_dec_alone_eq)

end
