(* ===== verification/Mutex.thy ===== *)
theory Mutex
  imports Refcount
begin

text \<open>
  Sleeping locks: the wait queue (\<open>core/kernel/wait_queue.c\<close>), mutexes, recursive mutexes
  and condition variables (\<open>core/kernel/mutex.c\<close>). Each section the code runs under a
  spinlock is one function of the model; the threads of a system interleave at the borders
  of these sections. \<open>notif_wait()\<close> may return at any time (normal world decides), so a
  sleeping thread may look at its queue element in every state.
\<close>

section \<open>Wait queues\<close>

text \<open>
  \<open>struct wait_queue_elem\<close>. An element is a local variable of the thread that waits, so the
  thread number also identifies the element; a condition variable is named by a number.
\<close>

record wait_queue_elem =
  we_handle :: nat
  we_done :: bool
  we_wait_read :: bool
  we_cv :: "nat option"

type_synonym wait_queue = "wait_queue_elem list"

definition wq_init :: wait_queue where
  "wq_init = []"

fun slist_add_tail :: "wait_queue \<Rightarrow> wait_queue_elem \<Rightarrow> wait_queue" where
  "slist_add_tail [] e = [e]"
| "slist_add_tail (x # xs) e = x # slist_add_tail xs e"

definition wq_wait_init_condvar ::
    "wait_queue \<Rightarrow> nat \<Rightarrow> nat option \<Rightarrow> bool \<Rightarrow> wait_queue" where
  "wq_wait_init_condvar q self cv wait_read =
     slist_add_tail q
       \<lparr>we_handle = self, we_done = False, we_wait_read = wait_read, we_cv = cv\<rparr>"

definition wq_wait_init :: "wait_queue \<Rightarrow> nat \<Rightarrow> bool \<Rightarrow> wait_queue" where
  "wq_wait_init q self wait_read = wq_wait_init_condvar q self None wait_read"

text \<open>\<open>SLIST_REMOVE\<close> and the read of the element of thread \<open>t\<close>.\<close>

fun slist_remove :: "wait_queue \<Rightarrow> nat \<Rightarrow> wait_queue" where
  "slist_remove [] t = []"
| "slist_remove (e # es) t = (if we_handle e = t then es else e # slist_remove es t)"

definition elem_done :: "wait_queue \<Rightarrow> nat \<Rightarrow> bool" where
  "elem_done q t = (\<exists>e \<in> set q. we_handle e = t \<and> we_done e)"

text \<open>One turn of the loop of \<open>wq_wait_final\<close>, after \<open>notif_wait\<close> has returned.\<close>

definition wq_wait_final_section :: "wait_queue \<Rightarrow> nat \<Rightarrow> bool \<times> wait_queue" where
  "wq_wait_final_section q self =
     (if elem_done q self then (True, slist_remove q self) else (False, q))"

text \<open>
  The body of the loop of \<open>wq_wake_next\<close>: \<open>wake_type\<close> is \<open>None\<close> until \<open>wake_type_assigned\<close>
  and then holds \<open>wake_read\<close>; the result has the thread to notify, if any.
\<close>

fun wq_wake_section ::
    "bool option \<Rightarrow> wait_queue \<Rightarrow> wait_queue \<times> nat option \<times> bool option" where
  "wq_wake_section wake_type [] = ([], None, wake_type)"
| "wq_wake_section wake_type (e # es) =
     (if we_cv e \<noteq> None \<or> we_done e then
        (case wq_wake_section wake_type es of (es', h, ty) \<Rightarrow> (e # es', h, ty))
      else let wake_read = (case wake_type of None \<Rightarrow> we_wait_read e | Some r \<Rightarrow> r) in
        if we_wait_read e \<noteq> wake_read then
          (case wq_wake_section (Some wake_read) es of (es', h, ty) \<Rightarrow> (e # es', h, ty))
        else (e\<lparr>we_done := True\<rparr> # es, Some (we_handle e), Some wake_read))"

definition pending :: "wait_queue \<Rightarrow> nat" where
  "pending q = length (filter (\<lambda>e. \<not> we_done e) q)"

lemma wq_wake_section_pending:
  "wq_wake_section ty q = (q', Some h, ty') \<Longrightarrow> pending q' < pending q"
  by (induction ty q arbitrary: q' rule: wq_wake_section.induct)
     (fastforce simp: pending_def Let_def split: if_splits prod.splits)+

text \<open>\<open>wq_wake_next\<close> run to its end: the queue it leaves and the threads it notifies.\<close>

function wq_wake_loop :: "bool option \<Rightarrow> wait_queue \<Rightarrow> wait_queue \<times> nat list" where
  "wq_wake_loop wake_type q =
     (case wq_wake_section wake_type q of
        (q', None, ty) \<Rightarrow> (q', [])
      | (q', Some h, ty) \<Rightarrow>
          if ty = Some True then (case wq_wake_loop ty q' of (q'', hs) \<Rightarrow> (q'', h # hs))
          else (q', [h]))"
  by pat_completeness auto
termination
  by (relation "measure (\<lambda>(_, q). pending q)")
     (auto intro: wq_wake_section_pending [OF sym])

declare wq_wake_loop.simps [simp del]

definition wq_wake_next :: "wait_queue \<Rightarrow> wait_queue \<times> nat list" where
  "wq_wake_next q = wq_wake_loop None q"

fun wq_promote_condvar :: "wait_queue \<Rightarrow> nat \<Rightarrow> bool \<Rightarrow> wait_queue" where
  "wq_promote_condvar [] cv only_one = []"
| "wq_promote_condvar (e # es) cv only_one =
     (if we_cv e = Some cv
      then e\<lparr>we_cv := None\<rparr> # (if only_one then es else wq_promote_condvar es cv only_one)
      else e # wq_promote_condvar es cv only_one)"

definition wq_have_condvar :: "wait_queue \<Rightarrow> nat \<Rightarrow> bool" where
  "wq_have_condvar q cv = (\<exists>e \<in> set q. we_cv e = Some cv)"

definition wq_is_empty :: "wait_queue \<Rightarrow> bool" where
  "wq_is_empty q = (q = [])"

subsection \<open>What the queue operations do\<close>

text \<open>An element that waits for the lock itself and has not been woken.\<close>

definition active :: "wait_queue_elem \<Rightarrow> bool" where
  "active e \<longleftrightarrow> we_cv e = None \<and> \<not> we_done e"

lemma slist_add_tail_eq [simp]: "slist_add_tail q e = q @ [e]"
  by (induction q) simp_all

lemma slist_remove_absent: "t \<notin> we_handle ` set q \<Longrightarrow> slist_remove q t = q"
  by (induction q) auto

lemma slist_remove_eq:
  "distinct (map we_handle q) \<Longrightarrow> slist_remove q t = filter (\<lambda>e. we_handle e \<noteq> t) q"
proof (induction q)
  case (Cons e es)
  have "filter (\<lambda>x. we_handle x \<noteq> we_handle e) es = es"
    using Cons.prems by (intro filter_True) (auto simp: rev_image_eqI)
  then show ?case using Cons by auto
qed simp

text \<open>An element the loop of \<open>wq_wake_next\<close> may wake when it looks for kind \<open>ty\<close>.\<close>

definition wanted :: "bool option \<Rightarrow> wait_queue_elem \<Rightarrow> bool" where
  "wanted ty e \<longleftrightarrow> active e \<and> (\<forall>r. ty = Some r \<longrightarrow> we_wait_read e = r)"

lemma wq_wake_section_Cons:
  "wq_wake_section ty (e # es) =
     (if wanted ty e then (e\<lparr>we_done := True\<rparr> # es, Some (we_handle e), Some (we_wait_read e))
      else case wq_wake_section ty es of (es', h, ty') \<Rightarrow> (e # es', h, ty'))"
  by (cases ty) (auto simp: wanted_def active_def Let_def)

lemma wq_wake_section_none:
  "wq_wake_section ty q = (q', None, ty') \<Longrightarrow>
   q' = q \<and> ty' = ty \<and> (\<forall>e \<in> set q. \<not> wanted ty e)"
proof (induction q arbitrary: q')
  case (Cons e es)
  then show ?case
    by (auto simp: wq_wake_section_Cons simp del: wq_wake_section.simps
        split: if_splits prod.splits)
qed simp

text \<open>Woken: the first wanted element.\<close>

lemma wq_wake_section_some:
  "wq_wake_section ty q = (q', Some h, ty') \<Longrightarrow>
   \<exists>xs e ys. q = xs @ e # ys \<and> q' = xs @ e\<lparr>we_done := True\<rparr> # ys \<and> h = we_handle e
     \<and> wanted ty e \<and> ty' = Some (we_wait_read e) \<and> (\<forall>x \<in> set xs. \<not> wanted ty x)"
proof (induction q arbitrary: q')
  case (Cons e es)
  show ?case
  proof (cases "wanted ty e")
    case True
    then show ?thesis
      using Cons.prems
      by (intro exI [of _ "[]"] exI [of _ e] exI [of _ es])
         (simp add: wq_wake_section_Cons del: wq_wake_section.simps)
  next
    case False
    then obtain es' where q': "q' = e # es'" and "wq_wake_section ty es = (es', Some h, ty')"
      using Cons.prems
      by (auto simp: wq_wake_section_Cons simp del: wq_wake_section.simps split: prod.splits)
    then obtain xs f ys where f: "es = xs @ f # ys" "es' = xs @ f\<lparr>we_done := True\<rparr> # ys"
      "h = we_handle f" "wanted ty f" "ty' = Some (we_wait_read f)"
      "\<forall>x \<in> set xs. \<not> wanted ty x"
      using Cons.IH by blast
    then show ?thesis
      using q' False by (intro exI [of _ "e # xs"] exI [of _ f] exI [of _ ys]) simp
  qed
qed simp

text \<open>Later turns of the loop look for readers only, and wake all of them.\<close>

lemma wq_wake_loop_readers:
  "wq_wake_loop (Some True) q =
     (map (\<lambda>e. if active e \<and> we_wait_read e then e\<lparr>we_done := True\<rparr> else e) q,
      map we_handle (filter (\<lambda>e. active e \<and> we_wait_read e) q))"
proof (induction "pending q" arbitrary: q rule: less_induct)
  case less
  obtain q1 h ty where sec: "wq_wake_section (Some True) q = (q1, h, ty)" by (metis prod_cases3)
  show ?case
  proof (cases h)
    case None
    then have "q1 = q" "\<forall>e \<in> set q. \<not> (active e \<and> we_wait_read e)"
      using wq_wake_section_none [of "Some True" q q1 ty] sec by (auto simp: wanted_def)
    then show ?thesis
      using sec None by (subst wq_wake_loop.simps) (auto intro!: map_idI [symmetric])
  next
    case (Some t)
    then obtain xs e ys where e: "q = xs @ e # ys" "q1 = xs @ e\<lparr>we_done := True\<rparr> # ys"
      "t = we_handle e" "active e \<and> we_wait_read e" "ty = Some True"
      "\<forall>x \<in> set xs. \<not> (active x \<and> we_wait_read x)"
      using wq_wake_section_some [of "Some True" q q1 t ty] sec by (auto simp: wanted_def)
    have IH: "wq_wake_loop (Some True) q1 =
        (map (\<lambda>e. if active e \<and> we_wait_read e then e\<lparr>we_done := True\<rparr> else e) q1,
         map we_handle (filter (\<lambda>e. active e \<and> we_wait_read e) q1))"
      using less wq_wake_section_pending [of "Some True" q q1 t ty] sec Some by simp
    have "wq_wake_loop (Some True) q =
        (case wq_wake_loop (Some True) q1 of (q2, hs) \<Rightarrow> (q2, t # hs))"
      using sec Some e(5) by (subst wq_wake_loop.simps) simp
    moreover have "filter (\<lambda>e. active e \<and> we_wait_read e) xs = []"
      using e(6) by (auto simp: filter_empty_conv)
    ultimately show ?thesis using e unfolding IH by (simp add: active_def)
  qed
qed

text \<open>
  \<open>wq_wake_next\<close> terminates and wakes in queue order: nobody when no element is active,
  only the first active element when that one waits to write, and exactly the active readers
  when it waits to read. Elements that wait for a condition variable, and those already
  woken, are left alone.
\<close>

theorem wq_wake_next_spec:
  "wq_wake_next q =
     (case filter active q of
        [] \<Rightarrow> (q, [])
      | e # _ \<Rightarrow>
          if we_wait_read e then
            (map (\<lambda>x. if active x \<and> we_wait_read x then x\<lparr>we_done := True\<rparr> else x) q,
             map we_handle (filter (\<lambda>x. active x \<and> we_wait_read x) q))
          else (takeWhile (\<lambda>x. \<not> active x) q
                  @ e\<lparr>we_done := True\<rparr> # tl (dropWhile (\<lambda>x. \<not> active x) q),
                [we_handle e]))"
proof -
  obtain q1 h ty where sec: "wq_wake_section None q = (q1, h, ty)" by (metis prod_cases3)
  show ?thesis
  proof (cases h)
    case None
    then have "q1 = q" "filter active q = []"
      using wq_wake_section_none [of None q q1 ty] sec
      by (auto simp: wanted_def filter_empty_conv)
    then show ?thesis
      using sec None unfolding wq_wake_next_def by (subst wq_wake_loop.simps) simp
  next
    case (Some t)
    then obtain xs e ys where e: "q = xs @ e # ys" "q1 = xs @ e\<lparr>we_done := True\<rparr> # ys"
      "t = we_handle e" "active e" "ty = Some (we_wait_read e)" "\<forall>x \<in> set xs. \<not> active x"
      using wq_wake_section_some [of None q q1 t ty] sec by (auto simp: wanted_def)
    then have hd: "filter active q = e # filter active ys"
      and idle: "filter (\<lambda>x. active x \<and> we_wait_read x) xs = []"
      by (auto simp: filter_empty_conv)
    show ?thesis
    proof (cases "we_wait_read e")
      case True
      have "wq_wake_next q = (case wq_wake_loop (Some True) q1 of (q2, hs) \<Rightarrow> (q2, t # hs))"
        using sec Some e(5) True unfolding wq_wake_next_def by (subst wq_wake_loop.simps) simp
      then show ?thesis
        using True hd e idle by (simp add: wq_wake_loop_readers active_def)
    next
      case False
      have "wq_wake_next q = (q1, [t])"
        using sec Some e(5) False unfolding wq_wake_next_def by (subst wq_wake_loop.simps) simp
      then show ?thesis
        using False hd e by (simp add: takeWhile_append dropWhile_append)
    qed
  qed
qed

lemma wq_promote_condvar_subset:
  "map we_handle (wq_promote_condvar q c one) = map we_handle q"
  "map we_wait_read (wq_promote_condvar q c one) = map we_wait_read q"
  "map we_done (wq_promote_condvar q c one) = map we_done q"
  by (induction q) auto

section \<open>Mutexes and condition variables\<close>

text \<open>
  \<open>struct mutex\<close>: \<open>state\<close> is a \<open>short\<close>, -1 when locked for writing, otherwise the number of
  readers. \<open>struct condvar\<close> remembers the mutex it is used with.
\<close>

record mutex =
  m_wq :: wait_queue
  m_state :: "16 word"

record condvar =
  cv_m :: "nat option"

definition mutex_init :: mutex where
  "mutex_init = \<lparr>m_wq = wq_init, m_state = 0\<rparr>"

text \<open>The spinlock sections; the result \<open>None\<close> is a call of \<open>panic()\<close>.\<close>

definition mutex_lock_section :: "nat \<Rightarrow> mutex \<Rightarrow> bool \<times> mutex" where
  "mutex_lock_section self m =
     (let can_lock = (m_state m = 0) in
      if \<not> can_lock then (False, m\<lparr>m_wq := wq_wait_init (m_wq m) self False\<rparr>)
      else (True, m\<lparr>m_state := - 1\<rparr>))"

definition mutex_unlock_section :: "mutex \<Rightarrow> mutex option" where
  "mutex_unlock_section m = (if m_state m = 0 then None else Some (m\<lparr>m_state := 0\<rparr>))"

definition mutex_trylock :: "mutex \<Rightarrow> bool \<times> mutex" where
  "mutex_trylock m =
     (let can_lock_write = (m_state m = 0) in
      (can_lock_write, if can_lock_write then m\<lparr>m_state := - 1\<rparr> else m))"

definition mutex_read_unlock_section :: "mutex \<Rightarrow> (mutex \<times> 16 word) option" where
  "mutex_read_unlock_section m =
     (if sint (m_state m) \<le> 0 then None
      else let new_state = m_state m - 1 in Some (m\<lparr>m_state := new_state\<rparr>, new_state))"

definition mutex_read_lock_section :: "nat \<Rightarrow> mutex \<Rightarrow> bool \<times> mutex" where
  "mutex_read_lock_section self m =
     (let can_lock = (m_state m \<noteq> - 1) in
      if \<not> can_lock then (False, m\<lparr>m_wq := wq_wait_init (m_wq m) self True\<rparr>)
      else (True, m\<lparr>m_state := m_state m + 1\<rparr>))"

definition mutex_read_trylock :: "mutex \<Rightarrow> bool \<times> mutex" where
  "mutex_read_trylock m =
     (let can_lock = (m_state m \<noteq> - 1) in
      (can_lock, if can_lock then m\<lparr>m_state := m_state m + 1\<rparr> else m))"

definition mutex_destroy :: "mutex \<Rightarrow> unit option" where
  "mutex_destroy m =
     (if m_state m \<noteq> 0 then None else if \<not> wq_is_empty (m_wq m) then None else Some ())"

definition condvar_init :: condvar where
  "condvar_init = \<lparr>cv_m = None\<rparr>"

text \<open>\<open>condvar_destroy\<close>, given the wait queues of all mutexes.\<close>

definition condvar_destroy :: "(nat \<Rightarrow> wait_queue) \<Rightarrow> nat \<Rightarrow> condvar \<Rightarrow> condvar option" where
  "condvar_destroy wqs c cv =
     (case cv_m cv of
        Some m \<Rightarrow> if wq_have_condvar (wqs m) c then None else Some condvar_init
      | None \<Rightarrow> Some condvar_init)"

text \<open>The two sections of \<open>__condvar_wait\<close>: under the spinlock of the variable, then of the mutex.\<close>

definition condvar_wait_link :: "nat \<Rightarrow> condvar \<Rightarrow> condvar option" where
  "condvar_wait_link mid cv =
     (if cv_m cv \<noteq> None \<and> cv_m cv \<noteq> Some mid then None else Some (cv\<lparr>cv_m := Some mid\<rparr>))"

definition condvar_wait_section ::
    "nat \<Rightarrow> nat \<Rightarrow> mutex \<Rightarrow> (mutex \<times> 16 word \<times> 16 word) option" where
  "condvar_wait_section self c m =
     (if m_state m = 0 then None
      else let old_state = m_state m;
               q = wq_wait_init_condvar (m_wq m) self (Some c) (0 < sint (m_state m));
               new_state = (if 1 < sint (m_state m) then m_state m - 1 else 0)
           in Some (\<lparr>m_wq = q, m_state = new_state\<rparr>, old_state, new_state))"

section \<open>Threads that share one mutex\<close>

text \<open>How a thread holds, or wants to hold, the mutex.\<close>

datatype mode = Wr | Rd

text \<open>Where a thread stands: outside, or at the border of the section it runs next.\<close>

datatype after_wake = A_return | A_wait mode

datatype pc =
    Idle
  | At_lock mode                       \<comment> \<open>top of the loop of \<open>__mutex_lock\<close>\<close>
  | In_wait mode                       \<comment> \<open>in the loop of \<open>wq_wait_final\<close>; then relocks\<close>
  | Waking "bool option" after_wake    \<comment> \<open>in the loop of \<open>wq_wake_next\<close>\<close>
  | At_cv_wait nat                     \<comment> \<open>in \<open>__condvar_wait\<close>, variable linked\<close>
  | At_promote nat bool                \<comment> \<open>in \<open>cv_signal\<close>, mutex of the variable read\<close>

record sys =
  mtx :: mutex
  cvs :: "nat \<Rightarrow> condvar"
  pcs :: "nat \<Rightarrow> pc"
  holds :: "nat \<Rightarrow> mode option"
  panicked :: bool

definition sys_init :: sys where
  "sys_init = \<lparr>mtx = mutex_init, cvs = \<lambda>_. condvar_init, pcs = \<lambda>_. Idle, holds = \<lambda>_. None,
     panicked = False\<rparr>"

definition goto :: "nat \<Rightarrow> pc \<Rightarrow> sys \<Rightarrow> sys" where
  "goto t p s = s\<lparr>pcs := (pcs s)(t := p)\<rparr>"

definition set_hold :: "nat \<Rightarrow> mode option \<Rightarrow> sys \<Rightarrow> sys" where
  "set_hold t h s = s\<lparr>holds := (holds s)(t := h)\<rparr>"

datatype call =
    Lock mode | Trylock mode | Unlock | Read_unlock
  | Condvar_wait nat | Condvar_signal nat bool

definition lock_section :: "mode \<Rightarrow> nat \<Rightarrow> mutex \<Rightarrow> bool \<times> mutex" where
  "lock_section md t m =
     (case md of Wr \<Rightarrow> mutex_lock_section t m | Rd \<Rightarrow> mutex_read_lock_section t m)"

definition trylock :: "mode \<Rightarrow> mutex \<Rightarrow> bool \<times> mutex" where
  "trylock md m = (case md of Wr \<Rightarrow> mutex_trylock m | Rd \<Rightarrow> mutex_read_trylock m)"

text \<open>
  Each function below is what one operation does with its next section: the loop of
  \<open>__mutex_lock\<close> and \<open>__mutex_read_lock\<close>, the loop of \<open>wq_wait_final\<close> (after which the thread
  is back at the top of the lock loop), the loop of \<open>wq_wake_next\<close>, the rest of
  \<open>__condvar_wait\<close> and of \<open>cv_signal\<close>, and the two unlock operations.
\<close>

definition mutex_lock_loop :: "mode \<Rightarrow> nat \<Rightarrow> sys \<Rightarrow> sys" where
  "mutex_lock_loop md t s =
     (case lock_section md t (mtx s) of
        (True, m') \<Rightarrow> goto t Idle (set_hold t (Some md) (s\<lparr>mtx := m'\<rparr>))
      | (False, m') \<Rightarrow> goto t (In_wait md) (s\<lparr>mtx := m'\<rparr>))"

definition wq_wait_final_loop :: "mode \<Rightarrow> nat \<Rightarrow> sys \<Rightarrow> sys" where
  "wq_wait_final_loop md t s =
     (case wq_wait_final_section (m_wq (mtx s)) t of
        (True, q) \<Rightarrow> goto t (At_lock md) (s\<lparr>mtx := (mtx s)\<lparr>m_wq := q\<rparr>\<rparr>)
      | (False, q) \<Rightarrow> s)"

definition wq_wake_next_loop :: "bool option \<Rightarrow> after_wake \<Rightarrow> nat \<Rightarrow> sys \<Rightarrow> sys" where
  "wq_wake_next_loop wake_type k t s =
     (case wq_wake_section wake_type (m_wq (mtx s)) of (q, h, ty) \<Rightarrow>
        goto t
          (if h = None \<or> ty \<noteq> Some True
           then (case k of A_return \<Rightarrow> Idle | A_wait md \<Rightarrow> In_wait md)
           else Waking ty k)
          (s\<lparr>mtx := (mtx s)\<lparr>m_wq := q\<rparr>\<rparr>))"

definition condvar_wait_unlock :: "nat \<Rightarrow> nat \<Rightarrow> sys \<Rightarrow> sys" where
  "condvar_wait_unlock c t s =
     (case condvar_wait_section t c (mtx s) of
        None \<Rightarrow> s\<lparr>panicked := True\<rparr>
      | Some (m', old_state, new_state) \<Rightarrow>
          let md = (if 0 < sint old_state then Rd else Wr) in
          goto t (if new_state = 0 then Waking None (A_wait md) else In_wait md)
            (set_hold t None (s\<lparr>mtx := m'\<rparr>)))"

definition cv_signal_promote :: "nat \<Rightarrow> bool \<Rightarrow> nat \<Rightarrow> sys \<Rightarrow> sys" where
  "cv_signal_promote c only_one t s =
     goto t Idle
       (s\<lparr>mtx := (mtx s)\<lparr>m_wq := wq_promote_condvar (m_wq (mtx s)) c only_one\<rparr>\<rparr>)"

definition mutex_unlock :: "nat \<Rightarrow> sys \<Rightarrow> sys" where
  "mutex_unlock t s =
     (case mutex_unlock_section (mtx s) of
        None \<Rightarrow> s\<lparr>panicked := True\<rparr>
      | Some m' \<Rightarrow> goto t (Waking None A_return) (set_hold t None (s\<lparr>mtx := m'\<rparr>)))"

definition mutex_read_unlock :: "nat \<Rightarrow> sys \<Rightarrow> sys" where
  "mutex_read_unlock t s =
     (case mutex_read_unlock_section (mtx s) of
        None \<Rightarrow> s\<lparr>panicked := True\<rparr>
      | Some (m', new_state) \<Rightarrow>
          goto t (if new_state = 0 then Waking None A_return else Idle)
            (set_hold t None (s\<lparr>mtx := m'\<rparr>)))"

text \<open>Thread \<open>t\<close> calls an operation of the mutex (number \<open>mid\<close>) and runs its first section.\<close>

fun begin_call :: "nat \<Rightarrow> call \<Rightarrow> nat \<Rightarrow> sys \<Rightarrow> sys" where
  "begin_call mid (Lock md) t s = goto t (At_lock md) s"
| "begin_call mid (Trylock md) t s =
     (case trylock md (mtx s) of
        (True, m') \<Rightarrow> set_hold t (Some md) (s\<lparr>mtx := m'\<rparr>)
      | (False, m') \<Rightarrow> s\<lparr>mtx := m'\<rparr>)"
| "begin_call mid Unlock t s = mutex_unlock t s"
| "begin_call mid Read_unlock t s = mutex_read_unlock t s"
| "begin_call mid (Condvar_wait c) t s =
     (case condvar_wait_link mid (cvs s c) of
        None \<Rightarrow> s\<lparr>panicked := True\<rparr>
      | Some cv' \<Rightarrow> goto t (At_cv_wait c) (s\<lparr>cvs := (cvs s)(c := cv')\<rparr>))"
| "begin_call mid (Condvar_signal c only_one) t s =
     (if cv_m (cvs s c) = Some mid then goto t (At_promote c only_one) s else s)"

text \<open>Thread \<open>t\<close>, inside a call, runs its next section.\<close>

definition run_section :: "nat \<Rightarrow> sys \<Rightarrow> sys" where
  "run_section t s =
     (case pcs s t of
        Idle \<Rightarrow> s
      | At_lock md \<Rightarrow> mutex_lock_loop md t s
      | In_wait md \<Rightarrow> wq_wait_final_loop md t s
      | Waking ty k \<Rightarrow> wq_wake_next_loop ty k t s
      | At_cv_wait c \<Rightarrow> condvar_wait_unlock c t s
      | At_promote c only_one \<Rightarrow> cv_signal_promote c only_one t s)"

lemmas run_section_defs = run_section_def mutex_lock_loop_def wq_wait_final_loop_def
  wq_wake_next_loop_def condvar_wait_unlock_def cv_signal_promote_def

text \<open>
  The rules callers keep: lock only what one does not hold, unlock as one has locked, wait on
  and signal a variable while holding the mutex, and use it with one mutex.
\<close>

fun allowed :: "nat \<Rightarrow> call \<Rightarrow> nat \<Rightarrow> sys \<Rightarrow> bool" where
  "allowed mid (Lock md) t s \<longleftrightarrow> holds s t = None"
| "allowed mid (Trylock md) t s \<longleftrightarrow> holds s t = None"
| "allowed mid Unlock t s \<longleftrightarrow> holds s t = Some Wr"
| "allowed mid Read_unlock t s \<longleftrightarrow> holds s t = Some Rd"
| "allowed mid (Condvar_wait c) t s \<longleftrightarrow> holds s t \<noteq> None \<and> cv_m (cvs s c) \<in> {None, Some mid}"
| "allowed mid (Condvar_signal c only_one) t s \<longleftrightarrow> holds s t \<noteq> None"

text \<open>\<open>n\<close> threads (\<open>CFG_NUM_THREADS\<close>) use mutex \<open>mid\<close>.\<close>

inductive mutex_step :: "nat \<Rightarrow> nat \<Rightarrow> sys \<Rightarrow> sys \<Rightarrow> bool" for n mid where
  step_call: "\<lbrakk>t < n; \<not> panicked s; pcs s t = Idle; allowed mid c t s\<rbrakk>
    \<Longrightarrow> mutex_step n mid s (begin_call mid c t s)"
| step_run: "\<lbrakk>t < n; \<not> panicked s; pcs s t \<noteq> Idle\<rbrakk> \<Longrightarrow> mutex_step n mid s (run_section t s)"

inductive mutex_reachable :: "nat \<Rightarrow> nat \<Rightarrow> sys \<Rightarrow> bool" for n mid where
  reach_init: "mutex_reachable n mid sys_init"
| reach_step: "mutex_reachable n mid s \<Longrightarrow> mutex_step n mid s s' \<Longrightarrow> mutex_reachable n mid s'"

section \<open>The lock word\<close>

text \<open>
  \<open>st\<close> is the \<open>state\<close> of a mutex that the threads below \<open>n\<close> hold as \<open>h\<close> says. The number
  of threads is small enough for a \<open>short\<close> to count the readers.
\<close>

definition readers :: "nat \<Rightarrow> (nat \<Rightarrow> mode option) \<Rightarrow> nat set" where
  "readers n h = {u. u < n \<and> h u = Some Rd}"

definition lock_ok :: "nat \<Rightarrow> (nat \<Rightarrow> mode option) \<Rightarrow> 16 word \<Rightarrow> bool" where
  "lock_ok n h st \<longleftrightarrow>
     (\<exists>w < n. h w = Some Wr \<and> (\<forall>u < n. u \<noteq> w \<longrightarrow> h u = None) \<and> st = - 1)
     \<or> ((\<forall>u < n. h u \<noteq> Some Wr) \<and> st = word_of_nat (card (readers n h)))"

lemma lock_okE:
  assumes "lock_ok n h st"
  obtains (writer) w where "w < n" "h w = Some Wr" "\<And>u. u < n \<Longrightarrow> u \<noteq> w \<Longrightarrow> h u = None" "st = - 1"
  | (readers) "\<And>u. u < n \<Longrightarrow> h u \<noteq> Some Wr" "st = word_of_nat (card (readers n h))"
  using assms unfolding lock_ok_def by blast

lemma short_of_nat:
  assumes "k < 2 ^ 15"
  shows "sint (word_of_nat k :: 16 word) = int k" and "(word_of_nat k :: 16 word) = 0 \<longleftrightarrow> k = 0"
    and "(word_of_nat k :: 16 word) \<noteq> - 1"
proof -
  have "signed_take_bit 15 (int k) = int k"
    using assms by (subst signed_take_bit_int_eq_self_iff) auto
  then show sint: "sint (word_of_nat k :: 16 word) = int k" by (simp add: signed_of_nat)
  show "(word_of_nat k :: 16 word) = 0 \<longleftrightarrow> k = 0"
    using sint by (auto dest: arg_cong [where f = sint])
  show "(word_of_nat k :: 16 word) \<noteq> - 1"
    using sint by (auto dest: arg_cong [where f = sint])
qed

lemma finite_readers [simp]: "finite (readers n h)"
  unfolding readers_def by simp

lemma readers_short: "n < 2 ^ 15 \<Longrightarrow> card (readers n h) < 2 ^ 15"
proof -
  assume n: "n < 2 ^ 15"
  have "readers n h \<subseteq> {..< n}" unfolding readers_def by auto
  then have "card (readers n h) \<le> n" using card_mono [of "{..< n}"] by simp
  then show ?thesis using n by simp
qed

lemma not_wr_is_rd: "h \<noteq> None \<Longrightarrow> h \<noteq> Some Wr \<Longrightarrow> h = Some Rd"
  by (metis mode.exhaust option.exhaust)

lemma lock_ok_held:
  assumes "n < 2 ^ 15" and "lock_ok n h st" and "t < n" and "h t \<noteq> None"
  shows "st \<noteq> 0"
  using assms(2)
proof (cases rule: lock_okE)
  case readers
  then have "t \<in> readers n h" using not_wr_is_rd assms(3,4) by (simp add: readers_def)
  then have "card (readers n h) \<noteq> 0" by auto
  then show ?thesis using readers short_of_nat(2) [OF readers_short] assms(1) by simp
qed simp

lemma lock_ok_acquire_wr:
  assumes "n < 2 ^ 15" and "lock_ok n h 0" and "t < n"
  shows "lock_ok n (h(t := Some Wr)) (- 1)"
  using lock_ok_held [OF assms(1,2)] assms(3) unfolding lock_ok_def by (intro disjI1 exI [of _ t]) force

lemma lock_ok_acquire_rd:
  assumes few: "n < 2 ^ 15" and "lock_ok n h st" and "st \<noteq> - 1" and "t < n" and "h t = None"
  shows "lock_ok n (h(t := Some Rd)) (st + 1)"
  using assms(2)
proof (cases rule: lock_okE)
  case readers
  have "readers n (h(t := Some Rd)) = insert t (readers n h)" "t \<notin> readers n h"
    using assms(4,5) by (auto simp: readers_def)
  then have "card (readers n (h(t := Some Rd))) = Suc (card (readers n h))" by simp
  then show ?thesis using readers unfolding lock_ok_def by (simp add: add.commute)
qed (use assms in simp)

lemma lock_ok_release_wr:
  assumes "lock_ok n h st" and "t < n" and "h t = Some Wr"
  shows "st = - 1" and "lock_ok n (h(t := None)) 0"
proof -
  obtain w where w: "w < n" "h w = Some Wr" "\<And>u. u < n \<Longrightarrow> u \<noteq> w \<Longrightarrow> h u = None" "st = - 1"
    using assms by (cases rule: lock_okE) auto
  then have "w = t" using assms by fastforce
  then have "readers n (h(t := None)) = {}" using w by (auto simp: readers_def)
  moreover have "(h(t := None)) u \<noteq> Some Wr" if "u < n" for u
    using w \<open>w = t\<close> that by (cases "u = t") auto
  ultimately show "lock_ok n (h(t := None)) 0" "st = - 1"
    using w unfolding lock_ok_def by auto
qed

lemma lock_ok_release_rd:
  assumes "n < 2 ^ 15" and "lock_ok n h st" and "t < n" and "h t = Some Rd"
  shows "0 < sint st" and "lock_ok n (h(t := None)) (st - 1)"
    and "\<not> 1 < sint st \<Longrightarrow> st - 1 = 0"
proof -
  have no_wr: "\<And>u. u < n \<Longrightarrow> h u \<noteq> Some Wr" and st: "st = word_of_nat (card (readers n h))"
    using assms(2) by (cases rule: lock_okE; use assms(3,4) in force)+
  have "t \<in> readers n h" using assms by (simp add: readers_def)
  then obtain k where k: "card (readers n h) = Suc k" by (cases "card (readers n h)") auto
  have "readers n (h(t := None)) = readers n h - {t}" by (auto simp: readers_def)
  then have "card (readers n (h(t := None))) = k" using k \<open>t \<in> readers n h\<close> by simp
  moreover have st_k: "st - 1 = word_of_nat k" using st k by simp
  ultimately show "lock_ok n (h(t := None)) (st - 1)" using no_wr unfolding lock_ok_def by simp
  have "sint st = int (Suc k)" using short_of_nat(1) [OF readers_short] st k assms(1) by metis
  then show "0 < sint st" "\<not> 1 < sint st \<Longrightarrow> st - 1 = 0" using st_k by auto
qed

section \<open>The queue and the threads\<close>

text \<open>A thread has an element in the queue exactly while it sleeps or is on its way to it.\<close>

fun waiting_mode :: "pc \<Rightarrow> mode option" where
  "waiting_mode (In_wait md) = Some md"
| "waiting_mode (Waking ty (A_wait md)) = Some md"
| "waiting_mode _ = None"

definition kind :: "wait_queue_elem \<Rightarrow> nat \<times> mode" where
  "kind e = (we_handle e, if we_wait_read e then Rd else Wr)"

definition queue_ok :: "nat \<Rightarrow> (nat \<Rightarrow> pc) \<Rightarrow> wait_queue \<Rightarrow> bool" where
  "queue_ok n p q \<longleftrightarrow> distinct (map we_handle q)
     \<and> (\<forall>t md. (t, md) \<in> kind ` set q \<longleftrightarrow> t < n \<and> waiting_mode (p t) = Some md)"

lemma queue_ok_kinds:
  assumes "map kind q' = map kind q" and "queue_ok n p q"
  shows "queue_ok n p q'"
proof -
  have "map we_handle q' = map we_handle q"
    using arg_cong [OF assms(1), where f = "map fst"] by (simp add: kind_def comp_def)
  moreover have "kind ` set q' = kind ` set q" using assms(1) by (metis list.set_map)
  ultimately show ?thesis using assms(2) unfolding queue_ok_def by simp
qed

lemma queue_ok_same:
  "queue_ok n p q \<Longrightarrow> waiting_mode pc' = waiting_mode (p t) \<Longrightarrow> queue_ok n (p(t := pc')) q"
  unfolding queue_ok_def by simp

lemma queue_ok_notin: "queue_ok n p q \<Longrightarrow> waiting_mode (p t) = None \<Longrightarrow> t \<notin> we_handle ` set q"
proof
  assume ok: "queue_ok n p q" and no: "waiting_mode (p t) = None" and "t \<in> we_handle ` set q"
  then obtain e where "e \<in> set q" "t = we_handle e" by blast
  then have "(t, snd (kind e)) \<in> kind ` set q" by (auto simp: kind_def image_iff)
  then show False using ok no unfolding queue_ok_def by simp
qed

lemma queue_ok_push:
  assumes "queue_ok n p q" and "waiting_mode (p t) = None" and "t < n"
    and "waiting_mode pc' = Some md" and "kind e = (t, md)"
  shows "queue_ok n (p(t := pc')) (q @ [e])"
proof -
  have "t \<notin> we_handle ` set q" by (rule queue_ok_notin [OF assms(1,2)])
  moreover have "we_handle e = t" using assms(5) by (simp add: kind_def)
  ultimately show ?thesis using assms unfolding queue_ok_def by auto
qed

lemma queue_ok_remove:
  assumes ok: "queue_ok n p q" and pc': "waiting_mode pc' = None"
  shows "queue_ok n (p(t := pc')) (slist_remove q t)"
proof -
  have eq: "slist_remove q t = filter (\<lambda>e. we_handle e \<noteq> t) q"
    using ok slist_remove_eq unfolding queue_ok_def by blast
  have "(u, md) \<in> kind ` set (slist_remove q t) \<longleftrightarrow> u \<noteq> t \<and> (u, md) \<in> kind ` set q" for u md
    unfolding eq kind_def by auto
  moreover have "distinct (map we_handle (slist_remove q t))"
    using ok unfolding eq queue_ok_def by (simp add: distinct_map_filter)
  ultimately show ?thesis using ok pc' unfolding queue_ok_def by auto
qed

lemma kinds_wake:
  "wq_wake_section ty q = (q', h, ty') \<Longrightarrow> map kind q' = map kind q"
proof (cases h)
  case (Some t)
  assume "wq_wake_section ty q = (q', h, ty')"
  then obtain xs e ys where "q = xs @ e # ys" "q' = xs @ e\<lparr>we_done := True\<rparr> # ys"
    using wq_wake_section_some [of ty q q' t ty'] Some by blast
  then show ?thesis by (simp add: kind_def)
qed (use wq_wake_section_none in blast)

lemma kinds_promote: "map kind (wq_promote_condvar q c one) = map kind q"
  by (induction q) (auto simp: kind_def)

text \<open>Somebody is awake who will look at the lock, or wake another, while it is free.\<close>

definition awake :: "nat \<Rightarrow> (nat \<Rightarrow> pc) \<Rightarrow> wait_queue \<Rightarrow> bool" where
  "awake n p q \<longleftrightarrow> (\<exists>t < n. \<exists>k. p t = Waking None k) \<or> (\<exists>e \<in> set q. we_done e)
     \<or> (\<exists>t < n. \<exists>md. p t = At_lock md)"

definition wake_ok :: "nat \<Rightarrow> (nat \<Rightarrow> pc) \<Rightarrow> wait_queue \<Rightarrow> 16 word \<Rightarrow> bool" where
  "wake_ok n p q st \<longleftrightarrow> (st = 0 \<and> (\<exists>e \<in> set q. active e) \<longrightarrow> awake n p q)"

lemma wake_ok_locked: "st \<noteq> 0 \<Longrightarrow> wake_ok n p q st"
  by (simp add: wake_ok_def)

lemma wake_ok_starts: "t < n \<Longrightarrow> p t = Waking None k \<or> p t = At_lock md \<Longrightarrow> wake_ok n p q st"
  by (auto simp: wake_ok_def awake_def)

text \<open>What a thread holds matches where it stands.\<close>

fun hold_matches :: "pc \<Rightarrow> mode option \<Rightarrow> bool" where
  "hold_matches Idle h \<longleftrightarrow> True"
| "hold_matches (At_cv_wait c) h \<longleftrightarrow> h \<noteq> None"
| "hold_matches (At_promote c one) h \<longleftrightarrow> h \<noteq> None"
| "hold_matches _ h \<longleftrightarrow> h = None"

definition sys_ok :: "nat \<Rightarrow> sys \<Rightarrow> bool" where
  [inv_defs]: "sys_ok n s \<longleftrightarrow> \<not> panicked s
     \<and> lock_ok n (holds s) (m_state (mtx s))
     \<and> queue_ok n (pcs s) (m_wq (mtx s))
     \<and> wake_ok n (pcs s) (m_wq (mtx s)) (m_state (mtx s))
     \<and> (\<forall>t. hold_matches (pcs s t) (holds s t))"

lemma sys_okD:
  assumes "sys_ok n s"
  shows "lock_ok n (holds s) (m_state (mtx s))" and "queue_ok n (pcs s) (m_wq (mtx s))"
    and "wake_ok n (pcs s) (m_wq (mtx s)) (m_state (mtx s))"
    and "hold_matches (pcs s t) (holds s t)" and "\<not> panicked s"
  using assms unfolding sys_ok_def by blast+

lemma sys_ok_goto_hold:
  assumes "sys_ok n s" and "lock_ok n ((holds s)(t := h)) (m_state m')"
    and "queue_ok n ((pcs s)(t := p)) (m_wq m')"
    and "wake_ok n ((pcs s)(t := p)) (m_wq m') (m_state m')" and "hold_matches p h"
  shows "sys_ok n (goto t p (set_hold t h (s\<lparr>mtx := m'\<rparr>)))"
  using assms by (auto simp: sys_ok_def goto_def set_hold_def)

lemma sys_ok_goto:
  assumes "sys_ok n s" and "m_state m' = m_state (mtx s)"
    and "queue_ok n ((pcs s)(t := p)) (m_wq m')"
    and "wake_ok n ((pcs s)(t := p)) (m_wq m') (m_state m')" and "hold_matches p (holds s t)"
  shows "sys_ok n (goto t p (s\<lparr>mtx := m'\<rparr>))"
  using assms by (auto simp: sys_ok_def goto_def)

lemma set_hold_same: "set_hold t (holds s t) s = s"
  by (simp add: set_hold_def)

lemma sys_init_ok: "sys_ok n sys_init"
  by (auto simp: sys_ok_def sys_init_def lock_ok_def queue_ok_def wake_ok_def mutex_init_def
      wq_init_def readers_def)

subsection \<open>Every step keeps the invariant\<close>

lemma sys_ok_held:
  "n < 2 ^ 15 \<Longrightarrow> sys_ok n s \<Longrightarrow> t < n \<Longrightarrow> holds s t \<noteq> None \<Longrightarrow> m_state (mtx s) \<noteq> 0"
  using lock_ok_held unfolding sys_ok_def by blast

lemma step_trylock:
  assumes few: "n < 2 ^ 15" and "sys_ok n s" and "t < n" and "pcs s t = Idle" and "holds s t = None"
  shows "sys_ok n (begin_call mid (Trylock md) t s)"
proof (cases "fst (trylock md (mtx s))")
  case False
  then have "trylock md (mtx s) = (False, mtx s)"
    by (cases md) (auto simp: trylock_def mutex_trylock_def mutex_read_trylock_def Let_def)
  then show ?thesis using assms(2) by simp
next
  case True
  define m' where "m' = snd (trylock md (mtx s))"
  have m': "m_wq m' = m_wq (mtx s)" "lock_ok n ((holds s)(t := Some md)) (m_state m')"
    using True assms lock_ok_acquire_wr [OF few] lock_ok_acquire_rd [OF few]
    by (cases md; auto simp: m'_def trylock_def mutex_trylock_def mutex_read_trylock_def Let_def
        sys_ok_def)+
  have "m_state m' \<noteq> 0" using lock_ok_held [OF few m'(2) assms(3)] by simp
  then have "sys_ok n (set_hold t (Some md) (s\<lparr>mtx := m'\<rparr>))"
    using assms m' by (auto simp: sys_ok_def set_hold_def wake_ok_locked)
  moreover have "trylock md (mtx s) = (True, m')"
    using True by (simp add: m'_def prod_eq_iff)
  ultimately show ?thesis by simp
qed

lemma step_unlock:
  assumes few: "n < 2 ^ 15" and "sys_ok n s" and "t < n" and "pcs s t = Idle"
    and "holds s t = Some Wr"
  shows "sys_ok n (begin_call mid Unlock t s)"
proof -
  have lock: "lock_ok n (holds s) (m_state (mtx s))" using assms by (simp add: sys_ok_def)
  note rel = lock_ok_release_wr [OF lock assms(3,5)]
  have "sys_ok n (goto t (Waking None A_return) (set_hold t None
      (s\<lparr>mtx := (mtx s)\<lparr>m_state := 0\<rparr>\<rparr>)))"
    using assms rel(2)
    by (intro sys_ok_goto_hold) (auto simp: sys_ok_def intro: queue_ok_same wake_ok_starts)
  then show ?thesis using rel(1) by (simp add: mutex_unlock_def mutex_unlock_section_def)
qed

lemma step_read_unlock:
  assumes few: "n < 2 ^ 15" and "sys_ok n s" and "t < n" and "pcs s t = Idle"
    and "holds s t = Some Rd"
  shows "sys_ok n (begin_call mid Read_unlock t s)"
proof -
  let ?st = "m_state (mtx s) - 1"
  have lock: "lock_ok n (holds s) (m_state (mtx s))" using assms by (simp add: sys_ok_def)
  note rel = lock_ok_release_rd [OF few lock assms(3,5)]
  have "sys_ok n (goto t (if ?st = 0 then Waking None A_return else Idle) (set_hold t None
      (s\<lparr>mtx := (mtx s)\<lparr>m_state := ?st\<rparr>\<rparr>)))"
    using assms rel(2)
    by (intro sys_ok_goto_hold)
       (auto simp: sys_ok_def intro: queue_ok_same wake_ok_starts wake_ok_locked)
  then show ?thesis using rel(1) by (simp add: mutex_read_unlock_def mutex_read_unlock_section_def Let_def not_le)
qed

lemma step_call:
  assumes few: "n < 2 ^ 15" and ok: "sys_ok n s" and t: "t < n" "pcs s t = Idle"
    and "allowed mid c t s"
  shows "sys_ok n (begin_call mid c t s)"
proof (cases c)
  case (Lock md)
  have "sys_ok n (goto t (At_lock md) (s\<lparr>mtx := mtx s\<rparr>))"
    using ok t assms(5) Lock
    by (intro sys_ok_goto) (auto simp: sys_ok_def intro: queue_ok_same wake_ok_starts)
  then show ?thesis using Lock by simp
next
  case (Condvar_wait cv)
  have held: "holds s t \<noteq> None" and link: "condvar_wait_link mid (cvs s cv) \<noteq> None"
    using assms(5) Condvar_wait by (auto simp: condvar_wait_link_def)
  have "m_state (mtx s) \<noteq> 0" using sys_ok_held [OF few ok t(1) held] .
  then have "sys_ok n (goto t (At_cv_wait cv) (s\<lparr>mtx := mtx s\<rparr>))"
    using ok t held
    by (intro sys_ok_goto) (auto simp: sys_ok_def intro: queue_ok_same wake_ok_locked)
  then show ?thesis using Condvar_wait link by (auto simp: sys_ok_def goto_def)
next
  case (Condvar_signal cv one)
  have held: "holds s t \<noteq> None" using assms(5) Condvar_signal by simp
  have "m_state (mtx s) \<noteq> 0" using sys_ok_held [OF few ok t(1) held] .
  then have "sys_ok n (goto t (At_promote cv one) (s\<lparr>mtx := mtx s\<rparr>))"
    using ok t held
    by (intro sys_ok_goto) (auto simp: sys_ok_def intro: queue_ok_same wake_ok_locked)
  then show ?thesis using Condvar_signal ok by simp
qed (use assms step_trylock step_unlock step_read_unlock in auto)

lemma lock_section_got:
  assumes few: "n < 2 ^ 15" and "lock_ok n h (m_state m)" and "t < n" and "h t = None"
    and "lock_section md t m = (True, m')"
  shows "m_wq m' = m_wq m" and "lock_ok n (h(t := Some md)) (m_state m')"
  using assms lock_ok_acquire_wr [OF few] lock_ok_acquire_rd [OF few]
  by (cases md; auto simp: lock_section_def mutex_lock_section_def mutex_read_lock_section_def
      Let_def split: if_splits)+

lemma lock_section_not:
  assumes "lock_section md t m = (False, m')"
  shows "m_wq m' = m_wq m @ [\<lparr>we_handle = t, we_done = False, we_wait_read = (md = Rd), we_cv = None\<rparr>]"
    and "m_state m' = m_state m" and "m_state m \<noteq> 0"
  using assms
  by (cases md; auto simp: lock_section_def mutex_lock_section_def mutex_read_lock_section_def
      wq_wait_init_def wq_wait_init_condvar_def Let_def split: if_splits)+

lemma step_at_lock:
  assumes few: "n < 2 ^ 15" and ok: "sys_ok n s" and t: "t < n" "pcs s t = At_lock md"
  shows "sys_ok n (run_section t s)"
proof -
  obtain got m' where sec: "lock_section md t (mtx s) = (got, m')" by (cases "lock_section md t (mtx s)")
  have free: "holds s t = None" and lock: "lock_ok n (holds s) (m_state (mtx s))"
    and q: "queue_ok n (pcs s) (m_wq (mtx s))"
    using sys_okD(1,2) [OF ok] sys_okD(4) [OF ok, of t] t by auto
  show ?thesis
  proof (cases got)
    case True
    then have got: "lock_section md t (mtx s) = (True, m')" using sec by simp
    note acq = lock_section_got [OF few lock t(1) free got]
    have "m_state m' \<noteq> 0" using lock_ok_held [OF few acq(2) t(1)] by simp
    then have "sys_ok n (goto t Idle (set_hold t (Some md) (s\<lparr>mtx := m'\<rparr>)))"
      using ok t q acq by (intro sys_ok_goto_hold) (auto intro: queue_ok_same wake_ok_locked)
    then show ?thesis using True t sec by (simp add: run_section_defs)
  next
    case False
    then have not_got: "lock_section md t (mtx s) = (False, m')" using sec by simp
    note fail = lock_section_not [OF not_got]
    have "sys_ok n (goto t (In_wait md) (s\<lparr>mtx := m'\<rparr>))"
      using ok t q fail free
      by (intro sys_ok_goto; cases md) (auto intro!: wake_ok_locked queue_ok_push simp: kind_def)
    then show ?thesis using False t sec by (simp add: run_section_defs)
  qed
qed

lemma step_in_wait:
  assumes ok: "sys_ok n s" and t: "t < n" "pcs s t = In_wait md"
  shows "sys_ok n (run_section t s)"
proof (cases "elem_done (m_wq (mtx s)) t")
  case True
  let ?m = "(mtx s)\<lparr>m_wq := slist_remove (m_wq (mtx s)) t\<rparr>"
  have "holds s t = None" using sys_okD(4) [OF ok, of t] t by simp
  then have "sys_ok n (goto t (At_lock md) (s\<lparr>mtx := ?m\<rparr>))"
    using ok t
    by (intro sys_ok_goto) (auto intro: queue_ok_remove [OF sys_okD(2)] wake_ok_starts)
  then show ?thesis using True t by (simp add: run_section_defs wq_wait_final_section_def)
qed (use ok t in \<open>simp add: run_section_defs wq_wait_final_section_def\<close>)

lemma awake_upd:
  assumes "\<And>k. p t \<noteq> Waking None k" and "\<And>md. p t \<noteq> At_lock md" and "awake n p q"
  shows "awake n (p(t := pc')) q"
  using assms(3) unfolding awake_def
proof (elim disjE exE conjE)
  fix u k assume "u < n" "p u = Waking None k"
  then show "(\<exists>v<n. \<exists>k. (p(t := pc')) v = Waking None k) \<or> (\<exists>e\<in>set q. we_done e)
      \<or> (\<exists>v<n. \<exists>md. (p(t := pc')) v = At_lock md)"
    using assms(1) by (intro disjI1 exI [of _ u]) auto
next
  fix u md assume "u < n" "p u = At_lock md"
  then show "(\<exists>v<n. \<exists>k. (p(t := pc')) v = Waking None k) \<or> (\<exists>e\<in>set q. we_done e)
      \<or> (\<exists>v<n. \<exists>md. (p(t := pc')) v = At_lock md)"
    using assms(2) by (intro disjI2 exI [of _ u]) auto
qed blast

lemma wake_ok_woken:
  assumes "wq_wake_section ty q = (q', h, ty')" and "wake_ok n p q st"
    and "p t = Waking ty k" and "\<And>ty k. pc' = Waking ty k \<Longrightarrow> h \<noteq> None"
  shows "wake_ok n (p(t := pc')) q' st"
proof (cases h)
  case None
  then have q': "q' = q" "\<forall>e \<in> set q. \<not> wanted ty e"
    using wq_wake_section_none [of ty q q' ty'] assms(1) by auto
  show ?thesis
  proof (cases ty)
    case None
    then have "\<forall>e \<in> set q. \<not> active e" using q' by (simp add: wanted_def)
    then show ?thesis using q' by (auto simp: wake_ok_def)
  next
    case (Some r)
    have "awake n (p(t := pc')) q" if "awake n p q"
      using awake_upd [OF _ _ that] assms(3) Some by simp
    then show ?thesis using assms(2) q' by (auto simp: wake_ok_def)
  qed
next
  case (Some u)
  then obtain xs e ys where "q' = xs @ e\<lparr>we_done := True\<rparr> # ys"
    using wq_wake_section_some [of ty q q' u ty'] assms(1) by blast
  then have "awake n (p(t := pc')) q'" unfolding awake_def by auto
  then show ?thesis by (simp add: wake_ok_def)
qed

lemma step_waking:
  assumes ok: "sys_ok n s" and t: "t < n" "pcs s t = Waking ty k"
  shows "sys_ok n (run_section t s)"
proof -
  obtain q h ty' where sec: "wq_wake_section ty (m_wq (mtx s)) = (q, h, ty')" by (metis prod_cases3)
  let ?pc = "if h = None \<or> ty' \<noteq> Some True
    then (case k of A_return \<Rightarrow> Idle | A_wait md \<Rightarrow> In_wait md) else Waking ty' k"
  let ?m = "(mtx s)\<lparr>m_wq := q\<rparr>"
  have "queue_ok n (pcs s) q"
    using queue_ok_kinds [OF kinds_wake [OF sec]] ok by (simp add: sys_ok_def)
  then have "queue_ok n ((pcs s)(t := ?pc)) q"
    by (rule queue_ok_same) (use t in \<open>auto split: after_wake.splits\<close>)
  moreover have "wake_ok n ((pcs s)(t := ?pc)) q (m_state (mtx s))"
    by (rule wake_ok_woken [where p = "pcs s", OF sec sys_okD(3) [OF ok] t(2)])
       (auto split: if_splits after_wake.splits)
  moreover have "holds s t = None" using sys_okD(4) [OF ok, of t] t by simp
  ultimately have "sys_ok n (goto t ?pc (s\<lparr>mtx := ?m\<rparr>))"
    using ok by (intro sys_ok_goto) (auto split: after_wake.splits)
  then show ?thesis using t sec by (simp add: run_section_defs)
qed

lemma step_at_promote:
  assumes few: "n < 2 ^ 15" and ok: "sys_ok n s" and t: "t < n" "pcs s t = At_promote c one"
  shows "sys_ok n (run_section t s)"
proof -
  let ?m = "(mtx s)\<lparr>m_wq := wq_promote_condvar (m_wq (mtx s)) c one\<rparr>"
  have "holds s t \<noteq> None" using sys_okD(4) [OF ok, of t] t by simp
  then have "m_state (mtx s) \<noteq> 0" by (rule sys_ok_held [OF few ok t(1)])
  moreover have "queue_ok n (pcs s) (wq_promote_condvar (m_wq (mtx s)) c one)"
    using queue_ok_kinds [OF kinds_promote] ok by (simp add: sys_ok_def)
  ultimately have "sys_ok n (goto t Idle (s\<lparr>mtx := ?m\<rparr>))"
    using ok t by (intro sys_ok_goto) (auto intro: queue_ok_same wake_ok_locked)
  then show ?thesis using t by (simp add: run_section_defs)
qed

text \<open>Waiting on a variable gives the lock back the way it was taken.\<close>

lemma condvar_wait_section_ok:
  assumes few: "n < 2 ^ 15" and lock: "lock_ok n h (m_state m)" and t: "t < n" "h t = Some md"
  shows "\<exists>st. condvar_wait_section t c m =
      Some (\<lparr>m_wq = m_wq m @ [\<lparr>we_handle = t, we_done = False, we_wait_read = (md = Rd),
               we_cv = Some c\<rparr>], m_state = st\<rparr>, m_state m, st)
    \<and> (0 < sint (m_state m) \<longleftrightarrow> md = Rd) \<and> lock_ok n (h(t := None)) st"
proof -
  have nonzero: "m_state m \<noteq> 0" using lock_ok_held [OF few lock t(1)] t(2) by simp
  show ?thesis
  proof (cases md)
    case Wr
    then show ?thesis
      using lock_ok_release_wr [OF lock t(1)] t(2)
      by (simp add: condvar_wait_section_def wq_wait_init_condvar_def)
  next
    case Rd
    then have "h t = Some Rd" using t by simp
    note rel = lock_ok_release_rd [OF few lock t(1) this]
    show ?thesis
      using Rd rel nonzero
      by (cases "1 < sint (m_state m)")
         (auto simp: condvar_wait_section_def wq_wait_init_condvar_def Let_def)
  qed
qed

lemma step_at_cv_wait:
  assumes few: "n < 2 ^ 15" and ok: "sys_ok n s" and t: "t < n" "pcs s t = At_cv_wait c"
  shows "sys_ok n (run_section t s)"
proof -
  have "holds s t \<noteq> None" using sys_okD(4) [OF ok, of t] t by simp
  then obtain md where md: "holds s t = Some md" by blast
  have lock: "lock_ok n (holds s) (m_state (mtx s))" using ok by (simp add: sys_ok_def)
  let ?e = "\<lparr>we_handle = t, we_done = False, we_wait_read = (md = Rd), we_cv = Some c\<rparr>"
  obtain st where st: "condvar_wait_section t c (mtx s) =
      Some (\<lparr>m_wq = m_wq (mtx s) @ [?e], m_state = st\<rparr>, m_state (mtx s), st)"
    "0 < sint (m_state (mtx s)) \<longleftrightarrow> md = Rd" "lock_ok n ((holds s)(t := None)) st"
    using condvar_wait_section_ok [OF few lock t(1) md] by blast
  let ?pc = "if st = 0 then Waking None (A_wait md) else In_wait md"
  have "sys_ok n (goto t ?pc (set_hold t None
      (s\<lparr>mtx := \<lparr>m_wq = m_wq (mtx s) @ [?e], m_state = st\<rparr>\<rparr>)))"
  proof (rule sys_ok_goto_hold [OF ok])
    show "queue_ok n ((pcs s)(t := ?pc)) (m_wq \<lparr>m_wq = m_wq (mtx s) @ [?e], m_state = st\<rparr>)"
      unfolding mutex.simps
      by (rule queue_ok_push) (use ok t in \<open>auto simp: sys_ok_def kind_def intro: mode.exhaust\<close>)
  qed (use st t in \<open>auto intro: wake_ok_starts wake_ok_locked\<close>)
  moreover have "(if md = Rd then Rd else Wr) = md" by (cases md) auto
  ultimately show ?thesis using t st by (cases "st = 0") (simp_all add: run_section_defs Let_def)
qed

lemma step_keeps_ok:
  assumes "n < 2 ^ 15" and "sys_ok n s" and "mutex_step n mid s s'"
  shows "sys_ok n s'"
  using assms(3)
proof (cases rule: mutex_step.cases)
  case (step_run t)
  then show ?thesis
    using assms step_at_lock step_in_wait step_waking step_at_cv_wait step_at_promote
    by (cases "pcs s t") auto
qed (use assms step_call in auto)

lemma reachable_ok: "mutex_reachable n mid s \<Longrightarrow> n < 2 ^ 15 \<Longrightarrow> sys_ok n s"
  by (induction rule: mutex_reachable.induct) (auto intro: sys_init_ok step_keeps_ok)

section \<open>What the mutex promises\<close>

text \<open>Runs given as lists of events: a thread begins a call, or runs its next section.\<close>

fun run_events :: "nat \<Rightarrow> nat \<Rightarrow> (nat \<times> call option) list \<Rightarrow> sys \<Rightarrow> sys option" where
  "run_events n mid [] s = Some s"
| "run_events n mid ((t, Some c) # es) s =
     (if t < n \<and> \<not> panicked s \<and> pcs s t = Idle \<and> allowed mid c t s
      then run_events n mid es (begin_call mid c t s) else None)"
| "run_events n mid ((t, None) # es) s =
     (if t < n \<and> \<not> panicked s \<and> pcs s t \<noteq> Idle
      then run_events n mid es (run_section t s) else None)"

lemma run_events_reachable:
  "run_events n mid es s = Some s' \<Longrightarrow> mutex_reachable n mid s \<Longrightarrow> mutex_reachable n mid s'"
  by (induction n mid es s rule: run_events.induct)
     (auto split: if_splits intro: reach_step mutex_step.intros)

lemmas eval_sections = run_section_defs mutex_unlock_def mutex_read_unlock_def
  lock_section_def trylock_def mutex_lock_section_def
  mutex_read_lock_section_def mutex_trylock_def mutex_read_trylock_def mutex_unlock_section_def
  mutex_read_unlock_section_def condvar_wait_section_def condvar_wait_link_def
  wq_wait_init_def wq_wait_init_condvar_def wq_wait_final_section_def elem_done_def
  goto_def set_hold_def sys_init_def mutex_init_def condvar_init_def wq_init_def Let_def

text \<open>Thread 0 takes the mutex, thread 1 goes to sleep for it, thread 0 unlocks.\<close>

definition contended :: "(nat \<times> call option) list" where
  "contended = [(0, Some (Lock Wr)), (0, None), (1, Some (Lock Wr)), (1, None), (0, Some Unlock)]"

definition contended_end :: sys where
  "contended_end =
     \<lparr>mtx = \<lparr>m_wq = [\<lparr>we_handle = 1, we_done = False, we_wait_read = False, we_cv = None\<rparr>],
             m_state = 0\<rparr>,
      cvs = \<lambda>_. condvar_init, pcs = (\<lambda>_. Idle)(0 := Waking None A_return, 1 := In_wait Wr),
      holds = \<lambda>_. None, panicked = False\<rparr>"

lemma contended_reached: "mutex_reachable 2 0 contended_end"
proof (rule run_events_reachable [OF _ reach_init])
  show "run_events 2 0 contended sys_init = Some contended_end"
    by (auto simp: contended_def contended_end_def eval_sections fun_eq_iff)
qed

text \<open>
  C25: However the sections of at most 32767 threads interleave, a thread that holds the mutex
  for writing is alone in holding it, the state field is -1 then and otherwise the exact number
  of readers (it never overflows its \<open>short\<close>), and no operation panics.
\<close>

theorem mutex_exclusion:
  assumes "mutex_reachable n mid s" and "n < 2 ^ 15"
  shows "\<not> panicked s
    \<and> (\<forall>t < n. \<forall>u < n. holds s t = Some Wr \<and> holds s u \<noteq> None \<longrightarrow> u = t)
    \<and> sint (m_state (mtx s)) =
        (if \<exists>w < n. holds s w = Some Wr then - 1 else int (card {t. t < n \<and> holds s t = Some Rd}))"
proof -
  have ok: "sys_ok n s" by (rule reachable_ok [OF assms])
  show ?thesis
    using sys_okD(1) [OF ok]
  proof (cases rule: lock_okE)
    case (writer w)
    have own: "u = w" if "u < n" "holds s u \<noteq> None" for u
      using writer(3) [OF that(1)] that(2) by auto
    have "u = t" if "t < n" "u < n" "holds s t = Some Wr" "holds s u \<noteq> None" for t u
    proof -
      have "t = w" by (rule own [OF that(1)]) (simp add: that(3))
      then show ?thesis using own [OF that(2,4)] by blast
    qed
    then have "\<forall>t < n. \<forall>u < n. holds s t = Some Wr \<and> holds s u \<noteq> None \<longrightarrow> u = t" by blast
    moreover have "\<exists>w < n. holds s w = Some Wr" using writer by blast
    ultimately show ?thesis using sys_okD(5) [OF ok] writer(4) by simp
  next
    case readers
    then show ?thesis
      using sys_okD(5) [OF ok] short_of_nat(1) [OF readers_short [OF assms(2)]]
      by (auto simp: readers_def)
  qed
qed

lemma mutex_exclusion_witness:
  "\<not> panicked contended_end \<and> sint (m_state (mtx contended_end)) = 0"
  using mutex_exclusion [OF contended_reached] by (simp add: contended_end_def)

text \<open>
  C27: No wake-up is lost. Whenever the mutex is free while a thread sleeps for it (or for a
  variable already signalled), some thread is about to take the lock, about to pick the next
  thread to wake, or already woken; threads whose element still waits for a variable do not
  count as sleeping here. Callers signal a variable only while they hold the mutex.
\<close>

theorem mutex_no_lost_wakeup:
  assumes "mutex_reachable n mid s" and "n < 2 ^ 15" and "m_state (mtx s) = 0"
    and "e \<in> set (m_wq (mtx s))" and "we_cv e = None"
  shows "\<exists>t < n. case pcs s t of
      At_lock md \<Rightarrow> True
    | Waking ty k \<Rightarrow> True
    | In_wait md \<Rightarrow> elem_done (m_wq (mtx s)) t
    | _ \<Rightarrow> False"
proof -
  note ok = reachable_ok [OF assms(1,2)]
  have awake: "awake n (pcs s) (m_wq (mtx s))"
  proof (cases "we_done e")
    case False
    then have "active e" using assms(5) by (simp add: active_def)
    then show ?thesis using sys_okD(3) [OF ok] assms(3,4) unfolding wake_ok_def by blast
  qed (use assms(4) in \<open>auto simp: awake_def\<close>)
  then consider (waking) t k where "t < n" "pcs s t = Waking None k"
    | (woken) f where "f \<in> set (m_wq (mtx s))" "we_done f"
    | (lock) t md where "t < n" "pcs s t = At_lock md"
    unfolding awake_def by blast
  then show ?thesis
  proof cases
    case woken
    then have "kind f \<in> kind ` set (m_wq (mtx s))" by blast
    then have "we_handle f < n" "waiting_mode (pcs s (we_handle f)) \<noteq> None"
      using sys_okD(2) [OF ok] by (auto simp: queue_ok_def kind_def)
    moreover have "elem_done (m_wq (mtx s)) (we_handle f)"
      using woken by (auto simp: elem_done_def)
    ultimately show ?thesis
      by (intro exI [of _ "we_handle f"]) (auto split: pc.splits)
  next
    case (waking t k)
    then show ?thesis by (intro exI [of _ t]) simp
  next
    case (lock t md)
    then show ?thesis by (intro exI [of _ t]) simp
  qed
qed

lemma mutex_no_lost_wakeup_witness:
  "\<exists>t < 2. case pcs contended_end t of
      At_lock md \<Rightarrow> True
    | Waking ty k \<Rightarrow> True
    | In_wait md \<Rightarrow> elem_done (m_wq (mtx contended_end)) t
    | _ \<Rightarrow> False"
  by (rule mutex_no_lost_wakeup [OF contended_reached,
        where e = "\<lparr>we_handle = 1, we_done = False, we_wait_read = False, we_cv = None\<rparr>"])
     (simp_all add: contended_end_def)

text \<open>
  The queue never holds an element of a thread that has left the waiting code (elements
  are local variables of the waiting thread), each sleeping thread has exactly one element in
  it, with the kind of lock it wants, and \<open>mutex_destroy\<close> panics exactly when the mutex is
  held or some thread still waits.
\<close>

theorem mutex_queue_live:
  assumes "mutex_reachable n mid s" and "n < 2 ^ 15"
  shows "distinct (map we_handle (m_wq (mtx s)))
    \<and> (\<forall>t md. (\<exists>e \<in> set (m_wq (mtx s)). we_handle e = t \<and> we_wait_read e = (md = Rd))
         \<longleftrightarrow> t < n \<and> waiting_mode (pcs s t) = Some md)
    \<and> (mutex_destroy (mtx s) = Some ()
         \<longleftrightarrow> (\<forall>t < n. holds s t = None \<and> waiting_mode (pcs s t) = None))"
proof -
  note ok = reachable_ok [OF assms]
  have q: "(t, md) \<in> kind ` set (m_wq (mtx s)) \<longleftrightarrow> t < n \<and> waiting_mode (pcs s t) = Some md"
    for t md using sys_okD(2) [OF ok] unfolding queue_ok_def by blast
  have kind_mem: "(t, md) \<in> kind ` set (m_wq (mtx s))
      \<longleftrightarrow> (\<exists>e \<in> set (m_wq (mtx s)). we_handle e = t \<and> we_wait_read e = (md = Rd))" for t md
    by (cases md) (auto simp: kind_def image_iff split: if_splits)
  have "m_wq (mtx s) = [] \<longleftrightarrow> kind ` set (m_wq (mtx s)) = {}" by simp
  also have "\<dots> \<longleftrightarrow> (\<forall>t md. (t, md) \<notin> kind ` set (m_wq (mtx s)))"
    unfolding set_eq_iff split_paired_All by simp
  also have "\<dots> \<longleftrightarrow> (\<forall>t < n. waiting_mode (pcs s t) = None)" using q by auto
  finally have empty: "m_wq (mtx s) = [] \<longleftrightarrow> (\<forall>t < n. waiting_mode (pcs s t) = None)" .
  have free: "m_state (mtx s) = 0 \<longleftrightarrow> (\<forall>t < n. holds s t = None)"
  proof
    assume none: "\<forall>t < n. holds s t = None"
    then have "readers n (holds s) = {}" by (auto simp: readers_def)
    then show "m_state (mtx s) = 0"
      using sys_okD(1) [OF ok] none by (auto simp: lock_ok_def)
  qed (use sys_ok_held [OF assms(2) ok] in blast)
  have "distinct (map we_handle (m_wq (mtx s)))"
    using sys_okD(2) [OF ok] unfolding queue_ok_def by blast
  then show ?thesis
    using q free empty unfolding kind_mem mutex_destroy_def wq_is_empty_def by auto
qed

lemma mutex_queue_live_witness:
  "distinct (map we_handle (m_wq (mtx contended_end)))
    \<and> \<not> (mutex_destroy (mtx contended_end) = Some ())"
  using mutex_queue_live [OF contended_reached]
  by (auto simp: mutex_destroy_def wq_is_empty_def contended_end_def)

text \<open>
  Signalling a variable without holding the mutex can strand the waiter: thread 0 waits,
  thread 1 signals and returns, and then the mutex is free, the element of thread 0 has become
  an ordinary waiter that nobody has woken, every other thread is outside, and thread 0 sleeps
  again each time it looks. \<open>wq_promote_condvar\<close> wakes nobody; that is left to the next unlock.
\<close>

theorem signal_outside_strands:
  "let s = fold (\<lambda>step s. step s)
       [begin_call 0 (Lock Wr) 0, run_section 0, begin_call 0 (Condvar_wait 0) 0, run_section 0,
        run_section 0, begin_call 0 (Condvar_signal 0 True) 1, run_section 1] sys_init
   in m_state (mtx s) = 0
      \<and> m_wq (mtx s) = [\<lparr>we_handle = 0, we_done = False, we_wait_read = False, we_cv = None\<rparr>]
      \<and> pcs s = (\<lambda>_. Idle)(0 := In_wait Wr) \<and> run_section 0 s = s"
  by (auto simp: eval_sections fun_eq_iff)

end
