(* ===== verification/RecMutex.thy ===== *)
theory RecMutex
  imports Mutex
begin

text \<open>
  Recursive mutexes (\<open>core/kernel/mutex.c\<close>): a mutex with the thread that owns it and a counter of
  how often that thread has locked it. \<open>owner\<close> and \<open>lock_depth\<close> are accessed one at a time, and the
  threads interleave between these accesses and the sections of the mutex inside (\<open>Mutex\<close>).
\<close>

section \<open>State and operations\<close>

text \<open>Where a thread stands in an operation on the recursive mutex.\<close>

datatype rec_pc =
    R_out
  | R_inc        \<comment> \<open>in \<open>__mutex_lock_recursive\<close>, the thread has found itself to be the owner\<close>
  | R_locking    \<comment> \<open>inside \<open>__mutex_lock\<close>\<close>
  | R_set_depth  \<comment> \<open>\<open>owner\<close> is stored\<close>
  | R_dec        \<comment> \<open>in \<open>__mutex_unlock_recursive\<close>, before \<open>refcount_dec\<close>\<close>
  | R_disown     \<comment> \<open>the count has reached zero\<close>
  | R_unlock     \<comment> \<open>\<open>owner\<close> is cleared\<close>
  | R_unlocking  \<comment> \<open>inside \<open>__mutex_unlock\<close>\<close>

text \<open>
  \<open>struct recursive_mutex\<close> with its threads; \<open>rm_sys\<close> is the system of the mutex inside. \<open>held t\<close> counts
  the calls of \<open>mutex_lock_recursive\<close> thread \<open>t\<close> has finished and not undone.
\<close>

record rec_mutex =
  rm_sys :: sys
  rm_owner :: int
  rm_lock_depth :: "32 word"
  rm_pcs :: "nat \<Rightarrow> rec_pc"
  rm_panicked :: bool
  held :: "nat \<Rightarrow> nat"

abbreviation THREAD_ID_INVALID :: int where "THREAD_ID_INVALID \<equiv> - 1"

definition mutex_init_recursive :: rec_mutex where
  "mutex_init_recursive = \<lparr>rm_sys = sys_init, rm_owner = THREAD_ID_INVALID, rm_lock_depth = 0,
     rm_pcs = \<lambda>_. R_out, rm_panicked = False, held = \<lambda>_. 0\<rparr>"

definition rec_goto :: "nat \<Rightarrow> rec_pc \<Rightarrow> rec_mutex \<Rightarrow> rec_mutex" where
  "rec_goto t p r = r\<lparr>rm_pcs := (rm_pcs r)(t := p)\<rparr>"

definition rec_panic :: "rec_mutex \<Rightarrow> rec_mutex" where
  "rec_panic r = r\<lparr>rm_panicked := True\<rparr>"

definition count_held :: "nat \<Rightarrow> nat \<Rightarrow> rec_mutex \<Rightarrow> rec_mutex" where
  "count_held t k r = r\<lparr>held := (held r)(t := k)\<rparr>"

text \<open>
  The steps of \<open>__mutex_lock_recursive\<close>; \<open>mid\<close> numbers the mutex inside. Nobody else changes the counter
  between the load and the compare-and-swap of \<open>refcount_inc\<close>, so each is one step.
\<close>

fun mutex_lock_recursive :: "nat \<Rightarrow> nat \<Rightarrow> rec_pc \<Rightarrow> rec_mutex \<Rightarrow> rec_mutex" where
  "mutex_lock_recursive mid t R_out r =
     (if rm_owner r = int t then rec_goto t R_inc r
      else rec_goto t R_locking (r\<lparr>rm_sys := begin_call mid (Lock Wr) t (rm_sys r)\<rparr>))"
| "mutex_lock_recursive mid t R_inc r =
     (case refcount_inc_alone (rm_lock_depth r) of
        Returned True v \<Rightarrow> count_held t (Suc (held r t)) (rec_goto t R_out (r\<lparr>rm_lock_depth := v\<rparr>))
      | _ \<Rightarrow> rec_panic r)"
| "mutex_lock_recursive mid t R_locking r =
     (if pcs (rm_sys r) t \<noteq> Idle then r\<lparr>rm_sys := run_section t (rm_sys r)\<rparr>
      else if rm_owner r \<noteq> THREAD_ID_INVALID then rec_panic r
      else rec_goto t R_set_depth (r\<lparr>rm_owner := int t\<rparr>))"
| "mutex_lock_recursive mid t R_set_depth r =
     count_held t 1 (rec_goto t R_out (r\<lparr>rm_lock_depth := 1\<rparr>))"
| "mutex_lock_recursive mid t _ r = r"

fun mutex_unlock_recursive :: "nat \<Rightarrow> nat \<Rightarrow> rec_pc \<Rightarrow> rec_mutex \<Rightarrow> rec_mutex" where
  "mutex_unlock_recursive mid t R_out r = (if rm_owner r \<noteq> int t then rec_panic r else rec_goto t R_dec r)"
| "mutex_unlock_recursive mid t R_dec r =
     (case refcount_dec_alone (rm_lock_depth r) of
        Returned zero v \<Rightarrow> count_held t (held r t - 1)
          (rec_goto t (if zero then R_disown else R_out) (r\<lparr>rm_lock_depth := v\<rparr>))
      | _ \<Rightarrow> rec_panic r)"
| "mutex_unlock_recursive mid t R_disown r = rec_goto t R_unlock (r\<lparr>rm_owner := THREAD_ID_INVALID\<rparr>)"
| "mutex_unlock_recursive mid t R_unlock r =
     rec_goto t R_unlocking (r\<lparr>rm_sys := begin_call mid Unlock t (rm_sys r)\<rparr>)"
| "mutex_unlock_recursive mid t R_unlocking r =
     (if pcs (rm_sys r) t \<noteq> Idle then r\<lparr>rm_sys := run_section t (rm_sys r)\<rparr> else rec_goto t R_out r)"
| "mutex_unlock_recursive mid t _ r = r"

definition mutex_destroy_recursive :: "rec_mutex \<Rightarrow> unit option" where
  "mutex_destroy_recursive r = mutex_destroy (mtx (rm_sys r))"

definition mutex_get_recursive_lock_depth :: "nat \<Rightarrow> rec_mutex \<Rightarrow> 32 word option" where
  "mutex_get_recursive_lock_depth t r = (if rm_owner r \<noteq> int t then None else Some (rm_lock_depth r))"

text \<open>A thread inside one of the two operations goes on with it.\<close>

definition rec_run :: "nat \<Rightarrow> nat \<Rightarrow> rec_mutex \<Rightarrow> rec_mutex" where
  "rec_run mid t r = (let p = rm_pcs r t in
     if p = R_inc \<or> p = R_locking \<or> p = R_set_depth then mutex_lock_recursive mid t p r
     else mutex_unlock_recursive mid t p r)"

text \<open>Callers unlock what they have locked and do not lock more often than the counter can count.\<close>

inductive rec_step :: "nat \<Rightarrow> nat \<Rightarrow> rec_mutex \<Rightarrow> rec_mutex \<Rightarrow> bool" for n mid where
  rec_lock: "\<lbrakk>t < n; \<not> rm_panicked r; rm_pcs r t = R_out; held r t < 2 ^ 32 - 1\<rbrakk>
    \<Longrightarrow> rec_step n mid r (mutex_lock_recursive mid t R_out r)"
| rec_unlock: "\<lbrakk>t < n; \<not> rm_panicked r; rm_pcs r t = R_out; 0 < held r t\<rbrakk>
    \<Longrightarrow> rec_step n mid r (mutex_unlock_recursive mid t R_out r)"
| rec_go: "\<lbrakk>t < n; \<not> rm_panicked r; rm_pcs r t \<noteq> R_out\<rbrakk> \<Longrightarrow> rec_step n mid r (rec_run mid t r)"

inductive rec_reachable :: "nat \<Rightarrow> nat \<Rightarrow> rec_mutex \<Rightarrow> bool" for n mid where
  rec_start: "rec_reachable n mid mutex_init_recursive"
| rec_more: "rec_reachable n mid r \<Longrightarrow> rec_step n mid r r' \<Longrightarrow> rec_reachable n mid r'"

section \<open>The invariant\<close>

text \<open>What the place of a thread says about the mutex inside; \<open>k\<close> is how often it holds the lock.\<close>

fun inner_ok :: "rec_pc \<Rightarrow> nat \<Rightarrow> pc \<Rightarrow> mode option \<Rightarrow> bool" where
  "inner_ok R_out k p h \<longleftrightarrow> p = Idle \<and> h = (if k = 0 then None else Some Wr)"
| "inner_ok R_inc k p h \<longleftrightarrow> p = Idle \<and> h = Some Wr \<and> 0 < k \<and> k < 2 ^ 32 - 1"
| "inner_ok R_locking k p h \<longleftrightarrow> k = 0 \<and> (p = Idle \<and> h = Some Wr \<or> (p = At_lock Wr \<or> p = In_wait Wr) \<and> h = None)"
| "inner_ok R_dec k p h \<longleftrightarrow> p = Idle \<and> h = Some Wr \<and> 0 < k"
| "inner_ok R_unlocking k p h \<longleftrightarrow> k = 0 \<and> h = None \<and> (p = Idle \<or> (\<exists>ty. p = Waking ty A_return))"
| "inner_ok _ k p h \<longleftrightarrow> k = 0 \<and> p = Idle \<and> h = Some Wr"

definition owns :: "rec_mutex \<Rightarrow> nat \<Rightarrow> bool" where
  "owns r t \<longleftrightarrow> 0 < held r t \<or> rm_pcs r t = R_set_depth \<or> rm_pcs r t = R_disown"

definition rec_ok :: "nat \<Rightarrow> rec_mutex \<Rightarrow> bool" where
  [inv_defs]: "rec_ok n r \<longleftrightarrow> \<not> rm_panicked r
     \<and> (\<forall>t < n. inner_ok (rm_pcs r t) (held r t) (pcs (rm_sys r) t) (holds (rm_sys r) t))
     \<and> (\<forall>t < n. owns r t \<longleftrightarrow> rm_owner r = int t)
     \<and> (rm_owner r = THREAD_ID_INVALID \<or> (\<exists>t < n. rm_owner r = int t))
     \<and> (\<forall>t < n. 0 < held r t \<longrightarrow> unat (rm_lock_depth r) = held r t)"

lemma rec_okD:
  assumes "rec_ok n r"
  shows "\<not> rm_panicked r" and "t < n \<Longrightarrow> inner_ok (rm_pcs r t) (held r t) (pcs (rm_sys r) t) (holds (rm_sys r) t)"
    and "t < n \<Longrightarrow> owns r t \<longleftrightarrow> rm_owner r = int t"
    and "rm_owner r = THREAD_ID_INVALID \<or> (\<exists>t < n. rm_owner r = int t)"
    and "t < n \<Longrightarrow> 0 < held r t \<Longrightarrow> unat (rm_lock_depth r) = held r t"
  using assms unfolding rec_ok_def by blast+

text \<open>A step of one thread keeps what concerns the others.\<close>

lemma rec_ok_step:
  assumes ok: "rec_ok n r" and t: "t < n" and calm: "\<not> rm_panicked r'"
    and others: "\<And>u. u < n \<Longrightarrow> u \<noteq> t \<Longrightarrow> rm_pcs r' u = rm_pcs r u \<and> held r' u = held r u
      \<and> pcs (rm_sys r') u = pcs (rm_sys r) u \<and> holds (rm_sys r') u = holds (rm_sys r) u"
    and own: "inner_ok (rm_pcs r' t) (held r' t) (pcs (rm_sys r') t) (holds (rm_sys r') t)"
    and owner: "rm_owner r' = rm_owner r \<and> (owns r' t \<longleftrightarrow> owns r t)
      \<or> rm_owner r = THREAD_ID_INVALID \<and> rm_owner r' = int t \<and> owns r' t
      \<or> rm_owner r = int t \<and> rm_owner r' = THREAD_ID_INVALID \<and> \<not> owns r' t"
    and depth: "0 < held r' t \<Longrightarrow> unat (rm_lock_depth r') = held r' t"
    and alone: "rm_lock_depth r' = rm_lock_depth r \<or> rm_owner r = int t"
  shows "rec_ok n r'"
proof -
  have eq: "owns r' u = owns r u" if "u < n" "u \<noteq> t" for u using others [OF that] by (simp add: owns_def)
  have free: "\<not> owns r u" if "u < n" "u \<noteq> t" "rm_owner r = THREAD_ID_INVALID \<or> rm_owner r = int t" for u
    using rec_okD(3) [OF ok that(1)] that(2,3) by auto
  have "owns r' u \<longleftrightarrow> rm_owner r' = int u" if u: "u < n" for u
  proof (cases "u = t")
    case True
    then show ?thesis using owner rec_okD(3) [OF ok t] by auto
  next
    case False
    then show ?thesis using owner eq [OF u False] free [OF u False] rec_okD(3) [OF ok u] by auto
  qed
  moreover have "unat (rm_lock_depth r') = held r' u" if u: "u < n" "0 < held r' u" for u
  proof (cases "u = t")
    case False
    then have "held r' u = held r u" "owns r u" using others [OF u(1)] u(2) by (auto simp: owns_def)
    then show ?thesis using alone free [OF u(1) False] rec_okD(5) [OF ok u(1)] u(2) by auto
  qed (use depth u in simp)
  moreover have "inner_ok (rm_pcs r' u) (held r' u) (pcs (rm_sys r') u) (holds (rm_sys r') u)" if "u < n" for u
    using own others [OF that] rec_okD(2) [OF ok that] by (cases "u = t") auto
  moreover have "rm_owner r' = THREAD_ID_INVALID \<or> (\<exists>u < n. rm_owner r' = int u)"
    using owner rec_okD(4) [OF ok] t by auto
  ultimately show ?thesis using calm unfolding rec_ok_def by blast
qed

text \<open>What a section of the mutex inside does to its thread and to the others.\<close>

lemma section_locking:
  assumes "pcs s t = At_lock Wr \<or> pcs s t = In_wait Wr" and "holds s t = None"
  shows "pcs (run_section t s) t = Idle \<and> holds (run_section t s) t = Some Wr
      \<or> (pcs (run_section t s) t = At_lock Wr \<or> pcs (run_section t s) t = In_wait Wr) \<and> holds (run_section t s) t = None"
  using assms
  by (auto simp: run_section_def mutex_lock_loop_def wq_wait_final_loop_def goto_def set_hold_def split: prod.splits bool.splits)

lemma section_unlocking:
  assumes "pcs s t = Waking ty A_return" and "holds s t = None"
  shows "(pcs (run_section t s) t = Idle \<or> (\<exists>ty'. pcs (run_section t s) t = Waking ty' A_return))
    \<and> holds (run_section t s) t = None"
  using assms by (auto simp: run_section_def wq_wake_next_loop_def goto_def split: prod.splits)

lemma section_others:
  assumes "u \<noteq> t"
  shows "pcs (run_section t s) u = pcs s u" "holds (run_section t s) u = holds s u"
  using assms by (auto simp: run_section_defs goto_def set_hold_def Let_def
      split: pc.splits prod.splits bool.splits option.splits)

lemma begin_lock:
  "pcs (begin_call mid (Lock md) t s) = (pcs s)(t := At_lock md)" "holds (begin_call mid (Lock md) t s) = holds s"
  by (simp_all add: goto_def)

lemma begin_unlock:
  assumes "m_state (mtx s) \<noteq> 0"
  shows "pcs (begin_call mid Unlock t s) = (pcs s)(t := Waking None A_return)"
    "holds (begin_call mid Unlock t s) = (holds s)(t := None)"
  using assms by (simp_all add: mutex_unlock_def mutex_unlock_section_def goto_def set_hold_def)

text \<open>Only one thread can hold the mutex inside.\<close>

lemma one_writer:
  assumes "lock_ok n h st" and "t < n" "h t = Some Wr" and "u < n" "h u = Some Wr"
  shows "u = t"
  using assms(1)
proof (cases rule: lock_okE)
  case (writer w)
  then show ?thesis using assms(2-5) by (metis option.distinct(1))
qed (use assms in blast)

lemma nobody_owns:
  assumes ok: "rec_ok n r" and sys: "sys_ok n (rm_sys r)" and t: "t < n" "holds (rm_sys r) t = Some Wr" "\<not> owns r t"
  shows "rm_owner r = THREAD_ID_INVALID"
proof (rule ccontr)
  assume "rm_owner r \<noteq> THREAD_ID_INVALID"
  then obtain u where u: "u < n" "owns r u" using rec_okD(3,4) [OF ok] by blast
  then have "holds (rm_sys r) u = Some Wr"
    using rec_okD(2) [OF ok u(1)] by (cases "rm_pcs r u") (auto simp: owns_def)
  then have "u = t" using one_writer [OF sys_okD(1) [OF sys]] t(1,2) u(1) by blast
  then show False using t(3) u(2) by simp
qed

lemma begin_ok:
  assumes "n < 2 ^ 15" and "sys_ok n s" and "t < n" and "pcs s t = Idle" and "allowed mid c t s"
  shows "sys_ok n (begin_call mid c t s)"
  by (rule step_keeps_ok [OF assms(1,2) mutex_step.step_call [OF assms(3) sys_okD(5) [OF assms(2)] assms(4,5)]])

lemma section_ok:
  assumes "n < 2 ^ 15" and "sys_ok n s" and "t < n" and "pcs s t \<noteq> Idle"
  shows "sys_ok n (run_section t s)"
  by (rule step_keeps_ok [OF assms(1,2) mutex_step.step_run [OF assms(3) sys_okD(5) [OF assms(2)] assms(4)]])

definition rec_inv :: "nat \<Rightarrow> rec_mutex \<Rightarrow> bool" where
  [inv_defs]: "rec_inv n r \<longleftrightarrow> rec_ok n r \<and> sys_ok n (rm_sys r)"

lemmas rec_fields = rec_goto_def count_held_def owns_def

lemma lock_starts:
  assumes few: "n < 2 ^ 15" and inv: "rec_inv n r" and t: "t < n" and pc: "rm_pcs r t = R_out" and k: "held r t < 2 ^ 32 - 1"
  shows "rec_inv n (mutex_lock_recursive mid t R_out r)"
proof -
  have ok: "rec_ok n r" and sys: "sys_ok n (rm_sys r)" using inv by (simp_all add: rec_inv_def)
  have inner: "pcs (rm_sys r) t = Idle" "holds (rm_sys r) t = (if held r t = 0 then None else Some Wr)"
    using rec_okD(2) [OF ok t] pc by simp_all
  have own: "0 < held r t \<longleftrightarrow> rm_owner r = int t" using rec_okD(3) [OF ok t] pc by (simp add: owns_def)
  show ?thesis
  proof (cases "rm_owner r = int t")
    case True
    have "rec_ok n (rec_goto t R_inc r)"
      by (rule rec_ok_step [OF ok t])
         (use True own inner k pc rec_okD(1,5) [OF ok] t in \<open>auto simp: rec_fields\<close>)
    then show ?thesis using True sys by (simp add: rec_inv_def rec_goto_def)
  next
    case False
    then have none: "held r t = 0" "holds (rm_sys r) t = None" using own inner by simp_all
    let ?r = "rec_goto t R_locking (r\<lparr>rm_sys := begin_call mid (Lock Wr) t (rm_sys r)\<rparr>)"
    have "rec_ok n ?r"
      by (rule rec_ok_step [OF ok t])
         (use False none inner pc rec_okD(1) [OF ok] in \<open>auto simp: rec_fields begin_lock simp del: begin_call.simps\<close>)
    moreover have "sys_ok n (begin_call mid (Lock Wr) t (rm_sys r))"
      by (rule begin_ok [OF few sys t inner(1)]) (simp add: none(2))
    ultimately show ?thesis using False by (simp add: rec_inv_def rec_goto_def)
  qed
qed

lemma unlock_starts:
  assumes inv: "rec_inv n r" and t: "t < n" and pc: "rm_pcs r t = R_out" and k: "0 < held r t"
  shows "rec_inv n (mutex_unlock_recursive mid t R_out r)"
proof -
  have ok: "rec_ok n r" using inv by (simp add: rec_inv_def)
  have own: "rm_owner r = int t" using rec_okD(3) [OF ok t] k by (simp add: owns_def)
  have "rec_ok n (rec_goto t R_dec r)"
    by (rule rec_ok_step [OF ok t])
       (use own k pc rec_okD(1) [OF ok] rec_okD(2,5) [OF ok t] in \<open>auto simp: rec_fields\<close>)
  then show ?thesis using own inv by (simp add: rec_inv_def rec_goto_def)
qed

lemma rec_run_ok:
  assumes few: "n < 2 ^ 15" and inv: "rec_inv n r" and t: "t < n" and pc: "rm_pcs r t \<noteq> R_out"
  shows "rec_inv n (rec_run mid t r)"
proof -
  have ok: "rec_ok n r" and sys: "sys_ok n (rm_sys r)" using inv by (simp_all add: rec_inv_def)
  note calm = rec_okD(1) [OF ok] and inner = rec_okD(2) [OF ok t]
  note own = rec_okD(3) [OF ok t] and depth = rec_okD(5) [OF ok t]
  show ?thesis
  proof (cases "rm_pcs r t")
    case R_inc
    then have i: "0 < held r t" "held r t < 2 ^ 32 - 1" "pcs (rm_sys r) t = Idle" "holds (rm_sys r) t = Some Wr"
      using inner by simp_all
    then have d: "unat (rm_lock_depth r) = held r t" "rm_owner r = int t" using depth own by (simp_all add: owns_def)
    have ne: "rm_lock_depth r \<noteq> 0" using d i(1) by auto
    have inc: "unat (rm_lock_depth r + 1) = Suc (held r t)"
      using d(1) i(2) by (simp add: unat_word_ariths)
    let ?r = "count_held t (Suc (held r t)) (rec_goto t R_out (r\<lparr>rm_lock_depth := rm_lock_depth r + 1\<rparr>))"
    have run: "rec_run mid t r = ?r" using R_inc ne by (simp add: rec_run_def refcount_inc_alone_eq)
    have "rec_ok n ?r"
      by (rule rec_ok_step [OF ok t]) (use calm i d inc R_inc in \<open>auto simp: rec_fields\<close>)
    then show ?thesis using run sys by (simp add: rec_inv_def rec_goto_def count_held_def)
  next
    case R_locking
    then have z: "held r t = 0" "\<not> owns r t" using inner by (simp_all add: owns_def)
    show ?thesis
    proof (cases "pcs (rm_sys r) t = Idle")
      case True
      then have h: "holds (rm_sys r) t = Some Wr" using inner R_locking by auto
      have free: "rm_owner r = THREAD_ID_INVALID" by (rule nobody_owns [OF ok sys t h z(2)])
      let ?r = "rec_goto t R_set_depth (r\<lparr>rm_owner := int t\<rparr>)"
      have run: "rec_run mid t r = ?r" using R_locking True free by (simp add: rec_run_def)
      have "rec_ok n ?r"
        by (rule rec_ok_step [OF ok t]) (use calm True h free z R_locking in \<open>auto simp: rec_fields\<close>)
      then show ?thesis using run sys by (simp add: rec_inv_def rec_goto_def)
    next
      case False
      then have p: "pcs (rm_sys r) t = At_lock Wr \<or> pcs (rm_sys r) t = In_wait Wr" "holds (rm_sys r) t = None"
        using inner R_locking by auto
      let ?r = "r\<lparr>rm_sys := run_section t (rm_sys r)\<rparr>"
      have run: "rec_run mid t r = ?r" using R_locking False by (simp add: rec_run_def)
      have "rec_ok n ?r"
      proof (rule rec_ok_step [OF ok t])
        show "inner_ok (rm_pcs ?r t) (held ?r t) (pcs (rm_sys ?r) t) (holds (rm_sys ?r) t)"
          using section_locking [OF p] R_locking z by auto
      qed (use calm z R_locking in \<open>auto simp: owns_def section_others\<close>)
      then show ?thesis using run section_ok [OF few sys t False] by (simp add: rec_inv_def)
    qed
  next
    case R_set_depth
    then have i: "held r t = 0" "pcs (rm_sys r) t = Idle" "holds (rm_sys r) t = Some Wr" "rm_owner r = int t"
      using inner own by (simp_all add: owns_def)
    let ?r = "count_held t 1 (rec_goto t R_out (r\<lparr>rm_lock_depth := 1\<rparr>))"
    have run: "rec_run mid t r = ?r" using R_set_depth by (simp add: rec_run_def)
    have "rec_ok n ?r"
      by (rule rec_ok_step [OF ok t]) (use calm i R_set_depth in \<open>auto simp: rec_fields\<close>)
    then show ?thesis using run sys by (simp add: rec_inv_def rec_goto_def count_held_def)
  next
    case R_dec
    then have i: "0 < held r t" "pcs (rm_sys r) t = Idle" "holds (rm_sys r) t = Some Wr" "rm_owner r = int t"
      using inner own by (simp_all add: owns_def)
    have d: "unat (rm_lock_depth r) = held r t" using depth i(1) by simp
    have ne: "rm_lock_depth r \<noteq> 0" using d i(1) by auto
    have dec: "unat (rm_lock_depth r - 1) = held r t - 1" using d ne by (simp add: unat_minus_one)
    have one: "rm_lock_depth r = 1 \<longleftrightarrow> held r t = 1" using d by (metis unat_1 unsigned_word_eqI)
    let ?p = "if held r t = 1 then R_disown else R_out"
    let ?r = "count_held t (held r t - 1) (rec_goto t ?p (r\<lparr>rm_lock_depth := rm_lock_depth r - 1\<rparr>))"
    have run: "rec_run mid t r = ?r" using R_dec ne one by (simp add: rec_run_def refcount_dec_alone_eq)
    have "rec_ok n ?r"
      by (rule rec_ok_step [OF ok t]) (use calm i dec R_dec in \<open>auto simp: rec_fields\<close>)
    then show ?thesis using run sys by (simp add: rec_inv_def rec_goto_def count_held_def)
  next
    case R_disown
    then have i: "held r t = 0" "pcs (rm_sys r) t = Idle" "holds (rm_sys r) t = Some Wr" "rm_owner r = int t"
      using inner own by (simp_all add: owns_def)
    let ?r = "rec_goto t R_unlock (r\<lparr>rm_owner := THREAD_ID_INVALID\<rparr>)"
    have run: "rec_run mid t r = ?r" using R_disown by (simp add: rec_run_def)
    have "rec_ok n ?r"
      by (rule rec_ok_step [OF ok t]) (use calm i R_disown in \<open>auto simp: rec_fields\<close>)
    then show ?thesis using run sys by (simp add: rec_inv_def rec_goto_def)
  next
    case R_unlock
    then have i: "held r t = 0" "pcs (rm_sys r) t = Idle" "holds (rm_sys r) t = Some Wr"
      using inner by simp_all
    have st: "m_state (mtx (rm_sys r)) \<noteq> 0" by (rule sys_ok_held [OF few sys t]) (simp add: i(3))
    let ?r = "rec_goto t R_unlocking (r\<lparr>rm_sys := begin_call mid Unlock t (rm_sys r)\<rparr>)"
    have run: "rec_run mid t r = ?r" using R_unlock by (simp add: rec_run_def)
    have "rec_ok n ?r"
      by (rule rec_ok_step [OF ok t])
         (use calm i R_unlock begin_unlock [OF st] in \<open>auto simp: rec_fields simp del: begin_call.simps\<close>)
    moreover have "sys_ok n (begin_call mid Unlock t (rm_sys r))" by (rule begin_ok [OF few sys t i(2)]) (simp add: i(3))
    ultimately show ?thesis using run by (simp add: rec_inv_def rec_goto_def)
  next
    case R_unlocking
    then have z: "held r t = 0" "holds (rm_sys r) t = None" using inner by simp_all
    show ?thesis
    proof (cases "pcs (rm_sys r) t = Idle")
      case True
      have run: "rec_run mid t r = rec_goto t R_out r" using R_unlocking True by (simp add: rec_run_def)
      have "rec_ok n (rec_goto t R_out r)"
        by (rule rec_ok_step [OF ok t]) (use calm True z R_unlocking in \<open>auto simp: rec_fields\<close>)
      then show ?thesis using run sys by (simp add: rec_inv_def rec_goto_def)
    next
      case False
      then obtain ty where p: "pcs (rm_sys r) t = Waking ty A_return" using inner R_unlocking by auto
      let ?r = "r\<lparr>rm_sys := run_section t (rm_sys r)\<rparr>"
      have run: "rec_run mid t r = ?r" using R_unlocking False by (simp add: rec_run_def)
      have "rec_ok n ?r"
      proof (rule rec_ok_step [OF ok t])
        show "inner_ok (rm_pcs ?r t) (held ?r t) (pcs (rm_sys ?r) t) (holds (rm_sys ?r) t)"
          using section_unlocking [OF p z(2)] R_unlocking z by auto
      qed (use calm z R_unlocking in \<open>auto simp: owns_def section_others\<close>)
      then show ?thesis using run section_ok [OF few sys t False] by (simp add: rec_inv_def)
    qed
  qed (use pc in simp)
qed

lemma rec_start_ok: "rec_inv n mutex_init_recursive"
  using sys_init_ok by (auto simp: rec_inv_def rec_ok_def mutex_init_recursive_def owns_def sys_init_def)

lemma rec_reachable_ok: "rec_reachable n mid r \<Longrightarrow> n < 2 ^ 15 \<Longrightarrow> rec_inv n r"
  by (induction rule: rec_reachable.induct)
     (auto intro: rec_start_ok lock_starts unlock_starts rec_run_ok elim!: rec_step.cases)

section \<open>What the recursive mutex promises\<close>

text \<open>
  C26: however up to 32767 threads interleave, at most one thread holds the recursive mutex at a time, as often as
  \<open>mutex_get_recursive_lock_depth\<close> tells it; the owner is that thread, nobody else finds itself to be the owner, and no
  assertion fails. When no thread is inside an operation or holds the mutex it can be destroyed.
\<close>
theorem rec_mutex_exclusion:
  assumes "rec_reachable n mid r" and "n < 2 ^ 15"
  shows "\<not> rm_panicked r \<and> \<not> panicked (rm_sys r)
    \<and> (\<forall>t < n. \<forall>u < n. 0 < held r t \<and> 0 < held r u \<longrightarrow> u = t)
    \<and> (\<forall>t < n. 0 < held r t \<longrightarrow> map_option unat (mutex_get_recursive_lock_depth t r) = Some (held r t))
    \<and> (\<forall>t < n. rm_pcs r t = R_out \<and> held r t = 0 \<longrightarrow> mutex_get_recursive_lock_depth t r = None)
    \<and> ((\<forall>t < n. rm_pcs r t = R_out \<and> held r t = 0) \<longrightarrow> mutex_destroy_recursive r = Some ())"
proof -
  have ok: "rec_ok n r" and sys: "sys_ok n (rm_sys r)" using rec_reachable_ok [OF assms] by (simp_all add: rec_inv_def)
  have own: "rm_owner r = int t" if "t < n" "0 < held r t" for t
    using rec_okD(3) [OF ok that(1)] that(2) by (simp add: owns_def)
  have depth: "map_option unat (mutex_get_recursive_lock_depth t r) = Some (held r t)" if "t < n" "0 < held r t" for t
    using own [OF that] rec_okD(5) [OF ok that] by (simp add: mutex_get_recursive_lock_depth_def)
  have no: "mutex_get_recursive_lock_depth t r = None" if "t < n" "rm_pcs r t = R_out" "held r t = 0" for t
    using rec_okD(3) [OF ok that(1)] that(2,3) by (simp add: mutex_get_recursive_lock_depth_def owns_def)
  have destroy: "mutex_destroy_recursive r = Some ()" if free: "\<forall>t < n. rm_pcs r t = R_out \<and> held r t = 0"
  proof -
    have idle: "pcs (rm_sys r) t = Idle" "holds (rm_sys r) t = None" if "t < n" for t
      using rec_okD(2) [OF ok that] free that by simp_all
    have "m_wq (mtx (rm_sys r)) = []"
    proof (rule ccontr)
      assume "m_wq (mtx (rm_sys r)) \<noteq> []"
      then obtain e where "e \<in> set (m_wq (mtx (rm_sys r)))" by (cases "m_wq (mtx (rm_sys r))") auto
      then have "kind e \<in> kind ` set (m_wq (mtx (rm_sys r)))" by simp
      then have "fst (kind e) < n \<and> waiting_mode (pcs (rm_sys r) (fst (kind e))) = Some (snd (kind e))"
        using sys_okD(2) [OF sys] unfolding queue_ok_def by (metis prod.collapse)
      then show False using idle(1) by auto
    qed
    moreover have "m_state (mtx (rm_sys r)) = 0"
      using sys_okD(1) [OF sys]
    proof (cases rule: lock_okE)
      case readers
      have "readers n (holds (rm_sys r)) = {}" using idle(2) by (auto simp: readers_def)
      then show ?thesis using readers(2) by simp
    qed (use idle(2) in auto)
    ultimately show ?thesis by (simp add: mutex_destroy_recursive_def mutex_destroy_def wq_is_empty_def)
  qed
  have "u = t" if "t < n" "u < n" "0 < held r t" "0 < held r u" for t u
    using own [OF that(1,3)] own [OF that(2,4)] by simp
  then show ?thesis using rec_okD(1) [OF ok] sys_okD(5) [OF sys] depth no destroy by blast
qed

text \<open>Thread 0 locks twice, thread 1 once in vain; runs are lists of threads, with what each one calls.\<close>

fun rec_events :: "nat \<Rightarrow> nat \<Rightarrow> (nat \<times> bool option) list \<Rightarrow> rec_mutex \<Rightarrow> rec_mutex option" where
  "rec_events n mid [] r = Some r"
| "rec_events n mid ((t, None) # es) r =
     (if t < n \<and> \<not> rm_panicked r \<and> rm_pcs r t \<noteq> R_out then rec_events n mid es (rec_run mid t r) else None)"
| "rec_events n mid ((t, Some True) # es) r =
     (if t < n \<and> \<not> rm_panicked r \<and> rm_pcs r t = R_out \<and> held r t < 2 ^ 32 - 1
      then rec_events n mid es (mutex_lock_recursive mid t R_out r) else None)"
| "rec_events n mid ((t, Some False) # es) r =
     (if t < n \<and> \<not> rm_panicked r \<and> rm_pcs r t = R_out \<and> 0 < held r t
      then rec_events n mid es (mutex_unlock_recursive mid t R_out r) else None)"

lemma rec_locks:
  assumes "t < n" and "\<not> rm_panicked r" and "rm_pcs r t = R_out" and "held r t < 4294967295"
  shows "rec_step n mid r (mutex_lock_recursive mid t R_out r)"
  by (rule rec_step.rec_lock) (use assms in simp_all)

lemma rec_events_reachable:
  "rec_events n mid es r = Some r' \<Longrightarrow> rec_reachable n mid r \<Longrightarrow> rec_reachable n mid r'"
  by (induction n mid es r rule: rec_events.induct)
     (auto split: if_splits intro: rec_more rec_step.intros rec_locks
        simp del: mutex_lock_recursive.simps mutex_unlock_recursive.simps)

definition locked_twice :: "(nat \<times> bool option) list" where
  "locked_twice = [(0, Some True), (1, Some True), (0, None), (1, None), (0, None), (0, None), (0, Some True), (0, None)]"

lemma locked_twice_runs:
  "\<exists>r. rec_events 2 0 locked_twice mutex_init_recursive = Some r \<and> held r 0 = 2 \<and> held r 1 = 0
    \<and> rm_pcs r 1 = R_locking"
  by (simp add: locked_twice_def mutex_init_recursive_def rec_run_def rec_fields eval_sections refcount_inc_alone_eq)

theorem rec_mutex_exclusion_witness:
  "\<exists>r. rec_reachable 2 0 r \<and> held r 0 = 2 \<and> rm_pcs r 1 = R_locking
    \<and> map_option unat (mutex_get_recursive_lock_depth 0 r) = Some 2"
proof -
  obtain r where r: "rec_events 2 0 locked_twice mutex_init_recursive = Some r" "held r 0 = 2" "rm_pcs r 1 = R_locking"
    using locked_twice_runs by blast
  have "rec_reachable 2 0 r" by (rule rec_events_reachable [OF r(1) rec_start])
  moreover from rec_mutex_exclusion [OF this]
  have "\<forall>t < 2. 0 < held r t \<longrightarrow> map_option unat (mutex_get_recursive_lock_depth t r) = Some (held r t)" by simp
  from spec [OF this, of 0] have "map_option unat (mutex_get_recursive_lock_depth 0 r) = Some 2" using r(2) by auto
  ultimately show ?thesis using r by blast
qed

end
