(* ===== verification/Effects.thy ===== *)
theory Effects
  imports Prelude
begin

text \<open>
  Computations on a state that may fail: functions that return a result code and may be cut short by
  a failing assertion or a dereferenced null pointer, and their composition.
\<close>

text \<open>\<open>Stuck\<close> is a failed assertion or a null pointer that is dereferenced.\<close>

datatype 'a io = Ok 'a | Fail tee_result | Stuck

type_synonym ('s, 'a) sm = "'s \<Rightarrow> 'a io \<times> 's"

definition io_ret :: "'a \<Rightarrow> ('s, 'a) sm" where
  "io_ret x = (\<lambda>w. (Ok x, w))"

definition io_fail :: "tee_result \<Rightarrow> ('s, 'a) sm" where
  "io_fail e = (\<lambda>w. (Fail e, w))"

definition io_stuck :: "('s, 'a) sm" where
  "io_stuck = (\<lambda>w. (Stuck, w))"

definition io_bind :: "('s, 'a) sm \<Rightarrow> ('a \<Rightarrow> ('s, 'b) sm) \<Rightarrow> ('s, 'b) sm" where
  "io_bind m k = (\<lambda>w. case m w of
     (Ok x, w') \<Rightarrow> k x w' | (Fail e, w') \<Rightarrow> (Fail e, w') | (Stuck, w') \<Rightarrow> (Stuck, w'))"

lemma io_bind_Ok:
  "io_bind m k w = (Ok x, w') \<longleftrightarrow> (\<exists>y w1. m w = (Ok y, w1) \<and> k y w1 = (Ok x, w'))"
  by (auto simp: io_bind_def split: prod.splits io.splits)

definition io_try :: "('s, 'a) sm \<Rightarrow> ('a \<Rightarrow> ('s, 'b) sm) \<Rightarrow> (tee_result \<Rightarrow> ('s, 'b) sm) \<Rightarrow> ('s, 'b) sm" where
  "io_try m k handler = (\<lambda>s. case m s of
     (Ok x, s1) \<Rightarrow> k x s1 | (Fail e, s1) \<Rightarrow> handler e s1 | (Stuck, s1) \<Rightarrow> (Stuck, s1))"

text \<open>A loop over the elements of a list, left by the first failure.\<close>

fun for_each :: "('a \<Rightarrow> ('s, unit) sm) \<Rightarrow> 'a list \<Rightarrow> ('s, unit) sm" where
  "for_each f [] = io_ret ()"
| "for_each f (x # xs) = io_bind (f x) (\<lambda>_. for_each f xs)"

text \<open>Steps of computations whose result is known.\<close>

lemma io_bind_step: "m s = (Ok x, s1) \<Longrightarrow> io_bind m k s = k x s1"
  by (simp add: io_bind_def)

lemma io_bind_fail: "m s = (Fail e, s1) \<Longrightarrow> io_bind m k s = (Fail e, s1)"
  by (simp add: io_bind_def)

lemma for_each_map: "for_each f (map g xs) = for_each (\<lambda>x. f (g x)) xs"
  by (induction xs) simp_all

lemma for_each_append: "for_each f (xs @ ys) = io_bind (for_each f xs) (\<lambda>_. for_each f ys)"
  by (induction xs) (auto simp: io_bind_def io_ret_def fun_eq_iff split: prod.splits io.splits)

end
