(* ===== verification/Lockdep.thy ===== *)
theory Lockdep
  imports Effects
begin

text \<open>
  The lock dependency checker (\<open>core/kernel/lockdep.c\<close>): a graph of locks with an edge from each lock to those
  taken while it was held, sorted at every acquisition. Nodes are in memory by address
  (\<open>ld_node\<close>; \<open>None\<close> is freed memory) and linked in a list; edges are lists of values, since nothing points to
  them. Every allocation takes its answer from \<open>ld_allocs\<close>: the address, or \<open>None\<close> when memory is used up.
\<close>

section \<open>Data\<close>

type_synonym call_stack = "64 word list option"

record lockdep_edge =
  edge_to :: nat
  edge_thread_id :: "64 word"
  edge_stack_from :: call_stack
  edge_stack_to :: call_stack

record lockdep_node =
  lock_id :: "64 word"
  node_edges :: "lockdep_edge list"
  node_flags :: "8 word"

record lockdep_lock =
  lock_node :: nat
  lock_stack :: call_stack

record lockdep =
  ld_graph :: "nat list"
  ld_node :: "nat \<Rightarrow> lockdep_node option"
  ld_allocs :: "nat \<Rightarrow> nat option"

definition LOCKDEP_NODE_TEMP_MARK :: "8 word" where "LOCKDEP_NODE_TEMP_MARK = 1"
definition LOCKDEP_NODE_PERM_MARK :: "8 word" where "LOCKDEP_NODE_PERM_MARK = 2"
definition LOCKDEP_NODE_BFS_VISITED :: "8 word" where "LOCKDEP_NODE_BFS_VISITED = 4"

type_synonym 'a ld = "(lockdep, 'a) sm"

definition ld_alloc :: "nat option ld" where
  "ld_alloc = (\<lambda>s. (Ok (ld_allocs s 0), s\<lparr>ld_allocs := \<lambda>n. ld_allocs s (Suc n)\<rparr>))"

definition deref_node :: "nat \<Rightarrow> lockdep_node ld" where
  "deref_node p = (\<lambda>s. case ld_node s p of None \<Rightarrow> (Stuck, s) | Some n \<Rightarrow> (Ok n, s))"

definition update_node :: "nat \<Rightarrow> (lockdep_node \<Rightarrow> lockdep_node) \<Rightarrow> unit ld" where
  "update_node p f = (\<lambda>s. case ld_node s p of None \<Rightarrow> (Stuck, s) | Some n \<Rightarrow> (Ok (), s\<lparr>ld_node := (ld_node s)(p \<mapsto> f n)\<rparr>))"

definition set_flags :: "nat \<Rightarrow> 8 word \<Rightarrow> unit ld" where
  "set_flags p m = update_node p (\<lambda>n. n\<lparr>node_flags := node_flags n OR m\<rparr>)"

section \<open>Building the graph\<close>

text \<open>\<open>None\<close> is the null pointer.\<close>

fun find_lock_node :: "nat list \<Rightarrow> 64 word \<Rightarrow> nat option ld" where
  "find_lock_node [] i = io_ret None"
| "find_lock_node (p # ps) i = io_bind (deref_node p) (\<lambda>n. if lock_id n = i then io_ret (Some p) else find_lock_node ps i)"

definition lockdep_add_to_graph :: "64 word \<Rightarrow> nat option ld" where
  "lockdep_add_to_graph i = (\<lambda>s. io_bind (find_lock_node (ld_graph s) i) (\<lambda>found. case found of
     Some p \<Rightarrow> io_ret (Some p)
   | None \<Rightarrow> io_bind ld_alloc (\<lambda>a. case a of
       None \<Rightarrow> io_ret None
     | Some p \<Rightarrow> (\<lambda>s1. (Ok (Some p), s1\<lparr>ld_graph := ld_graph s1 @ [p],
         ld_node := (ld_node s1)(p \<mapsto> \<lparr>lock_id = i, node_edges = [], node_flags = 0\<rparr>)\<rparr>)))) s)"

definition dup_call_stack :: "call_stack \<Rightarrow> call_stack ld" where
  "dup_call_stack stack = (case stack of None \<Rightarrow> io_ret None
   | Some frames \<Rightarrow> io_bind ld_alloc (\<lambda>a. io_ret (if a = None then None else Some frames)))"

definition lockdep_add_edge :: "nat \<Rightarrow> nat \<Rightarrow> call_stack \<Rightarrow> call_stack \<Rightarrow> 64 word \<Rightarrow> unit ld" where
  "lockdep_add_edge from to stack_from stack_to thread_id = io_bind (deref_node from) (\<lambda>n.
     if \<exists>e \<in> set (node_edges n). edge_to e = to then io_ret ()
     else io_bind ld_alloc (\<lambda>a. if a = None then io_fail TEE_ERROR_OUT_OF_MEMORY
     else io_bind (dup_call_stack stack_from) (\<lambda>sf. io_bind (dup_call_stack stack_to) (\<lambda>st.
       update_node from (\<lambda>n. n\<lparr>node_edges := node_edges n @
         [\<lparr>edge_to = to, edge_thread_id = thread_id, edge_stack_from = sf, edge_stack_to = st\<rparr>]\<rparr>)))))"

section \<open>Sorting\<close>

text \<open>The recursion has fuel; with more than there are nodes it does not run out.\<close>

primrec lockdep_visit :: "nat \<Rightarrow> nat \<Rightarrow> unit ld" where
  "lockdep_visit 0 p = io_stuck"
| "lockdep_visit (Suc fuel) p = io_bind (deref_node p) (\<lambda>n.
     if node_flags n AND LOCKDEP_NODE_PERM_MARK \<noteq> 0 then io_ret ()
     else if node_flags n AND LOCKDEP_NODE_TEMP_MARK \<noteq> 0 then io_fail TEE_ERROR_BAD_STATE
     else io_bind (set_flags p LOCKDEP_NODE_TEMP_MARK) (\<lambda>_.
       io_bind (for_each (\<lambda>e. lockdep_visit fuel (edge_to e)) (node_edges n)) (\<lambda>_.
         set_flags p LOCKDEP_NODE_PERM_MARK)))"

definition visit_unmarked :: "nat \<Rightarrow> nat \<Rightarrow> unit ld" where
  "visit_unmarked fuel p = io_bind (deref_node p) (\<lambda>n. if node_flags n = 0 then lockdep_visit fuel p else io_ret ())"

definition lockdep_graph_sort :: "unit ld" where
  "lockdep_graph_sort = (\<lambda>s. io_bind (for_each (visit_unmarked (Suc (length (ld_graph s)))) (ld_graph s))
     (\<lambda>_. for_each (\<lambda>p. update_node p (\<lambda>n. n\<lparr>node_flags := 0\<rparr>)) (ld_graph s)) s)"

section \<open>Printing the shortest cycle\<close>

record lockdep_bfs =
  bfs_node :: nat
  bfs_path :: "64 word list"

text \<open>
  One element of the queue: the edges of its node. \<open>Inl\<close> leaves the search with a result (\<open>None\<close> is the null pointer),
  \<open>Inr\<close> goes on with a longer queue. A path found ends with \<open>0\<close>.
\<close>

fun bfs_edges :: "nat \<Rightarrow> lockdep_bfs \<Rightarrow> lockdep_edge list \<Rightarrow> lockdep_bfs list \<Rightarrow>
    (64 word list option + lockdep_bfs list) ld" where
  "bfs_edges node qe [] queue = io_ret (Inr queue)"
| "bfs_edges node qe (e # es) queue = io_bind (deref_node (edge_to e)) (\<lambda>to. io_bind (deref_node node) (\<lambda>n.
     if lock_id to = lock_id n then io_bind ld_alloc (\<lambda>a.
       io_ret (Inl (if a = None then None else Some (bfs_path qe @ [0]))))
     else if node_flags to AND LOCKDEP_NODE_BFS_VISITED = 0 then
       io_bind (set_flags (edge_to e) LOCKDEP_NODE_BFS_VISITED) (\<lambda>_. io_bind ld_alloc (\<lambda>a.
       if a = None then io_ret (Inl None) else io_bind ld_alloc (\<lambda>a.
       if a = None then io_ret (Inl None)
       else bfs_edges node qe es (queue @ [\<lparr>bfs_node = edge_to e, bfs_path = bfs_path qe @ [lock_id to]\<rparr>]))))
     else bfs_edges node qe es queue))"

fun bfs_loop :: "nat \<Rightarrow> nat \<Rightarrow> lockdep_bfs list \<Rightarrow> 64 word list option ld" where
  "bfs_loop fuel node [] = io_ret None"
| "bfs_loop 0 node queue = io_stuck"
| "bfs_loop (Suc fuel) node (qe # queue) = io_bind (deref_node (bfs_node qe)) (\<lambda>n.
     io_bind (bfs_edges node qe (node_edges n) queue) (\<lambda>r. case r of
       Inl path \<Rightarrow> io_ret path
     | Inr queue1 \<Rightarrow> bfs_loop fuel node queue1))"

definition lockdep_graph_get_shortest_cycle :: "nat \<Rightarrow> 64 word list option ld" where
  "lockdep_graph_get_shortest_cycle node = (\<lambda>s. io_bind (set_flags node LOCKDEP_NODE_BFS_VISITED) (\<lambda>_.
     io_bind ld_alloc (\<lambda>a. if a = None then io_ret None else io_bind (deref_node node) (\<lambda>n.
     io_bind ld_alloc (\<lambda>a. if a = None then io_ret None
     else bfs_loop (length (ld_graph s)) node [\<lparr>bfs_node = node, bfs_path = [lock_id n]\<rparr>])))) s)"

fun find_edge_to :: "lockdep_edge list \<Rightarrow> 64 word \<Rightarrow> lockdep_edge option ld" where
  "find_edge_to [] to = io_ret None"
| "find_edge_to (e # es) to = io_bind (deref_node (edge_to e)) (\<lambda>n.
     if lock_id n = to then io_ret (Some e) else find_edge_to es to)"

fun find_edge_from :: "nat list \<Rightarrow> 64 word \<Rightarrow> 64 word \<Rightarrow> lockdep_edge option ld" where
  "find_edge_from [] from to = io_ret None"
| "find_edge_from (p # ps) from to = io_bind (deref_node p) (\<lambda>n.
     io_bind (if lock_id n = from then find_edge_to (node_edges n) to else io_ret None) (\<lambda>found.
       case found of Some e \<Rightarrow> io_ret (Some e) | None \<Rightarrow> find_edge_from ps from to))"

definition lockdep_find_edge :: "64 word \<Rightarrow> 64 word \<Rightarrow> lockdep_edge option ld" where
  "lockdep_find_edge from to = (\<lambda>s. find_edge_from (ld_graph s) from to s)"

text \<open>What is printed: the edge with the lock it leads to, and the lock it comes from. A missing edge is a null pointer.\<close>

type_synonym edge_info = "64 word \<times> lockdep_edge \<times> 64 word"

definition lockdep_print_edge_info :: "64 word \<Rightarrow> lockdep_edge option \<Rightarrow> edge_info ld" where
  "lockdep_print_edge_info from edge = (case edge of None \<Rightarrow> io_stuck
   | Some e \<Rightarrow> io_bind (deref_node (edge_to e)) (\<lambda>n. io_ret (from, e, lock_id n)))"

text \<open>The second loop of \<open>lockdep_print_cycle_info\<close>, from a place of the path on; \<open>to\<close> is the lock before it.\<close>

fun print_edges :: "64 word \<Rightarrow> 64 word \<Rightarrow> 64 word list \<Rightarrow> edge_info list ld" where
  "print_edges first to [] = io_stuck"
| "print_edges first to (p # ps) =
     (if p = 0 then io_bind (lockdep_find_edge to first) (\<lambda>e. io_bind (lockdep_print_edge_info to e) (\<lambda>i. io_ret [i]))
      else io_bind (lockdep_find_edge to p) (\<lambda>e. io_bind (lockdep_print_edge_info to e) (\<lambda>i.
        io_bind (print_edges first p ps) (\<lambda>rest. io_ret (i # rest)))))"

definition lockdep_print_cycle_info :: "nat \<Rightarrow> (64 word list \<times> edge_info list) ld" where
  "lockdep_print_cycle_info node = io_bind (lockdep_graph_get_shortest_cycle node) (\<lambda>cycle. case cycle of
     None \<Rightarrow> io_stuck
   | Some [] \<Rightarrow> io_stuck
   | Some (c # cs) \<Rightarrow> if c = 0 then io_stuck else io_bind (print_edges c c cs) (\<lambda>is. io_ret (takeWhile (\<lambda>x. x \<noteq> 0) (c # cs), is)))"

section \<open>Acquiring and releasing\<close>

text \<open>
  The locks a thread owns in the order of their acquisition; the result is the list after the call. \<open>stack\<close> is what
  \<open>lockdep_get_kernel_stack\<close> returns, \<open>thread_id\<close> the address of the list.
\<close>

definition own_lock :: "nat \<Rightarrow> call_stack \<Rightarrow> lockdep_lock list \<Rightarrow> lockdep_lock list ld" where
  "own_lock node stack owned = io_bind ld_alloc (\<lambda>a. if a = None then io_fail TEE_ERROR_OUT_OF_MEMORY
     else io_ret (owned @ [\<lparr>lock_node = node, lock_stack = stack\<rparr>]))"

definition lockdep_lock_acquire :: "64 word \<Rightarrow> call_stack \<Rightarrow> lockdep_lock list \<Rightarrow> 64 word \<Rightarrow> lockdep_lock list ld" where
  "lockdep_lock_acquire thread_id stack owned i = io_bind (lockdep_add_to_graph i) (\<lambda>node. case node of
     None \<Rightarrow> io_fail TEE_ERROR_OUT_OF_MEMORY
   | Some p \<Rightarrow> io_bind (for_each (\<lambda>l. lockdep_add_edge (lock_node l) p (lock_stack l) stack thread_id) owned) (\<lambda>_.
       io_try lockdep_graph_sort (\<lambda>_. own_lock p stack owned)
         (\<lambda>e. io_bind (lockdep_print_cycle_info p) (\<lambda>_. io_fail e))))"

definition lockdep_lock_tryacquire :: "call_stack \<Rightarrow> lockdep_lock list \<Rightarrow> 64 word \<Rightarrow> lockdep_lock list ld" where
  "lockdep_lock_tryacquire stack owned i = io_bind (lockdep_add_to_graph i) (\<lambda>node. case node of
     None \<Rightarrow> io_fail TEE_ERROR_OUT_OF_MEMORY
   | Some p \<Rightarrow> own_lock p stack owned)"

text \<open>The search is from the end; the first argument is the list reversed.\<close>

fun release_last :: "lockdep_lock list \<Rightarrow> 64 word \<Rightarrow> lockdep_lock list ld" where
  "release_last [] i = io_fail TEE_ERROR_ITEM_NOT_FOUND"
| "release_last (l # ls) i = io_bind (deref_node (lock_node l)) (\<lambda>n.
     if lock_id n = i then io_ret ls else io_bind (release_last ls i) (\<lambda>ls1. io_ret (l # ls1)))"

definition lockdep_lock_release :: "lockdep_lock list \<Rightarrow> 64 word \<Rightarrow> lockdep_lock list ld" where
  "lockdep_lock_release owned i = io_bind (release_last (rev owned) i) (\<lambda>ls. io_ret (rev ls))"

section \<open>Destroying\<close>

text \<open>The edges to a node at the head of the list go first, then those after an edge that stays.\<close>

fun drop_edges_after :: "nat \<Rightarrow> lockdep_edge list \<Rightarrow> lockdep_edge list" where
  "drop_edges_after p [] = []"
| "drop_edges_after p (e # es) = (if edge_to e = p then drop_edges_after p es else e # drop_edges_after p es)"

fun drop_edges :: "nat \<Rightarrow> lockdep_edge list \<Rightarrow> lockdep_edge list" where
  "drop_edges p [] = []"
| "drop_edges p (e # es) = (if edge_to e = p then drop_edges p es else e # drop_edges_after p es)"

definition free_node :: "nat \<Rightarrow> unit ld" where
  "free_node p = (\<lambda>s. case ld_node s p of None \<Rightarrow> (Stuck, s) | Some _ \<Rightarrow> (Ok (), s\<lparr>ld_node := (ld_node s)(p := None)\<rparr>))"

definition lockdep_node_destroy :: "nat \<Rightarrow> unit ld" where
  "lockdep_node_destroy p = io_bind (\<lambda>s. (Ok (), s\<lparr>ld_graph := remove1 p (ld_graph s)\<rparr>)) (\<lambda>_ s.
     io_bind (for_each (\<lambda>q. update_node q (\<lambda>n. n\<lparr>node_edges := drop_edges p (node_edges n)\<rparr>)) (ld_graph s))
       (\<lambda>_. free_node p) s)"

definition lockdep_lock_destroy :: "64 word \<Rightarrow> unit ld" where
  "lockdep_lock_destroy i = (\<lambda>s. io_bind (find_lock_node (ld_graph s) i) (\<lambda>found.
     case found of None \<Rightarrow> io_ret () | Some p \<Rightarrow> lockdep_node_destroy p) s)"

definition lockdep_graph_delete :: "unit ld" where
  "lockdep_graph_delete = (\<lambda>s. for_each
     (\<lambda>p. io_bind (\<lambda>s. (Ok (), s\<lparr>ld_graph := remove1 p (ld_graph s)\<rparr>)) (\<lambda>_. free_node p)) (ld_graph s) s)"

fun lockdep_queue_delete :: "lockdep_lock list \<Rightarrow> lockdep_lock list" where
  "lockdep_queue_delete [] = []"
| "lockdep_queue_delete (l # ls) = lockdep_queue_delete ls"

end
