(* ===== verification/LockdepSort.thy ===== *)
theory LockdepSort
  imports Lockdep
begin

text \<open>
  The graph of the lock checker as a relation, the well-formedness its operations keep, and the sort, which
  finds out whether there is a cycle.
\<close>

section \<open>The graph as a relation\<close>

definition lock_order :: "lockdep \<Rightarrow> (nat \<times> nat) set" where
  "lock_order s = {(p, q). \<exists>n. ld_node s p = Some n \<and> q \<in> edge_to ` set (node_edges n)}"

definition id_at :: "lockdep \<Rightarrow> nat \<Rightarrow> 64 word" where
  "id_at s p = (case ld_node s p of None \<Rightarrow> 0 | Some n \<Rightarrow> lock_id n)"

definition graph_ok :: "lockdep \<Rightarrow> bool" where
  "graph_ok s \<longleftrightarrow> distinct (ld_graph s) \<and> (\<forall>p. (ld_node s p \<noteq> None) = (p \<in> set (ld_graph s)))
     \<and> inj_on (id_at s) (set (ld_graph s)) \<and> (\<forall>p n. ld_node s p = Some n \<longrightarrow>
         distinct (map edge_to (node_edges n)) \<and> edge_to ` set (node_edges n) \<subseteq> set (ld_graph s))"

text \<open>The same graph with other flags.\<close>

definition with_flags :: "lockdep \<Rightarrow> (nat \<Rightarrow> 8 word) \<Rightarrow> lockdep" where
  "with_flags s f = s\<lparr>ld_node := \<lambda>p. map_option (\<lambda>n. n\<lparr>node_flags := f p\<rparr>) (ld_node s p)\<rparr>"

definition flags_of :: "lockdep \<Rightarrow> nat \<Rightarrow> 8 word" where
  "flags_of s p = (case ld_node s p of None \<Rightarrow> 0 | Some n \<Rightarrow> node_flags n)"

definition unmarked :: "lockdep \<Rightarrow> bool" where
  "unmarked s \<longleftrightarrow> (\<forall>p. flags_of s p = 0)"

lemma with_flags_self:
  assumes "\<And>p n. ld_node s p = Some n \<Longrightarrow> f p = node_flags n"
  shows "with_flags s f = s"
proof -
  have "map_option (\<lambda>n. n\<lparr>node_flags := f p\<rparr>) (ld_node s p) = ld_node s p" for p
    using assms [of p] by (cases "ld_node s p") auto
  then show ?thesis by (simp add: with_flags_def)
qed

lemma with_flags_simps [simp]:
  "ld_graph (with_flags s f) = ld_graph s" "ld_allocs (with_flags s f) = ld_allocs s"
  "with_flags (with_flags s f) g = with_flags s g"
  by (simp_all add: with_flags_def option.map_comp comp_def)

lemma id_at_with_flags [simp]: "id_at (with_flags s f) = id_at s"
  by (rule ext) (simp add: with_flags_def id_at_def split: option.split)

lemma lock_order_with_flags [simp]: "lock_order (with_flags s f) = lock_order s"
  by (auto simp: with_flags_def lock_order_def)

lemma graph_ok_with_flags [simp]: "graph_ok (with_flags s f) = graph_ok s"
proof -
  let ?P = "\<lambda>es. distinct (map edge_to es) \<and> edge_to ` set es \<subseteq> set (ld_graph s)"
  have "(\<forall>p n. ld_node (with_flags s f) p = Some n \<longrightarrow> ?P (node_edges n)) = (\<forall>p n. ld_node s p = Some n \<longrightarrow> ?P (node_edges n))"
    by (fastforce simp: with_flags_def)
  moreover have "(ld_node (with_flags s f) p \<noteq> None) = (ld_node s p \<noteq> None)" for p by (simp add: with_flags_def)
  ultimately show ?thesis
    unfolding graph_ok_def by (simp only: with_flags_simps id_at_with_flags)
qed

lemma flags_with_flags: "ld_node s p \<noteq> None \<Longrightarrow> flags_of (with_flags s f) p = f p"
  by (auto simp: flags_of_def with_flags_def)

lemma bind_deref_node: "ld_node s p = Some n \<Longrightarrow>
    io_bind (deref_node p) k (with_flags s f) = k (n\<lparr>node_flags := f p\<rparr>) (with_flags s f)"
  by (simp add: io_bind_def deref_node_def with_flags_def)

lemma set_flags_with: "ld_node s p = Some n \<Longrightarrow>
    set_flags p m (with_flags s f) = (Ok (), with_flags s (f(p := f p OR m)))"
  by (auto simp: set_flags_def update_node_def with_flags_def fun_eq_iff)

lemma bind_set_flags: "ld_node s p = Some n \<Longrightarrow>
    io_bind (set_flags p m) k (with_flags s f) = k () (with_flags s (f(p := f p OR m)))"
  by (simp add: io_bind_def set_flags_with)

lemma clear_flags_with: "ld_node s p = Some n \<Longrightarrow>
    update_node p (\<lambda>n. n\<lparr>node_flags := 0\<rparr>) (with_flags s f) = (Ok (), with_flags s (f(p := 0)))"
  by (auto simp: update_node_def with_flags_def fun_eq_iff)

lemma bind_clear_flags: "ld_node s p = Some n \<Longrightarrow>
    io_bind (update_node p (\<lambda>n. n\<lparr>node_flags := 0\<rparr>)) k (with_flags s f) = k () (with_flags s (f(p := 0)))"
  by (simp add: io_bind_def clear_flags_with del: fun_upd_apply)

lemma orders_nodes: "graph_ok s \<Longrightarrow> (p, q) \<in> lock_order s \<Longrightarrow> p \<in> set (ld_graph s) \<and> q \<in> set (ld_graph s)"
  unfolding graph_ok_def lock_order_def by fast

section \<open>The depth-first search\<close>

text \<open>
  Flags \<open>1\<close>: being visited; \<open>3\<close>: done. What is done has done successors only and is on no cycle.
\<close>

definition marks_ok :: "(nat \<times> nat) set \<Rightarrow> (nat \<Rightarrow> 8 word) \<Rightarrow> bool" where
  "marks_ok r f \<longleftrightarrow> (\<forall>p. f p \<in> {0, 1, 3}) \<and> (\<forall>p q. f p = 3 \<longrightarrow> (p, q) \<in> r \<longrightarrow> f q = 3)
     \<and> (\<forall>p. f p = 3 \<longrightarrow> (p, p) \<notin> r\<^sup>+)"

definition grown :: "(nat \<Rightarrow> 8 word) \<Rightarrow> (nat \<Rightarrow> 8 word) \<Rightarrow> bool" where
  "grown f g \<longleftrightarrow> (\<forall>p. f p \<noteq> 0 \<longrightarrow> g p = f p) \<and> (\<forall>p. (g p = 1) = (f p = 1))"

definition visited :: "lockdep \<Rightarrow> (nat \<Rightarrow> 8 word) \<Rightarrow> nat set \<Rightarrow> unit io \<times> lockdep \<Rightarrow> bool" where
  "visited s f ps r \<longleftrightarrow> (\<exists>g. r = (Ok (), with_flags s g) \<and> marks_ok (lock_order s) g \<and> grown f g \<and> (\<forall>p \<in> ps. g p = 3))
     \<or> (\<exists>g. r = (Fail TEE_ERROR_BAD_STATE, with_flags s g) \<and> (\<forall>p. g p \<in> {0, 1, 3})) \<and> \<not> acyclic (lock_order s)"

lemma grown_refl: "grown f f" and grown_trans: "grown f g \<Longrightarrow> grown g h \<Longrightarrow> grown f h"
  by (auto simp: grown_def)

lemma done_stays: "marks_ok r f \<Longrightarrow> f p = 3 \<Longrightarrow> (p, q) \<in> r\<^sup>* \<Longrightarrow> f q = 3"
  by (rotate_tac 2, induction rule: rtrancl_induct) (auto simp: marks_ok_def)

lemma white_grown:
  assumes "grown f g" and "finite (A :: nat set)"
  shows "card {q \<in> A. g q = 0} \<le> card {q \<in> A. f q = 0}"
  by (rule card_mono) (use assms in \<open>auto simp: grown_def\<close>)

lemma visited_each:
  assumes visit: "\<And>f q. q \<in> set qs \<Longrightarrow> marks_ok (lock_order s) f \<Longrightarrow> \<forall>c. f c = 1 \<longrightarrow> c \<in> pending \<Longrightarrow> W f \<Longrightarrow>
      visited s f {q} (m q (with_flags s f))"
    and W: "\<And>f g. W f \<Longrightarrow> grown f g \<Longrightarrow> W g"
    and start: "marks_ok (lock_order s) f" "\<forall>c. f c = 1 \<longrightarrow> c \<in> pending" "W f"
  shows "visited s f (set qs) (for_each m qs (with_flags s f))"
  using visit start
proof (induction qs arbitrary: f)
  case Nil
  then show ?case by (auto simp: visited_def io_ret_def intro: grown_refl)
next
  case (Cons q qs)
  from Cons.prems(1) [of q f] Cons.prems(2-4)
  have "visited s f {q} (m q (with_flags s f))" by simp
  then show ?case unfolding visited_def [of s f "{q}"]
  proof (elim disjE exE conjE)
    fix g assume g: "m q (with_flags s f) = (Ok (), with_flags s g)" "marks_ok (lock_order s) g" "grown f g" "\<forall>p \<in> {q}. g p = 3"
    have "visited s g (set qs) (for_each m qs (with_flags s g))"
    proof (rule Cons.IH)
      show "\<forall>c. g c = 1 \<longrightarrow> c \<in> pending" using g(3) Cons.prems(3) by (auto simp: grown_def)
      show "W g" using W g(3) Cons.prems(4) by blast
    qed (use Cons.prems(1) g(2) in auto)
    then have "visited s g (set qs) (for_each m (q # qs) (with_flags s f))" using g(1) by (simp add: io_bind_def)
    then show ?thesis unfolding visited_def
    proof (elim disjE exE conjE)
      fix h assume h: "for_each m (q # qs) (with_flags s f) = (Ok (), with_flags s h)" "marks_ok (lock_order s) h" "grown g h"
        "\<forall>p \<in> set qs. h p = 3"
      moreover have "h q = 3" using g(4) h(3) by (simp add: grown_def)
      ultimately show "(\<exists>h. for_each m (q # qs) (with_flags s f) = (Ok (), with_flags s h) \<and> marks_ok (lock_order s) h
          \<and> grown f h \<and> (\<forall>p \<in> set (q # qs). h p = 3))
        \<or> (\<exists>h. for_each m (q # qs) (with_flags s f) = (Fail TEE_ERROR_BAD_STATE, with_flags s h) \<and> (\<forall>p. h p \<in> {0, 1, 3}))
          \<and> \<not> acyclic (lock_order s)"
        using grown_trans [OF g(3) h(3)] by (intro disjI1 exI [of _ h]) simp
    qed blast
  next
    fix g assume "m q (with_flags s f) = (Fail TEE_ERROR_BAD_STATE, with_flags s g)" "\<forall>p. g p \<in> {0, 1, 3}" "\<not> acyclic (lock_order s)"
    then show ?thesis by (auto simp: visited_def io_bind_fail)
  qed
qed

text \<open>The visit of a node: what is being visited leads to it.\<close>

lemma visit_node:
  assumes "graph_ok s" and "p \<in> set (ld_graph s)" and "marks_ok (lock_order s) f"
    and "\<forall>c. f c = 1 \<longrightarrow> (c, p) \<in> (lock_order s)\<^sup>+" and "card {q \<in> set (ld_graph s). f q = 0} < fuel"
  shows "visited s f {p} (lockdep_visit fuel p (with_flags s f))"
  using assms(2-5)
proof (induction fuel arbitrary: p f)
  case (Suc fuel)
  let ?r = "lock_order s"
  obtain n where n: "ld_node s p = Some n" using assms(1) Suc.prems(1) unfolding graph_ok_def by blast
  have "f p \<in> {0, 1, 3}" using Suc.prems(2) by (simp add: marks_ok_def)
  then consider "f p = 3" | "f p = 1" | "f p = 0" by blast
  then show ?case
  proof cases
    case 1
    then show ?thesis using Suc.prems(2)
      by (auto simp: bind_deref_node [OF n] LOCKDEP_NODE_PERM_MARK_def io_ret_def visited_def grown_refl)
  next
    case 2
    then have "\<not> acyclic ?r" using Suc.prems(3) by (auto simp: acyclic_def)
    moreover have "\<forall>q. f q \<in> {0, 1, 3}" using Suc.prems(2) by (simp add: marks_ok_def)
    ultimately show ?thesis using 2
      by (auto simp: bind_deref_node [OF n] LOCKDEP_NODE_PERM_MARK_def LOCKDEP_NODE_TEMP_MARK_def io_fail_def visited_def
          intro!: exI [of _ f])
  next
    case 3
    let ?f = "f(p := 1)" and ?A = "set (ld_graph s)"
    let ?kids = "map edge_to (node_edges n)"
    have kids: "(p, q) \<in> ?r \<longleftrightarrow> q \<in> set ?kids" for q using n by (auto simp: lock_order_def)
    have p_new: "f q = 3 \<Longrightarrow> (q, p) \<notin> ?r" for q using Suc.prems(2) 3 by (auto simp: marks_ok_def)
    have marks: "marks_ok ?r ?f" using Suc.prems(2) p_new 3 by (auto simp: marks_ok_def)
    have white: "card {q \<in> ?A. ?f q = 0} < fuel"
    proof -
      have "{q \<in> ?A. ?f q = 0} \<subset> {q \<in> ?A. f q = 0}" using 3 Suc.prems(1) by auto
      then have "card {q \<in> ?A. ?f q = 0} < card {q \<in> ?A. f q = 0}" by (intro psubset_card_mono) simp_all
      then show ?thesis using Suc.prems(4) by simp
    qed
    have each: "visited s ?f (set ?kids) (for_each (lockdep_visit fuel) ?kids (with_flags s ?f))"
    proof (rule visited_each [where W = "\<lambda>g. card {q \<in> ?A. g q = 0} < fuel" and pending = "{c. c = p \<or> (c, p) \<in> ?r\<^sup>+}"])
      fix g q assume q: "q \<in> set ?kids" and g: "marks_ok ?r g" "\<forall>c. g c = 1 \<longrightarrow> c \<in> {c. c = p \<or> (c, p) \<in> ?r\<^sup>+}"
        "card {q \<in> ?A. g q = 0} < fuel"
      have "q \<in> ?A" using q kids orders_nodes [OF assms(1)] by blast
      moreover have "(p, q) \<in> ?r" using q kids by blast
      then have "\<forall>c. g c = 1 \<longrightarrow> (c, q) \<in> ?r\<^sup>+" using g(2) by (auto intro: trancl_into_trancl)
      ultimately show "visited s g {q} (lockdep_visit fuel q (with_flags s g))" using Suc.IH g(1,3) by blast
    next
      show "card {q \<in> ?A. g q = 0} < fuel" if "card {q \<in> ?A. h q = 0} < fuel" "grown h g" for g h
        using white_grown [OF that(2), of ?A] that(1) by simp
    next
      show "\<forall>c. ?f c = 1 \<longrightarrow> c \<in> {c. c = p \<or> (c, p) \<in> ?r\<^sup>+}" using Suc.prems(3) by auto
    qed (use marks white in simp_all)
    have run: "lockdep_visit (Suc fuel) p (with_flags s f) = io_bind (for_each (lockdep_visit fuel) ?kids)
        (\<lambda>_. set_flags p LOCKDEP_NODE_PERM_MARK) (with_flags s ?f)"
      using 3 by (simp add: bind_deref_node [OF n] bind_set_flags [OF n]
          LOCKDEP_NODE_PERM_MARK_def LOCKDEP_NODE_TEMP_MARK_def for_each_map)
    show ?thesis using each unfolding visited_def [of s ?f]
    proof (elim disjE exE conjE)
      fix g assume g: "for_each (lockdep_visit fuel) ?kids (with_flags s ?f) = (Ok (), with_flags s g)" "marks_ok ?r g"
        "grown ?f g" "\<forall>q \<in> set ?kids. g q = 3"
      let ?g = "g(p := 3)"
      have gp: "g p = 1" using g(3) by (auto simp: grown_def)
      have no_cycle: "(p, p) \<notin> ?r\<^sup>+"
      proof
        assume "(p, p) \<in> ?r\<^sup>+"
        then obtain q where "(p, q) \<in> ?r" "(q, p) \<in> ?r\<^sup>*" by (auto dest: tranclD)
        then have "g p = 3" using done_stays [OF g(2)] g(4) kids by blast
        then show False using gp by simp
      qed
      have "marks_ok ?r ?g" using g(2,4) no_cycle kids by (auto simp: marks_ok_def)
      moreover have "grown f ?g" using g(3) 3 by (auto simp: grown_def)
      moreover have "lockdep_visit (Suc fuel) p (with_flags s f) = (Ok (), with_flags s ?g)"
        unfolding run using gp
        by (simp add: io_bind_def g(1) set_flags_with [OF n] LOCKDEP_NODE_PERM_MARK_def)
      ultimately show ?thesis unfolding visited_def by fastforce
    next
      fix g assume "for_each (lockdep_visit fuel) ?kids (with_flags s ?f) = (Fail TEE_ERROR_BAD_STATE, with_flags s g)"
        "\<forall>p. g p \<in> {0, 1, 3}" "\<not> acyclic ?r"
      then show ?thesis unfolding run visited_def by (auto simp: io_bind_fail)
    qed
  qed
qed simp

section \<open>The sort\<close>

lemma clear_all:
  assumes "\<forall>p \<in> set ps. ld_node s p \<noteq> None"
  shows "for_each (\<lambda>p. update_node p (\<lambda>n. n\<lparr>node_flags := 0\<rparr>)) ps (with_flags s f)
    = (Ok (), with_flags s (\<lambda>p. if p \<in> set ps then 0 else f p))"
  using assms
proof (induction ps arbitrary: f)
  case (Cons p ps)
  then obtain n where n: "ld_node s p = Some n" by auto
  have "(\<lambda>q. if q \<in> set ps then 0 else (f(p := 0)) q) = (\<lambda>q. if q \<in> set (p # ps) then 0 else f q)" by (simp add: fun_eq_iff)
  moreover have "for_each (\<lambda>p. update_node p (\<lambda>n. n\<lparr>node_flags := 0\<rparr>)) ps (with_flags s (f(p := 0)))
      = (Ok (), with_flags s (\<lambda>q. if q \<in> set ps then 0 else (f(p := 0)) q))"
    by (rule Cons.IH) (use Cons.prems in simp)
  ultimately show ?case by (simp only: for_each.simps bind_clear_flags [OF n])
qed (simp add: io_ret_def)

lemma visit_unmarked_result:
  assumes "graph_ok s" and "p \<in> set (ld_graph s)" and "marks_ok (lock_order s) f" and "\<forall>c. f c \<noteq> 1"
  shows "visited s f {p} (visit_unmarked (Suc (length (ld_graph s))) p (with_flags s f))"
proof -
  obtain n where n: "ld_node s p = Some n" using assms(1,2) unfolding graph_ok_def by blast
  have "card {q \<in> set (ld_graph s). f q = 0} \<le> card (set (ld_graph s))" by (intro card_mono) auto
  also have "\<dots> \<le> length (ld_graph s)" by (rule card_length)
  finally have "visited s f {p} (lockdep_visit (Suc (length (ld_graph s))) p (with_flags s f))"
    using assms by (intro visit_node) auto
  moreover have "f p \<in> {0, 1, 3}" using assms(3) by (simp add: marks_ok_def)
  then have "f p = 0 \<or> f p = 3" using assms(4) by auto
  ultimately show ?thesis using assms(3)
    by (auto simp: visit_unmarked_def bind_deref_node [OF n] visited_def io_ret_def grown_refl)
qed

lemma lockdep_graph_sort_result:
  assumes ok: "graph_ok s" and clear: "unmarked s"
  shows "lockdep_graph_sort s = (Ok (), s) \<and> acyclic (lock_order s)
    \<or> (\<exists>f. lockdep_graph_sort s = (Fail TEE_ERROR_BAD_STATE, with_flags s f) \<and> (\<forall>p. f p \<in> {0, 1, 3})) \<and> \<not> acyclic (lock_order s)"
proof -
  let ?z = "\<lambda>_. 0 :: 8 word" and ?A = "set (ld_graph s)"
  have flags: "node_flags n = 0" if "ld_node s p = Some n" for p n
    using clear that unfolding unmarked_def flags_of_def by (metis option.simps(5))
  have s: "with_flags s ?z = s" by (rule with_flags_self) (simp add: flags)
  have each: "visited s ?z ?A (for_each (visit_unmarked (Suc (length (ld_graph s)))) (ld_graph s) (with_flags s ?z))"
    by (rule visited_each [where W = "\<lambda>_. True" and pending = "{}"]) (auto intro!: visit_unmarked_result ok simp: marks_ok_def)
  then show ?thesis unfolding visited_def [of s ?z]
  proof (elim disjE exE conjE)
    fix g assume g: "for_each (visit_unmarked (Suc (length (ld_graph s)))) (ld_graph s) (with_flags s ?z) = (Ok (), with_flags s g)"
      "marks_ok (lock_order s) g" "grown ?z g" "\<forall>p \<in> ?A. g p = 3"
    have "(p, p) \<notin> (lock_order s)\<^sup>+" for p
    proof
      assume p: "(p, p) \<in> (lock_order s)\<^sup>+"
      then obtain q where "(p, q) \<in> lock_order s" by (auto dest: tranclD)
      then have "p \<in> ?A" using orders_nodes [OF ok] by blast
      then show False using g(2,4) p by (simp add: marks_ok_def)
    qed
    then have "acyclic (lock_order s)" by (simp add: acyclic_def)
    moreover have "lockdep_graph_sort s = (Ok (), s)"
    proof -
      have "with_flags s (\<lambda>p. if p \<in> ?A then 0 else g p) = s"
        by (rule with_flags_self) (use ok flags in \<open>auto simp: graph_ok_def\<close>)
      moreover have "\<forall>p \<in> ?A. ld_node s p \<noteq> None" using ok by (simp add: graph_ok_def)
      ultimately show ?thesis
        using g(1) clear_all [of "ld_graph s" s g] unfolding lockdep_graph_sort_def s by (simp add: io_bind_def)
    qed
    ultimately show ?thesis by blast
  next
    fix g assume "for_each (visit_unmarked (Suc (length (ld_graph s)))) (ld_graph s) (with_flags s ?z) = (Fail TEE_ERROR_BAD_STATE, with_flags s g)"
      "\<forall>p. g p \<in> {0, 1, 3}" "\<not> acyclic (lock_order s)"
    then show ?thesis unfolding lockdep_graph_sort_def s by (auto simp: io_bind_def)
  qed
qed

section \<open>The property\<close>

text \<open>
  C35: sorting the graph of locks fails exactly when the graph has a cycle, and otherwise leaves it as it was: the marks of
  the depth-first search find every cycle and no other, in a number of nested calls bounded by the number of locks.
\<close>
theorem lockdep_sort_finds_cycles:
  assumes "graph_ok s" and "unmarked s"
  shows "if acyclic (lock_order s) then lockdep_graph_sort s = (Ok (), s)
    else fst (lockdep_graph_sort s) = Fail TEE_ERROR_BAD_STATE"
  using lockdep_graph_sort_result [OF assms] by auto

text \<open>Two locks with the given edges from either.\<close>

definition two_locks :: "nat list \<Rightarrow> nat list \<Rightarrow> lockdep" where
  "two_locks ps qs = (let edges = map (\<lambda>p. \<lparr>edge_to = p, edge_thread_id = 0, edge_stack_from = None, edge_stack_to = None\<rparr>) in
     \<lparr>ld_graph = [1, 2],
      ld_node = (\<lambda>p. None)(1 \<mapsto> \<lparr>lock_id = 16, node_edges = edges ps, node_flags = 0\<rparr>,
        2 \<mapsto> \<lparr>lock_id = 32, node_edges = edges qs, node_flags = 0\<rparr>),
      ld_allocs = \<lambda>n. Some (n + 3)\<rparr>)"

lemma two_locks_ok:
  assumes "distinct ps" and "distinct qs" and "set ps \<subseteq> {1, 2}" and "set qs \<subseteq> {1, 2}"
  shows "graph_ok (two_locks ps qs)" and "unmarked (two_locks ps qs)"
    and "lock_order (two_locks ps qs) = {1} \<times> set ps \<union> {2} \<times> set qs"
  using assms
  by (auto simp: graph_ok_def two_locks_def id_at_def unmarked_def flags_of_def lock_order_def image_iff distinct_map
      inj_on_def Let_def split: if_splits)

lemma two_locks_cyclic: "\<not> acyclic (lock_order (two_locks [2] [1]))"
proof -
  have "lock_order (two_locks [2] [1]) = {(1, 2), (2, 1)}" by (subst two_locks_ok(3)) auto
  moreover have "(1, 1) \<in> {(1, 2), (2 :: nat, 1 :: nat)}\<^sup>+" by (rule trancl_into_trancl [of _ 2]) auto
  ultimately show ?thesis by (auto simp: acyclic_def)
qed

lemma two_locks_acyclic: "acyclic (lock_order (two_locks [2] []))"
proof -
  have "lock_order (two_locks [2] []) = {(1, 2)}" by (subst two_locks_ok(3)) auto
  then show ?thesis by (simp add: wf_acyclic)
qed

theorem lockdep_sort_finds_cycles_witness:
  "fst (lockdep_graph_sort (two_locks [2] [1])) = Fail TEE_ERROR_BAD_STATE
    \<and> lockdep_graph_sort (two_locks [2] []) = (Ok (), two_locks [2] [])"
  using lockdep_sort_finds_cycles [OF two_locks_ok(1,2), of "[2]" "[1]"]
    lockdep_sort_finds_cycles [OF two_locks_ok(1,2), of "[2]" "[]"] two_locks_cyclic two_locks_acyclic by simp

end
