(* ===== verification/LockdepCycle.thy ===== *)
theory LockdepCycle
  imports LockdepSort
begin

text \<open>
  The breadth-first search that prints a cycle after the sort has failed: it finds a shortest one through the
  lock, and every edge it then looks up is there.
\<close>

section \<open>Walks\<close>

definition walk :: "(nat \<times> nat) set \<Rightarrow> nat \<Rightarrow> nat list \<Rightarrow> nat \<Rightarrow> bool" where
  "walk r a xs b \<longleftrightarrow> xs \<noteq> [] \<and> hd xs = a \<and> last xs = b \<and> successively (\<lambda>x y. (x, y) \<in> r) xs"

lemma walk_single [simp]: "walk r a [b] c \<longleftrightarrow> a = b \<and> b = c"
  by (auto simp: walk_def)

lemma walk_snoc: "walk r a xs b \<Longrightarrow> (b, c) \<in> r \<Longrightarrow> walk r a (xs @ [c]) c"
  by (auto simp: walk_def successively_append_iff)

definition shortest_cycle :: "(nat \<times> nat) set \<Rightarrow> nat \<Rightarrow> nat list \<Rightarrow> bool" where
  "shortest_cycle r a xs \<longleftrightarrow> (\<exists>b. walk r a xs b \<and> (b, a) \<in> r) \<and> (\<forall>m. 0 < m \<and> m < length xs \<longrightarrow> (a, a) \<notin> r ^^ m)"

section \<open>States of the search\<close>

text \<open>The graph with other flags, after \<open>i\<close> allocations.\<close>

definition search_state :: "lockdep \<Rightarrow> (nat \<Rightarrow> 8 word) \<Rightarrow> nat \<Rightarrow> lockdep" where
  "search_state s f i = with_flags (s\<lparr>ld_allocs := \<lambda>n. ld_allocs s (i + n)\<rparr>) f"

definition seen :: "(nat \<Rightarrow> 8 word) \<Rightarrow> nat set" where
  "seen f = {p. f p AND LOCKDEP_NODE_BFS_VISITED \<noteq> 0}"

lemma search_node: "ld_node s p = Some n \<Longrightarrow>
    io_bind (deref_node p) k (search_state s f i) = k (n\<lparr>node_flags := f p\<rparr>) (search_state s f i)"
  unfolding search_state_def by (rule bind_deref_node) simp

lemma search_flags: "ld_node s p = Some n \<Longrightarrow>
    io_bind (set_flags p m) k (search_state s f i) = k () (search_state s (f(p := f p OR m)) i)"
  unfolding search_state_def by (rule bind_set_flags) simp

lemma search_alloc: "io_bind ld_alloc k (search_state s f i) = k (ld_allocs s i) (search_state s f (Suc i))"
  by (auto simp: io_bind_def ld_alloc_def search_state_def with_flags_def intro!: arg_cong [of _ _ "k (ld_allocs s i)"])

lemma seen_mark: "seen (f(p := f p OR LOCKDEP_NODE_BFS_VISITED)) = insert p (seen f)"
proof -
  have "(w OR 4) AND 4 = (4 :: 8 word)" for w by (rule bit_eqI) (auto simp: bit_simps)
  then show ?thesis by (auto simp: seen_def LOCKDEP_NODE_BFS_VISITED_def)
qed

section \<open>The invariant of the search\<close>

text \<open>
  \<open>front\<close> and \<open>rear\<close> together are the queue: walks of length \<open>k\<close> and of length \<open>k + 1\<close>. What has been taken from the queue
  has seen successors only, none of them the start \<open>a\<close>.
\<close>

definition levels :: "(nat \<times> nat) set \<Rightarrow> nat \<Rightarrow> nat \<Rightarrow> nat set \<Rightarrow> nat set \<Rightarrow> nat set \<Rightarrow> bool" where
  "levels r a k V F B \<longleftrightarrow> F \<union> B \<subseteq> V \<and> a \<in> V
     \<and> (\<forall>d q. d \<in> V \<longrightarrow> d \<notin> F \<longrightarrow> d \<notin> B \<longrightarrow> (d, q) \<in> r \<longrightarrow> q \<in> V \<and> q \<noteq> a)
     \<and> (\<forall>j q. j \<le> k \<longrightarrow> (a, q) \<in> r ^^ j \<longrightarrow> q \<in> V \<and> q \<notin> B) \<and> (\<forall>j q. j < k \<longrightarrow> (a, q) \<in> r ^^ j \<longrightarrow> q \<notin> F)"

definition on_queue :: "lockdep \<Rightarrow> nat \<Rightarrow> nat \<Rightarrow> lockdep_bfs \<Rightarrow> bool" where
  "on_queue s a k e \<longleftrightarrow> (\<exists>xs. walk (lock_order s) a xs (bfs_node e) \<and> length xs = Suc k \<and> bfs_path e = map (id_at s) xs)"

definition bfs_inv :: "lockdep \<Rightarrow> nat \<Rightarrow> nat \<Rightarrow> nat set \<Rightarrow> lockdep_bfs list \<Rightarrow> lockdep_bfs list \<Rightarrow> bool" where
  "bfs_inv s a k V front rear \<longleftrightarrow> (\<forall>e \<in> set front. on_queue s a k e) \<and> (\<forall>e \<in> set rear. on_queue s a (Suc k) e)
     \<and> distinct (map bfs_node (front @ rear)) \<and> V \<subseteq> set (ld_graph s)
     \<and> levels (lock_order s) a k V (bfs_node ` set front) (bfs_node ` set rear)"

lemma levels_up: "levels r a k V {} B \<Longrightarrow> levels r a (Suc k) V B {}"
proof -
  assume l: "levels r a k V {} B"
  have "q \<in> V" if jq: "j \<le> Suc k" "(a, q) \<in> r ^^ j" for j q
  proof (cases "j = Suc k")
    case True
    then obtain p where p: "(a, p) \<in> r ^^ k" "(p, q) \<in> r" using jq(2) by auto
    then have "p \<in> V" "p \<notin> B" using l unfolding levels_def by blast+
    then show ?thesis using p(2) l unfolding levels_def by blast
  next
    case False
    then show ?thesis using jq l unfolding levels_def by (metis le_SucE)
  qed
  then show ?thesis using l unfolding levels_def by (simp add: less_Suc_eq_le)
qed

lemma levels_new: "levels r a k V F B \<Longrightarrow> t \<notin> V \<Longrightarrow> levels r a k (insert t V) F (insert t B)"
  unfolding levels_def by blast

lemma levels_done: "levels r a k V (insert p F) B \<Longrightarrow> (\<And>q. (p, q) \<in> r \<Longrightarrow> q \<in> V \<and> q \<noteq> a) \<Longrightarrow> levels r a k V F B"
  unfolding levels_def by blast

lemma bfs_inv_start:
  assumes "a \<in> set (ld_graph s)"
  shows "bfs_inv s a 0 {a} [\<lparr>bfs_node = a, bfs_path = [id_at s a]\<rparr>] []"
  using assms by (auto simp: bfs_inv_def levels_def on_queue_def intro!: exI [of _ "[a]"])

lemma bfs_inv_level: "bfs_inv s a k V [] rear \<Longrightarrow> bfs_inv s a (Suc k) V rear []"
  by (simp add: bfs_inv_def levels_up)

text \<open>A new walk at the end; and the first element is done when its successors have been seen.\<close>

lemma bfs_inv_new:
  assumes inv: "bfs_inv s a k V (qe # front) rear" and edge: "(bfs_node qe, t) \<in> lock_order s" and t: "t \<in> set (ld_graph s)" "t \<notin> V"
  shows "bfs_inv s a k (insert t V) (qe # front) (rear @ [\<lparr>bfs_node = t, bfs_path = bfs_path qe @ [id_at s t]\<rparr>])"
proof -
  let ?new = "\<lparr>bfs_node = t, bfs_path = bfs_path qe @ [id_at s t]\<rparr>"
  have "on_queue s a k qe" using inv by (simp add: bfs_inv_def)
  then obtain xs where "walk (lock_order s) a xs (bfs_node qe)" "length xs = Suc k" "bfs_path qe = map (id_at s) xs"
    unfolding on_queue_def by blast
  then have "on_queue s a (Suc k) ?new"
    unfolding on_queue_def using walk_snoc [OF _ edge] by (intro exI [of _ "xs @ [t]"]) auto
  moreover have "t \<notin> bfs_node ` set (qe # front)" "t \<notin> bfs_node ` set rear"
    using inv t(2) unfolding bfs_inv_def levels_def by blast+
  moreover have "levels (lock_order s) a k (insert t V) (bfs_node ` set (qe # front)) (insert t (bfs_node ` set rear))"
    by (rule levels_new) (use inv t(2) in \<open>simp_all add: bfs_inv_def\<close>)
  ultimately show ?thesis using inv t unfolding bfs_inv_def by auto
qed

lemma bfs_inv_done:
  assumes "bfs_inv s a k V (qe # front) rear" and "\<And>q. (bfs_node qe, q) \<in> lock_order s \<Longrightarrow> q \<in> V \<and> q \<noteq> a"
  shows "bfs_inv s a k V front rear"
proof -
  have "levels (lock_order s) a k V (bfs_node ` set front) (bfs_node ` set rear)"
    by (rule levels_done [where p = "bfs_node qe"]) (use assms in \<open>simp_all add: bfs_inv_def\<close>)
  then show ?thesis using assms(1) by (simp add: bfs_inv_def)
qed

lemma bfs_inv_shift:
  assumes "bfs_inv s a k V front rear" and "front @ rear = qe # queue"
  obtains j front1 rear1 where "bfs_inv s a j V (qe # front1) rear1" and "queue = front1 @ rear1"
proof (cases front)
  case Nil
  then have "bfs_inv s a (Suc k) V (qe # queue) []" using bfs_inv_level assms by auto
  then show thesis using that [of "Suc k" queue "[]"] by simp
next
  case (Cons e es)
  then show thesis using that [of k es rear] assms by simp
qed

section \<open>One node\<close>

lemma same_id: "graph_ok s \<Longrightarrow> p \<in> set (ld_graph s) \<Longrightarrow> q \<in> set (ld_graph s) \<Longrightarrow> ld_node s p = Some n \<Longrightarrow> ld_node s q = Some m \<Longrightarrow>
    lock_id n = lock_id m \<longleftrightarrow> p = q"
  unfolding graph_ok_def inj_on_def id_at_def by (metis option.simps(5))

lemma node_of: "graph_ok s \<Longrightarrow> p \<in> set (ld_graph s) \<Longrightarrow> \<exists>n. ld_node s p = Some n"
  unfolding graph_ok_def by blast

definition edges_done ::
    "lockdep \<Rightarrow> nat \<Rightarrow> nat \<Rightarrow> lockdep_bfs \<Rightarrow> lockdep_bfs list \<Rightarrow> lockdep_bfs list \<Rightarrow> nat set
      \<Rightarrow> (64 word list option + lockdep_bfs list) io \<times> lockdep \<Rightarrow> bool" where
  "edges_done s a k qe front rear V r \<longleftrightarrow> (\<exists>g j.
     r = (Ok (Inl None), search_state s g j) \<and> (\<exists>m. ld_allocs s m = None)
     \<or> r = (Ok (Inl (Some (bfs_path qe @ [0]))), search_state s g j) \<and> (bfs_node qe, a) \<in> lock_order s
     \<or> (\<exists>new. r = (Ok (Inr (front @ rear @ new)), search_state s g j) \<and> bfs_inv s a k (seen g) (qe # front) (rear @ new)
        \<and> (\<forall>q. (bfs_node qe, q) \<in> lock_order s \<longrightarrow> q \<in> seen g \<and> q \<noteq> a)
        \<and> card (set (ld_graph s) - seen g) + length new = card (set (ld_graph s) - V)))"

lemma edges_done_no_memory: "ld_allocs s m = None \<Longrightarrow> edges_done s a k qe front rear V (Ok (Inl None), search_state s g j)"
  unfolding edges_done_def by blast

lemma edges_done_found:
  "(bfs_node qe, a) \<in> lock_order s \<Longrightarrow> edges_done s a k qe front rear V (Ok (Inl (Some (bfs_path qe @ [0]))), search_state s g j)"
  unfolding edges_done_def by blast

lemma edges_done_more:
  assumes "edges_done s a k qe front (rear @ [e]) (insert t V) r" and "t \<in> set (ld_graph s)" and "t \<notin> V"
  shows "edges_done s a k qe front rear V r"
proof -
  have "set (ld_graph s) - V = insert t (set (ld_graph s) - insert t V)" using assms(2,3) by blast
  moreover have "card (insert t (set (ld_graph s) - insert t V)) = Suc (card (set (ld_graph s) - insert t V))" by simp
  ultimately have count: "card (set (ld_graph s) - V) = Suc (card (set (ld_graph s) - insert t V))" by (rule ssubst)
  show ?thesis using assms(1) unfolding edges_done_def [of _ _ _ _ _ "rear @ [e]"]
  proof (elim exE disjE conjE)
    fix g j new assume "r = (Ok (Inr (front @ (rear @ [e]) @ new)), search_state s g j)"
      "bfs_inv s a k (seen g) (qe # front) ((rear @ [e]) @ new)" "\<forall>q. (bfs_node qe, q) \<in> lock_order s \<longrightarrow> q \<in> seen g \<and> q \<noteq> a"
      "card (set (ld_graph s) - seen g) + length new = card (set (ld_graph s) - insert t V)"
    then show ?thesis using count unfolding edges_done_def
      by (intro exI [of _ g] exI [of _ j] disjI2 exI [of _ "e # new"]) simp
  qed (simp_all add: edges_done_no_memory edges_done_found)
qed

lemma bfs_edges_result:
  assumes ok: "graph_ok s" and "bfs_inv s a k (seen f) (qe # front) rear" and "\<forall>e \<in> set es. (bfs_node qe, edge_to e) \<in> lock_order s"
    and "\<forall>q. (bfs_node qe, q) \<in> lock_order s \<longrightarrow> q \<notin> edge_to ` set es \<longrightarrow> q \<in> seen f \<and> q \<noteq> a"
  shows "edges_done s a k qe front rear (seen f) (bfs_edges a qe es (front @ rear) (search_state s f i))"
  using assms(2-4)
proof (induction es arbitrary: f i rear)
  case Nil
  then show ?case unfolding edges_done_def by (auto simp: io_ret_def intro!: exI [of _ f] exI [of _ i] exI [of _ "[]"])
next
  case (Cons e es)
  let ?t = "edge_to e"
  have edge: "(bfs_node qe, ?t) \<in> lock_order s" using Cons.prems(2) by simp
  have t: "?t \<in> set (ld_graph s)" using orders_nodes [OF ok edge] by simp
  have a: "a \<in> set (ld_graph s)" using Cons.prems(1) by (auto simp: bfs_inv_def levels_def)
  obtain n m where n: "ld_node s ?t = Some n" and m: "ld_node s a = Some m" using node_of [OF ok] t a by metis
  note steps = search_node [OF n] search_node [OF m] search_flags [OF n] search_alloc
  show ?case
  proof (cases "?t = a")
    case True
    then show ?thesis using edge same_id [OF ok t a n m]
      by (cases "ld_allocs s i") (simp_all add: steps io_ret_def edges_done_no_memory edges_done_found)
  next
    case False
    then have other: "lock_id n \<noteq> lock_id m" using same_id [OF ok t a n m] by simp
    show ?thesis
    proof (cases "?t \<in> seen f")
      case True
      then have "bfs_edges a qe (e # es) (front @ rear) (search_state s f i) = bfs_edges a qe es (front @ rear) (search_state s f i)"
        using other by (simp add: steps seen_def)
      moreover have "edges_done s a k qe front rear (seen f) (bfs_edges a qe es (front @ rear) (search_state s f i))"
        by (rule Cons.IH) (use Cons.prems True False in auto)
      ultimately show ?thesis by simp
    next
      case unseen: False
      let ?g = "f(?t := f ?t OR LOCKDEP_NODE_BFS_VISITED)" and ?e = "\<lparr>bfs_node = ?t, bfs_path = bfs_path qe @ [id_at s ?t]\<rparr>"
      have id: "lock_id n = id_at s ?t" using n by (simp add: id_at_def)
      have run: "bfs_edges a qe (e # es) (front @ rear) (search_state s f i) =
          (if ld_allocs s i = None then (Ok (Inl None), search_state s ?g (Suc i))
           else if ld_allocs s (Suc i) = None then (Ok (Inl None), search_state s ?g (Suc (Suc i)))
           else bfs_edges a qe es (front @ (rear @ [?e])) (search_state s ?g (Suc (Suc i))))"
        using other unseen by (simp add: steps seen_def io_ret_def id)
      have "edges_done s a k qe front (rear @ [?e]) (seen ?g) (bfs_edges a qe es (front @ (rear @ [?e])) (search_state s ?g (Suc (Suc i))))"
      proof (rule Cons.IH)
        show "bfs_inv s a k (seen ?g) (qe # front) (rear @ [?e])"
          unfolding seen_mark by (rule bfs_inv_new [OF Cons.prems(1) edge t unseen])
      qed (use Cons.prems False in \<open>auto simp: seen_mark simp del: fun_upd_apply\<close>)
      then have "edges_done s a k qe front rear (seen f) (bfs_edges a qe es (front @ (rear @ [?e])) (search_state s ?g (Suc (Suc i))))"
        unfolding seen_mark by (rule edges_done_more [OF _ t unseen])
      then show ?thesis unfolding run by (simp add: edges_done_no_memory)
    qed
  qed
qed

section \<open>The loop\<close>

definition search_done :: "lockdep \<Rightarrow> nat \<Rightarrow> 64 word list option io \<times> lockdep \<Rightarrow> bool" where
  "search_done s a r \<longleftrightarrow> (\<exists>g j.
     r = (Ok None, search_state s g j) \<and> ((\<exists>m. ld_allocs s m = None) \<or> (a, a) \<notin> (lock_order s)\<^sup>+)
     \<or> (\<exists>xs. r = (Ok (Some (map (id_at s) xs @ [0])), search_state s g j) \<and> shortest_cycle (lock_order s) a xs))"

lemma queue_empty:
  assumes "bfs_inv s a k V [] []"
  shows "(a, a) \<notin> (lock_order s)\<^sup>+"
proof
  let ?r = "lock_order s"
  have l: "levels ?r a k V {} {}" using assms by (simp add: bfs_inv_def)
  have "q \<in> V" if "(a, q) \<in> ?r\<^sup>*" for q
    using that by (induction rule: rtrancl_induct) (use l in \<open>auto simp: levels_def\<close>)
  moreover assume "(a, a) \<in> ?r\<^sup>+"
  then obtain q where "(a, q) \<in> ?r\<^sup>*" "(q, a) \<in> ?r" by (auto dest: tranclD2)
  ultimately show False using l unfolding levels_def by blast
qed

lemma found_shortest:
  assumes inv: "bfs_inv s a k V (qe # front) rear" and last_edge: "(bfs_node qe, a) \<in> lock_order s"
  shows "\<exists>xs. bfs_path qe = map (id_at s) xs \<and> shortest_cycle (lock_order s) a xs"
proof -
  let ?r = "lock_order s"
  obtain xs where xs: "walk ?r a xs (bfs_node qe)" "length xs = Suc k" "bfs_path qe = map (id_at s) xs"
    using inv unfolding bfs_inv_def on_queue_def by auto
  have "(a, a) \<notin> ?r ^^ m" if m: "0 < m" "m < length xs" for m
  proof
    assume "(a, a) \<in> ?r ^^ m"
    then obtain p where p: "(a, p) \<in> ?r ^^ (m - 1)" "(p, a) \<in> ?r" using m(1) by (cases m) auto
    have l: "levels ?r a k V (bfs_node ` set (qe # front)) (bfs_node ` set rear)" using inv by (simp add: bfs_inv_def)
    have "m - 1 < k" using m xs(2) by simp
    then have "p \<in> V" "p \<notin> bfs_node ` set rear" "p \<notin> bfs_node ` set (qe # front)"
      using l p(1) unfolding levels_def by (meson less_imp_le)+
    then show False using l p(2) unfolding levels_def by blast
  qed
  then show ?thesis using xs last_edge unfolding shortest_cycle_def by blast
qed

lemma bfs_loop_result:
  assumes ok: "graph_ok s" and "bfs_inv s a k (seen f) front rear"
    and "card (set (ld_graph s) - seen f) + length (front @ rear) \<le> fuel"
  shows "search_done s a (bfs_loop fuel a (front @ rear) (search_state s f i))"
  using assms(2,3)
proof (induction fuel arbitrary: k f i front rear)
  case 0
  then have "front = []" "rear = []" by simp_all
  then show ?case using 0(1) queue_empty unfolding search_done_def by (auto simp: io_ret_def)
next
  case (Suc fuel)
  show ?case
  proof (cases "front @ rear")
    case Nil
    then have "front = []" "rear = []" by simp_all
    then show ?thesis using Suc.prems(1) queue_empty unfolding search_done_def by (auto simp: io_ret_def)
  next
    case (Cons qe queue)
    obtain j front1 rear1 where inv: "bfs_inv s a j (seen f) (qe # front1) rear1" and q: "queue = front1 @ rear1"
      by (rule bfs_inv_shift [OF Suc.prems(1) Cons])
    have "bfs_node qe \<in> set (ld_graph s)" using inv by (auto simp: bfs_inv_def levels_def)
    then obtain n where n: "ld_node s (bfs_node qe) = Some n" using node_of [OF ok] by blast
    have succs: "(bfs_node qe, p) \<in> lock_order s \<longleftrightarrow> p \<in> edge_to ` set (node_edges n)" for p using n by (auto simp: lock_order_def)
    have run: "bfs_loop (Suc fuel) a (front @ rear) (search_state s f i) =
        io_bind (bfs_edges a qe (node_edges n) (front1 @ rear1)) (\<lambda>r. case r of Inl path \<Rightarrow> io_ret path | Inr queue1 \<Rightarrow> bfs_loop fuel a queue1)
          (search_state s f i)"
      by (simp add: Cons q search_node [OF n])
    have "edges_done s a j qe front1 rear1 (seen f) (bfs_edges a qe (node_edges n) (front1 @ rear1) (search_state s f i))"
      by (rule bfs_edges_result [OF ok inv]) (simp_all add: succs)
    then show ?thesis unfolding edges_done_def
    proof (elim exE disjE conjE)
      fix g jj m assume "bfs_edges a qe (node_edges n) (front1 @ rear1) (search_state s f i) = (Ok (Inl None), search_state s g jj)"
        "ld_allocs s m = None"
      then show ?thesis unfolding run search_done_def by (auto simp: io_bind_def io_ret_def)
    next
      fix g jj assume "bfs_edges a qe (node_edges n) (front1 @ rear1) (search_state s f i) = (Ok (Inl (Some (bfs_path qe @ [0]))), search_state s g jj)"
        and edge: "(bfs_node qe, a) \<in> lock_order s"
      moreover obtain xs where "bfs_path qe = map (id_at s) xs" "shortest_cycle (lock_order s) a xs"
        using found_shortest [OF inv edge] by blast
      ultimately show ?thesis unfolding run search_done_def by (auto simp: io_bind_def io_ret_def)
    next
      fix g jj new assume e: "bfs_edges a qe (node_edges n) (front1 @ rear1) (search_state s f i) = (Ok (Inr (front1 @ rear1 @ new)), search_state s g jj)"
        and inv1: "bfs_inv s a j (seen g) (qe # front1) (rear1 @ new)" and seen: "\<forall>q. (bfs_node qe, q) \<in> lock_order s \<longrightarrow> q \<in> seen g \<and> q \<noteq> a"
        and card: "card (set (ld_graph s) - seen g) + length new = card (set (ld_graph s) - seen f)"
      have "search_done s a (bfs_loop fuel a (front1 @ (rear1 @ new)) (search_state s g jj))"
      proof (rule Suc.IH)
        show "bfs_inv s a j (seen g) front1 (rear1 @ new)" by (rule bfs_inv_done [OF inv1]) (use seen in blast)
        show "card (set (ld_graph s) - seen g) + length (front1 @ (rear1 @ new)) \<le> fuel"
          using Suc.prems(2) card q unfolding Cons by simp
      qed
      then show ?thesis unfolding run by (simp add: io_bind_def e)
    qed
  qed
qed

section \<open>The shortest cycle\<close>

lemma flags_unseen: "\<forall>p. f p \<in> {0, 1, 3} \<Longrightarrow> seen f = {}"
proof -
  assume f: "\<forall>p. f p \<in> {0, 1, 3}"
  have "f p AND 4 = 0" for p using f [rule_format, of p] by auto
  then show ?thesis by (simp add: seen_def LOCKDEP_NODE_BFS_VISITED_def)
qed

lemma get_shortest_cycle_result:
  assumes ok: "graph_ok s" and p: "p \<in> set (ld_graph s)" and f: "\<forall>q. f q \<in> {0, 1, 3}"
  shows "search_done s p (lockdep_graph_get_shortest_cycle p (with_flags s f))"
proof -
  let ?g = "f(p := f p OR LOCKDEP_NODE_BFS_VISITED)"
  obtain n where n: "ld_node s p = Some n" using node_of [OF ok p] by blast
  have seen: "seen ?g = {p}" unfolding seen_mark using flags_unseen [OF f] by simp
  have start: "with_flags s f = search_state s f 0" by (simp add: search_state_def)
  have id: "lock_id n = id_at s p" using n by (simp add: id_at_def)
  have links: "ld_graph (search_state s f 0) = ld_graph s" by (simp add: search_state_def)
  have run: "lockdep_graph_get_shortest_cycle p (with_flags s f) =
      (if ld_allocs s 0 = None then (Ok None, search_state s ?g (Suc 0))
       else if ld_allocs s (Suc 0) = None then (Ok None, search_state s ?g (Suc (Suc 0)))
       else bfs_loop (length (ld_graph s)) p ([\<lparr>bfs_node = p, bfs_path = [id_at s p]\<rparr>] @ []) (search_state s ?g (Suc (Suc 0))))"
    unfolding lockdep_graph_get_shortest_cycle_def start links
    by (simp add: search_flags [OF n] search_node [OF n] search_alloc io_ret_def id)
  have "card (set (ld_graph s) - {p}) < card (set (ld_graph s))" using p by (intro psubset_card_mono) auto
  also have "\<dots> \<le> length (ld_graph s)" by (rule card_length)
  finally have "search_done s p (bfs_loop (length (ld_graph s)) p ([\<lparr>bfs_node = p, bfs_path = [id_at s p]\<rparr>] @ []) (search_state s ?g (Suc (Suc 0))))"
    using bfs_inv_start [OF p] by (intro bfs_loop_result [OF ok, where k = 0]) (simp_all add: seen)
  then show ?thesis unfolding run by (auto simp: search_done_def)
qed

section \<open>What is printed\<close>

lemma node_got: "graph_ok s \<Longrightarrow> p \<in> set (ld_graph s) \<Longrightarrow> deref_node p s = (Ok (the (ld_node s p)), s)"
  by (auto simp: deref_node_def dest: node_of)

lemma node_read: "graph_ok s \<Longrightarrow> p \<in> set (ld_graph s) \<Longrightarrow> io_bind (deref_node p) k s = k (the (ld_node s p)) s"
  by (simp add: io_bind_def node_got)

lemma node_id: "graph_ok s \<Longrightarrow> p \<in> set (ld_graph s) \<Longrightarrow> lock_id (the (ld_node s p)) = id_at s p"
  by (auto simp: id_at_def dest: node_of)

lemma id_at_eq: "graph_ok s \<Longrightarrow> p \<in> set (ld_graph s) \<Longrightarrow> q \<in> set (ld_graph s) \<Longrightarrow> id_at s p = id_at s q \<longleftrightarrow> p = q"
  unfolding graph_ok_def inj_on_def by blast

lemma find_edge_to_result:
  assumes "graph_ok s" and "edge_to ` set es \<subseteq> set (ld_graph s)" and "q \<in> edge_to ` set es"
  shows "\<exists>e. find_edge_to es (id_at s q) s = (Ok (Some e), s) \<and> edge_to e = q"
  using assms(2,3)
proof (induction es)
  case (Cons e es)
  have e: "edge_to e \<in> set (ld_graph s)" and q: "q \<in> set (ld_graph s)" using Cons.prems by auto
  then show ?case using Cons assms(1)
    by (auto simp: node_read node_id id_at_eq io_ret_def)
qed simp

lemma find_edge_from_result:
  assumes ok: "graph_ok s" and "set ps \<subseteq> set (ld_graph s)" and "p \<in> set ps" and edge: "(p, q) \<in> lock_order s"
  shows "\<exists>e. find_edge_from ps (id_at s p) (id_at s q) s = (Ok (Some e), s) \<and> edge_to e = q"
  using assms(2,3)
proof (induction ps)
  case (Cons c ps)
  have c: "c \<in> set (ld_graph s)" and p: "p \<in> set (ld_graph s)" using Cons.prems by auto
  show ?case
  proof (cases "c = p")
    case True
    obtain n where n: "ld_node s p = Some n" "q \<in> edge_to ` set (node_edges n)" using edge by (auto simp: lock_order_def)
    then have "edge_to ` set (node_edges n) \<subseteq> set (ld_graph s)" using ok unfolding graph_ok_def by blast
    from find_edge_to_result [OF ok this n(2)] show ?thesis
      using True p n(1) ok node_id [OF ok p] by (auto simp: node_got io_bind_def io_ret_def)
  next
    case False
    then show ?thesis using Cons c p ok by (auto simp: node_got node_id id_at_eq io_bind_def io_ret_def)
  qed
qed simp

lemma print_edge_result:
  assumes "graph_ok s" and "(p, q) \<in> lock_order s"
  shows "\<exists>e. lockdep_find_edge (id_at s p) (id_at s q) s = (Ok (Some e), s)
    \<and> lockdep_print_edge_info (id_at s p) (Some e) s = (Ok (id_at s p, e, id_at s q), s)"
proof -
  have "p \<in> set (ld_graph s)" "q \<in> set (ld_graph s)" using orders_nodes [OF assms] by simp_all
  with find_edge_from_result [OF assms(1) subset_refl _ assms(2)] show ?thesis
    unfolding lockdep_find_edge_def lockdep_print_edge_info_def
    using assms(1) by (auto simp: node_read node_id io_ret_def)
qed

lemma print_edges_result:
  assumes ok: "graph_ok s" and ids: "\<forall>p \<in> set (ld_graph s). id_at s p \<noteq> 0"
    and "successively (\<lambda>x y. (x, y) \<in> lock_order s) (p # ps)" and "(last (p # ps), a) \<in> lock_order s"
  shows "\<exists>is. print_edges (id_at s a) (id_at s p) (map (id_at s) ps @ [0]) s = (Ok is, s)
    \<and> map (\<lambda>(x, _, y). (x, y)) is = zip (map (id_at s) (p # ps)) (map (id_at s) (ps @ [a]))"
  using assms(3,4)
proof (induction ps arbitrary: p)
  case Nil
  then have "(p, a) \<in> lock_order s" by simp
  from print_edge_result [OF ok this] show ?case by (auto simp: io_bind_def io_ret_def)
next
  case (Cons q ps)
  then have edge: "(p, q) \<in> lock_order s" by simp
  then have "id_at s q \<noteq> 0" using ids orders_nodes [OF ok] by blast
  moreover obtain rest where "print_edges (id_at s a) (id_at s q) (map (id_at s) ps @ [0]) s = (Ok rest, s)"
    "map (\<lambda>(x, _, y). (x, y)) rest = zip (map (id_at s) (q # ps)) (map (id_at s) (ps @ [a]))"
    using Cons.IH [of q] Cons.prems by auto
  ultimately show ?case using print_edge_result [OF ok edge] by (auto simp: io_bind_def io_ret_def)
qed

text \<open>With memory for the search and no lock at address \<open>0\<close> the report is complete.\<close>

lemma print_cycle_result:
  assumes ok: "graph_ok s" and p: "p \<in> set (ld_graph s)" and f: "\<forall>q. f q \<in> {0, 1, 3}"
    and ids: "\<forall>p \<in> set (ld_graph s). id_at s p \<noteq> 0" and memory: "\<forall>m. ld_allocs s m \<noteq> None"
    and cycle: "(p, p) \<in> (lock_order s)\<^sup>+"
  shows "\<exists>xs is s'. shortest_cycle (lock_order s) p xs
    \<and> lockdep_print_cycle_info p (with_flags s f) = (Ok (map (id_at s) xs, is), s')
    \<and> map (\<lambda>(x, _, y). (x, y)) is = zip (map (id_at s) xs) (rotate1 (map (id_at s) xs))"
proof -
  obtain g j xs where run: "lockdep_graph_get_shortest_cycle p (with_flags s f) = (Ok (Some (map (id_at s) xs @ [0])), search_state s g j)"
    and short: "shortest_cycle (lock_order s) p xs"
    using get_shortest_cycle_result [OF ok p f] memory cycle unfolding search_done_def by blast
  obtain b where b: "walk (lock_order s) p xs b" "(b, p) \<in> lock_order s" using short unfolding shortest_cycle_def by blast
  then obtain ps where xs: "xs = p # ps" by (cases xs) (auto simp: walk_def)
  let ?t = "search_state s g j"
  have t: "graph_ok ?t" "lock_order ?t = lock_order s" "id_at ?t = id_at s" "ld_graph ?t = ld_graph s"
  proof -
    let ?u = "s\<lparr>ld_allocs := \<lambda>n. ld_allocs s (j + n)\<rparr>"
    have id: "id_at ?u = id_at s" by (simp add: fun_eq_iff id_at_def)
    have "graph_ok ?u = graph_ok s" unfolding graph_ok_def id by simp
    moreover have "lock_order ?u = lock_order s" by (simp add: lock_order_def)
    ultimately show "graph_ok ?t" "lock_order ?t = lock_order s" "id_at ?t = id_at s" "ld_graph ?t = ld_graph s"
      using ok id by (simp_all add: search_state_def)
  qed
  have nodes: "set xs \<subseteq> set (ld_graph s)"
  proof
    fix q assume "q \<in> set xs"
    then obtain us vs where us: "xs = us @ q # vs" by (auto simp: in_set_conv_decomp)
    show "q \<in> set (ld_graph s)"
    proof (cases us rule: rev_cases)
      case Nil
      then show ?thesis using us xs p by simp
    next
      case (snoc ws w)
      then have "(w, q) \<in> lock_order s" using b(1) us by (simp add: walk_def successively_append_iff)
      then show ?thesis using orders_nodes [OF ok] by blast
    qed
  qed
  then have nonzero: "takeWhile (\<lambda>x. x \<noteq> 0) (map (id_at s) xs @ [0]) = map (id_at s) xs" using ids by (auto simp: takeWhile_append)
  have "\<exists>is. print_edges (id_at ?t p) (id_at ?t p) (map (id_at ?t) ps @ [0]) ?t = (Ok is, ?t)
      \<and> map (\<lambda>(x, _, y). (x, y)) is = zip (map (id_at ?t) (p # ps)) (map (id_at ?t) (ps @ [p]))"
  proof (rule print_edges_result [OF t(1)])
    show "\<forall>p \<in> set (ld_graph ?t). id_at ?t p \<noteq> 0" using ids t by simp
    show "successively (\<lambda>x y. (x, y) \<in> lock_order ?t) (p # ps)" "(last (p # ps), p) \<in> lock_order ?t"
      using b xs t(2) by (simp_all add: walk_def)
  qed
  then obtain "is" where printed: "print_edges (id_at s p) (id_at s p) (map (id_at s) ps @ [0]) ?t = (Ok is, ?t)"
    "map (\<lambda>(x, _, y). (x, y)) is = zip (map (id_at s) xs) (rotate1 (map (id_at s) xs))"
    using t(3) xs by auto
  have "lockdep_print_cycle_info p (with_flags s f) = (Ok (map (id_at s) xs, is), ?t)"
    using run printed(1) nonzero ids p unfolding lockdep_print_cycle_info_def xs
    by (simp add: io_bind_def io_ret_def)
  then show ?thesis using short printed(2) by blast
qed

section \<open>The property\<close>



end
