(* ===== verification/LockdepAcquire.thy ===== *)
theory LockdepAcquire
  imports LockdepCycle
begin

text \<open>
  Acquiring, releasing and destroying locks under the lock checker: what the operations make of the order of locks, and that an
  acquisition is refused exactly when that order would become circular.
\<close>

section \<open>States between operations\<close>

definition lockdep_ok :: "lockdep \<Rightarrow> bool" where
  "lockdep_ok s \<longleftrightarrow> graph_ok s \<and> unmarked s \<and> acyclic (lock_order s)"

definition graph_kept :: "lockdep \<Rightarrow> lockdep \<Rightarrow> bool" where
  "graph_kept s s' \<longleftrightarrow> graph_ok s' \<and> unmarked s' \<and> set (ld_graph s) \<subseteq> set (ld_graph s')
     \<and> (\<forall>p \<in> set (ld_graph s). id_at s' p = id_at s p) \<and> (\<exists>j. ld_allocs s' = (\<lambda>n. ld_allocs s (j + n)))"

text \<open>The allocator does not give the address of a node in use.\<close>

definition fresh_allocs :: "lockdep \<Rightarrow> bool" where
  "fresh_allocs s \<longleftrightarrow> (\<forall>j p. ld_allocs s j = Some p \<longrightarrow> ld_node s p = None)"

lemma graph_kept_refl: "graph_ok s \<Longrightarrow> unmarked s \<Longrightarrow> graph_kept s s"
  by (auto simp: graph_kept_def intro!: exI [of _ 0])

lemma later_allocs:
  assumes "\<exists>j. ld_allocs b = (\<lambda>n. ld_allocs a (j + n))" and "\<exists>j. ld_allocs c = (\<lambda>n. ld_allocs b (j + n))"
  shows "\<exists>j. ld_allocs c = (\<lambda>n. ld_allocs a (j + n))"
  using assms by (auto simp: add.assoc [symmetric])

lemma graph_kept_trans: "graph_kept a b \<Longrightarrow> graph_kept b c \<Longrightarrow> graph_kept a c"
  using later_allocs [of b a c] unfolding graph_kept_def by (metis subsetD subset_trans)

lemma graph_kept_memory: "graph_kept s s' \<Longrightarrow> ld_allocs s' j = None \<Longrightarrow> \<exists>j. ld_allocs s j = None"
  unfolding graph_kept_def by auto

lemma graph_kept_alloc:
  assumes "graph_ok s" and "unmarked s"
  shows "graph_kept s (s\<lparr>ld_allocs := \<lambda>n. ld_allocs s (Suc n)\<rparr>)"
proof -
  let ?t = "s\<lparr>ld_allocs := \<lambda>n. ld_allocs s (Suc n)\<rparr>"
  have id: "id_at ?t = id_at s" by (simp add: id_at_def fun_eq_iff)
  have "graph_ok ?t" using assms(1) unfolding graph_ok_def id by simp
  moreover have "unmarked ?t" using assms(2) by (simp add: unmarked_def flags_of_def)
  moreover have "ld_allocs ?t = (\<lambda>n. ld_allocs s (1 + n))" by simp
  ultimately show ?thesis unfolding graph_kept_def id by (intro conjI exI [of _ 1]) simp_all
qed

lemma lock_order_allocs [simp]: "lock_order (s\<lparr>ld_allocs := a\<rparr>) = lock_order s"
  by (simp add: lock_order_def)

section \<open>Nodes\<close>

lemma edges_in:
  assumes "graph_ok s" and "ld_node s p = Some n"
  shows "distinct (map edge_to (node_edges n))" and "edge_to ` set (node_edges n) \<subseteq> set (ld_graph s)"
  using assms unfolding graph_ok_def by blast+

lemma find_lock_node_result:
  assumes ok: "graph_ok s" and "set ps \<subseteq> set (ld_graph s)"
  shows "\<exists>x. find_lock_node ps i s = (Ok x, s) \<and> (case x of None \<Rightarrow> i \<notin> id_at s ` set ps | Some p \<Rightarrow> p \<in> set ps \<and> id_at s p = i)"
  using assms(2)
proof (induction ps)
  case (Cons p ps)
  then show ?case using ok by (auto simp: node_read node_id io_ret_def split: option.splits)
qed (simp add: io_ret_def)

lemma add_node:
  assumes ok: "graph_ok s" "unmarked s" and p: "ld_node s p = None" and i: "i \<notin> id_at s ` set (ld_graph s)"
    and t: "t = s\<lparr>ld_allocs := \<lambda>n. ld_allocs s (Suc n), ld_graph := ld_graph s @ [p],
      ld_node := (ld_node s)(p \<mapsto> \<lparr>lock_id = i, node_edges = [], node_flags = 0\<rparr>)\<rparr>"
  shows "graph_kept s t" and "lock_order t = lock_order s" and "id_at t p = i"
proof -
  have p': "p \<notin> set (ld_graph s)" using ok(1) p unfolding graph_ok_def by blast
  show id: "id_at t p = i" by (simp add: id_at_def t)
  have old: "id_at t q = id_at s q" if "q \<in> set (ld_graph s)" for q using that p' by (auto simp: id_at_def t)
  show "lock_order t = lock_order s" using p by (fastforce simp: lock_order_def t split: if_splits)
  have "inj_on (id_at t) (set (ld_graph t))"
  proof -
    have "inj_on (id_at t) (set (ld_graph s))" using ok(1) old unfolding graph_ok_def by (simp cong: inj_on_cong)
    moreover have "id_at t p \<notin> id_at t ` set (ld_graph s)" using i old id by auto
    ultimately show ?thesis using p' by (simp add: t)
  qed
  moreover have "distinct (map edge_to (node_edges n)) \<and> edge_to ` set (node_edges n) \<subseteq> set (ld_graph t)"
    if "ld_node t q = Some n" for q n
    using that edges_in [OF ok(1), of q] by (cases "q = p") (auto simp: t image_subset_iff)
  ultimately have "graph_ok t" using ok(1) p' unfolding graph_ok_def by (auto simp: t)
  moreover have "unmarked t" using ok(2) by (auto simp: unmarked_def flags_of_def t)
  moreover have "\<exists>j. ld_allocs t = (\<lambda>n. ld_allocs s (j + n))" by (rule exI [of _ 1]) (simp add: t)
  moreover have "set (ld_graph s) \<subseteq> set (ld_graph t)" by (auto simp: t)
  ultimately show "graph_kept s t" using old unfolding graph_kept_def by blast
qed

lemma add_to_graph_result:
  assumes ok: "graph_ok s" "unmarked s" and fresh: "fresh_allocs s"
  shows "\<exists>x s'. lockdep_add_to_graph i s = (Ok x, s') \<and> graph_kept s s' \<and> lock_order s' = lock_order s
    \<and> id_at s' ` set (ld_graph s') \<subseteq> insert i (id_at s ` set (ld_graph s)) \<and> (case x of None \<Rightarrow> \<exists>j. ld_allocs s j = None | Some p \<Rightarrow> p \<in> set (ld_graph s') \<and> id_at s' p = i)"
proof -
  obtain x where x: "find_lock_node (ld_graph s) i s = (Ok x, s)"
    "case x of None \<Rightarrow> i \<notin> id_at s ` set (ld_graph s) | Some p \<Rightarrow> p \<in> set (ld_graph s) \<and> id_at s p = i"
    using find_lock_node_result [OF ok(1) subset_refl] by blast
  show ?thesis
  proof (cases x)
    case (Some p)
    then show ?thesis using x graph_kept_refl [OF ok] by (auto simp: lockdep_add_to_graph_def io_bind_def io_ret_def)
  next
    case None
    show ?thesis
    proof (cases "ld_allocs s 0")
      case None
      then show ?thesis using x \<open>x = None\<close> graph_kept_alloc [OF ok]
        by (auto simp: lockdep_add_to_graph_def io_bind_def io_ret_def ld_alloc_def graph_kept_def)
    next
      case (Some p)
      then have "ld_node s p = None" using fresh by (auto simp: fresh_allocs_def)
      from add_node [OF ok this _ refl, of i] x \<open>x = None\<close> Some show ?thesis
        by (auto simp: lockdep_add_to_graph_def io_bind_def io_ret_def ld_alloc_def graph_kept_def)
    qed
  qed
qed

section \<open>Edges\<close>

lemma dup_call_stack_result:
  assumes "graph_ok s" and "unmarked s"
  shows "\<exists>x s'. dup_call_stack stack s = (Ok x, s') \<and> graph_kept s s' \<and> lock_order s' = lock_order s \<and> ld_graph s' = ld_graph s"
  using graph_kept_refl [OF assms] graph_kept_alloc [OF assms]
  by (cases stack) (auto simp: dup_call_stack_def io_bind_def io_ret_def ld_alloc_def)

lemma append_edge:
  assumes ok: "graph_ok s" "unmarked s" and n: "ld_node s p = Some n" and target: "edge_to e \<in> set (ld_graph s)"
    "edge_to e \<notin> edge_to ` set (node_edges n)"
  shows "\<exists>s'. update_node p (\<lambda>n. n\<lparr>node_edges := node_edges n @ [e]\<rparr>) s = (Ok (), s') \<and> graph_kept s s'
    \<and> lock_order s' = insert (p, edge_to e) (lock_order s) \<and> ld_graph s' = ld_graph s"
proof -
  let ?t = "s\<lparr>ld_node := (ld_node s)(p \<mapsto> n\<lparr>node_edges := node_edges n @ [e]\<rparr>)\<rparr>"
  have id: "id_at ?t = id_at s" using n by (auto simp: id_at_def fun_eq_iff)
  have "ld_node ?t q \<noteq> None \<longleftrightarrow> ld_node s q \<noteq> None" for q using n by simp
  moreover have "distinct (map edge_to (node_edges m)) \<and> edge_to ` set (node_edges m) \<subseteq> set (ld_graph ?t)"
    if "ld_node ?t q = Some m" for q m
  proof (cases "q = p")
    case True
    moreover have "distinct (map edge_to (node_edges n))" "edge_to ` set (node_edges n) \<subseteq> set (ld_graph s)"
      using ok(1) n unfolding graph_ok_def by blast+
    ultimately show ?thesis using that target by (auto simp: image_subset_iff)
  next
    case False
    then have "ld_node s q = Some m" using that by simp
    then show ?thesis using ok(1) unfolding graph_ok_def by simp
  qed
  ultimately have "graph_ok ?t" using ok(1) unfolding graph_ok_def id by simp
  moreover have "unmarked ?t" using ok(2) n by (auto simp: unmarked_def flags_of_def split: option.splits)
  ultimately have "graph_kept s ?t" unfolding graph_kept_def id by (auto intro!: exI [of _ 0])
  moreover have "lock_order ?t = insert (p, edge_to e) (lock_order s)" using n by (fastforce simp: lock_order_def split: if_splits)
  ultimately show ?thesis using n by (auto simp: update_node_def)
qed

lemma add_edge_result:
  assumes ok: "graph_ok s" "unmarked s" and "p \<in> set (ld_graph s)" and q: "q \<in> set (ld_graph s)"
  shows "\<exists>r s'. lockdep_add_edge p q sf st tid s = (r, s') \<and> graph_kept s s' \<and> ld_graph s' = ld_graph s
    \<and> (r = Ok () \<and> lock_order s' = insert (p, q) (lock_order s) \<or> r = Fail TEE_ERROR_OUT_OF_MEMORY \<and> (\<exists>j. ld_allocs s j = None))"
proof -
  obtain n where n: "ld_node s p = Some n" using node_of [OF ok(1) assms(3)] by blast
  then have get: "deref_node p s = (Ok n, s)" by (simp add: deref_node_def)
  show ?thesis
  proof (cases "q \<in> edge_to ` set (node_edges n)")
    case True
    then have "lock_order s = insert (p, q) (lock_order s)" using n by (auto simp: lock_order_def)
    moreover have "\<exists>e \<in> set (node_edges n). edge_to e = q" using True by auto
    ultimately show ?thesis using graph_kept_refl [OF ok] by (simp add: lockdep_add_edge_def io_bind_def get io_ret_def)
  next
    case False
    then have new: "\<not> (\<exists>e \<in> set (node_edges n). edge_to e = q)" by auto
    let ?a = "s\<lparr>ld_allocs := \<lambda>n. ld_allocs s (Suc n)\<rparr>"
    note a = graph_kept_alloc [OF ok]
    show ?thesis
    proof (cases "ld_allocs s 0")
      case None
      then show ?thesis using a new by (auto simp: lockdep_add_edge_def io_bind_def get ld_alloc_def io_fail_def)
    next
      case (Some x)
      have ok_a: "graph_ok ?a" "unmarked ?a" using a by (simp_all add: graph_kept_def)
      obtain x1 b where b: "dup_call_stack sf ?a = (Ok x1, b)" "graph_kept ?a b" "lock_order b = lock_order ?a" "ld_graph b = ld_graph ?a"
        using dup_call_stack_result [OF ok_a] by blast
      have ok_b: "graph_ok b" "unmarked b" using b(2) by (simp_all add: graph_kept_def)
      obtain x2 c where c: "dup_call_stack st b = (Ok x2, c)" "graph_kept b c" "lock_order c = lock_order b" "ld_graph c = ld_graph b"
        using dup_call_stack_result [OF ok_b] by blast
      have ok_c: "graph_ok c" "unmarked c" using c(2) by (simp_all add: graph_kept_def)
      have same: "lock_order c = lock_order s" "ld_graph c = ld_graph s" using b c by simp_all
      let ?e = "\<lparr>edge_to = q, edge_thread_id = tid, edge_stack_from = x1, edge_stack_to = x2\<rparr>"
      obtain m where m: "ld_node c p = Some m" using node_of [OF ok_c(1)] assms(3) same(2) by metis
      have "(p, q) \<notin> lock_order c" using same(1) n False by (auto simp: lock_order_def)
      then have "edge_to ?e \<notin> edge_to ` set (node_edges m)" using m by (auto simp: lock_order_def)
      moreover have "edge_to ?e \<in> set (ld_graph c)" using q same(2) by simp
      ultimately obtain d where d: "update_node p (\<lambda>n. n\<lparr>node_edges := node_edges n @ [?e]\<rparr>) c = (Ok (), d)" "graph_kept c d"
        "lock_order d = insert (p, q) (lock_order c)" "ld_graph d = ld_graph c"
        using append_edge [OF ok_c m, of ?e] by auto
      have "lockdep_add_edge p q sf st tid s = (Ok (), d)"
        using new Some by (simp add: lockdep_add_edge_def io_bind_def get ld_alloc_def b(1) c(1) d(1))
      moreover have "graph_kept s d" using a b(2) c(2) d(2) graph_kept_trans by blast
      ultimately show ?thesis using d(3,4) same by auto
    qed
  qed
qed

lemma add_edges_result:
  assumes "graph_ok s" and "unmarked s" and "lock_node ` set ls \<subseteq> set (ld_graph s)" and q: "q \<in> set (ld_graph s)"
  shows "\<exists>r s'. for_each (\<lambda>l. lockdep_add_edge (lock_node l) q (lock_stack l) st tid) ls s = (r, s') \<and> graph_kept s s' \<and> ld_graph s' = ld_graph s
    \<and> (r = Ok () \<and> lock_order s' = lock_order s \<union> lock_node ` set ls \<times> {q} \<or> r = Fail TEE_ERROR_OUT_OF_MEMORY \<and> (\<exists>j. ld_allocs s j = None))"
  using assms
proof (induction ls arbitrary: s)
  case Nil
  then show ?case using graph_kept_refl by (auto simp: io_ret_def)
next
  case (Cons l ls)
  obtain r a where a: "lockdep_add_edge (lock_node l) q (lock_stack l) st tid s = (r, a)" "graph_kept s a" "ld_graph a = ld_graph s"
    "r = Ok () \<and> lock_order a = insert (lock_node l, q) (lock_order s) \<or> r = Fail TEE_ERROR_OUT_OF_MEMORY \<and> (\<exists>j. ld_allocs s j = None)"
    using add_edge_result [OF Cons.prems(1,2) _ Cons.prems(4), of "lock_node l" "lock_stack l" st tid] Cons.prems(3) by fastforce
  show ?case using a(4)
  proof (elim disjE conjE)
    assume r: "r = Ok ()" "lock_order a = insert (lock_node l, q) (lock_order s)"
    have ok: "graph_ok a" "unmarked a" using a(2) by (simp_all add: graph_kept_def)
    obtain r2 b where b: "for_each (\<lambda>l. lockdep_add_edge (lock_node l) q (lock_stack l) st tid) ls a = (r2, b)" "graph_kept a b"
      "ld_graph b = ld_graph a"
      "r2 = Ok () \<and> lock_order b = lock_order a \<union> lock_node ` set ls \<times> {q} \<or> r2 = Fail TEE_ERROR_OUT_OF_MEMORY \<and> (\<exists>j. ld_allocs a j = None)"
      using Cons.IH [OF ok] Cons.prems(3,4) a(3) by auto
    then show ?thesis using a(1,3) r graph_kept_trans [OF a(2) b(2)] graph_kept_memory [OF a(2)]
      by (auto simp: io_bind_def)
  next
    assume "r = Fail TEE_ERROR_OUT_OF_MEMORY" "\<exists>j. ld_allocs s j = None"
    then show ?thesis using a(1-3) by (auto simp: io_bind_def)
  qed
qed

section \<open>Acquiring\<close>

text \<open>
  The edges a blocking acquisition of node \<open>q\<close> adds. The last case needs a lock at address \<open>0\<close> or an allocation that fails.
\<close>

definition edges_to :: "lockdep_lock list \<Rightarrow> nat \<Rightarrow> (nat \<times> nat) set" where
  "edges_to owned q = lock_node ` set owned \<times> {q}"

lemma own_lock_result:
  assumes "graph_ok s" and "unmarked s"
  shows "\<exists>s'. graph_kept s s' \<and> lock_order s' = lock_order s \<and> ld_graph s' = ld_graph s \<and>
    (own_lock q st owned s = (Ok (owned @ [\<lparr>lock_node = q, lock_stack = st\<rparr>]), s')
      \<or> own_lock q st owned s = (Fail TEE_ERROR_OUT_OF_MEMORY, s') \<and> (\<exists>j. ld_allocs s j = None))"
  using graph_kept_alloc [OF assms]
  by (cases "ld_allocs s 0") (auto simp: own_lock_def io_bind_def ld_alloc_def io_ret_def io_fail_def)

lemma new_cycle:
  assumes "acyclic r" and "\<not> acyclic (r \<union> A \<times> {q})"
  shows "(q, q) \<in> (r \<union> A \<times> {q})\<^sup>+"
proof (rule ccontr)
  let ?t = "r \<union> A \<times> {q}"
  assume no: "(q, q) \<notin> ?t\<^sup>+"
  obtain x where x: "(x, x) \<in> ?t\<^sup>+" using assms(2) by (auto simp: acyclic_def)
  have "(y, z) \<in> ?t\<^sup>+ \<Longrightarrow> (y, z) \<in> r\<^sup>+ \<or> (y, q) \<in> ?t\<^sup>* \<and> (q, z) \<in> ?t\<^sup>*" for y z
  proof (induction rule: trancl_induct)
    case (base z)
    then show ?case by auto
  next
    case (step z w)
    show ?case
    proof (cases "(z, w) \<in> r")
      case True
      then show ?thesis using step by (auto intro: trancl_into_trancl rtrancl_into_rtrancl)
    next
      case False
      then show ?thesis using step by (auto intro: rtrancl_into_rtrancl trancl_into_rtrancl)
    qed
  qed
  from this [OF x] have "(x, q) \<in> ?t\<^sup>*" "(q, x) \<in> ?t\<^sup>*" using assms(1) by (auto simp: acyclic_def)
  then have "(q, q) \<in> ?t\<^sup>+" using x by (meson rtrancl_trancl_trancl trancl_rtrancl_trancl)
  then show False using no by simp
qed

text \<open>The order after an acquisition, as far as the edges were added: node \<open>q\<close> of lock \<open>i\<close> comes after all locks owned.\<close>

definition ordered_after :: "lockdep \<Rightarrow> lockdep_lock list \<Rightarrow> 64 word \<Rightarrow> nat \<Rightarrow> lockdep \<Rightarrow> bool" where
  "ordered_after s owned i q t \<longleftrightarrow> graph_kept s t \<and> q \<in> set (ld_graph t) \<and> id_at t q = i
     \<and> id_at t ` set (ld_graph t) \<subseteq> insert i (id_at s ` set (ld_graph s)) \<and> lock_order t = lock_order s \<union> edges_to owned q"

lemma ordered_after_kept:
  assumes "ordered_after s owned i q t" and kept: "graph_kept t u" and "lock_order u = lock_order t" and links: "ld_graph u = ld_graph t"
  shows "ordered_after s owned i q u"
proof -
  have "id_at u ` set (ld_graph u) = id_at t ` set (ld_graph t)" using kept links by (auto simp: graph_kept_def)
  then show ?thesis using assms graph_kept_trans [of s t u] unfolding ordered_after_def by (auto simp: graph_kept_def)
qed

definition acquired ::
    "lockdep \<Rightarrow> call_stack \<Rightarrow> lockdep_lock list \<Rightarrow> 64 word \<Rightarrow> lockdep_lock list io \<times> lockdep \<Rightarrow> bool" where
  "acquired s st owned i r \<longleftrightarrow> (\<exists>q t. ordered_after s owned i q t \<and> lockdep_ok t \<and> r = (Ok (owned @ [\<lparr>lock_node = q, lock_stack = st\<rparr>]), t))
     \<or> (\<exists>j. ld_allocs s j = None) \<and> (\<forall>x. fst r \<noteq> Ok x)
     \<or> (\<exists>q t. ordered_after s owned i q t \<and> \<not> acyclic (lock_order t) \<and> (\<forall>x. fst r \<noteq> Ok x)
         \<and> ((\<forall>p \<in> set (ld_graph t). id_at t p \<noteq> 0) \<longrightarrow> fst r = Fail TEE_ERROR_BAD_STATE))"

lemma acquired_no_memory: "ld_allocs s j = None \<Longrightarrow> (\<And>x. fst r \<noteq> Ok x) \<Longrightarrow> acquired s st owned i r"
  unfolding acquired_def by blast

lemma sort_and_own:
  assumes ok: "lockdep_ok s" and b: "ordered_after s owned i q b"
  shows "acquired s st owned i (io_try lockdep_graph_sort (\<lambda>_. own_lock q st owned)
      (\<lambda>e. io_bind (lockdep_print_cycle_info q) (\<lambda>_. io_fail e)) b)" (is "acquired s st owned i ?r")
proof -
  have kept: "graph_kept s b" and order: "lock_order b = lock_order s \<union> edges_to owned q" and q: "q \<in> set (ld_graph b)"
    using b by (simp_all add: ordered_after_def)
  have okb: "graph_ok b" "unmarked b" using kept by (simp_all add: graph_kept_def)
  from lockdep_graph_sort_result [OF okb] show ?thesis
  proof (elim disjE exE conjE)
    assume sort: "lockdep_graph_sort b = (Ok (), b)" "acyclic (lock_order b)"
    then have r: "?r = own_lock q st owned b" by (simp add: io_try_def)
    obtain c where c: "graph_kept b c" "lock_order c = lock_order b" "ld_graph c = ld_graph b"
      "own_lock q st owned b = (Ok (owned @ [\<lparr>lock_node = q, lock_stack = st\<rparr>]), c)
        \<or> own_lock q st owned b = (Fail TEE_ERROR_OUT_OF_MEMORY, c) \<and> (\<exists>j. ld_allocs b j = None)"
      using own_lock_result [OF okb, of q st owned] by blast
    have "lockdep_ok c" using c(1,2) sort(2) by (simp add: lockdep_ok_def graph_kept_def)
    moreover have "ordered_after s owned i q c" by (rule ordered_after_kept [OF b c(1-3)])
    moreover have "\<exists>j. ld_allocs s j = None" if "\<exists>j. ld_allocs b j = None" using that graph_kept_memory [OF kept] by blast
    ultimately show ?thesis using c(4) unfolding r acquired_def by auto
  next
    fix f assume sort: "lockdep_graph_sort b = (Fail TEE_ERROR_BAD_STATE, with_flags b f)" "\<forall>p. f p \<in> {0, 1, 3}"
      and cyclic: "\<not> acyclic (lock_order b)"
    have r: "?r = io_bind (lockdep_print_cycle_info q) (\<lambda>_. io_fail TEE_ERROR_BAD_STATE) (with_flags b f)"
      by (simp add: io_try_def sort(1))
    then have failed: "fst ?r \<noteq> Ok x" for x by (simp add: io_bind_def io_fail_def split: prod.splits io.splits)
    show ?thesis
    proof (cases "\<exists>j. ld_allocs s j = None")
      case True
      then show ?thesis using acquired_no_memory failed by blast
    next
      case False
      then have memory: "\<forall>m. ld_allocs b m \<noteq> None" using graph_kept_memory [OF kept] by blast
      have "acyclic (lock_order s)" using ok by (simp add: lockdep_ok_def)
      then have "(q, q) \<in> (lock_order b)\<^sup>+" 
        unfolding order edges_to_def by (rule new_cycle) (use cyclic in \<open>simp add: order edges_to_def\<close>)
      from print_cycle_result [OF okb(1) q sort(2) _ memory this]
      have "(\<forall>p \<in> set (ld_graph b). id_at b p \<noteq> 0) \<longrightarrow> fst ?r = Fail TEE_ERROR_BAD_STATE"
        unfolding r by (auto simp: io_bind_def io_fail_def)
      with b cyclic allI [OF failed]
      have "\<exists>q t. ordered_after s owned i q t \<and> \<not> acyclic (lock_order t) \<and> (\<forall>x. fst ?r \<noteq> Ok x)
          \<and> ((\<forall>p \<in> set (ld_graph t). id_at t p \<noteq> 0) \<longrightarrow> fst ?r = Fail TEE_ERROR_BAD_STATE)"
        by (intro exI conjI)
      then show ?thesis unfolding acquired_def by (intro disjI2)
    qed
  qed
qed

lemma acquire_result:
  assumes ok: "lockdep_ok s" and fresh: "fresh_allocs s" and owned: "lock_node ` set owned \<subseteq> set (ld_graph s)"
  shows "acquired s st owned i (lockdep_lock_acquire tid st owned i s)"
proof -
  have ok': "graph_ok s" "unmarked s" using ok by (simp_all add: lockdep_ok_def)
  obtain x a where a: "lockdep_add_to_graph i s = (Ok x, a)" "graph_kept s a" "lock_order a = lock_order s"
    "id_at a ` set (ld_graph a) \<subseteq> insert i (id_at s ` set (ld_graph s))"
    "case x of None \<Rightarrow> \<exists>j. ld_allocs s j = None | Some q \<Rightarrow> q \<in> set (ld_graph a) \<and> id_at a q = i"
    using add_to_graph_result [OF ok' fresh, of i] by blast
  show ?thesis
  proof (cases x)
    case None
    then show ?thesis using a(1,5) by (auto simp: lockdep_lock_acquire_def io_bind_def io_fail_def acquired_def)
  next
    case (Some q)
    then have q: "q \<in> set (ld_graph a)" "id_at a q = i" using a(5) by simp_all
    have oka: "graph_ok a" "unmarked a" "lock_node ` set owned \<subseteq> set (ld_graph a)" using a(2) owned by (auto simp: graph_kept_def)
    obtain r b where b: "for_each (\<lambda>l. lockdep_add_edge (lock_node l) q (lock_stack l) st tid) owned a = (r, b)" "graph_kept a b"
      "ld_graph b = ld_graph a"
      "r = Ok () \<and> lock_order b = lock_order a \<union> lock_node ` set owned \<times> {q}
        \<or> r = Fail TEE_ERROR_OUT_OF_MEMORY \<and> (\<exists>j. ld_allocs a j = None)"
      using add_edges_result [OF oka q(1), of st tid] by blast
    show ?thesis using b(4)
    proof (elim disjE conjE)
      assume r: "r = Ok ()" and order: "lock_order b = lock_order a \<union> lock_node ` set owned \<times> {q}"
      have "id_at b q = i" using q b(2) by (simp add: graph_kept_def)
      moreover have "id_at b ` set (ld_graph b) = id_at a ` set (ld_graph a)" using b(2,3) by (auto simp: graph_kept_def)
      ultimately have "ordered_after s owned i q b"
        unfolding ordered_after_def edges_to_def using graph_kept_trans [OF a(2) b(2)] q(1) b(3) order a(3,4) by simp
      from sort_and_own [OF ok this] show ?thesis
        by (simp add: lockdep_lock_acquire_def io_bind_def a(1) b(1) Some r)
    next
      assume r: "r = Fail TEE_ERROR_OUT_OF_MEMORY" and "\<exists>j. ld_allocs a j = None"
      then obtain j where "ld_allocs s j = None" using graph_kept_memory [OF a(2)] by blast
      then show ?thesis using r by (rule_tac acquired_no_memory) (simp_all add: lockdep_lock_acquire_def io_bind_def a(1) b(1) Some)
    qed
  qed
qed

lemma tryacquire_result:
  assumes ok: "graph_ok s" "unmarked s" and fresh: "fresh_allocs s" and run: "lockdep_lock_tryacquire st owned i s = (Ok owned1, t)"
  shows "\<exists>q. owned1 = owned @ [\<lparr>lock_node = q, lock_stack = st\<rparr>] \<and> q \<in> set (ld_graph t) \<and> graph_kept s t \<and> lock_order t = lock_order s"
proof -
  obtain x a where a: "lockdep_add_to_graph i s = (Ok x, a)" "graph_kept s a" "lock_order a = lock_order s"
    "id_at a ` set (ld_graph a) \<subseteq> insert i (id_at s ` set (ld_graph s))"
    "case x of None \<Rightarrow> \<exists>j. ld_allocs s j = None | Some q \<Rightarrow> q \<in> set (ld_graph a) \<and> id_at a q = i"
    using add_to_graph_result [OF ok fresh, of i] by blast
  obtain q where q: "x = Some q" "own_lock q st owned a = (Ok owned1, t)"
    using run by (cases x) (auto simp: lockdep_lock_tryacquire_def io_bind_def a(1) io_fail_def)
  have "graph_ok a" "unmarked a" using a(2) by (simp_all add: graph_kept_def)
  from own_lock_result [OF this, of q st owned] have "owned1 = owned @ [\<lparr>lock_node = q, lock_stack = st\<rparr>]" "graph_kept a t" "lock_order t = lock_order a"
    using q(2) by auto
  moreover have "q \<in> set (ld_graph t)" using a(5) q(1) calculation(2) by (auto simp: graph_kept_def)
  ultimately show ?thesis using graph_kept_trans [OF a(2)] a(3) by simp
qed

section \<open>Releasing\<close>

lemma release_last_result:
  assumes "graph_ok s" and "lock_node ` set ls \<subseteq> set (ld_graph s)"
  shows "release_last ls i s = (case List.extract (\<lambda>l. id_at s (lock_node l) = i) ls of
      None \<Rightarrow> (Fail TEE_ERROR_ITEM_NOT_FOUND, s) | Some (xs, l, ys) \<Rightarrow> (Ok (xs @ ys), s))"
  using assms(2)
proof (induction ls)
  case (Cons l ls)
  then show ?case using assms(1)
    by (auto simp: node_got node_id extract_Cons_code io_bind_def io_ret_def split: option.splits)
qed (simp add: io_fail_def extract_Nil_code)

lemma release_result:
  assumes "graph_ok s" and "lock_node ` set owned \<subseteq> set (ld_graph s)"
  shows "(\<exists>xs l ys. owned = xs @ l # ys \<and> id_at s (lock_node l) = i \<and> i \<notin> id_at s ` lock_node ` set ys
        \<and> lockdep_lock_release owned i s = (Ok (xs @ ys), s))
    \<or> i \<notin> id_at s ` lock_node ` set owned \<and> lockdep_lock_release owned i s = (Fail TEE_ERROR_ITEM_NOT_FOUND, s)"
proof (cases "List.extract (\<lambda>l. id_at s (lock_node l) = i) (rev owned)")
  case None
  then have "i \<notin> id_at s ` lock_node ` set owned" by (auto simp: extract_None_iff)
  then show ?thesis using None release_last_result [OF assms(1), of "rev owned" i] assms(2)
    by (simp add: lockdep_lock_release_def io_bind_def)
next
  case (Some r)
  obtain xs l ys where r: "r = (xs, l, ys)" by (cases r) auto
  then have "rev owned = xs @ l # ys" and l: "id_at s (lock_node l) = i" and xs: "\<forall>x \<in> set xs. id_at s (lock_node x) \<noteq> i"
    using Some by (auto simp: extract_Some_iff)
  then have "owned = rev ys @ l # rev xs" by (metis append.assoc append_Cons append_Nil rev.simps(2) rev_append rev_rev_ident)
  moreover have "lockdep_lock_release owned i s = (Ok (rev ys @ rev xs), s)"
    using Some r release_last_result [OF assms(1), of "rev owned" i] assms(2) by (simp add: lockdep_lock_release_def io_bind_def io_ret_def)
  moreover have "i \<notin> id_at s ` lock_node ` set (rev xs)" using xs by auto
  ultimately show ?thesis using l by blast
qed

section \<open>Destroying\<close>

lemma drop_edges_after_filter: "drop_edges_after p es = filter (\<lambda>e. edge_to e \<noteq> p) es"
  by (induction es) auto

lemma drop_edges_filter: "drop_edges p es = filter (\<lambda>e. edge_to e \<noteq> p) es"
  by (induction es) (auto simp: drop_edges_after_filter)

lemma update_each:
  assumes "distinct ps" and "\<forall>p \<in> set ps. ld_node s p \<noteq> None"
  shows "for_each (\<lambda>p. update_node p f) ps s
    = (Ok (), s\<lparr>ld_node := \<lambda>p. if p \<in> set ps then map_option f (ld_node s p) else ld_node s p\<rparr>)"
  using assms
proof (induction ps arbitrary: s)
  case (Cons p ps)
  then obtain n where n: "ld_node s p = Some n" by auto
  let ?t = "s\<lparr>ld_node := (ld_node s)(p \<mapsto> f n)\<rparr>"
  have "for_each (\<lambda>p. update_node p f) ps ?t
      = (Ok (), ?t\<lparr>ld_node := \<lambda>q. if q \<in> set ps then map_option f (ld_node ?t q) else ld_node ?t q\<rparr>)"
    by (rule Cons.IH) (use Cons.prems in auto)
  moreover have "(\<lambda>q. if q \<in> set ps then map_option f (ld_node ?t q) else ld_node ?t q)
      = (\<lambda>q. if q \<in> set (p # ps) then map_option f (ld_node s q) else ld_node s q)"
    using n Cons.prems(1) by (auto simp: fun_eq_iff)
  ultimately show ?case using n by (simp add: io_bind_def update_node_def)
qed (simp add: io_ret_def)

lemma node_destroy_result:
  assumes ok: "graph_ok s" "unmarked s" and p: "p \<in> set (ld_graph s)"
  shows "\<exists>t. lockdep_node_destroy p s = (Ok (), t) \<and> graph_ok t \<and> unmarked t \<and> set (ld_graph t) = set (ld_graph s) - {p}
    \<and> (\<forall>q \<in> set (ld_graph t). id_at t q = id_at s q) \<and> lock_order t = {(a, b) \<in> lock_order s. a \<noteq> p \<and> b \<noteq> p}"
proof -
  let ?f = "\<lambda>n. n\<lparr>node_edges := filter (\<lambda>e. edge_to e \<noteq> p) (node_edges n)\<rparr>"
  let ?t = "s\<lparr>ld_graph := remove1 p (ld_graph s), ld_node := \<lambda>q. if q = p then None else map_option ?f (ld_node s q)\<rparr>"
  have nodes: "ld_node s q \<noteq> None \<longleftrightarrow> q \<in> set (ld_graph s)" for q using ok(1) unfolding graph_ok_def by blast
  have dist: "distinct (ld_graph s)" and inj: "inj_on (id_at s) (set (ld_graph s))" using ok(1) by (simp_all add: graph_ok_def)
  have links: "set (ld_graph ?t) = set (ld_graph s) - {p}" using dist by simp
  have run: "lockdep_node_destroy p s = (Ok (), ?t)"
  proof -
    let ?a = "s\<lparr>ld_graph := remove1 p (ld_graph s)\<rparr>"
    have "for_each (\<lambda>q. update_node q (\<lambda>n. n\<lparr>node_edges := drop_edges p (node_edges n)\<rparr>)) (ld_graph ?a) ?a
        = (Ok (), ?a\<lparr>ld_node := \<lambda>q. if q \<in> set (ld_graph ?a) then map_option ?f (ld_node ?a q) else ld_node ?a q\<rparr>)"
      unfolding drop_edges_filter by (rule update_each) (use dist nodes in \<open>simp_all add: set_remove1_eq\<close>)
    moreover have "(\<lambda>q. if q \<in> set (ld_graph ?a) then map_option ?f (ld_node ?a q) else ld_node ?a q)(p := None) = ld_node ?t"
    proof -
      have "ld_node s q = None" if "q \<notin> set (ld_graph s)" for q using nodes [of q] that by blast
      then show ?thesis using dist by (auto simp: fun_eq_iff)
    qed
    moreover have "ld_node s p \<noteq> None" using p nodes by blast
    ultimately show ?thesis using dist
      by (auto simp: lockdep_node_destroy_def io_bind_def free_node_def)
  qed
  have id: "id_at ?t q = id_at s q" if "q \<in> set (ld_graph ?t)" for q
    using that dist by (auto simp: id_at_def split: option.split)
  have order: "lock_order ?t = {(a, b) \<in> lock_order s. a \<noteq> p \<and> b \<noteq> p}" by (fastforce simp: lock_order_def split: if_splits)
  have "graph_ok ?t"
  proof -
    have "distinct (ld_graph ?t)" using dist by simp
    moreover have "(ld_node ?t q \<noteq> None) = (q \<in> set (ld_graph ?t))" for q unfolding links using nodes [of q] by simp
    moreover have "inj_on (id_at ?t) (set (ld_graph ?t))"
    proof (rule inj_onI)
      fix x y assume xy: "x \<in> set (ld_graph ?t)" "y \<in> set (ld_graph ?t)" "id_at ?t x = id_at ?t y"
      have "id_at s x = id_at s y" using xy(3) unfolding id [OF xy(1)] id [OF xy(2)] .
      moreover have "x \<in> set (ld_graph s)" "y \<in> set (ld_graph s)" using xy(1,2) unfolding links by simp_all
      ultimately show "x = y" by (rule inj_onD [OF inj])
    qed
    moreover have "distinct (map edge_to (node_edges n)) \<and> edge_to ` set (node_edges n) \<subseteq> set (ld_graph ?t)"
      if n: "ld_node ?t q = Some n" for q n
    proof -
      obtain m where m: "ld_node s q = Some m" "n = ?f m" using n by (auto split: if_splits)
      then show ?thesis unfolding links using edges_in [OF ok(1) m(1)] by (auto simp: distinct_map_filter)
    qed
    ultimately show ?thesis unfolding graph_ok_def by blast
  qed
  moreover have "unmarked ?t" using ok(2) by (auto simp: unmarked_def flags_of_def split: option.splits)
  ultimately show ?thesis using run links id order by blast
qed

lemma destroy_result:
  assumes ok: "graph_ok s" "unmarked s"
  shows "\<exists>t. lockdep_lock_destroy i s = (Ok (), t) \<and> graph_ok t \<and> unmarked t
    \<and> set (ld_graph t) = {p \<in> set (ld_graph s). id_at s p \<noteq> i} \<and> (\<forall>q \<in> set (ld_graph t). id_at t q = id_at s q)
    \<and> lock_order t = {(a, b) \<in> lock_order s. id_at s a \<noteq> i \<and> id_at s b \<noteq> i}"
proof -
  obtain x where x: "find_lock_node (ld_graph s) i s = (Ok x, s)"
    "case x of None \<Rightarrow> i \<notin> id_at s ` set (ld_graph s) | Some p \<Rightarrow> p \<in> set (ld_graph s) \<and> id_at s p = i"
    using find_lock_node_result [OF ok(1) subset_refl] by blast
  show ?thesis
  proof (cases x)
    case None
    then have "i \<notin> id_at s ` set (ld_graph s)" using x(2) by simp
    moreover from this have "lock_order s = {(a, b) \<in> lock_order s. id_at s a \<noteq> i \<and> id_at s b \<noteq> i}"
      using orders_nodes [OF ok(1)] by blast
    ultimately show ?thesis using ok x(1) None
      by (intro exI [of _ s]) (auto simp: lockdep_lock_destroy_def io_bind_def io_ret_def)
  next
    case (Some p)
    then have p: "p \<in> set (ld_graph s)" "id_at s p = i" using x(2) by simp_all
    have same: "id_at s q = i \<longleftrightarrow> q = p" if "q \<in> set (ld_graph s)" for q using id_at_eq [OF ok(1) that p(1)] p(2) by simp
    obtain t where t: "lockdep_node_destroy p s = (Ok (), t)" "graph_ok t" "unmarked t" "set (ld_graph t) = set (ld_graph s) - {p}"
      "\<forall>q \<in> set (ld_graph t). id_at t q = id_at s q" "lock_order t = {(a, b) \<in> lock_order s. a \<noteq> p \<and> b \<noteq> p}"
      using node_destroy_result [OF ok p(1)] by blast
    have "set (ld_graph t) = {p \<in> set (ld_graph s). id_at s p \<noteq> i}" using t(4) same by auto
    moreover have "lock_order t = {(a, b) \<in> lock_order s. id_at s a \<noteq> i \<and> id_at s b \<noteq> i}"
      using t(6) same orders_nodes [OF ok(1)] by blast
    ultimately show ?thesis using t x(1) Some
      by (intro exI [of _ t]) (auto simp: lockdep_lock_destroy_def io_bind_def)
  qed
qed

section \<open>The order of locks by their addresses\<close>

definition id_order :: "lockdep \<Rightarrow> (64 word \<times> 64 word) set" where
  "id_order s = map_prod (id_at s) (id_at s) ` lock_order s"

lemma acyclic_image:
  assumes inj: "inj_on f A" and r: "r \<subseteq> A \<times> A"
  shows "acyclic (map_prod f f ` r) \<longleftrightarrow> acyclic r"
proof
  assume a: "acyclic (map_prod f f ` r)"
  have "(x, y) \<in> r\<^sup>+ \<Longrightarrow> (f x, f y) \<in> (map_prod f f ` r)\<^sup>+" for x y
    by (induction rule: trancl_induct) (auto intro: trancl_into_trancl)
  then show "acyclic r" using a unfolding acyclic_def by blast
next
  assume a: "acyclic r"
  have "(u, v) \<in> (map_prod f f ` r)\<^sup>+ \<Longrightarrow> \<exists>x \<in> A. \<exists>y \<in> A. u = f x \<and> v = f y \<and> (x, y) \<in> r\<^sup>+" for u v
  proof (induction rule: trancl_induct)
    case (base v)
    then show ?case using r by auto
  next
    case (step v w)
    then obtain x y where xy: "x \<in> A" "y \<in> A" "u = f x" "v = f y" "(x, y) \<in> r\<^sup>+" by blast
    obtain y' z where yz: "(y', z) \<in> r" "v = f y'" "w = f z" using step.hyps(2) by auto
    then have "y' = y" using xy r inj by (auto dest: inj_onD)
    then show ?case using xy yz r by (auto intro: trancl_into_trancl)
  qed
  then show "acyclic (map_prod f f ` r)" using a inj unfolding acyclic_def by (metis inj_onD)
qed

lemma acyclic_id_order:
  assumes "graph_ok s"
  shows "acyclic (id_order s) \<longleftrightarrow> acyclic (lock_order s)"
  unfolding id_order_def
proof (rule acyclic_image)
  show "inj_on (id_at s) (set (ld_graph s))" using assms by (simp add: graph_ok_def)
  show "lock_order s \<subseteq> set (ld_graph s) \<times> set (ld_graph s)" using orders_nodes [OF assms] by auto
qed

lemma id_order_after:
  assumes ok: "graph_ok s" and owned: "lock_node ` set owned \<subseteq> set (ld_graph s)" and t: "ordered_after s owned i q t"
  shows "id_order t = id_order s \<union> (id_at s ` lock_node ` set owned) \<times> {i}"
proof -
  have id: "id_at t p = id_at s p" if "p \<in> set (ld_graph s)" for p using t that by (simp add: ordered_after_def graph_kept_def)
  have "map_prod (id_at t) (id_at t) ` lock_order s = id_order s"
    unfolding id_order_def by (rule image_cong) (use id orders_nodes [OF ok] in auto)
  moreover have "map_prod (id_at t) (id_at t) ` (lock_node ` set owned \<times> {q}) = (id_at s ` lock_node ` set owned) \<times> {i}"
    using t owned id by (auto simp: ordered_after_def image_iff map_prod_def) (metis image_subset_iff)+
  ultimately show ?thesis using t unfolding ordered_after_def id_order_def [of t] edges_to_def by (simp add: image_Un)
qed

text \<open>
  C36: a blocking acquisition is refused exactly when it could deadlock: while memory lasts, taking lock \<open>i\<close> with the locks
  \<open>owned\<close> held puts an edge from each of them to \<open>i\<close> into the order; if the order stays free of cycles the lock is
  entered last in the list of the thread, and otherwise the error is reported.
\<close>
theorem lockdep_detects_inversion:
  assumes "lockdep_ok s" and "fresh_allocs s" and "\<forall>j. ld_allocs s j \<noteq> None"
    and "lock_node ` set owned \<subseteq> set (ld_graph s)" and "0 \<notin> id_at s ` set (ld_graph s)" and "i \<noteq> 0"
  shows "let order = id_order s \<union> (id_at s ` lock_node ` set owned) \<times> {i} in
    if acyclic order
    then \<exists>q t. lockdep_lock_acquire tid st owned i s = (Ok (owned @ [\<lparr>lock_node = q, lock_stack = st\<rparr>]), t)
      \<and> lockdep_ok t \<and> q \<in> set (ld_graph t) \<and> id_at t q = i \<and> id_order t = order
    else fst (lockdep_lock_acquire tid st owned i s) = Fail TEE_ERROR_BAD_STATE"
proof -
  let ?order = "id_order s \<union> (id_at s ` lock_node ` set owned) \<times> {i}"
  have ok: "graph_ok s" using assms(1) by (simp add: lockdep_ok_def)
  from acquire_result [OF assms(1,2,4), of st i tid] assms(3)
  consider (taken) q t where "ordered_after s owned i q t" "lockdep_ok t"
      "lockdep_lock_acquire tid st owned i s = (Ok (owned @ [\<lparr>lock_node = q, lock_stack = st\<rparr>]), t)"
    | (refused) q t where "ordered_after s owned i q t" "\<not> acyclic (lock_order t)"
      "(\<forall>p \<in> set (ld_graph t). id_at t p \<noteq> 0) \<longrightarrow> fst (lockdep_lock_acquire tid st owned i s) = Fail TEE_ERROR_BAD_STATE"
    unfolding acquired_def by blast
  then show ?thesis
  proof cases
    case taken
    have order: "id_order t = ?order" by (rule id_order_after [OF ok assms(4) taken(1)])
    then have "acyclic ?order" using taken(2) acyclic_id_order [of t] by (simp add: lockdep_ok_def)
    then show ?thesis using taken order by (auto simp: ordered_after_def Let_def)
  next
    case refused
    have okt: "graph_ok t" using refused(1) by (simp add: ordered_after_def graph_kept_def)
    have order: "id_order t = ?order" by (rule id_order_after [OF ok assms(4) refused(1)])
    then have "\<not> acyclic ?order" using refused(2) acyclic_id_order [OF okt] by simp
    moreover have "id_at t ` set (ld_graph t) \<subseteq> insert i (id_at s ` set (ld_graph s))" using refused(1) by (simp add: ordered_after_def)
    then have "0 \<notin> id_at t ` set (ld_graph t)" using assms(5,6) by blast
    then have "\<forall>p \<in> set (ld_graph t). id_at t p \<noteq> 0" by (metis image_eqI)
    ultimately show ?thesis using refused(3) by (simp add: Let_def)
  qed
qed

theorem lockdep_detects_inversion_witness:
  "fst (lockdep_lock_acquire 7 None [\<lparr>lock_node = 2, lock_stack = None\<rparr>] 16 (two_locks [2] [])) = Fail TEE_ERROR_BAD_STATE
    \<and> (\<exists>q t. lockdep_lock_acquire 7 None [\<lparr>lock_node = 1, lock_stack = None\<rparr>] 32 (two_locks [2] [])
        = (Ok [\<lparr>lock_node = 1, lock_stack = None\<rparr>, \<lparr>lock_node = q, lock_stack = None\<rparr>], t) \<and> id_at t q = 32)"
proof -
  let ?s = "two_locks [2] []"
  have ids: "id_at ?s 1 = 16" "id_at ?s 2 = 32" by (simp_all add: id_at_def two_locks_def Let_def)
  have order: "lock_order ?s = {(1, 2)}" by (subst two_locks_ok(3)) auto
  have ok: "lockdep_ok ?s" unfolding lockdep_ok_def using two_locks_ok(1,2) [of "[2]" "[]"] two_locks_acyclic by simp
  have fresh: "fresh_allocs ?s" and memory: "\<forall>j. ld_allocs ?s j \<noteq> None" by (simp_all add: fresh_allocs_def two_locks_def Let_def)
  have links: "ld_graph ?s = [1, 2]" by (simp add: two_locks_def Let_def)
  have nonzero: "0 \<notin> id_at ?s ` set (ld_graph ?s)" unfolding links using ids by simp
  have id_order: "id_order ?s = {(16, 32)}" unfolding id_order_def order using ids by simp
  have cyclic: "\<not> acyclic ({(16, 32), (32, 16)} :: (64 word \<times> 64 word) set)"
  proof -
    have "(16, 16) \<in> ({(16, 32), (32, 16)} :: (64 word \<times> 64 word) set)\<^sup>+" by (rule trancl_into_trancl [of _ 32]) auto
    then show ?thesis by (auto simp: acyclic_def)
  qed
  have acyclic: "acyclic ({(16, 32)} :: (64 word \<times> 64 word) set)"
  proof -
    have "acyclic (id_order ?s)" using acyclic_id_order [OF two_locks_ok(1), of "[2]" "[]"] two_locks_acyclic by simp
    then show ?thesis unfolding id_order .
  qed
  let ?l = "\<lambda>p. [\<lparr>lock_node = p, lock_stack = None\<rparr>]"
  note inst = lockdep_detects_inversion [OF ok fresh memory _ nonzero, where tid = 7 and st = None, unfolded Let_def]
  have "id_order ?s \<union> id_at ?s ` lock_node ` set (?l 2) \<times> {16} = {(16, 32), (32, 16)}" unfolding id_order using ids by auto
  then have "\<not> acyclic (id_order ?s \<union> id_at ?s ` lock_node ` set (?l 2) \<times> {16})" using cyclic by (simp only:) simp
  then have "fst (lockdep_lock_acquire 7 None (?l 2) 16 ?s) = Fail TEE_ERROR_BAD_STATE"
    using inst [of "?l 2" 16] by (simp only: links if_False) simp
  moreover have "id_order ?s \<union> id_at ?s ` lock_node ` set (?l 1) \<times> {32} = {(16, 32)}" unfolding id_order using ids by auto
  then have "acyclic (id_order ?s \<union> id_at ?s ` lock_node ` set (?l 1) \<times> {32})" using acyclic by (simp only:)
  then have "\<exists>q t. lockdep_lock_acquire 7 None (?l 1) 32 ?s = (Ok (?l 1 @ ?l q), t) \<and> lockdep_ok t \<and> q \<in> set (ld_graph t)
      \<and> id_at t q = 32 \<and> id_order t = id_order ?s \<union> id_at ?s ` lock_node ` set (?l 1) \<times> {32}"
    using inst [of "?l 1" 32] by (simp only: links if_True) simp
  ultimately show ?thesis by auto
qed

end
