(* ===== verification/LockdepThreads.thy ===== *)
theory LockdepThreads
  imports LockdepAcquire
begin

text \<open>
  The lock checker as mutexes use it (\<open>core/kernel/mutex_lockdep.c\<close>), with the threads of a system around it: threads whose
  acquisitions it lets through never wait for each other in a circle.
\<close>

section \<open>The checks of mutexes\<close>

text \<open>
  The global graph and the locks of each thread in the order of their acquisition. The checks run under \<open>graph_lock\<close>, so each
  is one step. An error of the checker is a panic. \<open>owned_at\<close> gives the address of the list of a thread.
\<close>

record mutex_lockdep =
  md_graph :: lockdep
  md_owned :: "nat \<Rightarrow> lockdep_lock list"

definition mutex_lockdep_init :: "lockdep \<Rightarrow> mutex_lockdep" where
  "mutex_lockdep_init g = \<lparr>md_graph = g, md_owned = \<lambda>_. []\<rparr>"

definition on_owned :: "nat \<Rightarrow> (lockdep_lock list \<Rightarrow> lockdep_lock list ld) \<Rightarrow> (mutex_lockdep, unit) sm" where
  "on_owned t f = (\<lambda>s. case f (md_owned s t) (md_graph s) of
     (Ok ls, g) \<Rightarrow> (Ok (), s\<lparr>md_graph := g, md_owned := (md_owned s)(t := ls)\<rparr>)
   | (Fail _, g) \<Rightarrow> (Stuck, s\<lparr>md_graph := g\<rparr>) | (Stuck, g) \<Rightarrow> (Stuck, s\<lparr>md_graph := g\<rparr>))"

definition mutex_lock_check :: "(nat \<Rightarrow> 64 word) \<Rightarrow> nat \<Rightarrow> call_stack \<Rightarrow> 64 word \<Rightarrow> (mutex_lockdep, unit) sm" where
  "mutex_lock_check owned_at t stack m = on_owned t (\<lambda>ls. lockdep_lock_acquire (owned_at t) stack ls m)"

definition mutex_trylock_check :: "nat \<Rightarrow> call_stack \<Rightarrow> 64 word \<Rightarrow> (mutex_lockdep, unit) sm" where
  "mutex_trylock_check t stack m = on_owned t (\<lambda>ls. lockdep_lock_tryacquire stack ls m)"

definition mutex_unlock_check :: "nat \<Rightarrow> 64 word \<Rightarrow> (mutex_lockdep, unit) sm" where
  "mutex_unlock_check t m = on_owned t (\<lambda>ls. lockdep_lock_release ls m)"

definition mutex_destroy_check :: "64 word \<Rightarrow> (mutex_lockdep, unit) sm" where
  "mutex_destroy_check m = (\<lambda>s. case lockdep_lock_destroy m (md_graph s) of (r, g) \<Rightarrow> (r, s\<lparr>md_graph := g\<rparr>))"

section \<open>Threads\<close>

text \<open>
  \<open>lt_waits t\<close>: thread \<open>t\<close> is in \<open>mutex_lock\<close> after the check, which has put the mutex last in its list, and does not have
  the mutex yet. Whether a mutex is free does not matter here: a waiting thread may get it at any time. Memory of the checker
  comes from any allocator that does not give addresses in use.
\<close>

record lock_threads =
  lt_check :: mutex_lockdep
  lt_waits :: "nat \<Rightarrow> bool"

definition owned_ids :: "mutex_lockdep \<Rightarrow> nat \<Rightarrow> 64 word list" where
  "owned_ids c t = map (id_at (md_graph c) \<circ> lock_node) (md_owned c t)"

definition with_memory :: "(nat \<Rightarrow> nat option) \<Rightarrow> mutex_lockdep \<Rightarrow> mutex_lockdep" where
  "with_memory al c = c\<lparr>md_graph := (md_graph c)\<lparr>ld_allocs := al\<rparr>\<rparr>"

inductive lockdep_step :: "(nat \<Rightarrow> 64 word) \<Rightarrow> lock_threads \<Rightarrow> lock_threads \<Rightarrow> bool" for owned_at where
  step_lock: "\<not> lt_waits s t \<Longrightarrow> fresh_allocs (md_graph (with_memory al (lt_check s))) \<Longrightarrow>
    mutex_lock_check owned_at t stack m (with_memory al (lt_check s)) = (Ok (), c) \<Longrightarrow>
    lockdep_step owned_at s \<lparr>lt_check = c, lt_waits = (lt_waits s)(t := True)\<rparr>"
| step_locked: "lt_waits s t \<Longrightarrow> lockdep_step owned_at s \<lparr>lt_check = lt_check s, lt_waits = (lt_waits s)(t := False)\<rparr>"
| step_trylock: "\<not> lt_waits s t \<Longrightarrow> fresh_allocs (md_graph (with_memory al (lt_check s))) \<Longrightarrow>
    mutex_trylock_check t stack m (with_memory al (lt_check s)) = (Ok (), c) \<Longrightarrow>
    lockdep_step owned_at s \<lparr>lt_check = c, lt_waits = lt_waits s\<rparr>"
| step_unlock: "\<not> lt_waits s t \<Longrightarrow> mutex_unlock_check t m (lt_check s) = (Ok (), c) \<Longrightarrow>
    lockdep_step owned_at s \<lparr>lt_check = c, lt_waits = lt_waits s\<rparr>"
| step_destroy: "(\<And>t. m \<notin> set (owned_ids (lt_check s) t)) \<Longrightarrow> mutex_destroy_check m (lt_check s) = (Ok (), c) \<Longrightarrow>
    lockdep_step owned_at s \<lparr>lt_check = c, lt_waits = lt_waits s\<rparr>"

definition no_locks :: lockdep where
  "no_locks = \<lparr>ld_graph = [], ld_node = \<lambda>_. None, ld_allocs = \<lambda>_. None\<rparr>"

definition lockdep_start :: lock_threads where
  "lockdep_start = \<lparr>lt_check = mutex_lockdep_init no_locks, lt_waits = \<lambda>_. False\<rparr>"

text \<open>Thread \<open>t\<close> waits for a mutex that \<open>u\<close> has.\<close>

definition held_ids :: "lock_threads \<Rightarrow> nat \<Rightarrow> 64 word list" where
  "held_ids s u = (let ids = owned_ids (lt_check s) u in if lt_waits s u then butlast ids else ids)"

definition waits_for :: "lock_threads \<Rightarrow> (nat \<times> nat) set" where
  "waits_for s = {(t, u). lt_waits s t \<and> last (owned_ids (lt_check s) t) \<in> set (held_ids s u)}"

section \<open>The invariant\<close>

definition order_kept :: "lockdep \<Rightarrow> lockdep_lock list \<Rightarrow> bool" where
  "order_kept g ls \<longleftrightarrow> ls \<noteq> [] \<and> (\<forall>l \<in> set (butlast ls). (lock_node l, lock_node (last ls)) \<in> lock_order g)"

definition threads_ok :: "lock_threads \<Rightarrow> bool" where
  "threads_ok s \<longleftrightarrow> lockdep_ok (md_graph (lt_check s))
     \<and> (\<forall>t. lock_node ` set (md_owned (lt_check s) t) \<subseteq> set (ld_graph (md_graph (lt_check s))))
     \<and> (\<forall>t. lt_waits s t \<longrightarrow> order_kept (md_graph (lt_check s)) (md_owned (lt_check s) t))"

lemma ok_with_memory: "lockdep_ok (g\<lparr>ld_allocs := al\<rparr>) = lockdep_ok g"
proof -
  have id: "id_at (g\<lparr>ld_allocs := al\<rparr>) = id_at g" by (simp add: id_at_def fun_eq_iff)
  have "graph_ok (g\<lparr>ld_allocs := al\<rparr>) = graph_ok g" unfolding graph_ok_def id by simp
  moreover have "unmarked (g\<lparr>ld_allocs := al\<rparr>) = unmarked g" by (simp add: unmarked_def flags_of_def)
  ultimately show ?thesis by (simp add: lockdep_ok_def)
qed

text \<open>One thread's list changes, the graph grows.\<close>

lemma threads_ok_update:
  assumes ok: "threads_ok s" and c: "md_graph c = g" "md_owned c = (md_owned (lt_check s))(t := ls)"
    and g: "lockdep_ok g" "set (ld_graph (md_graph (lt_check s))) \<subseteq> set (ld_graph g)"
    and order: "lock_order (md_graph (lt_check s)) \<subseteq> lock_order g" and ls: "lock_node ` set ls \<subseteq> set (ld_graph g)"
    and t: "b \<Longrightarrow> order_kept g ls"
  shows "threads_ok \<lparr>lt_check = c, lt_waits = (lt_waits s)(t := b)\<rparr>"
proof -
  have "lock_node ` set (md_owned c u) \<subseteq> set (ld_graph g)" for u
  proof (cases "u = t")
    case False
    moreover have "lock_node ` set (md_owned (lt_check s) u) \<subseteq> set (ld_graph (md_graph (lt_check s)))" using ok by (simp add: threads_ok_def)
    ultimately show ?thesis using g(2) unfolding c by auto
  qed (use ls c in simp)
  moreover have "order_kept g (md_owned c u)" if "((lt_waits s)(t := b)) u" for u
  proof (cases "u = t")
    case False
    then have "order_kept (md_graph (lt_check s)) (md_owned (lt_check s) u)" using ok that by (simp add: threads_ok_def)
    then show ?thesis using False order unfolding order_kept_def c by auto
  qed (use t c that in simp)
  ultimately show ?thesis using c(1) g(1) unfolding threads_ok_def by simp
qed

lemma lock_keeps:
  assumes ok: "threads_ok s" and fresh: "fresh_allocs (md_graph (with_memory al (lt_check s)))"
    and run: "mutex_lock_check owned_at t stack m (with_memory al (lt_check s)) = (Ok (), c)"
  shows "threads_ok \<lparr>lt_check = c, lt_waits = (lt_waits s)(t := True)\<rparr>"
proof -
  let ?g = "(md_graph (lt_check s))\<lparr>ld_allocs := al\<rparr>" and ?ls = "md_owned (lt_check s) t"
  have g: "md_graph (with_memory al (lt_check s)) = ?g" "md_owned (with_memory al (lt_check s)) = md_owned (lt_check s)"
    by (simp_all add: with_memory_def)
  obtain ls h where acq: "lockdep_lock_acquire (owned_at t) stack ?ls m ?g = (Ok ls, h)"
    and c: "c = (with_memory al (lt_check s))\<lparr>md_graph := h, md_owned := (md_owned (lt_check s))(t := ls)\<rparr>"
    using run by (auto simp: mutex_lock_check_def on_owned_def g split: io.splits prod.splits)
  have ok_g: "lockdep_ok ?g" "lock_node ` set ?ls \<subseteq> set (ld_graph ?g)" using ok by (simp_all add: threads_ok_def ok_with_memory)
  obtain q where q: "ordered_after ?g ?ls m q h" "lockdep_ok h" "ls = ?ls @ [\<lparr>lock_node = q, lock_stack = stack\<rparr>]"
    using acquire_result [OF ok_g(1) fresh [unfolded g] ok_g(2), of stack m "owned_at t"] unfolding acq acquired_def by auto
  show ?thesis
  proof (rule threads_ok_update [OF ok _ _ q(2)])
    show "md_graph c = h" "md_owned c = (md_owned (lt_check s))(t := ls)" by (simp_all add: c)
    show "order_kept h ls" using q(1,3) by (auto simp: order_kept_def ordered_after_def edges_to_def)
    show "lock_node ` set ls \<subseteq> set (ld_graph h)" using q(1,3) ok_g(2) by (auto simp: ordered_after_def graph_kept_def)
  qed (use q(1) in \<open>auto simp: ordered_after_def graph_kept_def\<close>)
qed

lemma trylock_keeps:
  assumes ok: "threads_ok s" and t: "\<not> lt_waits s t" and fresh: "fresh_allocs (md_graph (with_memory al (lt_check s)))"
    and run: "mutex_trylock_check t stack m (with_memory al (lt_check s)) = (Ok (), c)"
  shows "threads_ok \<lparr>lt_check = c, lt_waits = lt_waits s\<rparr>"
proof -
  let ?g = "(md_graph (lt_check s))\<lparr>ld_allocs := al\<rparr>" and ?ls = "md_owned (lt_check s) t"
  have g: "md_graph (with_memory al (lt_check s)) = ?g" "md_owned (with_memory al (lt_check s)) = md_owned (lt_check s)"
    by (simp_all add: with_memory_def)
  obtain ls h where acq: "lockdep_lock_tryacquire stack ?ls m ?g = (Ok ls, h)"
    and c: "c = (with_memory al (lt_check s))\<lparr>md_graph := h, md_owned := (md_owned (lt_check s))(t := ls)\<rparr>"
    using run by (auto simp: mutex_trylock_check_def on_owned_def g split: io.splits prod.splits)
  have ok_g: "lockdep_ok ?g" "lock_node ` set ?ls \<subseteq> set (ld_graph ?g)" using ok by (simp_all add: threads_ok_def ok_with_memory)
  then have "graph_ok ?g" "unmarked ?g" by (simp_all add: lockdep_ok_def)
  from tryacquire_result [OF this fresh [unfolded g] acq]
  obtain q where q: "ls = ?ls @ [\<lparr>lock_node = q, lock_stack = stack\<rparr>]" "q \<in> set (ld_graph h)" "graph_kept ?g h" "lock_order h = lock_order ?g"
    by blast
  have "lockdep_ok h" using ok_g(1) q(3,4) by (simp add: lockdep_ok_def graph_kept_def)
  then have "threads_ok \<lparr>lt_check = c, lt_waits = (lt_waits s)(t := False)\<rparr>"
    by (rule threads_ok_update [OF ok, where ls = ls, rotated 2]) (use q ok_g(2) in \<open>auto simp: graph_kept_def c\<close>)
  moreover have "(lt_waits s)(t := False) = lt_waits s" using t by (simp add: fun_eq_iff)
  ultimately show ?thesis by simp
qed

lemma unlock_keeps:
  assumes ok: "threads_ok s" and t: "\<not> lt_waits s t" and run: "mutex_unlock_check t m (lt_check s) = (Ok (), c)"
  shows "threads_ok \<lparr>lt_check = c, lt_waits = lt_waits s\<rparr>"
proof -
  let ?g = "md_graph (lt_check s)" and ?ls = "md_owned (lt_check s) t"
  obtain ls h where rel: "lockdep_lock_release ?ls m ?g = (Ok ls, h)"
    and c: "c = (lt_check s)\<lparr>md_graph := h, md_owned := (md_owned (lt_check s))(t := ls)\<rparr>"
    using run by (auto simp: mutex_unlock_check_def on_owned_def split: io.splits prod.splits)
  have ok_g: "lockdep_ok ?g" "lock_node ` set ?ls \<subseteq> set (ld_graph ?g)" using ok by (simp_all add: threads_ok_def)
  then have h: "h = ?g" "set ls \<subseteq> set ?ls" using release_result [of ?g ?ls m] rel by (auto simp: lockdep_ok_def)
  have "md_graph c = h" "md_owned c = (md_owned (lt_check s))(t := ls)" by (simp_all add: c)
  then have "threads_ok \<lparr>lt_check = c, lt_waits = (lt_waits s)(t := False)\<rparr>"
    by (rule threads_ok_update [OF ok]) (use h ok_g in auto)
  moreover have "(lt_waits s)(t := False) = lt_waits s" using t by (simp add: fun_eq_iff)
  ultimately show ?thesis by simp
qed

lemma destroy_keeps:
  assumes ok: "threads_ok s" and unused: "\<And>t. m \<notin> set (owned_ids (lt_check s) t)" and run: "mutex_destroy_check m (lt_check s) = (Ok (), c)"
  shows "threads_ok \<lparr>lt_check = c, lt_waits = lt_waits s\<rparr>"
proof -
  let ?g = "md_graph (lt_check s)"
  have ok_g: "graph_ok ?g" "unmarked ?g" "acyclic (lock_order ?g)" using ok by (simp_all add: threads_ok_def lockdep_ok_def)
  obtain h where h: "lockdep_lock_destroy m ?g = (Ok (), h)" "graph_ok h" "unmarked h"
    "set (ld_graph h) = {p \<in> set (ld_graph ?g). id_at ?g p \<noteq> m}"
    "lock_order h = {(a, b) \<in> lock_order ?g. id_at ?g a \<noteq> m \<and> id_at ?g b \<noteq> m}"
    using destroy_result [OF ok_g(1,2), of m] by blast
  have c: "c = (lt_check s)\<lparr>md_graph := h\<rparr>" using run h(1) by (simp add: mutex_destroy_check_def)
  have "acyclic (lock_order h)" by (rule acyclic_subset [OF ok_g(3)]) (use h(5) in auto)
  then have "lockdep_ok h" using h by (simp add: lockdep_ok_def)
  moreover have other: "id_at ?g (lock_node l) \<noteq> m" if "l \<in> set (md_owned (lt_check s) t)" for l t
    using unused [of t] that by (auto simp: owned_ids_def)
  moreover have "lock_node ` set (md_owned (lt_check s) t) \<subseteq> set (ld_graph h)" for t
  proof -
    have "lock_node ` set (md_owned (lt_check s) t) \<subseteq> set (ld_graph ?g)" using ok by (simp add: threads_ok_def)
    then show ?thesis unfolding h(4) using other by auto
  qed
  moreover have "order_kept h (md_owned (lt_check s) t)" if "lt_waits s t" for t
  proof -
    let ?ls = "md_owned (lt_check s) t"
    have kept: "order_kept ?g ?ls" using ok that by (simp add: threads_ok_def)
    then have "last ?ls \<in> set ?ls" by (simp add: order_kept_def)
    then show ?thesis using kept other [of _ t] unfolding order_kept_def h(5) by (auto dest: in_set_butlastD)
  qed
  ultimately show ?thesis unfolding c threads_ok_def by simp
qed

lemma step_keeps: "lockdep_step owned_at s s' \<Longrightarrow> threads_ok s \<Longrightarrow> threads_ok s'"
proof (induction rule: lockdep_step.induct)
  case (step_locked s t)
  then show ?case by (auto simp: threads_ok_def)
qed (auto intro: lock_keeps trylock_keeps unlock_keeps destroy_keeps)

lemma start_ok: "threads_ok lockdep_start"
  by (auto simp: threads_ok_def lockdep_start_def mutex_lockdep_init_def no_locks_def lockdep_ok_def graph_ok_def unmarked_def
      flags_of_def lock_order_def acyclic_def)

section \<open>No circular wait\<close>

lemma waits_follow_order:
  assumes ok: "threads_ok s" and "(t, u) \<in> waits_for s" and "lt_waits s u"
  shows "(lock_node (last (md_owned (lt_check s) t)), lock_node (last (md_owned (lt_check s) u))) \<in> lock_order (md_graph (lt_check s))"
proof -
  let ?g = "md_graph (lt_check s)" and ?ls = "md_owned (lt_check s)"
  have t: "lt_waits s t" using assms(2) by (simp add: waits_for_def)
  have kept: "order_kept ?g (?ls t)" "order_kept ?g (?ls u)" using ok t assms(3) by (simp_all add: threads_ok_def)
  have "last (owned_ids (lt_check s) t) = id_at ?g (lock_node (last (?ls t)))"
    using kept(1) by (simp add: owned_ids_def order_kept_def last_map)
  moreover have "held_ids s u = map (id_at ?g \<circ> lock_node) (butlast (?ls u))"
    using assms(3) by (simp add: held_ids_def owned_ids_def Let_def map_butlast)
  ultimately obtain l where l: "l \<in> set (butlast (?ls u))" "id_at ?g (lock_node (last (?ls t))) = id_at ?g (lock_node l)"
    using assms(2) by (auto simp: waits_for_def)
  have "lock_node (last (?ls t)) \<in> set (ld_graph ?g)" "lock_node l \<in> set (ld_graph ?g)"
    using ok kept(1) l(1) in_set_butlastD [OF l(1)] unfolding threads_ok_def order_kept_def by (meson image_subset_iff last_in_set)+
  then have "lock_node (last (?ls t)) = lock_node l" using l(2) id_at_eq ok by (auto simp: threads_ok_def lockdep_ok_def)
  then show ?thesis using kept(2) l(1) by (auto simp: order_kept_def)
qed

lemma no_circular_wait:
  assumes ok: "threads_ok s"
  shows "acyclic (waits_for s)"
proof -
  let ?g = "md_graph (lt_check s)" and ?l = "\<lambda>t. lock_node (last (md_owned (lt_check s) t))"
  have "(t, u) \<in> (waits_for s)\<^sup>+ \<Longrightarrow> lt_waits s u \<Longrightarrow> (?l t, ?l u) \<in> (lock_order ?g)\<^sup>+" for t u
  proof (induction rule: trancl_induct)
    case (base u)
    then show ?case using waits_follow_order [OF ok] by blast
  next
    case (step u v)
    have "lt_waits s u" using step.hyps(2) by (simp add: waits_for_def)
    then show ?case using step.IH waits_follow_order [OF ok step.hyps(2) step.prems] by (rule_tac trancl_into_trancl)
  qed
  moreover have "lt_waits s t" if "(t, t) \<in> (waits_for s)\<^sup>+" for t
    using that by (auto simp: waits_for_def dest!: tranclD)
  ultimately show ?thesis using ok unfolding acyclic_def threads_ok_def lockdep_ok_def by blast
qed

text \<open>
  C38: threads whose acquisitions the checker lets through do not deadlock: in every state that locking, trying, unlocking and
  destroying mutexes in any interleaving leads to, with no panic, no threads wait for each other in a circle, that is
  the relation "waits for a mutex that the other one holds" has no cycle.
\<close>
theorem lockdep_no_deadlock:
  assumes "(lockdep_step owned_at)\<^sup>*\<^sup>* lockdep_start s"
  shows "acyclic (waits_for s)"
proof -
  have "threads_ok s" using assms by (induction rule: rtranclp_induct) (auto intro: start_ok step_keeps)
  then show ?thesis by (rule no_circular_wait)
qed

text \<open>Thread \<open>0\<close> has mutex \<open>16\<close> and waits for mutex \<open>32\<close>, which thread \<open>1\<close> has.\<close>

lemma step_lock_run:
  assumes "\<not> lt_waits s t" and "fresh_allocs (md_graph (with_memory al (lt_check s)))"
    and "fst (mutex_lock_check owned_at t stack m (with_memory al (lt_check s))) = Ok ()"
  shows "lockdep_step owned_at s \<lparr>lt_check = snd (mutex_lock_check owned_at t stack m (with_memory al (lt_check s))),
    lt_waits = (lt_waits s)(t := True)\<rparr>"
  by (rule step_lock [OF assms(1,2)]) (use assms(3) in \<open>auto simp: prod_eq_iff\<close>)

definition locking :: "nat \<Rightarrow> nat \<Rightarrow> 64 word \<Rightarrow> lock_threads \<Rightarrow> lock_threads" where
  "locking a t m s = \<lparr>lt_check = snd (mutex_lock_check (\<lambda>_. 0) t None m (with_memory (\<lambda>n. Some (a + n)) (lt_check s))),
     lt_waits = (lt_waits s)(t := True)\<rparr>"

definition locked :: "nat \<Rightarrow> lock_threads \<Rightarrow> lock_threads" where
  "locked t s = \<lparr>lt_check = lt_check s, lt_waits = (lt_waits s)(t := False)\<rparr>"

definition one_lock :: lock_threads where "one_lock = locked 0 (locking 1 0 16 lockdep_start)"
definition two_lock :: lock_threads where "two_lock = locked 1 (locking 5 1 32 one_lock)"
definition waiting_threads :: lock_threads where "waiting_threads = locking 9 0 32 two_lock"

lemma locking_step:
  assumes "\<not> lt_waits s t" and "fst (mutex_lock_check (\<lambda>_. 0) t None m (with_memory (\<lambda>n. Some (a + n)) (lt_check s))) = Ok ()"
    and "\<forall>p \<in> set (ld_graph (md_graph (lt_check s))). p < a" and "threads_ok s"
  shows "lockdep_step (\<lambda>_. 0) s (locking a t m s)"
  unfolding locking_def
proof (rule step_lock_run [OF assms(1) _ assms(2)])
  have "ld_node (md_graph (lt_check s)) p = None" if "a \<le> p" for p
    using assms(3,4) that unfolding threads_ok_def lockdep_ok_def graph_ok_def by (metis not_less)
  then show "fresh_allocs (md_graph (with_memory (\<lambda>n. Some (a + n)) (lt_check s)))"
    by (auto simp: fresh_allocs_def with_memory_def)
qed

lemma reach_waiting: "(lockdep_step (\<lambda>_. 0))\<^sup>*\<^sup>* lockdep_start waiting_threads"
proof -
  have s1: "lockdep_step (\<lambda>_. 0) lockdep_start (locking 1 0 16 lockdep_start)"
    by (rule locking_step [OF _ _ _ start_ok]) (code_simp+)
  have w1: "lt_waits (locking 1 0 16 lockdep_start) 0" by (simp add: locking_def)
  have s2: "lockdep_step (\<lambda>_. 0) (locking 1 0 16 lockdep_start) one_lock"
    unfolding one_lock_def locked_def by (rule step_locked [OF w1])
  have ok: "threads_ok one_lock" using step_keeps [OF s2 step_keeps [OF s1 start_ok]] .
  have s3: "lockdep_step (\<lambda>_. 0) one_lock (locking 5 1 32 one_lock)"
    by (rule locking_step [OF _ _ _ ok]) (code_simp+)
  have w2: "lt_waits (locking 5 1 32 one_lock) 1" by (simp add: locking_def)
  have s4: "lockdep_step (\<lambda>_. 0) (locking 5 1 32 one_lock) two_lock"
    unfolding two_lock_def locked_def by (rule step_locked [OF w2])
  have ok2: "threads_ok two_lock" using step_keeps [OF s4 step_keeps [OF s3 ok]] .
  have s5: "lockdep_step (\<lambda>_. 0) two_lock waiting_threads"
    unfolding waiting_threads_def by (rule locking_step [OF _ _ _ ok2]) (code_simp+)
  show ?thesis using s1 s2 s3 s4 s5 by (meson converse_rtranclp_into_rtranclp rtranclp.rtrancl_refl)
qed

theorem lockdep_no_deadlock_witness:
  "(0, 1) \<in> waits_for waiting_threads \<and> acyclic (waits_for waiting_threads)"
proof -
  have "lt_waits waiting_threads 0 \<and> last (owned_ids (lt_check waiting_threads) 0) \<in> set (held_ids waiting_threads 1)"
    by code_simp
  then have "(0, 1) \<in> waits_for waiting_threads" by (simp add: waits_for_def)
  then show ?thesis using lockdep_no_deadlock [OF reach_waiting] by simp
qed

end
