(* ===== verification/ScmiMsg.thy ===== *)
theory ScmiMsg
  imports Prelude
begin

text \<open>
  The SCMI server of \<open>core/drivers/scmi-msg\<close>: message instances and responses
  (\<open>common.h\<close>, \<open>entry.c\<close>) and the platform callbacks of
  \<open>core/include/drivers/scmi-msg.h\<close>. A handler works on a message whose input lies in
  secure memory and whose output buffer is shared with the agent; \<open>size_t\<close> has 64 bits.
\<close>

named_theorems scmi_in \<open>handlers whose response stays in the output buffer\<close>

type_synonym byte = "8 word"
type_synonym int32 = "32 word"
type_synonym size_t = "64 word"

section \<open>Status codes and little-endian encoding\<close>

definition SCMI_SUCCESS :: int32 where "SCMI_SUCCESS = 0"
definition SCMI_NOT_SUPPORTED :: int32 where "SCMI_NOT_SUPPORTED = - 1"
definition SCMI_INVALID_PARAMETERS :: int32 where "SCMI_INVALID_PARAMETERS = - 2"
definition SCMI_NOT_FOUND :: int32 where "SCMI_NOT_FOUND = - 4"
definition SCMI_GENERIC_ERROR :: int32 where "SCMI_GENERIC_ERROR = - 8"
definition SCMI_PROTOCOL_ERROR :: int32 where "SCMI_PROTOCOL_ERROR = - 10"

lemmas scmi_status_defs = SCMI_SUCCESS_def SCMI_NOT_SUPPORTED_def SCMI_INVALID_PARAMETERS_def
  SCMI_NOT_FOUND_def SCMI_GENERIC_ERROR_def SCMI_PROTOCOL_ERROR_def

text \<open>A 32-bit field of a message, as the bytes of a little-endian core.\<close>

definition le32 :: "32 word \<Rightarrow> byte list" where
  "le32 w = [ucast w, ucast (drop_bit 8 w), ucast (drop_bit 16 w), ucast (drop_bit 24 w)]"

definition rd32 :: "(nat \<Rightarrow> byte) \<Rightarrow> nat \<Rightarrow> 32 word" where
  "rd32 buf off = ucast (buf off) OR push_bit 8 (ucast (buf (off + 1)))
     OR push_bit 16 (ucast (buf (off + 2))) OR push_bit 24 (ucast (buf (off + 3)))"

lemma length_le32 [simp]: "length (le32 w) = 4"
  by (simp add: le32_def)

text \<open>The bytes \<open>bs\<close> copied to offset \<open>off\<close> of a memory.\<close>

definition copy_bytes :: "(nat \<Rightarrow> byte) \<Rightarrow> nat \<Rightarrow> byte list \<Rightarrow> nat \<Rightarrow> byte" where
  "copy_bytes mem off bs = (\<lambda>k. if off \<le> k \<and> k < off + length bs then bs ! (k - off) else mem k)"

lemma copy_bytes_at:
  "copy_bytes mem off bs k = (if off \<le> k \<and> k < off + length bs then bs ! (k - off) else mem k)"
  by (simp add: copy_bytes_def)

lemma le32_nth:
  "le32 w ! 0 = ucast w" "le32 w ! Suc 0 = ucast (drop_bit 8 w)"
  "le32 w ! 2 = ucast (drop_bit 16 w)" "le32 w ! 3 = ucast (drop_bit 24 w)"
  by (simp_all add: le32_def numeral_2_eq_2 numeral_3_eq_3)

lemma copy_bytes_outside: "k < off \<or> off + length bs \<le> k \<Longrightarrow> copy_bytes mem off bs k = mem k"
  by (auto simp: copy_bytes_def)

lemma copy_bytes_inside: "i < length bs \<Longrightarrow> copy_bytes mem off bs (off + i) = bs ! i"
  by (simp add: copy_bytes_def)

lemma rd32_copy_le32 [simp]: "rd32 (copy_bytes mem off (le32 w)) off = w"
proof -
  have bytes: "copy_bytes mem off (le32 w) off = ucast w"
    "copy_bytes mem off (le32 w) (off + 1) = ucast (drop_bit 8 w)"
    "copy_bytes mem off (le32 w) (off + 2) = ucast (drop_bit 16 w)"
    "copy_bytes mem off (le32 w) (off + 3) = ucast (drop_bit 24 w)"
    by (simp_all add: copy_bytes_def le32_def numeral_3_eq_3)
  have "rd32 (copy_bytes mem off (le32 w)) off =
      ucast (ucast w :: byte) OR push_bit 8 (ucast (ucast (drop_bit 8 w) :: byte))
      OR push_bit 16 (ucast (ucast (drop_bit 16 w) :: byte))
      OR push_bit 24 (ucast (ucast (drop_bit 24 w) :: byte))"
    unfolding rd32_def bytes ..
  also have "\<dots> = w"
  proof (rule bit_word_eqI)
    fix n assume "n < LENGTH(32)"
    then have n: "n < 32" by simp
    consider "n < 8" | "8 \<le> n" "n < 16" | "16 \<le> n" "n < 24" | "24 \<le> n" "n < 32" using n by linarith
    then show "bit (ucast (ucast w :: byte) OR push_bit 8 (ucast (ucast (drop_bit 8 w) :: byte))
      OR push_bit 16 (ucast (ucast (drop_bit 16 w) :: byte))
      OR push_bit 24 (ucast (ucast (drop_bit 24 w) :: byte)) :: 32 word) n \<longleftrightarrow> bit w n"
      by cases (auto simp: bit_simps)
  qed
  finally show ?thesis .
qed

lemma copy_bytes_append:
  "copy_bytes mem off (xs @ ys) = copy_bytes (copy_bytes mem off xs) (off + length xs) ys"
  by (auto simp: copy_bytes_def nth_append fun_eq_iff)

lemma rd32_cong:
  assumes "\<And>k. off \<le> k \<Longrightarrow> k < off + 4 \<Longrightarrow> a k = b k"
  shows "rd32 a off = rd32 b off"
  using assms [of off] assms [of "off + 1"] assms [of "off + 2"] assms [of "off + 3"]
  by (simp add: rd32_def)

lemma rd32_copy_other [simp]:
  "off + 4 \<le> off' \<or> off' + length bs \<le> off \<Longrightarrow> rd32 (copy_bytes mem off' bs) off = rd32 mem off"
  by (rule rd32_cong) (auto simp: copy_bytes_def)

section \<open>Messages\<close>

text \<open>
  \<open>struct scmi_msg\<close>: \<open>msg_in\<close> is the secure buffer the payload was copied to, and \<open>msg_out\<close>
  the memory from \<open>msg->out\<close> upwards, with what lies behind the \<open>out_size\<close> bytes the agent
  may see.
\<close>

record scmi_msg =
  channel_id :: "32 word"
  protocol_id :: "32 word"
  message_id :: "32 word"
  msg_in :: "nat \<Rightarrow> byte"
  in_size :: size_t
  msg_out :: "nat \<Rightarrow> byte"
  out_size :: size_t
  out_size_out :: size_t

text \<open>\<open>None\<close>: the assertion that the status fits does not hold.\<close>

definition scmi_status_response :: "scmi_msg \<Rightarrow> int32 \<Rightarrow> scmi_msg option" where
  "scmi_status_response msg status =
     (if out_size msg \<ge> 4
      then Some (msg\<lparr>msg_out := copy_bytes (msg_out msg) 0 (le32 status), out_size_out := 4\<rparr>)
      else None)"

definition scmi_write_response :: "scmi_msg \<Rightarrow> byte list \<Rightarrow> scmi_msg option" where
  "scmi_write_response msg payload =
     (let size = word_of_nat (length payload) in
      if out_size msg < size then scmi_status_response msg SCMI_PROTOCOL_ERROR
      else Some (msg\<lparr>msg_out := copy_bytes (msg_out msg) 0 payload, out_size_out := size\<rparr>))"

text \<open>\<open>COPY_NAME_IDENTIFIER\<close>: the name must fit with its terminator; \<open>strncpy\<close> pads with zeros.\<close>

definition copy_name_identifier :: "byte list \<Rightarrow> byte list option" where
  "copy_name_identifier name =
     (if length name < 16 then Some (name @ replicate (16 - length name) 0) else None)"

definition confine_array_index :: "size_t \<Rightarrow> size_t \<Rightarrow> size_t" where
  "confine_array_index index array_size = (if index < array_size then index else 0)"

definition reg_pair_to_64 :: "32 word \<Rightarrow> 32 word \<Rightarrow> 64 word" where
  "reg_pair_to_64 reg0 reg1 = push_bit 32 (ucast reg0) OR ucast reg1"

definition reg_pair_from_64 :: "64 word \<Rightarrow> 32 word \<times> 32 word" where
  "reg_pair_from_64 val = (ucast (drop_bit 32 val), ucast val)"

lemma reg_pair_from_to: "reg_pair_from_64 (reg_pair_to_64 hi lo) = (hi, lo)"
proof -
  have "(ucast (drop_bit 32 (push_bit 32 (ucast hi) OR ucast lo :: 64 word)) :: 32 word) = hi"
    by (rule bit_word_eqI) (auto simp: bit_simps impossible_bit)
  moreover have "(ucast (push_bit 32 (ucast hi) OR ucast lo :: 64 word) :: 32 word) = lo"
    by (rule bit_word_eqI) (auto simp: bit_simps)
  ultimately show ?thesis by (simp add: reg_pair_from_64_def reg_pair_to_64_def)
qed

text \<open>Every protocol looks its handler up in a table in the same way.\<close>

lemma handler_lookup:
  fixes mid :: "32 word"
  assumes "n < 2 ^ 32"
  shows "(word_of_nat n :: size_t) \<le> ucast mid \<longleftrightarrow> n \<le> unat mid"
    and "unat mid < n \<Longrightarrow> unat (confine_array_index (ucast mid) (word_of_nat n)) = unat mid"
proof -
  have n: "unat (word_of_nat n :: size_t) = n" using assms by (intro unat_of_nat_exact) simp
  then show "(word_of_nat n :: size_t) \<le> ucast mid \<longleftrightarrow> n \<le> unat mid"
    by (simp add: word_le_nat_alt)
  show "unat mid < n \<Longrightarrow> unat (confine_array_index (ucast mid) (word_of_nat n)) = unat mid"
    using n by (simp add: confine_array_index_def word_less_nat_alt)
qed

text \<open>An identifier that passed the check against a count is used unchanged.\<close>

lemma confine_checked [simp]:
  fixes i :: "32 word" and n :: size_t
  assumes "\<not> n \<le> ucast i"
  shows "(ucast (confine_array_index (ucast i) n) :: 32 word) = i"
proof -
  have "ucast i < n" using assms by (simp add: not_le)
  moreover have "ucast (ucast i :: size_t) = i" by (simp add: ucast_up_ucast_id is_up)
  ultimately show ?thesis by (simp add: confine_array_index_def)
qed

section \<open>Platform callbacks\<close>

text \<open>
  The functions a platform supplies, on a platform state \<open>'p\<close> that only the calls that set
  something change. A call that returns a status and an output value returns both. Names
  come without their terminator, the protocol list with it.
\<close>

record 'p scmi_plat =
  plat_protocol_count :: size_t
  plat_protocol_list :: "32 word \<Rightarrow> byte list option"
  plat_vendor_name :: "byte list"
  plat_sub_vendor_name :: "byte list"
  plat_clock_count :: "32 word \<Rightarrow> size_t"
  plat_clock_get_name :: "32 word \<Rightarrow> 32 word \<Rightarrow> byte list option"
  plat_clock_rates_count :: "32 word \<Rightarrow> 32 word \<Rightarrow> 'p \<Rightarrow> int32 \<times> size_t"
  plat_clock_rates_array :: "32 word \<Rightarrow> 32 word \<Rightarrow> size_t \<Rightarrow> 'p \<Rightarrow> int32 \<times> 64 word list"
  plat_clock_rates_by_step :: "32 word \<Rightarrow> 32 word \<Rightarrow> 'p \<Rightarrow> int32 \<times> 64 word \<times> 64 word \<times> 64 word"
  plat_clock_get_rate :: "32 word \<Rightarrow> 32 word \<Rightarrow> 'p \<Rightarrow> 64 word"
  plat_clock_set_rate :: "32 word \<Rightarrow> 32 word \<Rightarrow> 64 word \<Rightarrow> 'p \<Rightarrow> int32 \<times> 'p"
  plat_clock_get_state :: "32 word \<Rightarrow> 32 word \<Rightarrow> 'p \<Rightarrow> int32"
  plat_clock_set_state :: "32 word \<Rightarrow> 32 word \<Rightarrow> bool \<Rightarrow> 'p \<Rightarrow> int32 \<times> 'p"
  plat_rd_count :: "32 word \<Rightarrow> size_t"
  plat_rd_get_name :: "32 word \<Rightarrow> 32 word \<Rightarrow> byte list option"
  plat_rd_autonomous :: "32 word \<Rightarrow> 32 word \<Rightarrow> 32 word \<Rightarrow> 'p \<Rightarrow> int32 \<times> 'p"
  plat_rd_set_state :: "32 word \<Rightarrow> 32 word \<Rightarrow> bool \<Rightarrow> 'p \<Rightarrow> int32 \<times> 'p"
  plat_voltd_count :: "32 word \<Rightarrow> size_t"
  plat_voltd_get_name :: "32 word \<Rightarrow> 32 word \<Rightarrow> byte list option"
  plat_voltd_levels_count :: "32 word \<Rightarrow> 32 word \<Rightarrow> 'p \<Rightarrow> int32 \<times> size_t"
  plat_voltd_levels_array :: "32 word \<Rightarrow> 32 word \<Rightarrow> size_t \<Rightarrow> 'p \<Rightarrow> int32 \<times> 64 word"
  plat_voltd_levels_by_step :: "32 word \<Rightarrow> 32 word \<Rightarrow> 'p \<Rightarrow> int32 \<times> 64 word \<times> 64 word \<times> 64 word"
  plat_voltd_get_level :: "32 word \<Rightarrow> 32 word \<Rightarrow> 'p \<Rightarrow> int32 \<times> 64 word"
  plat_voltd_set_level :: "32 word \<Rightarrow> 32 word \<Rightarrow> 64 word \<Rightarrow> 'p \<Rightarrow> int32 \<times> 'p"
  plat_voltd_get_config :: "32 word \<Rightarrow> 32 word \<Rightarrow> 'p \<Rightarrow> int32 \<times> 32 word"
  plat_voltd_set_config :: "32 word \<Rightarrow> 32 word \<Rightarrow> 32 word \<Rightarrow> 'p \<Rightarrow> int32 \<times> 'p"

text \<open>A handler answers a message and may change the platform; \<open>None\<close>: an assertion failed.\<close>

type_synonym 'p handler_result = "(scmi_msg \<times> 'p) option"
type_synonym 'p scmi_handler = "'p scmi_plat \<Rightarrow> scmi_msg \<Rightarrow> 'p \<Rightarrow> 'p handler_result"

definition reply :: "'p \<Rightarrow> scmi_msg option \<Rightarrow> 'p handler_result" where
  "reply p r = map_option (\<lambda>m. (m, p)) r"

section \<open>Responses that stay in the output buffer\<close>

text \<open>
  \<open>m'\<close> is \<open>m\<close> with a response: a status at least, no longer than the buffer, and nothing
  written behind the buffer.
\<close>

definition stays_in :: "scmi_msg \<Rightarrow> scmi_msg \<Rightarrow> bool" where
  "stays_in m m' \<longleftrightarrow>
     (\<forall>k. unat (out_size m) \<le> k \<longrightarrow> msg_out m' k = msg_out m k)
     \<and> 4 \<le> unat (out_size_out m') \<and> unat (out_size_out m') \<le> unat (out_size m)
     \<and> m' = m\<lparr>msg_out := msg_out m', out_size_out := out_size_out m'\<rparr>"

definition responds_in :: "scmi_msg \<Rightarrow> 'p handler_result \<Rightarrow> bool" where
  "responds_in m r \<longleftrightarrow> (\<exists>m' p'. r = Some (m', p') \<and> stays_in m m')"

text \<open>The status the agent finds in the response.\<close>

definition response_status :: "scmi_msg \<Rightarrow> int32" where
  "response_status m = rd32 (msg_out m) 0"

text \<open>
  Output buffers with room for the eight bytes every successful response starts with, whole
  words long, and below 4 GiB.
\<close>

definition out_ok :: "scmi_msg \<Rightarrow> bool" where
  "out_ok m \<longleftrightarrow> 8 \<le> unat (out_size m) \<and> unat (out_size m) < 2 ^ 32 \<and> 4 dvd unat (out_size m)"

lemma le_64_nat: "(4 :: size_t) \<le> w \<longleftrightarrow> 4 \<le> unat w"
  by (simp add: word_le_nat_alt)

lemma stays_in_copy:
  assumes "length bs \<le> unat (out_size m)" and "4 \<le> unat n" and "unat n \<le> unat (out_size m)"
  shows "stays_in m (m\<lparr>msg_out := copy_bytes (msg_out m) 0 bs, out_size_out := n\<rparr>)"
  using assms by (simp add: stays_in_def copy_bytes_outside)

lemma status_responds_in:
  "4 \<le> unat (out_size m) \<Longrightarrow> responds_in m (reply p (scmi_status_response m st))"
  unfolding responds_in_def reply_def scmi_status_response_def
  by (simp add: le_64_nat stays_in_copy)

lemma write_responds_in:
  assumes "4 \<le> unat (out_size m)" and "4 \<le> length bs" and "length bs < 1000"
  shows "responds_in m (reply p (scmi_write_response m bs))"
proof -
  have len: "unat (word_of_nat (length bs) :: size_t) = length bs"
    using assms(3) by (intro unat_of_nat_exact) simp
  show ?thesis
  proof (cases "out_size m < word_of_nat (length bs)")
    case True
    then show ?thesis
      using status_responds_in [OF assms(1)] by (simp add: scmi_write_response_def Let_def)
  next
    case False
    then have "length bs \<le> unat (out_size m)" using len by (simp add: word_less_nat_alt)
    then show ?thesis
      using False assms(2) len
      by (simp add: responds_in_def reply_def scmi_write_response_def Let_def stays_in_copy)
  qed
qed

lemma padded_length: "length name < 16 \<Longrightarrow> length name + (16 - length name) = 16"
  by simp

lemma reply_state: "reply p r = Some (m', p') \<Longrightarrow> p' = p"
  by (auto simp: reply_def)

lemma length_copy_name: "copy_name_identifier name = Some bs \<Longrightarrow> length bs = 16"
  by (auto simp: copy_name_identifier_def split: if_splits)

end
