(* ===== verification/ScmiBase.thy ===== *)
theory ScmiBase
  imports ScmiMsg
begin

text \<open>
  The SCMI base protocol (\<open>core/drivers/scmi-msg/base.c\<close>). Functions that several protocol
  files define under the same name carry the protocol as a prefix.
\<close>

definition base_report_version :: "'p scmi_handler" where
  "base_report_version pl msg p =
     (if in_size msg \<noteq> 0 then reply p (scmi_status_response msg SCMI_PROTOCOL_ERROR)
      else reply p (scmi_write_response msg (le32 SCMI_SUCCESS @ le32 0x20000)))"

definition SCMI_BASE_PROTOCOL_ATTRIBUTES :: "32 word \<Rightarrow> 32 word \<Rightarrow> 32 word" where
  "SCMI_BASE_PROTOCOL_ATTRIBUTES num_protocols num_agents =
     (push_bit 0 num_protocols AND 0xFF) OR (push_bit 8 num_agents AND 0xFF00)"

definition base_report_attributes :: "'p scmi_handler" where
  "base_report_attributes pl msg p =
     (let attributes = SCMI_BASE_PROTOCOL_ATTRIBUTES (ucast (plat_protocol_count pl)) 0 in
      if in_size msg \<noteq> 0 then reply p (scmi_status_response msg SCMI_PROTOCOL_ERROR)
      else reply p (scmi_write_response msg (le32 SCMI_SUCCESS @ le32 attributes)))"

text \<open>The table of handlers has the message identifiers 0 to 6.\<close>

definition base_table_size :: nat where
  "base_table_size = 7"

definition base_message_id_is_supported :: "32 word \<Rightarrow> bool" where
  "base_message_id_is_supported mid = (unat mid < base_table_size)"

definition base_report_message_attributes :: "'p scmi_handler" where
  "base_report_message_attributes pl msg p =
     (if in_size msg \<noteq> 4 then reply p (scmi_status_response msg SCMI_PROTOCOL_ERROR)
      else if \<not> base_message_id_is_supported (rd32 (msg_in msg) 0)
      then reply p (scmi_status_response msg SCMI_NOT_FOUND)
      else reply p (scmi_write_response msg (le32 SCMI_SUCCESS @ le32 0)))"

definition discover_vendor :: "'p scmi_handler" where
  "discover_vendor pl msg p =
     (if in_size msg \<noteq> 0 then reply p (scmi_status_response msg SCMI_PROTOCOL_ERROR)
      else case copy_name_identifier (plat_vendor_name pl) of
          None \<Rightarrow> None
        | Some name \<Rightarrow> reply p (scmi_write_response msg (le32 SCMI_SUCCESS @ name)))"

definition discover_sub_vendor :: "'p scmi_handler" where
  "discover_sub_vendor pl msg p =
     (if in_size msg \<noteq> 0 then reply p (scmi_status_response msg SCMI_PROTOCOL_ERROR)
      else case copy_name_identifier (plat_sub_vendor_name pl) of
          None \<Rightarrow> None
        | Some name \<Rightarrow> reply p (scmi_write_response msg (le32 SCMI_SUCCESS @ name)))"

definition discover_implementation_version :: "'p scmi_handler" where
  "discover_implementation_version pl msg p =
     (if in_size msg \<noteq> 0 then reply p (scmi_status_response msg SCMI_PROTOCOL_ERROR)
      else reply p (scmi_write_response msg (le32 SCMI_SUCCESS @ le32 0)))"

fun count_until_zero :: "byte list \<Rightarrow> nat" where
  "count_until_zero [] = 0"
| "count_until_zero (b # bs) = (if b = 0 then 0 else Suc (count_until_zero bs))"

definition count_protocols_in_list :: "byte list option \<Rightarrow> 32 word" where
  "count_protocols_in_list protocol_list =
     (case protocol_list of None \<Rightarrow> 0 | Some bs \<Rightarrow> word_of_nat (count_until_zero bs))"

text \<open>
  The subtraction in \<open>MIN(count - a2p->skip, msg->out_size - sizeof(p2a))\<close> is on \<open>size_t\<close>
  and wraps when the buffer is smaller than the eight bytes of \<open>p2a\<close>.
\<close>

definition discover_list_protocols :: "'p scmi_handler" where
  "discover_list_protocols pl msg p =
     (if in_size msg \<noteq> 4 then reply p (scmi_status_response msg SCMI_PROTOCOL_ERROR)
      else
        let skip = rd32 (msg_in msg) 0;
            list = plat_protocol_list pl (channel_id msg);
            total = count_protocols_in_list list;
            count = (if total > skip then min (ucast (total - skip)) (out_size msg - 8) else 0);
            bytes = (case list of None \<Rightarrow> [] | Some bs \<Rightarrow> take (unat count) (drop (unat skip) bs));
            out1 = copy_bytes (msg_out msg) 0 (le32 SCMI_SUCCESS @ le32 (ucast count));
            out2 = copy_bytes out1 8 bytes
        in Some (msg\<lparr>msg_out := out2,
                 out_size_out := 8 + ((count + (4 - 1)) div 4) * 4\<rparr>, p))"

definition scmi_base_handler_table :: "'p scmi_handler list" where
  "scmi_base_handler_table =
     [base_report_version, base_report_attributes, base_report_message_attributes,
      discover_vendor, discover_sub_vendor, discover_implementation_version,
      discover_list_protocols]"

definition scmi_msg_get_base_handler :: "scmi_msg \<Rightarrow> 'p scmi_handler option" where
  "scmi_msg_get_base_handler msg =
     (let array_size = word_of_nat (length (scmi_base_handler_table :: 'p scmi_handler list)) in
      if ucast (message_id msg) \<ge> array_size then None
      else Some (scmi_base_handler_table !
                   unat (confine_array_index (ucast (message_id msg)) array_size)))"

lemma length_base_table [simp]: "length scmi_base_handler_table = base_table_size"
  by (simp add: scmi_base_handler_table_def base_table_size_def)

lemma base_table_small: "base_table_size < 2 ^ 32"
  by (simp add: base_table_size_def)

lemma scmi_msg_get_base_handler_eq:
  "scmi_msg_get_base_handler msg =
     (if unat (message_id msg) < base_table_size
      then Some (scmi_base_handler_table ! unat (message_id msg)) else None)"
  using handler_lookup [OF base_table_small]
  by (simp add: scmi_msg_get_base_handler_def Let_def not_less)

section \<open>Responses\<close>

lemma count_until_zero_le: "count_until_zero bs \<le> length bs"
  by (induction bs) auto

text \<open>
  What a platform promises for the base protocol: names of at most 15 characters, and a
  protocol list with its terminator.
\<close>

definition base_plat_ok :: "'p scmi_plat \<Rightarrow> bool" where
  "base_plat_ok pl \<longleftrightarrow> length (plat_vendor_name pl) < 16 \<and> length (plat_sub_vendor_name pl) < 16
     \<and> (\<forall>c bs. plat_protocol_list pl c = Some bs \<longrightarrow> 0 \<in> set bs \<and> length bs < 256)"

lemma discover_list_protocols_in [scmi_in]:
  assumes "base_plat_ok pl" and big: "8 \<le> unat (out_size msg)" and al: "4 dvd unat (out_size msg)"
  shows "responds_in msg (discover_list_protocols pl msg p)"
proof (cases "in_size msg = 4")
  case False
  then show ?thesis
    using big by (simp add: discover_list_protocols_def status_responds_in)
next
  case True
  define skip where "skip = rd32 (msg_in msg) 0"
  define total where "total = count_protocols_in_list (plat_protocol_list pl (channel_id msg))"
  define count where
    "count = (if total > skip then min (ucast (total - skip)) (out_size msg - 8) else 0)"
  have room: "unat (out_size msg - 8) = unat (out_size msg) - 8"
    using big by (subst unat_sub_exact) auto
  have "unat count \<le> unat (out_size msg - 8)"
    unfolding count_def by (auto simp: word_le_nat_alt min_def)
  then have fits: "unat count + 8 \<le> unat (out_size msg)" using room big by linarith
  have "unat total \<le> 256"
  proof (cases "plat_protocol_list pl (channel_id msg)")
    case (Some bs)
    then have "count_until_zero bs \<le> 256"
      using assms(1) count_until_zero_le [of bs] by (fastforce simp: base_plat_ok_def)
    then show ?thesis using Some by (simp add: total_def count_protocols_in_list_def unat_of_nat_exact)
  qed (simp add: total_def count_protocols_in_list_def)
  moreover have "unat count \<le> unat total"
  proof (cases "skip < total")
    case less: True
    then have "unat (total - skip) = unat total - unat skip"
      by (subst unat_sub_exact) (auto simp: word_less_nat_alt)
    moreover have "unat count \<le> unat (ucast (total - skip) :: size_t)"
      using less by (auto simp: count_def word_le_nat_alt min_def)
    ultimately show ?thesis by simp
  qed (simp add: count_def)
  ultimately have small: "unat count \<le> 256" by linarith
  have up: "unat (count + (4 - 1)) = unat count + 3"
    using small by (subst unat_add_exact) auto
  have "unat ((count + (4 - 1)) div 4) = (unat count + 3) div 4"
    unfolding unat_div up by simp
  then have mul: "unat ((count + (4 - 1)) div 4 * 4) = (unat count + 3) div 4 * 4"
    using small by (subst unat_mult_lem [THEN iffD1]) auto
  then have n: "unat (8 + (count + (4 - 1)) div 4 * 4) = 8 + (unat count + 3) div 4 * 4"
    using small by (subst unat_add_exact) auto
  obtain q where q: "unat (out_size msg) = 4 * q" using al by (auto elim: dvdE)
  then have "unat count + 3 \<le> 4 * (q - 2) + 3" using fits by linarith
  then have "(unat count + 3) div 4 \<le> q - 2" by linarith
  then have upper: "8 + (unat count + 3) div 4 * 4 \<le> unat (out_size msg)"
    using q big by linarith
  let ?bytes = "case plat_protocol_list pl (channel_id msg) of None \<Rightarrow> []
    | Some bs \<Rightarrow> take (unat count) (drop (unat skip) bs)"
  have "length ?bytes \<le> unat count" by (auto split: option.splits)
  then have "copy_bytes (copy_bytes (msg_out msg) 0 (le32 SCMI_SUCCESS @ le32 (ucast count))) 8 ?bytes k
      = msg_out msg k" if "unat (out_size msg) \<le> k" for k
    using that fits by (simp add: copy_bytes_outside)
  then show ?thesis
    using True n upper
    unfolding discover_list_protocols_def Let_def skip_def [symmetric] total_def [symmetric]
      count_def [symmetric]
    by (simp add: responds_in_def stays_in_def)
qed

lemma base_simple_in [scmi_in]:
  assumes "4 \<le> unat (out_size msg)"
  shows "responds_in msg (base_report_version pl msg p)"
    and "responds_in msg (base_report_attributes pl msg p)"
    and "responds_in msg (base_report_message_attributes pl msg p)"
    and "responds_in msg (discover_implementation_version pl msg p)"
  using assms
  by (simp_all add: base_report_version_def base_report_attributes_def Let_def
      base_report_message_attributes_def discover_implementation_version_def
      status_responds_in write_responds_in)

lemma base_names_in [scmi_in]:
  assumes "base_plat_ok pl" and "4 \<le> unat (out_size msg)"
  shows "responds_in msg (discover_vendor pl msg p)"
    and "responds_in msg (discover_sub_vendor pl msg p)"
  using assms
  by (auto simp: discover_vendor_def discover_sub_vendor_def base_plat_ok_def
      status_responds_in copy_name_identifier_def padded_length intro!: write_responds_in)

lemma base_handlers_in:
  assumes ok: "base_plat_ok pl" and out: "out_ok msg"
    and h: "scmi_msg_get_base_handler msg = Some h"
  shows "responds_in msg (h pl msg p)"
proof -
  have "h \<in> set scmi_base_handler_table"
    using h nth_mem [of _ scmi_base_handler_table]
    by (auto simp: scmi_msg_get_base_handler_eq split: if_splits)
  moreover have "8 \<le> unat (out_size msg)" "4 \<le> unat (out_size msg)" "4 dvd unat (out_size msg)"
    using out by (simp_all add: out_ok_def)
  ultimately show ?thesis
    using ok unfolding scmi_base_handler_table_def by (auto intro: scmi_in)
qed

end
