(* ===== verification/ScmiClock.thy ===== *)
theory ScmiClock
  imports ScmiMsg
begin

text \<open>
  The SCMI clock protocol (\<open>core/drivers/scmi-msg/clock.c\<close>): the weak platform functions it
  falls back on, its handlers, and the table of handlers.
\<close>

section \<open>Weak platform functions\<close>

definition weak_scmi_clock_count :: "32 word \<Rightarrow> size_t" where
  "weak_scmi_clock_count c = 0"

definition weak_scmi_clock_get_name :: "32 word \<Rightarrow> 32 word \<Rightarrow> byte list option" where
  "weak_scmi_clock_get_name c i = None"

definition weak_scmi_clock_rates_count :: "32 word \<Rightarrow> 32 word \<Rightarrow> 'p \<Rightarrow> int32 \<times> size_t" where
  "weak_scmi_clock_rates_count c i p = (SCMI_NOT_SUPPORTED, 0)"

definition weak_scmi_clock_rates_array ::
    "32 word \<Rightarrow> 32 word \<Rightarrow> size_t \<Rightarrow> 'p \<Rightarrow> int32 \<times> 64 word list" where
  "weak_scmi_clock_rates_array c i start p = (SCMI_NOT_SUPPORTED, [0])"

definition weak_scmi_clock_rates_by_step ::
    "32 word \<Rightarrow> 32 word \<Rightarrow> 'p \<Rightarrow> int32 \<times> 64 word \<times> 64 word \<times> 64 word" where
  "weak_scmi_clock_rates_by_step c i p = (SCMI_NOT_SUPPORTED, 0, 0, 0)"

definition weak_scmi_clock_get_rate :: "32 word \<Rightarrow> 32 word \<Rightarrow> 'p \<Rightarrow> 64 word" where
  "weak_scmi_clock_get_rate c i p = 0"

definition weak_scmi_clock_set_rate :: "32 word \<Rightarrow> 32 word \<Rightarrow> 64 word \<Rightarrow> 'p \<Rightarrow> int32 \<times> 'p" where
  "weak_scmi_clock_set_rate c i rate p = (SCMI_NOT_SUPPORTED, p)"

definition weak_scmi_clock_get_state :: "32 word \<Rightarrow> 32 word \<Rightarrow> 'p \<Rightarrow> int32" where
  "weak_scmi_clock_get_state c i p = SCMI_NOT_SUPPORTED"

definition weak_scmi_clock_set_state :: "32 word \<Rightarrow> 32 word \<Rightarrow> bool \<Rightarrow> 'p \<Rightarrow> int32 \<times> 'p" where
  "weak_scmi_clock_set_state c i enable p = (SCMI_NOT_SUPPORTED, p)"

section \<open>Handlers\<close>

definition clock_report_version :: "'p scmi_handler" where
  "clock_report_version pl msg p =
     (if in_size msg \<noteq> 0 then reply p (scmi_status_response msg SCMI_PROTOCOL_ERROR)
      else reply p (scmi_write_response msg (le32 SCMI_SUCCESS @ le32 0x20000)))"

definition SCMI_CLOCK_PROTOCOL_ATTRIBUTES :: "32 word \<Rightarrow> 32 word \<Rightarrow> 32 word" where
  "SCMI_CLOCK_PROTOCOL_ATTRIBUTES max_pending clk_count =
     (push_bit 16 max_pending AND 0x00FF0000) OR (clk_count AND 0xFFFF)"

definition clock_report_attributes :: "'p scmi_handler" where
  "clock_report_attributes pl msg p =
     (let attributes = SCMI_CLOCK_PROTOCOL_ATTRIBUTES 1
            (ucast (plat_clock_count pl (channel_id msg))) in
      if in_size msg \<noteq> 0 then reply p (scmi_status_response msg SCMI_PROTOCOL_ERROR)
      else reply p (scmi_write_response msg (le32 SCMI_SUCCESS @ le32 attributes)))"

text \<open>The table of handlers has the message identifiers 0 to 7.\<close>

definition clock_table_size :: nat where
  "clock_table_size = 8"

definition clock_message_id_is_supported :: "32 word \<Rightarrow> bool" where
  "clock_message_id_is_supported mid = (unat mid < clock_table_size)"

definition clock_report_message_attributes :: "'p scmi_handler" where
  "clock_report_message_attributes pl msg p =
     (if in_size msg \<noteq> 4 then reply p (scmi_status_response msg SCMI_PROTOCOL_ERROR)
      else if \<not> clock_message_id_is_supported (rd32 (msg_in msg) 0)
      then reply p (scmi_status_response msg SCMI_NOT_FOUND)
      else reply p (scmi_write_response msg (le32 SCMI_SUCCESS @ le32 0)))"

definition scmi_clock_attributes :: "'p scmi_handler" where
  "scmi_clock_attributes pl msg p =
     (let arg_id = rd32 (msg_in msg) 0; count = plat_clock_count pl (channel_id msg) in
      if in_size msg \<noteq> 4 then reply p (scmi_status_response msg SCMI_PROTOCOL_ERROR)
      else if ucast arg_id \<ge> count
      then reply p (scmi_status_response msg SCMI_INVALID_PARAMETERS)
      else
        let clock_id = ucast (confine_array_index (ucast arg_id) count) in
        case plat_clock_get_name pl (channel_id msg) clock_id of
          None \<Rightarrow> reply p (scmi_status_response msg SCMI_NOT_FOUND)
        | Some name \<Rightarrow>
            let attributes = plat_clock_get_state pl (channel_id msg) clock_id p in
            (case copy_name_identifier name of
               None \<Rightarrow> None
             | Some bs \<Rightarrow>
                 reply p (scmi_write_response msg ((le32 SCMI_SUCCESS @ le32 attributes) @ bs))))"

definition scmi_clock_rate_get :: "'p scmi_handler" where
  "scmi_clock_rate_get pl msg p =
     (let arg_id = rd32 (msg_in msg) 0; count = plat_clock_count pl (channel_id msg) in
      if in_size msg \<noteq> 4 then reply p (scmi_status_response msg SCMI_PROTOCOL_ERROR)
      else if ucast arg_id \<ge> count
      then reply p (scmi_status_response msg SCMI_INVALID_PARAMETERS)
      else
        let clock_id = ucast (confine_array_index (ucast arg_id) count);
            rate = plat_clock_get_rate pl (channel_id msg) clock_id p;
            (rate1, rate0) = reg_pair_from_64 rate
        in reply p (scmi_write_response msg (le32 0 @ le32 rate0 @ le32 rate1)))"

text \<open>The request has the flags first, then the clock, then the two halves of the rate.\<close>

definition scmi_clock_rate_set :: "'p scmi_handler" where
  "scmi_clock_rate_set pl msg p =
     (let arg_id = rd32 (msg_in msg) 4; count = plat_clock_count pl (channel_id msg) in
      if in_size msg \<noteq> 16 then reply p (scmi_status_response msg SCMI_PROTOCOL_ERROR)
      else if ucast arg_id \<ge> count
      then reply p (scmi_status_response msg SCMI_INVALID_PARAMETERS)
      else
        let clock_id = ucast (confine_array_index (ucast arg_id) count);
            rate_64 = reg_pair_to_64 (rd32 (msg_in msg) 12) (rd32 (msg_in msg) 8);
            (status, p') = plat_clock_set_rate pl (channel_id msg) clock_id rate_64 p
        in reply p' (scmi_status_response msg status))"

definition scmi_clock_config_set :: "'p scmi_handler" where
  "scmi_clock_config_set pl msg p =
     (let arg_id = rd32 (msg_in msg) 0; count = plat_clock_count pl (channel_id msg) in
      if in_size msg \<noteq> 8 then reply p (scmi_status_response msg SCMI_PROTOCOL_ERROR)
      else if ucast arg_id \<ge> count
      then reply p (scmi_status_response msg SCMI_INVALID_PARAMETERS)
      else
        let clock_id = ucast (confine_array_index (ucast arg_id) count);
            enable = (rd32 (msg_in msg) 4 AND 1 \<noteq> 0);
            (status, p') = plat_clock_set_state pl (channel_id msg) clock_id enable p
        in reply p' (scmi_status_response msg status))"

text \<open>Writes the rates at offset \<open>off\<close> of the output memory, low half first.\<close>

fun write_rate_desc_array_in_buffer :: "(nat \<Rightarrow> byte) \<Rightarrow> nat \<Rightarrow> 64 word list \<Rightarrow> nat \<Rightarrow> byte" where
  "write_rate_desc_array_in_buffer mem off [] = mem"
| "write_rate_desc_array_in_buffer mem off (rate # rates) =
     (let (high, low) = reg_pair_from_64 rate;
          mem1 = copy_bytes mem (off + 4) (le32 high);
          mem2 = copy_bytes mem1 off (le32 low)
      in write_rate_desc_array_in_buffer mem2 (off + 8) rates)"

definition NUM_RATES_FLAGS :: "32 word \<Rightarrow> 32 word \<Rightarrow> 32 word \<Rightarrow> 32 word" where
  "NUM_RATES_FLAGS count fmt rem_rates =
     (count AND 0xFFF) OR (push_bit 16 rem_rates AND 0xFFFF0000) OR (push_bit 12 fmt AND 0x1000)"

text \<open>
  The loop that queries one rate at a time. It returns the status, the index it stopped at
  and the output memory; each turn uses up eight bytes of \<open>avail_sz\<close>.
\<close>

function describe_rates_loop ::
    "'p scmi_plat \<Rightarrow> 32 word \<Rightarrow> 32 word \<Rightarrow> 'p \<Rightarrow> size_t \<Rightarrow> size_t \<Rightarrow> 32 word \<Rightarrow> nat \<Rightarrow> (nat \<Rightarrow> byte)
     \<Rightarrow> int32 \<times> 32 word \<times> (nat \<Rightarrow> byte)" where
  "describe_rates_loop pl ch clock_id p nb_rates avail_sz rate_index out_rates mem =
     (if avail_sz \<ge> 8 \<and> ucast rate_index < nb_rates then
        (case plat_clock_rates_array pl ch clock_id (ucast rate_index) p of (status, rates) \<Rightarrow>
           if status \<noteq> 0 then (status, rate_index, mem)
           else describe_rates_loop pl ch clock_id p nb_rates (avail_sz - 8) (rate_index + 1)
                  (out_rates + 8) (write_rate_desc_array_in_buffer mem out_rates rates))
      else (SCMI_SUCCESS, rate_index, mem))"
  by pat_completeness auto
termination
  by (relation "measure (\<lambda>(_, _, _, _, _, avail_sz, _). unat avail_sz)")
     (auto simp: unat_sub word_le_nat_alt)

declare describe_rates_loop.simps [simp del]

text \<open>\<open>msg->out_size - sizeof(p2a)\<close> is not guarded here and wraps below eight bytes.\<close>

definition scmi_clock_describe_rates :: "'p scmi_handler" where
  "scmi_clock_describe_rates pl msg p =
     (let ch = channel_id msg; arg_id = rd32 (msg_in msg) 0; arg_index = rd32 (msg_in msg) 4;
          count = plat_clock_count pl ch;
          fail = (\<lambda>status mem. reply p (scmi_status_response (msg\<lparr>msg_out := mem\<rparr>) status));
          finish = (\<lambda>num_rates_flags out_count mem.
            reply p (Some (msg\<lparr>
              msg_out := copy_bytes mem 0 (le32 SCMI_SUCCESS @ le32 num_rates_flags),
              out_size_out := 8 + ucast out_count * 8\<rparr>)))
      in
      if in_size msg \<noteq> 8 then reply p (scmi_status_response msg SCMI_PROTOCOL_ERROR)
      else if ucast arg_id \<ge> count
      then reply p (scmi_status_response msg SCMI_INVALID_PARAMETERS)
      else
        let clock_id = ucast (confine_array_index (ucast arg_id) count);
            (status, nb_rates) = plat_clock_rates_count pl ch clock_id p
        in
        if status = SCMI_SUCCESS then
          (let avail_sz = out_size msg - 8 in
           if avail_sz < 8 \<and> nb_rates \<noteq> 0 then fail SCMI_PROTOCOL_ERROR (msg_out msg)
           else
             (case describe_rates_loop pl ch clock_id p nb_rates avail_sz arg_index 8 (msg_out msg)
              of (status, rate_index, mem) \<Rightarrow>
                if status \<noteq> 0 then fail status mem
                else
                  let out_count = rate_index - arg_index;
                      remaining = ucast nb_rates - arg_index
                  in finish (NUM_RATES_FLAGS out_count 0 remaining) out_count mem))
        else if status = SCMI_NOT_SUPPORTED then
          (if out_size msg < 8 + 3 * 8 then fail SCMI_PROTOCOL_ERROR (msg_out msg)
           else
             (case plat_clock_rates_by_step pl ch clock_id p of (status, mn, mx, step) \<Rightarrow>
                if status \<noteq> 0 then fail status (msg_out msg)
                else finish (NUM_RATES_FLAGS 3 1 0) 3
                       (write_rate_desc_array_in_buffer (msg_out msg) 8 [mn, mx, step])))
        else fail status (msg_out msg))"

definition scmi_clock_handler_table :: "'p scmi_handler list" where
  "scmi_clock_handler_table =
     [clock_report_version, clock_report_attributes, clock_report_message_attributes,
      scmi_clock_attributes, scmi_clock_describe_rates, scmi_clock_rate_set,
      scmi_clock_rate_get, scmi_clock_config_set]"

definition scmi_msg_get_clock_handler :: "scmi_msg \<Rightarrow> 'p scmi_handler option" where
  "scmi_msg_get_clock_handler msg =
     (let array_size = word_of_nat (length (scmi_clock_handler_table :: 'p scmi_handler list)) in
      if ucast (message_id msg) \<ge> array_size then None
      else Some (scmi_clock_handler_table !
                   unat (confine_array_index (ucast (message_id msg)) array_size)))"

lemma length_clock_table [simp]: "length scmi_clock_handler_table = clock_table_size"
  by (simp add: scmi_clock_handler_table_def clock_table_size_def)

lemma clock_table_small: "clock_table_size < 2 ^ 32"
  by (simp add: clock_table_size_def)

lemma scmi_msg_get_clock_handler_eq:
  "scmi_msg_get_clock_handler msg =
     (if unat (message_id msg) < clock_table_size
      then Some (scmi_clock_handler_table ! unat (message_id msg)) else None)"
  using handler_lookup [OF clock_table_small]
  by (simp add: scmi_msg_get_clock_handler_def Let_def not_less)

section \<open>Responses\<close>

text \<open>
  What a platform promises for the clock protocol: names of at most 15 characters, and no more
  than the one rate the handler has room for.
\<close>

definition clock_plat_ok :: "'p scmi_plat \<Rightarrow> bool" where
  "clock_plat_ok pl \<longleftrightarrow>
     (\<forall>c i name. plat_clock_get_name pl c i = Some name \<longrightarrow> length name < 16)
     \<and> (\<forall>c i start p. length (snd (plat_clock_rates_array pl c i start p)) \<le> 1)"

lemma write_rates_outside:
  "k < off \<or> off + 8 * length rates \<le> k \<Longrightarrow>
   write_rate_desc_array_in_buffer mem off rates k = mem k"
  by (induction mem off rates rule: write_rate_desc_array_in_buffer.induct)
     (auto simp: Let_def copy_bytes_outside split: prod.splits)

text \<open>
  The loop keeps the offset and the space left in step, so it writes between the offset it
  starts at and the end of the buffer, and counts the rates it wrote.
\<close>

lemma describe_rates_loop_in:
  assumes "clock_plat_ok pl" and "unat avail + off \<le> lim"
    and "describe_rates_loop pl ch i p nb avail idx off mem = (st, idx', mem')"
  shows "(\<forall>k. k < off \<or> lim \<le> k \<longrightarrow> mem' k = mem k)
    \<and> (\<exists>n. idx' = idx + word_of_nat n \<and> 8 * n \<le> unat avail)"
  using assms
proof (induction pl ch i p nb avail idx off mem rule: describe_rates_loop.induct)
  case (1 pl ch i p nb avail idx off mem)
  show ?case
  proof (cases "8 \<le> avail \<and> ucast idx < nb
      \<and> fst (plat_clock_rates_array pl ch i (ucast idx) p) = 0")
    case False
    then have "idx' = idx \<and> mem' = mem"
      using 1(4) by (subst (asm) describe_rates_loop.simps) (auto split: if_splits prod.splits)
    then show ?thesis by (auto intro: exI [of _ 0])
  next
    case True
    obtain rates where rates: "plat_clock_rates_array pl ch i (ucast idx) p = (0, rates)"
      using True by (metis prod.collapse)
    then have one: "length rates \<le> 1" using 1(2) unfolding clock_plat_ok_def by (metis snd_conv)
    have avail: "unat (avail - 8) = unat avail - 8" and ge: "8 \<le> unat avail"
      using True by (auto simp: unat_sub word_le_nat_alt)
    let ?mem = "write_rate_desc_array_in_buffer mem off rates"
    have run: "describe_rates_loop pl ch i p nb (avail - 8) (idx + 1) (off + 8) ?mem = (st, idx', mem')"
      using 1(4) True rates by (subst (asm) describe_rates_loop.simps) simp
    have room: "unat (avail - 8) + (off + 8) \<le> lim" using avail ge 1(3) by linarith
    have IH: "(\<forall>k. k < off + 8 \<or> lim \<le> k \<longrightarrow> mem' k = ?mem k)
        \<and> (\<exists>n. idx' = idx + 1 + word_of_nat n \<and> 8 * n \<le> unat (avail - 8))"
      using 1(1) [OF _ rates [symmetric] _ 1(2) room run] True by simp
    have "mem' k = mem k" if "k < off \<or> lim \<le> k" for k
      using IH that room one write_rates_outside [of k off rates mem] by force
    moreover from IH obtain n where n: "idx' = idx + 1 + word_of_nat n" "8 * n \<le> unat (avail - 8)"
      by blast
    have "idx' = idx + word_of_nat (Suc n)" using n(1) by simp
    moreover have "8 * Suc n \<le> unat avail" using n(2) avail ge by simp
    ultimately show ?thesis by blast
  qed
qed

lemma describe_rates_in [scmi_in]:
  assumes ok: "clock_plat_ok pl" and big: "8 \<le> unat (out_size msg)" and lim: "unat (out_size msg) < 2 ^ 32"
  shows "responds_in msg (scmi_clock_describe_rates pl msg p)"
proof -
  have err: "responds_in msg (reply p (scmi_status_response (msg\<lparr>msg_out := mem\<rparr>) st))"
    if "\<And>k. unat (out_size msg) \<le> k \<Longrightarrow> mem k = msg_out msg k" for mem st
    using that big
    by (simp add: responds_in_def reply_def scmi_status_response_def le_64_nat stays_in_def
        copy_bytes_outside)
  have fin: "responds_in msg (reply p (Some (msg\<lparr>
        msg_out := copy_bytes mem 0 (le32 SCMI_SUCCESS @ le32 flags),
        out_size_out := 8 + ucast cnt * 8\<rparr>)))"
    if "\<And>k. unat (out_size msg) \<le> k \<Longrightarrow> mem k = msg_out msg k"
      and "cnt = word_of_nat n" and "8 * n + 8 \<le> unat (out_size msg)" and "n < 2 ^ 32"
    for mem flags n and cnt :: "32 word"
  proof -
    have "unat cnt = n" using that(2,4) by (simp add: unat_of_nat_exact)
    then have mul: "unat (ucast cnt * 8 :: size_t) = 8 * n"
      using that(4) by (subst unat_mult_lem [THEN iffD1]) auto
    then have "unat (8 + ucast cnt * 8 :: size_t) = 8 + 8 * n"
      using that(4) by (subst unat_add_exact) auto
    then show ?thesis
      using that big by (simp add: responds_in_def reply_def stays_in_def copy_bytes_outside)
  qed
  have eight: "unat (out_size msg - 8) = unat (out_size msg) - 8"
    using big by (subst unat_sub_exact) auto
  have loop: "responds_in msg (case describe_rates_loop pl ch i p nb (out_size msg - 8) idx 8 (msg_out msg)
      of (status, rate_index, mem) \<Rightarrow>
        if status \<noteq> 0 then reply p (scmi_status_response (msg\<lparr>msg_out := mem\<rparr>) status)
        else reply p (Some (msg\<lparr>
          msg_out := copy_bytes mem 0 (le32 SCMI_SUCCESS
            @ le32 (NUM_RATES_FLAGS (rate_index - idx) 0 (ucast nb - idx))),
          out_size_out := 8 + ucast (rate_index - idx) * 8\<rparr>)))" for ch i nb idx
  proof -
    obtain st idx' mem where run: "describe_rates_loop pl ch i p nb (out_size msg - 8) idx 8
        (msg_out msg) = (st, idx', mem)" by (metis prod_cases3)
    then obtain n where n: "idx' = idx + word_of_nat n" "8 * n \<le> unat (out_size msg - 8)"
      and outside: "\<And>k. unat (out_size msg) \<le> k \<Longrightarrow> mem k = msg_out msg k"
      using describe_rates_loop_in [OF ok _ run, of "unat (out_size msg)"] eight big by auto
    show ?thesis
    proof (cases "st = 0")
      case True
      have "idx' - idx = word_of_nat n" using n(1) by simp
      moreover have "8 * n + 8 \<le> unat (out_size msg)" "n < 2 ^ 32"
        using n(2) eight big lim by linarith+
      ultimately show ?thesis using run True fin [OF outside] by simp
    qed (use run err [OF outside] in simp)
  qed
  have step: "responds_in msg (case plat_clock_rates_by_step pl ch i p of (status, mn, mx, step) \<Rightarrow>
      if status \<noteq> 0 then reply p (scmi_status_response (msg\<lparr>msg_out := msg_out msg\<rparr>) status)
      else reply p (Some (msg\<lparr>
        msg_out := copy_bytes (write_rate_desc_array_in_buffer (msg_out msg) 8 [mn, mx, step]) 0
          (le32 SCMI_SUCCESS @ le32 (NUM_RATES_FLAGS 3 1 0)),
        out_size_out := 8 + ucast (3 :: 32 word) * 8\<rparr>)))"
    if "\<not> out_size msg < 8 + 3 * 8" for ch i
  proof -
    obtain st mn mx step where res: "plat_clock_rates_by_step pl ch i p = (st, mn, mx, step)"
      by (metis prod_cases4)
    have "32 \<le> unat (out_size msg)" using that by (simp add: word_less_nat_alt)
    then show ?thesis
      using err [of "msg_out msg" st] write_rates_outside [of _ 8 "[mn, mx, step]" "msg_out msg"]
        fin [of "write_rate_desc_array_in_buffer (msg_out msg) 8 [mn, mx, step]" 3 3] res
      by simp
  qed
  have "responds_in msg (reply p (scmi_status_response msg st))" for st
    using big by (simp add: status_responds_in)
  then show ?thesis
    using loop step err [of "msg_out msg"]
    unfolding scmi_clock_describe_rates_def Let_def
    by (auto split: if_split prod.split)
qed

lemma clock_simple_in [scmi_in]:
  assumes "4 \<le> unat (out_size msg)"
  shows "responds_in msg (clock_report_version pl msg p)"
    and "responds_in msg (clock_report_attributes pl msg p)"
    and "responds_in msg (clock_report_message_attributes pl msg p)"
    and "responds_in msg (scmi_clock_rate_get pl msg p)"
    and "responds_in msg (scmi_clock_rate_set pl msg p)"
    and "responds_in msg (scmi_clock_config_set pl msg p)"
  using assms
  by (simp_all add: clock_report_version_def clock_report_attributes_def Let_def
      clock_report_message_attributes_def scmi_clock_rate_get_def scmi_clock_rate_set_def
      scmi_clock_config_set_def status_responds_in write_responds_in reg_pair_from_64_def
      split: prod.split)

lemma clock_attributes_in [scmi_in]:
  assumes "clock_plat_ok pl" and "4 \<le> unat (out_size msg)"
  shows "responds_in msg (scmi_clock_attributes pl msg p)"
  using assms
  by (auto simp: scmi_clock_attributes_def Let_def clock_plat_ok_def status_responds_in
      copy_name_identifier_def padded_length intro!: write_responds_in split: option.split)

lemma clock_handlers_in:
  assumes ok: "clock_plat_ok pl" and out: "out_ok msg"
    and h: "scmi_msg_get_clock_handler msg = Some h"
  shows "responds_in msg (h pl msg p)"
proof -
  have "h \<in> set scmi_clock_handler_table"
    using h nth_mem [of _ scmi_clock_handler_table]
    by (auto simp: scmi_msg_get_clock_handler_eq split: if_splits)
  moreover have "8 \<le> unat (out_size msg)" "4 \<le> unat (out_size msg)" "unat (out_size msg) < 2 ^ 32"
    using out by (simp_all add: out_ok_def)
  ultimately show ?thesis
    using ok unfolding scmi_clock_handler_table_def by (auto intro: scmi_in)
qed

end
