(* ===== verification/ScmiReset.thy ===== *)
theory ScmiReset
  imports ScmiMsg
begin

text \<open>The SCMI reset domain protocol (\<open>core/drivers/scmi-msg/reset_domain.c\<close>).\<close>

section \<open>Weak platform functions\<close>

definition weak_scmi_rd_count :: "32 word \<Rightarrow> size_t" where
  "weak_scmi_rd_count c = 0"

definition weak_scmi_rd_get_name :: "32 word \<Rightarrow> 32 word \<Rightarrow> byte list option" where
  "weak_scmi_rd_get_name c i = None"

definition weak_scmi_rd_autonomous :: "32 word \<Rightarrow> 32 word \<Rightarrow> 32 word \<Rightarrow> 'p \<Rightarrow> int32 \<times> 'p" where
  "weak_scmi_rd_autonomous c i state p = (SCMI_NOT_SUPPORTED, p)"

definition weak_scmi_rd_set_state :: "32 word \<Rightarrow> 32 word \<Rightarrow> bool \<Rightarrow> 'p \<Rightarrow> int32 \<times> 'p" where
  "weak_scmi_rd_set_state c i assert_not_deassert p = (SCMI_NOT_SUPPORTED, p)"

section \<open>Handlers\<close>

definition rd_report_version :: "'p scmi_handler" where
  "rd_report_version pl msg p =
     (if in_size msg \<noteq> 0 then reply p (scmi_status_response msg SCMI_PROTOCOL_ERROR)
      else reply p (scmi_write_response msg (le32 SCMI_SUCCESS @ le32 0x10000)))"

definition rd_report_attributes :: "'p scmi_handler" where
  "rd_report_attributes pl msg p =
     (let attributes = ucast (plat_rd_count pl (channel_id msg)) in
      if in_size msg \<noteq> 0 then reply p (scmi_status_response msg SCMI_PROTOCOL_ERROR)
      else reply p (scmi_write_response msg (le32 SCMI_SUCCESS @ le32 attributes)))"

text \<open>The table of handlers has the message identifiers 0 to 4.\<close>

definition rd_table_size :: nat where
  "rd_table_size = 5"

definition rd_message_id_is_supported :: "32 word \<Rightarrow> bool" where
  "rd_message_id_is_supported mid = (unat mid < rd_table_size)"

definition rd_report_message_attributes :: "'p scmi_handler" where
  "rd_report_message_attributes pl msg p =
     (if in_size msg \<noteq> 4 then reply p (scmi_status_response msg SCMI_PROTOCOL_ERROR)
      else if \<not> rd_message_id_is_supported (rd32 (msg_in msg) 0)
      then reply p (scmi_status_response msg SCMI_NOT_FOUND)
      else reply p (scmi_write_response msg (le32 SCMI_SUCCESS @ le32 0)))"

definition reset_domain_attributes :: "'p scmi_handler" where
  "reset_domain_attributes pl msg p =
     (let arg_id = rd32 (msg_in msg) 0; count = plat_rd_count pl (channel_id msg) in
      if in_size msg \<noteq> 4 then reply p (scmi_status_response msg SCMI_PROTOCOL_ERROR)
      else if ucast arg_id \<ge> count
      then reply p (scmi_status_response msg SCMI_INVALID_PARAMETERS)
      else
        let domain_id = ucast (confine_array_index (ucast arg_id) count) in
        case plat_rd_get_name pl (channel_id msg) domain_id of
          None \<Rightarrow> reply p (scmi_status_response msg SCMI_NOT_FOUND)
        | Some name \<Rightarrow>
            (case copy_name_identifier name of
               None \<Rightarrow> None
             | Some bs \<Rightarrow>
                 reply p (scmi_write_response msg
                   (le32 SCMI_SUCCESS @ le32 0 @ le32 0x7fffffff @ bs))))"

text \<open>The domain identifier is read, and confined, before the size of the message is checked.\<close>

definition reset_request :: "'p scmi_handler" where
  "reset_request pl msg p =
     (let arg_id = rd32 (msg_in msg) 0; count = plat_rd_count pl (channel_id msg);
          domain_id = ucast (confine_array_index (ucast arg_id) count) in
      if in_size msg \<noteq> 12 then reply p (scmi_status_response msg SCMI_PROTOCOL_ERROR)
      else if ucast arg_id \<ge> count then reply p (scmi_status_response msg SCMI_NOT_FOUND)
      else
        let flags = rd32 (msg_in msg) 4; reset_state = rd32 (msg_in msg) 8;
            (status, p') =
              (if flags AND 1 \<noteq> 0
               then plat_rd_autonomous pl (channel_id msg) domain_id reset_state p
               else if flags AND 2 \<noteq> 0
               then plat_rd_set_state pl (channel_id msg) domain_id True p
               else plat_rd_set_state pl (channel_id msg) domain_id False p)
        in if status \<noteq> 0 then reply p' (scmi_status_response msg status)
           else reply p' (scmi_write_response msg (le32 status)))"

definition scmi_rd_handler_table :: "'p scmi_handler list" where
  "scmi_rd_handler_table =
     [rd_report_version, rd_report_attributes, rd_report_message_attributes,
      reset_domain_attributes, reset_request]"

definition scmi_msg_get_rd_handler :: "scmi_msg \<Rightarrow> 'p scmi_handler option" where
  "scmi_msg_get_rd_handler msg =
     (let array_size = word_of_nat (length (scmi_rd_handler_table :: 'p scmi_handler list)) in
      if ucast (message_id msg) \<ge> array_size then None
      else Some (scmi_rd_handler_table !
                   unat (confine_array_index (ucast (message_id msg)) array_size)))"

lemma length_rd_table [simp]: "length scmi_rd_handler_table = rd_table_size"
  by (simp add: scmi_rd_handler_table_def rd_table_size_def)

lemma rd_table_small: "rd_table_size < 2 ^ 32"
  by (simp add: rd_table_size_def)

lemma scmi_msg_get_rd_handler_eq:
  "scmi_msg_get_rd_handler msg =
     (if unat (message_id msg) < rd_table_size
      then Some (scmi_rd_handler_table ! unat (message_id msg)) else None)"
  using handler_lookup [OF rd_table_small]
  by (simp add: scmi_msg_get_rd_handler_def Let_def not_less)

section \<open>Responses\<close>

definition rd_plat_ok :: "'p scmi_plat \<Rightarrow> bool" where
  "rd_plat_ok pl \<longleftrightarrow> (\<forall>c i name. plat_rd_get_name pl c i = Some name \<longrightarrow> length name < 16)"

lemma rd_simple_in [scmi_in]:
  assumes "4 \<le> unat (out_size msg)"
  shows "responds_in msg (rd_report_version pl msg p)"
    and "responds_in msg (rd_report_attributes pl msg p)"
    and "responds_in msg (rd_report_message_attributes pl msg p)"
    and "responds_in msg (reset_request pl msg p)"
  using assms
  by (simp_all add: rd_report_version_def rd_report_attributes_def Let_def
      rd_report_message_attributes_def reset_request_def status_responds_in write_responds_in
      split: prod.split)

lemma rd_attributes_in [scmi_in]:
  assumes "rd_plat_ok pl" and "4 \<le> unat (out_size msg)"
  shows "responds_in msg (reset_domain_attributes pl msg p)"
  using assms
  by (auto simp: reset_domain_attributes_def Let_def rd_plat_ok_def status_responds_in
      copy_name_identifier_def padded_length intro!: write_responds_in split: option.split)

lemma rd_handlers_in:
  assumes ok: "rd_plat_ok pl" and out: "out_ok msg"
    and h: "scmi_msg_get_rd_handler msg = Some h"
  shows "responds_in msg (h pl msg p)"
proof -
  have "h \<in> set scmi_rd_handler_table"
    using h nth_mem [of _ scmi_rd_handler_table]
    by (auto simp: scmi_msg_get_rd_handler_eq split: if_splits)
  moreover have "4 \<le> unat (out_size msg)" using out by (simp add: out_ok_def)
  ultimately show ?thesis
    using ok unfolding scmi_rd_handler_table_def by (auto intro: scmi_in)
qed

end
