(* ===== verification/ScmiVoltage.thy ===== *)
theory ScmiVoltage
  imports ScmiMsg
begin

text \<open>
  The SCMI voltage domain protocol (\<open>core/drivers/scmi-msg/voltage_domain.c\<close>), built without
  \<open>CFG_SCMI_MSG_STRICT_ABI\<close> or with it, as the flag \<open>strict\<close> says.
\<close>

section \<open>Weak platform functions\<close>

definition weak_scmi_voltd_count :: "32 word \<Rightarrow> size_t" where
  "weak_scmi_voltd_count c = 0"

definition weak_scmi_voltd_get_name :: "32 word \<Rightarrow> 32 word \<Rightarrow> byte list option" where
  "weak_scmi_voltd_get_name c i = None"

definition weak_scmi_voltd_levels_count :: "32 word \<Rightarrow> 32 word \<Rightarrow> 'p \<Rightarrow> int32 \<times> size_t" where
  "weak_scmi_voltd_levels_count c i p = (SCMI_NOT_SUPPORTED, 0)"

definition weak_scmi_voltd_levels_array ::
    "32 word \<Rightarrow> 32 word \<Rightarrow> size_t \<Rightarrow> 'p \<Rightarrow> int32 \<times> 64 word" where
  "weak_scmi_voltd_levels_array c i start p = (SCMI_NOT_SUPPORTED, 0)"

definition weak_scmi_voltd_levels_by_step ::
    "32 word \<Rightarrow> 32 word \<Rightarrow> 'p \<Rightarrow> int32 \<times> 64 word \<times> 64 word \<times> 64 word" where
  "weak_scmi_voltd_levels_by_step c i p = (SCMI_NOT_SUPPORTED, 0, 0, 0)"

definition weak_scmi_voltd_get_level :: "32 word \<Rightarrow> 32 word \<Rightarrow> 'p \<Rightarrow> int32 \<times> 64 word" where
  "weak_scmi_voltd_get_level c i p = (SCMI_NOT_SUPPORTED, 0)"

definition weak_scmi_voltd_set_level :: "32 word \<Rightarrow> 32 word \<Rightarrow> 64 word \<Rightarrow> 'p \<Rightarrow> int32 \<times> 'p" where
  "weak_scmi_voltd_set_level c i level p = (SCMI_NOT_SUPPORTED, p)"

definition weak_scmi_voltd_get_config :: "32 word \<Rightarrow> 32 word \<Rightarrow> 'p \<Rightarrow> int32 \<times> 32 word" where
  "weak_scmi_voltd_get_config c i p = (SCMI_NOT_SUPPORTED, 0)"

definition weak_scmi_voltd_set_config :: "32 word \<Rightarrow> 32 word \<Rightarrow> 32 word \<Rightarrow> 'p \<Rightarrow> int32 \<times> 'p" where
  "weak_scmi_voltd_set_config c i config p = (SCMI_NOT_SUPPORTED, p)"

section \<open>Handlers\<close>

definition voltd_report_version :: "bool \<Rightarrow> 'p scmi_handler" where
  "voltd_report_version strict pl msg p =
     (if strict \<and> in_size msg \<noteq> 0 then reply p (scmi_status_response msg SCMI_PROTOCOL_ERROR)
      else reply p (scmi_write_response msg (le32 SCMI_SUCCESS @ le32 0x30000)))"

definition voltd_report_attributes :: "bool \<Rightarrow> 'p scmi_handler" where
  "voltd_report_attributes strict pl msg p =
     (let domain_count = plat_voltd_count pl (channel_id msg) in
      if domain_count AND NOT 0xFFFF \<noteq> 0 then None
      else if strict \<and> in_size msg \<noteq> 0 then reply p (scmi_status_response msg SCMI_PROTOCOL_ERROR)
      else reply p (scmi_write_response msg (le32 SCMI_SUCCESS @ le32 (ucast domain_count))))"

text \<open>The table of handlers has the message identifiers 0 to 8.\<close>

definition voltd_table_size :: nat where
  "voltd_table_size = 9"

definition voltd_message_id_is_supported :: "32 word \<Rightarrow> bool" where
  "voltd_message_id_is_supported mid = (unat mid < voltd_table_size)"

definition voltd_report_message_attributes :: "'p scmi_handler" where
  "voltd_report_message_attributes pl msg p =
     (if in_size msg \<noteq> 4 then reply p (scmi_status_response msg SCMI_PROTOCOL_ERROR)
      else if \<not> voltd_message_id_is_supported (rd32 (msg_in msg) 0)
      then reply p (scmi_status_response msg SCMI_NOT_FOUND)
      else reply p (scmi_write_response msg (le32 SCMI_SUCCESS @ le32 0)))"

definition scmi_voltd_domain_attributes :: "'p scmi_handler" where
  "scmi_voltd_domain_attributes pl msg p =
     (let arg_id = rd32 (msg_in msg) 0; count = plat_voltd_count pl (channel_id msg) in
      if in_size msg \<noteq> 4 then reply p (scmi_status_response msg SCMI_PROTOCOL_ERROR)
      else if ucast arg_id \<ge> count
      then reply p (scmi_status_response msg SCMI_INVALID_PARAMETERS)
      else
        let domain_id = ucast (confine_array_index (ucast arg_id) count) in
        case plat_voltd_get_name pl (channel_id msg) domain_id of
          None \<Rightarrow> reply p (scmi_status_response msg SCMI_NOT_FOUND)
        | Some name \<Rightarrow>
            (case copy_name_identifier name of
               None \<Rightarrow> None
             | Some bs \<Rightarrow>
                 reply p (scmi_write_response msg (le32 SCMI_SUCCESS @ le32 0 @ bs))))"

definition LEVELS_FLAGS :: "32 word \<Rightarrow> 32 word \<Rightarrow> 32 word \<Rightarrow> 32 word" where
  "LEVELS_FLAGS count fmt rem_rates =
     (count AND 0xFFF) OR (push_bit 16 rem_rates AND 0xFFFF0000) OR (push_bit 12 fmt AND 0x1000)"

text \<open>
  The loop that queries one level at a time; a level is stored as \<open>int32_t\<close>. It returns the
  status, the index it stopped at and the output memory.
\<close>

function describe_levels_loop ::
    "'p scmi_plat \<Rightarrow> 32 word \<Rightarrow> 32 word \<Rightarrow> 'p \<Rightarrow> size_t \<Rightarrow> size_t \<Rightarrow> 32 word \<Rightarrow> nat \<Rightarrow> (nat \<Rightarrow> byte)
     \<Rightarrow> int32 \<times> 32 word \<times> (nat \<Rightarrow> byte)" where
  "describe_levels_loop pl ch domain_id p nb_levels avail_sz level_index out_levels mem =
     (if avail_sz \<ge> 4 \<and> ucast level_index < nb_levels then
        (case plat_voltd_levels_array pl ch domain_id (ucast level_index) p of
           (status, plat_level) \<Rightarrow>
             if status \<noteq> 0 then (status, level_index, mem)
             else describe_levels_loop pl ch domain_id p nb_levels (avail_sz - 4) (level_index + 1)
                    (out_levels + 4) (copy_bytes mem out_levels (le32 (ucast plat_level))))
      else (SCMI_SUCCESS, level_index, mem))"
  by pat_completeness auto
termination
  by (relation "measure (\<lambda>(_, _, _, _, _, avail_sz, _). unat avail_sz)")
     (auto simp: unat_sub word_le_nat_alt)

declare describe_levels_loop.simps [simp del]

definition scmi_voltd_describe_levels :: "'p scmi_handler" where
  "scmi_voltd_describe_levels pl msg p =
     (let ch = channel_id msg; arg_id = rd32 (msg_in msg) 0; arg_index = rd32 (msg_in msg) 4;
          count = plat_voltd_count pl ch;
          fail = (\<lambda>status mem. reply p (scmi_status_response (msg\<lparr>msg_out := mem\<rparr>) status));
          finish = (\<lambda>flags out_count mem.
            reply p (Some (msg\<lparr>msg_out := copy_bytes mem 0 (le32 SCMI_SUCCESS @ le32 flags),
                           out_size_out := 8 + ucast out_count * 4\<rparr>)))
      in
      if in_size msg \<noteq> 8 then fail SCMI_PROTOCOL_ERROR (msg_out msg)
      else if ucast arg_id \<ge> count then fail SCMI_INVALID_PARAMETERS (msg_out msg)
      else if out_size msg < 8 then fail SCMI_INVALID_PARAMETERS (msg_out msg)
      else
        let domain_id = ucast (confine_array_index (ucast arg_id) count);
            (status, nb_levels) = plat_voltd_levels_count pl ch domain_id p
        in
        if status = SCMI_SUCCESS then
          (let avail_sz = out_size msg - 8 in
           if avail_sz < 4 \<and> nb_levels \<noteq> 0 then fail SCMI_PROTOCOL_ERROR (msg_out msg)
           else
             (case describe_levels_loop pl ch domain_id p nb_levels avail_sz arg_index 8
                     (msg_out msg)
              of (status, level_index, mem) \<Rightarrow>
                if status \<noteq> 0 then fail status mem
                else
                  let remaining = ucast nb_levels - arg_index;
                      out_count = level_index - arg_index
                  in finish (LEVELS_FLAGS out_count 0 remaining) out_count mem))
        else if status = SCMI_NOT_SUPPORTED then
          (if out_size msg < 8 + 3 * 4 then fail SCMI_PROTOCOL_ERROR (msg_out msg)
           else
             (case plat_voltd_levels_by_step pl ch domain_id p of (status, l0, l1, l2) \<Rightarrow>
                if status \<noteq> 0 then fail status (msg_out msg)
                else finish (LEVELS_FLAGS 3 1 0) 3
                       (copy_bytes (msg_out msg) 8
                         (le32 (ucast l0) @ le32 (ucast l1) @ le32 (ucast l2)))))
        else fail status (msg_out msg))"

definition scmi_voltd_config_set :: "'p scmi_handler" where
  "scmi_voltd_config_set pl msg p =
     (let arg_id = rd32 (msg_in msg) 0; count = plat_voltd_count pl (channel_id msg) in
      if in_size msg \<noteq> 8 then reply p (scmi_status_response msg SCMI_PROTOCOL_ERROR)
      else if ucast arg_id \<ge> count
      then reply p (scmi_status_response msg SCMI_INVALID_PARAMETERS)
      else
        let domain_id = ucast (confine_array_index (ucast arg_id) count);
            config = rd32 (msg_in msg) 4 AND 0xF;
            (status, p') = plat_voltd_set_config pl (channel_id msg) domain_id config p
        in reply p' (scmi_status_response msg status))"

definition scmi_voltd_config_get :: "'p scmi_handler" where
  "scmi_voltd_config_get pl msg p =
     (let arg_id = rd32 (msg_in msg) 0; count = plat_voltd_count pl (channel_id msg) in
      if in_size msg \<noteq> 4 then reply p (scmi_status_response msg SCMI_PROTOCOL_ERROR)
      else if ucast arg_id \<ge> count
      then reply p (scmi_status_response msg SCMI_INVALID_PARAMETERS)
      else
        let domain_id = ucast (confine_array_index (ucast arg_id) count);
            (status, config) = plat_voltd_get_config pl (channel_id msg) domain_id p
        in if status \<noteq> 0 then reply p (scmi_status_response msg SCMI_INVALID_PARAMETERS)
           else reply p (scmi_write_response msg (le32 0 @ le32 config)))"

text \<open>The request has the domain first, then flags, then the level, sign-extended to \<open>long\<close>.\<close>

definition scmi_voltd_level_set :: "'p scmi_handler" where
  "scmi_voltd_level_set pl msg p =
     (let arg_id = rd32 (msg_in msg) 0; count = plat_voltd_count pl (channel_id msg) in
      if in_size msg \<noteq> 12 then reply p (scmi_status_response msg SCMI_PROTOCOL_ERROR)
      else if ucast arg_id \<ge> count
      then reply p (scmi_status_response msg SCMI_INVALID_PARAMETERS)
      else
        let domain_id = ucast (confine_array_index (ucast arg_id) count);
            (status, p') =
              plat_voltd_set_level pl (channel_id msg) domain_id (scast (rd32 (msg_in msg) 8)) p
        in reply p' (scmi_status_response msg status))"

definition scmi_voltd_level_get :: "'p scmi_handler" where
  "scmi_voltd_level_get pl msg p =
     (let arg_id = rd32 (msg_in msg) 0; count = plat_voltd_count pl (channel_id msg) in
      if in_size msg \<noteq> 4 then reply p (scmi_status_response msg SCMI_PROTOCOL_ERROR)
      else if ucast arg_id \<ge> count
      then reply p (scmi_status_response msg SCMI_INVALID_PARAMETERS)
      else
        let domain_id = ucast (confine_array_index (ucast arg_id) count);
            (status, level) = plat_voltd_get_level pl (channel_id msg) domain_id p
        in reply p (scmi_write_response msg (le32 status @ le32 (ucast level))))"

definition voltd_handler_array :: "bool \<Rightarrow> 'p scmi_handler list" where
  "voltd_handler_array strict =
     [voltd_report_version strict, voltd_report_attributes strict,
      voltd_report_message_attributes, scmi_voltd_domain_attributes,
      scmi_voltd_describe_levels, scmi_voltd_config_set, scmi_voltd_config_get,
      scmi_voltd_level_set, scmi_voltd_level_get]"

definition scmi_msg_get_voltd_handler :: "bool \<Rightarrow> scmi_msg \<Rightarrow> 'p scmi_handler option" where
  "scmi_msg_get_voltd_handler strict msg =
     (let array_size = word_of_nat (length (voltd_handler_array strict :: 'p scmi_handler list)) in
      if ucast (message_id msg) \<ge> array_size then None
      else Some (voltd_handler_array strict !
                   unat (confine_array_index (ucast (message_id msg)) array_size)))"

lemma length_voltd_array [simp]: "length (voltd_handler_array strict) = voltd_table_size"
  by (simp add: voltd_handler_array_def voltd_table_size_def)

lemma voltd_table_small: "voltd_table_size < 2 ^ 32"
  by (simp add: voltd_table_size_def)

lemma scmi_msg_get_voltd_handler_eq:
  "scmi_msg_get_voltd_handler strict msg =
     (if unat (message_id msg) < voltd_table_size
      then Some (voltd_handler_array strict ! unat (message_id msg)) else None)"
  using handler_lookup [OF voltd_table_small]
  by (simp add: scmi_msg_get_voltd_handler_def Let_def not_less)

section \<open>Responses\<close>

definition voltd_plat_ok :: "'p scmi_plat \<Rightarrow> bool" where
  "voltd_plat_ok pl \<longleftrightarrow>
     (\<forall>c i name. plat_voltd_get_name pl c i = Some name \<longrightarrow> length name < 16)
     \<and> (\<forall>c. plat_voltd_count pl c AND NOT 0xFFFF = 0)"

lemma describe_levels_loop_in:
  assumes "unat avail + off \<le> lim"
    and "describe_levels_loop pl ch i p nb avail idx off mem = (st, idx', mem')"
  shows "(\<forall>k. k < off \<or> lim \<le> k \<longrightarrow> mem' k = mem k)
    \<and> (\<exists>n. idx' = idx + word_of_nat n \<and> 4 * n \<le> unat avail)"
  using assms
proof (induction pl ch i p nb avail idx off mem rule: describe_levels_loop.induct)
  case (1 pl ch i p nb avail idx off mem)
  show ?case
  proof (cases "4 \<le> avail \<and> ucast idx < nb
      \<and> fst (plat_voltd_levels_array pl ch i (ucast idx) p) = 0")
    case False
    then have "idx' = idx \<and> mem' = mem"
      using 1(3) by (subst (asm) describe_levels_loop.simps) (auto split: if_splits prod.splits)
    then show ?thesis by (auto intro: exI [of _ 0])
  next
    case True
    obtain lev where lev: "plat_voltd_levels_array pl ch i (ucast idx) p = (0, lev)"
      using True by (metis prod.collapse)
    have avail: "unat (avail - 4) = unat avail - 4" and ge: "4 \<le> unat avail"
      using True by (auto simp: unat_sub word_le_nat_alt)
    let ?mem = "copy_bytes mem off (le32 (ucast lev))"
    have run: "describe_levels_loop pl ch i p nb (avail - 4) (idx + 1) (off + 4) ?mem = (st, idx', mem')"
      using 1(3) True lev by (subst (asm) describe_levels_loop.simps) simp
    have room: "unat (avail - 4) + (off + 4) \<le> lim" using avail ge 1(2) by linarith
    have IH: "(\<forall>k. k < off + 4 \<or> lim \<le> k \<longrightarrow> mem' k = ?mem k)
        \<and> (\<exists>n. idx' = idx + 1 + word_of_nat n \<and> 4 * n \<le> unat (avail - 4))"
      using 1(1) [OF _ lev [symmetric] _ room run] True by simp
    have "mem' k = mem k" if "k < off \<or> lim \<le> k" for k
      using IH that room copy_bytes_outside [of k off "le32 (ucast lev)" mem] by force
    moreover from IH obtain n where n: "idx' = idx + 1 + word_of_nat n" "4 * n \<le> unat (avail - 4)"
      by blast
    have "idx' = idx + word_of_nat (Suc n)" using n(1) by simp
    moreover have "4 * Suc n \<le> unat avail" using n(2) avail ge by simp
    ultimately show ?thesis by blast
  qed
qed

lemma describe_levels_in [scmi_in]:
  assumes four: "4 \<le> unat (out_size msg)" and lim: "unat (out_size msg) < 2 ^ 32"
  shows "responds_in msg (scmi_voltd_describe_levels pl msg p)"
proof -
  have err: "responds_in msg (reply p (scmi_status_response (msg\<lparr>msg_out := mem\<rparr>) st))"
    if "\<And>k. unat (out_size msg) \<le> k \<Longrightarrow> mem k = msg_out msg k" for mem st
    using that four
    by (simp add: responds_in_def reply_def scmi_status_response_def le_64_nat stays_in_def
        copy_bytes_outside)
  have fin: "responds_in msg (reply p (Some (msg\<lparr>
        msg_out := copy_bytes mem 0 (le32 SCMI_SUCCESS @ le32 flags),
        out_size_out := 8 + ucast cnt * 4\<rparr>)))"
    if "\<And>k. unat (out_size msg) \<le> k \<Longrightarrow> mem k = msg_out msg k"
      and "cnt = word_of_nat n" and "4 * n + 8 \<le> unat (out_size msg)" and "n < 2 ^ 32"
    for mem flags n and cnt :: "32 word"
  proof -
    have "unat cnt = n" using that(2,4) by (simp add: unat_of_nat_exact)
    then have mul: "unat (ucast cnt * 4 :: size_t) = 4 * n"
      using that(4) by (subst unat_mult_lem [THEN iffD1]) auto
    then have "unat (8 + ucast cnt * 4 :: size_t) = 8 + 4 * n"
      using that(4) by (subst unat_add_exact) auto
    then show ?thesis
      using that by (simp add: responds_in_def reply_def stays_in_def copy_bytes_outside)
  qed
  have loop: "responds_in msg (case describe_levels_loop pl ch i p nb (out_size msg - 8) idx 8 (msg_out msg)
      of (status, level_index, mem) \<Rightarrow>
        if status \<noteq> 0 then reply p (scmi_status_response (msg\<lparr>msg_out := mem\<rparr>) status)
        else reply p (Some (msg\<lparr>
          msg_out := copy_bytes mem 0 (le32 SCMI_SUCCESS
            @ le32 (LEVELS_FLAGS (level_index - idx) 0 (ucast nb - idx))),
          out_size_out := 8 + ucast (level_index - idx) * 4\<rparr>)))"
    if "\<not> out_size msg < 8" for ch i nb idx
  proof -
    have big: "8 \<le> unat (out_size msg)" using that by (simp add: word_less_nat_alt)
    have eight: "unat (out_size msg - 8) = unat (out_size msg) - 8"
      using big by (subst unat_sub_exact) auto
    obtain st idx' mem where run: "describe_levels_loop pl ch i p nb (out_size msg - 8) idx 8
        (msg_out msg) = (st, idx', mem)" by (metis prod_cases3)
    then obtain n where n: "idx' = idx + word_of_nat n" "4 * n \<le> unat (out_size msg - 8)"
      and outside: "\<And>k. unat (out_size msg) \<le> k \<Longrightarrow> mem k = msg_out msg k"
      using describe_levels_loop_in [OF _ run, of "unat (out_size msg)"] eight big by auto
    show ?thesis
    proof (cases "st = 0")
      case True
      have "idx' - idx = word_of_nat n" using n(1) by simp
      moreover have "4 * n + 8 \<le> unat (out_size msg)" "n < 2 ^ 32"
        using n(2) eight big lim by linarith+
      ultimately show ?thesis using run True fin [OF outside] by simp
    qed (use run err [OF outside] in simp)
  qed
  have step: "responds_in msg (case plat_voltd_levels_by_step pl ch i p of (status, l0, l1, l2) \<Rightarrow>
      if status \<noteq> 0 then reply p (scmi_status_response (msg\<lparr>msg_out := msg_out msg\<rparr>) status)
      else reply p (Some (msg\<lparr>
        msg_out := copy_bytes (copy_bytes (msg_out msg) 8
            (le32 (ucast l0) @ le32 (ucast l1) @ le32 (ucast l2))) 0
          (le32 SCMI_SUCCESS @ le32 (LEVELS_FLAGS 3 1 0)),
        out_size_out := 8 + ucast (3 :: 32 word) * 4\<rparr>)))"
    if "\<not> out_size msg < 8 + 3 * 4" for ch i
  proof -
    obtain st l0 l1 l2 where res: "plat_voltd_levels_by_step pl ch i p = (st, l0, l1, l2)"
      by (metis prod_cases4)
    have "20 \<le> unat (out_size msg)" using that by (simp add: word_less_nat_alt)
    then show ?thesis
      using err [of "msg_out msg" st] res
        fin [of "copy_bytes (msg_out msg) 8 (le32 (ucast l0) @ le32 (ucast l1) @ le32 (ucast l2))" 3 3]
      by (simp add: copy_bytes_outside)
  qed
  show ?thesis
    using loop step err [of "msg_out msg"]
    unfolding scmi_voltd_describe_levels_def Let_def
    by (auto split: if_split prod.split)
qed

lemma voltd_simple_in [scmi_in]:
  assumes "4 \<le> unat (out_size msg)"
  shows "responds_in msg (voltd_report_version strict pl msg p)"
    and "responds_in msg (voltd_report_message_attributes pl msg p)"
    and "responds_in msg (scmi_voltd_config_set pl msg p)"
    and "responds_in msg (scmi_voltd_config_get pl msg p)"
    and "responds_in msg (scmi_voltd_level_set pl msg p)"
    and "responds_in msg (scmi_voltd_level_get pl msg p)"
  using assms
  by (simp_all add: voltd_report_version_def Let_def voltd_report_message_attributes_def
      scmi_voltd_config_set_def scmi_voltd_config_get_def scmi_voltd_level_set_def
      scmi_voltd_level_get_def status_responds_in write_responds_in split: prod.split)

lemma voltd_attributes_in [scmi_in]:
  assumes "voltd_plat_ok pl" and "4 \<le> unat (out_size msg)"
  shows "responds_in msg (voltd_report_attributes strict pl msg p)"
    and "responds_in msg (scmi_voltd_domain_attributes pl msg p)"
  using assms
  by (auto simp: voltd_report_attributes_def scmi_voltd_domain_attributes_def Let_def
      voltd_plat_ok_def status_responds_in copy_name_identifier_def padded_length
      intro!: write_responds_in split: option.split)

lemma voltd_handlers_in:
  assumes ok: "voltd_plat_ok pl" and out: "out_ok msg"
    and h: "scmi_msg_get_voltd_handler strict msg = Some h"
  shows "responds_in msg (h pl msg p)"
proof -
  have "h \<in> set (voltd_handler_array strict)"
    using h nth_mem [of _ "voltd_handler_array strict"]
    by (auto simp: scmi_msg_get_voltd_handler_eq split: if_splits)
  moreover have "4 \<le> unat (out_size msg)" "unat (out_size msg) < 2 ^ 32"
    using out by (simp_all add: out_ok_def)
  ultimately show ?thesis
    using ok unfolding voltd_handler_array_def by (auto intro: scmi_in)
qed

end
