(* ===== verification/ScmiServer.thy ===== *)
theory ScmiServer
  imports ScmiBase ScmiClock ScmiReset ScmiVoltage
begin

text \<open>
  Dispatch of SCMI messages and the entry points of the server
  (\<open>core/drivers/scmi-msg/entry.c\<close>, \<open>smt.c\<close>, \<open>shm_msg.c\<close>), and what the server guarantees as
  a whole. Other than the code, the model names the platform functions in a record, so one
  development covers every platform that keeps its contract.
\<close>

section \<open>Dispatch\<close>

text \<open>The build options: the optional protocols, and strict input sizes.\<close>

record scmi_cfg =
  cfg_clock :: bool
  cfg_reset :: bool
  cfg_voltage :: bool
  cfg_strict :: bool

definition scmi_get_handler :: "scmi_cfg \<Rightarrow> scmi_msg \<Rightarrow> 'p scmi_handler option" where
  "scmi_get_handler cfg msg =
     (if protocol_id msg = 0x10 then scmi_msg_get_base_handler msg
      else if protocol_id msg = 0x14
      then (if cfg_clock cfg then scmi_msg_get_clock_handler msg else None)
      else if protocol_id msg = 0x16
      then (if cfg_reset cfg then scmi_msg_get_rd_handler msg else None)
      else if protocol_id msg = 0x17
      then (if cfg_voltage cfg then scmi_msg_get_voltd_handler (cfg_strict cfg) msg else None)
      else None)"

definition scmi_process_message :: "scmi_cfg \<Rightarrow> 'p scmi_handler" where
  "scmi_process_message cfg pl msg p =
     (case scmi_get_handler cfg msg of
        Some handler \<Rightarrow> handler pl msg p
      | None \<Rightarrow> reply p (scmi_status_response msg SCMI_NOT_SUPPORTED))"

section \<open>The platform contract\<close>

text \<open>
  What the server relies on: names of at most 15 characters, a terminated protocol list, at
  most the one rate asked for, and a number of voltage domains that fits its field.
\<close>

locale scmi_platform =
  fixes pl :: "'p scmi_plat"
  assumes base: "base_plat_ok pl"
    and clock: "clock_plat_ok pl"
    and reset: "rd_plat_ok pl"
    and voltage: "voltd_plat_ok pl"
begin

lemma handler_in: "scmi_get_handler cfg msg = Some h \<Longrightarrow> out_ok msg \<Longrightarrow> responds_in msg (h pl msg p)"
  using base_handlers_in [OF base] clock_handlers_in [OF clock] rd_handlers_in [OF reset]
    voltd_handlers_in [OF voltage]
  unfolding scmi_get_handler_def by (auto split: if_splits)

lemma process_in: "out_ok msg \<Longrightarrow> responds_in msg (scmi_process_message cfg pl msg p)"
  using handler_in
  by (auto simp: scmi_process_message_def out_ok_def intro: status_responds_in split: option.split)

end

text \<open>The platform of the weak functions; it lists no protocol and has empty names.\<close>

definition weak_plat :: "'p scmi_plat" where
  "weak_plat = \<lparr>plat_protocol_count = 0, plat_protocol_list = \<lambda>c. None,
     plat_vendor_name = [], plat_sub_vendor_name = [],
     plat_clock_count = weak_scmi_clock_count, plat_clock_get_name = weak_scmi_clock_get_name,
     plat_clock_rates_count = weak_scmi_clock_rates_count,
     plat_clock_rates_array = weak_scmi_clock_rates_array,
     plat_clock_rates_by_step = weak_scmi_clock_rates_by_step,
     plat_clock_get_rate = weak_scmi_clock_get_rate,
     plat_clock_set_rate = weak_scmi_clock_set_rate,
     plat_clock_get_state = weak_scmi_clock_get_state,
     plat_clock_set_state = weak_scmi_clock_set_state,
     plat_rd_count = weak_scmi_rd_count, plat_rd_get_name = weak_scmi_rd_get_name,
     plat_rd_autonomous = weak_scmi_rd_autonomous, plat_rd_set_state = weak_scmi_rd_set_state,
     plat_voltd_count = weak_scmi_voltd_count, plat_voltd_get_name = weak_scmi_voltd_get_name,
     plat_voltd_levels_count = weak_scmi_voltd_levels_count,
     plat_voltd_levels_array = weak_scmi_voltd_levels_array,
     plat_voltd_levels_by_step = weak_scmi_voltd_levels_by_step,
     plat_voltd_get_level = weak_scmi_voltd_get_level,
     plat_voltd_set_level = weak_scmi_voltd_set_level,
     plat_voltd_get_config = weak_scmi_voltd_get_config,
     plat_voltd_set_config = weak_scmi_voltd_set_config\<rparr>"

interpretation weak: scmi_platform weak_plat
  by unfold_locales
     (simp_all add: weak_plat_def base_plat_ok_def clock_plat_ok_def rd_plat_ok_def
       voltd_plat_ok_def weak_scmi_clock_get_name_def weak_scmi_clock_rates_array_def
       weak_scmi_rd_get_name_def weak_scmi_voltd_get_name_def weak_scmi_voltd_count_def)

text \<open>A small platform for examples: one clock whose rate is the state, and its two rates.\<close>

definition one_clock :: "64 word scmi_plat" where
  "one_clock = weak_plat\<lparr>plat_clock_count := \<lambda>c. 1,
     plat_clock_rates_count := \<lambda>c i p. (0, 1),
     plat_clock_rates_array := \<lambda>c i start p. (0, [p]),
     plat_clock_get_rate := \<lambda>c i p. p,
     plat_clock_set_rate := \<lambda>c i rate p. (0, rate)\<rparr>"

interpretation one_clock: scmi_platform one_clock
  by unfold_locales
     (simp_all add: one_clock_def weak_plat_def base_plat_ok_def clock_plat_ok_def rd_plat_ok_def
       voltd_plat_ok_def weak_scmi_clock_get_name_def weak_scmi_rd_get_name_def
       weak_scmi_voltd_get_name_def weak_scmi_voltd_count_def)

lemma one_clock_sel [simp]:
  "plat_clock_count one_clock = (\<lambda>c. 1)"
  "plat_clock_rates_count one_clock = (\<lambda>c i p. (0, 1))"
  "plat_clock_rates_array one_clock = (\<lambda>c i start p. (0, [p]))"
  "plat_clock_get_rate one_clock = (\<lambda>c i p. p)"
  "plat_clock_set_rate one_clock = (\<lambda>c i rate p. (0, rate))"
  by (simp_all add: one_clock_def)

definition all_on :: scmi_cfg where
  "all_on = \<lparr>cfg_clock = True, cfg_reset = True, cfg_voltage = True, cfg_strict = True\<rparr>"

definition example_msg :: "32 word \<Rightarrow> 32 word \<Rightarrow> byte list \<Rightarrow> size_t \<Rightarrow> scmi_msg" where
  "example_msg prot mid payload out =
     \<lparr>channel_id = 0, protocol_id = prot, message_id = mid,
      msg_in = copy_bytes (\<lambda>_. 0) 0 payload, in_size = word_of_nat (length payload),
      msg_out = \<lambda>_. 0, out_size = out, out_size_out = 0\<rparr>"

section \<open>Entry points\<close>

record scmi_msg_channel =
  shm_addr :: bool     \<comment> \<open>whether the channel has a shared buffer\<close>
  shm_size :: size_t
  busy :: bool

text \<open>\<open>scmi_msg_claim_channel\<close>, atomic under its spinlock: success and the new channel.\<close>

definition scmi_msg_claim_channel :: "scmi_msg_channel \<Rightarrow> bool \<times> scmi_msg_channel" where
  "scmi_msg_claim_channel c =
     (let channel_is_busy = busy c in
      (\<not> channel_is_busy, if \<not> channel_is_busy then c\<lparr>busy := True\<rparr> else c))"

definition scmi_msg_release_channel :: "scmi_msg_channel \<Rightarrow> scmi_msg_channel" where
  "scmi_msg_release_channel c = c\<lparr>busy := False\<rparr>"

text \<open>
  The agent owns the shared buffer and may change it between two reads, so each read of
  \<open>scmi_entry_smt\<close> has a value of its own; \<open>message_header\<close> is read twice.
\<close>

record smt_reads =
  rd_status :: "32 word"
  rd_length :: "32 word"
  rd_header_prot :: "32 word"
  rd_header_msg :: "32 word"
  rd_payload :: "nat \<Rightarrow> byte"

text \<open>What the call leaves: the bits or-ed into \<open>status\<close>, and \<open>length\<close> if it was written.\<close>

record 'p smt_result =
  res_channel :: scmi_msg_channel
  res_status_bits :: "32 word"
  res_length :: "32 word option"
  res_payload :: "nat \<Rightarrow> byte"
  res_plat :: 'p

definition SMT_STATUS_FREE :: "32 word" where "SMT_STATUS_FREE = 1"
definition SMT_STATUS_ERROR :: "32 word" where "SMT_STATUS_ERROR = 2"

definition SMT_HDR_MSG_ID :: "32 word \<Rightarrow> 32 word" where
  "SMT_HDR_MSG_ID hdr = hdr AND 0xFF"

definition SMT_HDR_PROT_ID :: "32 word \<Rightarrow> 32 word" where
  "SMT_HDR_PROT_ID hdr = drop_bit 10 (hdr AND 0x3FC00)"

definition SCMI_SEC_PAYLOAD_SIZE :: size_t where "SCMI_SEC_PAYLOAD_SIZE = 92"

text \<open>
  \<open>scmi_entry_smt\<close> for a channel that exists. \<open>shm\<close> is the memory from \<open>payload\<close> on,
  \<open>payload_buf\<close> the secure buffer with what an earlier message left in it. The header takes 32
  bytes. \<open>None\<close>: an assertion failed; the \<open>else\<close> branches of the first \<open>if\<close>s are \<open>goto out\<close>.
\<close>

definition scmi_entry_smt ::
    "scmi_cfg \<Rightarrow> 'p scmi_plat \<Rightarrow> 32 word \<Rightarrow> scmi_msg_channel \<Rightarrow> smt_reads \<Rightarrow> (nat \<Rightarrow> byte)
     \<Rightarrow> (nat \<Rightarrow> byte) \<Rightarrow> 'p \<Rightarrow> 'p smt_result option" where
  "scmi_entry_smt cfg pl ch channel rd payload_buf shm p =
     (let out = (\<lambda>c. Some \<lparr>res_channel = c, res_status_bits = SMT_STATUS_ERROR OR SMT_STATUS_FREE,
                       res_length = None, res_payload = shm, res_plat = p\<rparr>)
      in
      if \<not> shm_addr channel then
        Some \<lparr>res_channel = channel, res_status_bits = 0, res_length = None, res_payload = shm,
              res_plat = p\<rparr>
      else
        case scmi_msg_claim_channel channel of (claimed, c) \<Rightarrow>
          if \<not> claimed then out c
          else
            let smt_status = rd_status rd; in_payload_size = ucast (rd_length rd) - 4 in
            if in_payload_size > SCMI_SEC_PAYLOAD_SIZE then out c
            else if smt_status AND (SMT_STATUS_ERROR OR SMT_STATUS_FREE) \<noteq> 0 then out c
            else
              let msg =
                \<lparr>channel_id = ch, protocol_id = SMT_HDR_PROT_ID (rd_header_prot rd),
                 message_id = SMT_HDR_MSG_ID (rd_header_msg rd),
                 msg_in = (\<lambda>k. if k < unat in_payload_size then rd_payload rd k else payload_buf k),
                 in_size = in_payload_size, msg_out = shm, out_size = shm_size c - 32,
                 out_size_out = 0\<rparr>
              in
              if out_size msg < 4 then None
              else
                case scmi_process_message cfg pl msg p of
                  None \<Rightarrow> None
                | Some (msg', p') \<Rightarrow>
                    Some \<lparr>res_channel = scmi_msg_release_channel c,
                          res_status_bits = SMT_STATUS_FREE,
                          res_length = Some (ucast (out_size_out msg' + 4)),
                          res_payload = msg_out msg', res_plat = p'\<rparr>)"

text \<open>
  \<open>scmi_entry_msg\<close>: \<open>header\<close> is the first word of the input buffer, \<open>aligned\<close> whether both
  buffers are aligned; \<open>out_buf\<close> is the memory behind the output header. The result has the
  new \<open>*out_size\<close>.
\<close>

record 'p shm_msg_result =
  msg_channel :: scmi_msg_channel
  msg_out_size :: size_t
  msg_out_buf :: "nat \<Rightarrow> byte"
  msg_plat :: 'p

definition scmi_entry_msg ::
    "scmi_cfg \<Rightarrow> 'p scmi_plat \<Rightarrow> 32 word \<Rightarrow> scmi_msg_channel option \<Rightarrow> 32 word \<Rightarrow> (nat \<Rightarrow> byte)
     \<Rightarrow> size_t \<Rightarrow> (nat \<Rightarrow> byte) \<Rightarrow> size_t \<Rightarrow> bool \<Rightarrow> (nat \<Rightarrow> byte) \<Rightarrow> 'p
     \<Rightarrow> (tee_result + 'p shm_msg_result) option" where
  "scmi_entry_msg cfg pl ch channel header in_payload in_len out_buf out_len aligned sec_buf p =
     (case channel of
        None \<Rightarrow> Some (Inl TEE_ERROR_BAD_PARAMETERS)
      | Some c0 \<Rightarrow>
          if in_len < 4 \<or> in_len - 4 > SCMI_SEC_PAYLOAD_SIZE \<or> \<not> aligned \<or> out_len < 4
          then Some (Inl TEE_ERROR_BAD_PARAMETERS)
          else
            case scmi_msg_claim_channel c0 of (claimed, c) \<Rightarrow>
              if \<not> claimed then Some (Inl TEE_ERROR_BUSY)
              else
                let msg =
                  \<lparr>channel_id = ch, protocol_id = SMT_HDR_PROT_ID header,
                   message_id = SMT_HDR_MSG_ID header,
                   msg_in = (\<lambda>k. if k < unat (in_len - 4) then in_payload k else sec_buf k),
                   in_size = in_len - 4, msg_out = out_buf, out_size = out_len - 4,
                   out_size_out = 0\<rparr>
                in
                case scmi_process_message cfg pl msg p of
                  None \<Rightarrow> None
                | Some (msg', p') \<Rightarrow>
                    Some (Inr \<lparr>msg_channel = scmi_msg_release_channel c,
                               msg_out_size = out_size_out msg' + 4,
                               msg_out_buf = msg_out msg', msg_plat = p'\<rparr>))"

text \<open>
  Setting the shared memory of a channel up: \<open>struct smt_header\<close> without its payload, cleared except for the flag
  that no message is pending, and the buffer of the channel at \<open>base\<close> (zero takes it away). \<open>None\<close>: an
  assertion failed; \<open>virt_to_phys\<close> is a parameter.
\<close>

record smt_header =
  hdr_reserved0 :: "32 word"
  hdr_status :: "32 word"
  hdr_reserved1 :: "64 word"
  hdr_flags :: "32 word"
  hdr_length :: "32 word"
  hdr_message_header :: "32 word"

definition scmi_smt_init_agent_channel :: "scmi_msg_channel \<Rightarrow> smt_header option" where
  "scmi_smt_init_agent_channel channel =
     (if \<not> shm_addr channel then None
      else Some \<lparr>hdr_reserved0 = 0, hdr_status = SMT_STATUS_FREE, hdr_reserved1 = 0, hdr_flags = 0,
                 hdr_length = 0, hdr_message_header = 0\<rparr>)"

definition scmi_smt_set_shared_buffer ::
    "(64 word \<Rightarrow> 64 word) \<Rightarrow> scmi_msg_channel \<Rightarrow> 64 word \<Rightarrow> scmi_msg_channel option" where
  "scmi_smt_set_shared_buffer virt_to_phys channel base =
     (if base \<noteq> 0 \<and> (shm_addr channel \<or> virt_to_phys base = 0) then None
      else Some (channel\<lparr>shm_addr := base \<noteq> 0\<rparr>))"

text \<open>A channel that has just been set up has no message: looking at it reports an error and changes nothing else.\<close>

lemma smt_init_no_message:
  assumes "scmi_smt_set_shared_buffer v2p ch base = Some c" and "scmi_smt_init_agent_channel c = Some h"
    and "rd_status rd = hdr_status h"
  shows "base \<noteq> 0 \<and> (\<exists>r. scmi_entry_smt cfg pl n c rd buf shm p = Some r \<and> res_plat r = p
    \<and> res_payload r = shm \<and> res_status_bits r = SMT_STATUS_ERROR OR SMT_STATUS_FREE)"
  using assms
  by (auto simp: scmi_smt_set_shared_buffer_def scmi_smt_init_agent_channel_def scmi_entry_smt_def Let_def
      SMT_STATUS_FREE_def SMT_STATUS_ERROR_def scmi_msg_claim_channel_def split: if_splits)

end
