(* ===== verification/ScmiProps.thy ===== *)
theory ScmiProps
  imports ScmiServer
begin

text \<open>
  What the SCMI server guarantees as a whole: its responses fit, only valid requests act, the
  dispatcher and PROTOCOL_MESSAGE_ATTRIBUTES agree, rates survive the round trip, and messages
  do not leak into each other; and where two handlers and the entry points fall short.
\<close>

lemmas eval_dispatch = scmi_process_message_def scmi_get_handler_def all_on_def example_msg_def
  scmi_msg_get_clock_handler_eq clock_table_size_def scmi_clock_handler_table_def
  scmi_msg_get_base_handler_eq base_table_size_def scmi_base_handler_table_def
  scmi_msg_get_rd_handler_eq rd_table_size_def scmi_rd_handler_table_def
  scmi_msg_get_voltd_handler_eq voltd_table_size_def voltd_handler_array_def
  copy_bytes_append reply_def scmi_status_defs confine_array_index_def Let_def

section \<open>What the server guarantees\<close>




text \<open>Handlers other than the five that set something leave the platform as it is.\<close>

lemma base_keeps_state:
  "h \<in> set scmi_base_handler_table \<Longrightarrow> h pl msg p = Some (msg', p') \<Longrightarrow> p' = p"
  by (auto simp: scmi_base_handler_table_def base_report_version_def base_report_attributes_def
      base_report_message_attributes_def discover_vendor_def discover_sub_vendor_def
      discover_implementation_version_def discover_list_protocols_def reply_def Let_def
      split: if_splits option.splits)

lemma clock_keeps_state:
  assumes "h pl msg p = Some (msg', p')" and "p' \<noteq> p"
  shows "h \<noteq> clock_report_version" and "h \<noteq> clock_report_attributes"
    and "h \<noteq> clock_report_message_attributes" and "h \<noteq> scmi_clock_attributes"
    and "h \<noteq> scmi_clock_describe_rates" and "h \<noteq> scmi_clock_rate_get"
    and "h = scmi_clock_rate_set \<Longrightarrow>
      in_size msg = 16 \<and> ucast (rd32 (msg_in msg) 4) < plat_clock_count pl (channel_id msg)"
    and "h = scmi_clock_config_set \<Longrightarrow>
      in_size msg = 8 \<and> ucast (rd32 (msg_in msg) 0) < plat_clock_count pl (channel_id msg)"
  using assms
  by (auto simp: clock_report_version_def clock_report_attributes_def
      clock_report_message_attributes_def scmi_clock_attributes_def scmi_clock_describe_rates_def
      scmi_clock_rate_get_def scmi_clock_rate_set_def scmi_clock_config_set_def reply_def Let_def
      not_le split: if_splits option.splits prod.splits)

lemma rd_keeps_state:
  assumes "h pl msg p = Some (msg', p')" and "p' \<noteq> p"
  shows "h \<noteq> rd_report_version" and "h \<noteq> rd_report_attributes"
    and "h \<noteq> rd_report_message_attributes" and "h \<noteq> reset_domain_attributes"
    and "h = reset_request \<Longrightarrow>
      in_size msg = 12 \<and> ucast (rd32 (msg_in msg) 0) < plat_rd_count pl (channel_id msg)"
  using assms
  by (auto simp: rd_report_version_def rd_report_attributes_def rd_report_message_attributes_def
      reset_domain_attributes_def reset_request_def reply_def Let_def
      not_le split: if_splits option.splits prod.splits)

lemma voltd_keeps_state:
  assumes "h pl msg p = Some (msg', p')" and "p' \<noteq> p"
  shows "h \<noteq> voltd_report_version strict" and "h \<noteq> voltd_report_attributes strict"
    and "h \<noteq> voltd_report_message_attributes" and "h \<noteq> scmi_voltd_domain_attributes"
    and "h \<noteq> scmi_voltd_describe_levels" and "h \<noteq> scmi_voltd_config_get"
    and "h \<noteq> scmi_voltd_level_get"
    and "h = scmi_voltd_config_set \<Longrightarrow>
      in_size msg = 8 \<and> ucast (rd32 (msg_in msg) 0) < plat_voltd_count pl (channel_id msg)"
    and "h = scmi_voltd_level_set \<Longrightarrow>
      in_size msg = 12 \<and> ucast (rd32 (msg_in msg) 0) < plat_voltd_count pl (channel_id msg)"
  using assms
  by (auto simp: voltd_report_version_def voltd_report_attributes_def
      voltd_report_message_attributes_def scmi_voltd_domain_attributes_def
      scmi_voltd_describe_levels_def scmi_voltd_config_set_def scmi_voltd_config_get_def
      scmi_voltd_level_set_def scmi_voltd_level_get_def reply_def Let_def
      not_le split: if_splits option.splits prod.splits)

text \<open>The handler of a message is the entry of its table; which entry decides the identifier.\<close>

lemma word_from_unat: "unat (w :: 32 word) = n \<Longrightarrow> w = word_of_nat n"
  by auto

lemma clock_acting:
  assumes "scmi_msg_get_clock_handler msg = Some h" and "h pl msg p = Some (msg', p')"
    and "p' \<noteq> p"
  shows "(message_id msg, in_size msg) \<in> {(5, 16), (7, 8)}
    \<and> ucast (rd32 (msg_in msg) (if message_id msg = 5 then 4 else 0))
        < plat_clock_count pl (channel_id msg)"
proof -
  define i where "i = unat (message_id msg)"
  have h: "h = scmi_clock_handler_table ! i" and "i < 8"
    using assms(1) by (auto simp: scmi_msg_get_clock_handler_eq clock_table_size_def i_def
        split: if_splits)
  then have "i \<in> {0, 1, 2, 3, 4, 5, 6, 7}" by auto
  then have "i = 5 \<and> h = scmi_clock_rate_set \<or> i = 7 \<and> h = scmi_clock_config_set"
    using h clock_keeps_state [of h, OF assms(2,3)]
    by (auto simp: scmi_clock_handler_table_def)
  then have "message_id msg = 5 \<and> h = scmi_clock_rate_set
      \<or> message_id msg = 7 \<and> h = scmi_clock_config_set"
    using word_from_unat by (fastforce simp: i_def)
  then show ?thesis using clock_keeps_state(7,8) [of h, OF assms(2,3)] by auto
qed

lemma rd_acting:
  assumes "scmi_msg_get_rd_handler msg = Some h" and "h pl msg p = Some (msg', p')"
    and "p' \<noteq> p"
  shows "(message_id msg, in_size msg) = (4, 12)
    \<and> ucast (rd32 (msg_in msg) 0) < plat_rd_count pl (channel_id msg)"
proof -
  define i where "i = unat (message_id msg)"
  have h: "h = scmi_rd_handler_table ! i" and "i < 5"
    using assms(1) by (auto simp: scmi_msg_get_rd_handler_eq rd_table_size_def i_def
        split: if_splits)
  then have "i \<in> {0, 1, 2, 3, 4}" by auto
  then have "i = 4 \<and> h = reset_request"
    using h rd_keeps_state [of h, OF assms(2,3)] by (auto simp: scmi_rd_handler_table_def)
  then have "message_id msg = 4 \<and> h = reset_request"
    using word_from_unat by (fastforce simp: i_def)
  then show ?thesis using rd_keeps_state(5) [of h, OF assms(2,3)] by auto
qed

lemma voltd_acting:
  assumes "scmi_msg_get_voltd_handler strict msg = Some h" and "h pl msg p = Some (msg', p')"
    and "p' \<noteq> p"
  shows "(message_id msg, in_size msg) \<in> {(5, 8), (7, 12)}
    \<and> ucast (rd32 (msg_in msg) 0) < plat_voltd_count pl (channel_id msg)"
proof -
  define i where "i = unat (message_id msg)"
  have h: "h = voltd_handler_array strict ! i" and "i < 9"
    using assms(1) by (auto simp: scmi_msg_get_voltd_handler_eq voltd_table_size_def i_def
        split: if_splits)
  then have "i \<in> {0, 1, 2, 3, 4, 5, 6, 7, 8}" by auto
  then have "i = 5 \<and> h = scmi_voltd_config_set \<or> i = 7 \<and> h = scmi_voltd_level_set"
    using h voltd_keeps_state(1,2) [of h, OF assms(2,3), of strict]
      voltd_keeps_state(3-7) [of h, OF assms(2,3)]
    by (auto simp: voltd_handler_array_def)
  then have "message_id msg = 5 \<and> h = scmi_voltd_config_set
      \<or> message_id msg = 7 \<and> h = scmi_voltd_level_set"
    using word_from_unat by (fastforce simp: i_def)
  then show ?thesis using voltd_keeps_state(8,9) [of h, OF assms(2,3)] by auto
qed

lemma base_not_acting:
  assumes "scmi_msg_get_base_handler msg = Some h" and "h pl msg p = Some (msg', p')"
  shows "p' = p"
  using assms base_keeps_state [of h pl msg p msg' p'] nth_mem [of _ scmi_base_handler_table]
  by (auto simp: scmi_msg_get_base_handler_eq split: if_splits)

text \<open>
  C32: Only well-formed requests reach the platform. If a message changes the platform state, it
  is one of the five requests that set something, its payload has exactly the size of that
  request, and the clock or domain it names is below the number the platform reports for the
  channel.
\<close>

theorem scmi_only_valid_requests_act:
  assumes "scmi_process_message cfg pl msg p = Some (msg', p')" and "p' \<noteq> p"
  shows "(protocol_id msg, message_id msg, in_size msg) \<in>
      {(0x14, 5, 16), (0x14, 7, 8), (0x16, 4, 12), (0x17, 5, 8), (0x17, 7, 12)}
    \<and> (let i = ucast (rd32 (msg_in msg)
              (if protocol_id msg = 0x14 \<and> message_id msg = 5 then 4 else 0)) in
       if protocol_id msg = 0x14 then i < plat_clock_count pl (channel_id msg)
       else if protocol_id msg = 0x16 then i < plat_rd_count pl (channel_id msg)
       else i < plat_voltd_count pl (channel_id msg))"
proof -
  obtain h where h: "scmi_get_handler cfg msg = Some h" "h pl msg p = Some (msg', p')"
    using assms reply_state by (fastforce simp: scmi_process_message_def split: option.splits)
  consider (clock) "protocol_id msg = 0x14" "scmi_msg_get_clock_handler msg = Some h"
    | (reset) "protocol_id msg = 0x16" "scmi_msg_get_rd_handler msg = Some h"
    | (voltage) "protocol_id msg = 0x17" "scmi_msg_get_voltd_handler (cfg_strict cfg) msg = Some h"
    using h assms(2) base_not_acting by (fastforce simp: scmi_get_handler_def split: if_splits)
  then show ?thesis
  proof cases
    case clock
    then show ?thesis using clock_acting h(2) assms(2) by fastforce
  next
    case reset
    then show ?thesis using rd_acting h(2) assms(2) by fastforce
  next
    case voltage
    then show ?thesis using voltd_acting h(2) assms(2) by fastforce
  qed
qed

lemma scmi_only_valid_requests_act_witness:
  "(let i = ucast (rd32 (msg_in (example_msg 0x14 5 (le32 0 @ le32 0 @ le32 9 @ le32 0) 16)) 4)
    in i < plat_clock_count one_clock 0)"
proof -
  let ?m = "example_msg 0x14 5 (le32 0 @ le32 0 @ le32 9 @ le32 0) 16"
  have "scmi_process_message all_on one_clock ?m 7
      = Some (?m\<lparr>msg_out := copy_bytes (\<lambda>_. 0) 0 (le32 0), out_size_out := 4\<rparr>, 9)"
    by (simp add: eval_dispatch scmi_clock_rate_set_def scmi_status_response_def
        reg_pair_to_64_def)
  from scmi_only_valid_requests_act [OF this] show ?thesis
    by (simp add: example_msg_def)
qed

text \<open>
  PROTOCOL_MESSAGE_ATTRIBUTES agrees with the dispatcher: it answers success for an
  identifier exactly when the same protocol would find a handler for a message with that
  identifier, and "not found" otherwise.
\<close>

theorem scmi_message_attributes_agree:
  assumes "out_ok msg" and "message_id msg = 2" and "in_size msg = 4"
    and "(scmi_get_handler cfg msg :: 'p scmi_handler option) \<noteq> None"
  shows "\<exists>msg'. scmi_process_message cfg pl msg (p :: 'p) = Some (msg', p)
    \<and> response_status msg' =
        (if (scmi_get_handler cfg (msg\<lparr>message_id := rd32 (msg_in msg) 0\<rparr>) :: 'p scmi_handler option)
              = None then SCMI_NOT_FOUND else SCMI_SUCCESS)"
proof -
  let ?id = "rd32 (msg_in msg) 0"
  have success: "\<exists>msg'. reply p (scmi_write_response msg (le32 0 @ le32 0)) = Some (msg', p)
      \<and> response_status msg' = SCMI_SUCCESS" for p :: 'p
    using assms(1)
    by (simp add: scmi_write_response_def reply_def out_ok_def response_status_def
        copy_bytes_append SCMI_SUCCESS_def word_less_nat_alt Let_def not_less)
  have status: "\<exists>msg'. reply p (scmi_status_response msg SCMI_NOT_FOUND) = Some (msg', p)
      \<and> response_status msg' = SCMI_NOT_FOUND" for p :: 'p
    using assms(1)
    by (simp add: scmi_status_response_def reply_def out_ok_def response_status_def le_64_nat)
  show ?thesis
    using assms success status
    by (auto simp: scmi_process_message_def scmi_get_handler_def scmi_msg_get_base_handler_eq
        scmi_msg_get_clock_handler_eq scmi_msg_get_rd_handler_eq scmi_msg_get_voltd_handler_eq
        scmi_base_handler_table_def scmi_clock_handler_table_def scmi_rd_handler_table_def
        voltd_handler_array_def base_report_message_attributes_def
        clock_report_message_attributes_def rd_report_message_attributes_def
        voltd_report_message_attributes_def base_message_id_is_supported_def
        clock_message_id_is_supported_def rd_message_id_is_supported_def
        voltd_message_id_is_supported_def SCMI_SUCCESS_def split: if_splits)
qed

lemma scmi_message_attributes_agree_witness:
  "\<exists>msg'. scmi_process_message all_on one_clock (example_msg 0x14 2 (le32 9) 16) 7 = Some (msg', 7)
    \<and> response_status msg' = SCMI_NOT_FOUND"
  using scmi_message_attributes_agree [of "example_msg 0x14 2 (le32 9) 16" all_on one_clock 7]
  by (simp add: eval_dispatch out_ok_def)


text \<open>
  A rate survives the way to the platform and back: if the platform accepts a rate and then
  reports it, the two words of the answer to CLOCK_RATE_GET are the two words that
  CLOCK_RATE_SET carried.
\<close>

theorem scmi_clock_rate_roundtrip:
  assumes "out_ok set_msg" and "out_ok get_msg" and "cfg_clock cfg"
    and "protocol_id set_msg = 0x14" and "message_id set_msg = 5" and "in_size set_msg = 16"
    and "protocol_id get_msg = 0x14" and "message_id get_msg = 6" and "in_size get_msg = 4"
    and "16 \<le> unat (out_size get_msg)"
    and "channel_id get_msg = channel_id set_msg"
    and "rd32 (msg_in get_msg) 0 = rd32 (msg_in set_msg) 4"
    and "ucast (rd32 (msg_in get_msg) 0) < plat_clock_count pl (channel_id set_msg)"
    and "\<And>ch i r p. fst (plat_clock_set_rate pl ch i r p) = 0
           \<and> plat_clock_get_rate pl ch i (snd (plat_clock_set_rate pl ch i r p)) = r"
  shows "\<exists>p' a b. scmi_process_message cfg pl set_msg p = Some (a, p')
    \<and> scmi_process_message cfg pl get_msg p' = Some (b, p')
    \<and> response_status a = SCMI_SUCCESS \<and> response_status b = SCMI_SUCCESS
    \<and> rd32 (msg_out b) 4 = rd32 (msg_in set_msg) 8 \<and> rd32 (msg_out b) 8 = rd32 (msg_in set_msg) 12"
proof -
  let ?ch = "channel_id set_msg" and ?i = "rd32 (msg_in set_msg) 4"
  let ?lo = "rd32 (msg_in set_msg) 8" and ?hi = "rd32 (msg_in set_msg) 12"
  let ?rate = "reg_pair_to_64 ?hi ?lo"
  obtain p' where set: "plat_clock_set_rate pl ?ch ?i ?rate p = (0, p')"
    using assms(14) by (metis prod.collapse)
  then have get: "plat_clock_get_rate pl ?ch ?i p' = ?rate"
    using assms(14) by (metis snd_conv)
  note pair = reg_pair_from_to [of ?hi ?lo]
  have count: "\<not> plat_clock_count pl ?ch \<le> ucast ?i" using assms(12,13) by simp
  let ?a = "set_msg\<lparr>msg_out := copy_bytes (msg_out set_msg) 0 (le32 0), out_size_out := 4\<rparr>"
  let ?b = "get_msg\<lparr>msg_out := copy_bytes (msg_out get_msg) 0 (le32 0 @ le32 ?lo @ le32 ?hi),
    out_size_out := 12\<rparr>"
  have "scmi_process_message cfg pl set_msg p = Some (?a, p')"
    using assms(1,3-6) set count
    by (simp add: scmi_process_message_def scmi_get_handler_def scmi_msg_get_clock_handler_eq
        clock_table_size_def scmi_clock_handler_table_def scmi_clock_rate_set_def reply_def
        scmi_status_response_def out_ok_def le_64_nat Let_def)
  moreover have "scmi_process_message cfg pl get_msg p' = Some (?b, p')"
    using assms(2,3,7-12) get count pair
    by (simp add: scmi_process_message_def scmi_get_handler_def scmi_msg_get_clock_handler_eq
        clock_table_size_def scmi_clock_handler_table_def scmi_clock_rate_get_def reply_def
        scmi_write_response_def out_ok_def word_less_nat_alt Let_def)
  ultimately show ?thesis
    by (simp add: response_status_def copy_bytes_append SCMI_SUCCESS_def)
qed

lemma scmi_clock_rate_roundtrip_witness:
  "\<exists>p' a b.
    scmi_process_message all_on one_clock
      (example_msg 0x14 5 (le32 0 @ le32 0 @ le32 9 @ le32 1) 16) 7 = Some (a, p')
    \<and> scmi_process_message all_on one_clock (example_msg 0x14 6 (le32 0) 16) p' = Some (b, p')
    \<and> response_status a = SCMI_SUCCESS \<and> response_status b = SCMI_SUCCESS
    \<and> rd32 (msg_out b) 4 = 9 \<and> rd32 (msg_out b) 8 = 1"
proof -
  have in_set: "rd32 (msg_in (example_msg 0x14 5 (le32 0 @ le32 0 @ le32 9 @ le32 1) 16)) 8 = 9"
    "rd32 (msg_in (example_msg 0x14 5 (le32 0 @ le32 0 @ le32 9 @ le32 1) 16)) 12 = 1"
    by (simp_all add: example_msg_def copy_bytes_append)
  have ok: "out_ok (example_msg 0x14 5 (le32 0 @ le32 0 @ le32 9 @ le32 1) 16)"
    "out_ok (example_msg 0x14 6 (le32 0) 16)"
    by (simp_all add: example_msg_def out_ok_def)
  from scmi_clock_rate_roundtrip [OF ok, of all_on one_clock 7] show ?thesis
    unfolding in_set by (simp add: example_msg_def all_on_def copy_bytes_append)
qed

section \<open>Stale bytes of the secure buffer\<close>

text \<open>The secure input buffer with other bytes behind the payload, and results carried over.\<close>

definition in_agree :: "scmi_msg \<Rightarrow> (nat \<Rightarrow> byte) \<Rightarrow> bool" where
  "in_agree msg b \<longleftrightarrow> (\<forall>k < unat (in_size msg). b k = msg_in msg k)"

definition with_in :: "(nat \<Rightarrow> byte) \<Rightarrow> 'p handler_result \<Rightarrow> 'p handler_result" where
  "with_in b r = map_option (\<lambda>(m, p). (m\<lparr>msg_in := b\<rparr>, p)) r"

lemma rd_agree:
  assumes "in_agree msg b" and "in_size msg = w" and "off + 4 \<le> unat w"
  shows "rd32 b off = rd32 (msg_in msg) off"
  using assms by (intro rd32_cong) (auto simp: in_agree_def)

lemma status_with_in [simp]:
  "reply p (scmi_status_response (m\<lparr>msg_in := b\<rparr>) st) = with_in b (reply p (scmi_status_response m st))"
  by (simp add: reply_def scmi_status_response_def with_in_def)

lemma write_with_in [simp]:
  "reply p (scmi_write_response (m\<lparr>msg_in := b\<rparr>) bs) = with_in b (reply p (scmi_write_response m bs))"
  by (simp add: reply_def scmi_write_response_def scmi_status_response_def with_in_def Let_def)

lemma with_in_simps [simp]:
  "with_in b None = None" "with_in b (Some (m, p)) = Some (m\<lparr>msg_in := b\<rparr>, p)"
  "with_in b (reply p (Some m)) = reply p (Some (m\<lparr>msg_in := b\<rparr>))"
  by (simp_all add: with_in_def reply_def)

lemma msg_in_outermost [simp]:
  "m\<lparr>msg_in := b, msg_out := x\<rparr> = m\<lparr>msg_out := x, msg_in := b\<rparr>"
  "m\<lparr>msg_in := b, out_size_out := n\<rparr> = m\<lparr>out_size_out := n, msg_in := b\<rparr>"
  by simp_all

lemma base_stale:
  assumes "in_agree msg b"
  shows "base_report_version pl (msg\<lparr>msg_in := b\<rparr>) p = with_in b (base_report_version pl msg p)"
    and "base_report_attributes pl (msg\<lparr>msg_in := b\<rparr>) p = with_in b (base_report_attributes pl msg p)"
    and "base_report_message_attributes pl (msg\<lparr>msg_in := b\<rparr>) p
           = with_in b (base_report_message_attributes pl msg p)"
    and "discover_vendor pl (msg\<lparr>msg_in := b\<rparr>) p = with_in b (discover_vendor pl msg p)"
    and "discover_sub_vendor pl (msg\<lparr>msg_in := b\<rparr>) p = with_in b (discover_sub_vendor pl msg p)"
    and "discover_implementation_version pl (msg\<lparr>msg_in := b\<rparr>) p
           = with_in b (discover_implementation_version pl msg p)"
    and "discover_list_protocols pl (msg\<lparr>msg_in := b\<rparr>) p
           = with_in b (discover_list_protocols pl msg p)"
  by (simp_all add: base_report_version_def base_report_attributes_def
      base_report_message_attributes_def discover_vendor_def discover_sub_vendor_def
      discover_implementation_version_def discover_list_protocols_def Let_def
      rd_agree [OF assms] split: option.split)

lemma clock_stale:
  assumes "in_agree msg b"
  shows "clock_report_version pl (msg\<lparr>msg_in := b\<rparr>) p = with_in b (clock_report_version pl msg p)"
    and "clock_report_attributes pl (msg\<lparr>msg_in := b\<rparr>) p
           = with_in b (clock_report_attributes pl msg p)"
    and "clock_report_message_attributes pl (msg\<lparr>msg_in := b\<rparr>) p
           = with_in b (clock_report_message_attributes pl msg p)"
    and "scmi_clock_attributes pl (msg\<lparr>msg_in := b\<rparr>) p = with_in b (scmi_clock_attributes pl msg p)"
    and "scmi_clock_rate_get pl (msg\<lparr>msg_in := b\<rparr>) p = with_in b (scmi_clock_rate_get pl msg p)"
    and "scmi_clock_rate_set pl (msg\<lparr>msg_in := b\<rparr>) p = with_in b (scmi_clock_rate_set pl msg p)"
    and "scmi_clock_config_set pl (msg\<lparr>msg_in := b\<rparr>) p = with_in b (scmi_clock_config_set pl msg p)"
  by (simp_all add: clock_report_version_def clock_report_attributes_def
      clock_report_message_attributes_def scmi_clock_attributes_def scmi_clock_rate_get_def
      scmi_clock_rate_set_def scmi_clock_config_set_def Let_def
      rd_agree [OF assms] split: option.split prod.split)

lemma describe_rates_stale:
  assumes "in_agree msg b"
  shows "scmi_clock_describe_rates pl (msg\<lparr>msg_in := b\<rparr>) p
    = with_in b (scmi_clock_describe_rates pl msg p)"
proof (cases "in_size msg = 8")
  case True
  then have "rd32 b 0 = rd32 (msg_in msg) 0" "rd32 b 4 = rd32 (msg_in msg) 4"
    using rd_agree [OF assms True, of 0] rd_agree [OF assms True, of 4] by simp_all
  then show ?thesis
    unfolding scmi_clock_describe_rates_def Let_def by (simp split: prod.split)
qed (simp add: scmi_clock_describe_rates_def Let_def)

lemma rd_stale:
  assumes "in_agree msg b"
  shows "rd_report_version pl (msg\<lparr>msg_in := b\<rparr>) p = with_in b (rd_report_version pl msg p)"
    and "rd_report_attributes pl (msg\<lparr>msg_in := b\<rparr>) p = with_in b (rd_report_attributes pl msg p)"
    and "rd_report_message_attributes pl (msg\<lparr>msg_in := b\<rparr>) p
           = with_in b (rd_report_message_attributes pl msg p)"
    and "reset_domain_attributes pl (msg\<lparr>msg_in := b\<rparr>) p
           = with_in b (reset_domain_attributes pl msg p)"
    and "reset_request pl (msg\<lparr>msg_in := b\<rparr>) p = with_in b (reset_request pl msg p)"
  by (simp_all add: rd_report_version_def rd_report_attributes_def
      rd_report_message_attributes_def reset_domain_attributes_def reset_request_def Let_def
      rd_agree [OF assms] split: option.split prod.split)

lemma voltd_stale:
  assumes "in_agree msg b"
  shows "voltd_report_version st pl (msg\<lparr>msg_in := b\<rparr>) p
           = with_in b (voltd_report_version st pl msg p)"
    and "voltd_report_attributes st pl (msg\<lparr>msg_in := b\<rparr>) p
           = with_in b (voltd_report_attributes st pl msg p)"
    and "voltd_report_message_attributes pl (msg\<lparr>msg_in := b\<rparr>) p
           = with_in b (voltd_report_message_attributes pl msg p)"
    and "scmi_voltd_domain_attributes pl (msg\<lparr>msg_in := b\<rparr>) p
           = with_in b (scmi_voltd_domain_attributes pl msg p)"
    and "scmi_voltd_config_set pl (msg\<lparr>msg_in := b\<rparr>) p = with_in b (scmi_voltd_config_set pl msg p)"
    and "scmi_voltd_config_get pl (msg\<lparr>msg_in := b\<rparr>) p = with_in b (scmi_voltd_config_get pl msg p)"
    and "scmi_voltd_level_set pl (msg\<lparr>msg_in := b\<rparr>) p = with_in b (scmi_voltd_level_set pl msg p)"
    and "scmi_voltd_level_get pl (msg\<lparr>msg_in := b\<rparr>) p = with_in b (scmi_voltd_level_get pl msg p)"
  by (simp_all add: voltd_report_version_def voltd_report_attributes_def
      voltd_report_message_attributes_def scmi_voltd_domain_attributes_def
      scmi_voltd_config_set_def scmi_voltd_config_get_def scmi_voltd_level_set_def
      scmi_voltd_level_get_def Let_def rd_agree [OF assms] split: option.split prod.split)

lemma describe_levels_stale:
  assumes "in_agree msg b"
  shows "scmi_voltd_describe_levels pl (msg\<lparr>msg_in := b\<rparr>) p
    = with_in b (scmi_voltd_describe_levels pl msg p)"
proof (cases "in_size msg = 8")
  case True
  then have "rd32 b 0 = rd32 (msg_in msg) 0" "rd32 b 4 = rd32 (msg_in msg) 4"
    using rd_agree [OF assms True, of 0] rd_agree [OF assms True, of 4] by simp_all
  then show ?thesis
    unfolding scmi_voltd_describe_levels_def Let_def by (simp split: prod.split)
qed (simp add: scmi_voltd_describe_levels_def Let_def)

lemma get_handler_in [simp]:
  "scmi_get_handler cfg (msg\<lparr>msg_in := b\<rparr>) = scmi_get_handler cfg msg"
  by (simp add: scmi_get_handler_def scmi_msg_get_base_handler_eq scmi_msg_get_clock_handler_eq
      scmi_msg_get_rd_handler_eq scmi_msg_get_voltd_handler_eq)

lemma base_table_stale:
  "h \<in> set scmi_base_handler_table \<Longrightarrow> in_agree msg b
   \<Longrightarrow> h pl (msg\<lparr>msg_in := b\<rparr>) p = with_in b (h pl msg p)"
  by (auto simp: scmi_base_handler_table_def base_stale)

lemma clock_table_stale:
  "h \<in> set scmi_clock_handler_table \<Longrightarrow> in_agree msg b
   \<Longrightarrow> h pl (msg\<lparr>msg_in := b\<rparr>) p = with_in b (h pl msg p)"
  by (auto simp: scmi_clock_handler_table_def clock_stale describe_rates_stale)

lemma rd_table_stale:
  "h \<in> set scmi_rd_handler_table \<Longrightarrow> in_agree msg b
   \<Longrightarrow> h pl (msg\<lparr>msg_in := b\<rparr>) p = with_in b (h pl msg p)"
  by (auto simp: scmi_rd_handler_table_def rd_stale)

lemma voltd_array_stale:
  "h \<in> set (voltd_handler_array st) \<Longrightarrow> in_agree msg b
   \<Longrightarrow> h pl (msg\<lparr>msg_in := b\<rparr>) p = with_in b (h pl msg p)"
  by (auto simp: voltd_handler_array_def voltd_stale describe_levels_stale)

lemma handler_stale:
  assumes "scmi_get_handler cfg msg = Some h" and "in_agree msg b"
  shows "h pl (msg\<lparr>msg_in := b\<rparr>) p = with_in b (h pl msg p)"
proof -
  have "h \<in> set scmi_base_handler_table \<or> h \<in> set scmi_clock_handler_table
      \<or> h \<in> set scmi_rd_handler_table \<or> h \<in> set (voltd_handler_array (cfg_strict cfg))"
    using assms(1)
    by (auto simp: scmi_get_handler_def scmi_msg_get_base_handler_eq scmi_msg_get_clock_handler_eq
        scmi_msg_get_rd_handler_eq scmi_msg_get_voltd_handler_eq split: if_splits)
  then show ?thesis
    by (elim disjE)
       (erule base_table_stale clock_table_stale rd_table_stale voltd_array_stale, rule assms(2))+
qed

text \<open>
  Nothing an earlier message left in the secure input buffer influences an answer: two
  buffers that agree on the payload of the message give the same response and the same change
  of the platform, also for \<open>reset_request\<close>, which reads its argument before it checks the size.
\<close>

theorem scmi_ignores_stale_input:
  assumes "\<forall>k < unat (in_size msg). b k = msg_in msg k"
  shows "scmi_process_message cfg pl (msg\<lparr>msg_in := b\<rparr>) p =
    map_option (\<lambda>(msg', p'). (msg'\<lparr>msg_in := b\<rparr>, p')) (scmi_process_message cfg pl msg p)"
proof -
  have "in_agree msg b" using assms by (simp add: in_agree_def)
  then have "scmi_process_message cfg pl (msg\<lparr>msg_in := b\<rparr>) p
      = with_in b (scmi_process_message cfg pl msg p)"
    by (simp add: scmi_process_message_def handler_stale split: option.split)
  then show ?thesis by (simp add: with_in_def)
qed

lemma scmi_ignores_stale_input_witness:
  "scmi_process_message all_on one_clock
     ((example_msg 0x16 4 (le32 0) 16)\<lparr>msg_in := copy_bytes (\<lambda>_. 0xAA) 0 (le32 0)\<rparr>) 7 =
   map_option (\<lambda>(msg', p'). (msg'\<lparr>msg_in := copy_bytes (\<lambda>_. 0xAA) 0 (le32 0)\<rparr>, p'))
     (scmi_process_message all_on one_clock (example_msg 0x16 4 (le32 0) 16) 7)"
  by (rule scmi_ignores_stale_input) (simp add: example_msg_def copy_bytes_def)

section \<open>The entry points\<close>

lemma small_payload:
  fixes w :: "32 word"
  shows "ucast w - 4 > SCMI_SEC_PAYLOAD_SIZE \<longleftrightarrow> unat w < 4 \<or> 96 < unat w"
proof (cases "unat w < 4")
  case True
  then have "unat (ucast w - 4 :: size_t) = unat w + 2 ^ 64 - 4"
    by (simp add: unat_sub_if_size word_size)
  then show ?thesis using True by (simp add: SCMI_SEC_PAYLOAD_SIZE_def word_less_nat_alt)
next
  case False
  then have "unat (ucast w - 4 :: size_t) = unat w - 4"
    by (subst unat_sub_exact) auto
  then show ?thesis
    using False by (auto simp: SCMI_SEC_PAYLOAD_SIZE_def word_less_nat_alt)
qed

text \<open>
  A well-formed request in a free channel is served: the response fits the shared buffer,
  the length field covers the response and the message header, the channel is released, and the
  status gets the "free" bit without the "error" bit. This holds whatever the agent writes to the
  shared buffer between the reads of the entry point.
\<close>

theorem scmi_smt_serves_request:
  assumes "scmi_platform pl" and "shm_addr c" and "\<not> busy c"
    and "4 \<le> unat (rd_length rd)" and "unat (rd_length rd) \<le> 96" and "rd_status rd AND 3 = 0"
    and "40 \<le> unat (shm_size c)" and "unat (shm_size c) < 2 ^ 32" and "4 dvd unat (shm_size c)"
  shows "\<exists>r len. scmi_entry_smt cfg pl ch c rd buf shm p = Some r
    \<and> res_channel r = c \<and> res_status_bits r = SMT_STATUS_FREE
    \<and> res_length r = Some len \<and> 8 \<le> unat len \<and> unat len \<le> unat (shm_size c) - 28
    \<and> (\<forall>k. unat (shm_size c) - 32 \<le> k \<longrightarrow> res_payload r k = shm k)"
proof -
  have n: "unat (shm_size c - 32) = unat (shm_size c) - 32"
    using assms(7) by (subst unat_sub_exact) auto
  obtain q where q: "unat (shm_size c) = 4 * q" using assms(9) by (auto elim: dvdE)
  have dvd: "4 dvd unat (shm_size c) - 32" unfolding q by (simp add: dvd_diff_nat)
  define msg where "msg =
    \<lparr>channel_id = ch, protocol_id = SMT_HDR_PROT_ID (rd_header_prot rd),
     message_id = SMT_HDR_MSG_ID (rd_header_msg rd),
     msg_in = (\<lambda>k. if k < unat (ucast (rd_length rd) - 4 :: size_t) then rd_payload rd k else buf k),
     in_size = ucast (rd_length rd) - 4, msg_out = shm, out_size = shm_size c - 32,
     out_size_out = 0\<rparr>"
  have "8 \<le> unat (shm_size c) - 32" "unat (shm_size c) - 32 < 2 ^ 32"
    using assms(7,8) by linarith+
  then have "out_ok msg" using n dvd by (simp add: out_ok_def msg_def)
  from scmi_platform.process_in [OF assms(1) this, of cfg p] obtain m' p' where
    run: "scmi_process_message cfg pl msg p = Some (m', p')" and ins: "stays_in msg m'"
    unfolding responds_in_def by blast
  have size: "4 \<le> unat (out_size_out m')" "unat (out_size_out m') \<le> unat (shm_size c) - 32"
    using ins n by (auto simp: stays_in_def msg_def)
  then have "unat (out_size_out m' + 4) = unat (out_size_out m') + 4"
    using assms(8) by (subst unat_add_exact) auto
  moreover then have "unat (ucast (out_size_out m' + 4) :: 32 word) = unat (out_size_out m') + 4"
    using size assms(7,8) by (subst unat_ucast_exact) auto
  moreover have "msg_out m' k = shm k" if "unat (shm_size c) - 32 \<le> k" for k
    using ins n that by (simp add: stays_in_def msg_def)
  moreover have "\<not> shm_size c - 32 < 4"
    using n assms(7) by (simp add: word_less_nat_alt)
  moreover have "SMT_STATUS_ERROR OR SMT_STATUS_FREE = 3"
    by (simp add: SMT_STATUS_ERROR_def SMT_STATUS_FREE_def)
  ultimately show ?thesis
    using assms run small_payload [of "rd_length rd"] size
    unfolding msg_def
    by (simp add: scmi_entry_smt_def scmi_msg_claim_channel_def scmi_msg_release_channel_def Let_def)
qed

definition example_channel :: scmi_msg_channel where
  "example_channel = \<lparr>shm_addr = True, shm_size = 128, busy = False\<rparr>"

definition example_reads :: "32 word \<Rightarrow> smt_reads" where
  "example_reads len = \<lparr>rd_status = 0, rd_length = len, rd_header_prot = 0x5000,
     rd_header_msg = 0x5006, rd_payload = \<lambda>_. 0\<rparr>"

lemma scmi_smt_serves_request_witness:
  "\<exists>r len. scmi_entry_smt all_on one_clock 0 example_channel (example_reads 8) (\<lambda>_. 0) (\<lambda>_. 0) 7 = Some r
    \<and> res_channel r = example_channel \<and> res_status_bits r = SMT_STATUS_FREE
    \<and> res_length r = Some len \<and> 8 \<le> unat len \<and> unat len \<le> 100
    \<and> (\<forall>k. 96 \<le> k \<longrightarrow> res_payload r k = 0)"
  using scmi_smt_serves_request [OF one_clock.scmi_platform_axioms, of example_channel "example_reads 8"
      all_on 0 "\<lambda>_. 0" "\<lambda>_. 0" 7]
  by (simp add: example_channel_def example_reads_def)

text \<open>
  A malformed request disables its channel. If the length field is below 4 or above 96, or
  the status is not clear, \<open>scmi_entry_smt\<close> reports an error but leaves the channel claimed,
  and from then on every request in the channel, however well-formed, is answered with the
  error status and reaches no handler.
\<close>

theorem scmi_smt_malformed_blocks_channel:
  assumes "shm_addr c" and "\<not> busy c"
    and "unat (rd_length rd) < 4 \<or> 96 < unat (rd_length rd) \<or> rd_status rd AND 3 \<noteq> 0"
  shows "\<exists>r. scmi_entry_smt cfg pl ch c rd buf shm p = Some r \<and> busy (res_channel r)
    \<and> (\<forall>rd' buf' shm' p'. \<exists>r'. scmi_entry_smt cfg pl ch (res_channel r) rd' buf' shm' p' = Some r'
         \<and> res_status_bits r' = SMT_STATUS_ERROR OR SMT_STATUS_FREE \<and> res_length r' = None
         \<and> res_plat r' = p' \<and> res_channel r' = res_channel r)"
proof -
  have "SMT_STATUS_ERROR OR SMT_STATUS_FREE = 3"
    by (simp add: SMT_STATUS_ERROR_def SMT_STATUS_FREE_def)
  then show ?thesis
    using assms small_payload [of "rd_length rd"]
    by (auto simp: scmi_entry_smt_def scmi_msg_claim_channel_def Let_def)
qed

lemma scmi_smt_malformed_blocks_channel_witness:
  "\<exists>r. scmi_entry_smt all_on one_clock 0 example_channel (example_reads 97) (\<lambda>_. 0) (\<lambda>_. 0) 7 = Some r
    \<and> busy (res_channel r)
    \<and> (\<exists>r'. scmi_entry_smt all_on one_clock 0 (res_channel r) (example_reads 8) (\<lambda>_. 0) (\<lambda>_. 0) 7 = Some r'
         \<and> res_status_bits r' = SMT_STATUS_ERROR OR SMT_STATUS_FREE)"
proof -
  have "shm_addr example_channel" "\<not> busy example_channel"
    "unat (rd_length (example_reads 97)) < 4 \<or> 96 < unat (rd_length (example_reads 97))
      \<or> rd_status (example_reads 97) AND 3 \<noteq> 0"
    by (simp_all add: example_channel_def example_reads_def)
  from scmi_smt_malformed_blocks_channel [OF this, of all_on one_clock 0 "\<lambda>_. 0" "\<lambda>_. 0" 7]
  show ?thesis by blast
qed

text \<open>
  \<open>scmi_entry_msg\<close> refuses bad buffers before it claims the channel, and a well-formed
  message with room for a header and eight bytes is answered with success, a released channel and
  an output size between eight bytes and what the caller offered.
\<close>

theorem scmi_entry_msg_outcome:
  assumes "scmi_platform pl"
  shows "if \<not> (4 \<le> unat il \<and> unat il \<le> 96 \<and> al \<and> 4 \<le> unat ol)
      then scmi_entry_msg cfg pl ch (Some c) hdr inp il out ol al sec p = Some (Inl TEE_ERROR_BAD_PARAMETERS)
      else if busy c
      then scmi_entry_msg cfg pl ch (Some c) hdr inp il out ol al sec p = Some (Inl TEE_ERROR_BUSY)
      else 12 \<le> unat ol \<and> unat ol < 2 ^ 32 \<and> 4 dvd unat ol \<longrightarrow>
        (\<exists>r. scmi_entry_msg cfg pl ch (Some c) hdr inp il out ol al sec p = Some (Inr r)
          \<and> msg_channel r = c \<and> 8 \<le> unat (msg_out_size r) \<and> unat (msg_out_size r) \<le> unat ol
          \<and> (\<forall>k. unat ol - 4 \<le> k \<longrightarrow> msg_out_buf r k = out k))"
proof -
  have bad: "il < 4 \<or> il - 4 > SCMI_SEC_PAYLOAD_SIZE \<longleftrightarrow> unat il < 4 \<or> 96 < unat il"
  proof (cases "unat il < 4")
    case False
    then have "unat (il - 4) = unat il - 4" by (subst unat_sub_exact) auto
    then show ?thesis
      using False by (auto simp: SCMI_SEC_PAYLOAD_SIZE_def word_less_nat_alt)
  qed (simp add: word_less_nat_alt)
  have ol4: "ol < 4 \<longleftrightarrow> unat ol < 4" by (simp add: word_less_nat_alt)
  have serve: "\<exists>r. scmi_entry_msg cfg pl ch (Some c) hdr inp il out ol al sec p = Some (Inr r)
      \<and> msg_channel r = c \<and> 8 \<le> unat (msg_out_size r) \<and> unat (msg_out_size r) \<le> unat ol
      \<and> (\<forall>k. unat ol - 4 \<le> k \<longrightarrow> msg_out_buf r k = out k)"
    if ok: "4 \<le> unat il" "unat il \<le> 96" "al" "\<not> busy c"
      and room: "12 \<le> unat ol" "unat ol < 2 ^ 32" "4 dvd unat ol"
  proof -
    have n: "unat (ol - 4) = unat ol - 4" using room by (subst unat_sub_exact) auto
    define msg where "msg =
      \<lparr>channel_id = ch, protocol_id = SMT_HDR_PROT_ID hdr, message_id = SMT_HDR_MSG_ID hdr,
       msg_in = (\<lambda>k. if k < unat (il - 4) then inp k else sec k), in_size = il - 4,
       msg_out = out, out_size = ol - 4, out_size_out = 0\<rparr>"
    have "8 \<le> unat ol - 4" "unat ol - 4 < 2 ^ 32" using room by linarith+
    then have "out_ok msg" using room n by (simp add: out_ok_def msg_def dvd_diff_nat)
    from scmi_platform.process_in [OF assms this, of cfg p] obtain m' p' where
      run: "scmi_process_message cfg pl msg p = Some (m', p')" and ins: "stays_in msg m'"
      unfolding responds_in_def by blast
    have size: "4 \<le> unat (out_size_out m')" "unat (out_size_out m') \<le> unat ol - 4"
      using ins n by (auto simp: stays_in_def msg_def)
    then have "unat (out_size_out m' + 4) = unat (out_size_out m') + 4"
      using room by (subst unat_add_exact) auto
    moreover have "msg_out m' k = out k" if "unat ol - 4 \<le> k" for k
      using ins n that by (simp add: stays_in_def msg_def)
    ultimately show ?thesis
      using ok run bad ol4 room size unfolding msg_def
      by (simp add: scmi_entry_msg_def scmi_msg_claim_channel_def scmi_msg_release_channel_def Let_def)
  qed
  show ?thesis
    using serve bad ol4
    by (auto simp: scmi_entry_msg_def scmi_msg_claim_channel_def Let_def not_le)
qed

lemma scmi_entry_msg_outcome_witness:
  "\<exists>r. scmi_entry_msg all_on one_clock 0 (Some example_channel) 0x5006 (\<lambda>_. 0) 8 (\<lambda>_. 0) 20 True (\<lambda>_. 0) 7
      = Some (Inr r) \<and> msg_channel r = example_channel"
  using scmi_entry_msg_outcome [OF one_clock.scmi_platform_axioms,
      where il = 8 and ol = 20 and al = True and cfg = all_on and ch = 0 and c = example_channel
        and hdr = "0x5006" and inp = "\<lambda>_. 0" and out = "\<lambda>_. 0" and sec = "\<lambda>_. 0" and p = 7]
  by (auto simp: example_channel_def)

text \<open>
  An output buffer of four to seven bytes passes the checks of \<open>scmi_entry_msg\<close>, which
  only asks for room for the header, but the answer needs four bytes more: the assertion in
  \<open>scmi_status_response\<close> fails, on input that comes from the agent.
\<close>

theorem scmi_entry_msg_small_output_asserts:
  "scmi_entry_msg all_on one_clock 0 (Some example_channel) 0x4000 (\<lambda>_. 0) 4 (\<lambda>_. 0) 4 True (\<lambda>_. 0) 7
    = None"
  by (simp add: scmi_entry_msg_def example_channel_def SCMI_SEC_PAYLOAD_SIZE_def eval_dispatch
      scmi_msg_claim_channel_def SMT_HDR_PROT_ID_def SMT_HDR_MSG_ID_def base_report_version_def
      scmi_write_response_def scmi_status_response_def)

end
