(* ===== verification/Clk.thy ===== *)
theory Clk
  imports Refcount
begin

text \<open>
  The clock framework (\<open>core/drivers/clk/clk.c\<close>): clocks form a tree through their current
  parents, and enabling a clock keeps its ancestors enabled by counting references. The
  drivers' operations are functions on a hardware state; all operations here run under
  \<open>clk_lock\<close>, so the reference counters see no interference.
\<close>

section \<open>Clocks and their drivers\<close>

text \<open>\<open>struct clk_ops\<close>: each operation may be missing. A clock is named by its number.\<close>

record 'h clk_ops =
  op_enable :: "(nat \<Rightarrow> 'h \<Rightarrow> tee_result \<times> 'h) option"
  op_disable :: "(nat \<Rightarrow> 'h \<Rightarrow> 'h) option"
  op_set_parent :: "(nat \<Rightarrow> nat \<Rightarrow> 'h \<Rightarrow> tee_result \<times> 'h) option"
  op_get_parent :: "(nat \<Rightarrow> 'h \<Rightarrow> nat) option"
  op_set_rate :: "(nat \<Rightarrow> 64 word \<Rightarrow> 64 word \<Rightarrow> 'h \<Rightarrow> tee_result \<times> 'h) option"
  op_get_rate :: "(nat \<Rightarrow> 64 word \<Rightarrow> 'h \<Rightarrow> 64 word) option"
  op_get_rates_array :: "(nat \<Rightarrow> nat \<Rightarrow> 'h \<Rightarrow> tee_result \<times> 64 word list) option"

record 'h clk =
  clk_ops :: "'h clk_ops"
  clk_parent :: "nat option"
  clk_rate :: "64 word"
  clk_flags :: "32 word"
  enabled_count :: "32 word"
  clk_parents :: "nat list"

record 'h clk_state =
  clks :: "nat \<Rightarrow> 'h clk"
  hw :: 'h

text \<open>What a call comes to: a result, a failed assertion or panic, or more fuel is needed.\<close>

datatype 'a outcome = Ret 'a | Assertion | No_fuel

definition upd_clk :: "nat \<Rightarrow> ('h clk \<Rightarrow> 'h clk) \<Rightarrow> 'h clk_state \<Rightarrow> 'h clk_state" where
  "upd_clk c f s = s\<lparr>clks := (clks s)(c := f (clks s c))\<rparr>"

definition set_count :: "nat \<Rightarrow> 32 word \<Rightarrow> 'h clk_state \<Rightarrow> 'h clk_state" where
  "set_count c v s = upd_clk c (enabled_count_update (\<lambda>_. v)) s"

section \<open>Operations\<close>

definition clk_alloc :: "'h clk_ops \<Rightarrow> nat list \<Rightarrow> 'h clk" where
  "clk_alloc ops parent_clks =
     \<lparr>clk_ops = ops, clk_parent = None, clk_rate = 0, clk_flags = 0, enabled_count = 0,
      clk_parents = parent_clks\<rparr>"

definition clk_check :: "'h clk \<Rightarrow> bool" where
  "clk_check k =
     (if op_set_parent (clk_ops k) \<noteq> None \<and> op_get_parent (clk_ops k) = None then False
      else if length (clk_parents k) > 1 \<and> op_get_parent (clk_ops k) = None then False
      else True)"

definition clk_compute_rate_no_lock :: "nat \<Rightarrow> 'h clk_state \<Rightarrow> 'h clk_state" where
  "clk_compute_rate_no_lock c s =
     (let k = clks s c;
          parent_rate = (case clk_parent k of None \<Rightarrow> 0 | Some p \<Rightarrow> clk_rate (clks s p));
          rate = (case op_get_rate (clk_ops k) of
                    Some get \<Rightarrow> get c parent_rate (hw s) | None \<Rightarrow> parent_rate)
      in upd_clk c (clk_rate_update (\<lambda>_. rate)) s)"

definition clk_get_parent_by_index :: "'h clk \<Rightarrow> nat \<Rightarrow> nat option" where
  "clk_get_parent_by_index k pidx =
     (if pidx \<ge> length (clk_parents k) then None else Some (clk_parents k ! pidx))"

text \<open>Without a \<open>get_parent\<close> operation the default case is unreachable after \<open>clk_check\<close>.\<close>

definition clk_init_parent :: "nat \<Rightarrow> 'h clk_state \<Rightarrow> 'h clk_state outcome" where
  "clk_init_parent c s =
     (let k = clks s c in
      case clk_parents k of
        [] \<Rightarrow> Ret s
      | [p] \<Rightarrow> Ret (upd_clk c (clk_parent_update (\<lambda>_. Some p)) s)
      | _ \<Rightarrow>
          (case op_get_parent (clk_ops k) of
             None \<Rightarrow> Assertion
           | Some get \<Rightarrow>
               let pidx = get c (hw s) in
               if pidx < length (clk_parents k)
               then Ret (upd_clk c (clk_parent_update (\<lambda>_. Some (clk_parents k ! pidx))) s)
               else Assertion))"

definition clk_register :: "nat \<Rightarrow> 'h clk_state \<Rightarrow> (tee_result \<times> 'h clk_state) outcome" where
  "clk_register c s =
     (if \<not> clk_check (clks s c) then Assertion
      else case clk_init_parent c s of
          Ret s1 \<Rightarrow> Ret (TEE_SUCCESS, clk_compute_rate_no_lock c s1)
        | Assertion \<Rightarrow> Assertion
        | No_fuel \<Rightarrow> No_fuel)"

definition clk_is_enabled_no_lock :: "nat \<Rightarrow> 'h clk_state \<Rightarrow> bool" where
  "clk_is_enabled_no_lock c s = (enabled_count (clks s c) \<noteq> 0)"

fun clk_disable_no_lock :: "nat \<Rightarrow> nat \<Rightarrow> 'h clk_state \<Rightarrow> 'h clk_state outcome" where
  "clk_disable_no_lock 0 c s = No_fuel"
| "clk_disable_no_lock (Suc fuel) c s =
     (case refcount_dec_alone (enabled_count (clks s c)) of
        Returned zero v \<Rightarrow>
          (let s1 = set_count c v s in
           if \<not> zero then Ret s1
           else
             let s2 = (case op_disable (clk_ops (clks s1 c)) of
                         Some dis \<Rightarrow> s1\<lparr>hw := dis c (hw s1)\<rparr> | None \<Rightarrow> s1)
             in case clk_parent (clks s2 c) of
                  Some p \<Rightarrow> clk_disable_no_lock fuel p s2
                | None \<Rightarrow> Ret s2)
      | Assert_failed \<Rightarrow> Assertion
      | Still_trying \<Rightarrow> No_fuel)"

text \<open>The rest of \<open>clk_enable_no_lock\<close>, once the parent is enabled.\<close>

definition enable_self ::
    "nat \<Rightarrow> nat \<Rightarrow> nat option \<Rightarrow> 'h clk_state \<Rightarrow> (tee_result \<times> 'h clk_state) outcome" where
  "enable_self fuel c parent s =
     (case op_enable (clk_ops (clks s c)) of
        None \<Rightarrow> Ret (TEE_SUCCESS, set_count c 1 s)
      | Some en \<Rightarrow>
          (case en c (hw s) of (res, h) \<Rightarrow>
             let s1 = s\<lparr>hw := h\<rparr> in
             if res = TEE_SUCCESS then Ret (TEE_SUCCESS, set_count c 1 s1)
             else case parent of
                 None \<Rightarrow> Ret (res, s1)
               | Some p \<Rightarrow>
                   (case clk_disable_no_lock fuel p s1 of
                      Ret s2 \<Rightarrow> Ret (res, s2)
                    | Assertion \<Rightarrow> Assertion
                    | No_fuel \<Rightarrow> No_fuel)))"

fun clk_enable_no_lock :: "nat \<Rightarrow> nat \<Rightarrow> 'h clk_state \<Rightarrow> (tee_result \<times> 'h clk_state) outcome" where
  "clk_enable_no_lock 0 c s = No_fuel"
| "clk_enable_no_lock (Suc fuel) c s =
     (case refcount_inc_alone (enabled_count (clks s c)) of
        Returned True v \<Rightarrow> Ret (TEE_SUCCESS, set_count c v s)
      | Returned False v \<Rightarrow>
          (case clk_parent (clks s c) of
             Some p \<Rightarrow>
               (case clk_enable_no_lock fuel p s of
                  Ret (res, s1) \<Rightarrow>
                    if res \<noteq> TEE_SUCCESS then Ret (res, s1) else enable_self fuel c (Some p) s1
                | Assertion \<Rightarrow> Assertion
                | No_fuel \<Rightarrow> No_fuel)
           | None \<Rightarrow> enable_self fuel c None s)
      | Assert_failed \<Rightarrow> Assertion
      | Still_trying \<Rightarrow> No_fuel)"

definition clk_enable :: "nat \<Rightarrow> nat \<Rightarrow> 'h clk_state \<Rightarrow> (tee_result \<times> 'h clk_state) outcome" where
  "clk_enable fuel c s = clk_enable_no_lock fuel c s"

definition clk_disable :: "nat \<Rightarrow> nat \<Rightarrow> 'h clk_state \<Rightarrow> 'h clk_state outcome" where
  "clk_disable fuel c s = clk_disable_no_lock fuel c s"

definition clk_get_rate :: "nat \<Rightarrow> 'h clk_state \<Rightarrow> 64 word" where
  "clk_get_rate c s = clk_rate (clks s c)"

definition clk_set_rate_no_lock ::
    "nat \<Rightarrow> (nat \<Rightarrow> 64 word \<Rightarrow> 64 word \<Rightarrow> 'h \<Rightarrow> tee_result \<times> 'h) \<Rightarrow> 64 word \<Rightarrow> 'h clk_state
     \<Rightarrow> tee_result \<times> 'h clk_state" where
  "clk_set_rate_no_lock c set_rate rate s =
     (let parent_rate =
            (case clk_parent (clks s c) of None \<Rightarrow> 0 | Some p \<Rightarrow> clk_get_rate p s)
      in case set_rate c rate parent_rate (hw s) of (res, h) \<Rightarrow>
        let s1 = s\<lparr>hw := h\<rparr> in
        if res \<noteq> TEE_SUCCESS then (res, s1) else (TEE_SUCCESS, clk_compute_rate_no_lock c s1))"

definition CLK_SET_RATE_GATE :: "32 word" where "CLK_SET_RATE_GATE = 1"
definition CLK_SET_PARENT_GATE :: "32 word" where "CLK_SET_PARENT_GATE = 2"

definition clk_set_rate :: "nat \<Rightarrow> 64 word \<Rightarrow> 'h clk_state \<Rightarrow> tee_result \<times> 'h clk_state" where
  "clk_set_rate c rate s =
     (case op_set_rate (clk_ops (clks s c)) of
        None \<Rightarrow> (TEE_ERROR_NOT_SUPPORTED, s)
      | Some set_rate \<Rightarrow>
          if clk_flags (clks s c) AND CLK_SET_RATE_GATE \<noteq> 0 \<and> clk_is_enabled_no_lock c s
          then (TEE_ERROR_BAD_STATE, s)
          else clk_set_rate_no_lock c set_rate rate s)"

text \<open>The position of \<open>parent\<close> among the possible parents, the first one.\<close>

fun parent_idx_loop :: "nat list \<Rightarrow> nat \<Rightarrow> nat \<Rightarrow> nat option" where
  "parent_idx_loop [] parent i = None"
| "parent_idx_loop (q # qs) parent i =
     (if q = parent then Some i else parent_idx_loop qs parent (Suc i))"

definition clk_get_parent_idx :: "'h clk \<Rightarrow> nat \<Rightarrow> nat option" where
  "clk_get_parent_idx k parent = parent_idx_loop (clk_parents k) parent 0"

definition clk_set_parent_no_lock ::
    "nat \<Rightarrow> nat \<Rightarrow> (nat \<Rightarrow> nat \<Rightarrow> 'h \<Rightarrow> tee_result \<times> 'h) \<Rightarrow> nat \<Rightarrow> nat \<Rightarrow> 'h clk_state
     \<Rightarrow> (tee_result \<times> 'h clk_state) outcome" where
  "clk_set_parent_no_lock fuel c set_parent parent pidx s =
     (if clk_parent (clks s c) = Some parent then Ret (TEE_SUCCESS, s)
      else
        let was_enabled = clk_is_enabled_no_lock c s in
        case (if was_enabled then clk_disable_no_lock fuel c s else Ret s) of
          Assertion \<Rightarrow> Assertion
        | No_fuel \<Rightarrow> No_fuel
        | Ret s1 \<Rightarrow>
            (case set_parent c pidx (hw s1) of (res, h) \<Rightarrow>
               let s2 = s1\<lparr>hw := h\<rparr>;
                   s3 = (if res = TEE_SUCCESS
                         then clk_compute_rate_no_lock c
                                (upd_clk c (clk_parent_update (\<lambda>_. Some parent)) s2)
                         else s2)
               in
               if was_enabled then
                 (case clk_enable_no_lock fuel c s3 of
                    Ret (res', s4) \<Rightarrow> if res' \<noteq> TEE_SUCCESS then Assertion else Ret (res', s4)
                  | Assertion \<Rightarrow> Assertion
                  | No_fuel \<Rightarrow> No_fuel)
               else Ret (res, s3)))"

definition clk_set_parent ::
    "nat \<Rightarrow> nat \<Rightarrow> nat \<Rightarrow> 'h clk_state \<Rightarrow> (tee_result \<times> 'h clk_state) outcome" where
  "clk_set_parent fuel c parent s =
     (case (clk_get_parent_idx (clks s c) parent, op_set_parent (clk_ops (clks s c))) of
        (Some pidx, Some set_parent) \<Rightarrow>
          if clk_flags (clks s c) AND CLK_SET_PARENT_GATE \<noteq> 0 \<and> clk_is_enabled_no_lock c s
          then Ret (TEE_ERROR_BAD_STATE, s)
          else clk_set_parent_no_lock fuel c set_parent parent pidx s
      | _ \<Rightarrow> Ret (TEE_ERROR_BAD_PARAMETERS, s))"

definition clk_get_rates_array ::
    "nat \<Rightarrow> nat \<Rightarrow> 'h clk_state \<Rightarrow> tee_result \<times> 64 word list" where
  "clk_get_rates_array c start_index s =
     (case op_get_rates_array (clk_ops (clks s c)) of
        None \<Rightarrow> (TEE_ERROR_NOT_SUPPORTED, [])
      | Some get \<Rightarrow> get c start_index (hw s))"

section \<open>Reference counting along the tree\<close>

text \<open>
  \<open>ext c\<close> is how often the users of clock \<open>c\<close> have enabled it. Counters are right when each is
  that number plus the number of enabled children; ranks order children after parents.
\<close>

definition kids :: "nat \<Rightarrow> (nat \<Rightarrow> nat option) \<Rightarrow> (nat \<Rightarrow> 32 word) \<Rightarrow> nat \<Rightarrow> nat set" where
  "kids n par cnt p = {d. d < n \<and> par d = Some p \<and> cnt d \<noteq> 0}"

definition counts_ok ::
    "nat \<Rightarrow> (nat \<Rightarrow> nat) \<Rightarrow> (nat \<Rightarrow> nat option) \<Rightarrow> (nat \<Rightarrow> nat) \<Rightarrow> (nat \<Rightarrow> 32 word) \<Rightarrow> bool" where
  "counts_ok n rank par ext cnt \<longleftrightarrow>
     (\<forall>c < n. unat (cnt c) = ext c + card (kids n par cnt c))
     \<and> (\<forall>c < n. \<forall>p. par c = Some p \<longrightarrow> p < n \<and> rank p < rank c)"

lemma finite_kids [simp]: "finite (kids n par cnt p)"
  by (simp add: kids_def)

lemma kids_same: "(cnt c = 0 \<longleftrightarrow> v = 0) \<Longrightarrow> kids n par (cnt(c := v)) p = kids n par cnt p"
  by (auto simp: kids_def)

lemma kids_up:
  "c < n \<Longrightarrow> cnt c = 0 \<Longrightarrow> v \<noteq> 0 \<Longrightarrow>
   card (kids n par (cnt(c := v)) p) = card (kids n par cnt p) + (if par c = Some p then 1 else 0)"
proof -
  assume c: "c < n" "cnt c = 0" "v \<noteq> 0"
  then have "kids n par (cnt(c := v)) p
      = (if par c = Some p then insert c (kids n par cnt p) else kids n par cnt p)"
    by (auto simp: kids_def)
  moreover have "c \<notin> kids n par cnt p" using c by (simp add: kids_def)
  ultimately show ?thesis by simp
qed

lemma kids_down:
  "c < n \<Longrightarrow> cnt c \<noteq> 0 \<Longrightarrow>
   card (kids n par cnt p) = card (kids n par (cnt(c := 0)) p) + (if par c = Some p then 1 else 0)"
  using kids_up [of c n "cnt(c := 0)" "cnt c" par p] by simp

lemma kids_none: "counts_ok n rank par ext cnt \<Longrightarrow> c < n \<Longrightarrow> cnt c = 0 \<Longrightarrow> ext c = 0 \<and> kids n par cnt c = {}"
  by (auto simp: counts_ok_def)

lemma counts_ok_inc:
  assumes "counts_ok n rank par ext cnt" and "c < n" and "cnt c \<noteq> 0" and "unat (cnt c) < 2 ^ 32 - 1"
  shows "counts_ok n rank par (ext(c := Suc (ext c))) (cnt(c := cnt c + 1))"
proof -
  have "unat (cnt c + 1) = Suc (unat (cnt c))" using assms(4) by (subst unat_add_exact) auto
  moreover then have "cnt c + 1 \<noteq> 0" by (metis Zero_not_Suc unsigned_0)
  ultimately show ?thesis using assms by (auto simp: counts_ok_def kids_same)
qed

lemma counts_ok_dec:
  assumes "counts_ok n rank par ext cnt" and "c < n" and "cnt c \<noteq> 0" and "cnt c \<noteq> 1" and "0 < ext c"
  shows "counts_ok n rank par (ext(c := ext c - 1)) (cnt(c := cnt c - 1))"
proof -
  have "unat (cnt c) \<noteq> 0" using assms(3) by (simp add: unat_eq_0)
  then have "unat (cnt c - 1) = unat (cnt c) - 1" by (subst unat_sub_exact) auto
  moreover have "cnt c - 1 \<noteq> 0" using assms(4) by simp
  ultimately show ?thesis using assms by (auto simp: counts_ok_def kids_same)
qed

text \<open>Enabling a clock hands the reference its user got on the parent over to the clock.\<close>

lemma counts_ok_attach:
  assumes "counts_ok n rank par (case par c of None \<Rightarrow> ext | Some p \<Rightarrow> ext(p := Suc (ext p))) cnt"
    and "c < n" and "cnt c = 0"
  shows "counts_ok n rank par (ext(c := Suc (ext c))) (cnt(c := 1))"
proof -
  let ?ext1 = "case par c of None \<Rightarrow> ext | Some p \<Rightarrow> ext(p := Suc (ext p))"
  have self: "par c \<noteq> Some c" using assms(1,2) unfolding counts_ok_def by force
  have "?ext1 c = 0 \<and> kids n par cnt c = {}" using kids_none [OF assms(1,2,3)] .
  then have c0: "ext c = 0" "card (kids n par cnt c) = 0" using self by (auto split: option.splits)
  have "unat ((cnt(c := 1)) d) = (ext(c := Suc (ext c))) d + card (kids n par (cnt(c := 1)) d)"
    if "d < n" for d
  proof -
    have old: "unat (cnt d) = ?ext1 d + card (kids n par cnt d)"
      using assms(1) that unfolding counts_ok_def by blast
    show ?thesis
      using old c0 self kids_up [of c n cnt 1 par d] assms(2,3)
      by (cases "d = c"; cases "par c = Some d") (auto split: option.splits if_splits)
  qed
  then show ?thesis using assms(1) unfolding counts_ok_def by blast
qed

lemma counts_ok_detach:
  assumes "counts_ok n rank par ext cnt" and "c < n" and "cnt c = 1" and "0 < ext c"
  shows "counts_ok n rank par
    (case par c of None \<Rightarrow> ext(c := ext c - 1) | Some p \<Rightarrow> ext(c := ext c - 1, p := Suc (ext p)))
    (cnt(c := 0))"
proof -
  let ?ext1 = "case par c of None \<Rightarrow> ext(c := ext c - 1) | Some p \<Rightarrow> ext(c := ext c - 1, p := Suc (ext p))"
  have self: "par c \<noteq> Some c" using assms(1,2) unfolding counts_ok_def by force
  have "unat (cnt c) = ext c + card (kids n par cnt c)"
    using assms(1,2) unfolding counts_ok_def by blast
  moreover have "unat (cnt c) = 1" using assms(3) by simp
  ultimately have c1: "ext c = 1" "card (kids n par cnt c) = 0" using assms(4) by linarith+
  have "unat ((cnt(c := 0)) d) = ?ext1 d + card (kids n par (cnt(c := 0)) d)" if "d < n" for d
  proof -
    have old: "unat (cnt d) = ext d + card (kids n par cnt d)"
      using assms(1) that unfolding counts_ok_def by blast
    show ?thesis
      using old c1 self kids_down [of c n cnt par d] assms(2,3)
      by (cases "d = c"; cases "par c = Some d") (auto split: option.splits if_splits)
  qed
  then show ?thesis using assms(1) unfolding counts_ok_def by blast
qed

section \<open>Enable and disable\<close>

definition parents :: "'h clk_state \<Rightarrow> nat \<Rightarrow> nat option" where
  "parents s c = clk_parent (clks s c)"

definition counts :: "'h clk_state \<Rightarrow> nat \<Rightarrow> 32 word" where
  "counts s c = enabled_count (clks s c)"

text \<open>The tree and its counters; \<open>same_tree\<close>: only counters and hardware differ.\<close>

definition tree_ok :: "nat \<Rightarrow> (nat \<Rightarrow> nat) \<Rightarrow> (nat \<Rightarrow> nat) \<Rightarrow> 'h clk_state \<Rightarrow> bool" where
  [inv_defs]: "tree_ok n rank ext s \<longleftrightarrow> counts_ok n rank (parents s) ext (counts s)"

definition same_tree :: "'h clk_state \<Rightarrow> 'h clk_state \<Rightarrow> bool" where
  "same_tree s s' \<longleftrightarrow>
     (\<forall>c. clks s' c = (clks s c)\<lparr>enabled_count := enabled_count (clks s' c)\<rparr>)"

lemma same_tree_refl [simp]: "same_tree s s"
  by (simp add: same_tree_def)

lemma same_tree_hw [simp]: "same_tree s (s'\<lparr>hw := h\<rparr>) = same_tree s s'" "same_tree (s\<lparr>hw := h\<rparr>) s' = same_tree s s'"
  by (simp_all add: same_tree_def)

lemma same_tree_count [simp]: "same_tree s (set_count c v s)"
  by (simp add: same_tree_def set_count_def upd_clk_def)

lemma same_tree_trans: "same_tree s s' \<Longrightarrow> same_tree s' s'' \<Longrightarrow> same_tree s s''"
  unfolding same_tree_def by (metis (no_types) clk.surjective clk.update_convs(5))

lemma same_tree_parents: "same_tree s s' \<Longrightarrow> parents s' = parents s"
  unfolding same_tree_def parents_def
  by (rule ext) (metis clk.select_convs(2) clk.surjective clk.update_convs(5))

lemma counts_set [simp]: "counts (set_count c v s) = (counts s)(c := v)"
  by (auto simp: counts_def set_count_def upd_clk_def)

lemma parents_set [simp]: "parents (set_count c v s) = parents s"
  by (auto simp: parents_def set_count_def upd_clk_def)

lemma hw_keeps [simp]: "counts (s\<lparr>hw := h\<rparr>) = counts s" "parents (s\<lparr>hw := h\<rparr>) = parents s"
  by (auto simp: counts_def parents_def)

text \<open>\<open>s'\<close> has right counters for \<open>ext\<close>; clocks of higher rank than \<open>c\<close> kept theirs.\<close>

definition step_ok ::
    "nat \<Rightarrow> (nat \<Rightarrow> nat) \<Rightarrow> (nat \<Rightarrow> nat) \<Rightarrow> nat \<Rightarrow> 'h clk_state \<Rightarrow> 'h clk_state \<Rightarrow> bool" where
  "step_ok n rank ext c s s' \<longleftrightarrow>
     tree_ok n rank ext s' \<and> same_tree s s' \<and> (\<forall>d. rank c < rank d \<longrightarrow> counts s' d = counts s d)"

lemma disable_ok:
  "rank c < fuel \<Longrightarrow> c < n \<Longrightarrow> tree_ok n rank ext s \<Longrightarrow> 0 < ext c \<Longrightarrow>
   \<exists>s'. clk_disable_no_lock fuel c s = Ret s' \<and> step_ok n rank (ext(c := ext c - 1)) c s s'"
proof (induction fuel arbitrary: c ext s)
  case (Suc fuel)
  have cnt: "counts s c \<noteq> 0"
    using Suc.prems(2-4) kids_none unfolding tree_ok_def by (metis less_irrefl)
  show ?case
  proof (cases "counts s c = 1")
    case False
    have "step_ok n rank (ext(c := ext c - 1)) c s (set_count c (counts s c - 1) s)"
      using counts_ok_dec [OF Suc.prems(3) [unfolded tree_ok_def] Suc.prems(2) cnt False Suc.prems(4)]
      by (auto simp: step_ok_def tree_ok_def)
    then show ?thesis
      using cnt False by (simp add: refcount_dec_alone_eq counts_def Let_def fun_upd_def)
  next
    case True
    define s2 where "s2 = (case op_disable (clk_ops (clks s c)) of
      Some dis \<Rightarrow> (set_count c 0 s)\<lparr>hw := dis c (hw s)\<rparr> | None \<Rightarrow> set_count c 0 s)"
    have s2: "counts s2 = (counts s)(c := 0)" "parents s2 = parents s" "same_tree s s2"
      by (auto simp: s2_def split: option.splits)
    note det = counts_ok_detach [OF Suc.prems(3) [unfolded tree_ok_def] Suc.prems(2) True Suc.prems(4)]
    have run: "clk_disable_no_lock (Suc fuel) c s =
        (case parents s c of Some p \<Rightarrow> clk_disable_no_lock fuel p s2 | None \<Rightarrow> Ret s2)"
      using True s2(2)
      by (auto simp: refcount_dec_alone_eq counts_def s2_def Let_def parents_def set_count_def
          upd_clk_def split: option.splits)
    show ?thesis
    proof (cases "parents s c")
      case None
      then have "step_ok n rank (ext(c := ext c - 1)) c s s2"
        using det s2 by (auto simp: step_ok_def tree_ok_def)
      then show ?thesis unfolding run using None by (simp add: fun_upd_def)
    next
      case (Some p)
      let ?ext1 = "ext(c := ext c - 1, p := Suc (ext p))"
      have p: "p < n" "rank p < rank c"
        using Suc.prems(2,3) Some unfolding tree_ok_def counts_ok_def by blast+
      then have "p \<noteq> c" by auto
      have "tree_ok n rank ?ext1 s2" using det Some s2 by (simp add: tree_ok_def)
      then obtain s' where s': "clk_disable_no_lock fuel p s2 = Ret s'"
        "step_ok n rank (?ext1(p := ?ext1 p - 1)) p s2 s'"
        using Suc.IH [of p ?ext1 s2] p Suc.prems(1) by fastforce
      have "?ext1(p := ?ext1 p - 1) = ext(c := ext c - 1)" using \<open>p \<noteq> c\<close> by auto
      then have "step_ok n rank (ext(c := ext c - 1)) c s s'"
        using s'(2) s2 p by (auto simp: step_ok_def intro: same_tree_trans)
      then show ?thesis unfolding run using Some s'(1) by (simp add: fun_upd_def)
    qed
  qed
qed simp

text \<open>Enabling either succeeds and adds a reference, or fails and leaves all counters right.\<close>

lemma enable_ok:
  "rank c < fuel \<Longrightarrow> c < n \<Longrightarrow> tree_ok n rank ext s \<Longrightarrow> \<forall>d < n. unat (counts s d) < 2 ^ 32 - 1 \<Longrightarrow>
   \<exists>res s'. clk_enable_no_lock fuel c s = Ret (res, s')
     \<and> step_ok n rank (if res = TEE_SUCCESS then ext(c := Suc (ext c)) else ext) c s s'"
proof (induction fuel arbitrary: c ext s)
  case (Suc fuel)
  show ?case
  proof (cases "counts s c = 0")
    case False
    have "unat (counts s c) < 2 ^ 32 - 1" using Suc.prems(2,4) by blast
    from counts_ok_inc [OF Suc.prems(3) [unfolded tree_ok_def] Suc.prems(2) False this]
    have "step_ok n rank (ext(c := Suc (ext c))) c s (set_count c (counts s c + 1) s)"
      by (auto simp: step_ok_def tree_ok_def)
    then show ?thesis using False by (simp add: refcount_inc_alone_eq counts_def)
  next
    case zero: True
    have self: "\<exists>res s'. enable_self fuel c (parents s c) s1 = Ret (res, s')
        \<and> step_ok n rank (if res = TEE_SUCCESS then ext(c := Suc (ext c)) else ext) c s s'"
      if s1: "tree_ok n rank (case parents s c of None \<Rightarrow> ext | Some p \<Rightarrow> ext(p := Suc (ext p))) s1"
        and same: "same_tree s s1" and kept: "\<And>d. rank c \<le> rank d \<Longrightarrow> counts s1 d = counts s d"
      for s1
    proof -
      have c0: "counts s1 c = 0" using kept zero by simp
      have par: "parents s1 = parents s" using same by (rule same_tree_parents)
      have good: "step_ok n rank (ext(c := Suc (ext c))) c s (set_count c 1 (s1\<lparr>hw := h\<rparr>))" for h
        using counts_ok_attach [where n = n and rank = rank and par = "parents s" and c = c
            and ext = ext and cnt = "counts s1"] s1 par c0 Suc.prems(2)
          kept same_tree_trans [OF same, of "set_count c 1 (s1\<lparr>hw := h\<rparr>)"]
          same_tree_count [of "s1\<lparr>hw := h\<rparr>" c 1]
        by (auto simp: step_ok_def tree_ok_def simp del: same_tree_count)
      have ok_self: "s1 = s1\<lparr>hw := hw s1\<rparr>" by simp
      show ?thesis
      proof (cases "op_enable (clk_ops (clks s1 c))")
        case None
        then show ?thesis using good [of "hw s1"] by (simp add: enable_self_def)
      next
        case (Some en)
        obtain res h where res: "en c (hw s1) = (res, h)" by fastforce
        show ?thesis
        proof (cases "res = TEE_SUCCESS")
          case True
          then show ?thesis using Some res good [of h] by (simp add: enable_self_def Let_def)
        next
          case fail: False
          show ?thesis
          proof (cases "parents s c")
            case None
            then have "step_ok n rank ext c s (s1\<lparr>hw := h\<rparr>)"
              using s1 same kept by (auto simp: step_ok_def tree_ok_def)
            then show ?thesis using Some res fail None by (simp add: enable_self_def Let_def)
          next
            case par_c: (Some p)
            have p: "p < n" "rank p < rank c"
              using Suc.prems(2,3) par_c unfolding tree_ok_def counts_ok_def by blast+
            let ?ext1 = "ext(p := Suc (ext p))"
            have "tree_ok n rank ?ext1 (s1\<lparr>hw := h\<rparr>)" using s1 par_c by (simp add: tree_ok_def)
            then obtain s2 where s2: "clk_disable_no_lock fuel p (s1\<lparr>hw := h\<rparr>) = Ret s2"
              "step_ok n rank (?ext1(p := ?ext1 p - 1)) p (s1\<lparr>hw := h\<rparr>) s2"
              using disable_ok [of rank p fuel n ?ext1 "s1\<lparr>hw := h\<rparr>"] p Suc.prems(1) by fastforce
            then have "step_ok n rank ext c s s2"
              using same kept p by (auto simp: step_ok_def intro: same_tree_trans)
            then show ?thesis
              using Some res fail par_c s2(1) by (simp add: enable_self_def Let_def)
          qed
        qed
      qed
    qed
    have run: "clk_enable_no_lock (Suc fuel) c s =
        (case parents s c of
           Some p \<Rightarrow> (case clk_enable_no_lock fuel p s of
               Ret (res, s1) \<Rightarrow>
                 if res \<noteq> TEE_SUCCESS then Ret (res, s1) else enable_self fuel c (Some p) s1
             | Assertion \<Rightarrow> Assertion | No_fuel \<Rightarrow> No_fuel)
         | None \<Rightarrow> enable_self fuel c None s)"
      using zero by (simp add: refcount_inc_alone_eq counts_def parents_def)
    show ?thesis
    proof (cases "parents s c")
      case None
      then show ?thesis using run self [of s] Suc.prems(3) by simp
    next
      case (Some p)
      have p: "p < n" "rank p < rank c"
        using Suc.prems(2,3) Some unfolding tree_ok_def counts_ok_def by blast+
      then obtain res s1 where s1: "clk_enable_no_lock fuel p s = Ret (res, s1)"
        "step_ok n rank (if res = TEE_SUCCESS then ext(p := Suc (ext p)) else ext) p s s1"
        using Suc.IH [of p ext s] Suc.prems by fastforce
      show ?thesis
      proof (cases "res = TEE_SUCCESS")
        case True
        then show ?thesis using run Some s1 self [of s1] p by (auto simp: step_ok_def)
      next
        case False
        then have "step_ok n rank ext c s s1" using s1 p by (auto simp: step_ok_def)
        then show ?thesis using run Some s1 False by auto
      qed
    qed
  qed
qed simp

section \<open>What the clock framework promises\<close>

text \<open>
  C28: \<open>clk_enable\<close> and \<open>clk_disable\<close> keep the reference counters of the whole tree right, on
  success and on every failure: each counter stays the number of times its users enabled the
  clock plus the number of enabled children. Enabling adds the caller's reference or, if some
  driver on the way up fails, none and takes back those it took on ancestors; disabling a clock
  one has enabled never fails its assertion. The recursion needs no more fuel than the depth of
  the tree.
\<close>

theorem clk_enable_disable_balanced:
  assumes "tree_ok n rank ext s" and "c < n" and "rank c < fuel"
    and "\<forall>d < n. unat (counts s d) < 2 ^ 32 - 1"
  shows "(\<exists>res s'. clk_enable fuel c s = Ret (res, s')
      \<and> tree_ok n rank (if res = TEE_SUCCESS then ext(c := Suc (ext c)) else ext) s'
      \<and> parents s' = parents s)
    \<and> (0 < ext c \<longrightarrow> (\<exists>s'. clk_disable fuel c s = Ret s'
      \<and> tree_ok n rank (ext(c := ext c - 1)) s' \<and> parents s' = parents s))"
  using enable_ok [of rank c fuel n ext s] disable_ok [of rank c fuel n ext s] assms
  by (fastforce simp: clk_enable_def clk_disable_def step_ok_def dest: same_tree_parents)

text \<open>A driver whose operations all succeed, and one whose \<open>set_parent\<close> fails.\<close>

definition plain_ops :: "tee_result \<Rightarrow> unit clk_ops" where
  "plain_ops res = \<lparr>op_enable = Some (\<lambda>c h. (TEE_SUCCESS, h)), op_disable = None,
     op_set_parent = Some (\<lambda>c i h. (res, h)), op_get_parent = Some (\<lambda>c h. 0),
     op_set_rate = None, op_get_rate = None, op_get_rates_array = None\<rparr>"

text \<open>Clocks 0 and 1 are roots; clock 2 can have either as parent and starts below 0.\<close>

definition two_roots :: "tee_result \<Rightarrow> unit clk_state" where
  "two_roots res =
     \<lparr>clks = (\<lambda>c. clk_alloc (plain_ops res) [])
        (2 := (clk_alloc (plain_ops res) [0, 1])\<lparr>clk_parent := Some 0\<rparr>), hw = ()\<rparr>"

definition rank2 :: "nat \<Rightarrow> nat" where
  "rank2 c = (if c = 2 then 1 else 0)"

lemma two_roots_ok: "tree_ok 3 rank2 (\<lambda>_. 0) (two_roots res)"
  by (auto simp: tree_ok_def counts_ok_def two_roots_def counts_def parents_def clk_alloc_def
      kids_def rank2_def)

lemma clk_enable_disable_balanced_witness:
  "\<exists>res s'. clk_enable 2 2 (two_roots TEE_SUCCESS) = Ret (res, s')
     \<and> tree_ok 3 rank2 (if res = TEE_SUCCESS then (\<lambda>_. 0)(2 := 1) else (\<lambda>_. 0)) s'"
proof -
  have "\<forall>d < 3. unat (counts (two_roots TEE_SUCCESS) d) < 2 ^ 32 - 1"
    by (simp add: two_roots_def counts_def clk_alloc_def)
  moreover have "rank2 2 < 2" and "2 < (3 :: nat)" by (simp_all add: rank2_def)
  ultimately obtain res s' where
    "clk_enable 2 2 (two_roots TEE_SUCCESS) = Ret (res, s')"
    "tree_ok 3 rank2 (if res = TEE_SUCCESS then (\<lambda>_. 0)(2 := Suc 0) else (\<lambda>_. 0)) s'"
    using clk_enable_disable_balanced [OF two_roots_ok, of 2 2 TEE_SUCCESS] by blast
  then show ?thesis by (intro exI [of _ res] exI [of _ s']) (cases "res = TEE_SUCCESS"; simp)
qed

lemmas eval_clk = two_roots_def plain_ops_def clk_alloc_def refcount_inc_alone_eq
  refcount_dec_alone_eq enable_self_def set_count_def upd_clk_def clk_set_parent_def
  clk_set_parent_no_lock_def clk_get_parent_idx_def clk_is_enabled_no_lock_def
  clk_compute_rate_no_lock_def Let_def numeral_2_eq_2

text \<open>
  Changing the parent of a clock that is enabled more than once breaks the counters:
  \<open>clk_set_parent_no_lock\<close> drops and takes one reference on the clock itself, which never reaches
  zero, so the old parent keeps its reference and the new one gets none. After two enables, a
  change of parent and one disable, the second disable fails the assertion of \<open>refcount_dec\<close>
  on the new parent, while the old parent stays enabled for ever.
\<close>

theorem clk_set_parent_unbalances:
  "case clk_enable 2 2 (two_roots TEE_SUCCESS) of Ret (r1, s1) \<Rightarrow>
   (case clk_enable 2 2 s1 of Ret (r2, s2) \<Rightarrow>
    (case clk_set_parent 2 2 1 s2 of Ret (r3, s3) \<Rightarrow>
     (case clk_disable 2 2 s3 of Ret s4 \<Rightarrow>
        r1 = TEE_SUCCESS \<and> r2 = TEE_SUCCESS \<and> r3 = TEE_SUCCESS \<and> parents s4 2 = Some 1
        \<and> counts s4 0 = 1 \<and> counts s4 1 = 0 \<and> clk_disable 2 2 s4 = Assertion
      | _ \<Rightarrow> False) | _ \<Rightarrow> False) | _ \<Rightarrow> False) | _ \<Rightarrow> False"
  by (simp add: eval_clk clk_enable_def clk_disable_def counts_def parents_def)

text \<open>
  If the driver refuses the new parent of an enabled clock, \<open>clk_set_parent\<close> still returns
  success: the result of re-enabling the clock overwrites the error. The parent is unchanged.
\<close>

theorem clk_set_parent_loses_error:
  "case clk_enable 2 2 (two_roots TEE_ERROR_GENERIC) of Ret (r1, s1) \<Rightarrow>
   (case clk_set_parent 2 2 1 s1 of Ret (r2, s2) \<Rightarrow>
      r2 = TEE_SUCCESS \<and> parents s2 2 = Some 0 | _ \<Rightarrow> False) | _ \<Rightarrow> False"
  by (simp add: eval_clk clk_enable_def clk_disable_def parents_def)

lemma counts_bound:
  assumes "tree_ok n rank ext s" and "d < n"
  shows "unat (counts s d) \<le> ext d + n"
proof -
  have "kids n (parents s) (counts s) d \<subseteq> {..< n}" by (auto simp: kids_def)
  then have "card (kids n (parents s) (counts s) d) \<le> n" using card_mono [of "{..< n}"] by simp
  then show ?thesis using assms by (auto simp: tree_ok_def counts_ok_def)
qed

text \<open>A clock that is off may be moved below another parent.\<close>

lemma tree_ok_move:
  assumes ok: "tree_ok n rank ext s" and off: "counts s c = 0" and p: "p < n" "rank p < rank c"
    and s': "counts s' = counts s" "parents s' = (parents s)(c := Some p)"
  shows "tree_ok n rank ext s'"
proof -
  have "kids n ((parents s)(c := Some p)) (counts s) q = kids n (parents s) (counts s) q" for q
    using off by (auto simp: kids_def)
  then show ?thesis using ok p s' by (auto simp: tree_ok_def counts_ok_def)
qed

lemma compute_rate_keeps [simp]:
  "counts (clk_compute_rate_no_lock c s) = counts s"
  "parents (clk_compute_rate_no_lock c s) = parents s"
  by (auto simp: clk_compute_rate_no_lock_def upd_clk_def counts_def parents_def Let_def fun_eq_iff)

lemma set_parent_keeps [simp]:
  "counts (upd_clk c (clk_parent_update (\<lambda>_. Some p)) s) = counts s"
  "parents (upd_clk c (clk_parent_update (\<lambda>_. Some p)) s) = (parents s)(c := Some p)"
  by (auto simp: upd_clk_def counts_def parents_def fun_eq_iff)

lemma disable_single:
  assumes "tree_ok n rank ext s" and "c < n" and "rank c < fuel" and "counts s c = 1" and "ext c = 1"
  shows "\<exists>s'. clk_disable_no_lock fuel c s = Ret s' \<and> tree_ok n rank (ext(c := 0)) s' \<and> counts s' c = 0"
proof -
  obtain s' where s': "clk_disable_no_lock fuel c s = Ret s'" "step_ok n rank (ext(c := 0)) c s s'"
    using disable_ok [of rank c fuel n ext s] assms by fastforce
  have "kids n (parents s) (counts s) c = {}"
    using assms(1,2,4,5) by (auto simp: tree_ok_def counts_ok_def)
  moreover have "unat (counts s' c) = card (kids n (parents s') (counts s') c)"
    using s'(2) assms(2) by (auto simp: step_ok_def tree_ok_def counts_ok_def)
  moreover have "kids n (parents s') (counts s') c \<subseteq> kids n (parents s) (counts s) c"
  proof -
    have "parents s' = parents s" using s'(2) by (auto simp: step_ok_def dest: same_tree_parents)
    moreover have "counts s' d = counts s d" if "d < n" "parents s d = Some c" for d
      using that assms(1) s'(2) unfolding step_ok_def tree_ok_def counts_ok_def by blast
    ultimately show ?thesis by (auto simp: kids_def)
  qed
  ultimately have "unat (counts s' c) = 0" by simp
  then show ?thesis using s' by (auto simp: step_ok_def unat_eq_0)
qed

lemma set_parent_no_lock_ok:
  assumes ok: "tree_ok n rank ext s" and c: "c < n" "rank c < fuel" and p: "p < n" "rank p < rank c"
    and few: "\<forall>d < n. ext d + n < 2 ^ 32 - 1"
    and one: "unat (counts s c) \<le> 1" "ext c = unat (counts s c)"
  shows "\<exists>r. clk_set_parent_no_lock fuel c f p i s = r \<and> r \<noteq> No_fuel
    \<and> (\<forall>res s'. r = Ret (res, s') \<longrightarrow> tree_ok n rank ext s')
    \<and> (r = Assertion \<longrightarrow> counts s c = 1)"
proof (cases "clk_parent (clks s c) = Some p")
  case True
  then show ?thesis using ok by (simp add: clk_set_parent_no_lock_def)
next
  case False
  define moved where "moved s1 = (case f c i (hw s1) of (res, h) \<Rightarrow>
      (res, if res = TEE_SUCCESS
            then clk_compute_rate_no_lock c (upd_clk c (clk_parent_update (\<lambda>_. Some p)) (s1\<lparr>hw := h\<rparr>))
            else s1\<lparr>hw := h\<rparr>))" for s1
  have moved_ok: "tree_ok n rank e (snd (moved s1))" if "tree_ok n rank e s1" "counts s1 c = 0" for e s1
  proof -
    have hw: "tree_ok n rank e (s1\<lparr>hw := h\<rparr>)" for h using that(1) by (simp add: tree_ok_def)
    show ?thesis
      using hw that(2) by (auto simp: moved_def intro!: tree_ok_move [OF that(1) _ p] split: prod.split)
  qed
  show ?thesis
  proof (cases "counts s c = 0")
    case True
    then have "clk_set_parent_no_lock fuel c f p i s = Ret (moved s)"
      using False by (auto simp: clk_set_parent_no_lock_def moved_def clk_is_enabled_no_lock_def
          counts_def Let_def split: prod.split)
    then show ?thesis using moved_ok [OF ok True] by (cases "moved s") auto
  next
    case on: False
    then have "unat (counts s c) \<noteq> 0" by (simp add: unat_eq_0)
    then have "counts s c = 1" using one(1) by (simp add: word_unat_eq_iff)
    then obtain s1 where s1: "clk_disable_no_lock fuel c s = Ret s1"
      "tree_ok n rank (ext(c := 0)) s1" "counts s1 c = 0"
      using disable_single [OF ok c] one(2) by auto
    have s3: "tree_ok n rank (ext(c := 0)) (snd (moved s1))" by (rule moved_ok [OF s1(2,3)])
    have "\<forall>d < n. unat (counts (snd (moved s1)) d) < 2 ^ 32 - 1"
      using counts_bound [OF s3] few by (fastforce split: if_splits)
    from enable_ok [OF c(2,1) s3 this] obtain res s4 where
      s4: "clk_enable_no_lock fuel c (snd (moved s1)) = Ret (res, s4)"
      "res = TEE_SUCCESS \<longrightarrow> tree_ok n rank (ext(c := 1)) s4"
      by (auto simp: step_ok_def split: if_splits)
    have "ext(c := 1) = ext" using one(2) \<open>counts s c = 1\<close> by auto
    moreover have "clk_set_parent_no_lock fuel c f p i s
        = (if res \<noteq> TEE_SUCCESS then Assertion else Ret (res, s4))"
      using False on s1(1) s4(1)
      by (auto simp: clk_set_parent_no_lock_def moved_def clk_is_enabled_no_lock_def
          counts_def Let_def split: prod.splits)
    ultimately show ?thesis using s4(2) \<open>counts s c = 1\<close> by auto
  qed
qed

text \<open>
  With at most the one reference of its user, a clock changes its parent cleanly: whatever
  the driver answers, if \<open>clk_set_parent\<close> returns, all counters in the tree are right for the
  same users as before. It needs no more fuel than the depth of the tree, and panics only for an
  enabled clock, which its driver then refused to enable again.
\<close>

theorem clk_set_parent_balanced:
  assumes "tree_ok n rank ext s" and "c < n" "rank c < fuel" and "p < n" "rank p < rank c"
    and "\<forall>d < n. ext d + n < 2 ^ 32 - 1"
    and "unat (counts s c) \<le> 1" "ext c = unat (counts s c)"
  shows "case clk_set_parent fuel c p s of
      Ret (res, s') \<Rightarrow> tree_ok n rank ext s'
    | Assertion \<Rightarrow> counts s c = 1
    | No_fuel \<Rightarrow> False"
  using set_parent_no_lock_ok [OF assms] assms(1)
  by (auto simp: clk_set_parent_def split: outcome.split option.split)

lemma clk_set_parent_balanced_witness:
  "case clk_set_parent 2 2 1 (two_roots TEE_SUCCESS) of
      Ret (res, s') \<Rightarrow> tree_ok 3 rank2 (\<lambda>_. 0) s'
    | Assertion \<Rightarrow> counts (two_roots TEE_SUCCESS) 2 = 1
    | No_fuel \<Rightarrow> False"
  by (rule clk_set_parent_balanced [OF two_roots_ok])
     (simp_all add: rank2_def two_roots_def counts_def clk_alloc_def)

end
