(* ===== verification/Bitstring.thy ===== *)
theory Bitstring
  imports Prelude
begin

text \<open>
  Strings of bits (\<open>lib/libutils/ext/include/bitstring.h\<close>) as lists: searching the first bit of a value.
\<close>

text \<open>\<open>bit_ffs\<close> and \<open>bit_ffc\<close> of \<open>bitstring.h\<close>: the first bit that is set, or clear; \<open>None\<close> for -1.\<close>

fun bit_first :: "bool \<Rightarrow> bool list \<Rightarrow> nat option" where
  "bit_first v [] = None"
| "bit_first v (b # bs) = (if b = v then Some 0 else map_option Suc (bit_first v bs))"

definition bit_ffs :: "bool list \<Rightarrow> nat option" where
  "bit_ffs bs = bit_first True bs"

definition bit_ffc :: "bool list \<Rightarrow> nat option" where
  "bit_ffc bs = bit_first False bs"

lemma bit_first_Some:
  "bit_first v bs = Some i \<longleftrightarrow> i < length bs \<and> bs ! i = v \<and> (\<forall>j < i. bs ! j \<noteq> v)"
proof (induction bs arbitrary: i)
  case (Cons b bs)
  show ?case
  proof (cases i)
    case 0
    then show ?thesis by auto
  next
    case (Suc j)
    then show ?thesis using Cons [of j] by (auto simp: all_less_Suc_split)
  qed
qed simp

lemma bit_first_None: "bit_first v bs = None \<longleftrightarrow> (\<forall>i < length bs. bs ! i \<noteq> v)"
  by (induction bs) (auto simp: all_less_Suc_split)

end
