(* ===== verification/Notif.thy ===== *)
theory Notif
  imports Bitstring
begin

text \<open>
  Asynchronous notifications (\<open>core/kernel/notif.c\<close>): the values drivers allocate, the values
  pending for normal world, and the events delivered to drivers. Everything runs under
  \<open>notif_lock\<close>, so each operation is one step; callbacks of \<open>notif_deliver_event\<close> run
  without the lock and may see other steps in between.
\<close>

section \<open>State and operations\<close>

definition NOTIF_ASYNC_VALUE_MAX :: nat where
  "NOTIF_ASYNC_VALUE_MAX = 63"

record notif =
  notif_values :: "bool list"
  notif_alloc_values :: "bool list"
  alloc_values_inited :: bool
  notif_started :: bool
  notif_drivers :: "nat list"

definition notif_init :: notif where
  "notif_init = \<lparr>notif_values = replicate 64 False, notif_alloc_values = replicate 64 False,
     alloc_values_inited = False, notif_started = False, notif_drivers = []\<rparr>"

text \<open>
  Synchronous notifications are requests to normal world; \<open>thread_rpc_cmd\<close> (architecture code) is a parameter,
  a command with its value parameters.
\<close>

definition OPTEE_RPC_CMD_NOTIFICATION :: "32 word" where "OPTEE_RPC_CMD_NOTIFICATION = 4"
definition OPTEE_RPC_NOTIFICATION_WAIT :: "32 word" where "OPTEE_RPC_NOTIFICATION_WAIT = 0"
definition OPTEE_RPC_NOTIFICATION_SEND :: "32 word" where "OPTEE_RPC_NOTIFICATION_SEND = 1"

type_synonym thread_rpc = "32 word \<Rightarrow> (64 word \<times> 64 word \<times> 64 word) list \<Rightarrow> tee_result"

definition notif_rpc :: "thread_rpc \<Rightarrow> 32 word \<Rightarrow> 32 word \<Rightarrow> tee_result" where
  "notif_rpc thread_rpc_cmd func value = thread_rpc_cmd OPTEE_RPC_CMD_NOTIFICATION [(ucast func, ucast value, 0)]"

definition notif_wait :: "thread_rpc \<Rightarrow> 32 word \<Rightarrow> tee_result" where
  "notif_wait thread_rpc_cmd value = notif_rpc thread_rpc_cmd OPTEE_RPC_NOTIFICATION_WAIT value"

definition notif_send_sync :: "thread_rpc \<Rightarrow> 32 word \<Rightarrow> tee_result" where
  "notif_send_sync thread_rpc_cmd value = notif_rpc thread_rpc_cmd OPTEE_RPC_NOTIFICATION_SEND value"

text \<open>The bottom-half value 0 is taken at the first call.\<close>

definition notif_alloc_async_value :: "notif \<Rightarrow> (tee_result + nat) \<times> notif" where
  "notif_alloc_async_value s =
     (let s1 = (if \<not> alloc_values_inited s
                then s\<lparr>notif_alloc_values := (notif_alloc_values s)[0 := True],
                       alloc_values_inited := True\<rparr>
                else s)
      in case bit_ffc (notif_alloc_values s1) of
           None \<Rightarrow> (Inl TEE_ERROR_OUT_OF_MEMORY, s1)
         | Some b \<Rightarrow> (Inr b, s1\<lparr>notif_alloc_values := (notif_alloc_values s1)[b := True]\<rparr>))"

text \<open>\<open>None\<close>: one of the two assertions fails.\<close>

definition notif_free_async_value :: "nat \<Rightarrow> notif \<Rightarrow> notif option" where
  "notif_free_async_value val s =
     (if \<not> val < NOTIF_ASYNC_VALUE_MAX then None
      else if \<not> notif_alloc_values s ! val then None
      else Some (s\<lparr>notif_alloc_values := (notif_alloc_values s)[val := False]\<rparr>))"

text \<open>The value, whether it is valid, and whether more are pending.\<close>

definition notif_get_value :: "notif \<Rightarrow> (nat \<times> bool \<times> bool) \<times> notif" where
  "notif_get_value s =
     (case bit_ffs (notif_values s) of
        None \<Rightarrow> ((0, False, False), s)
      | Some res \<Rightarrow>
          let vs = (notif_values s)[res := False]
          in ((res, True, bit_ffs vs \<noteq> None), s\<lparr>notif_values := vs\<rparr>))"

definition notif_send_async :: "nat \<Rightarrow> notif \<Rightarrow> notif option" where
  "notif_send_async val s =
     (if \<not> val \<le> NOTIF_ASYNC_VALUE_MAX then None
      else Some (s\<lparr>notif_values := (notif_values s)[val := True]\<rparr>))"

definition notif_async_is_started :: "notif \<Rightarrow> bool" where
  "notif_async_is_started s = notif_started s"

definition notif_register_driver :: "nat \<Rightarrow> notif \<Rightarrow> notif" where
  "notif_register_driver d s = s\<lparr>notif_drivers := d # notif_drivers s\<rparr>"

text \<open>\<open>None\<close>: \<open>SLIST_REMOVE\<close> runs past the end of the list.\<close>

definition notif_unregister_driver :: "nat \<Rightarrow> notif \<Rightarrow> notif option" where
  "notif_unregister_driver d s =
     (if d \<in> set (notif_drivers s) then Some (s\<lparr>notif_drivers := remove1 d (notif_drivers s)\<rparr>)
      else None)"

datatype notif_event = NOTIF_EVENT_STARTED | NOTIF_EVENT_DO_BOTTOM_HALF | NOTIF_EVENT_STOPPED

text \<open>
  The callbacks that run, as a list of drivers and events; a driver has a callback of a kind if
  \<open>has_cb\<close> says so. Atomic callbacks run with the lock held.
\<close>

definition notif_deliver_atomic_event ::
    "(nat \<Rightarrow> bool) \<Rightarrow> notif_event \<Rightarrow> notif \<Rightarrow> ((nat \<times> notif_event) list \<times> notif) option" where
  "notif_deliver_atomic_event has_cb ev s =
     (if ev \<noteq> NOTIF_EVENT_STARTED then None
      else if notif_started s then Some ([], s)
      else
        let s1 = s\<lparr>notif_started := True\<rparr>
        in Some (map (\<lambda>d. (d, ev)) (filter has_cb (notif_drivers s1)), s1))"

text \<open>
  The loop of \<open>notif_deliver_event\<close>: after each callback the lock is taken again, and \<open>env\<close>
  has the steps other threads made meanwhile, one function for each driver. Drivers registered
  meanwhile enter at the head and are not visited; the loop is that of the code as long as
  none is unregistered meanwhile.
\<close>

fun deliver_loop ::
    "(nat \<Rightarrow> bool) \<Rightarrow> notif_event \<Rightarrow> nat list \<Rightarrow> (notif \<Rightarrow> notif) list \<Rightarrow> notif
     \<Rightarrow> (nat \<times> notif_event) list \<times> notif" where
  "deliver_loop has_cb ev [] env s = ([], s)"
| "deliver_loop has_cb ev (nd # nds) env s =
     (let called = (if has_cb nd then [(nd, ev)] else []);
          s1 = (case env of [] \<Rightarrow> s | f # _ \<Rightarrow> f s)
      in if ev = NOTIF_EVENT_STOPPED \<and> notif_started s1 then (called, s1)
         else case deliver_loop has_cb ev nds (tl env) s1 of (rest, s2) \<Rightarrow> (called @ rest, s2))"

definition notif_deliver_event ::
    "(nat \<Rightarrow> bool) \<Rightarrow> notif_event \<Rightarrow> (notif \<Rightarrow> notif) list \<Rightarrow> notif
     \<Rightarrow> ((nat \<times> notif_event) list \<times> notif) option" where
  "notif_deliver_event has_cb ev env s =
     (if ev \<noteq> NOTIF_EVENT_DO_BOTTOM_HALF \<and> ev \<noteq> NOTIF_EVENT_STOPPED then None
      else if \<not> notif_started s then Some ([], s)
      else
        let s1 = (if ev = NOTIF_EVENT_STOPPED then s\<lparr>notif_started := False\<rparr> else s)
        in Some (deliver_loop has_cb ev (notif_drivers s1) env s1))"

section \<open>Allocation\<close>

text \<open>The values handed out and not given back; value 0 belongs to the bottom half.\<close>

definition notif_ok :: "notif \<Rightarrow> bool" where
  [inv_defs]: "notif_ok s \<longleftrightarrow> length (notif_values s) = 64 \<and> length (notif_alloc_values s) = 64
     \<and> (alloc_values_inited s \<longrightarrow> notif_alloc_values s ! 0)
     \<and> (\<not> alloc_values_inited s \<longrightarrow> (\<forall>i < 64. \<not> notif_alloc_values s ! i))"

definition allocated :: "notif \<Rightarrow> nat set" where
  "allocated s = {i. 0 < i \<and> i < 64 \<and> notif_alloc_values s ! i}"

lemma allocated_set_bit:
  assumes "notif_ok s" and "0 < v" and "v < 64"
  shows "allocated (s\<lparr>notif_alloc_values := (notif_alloc_values s)[v := True]\<rparr>) = insert v (allocated s)"
    and "notif_ok (s\<lparr>notif_alloc_values := (notif_alloc_values s)[v := False]\<rparr>)"
    and "allocated (s\<lparr>notif_alloc_values := (notif_alloc_values s)[v := False]\<rparr>) = allocated s - {v}"
    and "alloc_values_inited s \<Longrightarrow>
      notif_ok (s\<lparr>notif_alloc_values := (notif_alloc_values s)[v := True]\<rparr>)"
proof -
  have len: "length (notif_alloc_values s) = 64" using assms(1) by (simp add: notif_ok_def)
  show "allocated (s\<lparr>notif_alloc_values := (notif_alloc_values s)[v := True]\<rparr>) = insert v (allocated s)"
    using len assms(2,3) by (auto simp: allocated_def nth_list_update)
  show "allocated (s\<lparr>notif_alloc_values := (notif_alloc_values s)[v := False]\<rparr>) = allocated s - {v}"
    using len assms(2,3) by (auto simp: allocated_def nth_list_update)
  show "notif_ok (s\<lparr>notif_alloc_values := (notif_alloc_values s)[v := False]\<rparr>)"
    using assms by (auto simp: notif_ok_def nth_list_update)
  show "alloc_values_inited s \<Longrightarrow>
      notif_ok (s\<lparr>notif_alloc_values := (notif_alloc_values s)[v := True]\<rparr>)"
    using assms by (auto simp: notif_ok_def nth_list_update)
qed

text \<open>The state the first call works on, with the bottom-half value taken.\<close>

definition with_bottom_half :: "notif \<Rightarrow> notif" where
  "with_bottom_half s =
     (if \<not> alloc_values_inited s
      then s\<lparr>notif_alloc_values := (notif_alloc_values s)[0 := True], alloc_values_inited := True\<rparr>
      else s)"

lemma with_bottom_half_ok:
  assumes "notif_ok s"
  shows "notif_ok (with_bottom_half s)" and "alloc_values_inited (with_bottom_half s)"
    and "allocated (with_bottom_half s) = allocated s"
  using assms by (auto simp: with_bottom_half_def notif_ok_def allocated_def nth_list_update)

text \<open>
  \<open>notif_alloc_async_value\<close> hands out a value from 1 to 63 that nobody holds, the smallest
  one, and fails exactly when all 63 are taken; freeing a value below 63 makes just that value
  available again.
\<close>

theorem notif_alloc_free:
  assumes "notif_ok s"
  shows "(case notif_alloc_async_value s of
      (Inr v, s') \<Rightarrow> notif_ok s' \<and> 0 < v \<and> v < 64 \<and> v \<notin> allocated s
        \<and> (\<forall>w. 0 < w \<and> w < v \<longrightarrow> w \<in> allocated s) \<and> allocated s' = insert v (allocated s)
        \<and> (v < NOTIF_ASYNC_VALUE_MAX \<longrightarrow> (\<exists>s''. notif_free_async_value v s' = Some s''
             \<and> notif_ok s'' \<and> allocated s'' = allocated s))
    | (Inl e, s') \<Rightarrow> e = TEE_ERROR_OUT_OF_MEMORY \<and> allocated s = {1..63})"
proof -
  define s1 where "s1 = with_bottom_half s"
  note s1 = with_bottom_half_ok [OF assms, folded s1_def]
  have len: "length (notif_alloc_values s1) = 64" and zero: "notif_alloc_values s1 ! 0"
    using s1(1,2) by (simp_all add: notif_ok_def)
  have alloc: "notif_alloc_async_value s =
      (case bit_ffc (notif_alloc_values s1) of
         None \<Rightarrow> (Inl TEE_ERROR_OUT_OF_MEMORY, s1)
       | Some b \<Rightarrow> (Inr b, s1\<lparr>notif_alloc_values := (notif_alloc_values s1)[b := True]\<rparr>))"
    unfolding notif_alloc_async_value_def Let_def with_bottom_half_def [symmetric]
      s1_def [symmetric] by (rule refl)
  show ?thesis
  proof (cases "bit_ffc (notif_alloc_values s1)")
    case None
    then have "notif_alloc_values s1 ! i" if "i < 64" for i
      using that len by (auto simp: bit_ffc_def bit_first_None)
    then have "allocated s1 = {1..63}" by (auto simp: allocated_def)
    then show ?thesis using None s1(3) by (simp add: alloc)
  next
    case (Some v)
    then have v: "v < 64" "\<not> notif_alloc_values s1 ! v" "\<And>j. j < v \<Longrightarrow> notif_alloc_values s1 ! j"
      using len by (auto simp: bit_ffc_def bit_first_Some)
    then have pos: "0 < v" using zero by (cases v) auto
    define s2 where "s2 = s1\<lparr>notif_alloc_values := (notif_alloc_values s1)[v := True]\<rparr>"
    have s2: "notif_ok s2" "allocated s2 = insert v (allocated s)"
      unfolding s2_def using allocated_set_bit(1,4) [OF s1(1) pos v(1)] s1(2,3) by simp_all
    have new: "v \<notin> allocated s" and least: "\<forall>w. 0 < w \<and> w < v \<longrightarrow> w \<in> allocated s"
      using v(1,2) v(3) unfolding s1(3) [symmetric] by (simp_all add: allocated_def)
    let ?s3 = "s2\<lparr>notif_alloc_values := (notif_alloc_values s2)[v := False]\<rparr>"
    have "notif_free_async_value v s2 = Some ?s3" if "v < NOTIF_ASYNC_VALUE_MAX"
      using that v(1) len by (simp add: notif_free_async_value_def s2_def)
    moreover have "notif_ok ?s3" "allocated ?s3 = allocated s"
      using allocated_set_bit(2,3) [OF s2(1) pos v(1)] s2(2) new by simp_all
    moreover have "notif_alloc_async_value s = (Inr v, s2)"
      using Some by (simp add: alloc s2_def)
    ultimately show ?thesis using v(1) pos s2 new least by auto
  qed
qed

lemma notif_alloc_free_witness:
  "case notif_alloc_async_value notif_init of (Inr v, s') \<Rightarrow> 0 < v \<and> v < 64 | (Inl e, s') \<Rightarrow> False"
proof -
  have "notif_ok notif_init" by (simp add: notif_ok_def notif_init_def)
  note all = notif_alloc_free [OF this]
  have "(1 :: nat) \<notin> allocated notif_init" by (simp add: allocated_def notif_init_def)
  then have "allocated notif_init \<noteq> {1..63}" by (metis atLeastAtMost_iff le_refl one_le_numeral)
  then show ?thesis using all by (simp split: prod.splits sum.splits)
qed

text \<open>
  The largest value cannot be given back. With all other values taken,
  \<open>notif_alloc_async_value\<close> hands out 63, which \<open>notif_send_async\<close> accepts, but
  \<open>notif_free_async_value\<close> fails its assertion that the value is below 63.
\<close>

theorem notif_free_last_asserts:
  assumes "notif_ok s" and "allocated s = {1..62}"
  shows "case notif_alloc_async_value s of
      (Inr v, s') \<Rightarrow> v = 63 \<and> notif_send_async v s' \<noteq> None \<and> notif_free_async_value v s' = None
    | (Inl e, s') \<Rightarrow> False"
proof -
  define s1 where "s1 = with_bottom_half s"
  note s1 = with_bottom_half_ok [OF assms(1), folded s1_def, unfolded assms(2)]
  have zero: "notif_alloc_values s1 ! 0" and len: "length (notif_alloc_values s1) = 64"
    using s1(1,2) by (simp_all add: notif_ok_def)
  have taken: "notif_alloc_values s1 ! j" if "j < 63" for j
  proof (cases "j = 0")
    case False
    then have "j \<in> allocated s1" using that by (simp add: s1(3))
    then show ?thesis by (simp add: allocated_def)
  qed (use zero in simp)
  have "(63 :: nat) \<notin> allocated s1" by (simp add: s1(3))
  then have free: "\<not> notif_alloc_values s1 ! 63" by (simp add: allocated_def)
  have "bit_ffc (notif_alloc_values s1) = Some 63"
    unfolding bit_ffc_def bit_first_Some using len free taken by simp
  then show ?thesis
    unfolding notif_alloc_async_value_def Let_def with_bottom_half_def [symmetric]
      s1_def [symmetric]
    by (simp add: notif_free_async_value_def notif_send_async_def NOTIF_ASYNC_VALUE_MAX_def)
qed

lemma notif_free_last_asserts_witness:
  "let s = notif_init\<lparr>notif_alloc_values := replicate 63 True @ [False], alloc_values_inited := True\<rparr>
   in case notif_alloc_async_value s of
      (Inr v, s') \<Rightarrow> notif_free_async_value v s' = None
    | (Inl e, s') \<Rightarrow> False"
proof -
  let ?s = "notif_init\<lparr>notif_alloc_values := replicate 63 True @ [False], alloc_values_inited := True\<rparr>"
  have "notif_ok ?s" by (simp add: notif_ok_def notif_init_def nth_append)
  moreover have "allocated ?s = {1..62}" by (auto simp: allocated_def nth_append less_Suc_eq)
  ultimately show ?thesis
    using notif_free_last_asserts [of ?s] by (auto simp: Let_def split: prod.splits sum.splits)
qed

section \<open>Delivery to normal world\<close>

text \<open>Normal world asks for values until none is valid.\<close>

fun drain :: "nat \<Rightarrow> notif \<Rightarrow> nat list" where
  "drain 0 s = []"
| "drain (Suc k) s =
     (case notif_get_value s of ((v, valid, pending), s') \<Rightarrow>
        if valid then v # (if pending then drain k s' else []) else [])"

definition pending_values :: "notif \<Rightarrow> nat set" where
  "pending_values s = {i. i < length (notif_values s) \<and> notif_values s ! i}"

lemma bit_ffs_None: "bit_ffs (notif_values s) = None \<longleftrightarrow> pending_values s = {}"
  by (auto simp: bit_ffs_def bit_first_None pending_values_def)

lemma bit_ffs_Some:
  "bit_ffs (notif_values s) = Some v \<Longrightarrow> v \<in> pending_values s \<and> (\<forall>w \<in> pending_values s. v \<le> w)"
  by (auto simp: bit_ffs_def bit_first_Some pending_values_def) (meson not_le)

lemma drain_all:
  "card (pending_values s) \<le> k \<Longrightarrow>
   set (drain k s) = pending_values s \<and> sorted_wrt (<) (drain k s)"
proof (induction k arbitrary: s)
  case 0
  then show ?case by (simp add: pending_values_def)
next
  case (Suc k)
  show ?case
  proof (cases "bit_ffs (notif_values s)")
    case None
    then have "pending_values s = {}" using bit_ffs_None by blast
    then show ?thesis using None by (simp add: notif_get_value_def)
  next
    case (Some v)
    define s' where "s' = s\<lparr>notif_values := (notif_values s)[v := False]\<rparr>"
    note v = bit_ffs_Some [OF Some]
    have s': "pending_values s' = pending_values s - {v}"
      using v by (auto simp: s'_def pending_values_def nth_list_update split: if_splits)
    have "card (pending_values s') \<le> k"
      using Suc.prems v unfolding s' by (simp add: pending_values_def)
    from Suc.IH [OF this] have rest: "set (drain k s') = pending_values s - {v}"
      "sorted_wrt (<) (drain k s')" by (simp_all add: s')
    have step: "drain (Suc k) s = v # (if bit_ffs (notif_values s') \<noteq> None then drain k s' else [])"
      using Some by (simp add: notif_get_value_def s'_def Let_def)
    show ?thesis
    proof (cases "bit_ffs (notif_values s') = None")
      case True
      then show ?thesis using step v s' by (auto simp: bit_ffs_None)
    next
      case False
      have "v < w" if "w \<in> set (drain k s')" for w
        using that rest(1) v by (metis Diff_iff insertCI le_neq_implies_less)
      then show ?thesis using step False rest v by auto
    qed
  qed
qed

text \<open>
  C33: No notification is lost or repeated: after a value has been sent, normal world, which asks
  for values until the "pending" flag is clear, receives exactly the pending values, each
  once and in increasing order, the new one among them.
\<close>

theorem notif_values_delivered:
  assumes "notif_ok s" and "val \<le> NOTIF_ASYNC_VALUE_MAX"
  shows "\<exists>s'. notif_send_async val s = Some s'
    \<and> set (drain 64 s') = insert val (pending_values s) \<and> distinct (drain 64 s')
    \<and> sorted (drain 64 s')"
proof -
  let ?s = "s\<lparr>notif_values := (notif_values s)[val := True]\<rparr>"
  have send: "notif_send_async val s = Some ?s" using assms(2) by (simp add: notif_send_async_def)
  have len: "length (notif_values s) = 64" using assms(1) by (simp add: notif_ok_def)
  have pend: "pending_values ?s = insert val (pending_values s)"
    using assms(2) len
    by (auto simp: pending_values_def nth_list_update NOTIF_ASYNC_VALUE_MAX_def split: if_splits)
  have "pending_values ?s \<subseteq> {..< 64}" using len by (auto simp: pending_values_def)
  then have "card (pending_values ?s) \<le> 64" using card_mono [of "{..< 64}"] by fastforce
  from drain_all [OF this] show ?thesis
    using send pend by (auto simp: strict_sorted_iff)
qed

lemma notif_values_delivered_witness:
  "\<exists>s'. notif_send_async 5 notif_init = Some s' \<and> set (drain 64 s') = insert 5 (pending_values notif_init)"
proof -
  have "notif_ok notif_init" by (simp add: notif_ok_def notif_init_def)
  from notif_values_delivered [OF this, of 5] show ?thesis
    by (auto simp: NOTIF_ASYNC_VALUE_MAX_def)
qed

text \<open>A step that leaves the drivers and the started flag alone.\<close>

definition quiet :: "(notif \<Rightarrow> notif) \<Rightarrow> bool" where
  "quiet f \<longleftrightarrow> (\<forall>s. notif_started (f s) = notif_started s \<and> notif_drivers (f s) = notif_drivers s)"

lemma deliver_loop_all:
  assumes "ev = NOTIF_EVENT_STOPPED \<longrightarrow> \<not> notif_started s"
    and "\<forall>f \<in> set env. quiet f"
  shows "\<exists>s'. deliver_loop cb ev nds env s = (map (\<lambda>d. (d, ev)) (filter cb nds), s')
    \<and> notif_started s' = notif_started s"
  using assms
proof (induction nds arbitrary: env s)
  case (Cons nd nds)
  define s1 where "s1 = (case env of [] \<Rightarrow> s | f # _ \<Rightarrow> f s)"
  have s1: "notif_started s1 = notif_started s"
    using Cons.prems by (auto simp: s1_def quiet_def split: list.split)
  have "set (tl env) \<subseteq> set env" by (cases env) auto
  then have env: "\<forall>f \<in> set (tl env). quiet f"
    using Cons.prems(2) by blast
  have "\<exists>s'. deliver_loop cb ev nds (tl env) s1 = (map (\<lambda>d. (d, ev)) (filter cb nds), s')
      \<and> notif_started s' = notif_started s1"
    using Cons.prems(1) by (intro Cons.IH [OF _ env]) (simp add: s1)
  then show ?case using s1 Cons.prems(1) by (auto simp: s1_def [symmetric] Let_def)
qed simp

text \<open>
  Events reach drivers as \<open>notif.h\<close> says. The "started" event is delivered to all drivers
  with an atomic callback when notifications are off, and not again while they are on. While
  they are on, a bottom half reaches every driver; before that, none. If nobody restarts
  notifications or changes the drivers meanwhile, the "stopped" event reaches every driver and turns them off, so that
  no further bottom half is delivered.
\<close>

theorem notif_event_protocol:
  assumes "\<forall>f \<in> set env. quiet f"
  shows "if notif_started s
    then notif_deliver_atomic_event cb NOTIF_EVENT_STARTED s = Some ([], s)
      \<and> (\<exists>s'. notif_deliver_event cb NOTIF_EVENT_DO_BOTTOM_HALF env s
            = Some (map (\<lambda>d. (d, NOTIF_EVENT_DO_BOTTOM_HALF)) (filter cb (notif_drivers s)), s')
          \<and> notif_started s')
      \<and> (\<exists>s'. notif_deliver_event cb NOTIF_EVENT_STOPPED env s
            = Some (map (\<lambda>d. (d, NOTIF_EVENT_STOPPED)) (filter cb (notif_drivers s)), s')
          \<and> \<not> notif_started s'
          \<and> notif_deliver_event cb NOTIF_EVENT_DO_BOTTOM_HALF env s' = Some ([], s'))
    else notif_deliver_event cb NOTIF_EVENT_DO_BOTTOM_HALF env s = Some ([], s)
      \<and> notif_deliver_atomic_event cb NOTIF_EVENT_STARTED s
          = Some (map (\<lambda>d. (d, NOTIF_EVENT_STARTED)) (filter cb (notif_drivers s)),
                  s\<lparr>notif_started := True\<rparr>)"
proof (cases "notif_started s")
  case True
  let ?off = "s\<lparr>notif_started := False\<rparr>"
  obtain s1 where bottom: "deliver_loop cb NOTIF_EVENT_DO_BOTTOM_HALF (notif_drivers s) env s
      = (map (\<lambda>d. (d, NOTIF_EVENT_DO_BOTTOM_HALF)) (filter cb (notif_drivers s)), s1)"
    "notif_started s1"
    using deliver_loop_all [OF _ assms, of NOTIF_EVENT_DO_BOTTOM_HALF s cb "notif_drivers s"] True
    by auto
  obtain s2 where stop: "deliver_loop cb NOTIF_EVENT_STOPPED (notif_drivers s) env ?off
      = (map (\<lambda>d. (d, NOTIF_EVENT_STOPPED)) (filter cb (notif_drivers s)), s2)"
    "\<not> notif_started s2"
    using deliver_loop_all [OF _ assms, of NOTIF_EVENT_STOPPED ?off cb "notif_drivers s"] by auto
  show ?thesis
    using True bottom stop by (simp add: notif_deliver_atomic_event_def notif_deliver_event_def)
qed (simp add: notif_deliver_atomic_event_def notif_deliver_event_def)

lemma notif_event_protocol_witness:
  "notif_deliver_atomic_event (\<lambda>_. True) NOTIF_EVENT_STARTED (notif_register_driver 4 notif_init)
    = Some ([(4, NOTIF_EVENT_STARTED)], (notif_register_driver 4 notif_init)\<lparr>notif_started := True\<rparr>)"
  using notif_event_protocol [of "[]" "notif_register_driver 4 notif_init" "\<lambda>_. True"]
  by (simp add: notif_register_driver_def notif_init_def)

end
