(* ===== verification/Pobj.thy ===== *)
theory Pobj
  imports Prelude
begin

text \<open>
  Open persistent objects (\<open>core/tee/tee_pobj.c\<close>): the list of objects some handle is open
  on, with the rules of the TEE Internal Core API about which handles may be open together. An
  object is named by its address; every operation runs under \<open>pobjs_mutex\<close> and is one step.
\<close>

section \<open>State\<close>

abbreviation (input) TEE_DATA_FLAG_ACCESS_READ :: "32 word" where "TEE_DATA_FLAG_ACCESS_READ \<equiv> 0x1"
abbreviation (input) TEE_DATA_FLAG_ACCESS_WRITE :: "32 word" where "TEE_DATA_FLAG_ACCESS_WRITE \<equiv> 0x2"
abbreviation (input) TEE_DATA_FLAG_ACCESS_WRITE_META :: "32 word" where
  "TEE_DATA_FLAG_ACCESS_WRITE_META \<equiv> 0x4"
abbreviation (input) TEE_DATA_FLAG_SHARE_READ :: "32 word" where "TEE_DATA_FLAG_SHARE_READ \<equiv> 0x10"
abbreviation (input) TEE_DATA_FLAG_SHARE_WRITE :: "32 word" where "TEE_DATA_FLAG_SHARE_WRITE \<equiv> 0x20"
abbreviation (input) TEE_DATA_FLAG_OVERWRITE :: "32 word" where "TEE_DATA_FLAG_OVERWRITE \<equiv> 0x400"

datatype tee_pobj_usage =
  TEE_POBJ_USAGE_OPEN | TEE_POBJ_USAGE_RENAME | TEE_POBJ_USAGE_CREATE | TEE_POBJ_USAGE_ENUM

text \<open>The file operations are named by a number: only their identity matters here.\<close>

record tee_pobj =
  refcnt :: "32 word"
  po_uuid :: "8 word list"
  obj_id :: "8 word list"
  flags :: "32 word"
  temporary :: bool
  creating :: bool
  po_fops :: nat

type_synonym tee_pobjs = "(nat \<times> tee_pobj) list"

definition pobj_update :: "nat \<Rightarrow> (tee_pobj \<Rightarrow> tee_pobj) \<Rightarrow> tee_pobjs \<Rightarrow> tee_pobjs" where
  "pobj_update a f ps = map (\<lambda>(b, po). (b, if b = a then f po else po)) ps"

section \<open>Operations\<close>

definition tee_pobj_check_access :: "32 word \<Rightarrow> 32 word \<Rightarrow> tee_result" where
  "tee_pobj_check_access oflags nflags =
     (if oflags AND TEE_DATA_FLAG_ACCESS_WRITE_META \<noteq> 0
         \<or> nflags AND TEE_DATA_FLAG_ACCESS_WRITE_META \<noteq> 0
      then TEE_ERROR_ACCESS_CONFLICT
      else if (oflags AND TEE_DATA_FLAG_ACCESS_READ \<noteq> 0 \<or> nflags AND TEE_DATA_FLAG_ACCESS_READ \<noteq> 0)
         \<and> \<not> (nflags AND TEE_DATA_FLAG_SHARE_READ \<noteq> 0 \<and> oflags AND TEE_DATA_FLAG_SHARE_READ \<noteq> 0)
      then TEE_ERROR_ACCESS_CONFLICT
      else if nflags AND TEE_DATA_FLAG_SHARE_READ \<noteq> oflags AND TEE_DATA_FLAG_SHARE_READ
      then TEE_ERROR_ACCESS_CONFLICT
      else if (oflags AND TEE_DATA_FLAG_ACCESS_WRITE \<noteq> 0 \<or> nflags AND TEE_DATA_FLAG_ACCESS_WRITE \<noteq> 0)
         \<and> \<not> (nflags AND TEE_DATA_FLAG_SHARE_WRITE \<noteq> 0 \<and> oflags AND TEE_DATA_FLAG_SHARE_WRITE \<noteq> 0)
      then TEE_ERROR_ACCESS_CONFLICT
      else if nflags AND TEE_DATA_FLAG_SHARE_WRITE \<noteq> oflags AND TEE_DATA_FLAG_SHARE_WRITE
      then TEE_ERROR_ACCESS_CONFLICT
      else TEE_SUCCESS)"

text \<open>The walk through the list has no \<open>break\<close>: the last match counts.\<close>

fun find_pobj ::
    "8 word list \<Rightarrow> 8 word list \<Rightarrow> nat \<Rightarrow> tee_pobjs \<Rightarrow> (nat \<times> tee_pobj) option \<Rightarrow> (nat \<times> tee_pobj) option"
  where
  "find_pobj u oid fo [] found = found"
| "find_pobj u oid fo ((a, po) # ps) found =
     find_pobj u oid fo ps
       (if length oid = length (obj_id po) \<and> oid = obj_id po \<and> u = po_uuid po \<and> fo = po_fops po
        then Some (a, po) else found)"

text \<open>
  \<open>new\<close> is the address \<open>calloc\<close> returns, \<open>id_ok\<close> whether \<open>malloc\<close> has room for the
  identifier.
\<close>

definition tee_pobj_get ::
    "8 word list \<Rightarrow> 8 word list \<Rightarrow> 32 word \<Rightarrow> tee_pobj_usage \<Rightarrow> nat \<Rightarrow> nat option \<Rightarrow> bool \<Rightarrow> tee_pobjs
     \<Rightarrow> tee_result \<times> nat option \<times> tee_pobjs" where
  "tee_pobj_get u oid fl usage fo new id_ok ps =
     (case find_pobj u oid fo ps None of
        Some (a, po) \<Rightarrow>
          if usage = TEE_POBJ_USAGE_ENUM
          then (TEE_SUCCESS, Some a, pobj_update a (\<lambda>o'. o'\<lparr>refcnt := refcnt o' + 1\<rparr>) ps)
          else if creating po \<or> usage = TEE_POBJ_USAGE_CREATE \<and> fl AND TEE_DATA_FLAG_OVERWRITE = 0
          then (TEE_ERROR_ACCESS_CONFLICT, None, ps)
          else
            let res = tee_pobj_check_access (flags po) fl
            in if res = TEE_SUCCESS
               then (res, Some a, pobj_update a (\<lambda>o'. o'\<lparr>refcnt := refcnt o' + 1\<rparr>) ps)
               else (res, None, ps)
      | None \<Rightarrow>
          (case new of
             None \<Rightarrow> (TEE_ERROR_OUT_OF_MEMORY, None, ps)
           | Some a \<Rightarrow>
               if \<not> id_ok then (TEE_ERROR_OUT_OF_MEMORY, None, ps)
               else (TEE_SUCCESS, Some a,
                 ps @ [(a, \<lparr>refcnt = 1, po_uuid = u, obj_id = oid, flags = fl,
                            temporary = (usage = TEE_POBJ_USAGE_CREATE),
                            creating = (usage = TEE_POBJ_USAGE_CREATE), po_fops = fo\<rparr>)])))"

definition tee_pobj_create_final :: "nat \<Rightarrow> tee_pobjs \<Rightarrow> tee_pobjs" where
  "tee_pobj_create_final a ps = pobj_update a (\<lambda>po. po\<lparr>temporary := False, creating := False\<rparr>) ps"

definition tee_pobj_release :: "nat option \<Rightarrow> tee_pobjs \<Rightarrow> tee_result \<times> tee_pobjs" where
  "tee_pobj_release ob ps =
     (case ob of
        None \<Rightarrow> (TEE_ERROR_BAD_PARAMETERS, ps)
      | Some a \<Rightarrow>
          let ps1 = pobj_update a (\<lambda>po. po\<lparr>refcnt := refcnt po - 1\<rparr>) ps
          in (TEE_SUCCESS, filter (\<lambda>(b, po). \<not> (b = a \<and> refcnt po = 0)) ps1))"

definition tee_pobj_rename ::
    "nat option \<Rightarrow> 8 word list option \<Rightarrow> bool \<Rightarrow> tee_pobjs \<Rightarrow> tee_result \<times> tee_pobjs" where
  "tee_pobj_rename ob oid id_ok ps =
     (case (ob, oid) of
        (Some a, Some new_id) \<Rightarrow>
          (case map_of ps a of
             None \<Rightarrow> (TEE_ERROR_BAD_STATE, ps)
           | Some po \<Rightarrow>
               if refcnt po \<noteq> 1 then (TEE_ERROR_BAD_STATE, ps)
               else if \<not> id_ok then (TEE_ERROR_OUT_OF_MEMORY, ps)
               else (TEE_SUCCESS, pobj_update a (\<lambda>po. po\<lparr>obj_id := new_id\<rparr>) ps))
      | _ \<Rightarrow> (TEE_ERROR_BAD_PARAMETERS, ps))"

section \<open>Which handles may be open together\<close>

text \<open>
  The rule of the TEE Internal Core API for two handles on one object: write-meta access is
  exclusive, and who reads or writes needs the sharing flag on both sides.
\<close>

definition may_share :: "32 word \<Rightarrow> 32 word \<Rightarrow> bool" where
  "may_share f g \<longleftrightarrow>
     f AND TEE_DATA_FLAG_ACCESS_WRITE_META = 0 \<and> g AND TEE_DATA_FLAG_ACCESS_WRITE_META = 0
     \<and> (f AND TEE_DATA_FLAG_ACCESS_READ \<noteq> 0 \<or> g AND TEE_DATA_FLAG_ACCESS_READ \<noteq> 0 \<longrightarrow>
          f AND TEE_DATA_FLAG_SHARE_READ \<noteq> 0 \<and> g AND TEE_DATA_FLAG_SHARE_READ \<noteq> 0)
     \<and> (f AND TEE_DATA_FLAG_ACCESS_WRITE \<noteq> 0 \<or> g AND TEE_DATA_FLAG_ACCESS_WRITE \<noteq> 0 \<longrightarrow>
          f AND TEE_DATA_FLAG_SHARE_WRITE \<noteq> 0 \<and> g AND TEE_DATA_FLAG_SHARE_WRITE \<noteq> 0)"

abbreviation compatible :: "32 word \<Rightarrow> 32 word \<Rightarrow> bool" where
  "compatible f g \<equiv> tee_pobj_check_access f g = TEE_SUCCESS"

lemma compatible_may_share: "compatible f g \<Longrightarrow> may_share f g"
  by (auto simp: tee_pobj_check_access_def may_share_def split: if_splits)

lemma compatible_sym: "compatible f g \<Longrightarrow> compatible g f"
  by (auto simp: tee_pobj_check_access_def split: if_splits)

text \<open>New handles are checked against the first one only; this is why that is enough.\<close>

lemma compatible_trans: "compatible a f \<Longrightarrow> compatible a g \<Longrightarrow> compatible f g"
  by (auto simp: tee_pobj_check_access_def split: if_splits)

text \<open>A handle: the object, what it was opened for, and its flags.\<close>

type_synonym handle = "nat \<times> tee_pobj_usage \<times> 32 word"

definition handles_on :: "nat \<Rightarrow> handle list \<Rightarrow> handle list" where
  "handles_on a hs = filter (\<lambda>h. fst h = a) hs"

definition data_flags :: "nat \<Rightarrow> handle list \<Rightarrow> 32 word list" where
  "data_flags a hs =
     map (\<lambda>(_, _, f). f) (filter (\<lambda>(_, u, _). u \<noteq> TEE_POBJ_USAGE_ENUM) (handles_on a hs))"

text \<open>The calls of the storage services; \<open>refcnt\<close> has room for all handles.\<close>

inductive pobj_step :: "tee_pobjs \<times> handle list \<Rightarrow> tee_pobjs \<times> handle list \<Rightarrow> bool" where
  get: "tee_pobj_get u oid fl usage fo new id_ok ps = (res, ob, ps') \<Longrightarrow>
    new \<notin> Some ` fst ` set ps \<Longrightarrow> length hs < 2 ^ 32 - 1 \<Longrightarrow>
    pobj_step (ps, hs) (ps', case ob of None \<Rightarrow> hs | Some a \<Rightarrow> (a, usage, fl) # hs)"
| release: "(a, usage, fl) \<in> set hs \<Longrightarrow> tee_pobj_release (Some a) ps = (res, ps') \<Longrightarrow>
    pobj_step (ps, hs) (ps', remove1 (a, usage, fl) hs)"
| create_final: "(a, TEE_POBJ_USAGE_CREATE, fl) \<in> set hs \<Longrightarrow>
    pobj_step (ps, hs) (tee_pobj_create_final a ps, hs)"
| rename: "(a, usage, fl) \<in> set hs \<Longrightarrow> tee_pobj_rename (Some a) oid id_ok ps = (res, ps') \<Longrightarrow>
    pobj_step (ps, hs) (ps', hs)"

inductive pobj_reachable :: "tee_pobjs \<times> handle list \<Rightarrow> bool" where
  start: "pobj_reachable ([], [])"
| step: "pobj_reachable s \<Longrightarrow> pobj_step s s' \<Longrightarrow> pobj_reachable s'"

definition object_ok :: "handle list \<Rightarrow> nat \<times> tee_pobj \<Rightarrow> bool" where
  "object_ok hs p \<longleftrightarrow>
     unat (refcnt (snd p)) = length (handles_on (fst p) hs) \<and> handles_on (fst p) hs \<noteq> []
     \<and> (\<forall>f \<in> set (data_flags (fst p) hs). f = flags (snd p) \<or> compatible (flags (snd p)) f)
     \<and> sorted_wrt compatible (data_flags (fst p) hs)
     \<and> (creating (snd p) \<longrightarrow> length (data_flags (fst p) hs) \<le> 1)"

definition pobjs_ok :: "tee_pobjs \<times> handle list \<Rightarrow> bool" where
  [inv_defs]: "pobjs_ok s \<longleftrightarrow> distinct (map fst (fst s)) \<and> list_all (object_ok (snd s)) (fst s)
     \<and> fst ` set (snd s) \<subseteq> fst ` set (fst s) \<and> length (snd s) < 2 ^ 32"

lemma pobj_update_simps [simp]:
  "map fst (pobj_update a f ps) = map fst ps"
  "fst ` set (pobj_update a f ps) = fst ` set ps"
  by (auto simp: pobj_update_def case_prod_beta image_image)

lemma in_pobj_update:
  "(b, po) \<in> set (pobj_update a f ps) \<longleftrightarrow> (\<exists>q. (b, q) \<in> set ps \<and> po = (if b = a then f q else q))"
  unfolding pobj_update_def set_map image_iff by force

lemma find_pobj_in: "find_pobj u oid fo ps found = Some p \<Longrightarrow> p \<in> set ps \<or> found = Some p"
  by (induction u oid fo ps found rule: find_pobj.induct) (auto split: if_splits)

lemma handles_on_Cons [simp]:
  "handles_on a (h # hs) = (if fst h = a then h # handles_on a hs else handles_on a hs)"
  by (simp add: handles_on_def)

lemma data_flags_Cons [simp]:
  "data_flags a ((b, u, f) # hs) =
    (if b = a \<and> u \<noteq> TEE_POBJ_USAGE_ENUM then f # data_flags a hs else data_flags a hs)"
  by (simp add: data_flags_def)

lemma handles_on_length: "length (handles_on a hs) \<le> length hs"
  by (simp add: handles_on_def)

lemma handles_on_remove1:
  "handles_on a (remove1 h hs) = (if fst h = a then remove1 h (handles_on a hs) else handles_on a hs)"
  by (simp add: handles_on_def filter_remove1 remove1_idem)

lemma set_data_flags_remove1: "set (data_flags a (remove1 h hs)) \<subseteq> set (data_flags a hs)"
  by (induction hs) (auto split: if_splits)

lemma length_data_flags_remove1: "length (data_flags a (remove1 h hs)) \<le> length (data_flags a hs)"
  by (induction hs) auto

lemma sorted_data_flags_remove1:
  "sorted_wrt P (data_flags a hs) \<Longrightarrow> sorted_wrt P (data_flags a (remove1 h hs))"
  using set_data_flags_remove1 by (induction hs) fastforce+

lemma object_ok_other:
  assumes "object_ok hs (b, po)" and "b \<noteq> a"
  shows "object_ok ((a, u, f) # hs) (b, po)"
  using assms by (simp add: object_ok_def)

lemma object_ok_add:
  assumes "object_ok hs (a, po)" and "length hs < 2 ^ 32 - 1"
    and "usage = TEE_POBJ_USAGE_ENUM \<or> \<not> creating po \<and> compatible (flags po) fl"
  shows "object_ok ((a, usage, fl) # hs) (a, po\<lparr>refcnt := refcnt po + 1\<rparr>)"
proof -
  have "unat (refcnt po) + 1 < 2 ^ 32"
    using assms(1,2) handles_on_length [of a hs] by (simp add: object_ok_def)
  then have cnt: "unat (refcnt po + 1) = length (handles_on a hs) + 1"
    using unat_add_exact [of "refcnt po" 1] assms(1) by (simp add: object_ok_def)
  have "compatible fl f" if "usage \<noteq> TEE_POBJ_USAGE_ENUM" "f \<in> set (data_flags a hs)" for f
    using assms(1,3) that compatible_trans compatible_sym unfolding object_ok_def
    by (metis fst_conv snd_conv)
  then show ?thesis using assms(1,3) cnt by (auto simp: object_ok_def)
qed

lemma object_ok_remove:
  assumes "object_ok hs (b, po)" and "handles_on b (remove1 h hs) \<noteq> []"
    and "h \<in> set hs"
  shows "object_ok (remove1 h hs) (b, if b = fst h then po\<lparr>refcnt := refcnt po - 1\<rparr> else po)"
proof -
  have le: "1 \<le> unat (refcnt po)" using assms(1) by (cases "handles_on b hs") (simp_all add: object_ok_def)
  have cnt: "unat (refcnt po - 1) = length (handles_on b hs) - 1"
    using unat_sub_exact [of 1 "refcnt po"] assms(1) le by (simp add: object_ok_def)
  have len: "length (handles_on b (remove1 h hs)) =
      (if b = fst h then length (handles_on b hs) - 1 else length (handles_on b hs))"
    using assms(3) by (auto simp: handles_on_remove1 length_remove1) (simp add: handles_on_def)
  have "sorted_wrt compatible (data_flags b (remove1 h hs))"
    and "length (data_flags b (remove1 h hs)) \<le> length (data_flags b hs)"
    using assms(1) sorted_data_flags_remove1 length_data_flags_remove1 by (auto simp: object_ok_def)
  then show ?thesis
    using assms(1,2) cnt len set_data_flags_remove1 [of b h hs] by (auto simp: object_ok_def)
qed

lemma get_ok:
  assumes inv: "pobjs_ok (ps, hs)" and get: "tee_pobj_get u oid fl usage fo new id_ok ps = (res, ob, ps')"
    and new: "new \<notin> Some ` fst ` set ps" and room: "length hs < 2 ^ 32 - 1"
  shows "pobjs_ok (ps', case ob of None \<Rightarrow> hs | Some a \<Rightarrow> (a, usage, fl) # hs)"
proof (cases "find_pobj u oid fo ps None")
  case None
  show ?thesis
  proof (cases "new = None \<or> \<not> id_ok")
    case False
    then obtain a where a: "new = Some a" and ok: "id_ok" by auto
    let ?po = "\<lparr>refcnt = 1, po_uuid = u, obj_id = oid, flags = fl,
      temporary = (usage = TEE_POBJ_USAGE_CREATE), creating = (usage = TEE_POBJ_USAGE_CREATE),
      po_fops = fo\<rparr>"
    have ps': "ps' = ps @ [(a, ?po)]" and ob: "ob = Some a"
      using get a ok None by (simp_all add: tee_pobj_get_def)
    have fresh: "a \<notin> fst ` set ps" using new a by (simp add: image_iff)
    then have none: "handles_on a hs = []"
      using inv unfolding pobjs_ok_def handles_on_def filter_empty_conv by auto
    then have "object_ok ((a, usage, fl) # hs) (a, ?po)"
      by (simp add: object_ok_def data_flags_def)
    moreover have "object_ok ((a, usage, fl) # hs) p" if "p \<in> set ps" for p
      using that inv fresh object_ok_other [of hs "fst p" "snd p" a]
      by (auto simp: pobjs_ok_def list_all_iff)
    ultimately show ?thesis using inv fresh room
      by (auto simp: ps' ob pobjs_ok_def list_all_iff)
  qed (use get None inv in \<open>auto simp: tee_pobj_get_def split: option.splits\<close>)
next
  case (Some p)
  obtain a po where p: "p = (a, po)" by (cases p)
  have mem: "(a, po) \<in> set ps" using find_pobj_in [OF Some] p by simp
  have uniq: "q = po" if "(a, q) \<in> set ps" for q
    using that mem inv by (auto simp: pobjs_ok_def dest: eq_key_imp_eq_value)
  show ?thesis
  proof (cases ob)
    case None
    then show ?thesis using get Some p inv
      by (auto simp: tee_pobj_get_def Let_def split: if_splits)
  next
    case (Some b)
    with \<open>find_pobj u oid fo ps None = Some p\<close> p get
    have ob: "ob = Some a" and ps': "ps' = pobj_update a (\<lambda>o'. o'\<lparr>refcnt := refcnt o' + 1\<rparr>) ps"
      and may: "usage = TEE_POBJ_USAGE_ENUM \<or> \<not> creating po \<and> compatible (flags po) fl"
      by (auto simp: tee_pobj_get_def Let_def split: if_splits)
    have "object_ok ((a, usage, fl) # hs) q" if q_in: "q \<in> set ps'" for q
    proof -
      obtain b qo where q: "q = (b, qo)" by (cases q)
      then obtain q0 where q0: "(b, q0) \<in> set ps"
        "qo = (if b = a then q0\<lparr>refcnt := refcnt q0 + 1\<rparr> else q0)"
        using q_in unfolding ps' by (auto simp: in_pobj_update)
      have ok: "object_ok hs (b, q0)" using inv q0(1) by (auto simp: pobjs_ok_def list_all_iff)
      show ?thesis
      proof (cases "b = a")
        case True
        then have "q0 = po" using uniq q0(1) by simp
        then show ?thesis using object_ok_add [OF _ room may] ok q q0(2) True by simp
      next
        case False
        then show ?thesis using object_ok_other [OF ok] q q0(2) by simp
      qed
    qed
    moreover have "fst ` set ((a, usage, fl) # hs) \<subseteq> fst ` set ps'"
      using inv imageI [OF mem, of fst] by (simp add: ps' pobjs_ok_def)
    ultimately show ?thesis using inv room
      by (simp add: ob ps' pobjs_ok_def list_all_iff)
  qed
qed

lemma release_ok:
  assumes inv: "pobjs_ok (ps, hs)" and h: "(a, usage, fl) \<in> set hs"
    and rel: "tee_pobj_release (Some a) ps = (res, ps')"
  shows "pobjs_ok (ps', remove1 (a, usage, fl) hs)"
proof -
  let ?h = "(a, usage, fl)" and ?hs = "remove1 (a, usage, fl) hs"
  let ?ps1 = "pobj_update a (\<lambda>po. po\<lparr>refcnt := refcnt po - 1\<rparr>) ps"
  have ps': "ps' = filter (\<lambda>(b, po). \<not> (b = a \<and> refcnt po = 0)) ?ps1"
    using rel by (simp add: tee_pobj_release_def Let_def)
  have last: "refcnt q - 1 = 0 \<longleftrightarrow> handles_on a ?hs = []" if "(a, q) \<in> set ps" for q
  proof -
    have cnt: "unat (refcnt q) = length (handles_on a hs)" and ne: "handles_on a hs \<noteq> []"
      using that inv by (auto simp: pobjs_ok_def list_all_iff object_ok_def)
    have "unat (1 :: 32 word) \<le> unat (refcnt q)" using cnt ne by (cases "handles_on a hs") simp_all
    then have "unat (refcnt q - 1) = length (handles_on a hs) - 1"
      using cnt unat_sub_exact [of 1 "refcnt q"] by simp
    moreover have "?h \<in> set (handles_on a hs)" using h by (simp add: handles_on_def)
    then have "length (handles_on a ?hs) = length (handles_on a hs) - 1"
      by (simp add: handles_on_remove1 length_remove1)
    ultimately show ?thesis by (metis length_0_conv unat_eq_zero)
  qed
  have "object_ok ?hs q" if q_in: "q \<in> set ps'" for q
  proof -
    obtain b qo where q: "q = (b, qo)" by (cases q)
    then obtain q0 where q0: "(b, q0) \<in> set ps"
      "qo = (if b = a then q0\<lparr>refcnt := refcnt q0 - 1\<rparr> else q0)" and live: "\<not> (b = a \<and> refcnt qo = 0)"
      using q_in unfolding ps' set_filter mem_Collect_eq in_pobj_update q prod.case by blast
    have ok: "object_ok hs (b, q0)" using inv q0(1) by (auto simp: pobjs_ok_def list_all_iff)
    have "handles_on b ?hs \<noteq> []"
      using last q0 live ok by (cases "b = a") (auto simp: handles_on_remove1 object_ok_def)
    from object_ok_remove [OF ok this h] show ?thesis using q q0(2) by simp
  qed
  moreover have "distinct (map fst ps')"
    using inv distinct_map_filter [of fst ?ps1] by (simp add: ps' pobjs_ok_def)
  moreover have "fst ` set ?hs \<subseteq> fst ` set ps'"
  proof
    fix b assume "b \<in> fst ` set ?hs"
    then have ne: "handles_on b ?hs \<noteq> []" by (auto simp: handles_on_def filter_empty_conv)
    have "b \<in> fst ` set hs" using \<open>b \<in> fst ` set ?hs\<close> set_remove1_subset by fastforce
    then obtain q0 where q0: "(b, q0) \<in> set ps" using inv by (force simp: pobjs_ok_def)
    let ?q = "if b = a then q0\<lparr>refcnt := refcnt q0 - 1\<rparr> else q0"
    have "(b, ?q) \<in> set ?ps1" using q0 by (auto simp: in_pobj_update)
    moreover have "\<not> (b = a \<and> refcnt ?q = 0)" using last q0 ne by auto
    ultimately have "(b, ?q) \<in> set ps'" by (simp add: ps')
    then show "b \<in> fst ` set ps'" by force
  qed
  moreover have "length ?hs < 2 ^ 32" using inv by (auto simp: pobjs_ok_def length_remove1)
  ultimately show ?thesis by (simp add: pobjs_ok_def list_all_iff)
qed

lemma update_ok:
  assumes inv: "pobjs_ok (ps, hs)"
    and f: "\<And>po. refcnt (f po) = refcnt po" "\<And>po. flags (f po) = flags po"
      "\<And>po. creating (f po) \<longrightarrow> creating po"
  shows "pobjs_ok (pobj_update a f ps, hs)"
proof -
  have "object_ok hs (b, qo)" if mem: "(b, qo) \<in> set (pobj_update a f ps)" for b qo
  proof -
    obtain q0 where q0: "(b, q0) \<in> set ps" "qo = (if b = a then f q0 else q0)"
      using mem in_pobj_update by metis
    have "object_ok hs (b, q0)" using inv q0(1) by (auto simp: pobjs_ok_def list_all_iff)
    then show ?thesis using q0(2) f by (auto simp: object_ok_def)
  qed
  then have "list_all (object_ok hs) (pobj_update a f ps)" by (auto simp: list_all_iff)
  then show ?thesis using inv unfolding pobjs_ok_def fst_conv snd_conv pobj_update_simps by blast
qed

lemma step_ok: "pobj_step s s' \<Longrightarrow> pobjs_ok s \<Longrightarrow> pobjs_ok s'"
proof (induction rule: pobj_step.induct)
  case (get u oid fl usage fo new id_ok ps res ob ps' hs)
  then show ?case by (intro get_ok)
next
  case (release a usage fl hs ps res ps')
  then show ?case by (intro release_ok)
next
  case (create_final a fl hs ps)
  then show ?case unfolding tee_pobj_create_final_def by (intro update_ok) auto
next
  case (rename a usage fl hs oid id_ok ps res ps')
  have "ps' = ps \<or> (\<exists>n. ps' = pobj_update a (\<lambda>po. po\<lparr>obj_id := n\<rparr>) ps)"
    using rename(2) by (auto simp: tee_pobj_rename_def split: option.splits if_splits)
  then show ?case using rename(3) update_ok [of ps hs] by auto
qed

lemma pobjs_reachable_ok: "pobj_reachable s \<Longrightarrow> pobjs_ok s"
proof (induction rule: pobj_reachable.induct)
  case (step s s')
  then show ?case using step_ok by blast
qed (simp add: pobjs_ok_def)



end
