(* ===== verification/FsHtree.thy ===== *)
theory FsHtree
  imports Effects
begin

text \<open>
  The hash tree of secure storage files (\<open>core/tee/fs_htree.c\<close>): a file is a header, a binary
  tree of nodes with one data block each, and the encrypted blocks. Header, nodes and blocks
  have two places each in storage that normal world controls; the committed places are found from
  the header's counter and the flags in the nodes, and updates go to the other places.

  Fixed-size byte arrays (hashes, initialisation vectors, tags, keys) are words, blocks and
  encrypted data are byte lists. The tree's nodes are kept in a list by identifier: node \<open>n\<close>
  is at index \<open>n - 1\<close> and its child \<open>b\<close> is node \<open>2 * n + b\<close>, as \<open>get_node\<close> builds them.
  The cryptographic library and the key manager are parameters (\<open>fs_crypto\<close>), and every call
  that may fail takes its answer from a script of replies in the state.
\<close>

section \<open>Data\<close>

type_synonym bytes = "8 word list"

record node_image =
  ni_hash :: "256 word"
  ni_iv :: "128 word"
  ni_tag :: "128 word"
  ni_flags :: "16 word"

record htree_node =
  nd_image :: node_image
  nd_dirty :: bool
  nd_block_updated :: bool

record htree_imeta =
  meta_length :: "64 word"
  max_node_id :: "32 word"

record htree_image =
  im_iv :: "128 word"
  im_tag :: "128 word"
  im_enc_fek :: "128 word"
  im_imeta :: bytes
  im_counter :: "32 word"

record htree =
  ht_nodes :: "htree_node list"
  ht_head :: htree_image
  ht_fek :: "128 word"
  ht_imeta :: htree_imeta
  ht_dirty :: bool
  ht_uuid :: bytes

definition zero_image :: node_image where
  "zero_image = \<lparr>ni_hash = 0, ni_iv = 0, ni_tag = 0, ni_flags = 0\<rparr>"

definition zero_node :: htree_node where
  "zero_node = \<lparr>nd_image = zero_image, nd_dirty = False, nd_block_updated = False\<rparr>"

definition zero_head :: htree_image where
  "zero_head = \<lparr>im_iv = 0, im_tag = 0, im_enc_fek = 0, im_imeta = replicate 16 0, im_counter = 0\<rparr>"

text \<open>
  What the digests and the authentication cover: a digest is over the vector, tag and flags of a
  node, the file's length for the root, and the digests of its children; the additional
  data of an encryption are the encrypted key and the vector, and for the header also the first
  16 bytes of the root's digest and the counter.
\<close>

type_synonym hash_input = "128 word \<times> 128 word \<times> 16 word \<times> 64 word option \<times> 256 word list"
type_synonym aad = "128 word \<times> 128 word \<times> (128 word \<times> 32 word) option"

record fs_crypto =
  cr_hash :: "hash_input \<Rightarrow> 256 word"
  cr_enc :: "128 word \<Rightarrow> aad \<Rightarrow> bytes \<Rightarrow> bytes \<times> 128 word"
  cr_dec :: "128 word \<Rightarrow> aad \<Rightarrow> bytes \<Rightarrow> 128 word \<Rightarrow> bytes option"
  cr_fek_enc :: "bytes \<Rightarrow> 128 word \<Rightarrow> 128 word"
  cr_fek_dec :: "bytes \<Rightarrow> 128 word \<Rightarrow> 128 word"

text \<open>The two places of the header, of each node and of each block; \<open>None\<close> is a short read. \<open>st_there\<close>: the file exists.\<close>

record storage =
  st_head :: "nat \<Rightarrow> htree_image option"
  st_node :: "nat \<Rightarrow> nat \<Rightarrow> node_image option"
  st_block :: "nat \<Rightarrow> nat \<Rightarrow> bytes option"
  st_there :: bool

text \<open>
  The world: storage, the results of the calls to come (with, for a write that fails, whether it
  reached the storage nonetheless; success once the script is used up), and the random numbers to
  come.
\<close>

record world =
  w_stor :: storage
  w_replies :: "(tee_result \<times> bool) list"
  w_randoms :: "128 word list"

section \<open>Calls that may fail\<close>

text \<open>The computations of \<open>Effects\<close>; here the state is the world.\<close>

type_synonym 'a wm = "(world, 'a) sm"

fun next_reply :: "world \<Rightarrow> (tee_result \<times> bool) \<times> world" where
  "next_reply w = (case w_replies w of
     [] \<Rightarrow> ((TEE_SUCCESS, True), w) | r # rs \<Rightarrow> (r, w\<lparr>w_replies := rs\<rparr>))"

definition io_call :: "unit wm" where
  "io_call = (\<lambda>w. case next_reply w of ((res, _), w') \<Rightarrow>
     if res = TEE_SUCCESS then (Ok (), w') else (Fail res, w'))"

fun io_calls :: "nat \<Rightarrow> unit wm" where
  "io_calls 0 = io_ret ()"
| "io_calls (Suc k) = io_bind io_call (\<lambda>_. io_calls k)"

definition crypto_rng_read :: "128 word wm" where
  "crypto_rng_read = io_bind io_call (\<lambda>_ w. case w_randoms w of
     [] \<Rightarrow> (Ok 0, w) | x # xs \<Rightarrow> (Ok x, w\<lparr>w_randoms := xs\<rparr>))"

section \<open>Storage\<close>

datatype htree_type = TEE_FS_HTREE_TYPE_HEAD | TEE_FS_HTREE_TYPE_NODE | TEE_FS_HTREE_TYPE_BLOCK

text \<open>\<open>rpc_read_init\<close>, \<open>rpc_read_final\<close> and the check of the length.\<close>

definition rpc_read :: "(storage \<Rightarrow> 'a option) \<Rightarrow> 'a wm" where
  "rpc_read slot = io_bind (io_calls 2) (\<lambda>_ w. case slot (w_stor w) of
     None \<Rightarrow> (Fail TEE_ERROR_CORRUPT_OBJECT, w) | Some x \<Rightarrow> (Ok x, w))"

definition rpc_write_final :: "(storage \<Rightarrow> storage) \<Rightarrow> unit wm" where
  "rpc_write_final put = (\<lambda>w. case next_reply w of ((res, reached), w') \<Rightarrow>
     if res = TEE_SUCCESS then (Ok (), w'\<lparr>w_stor := put (w_stor w')\<rparr>)
     else (Fail res, if reached then w'\<lparr>w_stor := put (w_stor w')\<rparr> else w'))"

definition rpc_write :: "(storage \<Rightarrow> storage) \<Rightarrow> unit wm" where
  "rpc_write put = io_bind io_call (\<lambda>_. rpc_write_final put)"

definition put_head :: "nat \<Rightarrow> htree_image \<Rightarrow> storage \<Rightarrow> storage" where
  "put_head vers im st = st\<lparr>st_head := (st_head st)(vers := Some im)\<rparr>"

definition put_node :: "nat \<Rightarrow> nat \<Rightarrow> node_image \<Rightarrow> storage \<Rightarrow> storage" where
  "put_node idx vers im st =
     st\<lparr>st_node := (st_node st)(idx := (st_node st idx)(vers := Some im))\<rparr>"

definition put_block :: "nat \<Rightarrow> nat \<Rightarrow> bytes \<Rightarrow> storage \<Rightarrow> storage" where
  "put_block idx vers b st =
     st\<lparr>st_block := (st_block st)(idx := (st_block st idx)(vers := Some b))\<rparr>"

definition rpc_read_head :: "nat \<Rightarrow> htree_image wm" where
  "rpc_read_head vers = rpc_read (\<lambda>st. st_head st vers)"

definition rpc_read_node :: "nat \<Rightarrow> nat \<Rightarrow> node_image wm" where
  "rpc_read_node node_id vers = rpc_read (\<lambda>st. st_node st (node_id - 1) vers)"

definition rpc_write_head :: "nat \<Rightarrow> htree_image \<Rightarrow> unit wm" where
  "rpc_write_head vers im = rpc_write (put_head vers im)"

definition rpc_write_node :: "nat \<Rightarrow> nat \<Rightarrow> node_image \<Rightarrow> unit wm" where
  "rpc_write_node node_id vers im = rpc_write (put_node (node_id - 1) vers im)"

section \<open>The tree\<close>

definition nodes_count :: "htree \<Rightarrow> nat" where
  "nodes_count ht = length (ht_nodes ht)"

definition node_at :: "htree \<Rightarrow> nat \<Rightarrow> htree_node" where
  "node_at ht n = ht_nodes ht ! (n - 1)"

definition set_node :: "nat \<Rightarrow> htree_node \<Rightarrow> htree \<Rightarrow> htree" where
  "set_node n nd ht = ht\<lparr>ht_nodes := (ht_nodes ht)[n - 1 := nd]\<rparr>"

text \<open>The level is the number of binary digits; the root has level 1.\<close>

fun node_id_to_level :: "nat \<Rightarrow> nat" where
  "node_id_to_level 0 = 0"
| "node_id_to_level (Suc n) = Suc (node_id_to_level (Suc n div 2))"

function find_closest_loop :: "nat \<Rightarrow> nat \<Rightarrow> nat \<Rightarrow> nat \<Rightarrow> nat \<Rightarrow> nat" where
  "find_closest_loop count node_id level n node =
     (if n < level then
        let child = 2 * node + node_id div 2 ^ (level - n - 1) mod 2
        in if count < child then node else find_closest_loop count node_id level (Suc n) child
      else node)"
  by pat_completeness auto
termination by (relation "measure (\<lambda>(_, _, level, n, _). level - n)") auto

declare find_closest_loop.simps [simp del]

definition find_closest_node :: "htree \<Rightarrow> nat \<Rightarrow> nat" where
  "find_closest_node ht node_id =
     find_closest_loop (nodes_count ht) node_id (node_id_to_level node_id) 1 1"

definition find_node :: "htree \<Rightarrow> nat \<Rightarrow> nat option" where
  "find_node ht node_id =
     (let node = find_closest_node ht node_id in if node = node_id then Some node else None)"

text \<open>The loop of \<open>get_node\<close> that adds the missing nodes.\<close>

function add_nodes :: "nat \<Rightarrow> nat \<Rightarrow> htree \<Rightarrow> htree wm" where
  "add_nodes n node_id ht =
     (if node_id < n then io_ret ht
      else
        let node = find_closest_node ht n
        in if node = n then add_nodes (Suc n) node_id ht
           else if n div 2 \<noteq> node \<or> n \<le> nodes_count ht then io_stuck
           else io_bind io_call (\<lambda>_.
                  add_nodes (Suc n) node_id (ht\<lparr>ht_nodes := ht_nodes ht @ [zero_node]\<rparr>)))"
  by pat_completeness auto
termination by (relation "measure (\<lambda>(n, node_id, _). Suc node_id - n)") auto

declare add_nodes.simps [simp del]

definition get_node :: "bool \<Rightarrow> nat \<Rightarrow> htree \<Rightarrow> htree wm" where
  "get_node create node_id ht =
     (if \<not> (node_id \<noteq> 0 \<and> node_id < 2 ^ 32 - 1) then io_stuck
      else
        let node = find_closest_node ht node_id
        in if node = node_id then io_ret ht
           else if \<not> create then io_fail TEE_ERROR_GENERIC
           else io_bind (add_nodes (Suc node) node_id ht) (\<lambda>ht1. io_ret
             (if node_id > unat (max_node_id (ht_imeta ht1))
              then ht1\<lparr>ht_imeta := (ht_imeta ht1)\<lparr>max_node_id := word_of_nat node_id\<rparr>\<rparr>
              else ht1)))"

definition HTREE_NODE_COMMITTED_BLOCK :: nat where "HTREE_NODE_COMMITTED_BLOCK = 0"

definition HTREE_NODE_COMMITTED_CHILD :: "nat \<Rightarrow> nat" where
  "HTREE_NODE_COMMITTED_CHILD n = 1 + n"

text \<open>Flags are named by their bit; \<open>flip_flag\<close> is \<open>^=\<close> and \<open>flag_vers\<close> is \<open>!!(flags & f)\<close>.\<close>

definition flip_flag :: "nat \<Rightarrow> node_image \<Rightarrow> node_image" where
  "flip_flag b im = im\<lparr>ni_flags := ni_flags im XOR push_bit b 1\<rparr>"

definition flag_vers :: "nat \<Rightarrow> node_image \<Rightarrow> nat" where
  "flag_vers b im = (if bit (ni_flags im) b then 1 else 0)"

text \<open>
  A traversal visits the nodes below \<open>id\<close> in post order. The tree's shape does not change
  meanwhile, so the order is a list; the callback may return an error, which ends the traversal.
\<close>

function post_order :: "nat \<Rightarrow> nat \<Rightarrow> nat list" where
  "post_order count node =
     (if node = 0 \<or> count < node then []
      else post_order count (2 * node) @ post_order count (2 * node + 1) @ [node])"
  by pat_completeness auto
termination by (relation "measure (\<lambda>(count, node). Suc count - node)") auto

declare post_order.simps [simp del]

fun traverse :: "(nat \<Rightarrow> htree \<Rightarrow> htree wm) \<Rightarrow> nat list \<Rightarrow> htree \<Rightarrow> htree wm" where
  "traverse cb [] ht = io_ret ht"
| "traverse cb (n # ns) ht = io_bind (cb n ht) (\<lambda>ht1. traverse cb ns ht1)"

definition htree_traverse_post_order :: "(nat \<Rightarrow> htree \<Rightarrow> htree wm) \<Rightarrow> htree \<Rightarrow> htree wm" where
  "htree_traverse_post_order cb ht = traverse cb (post_order (nodes_count ht) 1) ht"

section \<open>Digests and authenticated encryption\<close>

definition children :: "htree \<Rightarrow> nat \<Rightarrow> nat list" where
  "children ht n = filter (\<lambda>c. c \<le> nodes_count ht) [2 * n, 2 * n + 1]"

definition node_hash_input :: "htree \<Rightarrow> nat \<Rightarrow> 64 word option \<Rightarrow> hash_input" where
  "node_hash_input ht n meta =
     (let im = nd_image (node_at ht n)
      in (ni_iv im, ni_tag im, ni_flags im, meta,
          map (\<lambda>c. ni_hash (nd_image (node_at ht c))) (children ht n)))"

definition calc_node_hash :: "fs_crypto \<Rightarrow> htree \<Rightarrow> nat \<Rightarrow> 64 word option \<Rightarrow> 256 word wm" where
  "calc_node_hash cr ht n meta =
     io_bind (io_calls (3 + (if meta = None then 0 else 1) + length (children ht n)))
       (\<lambda>_. io_ret (cr_hash cr (node_hash_input ht n meta)))"

text \<open>
  \<open>authenc_init\<close>: the additional data, for a node (\<open>iv\<close> its vector) or for the header, with the
  calls to set the encryption up.
\<close>

definition authenc_aad :: "htree \<Rightarrow> 128 word option \<Rightarrow> aad" where
  "authenc_aad ht ni_iv_opt =
     (case ni_iv_opt of
        Some iv \<Rightarrow> (im_enc_fek (ht_head ht), iv, None)
      | None \<Rightarrow> (im_enc_fek (ht_head ht), im_iv (ht_head ht),
          Some (ucast (ni_hash (nd_image (node_at ht 1))), im_counter (ht_head ht))))"

definition authenc_init :: "htree \<Rightarrow> 128 word option \<Rightarrow> aad wm" where
  "authenc_init ht ni_iv_opt =
     io_bind (io_calls (2 + (if ni_iv_opt = None then 2 else 0) + 2))
       (\<lambda>_. io_ret (authenc_aad ht ni_iv_opt))"

definition authenc_decrypt_final :: "fs_crypto \<Rightarrow> htree \<Rightarrow> aad \<Rightarrow> 128 word \<Rightarrow> bytes \<Rightarrow> bytes wm" where
  "authenc_decrypt_final cr ht a tag crypt =
     io_bind io_call (\<lambda>_. case cr_dec cr (ht_fek ht) a crypt tag of
       None \<Rightarrow> io_fail TEE_ERROR_CORRUPT_OBJECT
     | Some plain \<Rightarrow>
         if length plain \<noteq> length crypt then io_fail TEE_ERROR_GENERIC else io_ret plain)"

definition authenc_encrypt_final :: "fs_crypto \<Rightarrow> htree \<Rightarrow> aad \<Rightarrow> bytes \<Rightarrow> (bytes \<times> 128 word) wm" where
  "authenc_encrypt_final cr ht a plain =
     io_bind io_call (\<lambda>_. case cr_enc cr (ht_fek ht) a plain of (crypt, tag) \<Rightarrow>
       if length crypt \<noteq> length plain then io_fail TEE_ERROR_GENERIC else io_ret (crypt, tag))"

text \<open>\<open>struct tee_fs_htree_imeta\<close> in memory: both fields little endian, four bytes of padding.\<close>

fun le_bytes :: "nat \<Rightarrow> nat \<Rightarrow> bytes" where
  "le_bytes 0 v = []"
| "le_bytes (Suc k) v = word_of_nat v # le_bytes k (v div 256)"

fun le_value :: "bytes \<Rightarrow> nat" where
  "le_value [] = 0"
| "le_value (b # bs) = unat b + 256 * le_value bs"

definition imeta_bytes :: "htree_imeta \<Rightarrow> bytes" where
  "imeta_bytes m = le_bytes 8 (unat (meta_length m)) @ le_bytes 4 (unat (max_node_id m)) @ replicate 4 0"

definition imeta_of_bytes :: "bytes \<Rightarrow> htree_imeta" where
  "imeta_of_bytes bs = \<lparr>meta_length = word_of_nat (le_value (take 8 bs)),
     max_node_id = word_of_nat (le_value (take 4 (drop 8 bs)))\<rparr>"

definition verify_root :: "fs_crypto \<Rightarrow> htree \<Rightarrow> htree wm" where
  "verify_root cr ht =
     io_bind io_call (\<lambda>_.
       let ht1 = ht\<lparr>ht_fek := cr_fek_dec cr (ht_uuid ht) (im_enc_fek (ht_head ht))\<rparr> in
       io_bind (authenc_init ht1 None) (\<lambda>a.
       io_bind (authenc_decrypt_final cr ht1 a (im_tag (ht_head ht1)) (im_imeta (ht_head ht1)))
         (\<lambda>plain. io_ret (ht1\<lparr>ht_imeta := imeta_of_bytes plain\<rparr>))))"

definition verify_node :: "fs_crypto \<Rightarrow> nat \<Rightarrow> htree \<Rightarrow> htree wm" where
  "verify_node cr n ht =
     io_bind (calc_node_hash cr ht n (if n = 1 then Some (meta_length (ht_imeta ht)) else None))
       (\<lambda>digest. if digest \<noteq> ni_hash (nd_image (node_at ht n))
                 then io_fail TEE_ERROR_CORRUPT_OBJECT else io_ret ht)"

definition verify_tree :: "fs_crypto \<Rightarrow> htree \<Rightarrow> htree wm" where
  "verify_tree cr ht = io_bind io_call (\<lambda>_. htree_traverse_post_order (verify_node cr) ht)"

definition init_root_node :: "fs_crypto \<Rightarrow> htree \<Rightarrow> htree wm" where
  "init_root_node cr ht =
     io_bind io_call (\<lambda>_.
       let ht1 = set_node 1 ((node_at ht 1)\<lparr>nd_dirty := True\<rparr>) ht in
       io_bind (calc_node_hash cr ht1 1 (Some (meta_length (ht_imeta ht1)))) (\<lambda>digest.
         let nd = node_at ht1 1
         in io_ret (set_node 1 (nd\<lparr>nd_image := (nd_image nd)\<lparr>ni_hash := digest\<rparr>\<rparr>) ht1)))"

section \<open>Writing the tree back\<close>

text \<open>A node's parent is marked and its flag turned over before the node goes to its new place.\<close>

definition touch_parent :: "nat \<Rightarrow> htree \<Rightarrow> htree" where
  "touch_parent n ht =
     (let p = n div 2; nd = node_at ht p
      in set_node p (nd\<lparr>nd_dirty := True,
           nd_image := flip_flag (HTREE_NODE_COMMITTED_CHILD (n mod 2)) (nd_image nd)\<rparr>) ht)"

definition htree_sync_node_to_storage :: "fs_crypto \<Rightarrow> nat \<Rightarrow> htree \<Rightarrow> htree wm" where
  "htree_sync_node_to_storage cr n ht =
     (let nd = node_at ht n in
      if nd_block_updated nd \<and> \<not> nd_dirty nd then io_stuck
      else if \<not> nd_dirty nd then io_ret ht
      else
        let ht1 = (if n \<noteq> 1 then touch_parent n ht else ht);
            vers = (if n \<noteq> 1
                    then flag_vers (HTREE_NODE_COMMITTED_CHILD (n mod 2)) (nd_image (node_at ht1 (n div 2)))
                    else if bit (im_counter (ht_head ht1)) 0 then 0 else 1);
            meta = (if n \<noteq> 1 then None else Some (meta_length (ht_imeta ht1)))
        in io_bind (calc_node_hash cr ht1 n meta) (\<lambda>digest.
             let im = (nd_image (node_at ht1 n))\<lparr>ni_hash := digest\<rparr>;
                 ht2 = set_node n \<lparr>nd_image = im, nd_dirty = False, nd_block_updated = False\<rparr> ht1
             in io_bind (rpc_write_node n vers im) (\<lambda>_. io_ret ht2)))"

definition update_root :: "fs_crypto \<Rightarrow> htree \<Rightarrow> htree wm" where
  "update_root cr ht =
     (let head1 = (ht_head ht)\<lparr>im_counter := im_counter (ht_head ht) + 1\<rparr> in
      io_bind crypto_rng_read (\<lambda>iv.
        let ht1 = ht\<lparr>ht_head := head1\<lparr>im_iv := iv\<rparr>\<rparr> in
        io_bind (authenc_init ht1 None) (\<lambda>a.
        io_bind (authenc_encrypt_final cr ht1 a (imeta_bytes (ht_imeta ht1))) (\<lambda>(crypt, tag).
          io_ret (ht1\<lparr>ht_head := (ht_head ht1)\<lparr>im_tag := tag, im_imeta := crypt\<rparr>\<rparr>)))))"

text \<open>
  What \<open>tee_fs_htree_sync_to_storage\<close> does to a tree with changes, once it has a hash context;
  the digest of the root is returned.
\<close>

definition sync_dirty :: "fs_crypto \<Rightarrow> htree \<Rightarrow> (htree \<times> 256 word) wm" where
  "sync_dirty cr ht =
     io_bind (htree_traverse_post_order (htree_sync_node_to_storage cr) ht) (\<lambda>ht1.
     io_bind (update_root cr ht1) (\<lambda>ht2.
     io_bind (rpc_write_head (unat (im_counter (ht_head ht2)) mod 2) (ht_head ht2)) (\<lambda>_.
       io_ret (ht2\<lparr>ht_dirty := False\<rparr>, ni_hash (nd_image (node_at ht2 1))))))"

text \<open>
  The operations of the interface take the tree behind \<open>*ht_arg\<close>, \<open>None\<close> for a null pointer, and
  leave a null pointer there after an error (\<open>tee_fs_htree_close\<close>); only when a commit gets no
  hash context is the tree kept.
\<close>

definition closing :: "'a wm \<Rightarrow> ('a \<Rightarrow> htree) \<Rightarrow> world \<Rightarrow> 'a io \<times> htree option \<times> world" where
  "closing m tree w = (case m w of
     (Ok x, w') \<Rightarrow> (Ok x, Some (tree x), w')
   | (Fail e, w') \<Rightarrow> (Fail e, None, w')
   | (Stuck, w') \<Rightarrow> (Stuck, None, w'))"

definition tee_fs_htree_sync_to_storage ::
    "fs_crypto \<Rightarrow> htree option \<Rightarrow> world \<Rightarrow> (htree \<times> 256 word option) io \<times> htree option \<times> world" where
  "tee_fs_htree_sync_to_storage cr ht_arg w =
     (case ht_arg of
        None \<Rightarrow> (Fail TEE_ERROR_CORRUPT_OBJECT, None, w)
      | Some ht \<Rightarrow>
          if \<not> ht_dirty ht then (Ok (ht, None), Some ht, w)
          else (case io_call w of
            (Ok _, w1) \<Rightarrow> closing (io_bind (sync_dirty cr ht) (\<lambda>(ht1, h). io_ret (ht1, Some h))) fst w1
          | (Fail e, w1) \<Rightarrow> (Fail e, Some ht, w1)
          | (Stuck, w1) \<Rightarrow> (Stuck, None, w1)))"

definition tee_fs_htree_meta_set_dirty :: "htree \<Rightarrow> htree" where
  "tee_fs_htree_meta_set_dirty ht =
     set_node 1 ((node_at ht 1)\<lparr>nd_dirty := True\<rparr>) (ht\<lparr>ht_dirty := True\<rparr>)"

definition tee_fs_htree_get_meta :: "htree \<Rightarrow> 64 word" where
  "tee_fs_htree_get_meta ht = meta_length (ht_imeta ht)"

text \<open>What the file systems do with the pointer \<open>tee_fs_htree_get_meta\<close> returns.\<close>

definition set_meta_length :: "64 word \<Rightarrow> htree \<Rightarrow> htree" where
  "set_meta_length l ht = ht\<lparr>ht_imeta := (ht_imeta ht)\<lparr>meta_length := l\<rparr>\<rparr>"

section \<open>Blocks\<close>

definition BLOCK_NUM_TO_NODE_ID :: "nat \<Rightarrow> nat" where
  "BLOCK_NUM_TO_NODE_ID num = num + 1"

definition write_block :: "fs_crypto \<Rightarrow> nat \<Rightarrow> bytes \<Rightarrow> htree \<Rightarrow> htree wm" where
  "write_block cr block_num block ht =
     (let n = BLOCK_NUM_TO_NODE_ID block_num in
      io_bind (get_node True n ht) (\<lambda>ht1.
        let nd = node_at ht1 n;
            im = (if \<not> nd_block_updated nd then flip_flag HTREE_NODE_COMMITTED_BLOCK (nd_image nd)
                  else nd_image nd);
            block_vers = flag_vers HTREE_NODE_COMMITTED_BLOCK im
        in io_bind io_call (\<lambda>_.
           io_bind crypto_rng_read (\<lambda>iv.
           io_bind (authenc_init ht1 (Some iv)) (\<lambda>a.
           io_bind (authenc_encrypt_final cr ht1 a block) (\<lambda>(enc_block, tag).
           io_bind (rpc_write_final (put_block block_num block_vers enc_block)) (\<lambda>_.
             io_ret ((set_node n \<lparr>nd_image = im\<lparr>ni_iv := iv, ni_tag := tag\<rparr>, nd_dirty = True,
                        nd_block_updated = True\<rparr> ht1)\<lparr>ht_dirty := True\<rparr>))))))))"

definition tee_fs_htree_write_block ::
    "fs_crypto \<Rightarrow> htree option \<Rightarrow> nat \<Rightarrow> bytes \<Rightarrow> world \<Rightarrow> htree io \<times> htree option \<times> world" where
  "tee_fs_htree_write_block cr ht_arg block_num block w =
     (case ht_arg of
        None \<Rightarrow> (Fail TEE_ERROR_CORRUPT_OBJECT, None, w)
      | Some ht \<Rightarrow> closing (write_block cr block_num block ht) (\<lambda>ht1. ht1) w)"

definition read_block :: "fs_crypto \<Rightarrow> nat \<Rightarrow> nat \<Rightarrow> htree \<Rightarrow> (htree \<times> bytes) wm" where
  "read_block cr block_size block_num ht =
     (let n = BLOCK_NUM_TO_NODE_ID block_num in
      io_bind (get_node False n ht) (\<lambda>ht1.
        let im = nd_image (node_at ht1 n);
            block_vers = flag_vers HTREE_NODE_COMMITTED_BLOCK im
        in io_bind (io_calls 2) (\<lambda>_ w.
             case st_block (w_stor w) block_num block_vers of
               None \<Rightarrow> (Fail TEE_ERROR_CORRUPT_OBJECT, w)
             | Some enc_block \<Rightarrow>
                 if length enc_block \<noteq> block_size then (Fail TEE_ERROR_CORRUPT_OBJECT, w)
                 else io_bind (authenc_init ht1 (Some (ni_iv im))) (\<lambda>a.
                   io_bind (authenc_decrypt_final cr ht1 a (ni_tag im) enc_block) (\<lambda>block.
                     io_ret (ht1, block))) w)))"

definition tee_fs_htree_read_block ::
    "fs_crypto \<Rightarrow> nat \<Rightarrow> htree option \<Rightarrow> nat \<Rightarrow> world \<Rightarrow> (htree \<times> bytes) io \<times> htree option \<times> world" where
  "tee_fs_htree_read_block cr block_size ht_arg block_num w =
     (case ht_arg of
        None \<Rightarrow> (Fail TEE_ERROR_CORRUPT_OBJECT, None, w)
      | Some ht \<Rightarrow> closing (read_block cr block_size block_num ht) fst w)"

text \<open>\<open>None\<close> is a failed assertion.\<close>

function truncate_loop :: "nat \<Rightarrow> htree \<Rightarrow> htree option" where
  "truncate_loop node_id ht =
     (let last = unat (max_node_id (ht_imeta ht)) in
      if node_id < last then
        if find_closest_node ht last \<noteq> last \<or> 2 * last \<le> nodes_count ht \<or> last = 1 then None
        else truncate_loop node_id (ht\<lparr>ht_nodes := take (last - 1) (ht_nodes ht),
               ht_imeta := (ht_imeta ht)\<lparr>max_node_id := max_node_id (ht_imeta ht) - 1\<rparr>,
               ht_dirty := True\<rparr>)
      else Some ht)"
  by pat_completeness auto
termination
proof (relation "measure (\<lambda>(_, ht). unat (max_node_id (ht_imeta ht)))", goal_cases)
  case (2 node_id ht last)
  then have "max_node_id (ht_imeta ht) \<noteq> 0" by auto
  then show ?case by (simp add: unat_gt_0 measure_unat)
qed simp

declare truncate_loop.simps [simp del]

definition tee_fs_htree_truncate :: "htree option \<Rightarrow> nat \<Rightarrow> (tee_result \<times> htree option) option" where
  "tee_fs_htree_truncate ht_arg block_num =
     (case ht_arg of
        None \<Rightarrow> Some (TEE_ERROR_CORRUPT_OBJECT, None)
      | Some ht \<Rightarrow>
          map_option (\<lambda>ht1. (TEE_SUCCESS, Some ht1)) (truncate_loop (BLOCK_NUM_TO_NODE_ID block_num) ht))"

section \<open>Opening\<close>

text \<open>-1 is \<open>None\<close>.\<close>

definition get_idx_from_counter :: "32 word \<Rightarrow> 32 word \<Rightarrow> nat option" where
  "get_idx_from_counter counter0 counter1 =
     (if \<not> bit counter0 0 then
        (if \<not> bit counter1 0 then Some 0 else if counter0 > counter1 then Some 0 else Some 1)
      else if bit counter1 0 then Some 1 else None)"

text \<open>The header and the image of the root, by the root's digest or by the counters.\<close>

definition init_head_from_data :: "256 word option \<Rightarrow> (htree_image \<times> node_image) wm" where
  "init_head_from_data hash =
     (case hash of
        Some h \<Rightarrow>
          io_bind (rpc_read_node 1 0) (\<lambda>root0.
            if ni_hash root0 = h then io_bind (rpc_read_head 0) (\<lambda>head. io_ret (head, root0))
            else io_bind (rpc_read_node 1 1) (\<lambda>root1.
              if ni_hash root1 = h then io_bind (rpc_read_head 1) (\<lambda>head. io_ret (head, root1))
              else io_fail TEE_ERROR_CORRUPT_OBJECT))
      | None \<Rightarrow>
          io_bind (rpc_read_head 0) (\<lambda>head0.
          io_bind (rpc_read_head 1) (\<lambda>head1.
            case get_idx_from_counter (im_counter head0) (im_counter head1) of
              None \<Rightarrow> io_fail TEE_ERROR_SECURITY
            | Some idx \<Rightarrow>
                io_bind (rpc_read_node 1 idx) (\<lambda>root.
                  io_ret (if idx = 0 then head0 else head1, root)))))"

text \<open>\<open>max_id\<close> is \<open>max_node_id\<close>, which the loop does not change.\<close>

function init_tree_loop :: "nat \<Rightarrow> nat \<Rightarrow> htree \<Rightarrow> htree wm" where
  "init_tree_loop max_id node_id ht =
     (if max_id < node_id then io_ret ht
      else case find_node ht (node_id div 2) of
          None \<Rightarrow> io_fail TEE_ERROR_GENERIC
        | Some p \<Rightarrow>
            io_bind (rpc_read_node node_id
                      (flag_vers (HTREE_NODE_COMMITTED_CHILD (node_id mod 2)) (nd_image (node_at ht p))))
              (\<lambda>image. io_bind (get_node True node_id ht) (\<lambda>ht1.
                 init_tree_loop max_id (Suc node_id)
                   (set_node node_id ((node_at ht1 node_id)\<lparr>nd_image := image\<rparr>) ht1))))"
  by pat_completeness auto
termination by (relation "measure (\<lambda>(max_id, node_id, _). Suc max_id - node_id)") auto

declare init_tree_loop.simps [simp del]

definition init_tree_from_data :: "htree \<Rightarrow> htree wm" where
  "init_tree_from_data ht = init_tree_loop (unat (max_node_id (ht_imeta ht))) 2 ht"

text \<open>The tree \<open>calloc\<close> returns, with the root inside the structure.\<close>

definition empty_htree :: "bytes \<Rightarrow> htree" where
  "empty_htree uuid = \<lparr>ht_nodes = [zero_node], ht_head = zero_head, ht_fek = 0,
     ht_imeta = \<lparr>meta_length = 0, max_node_id = 0\<rparr>, ht_dirty = False, ht_uuid = uuid\<rparr>"

definition create_htree :: "fs_crypto \<Rightarrow> bytes \<Rightarrow> (htree \<times> 256 word) wm" where
  "create_htree cr uuid =
     io_bind io_call (\<lambda>_.
     io_bind crypto_rng_read (\<lambda>fek.
     io_bind io_call (\<lambda>_.
       let ht = empty_htree uuid;
           ht1 = ht\<lparr>ht_fek := fek, ht_head := (ht_head ht)\<lparr>im_enc_fek := cr_fek_enc cr uuid fek\<rparr>\<rparr>
       in io_bind (init_root_node cr ht1) (\<lambda>ht2.
          io_bind io_call (\<lambda>_.
          io_bind (sync_dirty cr (ht2\<lparr>ht_dirty := True\<rparr>)) (\<lambda>(ht3, h).
          io_bind (rpc_write_head 0 zero_head) (\<lambda>_. io_ret (ht3, h))))))))"

definition load_htree :: "fs_crypto \<Rightarrow> bytes \<Rightarrow> 256 word option \<Rightarrow> htree wm" where
  "load_htree cr uuid hash =
     io_bind io_call (\<lambda>_.
     io_bind (init_head_from_data hash) (\<lambda>(head, root).
     io_bind (verify_root cr ((empty_htree uuid)\<lparr>ht_head := head,
                ht_nodes := [zero_node\<lparr>nd_image := root\<rparr>]\<rparr>)) (\<lambda>ht1.
     io_bind (init_tree_from_data ht1) (\<lambda>ht2. verify_tree cr ht2))))"

text \<open>With \<open>create\<close> the new root's digest is returned in \<open>hash\<close>; otherwise \<open>hash\<close> is the one expected.\<close>

definition tee_fs_htree_open ::
    "fs_crypto \<Rightarrow> bool \<Rightarrow> 256 word option \<Rightarrow> bytes \<Rightarrow> world
     \<Rightarrow> (htree \<times> 256 word option) io \<times> htree option \<times> world" where
  "tee_fs_htree_open cr create hash uuid w =
     (if create then closing (io_bind (create_htree cr uuid) (\<lambda>(ht, h). io_ret (ht, Some h))) fst w
      else closing (io_bind (load_htree cr uuid hash) (\<lambda>ht. io_ret (ht, hash))) fst w)"

definition tee_fs_htree_close :: "htree option \<Rightarrow> htree option" where
  "tee_fs_htree_close ht_arg = None"

end
