(* ===== verification/FsTree.thy ===== *)
theory FsTree
  imports FsHtree
begin

text \<open>
  Facts on the operations of \<open>FsHtree\<close>: the way to a node, the order of a traversal, and rules
  to reason about calls that may fail.
\<close>

section \<open>The way to a node\<close>

lemma level_bounds: "0 < n \<Longrightarrow> 2 ^ (node_id_to_level n - 1) \<le> n \<and> n < 2 ^ node_id_to_level n"
proof (induction n rule: node_id_to_level.induct)
  case (2 n)
  show ?case
  proof (cases "Suc n div 2 = 0")
    case False
    then have pos: "0 < Suc n div 2" by simp
    note ih = 2(1) [OF pos]
    let ?l = "node_id_to_level (Suc n div 2)"
    have "0 < ?l" using pos by (cases "Suc n div 2") auto
    then obtain m where m: "?l = Suc m" by (cases ?l) auto
    show ?thesis using ih unfolding node_id_to_level.simps(2) m by simp linarith
  qed auto
qed simp

lemma closest_loop:
  assumes "1 \<le> n" and "n \<le> level" and "node = node_id div 2 ^ (level - n)" and "node \<le> count"
  shows "\<exists>j. find_closest_loop count node_id level n node = node_id div 2 ^ j
    \<and> node_id div 2 ^ j \<le> count \<and> (j = 0 \<or> count < node_id div 2 ^ (j - 1))"
  using assms
proof (induction "level - n" arbitrary: n node)
  case 0
  then show ?case by (auto simp: find_closest_loop.simps intro!: exI [of _ 0])
next
  case (Suc d)
  let ?child = "2 * node + node_id div 2 ^ (level - n - 1) mod 2"
  have less: "n < level" using Suc.hyps(2) by simp
  have sub: "level - n = Suc (level - n - 1)" using less by simp
  have child: "?child = node_id div 2 ^ (level - Suc n)"
  proof -
    have "node = node_id div 2 ^ (level - n - 1) div 2"
      using Suc.prems(3) sub by (metis div_mult2_eq power_Suc2)
    then show ?thesis by simp
  qed
  show ?case
  proof (cases "count < ?child")
    case True
    then show ?thesis
      using Suc.prems less child by (subst find_closest_loop.simps) (auto simp: Let_def intro!: exI [of _ "level - n"])
  next
    case False
    have "d = level - Suc n" using Suc.hyps(2) by simp
    from Suc.hyps(1) [OF this _ _ child] False less
    show ?thesis by (subst find_closest_loop.simps) (simp add: Let_def)
  qed
qed

lemma find_closest:
  assumes "0 < node_id" and "0 < nodes_count ht"
  shows "\<exists>j. find_closest_node ht node_id = node_id div 2 ^ j
    \<and> node_id div 2 ^ j \<le> nodes_count ht \<and> (j = 0 \<or> nodes_count ht < node_id div 2 ^ (j - 1))"
proof -
  let ?l = "node_id_to_level node_id"
  have l: "0 < ?l" using assms(1) by (cases node_id) auto
  have b: "2 ^ (?l - 1) \<le> node_id" "node_id < 2 ^ ?l" using level_bounds [OF assms(1)] by auto
  have "node_id div 2 ^ (?l - 1) = 1"
  proof (rule div_nat_eqI)
    show "2 ^ (?l - 1) * 1 \<le> node_id" using b(1) by simp
    show "node_id < 2 ^ (?l - 1) * Suc 1" using b(2) l by (cases ?l) auto
  qed
  then show ?thesis
    unfolding find_closest_node_def using closest_loop [of 1 ?l 1 node_id "nodes_count ht"] l assms(2) by simp
qed

lemma find_closest_present:
  assumes "0 < n" and "n \<le> nodes_count ht"
  shows "find_closest_node ht n = n"
proof -
  obtain j where j: "find_closest_node ht n = n div 2 ^ j" "j = 0 \<or> nodes_count ht < n div 2 ^ (j - 1)"
    using find_closest [of n ht] assms by auto
  have "n div 2 ^ (j - 1) \<le> n" by (rule div_le_dividend)
  then have "j = 0" using j(2) assms(2) by linarith
  then show ?thesis using j(1) by simp
qed

lemma find_closest_next:
  assumes "1 < n" and "n = Suc (nodes_count ht)"
  shows "find_closest_node ht n = n div 2"
proof -
  obtain j where j: "find_closest_node ht n = n div 2 ^ j" "n div 2 ^ j \<le> nodes_count ht"
    "j = 0 \<or> nodes_count ht < n div 2 ^ (j - 1)"
    using find_closest [of n ht] assms by auto
  have "j \<noteq> 0"
  proof
    assume "j = 0"
    then have "n \<le> nodes_count ht" using j(2) by simp
    then show False using assms(2) by simp
  qed
  moreover have "j - 1 = 0"
  proof (rule ccontr)
    assume "j - 1 \<noteq> 0"
    then have "(2 :: nat) ^ 1 \<le> 2 ^ (j - 1)" by (intro power_increasing) auto
    then have "n div 2 ^ (j - 1) \<le> n div 2" using div_le_mono2 by simp
    then have "n div 2 ^ (j - 1) \<le> nodes_count ht" using assms by linarith
    then show False using j(3) \<open>j \<noteq> 0\<close> by simp
  qed
  ultimately show ?thesis using j(1) by (cases j) auto
qed

section \<open>The order of a traversal\<close>

lemma div_pow_Suc: "(n :: nat) div 2 ^ Suc j = n div 2 ^ j div 2"
  by (metis div_mult2_eq power_Suc2)

text \<open>The traversal below \<open>node\<close> visits the nodes whose path to the root passes \<open>node\<close>.\<close>

lemma set_post_order:
  "0 < node \<Longrightarrow> set (post_order count node) = {n. n \<le> count \<and> (\<exists>j. n div 2 ^ j = node)}"
proof (induction count node rule: post_order.induct)
  case (1 count node)
  show ?case
  proof (cases "count < node")
    case True
    have "\<not> n \<le> count" if "n div 2 ^ j = node" for n j
      using that True div_le_dividend [of n "2 ^ j"] by linarith
    then show ?thesis using True by (subst post_order.simps) auto
  next
    case False
    have split: "(\<exists>j. n div 2 ^ j = node) \<longleftrightarrow> n = node \<or> (\<exists>j. n div 2 ^ j = 2 * node)
      \<or> (\<exists>j. n div 2 ^ j = 2 * node + 1)" for n
    proof
      assume "\<exists>j. n div 2 ^ j = node"
      then obtain j where j: "n div 2 ^ j = node" by blast
      show "n = node \<or> (\<exists>j. n div 2 ^ j = 2 * node) \<or> (\<exists>j. n div 2 ^ j = 2 * node + 1)"
      proof (cases j)
        case (Suc i)
        then have "n div 2 ^ i div 2 = node" using j div_pow_Suc by metis
        then have "n div 2 ^ i = 2 * node \<or> n div 2 ^ i = 2 * node + 1" by linarith
        then show ?thesis by blast
      qed (use j in simp)
    next
      assume "n = node \<or> (\<exists>j. n div 2 ^ j = 2 * node) \<or> (\<exists>j. n div 2 ^ j = 2 * node + 1)"
      then show "\<exists>j. n div 2 ^ j = node"
      proof (elim disjE exE)
        assume "n = node" then show ?thesis by (intro exI [of _ 0]) simp
      next
        fix j assume "n div 2 ^ j = 2 * node"
        then show ?thesis by (intro exI [of _ "Suc j"]) (simp add: div_pow_Suc del: power_Suc)
      next
        fix j assume "n div 2 ^ j = 2 * node + 1"
        then show ?thesis by (intro exI [of _ "Suc j"]) (simp add: div_pow_Suc del: power_Suc)
      qed
    qed
    have "\<not> (node = 0 \<or> count < node)" using 1 False by simp
    note ih = 1(1,2) [OF this]
    have "set (post_order count node)
        = set (post_order count (2 * node)) \<union> set (post_order count (2 * node + 1)) \<union> {node}"
      using 1 False by (subst post_order.simps) auto
    then show ?thesis using ih split False 1(3) by auto
  qed
qed

lemma halve_to_one: "0 < (n :: nat) \<Longrightarrow> \<exists>j. n div 2 ^ j = 1"
proof (induction n rule: less_induct)
  case (less n)
  show ?case
  proof (cases "n = 1")
    case True
    then show ?thesis by (intro exI [of _ 0]) simp
  next
    case False
    then have "n div 2 < n" "0 < n div 2" using less.prems by auto
    then obtain j where "n div 2 div 2 ^ j = 1" using less.IH by blast
    then show ?thesis by (intro exI [of _ "Suc j"]) (simp add: div_mult2_eq)
  qed
qed

lemma set_traversal: "set (post_order count 1) = {1..count}"
proof -
  have "(\<exists>j. n div 2 ^ j = 1) \<longleftrightarrow> 1 \<le> n" for n :: nat
    using halve_to_one [of n] by (cases n) auto
  then show ?thesis by (subst set_post_order) auto
qed

text \<open>
  Where a node comes in the order: its children came before, its parent and itself did not.
\<close>

definition in_order :: "nat \<Rightarrow> nat list \<Rightarrow> bool" where
  "in_order count ns \<longleftrightarrow> (\<forall>xs n ys. ns = xs @ n # ys \<longrightarrow> n \<notin> set xs
     \<and> (\<forall>c. c div 2 = n \<and> c \<noteq> 1 \<and> c \<le> count \<longrightarrow> c \<in> set xs))"

lemma in_order_append:
  assumes "in_order count as" and "in_order count bs" and "set as \<inter> set bs = {}"
  shows "in_order count (as @ bs)"
  unfolding in_order_def
proof (intro allI impI)
  fix xs n ys assume eq: "as @ bs = xs @ n # ys"
  show "n \<notin> set xs \<and> (\<forall>c. c div 2 = n \<and> c \<noteq> 1 \<and> c \<le> count \<longrightarrow> c \<in> set xs)"
  proof (cases "length xs < length as")
    case True
    then have "as = xs @ n # take (length as - length xs - 1) ys"
      using eq by (auto simp: append_eq_append_conv_if append_eq_conv_conj take_Cons' split: if_splits)
    then show ?thesis using assms(1) unfolding in_order_def by blast
  next
    case False
    then obtain us where us: "xs = as @ us" "bs = us @ n # ys"
      using eq by (auto simp: append_eq_append_conv2 Cons_eq_append_conv)
    then have "n \<in> set bs" by simp
    then show ?thesis using us assms(2,3) unfolding in_order_def by fastforce
  qed
qed

lemma in_order_snoc:
  assumes "in_order count as" and "n \<notin> set as" and "\<And>c. c div 2 = n \<Longrightarrow> c \<le> count \<Longrightarrow> c \<in> set as"
  shows "in_order count (as @ [n])"
  unfolding in_order_def
proof (intro allI impI)
  fix xs m ys assume eq: "as @ [n] = xs @ m # ys"
  show "m \<notin> set xs \<and> (\<forall>c. c div 2 = m \<and> c \<noteq> 1 \<and> c \<le> count \<longrightarrow> c \<in> set xs)"
  proof (cases ys rule: rev_cases)
    case Nil
    then show ?thesis using eq assms(2,3) by auto
  next
    case (snoc zs z)
    then have "as = xs @ m # zs" using eq by (simp flip: append_Cons append_assoc)
    then show ?thesis using assms(1) unfolding in_order_def by blast
  qed
qed

lemma in_order_post_order: "0 < node \<Longrightarrow> in_order count (post_order count node)"
proof (induction count node rule: post_order.induct)
  case (1 count node)
  show ?case
  proof (cases "count < node")
    case True
    then show ?thesis by (subst post_order.simps) (simp add: in_order_def)
  next
    case False
    have c: "\<not> (node = 0 \<or> count < node)" using 1 False by simp
    let ?l = "post_order count (2 * node)" and ?r = "post_order count (2 * node + 1)"
    have sets: "set ?l = {n. n \<le> count \<and> (\<exists>j. n div 2 ^ j = 2 * node)}"
      "set ?r = {n. n \<le> count \<and> (\<exists>j. n div 2 ^ j = 2 * node + 1)}"
      using set_post_order 1 by auto
    have lr: "False" if "n div 2 ^ i = 2 * node" "n div 2 ^ j = 2 * node + 1" for n i j
    proof -
      have up: "n div 2 ^ (a + b) = n div 2 ^ a div 2 ^ b" for a b :: nat
        by (simp add: div_mult2_eq power_add)
      have "i \<noteq> j" using that by auto
      then consider d where "j = i + Suc d" | d where "i = j + Suc d"
        by (metis less_imp_Suc_add nat_neq_iff add_Suc_right)
      then show False
      proof cases
        case 1
        then have "2 * node + 1 = 2 * node div 2 ^ Suc d" using that up by metis
        then have "2 * node + 1 \<le> 2 * node" using div_le_dividend by metis
        then show False by simp
      next
        case 2
        then have "2 * node = (2 * node + 1) div 2 ^ Suc d" using that up by metis
        then have "2 * node = node div 2 ^ d" by (simp add: div_mult2_eq)
        then have "2 * node \<le> node" using div_le_dividend by metis
        then show False using c by simp
      qed
    qed
    have out: "node \<notin> set ?l \<union> set ?r"
    proof -
      have "node div 2 ^ j \<le> node" for j by (rule div_le_dividend)
      then have "node div 2 ^ j \<noteq> 2 * node" "node div 2 ^ j \<noteq> 2 * node + 1" for j
        using c by (metis add_le_same_cancel1 mult_2 not_gr0 le_zero_eq, metis Suc_eq_plus1 not_less_eq_eq mult_2 le_add1 le_trans)
      then show ?thesis using sets by auto
    qed
    have "in_order count (?l @ ?r)"
    proof (rule in_order_append)
      show "in_order count ?l" "in_order count ?r" using 1(1,2) [OF c] 1(3) by simp_all
      show "set ?l \<inter> set ?r = {}" using lr sets by auto
    qed
    then have "in_order count ((?l @ ?r) @ [node])"
    proof (rule in_order_snoc)
      show "node \<notin> set (?l @ ?r)" using out by simp
      fix c assume ch: "c div 2 = node" "c \<le> count"
      then have "c = 2 * node \<or> c = 2 * node + 1" by linarith
      then have "c div 2 ^ 0 = 2 * node \<or> c div 2 ^ 0 = 2 * node + 1" by simp
      then show "c \<in> set (?l @ ?r)" using sets ch(2) unfolding set_append by blast
    qed
    then show ?thesis using c by (subst post_order.simps) simp
  qed
qed

section \<open>Reasoning about calls that may fail\<close>

text \<open>
  \<open>runs P m Q E\<close>: from a storage with \<open>P\<close>, \<open>m\<close> fails no assertion, a result comes with \<open>Q\<close> and
  an error leaves a storage with \<open>E\<close>, whatever the replies are.
\<close>

definition runs :: "(storage \<Rightarrow> bool) \<Rightarrow> 'a wm \<Rightarrow> ('a \<Rightarrow> storage \<Rightarrow> bool) \<Rightarrow> (storage \<Rightarrow> bool) \<Rightarrow> bool" where
  "runs P m Q E \<longleftrightarrow> (\<forall>w. P (w_stor w) \<longrightarrow> (case m w of
     (Ok x, w') \<Rightarrow> Q x (w_stor w') | (Fail e, w') \<Rightarrow> E (w_stor w') | (Stuck, w') \<Rightarrow> False))"

lemma runs_ret: "(\<And>st. P st \<Longrightarrow> Q x st) \<Longrightarrow> runs P (io_ret x) Q E"
  by (simp add: runs_def io_ret_def)

lemma runs_fail: "(\<And>st. P st \<Longrightarrow> E st) \<Longrightarrow> runs P (io_fail e) Q E"
  by (simp add: runs_def io_fail_def)

lemma runs_bind:
  assumes "runs P m R E" and "\<And>x. runs (R x) (k x) Q E"
  shows "runs P (io_bind m k) Q E"
  unfolding runs_def
proof (intro allI impI)
  fix w :: world assume "P (w_stor w)"
  then show "case io_bind m k w of
     (Ok x, w') \<Rightarrow> Q x (w_stor w') | (Fail e, w') \<Rightarrow> E (w_stor w') | (Stuck, w') \<Rightarrow> False"
    using assms unfolding runs_def io_bind_def by (fastforce split: prod.splits io.splits)
qed

lemma runs_weaken:
  assumes "runs P m Q E" and "\<And>st. P' st \<Longrightarrow> P st" and "\<And>x st. Q x st \<Longrightarrow> Q' x st"
    and "\<And>st. E st \<Longrightarrow> E' st"
  shows "runs P' m Q' E'"
  using assms unfolding runs_def by (fastforce split: prod.splits io.splits)

lemma next_reply_stor: "w_stor (snd (next_reply w)) = w_stor w"
  by (cases "w_replies w") auto

lemma runs_call: "(\<And>st. P st \<Longrightarrow> E st) \<Longrightarrow> runs P io_call (\<lambda>_. P) E"
  using next_reply_stor unfolding runs_def io_call_def
  by (auto simp del: next_reply.simps split: prod.splits) (metis snd_conv)+

lemma runs_calls: "(\<And>st. P st \<Longrightarrow> E st) \<Longrightarrow> runs P (io_calls k) (\<lambda>_. P) E"
proof (induction k)
  case 0
  then show ?case by (auto intro: runs_ret)
next
  case (Suc k)
  then show ?case unfolding io_calls.simps by (intro runs_bind [where R = "\<lambda>_. P"] runs_call) auto
qed

lemma runs_rng: "(\<And>st. P st \<Longrightarrow> E st) \<Longrightarrow> runs P crypto_rng_read (\<lambda>_. P) E"
  unfolding crypto_rng_read_def
  by (rule runs_bind, rule runs_call) (auto simp: runs_def split: list.splits)

lemma runs_read:
  assumes "\<And>st. P st \<Longrightarrow> E st" and "\<And>st x. P st \<Longrightarrow> slot st = Some x \<Longrightarrow> Q x st"
  shows "runs P (rpc_read slot) Q E"
  unfolding rpc_read_def
  by (rule runs_bind, rule runs_calls) (use assms in \<open>auto simp: runs_def split: option.splits\<close>)

lemma runs_write_final:
  assumes "\<And>st. P st \<Longrightarrow> E st" and "\<And>st. P st \<Longrightarrow> E (put st)" and "\<And>st. P st \<Longrightarrow> Q (put st)"
  shows "runs P (rpc_write_final put) (\<lambda>_. Q) E"
  unfolding runs_def rpc_write_final_def
proof (intro allI impI)
  fix w :: world assume p: "P (w_stor w)"
  obtain res reached w' where r: "next_reply w = ((res, reached), w')"
    by (cases "next_reply w") auto
  have "w_stor w' = w_stor w" using next_reply_stor [of w] r by simp
  then show "case case next_reply w of ((res, reached), w') \<Rightarrow>
        if res = TEE_SUCCESS then (Ok (), w'\<lparr>w_stor := put (w_stor w')\<rparr>)
        else (Fail res, if reached then w'\<lparr>w_stor := put (w_stor w')\<rparr> else w') of
      (Ok x, w') \<Rightarrow> Q (w_stor w') | (Fail e, w') \<Rightarrow> E (w_stor w') | (Stuck, w') \<Rightarrow> False"
    using p assms r by simp
qed

lemma runs_write:
  assumes "\<And>st. P st \<Longrightarrow> E st" and "\<And>st. P st \<Longrightarrow> E (put st)" and "\<And>st. P st \<Longrightarrow> Q (put st)"
  shows "runs P (rpc_write put) (\<lambda>_. Q) E"
  unfolding rpc_write_def
  by (rule runs_bind, rule runs_call [where E = E]) (auto intro!: runs_write_final assms)

lemma runs_hash:
  assumes "\<And>st. P st \<Longrightarrow> E st"
  shows "runs P (calc_node_hash cr ht n meta) (\<lambda>d st. P st \<and> d = cr_hash cr (node_hash_input ht n meta)) E"
  unfolding calc_node_hash_def
  by (rule runs_bind, rule runs_calls [OF assms]) (auto intro: runs_ret)

lemma runs_authenc_init:
  assumes "\<And>st. P st \<Longrightarrow> E st"
  shows "runs P (authenc_init ht ni) (\<lambda>a st. P st \<and> a = authenc_aad ht ni) E"
  unfolding authenc_init_def
  by (rule runs_bind, rule runs_calls [OF assms]) (auto intro: runs_ret)

lemma runs_encrypt:
  assumes "\<And>st. P st \<Longrightarrow> E st"
  shows "runs P (authenc_encrypt_final cr ht a plain)
    (\<lambda>x st. P st \<and> x = cr_enc cr (ht_fek ht) a plain \<and> length (fst x) = length plain) E"
  unfolding authenc_encrypt_final_def
  by (rule runs_bind, rule runs_call [OF assms])
     (auto intro!: runs_ret runs_fail assms split: prod.splits)

text \<open>A result of a call, and calls that all succeed.\<close>

definition calm :: "world \<Rightarrow> bool" where
  "calm w \<longleftrightarrow> w_replies w = []"

lemma calm_call [simp]: "calm w \<Longrightarrow> io_call w = (Ok (), w)"
  by (simp add: calm_def io_call_def)

lemma calm_calls [simp]: "calm w \<Longrightarrow> io_calls k w = (Ok (), w)"
  by (induction k) (simp_all add: io_bind_def io_ret_def)

lemma calm_read [simp]:
  "calm w \<Longrightarrow> rpc_read slot w = (case slot (w_stor w) of
     None \<Rightarrow> (Fail TEE_ERROR_CORRUPT_OBJECT, w) | Some x \<Rightarrow> (Ok x, w))"
  by (simp add: rpc_read_def io_bind_def)

lemma calm_hash [simp]:
  "calm w \<Longrightarrow> calc_node_hash cr ht n meta w = (Ok (cr_hash cr (node_hash_input ht n meta)), w)"
  by (simp add: calc_node_hash_def io_bind_def io_ret_def)

lemma calm_authenc [simp]: "calm w \<Longrightarrow> authenc_init ht ni w = (Ok (authenc_aad ht ni), w)"
  by (simp add: authenc_init_def io_bind_def io_ret_def)

end
