(* ===== verification/FsCommit.thy ===== *)
theory FsCommit
  imports FsTree
begin

text \<open>
  Secure storage files survive a crash at any point: what is on storage is always a complete
  committed tree, which opening finds, while changes go to the places it does not use. The
  proofs relate the tree in memory to the last committed one (\<open>tracks\<close>), through writes and through
  the traversal that writes the nodes back.
\<close>

section \<open>Committed trees\<close>

definition image_of :: "htree \<Rightarrow> nat \<Rightarrow> node_image" where
  "image_of ht n = nd_image (node_at ht n)"

definition meta_of :: "htree \<Rightarrow> nat \<Rightarrow> 64 word option" where
  "meta_of ht n = (if n = 1 then Some (meta_length (ht_imeta ht)) else None)"

definition digest_ok :: "fs_crypto \<Rightarrow> htree \<Rightarrow> nat \<Rightarrow> bool" where
  "digest_ok cr ht n \<longleftrightarrow> ni_hash (image_of ht n) = cr_hash cr (node_hash_input ht n (meta_of ht n))"

definition shape_ok :: "htree \<Rightarrow> bool" where
  "shape_ok ht \<longleftrightarrow> nodes_count ht = max 1 (unat (max_node_id (ht_imeta ht))) \<and> nodes_count ht < 2 ^ 32 - 1"

definition head_ok :: "fs_crypto \<Rightarrow> htree \<Rightarrow> bool" where
  "head_ok cr c \<longleftrightarrow> ht_fek c = cr_fek_dec cr (ht_uuid c) (im_enc_fek (ht_head c))
     \<and> length (im_imeta (ht_head c)) = 16
     \<and> cr_dec cr (ht_fek c) (authenc_aad c None) (im_imeta (ht_head c)) (im_tag (ht_head c))
         = Some (imeta_bytes (ht_imeta c))"

text \<open>A tree without changes, as opening returns it.\<close>

definition settled :: "htree \<Rightarrow> bool" where
  "settled c \<longleftrightarrow> shape_ok c \<and> \<not> ht_dirty c
     \<and> (\<forall>n. 1 \<le> n \<and> n \<le> nodes_count c \<longrightarrow> \<not> nd_dirty (node_at c n) \<and> \<not> nd_block_updated (node_at c n))"

definition tree_valid :: "fs_crypto \<Rightarrow> htree \<Rightarrow> bool" where
  "tree_valid cr c \<longleftrightarrow> settled c \<and> head_ok cr c \<and> (\<forall>n. 1 \<le> n \<and> n \<le> nodes_count c \<longrightarrow> digest_ok cr c n)"

definition counter_slot :: "htree \<Rightarrow> nat" where
  "counter_slot c = unat (im_counter (ht_head c)) mod 2"

definition child_vers :: "htree \<Rightarrow> nat \<Rightarrow> nat" where
  "child_vers c n = flag_vers (HTREE_NODE_COMMITTED_CHILD (n mod 2)) (image_of c (n div 2))"

definition block_vers :: "htree \<Rightarrow> nat \<Rightarrow> nat" where
  "block_vers c num = flag_vers HTREE_NODE_COMMITTED_BLOCK (image_of c (Suc num))"

text \<open>The header, the nodes and the blocks of \<open>c\<close> are in their committed places.\<close>

definition nodes_stored :: "htree \<Rightarrow> storage \<Rightarrow> bool" where
  "nodes_stored c st \<longleftrightarrow> st_node st 0 (counter_slot c) = Some (image_of c 1)
     \<and> (\<forall>n. 2 \<le> n \<and> n \<le> nodes_count c \<longrightarrow> st_node st (n - 1) (child_vers c n) = Some (image_of c n))"

definition heads_stored :: "htree \<Rightarrow> storage \<Rightarrow> bool" where
  "heads_stored c st \<longleftrightarrow> st_head st (counter_slot c) = Some (ht_head c)
     \<and> (\<exists>h. st_head st (1 - counter_slot c) = Some h \<and> im_counter h < im_counter (ht_head c)
          \<and> unat (im_counter h) mod 2 = 1 - counter_slot c)"

definition stored :: "htree \<Rightarrow> (nat \<Rightarrow> bytes option) \<Rightarrow> storage \<Rightarrow> bool" where
  "stored c blk st \<longleftrightarrow> heads_stored c st \<and> nodes_stored c st
     \<and> (\<forall>num < nodes_count c. st_block st num (block_vers c num) = blk num)"

text \<open>Opening by digest looks at the first place of the root before the second one.\<close>

definition hash_finds :: "256 word option \<Rightarrow> htree \<Rightarrow> storage \<Rightarrow> bool" where
  "hash_finds hash c st \<longleftrightarrow> (case hash of None \<Rightarrow> True
     | Some h \<Rightarrow> h = ni_hash (image_of c 1)
         \<and> (counter_slot c = 1 \<longrightarrow> (\<exists>im. st_node st 0 0 = Some im \<and> ni_hash im \<noteq> h)))"

section \<open>Little-endian fields\<close>

lemma le_roundtrip: "v < 256 ^ k \<Longrightarrow> le_value (le_bytes k v) = v"
proof (induction k arbitrary: v)
  case (Suc k)
  have "v div 256 < 256 ^ k" using Suc.prems by (simp add: less_mult_imp_div_less mult.commute)
  then have "le_value (le_bytes k (v div 256)) = v div 256" by (rule Suc.IH)
  then show ?case by (simp add: unat_of_nat)
qed simp

lemma length_le_bytes [simp]: "length (le_bytes k v) = k"
  by (induction k arbitrary: v) simp_all

lemma length_imeta_bytes [simp]: "length (imeta_bytes m) = 16"
  by (simp add: imeta_bytes_def)

lemma imeta_roundtrip [simp]: "imeta_of_bytes (imeta_bytes m) = m"
proof -
  have l: "unat (meta_length m) < 256 ^ 8" and i: "unat (max_node_id m) < 256 ^ 4"
    using unsigned_less [of "meta_length m", where ?'a = nat]
      unsigned_less [of "max_node_id m", where ?'a = nat] by simp_all
  have "take 8 (imeta_bytes m) = le_bytes 8 (unat (meta_length m))"
    "take 4 (drop 8 (imeta_bytes m)) = le_bytes 4 (unat (max_node_id m))"
    by (simp_all add: imeta_bytes_def)
  then show ?thesis
    unfolding imeta_of_bytes_def using le_roundtrip [OF l] le_roundtrip [OF i] by simp
qed

section \<open>Finding and adding nodes\<close>

lemma get_node_present:
  assumes "1 \<le> n" and "n \<le> nodes_count ht" and "nodes_count ht < 2 ^ 32 - 1"
  shows "get_node create n ht = io_ret ht"
  using assms find_closest_present [of n ht] by (simp add: get_node_def Let_def)

definition grow :: "htree \<Rightarrow> htree" where
  "grow ht = (let n = Suc (nodes_count ht); ht1 = ht\<lparr>ht_nodes := ht_nodes ht @ [zero_node]\<rparr>
     in if n > unat (max_node_id (ht_imeta ht))
        then ht1\<lparr>ht_imeta := (ht_imeta ht1)\<lparr>max_node_id := word_of_nat n\<rparr>\<rparr> else ht1)"

lemma add_nodes_next:
  assumes "n = Suc (nodes_count ht)" and "1 < n" and "n div 2 < m" and "m \<le> n"
  shows "add_nodes m n ht = io_bind io_call (\<lambda>_. io_ret (ht\<lparr>ht_nodes := ht_nodes ht @ [zero_node]\<rparr>))"
  using assms
proof (induction "n - m" arbitrary: m)
  case 0
  then have m: "m = n" by simp
  have "add_nodes (Suc n) n ht' = io_ret ht'" for ht' by (subst add_nodes.simps) simp
  then show ?case
    using m assms find_closest_next [OF assms(2,1)]
    by (subst add_nodes.simps) (simp add: Let_def)
next
  case (Suc d)
  then have "m \<le> nodes_count ht" "0 < m" by auto
  then have "add_nodes m n ht = add_nodes (Suc m) n ht"
    using Suc.prems find_closest_present by (subst add_nodes.simps) simp
  then show ?case using Suc by simp
qed

lemma get_node_next:
  assumes "n = Suc (nodes_count ht)" and "0 < nodes_count ht" and "n < 2 ^ 32 - 1"
  shows "get_node True n ht = io_bind io_call (\<lambda>_. io_ret (grow ht))"
proof -
  have n: "1 < n" using assms by simp
  have "find_closest_node ht n = n div 2" by (rule find_closest_next [OF n assms(1)])
  moreover have "add_nodes (Suc (n div 2)) n ht
      = io_bind io_call (\<lambda>_. io_ret (ht\<lparr>ht_nodes := ht_nodes ht @ [zero_node]\<rparr>))"
    using add_nodes_next [OF assms(1) n] n by simp
  moreover have "n div 2 \<noteq> n" using n by simp
  ultimately show ?thesis
    using n assms(1,3)
    by (auto simp: get_node_def Let_def grow_def io_bind_def io_ret_def fun_eq_iff
        split: prod.splits io.splits)
qed

section \<open>Opening a committed file\<close>

text \<open>The first \<open>m\<close> nodes of a tree.\<close>

definition part :: "htree \<Rightarrow> nat \<Rightarrow> htree" where
  "part c m = c\<lparr>ht_nodes := take m (ht_nodes c)\<rparr>"

lemma part_simps [simp]:
  "m \<le> nodes_count c \<Longrightarrow> nodes_count (part c m) = m"
  "ht_imeta (part c m) = ht_imeta c"
  "part c (nodes_count c) = c"
  by (simp_all add: part_def nodes_count_def)

lemma settled_node:
  assumes "settled c" and "1 \<le> n" and "n \<le> nodes_count c"
  shows "zero_node\<lparr>nd_image := image_of c n\<rparr> = node_at c n"
  using assms by (simp add: settled_def zero_node_def image_of_def)

lemma part_step:
  assumes "settled c" and "2 \<le> n" and "n \<le> nodes_count c"
  shows "grow (part c (n - 1)) = (part c (n - 1))\<lparr>ht_nodes := take (n - 1) (ht_nodes c) @ [zero_node]\<rparr>"
    and "set_node n ((node_at (grow (part c (n - 1))) n)\<lparr>nd_image := image_of c n\<rparr>) (grow (part c (n - 1)))
      = part c n"
proof -
  have max: "nodes_count c = unat (max_node_id (ht_imeta c))"
    using assms by (simp add: settled_def shape_ok_def max_def split: if_splits)
  have len: "length (take (n - 1) (ht_nodes c)) = n - 1" using assms(3) by (simp add: nodes_count_def)
  show g: "grow (part c (n - 1)) = (part c (n - 1))\<lparr>ht_nodes := take (n - 1) (ht_nodes c) @ [zero_node]\<rparr>"
    using assms max by (simp add: grow_def Let_def part_def nodes_count_def)
  have nd: "node_at (grow (part c (n - 1))) n = zero_node"
    using len assms unfolding g by (simp add: node_at_def nth_append)
  have "take (n - 1) (ht_nodes c) @ [node_at c n] = take n (ht_nodes c)"
    using assms by (simp add: node_at_def nodes_count_def take_Suc_conv_app_nth [symmetric])
  then show "set_node n ((node_at (grow (part c (n - 1))) n)\<lparr>nd_image := image_of c n\<rparr>)
      (grow (part c (n - 1))) = part c n"
    unfolding nd unfolding g using settled_node [OF assms(1) _ assms(3)] assms(2) len
    by (simp add: set_node_def part_def list_update_append)
qed

lemma init_tree_loop_calm:
  assumes "settled c" and "nodes_stored c (w_stor w)" and "calm w" and "2 \<le> n" and "n \<le> Suc (nodes_count c)"
  shows "init_tree_loop (nodes_count c) n (part c (n - 1)) w = (Ok c, w)"
  using assms(4,5)
proof (induction "Suc (nodes_count c) - n" arbitrary: n)
  case 0
  then have "n - 1 = nodes_count c" "nodes_count c < n" by auto
  then show ?case by (subst init_tree_loop.simps) (simp add: io_ret_def)
next
  case (Suc d)
  have n: "n \<le> nodes_count c" using Suc.hyps(2) by simp
  define c' where "c' = part c (n - 1)"
  have cnt: "nodes_count c' = n - 1" using n by (simp add: c'_def)
  have "find_closest_node c' (n div 2) = n div 2"
    using find_closest_present [of "n div 2" c'] Suc.prems(1) cnt by simp
  then have find: "find_node c' (n div 2) = Some (n div 2)" by (simp add: find_node_def Let_def)
  have parent: "node_at c' (n div 2) = node_at c (n div 2)"
    using Suc.prems(1) by (simp add: c'_def node_at_def part_def)
  have slot: "st_node (w_stor w) (n - 1) (flag_vers (HTREE_NODE_COMMITTED_CHILD (n mod 2))
      (nd_image (node_at c' (n div 2)))) = Some (image_of c n)"
    unfolding parent
    using assms(2) Suc.prems(1) n by (simp add: nodes_stored_def child_vers_def image_of_def)
  have get: "get_node True n c' = io_bind io_call (\<lambda>_. io_ret (grow c'))"
    using get_node_next [of n c'] Suc.prems(1) n cnt assms(1) by (simp add: settled_def shape_ok_def)
  have "init_tree_loop (nodes_count c) n c' w = init_tree_loop (nodes_count c) (Suc n) (part c n) w"
    using n slot assms(3) part_step(2) [OF assms(1) Suc.prems(1) n, folded c'_def]
    by (subst init_tree_loop.simps)
       (simp add: find rpc_read_node_def get io_bind_def io_ret_def)
  then show ?case unfolding c'_def using Suc.hyps(1) [of "Suc n"] Suc.hyps(2) Suc.prems n by simp
qed

lemma traverse_verify_calm:
  assumes "calm w"
  shows "traverse (verify_node cr) ns ht w =
    (if \<forall>n \<in> set ns. digest_ok cr ht n then (Ok ht, w) else (Fail TEE_ERROR_CORRUPT_OBJECT, w))"
  using assms
  by (induction ns) (auto simp: verify_node_def io_bind_def io_ret_def io_fail_def digest_ok_def
      meta_of_def image_of_def)

lemma verify_root_calm:
  assumes "calm w" and "head_ok cr c" and "ht_head h0 = ht_head c" and "image_of h0 1 = image_of c 1"
    and "ht_uuid h0 = ht_uuid c"
  shows "verify_root cr h0 w = (Ok (h0\<lparr>ht_fek := ht_fek c, ht_imeta := ht_imeta c\<rparr>), w)"
proof -
  have "authenc_aad (h0\<lparr>ht_fek := f\<rparr>) None = authenc_aad c None" for f
    using assms(3,4) by (simp add: authenc_aad_def node_at_def image_of_def)
  moreover have "cr_fek_dec cr (ht_uuid c) (im_enc_fek (ht_head c)) = ht_fek c"
    "cr_dec cr (ht_fek c) (authenc_aad c None) (im_imeta (ht_head c)) (im_tag (ht_head c))
      = Some (imeta_bytes (ht_imeta c))"
    "length (im_imeta (ht_head c)) = 16"
    using assms(2) unfolding head_ok_def by (elim conjE, metis)+
  ultimately show ?thesis using assms(1,3,5)
    by (simp add: verify_root_def Let_def io_bind_def io_ret_def authenc_decrypt_final_def)
qed

lemma verify_tree_calm:
  assumes "calm w"
  shows "verify_tree cr ht w = (if \<forall>n. 1 \<le> n \<and> n \<le> nodes_count ht \<longrightarrow> digest_ok cr ht n
    then (Ok ht, w) else (Fail TEE_ERROR_CORRUPT_OBJECT, w))"
  using traverse_verify_calm [OF assms, of cr "post_order (nodes_count ht) 1" ht] assms set_traversal
  by (auto simp: verify_tree_def htree_traverse_post_order_def io_bind_def)

lemma slot_cases: "counter_slot c = 0 \<or> counter_slot c = 1"
  by (auto simp: counter_slot_def)

lemma even_unat: "bit (w :: 32 word) 0 \<longleftrightarrow> unat w mod 2 = 1"
proof -
  have "bit (unat w) 0 \<longleftrightarrow> bit w 0" by (simp add: bit_unsigned_iff del: bit_0)
  then show ?thesis by (simp add: bit_0 odd_iff_mod_2_eq_one)
qed

lemma init_head_calm:
  assumes "stored c blk (w_stor w)" and "calm w" and "hash_finds hash c (w_stor w)"
  shows "init_head_from_data hash w = (Ok (ht_head c, image_of c 1), w)"
proof -
  have root: "st_node (w_stor w) 0 (counter_slot c) = Some (image_of c 1)"
    and head: "st_head (w_stor w) (counter_slot c) = Some (ht_head c)"
    using assms(1) by (simp_all add: stored_def nodes_stored_def heads_stored_def)
  obtain h where h: "st_head (w_stor w) (1 - counter_slot c) = Some h"
    "im_counter h < im_counter (ht_head c)" "unat (im_counter h) mod 2 = 1 - counter_slot c"
    using assms(1) by (auto simp: stored_def heads_stored_def)
  have own: "unat (im_counter (ht_head c)) mod 2 = counter_slot c" by (simp add: counter_slot_def)
  show ?thesis
  proof (cases hash)
    case None
    show ?thesis
    proof (cases "counter_slot c = 0")
      case True
      then have "get_idx_from_counter (im_counter (ht_head c)) (im_counter h) = Some 0"
        using own h by (simp add: get_idx_from_counter_def even_unat)
      then show ?thesis using True None head h root assms(2)
        by (simp add: init_head_from_data_def rpc_read_head_def rpc_read_node_def io_bind_def io_ret_def)
    next
      case False
      then have one: "counter_slot c = 1" using slot_cases [of c] by simp
      then have "get_idx_from_counter (im_counter h) (im_counter (ht_head c)) = Some 1"
        using own h by (simp add: get_idx_from_counter_def even_unat)
      then show ?thesis using one None head h root assms(2)
        by (simp add: init_head_from_data_def rpc_read_head_def rpc_read_node_def io_bind_def io_ret_def)
    qed
  next
    case (Some d)
    then show ?thesis using assms(2,3) head root slot_cases [of c]
      by (auto simp: init_head_from_data_def rpc_read_head_def rpc_read_node_def io_bind_def
          io_ret_def hash_finds_def)
  qed
qed

lemma load_stored:
  assumes valid: "settled c" "head_ok cr c" and st: "stored c blk (w_stor w)" and "calm w"
    and "hash_finds hash c (w_stor w)"
  shows "load_htree cr (ht_uuid c) hash w =
    (if \<forall>n. 1 \<le> n \<and> n \<le> nodes_count c \<longrightarrow> digest_ok cr c n then (Ok c, w)
     else (Fail TEE_ERROR_CORRUPT_OBJECT, w))"
proof -
  let ?h0 = "(empty_htree (ht_uuid c))\<lparr>ht_head := ht_head c,
    ht_nodes := [zero_node\<lparr>nd_image := image_of c 1\<rparr>]\<rparr>"
  have shape: "nodes_count c = max 1 (unat (max_node_id (ht_imeta c)))" and clean: "\<not> ht_dirty c"
    using valid(1) by (simp_all add: settled_def shape_ok_def)
  have pos: "1 \<le> nodes_count c" using shape by simp
  have node1: "zero_node\<lparr>nd_image := image_of c 1\<rparr> = node_at c 1"
    using settled_node [OF valid(1) _ pos] by simp
  have "take 1 (ht_nodes c) = [node_at c 1]"
    using pos by (cases "ht_nodes c") (simp_all add: nodes_count_def node_at_def)
  then have "?h0\<lparr>ht_fek := ht_fek c, ht_imeta := ht_imeta c\<rparr> = part c 1"
    unfolding node1 using clean by (simp add: part_def empty_htree_def)
  moreover have "image_of ?h0 1 = image_of c 1" by (simp add: image_of_def node_at_def)
  ultimately have root: "verify_root cr ?h0 w = (Ok (part c 1), w)"
    using verify_root_calm [OF \<open>calm w\<close> valid(2), of ?h0] by (simp add: empty_htree_def)
  have "init_tree_from_data (part c 1) w = (Ok c, w)"
  proof (cases "unat (max_node_id (ht_imeta c)) \<le> 1")
    case True
    then have "nodes_count c = 1" using shape by simp
    then have "part c 1 = c" using part_simps(3) by metis
    then show ?thesis
      using True by (simp add: init_tree_from_data_def init_tree_loop.simps io_ret_def)
  next
    case False
    then have "unat (max_node_id (ht_imeta c)) = nodes_count c" using shape by simp
    then show ?thesis
      using init_tree_loop_calm [OF valid(1) _ \<open>calm w\<close>, of 2] st False shape
      by (simp add: init_tree_from_data_def stored_def)
  qed
  then show ?thesis
    using init_head_calm [OF st \<open>calm w\<close> assms(5)] root verify_tree_calm [OF \<open>calm w\<close>, of cr c] \<open>calm w\<close>
    by (simp add: load_htree_def io_bind_def)
qed

end
