(* ===== verification/FsSync.thy ===== *)
theory FsSync
  imports FsCommit
begin

text \<open>
  Writing the tree back (\<open>htree_sync_node_to_storage\<close> over the whole tree): afterwards every node
  is in the place its parent's flag names and carries the digest of what is below it, and no
  place that was in use before has been written.
\<close>

section \<open>Nodes, images and flags\<close>

lemma set_node_frame [simp]:
  "nodes_count (set_node n nd ht) = nodes_count ht"
  "ht_head (set_node n nd ht) = ht_head ht" "ht_fek (set_node n nd ht) = ht_fek ht"
  "ht_imeta (set_node n nd ht) = ht_imeta ht" "ht_uuid (set_node n nd ht) = ht_uuid ht"
  "ht_dirty (set_node n nd ht) = ht_dirty ht"
  by (simp_all add: set_node_def nodes_count_def)

lemma node_at_set:
  "1 \<le> n \<Longrightarrow> n \<le> nodes_count ht \<Longrightarrow> 1 \<le> m \<Longrightarrow>
   node_at (set_node n nd ht) m = (if m = n then nd else node_at ht m)"
  by (auto simp: node_at_def set_node_def nodes_count_def nth_list_update)

lemma flag_vers_flip:
  "b < 16 \<Longrightarrow> flag_vers a (flip_flag b im) = (if a = b then 1 - flag_vers a im else flag_vers a im)"
  by (auto simp: flag_vers_def flip_flag_def bit_simps)

lemma flag_vers_same [simp]:
  "flag_vers b (im\<lparr>ni_hash := d\<rparr>) = flag_vers b im" "flag_vers b (im\<lparr>ni_tag := t\<rparr>) = flag_vers b im"
  "flag_vers b (im\<lparr>ni_iv := i\<rparr>) = flag_vers b im"
  by (simp_all add: flag_vers_def)

lemma flag_vers_01: "flag_vers b im = 0 \<or> flag_vers b im = 1"
  by (simp add: flag_vers_def)

lemma flip_flag_frame [simp]:
  "ni_hash (flip_flag b im) = ni_hash im" "ni_iv (flip_flag b im) = ni_iv im"
  "ni_tag (flip_flag b im) = ni_tag im"
  by (simp_all add: flip_flag_def)

lemma in_children: "m \<in> set (children ht n) \<longleftrightarrow> m \<le> nodes_count ht \<and> (m = 2 * n \<or> m = 2 * n + 1)"
  by (auto simp: children_def)

lemma children_cong: "nodes_count h = nodes_count ht \<Longrightarrow> children h n = children ht n"
  by (simp add: children_def)

lemma hash_input_cong:
  assumes "nodes_count h = nodes_count ht"
    and "ni_iv (image_of h n) = ni_iv (image_of ht n)" "ni_tag (image_of h n) = ni_tag (image_of ht n)"
      "ni_flags (image_of h n) = ni_flags (image_of ht n)"
    and "\<And>m. m \<in> set (children ht n) \<Longrightarrow> ni_hash (image_of h m) = ni_hash (image_of ht m)"
  shows "node_hash_input h n meta = node_hash_input ht n meta"
  using assms children_cong [OF assms(1)]
  by (auto simp: node_hash_input_def Let_def image_of_def)

lemma meta_of_cong: "ht_imeta h = ht_imeta ht \<Longrightarrow> meta_of h n = meta_of ht n"
  by (simp add: meta_of_def)

section \<open>One node of the traversal\<close>

definition same_frame :: "htree \<Rightarrow> htree \<Rightarrow> bool" where
  "same_frame h ht \<longleftrightarrow> nodes_count ht = nodes_count h \<and> ht_head ht = ht_head h \<and> ht_fek ht = ht_fek h
     \<and> ht_imeta ht = ht_imeta h \<and> ht_uuid ht = ht_uuid h \<and> ht_dirty ht = ht_dirty h"

definition same_block :: "htree \<Rightarrow> htree \<Rightarrow> nat \<Rightarrow> bool" where
  "same_block h ht n \<longleftrightarrow> ni_iv (image_of ht n) = ni_iv (image_of h n)
     \<and> ni_tag (image_of ht n) = ni_tag (image_of h n)
     \<and> flag_vers HTREE_NODE_COMMITTED_BLOCK (image_of ht n)
         = flag_vers HTREE_NODE_COMMITTED_BLOCK (image_of h n)"

abbreviation within :: "htree \<Rightarrow> nat \<Rightarrow> bool" where
  "within ht n \<equiv> 1 \<le> n \<and> n \<le> nodes_count ht"

abbreviation dirty_at :: "htree \<Rightarrow> nat \<Rightarrow> bool" where
  "dirty_at ht n \<equiv> nd_dirty (node_at ht n)"

text \<open>Node \<open>n\<close> has been handled: it is clean, carries its digest and is in its place.\<close>

definition handled :: "fs_crypto \<Rightarrow> htree \<Rightarrow> storage \<Rightarrow> nat \<Rightarrow> bool" where
  "handled cr ht st n \<longleftrightarrow> \<not> dirty_at ht n \<and> \<not> nd_block_updated (node_at ht n) \<and> digest_ok cr ht n
     \<and> st_node st (n - 1) (if n = 1 then 1 - counter_slot ht else child_vers ht n) = Some (image_of ht n)"

text \<open>Node \<open>n\<close> is still to come; if it is clean, nothing below it has changed.\<close>

definition waiting :: "htree \<Rightarrow> nat set \<Rightarrow> htree \<Rightarrow> nat \<Rightarrow> bool" where
  "waiting h D ht n \<longleftrightarrow> (nd_block_updated (node_at ht n) \<longrightarrow> dirty_at ht n)
     \<and> (n \<noteq> 1 \<longrightarrow> child_vers ht n = child_vers h n)
     \<and> (\<not> dirty_at ht n \<longrightarrow> \<not> dirty_at h n \<and> image_of ht n = image_of h n
         \<and> (\<forall>m \<in> set (children h n). m \<in> D \<longrightarrow> \<not> dirty_at h m \<and> image_of ht m = image_of h m))"

definition pass_inv ::
    "fs_crypto \<Rightarrow> (storage \<Rightarrow> bool) \<Rightarrow> htree \<Rightarrow> nat set \<Rightarrow> htree \<Rightarrow> storage \<Rightarrow> bool" where
  "pass_inv cr S h D ht st \<longleftrightarrow> S st \<and> same_frame h ht
     \<and> (\<forall>n. within h n \<longrightarrow> same_block h ht n)
     \<and> (\<forall>n. within h n \<longrightarrow> (if n \<in> D then handled cr ht st n else waiting h D ht n))
     \<and> (1 \<notin> D \<longrightarrow> (\<exists>n. within h n \<and> n \<notin> D \<and> dirty_at ht n))"

text \<open>What the traversal needs of the tree it starts from; \<open>S\<close> is what must stay on storage.\<close>

definition can_sync :: "fs_crypto \<Rightarrow> (storage \<Rightarrow> bool) \<Rightarrow> htree \<Rightarrow> bool" where
  "can_sync cr S h \<longleftrightarrow> 1 \<le> nodes_count h
     \<and> (\<forall>n. within h n \<longrightarrow> nd_block_updated (node_at h n) \<longrightarrow> dirty_at h n)
     \<and> (\<exists>n. within h n \<and> dirty_at h n)
     \<and> (\<forall>n im st. 2 \<le> n \<and> n \<le> nodes_count h \<longrightarrow> S st \<longrightarrow> S (put_node (n - 1) (1 - child_vers h n) im st))
     \<and> (\<forall>im st. S st \<longrightarrow> S (put_node 0 (1 - counter_slot h) im st))
     \<and> (\<forall>n st. 2 \<le> n \<and> n \<le> nodes_count h \<and> \<not> dirty_at h n \<longrightarrow> S st \<longrightarrow>
          st_node st (n - 1) (child_vers h n) = Some (image_of h n))
     \<and> (\<forall>n. within h n \<and> \<not> dirty_at h n \<and> (\<forall>m \<in> set (children h n). \<not> dirty_at h m) \<longrightarrow> digest_ok cr h n)"

text \<open>The state of the traversal: \<open>D\<close> has been visited and is closed downwards.\<close>

definition visited :: "htree \<Rightarrow> nat set \<Rightarrow> bool" where
  "visited h D \<longleftrightarrow> D \<subseteq> {1..nodes_count h} \<and> (\<forall>n \<in> D. set (children h n) \<subseteq> D)"

lemma child_parent: "m \<in> set (children h n) \<Longrightarrow> 1 \<le> n \<Longrightarrow> m div 2 = n \<and> m \<noteq> n \<and> 2 \<le> m"
  by (auto simp: in_children)

lemma parent_child: "2 \<le> n \<Longrightarrow> n \<le> nodes_count h \<Longrightarrow> n \<in> set (children h (n div 2))"
  by (auto simp: in_children)

lemma visit_clean:
  assumes inv: "pass_inv cr S h D ht st" and can: "can_sync cr S h" and n: "within h n" "n \<notin> D"
    and kids: "set (children h n) \<subseteq> D" and clean: "\<not> dirty_at ht n" and root: "n = 1 \<longrightarrow> {2..nodes_count h} \<subseteq> D"
  shows "pass_inv cr S h (insert n D) ht st"
proof -
  have frame: "same_frame h ht" and S: "S st" using inv by (simp_all add: pass_inv_def)
  have cnt: "nodes_count ht = nodes_count h" and meta: "ht_imeta ht = ht_imeta h"
    using frame by (simp_all add: same_frame_def)
  have wait: "waiting h D ht n" using inv n by (auto simp: pass_inv_def)
  have img: "image_of ht n = image_of h n" and dh: "\<not> dirty_at h n" and upd: "\<not> nd_block_updated (node_at ht n)"
    and below: "m \<in> set (children h n) \<Longrightarrow> \<not> dirty_at h m \<and> image_of ht m = image_of h m" for m
    using wait clean kids by (auto simp: waiting_def)
  have notroot: "n \<noteq> 1"
  proof
    assume one: "n = 1"
    then have "1 \<notin> D" using n(2) by simp
    then obtain m where m: "within h m" "m \<notin> D" "dirty_at ht m"
      using inv unfolding pass_inv_def by blast
    have "m = 1"
    proof (rule ccontr)
      assume "m \<noteq> 1"
      then have "m \<in> {2..nodes_count h}" using m(1) by simp
      then show False using root one m(2) by blast
    qed
    then show False using m(3) clean one by simp
  qed
  have "digest_ok cr h n" using can n(1) dh below unfolding can_sync_def by blast
  moreover have "node_hash_input ht n (meta_of ht n) = node_hash_input h n (meta_of h n)"
    unfolding meta_of_cong [OF meta] by (rule hash_input_cong [OF cnt]) (use img below in simp_all)
  ultimately have dig: "digest_ok cr ht n" using img by (simp add: digest_ok_def)
  have "st_node st (n - 1) (child_vers h n) = Some (image_of h n)"
    using can S n(1) notroot dh unfolding can_sync_def by auto
  moreover have "child_vers ht n = child_vers h n" using wait notroot by (simp add: waiting_def)
  ultimately have done_n: "handled cr ht st n"
    using clean upd dig img notroot by (simp add: handled_def)
  have "waiting h (insert n D) ht m" if m: "within h m" "m \<notin> insert n D" for m
  proof -
    have "waiting h D ht m" using inv m by (auto simp: pass_inv_def)
    then show ?thesis using dh img by (auto simp: waiting_def)
  qed
  moreover have "\<exists>m. within h m \<and> m \<notin> insert n D \<and> dirty_at ht m" if "1 \<notin> insert n D"
  proof -
    have "1 \<notin> D" using that by simp
    then obtain m where "within h m" "m \<notin> D" "dirty_at ht m" using inv unfolding pass_inv_def by blast
    then show ?thesis using clean by (intro exI [of _ m]) auto
  qed
  moreover have "handled cr ht st m" if "within h m" "m \<in> D" for m
    using inv that by (auto simp: pass_inv_def)
  ultimately show ?thesis
    using inv done_n n(1) unfolding pass_inv_def by auto
qed

text \<open>A dirty node: what the traversal makes of the tree in memory.\<close>

definition moved :: "nat \<Rightarrow> 256 word \<Rightarrow> htree \<Rightarrow> htree" where
  "moved n d ht = (let ht1 = (if n \<noteq> 1 then touch_parent n ht else ht)
     in set_node n \<lparr>nd_image = (nd_image (node_at ht1 n))\<lparr>ni_hash := d\<rparr>, nd_dirty = False,
          nd_block_updated = False\<rparr> ht1)"

lemma touch_parent_frame [simp]:
  "nodes_count (touch_parent n ht) = nodes_count ht" "ht_head (touch_parent n ht) = ht_head ht"
  "ht_fek (touch_parent n ht) = ht_fek ht" "ht_imeta (touch_parent n ht) = ht_imeta ht"
  "ht_uuid (touch_parent n ht) = ht_uuid ht" "ht_dirty (touch_parent n ht) = ht_dirty ht"
  by (simp_all add: touch_parent_def Let_def)

lemma touch_parent_node:
  assumes "2 \<le> n" and "n \<le> nodes_count ht" and "1 \<le> m"
  shows "node_at (touch_parent n ht) m = (if m = n div 2
    then (node_at ht m)\<lparr>nd_dirty := True,
           nd_image := flip_flag (HTREE_NODE_COMMITTED_CHILD (n mod 2)) (image_of ht m)\<rparr>
    else node_at ht m)"
  using assms node_at_set [of "n div 2" ht m]
  by (auto simp: touch_parent_def Let_def image_of_def)

lemma moved_frame: "same_frame ht (moved n d ht)"
  by (auto simp: same_frame_def moved_def Let_def)

lemma moved_node:
  assumes "within ht n" and "1 \<le> m"
  shows "node_at (moved n d ht) m =
    (if m = n then \<lparr>nd_image = (image_of ht n)\<lparr>ni_hash := d\<rparr>, nd_dirty = False, nd_block_updated = False\<rparr>
     else if n \<noteq> 1 \<and> m = n div 2
     then (node_at ht m)\<lparr>nd_dirty := True,
            nd_image := flip_flag (HTREE_NODE_COMMITTED_CHILD (n mod 2)) (image_of ht m)\<rparr>
     else node_at ht m)"
proof (cases "n = 1")
  case False
  then show ?thesis
    using assms touch_parent_node [of n ht] node_at_set [of n "touch_parent n ht" m]
    by (auto simp: moved_def Let_def image_of_def)
qed (use assms node_at_set [of n ht m] in \<open>auto simp: moved_def image_of_def\<close>)

lemma moved_image:
  assumes "within ht n" and "1 \<le> m"
  shows "image_of (moved n d ht) m =
    (if m = n then (image_of ht n)\<lparr>ni_hash := d\<rparr>
     else if n \<noteq> 1 \<and> m = n div 2 then flip_flag (HTREE_NODE_COMMITTED_CHILD (n mod 2)) (image_of ht m)
     else image_of ht m)"
  using moved_node [OF assms, of d] by (simp add: image_of_def)

lemma child_flag_small: "HTREE_NODE_COMMITTED_CHILD (n mod 2) < 16"
proof -
  have "n mod 2 < 2" by simp
  then show ?thesis unfolding HTREE_NODE_COMMITTED_CHILD_def by linarith
qed

lemma moved_child_vers:
  assumes "within ht n" and "2 \<le> m" and "m \<le> nodes_count ht"
  shows "child_vers (moved n d ht) m = (if m = n then 1 - child_vers ht n else child_vers ht m)"
proof -
  have p: "1 \<le> m div 2" using assms(2) by simp
  show ?thesis
  proof (cases "n \<noteq> 1 \<and> m div 2 = n div 2")
    case True
    have eq: "HTREE_NODE_COMMITTED_CHILD (m mod 2) = HTREE_NODE_COMMITTED_CHILD (n mod 2) \<longleftrightarrow> m = n"
      using True by (auto simp: HTREE_NODE_COMMITTED_CHILD_def) (metis div_mult_mod_eq)
    have "m div 2 \<noteq> n" using True assms(1) by auto
    then show ?thesis
      using moved_image [OF assms(1) p, of d] True eq flag_vers_flip [OF child_flag_small]
      by (auto simp: child_vers_def)
  next
    case False
    then have "m \<noteq> n" using assms(2) by auto
    then show ?thesis using moved_image [OF assms(1) p, of d] False by (auto simp: child_vers_def)
  qed
qed

definition new_slot :: "htree \<Rightarrow> nat \<Rightarrow> nat" where
  "new_slot ht n = (if n = 1 then 1 - counter_slot ht else 1 - child_vers ht n)"

lemma counter_parity: "bit (im_counter (ht_head ht)) 0 \<longleftrightarrow> counter_slot ht = 1"
  using even_unat [of "im_counter (ht_head ht)"] slot_cases [of ht] by (auto simp: counter_slot_def)

lemma sync_node_eq:
  assumes "within ht n" and "dirty_at ht n"
  shows "htree_sync_node_to_storage cr n ht =
    (let ht1 = (if n \<noteq> 1 then touch_parent n ht else ht) in
     io_bind (calc_node_hash cr ht1 n (meta_of ht n)) (\<lambda>d.
     io_bind (rpc_write_node n (new_slot ht n) (image_of (moved n d ht) n)) (\<lambda>_. io_ret (moved n d ht))))"
proof -
  let ?ht1 = "if n \<noteq> 1 then touch_parent n ht else ht"
  have vers: "(if n \<noteq> 1 then flag_vers (HTREE_NODE_COMMITTED_CHILD (n mod 2)) (nd_image (node_at ?ht1 (n div 2)))
      else if bit (im_counter (ht_head ?ht1)) 0 then 0 else 1) = new_slot ht n"
  proof (cases "n = 1")
    case True
    then show ?thesis using counter_parity [of ht] slot_cases [of ht] by (auto simp: new_slot_def)
  next
    case False
    then have "2 \<le> n" "1 \<le> n div 2" using assms(1) by auto
    then show ?thesis
      using False touch_parent_node [of n ht "n div 2"] assms(1) flag_vers_flip [OF child_flag_small]
      by (simp add: new_slot_def child_vers_def)
  qed
  have img: "image_of (moved n d ht) n = (nd_image (node_at ?ht1 n))\<lparr>ni_hash := d\<rparr>" for d
    using assms(1) node_at_set [of n ?ht1 n] by (simp add: moved_def Let_def image_of_def)
  have meta: "(if n \<noteq> 1 then None else Some (meta_length (ht_imeta ?ht1))) = meta_of ht n"
    by (simp add: meta_of_def)
  show ?thesis
    unfolding htree_sync_node_to_storage_def Let_def meta vers img
    using assms(2) by (simp add: moved_def Let_def)
qed

lemma touch_hash_input:
  assumes "2 \<le> n" and "n \<le> nodes_count ht"
  shows "node_hash_input (touch_parent n ht) n meta = node_hash_input ht n meta"
proof (rule hash_input_cong)
  have img: "image_of (touch_parent n ht) m = image_of ht m" if "m \<noteq> n div 2" "1 \<le> m" for m
    using touch_parent_node [OF assms that(2)] that(1) by (simp add: image_of_def)
  have ne: "n \<noteq> n div 2" using assms(1) by simp
  show "ni_iv (image_of (touch_parent n ht) n) = ni_iv (image_of ht n)"
    "ni_tag (image_of (touch_parent n ht) n) = ni_tag (image_of ht n)"
    "ni_flags (image_of (touch_parent n ht) n) = ni_flags (image_of ht n)"
    using img [OF ne] assms(1) by simp_all
  fix m assume "m \<in> set (children ht n)"
  then have "m \<noteq> n div 2" "1 \<le> m" using assms(1) by (auto simp: in_children)
  then show "ni_hash (image_of (touch_parent n ht) m) = ni_hash (image_of ht m)" using img by simp
qed simp

lemma moved_digest_self:
  assumes "within ht n"
  shows "node_hash_input (moved n d ht) n meta = node_hash_input ht n meta"
proof (rule hash_input_cong)
  show "nodes_count (moved n d ht) = nodes_count ht" using moved_frame by (simp add: same_frame_def)
  show "ni_iv (image_of (moved n d ht) n) = ni_iv (image_of ht n)"
    "ni_tag (image_of (moved n d ht) n) = ni_tag (image_of ht n)"
    "ni_flags (image_of (moved n d ht) n) = ni_flags (image_of ht n)"
    using moved_image [OF assms, of n d] assms by simp_all
  fix m assume "m \<in> set (children ht n)"
  then have m: "m \<noteq> n" "m \<noteq> n div 2" "1 \<le> m" using assms by (auto simp: in_children)
  then show "ni_hash (image_of (moved n d ht) m) = ni_hash (image_of ht m)"
    using moved_image [OF assms m(3), of d] by simp
qed

lemma moved_digest_other:
  assumes "within ht n" and "within ht m" and "m \<noteq> n" and "n \<notin> set (children ht m)"
    and "n \<noteq> 1 \<longrightarrow> m \<noteq> n div 2"
  shows "node_hash_input (moved n d ht) m meta = node_hash_input ht m meta"
proof (rule hash_input_cong)
  show "nodes_count (moved n d ht) = nodes_count ht" using moved_frame by (simp add: same_frame_def)
  have img: "ni_iv (image_of (moved n d ht) k) = ni_iv (image_of ht k)
      \<and> ni_tag (image_of (moved n d ht) k) = ni_tag (image_of ht k)
      \<and> (k \<noteq> n \<longrightarrow> ni_hash (image_of (moved n d ht) k) = ni_hash (image_of ht k))" if "1 \<le> k" for k
    using moved_image [OF assms(1) that, of d] by simp
  show "ni_iv (image_of (moved n d ht) m) = ni_iv (image_of ht m)"
    "ni_tag (image_of (moved n d ht) m) = ni_tag (image_of ht m)"
    using img [of m] assms(2) by simp_all
  show "ni_flags (image_of (moved n d ht) m) = ni_flags (image_of ht m)"
    using moved_image [OF assms(1), of m d] assms(2,3,5) by auto
  fix k assume k: "k \<in> set (children ht m)"
  then have "k \<noteq> n" "1 \<le> k" using assms(2,4) by (auto simp: in_children)
  then show "ni_hash (image_of (moved n d ht) k) = ni_hash (image_of ht k)" using img by simp
qed

lemma put_node_nodes:
  "st_node (put_node i v im st) j u = (if j = i \<and> u = v then Some im else st_node st j u)"
  by (simp add: put_node_def)

lemma moved_same_block:
  assumes "within ht n" and "1 \<le> m"
  shows "same_block ht (moved n d ht) m"
  using moved_image [OF assms, of d] flag_vers_flip [OF child_flag_small]
  by (auto simp: same_block_def HTREE_NODE_COMMITTED_BLOCK_def HTREE_NODE_COMMITTED_CHILD_def)

lemma same_block_trans: "same_block h ht n \<Longrightarrow> same_block ht k n \<Longrightarrow> same_block h k n"
  by (simp add: same_block_def)

lemma same_frame_trans: "same_frame h ht \<Longrightarrow> same_frame ht k \<Longrightarrow> same_frame h k"
  by (simp add: same_frame_def)

lemma visit_dirty:
  assumes inv: "pass_inv cr S h D ht st" and can: "can_sync cr S h" and n: "within h n" "n \<notin> D"
    and D: "visited h D" and kids: "set (children h n) \<subseteq> D" and parent: "n \<noteq> 1 \<longrightarrow> n div 2 \<notin> D"
    and d: "d = cr_hash cr (node_hash_input ht n (meta_of ht n))" and S: "S st'"
    and st': "st' = put_node (n - 1) (new_slot ht n) (image_of (moved n d ht) n) st"
  shows "pass_inv cr S h (insert n D) (moved n d ht) st'"
proof -
  have frame: "same_frame h ht" using inv by (simp add: pass_inv_def)
  have cnt: "nodes_count ht = nodes_count h" and head: "ht_head ht = ht_head h"
    using frame by (simp_all add: same_frame_def)
  have nt: "within ht n" using n(1) cnt by simp
  let ?ht = "moved n d ht"
  note mframe = moved_frame [of ht n d]
  have mcnt: "nodes_count ?ht = nodes_count h" and mmeta: "ht_imeta ?ht = ht_imeta ht"
    and mslot: "counter_slot ?ht = counter_slot ht"
    using mframe cnt by (simp_all add: same_frame_def counter_slot_def)
  have self: "handled cr ?ht st' n"
  proof -
    have "digest_ok cr ?ht n"
      unfolding digest_ok_def meta_of_cong [OF mmeta] moved_digest_self [OF nt] d [symmetric]
      using moved_image [OF nt, of n d] n(1) by simp
    moreover have "(if n = 1 then 1 - counter_slot ?ht else child_vers ?ht n) = new_slot ht n"
      using moved_child_vers [OF nt, of n d] n(1) cnt mslot by (auto simp: new_slot_def)
    ultimately show ?thesis
      using moved_node [OF nt, of n d] n(1) st' put_node_nodes by (simp add: handled_def)
  qed
  have old: "handled cr ?ht st' m" if m: "within h m" "m \<in> D" for m
  proof -
    have hm: "handled cr ht st m" using inv m by (auto simp: pass_inv_def)
    have mn: "m \<noteq> n" using m n(2) by auto
    have mp: "n \<noteq> 1 \<longrightarrow> m \<noteq> n div 2" using m parent by auto
    have child: "n \<notin> set (children ht m)"
      using D m(2) n(2) children_cong [OF cnt] by (auto simp: visited_def)
    have node: "node_at ?ht m = node_at ht m" using moved_node [OF nt, of m d] m(1) mn mp by auto
    have "st_node st' (m - 1) v = st_node st (m - 1) v" for v
      using mn m(1) n(1) by (simp add: st' put_node_nodes) linarith
    moreover have "digest_ok cr ?ht m"
      using hm moved_digest_other [OF nt _ mn child mp, of d] m(1) cnt node
      by (simp add: handled_def digest_ok_def meta_of_cong [OF mmeta] image_of_def)
    moreover have "m \<noteq> 1 \<Longrightarrow> child_vers ?ht m = child_vers ht m"
      using moved_child_vers [OF nt, of m d] m(1) mn cnt by simp
    ultimately show ?thesis using hm node mslot by (auto simp: handled_def image_of_def)
  qed
  have wait: "waiting h (insert n D) ?ht m" if m: "within h m" "m \<notin> insert n D" for m
  proof -
    have wm: "waiting h D ht m" using inv m by (auto simp: pass_inv_def)
    have vers: "m \<noteq> 1 \<longrightarrow> child_vers ?ht m = child_vers h m"
      using wm moved_child_vers [OF nt, of m d] m cnt by (auto simp: waiting_def)
    show ?thesis
    proof (cases "n \<noteq> 1 \<and> m = n div 2")
      case True
      then show ?thesis using moved_node [OF nt, of m d] m vers by (auto simp: waiting_def)
    next
      case False
      then have node: "node_at ?ht m = node_at ht m" using moved_node [OF nt, of m d] m by auto
      have "n \<notin> set (children h m)" using child_parent [of n h m] m(1) False by auto
      moreover have "image_of ?ht k = image_of ht k" if "k \<in> set (children h m)" "k \<in> D" for k
      proof -
        have "k \<noteq> n" "n \<noteq> 1 \<longrightarrow> k \<noteq> n div 2" "1 \<le> k"
          using that n(2) parent m(1) by (auto simp: in_children)
        then show ?thesis using moved_image [OF nt, of k d] by auto
      qed
      ultimately show ?thesis using wm vers node by (auto simp: waiting_def image_of_def)
    qed
  qed
  have "\<exists>m. within h m \<and> m \<notin> insert n D \<and> dirty_at ?ht m" if "1 \<notin> insert n D"
  proof (intro exI [of _ "n div 2"] conjI)
    have "n \<noteq> 1" using that by auto
    then have two: "2 \<le> n" using n(1) by simp
    then show "1 \<le> n div 2" "n div 2 \<le> nodes_count h" using n(1) by simp_all
    show "n div 2 \<notin> insert n D" using parent two by auto
    show "dirty_at ?ht (n div 2)" using moved_node [OF nt, of "n div 2" d] two by simp
  qed
  moreover have "same_block h ?ht m" if "within h m" for m
    using inv that moved_same_block [OF nt, of m d] same_block_trans by (auto simp: pass_inv_def)
  ultimately show ?thesis
    using self old wait S same_frame_trans [OF frame mframe] unfolding pass_inv_def by auto
qed

section \<open>The whole traversal\<close>

lemma can_sync_protects:
  assumes "can_sync cr S h" and "pass_inv cr S h D ht st" and "within h n" and "n \<notin> D"
  shows "S (put_node (n - 1) (new_slot ht n) im st)"
proof -
  have S: "S st" and frame: "same_frame h ht" and wait: "waiting h D ht n"
    using assms(2-4) by (auto simp: pass_inv_def)
  have "counter_slot ht = counter_slot h" using frame by (simp add: counter_slot_def same_frame_def)
  then show ?thesis
    using assms(1,3) S wait unfolding can_sync_def new_slot_def waiting_def by (cases "n = 1") auto
qed

lemma sync_node_runs:
  assumes can: "can_sync cr S h" and n: "within h n" "n \<notin> D" and D: "visited h D"
    and kids: "set (children h n) \<subseteq> D" and parent: "n \<noteq> 1 \<longrightarrow> n div 2 \<notin> D"
    and root: "n = 1 \<longrightarrow> {2..nodes_count h} \<subseteq> D"
  shows "runs (pass_inv cr S h D ht) (htree_sync_node_to_storage cr n ht)
    (\<lambda>ht'. pass_inv cr S h (insert n D) ht') S"
proof (cases "\<exists>st. pass_inv cr S h D ht st")
  case True
  then obtain st0 where st0: "pass_inv cr S h D ht st0" by blast
  then have frame: "same_frame h ht" and wait: "waiting h D ht n" using n by (auto simp: pass_inv_def)
  have cnt: "nodes_count ht = nodes_count h" using frame by (simp add: same_frame_def)
  have nt: "within ht n" using n(1) cnt by simp
  have inv_S: "pass_inv cr S h D ht st \<Longrightarrow> S st" for st by (simp add: pass_inv_def)
  show ?thesis
  proof (cases "dirty_at ht n")
    case False
    then have "htree_sync_node_to_storage cr n ht = io_ret ht"
      using wait by (simp add: htree_sync_node_to_storage_def Let_def waiting_def)
    then show ?thesis
      using visit_clean [OF _ can n kids False root] by (auto intro: runs_ret)
  next
    case True
    let ?d = "cr_hash cr (node_hash_input ht n (meta_of ht n))"
    let ?ht1 = "if n \<noteq> 1 then touch_parent n ht else ht"
    have hash: "runs (pass_inv cr S h D ht) (calc_node_hash cr ?ht1 n (meta_of ht n))
        (\<lambda>d st. pass_inv cr S h D ht st \<and> d = ?d) S"
    proof -
      have "node_hash_input ?ht1 n (meta_of ht n) = node_hash_input ht n (meta_of ht n)"
        using touch_hash_input [of n ht] nt by (cases "n = 1") auto
      then show ?thesis
        using runs_hash [of "pass_inv cr S h D ht" S cr ?ht1 n "meta_of ht n"] inv_S by simp
    qed
    show ?thesis
      unfolding sync_node_eq [OF nt True] Let_def
    proof (rule runs_bind [OF hash])
      fix d
      show "runs (\<lambda>st. pass_inv cr S h D ht st \<and> d = ?d)
        (io_bind (rpc_write_node n (new_slot ht n) (image_of (moved n d ht) n)) (\<lambda>_. io_ret (moved n d ht)))
        (\<lambda>ht'. pass_inv cr S h (insert n D) ht') S"
      proof (rule runs_bind)
        let ?put = "put_node (n - 1) (new_slot ht n) (image_of (moved n d ht) n)"
        show "runs (\<lambda>st. pass_inv cr S h D ht st \<and> d = ?d)
            (rpc_write_node n (new_slot ht n) (image_of (moved n d ht) n))
            (\<lambda>_. pass_inv cr S h (insert n D) (moved n d ht)) S"
          unfolding rpc_write_node_def
        proof (rule runs_write)
          fix st assume st: "pass_inv cr S h D ht st \<and> d = ?d"
          then show "S st" "S (?put st)"
            using inv_S can_sync_protects [OF can _ n] by auto
          then show "pass_inv cr S h (insert n D) (moved n d ht) (?put st)"
            using visit_dirty [OF _ can n D kids parent _ _ refl] st by blast
        qed
        show "runs (pass_inv cr S h (insert n D) (moved n d ht)) (io_ret (moved n d ht))
            (\<lambda>ht'. pass_inv cr S h (insert n D) ht') S"
          by (rule runs_ret)
      qed
    qed
  qed
qed (simp add: runs_def)

text \<open>Every prefix of the order is closed downwards and has not reached the parent yet.\<close>

lemma order_step:
  assumes "in_order k order" and "set order = {1..k}" and "order = xs @ n # ys" and "nodes_count h = k"
  shows "within h n" and "n \<notin> set xs" and "visited h (set xs)" and "set (children h n) \<subseteq> set xs"
    and "n \<noteq> 1 \<longrightarrow> n div 2 \<notin> set xs" and "n = 1 \<longrightarrow> {2..nodes_count h} \<subseteq> set xs"
proof -
  have at: "m \<notin> set us \<and> (\<forall>c. c div 2 = m \<and> c \<noteq> 1 \<and> c \<le> k \<longrightarrow> c \<in> set us)" if "order = us @ m # vs" for us m vs
    using assms(1) that unfolding in_order_def by blast
  have mem: "n \<in> {1..k}" "set xs \<subseteq> {1..k}" using assms(2,3) by auto
  show "within h n" using mem(1) assms(4) by simp
  show "n \<notin> set xs" using at [OF assms(3)] by simp
  show kids: "set (children h n) \<subseteq> set xs"
    using at [OF assms(3)] child_parent [of _ h n] mem(1) assms(4) by (auto simp: in_children)
  have closed: "c \<in> set xs" if m: "m \<in> set xs" "c \<in> set (children h m)" for m c
  proof -
    obtain us vs where us: "xs = us @ m # vs" using split_list [OF m(1)] by blast
    then have "order = us @ m # (vs @ n # ys)" using assms(3) by simp
    from at [OF this] have "c \<in> set us"
      using child_parent [OF m(2)] m(2) mem(2) m(1) assms(4) by (auto simp: in_children)
    then show ?thesis using us by simp
  qed
  then show "visited h (set xs)" using mem(2) assms(4) by (auto simp: visited_def)
  show "n \<noteq> 1 \<longrightarrow> n div 2 \<notin> set xs"
  proof (intro impI notI)
    assume "n \<noteq> 1" "n div 2 \<in> set xs"
    then have "n \<in> set xs" using closed parent_child [of n h] mem(1) assms(4) by auto
    then show False using at [OF assms(3)] by simp
  qed
  show "n = 1 \<longrightarrow> {2..nodes_count h} \<subseteq> set xs"
  proof (intro impI subsetI)
    fix m assume one: "n = 1" and m: "m \<in> {2..nodes_count h}"
    then show "m \<in> set xs"
    proof (induction m rule: less_induct)
      case (less m)
      show ?case
      proof (cases "m div 2 = 1")
        case True
        then show ?thesis using at [OF assms(3)] less.prems assms(4) by auto
      next
        case False
        then have "m div 2 \<in> {2..nodes_count h}" "m div 2 < m" using less.prems by auto
        then have "m div 2 \<in> set xs" using less by blast
        then show ?thesis using closed parent_child [of m h] less.prems by auto
      qed
    qed
  qed
qed

lemma traverse_sync_runs:
  assumes can: "can_sync cr S h" and ord: "in_order (nodes_count h) order" "set order = {1..nodes_count h}"
    and split: "order = xs @ ys"
  shows "runs (pass_inv cr S h (set xs) ht) (traverse (htree_sync_node_to_storage cr) ys ht)
    (\<lambda>ht'. pass_inv cr S h (set order) ht') S"
  using split
proof (induction ys arbitrary: xs ht)
  case Nil
  then show ?case by (auto intro: runs_ret)
next
  case (Cons n ys)
  note step = order_step [OF ord Cons.prems refl]
  have "set (xs @ [n]) = insert n (set xs)" by simp
  then have tail: "runs (pass_inv cr S h (insert n (set xs)) ht1)
      (traverse (htree_sync_node_to_storage cr) ys ht1) (\<lambda>ht'. pass_inv cr S h (set order) ht') S" for ht1
    using Cons.IH [of "xs @ [n]" ht1] Cons.prems by simp
  show ?case
    unfolding traverse.simps
    by (rule runs_bind [OF sync_node_runs [OF can step] tail])
qed

text \<open>The tree after the traversal: all nodes are handled.\<close>

lemma traversal_runs:
  assumes can: "can_sync cr S h"
  shows "runs S (htree_traverse_post_order (htree_sync_node_to_storage cr) h)
    (\<lambda>ht st. S st \<and> same_frame h ht \<and> (\<forall>n. within h n \<longrightarrow> same_block h ht n \<and> handled cr ht st n)) S"
proof -
  let ?order = "post_order (nodes_count h) 1"
  have start: "pass_inv cr S h {} h st" if "S st" for st
    using that can unfolding pass_inv_def can_sync_def
    by (auto simp: same_frame_def same_block_def waiting_def)
  have "runs (pass_inv cr S h (set []) h) (traverse (htree_sync_node_to_storage cr) ?order h)
      (\<lambda>ht'. pass_inv cr S h (set ?order) ht') S"
    by (rule traverse_sync_runs [OF can in_order_post_order set_traversal]) simp_all
  then show ?thesis
    unfolding htree_traverse_post_order_def set_traversal
    by (rule runs_weaken) (use start in \<open>auto simp: pass_inv_def\<close>)
qed

end
