(* ===== verification/FsAtomic.thy ===== *)
theory FsAtomic
  imports FsSync
begin

text \<open>
  Committing a tree, writing blocks, and the life of a file through writes, commits and crashes:
  what is found after a crash is what was last committed (or, if the crash hit a commit, what
  it was committing).
\<close>

section \<open>Committing\<close>

text \<open>
  What is relied on of the cryptographic library and the key manager: decryption undoes encryption
  and keeps the length.
\<close>

definition crypto_ok :: "fs_crypto \<Rightarrow> bool" where
  "crypto_ok cr \<longleftrightarrow> (\<forall>k a p. case cr_enc cr k a p of (c, t) \<Rightarrow> length c = length p \<and> cr_dec cr k a c t = Some p)
     \<and> (\<forall>u f. cr_fek_dec cr u (cr_fek_enc cr u f) = f)"

text \<open>\<open>ht\<close> is what a commit makes of \<open>h\<close>, with all nodes in place but the header not yet written.\<close>

definition commits :: "fs_crypto \<Rightarrow> htree \<Rightarrow> htree \<Rightarrow> storage \<Rightarrow> bool" where
  "commits cr h ht st \<longleftrightarrow> nodes_count ht = nodes_count h \<and> ht_imeta ht = ht_imeta h \<and> ht_uuid ht = ht_uuid h
     \<and> ht_fek ht = ht_fek h \<and> im_enc_fek (ht_head ht) = im_enc_fek (ht_head h)
     \<and> im_counter (ht_head ht) = im_counter (ht_head h) + 1 \<and> \<not> ht_dirty ht
     \<and> (\<forall>n. within h n \<longrightarrow> same_block h ht n \<and> \<not> dirty_at ht n \<and> \<not> nd_block_updated (node_at ht n)
          \<and> digest_ok cr ht n)
     \<and> head_ok cr ht \<and> nodes_stored ht st"

lemma next_slot:
  assumes "im_counter (ht_head ht) = im_counter (ht_head h) + 1" and "unat (im_counter (ht_head h)) < 2 ^ 32 - 1"
  shows "counter_slot ht = 1 - counter_slot h" and "im_counter (ht_head h) < im_counter (ht_head ht)"
proof -
  have u: "unat (im_counter (ht_head ht)) = unat (im_counter (ht_head h)) + 1"
    using assms unat_add_exact [of "im_counter (ht_head h)" 1] by simp
  show "counter_slot ht = 1 - counter_slot h"
    by (simp add: counter_slot_def u mod_Suc)
  show "im_counter (ht_head h) < im_counter (ht_head ht)" using u by (simp add: word_less_nat_alt)
qed

lemma new_head_commits:
  assumes cr: "crypto_ok cr" and fek: "ht_fek h = cr_fek_dec cr (ht_uuid h) (im_enc_fek (ht_head h))"
    and cnt: "unat (im_counter (ht_head h)) < 2 ^ 32 - 1" and one: "1 \<le> nodes_count h"
    and frame: "same_frame h ht" and nodes: "\<And>n. within h n \<Longrightarrow> same_block h ht n \<and> handled cr ht st n"
    and ht1: "ht1 = ht\<lparr>ht_head := (ht_head ht)\<lparr>im_counter := im_counter (ht_head ht) + 1, im_iv := iv\<rparr>\<rparr>"
    and enc: "(crypt, tag) = cr_enc cr (ht_fek ht1) (authenc_aad ht1 None) (imeta_bytes (ht_imeta ht1))"
  shows "commits cr h (ht1\<lparr>ht_head := (ht_head ht1)\<lparr>im_tag := tag, im_imeta := crypt\<rparr>, ht_dirty := False\<rparr>) st"
    (is "commits cr h ?ht st")
proof -
  have node: "node_at ?ht n = node_at ht n" "image_of ?ht n = image_of ht n" for n
    by (simp_all add: ht1 node_at_def image_of_def)
  have count: "nodes_count ?ht = nodes_count ht" by (simp add: ht1 nodes_count_def)
  have vers: "child_vers ?ht n = child_vers ht n" for n by (simp add: child_vers_def node)
  have input: "node_hash_input ?ht n m = node_hash_input ht n m" for n m
    by (rule hash_input_cong) (simp_all add: count node)
  have meta: "meta_of ?ht n = meta_of ht n" for n by (simp add: meta_of_def ht1)
  have dig: "digest_ok cr ?ht n \<longleftrightarrow> digest_ok cr ht n" for n by (simp add: digest_ok_def node input meta)
  have same: "ht_head ht = ht_head h" "ht_fek ht = ht_fek h" "ht_imeta ht = ht_imeta h"
    "ht_uuid ht = ht_uuid h" "nodes_count ht = nodes_count h"
    using frame by (simp_all add: same_frame_def)
  have aad: "authenc_aad ?ht None = authenc_aad ht1 None"
    by (simp add: authenc_aad_def node_at_def ht1)
  have len: "length crypt = 16" and dec: "cr_dec cr (ht_fek ht1) (authenc_aad ht1 None) crypt tag
      = Some (imeta_bytes (ht_imeta ht1))"
    using cr enc unfolding crypto_ok_def by (metis (mono_tags, lifting) case_prodD length_imeta_bytes)+
  have head: "head_ok cr ?ht"
    unfolding head_ok_def aad using len dec fek same by (simp add: ht1)
  have slot: "counter_slot ?ht = 1 - counter_slot ht"
    using next_slot(1) [of ?ht h] cnt same(1) by (simp add: ht1 counter_slot_def)
  have stored: "st_node st (n - 1) (if n = 1 then 1 - counter_slot ht else child_vers ht n) = Some (image_of ht n)"
    if "within h n" for n using nodes [OF that] by (simp add: handled_def)
  have below: "st_node st (n - 1) (child_vers ht n) = Some (image_of ht n)"
    if "2 \<le> n" "n \<le> nodes_count h" for n
  proof -
    have "n \<noteq> 1" using that(1) by simp
    then show ?thesis using stored [of n] that by simp
  qed
  have "nodes_stored ?ht st"
    unfolding nodes_stored_def slot vers node count same
    using stored [of 1] below one by simp
  then show ?thesis
    using nodes head dig node count same
    by (auto simp: commits_def handled_def ht1 same_block_def)
qed

text \<open>The header's part: \<open>R\<close> holds after the traversal.\<close>

lemma update_root_runs:
  assumes cr: "crypto_ok cr" and fek: "ht_fek h = cr_fek_dec cr (ht_uuid h) (im_enc_fek (ht_head h))"
    and cnt: "unat (im_counter (ht_head h)) < 2 ^ 32 - 1" and one: "1 \<le> nodes_count h"
    and E: "\<And>st. S st \<Longrightarrow> E st"
  shows "runs (\<lambda>st. S st \<and> same_frame h ht \<and> (\<forall>n. within h n \<longrightarrow> same_block h ht n \<and> handled cr ht st n))
    (update_root cr ht) (\<lambda>ht2 st. S st \<and> commits cr h (ht2\<lparr>ht_dirty := False\<rparr>) st) E"
  unfolding update_root_def Let_def
  apply (rule runs_bind [OF runs_rng], simp add: E)
  apply (rule runs_bind [OF runs_authenc_init], simp add: E)
  apply (rule runs_bind [OF runs_encrypt], simp add: E)
  subgoal for iv a x
  proof (cases x)
    case (Pair crypt tag)
    show ?thesis
      unfolding Pair prod.case
      by (rule runs_ret) (use new_head_commits [OF cr fek cnt one _ _ refl, of ht _ crypt tag iv] in auto)
  qed
  done

lemma sync_dirty_runs:
  assumes can: "can_sync cr S h" and cr: "crypto_ok cr"
    and fek: "ht_fek h = cr_fek_dec cr (ht_uuid h) (im_enc_fek (ht_head h))"
    and cnt: "unat (im_counter (ht_head h)) < 2 ^ 32 - 1"
  defines "new \<equiv> \<lambda>ht st. \<exists>st0. S st0 \<and> commits cr h ht st0 \<and> st = put_head (counter_slot ht) (ht_head ht) st0"
  shows "runs S (sync_dirty cr h) (\<lambda>(ht, d) st. new ht st \<and> d = ni_hash (image_of ht 1))
    (\<lambda>st. S st \<or> (\<exists>ht. new ht st))"
proof -
  let ?E = "\<lambda>st. S st \<or> (\<exists>ht. new ht st)"
  have one: "1 \<le> nodes_count h" using can by (simp add: can_sync_def)
  have trav: "runs S (htree_traverse_post_order (htree_sync_node_to_storage cr) h)
      (\<lambda>ht st. S st \<and> same_frame h ht \<and> (\<forall>n. within h n \<longrightarrow> same_block h ht n \<and> handled cr ht st n)) ?E"
    by (rule runs_weaken [OF traversal_runs [OF can]]) simp_all
  have "runs (\<lambda>st. S st \<and> commits cr h (ht2\<lparr>ht_dirty := False\<rparr>) st)
      (rpc_write_head (unat (im_counter (ht_head ht2)) mod 2) (ht_head ht2))
      (\<lambda>_. new (ht2\<lparr>ht_dirty := False\<rparr>)) ?E" for ht2 :: htree
  proof -
    let ?c = "ht2\<lparr>ht_dirty := False\<rparr>"
    have slot: "unat (im_counter (ht_head ht2)) mod 2 = counter_slot ?c" by (simp add: counter_slot_def)
    have "new ?c (put_head (counter_slot ?c) (ht_head ht2) st)" if "S st \<and> commits cr h ?c st" for st
      unfolding new_def using that by (intro exI [of _ st]) simp
    then show ?thesis unfolding slot rpc_write_head_def by (intro runs_write) blast+
  qed
  then show ?thesis
    unfolding sync_dirty_def
    apply (intro runs_bind [OF trav])
    apply (rule runs_bind [OF update_root_runs [OF cr fek cnt one]], simp)
    apply (rule runs_bind)
     apply assumption
    by (rule runs_ret) (simp add: image_of_def node_at_def)
qed

section \<open>The tree in memory and the last commit\<close>

text \<open>
  \<open>mem_tracks c ht\<close>: \<open>ht\<close> is \<open>c\<close> with changes. A clean node is as committed; the flags say where
  the committed children are, and where the committed block is up to \<open>nd_block_updated\<close>; added
  nodes are dirty.
\<close>

definition node_tracks :: "htree \<Rightarrow> htree \<Rightarrow> nat \<Rightarrow> bool" where
  "node_tracks c ht n \<longleftrightarrow> (\<not> dirty_at ht n \<longrightarrow> image_of ht n = image_of c n)
     \<and> (\<forall>b < 2. flag_vers (HTREE_NODE_COMMITTED_CHILD b) (image_of ht n)
          = flag_vers (HTREE_NODE_COMMITTED_CHILD b) (image_of c n))
     \<and> flag_vers HTREE_NODE_COMMITTED_BLOCK (image_of ht n) =
         (if nd_block_updated (node_at ht n) then 1 - flag_vers HTREE_NODE_COMMITTED_BLOCK (image_of c n)
          else flag_vers HTREE_NODE_COMMITTED_BLOCK (image_of c n))"

definition mem_tracks :: "htree \<Rightarrow> htree \<Rightarrow> bool" where
  "mem_tracks c ht \<longleftrightarrow> shape_ok ht \<and> nodes_count c \<le> nodes_count ht \<and> ht_head ht = ht_head c
     \<and> ht_fek ht = ht_fek c \<and> ht_uuid ht = ht_uuid c
     \<and> (\<forall>n. within c n \<longrightarrow> node_tracks c ht n)
     \<and> (\<forall>n. nodes_count c < n \<and> n \<le> nodes_count ht \<longrightarrow> dirty_at ht n)
     \<and> (\<forall>n. within ht n \<and> nd_block_updated (node_at ht n) \<longrightarrow> dirty_at ht n)
     \<and> (meta_length (ht_imeta ht) \<noteq> meta_length (ht_imeta c) \<longrightarrow> dirty_at ht 1)
     \<and> (if ht_dirty ht then \<exists>n. within ht n \<and> dirty_at ht n else ht = c)"

lemma count_pos: "shape_ok ht \<Longrightarrow> 1 \<le> nodes_count ht"
  by (simp add: shape_ok_def)

lemma mem_tracks_refl: "tree_valid cr c \<Longrightarrow> mem_tracks c c"
  by (auto simp: mem_tracks_def tree_valid_def settled_def node_tracks_def)

lemma tracks_child_vers:
  assumes "mem_tracks c ht" and "2 \<le> n" and "n \<le> nodes_count c"
  shows "child_vers ht n = child_vers c n"
proof -
  have "within c (n div 2)" using assms(2,3) by auto
  then have "node_tracks c ht (n div 2)" using assms(1) unfolding mem_tracks_def by blast
  moreover have "n mod 2 < 2" by simp
  ultimately show ?thesis unfolding child_vers_def node_tracks_def by blast
qed

lemma put_node_frame [simp]:
  "st_head (put_node i v im st) = st_head st" "st_block (put_node i v im st) = st_block st"
  by (simp_all add: put_node_def)

lemma stored_put_node:
  assumes "stored c blk st" and "i = 0 \<longrightarrow> v \<noteq> counter_slot c"
    and "1 \<le> i \<and> i < nodes_count c \<longrightarrow> v \<noteq> child_vers c (Suc i)"
  shows "stored c blk (put_node i v im st)"
proof -
  have "st_node (put_node i v im st) (n - 1) (child_vers c n) = st_node st (n - 1) (child_vers c n)"
    if "2 \<le> n" "n \<le> nodes_count c" for n
    using that assms(3) by (auto simp: put_node_nodes)
  moreover have "st_node (put_node i v im st) 0 (counter_slot c) = st_node st 0 (counter_slot c)"
    using assms(2) by (auto simp: put_node_nodes)
  ultimately show ?thesis using assms(1) by (simp add: stored_def heads_stored_def nodes_stored_def)
qed

text \<open>What must stay while \<open>ht\<close> is being committed: the last commit, all blocks and all headers.\<close>

definition keeps :: "htree \<Rightarrow> (nat \<Rightarrow> bytes option) \<Rightarrow> storage \<Rightarrow> storage \<Rightarrow> bool" where
  "keeps c blk st0 st \<longleftrightarrow> stored c blk st \<and> st_head st = st_head st0 \<and> st_block st = st_block st0"

lemma flip_01: "flag_vers b im = flag_vers b im' \<Longrightarrow> 1 - flag_vers b im \<noteq> flag_vers b im'"
  using flag_vers_01 [of b im] by auto

lemma tracks_can_sync:
  assumes valid: "tree_valid cr c" and mem: "mem_tracks c ht" and dirty: "ht_dirty ht"
  shows "can_sync cr (keeps c blk st0) ht"
  unfolding can_sync_def
proof (intro conjI allI impI)
  show one: "1 \<le> nodes_count ht" using mem count_pos by (simp add: mem_tracks_def)
  show "\<exists>n. within ht n \<and> dirty_at ht n" using mem dirty by (simp add: mem_tracks_def)
  fix n assume "within ht n" "nd_block_updated (node_at ht n)"
  then show "dirty_at ht n" using mem by (simp add: mem_tracks_def)
next
  fix n im st assume n: "2 \<le> n \<and> n \<le> nodes_count ht" and k: "keeps c blk st0 st"
  have "1 - child_vers ht n \<noteq> child_vers c (Suc (n - 1))" if "n - 1 < nodes_count c"
  proof -
    have eq: "child_vers ht n = child_vers c n" using tracks_child_vers [OF mem] n that by simp
    have "Suc (n - 1) = n" using n by simp
    then show ?thesis using eq flip_01 by (simp add: child_vers_def)
  qed
  then show "keeps c blk st0 (put_node (n - 1) (1 - child_vers ht n) im st)"
    using k n stored_put_node [of c blk st "n - 1"] by (auto simp: keeps_def)
next
  fix im st assume k: "keeps c blk st0 st"
  have "counter_slot ht = counter_slot c" using mem by (simp add: mem_tracks_def counter_slot_def)
  then have "1 - counter_slot ht \<noteq> counter_slot c" using slot_cases [of c] by auto
  then show "keeps c blk st0 (put_node 0 (1 - counter_slot ht) im st)"
    using k stored_put_node [of c blk st 0] by (simp add: keeps_def)
next
  fix n st assume n: "2 \<le> n \<and> n \<le> nodes_count ht \<and> \<not> dirty_at ht n" and k: "keeps c blk st0 st"
  then have nc: "n \<le> nodes_count c" using mem by (auto simp: mem_tracks_def not_le)
  then have "node_tracks c ht n" using mem n by (auto simp: mem_tracks_def)
  then show "st_node st (n - 1) (child_vers ht n) = Some (image_of ht n)"
    using tracks_child_vers [OF mem _ nc] k n nc
    by (auto simp: keeps_def stored_def nodes_stored_def node_tracks_def)
next
  fix n assume n: "within ht n \<and> \<not> dirty_at ht n \<and> (\<forall>m \<in> set (children ht n). \<not> dirty_at ht m)"
  have small: "m \<le> nodes_count c \<and> image_of ht m = image_of c m" if "within ht m" "\<not> dirty_at ht m" for m
  proof -
    have "m \<le> nodes_count c" using mem that by (auto simp: mem_tracks_def not_le)
    then show ?thesis using mem that by (auto simp: mem_tracks_def node_tracks_def)
  qed
  have kid: "m \<le> nodes_count c \<and> image_of ht m = image_of c m" if "m \<in> set (children ht n)" for m
    using small [of m] that n by (auto simp: in_children)
  have kids: "children ht n = children c n"
    using kid n mem unfolding children_def mem_tracks_def
    by (intro filter_cong refl) (auto simp: in_children)
  have "node_hash_input ht n (meta_of ht n) = node_hash_input c n (meta_of c n)"
  proof -
    have "meta_of ht n = meta_of c n" using n mem by (auto simp: meta_of_def mem_tracks_def)
    moreover have "map (\<lambda>k. ni_hash (nd_image (node_at ht k))) (children c n)
        = map (\<lambda>k. ni_hash (nd_image (node_at c k))) (children c n)"
    proof (intro map_cong refl)
      fix k assume "k \<in> set (children c n)"
      then show "ni_hash (nd_image (node_at ht k)) = ni_hash (nd_image (node_at c k))"
        using kid [of k] kids by (simp add: image_of_def)
    qed
    ultimately show ?thesis using small [of n] n kids
      by (simp add: node_hash_input_def Let_def image_of_def)
  qed
  moreover have "digest_ok cr c n" using valid small [of n] n by (auto simp: tree_valid_def)
  ultimately show "digest_ok cr ht n" using small [of n] n by (simp add: digest_ok_def)
qed

section \<open>Contents\<close>

definition decode ::
    "fs_crypto \<Rightarrow> nat \<Rightarrow> 128 word \<Rightarrow> aad \<Rightarrow> 128 word \<Rightarrow> bytes option \<Rightarrow> bytes option" where
  "decode cr block_size key a tag e =
     (case e of None \<Rightarrow> None
      | Some c \<Rightarrow>
          if length c \<noteq> block_size then None
          else case cr_dec cr key a c tag of
                 None \<Rightarrow> None | Some p \<Rightarrow> if length p \<noteq> length c then None else Some p)"

definition contents :: "fs_crypto \<Rightarrow> nat \<Rightarrow> htree \<Rightarrow> storage \<Rightarrow> nat \<Rightarrow> bytes option" where
  "contents cr block_size ht st num =
     (if num < nodes_count ht then
        decode cr block_size (ht_fek ht) (authenc_aad ht (Some (ni_iv (image_of ht (Suc num)))))
          (ni_tag (image_of ht (Suc num))) (st_block st num (block_vers ht num))
      else None)"

text \<open>What a file holds: its length, the number of its blocks, and the blocks.\<close>

type_synonym snapshot = "64 word \<times> nat \<times> (nat \<Rightarrow> bytes option)"

definition snapshot_of :: "fs_crypto \<Rightarrow> nat \<Rightarrow> htree \<Rightarrow> storage \<Rightarrow> snapshot" where
  "snapshot_of cr block_size ht st =
     (meta_length (ht_imeta ht), nodes_count ht, contents cr block_size ht st)"

lemma contents_cong:
  assumes "nodes_count h = nodes_count ht" and "ht_fek h = ht_fek ht"
    and "im_enc_fek (ht_head h) = im_enc_fek (ht_head ht)"
    and "\<And>n. within ht n \<Longrightarrow> same_block h ht n" and "st_block st = st_block st'"
  shows "contents cr bs h st = contents cr bs ht st'"
proof
  fix num
  show "contents cr bs h st num = contents cr bs ht st' num"
  proof (cases "num < nodes_count ht")
    case True
    then have "same_block h ht (Suc num)" using assms(4) by simp
    then show ?thesis using assms(1-3,5) True
      by (simp add: contents_def block_vers_def same_block_def authenc_aad_def)
  qed (simp add: contents_def assms(1))
qed

lemma read_block_calm:
  assumes "calm w" and "shape_ok ht" and "contents cr bs ht (w_stor w) num = Some b"
  shows "tee_fs_htree_read_block cr bs (Some ht) num w = (Ok (ht, b), Some ht, w)"
proof -
  have num: "num < nodes_count ht" using assms(3) by (simp add: contents_def split: if_splits)
  then have get: "get_node False (Suc num) ht = io_ret ht"
    using get_node_present [of "Suc num" ht False] assms(2) by (auto simp: shape_ok_def)
  obtain e where e: "st_block (w_stor w) num (flag_vers HTREE_NODE_COMMITTED_BLOCK (image_of ht (Suc num))) = Some e"
    "length e = bs" "cr_dec cr (ht_fek ht) (authenc_aad ht (Some (ni_iv (image_of ht (Suc num))))) e
      (ni_tag (image_of ht (Suc num))) = Some b" "length b = length e"
    using assms(3) num
    by (auto simp: contents_def decode_def block_vers_def split: option.splits if_splits)
  then show ?thesis
    using assms(1)
    by (simp add: tee_fs_htree_read_block_def closing_def read_block_def BLOCK_NUM_TO_NODE_ID_def
        get io_bind_def io_ret_def Let_def image_of_def authenc_decrypt_final_def)
qed

section \<open>Writing a block\<close>

text \<open>The tree in which \<open>write_block\<close> finds or makes the node of block \<open>num\<close>.\<close>

definition prepared :: "nat \<Rightarrow> htree \<Rightarrow> htree" where
  "prepared num ht = (if num < nodes_count ht then ht else grow ht)"

lemma prepared_frame [simp]:
  "ht_head (prepared num ht) = ht_head ht" "ht_fek (prepared num ht) = ht_fek ht"
  "ht_uuid (prepared num ht) = ht_uuid ht" "ht_dirty (prepared num ht) = ht_dirty ht"
  "meta_length (ht_imeta (prepared num ht)) = meta_length (ht_imeta ht)"
  by (simp_all add: prepared_def grow_def Let_def)

lemma prepared_nodes:
  assumes "num \<le> nodes_count ht"
  shows "nodes_count (prepared num ht) = max (nodes_count ht) (Suc num)"
    and "1 \<le> n \<Longrightarrow> n \<le> nodes_count ht \<Longrightarrow> node_at (prepared num ht) n = node_at ht n"
proof -
  have nodes: "ht_nodes (prepared num ht) = (if num < nodes_count ht then ht_nodes ht else ht_nodes ht @ [zero_node])"
    by (simp add: prepared_def grow_def Let_def)
  then show "nodes_count (prepared num ht) = max (nodes_count ht) (Suc num)"
    using assms by (auto simp: nodes_count_def max_def)
  show "1 \<le> n \<Longrightarrow> n \<le> nodes_count ht \<Longrightarrow> node_at (prepared num ht) n = node_at ht n"
    using nodes by (auto simp: node_at_def nodes_count_def nth_append)
qed

lemma prepared_shape:
  assumes "shape_ok ht" and "num \<le> nodes_count ht" and "Suc num < 2 ^ 32 - 1"
  shows "shape_ok (prepared num ht)"
proof (cases "num < nodes_count ht")
  case False
  then have num: "num = nodes_count ht" using assms(2) by simp
  have max: "nodes_count ht = max 1 (unat (max_node_id (ht_imeta ht)))" using assms(1) by (auto simp: shape_ok_def)
  have "unat (word_of_nat (Suc num) :: 32 word) = Suc num" using assms(3) by (intro unat_of_nat_exact) simp
  moreover have "unat (max_node_id (ht_imeta ht)) \<le> max 1 (unat (max_node_id (ht_imeta ht)))" by simp
  then have "unat (max_node_id (ht_imeta ht)) < Suc num" using num max by linarith
  then have "max_node_id (ht_imeta (prepared num ht)) = word_of_nat (Suc num)"
    using False by (simp add: prepared_def grow_def Let_def num [symmetric])
  moreover have "nodes_count (prepared num ht) = Suc num"
    using prepared_nodes(1) [OF assms(2)] num by simp
  ultimately show ?thesis using assms(3) by (simp add: shape_ok_def)
qed (use assms in \<open>simp add: prepared_def\<close>)

lemma get_node_runs:
  assumes "shape_ok ht" and "num \<le> nodes_count ht" and "Suc num < 2 ^ 32 - 1" and "\<And>st. P st \<Longrightarrow> E st"
  shows "runs P (get_node True (Suc num) ht) (\<lambda>h st. P st \<and> h = prepared num ht) E"
proof (cases "num < nodes_count ht")
  case True
  then have "get_node True (Suc num) ht = io_ret ht"
    using get_node_present [of "Suc num" ht] assms(1) by (auto simp: shape_ok_def)
  then show ?thesis using True by (auto intro!: runs_ret simp: prepared_def)
next
  case False
  then have "get_node True (Suc num) ht = io_bind io_call (\<lambda>_. io_ret (grow ht))"
    using get_node_next [of "Suc num" ht] count_pos [OF assms(1)] assms(2,3) by simp
  then show ?thesis
    using False assms(4)
    by (auto intro!: runs_bind [OF runs_call] runs_ret simp: prepared_def)
qed

text \<open>The tree and the storage after block \<open>num\<close> has been written.\<close>

definition block_image :: "nat \<Rightarrow> htree \<Rightarrow> node_image" where
  "block_image num ht1 = (let nd = node_at ht1 (Suc num) in
     if \<not> nd_block_updated nd then flip_flag HTREE_NODE_COMMITTED_BLOCK (nd_image nd) else nd_image nd)"

definition block_written :: "nat \<Rightarrow> 128 word \<Rightarrow> 128 word \<Rightarrow> htree \<Rightarrow> htree" where
  "block_written num iv tag ht = (let ht1 = prepared num ht
     in (set_node (Suc num) \<lparr>nd_image = (block_image num ht1)\<lparr>ni_iv := iv, ni_tag := tag\<rparr>, nd_dirty = True,
           nd_block_updated = True\<rparr> ht1)\<lparr>ht_dirty := True\<rparr>)"

lemma block_written_frame [simp]:
  "ht_head (block_written num iv tag ht) = ht_head ht" "ht_fek (block_written num iv tag ht) = ht_fek ht"
  "ht_uuid (block_written num iv tag ht) = ht_uuid ht" "ht_dirty (block_written num iv tag ht) = True"
  "meta_length (ht_imeta (block_written num iv tag ht)) = meta_length (ht_imeta ht)"
  "ht_imeta (block_written num iv tag ht) = ht_imeta (prepared num ht)"
  "nodes_count (block_written num iv tag ht) = nodes_count (prepared num ht)"
  by (simp_all add: block_written_def Let_def nodes_count_def set_node_def)

lemma block_written_node:
  assumes "num \<le> nodes_count ht" and "1 \<le> n" and "n \<le> nodes_count (prepared num ht)"
  shows "node_at (block_written num iv tag ht) n =
    (if n = Suc num
     then \<lparr>nd_image = (block_image num (prepared num ht))\<lparr>ni_iv := iv, ni_tag := tag\<rparr>, nd_dirty = True,
            nd_block_updated = True\<rparr>
     else node_at ht n)"
proof -
  have "Suc num \<le> nodes_count (prepared num ht)" using prepared_nodes(1) [OF assms(1)] by simp
  from node_at_set [OF _ this assms(2)]
  have "node_at (block_written num iv tag ht) n = (if n = Suc num
     then \<lparr>nd_image = (block_image num (prepared num ht))\<lparr>ni_iv := iv, ni_tag := tag\<rparr>, nd_dirty = True,
            nd_block_updated = True\<rparr> else node_at (prepared num ht) n)"
    by (simp add: block_written_def Let_def node_at_def)
  moreover have "n \<noteq> Suc num \<Longrightarrow> n \<le> nodes_count ht"
    using assms prepared_nodes(1) [OF assms(1)] by (auto simp: max_def split: if_splits)
  ultimately show ?thesis using prepared_nodes(2) [OF assms(1,2)] by auto
qed

lemma block_image_tracks:
  assumes "mem_tracks c ht" and "num < nodes_count c"
  shows "flag_vers HTREE_NODE_COMMITTED_BLOCK (block_image num (prepared num ht))
      = 1 - flag_vers HTREE_NODE_COMMITTED_BLOCK (image_of c (Suc num))"
    and "b < 2 \<Longrightarrow> flag_vers (HTREE_NODE_COMMITTED_CHILD b) (block_image num (prepared num ht))
      = flag_vers (HTREE_NODE_COMMITTED_CHILD b) (image_of c (Suc num))"
proof -
  have le: "num < nodes_count ht" using assms by (simp add: mem_tracks_def)
  have node: "node_tracks c ht (Suc num)" using assms by (simp add: mem_tracks_def)
  have small: "HTREE_NODE_COMMITTED_BLOCK < 16" by (simp add: HTREE_NODE_COMMITTED_BLOCK_def)
  have ne: "HTREE_NODE_COMMITTED_CHILD b \<noteq> HTREE_NODE_COMMITTED_BLOCK"
    by (simp add: HTREE_NODE_COMMITTED_BLOCK_def HTREE_NODE_COMMITTED_CHILD_def)
  have img: "block_image num (prepared num ht) = (if nd_block_updated (node_at ht (Suc num)) then image_of ht (Suc num)
      else flip_flag HTREE_NODE_COMMITTED_BLOCK (image_of ht (Suc num)))"
    using prepared_nodes(2) [of num ht "Suc num"] le by (simp add: block_image_def Let_def image_of_def)
  show "flag_vers HTREE_NODE_COMMITTED_BLOCK (block_image num (prepared num ht))
      = 1 - flag_vers HTREE_NODE_COMMITTED_BLOCK (image_of c (Suc num))"
    using node flag_vers_flip [OF small] by (simp add: img node_tracks_def)
  show "b < 2 \<Longrightarrow> flag_vers (HTREE_NODE_COMMITTED_CHILD b) (block_image num (prepared num ht))
      = flag_vers (HTREE_NODE_COMMITTED_CHILD b) (image_of c (Suc num))"
    using node flag_vers_flip [OF small] ne by (simp add: img node_tracks_def)
qed

lemma block_written_tracks:
  assumes mem: "mem_tracks c ht" and num: "num \<le> nodes_count ht" "Suc num < 2 ^ 32 - 1"
  shows "mem_tracks c (block_written num iv tag ht)"
proof -
  let ?ht = "block_written num iv tag ht"
  have cnt: "nodes_count ?ht = max (nodes_count ht) (Suc num)" using prepared_nodes(1) [OF num(1)] by simp
  have node: "node_at ?ht n = (if n = Suc num
     then \<lparr>nd_image = (block_image num (prepared num ht))\<lparr>ni_iv := iv, ni_tag := tag\<rparr>, nd_dirty = True,
            nd_block_updated = True\<rparr> else node_at ht n)" if "within ?ht n" for n
    using block_written_node [OF num(1), of n iv tag] that by simp
  have "shape_ok ht" using mem by (simp add: mem_tracks_def)
  then have "shape_ok (prepared num ht)" by (rule prepared_shape [OF _ num])
  then have "shape_ok ?ht" by (auto simp: shape_ok_def)
  moreover have "nodes_count c \<le> nodes_count ?ht" using mem cnt by (auto simp: mem_tracks_def)
  moreover have "node_tracks c ?ht n" if n: "within c n" for n
  proof (cases "n = Suc num")
    case True
    then have "num < nodes_count c" using n by simp
    from block_image_tracks [OF mem this] show ?thesis
      using node [of n] True cnt by (simp add: node_tracks_def image_of_def)
  next
    case False
    have "within ?ht n" using n cnt mem by (auto simp: mem_tracks_def)
    then have "node_at ?ht n = node_at ht n" using node False by simp
    then show ?thesis using mem n by (simp add: mem_tracks_def node_tracks_def image_of_def)
  qed
  moreover have old: "n \<le> nodes_count ht \<and> node_at ?ht n = node_at ht n" if "within ?ht n" "n \<noteq> Suc num" for n
    using node [OF that(1)] that cnt num(1) by auto
  have "dirty_at ?ht n" if n: "nodes_count c < n \<and> n \<le> nodes_count ?ht" for n
  proof (cases "n = Suc num")
    case False
    then show ?thesis using old [of n] n mem by (simp add: mem_tracks_def)
  qed (use node [of n] n in simp)
  moreover have "dirty_at ?ht n" if n: "within ?ht n \<and> nd_block_updated (node_at ?ht n)" for n
  proof (cases "n = Suc num")
    case False
    then show ?thesis using old [of n] n mem by (auto simp: mem_tracks_def)
  qed (use node [of n] n in simp)
  moreover have "dirty_at ?ht 1" if "meta_length (ht_imeta ?ht) \<noteq> meta_length (ht_imeta c)"
  proof -
    have "within ?ht 1" using cnt by simp
    moreover have "dirty_at ht 1" using that mem by (simp add: mem_tracks_def)
    ultimately show ?thesis using node [of 1] by simp
  qed
  moreover have "within ?ht (Suc num) \<and> dirty_at ?ht (Suc num)" using node [of "Suc num"] cnt by simp
  ultimately show ?thesis using mem unfolding mem_tracks_def by auto
qed

lemma put_block_frame [simp]:
  "st_head (put_block i v e st) = st_head st" "st_node (put_block i v e st) = st_node st"
  by (simp_all add: put_block_def)

lemma put_block_blocks:
  "st_block (put_block i v e st) j u = (if j = i \<and> u = v then Some e else st_block st j u)"
  by (simp add: put_block_def)

lemma stored_put_block:
  assumes "stored c blk st" and "num < nodes_count c \<Longrightarrow> v \<noteq> block_vers c num"
  shows "stored c blk (put_block num v e st)"
  using assms by (auto simp: stored_def heads_stored_def nodes_stored_def put_block_blocks)

definition with_block :: "nat \<Rightarrow> bytes \<Rightarrow> snapshot \<Rightarrow> snapshot" where
  "with_block num b s = (case s of (l, k, f) \<Rightarrow> (l, max k (Suc num), f(num := Some b)))"

lemma block_written_snapshot:
  assumes cr: "crypto_ok cr" and num: "num \<le> nodes_count ht" and len: "length b = bs"
    and st: "st_block st = st_block st0"
    and enc: "(e, tag) = cr_enc cr (ht_fek ht) (authenc_aad (prepared num ht) (Some iv)) b"
    and v: "v = flag_vers HTREE_NODE_COMMITTED_BLOCK (block_image num (prepared num ht))"
  shows "snapshot_of cr bs (block_written num iv tag ht) (put_block num v e st)
    = with_block num b (snapshot_of cr bs ht st0)"
proof -
  let ?ht = "block_written num iv tag ht" and ?st = "put_block num v e st"
  have cnt: "nodes_count ?ht = max (nodes_count ht) (Suc num)" using prepared_nodes(1) [OF num] by simp
  have "contents cr bs ?ht ?st m = ((contents cr bs ht st0)(num := Some b)) m" for m
  proof (cases "m = num")
    case True
    have img: "image_of ?ht (Suc num) = (block_image num (prepared num ht))\<lparr>ni_iv := iv, ni_tag := tag\<rparr>"
      using block_written_node [OF num, of "Suc num" iv tag] cnt by (simp add: image_of_def)
    have "length e = bs" "cr_dec cr (ht_fek ht) (authenc_aad (prepared num ht) (Some iv)) e tag = Some b"
      using cr enc len unfolding crypto_ok_def by (metis (mono_tags, lifting) case_prodD)+
    moreover have "authenc_aad (prepared num ht) (Some iv) = authenc_aad ?ht (Some iv)"
      by (simp add: authenc_aad_def)
    moreover have "block_vers ?ht num = v" by (simp add: block_vers_def img v)
    ultimately show ?thesis
      using True cnt len by (simp add: contents_def img decode_def put_block_blocks)
  next
    case False
    show ?thesis
    proof (cases "m < nodes_count ht")
      case True
      have "node_at ?ht (Suc m) = node_at ht (Suc m)"
        using block_written_node [OF num, of "Suc m" iv tag] cnt True False by simp
      then have img: "image_of ?ht (Suc m) = image_of ht (Suc m)" by (simp add: image_of_def)
      have "st_block ?st m u = st_block st0 m u" for u using False st by (simp add: put_block_blocks)
      then show ?thesis using True False cnt
        by (auto simp: contents_def img block_vers_def authenc_aad_def)
    next
      case False
      then have "\<not> m < nodes_count ?ht" using \<open>m \<noteq> num\<close> cnt num by auto
      then show ?thesis using \<open>m \<noteq> num\<close> False by (simp add: contents_def)
    qed
  qed
  then show ?thesis using cnt by (auto simp: snapshot_of_def with_block_def)
qed

lemma finish_block_runs:
  assumes cr: "crypto_ok cr" and mem: "mem_tracks c ht" and num: "num \<le> nodes_count ht" "Suc num < 2 ^ 32 - 1"
    and len: "length b = bs" and h: "h = prepared num ht"
    and enc: "(e, tag) = cr_enc cr (ht_fek h) (authenc_aad h (Some iv)) b"
  shows "runs (\<lambda>st. stored c blk st \<and> st_block st = st_block st0)
    (io_bind (rpc_write_final (put_block num (flag_vers HTREE_NODE_COMMITTED_BLOCK (block_image num h)) e))
      (\<lambda>_. io_ret (block_written num iv tag ht)))
    (\<lambda>ht' st. stored c blk st \<and> mem_tracks c ht'
       \<and> snapshot_of cr bs ht' st = with_block num b (snapshot_of cr bs ht st0)) (stored c blk)"
proof -
  let ?v = "flag_vers HTREE_NODE_COMMITTED_BLOCK (block_image num h)"
  let ?Q = "\<lambda>st. stored c blk st \<and> mem_tracks c (block_written num iv tag ht)
    \<and> snapshot_of cr bs (block_written num iv tag ht) st = with_block num b (snapshot_of cr bs ht st0)"
  have safe: "stored c blk (put_block num ?v e st)" if "stored c blk st" for st
  proof (rule stored_put_block [OF that])
    assume "num < nodes_count c"
    from block_image_tracks(1) [OF mem this] show "?v \<noteq> block_vers c num"
      using flag_vers_01 [of HTREE_NODE_COMMITTED_BLOCK "image_of c (Suc num)"]
      by (auto simp: h block_vers_def)
  qed
  have enc': "(e, tag) = cr_enc cr (ht_fek ht) (authenc_aad (prepared num ht) (Some iv)) b"
    using enc by (simp add: h)
  show ?thesis
    using safe block_written_tracks [OF mem num] block_written_snapshot [OF cr num(1) len _ enc' refl, of _ st0]
    by (intro runs_bind [OF runs_write_final [where Q = ?Q]] runs_ret) (simp_all add: h)
qed

lemma write_block_runs:
  assumes cr: "crypto_ok cr" and mem: "mem_tracks c ht" and num: "num \<le> nodes_count ht" "Suc num < 2 ^ 32 - 1"
    and len: "length b = bs"
  shows "runs (\<lambda>st. stored c blk st \<and> st_block st = st_block st0) (write_block cr num b ht)
    (\<lambda>ht' st. stored c blk st \<and> mem_tracks c ht'
       \<and> snapshot_of cr bs ht' st = with_block num b (snapshot_of cr bs ht st0)) (stored c blk)"
proof -
  have shape: "shape_ok ht" using mem by (simp add: mem_tracks_def)
  show ?thesis
    unfolding write_block_def Let_def BLOCK_NUM_TO_NODE_ID_def Suc_eq_plus1 [symmetric]
    apply (rule runs_bind [OF get_node_runs [OF shape num]], simp)
    apply (rule runs_bind [OF runs_call], simp)
    apply (rule runs_bind [OF runs_rng], simp)
    apply (rule runs_bind [OF runs_authenc_init], simp)
    apply (rule runs_bind [OF runs_encrypt], simp)
    subgoal for h u iv a x
    proof (cases "h = prepared num ht \<and> a = authenc_aad h (Some iv) \<and> x = cr_enc cr (ht_fek h) a b")
      case True
      obtain e tag where x: "x = (e, tag)" by (cases x)
      then have enc: "(e, tag) = cr_enc cr (ht_fek h) (authenc_aad h (Some iv)) b" and h: "h = prepared num ht"
        using True by simp_all
      show ?thesis
        unfolding x prod.case h
        by (rule runs_weaken
            [OF finish_block_runs [OF cr mem num len h enc, of blk st0,
               unfolded block_written_def block_image_def Let_def h]]) auto
    qed (auto simp: runs_def)
    done
qed

end
