(* ===== verification/FsLife.thy ===== *)
theory FsLife
  imports FsAtomic
begin

text \<open>
  The life of a secure storage file: creating it, commits that succeed or fail, reopening it. The
  inductive relation \<open>htree_life\<close> runs the operations of \<open>FsHtree\<close> one after another, with failures
  and power losses anywhere between the calls to normal world; \<open>life_inv\<close> is its invariant.
\<close>

section \<open>A commit from memory\<close>

lemma commit_fek: "tree_valid cr c \<Longrightarrow> mem_tracks c ht \<Longrightarrow>
    ht_fek ht = cr_fek_dec cr (ht_uuid ht) (im_enc_fek (ht_head ht))"
  by (auto simp: mem_tracks_def tree_valid_def head_ok_def)

lemma commits_settled:
  assumes "commits cr h ht st" and "shape_ok h"
  shows "tree_valid cr ht"
proof -
  have "shape_ok ht" using assms by (auto simp: commits_def shape_ok_def)
  then show ?thesis
    using assms(1) by (auto simp: commits_def tree_valid_def settled_def)
qed

definition raw_blocks :: "htree \<Rightarrow> storage \<Rightarrow> nat \<Rightarrow> bytes option" where
  "raw_blocks ht st num = st_block st num (block_vers ht num)"

lemma put_head_frame [simp]:
  "st_node (put_head v im st) = st_node st" "st_block (put_head v im st) = st_block st"
  by (simp_all add: put_head_def)

lemma heads_next:
  assumes inc: "im_counter (ht_head ht) = im_counter (ht_head h) + 1"
    and cnt: "unat (im_counter (ht_head h)) < 2 ^ 32 - 1"
    and old: "st_head st (counter_slot h) = Some (ht_head h)"
  shows "heads_stored ht (put_head (counter_slot ht) (ht_head ht) st)"
proof -
  note slot = next_slot [OF inc cnt]
  have other: "1 - counter_slot ht = counter_slot h" and ne: "counter_slot h \<noteq> counter_slot ht"
    using slot(1) slot_cases [of h] by auto
  have par: "unat (im_counter (ht_head h)) mod 2 = counter_slot h" by (simp add: counter_slot_def)
  show ?thesis
    unfolding heads_stored_def other using old slot(2) par ne by (simp add: put_head_def)
qed

lemma commits_stored:
  assumes com: "commits cr h ht st" and cnt: "unat (im_counter (ht_head h)) < 2 ^ 32 - 1"
    and old: "st_head st (counter_slot h) = Some (ht_head h)"
  shows "stored ht (raw_blocks ht st) (put_head (counter_slot ht) (ht_head ht) st)"
proof -
  have "im_counter (ht_head ht) = im_counter (ht_head h) + 1" using com by (simp add: commits_def)
  from heads_next [OF this cnt old] show ?thesis
    using com by (simp add: stored_def commits_def nodes_stored_def raw_blocks_def)
qed

text \<open>Storage from which opening finds a file with contents \<open>s\<close>.\<close>

definition recovers :: "fs_crypto \<Rightarrow> nat \<Rightarrow> bytes \<Rightarrow> htree \<Rightarrow> snapshot \<Rightarrow> storage \<Rightarrow> bool" where
  "recovers cr bs uuid c s st \<longleftrightarrow> tree_valid cr c \<and> ht_uuid c = uuid \<and> (\<exists>blk. stored c blk st)
     \<and> snapshot_of cr bs c st = s"

lemma contents_stored:
  assumes "stored c blk st" and "stored c blk st'"
  shows "contents cr bs c st = contents cr bs c st'"
proof
  fix num
  show "contents cr bs c st num = contents cr bs c st' num"
  proof (cases "num < nodes_count c")
    case True
    then have "st_block st num (block_vers c num) = st_block st' num (block_vers c num)"
      using assms by (simp add: stored_def)
    then show ?thesis by (simp only: contents_def)
  qed (simp add: contents_def)
qed

lemma stored_snapshot:
  "stored c blk st \<Longrightarrow> stored c blk st' \<Longrightarrow> snapshot_of cr bs c st = snapshot_of cr bs c st'"
  by (simp add: snapshot_of_def contents_stored [of c blk st st'])

lemma commit_recovers:
  assumes com: "commits cr h ht st" and cnt: "unat (im_counter (ht_head h)) < 2 ^ 32 - 1"
    and old: "st_head st (counter_slot h) = Some (ht_head h)" and shape: "shape_ok h"
    and blocks: "st_block st = st_block st0" and uuid: "ht_uuid h = uuid"
  shows "recovers cr bs uuid ht (snapshot_of cr bs h st0) (put_head (counter_slot ht) (ht_head ht) st)"
proof -
  have same: "nodes_count ht = nodes_count h" "ht_imeta ht = ht_imeta h" "ht_fek ht = ht_fek h"
    "im_enc_fek (ht_head ht) = im_enc_fek (ht_head h)" "ht_uuid ht = uuid"
    "\<And>n. within h n \<Longrightarrow> same_block h ht n"
    using com uuid by (simp_all add: commits_def)
  have "contents cr bs h st0 = contents cr bs ht (put_head (counter_slot ht) (ht_head ht) st)"
    by (rule contents_cong) (use same blocks in simp_all)
  then show ?thesis
    using commits_settled [OF com shape] commits_stored [OF com cnt old] same
    by (auto simp: recovers_def snapshot_of_def)
qed

text \<open>Committing what is in memory leaves the old contents or the new ones, if it succeeds the new.\<close>

lemma sync_runs:
  assumes cr: "crypto_ok cr" and valid: "tree_valid cr c" and mem: "mem_tracks c ht"
    and dirty: "ht_dirty ht" and cnt: "unat (im_counter (ht_head ht)) < 2 ^ 32 - 1" and uuid: "ht_uuid ht = uuid"
  shows "runs (keeps c blk st0) (sync_dirty cr ht)
    (\<lambda>(ht', d) st. recovers cr bs uuid ht' (snapshot_of cr bs ht st0) st \<and> d = ni_hash (image_of ht' 1))
    (\<lambda>st. stored c blk st \<or> (\<exists>ht'. recovers cr bs uuid ht' (snapshot_of cr bs ht st0) st))"
proof -
  have shape: "shape_ok ht" and head: "ht_head ht = ht_head c" using mem by (simp_all add: mem_tracks_def)
  have new: "recovers cr bs uuid ht' (snapshot_of cr bs ht st0) st"
    if st1: "keeps c blk st0 st1" "commits cr ht ht' st1" "st = put_head (counter_slot ht') (ht_head ht') st1"
    for ht' st st1
  proof -
    have "counter_slot ht = counter_slot c" using head by (simp add: counter_slot_def)
    then have "st_head st1 (counter_slot ht) = Some (ht_head ht)"
      using st1(1) head by (auto simp: keeps_def stored_def heads_stored_def)
    moreover have "st_block st1 = st_block st0" using st1(1) by (simp add: keeps_def)
    ultimately show ?thesis
      unfolding st1(3) using commit_recovers [OF st1(2) cnt _ shape _ uuid] by simp
  qed
  show ?thesis
    by (rule runs_weaken [OF sync_dirty_runs [OF tracks_can_sync [OF valid mem dirty] cr
          commit_fek [OF valid mem] cnt]])
       (use new in \<open>auto simp: keeps_def\<close>)
qed

section \<open>Creating a file\<close>

definition starts :: "fs_crypto \<Rightarrow> bytes \<Rightarrow> htree \<Rightarrow> bool" where
  "starts cr uuid h \<longleftrightarrow> nodes_count h = 1 \<and> dirty_at h 1 \<and> im_counter (ht_head h) = 0 \<and> shape_ok h
     \<and> ht_uuid h = uuid \<and> ht_fek h = cr_fek_dec cr uuid (im_enc_fek (ht_head h))"

lemma init_root_runs:
  assumes cr: "crypto_ok cr"
    and ht: "ht = (empty_htree uuid)\<lparr>ht_fek := fek,
      ht_head := (ht_head (empty_htree uuid))\<lparr>im_enc_fek := cr_fek_enc cr uuid fek\<rparr>\<rparr>"
  shows "runs (\<lambda>_. True) (init_root_node cr ht) (\<lambda>h _. starts cr uuid (h\<lparr>ht_dirty := True\<rparr>)) (\<lambda>_. True)"
proof -
  have "starts cr uuid ((set_node 1 (nd\<lparr>nd_image := im\<rparr>)
      (set_node 1 ((node_at ht 1)\<lparr>nd_dirty := True\<rparr>) ht))\<lparr>ht_dirty := True\<rparr>)"
    if "nd = node_at (set_node 1 ((node_at ht 1)\<lparr>nd_dirty := True\<rparr>) ht) 1" for nd im
    using cr that
    by (simp add: starts_def ht empty_htree_def nodes_count_def set_node_def node_at_def shape_ok_def
        zero_head_def crypto_ok_def)
  then show ?thesis
    unfolding init_root_node_def Let_def
    apply (intro runs_bind [OF runs_call])
     apply simp
    apply (rule runs_bind [OF runs_hash])
    by (simp_all add: runs_ret)
qed

lemma starts_can_sync: "starts cr uuid h \<Longrightarrow> can_sync cr (\<lambda>_. True) h"
  by (auto simp: starts_def can_sync_def le_Suc_eq)

lemma created_recovers:
  assumes com: "commits cr h ht st0" and h: "starts cr uuid h"
    and st: "st = put_head 0 zero_head (put_head (counter_slot ht) (ht_head ht) st0)"
  shows "recovers cr bs uuid ht (snapshot_of cr bs ht st) st \<and> im_counter (ht_head ht) = 1"
proof -
  have inc: "im_counter (ht_head ht) = 1" "ht_uuid ht = uuid" using com h by (simp_all add: commits_def starts_def)
  then have "counter_slot ht = 1" by (simp add: counter_slot_def)
  then have "heads_stored ht st"
    using inc by (simp add: heads_stored_def st put_head_def zero_head_def)
  moreover have "nodes_stored ht st" using com by (simp add: commits_def st nodes_stored_def)
  ultimately have "stored ht (raw_blocks ht st) st" by (simp add: stored_def raw_blocks_def)
  moreover have "tree_valid cr ht" using commits_settled [OF com] h by (simp add: starts_def)
  ultimately show ?thesis using inc by (auto simp: recovers_def)
qed

lemma create_runs:
  assumes cr: "crypto_ok cr"
  shows "runs (\<lambda>_. True) (create_htree cr uuid)
    (\<lambda>(ht, d) st. recovers cr bs uuid ht (snapshot_of cr bs ht st) st \<and> im_counter (ht_head ht) = 1
       \<and> d = ni_hash (image_of ht 1)) (\<lambda>_. True)"
  unfolding create_htree_def Let_def
  apply (rule runs_bind [OF runs_call], simp)
  apply (rule runs_bind [OF runs_rng], simp)
  apply (rule runs_bind [OF runs_call], simp)
  apply (rule runs_bind [OF init_root_runs [OF cr refl]])
  subgoal for _ fek _ h
  proof (cases "starts cr uuid (h\<lparr>ht_dirty := True\<rparr>)")
    case True
    let ?h = "h\<lparr>ht_dirty := True\<rparr>"
    have fek: "ht_fek ?h = cr_fek_dec cr (ht_uuid ?h) (im_enc_fek (ht_head ?h))"
      and cnt: "unat (im_counter (ht_head ?h)) < 2 ^ 32 - 1" using True by (auto simp: starts_def)
    note sync = sync_dirty_runs [OF starts_can_sync [OF True] cr fek cnt]
    have sync': "runs (\<lambda>_. starts cr uuid ?h) (sync_dirty cr ?h)
        (\<lambda>x st. (\<exists>st0. commits cr ?h (fst x) st0 \<and> st = put_head (counter_slot (fst x)) (ht_head (fst x)) st0)
          \<and> snd x = ni_hash (image_of (fst x) 1)) (\<lambda>_. True)"
      by (rule runs_weaken [OF sync]) auto
    have call: "runs (\<lambda>_. starts cr uuid ?h) io_call (\<lambda>_ _. starts cr uuid ?h) (\<lambda>_. True)"
      by (rule runs_call) simp
    show ?thesis
      apply (rule runs_bind [OF call])
      apply (rule runs_bind [OF sync'])
      apply (clarsimp split: prod.splits)
      apply (rule runs_bind)
       apply (unfold rpc_write_head_def)
       apply (rule runs_write [where Q = "\<lambda>st. recovers cr bs uuid x1 (snapshot_of cr bs x1 st) st
             \<and> im_counter (ht_head x1) = 1 \<and> x2 = ni_hash (image_of x1 1)" for x1 x2])
         apply (use created_recovers [OF _ True] in \<open>auto intro!: runs_ret\<close>)
      done
  qed (simp add: runs_def)
  done

section \<open>Operations that only read\<close>

text \<open>
  Such an operation leaves storage alone, and when none of its calls fails it does what it does
  with a script of successes.
\<close>

definition quiet :: "world \<Rightarrow> world" where
  "quiet w = w\<lparr>w_replies := []\<rparr>"

definition reads_only :: "'a wm \<Rightarrow> bool" where
  "reads_only m \<longleftrightarrow> (\<forall>w. w_stor (snd (m w)) = w_stor w
     \<and> ((\<exists>e. fst (m w) = Fail e) \<or> m (quiet w) = (fst (m w), quiet (snd (m w)))))"

lemma quiet_simps [simp]: "w_stor (quiet w) = w_stor w" "calm (quiet w)" "quiet (quiet w) = quiet w"
  "w_randoms (quiet w) = w_randoms w"
  by (simp_all add: quiet_def calm_def)

lemma reads_only_ret [intro!, simp]: "reads_only (io_ret x)"
  by (simp add: reads_only_def io_ret_def)

lemma reads_only_fail [intro!, simp]: "reads_only (io_fail e)"
  by (simp add: reads_only_def io_fail_def)

lemma reads_only_stuck [intro!, simp]: "reads_only io_stuck"
  by (simp add: reads_only_def io_stuck_def)

lemma reads_only_call [intro!, simp]: "reads_only io_call"
proof -
  have "quiet (w\<lparr>w_replies := rs\<rparr>) = quiet w" for w rs by (simp add: quiet_def)
  then show ?thesis by (auto simp: reads_only_def io_call_def quiet_def split: prod.splits list.splits)
qed

lemma reads_only_bind [intro!, simp]:
  assumes "reads_only m" and "\<And>x. reads_only (k x)"
  shows "reads_only (io_bind m k)"
  unfolding reads_only_def
proof
  fix w :: world
  obtain r w1 where m: "m w = (r, w1)" by (cases "m w")
  have one: "w_stor w1 = w_stor w" "(\<exists>e. r = Fail e) \<or> m (quiet w) = (r, quiet w1)"
    using assms(1) m by (auto simp: reads_only_def dest: spec [of _ w])
  show "w_stor (snd (io_bind m k w)) = w_stor w
     \<and> ((\<exists>e. fst (io_bind m k w) = Fail e) \<or> io_bind m k (quiet w) = (fst (io_bind m k w), quiet (snd (io_bind m k w))))"
  proof (cases r)
    case (Ok x)
    then show ?thesis using one m assms(2) [of x] by (auto simp: reads_only_def io_bind_def)
  qed (use one m in \<open>auto simp: io_bind_def\<close>)
qed

lemma reads_only_calls [intro!, simp]: "reads_only (io_calls k)"
  by (induction k) simp_all

lemma reads_only_stor:
  "reads_only (\<lambda>w. case slot (w_stor w) of None \<Rightarrow> (Fail e, w) | Some x \<Rightarrow> (Ok x, w))"
  by (simp add: reads_only_def split: option.splits)

lemma reads_only_rpc_read [intro!, simp]: "reads_only (rpc_read slot)"
  unfolding rpc_read_def by (intro reads_only_bind reads_only_calls reads_only_stor)

lemma reads_only_hash [intro!, simp]: "reads_only (calc_node_hash cr ht n meta)"
  by (simp add: calc_node_hash_def)

lemma reads_only_authenc [intro!, simp]: "reads_only (authenc_init ht ni)"
  by (simp add: authenc_init_def)

lemma reads_only_decrypt [intro!, simp]: "reads_only (authenc_decrypt_final cr ht a tag crypt)"
  by (auto simp: authenc_decrypt_final_def split: option.splits)

lemma reads_only_add_nodes [simp]: "reads_only (add_nodes n node_id ht)"
  by (induction n node_id ht rule: add_nodes.induct) (subst add_nodes.simps, auto simp: Let_def)

lemma reads_only_get_node [intro!, simp]: "reads_only (get_node create n ht)"
  by (simp add: get_node_def Let_def)

lemma reads_only_init_tree [simp]: "reads_only (init_tree_loop m n ht)"
  by (induction m n ht rule: init_tree_loop.induct)
     (subst init_tree_loop.simps, auto simp: rpc_read_node_def split: option.splits)

lemma reads_only_traverse:
  "(\<And>n ht. reads_only (cb n ht)) \<Longrightarrow> reads_only (traverse cb ns ht)"
  by (induction ns arbitrary: ht) simp_all

lemma reads_only_load: "reads_only (load_htree cr uuid hash)"
  by (auto simp: load_htree_def init_head_from_data_def rpc_read_node_def rpc_read_head_def
      verify_root_def Let_def init_tree_from_data_def verify_tree_def htree_traverse_post_order_def
      verify_node_def intro!: reads_only_traverse split: option.splits prod.splits)

lemma reads_only_read_block: "reads_only (read_block cr bs num ht)"
proof -
  have "reads_only (\<lambda>w. case st_block (w_stor w) num v of
      None \<Rightarrow> (Fail TEE_ERROR_CORRUPT_OBJECT, w)
    | Some e \<Rightarrow> if length e \<noteq> bs then (Fail TEE_ERROR_CORRUPT_OBJECT, w) else k e w)"
    if "\<And>e. reads_only (k e)" for v and k :: "bytes \<Rightarrow> (htree \<times> bytes) wm"
    using that by (auto simp: reads_only_def split: option.splits)
  then show ?thesis by (simp add: read_block_def Let_def)
qed

text \<open>A result of an operation that only reads is the one calm calls give.\<close>

lemma reads_only_cases:
  assumes "reads_only m" and "m (quiet w) = (Ok x, quiet w)"
  shows "(\<exists>e w'. m w = (Fail e, w') \<and> w_stor w' = w_stor w)
    \<or> (\<exists>w'. m w = (Ok x, w') \<and> w_stor w' = w_stor w)"
proof -
  obtain r w' where m: "m w = (r, w')" by (cases "m w")
  then have "w_stor w' = w_stor w" "(\<exists>e. r = Fail e) \<or> m (quiet w) = (r, quiet w')"
    using assms(1) by (auto simp: reads_only_def dest: spec [of _ w])
  then show ?thesis using assms(2) m by auto
qed

section \<open>The life of a file\<close>

definition with_length :: "64 word \<Rightarrow> snapshot \<Rightarrow> snapshot" where
  "with_length l s = (l, snd s)"

text \<open>
  \<open>htree_life cr bs uuid ht_arg w R cur\<close>: after some operations on the file, \<open>ht_arg\<close> is its tree
  in memory, if it is open, and \<open>w\<close> the world; \<open>cur\<close> is what the operations should have made of the
  file, and \<open>R\<close> what may be found on storage: what was committed last, and what commits that
  failed meanwhile were to write. An operation ends at the first call that fails, which is also where
  a power loss would leave storage (\<open>answered\<close> and \<open>interrupted\<close> put any script of replies
  and any later state of memory).
\<close>

inductive htree_life ::
    "fs_crypto \<Rightarrow> nat \<Rightarrow> bytes \<Rightarrow> htree option \<Rightarrow> world \<Rightarrow> snapshot set \<Rightarrow> snapshot \<Rightarrow> bool"
  for cr :: fs_crypto and bs :: nat and uuid :: bytes
where
  created: "tee_fs_htree_open cr True hash uuid w = (Ok (ht, d), ht_arg, w') \<Longrightarrow>
    s = snapshot_of cr bs ht (w_stor w') \<Longrightarrow> htree_life cr bs uuid ht_arg w' {s} s"
| block_write: "htree_life cr bs uuid (Some ht) w R cur \<Longrightarrow> num \<le> nodes_count ht \<Longrightarrow>
    Suc num < 2 ^ 32 - 1 \<Longrightarrow> length b = bs \<Longrightarrow>
    tee_fs_htree_write_block cr (Some ht) num b w = (r, ht_arg, w') \<Longrightarrow>
    htree_life cr bs uuid ht_arg w' R (with_block num b cur)"
| length_set: "htree_life cr bs uuid (Some ht) w R cur \<Longrightarrow>
    htree_life cr bs uuid (Some (tee_fs_htree_meta_set_dirty (set_meta_length l ht))) w R (with_length l cur)"
| block_read: "htree_life cr bs uuid (Some ht) w R cur \<Longrightarrow> Suc num < 2 ^ 32 - 1 \<Longrightarrow>
    tee_fs_htree_read_block cr bs (Some ht) num w = (r, ht_arg, w') \<Longrightarrow>
    htree_life cr bs uuid ht_arg w' R cur"
| committed: "htree_life cr bs uuid (Some ht) w R cur \<Longrightarrow> unat (im_counter (ht_head ht)) < 2 ^ 32 - 1 \<Longrightarrow>
    tee_fs_htree_sync_to_storage cr (Some ht) w = (Ok x, ht_arg, w') \<Longrightarrow>
    htree_life cr bs uuid ht_arg w' {cur} cur"
| commit_failed: "htree_life cr bs uuid (Some ht) w R cur \<Longrightarrow> unat (im_counter (ht_head ht)) < 2 ^ 32 - 1 \<Longrightarrow>
    tee_fs_htree_sync_to_storage cr (Some ht) w = (Fail e, ht_arg, w') \<Longrightarrow>
    htree_life cr bs uuid ht_arg w' (insert cur R) cur"
| opened: "htree_life cr bs uuid ht_arg w R cur \<Longrightarrow>
    tee_fs_htree_open cr False None uuid w = (Ok (ht, d), ht_arg', w') \<Longrightarrow>
    s = snapshot_of cr bs ht (w_stor w') \<Longrightarrow> htree_life cr bs uuid ht_arg' w' {s} s"
| open_failed: "htree_life cr bs uuid ht_arg w R cur \<Longrightarrow>
    tee_fs_htree_open cr False None uuid w = (Fail e, ht_arg', w') \<Longrightarrow> htree_life cr bs uuid ht_arg' w' R cur"
| answered: "htree_life cr bs uuid ht_arg w R cur \<Longrightarrow> w_stor w' = w_stor w \<Longrightarrow>
    htree_life cr bs uuid ht_arg w' R cur"
| interrupted: "htree_life cr bs uuid ht_arg w R cur \<Longrightarrow>
    htree_life cr bs uuid (tee_fs_htree_close ht_arg) w R cur"

definition life_inv ::
    "fs_crypto \<Rightarrow> nat \<Rightarrow> bytes \<Rightarrow> htree option \<Rightarrow> storage \<Rightarrow> snapshot set \<Rightarrow> snapshot \<Rightarrow> bool" where
  "life_inv cr bs uuid ht_arg st R cur \<longleftrightarrow> (\<exists>c s. recovers cr bs uuid c s st \<and> s \<in> R
     \<and> (\<forall>ht. ht_arg = Some ht \<longrightarrow> mem_tracks c ht \<and> snapshot_of cr bs ht st = cur))"

lemma life_invI:
  "recovers cr bs uuid c s st \<Longrightarrow> s \<in> R \<Longrightarrow>
   (\<And>ht. ht_arg = Some ht \<Longrightarrow> mem_tracks c ht \<and> snapshot_of cr bs ht st = cur) \<Longrightarrow>
   life_inv cr bs uuid ht_arg st R cur"
  unfolding life_inv_def by blast

lemma closing_runs:
  assumes "runs P m Q E" and "P (w_stor w)" and "closing m f w = (r, ht_arg, w')"
  shows "(\<exists>x. r = Ok x \<and> ht_arg = Some (f x) \<and> Q x (w_stor w')) \<or> (\<exists>e. r = Fail e \<and> ht_arg = None \<and> E (w_stor w'))"
  using assms unfolding runs_def closing_def by (fastforce split: prod.splits io.splits)

lemma inv_fresh: "recovers cr bs uuid c s st \<Longrightarrow> life_inv cr bs uuid (Some c) st {s} s"
  unfolding life_inv_def
  by (intro exI [of _ c] exI [of _ s]) (auto simp: recovers_def intro: mem_tracks_refl)

lemma inv_closed: "life_inv cr bs uuid ht_arg st R cur \<Longrightarrow> R \<subseteq> R' \<Longrightarrow> life_inv cr bs uuid None st R' cur'"
  unfolding life_inv_def by blast

lemma inv_created:
  assumes "crypto_ok cr" and "tee_fs_htree_open cr True hash uuid w = (Ok (ht, d), ht_arg, w')"
  shows "recovers cr bs uuid ht (snapshot_of cr bs ht (w_stor w')) (w_stor w') \<and> ht_arg = Some ht
    \<and> im_counter (ht_head ht) = 1"
proof -
  have "runs (\<lambda>_. True) (io_bind (create_htree cr uuid) (\<lambda>(ht, h). io_ret (ht, Some h)))
      (\<lambda>x st. recovers cr bs uuid (fst x) (snapshot_of cr bs (fst x) st) st \<and> im_counter (ht_head (fst x)) = 1)
      (\<lambda>_. True)"
    by (rule runs_bind [OF create_runs [OF assms(1), of uuid bs]]) (auto intro!: runs_ret split: prod.splits)
  from closing_runs [OF this, where w = w and f = fst] assms(2) show ?thesis by (simp add: tee_fs_htree_open_def)
qed

text \<open>Opening the file that is on storage.\<close>

lemma open_recovers:
  assumes "recovers cr bs uuid c s st" and "w_stor w = st"
  shows "(\<exists>e w'. tee_fs_htree_open cr False None uuid w = (Fail e, None, w') \<and> w_stor w' = st)
    \<or> (\<exists>w'. tee_fs_htree_open cr False None uuid w = (Ok (c, None), Some c, w') \<and> w_stor w' = st)"
    and "calm w \<Longrightarrow> tee_fs_htree_open cr False None uuid w = (Ok (c, None), Some c, w)"
proof -
  obtain blk where c: "settled c" "head_ok cr c" "ht_uuid c = uuid" "stored c blk st"
    "\<forall>n. 1 \<le> n \<and> n \<le> nodes_count c \<longrightarrow> digest_ok cr c n"
    using assms(1) by (auto simp: recovers_def tree_valid_def)
  have load: "load_htree cr uuid None v = (Ok c, v)" if "calm v" "w_stor v = st" for v
    using load_stored [OF c(1,2), of blk v None] c(3-5) that by (simp add: hash_finds_def)
  show "calm w \<Longrightarrow> tee_fs_htree_open cr False None uuid w = (Ok (c, None), Some c, w)"
    using load [of w] assms(2) by (simp add: tee_fs_htree_open_def closing_def io_bind_def io_ret_def)
  have "load_htree cr uuid None (quiet w) = (Ok c, quiet w)" using load assms(2) by simp
  from reads_only_cases [OF reads_only_load this] assms(2)
  show "(\<exists>e w'. tee_fs_htree_open cr False None uuid w = (Fail e, None, w') \<and> w_stor w' = st)
    \<or> (\<exists>w'. tee_fs_htree_open cr False None uuid w = (Ok (c, None), Some c, w') \<and> w_stor w' = st)"
    by (auto simp: tee_fs_htree_open_def closing_def io_bind_def io_ret_def)
qed

lemma inv_block_write:
  assumes cr: "crypto_ok cr" and inv: "life_inv cr bs uuid (Some ht) (w_stor w) R cur"
    and num: "num \<le> nodes_count ht" "Suc num < 2 ^ 32 - 1" and len: "length b = bs"
    and wr: "tee_fs_htree_write_block cr (Some ht) num b w = (r, ht_arg, w')"
  shows "life_inv cr bs uuid ht_arg (w_stor w') R (with_block num b cur)"
proof -
  obtain c s blk where c: "recovers cr bs uuid c s (w_stor w)" "s \<in> R" "mem_tracks c ht"
    "snapshot_of cr bs ht (w_stor w) = cur" "stored c blk (w_stor w)"
    using inv by (auto simp: life_inv_def recovers_def)
  have still: "recovers cr bs uuid c s st" if "stored c blk st" for st
    using c(1) stored_snapshot [OF that c(5)] that by (auto simp: recovers_def)
  show ?thesis
    using closing_runs [OF write_block_runs [OF cr c(3) num len, of blk "w_stor w"], where w = w and f = "\<lambda>h. h"]
      wr c(4,5) by (intro life_invI [OF still c(2)]) (auto simp: tee_fs_htree_write_block_def)
qed

lemma inv_length_set:
  assumes "life_inv cr bs uuid (Some ht) st R cur"
  shows "life_inv cr bs uuid (Some (tee_fs_htree_meta_set_dirty (set_meta_length l ht))) st R (with_length l cur)"
proof -
  define h where "h = tee_fs_htree_meta_set_dirty (set_meta_length l ht)"
  obtain c s where c: "recovers cr bs uuid c s st" "s \<in> R" "mem_tracks c ht" "snapshot_of cr bs ht st = cur"
    using assms by (auto simp: life_inv_def)
  have one: "1 \<le> nodes_count ht" using c(3) count_pos by (simp add: mem_tracks_def)
  have frame: "nodes_count h = nodes_count ht" "ht_head h = ht_head ht" "ht_fek h = ht_fek ht"
    "ht_uuid h = ht_uuid ht" "max_node_id (ht_imeta h) = max_node_id (ht_imeta ht)"
    "meta_length (ht_imeta h) = l" "ht_dirty h"
    by (simp_all add: h_def tee_fs_htree_meta_set_dirty_def set_meta_length_def nodes_count_def set_node_def)
  have node: "node_at h n = (if n = 1 then (node_at ht 1)\<lparr>nd_dirty := True\<rparr> else node_at ht n)"
    if "1 \<le> n" for n
  proof -
    let ?g = "(set_meta_length l ht)\<lparr>ht_dirty := True\<rparr>"
    have g: "node_at ?g m = node_at ht m" "node_at (set_meta_length l ht) m = node_at ht m"
      "nodes_count ?g = nodes_count ht" for m
      by (simp_all add: node_at_def set_meta_length_def nodes_count_def)
    show ?thesis
      unfolding h_def tee_fs_htree_meta_set_dirty_def
      using node_at_set [of 1 ?g n] one that by (simp only: g if_True order_refl)
  qed
  have img: "image_of h n = image_of ht n" if "1 \<le> n" for n using node [OF that] by (simp add: image_of_def)
  have "mem_tracks c h"
  proof -
    have tr: "node_tracks c h n" if "within c n" for n
      using c(3) that node [of n] img [of n] by (auto simp: mem_tracks_def node_tracks_def)
    have "shape_ok ht" using c(3) by (simp add: mem_tracks_def)
    then have "shape_ok h" unfolding shape_ok_def frame .
    moreover have "dirty_at h n" if "nodes_count c < n \<and> n \<le> nodes_count ht" for n
      using c(3) node [of n] that unfolding mem_tracks_def by auto
    moreover have "dirty_at h n" if "within ht n \<and> nd_block_updated (node_at h n)" for n
      using c(3) node [of n] that unfolding mem_tracks_def by (cases "n = 1") auto
    moreover have "within ht 1 \<and> dirty_at h 1" using node [of 1] one by simp
    moreover have "nodes_count c \<le> nodes_count ht \<and> ht_head ht = ht_head c \<and> ht_fek ht = ht_fek c
        \<and> ht_uuid ht = ht_uuid c"
      using c(3) unfolding mem_tracks_def by (elim conjE) (intro conjI)
    ultimately show ?thesis
      using tr frame(7) unfolding mem_tracks_def
      by (intro conjI) (assumption | simp add: frame | blast)+
  qed
  moreover have "snapshot_of cr bs h st = with_length l cur"
  proof -
    have "contents cr bs h st = contents cr bs ht st"
      by (rule contents_cong) (simp_all add: frame same_block_def img)
    then show ?thesis using c(4) by (auto simp: snapshot_of_def with_length_def frame)
  qed
  ultimately show ?thesis unfolding h_def [symmetric] by (intro life_invI [OF c(1,2)]) simp
qed

text \<open>Reading gives the block of \<open>cur\<close> or fails.\<close>

lemma get_node_absent:
  assumes "nodes_count ht < n" and "shape_ok ht" and "n < 2 ^ 32 - 1"
  shows "get_node False n ht = io_fail TEE_ERROR_GENERIC"
proof -
  have "find_closest_node ht n \<le> nodes_count ht"
    using find_closest [of n ht] assms(1) count_pos [OF assms(2)] by auto
  then show ?thesis using assms(1,3) by (auto simp: get_node_def Let_def)
qed

lemma read_block_quiet:
  assumes "calm w" and "shape_ok ht" and "Suc num < 2 ^ 32 - 1"
  shows "case contents cr bs ht (w_stor w) num of
      Some b \<Rightarrow> read_block cr bs num ht w = (Ok (ht, b), w)
    | None \<Rightarrow> \<exists>e. read_block cr bs num ht w = (Fail e, w)"
proof (cases "num < nodes_count ht")
  case True
  then have "get_node False (Suc num) ht = io_ret ht"
    using get_node_present [of "Suc num" ht False] assms(2) by (auto simp: shape_ok_def)
  then show ?thesis
    using assms(1) True
    by (auto simp: contents_def decode_def block_vers_def read_block_def BLOCK_NUM_TO_NODE_ID_def
        io_bind_def io_ret_def io_fail_def Let_def image_of_def authenc_decrypt_final_def split: option.splits)
next
  case False
  then show ?thesis using get_node_absent [OF _ assms(2,3)]
    by (simp add: contents_def read_block_def BLOCK_NUM_TO_NODE_ID_def io_bind_def io_fail_def)
qed

lemma read_any:
  assumes "life_inv cr bs uuid (Some ht) (w_stor w) R cur" and "Suc num < 2 ^ 32 - 1"
    and "tee_fs_htree_read_block cr bs (Some ht) num w = (r, ht_arg, w')"
  shows "w_stor w' = w_stor w \<and> ((\<exists>e. r = Fail e \<and> ht_arg = None)
    \<or> (\<exists>b. snd (snd cur) num = Some b \<and> r = Ok (ht, b) \<and> ht_arg = Some ht))"
proof -
  obtain c where c: "mem_tracks c ht" "snapshot_of cr bs ht (w_stor w) = cur" using assms(1) by (auto simp: life_inv_def)
  have shape: "shape_ok ht" using c(1) by (simp add: mem_tracks_def)
  have cur: "snd (snd cur) num = contents cr bs ht (w_stor w) num" using c(2) by (auto simp: snapshot_of_def)
  obtain res w1 where m: "read_block cr bs num ht w = (res, w1)" by (cases "read_block cr bs num ht w")
  then have ro: "w_stor w1 = w_stor w" "(\<exists>e. res = Fail e) \<or> read_block cr bs num ht (quiet w) = (res, quiet w1)"
    using reads_only_read_block [of cr bs num ht] by (auto simp: reads_only_def dest: spec [of _ w])
  show ?thesis
    using read_block_quiet [of "quiet w" ht num cr bs] shape assms(2,3) ro m cur
    by (auto simp: tee_fs_htree_read_block_def closing_def split: option.splits)
qed

lemma inv_block_read:
  assumes inv: "life_inv cr bs uuid (Some ht) (w_stor w) R cur" and "Suc num < 2 ^ 32 - 1"
    and "tee_fs_htree_read_block cr bs (Some ht) num w = (r, ht_arg, w')"
  shows "life_inv cr bs uuid ht_arg (w_stor w') R cur"
proof -
  have "w_stor w' = w_stor w" "ht_arg = None \<or> ht_arg = Some ht" using read_any [OF assms] by auto
  then show ?thesis using inv inv_closed [OF inv order_refl, of cur] by auto
qed

lemma inv_committed:
  assumes cr: "crypto_ok cr" and inv: "life_inv cr bs uuid (Some ht) (w_stor w) R cur"
    and cnt: "unat (im_counter (ht_head ht)) < 2 ^ 32 - 1"
    and sync: "tee_fs_htree_sync_to_storage cr (Some ht) w = (r, ht_arg, w')"
  shows "life_inv cr bs uuid ht_arg (w_stor w') (case r of Ok _ \<Rightarrow> {cur} | _ \<Rightarrow> insert cur R) cur \<and> r \<noteq> Stuck"
proof -
  obtain c s blk where c: "recovers cr bs uuid c s (w_stor w)" "s \<in> R" "mem_tracks c ht"
    "snapshot_of cr bs ht (w_stor w) = cur" "stored c blk (w_stor w)" "tree_valid cr c" "ht_uuid ht = uuid"
    using inv by (auto simp: life_inv_def recovers_def mem_tracks_def)
  show ?thesis
  proof (cases "ht_dirty ht")
    case False
    then have "ht = c" using c(3) by (simp add: mem_tracks_def)
    moreover have "s = cur" using c(1,4) \<open>ht = c\<close> by (simp add: recovers_def)
    ultimately show ?thesis using False sync inv_fresh [OF c(1)] by (auto simp: tee_fs_htree_sync_to_storage_def)
  next
    case True
    have run: "runs (keeps c blk (w_stor w)) (io_bind (sync_dirty cr ht) (\<lambda>(ht1, h). io_ret (ht1, Some h)))
        (\<lambda>x st. recovers cr bs uuid (fst x) cur st)
        (\<lambda>st. stored c blk st \<or> (\<exists>ht'. recovers cr bs uuid ht' cur st))"
      by (rule runs_bind [OF sync_runs [OF cr c(6,3) True cnt c(7), of blk "w_stor w" bs, unfolded c(4)]])
         (auto intro!: runs_ret split: prod.splits)
    have "keeps c blk (w_stor w) (w_stor w)" using c(5) by (simp add: keeps_def)
    note keeps = this
    obtain r0 w1 where call: "io_call w = (r0, w1)" by (cases "io_call w")
    have stor: "w_stor w1 = w_stor w" "r0 \<noteq> Stuck"
      using call next_reply_stor [of w] by (auto simp: io_call_def split: prod.splits if_splits)
    have "(\<exists>e. r = Fail e \<and> ht_arg = Some ht \<and> w_stor w' = w_stor w) \<or>
      (\<exists>x. r = Ok x \<and> ht_arg = Some (fst x) \<and> recovers cr bs uuid (fst x) cur (w_stor w'))
      \<or> (\<exists>e. r = Fail e \<and> ht_arg = None \<and> (stored c blk (w_stor w') \<or> (\<exists>ht'. recovers cr bs uuid ht' cur (w_stor w'))))"
    proof (cases r0)
      case (Ok u)
      then have "closing (io_bind (sync_dirty cr ht) (\<lambda>(ht1, h). io_ret (ht1, Some h))) fst w1 = (r, ht_arg, w')"
        using sync True call by (simp add: tee_fs_htree_sync_to_storage_def)
      from closing_runs [OF run _ this] keeps show ?thesis by (simp add: stor)
    qed (use sync True call stor in \<open>auto simp: tee_fs_htree_sync_to_storage_def\<close>)
    then consider x where "r = Ok x" "ht_arg = Some (fst x)" "recovers cr bs uuid (fst x) cur (w_stor w')"
      | e where "r = Fail e" "ht_arg = None" "stored c blk (w_stor w')"
      | e ht' where "r = Fail e" "ht_arg = None" "recovers cr bs uuid ht' cur (w_stor w')"
      | e where "r = Fail e" "ht_arg = Some ht" "w_stor w' = w_stor w"
      by blast
    then show ?thesis
    proof cases
      case 2
      have "recovers cr bs uuid c s (w_stor w')"
        using c(1) stored_snapshot [OF 2(3) c(5)] 2(3) by (auto simp: recovers_def)
      from life_invI [OF this, of "insert cur R" None cur] show ?thesis using 2(1,2) c(2) by simp
    next
      case 3
      from life_invI [OF 3(3), of "insert cur R" None cur] show ?thesis using 3(1,2) by simp
    next
      case 4
      from life_invI [OF c(1), of "insert cur R" "Some ht" cur] show ?thesis using 4 c(2-4) by simp
    qed (use inv_fresh in auto)
  qed
qed

lemma life_invariant:
  "htree_life cr bs uuid ht_arg w R cur \<Longrightarrow> crypto_ok cr \<Longrightarrow> life_inv cr bs uuid ht_arg (w_stor w) R cur"
proof (induction rule: htree_life.induct)
  case (created hash w ht d ht_arg w' s)
  then show ?case using inv_created [OF created.prems created.hyps(1), of bs] inv_fresh by simp
next
  case (block_write ht w R cur num b r ht_arg w')
  then show ?case by (intro inv_block_write)
next
  case (committed ht w R cur x ht_arg w')
  then show ?case using inv_committed [OF committed.prems committed.IH committed.hyps(2,3)] by simp
next
  case (commit_failed ht w R cur e ht_arg w')
  then show ?case using inv_committed [OF commit_failed.prems commit_failed.IH commit_failed.hyps(2,3)] by simp
next
  case (opened ht_arg w R cur ht d ht_arg' w' s)
  then obtain c s0 where "recovers cr bs uuid c s0 (w_stor w)" by (auto simp: life_inv_def)
  moreover from open_recovers(1) [OF this refl] opened.hyps(2)
  have "ht = c" "ht_arg' = Some c" "w_stor w' = w_stor w" by auto
  ultimately show ?case using opened.hyps(3) inv_fresh [of cr bs uuid c s0 "w_stor w"] by (simp add: recovers_def)
next
  case (open_failed ht_arg w R cur e ht_arg' w')
  then obtain c s0 where "recovers cr bs uuid c s0 (w_stor w)" by (auto simp: life_inv_def)
  from open_recovers(1) [OF this refl] open_failed.hyps(2)
  have "ht_arg' = None" "w_stor w' = w_stor w" by auto
  then show ?case using inv_closed [OF open_failed.IH [OF open_failed.prems] order_refl, of cur] by simp
next
  case (interrupted ht_arg w R cur)
  then show ?case using inv_closed [OF _ order_refl] by (simp add: tee_fs_htree_close_def)
qed (auto intro: inv_length_set inv_block_read)

section \<open>Calls that succeed\<close>

text \<open>An operation that can only fail because a call does.\<close>

definition prompt :: "'a wm \<Rightarrow> bool" where
  "prompt m \<longleftrightarrow> (\<forall>w. calm w \<longrightarrow> calm (snd (m w)) \<and> (\<forall>e. fst (m w) \<noteq> Fail e))"

lemma prompt_ret [intro!, simp]: "prompt (io_ret x)"
  by (simp add: prompt_def io_ret_def)

lemma prompt_stuck [intro!, simp]: "prompt io_stuck"
  by (simp add: prompt_def io_stuck_def)

lemma prompt_calls [intro!, simp]: "prompt io_call" "prompt (io_calls k)"
  by (simp_all add: prompt_def)

lemma prompt_bind [intro!]: "prompt m \<Longrightarrow> (\<And>x. prompt (k x)) \<Longrightarrow> prompt (io_bind m k)"
  unfolding prompt_def io_bind_def by (fastforce split: prod.splits io.splits)

lemma prompt_rng [intro!, simp]: "prompt crypto_rng_read"
  unfolding crypto_rng_read_def
  by (intro prompt_bind) (auto simp: prompt_def calm_def split: list.splits)

lemma prompt_write_final [intro!, simp]: "prompt (rpc_write_final put)"
  by (simp add: prompt_def rpc_write_final_def calm_def)

lemma prompt_simple [intro!, simp]:
  "prompt (rpc_write put)" "prompt (calc_node_hash cr ht n meta)" "prompt (authenc_init ht ni)"
  by (auto simp: rpc_write_def calc_node_hash_def authenc_init_def)

lemma crypto_okD:
  assumes "crypto_ok cr" and "cr_enc cr k a p = (c, t)"
  shows "length c = length p" and "cr_dec cr k a c t = Some p"
  using assms unfolding crypto_ok_def by (metis (mono_tags, lifting) case_prodD)+

lemma prompt_encrypt: "crypto_ok cr \<Longrightarrow> prompt (authenc_encrypt_final cr ht a plain)"
  unfolding authenc_encrypt_final_def
  by (intro prompt_bind prompt_calls) (auto split: prod.splits dest: crypto_okD(1))

lemma prompt_add_nodes [simp]: "prompt (add_nodes n node_id ht)"
  by (induction n node_id ht rule: add_nodes.induct) (subst add_nodes.simps, auto simp: Let_def)

lemma prompt_traverse: "(\<And>n ht. prompt (cb n ht)) \<Longrightarrow> prompt (traverse cb ns ht)"
  by (induction ns arbitrary: ht) auto

lemma prompt_sync_dirty:
  assumes "crypto_ok cr"
  shows "prompt (sync_dirty cr ht)"
  by (auto simp: sync_dirty_def htree_traverse_post_order_def htree_sync_node_to_storage_def update_root_def
      rpc_write_node_def rpc_write_head_def Let_def intro!: prompt_traverse prompt_encrypt [OF assms])

lemma prompt_create:
  assumes "crypto_ok cr"
  shows "prompt (create_htree cr uuid)"
  by (auto simp: create_htree_def init_root_node_def rpc_write_head_def Let_def
      intro!: prompt_sync_dirty [OF assms])

lemma prompt_write_block:
  assumes "crypto_ok cr"
  shows "prompt (write_block cr num b ht)"
  by (auto simp: write_block_def get_node_def Let_def intro!: prompt_encrypt [OF assms])

lemma prompt_closing:
  assumes "prompt m" and "calm w" and "closing m f w = (r, ht_arg, w')"
  shows "calm w' \<and> (\<forall>e. r \<noteq> Fail e)"
  using assms unfolding prompt_def closing_def by (fastforce split: prod.splits io.splits)

lemma create_calm:
  assumes "crypto_ok cr" and "calm w"
  shows "\<exists>ht d w'. tee_fs_htree_open cr True hash uuid w = (Ok (ht, d), Some ht, w') \<and> calm w'"
proof -
  let ?m = "io_bind (create_htree cr uuid) (\<lambda>(ht, h). io_ret (ht, Some h))"
  have run: "runs (\<lambda>_. True) ?m (\<lambda>_ _. True) (\<lambda>_. True)"
    by (rule runs_bind [OF create_runs [OF assms(1)]]) (auto intro!: runs_ret split: prod.splits)
  have p: "prompt ?m" by (auto intro!: prompt_create [OF assms(1)] split: prod.splits)
  obtain r ht_arg w' where c: "closing ?m fst w = (r, ht_arg, w')" by (cases "closing ?m fst w")
  from prompt_closing [OF p assms(2) c] closing_runs [OF run _ c] c show ?thesis
    by (auto simp: tee_fs_htree_open_def)
qed

lemma write_calm:
  assumes cr: "crypto_ok cr" and "calm w" and c: "recovers cr bs uuid c s (w_stor w)"
    and num: "num \<le> nodes_count c" "Suc num < 2 ^ 32 - 1" and len: "length b = bs"
  shows "\<exists>ht w'. tee_fs_htree_write_block cr (Some c) num b w = (Ok ht, Some ht, w') \<and> calm w'
    \<and> ht_head ht = ht_head c"
proof -
  obtain blk where blk: "stored c blk (w_stor w)" "tree_valid cr c" using c by (auto simp: recovers_def)
  note run = write_block_runs [OF cr mem_tracks_refl [OF blk(2)] num len, of blk "w_stor w"]
  obtain r ht_arg w' where cl: "closing (write_block cr num b c) (\<lambda>h. h) w = (r, ht_arg, w')"
    by (cases "closing (write_block cr num b c) (\<lambda>h. h) w")
  from prompt_closing [OF prompt_write_block [OF cr] assms(2) cl] closing_runs [OF run _ cl] blk cl show ?thesis
    by (auto simp: tee_fs_htree_write_block_def mem_tracks_def)
qed

lemma sync_calm:
  assumes "crypto_ok cr" and "calm w" and "tee_fs_htree_sync_to_storage cr (Some ht) w = (r, ht_arg, w')"
  shows "calm w' \<and> (\<forall>e. r \<noteq> Fail e) \<and> (r \<noteq> Stuck \<longrightarrow> (\<exists>h. ht_arg = Some h))"
proof (cases "ht_dirty ht")
  case True
  have p: "prompt (io_bind (sync_dirty cr ht) (\<lambda>(ht1, h). io_ret (ht1, Some h)))"
    by (auto intro!: prompt_sync_dirty [OF assms(1)] split: prod.splits)
  have c: "closing (io_bind (sync_dirty cr ht) (\<lambda>(ht1, h). io_ret (ht1, Some h))) fst w = (r, ht_arg, w')"
    using assms(2,3) True by (simp add: tee_fs_htree_sync_to_storage_def)
  show ?thesis using prompt_closing [OF p assms(2) c] c by (auto simp: closing_def split: prod.splits io.splits)
qed (use assms(2,3) in \<open>auto simp: tee_fs_htree_sync_to_storage_def\<close>)

section \<open>The contract of a secure storage file\<close>



text \<open>
  C11: reading an open file gives the block that was written last, at any time between commits, and the
  length that was set last; a read fails only if a call fails or there is no such block, and no
  assertion fails.
\<close>
theorem htree_read_written:
  assumes "htree_life cr bs uuid (Some ht) w R cur" and "crypto_ok cr" and "Suc num < 2 ^ 32 - 1"
  shows "tee_fs_htree_get_meta ht = fst cur
    \<and> (case tee_fs_htree_read_block cr bs (Some ht) num w of
         (Ok (ht1, b), ht_arg, w') \<Rightarrow> snd (snd cur) num = Some b \<and> ht1 = ht \<and> ht_arg = Some ht
       | (Fail e, ht_arg, w') \<Rightarrow> ht_arg = None \<and> (calm w \<longrightarrow> snd (snd cur) num = None)
       | (Stuck, ht_arg, w') \<Rightarrow> False)"
proof -
  note inv = life_invariant [OF assms(1,2)]
  obtain c where c: "mem_tracks c ht" "snapshot_of cr bs ht (w_stor w) = cur" using inv by (auto simp: life_inv_def)
  then have meta: "tee_fs_htree_get_meta ht = fst cur" by (auto simp: tee_fs_htree_get_meta_def snapshot_of_def)
  obtain r ht_arg w' where r: "tee_fs_htree_read_block cr bs (Some ht) num w = (r, ht_arg, w')"
    by (cases "tee_fs_htree_read_block cr bs (Some ht) num w")
  have "snd (snd cur) num = None" if "calm w" "r = Fail e" for e
  proof (cases "contents cr bs ht (w_stor w) num")
    case (Some b)
    from read_block_calm [OF that(1) _ this] c(1) that(2) r show ?thesis by (simp add: mem_tracks_def)
  qed (use c(2) in \<open>auto simp: snapshot_of_def\<close>)
  then show ?thesis using read_any [OF inv assms(3) r] meta r by auto
qed

section \<open>An example\<close>

text \<open>A file of one block under a stand-in for cryptography, with calls that succeed.\<close>

definition toy_crypto :: fs_crypto where
  "toy_crypto = \<lparr>cr_hash = (\<lambda>(iv, tag, flags, meta, hs). word_of_nat (length hs)), cr_enc = (\<lambda>k a p. (p, 0)),
     cr_dec = (\<lambda>k a c t. Some c), cr_fek_enc = (\<lambda>u f. f), cr_fek_dec = (\<lambda>u f. f)\<rparr>"

definition toy_start :: world where
  "toy_start = \<lparr>w_stor = \<lparr>st_head = \<lambda>_. None, st_node = \<lambda>_ _. None, st_block = \<lambda>_ _. None, st_there = False\<rparr>,
     w_replies = [], w_randoms = []\<rparr>"

lemma toy_crypto_ok: "crypto_ok toy_crypto"
  by (simp add: crypto_ok_def toy_crypto_def)

lemma toy_life:
  "\<exists>ht w s. htree_life toy_crypto 1 [] (Some ht) w {s} (with_block 0 [7] s) \<and> calm w
     \<and> im_counter (ht_head ht) = 1"
proof -
  have start: "calm toy_start" by (simp add: toy_start_def calm_def)
  obtain c d w1 where c: "tee_fs_htree_open toy_crypto True None [] toy_start = (Ok (c, d), Some c, w1)" "calm w1"
    using create_calm [OF toy_crypto_ok start] by blast
  define s where "s = snapshot_of toy_crypto 1 c (w_stor w1)"
  have life: "htree_life toy_crypto 1 [] (Some c) w1 {s} s" by (rule created [OF c(1) s_def])
  note r = inv_created [OF toy_crypto_ok c(1), of 1, folded s_def]
  obtain ht w2 where w: "tee_fs_htree_write_block toy_crypto (Some c) 0 [7] w1 = (Ok ht, Some ht, w2)" "calm w2"
    "ht_head ht = ht_head c"
    using write_calm [OF toy_crypto_ok c(2) conjunct1 [OF r], of 0 "[7]"] by auto
  have "htree_life toy_crypto 1 [] (Some ht) w2 {s} (with_block 0 [7] s)"
    by (rule block_write [OF life _ _ _ w(1)]) simp_all
  moreover have "im_counter (ht_head ht) = 1" using w(3) r by simp
  ultimately show ?thesis using w(2) by blast
qed



theorem htree_read_written_witness:
  "\<exists>ht w w'. calm w \<and> tee_fs_htree_read_block toy_crypto 1 (Some ht) 0 w = (Ok (ht, [7]), Some ht, w')"
proof -
  obtain ht w s where l: "htree_life toy_crypto 1 [] (Some ht) w {s} (with_block 0 [7] s)" "calm w"
    using toy_life by blast
  have "snd (snd (with_block 0 [7] s)) 0 = Some [7]" by (simp add: with_block_def split: prod.splits)
  then show ?thesis using htree_read_written [OF l(1) toy_crypto_ok, of 0] l(2)
    by (auto split: prod.splits io.splits)
qed

end
