(* ===== verification/FsTrunc.thy ===== *)
theory FsTrunc
  imports FsLife
begin

text \<open>
  Truncating a secure storage file: what \<open>tee_fs_htree_truncate\<close> and a commit after it leave on storage.
\<close>

section \<open>The loop of \<open>tee_fs_htree_truncate\<close>\<close>

definition cut_tree :: "nat \<Rightarrow> htree \<Rightarrow> htree" where
  "cut_tree j ht = ht\<lparr>ht_nodes := take j (ht_nodes ht),
     ht_imeta := (ht_imeta ht)\<lparr>max_node_id := word_of_nat j\<rparr>, ht_dirty := True\<rparr>"

lemma truncate_loop_cut:
  assumes "nodes_count ht = unat (max_node_id (ht_imeta ht))" and "1 \<le> j" and "j < nodes_count ht"
  shows "truncate_loop j ht = Some (cut_tree j ht)"
  using assms
proof (induction "nodes_count ht - j" arbitrary: ht)
  case (Suc d)
  define k where "k = nodes_count ht"
  have k: "unat (max_node_id (ht_imeta ht)) = k" "1 < k" "j < k" using Suc.prems by (auto simp: k_def)
  have find: "find_closest_node ht k = k" using find_closest_present [of k ht] k by (simp add: k_def)
  define ht1 where "ht1 = ht\<lparr>ht_nodes := take (k - 1) (ht_nodes ht),
     ht_imeta := (ht_imeta ht)\<lparr>max_node_id := max_node_id (ht_imeta ht) - 1\<rparr>, ht_dirty := True\<rparr>"
  have step: "truncate_loop j ht = truncate_loop j ht1"
    using k find by (subst truncate_loop.simps) (simp add: Let_def k_def [symmetric] ht1_def)
  have cnt: "nodes_count ht1 = k - 1" by (simp add: ht1_def nodes_count_def k_def)
  have "max_node_id (ht_imeta ht) \<noteq> 0" using k by auto
  then have max: "unat (max_node_id (ht_imeta ht) - 1) = k - 1" using k(1) by (simp add: unat_minus_one)
  show ?case
  proof (cases "j = k - 1")
    case True
    have "max_node_id (ht_imeta ht) - 1 = word_of_nat j"
    proof -
      have "word_of_nat (unat (max_node_id (ht_imeta ht) - 1)) = max_node_id (ht_imeta ht) - 1" by simp
      then show ?thesis using max True by simp
    qed
    then have "ht1 = cut_tree j ht" using True by (simp add: ht1_def cut_tree_def)
    moreover have "truncate_loop j ht1 = Some ht1"
      using max True by (subst truncate_loop.simps) (simp add: Let_def ht1_def)
    ultimately show ?thesis using step by simp
  next
    case False
    have "truncate_loop j ht1 = Some (cut_tree j ht1)"
    proof (rule Suc.hyps(1))
      show "d = nodes_count ht1 - j" using Suc.hyps(2) cnt by (simp add: k_def)
      show "nodes_count ht1 = unat (max_node_id (ht_imeta ht1))" using max cnt by (simp add: ht1_def)
      show "1 \<le> j" "j < nodes_count ht1" using Suc.prems k False cnt by simp_all
    qed
    moreover have "cut_tree j ht1 = cut_tree j ht" using k False by (simp add: cut_tree_def ht1_def min_def)
    ultimately show ?thesis using step by simp
  qed
qed simp

section \<open>A commit of a tree whose root alone is dirty\<close>

lemma io_bind_ret [simp]: "io_bind (io_ret x) k = k x"
  by (simp add: io_bind_def io_ret_def)

lemma traverse_clean:
  assumes "\<forall>n \<in> set xs. \<not> dirty_at ht n \<and> \<not> nd_block_updated (node_at ht n)"
  shows "traverse (htree_sync_node_to_storage cr) (xs @ ys) ht = traverse (htree_sync_node_to_storage cr) ys ht"
  using assms by (induction xs) (simp_all add: htree_sync_node_to_storage_def Let_def)

lemma in_orderD: "in_order k (xs @ n # ys) \<Longrightarrow> n \<notin> set xs"
  unfolding in_order_def by blast

lemma order_ends: "1 \<le> k \<Longrightarrow> \<exists>xs. post_order k 1 = xs @ [1] \<and> set xs \<subseteq> {2..k}"
proof -
  assume k: "1 \<le> k"
  then have eq: "post_order k 1 = (post_order k 2 @ post_order k 3) @ [1]"
    by (subst post_order.simps) (simp add: numeral_3_eq_3)
  have "1 \<notin> set (post_order k 2 @ post_order k 3)"
    using in_orderD [of k "post_order k 2 @ post_order k 3" 1 "[]"] in_order_post_order [of 1 k] eq by simp
  moreover have "set (post_order k 2 @ post_order k 3) \<subseteq> {1..k}" using set_traversal [of k] eq by auto
  moreover have "S \<subseteq> {2..k}" if "1 \<notin> S" "S \<subseteq> {1..k}" for S
  proof
    fix x assume "x \<in> S"
    then have "x \<noteq> 1" "x \<in> {1..k}" using that by blast+
    then show "x \<in> {2..k}" by auto
  qed
  ultimately have "set (post_order k 2 @ post_order k 3) \<subseteq> {2..k}" by blast
  then show ?thesis using eq by blast
qed

lemma calm_write [simp]:
  "calm w \<Longrightarrow> rpc_write_final put w = (Ok (), w\<lparr>w_stor := put (w_stor w)\<rparr>)"
  "calm w \<Longrightarrow> rpc_write put w = (Ok (), w\<lparr>w_stor := put (w_stor w)\<rparr>)"
  "calm (w\<lparr>w_stor := st\<rparr>) = calm w"
  by (simp_all add: rpc_write_final_def rpc_write_def io_bind_def calm_def)

lemma calm_rng:
  assumes "calm w"
  shows "\<exists>iv w1. crypto_rng_read w = (Ok iv, w1) \<and> calm w1 \<and> w_stor w1 = w_stor w"
  using assms by (cases "w_randoms w") (simp_all add: crypto_rng_read_def io_bind_def calm_def)

lemma new_head_ok:
  assumes cr: "crypto_ok cr" and fek: "ht_fek h = cr_fek_dec cr (ht_uuid h) (im_enc_fek (ht_head h))"
    and enc: "(crypt, tag) = cr_enc cr (ht_fek h) (authenc_aad h None) (imeta_bytes (ht_imeta h))"
  shows "head_ok cr (h\<lparr>ht_head := (ht_head h)\<lparr>im_tag := tag, im_imeta := crypt\<rparr>, ht_dirty := False\<rparr>)"
proof -
  have "authenc_aad (h\<lparr>ht_head := (ht_head h)\<lparr>im_tag := tag, im_imeta := crypt\<rparr>, ht_dirty := False\<rparr>) None
      = authenc_aad h None"
    by (simp add: authenc_aad_def node_at_def)
  then show ?thesis using crypto_okD [OF cr enc [symmetric]] fek by (simp add: head_ok_def)
qed

text \<open>What such a commit writes: the root's new image and the new header.\<close>

lemma update_root_calm:
  assumes cr: "crypto_ok cr" and "calm w" and fek: "ht_fek h = cr_fek_dec cr (ht_uuid h) (im_enc_fek (ht_head h))"
  shows "\<exists>head w1. update_root cr h w = (Ok (h\<lparr>ht_head := head\<rparr>), w1) \<and> calm w1 \<and> w_stor w1 = w_stor w
    \<and> im_counter head = im_counter (ht_head h) + 1 \<and> head_ok cr (h\<lparr>ht_head := head, ht_dirty := False\<rparr>)"
proof -
  obtain iv w1 where r: "crypto_rng_read w = (Ok iv, w1)" "calm w1" "w_stor w1 = w_stor w"
    using calm_rng [OF assms(2)] by blast
  define h1 where "h1 = h\<lparr>ht_head := (ht_head h)\<lparr>im_counter := im_counter (ht_head h) + 1, im_iv := iv\<rparr>\<rparr>"
  obtain crypt tag where e: "(crypt, tag) = cr_enc cr (ht_fek h1) (authenc_aad h1 None) (imeta_bytes (ht_imeta h1))"
    by (cases "cr_enc cr (ht_fek h1) (authenc_aad h1 None) (imeta_bytes (ht_imeta h1))") auto
  have len: "length crypt = 16" using crypto_okD(1) [OF cr e [symmetric]] by simp
  have "update_root cr h w = (Ok (h1\<lparr>ht_head := (ht_head h1)\<lparr>im_tag := tag, im_imeta := crypt\<rparr>\<rparr>), w1)"
    using r len e [symmetric]
    by (simp add: update_root_def Let_def io_bind_def io_ret_def authenc_encrypt_final_def h1_def [symmetric])
  moreover have "head_ok cr (h1\<lparr>ht_head := (ht_head h1)\<lparr>im_tag := tag, im_imeta := crypt\<rparr>, ht_dirty := False\<rparr>)"
    by (rule new_head_ok [OF cr _ e]) (simp add: h1_def fek)
  ultimately show ?thesis
    using r(2,3) by (intro exI [of _ "(ht_head h1)\<lparr>im_tag := tag, im_imeta := crypt\<rparr>"] exI [of _ w1])
      (simp add: h1_def)
qed

lemma sync_root_calm:
  assumes cr: "crypto_ok cr" and w: "calm w" and fek: "ht_fek h = cr_fek_dec cr (ht_uuid h) (im_enc_fek (ht_head h))"
    and one: "1 \<le> nodes_count h" and root: "dirty_at h 1"
    and clean: "\<forall>n \<in> {2..nodes_count h}. \<not> dirty_at h n \<and> \<not> nd_block_updated (node_at h n)"
  shows "\<exists>ht d head m w1. sync_dirty cr h w = (Ok (ht, d), w1) \<and> calm w1
    \<and> m = moved 1 (cr_hash cr (node_hash_input h 1 (meta_of h 1))) h
    \<and> ht = m\<lparr>ht_head := head, ht_dirty := False\<rparr> \<and> im_counter head = im_counter (ht_head h) + 1 \<and> head_ok cr ht
    \<and> w_stor w1 = put_head (counter_slot ht) head (put_node 0 (1 - counter_slot h) (image_of m 1) (w_stor w))"
proof -
  define m where "m = moved 1 (cr_hash cr (node_hash_input h 1 (meta_of h 1))) h"
  define w0 where "w0 = w\<lparr>w_stor := put_node 0 (1 - counter_slot h) (image_of m 1) (w_stor w)\<rparr>"
  have w0: "calm w0" using w by (simp add: w0_def)
  obtain xs where xs: "post_order (nodes_count h) 1 = xs @ [1]" "set xs \<subseteq> {2..nodes_count h}"
    using order_ends [OF one] by blast
  have node: "htree_sync_node_to_storage cr 1 h w = (Ok m, w0)"
    using sync_node_eq [where ht = h and n = 1 and cr = cr] one root w
    by (simp add: Let_def io_bind_def io_ret_def rpc_write_node_def new_slot_def m_def w0_def)
  have trav: "htree_traverse_post_order (htree_sync_node_to_storage cr) h w = (Ok m, w0)"
  proof -
    have "\<forall>n \<in> set xs. \<not> dirty_at h n \<and> \<not> nd_block_updated (node_at h n)" using clean xs(2) by blast
    from traverse_clean [OF this, of cr "[1]"] show ?thesis
      unfolding htree_traverse_post_order_def xs(1) using node by (simp add: io_bind_def io_ret_def)
  qed
  have same: "ht_head m = ht_head h" "ht_fek m = ht_fek h" "ht_uuid m = ht_uuid h"
    using moved_frame [where ht = h and n = 1] by (simp_all add: m_def same_frame_def)
  obtain head w1 where u: "update_root cr m w0 = (Ok (m\<lparr>ht_head := head\<rparr>), w1)" "calm w1" "w_stor w1 = w_stor w0"
    "im_counter head = im_counter (ht_head m) + 1" "head_ok cr (m\<lparr>ht_head := head, ht_dirty := False\<rparr>)"
    using update_root_calm [OF cr w0, of m] fek same by auto
  let ?ht = "m\<lparr>ht_head := head, ht_dirty := False\<rparr>"
  let ?w = "w1\<lparr>w_stor := put_head (counter_slot ?ht) head (w_stor w1)\<rparr>"
  have slot: "unat (im_counter head) mod 2 = counter_slot ?ht" by (simp add: counter_slot_def)
  have "sync_dirty cr h w = (Ok (?ht, ni_hash (image_of m 1)), ?w)"
    using w trav u(1,2) slot
    by (simp add: sync_dirty_def io_bind_def io_ret_def rpc_write_head_def image_of_def node_at_def)
  moreover have "w_stor ?w = put_head (counter_slot ?ht) head (put_node 0 (1 - counter_slot h) (image_of m 1) (w_stor w))"
    using u(3) by (simp add: w0_def)
  ultimately show ?thesis using u(2,4,5) same(1) m_def by (metis calm_write(3))
qed

section \<open>Truncating a file of more than three blocks\<close>

definition truncated :: "64 word \<Rightarrow> nat \<Rightarrow> htree \<Rightarrow> htree" where
  "truncated l j c = tee_fs_htree_meta_set_dirty (set_meta_length l (cut_tree j c))"

lemma truncated_frame:
  assumes "settled c" and "1 \<le> j" and "j < nodes_count c"
  shows "nodes_count (truncated l j c) = j" "ht_head (truncated l j c) = ht_head c"
    "ht_fek (truncated l j c) = ht_fek c" "ht_uuid (truncated l j c) = ht_uuid c"
    "unat (max_node_id (ht_imeta (truncated l j c))) = j" "ht_dirty (truncated l j c)"
    "1 \<le> n \<Longrightarrow> n \<le> j \<Longrightarrow> node_at (truncated l j c) n =
      (if n = 1 then (node_at c 1)\<lparr>nd_dirty := True\<rparr> else node_at c n)"
proof -
  have small: "j < 2 ^ 32" using assms by (auto simp: settled_def shape_ok_def)
  show "nodes_count (truncated l j c) = j" "ht_head (truncated l j c) = ht_head c"
    "ht_fek (truncated l j c) = ht_fek c" "ht_uuid (truncated l j c) = ht_uuid c" "ht_dirty (truncated l j c)"
    using assms(2,3)
    by (simp_all add: truncated_def tee_fs_htree_meta_set_dirty_def set_meta_length_def cut_tree_def
        nodes_count_def set_node_def)
  show "unat (max_node_id (ht_imeta (truncated l j c))) = j"
    using small unat_of_nat_exact [where 'a = 32, of j]
    by (simp add: truncated_def tee_fs_htree_meta_set_dirty_def set_meta_length_def cut_tree_def set_node_def)
  let ?g = "(set_meta_length l (cut_tree j c))\<lparr>ht_dirty := True\<rparr>"
  assume n: "1 \<le> n" "n \<le> j"
  have g: "nodes_count ?g = j" "node_at ?g n = node_at c n" "node_at (set_meta_length l (cut_tree j c)) 1 = node_at c 1"
    using assms(2,3) n by (simp_all add: set_meta_length_def cut_tree_def nodes_count_def node_at_def)
  show "node_at (truncated l j c) n = (if n = 1 then (node_at c 1)\<lparr>nd_dirty := True\<rparr> else node_at c n)"
    unfolding truncated_def tee_fs_htree_meta_set_dirty_def
    using node_at_set [of 1 ?g n] n assms(2) by (simp only: g if_True order_refl)
qed

lemma truncated_commit:
  assumes cr: "crypto_ok cr" and c: "tree_valid cr c" "stored c blk (w_stor w)" and w: "calm w"
    and cnt: "unat (im_counter (ht_head c)) < 2 ^ 32 - 1" and j: "1 \<le> j" "j < nodes_count c"
  shows "\<exists>ht d w1. sync_dirty cr (truncated l j c) w = (Ok (ht, d), w1) \<and> calm w1 \<and> settled ht \<and> head_ok cr ht
    \<and> ht_uuid ht = ht_uuid c \<and> nodes_count ht = j \<and> stored ht (raw_blocks ht (w_stor w1)) (w_stor w1)
    \<and> (\<forall>n. 2 \<le> n \<and> n \<le> j \<longrightarrow> node_at ht n = node_at c n)"
proof -
  let ?h = "truncated l j c"
  have set: "settled c" and head: "head_ok cr c" using c(1) by (simp_all add: tree_valid_def)
  note frame = truncated_frame [OF set j]
  have clean: "\<not> dirty_at c n \<and> \<not> nd_block_updated (node_at c n)" if "1 \<le> n" "n \<le> j" for n
    using set that j(2) by (simp add: settled_def)
  have fek: "ht_fek ?h = cr_fek_dec cr (ht_uuid ?h) (im_enc_fek (ht_head ?h))"
    using head by (auto simp: frame head_ok_def)
  obtain ht d head m w1 where s: "sync_dirty cr ?h w = (Ok (ht, d), w1)" "calm w1"
    "m = moved 1 (cr_hash cr (node_hash_input ?h 1 (meta_of ?h 1))) ?h"
    "ht = m\<lparr>ht_head := head, ht_dirty := False\<rparr>" "im_counter head = im_counter (ht_head c) + 1" "head_ok cr ht"
    "w_stor w1 = put_head (counter_slot ht) head (put_node 0 (1 - counter_slot ?h) (image_of m 1) (w_stor w))"
    using sync_root_calm [OF cr w fek] frame j clean by (auto simp: numeral_2_eq_2)
  have mframe: "nodes_count m = j" "ht_imeta m = ht_imeta ?h" "ht_uuid m = ht_uuid c" "ht_head m = ht_head c"
    using moved_frame [where ht = ?h and n = 1] frame by (simp_all add: s(3) same_frame_def)
  have mnode: "node_at m n = (if n = 1 then \<lparr>nd_image = (image_of c 1)\<lparr>ni_hash := ni_hash (image_of m 1)\<rparr>,
      nd_dirty = False, nd_block_updated = False\<rparr> else node_at c n)" if "1 \<le> n" "n \<le> j" for n
  proof -
    have "within ?h 1" using frame(1) j(1) by simp
    from moved_node [OF this that(1)] moved_node [OF this, of 1] show ?thesis
      using frame(7) [OF that(1,2)] frame(7) [of 1] j(1) that by (simp add: s(3) image_of_def)
  qed
  have node: "node_at ht n = node_at m n" "image_of ht n = image_of m n" for n
    by (simp_all add: s(4) node_at_def image_of_def)
  have count: "nodes_count ht = j" using mframe(1) by (simp add: s(4) nodes_count_def)
  have slot: "counter_slot ?h = counter_slot c" by (simp add: counter_slot_def frame)
  have inc: "im_counter (ht_head ht) = im_counter (ht_head c) + 1" using s(4,5) by simp
  have "j < 2 ^ 32 - 1" using set j(2) by (auto simp: settled_def shape_ok_def)
  then have "settled ht"
    using count frame(5) mframe(2) j(1) mnode node(1) clean by (simp add: settled_def shape_ok_def s(4))
  moreover have "heads_stored ht (w_stor w1)"
  proof -
    have "st_head (put_node 0 (1 - counter_slot ?h) (image_of m 1) (w_stor w)) (counter_slot c) = Some (ht_head c)"
      using c(2) by (simp add: stored_def heads_stored_def)
    from heads_next [OF inc cnt this] show ?thesis unfolding s(7) by (simp add: s(4))
  qed
  moreover have "nodes_stored ht (w_stor w1)"
  proof -
    have "counter_slot ht = 1 - counter_slot c" by (rule next_slot(1) [OF inc cnt])
    then have "st_node (w_stor w1) 0 (counter_slot ht) = Some (image_of ht 1)"
      by (simp add: s(7) slot put_node_nodes node)
    moreover have "st_node (w_stor w1) (n - 1) (child_vers ht n) = Some (image_of ht n)"
      if n: "2 \<le> n" "n \<le> j" for n
    proof -
      have "flag_vers b (image_of m (n div 2)) = flag_vers b (image_of c (n div 2))" for b
        using mnode [of "n div 2"] n by (simp add: image_of_def)
      then have "child_vers ht n = child_vers c n" by (simp add: child_vers_def node)
      moreover have "image_of ht n = image_of c n" using mnode [of n] n by (simp add: node image_of_def)
      ultimately show ?thesis using c(2) n j(2) by (simp add: s(7) put_node_nodes stored_def nodes_stored_def)
    qed
    ultimately show ?thesis using count by (simp add: nodes_stored_def)
  qed
  ultimately have "settled ht \<and> stored ht (raw_blocks ht (w_stor w1)) (w_stor w1)"
    by (simp add: stored_def raw_blocks_def)
  moreover have "\<forall>n. 2 \<le> n \<and> n \<le> j \<longrightarrow> node_at ht n = node_at c n" using mnode node(1) by simp
  moreover have "ht_uuid ht = ht_uuid c" using mframe(3) by (simp add: s(4))
  ultimately show ?thesis using s(1,2,6) count by blast
qed

text \<open>The digest of some node that stays has been computed over a node that goes.\<close>

lemma stale_node:
  assumes "2 \<le> j" and "j < nodes_count c" and "4 \<le> nodes_count c"
  shows "\<exists>p. 2 \<le> p \<and> p \<le> j \<and> length (children (part c j) p) \<noteq> length (children c p)"
proof (cases "j = 2")
  case True
  have "children (part c j) 2 = []" "4 \<in> set (children c 2)"
    using assms True by (auto simp: children_def)
  then show ?thesis using True by (intro exI [of _ 2]) auto
next
  case False
  define p where "p = Suc j div 2"
  have p: "2 \<le> p" "p \<le> j" using assms(1) False by (auto simp: p_def)
  have kid: "Suc j = 2 * p \<or> Suc j = 2 * p + 1" by (auto simp: p_def)
  have cnt: "nodes_count (part c j) = j" using assms(2) by simp
  have "length (children (part c j) p) < length (children c p)"
    unfolding children_def cnt using kid assms(2) by auto
  then show ?thesis using p by (intro exI [of _ p]) simp
qed

text \<open>
  C34: truncating a committed file of at least four blocks to a length that keeps at least two leaves a
  file that cannot be opened any more, although every call succeeds: the parents of the removed nodes
  are not marked, so the commit does not compute their digests again. It takes no more than that the
  digest function tells the inputs of these nodes apart.
\<close>
theorem htree_truncate_corrupts:
  assumes "crypto_ok cr" and "tree_valid cr c" and "stored c blk (w_stor w)" and "calm w"
    and "unat (im_counter (ht_head c)) < 2 ^ 32 - 1"
    and "1 \<le> num" and "Suc num < nodes_count c" and "4 \<le> nodes_count c"
    and tells: "\<And>p. length (children (part c (Suc num)) p) \<noteq> length (children c p) \<Longrightarrow>
      cr_hash cr (node_hash_input (part c (Suc num)) p None) \<noteq> cr_hash cr (node_hash_input c p None)"
  shows "\<exists>ht x ht1 w1. tee_fs_htree_truncate (Some c) num = Some (TEE_SUCCESS, Some ht)
    \<and> tee_fs_htree_sync_to_storage cr (Some (tee_fs_htree_meta_set_dirty (set_meta_length l ht))) w
        = (Ok x, Some ht1, w1)
    \<and> tee_fs_htree_open cr False None (ht_uuid c) w1 = (Fail TEE_ERROR_CORRUPT_OBJECT, None, w1)"
proof -
  let ?j = "Suc num"
  have set: "settled c" and shape: "nodes_count c = unat (max_node_id (ht_imeta c))"
    using assms(2,8) by (auto simp: tree_valid_def settled_def shape_ok_def)
  have j: "1 \<le> ?j" "2 \<le> ?j" using assms(6) by simp_all
  have trunc: "tee_fs_htree_truncate (Some c) num = Some (TEE_SUCCESS, Some (cut_tree ?j c))"
    using truncate_loop_cut [OF shape j(1) assms(7)]
    by (simp add: tee_fs_htree_truncate_def BLOCK_NUM_TO_NODE_ID_def)
  obtain ht d w1 where ht: "sync_dirty cr (truncated l ?j c) w = (Ok (ht, d), w1)" "calm w1" "settled ht" "head_ok cr ht"
    "ht_uuid ht = ht_uuid c" "nodes_count ht = ?j" "stored ht (raw_blocks ht (w_stor w1)) (w_stor w1)"
    "\<forall>n. 2 \<le> n \<and> n \<le> ?j \<longrightarrow> node_at ht n = node_at c n"
    using truncated_commit [OF assms(1-5) j(1) assms(7), of l] by blast
  obtain p where p: "2 \<le> p" "p \<le> ?j" "length (children (part c ?j) p) \<noteq> length (children c p)"
    using stale_node [OF j(2) assms(7,8)] by blast
  have "node_hash_input ht p None = node_hash_input (part c ?j) p None"
  proof (rule hash_input_cong)
    have node: "image_of ht n = image_of (part c ?j) n" if "2 \<le> n" "n \<le> ?j" for n
      using ht(8) that assms(7) by (simp add: image_of_def node_at_def part_def)
    show "nodes_count ht = nodes_count (part c ?j)" using ht(6) assms(7) by simp
    fix m assume "m \<in> set (children (part c ?j) p)"
    then show "ni_hash (image_of ht m) = ni_hash (image_of (part c ?j) m)"
      using node [of m] p assms(7) by (auto simp: in_children)
  qed (use ht(8) p assms(7) in \<open>simp_all add: image_of_def node_at_def part_def\<close>)
  moreover have "digest_ok cr c p" using assms(2,7) p by (simp add: tree_valid_def)
  moreover have "image_of ht p = image_of c p" using ht(8) p by (simp add: image_of_def)
  ultimately have "\<not> digest_ok cr ht p" using tells [OF p(3)] p(1) by (simp add: digest_ok_def meta_of_def)
  then have "\<not> (\<forall>n. 1 \<le> n \<and> n \<le> nodes_count ht \<longrightarrow> digest_ok cr ht n)"
    using p(1,2) ht(6) by (intro notI) simp
  then have "load_htree cr (ht_uuid ht) None w1 = (Fail TEE_ERROR_CORRUPT_OBJECT, w1)"
    using load_stored [OF ht(3,4,7,2), of None] by (simp only: hash_finds_def option.case if_False)
  then have "tee_fs_htree_open cr False None (ht_uuid c) w1 = (Fail TEE_ERROR_CORRUPT_OBJECT, None, w1)"
    using ht(5) by (simp add: tee_fs_htree_open_def closing_def io_bind_def)
  moreover have "tee_fs_htree_sync_to_storage cr (Some (truncated l ?j c)) w = (Ok (ht, Some d), Some ht, w1)"
    using ht(1) truncated_frame(6) [OF set j(1) assms(7)] assms(4)
    by (simp add: tee_fs_htree_sync_to_storage_def closing_def io_bind_def io_ret_def)
  ultimately show ?thesis using trunc by (auto simp: truncated_def)
qed

text \<open>A file of four blocks.\<close>

definition toy_node :: "256 word \<Rightarrow> htree_node" where
  "toy_node d = zero_node\<lparr>nd_image := zero_image\<lparr>ni_hash := d\<rparr>\<rparr>"

definition toy_full :: htree where
  "toy_full = \<lparr>ht_nodes = [toy_node 2, toy_node 1, toy_node 0, toy_node 0],
     ht_head = zero_head\<lparr>im_counter := 2, im_imeta := imeta_bytes \<lparr>meta_length = 0, max_node_id = 4\<rparr>\<rparr>,
     ht_fek = 0, ht_imeta = \<lparr>meta_length = 0, max_node_id = 4\<rparr>, ht_dirty = False, ht_uuid = []\<rparr>"

definition toy_disk :: world where
  "toy_disk = \<lparr>w_stor = \<lparr>st_head = \<lambda>v. Some (if v = 0 then ht_head toy_full else zero_head\<lparr>im_counter := 1\<rparr>),
     st_node = \<lambda>i v. Some (image_of toy_full (Suc i)), st_block = \<lambda>i v. None, st_there = True\<rparr>, w_replies = [], w_randoms = []\<rparr>"

lemma toy_full_nodes: "nodes_count toy_full = 4"
  "\<And>n. 1 \<le> n \<Longrightarrow> n \<le> 4 \<Longrightarrow> n = 1 \<or> n = 2 \<or> n = 3 \<or> n = (4 :: nat)"
  by (auto simp: nodes_count_def toy_full_def)

lemma toy_full_valid: "tree_valid toy_crypto toy_full"
proof -
  have node: "node_at toy_full 1 = toy_node 2" "node_at toy_full 2 = toy_node 1" "node_at toy_full 3 = toy_node 0"
    "node_at toy_full 4 = toy_node 0"
    by (simp_all add: node_at_def toy_full_def)
  have clean: "\<not> dirty_at toy_full n \<and> \<not> nd_block_updated (node_at toy_full n)" if "1 \<le> n" "n \<le> 4" for n
    using toy_full_nodes(2) [OF that] node by (auto simp: toy_node_def zero_node_def)
  have dig: "digest_ok toy_crypto toy_full n" if "1 \<le> n" "n \<le> 4" for n
    using toy_full_nodes(2) [OF that] node toy_full_nodes(1)
    by (auto simp: digest_ok_def image_of_def toy_node_def toy_crypto_def node_hash_input_def Let_def children_def)
  have "settled toy_full" using clean toy_full_nodes(1) by (simp add: settled_def shape_ok_def toy_full_def)
  moreover have "head_ok toy_crypto toy_full"
    by (simp add: head_ok_def toy_full_def toy_crypto_def zero_head_def)
  ultimately show ?thesis using dig toy_full_nodes(1) by (simp add: tree_valid_def)
qed

lemma toy_disk_stored: "stored toy_full (\<lambda>_. None) (w_stor toy_disk)"
proof -
  have "counter_slot toy_full = 0" by (simp add: counter_slot_def toy_full_def)
  then show ?thesis
    by (simp add: stored_def heads_stored_def nodes_stored_def toy_disk_def)
       (simp add: toy_full_def)
qed

theorem htree_truncate_corrupts_witness:
  "\<exists>ht x ht1 w1. tee_fs_htree_truncate (Some toy_full) 1 = Some (TEE_SUCCESS, Some ht)
    \<and> tee_fs_htree_sync_to_storage toy_crypto (Some (tee_fs_htree_meta_set_dirty (set_meta_length 9 ht))) toy_disk
        = (Ok x, Some ht1, w1)
    \<and> tee_fs_htree_open toy_crypto False None [] w1 = (Fail TEE_ERROR_CORRUPT_OBJECT, None, w1)"
proof -
  have calm: "calm toy_disk" by (simp add: calm_def toy_disk_def)
  have cnt: "unat (im_counter (ht_head toy_full)) < 2 ^ 32 - 1" "ht_uuid toy_full = []" by (simp_all add: toy_full_def)
  have tells: "cr_hash toy_crypto (node_hash_input (part toy_full (Suc 1)) p None)
      \<noteq> cr_hash toy_crypto (node_hash_input toy_full p None)"
    if "length (children (part toy_full (Suc 1)) p) \<noteq> length (children toy_full p)" for p
  proof -
    have "length (children h p) < 3" for h by (simp add: children_def)
    then have u: "unat (word_of_nat (length (children h p)) :: 256 word) = length (children h p)" for h
      by (intro unat_of_nat_exact) (rule less_trans, assumption, simp)
    then have "(word_of_nat (length (children h p)) :: 256 word) = word_of_nat (length (children h' p))
      \<Longrightarrow> length (children h p) = length (children h' p)" for h h'
      by metis
    then show ?thesis using that by (auto simp: toy_crypto_def node_hash_input_def Let_def)
  qed
  show ?thesis
    using htree_truncate_corrupts [OF toy_crypto_ok toy_full_valid toy_disk_stored calm cnt(1) _ _ _ tells, where l = 9]
    by (simp add: toy_full_nodes(1) cnt(2))
qed

end
