(* ===== verification/FsMerkle.thy ===== *)
theory FsMerkle
  imports FsTrunc
begin

text \<open>
  Authenticity of secure storage files: what a file that opens with a given digest may contain, whatever
  storage normal world presents.
\<close>

section \<open>What a file opened with a digest contains\<close>

definition hashed :: "htree \<Rightarrow> hash_input set" where
  "hashed ht = (\<lambda>n. node_hash_input ht n (meta_of ht n)) ` {n. within ht n}"

definition no_collision :: "fs_crypto \<Rightarrow> hash_input set \<Rightarrow> hash_input set \<Rightarrow> bool" where
  "no_collision cr A B \<longleftrightarrow> (\<forall>x \<in> A. \<forall>y \<in> B. cr_hash cr x = cr_hash cr y \<longrightarrow> x = y)"

definition verified :: "fs_crypto \<Rightarrow> htree \<Rightarrow> bool" where
  "verified cr h \<longleftrightarrow> (\<forall>n. within h n \<longrightarrow> digest_ok cr h n)"

lemma add_nodes_extends:
  "add_nodes n node_id ht w = (Ok h, w') \<Longrightarrow> \<exists>xs. ht_nodes h = ht_nodes ht @ xs"
proof (induction n node_id ht arbitrary: w rule: add_nodes.induct)
  case (1 n node_id ht)
  show ?case
  proof (cases "node_id < n")
    case True
    then show ?thesis using 1(3) by (subst (asm) add_nodes.simps) (simp add: io_ret_def)
  next
    case False
    note ih = 1(1,2) [OF False refl] and eq = 1(3)
    show ?thesis
    proof (cases "find_closest_node ht n = n")
      case True
      then show ?thesis using ih(1) [OF True] eq False by (subst (asm) (2) add_nodes.simps) simp
    next
      case ne: False
      let ?h = "ht\<lparr>ht_nodes := ht_nodes ht @ [zero_node]\<rparr>"
      have ok: "\<not> (n div 2 \<noteq> find_closest_node ht n \<or> n \<le> nodes_count ht)"
      proof
        assume "n div 2 \<noteq> find_closest_node ht n \<or> n \<le> nodes_count ht"
        then show False using eq False ne by (subst (asm) add_nodes.simps) (simp add: Let_def io_stuck_def)
      qed
      then obtain w1 where "add_nodes (Suc n) node_id ?h w1 = (Ok h, w')"
        using eq False ne by (subst (asm) add_nodes.simps) (auto simp: Let_def io_bind_Ok)
      from ih(2) [OF ne ok this] show ?thesis by auto
    qed
  qed
qed

lemma get_node_extends:
  assumes "get_node create n ht w = (Ok h, w')"
  shows "\<exists>xs. ht_nodes h = ht_nodes ht @ xs"
  using assms
  by (auto simp: get_node_def Let_def io_ret_def io_fail_def io_stuck_def io_bind_Ok
      dest!: add_nodes_extends split: if_splits)

lemma init_tree_root:
  assumes "init_tree_loop max_id n ht w = (Ok h, w')" and "2 \<le> n" and "1 \<le> nodes_count ht"
  shows "1 \<le> nodes_count h \<and> image_of h 1 = image_of ht 1"
  using assms
proof (induction max_id n ht arbitrary: w rule: init_tree_loop.induct)
  case (1 max_id n ht)
  show ?case
  proof (cases "max_id < n")
    case True
    then show ?thesis using 1(2,4) by (subst (asm) init_tree_loop.simps) (simp add: io_ret_def)
  next
    case False
    then obtain p where p: "find_node ht (n div 2) = Some p"
      using 1(2) by (subst (asm) init_tree_loop.simps) (auto simp: io_fail_def split: option.splits)
    then obtain im h1 w1 w2 where h1: "get_node True n ht w1 = (Ok h1, w2)"
      "init_tree_loop max_id (Suc n) (set_node n ((node_at h1 n)\<lparr>nd_image := im\<rparr>) h1) w2 = (Ok h, w')"
      using 1(2) False by (subst (asm) init_tree_loop.simps) (auto simp: io_bind_Ok)
    obtain xs where xs: "ht_nodes h1 = ht_nodes ht @ xs" using get_node_extends [OF h1(1)] by blast
    have "1 \<le> nodes_count h1" "image_of h1 1 = image_of ht 1"
      using xs 1(4) by (auto simp: nodes_count_def image_of_def node_at_def nth_append)
    moreover have "image_of (set_node n nd h1) 1 = image_of h1 1" for nd
      using 1(3) by (simp add: image_of_def node_at_def set_node_def)
    ultimately show ?thesis using 1(1) [OF False p h1(2)] 1(3) by simp
  qed
qed

lemma load_verified:
  assumes "load_htree cr uuid (Some h) w = (Ok ht, w')"
  shows "1 \<le> nodes_count ht" and "ni_hash (image_of ht 1) = h" and "verified cr ht"
proof -
  have "load_htree cr uuid (Some h) (quiet w) = (Ok ht, quiet w')"
    using reads_only_load [of cr uuid "Some h"] assms by (auto simp: reads_only_def dest: spec [of _ w])
  then obtain head root w1 h0 w2 h1 w3 where
      r: "init_head_from_data (Some h) (quiet w) = (Ok (head, root), w1)" and
      v: "verify_root cr ((empty_htree uuid)\<lparr>ht_head := head, ht_nodes := [zero_node\<lparr>nd_image := root\<rparr>]\<rparr>) w1 = (Ok h0, w2)" and
      t: "init_tree_from_data h0 w2 = (Ok h1, w3)" and
      ver: "verify_tree cr h1 w3 = (Ok ht, quiet w')"
    by (auto simp: load_htree_def io_bind_Ok)
  have root: "ni_hash root = h"
    using r by (auto simp: init_head_from_data_def io_bind_Ok io_ret_def io_fail_def split: if_splits)
  have h0: "1 \<le> nodes_count h0 \<and> image_of h0 1 = root"
    using v by (auto simp: verify_root_def Let_def io_bind_Ok io_ret_def nodes_count_def image_of_def node_at_def)
  then have h1: "1 \<le> nodes_count h1 \<and> image_of h1 1 = root"
    using init_tree_root [OF t [unfolded init_tree_from_data_def]] by simp
  have "reads_only (verify_tree cr h1)"
    by (auto simp: verify_tree_def htree_traverse_post_order_def verify_node_def intro!: reads_only_traverse)
  then have "verify_tree cr h1 (quiet w3) = (Ok ht, quiet w')"
    using ver by (auto simp: reads_only_def dest: spec [of _ w3])
  then have "ht = h1 \<and> (\<forall>n. within h1 n \<longrightarrow> digest_ok cr h1 n)"
    using verify_tree_calm [of "quiet w3" cr h1] by (auto split: if_splits)
  then show "1 \<le> nodes_count ht" "ni_hash (image_of ht 1) = h" "verified cr ht"
    using h1 root by (auto simp: verified_def)
qed

lemma children_eq: "length (children h p) = length (children h' p) \<Longrightarrow> children h p = children h' p"
  by (auto simp: children_def split: if_splits)

lemma same_input_node:
  assumes digests: "verified cr h" "verified cr h'" and n: "within h n" "within h' n"
    and coll: "no_collision cr (hashed h) (hashed h')"
    and eq: "ni_hash (image_of h n) = ni_hash (image_of h' n)"
  shows "image_of h n = image_of h' n" and "meta_of h n = meta_of h' n"
    and "m \<in> set (children h n) \<Longrightarrow> m \<in> set (children h' n) \<and> ni_hash (image_of h m) = ni_hash (image_of h' m)"
proof -
  have "node_hash_input h n (meta_of h n) = node_hash_input h' n (meta_of h' n)"
  proof -
    have "node_hash_input h n (meta_of h n) \<in> hashed h" "node_hash_input h' n (meta_of h' n) \<in> hashed h'"
      using n by (auto simp: hashed_def)
    moreover have "digest_ok cr h n" "digest_ok cr h' n" using digests n by (auto simp: verified_def)
    ultimately show ?thesis using coll eq by (auto simp: no_collision_def digest_ok_def)
  qed
  then have same: "ni_iv (image_of h n) = ni_iv (image_of h' n)" "ni_tag (image_of h n) = ni_tag (image_of h' n)"
    "ni_flags (image_of h n) = ni_flags (image_of h' n)" "meta_of h n = meta_of h' n"
    "map (\<lambda>c. ni_hash (image_of h c)) (children h n) = map (\<lambda>c. ni_hash (image_of h' c)) (children h' n)"
    by (simp_all add: node_hash_input_def Let_def image_of_def)
  show "image_of h n = image_of h' n" using same(1-3) eq by (intro node_image.equality) simp_all
  show "meta_of h n = meta_of h' n" by (rule same(4))
  have kids: "children h n = children h' n" using same(5) by (intro children_eq) (metis length_map)
  then show "m \<in> set (children h n) \<Longrightarrow> m \<in> set (children h' n) \<and> ni_hash (image_of h m) = ni_hash (image_of h' m)"
    using same(5) by (auto simp: map_eq_conv)
qed

lemma same_below:
  assumes digests: "verified cr h" "verified cr h'"
    and root: "ni_hash (image_of h 1) = ni_hash (image_of h' 1)" "1 \<le> nodes_count h'"
    and coll: "no_collision cr (hashed h) (hashed h')"
    and n: "within h n"
  shows "within h' n \<and> image_of h n = image_of h' n \<and> meta_of h n = meta_of h' n"
  using n
proof (induction n rule: less_induct)
  case (less n)
  have "within h' n \<and> ni_hash (image_of h n) = ni_hash (image_of h' n)"
  proof (cases "n = 1")
    case False
    then have p: "within h (n div 2)" "n div 2 < n" "2 \<le> n" using less.prems by auto
    then have h': "within h' (n div 2)" and "image_of h (n div 2) = image_of h' (n div 2)"
      using less.IH by blast+
    then have "ni_hash (image_of h (n div 2)) = ni_hash (image_of h' (n div 2))" by simp
    from same_input_node(3) [OF digests p(1) h' coll this parent_child]
    show ?thesis using p(3) less.prems by (auto simp: in_children)
  qed (use root in simp)
  then show ?case
    using same_input_node(1,2) [OF digests less.prems _ coll] by blast
qed

text \<open>
  C2: a digest stands for the whole file. If two openings with the same expected digest succeed, on any
  storage normal world offers and with any calls failing or not, both give the same number of blocks,
  the same length and the same vectors, tags and flags for every block, unless the digest function
  gives the same value for two different inputs hashed in them.
\<close>
theorem htree_open_authentic:
  assumes "tee_fs_htree_open cr False (Some h) uuid w = (Ok (ht, d), harg, w1)"
    and "tee_fs_htree_open cr False (Some h) uuid' w' = (Ok (ht', d'), harg', w1')"
    and coll: "no_collision cr (hashed ht) (hashed ht')"
  shows "nodes_count ht = nodes_count ht' \<and> tee_fs_htree_get_meta ht = tee_fs_htree_get_meta ht'
    \<and> (\<forall>n. within ht n \<longrightarrow> image_of ht n = image_of ht' n)"
proof -
  have load: "load_htree cr uuid (Some h) w = (Ok ht, w1)" "load_htree cr uuid' (Some h) w' = (Ok ht', w1')"
    using assms(1,2) by (auto simp: tee_fs_htree_open_def closing_def io_bind_def io_ret_def split: prod.splits io.splits)
  note v = load_verified [OF load(1)] and v' = load_verified [OF load(2)]
  have coll': "no_collision cr (hashed ht') (hashed ht)" using coll unfolding no_collision_def by metis
  have root: "ni_hash (image_of ht 1) = ni_hash (image_of ht' 1)" using v(2) v'(2) by simp
  note up = same_below [OF v(3) v'(3) root v'(1) coll] and down = same_below [OF v'(3) v(3) root [symmetric] v(1) coll']
  have "nodes_count ht = nodes_count ht'"
    using up [of "nodes_count ht"] down [of "nodes_count ht'"] v(1) v'(1) by (intro le_antisym) auto
  moreover have "tee_fs_htree_get_meta ht = tee_fs_htree_get_meta ht'"
    using up [of 1] v(1) by (auto simp: tee_fs_htree_get_meta_def meta_of_def)
  ultimately show ?thesis using up by blast
qed

theorem htree_open_authentic_witness:
  "\<exists>ht ht' w1 w1'. tee_fs_htree_open toy_crypto False (Some 2) [] toy_disk = (Ok (ht, Some 2), Some ht, w1)
    \<and> tee_fs_htree_open toy_crypto False (Some 2) [] (toy_disk\<lparr>w_stor := put_block 0 0 [1] (w_stor toy_disk)\<rparr>)
        = (Ok (ht', Some 2), Some ht', w1')
    \<and> nodes_count ht = nodes_count ht' \<and> image_of ht 1 = image_of ht' 1"
proof -
  let ?w' = "toy_disk\<lparr>w_stor := put_block 0 0 [1] (w_stor toy_disk)\<rparr>"
  have calm: "calm toy_disk" "calm ?w'" by (simp_all add: calm_def toy_disk_def)
  have slot: "counter_slot toy_full = 0" "ht_uuid toy_full = []" by (simp_all add: counter_slot_def toy_full_def)
  have root: "ni_hash (image_of toy_full 1) = 2" by (simp add: image_of_def node_at_def toy_full_def toy_node_def)
  have st': "stored toy_full (\<lambda>n. if n = 0 \<and> block_vers toy_full 0 = 0 then Some [1] else None) (w_stor ?w')"
    using toy_disk_stored
    by (auto simp: stored_def heads_stored_def nodes_stored_def put_block_def)
  have finds: "hash_finds (Some 2) toy_full st" for st using slot root by (simp add: hash_finds_def)
  have v: "settled toy_full" "head_ok toy_crypto toy_full" "\<forall>n. 1 \<le> n \<and> n \<le> nodes_count toy_full \<longrightarrow> digest_ok toy_crypto toy_full n"
    using toy_full_valid by (simp_all add: tree_valid_def)
  have "tee_fs_htree_open toy_crypto False (Some 2) [] w = (Ok (toy_full, Some 2), Some toy_full, w)"
    if "calm w" "stored toy_full blk (w_stor w)" for w blk
    using load_stored [OF v(1,2) that(2,1) finds] v(3) slot(2)
    by (simp add: tee_fs_htree_open_def closing_def io_bind_def io_ret_def)
  note o = this [OF calm(1) toy_disk_stored] this [OF calm(2) st']
  have "no_collision toy_crypto (hashed toy_full) (hashed toy_full)"
  proof -
    have "x \<in> {(0, 0, 0, Some 0, [1, 0]), (0, 0, 0, None, [0]), (0, 0, 0, None, [])}" if x: "x \<in> hashed toy_full" for x
    proof -
      obtain n where n: "within toy_full n" "x = node_hash_input toy_full n (meta_of toy_full n)"
        using x by (auto simp: hashed_def)
      then have "n = 1 \<or> n = 2 \<or> n = 3 \<or> n = 4" using toy_full_nodes by simp
      then show ?thesis unfolding n(2)
        by (auto simp: node_hash_input_def Let_def children_def toy_full_nodes(1) meta_of_def)
           (simp_all add: node_at_def toy_full_def toy_node_def zero_node_def zero_image_def)
    qed
    then have sub: "hashed toy_full \<subseteq> {(0, 0, 0, Some 0, [1, 0]), (0, 0, 0, None, [0]), (0, 0, 0, None, [])}"
      by (rule subsetI)
    have "no_collision toy_crypto {(0, 0, 0, Some 0, [1, 0]), (0, 0, 0, None, [0]), (0, 0, 0, None, [])}
        {(0, 0, 0, Some 0, [1, 0]), (0, 0, 0, None, [0]), (0, 0, 0, None, [])}"
      by (simp add: no_collision_def toy_crypto_def)
    then show ?thesis using sub unfolding no_collision_def by blast
  qed
  from htree_open_authentic [OF o this] show ?thesis using o toy_full_nodes(1) by blast
qed

end
