(* ===== verification/FsRee.thy ===== *)
theory FsRee
  imports FsTrunc
begin

text \<open>
  Files of the normal-world file system (\<open>core/tee/tee_ree_fs.c\<close>): where the parts of a hash tree are
  in the file, and reading, writing and truncating a file at byte positions.
\<close>

section \<open>Places in the file\<close>

definition BLOCK_SHIFT :: nat where "BLOCK_SHIFT = 12"

definition BLOCK_SIZE :: nat where "BLOCK_SIZE = 2 ^ BLOCK_SHIFT"

text \<open>The argument and the result are of type \<open>int\<close>.\<close>

definition pos_to_block_num :: "32 word \<Rightarrow> 32 word" where
  "pos_to_block_num position = signed_drop_bit BLOCK_SHIFT position"

text \<open>Sizes of the structures; the comment in \<open>get_offs_size\<close> gives 66 for a node, of which 31 fit twice.\<close>

definition head_size :: nat where "head_size = 68"

definition node_size :: nat where "node_size = 66"

definition block_nodes :: nat where "block_nodes = BLOCK_SIZE div (node_size * 2)"

definition get_offs_size :: "htree_type \<Rightarrow> nat \<Rightarrow> nat \<Rightarrow> nat \<times> nat" where
  "get_offs_size type idx vers = (case type of
     TEE_FS_HTREE_TYPE_HEAD \<Rightarrow> (head_size * vers, head_size)
   | TEE_FS_HTREE_TYPE_NODE \<Rightarrow>
       let pbn = 1 + idx div block_nodes * block_nodes * 2
       in (pbn * BLOCK_SIZE + 2 * node_size * (idx mod block_nodes) + node_size * vers, node_size)
   | TEE_FS_HTREE_TYPE_BLOCK \<Rightarrow>
       let bidx = 2 * idx + vers; pbn = 2 + bidx + bidx div (block_nodes * 2 - 1)
       in (pbn * BLOCK_SIZE, BLOCK_SIZE))"

section \<open>Operations on an open file\<close>

text \<open>
  The state is the tree behind \<open>fdp->ht\<close> with the world. \<open>tee_fs_htree_get_meta\<close> gives a pointer
  into the tree, so that using it after the tree has been freed is the error \<open>Stuck\<close>.
\<close>

type_synonym ree_file = "htree option \<times> world"

definition with_ht :: "(htree option \<Rightarrow> world \<Rightarrow> 'a io \<times> htree option \<times> world) \<Rightarrow> (ree_file, 'a) sm" where
  "with_ht f = (\<lambda>(h, w). f h w)"

definition get_length :: "(ree_file, 64 word) sm" where
  "get_length = (\<lambda>(h, w). case h of None \<Rightarrow> (Stuck, (h, w)) | Some ht \<Rightarrow> (Ok (tee_fs_htree_get_meta ht), (h, w)))"

definition set_length :: "64 word \<Rightarrow> (ree_file, unit) sm" where
  "set_length l = (\<lambda>(h, w). case h of None \<Rightarrow> (Stuck, (h, w))
     | Some ht \<Rightarrow> (Ok (), (Some (tee_fs_htree_meta_set_dirty (set_meta_length l ht)), w)))"

definition get_tmp_block :: "(ree_file, unit) sm" where
  "get_tmp_block = with_ht (\<lambda>h w. case io_call w of
     (Ok _, w1) \<Rightarrow> (Ok (), h, w1) | (Fail _, w1) \<Rightarrow> (Fail TEE_ERROR_OUT_OF_MEMORY, h, w1) | (Stuck, w1) \<Rightarrow> (Stuck, h, w1))"

definition fd_read_block :: "fs_crypto \<Rightarrow> nat \<Rightarrow> (ree_file, bytes) sm" where
  "fd_read_block cr num = with_ht (\<lambda>h w. case tee_fs_htree_read_block cr BLOCK_SIZE h num w of
     (r, h1, w1) \<Rightarrow> (map_io snd r, h1, w1))"

definition fd_write_block :: "fs_crypto \<Rightarrow> nat \<Rightarrow> bytes \<Rightarrow> (ree_file, unit) sm" where
  "fd_write_block cr num b = with_ht (\<lambda>h w. case tee_fs_htree_write_block cr h num b w of
     (r, h1, w1) \<Rightarrow> (map_io (\<lambda>_. ()) r, h1, w1))"

text \<open>\<open>memcpy\<close> or \<open>memset\<close> into a block at an offset.\<close>

definition overlay :: "bytes \<Rightarrow> nat \<Rightarrow> bytes \<Rightarrow> bytes" where
  "overlay block offset chunk = take offset block @ chunk @ drop (offset + length chunk) block"

text \<open>\<open>data\<close> is \<open>None\<close> for a null pointer, which stands for zeros.\<close>

definition chunk_of :: "nat \<Rightarrow> bytes option \<Rightarrow> bytes" where
  "chunk_of k data = (case data of Some d \<Rightarrow> take k d | None \<Rightarrow> replicate k 0)"

definition chunk_size :: "nat \<Rightarrow> nat \<Rightarrow> nat" where
  "chunk_size pos remain =
     (let offset = pos mod BLOCK_SIZE; sz = min remain BLOCK_SIZE
      in if sz + offset > BLOCK_SIZE then BLOCK_SIZE - offset else sz)"

definition round_length :: "64 word \<Rightarrow> nat" where
  "round_length l = (unat l + (BLOCK_SIZE - 1)) mod 2 ^ 64 div BLOCK_SIZE * BLOCK_SIZE"

text \<open>The loop of \<open>out_of_place_write\<close>; it returns the position reached.\<close>

function write_loop :: "fs_crypto \<Rightarrow> nat \<Rightarrow> nat \<Rightarrow> nat \<Rightarrow> nat \<Rightarrow> bytes option \<Rightarrow> (ree_file, nat) sm" where
  "write_loop cr start_block_num end_block_num pos remain_bytes data_ptr =
     (if end_block_num < start_block_num then io_ret pos
      else
        let offset = pos mod BLOCK_SIZE; size_to_write = chunk_size pos remain_bytes
        in io_bind get_length (\<lambda>l.
           io_bind (if start_block_num * BLOCK_SIZE mod 2 ^ 64 < round_length l
                    then fd_read_block cr start_block_num else io_ret (replicate BLOCK_SIZE 0)) (\<lambda>block.
           io_bind (fd_write_block cr start_block_num (overlay block offset (chunk_of size_to_write data_ptr))) (\<lambda>_.
             write_loop cr (Suc start_block_num) end_block_num (pos + size_to_write)
               (remain_bytes - size_to_write) (map_option (drop size_to_write) data_ptr)))))"
  by pat_completeness auto
termination by (relation "measure (\<lambda>(_, start, fin, _). Suc fin - start)") auto

declare write_loop.simps [simp del]

text \<open>A position converted to \<open>int\<close> for \<open>pos_to_block_num\<close>, and the result to \<open>size_t\<close>.\<close>

definition block_num :: "64 word \<Rightarrow> nat" where
  "block_num pos = unat (scast (pos_to_block_num (ucast pos)) :: 64 word)"

definition out_of_place_write ::
    "fs_crypto \<Rightarrow> 64 word \<Rightarrow> bytes option \<Rightarrow> 64 word \<Rightarrow> (ree_file, unit) sm" where
  "out_of_place_write cr pos buf len =
     (if len = 0 then io_fail TEE_ERROR_BAD_PARAMETERS
      else io_bind get_tmp_block (\<lambda>_.
           io_bind (write_loop cr (block_num pos) (block_num (pos + len - 1)) (unat pos) (unat len) buf) (\<lambda>pos1.
           io_bind get_length (\<lambda>l.
             if pos1 > unat l then set_length (word_of_nat pos1) else io_ret ()))))"

text \<open>
  Normal world cuts the file off: places that are not wholly before \<open>len\<close> read as short from then on.
\<close>

definition cut_storage :: "nat \<Rightarrow> storage \<Rightarrow> storage" where
  "cut_storage len st =
     (let kept = \<lambda>type idx vers. case get_offs_size type idx vers of (offs, sz) \<Rightarrow> offs + sz \<le> len
      in \<lparr>st_head = \<lambda>v. if kept TEE_FS_HTREE_TYPE_HEAD 0 v then st_head st v else None,
          st_node = \<lambda>i v. if kept TEE_FS_HTREE_TYPE_NODE i v then st_node st i v else None,
          st_block = \<lambda>i v. if kept TEE_FS_HTREE_TYPE_BLOCK i v then st_block st i v else None,
          st_there = st_there st\<rparr>)"

definition tee_fs_rpc_truncate :: "nat \<Rightarrow> (ree_file, unit) sm" where
  "tee_fs_rpc_truncate len = with_ht (\<lambda>h w. case rpc_write_final (cut_storage len) w of (r, w1) \<Rightarrow> (r, h, w1))"

definition ree_fs_ftruncate_internal :: "fs_crypto \<Rightarrow> 64 word \<Rightarrow> (ree_file, unit) sm" where
  "ree_fs_ftruncate_internal cr new_file_len =
     io_bind get_length (\<lambda>l.
       if new_file_len > l then out_of_place_write cr l None (new_file_len - l)
       else
         let (offs, sz) = get_offs_size TEE_FS_HTREE_TYPE_BLOCK (round_length new_file_len div BLOCK_SIZE) 1
         in io_bind (with_ht (\<lambda>h w. case tee_fs_htree_truncate h (unat new_file_len div BLOCK_SIZE) of
                None \<Rightarrow> (Stuck, h, w)
              | Some (res, h1) \<Rightarrow> (if res = TEE_SUCCESS then Ok () else Fail res, h1, w))) (\<lambda>_.
            io_bind (tee_fs_rpc_truncate (offs + sz)) (\<lambda>_. set_length new_file_len)))"

text \<open>The loop of \<open>ree_fs_read_primitive\<close>, over block numbers of type \<open>int\<close>.\<close>

function read_loop :: "fs_crypto \<Rightarrow> int \<Rightarrow> int \<Rightarrow> nat \<Rightarrow> nat \<Rightarrow> (ree_file, bytes) sm" where
  "read_loop cr start_block_num end_block_num pos remain_bytes =
     (if end_block_num < start_block_num then io_ret []
      else
        let offset = pos mod BLOCK_SIZE; size_to_read = chunk_size pos remain_bytes
        in io_bind (fd_read_block cr (unat (word_of_int start_block_num :: 64 word))) (\<lambda>block.
           io_bind (read_loop cr (start_block_num + 1) end_block_num (pos + size_to_read)
                     (remain_bytes - size_to_read)) (\<lambda>rest.
             io_ret (take size_to_read (drop offset block) @ rest))))"
  by pat_completeness auto
termination by (relation "measure (\<lambda>(_, start, fin, _). nat (fin + 1 - start))") auto

declare read_loop.simps [simp del]

definition ree_fs_read_primitive :: "fs_crypto \<Rightarrow> 64 word \<Rightarrow> 64 word \<Rightarrow> (ree_file, bytes) sm" where
  "ree_fs_read_primitive cr pos len =
     io_bind get_length (\<lambda>l.
       let remain_bytes = (if pos + len < len \<or> pos > l then 0 else if pos + len > l then l - pos else len)
       in if remain_bytes = 0 then io_ret []
          else io_bind get_tmp_block (\<lambda>_.
            read_loop cr (sint (pos_to_block_num (ucast pos))) (sint (pos_to_block_num (ucast (pos + remain_bytes - 1))))
              (unat pos) (unat remain_bytes)))"

definition ree_fs_write_primitive :: "fs_crypto \<Rightarrow> 64 word \<Rightarrow> bytes \<Rightarrow> 64 word \<Rightarrow> (ree_file, unit) sm" where
  "ree_fs_write_primitive cr pos buf len =
     (if len = 0 then io_ret ()
      else io_bind get_length (\<lambda>file_size.
        if pos + len < len then io_fail TEE_ERROR_BAD_PARAMETERS
        else io_bind (if file_size < pos then ree_fs_ftruncate_internal cr pos else io_ret ()) (\<lambda>_.
          out_of_place_write cr pos (Some buf) len)))"

definition ree_dirf_commit_writes :: "fs_crypto \<Rightarrow> 256 word \<Rightarrow> (ree_file, 256 word) sm" where
  "ree_dirf_commit_writes cr hash = with_ht (\<lambda>h w. case tee_fs_htree_sync_to_storage cr h w of
     (r, h1, w1) \<Rightarrow> (map_io (\<lambda>(_, d). case d of None \<Rightarrow> hash | Some d1 \<Rightarrow> d1) r, h1, w1))"

section \<open>The layout of a file\<close>

lemma block_size: "BLOCK_SIZE = 4096"
  by (simp add: BLOCK_SIZE_def BLOCK_SHIFT_def)

lemma places:
  "get_offs_size TEE_FS_HTREE_TYPE_HEAD i v = (68 * v, 68)"
  "get_offs_size TEE_FS_HTREE_TYPE_NODE i v = (4096 * (1 + 62 * (i div 31)) + (132 * (i mod 31) + 66 * v), 66)"
  "get_offs_size TEE_FS_HTREE_TYPE_BLOCK i v = (4096 * (2 + (2 * i + v) + (2 * i + v) div 61), 4096)"
  by (simp_all add: get_offs_size_def head_size_def node_size_def block_nodes_def Let_def block_size)

text \<open>The page of a place: 0 for headers, 1 modulo 62 for nodes, any other for blocks.\<close>

lemma block_page: "(2 + b + b div 61) mod 62 \<noteq> (1 :: nat)" "b < b' \<Longrightarrow> 2 + b + b div 61 < 2 + b' + b' div (61 :: nat)"
proof -
  have "2 + b + b div 61 = 2 + b mod 61 + 62 * (b div 61)" by presburger
  then have "(2 + b + b div 61) mod 62 = (2 + b mod 61) mod 62" by (metis mod_mult_self2)
  moreover have "r < 61 \<Longrightarrow> (2 + r) mod 62 \<noteq> 1" for r :: nat by (cases "r = 60") auto
  ultimately show "(2 + b + b div 61) mod 62 \<noteq> 1" by simp
  show "b < b' \<Longrightarrow> 2 + b + b div 61 < 2 + b' + b' div 61" using div_le_mono [of b b' 61] by linarith
qed

lemma pages_apart: "p \<noteq> q \<Longrightarrow> a + s \<le> 4096 \<Longrightarrow> b + t \<le> 4096 \<Longrightarrow>
    4096 * p + a + s \<le> 4096 * q + b \<or> 4096 * q + b + t \<le> 4096 * p + (a :: nat)"
proof (cases "p < q")
  case True
  then have "4096 * p + 4096 \<le> 4096 * q" by simp
  moreover assume "a + s \<le> 4096"
  ultimately show ?thesis by linarith
next
  case False
  assume "p \<noteq> q" "b + t \<le> 4096"
  then have "4096 * q + 4096 \<le> 4096 * p" using False by simp
  then show ?thesis using \<open>b + t \<le> 4096\<close> by linarith
qed

definition place_ok :: "htree_type \<Rightarrow> nat \<Rightarrow> nat \<Rightarrow> bool" where
  "place_ok type idx vers \<longleftrightarrow> vers < 2 \<and> (type = TEE_FS_HTREE_TYPE_HEAD \<longrightarrow> idx = 0)"

definition apart :: "nat \<times> nat \<Rightarrow> nat \<times> nat \<Rightarrow> bool" where
  "apart p q \<longleftrightarrow> fst p + snd p \<le> fst q \<or> fst q + snd q \<le> fst p"

lemma apart_sym: "apart p q \<longleftrightarrow> apart q p"
  by (auto simp: apart_def)

lemma node_in_page: "v < 2 \<Longrightarrow> 132 * (i mod 31) + 66 * v + 66 \<le> (4096 :: nat)"
proof -
  assume "v < 2"
  moreover have "i mod 31 < 31" by simp
  ultimately show ?thesis by linarith
qed

lemma nodes_apart:
  assumes "v < 2" and "v' < 2" and "(i, v) \<noteq> (i', v')"
  shows "apart (get_offs_size TEE_FS_HTREE_TYPE_NODE i v) (get_offs_size TEE_FS_HTREE_TYPE_NODE i' v')"
proof (cases "i div 31 = i' div 31")
  case False
  then have "1 + 62 * (i div 31) \<noteq> 1 + 62 * (i' div 31)" by simp
  from pages_apart [OF this node_in_page [OF assms(1), of i] node_in_page [OF assms(2), of i']]
  show ?thesis by (simp add: apart_def places add.assoc)
next
  case True
  then have "i mod 31 = i' mod 31 \<longrightarrow> i = i'" by (metis div_mult_mod_eq)
  then have "2 * (i mod 31) + v \<noteq> 2 * (i' mod 31) + v'" using assms by auto
  then show ?thesis using True by (auto simp: apart_def places)
qed

lemma blocks_apart:
  assumes "v < 2" and "v' < 2" and "(i, v) \<noteq> (i', v')"
  shows "apart (get_offs_size TEE_FS_HTREE_TYPE_BLOCK i v) (get_offs_size TEE_FS_HTREE_TYPE_BLOCK i' v')"
proof -
  have "2 * i + v \<noteq> 2 * i' + v'" using assms by auto presburger+
  then have "2 + (2 * i + v) + (2 * i + v) div 61 \<noteq> 2 + (2 * i' + v') + (2 * i' + v') div 61"
    using block_page(2) [of "2 * i + v" "2 * i' + v'"] block_page(2) [of "2 * i' + v'" "2 * i + v"]
    by (metis less_irrefl linorder_neqE_nat)
  from pages_apart [OF this, of 0 4096 0 4096] show ?thesis by (simp add: apart_def places)
qed

lemma node_block_apart:
  assumes "v < 2"
  shows "apart (get_offs_size TEE_FS_HTREE_TYPE_NODE i v) (get_offs_size TEE_FS_HTREE_TYPE_BLOCK i' v')"
proof -
  have "(1 + 62 * (i div 31)) mod 62 = 1" by (simp add: mod_Suc)
  then have "1 + 62 * (i div 31) \<noteq> 2 + (2 * i' + v') + (2 * i' + v') div 61" using block_page(1) by metis
  from pages_apart [OF this node_in_page [OF assms, of i], of 0 4096] show ?thesis
    by (simp add: apart_def places add.assoc)
qed

text \<open>
  the two places of the header, of every node and of every block do not overlap in the file.
\<close>
theorem ree_fs_places_apart:
  assumes "place_ok type idx vers" and "place_ok type' idx' vers'" and "(type, idx, vers) \<noteq> (type', idx', vers')"
  shows "apart (get_offs_size type idx vers) (get_offs_size type' idx' vers')"
proof -
  have head: "apart (get_offs_size TEE_FS_HTREE_TYPE_HEAD i v) (get_offs_size t j u)"
    if "v < 2" "t \<noteq> TEE_FS_HTREE_TYPE_HEAD" for i v t j u
    using that by (cases t) (auto simp: apart_def places)
  have two: "v < 2 \<Longrightarrow> v = 0 \<or> v = 1" for v :: nat by auto
  show ?thesis
    using assms two [of vers] two [of vers'] head [of vers type' idx idx' vers'] head [of vers' type idx' idx vers]
      nodes_apart [of vers vers' idx idx'] blocks_apart [of vers vers' idx idx']
      node_block_apart [of vers idx idx' vers'] node_block_apart [of vers' idx' idx vers]
    by (cases type; cases type') (auto simp: place_ok_def apart_sym places apart_def)
qed

theorem ree_fs_places_apart_witness:
  "apart (get_offs_size TEE_FS_HTREE_TYPE_NODE 31 0) (get_offs_size TEE_FS_HTREE_TYPE_BLOCK 30 1)
   \<and> get_offs_size TEE_FS_HTREE_TYPE_NODE 31 0 = (63 * 4096, 66)
   \<and> get_offs_size TEE_FS_HTREE_TYPE_BLOCK 30 1 = (64 * 4096, 4096)"
  using ree_fs_places_apart [of TEE_FS_HTREE_TYPE_NODE 31 0 TEE_FS_HTREE_TYPE_BLOCK 30 1]
  by (simp add: place_ok_def places)

section \<open>Rules for operations on an open file\<close>

text \<open>
  \<open>fruns cr uuid R P m Q\<close>: run on an open file with contents \<open>cur\<close> as in \<open>P\<close>, \<open>m\<close> gives a result
  and contents as in \<open>Q\<close> with the file still open, or it fails, which it does not when all calls
  succeed; \<open>R\<close>, what may be found on storage, stays, and no assertion fails.
\<close>

definition holds :: "fs_crypto \<Rightarrow> bytes \<Rightarrow> snapshot set \<Rightarrow> htree option \<Rightarrow> world \<Rightarrow> (snapshot \<Rightarrow> bool) \<Rightarrow> bool" where
  "holds cr uuid R h w P \<longleftrightarrow> (\<exists>cur. htree_life cr BLOCK_SIZE uuid h w R cur \<and> P cur)"

definition outcome ::
    "fs_crypto \<Rightarrow> bytes \<Rightarrow> snapshot set \<Rightarrow> world \<Rightarrow> 'a io \<times> ree_file \<Rightarrow> ('a \<Rightarrow> snapshot \<Rightarrow> bool) \<Rightarrow> bool" where
  "outcome cr uuid R w0 res Q \<longleftrightarrow> (case res of (r, (h, w)) \<Rightarrow> (case r of
     Ok x \<Rightarrow> h \<noteq> None \<and> holds cr uuid R h w (Q x) \<and> (calm w0 \<longrightarrow> calm w)
   | Fail e \<Rightarrow> holds cr uuid R h w (\<lambda>_. True) \<and> \<not> calm w0
   | Stuck \<Rightarrow> False))"

definition fruns ::
    "fs_crypto \<Rightarrow> bytes \<Rightarrow> snapshot set \<Rightarrow> (snapshot \<Rightarrow> bool) \<Rightarrow> (ree_file, 'a) sm
     \<Rightarrow> ('a \<Rightarrow> snapshot \<Rightarrow> bool) \<Rightarrow> bool" where
  "fruns cr uuid R P m Q \<longleftrightarrow> (\<forall>ht w. holds cr uuid R (Some ht) w P \<longrightarrow> outcome cr uuid R w (m (Some ht, w)) Q)"

lemma holdsI: "htree_life cr BLOCK_SIZE uuid h w R cur \<Longrightarrow> P cur \<Longrightarrow> holds cr uuid R h w P"
  unfolding holds_def by blast

lemma holdsE:
  assumes "holds cr uuid R h w P"
  obtains cur where "htree_life cr BLOCK_SIZE uuid h w R cur" and "P cur"
  using assms unfolding holds_def by blast

lemma holds_mono: "holds cr uuid R h w P \<Longrightarrow> (\<And>cur. P cur \<Longrightarrow> Q cur) \<Longrightarrow> holds cr uuid R h w Q"
  by (auto elim!: holdsE intro: holdsI)

lemma outcome_simps [simp]:
  "outcome cr uuid R w0 (Ok x, (h, w)) Q \<longleftrightarrow> h \<noteq> None \<and> holds cr uuid R h w (Q x) \<and> (calm w0 \<longrightarrow> calm w)"
  "outcome cr uuid R w0 (Fail e, (h, w)) Q \<longleftrightarrow> holds cr uuid R h w (\<lambda>_. True) \<and> \<not> calm w0"
  "\<not> outcome cr uuid R w0 (Stuck, s) Q"
  by (auto simp: outcome_def split: prod.splits)

lemma frunsI:
  assumes "\<And>ht w cur. htree_life cr BLOCK_SIZE uuid (Some ht) w R cur \<Longrightarrow> P cur \<Longrightarrow>
    outcome cr uuid R w (m (Some ht, w)) Q"
  shows "fruns cr uuid R P m Q"
  using assms by (auto simp: fruns_def elim!: holdsE)

lemma fruns_ret: "(\<And>cur. P cur \<Longrightarrow> Q x cur) \<Longrightarrow> fruns cr uuid R P (io_ret x) Q"
  by (auto simp: fruns_def io_ret_def intro: holds_mono)

lemma fruns_bind:
  assumes "fruns cr uuid R P m M" and "\<And>x. fruns cr uuid R (M x) (k x) Q"
  shows "fruns cr uuid R P (io_bind m k) Q"
  unfolding fruns_def
proof (intro allI impI)
  fix ht w assume h: "holds cr uuid R (Some ht) w P"
  obtain r h1 w1 where m: "m (Some ht, w) = (r, (h1, w1))" by (metis prod.exhaust)
  then have o: "outcome cr uuid R w (r, (h1, w1)) M" using assms(1) h by (metis fruns_def)
  show "outcome cr uuid R w (io_bind m k (Some ht, w)) Q"
  proof (cases r)
    case (Ok x)
    then obtain ht1 where "h1 = Some ht1" "holds cr uuid R h1 w1 (M x)" "calm w \<longrightarrow> calm w1" using o by auto
    then have "outcome cr uuid R w1 (k x (h1, w1)) Q" using assms(2) [of x] by (simp add: fruns_def)
    then show ?thesis
      using Ok m \<open>calm w \<longrightarrow> calm w1\<close> by (auto simp: io_bind_def outcome_def split: prod.splits io.splits)
  qed (use o m in \<open>auto simp: io_bind_def\<close>)
qed

lemma fruns_false: "(\<And>cur. \<not> P cur) \<Longrightarrow> fruns cr uuid R P m Q"
  by (auto simp: fruns_def elim!: holdsE)

lemma fruns_weaken:
  assumes "fruns cr uuid R P m Q" and "\<And>cur. P' cur \<Longrightarrow> P cur" and "\<And>x cur. Q x cur \<Longrightarrow> Q' x cur"
  shows "fruns cr uuid R P' m Q'"
  unfolding fruns_def
proof (intro allI impI)
  fix ht w assume "holds cr uuid R (Some ht) w P'"
  then have "holds cr uuid R (Some ht) w P" by (rule holds_mono) (rule assms(2))
  then have "outcome cr uuid R w (m (Some ht, w)) Q" using assms(1) by (simp add: fruns_def)
  then show "outcome cr uuid R w (m (Some ht, w)) Q'"
    by (auto simp: outcome_def split: prod.splits io.splits intro: holds_mono assms(3))
qed

lemma life_open:
  assumes "htree_life cr bs uuid (Some ht) w R cur" and "crypto_ok cr"
  shows "tee_fs_htree_get_meta ht = fst cur" and "nodes_count ht = fst (snd cur)"
proof -
  have "snapshot_of cr bs ht (w_stor w) = cur"
    using life_invariant [OF assms] by (auto simp: life_inv_def)
  then show "tee_fs_htree_get_meta ht = fst cur" "nodes_count ht = fst (snd cur)"
    by (auto simp: snapshot_of_def tee_fs_htree_get_meta_def)
qed

lemma fruns_length:
  assumes "crypto_ok cr"
  shows "fruns cr uuid R P get_length (\<lambda>l cur. P cur \<and> l = fst cur)"
  by (rule frunsI) (auto simp: get_length_def life_open(1) [OF _ assms] intro: holdsI)

lemma fruns_set_length:
  assumes "\<And>cur. P cur \<Longrightarrow> Q (with_length l cur)"
  shows "fruns cr uuid R P (set_length l) (\<lambda>_. Q)"
  by (rule frunsI) (auto simp: set_length_def intro: holdsI [OF length_set] assms)

lemma io_call_cases: "\<exists>r w1. io_call w = (r, w1) \<and> w_stor w1 = w_stor w \<and> r \<noteq> Stuck"
  using next_reply_stor [of w] by (auto simp: io_call_def split: prod.splits)

lemma fruns_tmp: "fruns cr uuid R P get_tmp_block (\<lambda>_. P)"
proof (rule frunsI)
  fix ht w cur assume l: "htree_life cr BLOCK_SIZE uuid (Some ht) w R cur" "P cur"
  obtain r w1 where c: "io_call w = (r, w1)" "w_stor w1 = w_stor w" "r \<noteq> Stuck" using io_call_cases by blast
  have "htree_life cr BLOCK_SIZE uuid (Some ht) w1 R cur" using c(2) by (intro answered [OF l(1)])
  moreover have "calm w \<longrightarrow> r = Ok () \<and> w1 = w" using calm_call [of w] c(1) by auto
  ultimately show "outcome cr uuid R w (get_tmp_block (Some ht, w)) (\<lambda>_. P)"
    using c l(2) by (cases r) (auto simp: get_tmp_block_def with_ht_def intro: holdsI)
qed

lemma fruns_read_block:
  assumes cr: "crypto_ok cr" and num: "Suc num < 2 ^ 32 - 1" and there: "\<And>cur. P cur \<Longrightarrow> snd (snd cur) num \<noteq> None"
  shows "fruns cr uuid R P (fd_read_block cr num) (\<lambda>b cur. P cur \<and> snd (snd cur) num = Some b)"
proof (rule frunsI)
  fix ht w cur assume l: "htree_life cr BLOCK_SIZE uuid (Some ht) w R cur" "P cur"
  note inv = life_invariant [OF l(1) cr]
  obtain r h w1 where r: "tee_fs_htree_read_block cr BLOCK_SIZE (Some ht) num w = (r, h, w1)" by (metis prod.exhaust)
  obtain c where c: "mem_tracks c ht" "snapshot_of cr BLOCK_SIZE ht (w_stor w) = cur"
    using inv by (auto simp: life_inv_def)
  have "shape_ok ht" using c(1) by (auto simp: mem_tracks_def)
  moreover obtain b where "contents cr BLOCK_SIZE ht (w_stor w) num = Some b"
    using there [OF l(2)] c(2) by (auto simp: snapshot_of_def)
  ultimately have "calm w \<longrightarrow> (\<exists>x. r = Ok x \<and> w1 = w)"
    using read_block_calm [of w ht cr BLOCK_SIZE num b] r by simp
  with block_read [OF l(1) num r] read_any [OF inv num r] r l(2)
  show "outcome cr uuid R w (fd_read_block cr num (Some ht, w)) (\<lambda>b cur. P cur \<and> snd (snd cur) num = Some b)"
    by (auto simp: fd_read_block_def with_ht_def intro: holdsI)
qed

lemma fruns_write_block:
  assumes cr: "crypto_ok cr" and len: "length b = BLOCK_SIZE" and num: "Suc num < 2 ^ 32 - 1"
    and P: "\<And>cur. P cur \<Longrightarrow> num \<le> fst (snd cur) \<and> Q (with_block num b cur)"
  shows "fruns cr uuid R P (fd_write_block cr num b) (\<lambda>_. Q)"
proof (rule frunsI)
  fix ht w cur assume l: "htree_life cr BLOCK_SIZE uuid (Some ht) w R cur" "P cur"
  have n: "num \<le> nodes_count ht" using P [OF l(2)] life_open(2) [OF l(1) cr] by simp
  obtain c blk where c: "mem_tracks c ht" "stored c blk (w_stor w)"
    using life_invariant [OF l(1) cr] by (auto simp: life_inv_def recovers_def)
  obtain r h w1 where r: "tee_fs_htree_write_block cr (Some ht) num b w = (r, h, w1)" by (metis prod.exhaust)
  then have cl: "closing (write_block cr num b ht) (\<lambda>h. h) w = (r, h, w1)" by (simp add: tee_fs_htree_write_block_def)
  have "(\<exists>x. r = Ok x \<and> h = Some x) \<or> (\<exists>e. r = Fail e)"
    using closing_runs [OF write_block_runs [OF cr c(1) n num len, of blk "w_stor w"] _ cl] c(2) by auto
  moreover have "calm w \<longrightarrow> calm w1 \<and> (\<forall>e. r \<noteq> Fail e)"
    using prompt_closing [OF prompt_write_block [OF cr] _ cl] by blast
  ultimately show "outcome cr uuid R w (fd_write_block cr num b (Some ht, w)) (\<lambda>_. Q)"
    using block_write [OF l(1) n num len r] P [OF l(2)] r by (auto simp: fd_write_block_def with_ht_def intro: holdsI)
qed

section \<open>Bytes of a file\<close>

definition byte_at :: "snapshot \<Rightarrow> nat \<Rightarrow> 8 word" where
  "byte_at cur i = the (snd (snd cur) (i div BLOCK_SIZE)) ! (i mod BLOCK_SIZE)"

text \<open>The first \<open>n\<close> blocks are there.\<close>

definition blocks_ok :: "snapshot \<Rightarrow> nat \<Rightarrow> bool" where
  "blocks_ok cur n \<longleftrightarrow> n \<le> fst (snd cur)
     \<and> (\<forall>num < n. \<exists>b. snd (snd cur) num = Some b \<and> length b = BLOCK_SIZE)"

definition block_count :: "64 word \<Rightarrow> nat" where
  "block_count l = (unat l + (BLOCK_SIZE - 1)) div BLOCK_SIZE"

text \<open>A file with all the blocks its length needs and positions that fit into an \<open>int\<close>.\<close>

definition file_ok :: "snapshot \<Rightarrow> bool" where
  "file_ok cur \<longleftrightarrow> unat (fst cur) < 2 ^ 31 \<and> blocks_ok cur (block_count (fst cur))"

definition file_bytes :: "snapshot \<Rightarrow> bytes" where
  "file_bytes cur = map (byte_at cur) [0..<unat (fst cur)]"

lemma length_overlay: "off + length c \<le> length b \<Longrightarrow> length (overlay b off c) = length b"
  by (simp add: overlay_def)

lemma nth_overlay:
  assumes "off + length c \<le> length b" and "j < length b"
  shows "overlay b off c ! j = (if off \<le> j \<and> j < off + length c then c ! (j - off) else b ! j)"
  using assms by (auto simp: overlay_def nth_append min_def)

lemma with_block_simps [simp]:
  "fst (with_block num b cur) = fst cur" "fst (snd (with_block num b cur)) = max (fst (snd cur)) (Suc num)"
  "snd (snd (with_block num b cur)) = (snd (snd cur))(num := Some b)"
  by (simp_all add: with_block_def split: prod.splits)

lemma with_length_simps [simp]:
  "fst (with_length l cur) = l" "snd (with_length l cur) = snd cur"
  by (simp_all add: with_length_def)

lemma byte_at_length [simp]: "byte_at (with_length l cur) i = byte_at cur i"
  by (simp add: byte_at_def)

lemma blocks_ok_length [simp]: "blocks_ok (with_length l cur) n = blocks_ok cur n"
  by (simp add: blocks_ok_def)

lemma blocks_ok_write:
  assumes "blocks_ok cur n" and "num \<le> n" and "length b = BLOCK_SIZE"
  shows "blocks_ok (with_block num b cur) (max n (Suc num))"
  using assms unfolding blocks_ok_def by (auto simp: less_Suc_eq max_def split: if_splits)

section \<open>Block numbers\<close>

lemma sint_block_num:
  assumes "unat (pos :: 64 word) < 2 ^ 31"
  shows "sint (pos_to_block_num (ucast pos)) = int (unat pos div BLOCK_SIZE)"
proof -
  define p where "p = (ucast pos :: 32 word)"
  have "unat p = take_bit 32 (unat pos)" by (simp add: p_def unsigned_ucast_eq)
  also have "\<dots> = unat pos" by (rule take_bit_nat_eq_self) (rule less_trans [OF assms], simp)
  finally have u: "uint p = int (unat pos)" by (metis uint_nat)
  have "sint p = signed_take_bit 31 (int (unat pos))" by (simp add: sint_uint u)
  also have "\<dots> = int (unat pos)"
  proof -
    have "signed_take_bit 31 (int n) = int n" if "n < 2 ^ 31" for n
      by (rule signed_take_bit_int_eq_self) (use that in simp_all)
    then show ?thesis using assms by blast
  qed
  finally have "sint (pos_to_block_num p) = drop_bit 12 (int (unat pos))"
    by (simp only: pos_to_block_num_def sint_signed_drop_bit_eq BLOCK_SHIFT_def)
  also have "\<dots> = int (unat pos div 2 ^ 12)" by (simp only: drop_bit_eq_div zdiv_int of_nat_power of_nat_numeral)
  finally show ?thesis by (simp only: p_def BLOCK_SIZE_def BLOCK_SHIFT_def)
qed

lemma block_num_div:
  assumes "unat pos < 2 ^ 31"
  shows "block_num pos = unat pos div BLOCK_SIZE"
proof -
  define k where "k = unat pos div BLOCK_SIZE"
  have "k \<le> unat pos" unfolding k_def by (rule div_le_dividend)
  then have "k < 2 ^ 31" using assms by (rule le_less_trans)
  then have k: "k < 2 ^ 64" by (rule less_trans) simp
  have "scast (pos_to_block_num (ucast pos)) = (word_of_int (sint (pos_to_block_num (ucast pos))) :: 64 word)"
    by (simp only: scast_eq)
  also have "\<dots> = word_of_nat k" unfolding sint_block_num [OF assms] k_def by (simp only: of_int_of_nat_eq)
  finally show ?thesis using k unfolding block_num_def k_def [symmetric] by (simp add: unat_of_nat_exact)
qed

section \<open>The loop of a write\<close>

lemma chunk_size_min: "chunk_size pos remain = min remain (BLOCK_SIZE - pos mod BLOCK_SIZE)"
  by (auto simp: chunk_size_def Let_def min_def block_size)

lemma chunk_facts:
  assumes "0 < remain"
  shows "0 < chunk_size pos remain" and "chunk_size pos remain \<le> remain"
    and "pos mod BLOCK_SIZE + chunk_size pos remain \<le> BLOCK_SIZE"
    and "chunk_size pos remain < remain \<Longrightarrow> pos + chunk_size pos remain = Suc (pos div BLOCK_SIZE) * BLOCK_SIZE"
    and "chunk_size pos remain = remain \<Longrightarrow> (pos + remain - 1) div BLOCK_SIZE = pos div BLOCK_SIZE"
proof -
  have m: "pos mod BLOCK_SIZE < BLOCK_SIZE" by (simp add: block_size)
  show "0 < chunk_size pos remain" "chunk_size pos remain \<le> remain"
    "pos mod BLOCK_SIZE + chunk_size pos remain \<le> BLOCK_SIZE"
    using assms m by (auto simp: chunk_size_min)
  have pos: "pos = BLOCK_SIZE * (pos div BLOCK_SIZE) + pos mod BLOCK_SIZE" by simp
  show "pos + chunk_size pos remain = Suc (pos div BLOCK_SIZE) * BLOCK_SIZE" if "chunk_size pos remain < remain"
  proof -
    have "chunk_size pos remain = BLOCK_SIZE - pos mod BLOCK_SIZE"
      using that by (simp add: chunk_size_min min_def split: if_splits)
    moreover have "Suc (pos div BLOCK_SIZE) * BLOCK_SIZE = BLOCK_SIZE + BLOCK_SIZE * (pos div BLOCK_SIZE)" by simp
    ultimately show ?thesis using m pos by linarith
  qed
  show "(pos + remain - 1) div BLOCK_SIZE = pos div BLOCK_SIZE" if "chunk_size pos remain = remain"
  proof (rule div_nat_eqI)
    show "BLOCK_SIZE * (pos div BLOCK_SIZE) \<le> pos + remain - 1" using pos assms by linarith
    have "remain \<le> BLOCK_SIZE - pos mod BLOCK_SIZE" using that by (simp add: chunk_size_min min_def split: if_splits)
    moreover have "BLOCK_SIZE * Suc (pos div BLOCK_SIZE) = BLOCK_SIZE + BLOCK_SIZE * (pos div BLOCK_SIZE)" by simp
    ultimately show "pos + remain - 1 < BLOCK_SIZE * Suc (pos div BLOCK_SIZE)" using m pos assms by linarith
  qed
qed

definition src_byte :: "bytes option \<Rightarrow> nat \<Rightarrow> 8 word" where
  "src_byte data i = (case data of Some d \<Rightarrow> d ! i | None \<Rightarrow> 0)"

definition src_ok :: "bytes option \<Rightarrow> nat \<Rightarrow> bool" where
  "src_ok data n \<longleftrightarrow> (case data of Some d \<Rightarrow> length d = n | None \<Rightarrow> True)"

lemma chunk_of_facts:
  assumes "src_ok data n" and "k \<le> n"
  shows "length (chunk_of k data) = k" and "i < k \<Longrightarrow> chunk_of k data ! i = src_byte data i"
    and "src_ok (map_option (drop k) data) (n - k)"
    and "i < n - k \<Longrightarrow> src_byte (map_option (drop k) data) i = src_byte data (k + i)"
  using assms by (cases data; simp add: chunk_of_def src_byte_def src_ok_def)+

text \<open>What a write of \<open>n\<close> bytes at \<open>pos\<close> makes of the bytes, as far as they matter below \<open>lim\<close>.\<close>

definition bytes_written :: "nat \<Rightarrow> nat \<Rightarrow> bytes option \<Rightarrow> nat \<Rightarrow> snapshot \<Rightarrow> snapshot \<Rightarrow> bool" where
  "bytes_written pos n data lim cur cur' \<longleftrightarrow> (\<forall>i. (i < lim \<or> pos \<le> i \<and> i < pos + n) \<longrightarrow>
     byte_at cur' i = (if pos \<le> i \<and> i < pos + n then src_byte data (i - pos) else byte_at cur i))"

lemma block_written_bytes:
  assumes size: "k = chunk_size pos n" "0 < n" and src: "src_ok data n"
    and old: "pos div BLOCK_SIZE * BLOCK_SIZE < lim \<longrightarrow> snd (snd cur) (pos div BLOCK_SIZE) = Some b"
    and b: "length b = BLOCK_SIZE"
  shows "bytes_written pos k data lim cur
    (with_block (pos div BLOCK_SIZE) (overlay b (pos mod BLOCK_SIZE) (chunk_of k data)) cur)"
  unfolding bytes_written_def
proof (intro allI impI)
  fix i assume i: "i < lim \<or> pos \<le> i \<and> i < pos + k"
  let ?s = "pos div BLOCK_SIZE" and ?o = "pos mod BLOCK_SIZE"
  have k: "k \<le> n" "?o + k \<le> BLOCK_SIZE" using chunk_facts [OF size(2), of pos] size(1) by auto
  note c = chunk_of_facts [OF src k(1)]
  show "byte_at (with_block ?s (overlay b ?o (chunk_of k data)) cur) i =
    (if pos \<le> i \<and> i < pos + k then src_byte data (i - pos) else byte_at cur i)"
  proof (cases "i div BLOCK_SIZE = ?s")
    case True
    then have im: "i = ?s * BLOCK_SIZE + i mod BLOCK_SIZE" by (metis div_mult_mod_eq)
    have pm: "pos = ?s * BLOCK_SIZE + ?o" by simp
    have m: "i mod BLOCK_SIZE < BLOCK_SIZE" by (simp add: block_size)
    have range: "?o \<le> i mod BLOCK_SIZE \<and> i mod BLOCK_SIZE < ?o + k \<longleftrightarrow> pos \<le> i \<and> i < pos + k"
      using im pm by linarith
    have diff: "i mod BLOCK_SIZE - ?o = i - pos" using im pm by linarith
    have nth: "overlay b ?o (chunk_of k data) ! (i mod BLOCK_SIZE)
        = (if pos \<le> i \<and> i < pos + k then chunk_of k data ! (i - pos) else b ! (i mod BLOCK_SIZE))"
      using nth_overlay [of ?o "chunk_of k data" b "i mod BLOCK_SIZE"] k(2) b m c(1) range diff by simp
    show ?thesis
    proof (cases "pos \<le> i \<and> i < pos + k")
      case False
      then have "?s * BLOCK_SIZE < lim" using i im by linarith
      then show ?thesis using old nth False True by (auto simp: byte_at_def)
    next
      case in_range: True
      then have "i - pos < k" by linarith
      then show ?thesis using nth c(2) [of "i - pos"] True in_range by (simp add: byte_at_def)
    qed
  next
    case False
    have "\<not> (pos \<le> i \<and> i < pos + k)"
    proof
      assume r: "pos \<le> i \<and> i < pos + k"
      have "i div BLOCK_SIZE = ?s"
      proof (rule div_nat_eqI)
        have pm: "pos = BLOCK_SIZE * ?s + ?o" by simp
        show "BLOCK_SIZE * ?s \<le> i" using r pm by linarith
        have "BLOCK_SIZE * Suc ?s = BLOCK_SIZE + BLOCK_SIZE * ?s" by simp
        then show "i < BLOCK_SIZE * Suc ?s" using r pm k(2) by linarith
      qed
      then show False using False by simp
    qed
    then show ?thesis using False by (auto simp: byte_at_def)
  qed
qed

lemma bytes_written_trans:
  assumes "bytes_written pos k data lim cur cur1" and "src_ok data n" and "k \<le> n"
    and "bytes_written (pos + k) (n - k) (map_option (drop k) data) (max lim (pos + k)) cur1 cur2"
  shows "bytes_written pos n data lim cur cur2"
  unfolding bytes_written_def
proof (intro allI impI)
  fix i assume i: "i < lim \<or> pos \<le> i \<and> i < pos + n"
  show "byte_at cur2 i = (if pos \<le> i \<and> i < pos + n then src_byte data (i - pos) else byte_at cur i)"
  proof (cases "pos + k \<le> i \<and> i < pos + n")
    case True
    then have "byte_at cur2 i = src_byte (map_option (drop k) data) (i - (pos + k))"
      using assms(3,4) by (auto simp: bytes_written_def)
    moreover have "i - (pos + k) < n - k" "k + (i - (pos + k)) = i - pos" using True by auto
    ultimately show ?thesis using chunk_of_facts(4) [OF assms(2,3), of "i - (pos + k)"] True by auto
  next
    case False
    then have "byte_at cur2 i = byte_at cur1 i"
      using assms(3,4) i by (auto simp: bytes_written_def)
    then show ?thesis using assms(1,3) i False by (auto simp: bytes_written_def)
  qed
qed

definition loop_post :: "nat \<Rightarrow> nat \<Rightarrow> bytes option \<Rightarrow> nat \<Rightarrow> nat \<Rightarrow> snapshot \<Rightarrow> nat \<Rightarrow> snapshot \<Rightarrow> bool" where
  "loop_post pos remain data lim n c0 p cur \<longleftrightarrow> p = pos + remain \<and> fst cur = fst c0
     \<and> blocks_ok cur n \<and> bytes_written pos remain data lim c0 cur"

lemma round_length_count:
  assumes "unat l < 2 ^ 31"
  shows "round_length l = block_count l * BLOCK_SIZE" and "s * BLOCK_SIZE < unat l \<longleftrightarrow> s < block_count l"
proof -
  have "(unat l + 4095) mod 2 ^ 64 = unat l + 4095" using assms by simp
  then show "round_length l = block_count l * BLOCK_SIZE" by (simp add: round_length_def block_count_def block_size)
  have "Suc s \<le> (x + 4095) div 4096 \<longleftrightarrow> Suc s * 4096 \<le> x + 4095" for x
    by (rule less_eq_div_iff_mult_less_eq) simp
  then have "s * 4096 < x \<longleftrightarrow> s < (x + 4095) div 4096" for x by (auto simp: Suc_le_eq [symmetric])
  then show "s * BLOCK_SIZE < unat l \<longleftrightarrow> s < block_count l" by (simp add: block_count_def block_size)
qed

lemma write_loop_runs:
  assumes cr: "crypto_ok cr" and l: "unat (fst c0) < 2 ^ 31"
    and "0 < remain" and "s = pos div BLOCK_SIZE" and "e = (pos + remain - 1) div BLOCK_SIZE" and "e < 2 ^ 20"
    and "src_ok data remain" and "blocks_ok c0 n" and "s \<le> n" and "block_count (fst c0) \<le> n"
    and "lim \<le> max (unat (fst c0)) (s * BLOCK_SIZE)"
  shows "fruns cr uuid R (\<lambda>cur. cur = c0) (write_loop cr s e pos remain data)
    (loop_post pos remain data lim (max n (Suc e)) c0)"
  using assms(2-)
proof (induction remain arbitrary: s pos data n lim c0 rule: less_induct)
  case (less remain)
  let ?k = "chunk_size pos remain"
  note facts = chunk_facts [OF less.prems(2), of pos] and src = chunk_of_facts [OF less.prems(6)]
  have se: "s \<le> e" unfolding less.prems(3,4) by (rule div_le_mono) (use less.prems(2) in simp)
  then have small: "Suc s < 2 ^ 32 - 1" "s * BLOCK_SIZE mod 2 ^ 64 = s * BLOCK_SIZE"
    using less.prems(5) by (simp_all add: block_size)
  have present: "s * BLOCK_SIZE < round_length (fst c0) \<longleftrightarrow> s < block_count (fst c0)"
    using round_length_count(1) [OF less.prems(1)] by (simp add: block_size)
  let ?b = "\<lambda>block. overlay block (pos mod BLOCK_SIZE) (chunk_of ?k data)"
  have read: "fruns cr uuid R (\<lambda>cur. cur = c0)
      (if s * BLOCK_SIZE mod 2 ^ 64 < round_length (fst c0) then fd_read_block cr s else io_ret (replicate BLOCK_SIZE 0))
      (\<lambda>b cur. cur = c0 \<and> length b = BLOCK_SIZE \<and> (s * BLOCK_SIZE < lim \<longrightarrow> snd (snd c0) s = Some b))"
  proof (cases "s < block_count (fst c0)")
    case True
    then have "s < n" using less.prems(9) by simp
    then obtain b where b: "snd (snd c0) s = Some b" "length b = BLOCK_SIZE"
      using less.prems(7) unfolding blocks_ok_def by blast
    have "fruns cr uuid R (\<lambda>cur. cur = c0) (fd_read_block cr s)
        (\<lambda>b cur. cur = c0 \<and> length b = BLOCK_SIZE \<and> (s * BLOCK_SIZE < lim \<longrightarrow> snd (snd c0) s = Some b))"
    proof (rule fruns_weaken [where P = "\<lambda>cur. cur = c0", OF fruns_read_block [OF cr small(1)]])
      fix cur assume "cur = c0"
      then show "snd (snd cur) s \<noteq> None" using b(1) by simp
    next
      fix b' cur assume r: "cur = c0 \<and> snd (snd cur) s = Some b'"
      then have "snd (snd c0) s = Some b'" by (elim conjE) (simp only:)
      then have "b' = b" using b(1) by simp
      then show "cur = c0 \<and> length b' = BLOCK_SIZE \<and> (s * BLOCK_SIZE < lim \<longrightarrow> snd (snd c0) s = Some b')"
        using r b by simp
    qed assumption
    then show ?thesis by (simp only: small(2) present True if_True)
  next
    case False
    then have "unat (fst c0) \<le> s * BLOCK_SIZE" unfolding round_length_count(2) [OF less.prems(1), symmetric] by (rule leI)
    then have "\<not> s * BLOCK_SIZE < lim" using less.prems(10) unfolding max.absorb2 [OF \<open>unat (fst c0) \<le> s * BLOCK_SIZE\<close>] by (simp only: not_less)
    then show ?thesis
      unfolding small(2) present if_not_P [OF False] by (intro fruns_ret) (simp only: length_replicate simp_thms)
  qed
  have step: "fruns cr uuid R (\<lambda>cur. cur = c1)
      (write_loop cr (Suc s) e (pos + ?k) (remain - ?k) (map_option (drop ?k) data))
      (loop_post pos remain data lim (max n (Suc e)) c0)"
    if c1: "c1 = with_block s (?b block) c0" and len: "length block = BLOCK_SIZE"
      and old: "s * BLOCK_SIZE < lim \<longrightarrow> snd (snd c0) s = Some block" for c1 block
  proof -
    have blen: "length (?b block) = BLOCK_SIZE"
      using length_overlay [of "pos mod BLOCK_SIZE" "chunk_of ?k data" block] facts(2,3) src(1) [of ?k] len by simp
    have ok1: "blocks_ok c1 (max n (Suc s))"
      unfolding c1 using blocks_ok_write [OF less.prems(7,8) blen] .
    have one: "bytes_written pos ?k data lim c0 c1"
      unfolding c1 less.prems(3)
      by (rule block_written_bytes [OF refl less.prems(2,6) _ len]) (use old in \<open>simp add: less.prems(3)\<close>)
    show ?thesis
    proof (cases "?k < remain")
      case True
      note next_s = facts(4) [OF True, folded less.prems(3)]
      have "fruns cr uuid R (\<lambda>cur. cur = c1)
        (write_loop cr (Suc s) e (pos + ?k) (remain - ?k) (map_option (drop ?k) data))
        (loop_post (pos + ?k) (remain - ?k) (map_option (drop ?k) data) (max lim (pos + ?k)) (max (max n (Suc s)) (Suc e)) c1)"
      proof (rule less.IH)
        show "remain - ?k < remain" "0 < remain - ?k" using True facts(1) by auto
        show "unat (fst c1) < 2 ^ 31" using less.prems(1) by (simp add: c1)
        show "Suc s = (pos + ?k) div BLOCK_SIZE" unfolding next_s by (simp add: block_size)
        show "e = (pos + ?k + (remain - ?k) - 1) div BLOCK_SIZE" using less.prems(4) True by simp
        show "src_ok (map_option (drop ?k) data) (remain - ?k)" by (rule src(3)) (rule facts(2))
        show "Suc s \<le> max n (Suc s)" "block_count (fst c1) \<le> max n (Suc s)" using less.prems(9) by (auto simp: c1)
        have "pos + ?k = Suc s * BLOCK_SIZE" by (rule next_s)
        then show "max lim (pos + ?k) \<le> max (unat (fst c1)) (Suc s * BLOCK_SIZE)"
          using less.prems(10) by (auto simp: c1 block_size)
      qed (rule less.prems(5) ok1)+
      note ih = this
      have eqs: "max (max n (Suc s)) (Suc e) = max n (Suc e)" "pos + ?k + (remain - ?k) = pos + remain"
        "fst c1 = fst c0"
        using se facts(2) by (auto simp: c1 max_def)
      from ih show ?thesis
      proof (rule fruns_weaken)
        fix p cur
        assume "loop_post (pos + ?k) (remain - ?k) (map_option (drop ?k) data) (max lim (pos + ?k)) (max (max n (Suc s)) (Suc e)) c1 p cur"
        then show "loop_post pos remain data lim (max n (Suc e)) c0 p cur"
          using bytes_written_trans [OF one less.prems(6) facts(2), of cur] unfolding loop_post_def eqs by simp
      qed simp
    next
      case False
      then have k: "?k = remain" using facts(2) by simp
      then have "e = s" using facts(5) less.prems(3,4) by simp
      then have "write_loop cr (Suc s) e (pos + ?k) (remain - ?k) (map_option (drop ?k) data) = io_ret (pos + ?k)"
        by (subst write_loop.simps) simp
      then show ?thesis
        using k one ok1 \<open>e = s\<close> by (auto intro!: fruns_ret simp: loop_post_def c1)
    qed
  qed
  have body: "write_loop cr s e pos remain data = io_bind get_length (\<lambda>l.
     io_bind (if s * BLOCK_SIZE mod 2 ^ 64 < round_length l then fd_read_block cr s
              else io_ret (replicate BLOCK_SIZE 0)) (\<lambda>block.
     io_bind (fd_write_block cr s (?b block)) (\<lambda>_.
       write_loop cr (Suc s) e (pos + ?k) (remain - ?k) (map_option (drop ?k) data))))"
    using se by (subst write_loop.simps) (simp add: Let_def)
  show ?case
    unfolding body
  proof (rule fruns_bind [OF fruns_length [OF cr]])
    fix l
    show "fruns cr uuid R (\<lambda>cur. cur = c0 \<and> l = fst cur)
     (io_bind (if s * BLOCK_SIZE mod 2 ^ 64 < round_length l then fd_read_block cr s
              else io_ret (replicate BLOCK_SIZE 0)) (\<lambda>block.
      io_bind (fd_write_block cr s (?b block)) (\<lambda>_.
        write_loop cr (Suc s) e (pos + ?k) (remain - ?k) (map_option (drop ?k) data))))
     (loop_post pos remain data lim (max n (Suc e)) c0)"
    proof (cases "l = fst c0")
      case True
      show ?thesis
        unfolding True
      proof (rule fruns_weaken [where P = "\<lambda>cur. cur = c0", OF fruns_bind [OF read]])
        fix block
        show "fruns cr uuid R
          (\<lambda>cur. cur = c0 \<and> length block = BLOCK_SIZE \<and> (s * BLOCK_SIZE < lim \<longrightarrow> snd (snd c0) s = Some block))
          (io_bind (fd_write_block cr s (?b block)) (\<lambda>_.
             write_loop cr (Suc s) e (pos + ?k) (remain - ?k) (map_option (drop ?k) data)))
          (loop_post pos remain data lim (max n (Suc e)) c0)"
        proof (cases "length block = BLOCK_SIZE \<and> (s * BLOCK_SIZE < lim \<longrightarrow> snd (snd c0) s = Some block)")
          case True
          have blen: "length (?b block) = BLOCK_SIZE"
            using length_overlay [of "pos mod BLOCK_SIZE" "chunk_of ?k data" block] facts(2,3) src(1) [of ?k] True by simp
          have "s \<le> fst (snd c0)" using less.prems(7,8) by (simp add: blocks_ok_def)
          then show ?thesis
            by (intro fruns_bind [OF fruns_write_block [OF cr blen small(1),
                  where Q = "\<lambda>cur. cur = with_block s (?b block) c0"]] step [OF refl]) (use True in auto)
        qed (auto intro: fruns_false)
      qed (elim conjE, assumption)
    qed (auto intro: fruns_false)
  qed
qed

section \<open>Writing at a position\<close>

lemma length_chunk: "src_ok data n \<Longrightarrow> length (chunk_of n data) = n"
  by (auto simp: chunk_of_def src_ok_def split: option.splits)

lemma nth_chunk: "src_ok data n \<Longrightarrow> i < n \<Longrightarrow> chunk_of n data ! i = src_byte data i"
  by (auto simp: chunk_of_def src_ok_def src_byte_def split: option.splits)

lemma length_file_bytes [simp]: "length (file_bytes cur) = unat (fst cur)"
  by (simp add: file_bytes_def)

lemma nth_file_bytes: "i < unat (fst cur) \<Longrightarrow> file_bytes cur ! i = byte_at cur i"
  by (simp add: file_bytes_def)

lemma file_bytes_written:
  assumes w: "bytes_written pos n data (unat (fst c0)) c0 cur" and src: "src_ok data n" and pos: "pos \<le> unat (fst c0)"
    and l: "unat (fst cur) = max (unat (fst c0)) (pos + n)"
  shows "file_bytes cur = overlay (file_bytes c0) pos (chunk_of n data)"
proof (rule nth_equalityI)
  show "length (file_bytes cur) = length (overlay (file_bytes c0) pos (chunk_of n data))"
    using pos by (simp add: overlay_def length_chunk [OF src] l)
  fix i assume "i < length (file_bytes cur)"
  then have i: "i < max (unat (fst c0)) (pos + n)" by (simp add: l)
  have "i < unat (fst c0) \<or> pos \<le> i \<and> i < pos + n" using i pos by (auto simp: max_def split: if_splits)
  then have "byte_at cur i = (if pos \<le> i \<and> i < pos + n then src_byte data (i - pos) else byte_at c0 i)"
    using w unfolding bytes_written_def by blast
  moreover have "overlay (file_bytes c0) pos (chunk_of n data) ! i
      = (if pos \<le> i \<and> i < pos + n then src_byte data (i - pos) else byte_at c0 i)"
    using i pos by (auto simp: overlay_def nth_append length_chunk [OF src] nth_chunk [OF src] nth_file_bytes min_def)
  ultimately show "file_bytes cur ! i = overlay (file_bytes c0) pos (chunk_of n data) ! i"
    using i by (simp add: nth_file_bytes l)
qed

lemma block_count_facts:
  shows "unat l div BLOCK_SIZE \<le> block_count l" and "0 < unat l \<Longrightarrow> block_count l = Suc ((unat l - 1) div BLOCK_SIZE)"
proof -
  show "unat l div BLOCK_SIZE \<le> block_count l" unfolding block_count_def by (rule div_le_mono) simp
  assume "0 < unat l"
  then have "unat l + 4095 = (unat l - 1) + 4096" by linarith
  then have "(unat l + 4095) div 4096 = (unat l - 1) div 4096 + 1" by (metis div_add_self2 zero_neq_numeral)
  then show "block_count l = Suc ((unat l - 1) div BLOCK_SIZE)" by (simp add: block_count_def block_size)
qed

lemma unat_end:
  assumes "unat pos + unat len < 2 ^ 31" and "0 < unat (len :: 64 word)"
  shows "unat (pos + len) = unat pos + unat len" and "unat (pos + len - 1) = unat pos + unat len - 1"
proof -
  have "unat pos + unat len < 2 ^ 64" using assms(1) by (rule less_trans) simp
  then show e: "unat (pos + len) = unat pos + unat len" by (simp add: unat_word_ariths)
  have "pos + len \<noteq> 0" using e assms(2) by (metis add_is_0 neq0_conv unat_0)
  then show "unat (pos + len - 1) = unat pos + unat len - 1" using e by (metis unat_minus_one)
qed

definition written_as :: "bytes \<Rightarrow> snapshot \<Rightarrow> bool" where
  "written_as bs cur \<longleftrightarrow> file_ok cur \<and> file_bytes cur = bs"

lemma loop_post_final:
  assumes c0: "file_ok c0" and pos: "pos \<le> unat (fst c0)" and n: "0 < n" "pos + n < 2 ^ 31" and src: "src_ok data n"
    and post: "loop_post pos n data (unat (fst c0)) (max (block_count (fst c0)) (Suc ((pos + n - 1) div BLOCK_SIZE))) c0 p cur"
  shows "p > unat (fst cur) \<Longrightarrow> written_as (overlay (file_bytes c0) pos (chunk_of n data)) (with_length (word_of_nat p) cur)"
    and "\<not> p > unat (fst cur) \<Longrightarrow> written_as (overlay (file_bytes c0) pos (chunk_of n data)) cur"
proof -
  let ?e = "(pos + n - 1) div BLOCK_SIZE"
  have p: "p = pos + n" "fst cur = fst c0" "blocks_ok cur (max (block_count (fst c0)) (Suc ?e))"
    and bw: "bytes_written pos n data (unat (fst c0)) c0 cur"
    using post by (simp_all add: loop_post_def)
  have "p < 2 ^ 64" using n(2) unfolding p(1) by (rule less_trans) simp
  then have up: "unat (word_of_nat p :: 64 word) = p" by (simp add: unat_of_nat_exact)
  have sub: "blocks_ok cur m \<Longrightarrow> k \<le> m \<Longrightarrow> blocks_ok cur k" for m k by (auto simp: blocks_ok_def)
  {
    assume "p > unat (fst cur)"
    then have l: "unat (fst c0) < pos + n" using p by simp
    have "block_count (word_of_nat p) = Suc ?e" using block_count_facts(2) [of "word_of_nat p"] up n(1) p(1) by simp
    then have "file_ok (with_length (word_of_nat p) cur)"
      using sub [OF p(3), of "Suc ?e"] up n(2) p(1) by (simp add: file_ok_def)
    moreover have "bytes_written pos n data (unat (fst c0)) c0 (with_length (word_of_nat p) cur)"
      using bw by (simp add: bytes_written_def)
    ultimately show "written_as (overlay (file_bytes c0) pos (chunk_of n data)) (with_length (word_of_nat p) cur)"
      using file_bytes_written [OF _ src pos] l up p(1) by (simp add: written_as_def)
  next
    assume "\<not> p > unat (fst cur)"
    then have l: "pos + n \<le> unat (fst c0)" using p by simp
    have "file_ok cur" using c0 sub [OF p(3), of "block_count (fst c0)"] p(2) by (simp add: file_ok_def)
    then show "written_as (overlay (file_bytes c0) pos (chunk_of n data)) cur"
      using file_bytes_written [OF bw src pos] l p(2) by (simp add: written_as_def)
  }
qed

lemma out_of_place_write_runs:
  assumes cr: "crypto_ok cr" and c0: "file_ok c0" and pos: "unat pos \<le> unat (fst c0)"
    and len: "0 < unat len" "unat pos + unat len < 2 ^ 31" and src: "src_ok data (unat len)"
  shows "fruns cr uuid R (\<lambda>cur. cur = c0) (out_of_place_write cr pos data len)
    (\<lambda>_. written_as (overlay (file_bytes c0) (unat pos) (chunk_of (unat len) data)))"
proof -
  let ?e = "(unat pos + unat len - 1) div BLOCK_SIZE" and ?s = "unat pos div BLOCK_SIZE"
  let ?post = "loop_post (unat pos) (unat len) data (unat (fst c0)) (max (block_count (fst c0)) (Suc ?e)) c0"
  have small: "unat pos < 2 ^ 31" "unat (pos + len - 1) < 2 ^ 31"
    using len unat_end(2) [OF len(2,1)] by simp_all
  have blocks: "block_num pos = ?s" "block_num (pos + len - 1) = ?e"
    using block_num_div small unat_end(2) [OF len(2,1)] by simp_all
  have l: "unat (fst c0) < 2 ^ 31" "blocks_ok c0 (block_count (fst c0))" using c0 by (simp_all add: file_ok_def)
  have "?s \<le> unat (fst c0) div BLOCK_SIZE" using pos by (rule div_le_mono)
  then have s: "?s \<le> block_count (fst c0)" using block_count_facts(1) by (rule le_trans)
  have e: "?e < 2 ^ 20" using len by (simp add: less_mult_imp_div_less block_size)
  have loop: "fruns cr uuid R (\<lambda>cur. cur = c0) (write_loop cr ?s ?e (unat pos) (unat len) data) ?post"
    by (rule write_loop_runs [OF cr l(1) len(1) refl refl e src l(2) s order_refl]) simp
  have fin: "fruns cr uuid R (?post p) (io_bind get_length (\<lambda>l. if p > unat l then set_length (word_of_nat p) else io_ret ()))
      (\<lambda>_. written_as (overlay (file_bytes c0) (unat pos) (chunk_of (unat len) data)))" for p
  proof (rule fruns_bind [OF fruns_length [OF cr]])
    fix l
    note final = loop_post_final [OF c0 pos len src]
    show "fruns cr uuid R (\<lambda>cur. ?post p cur \<and> l = fst cur) (if p > unat l then set_length (word_of_nat p) else io_ret ())
      (\<lambda>_. written_as (overlay (file_bytes c0) (unat pos) (chunk_of (unat len) data)))"
    proof (cases "p > unat l")
      case True
      have "fruns cr uuid R (\<lambda>cur. ?post p cur \<and> l = fst cur) (set_length (word_of_nat p))
          (\<lambda>_. written_as (overlay (file_bytes c0) (unat pos) (chunk_of (unat len) data)))"
        by (rule fruns_set_length) (use True in \<open>auto intro: final(1)\<close>)
      then show ?thesis using True by simp
    next
      case False
      have "fruns cr uuid R (\<lambda>cur. ?post p cur \<and> l = fst cur) (io_ret ())
          (\<lambda>_. written_as (overlay (file_bytes c0) (unat pos) (chunk_of (unat len) data)))"
        by (rule fruns_ret) (use False in \<open>auto intro: final(2)\<close>)
      then show ?thesis using False by simp
    qed
  qed
  have "len \<noteq> 0" using len(1) by auto
  then show ?thesis
    unfolding out_of_place_write_def blocks if_not_P [OF \<open>len \<noteq> 0\<close>]
    by (intro fruns_bind [OF fruns_tmp] fruns_bind [OF loop] fin)
qed

text \<open>The specification: a file is its list of bytes; a write past the end fills the gap with zeros.\<close>

definition bytes_write :: "nat \<Rightarrow> bytes \<Rightarrow> bytes \<Rightarrow> bytes" where
  "bytes_write pos d f = (if d = [] then f else overlay (f @ replicate (pos - length f) 0) pos d)"

definition bytes_read :: "nat \<Rightarrow> nat \<Rightarrow> bytes \<Rightarrow> bytes" where
  "bytes_read pos n f = take n (drop pos f)"

lemma ftruncate_grows:
  assumes cr: "crypto_ok cr" and c0: "file_ok c0" and l: "unat (fst c0) < unat new" "unat new < 2 ^ 31"
  shows "fruns cr uuid R (\<lambda>cur. cur = c0) (ree_fs_ftruncate_internal cr new)
    (\<lambda>_. written_as (file_bytes c0 @ replicate (unat new - unat (fst c0)) 0))"
  unfolding ree_fs_ftruncate_internal_def
proof (rule fruns_bind [OF fruns_length [OF cr]])
  fix l0
  have diff: "unat (new - fst c0) = unat new - unat (fst c0)" using l(1) by (simp add: unat_sub word_le_nat_alt)
  have grow: "fruns cr uuid R (\<lambda>cur. cur = c0) (out_of_place_write cr (fst c0) None (new - fst c0))
    (\<lambda>_. written_as (overlay (file_bytes c0) (unat (fst c0)) (chunk_of (unat (new - fst c0)) None)))"
    by (rule out_of_place_write_runs [OF cr c0]) (use l diff in \<open>simp_all add: src_ok_def\<close>)
  have "overlay (file_bytes c0) (unat (fst c0)) (chunk_of (unat (new - fst c0)) None)
      = file_bytes c0 @ replicate (unat new - unat (fst c0)) 0"
    by (simp add: overlay_def chunk_of_def diff)
  note grow = grow [unfolded this]
  show "fruns cr uuid R (\<lambda>cur. cur = c0 \<and> l0 = fst cur)
     (if l0 < new then out_of_place_write cr l0 None (new - l0)
      else let (offs, sz) = get_offs_size TEE_FS_HTREE_TYPE_BLOCK (round_length new div BLOCK_SIZE) 1
         in io_bind (with_ht (\<lambda>h w. case tee_fs_htree_truncate h (unat new div BLOCK_SIZE) of
                None \<Rightarrow> (Stuck, h, w)
              | Some (res, h1) \<Rightarrow> (if res = TEE_SUCCESS then Ok () else Fail res, h1, w))) (\<lambda>_.
            io_bind (tee_fs_rpc_truncate (offs + sz)) (\<lambda>_. set_length new)))
     (\<lambda>_. written_as (file_bytes c0 @ replicate (unat new - unat (fst c0)) 0))"
  proof (cases "l0 = fst c0")
    case True
    then have "l0 < new" using l(1) by (simp add: word_less_nat_alt)
    then show ?thesis
      unfolding if_P [OF \<open>l0 < new\<close>] unfolding True
      by (intro fruns_weaken [where P = "\<lambda>cur. cur = c0", OF grow]) (elim conjE, assumption)+
  qed (auto intro: fruns_false)
qed

lemma written_asD: "written_as bs cur \<Longrightarrow> file_ok cur \<and> file_bytes cur = bs \<and> unat (fst cur) = length bs"
  by (auto simp: written_as_def)

lemma write_at_runs:
  assumes cr: "crypto_ok cr" and pos: "unat pos \<le> length bs" and len: "0 < unat len" "unat pos + unat len < 2 ^ 31"
    and buf: "length buf = unat len"
  shows "fruns cr uuid R (written_as bs) (out_of_place_write cr pos (Some buf) len) (\<lambda>_. written_as (overlay bs (unat pos) buf))"
proof (rule frunsI)
  fix ht w cur assume life: "htree_life cr BLOCK_SIZE uuid (Some ht) w R cur" and "written_as bs cur"
  note c = written_asD [OF this(2)]
  have "chunk_of (unat len) (Some buf) = buf" using buf by (simp add: chunk_of_def)
  moreover have "fruns cr uuid R (\<lambda>c. c = cur) (out_of_place_write cr pos (Some buf) len)
      (\<lambda>_. written_as (overlay (file_bytes cur) (unat pos) (chunk_of (unat len) (Some buf))))"
    by (rule out_of_place_write_runs [OF cr]) (use c pos len buf in \<open>simp_all add: src_ok_def\<close>)
  moreover have "holds cr uuid R (Some ht) w (\<lambda>c. c = cur)" by (rule holdsI [OF life refl])
  ultimately show "outcome cr uuid R w (out_of_place_write cr pos (Some buf) len (Some ht, w))
      (\<lambda>_. written_as (overlay bs (unat pos) buf))"
    using c by (simp add: fruns_def)
qed

lemma write_primitive_runs:
  assumes cr: "crypto_ok cr" and c0: "file_ok c0" and len: "unat pos + unat len < 2 ^ 31" and buf: "length buf = unat len"
  shows "fruns cr uuid R (\<lambda>cur. cur = c0) (ree_fs_write_primitive cr pos buf len)
    (\<lambda>_. written_as (bytes_write (unat pos) buf (file_bytes c0)))"
proof (cases "len = 0")
  case True
  then have "buf = []" using buf by simp
  then show ?thesis
    unfolding ree_fs_write_primitive_def if_P [OF True]
    by (intro fruns_ret) (use c0 in \<open>simp add: bytes_write_def written_as_def\<close>)
next
  case False
  then have pos_len: "0 < unat len" by (simp add: unat_gt_0)
  then have "unat (pos + len) = unat pos + unat len" using unat_end(1) [OF len] by simp
  then have nowrap: "\<not> pos + len < len" by (simp add: word_less_nat_alt)
  have "buf \<noteq> []" using buf pos_len by auto
  let ?mid = "file_bytes c0 @ replicate (unat pos - unat (fst c0)) 0"
  have grown: "fruns cr uuid R (\<lambda>cur. cur = c0)
      (if fst c0 < pos then ree_fs_ftruncate_internal cr pos else io_ret ()) (\<lambda>_. written_as ?mid)"
  proof (cases "fst c0 < pos")
    case True
    then have "unat (fst c0) < unat pos" by (simp add: word_less_nat_alt)
    then show ?thesis unfolding if_P [OF True] using len by (intro ftruncate_grows [OF cr c0]) simp_all
  next
    case False
    then have "unat pos \<le> unat (fst c0)" by (simp add: word_less_nat_alt)
    then show ?thesis unfolding if_not_P [OF False] by (intro fruns_ret) (use c0 in \<open>simp add: written_as_def\<close>)
  qed
  have fin: "fruns cr uuid R (written_as ?mid) (out_of_place_write cr pos (Some buf) len)
      (\<lambda>_. written_as (bytes_write (unat pos) buf (file_bytes c0)))"
    using write_at_runs [OF cr _ pos_len len buf, of ?mid] \<open>buf \<noteq> []\<close> by (simp add: bytes_write_def)
  show ?thesis
    unfolding ree_fs_write_primitive_def if_not_P [OF False] if_not_P [OF nowrap]
  proof (rule fruns_bind [OF fruns_length [OF cr]])
    fix l
    show "fruns cr uuid R (\<lambda>cur. cur = c0 \<and> l = fst cur)
      (io_bind (if l < pos then ree_fs_ftruncate_internal cr pos else io_ret ()) (\<lambda>_. out_of_place_write cr pos (Some buf) len))
      (\<lambda>_. written_as (bytes_write (unat pos) buf (file_bytes c0)))"
    proof (cases "l = fst c0")
      case True
      show ?thesis
        unfolding True
        by (rule fruns_weaken [where P = "\<lambda>cur. cur = c0", OF fruns_bind [OF grown fin]]) (elim conjE, assumption)+
    qed (auto intro: fruns_false)
  qed
qed

section \<open>Reading at a position\<close>

lemma block_slice:
  assumes b: "snd (snd c0) (pos div BLOCK_SIZE) = Some b" "length b = BLOCK_SIZE" and k: "pos mod BLOCK_SIZE + k \<le> BLOCK_SIZE"
  shows "take k (drop (pos mod BLOCK_SIZE) b) = map (byte_at c0) [pos..<pos + k]"
proof (rule nth_equalityI)
  show "length (take k (drop (pos mod BLOCK_SIZE) b)) = length (map (byte_at c0) [pos..<pos + k])"
    using b(2) k by simp
  fix i assume "i < length (take k (drop (pos mod BLOCK_SIZE) b))"
  then have i: "i < k" by simp
  have pm: "pos = BLOCK_SIZE * (pos div BLOCK_SIZE) + pos mod BLOCK_SIZE" by simp
  have in_block: "pos mod BLOCK_SIZE + i < BLOCK_SIZE" using i k by linarith
  have "(pos + i) div BLOCK_SIZE = pos div BLOCK_SIZE \<and> (pos + i) mod BLOCK_SIZE = pos mod BLOCK_SIZE + i"
    using in_block pm by (metis add.assoc div_mult_self4 div_less add_0_right mod_mult_self4 mod_less less_zeroE)
  then show "take k (drop (pos mod BLOCK_SIZE) b) ! i = map (byte_at c0) [pos..<pos + k] ! i"
    using b i k by (simp add: byte_at_def)
qed

lemma read_loop_runs:
  assumes cr: "crypto_ok cr"
    and "0 < remain" and "s = int (pos div BLOCK_SIZE)" and "e = int ((pos + remain - 1) div BLOCK_SIZE)"
    and "(pos + remain - 1) div BLOCK_SIZE < n" and "n \<le> 2 ^ 20" and "blocks_ok c0 n"
  shows "fruns cr uuid R (\<lambda>cur. cur = c0) (read_loop cr s e pos remain)
    (\<lambda>d cur. cur = c0 \<and> d = map (byte_at c0) [pos..<pos + remain])"
  using assms(2-)
proof (induction remain arbitrary: s pos rule: less_induct)
  case (less remain)
  let ?k = "chunk_size pos remain" and ?num = "pos div BLOCK_SIZE"
  note facts = chunk_facts [OF less.prems(1), of pos]
  have se: "?num \<le> (pos + remain - 1) div BLOCK_SIZE" by (rule div_le_mono) (use less.prems(1) in simp)
  have num: "?num < n" using se less.prems(4) by linarith
  then have small: "Suc ?num < 2 ^ 32 - 1" "unat (word_of_int s :: 64 word) = ?num"
    using less.prems(2,5) by (simp_all add: unat_of_nat_exact)
  have there: "\<exists>b. snd (snd c0) ?num = Some b \<and> length b = BLOCK_SIZE"
    using less.prems(6) num unfolding blocks_ok_def by blast
  have rest: "fruns cr uuid R (\<lambda>cur. cur = c0) (read_loop cr (s + 1) e (pos + ?k) (remain - ?k))
     (\<lambda>d cur. cur = c0 \<and> d = map (byte_at c0) [pos + ?k..<pos + remain])"
  proof (cases "?k < remain")
    case True
    note next_s = facts(4) [OF True]
    have "fruns cr uuid R (\<lambda>cur. cur = c0) (read_loop cr (s + 1) e (pos + ?k) (remain - ?k))
     (\<lambda>d cur. cur = c0 \<and> d = map (byte_at c0) [pos + ?k..<pos + ?k + (remain - ?k)])"
    proof (rule less.IH)
      show "remain - ?k < remain" "0 < remain - ?k" using True facts(1) by auto
      have "(pos + ?k) div BLOCK_SIZE = Suc ?num" unfolding next_s by (simp add: block_size)
      then show "s + 1 = int ((pos + ?k) div BLOCK_SIZE)" using less.prems(2) by simp
      have "pos + ?k + (remain - ?k) - 1 = pos + remain - 1" using True by simp
      then show "e = int ((pos + ?k + (remain - ?k) - 1) div BLOCK_SIZE)" "(pos + ?k + (remain - ?k) - 1) div BLOCK_SIZE < n"
        using less.prems(3,4) by simp_all
    qed (rule less.prems(5,6))+
    then show ?thesis using facts(2) by simp
  next
    case False
    then have k: "?k = remain" using facts(2) by simp
    then have "e < s + 1" using facts(5) less.prems(2,3) by simp
    then have "read_loop cr (s + 1) e (pos + ?k) (remain - ?k) = io_ret []" by (subst read_loop.simps) simp
    then show ?thesis by (simp only:) (rule fruns_ret, simp add: k)
  qed
  have split: "[pos..<pos + ?k] @ [pos + ?k..<pos + remain] = [pos..<pos + remain]"
    using facts(2) by (metis le_add_diff_inverse upt_add_eq_append add.assoc le_add1)
  have body: "read_loop cr s e pos remain = io_bind (fd_read_block cr ?num) (\<lambda>block.
      io_bind (read_loop cr (s + 1) e (pos + ?k) (remain - ?k)) (\<lambda>rest.
        io_ret (take ?k (drop (pos mod BLOCK_SIZE) block) @ rest)))"
    using se less.prems(2,3) small(2) by (subst read_loop.simps) (simp add: Let_def)
  show ?case
    unfolding body
  proof (rule fruns_bind [OF fruns_read_block [OF cr small(1)]])
    fix cur assume "cur = c0"
    then show "snd (snd cur) ?num \<noteq> None" using there by auto
  next
    fix block
    show "fruns cr uuid R (\<lambda>cur. cur = c0 \<and> snd (snd cur) ?num = Some block)
      (io_bind (read_loop cr (s + 1) e (pos + ?k) (remain - ?k)) (\<lambda>rest.
        io_ret (take ?k (drop (pos mod BLOCK_SIZE) block) @ rest)))
      (\<lambda>d cur. cur = c0 \<and> d = map (byte_at c0) [pos..<pos + remain])"
    proof (cases "snd (snd c0) ?num = Some block")
      case True
      then have "length block = BLOCK_SIZE" using there by auto
      note slice = block_slice [OF True this facts(3)]
      show ?thesis
      proof (rule fruns_weaken [where P = "\<lambda>cur. cur = c0", OF fruns_bind [OF rest]])
        fix d
        show "fruns cr uuid R (\<lambda>cur. cur = c0 \<and> d = map (byte_at c0) [pos + ?k..<pos + remain])
          (io_ret (take ?k (drop (pos mod BLOCK_SIZE) block) @ d))
          (\<lambda>d cur. cur = c0 \<and> d = map (byte_at c0) [pos..<pos + remain])"
          by (rule fruns_ret) (simp only: slice map_append [symmetric] split simp_thms)
      qed (elim conjE, assumption)
    qed (auto intro: fruns_false)
  qed
qed

lemma bytes_read_map:
  assumes "p + n \<le> unat (fst cur)"
  shows "map (byte_at cur) [p..<p + n] = bytes_read p n (file_bytes cur)"
  using assms by (intro nth_equalityI) (simp_all add: bytes_read_def nth_file_bytes)

lemma read_primitive_runs:
  assumes cr: "crypto_ok cr" and c0: "file_ok c0" and len: "unat pos + unat len < 2 ^ 64"
  shows "fruns cr uuid R (\<lambda>cur. cur = c0) (ree_fs_read_primitive cr pos len)
    (\<lambda>d cur. cur = c0 \<and> d = bytes_read (unat pos) (unat len) (file_bytes c0))"
proof -
  let ?l = "fst c0"
  define rb where "rb = (if pos + len < len \<or> pos > ?l then 0 else if pos + len > ?l then ?l - pos else len)"
  let ?n = "min (unat len) (unat ?l - unat pos)"
  have e: "unat (pos + len) = unat pos + unat len" using len by (simp add: unat_word_ariths)
  have rb: "unat rb = ?n"
    using e by (auto simp: rb_def word_less_nat_alt unat_sub word_le_nat_alt min_def)
  have same: "bytes_read (unat pos) (unat len) (file_bytes c0) = bytes_read (unat pos) ?n (file_bytes c0)"
    by (simp add: bytes_read_def min_def)
  have l: "unat ?l < 2 ^ 31" "blocks_ok c0 (block_count ?l)" using c0 by (simp_all add: file_ok_def)
  have run: "fruns cr uuid R (\<lambda>cur. cur = c0)
     (if rb = 0 then io_ret [] else io_bind get_tmp_block (\<lambda>_.
        read_loop cr (sint (pos_to_block_num (ucast pos))) (sint (pos_to_block_num (ucast (pos + rb - 1)))) (unat pos) (unat rb)))
     (\<lambda>d cur. cur = c0 \<and> d = bytes_read (unat pos) (unat len) (file_bytes c0))"
  proof (cases "rb = 0")
    case True
    then have "?n = 0" using rb by simp
    then show ?thesis unfolding if_P [OF True] same by (intro fruns_ret) (simp add: bytes_read_def)
  next
    case False
    then have "0 < unat rb" by (simp add: unat_gt_0)
    then have n: "0 < unat rb" "unat pos + unat rb \<le> unat ?l" using rb by linarith+
    then have sum: "unat pos + unat rb < 2 ^ 31" using l(1) by linarith
    note last = unat_end(2) [OF sum n(1)]
    have small: "unat pos < 2 ^ 31" "unat (pos + rb - 1) < 2 ^ 31" using sum n(1) last by simp_all
    have "(unat pos + unat rb - 1) div BLOCK_SIZE \<le> (unat ?l - 1) div BLOCK_SIZE" using n(2) by (intro div_le_mono) simp
    then have blk: "(unat pos + unat rb - 1) div BLOCK_SIZE < block_count ?l" using block_count_facts(2) [of ?l] n by simp
    have count: "block_count ?l \<le> 2 ^ 20" using l(1) by (simp add: block_count_def block_size)
    have "fruns cr uuid R (\<lambda>cur. cur = c0)
      (read_loop cr (sint (pos_to_block_num (ucast pos))) (sint (pos_to_block_num (ucast (pos + rb - 1)))) (unat pos) (unat rb))
      (\<lambda>d cur. cur = c0 \<and> d = map (byte_at c0) [unat pos..<unat pos + unat rb])"
      unfolding sint_block_num [OF small(1)] sint_block_num [OF small(2)] last
      by (rule read_loop_runs [OF cr n(1) refl refl blk count l(2)])
    then show ?thesis
      unfolding if_not_P [OF False] same rb [symmetric] bytes_read_map [OF n(2)] by (intro fruns_bind [OF fruns_tmp])
  qed
  show ?thesis
    unfolding ree_fs_read_primitive_def Let_def
  proof (rule fruns_bind [OF fruns_length [OF cr]])
    fix l
    let ?rb = "if pos + len < len \<or> pos > l then 0 else if pos + len > l then l - pos else len"
    show "fruns cr uuid R (\<lambda>cur. cur = c0 \<and> l = fst cur)
     (if ?rb = 0 then io_ret [] else io_bind get_tmp_block (\<lambda>_.
        read_loop cr (sint (pos_to_block_num (ucast pos))) (sint (pos_to_block_num (ucast (pos + ?rb - 1)))) (unat pos) (unat ?rb)))
     (\<lambda>d cur. cur = c0 \<and> d = bytes_read (unat pos) (unat len) (file_bytes c0))"
    proof (cases "l = ?l")
      case True
      show ?thesis
        unfolding True rb_def [symmetric]
        by (rule fruns_weaken [where P = "\<lambda>cur. cur = c0", OF run]) (elim conjE, assumption)+
    qed (auto intro: fruns_false)
  qed
qed

section \<open>A file refines its list of bytes\<close>

lemma outcome_cases:
  assumes "outcome cr uuid R w res Q"
  shows "case res of
      (Ok x, (h, w')) \<Rightarrow> (calm w \<longrightarrow> calm w') \<and> (\<exists>ht' cur'. h = Some ht' \<and> htree_life cr BLOCK_SIZE uuid h w' R cur' \<and> Q x cur')
    | (Fail e, (h, w')) \<Rightarrow> \<not> calm w \<and> (\<exists>cur'. htree_life cr BLOCK_SIZE uuid h w' R cur')
    | (Stuck, _) \<Rightarrow> False"
  using assms by (auto simp: outcome_def holds_def split: prod.splits io.splits)

lemma fruns_at:
  assumes "fruns cr uuid R (\<lambda>c. c = cur) m Q" and "htree_life cr BLOCK_SIZE uuid (Some ht) w R cur"
  shows "outcome cr uuid R w (m (Some ht, w)) Q"
  using assms(1) holdsI [OF assms(2), of "\<lambda>c. c = cur"] by (simp add: fruns_def)

text \<open>
  C18: writing \<open>buf\<close> at \<open>pos\<close> makes the file the list of bytes with \<open>buf\<close> over it at \<open>pos\<close>, zeros filling
  the gap when \<open>pos\<close> is past the end, whatever blocks are touched. It fails only when a call fails, and what
  storage gives back after a crash is not changed by it. Positions are below \<open>2 ^ 31\<close>.
\<close>
theorem ree_fs_write_bytes:
  assumes "htree_life cr BLOCK_SIZE uuid (Some ht) w R cur" and "crypto_ok cr" and "file_ok cur"
    and "length buf = unat len" and "unat pos + unat len < 2 ^ 31"
  shows "case ree_fs_write_primitive cr pos buf len (Some ht, w) of
      (Ok _, (h, w')) \<Rightarrow> (calm w \<longrightarrow> calm w') \<and> (\<exists>ht' cur'. h = Some ht' \<and> htree_life cr BLOCK_SIZE uuid h w' R cur'
        \<and> file_ok cur' \<and> file_bytes cur' = bytes_write (unat pos) buf (file_bytes cur))
    | (Fail e, (h, w')) \<Rightarrow> \<not> calm w \<and> (\<exists>cur'. htree_life cr BLOCK_SIZE uuid h w' R cur')
    | (Stuck, _) \<Rightarrow> False"
  using outcome_cases [OF fruns_at [OF write_primitive_runs [OF assms(2,3,5,4)] assms(1)]]
  unfolding written_as_def .

text \<open>
  C19: reading \<open>len\<close> bytes at \<open>pos\<close> gives those bytes of the file, fewer at its end and none past it, and the
  file is as before. It fails only when a call fails.
\<close>
theorem ree_fs_read_bytes:
  assumes "htree_life cr BLOCK_SIZE uuid (Some ht) w R cur" and "crypto_ok cr" and "file_ok cur"
    and "unat pos + unat len < 2 ^ 64"
  shows "case ree_fs_read_primitive cr pos len (Some ht, w) of
      (Ok d, (h, w')) \<Rightarrow> (calm w \<longrightarrow> calm w') \<and> (\<exists>ht' cur'. h = Some ht' \<and> htree_life cr BLOCK_SIZE uuid h w' R cur'
        \<and> cur' = cur \<and> d = bytes_read (unat pos) (unat len) (file_bytes cur))
    | (Fail e, (h, w')) \<Rightarrow> \<not> calm w \<and> (\<exists>cur'. htree_life cr BLOCK_SIZE uuid h w' R cur')
    | (Stuck, _) \<Rightarrow> False"
  by (rule outcome_cases [OF fruns_at [OF read_primitive_runs [OF assms(2,3,4)] assms(1)]])

text \<open>An empty file, and one of which bytes 5 and 6 have been written.\<close>

lemma toy_empty:
  "\<exists>ht w R cur. htree_life toy_crypto BLOCK_SIZE [] (Some ht) w R cur \<and> calm w \<and> file_ok cur \<and> file_bytes cur = []"
proof -
  have start: "calm toy_start" by (simp add: toy_start_def calm_def)
  obtain c d w where c: "tee_fs_htree_open toy_crypto True None [] toy_start = (Ok (c, d), Some c, w)" "calm w"
    using create_calm [OF toy_crypto_ok start] by blast
  define s where "s = snapshot_of toy_crypto BLOCK_SIZE c (w_stor w)"
  have life: "htree_life toy_crypto BLOCK_SIZE [] (Some c) w {s} s" by (rule created [OF c(1) s_def])
  have "file_ok (with_length 0 s)" by (simp add: file_ok_def block_count_def blocks_ok_def block_size)
  moreover have "file_bytes (with_length 0 s) = []" by (simp add: file_bytes_def)
  ultimately show ?thesis using length_set [OF life, of 0] c(2) by blast
qed

lemma toy_bytes: "bytes_write 5 [1, 2] [] = [0, 0, 0, 0, 0, 1, 2]"
  by (simp add: bytes_write_def overlay_def eval_nat_numeral)

lemma toy_file:
  "\<exists>ht w R cur. htree_life toy_crypto BLOCK_SIZE [] (Some ht) w R cur \<and> calm w \<and> file_ok cur
     \<and> file_bytes cur = [0, 0, 0, 0, 0, 1, 2]"
proof -
  obtain ht w R cur where e: "htree_life toy_crypto BLOCK_SIZE [] (Some ht) w R cur" "calm w" "file_ok cur"
      "file_bytes cur = []"
    using toy_empty by blast
  have "fruns toy_crypto [] R (\<lambda>c. c = cur) (ree_fs_write_primitive toy_crypto 5 [1, 2] 2)
      (\<lambda>_. written_as (bytes_write (unat (5 :: 64 word)) [1, 2] (file_bytes cur)))"
    by (rule write_primitive_runs [OF toy_crypto_ok e(3)]) simp_all
  note run = fruns_at [OF this e(1), unfolded e(4) unat_numeral]
  obtain r h w' where r: "ree_fs_write_primitive toy_crypto 5 [1, 2] 2 (Some ht, w) = (r, (h, w'))" by (metis prod.exhaust)
  have "calm w' \<and> h \<noteq> None \<and> holds toy_crypto [] R h w' (written_as [0, 0, 0, 0, 0, 1, 2])"
    using run e(2) unfolding r by (cases r) (auto simp: toy_bytes)
  then show ?thesis by (blast elim: holdsE dest: written_asD)
qed

theorem ree_fs_write_bytes_witness:
  "\<exists>ht w cur h w' R cur'. file_bytes cur = [] \<and> htree_life toy_crypto BLOCK_SIZE [] (Some ht) w R cur
     \<and> ree_fs_write_primitive toy_crypto 5 [1, 2] 2 (Some ht, w) = (Ok (), (h, w'))
     \<and> htree_life toy_crypto BLOCK_SIZE [] h w' R cur' \<and> file_bytes cur' = [0, 0, 0, 0, 0, 1, 2]"
proof -
  obtain ht w R cur where e: "htree_life toy_crypto BLOCK_SIZE [] (Some ht) w R cur" "calm w" "file_ok cur"
      "file_bytes cur = []"
    using toy_empty by blast
  obtain r h w' where r: "ree_fs_write_primitive toy_crypto 5 [1, 2] 2 (Some ht, w) = (r, (h, w'))" by (metis prod.exhaust)
  have "length [1, 2 :: 8 word] = unat (2 :: 64 word)" "unat (5 :: 64 word) + unat (2 :: 64 word) < 2 ^ 31" by simp_all
  from ree_fs_write_bytes [OF e(1) toy_crypto_ok e(3) this] e(2) r
  have "r = Ok () \<and> (\<exists>cur'. htree_life toy_crypto BLOCK_SIZE [] h w' R cur' \<and> file_bytes cur' = [0, 0, 0, 0, 0, 1, 2])"
    by (cases r) (auto simp: e(4) toy_bytes)
  then show ?thesis using e(1,4) r by blast
qed

theorem ree_fs_read_bytes_witness:
  "\<exists>ht w cur h w' R. file_bytes cur = [0, 0, 0, 0, 0, 1, 2] \<and> htree_life toy_crypto BLOCK_SIZE [] (Some ht) w R cur
     \<and> ree_fs_read_primitive toy_crypto 4 100 (Some ht, w) = (Ok [0, 1, 2], (h, w'))"
proof -
  obtain ht w R cur where e: "htree_life toy_crypto BLOCK_SIZE [] (Some ht) w R cur" "calm w" "file_ok cur"
      "file_bytes cur = [0, 0, 0, 0, 0, 1, 2]"
    using toy_file by blast
  obtain r h w' where r: "ree_fs_read_primitive toy_crypto 4 100 (Some ht, w) = (r, (h, w'))" by (metis prod.exhaust)
  have "unat (4 :: 64 word) + unat (100 :: 64 word) < 2 ^ 64" by simp
  from ree_fs_read_bytes [OF e(1) toy_crypto_ok e(3) this] e(2) r
  have "r = Ok [0, 1, 2]" by (cases r) (auto simp: e(4) bytes_read_def)
  then show ?thesis using e(1,4) r by blast
qed

end
