(* ===== verification/FsDirfile.thy ===== *)
theory FsDirfile
  imports FsRee Bitstring
begin

text \<open>
  The directory file of the normal-world file system (\<open>core/tee/fs_dirfile.c\<close>): an array of entries that
  name the files of objects, and a string of bits of the file numbers in use. The file operations
  the code calls through pointers are a record of functions on a state of type \<open>'s\<close>.
\<close>

section \<open>Data\<close>

text \<open>\<open>struct dirfile_entry\<close>; the identifier's array has 64 bytes.\<close>

record dirfile_entry =
  de_uuid :: bytes
  de_oid :: bytes
  de_oidlen :: "32 word"
  de_hash :: "256 word"
  de_file_number :: "32 word"

text \<open>The bits, of which there are \<open>nbits\<close>, and \<open>ndents\<close>.\<close>

record dirfile_dirh =
  dh_files :: "bool list"
  dh_ndents :: nat

record dirfile_fileh =
  fh_file_number :: "32 word"
  fh_hash :: "256 word"
  fh_idx :: int

record 's dirfile_operations =
  fop_open :: "bool \<Rightarrow> 256 word option \<Rightarrow> ('s, unit) sm"
  fop_close :: "('s, unit) sm"
  fop_read :: "64 word \<Rightarrow> 64 word \<Rightarrow> ('s, bytes) sm"
  fop_write :: "64 word \<Rightarrow> bytes \<Rightarrow> 64 word \<Rightarrow> ('s, unit) sm"
  fop_commit_writes :: "256 word option \<Rightarrow> ('s, 256 word option) sm"
  fop_alloc :: "('s, unit) sm"

text \<open>The last one stands for \<open>calloc\<close> and \<open>realloc\<close>, which may fail.\<close>

type_synonym 's dir_state = "dirfile_dirh \<times> 's"

text \<open>The size and the bytes of an entry in memory; the fields leave no gaps.\<close>

definition dent_size :: nat where "dent_size = 120"

definition dent_bytes :: "dirfile_entry \<Rightarrow> bytes" where
  "dent_bytes d = de_uuid d @ de_oid d @ le_bytes 4 (unat (de_oidlen d)) @ le_bytes 32 (unat (de_hash d))
     @ le_bytes 4 (unat (de_file_number d))"

definition dent_of_bytes :: "bytes \<Rightarrow> dirfile_entry" where
  "dent_of_bytes bs = \<lparr>de_uuid = take 16 bs, de_oid = take 64 (drop 16 bs),
     de_oidlen = word_of_nat (le_value (take 4 (drop 80 bs))), de_hash = word_of_nat (le_value (take 32 (drop 84 bs))),
     de_file_number = word_of_nat (le_value (take 4 (drop 116 bs)))\<rparr>"

definition zero_dent :: dirfile_entry where
  "zero_dent = \<lparr>de_uuid = replicate 16 0, de_oid = replicate 64 0, de_oidlen = 0, de_hash = 0, de_file_number = 0\<rparr>"

definition OID_EMPTY_NAME :: "8 word" where "OID_EMPTY_NAME = 1"

section \<open>Running the operations\<close>

definition on_file :: "('s, 'a) sm \<Rightarrow> ('s dir_state, 'a) sm" where
  "on_file m = (\<lambda>(d, s). case m s of (r, s1) \<Rightarrow> (r, (d, s1)))"

definition on_dirh :: "(dirfile_dirh \<Rightarrow> 'a \<times> dirfile_dirh) \<Rightarrow> ('s dir_state, 'a) sm" where
  "on_dirh f = (\<lambda>(d, s). case f d of (x, d1) \<Rightarrow> (Ok x, (d1, s)))"

definition get_nbits :: "('s dir_state, int) sm" where
  "get_nbits = on_dirh (\<lambda>d. (int (length (dh_files d)), d))"

section \<open>Operations\<close>

definition is_free :: "dirfile_entry \<Rightarrow> ('s, bool) sm" where
  "is_free dent =
     (if de_oidlen dent \<noteq> 0 \<or> de_oid dent ! 0 = 0 \<or> de_oid dent ! 0 = OID_EMPTY_NAME
      then io_ret (de_oidlen dent = 0 \<and> de_oid dent ! 0 = 0) else io_stuck)"

text \<open>Bits at negative places, and the overflow of \<open>idx + 1\<close>, are undefined and so \<open>Stuck\<close>.\<close>

definition maybe_grow_files :: "'s dirfile_operations \<Rightarrow> int \<Rightarrow> ('s dir_state, unit) sm" where
  "maybe_grow_files fops idx = io_bind get_nbits (\<lambda>nbits.
     if idx < nbits then io_ret ()
     else if idx + 1 \<ge> 2 ^ 31 then io_stuck
     else io_try (on_file (fop_alloc fops))
       (\<lambda>_. on_dirh (\<lambda>d. ((), d\<lparr>dh_files := dh_files d @ replicate (nat (idx + 1 - nbits)) False\<rparr>)))
       (\<lambda>_. io_fail TEE_ERROR_OUT_OF_MEMORY))"

definition put_bit :: "int \<Rightarrow> bool \<Rightarrow> ('s dir_state, unit) sm" where
  "put_bit idx b = (if idx < 0 then io_stuck else on_dirh (\<lambda>d. ((), d\<lparr>dh_files := (dh_files d)[nat idx := b]\<rparr>)))"

definition set_file :: "'s dirfile_operations \<Rightarrow> int \<Rightarrow> ('s dir_state, unit) sm" where
  "set_file fops idx = io_bind (maybe_grow_files fops idx) (\<lambda>_. put_bit idx True)"

definition clear_file :: "int \<Rightarrow> ('s dir_state, unit) sm" where
  "clear_file idx = io_bind get_nbits (\<lambda>nbits. if idx < nbits then put_bit idx False else io_ret ())"

definition test_file :: "int \<Rightarrow> ('s dir_state, bool) sm" where
  "test_file idx = io_bind get_nbits (\<lambda>nbits.
     if idx < nbits then (if idx < 0 then io_stuck else on_dirh (\<lambda>d. (dh_files d ! nat idx, d))) else io_ret False)"

definition read_dent :: "'s dirfile_operations \<Rightarrow> int \<Rightarrow> ('s dir_state, dirfile_entry) sm" where
  "read_dent fops idx =
     io_bind (on_file (fop_read fops (word_of_int (int dent_size * idx)) (word_of_nat dent_size))) (\<lambda>b.
       if length b \<noteq> dent_size then io_fail TEE_ERROR_ITEM_NOT_FOUND else io_ret (dent_of_bytes b))"

definition write_dent :: "'s dirfile_operations \<Rightarrow> int \<Rightarrow> dirfile_entry \<Rightarrow> ('s dir_state, unit) sm" where
  "write_dent fops n dent =
     io_bind (on_file (fop_write fops (word_of_int (int dent_size * n)) (dent_bytes dent) (word_of_nat dent_size)))
       (\<lambda>_. on_dirh (\<lambda>d. ((), if unat (word_of_int n :: 64 word) \<ge> dh_ndents d
          then d\<lparr>dh_ndents := unat (word_of_int n + 1 :: 64 word)\<rparr> else d)))"

text \<open>
  Loops over the entries: the index is an \<open>int\<close> when it is passed to \<open>read_dent\<close>, and going past its
  largest value is \<open>Stuck\<close>.
\<close>

function open_loop :: "'s dirfile_operations \<Rightarrow> nat \<Rightarrow> ('s dir_state, nat) sm" where
  "open_loop fops n =
     (if 2 ^ 31 \<le> n then io_stuck
      else io_try (read_dent fops (int n))
        (\<lambda>dent. io_bind (is_free dent) (\<lambda>free.
           if free then open_loop fops (Suc n)
           else io_bind (test_file (sint (de_file_number dent))) (\<lambda>used.
             if used then io_bind (write_dent fops (int n) zero_dent) (\<lambda>_. open_loop fops (Suc n))
             else io_bind (set_file fops (sint (de_file_number dent))) (\<lambda>_. open_loop fops (Suc n)))))
        (\<lambda>e. if e = TEE_ERROR_ITEM_NOT_FOUND then io_ret n else io_fail e))"
  by pat_completeness auto
termination by (relation "measure (\<lambda>(_, n). 2 ^ 31 - n)") auto

declare open_loop.simps [simp del]

definition tee_fs_dirfile_close :: "'s dirfile_operations \<Rightarrow> ('s dir_state, unit) sm" where
  "tee_fs_dirfile_close fops = on_file (fop_close fops)"

text \<open>Opening starts without a directory handle and returns it.\<close>

definition empty_dirh :: dirfile_dirh where
  "empty_dirh = \<lparr>dh_files = [], dh_ndents = 0\<rparr>"

definition tee_fs_dirfile_open :: "'s dirfile_operations \<Rightarrow> bool \<Rightarrow> 256 word option \<Rightarrow> ('s, dirfile_dirh) sm" where
  "tee_fs_dirfile_open fops create hash = io_try (fop_alloc fops)
     (\<lambda>_ s. case io_try (io_bind (on_file (fop_open fops create hash)) (\<lambda>_. open_loop fops 0))
              (\<lambda>n. on_dirh (\<lambda>d. ((), d\<lparr>dh_ndents := n\<rparr>)))
              (\<lambda>e. io_bind (tee_fs_dirfile_close fops) (\<lambda>_. io_fail e)) (empty_dirh, s)
            of (r, (d, s1)) \<Rightarrow> (map_io (\<lambda>_. d) r, s1))
     (\<lambda>_. io_fail TEE_ERROR_OUT_OF_MEMORY)"

definition tee_fs_dirfile_commit_writes ::
    "'s dirfile_operations \<Rightarrow> 256 word option \<Rightarrow> ('s dir_state, 256 word option) sm" where
  "tee_fs_dirfile_commit_writes fops hash = on_file (fop_commit_writes fops hash)"

definition tee_fs_dirfile_get_tmp :: "'s dirfile_operations \<Rightarrow> ('s dir_state, 32 word) sm" where
  "tee_fs_dirfile_get_tmp fops =
     io_bind (on_dirh (\<lambda>d. (case bit_ffc (dh_files d) of None \<Rightarrow> int (length (dh_files d)) | Some i \<Rightarrow> int i, d))) (\<lambda>i.
     io_bind (set_file fops i) (\<lambda>_. io_ret (word_of_int i)))"

text \<open>The entry of an object: its index and itself.\<close>

function find_loop :: "'s dirfile_operations \<Rightarrow> bytes \<Rightarrow> bytes \<Rightarrow> nat \<Rightarrow> ('s dir_state, nat \<times> dirfile_entry) sm" where
  "find_loop fops uuid oid n =
     (if 2 ^ 31 \<le> n then io_stuck
      else io_bind (read_dent fops (int n)) (\<lambda>dent.
           io_bind (is_free dent) (\<lambda>free.
             if free \<or> unat (de_oidlen dent) \<noteq> length oid then find_loop fops uuid oid (Suc n)
             else io_bind (test_file (sint (de_file_number dent))) (\<lambda>used.
               if \<not> used then io_stuck
               else if de_uuid dent = uuid \<and> take (length oid) (de_oid dent) = oid then io_ret (n, dent)
               else find_loop fops uuid oid (Suc n)))))"
  by pat_completeness auto
termination by (relation "measure (\<lambda>(_, _, _, n). 2 ^ 31 - n)") auto

declare find_loop.simps [simp del]

definition tee_fs_dirfile_find :: "'s dirfile_operations \<Rightarrow> bytes \<Rightarrow> bytes \<Rightarrow> ('s dir_state, dirfile_fileh) sm" where
  "tee_fs_dirfile_find fops uuid oid = io_bind (find_loop fops uuid oid 0) (\<lambda>(n, dent).
     io_ret \<lparr>fh_file_number = de_file_number dent, fh_hash = de_hash dent, fh_idx = int n\<rparr>)"

function find_empty_loop :: "'s dirfile_operations \<Rightarrow> nat \<Rightarrow> ('s dir_state, nat) sm" where
  "find_empty_loop fops n =
     (if 2 ^ 31 \<le> n then io_stuck
      else io_try (read_dent fops (int n))
        (\<lambda>dent. io_bind (is_free dent) (\<lambda>free. if free then io_ret n else find_empty_loop fops (Suc n)))
        (\<lambda>e. if e = TEE_ERROR_ITEM_NOT_FOUND then io_ret n else io_fail e))"
  by pat_completeness auto
termination by (relation "measure (\<lambda>(_, n). 2 ^ 31 - n)") auto

declare find_empty_loop.simps [simp del]

definition find_empty_idx :: "'s dirfile_operations \<Rightarrow> ('s dir_state, int) sm" where
  "find_empty_idx fops = io_bind (find_empty_loop fops 0) (\<lambda>n. io_ret (int n))"

text \<open>\<open>snprintf\<close> with \<open>%x\<close>: the digits of a number, at least one.\<close>

definition hex_digit :: "nat \<Rightarrow> char" where
  "hex_digit d = ''0123456789abcdef'' ! d"

fun hex_digits :: "nat \<Rightarrow> string" where
  "hex_digits n = (if n < 16 then [hex_digit n] else hex_digits (n div 16) @ [hex_digit (n mod 16)])"

declare hex_digits.simps [simp del]

text \<open>The result, the text stored and the new value of \<open>*fnlen\<close>.\<close>

definition tee_fs_dirfile_fileh_to_fname :: "dirfile_fileh option \<Rightarrow> nat \<Rightarrow> tee_result \<times> string \<times> nat" where
  "tee_fs_dirfile_fileh_to_fname dfh fnlen =
     (let name = (case dfh of Some fh \<Rightarrow> hex_digits (unat (fh_file_number fh)) | None \<Rightarrow> ''dirf.db'');
          r = length name
      in (if r \<ge> fnlen then TEE_ERROR_SHORT_BUFFER else TEE_SUCCESS, take (fnlen - 1) name, r + 1))"

definition tee_fs_dirfile_rename ::
    "'s dirfile_operations \<Rightarrow> bytes \<Rightarrow> dirfile_fileh \<Rightarrow> bytes \<Rightarrow> ('s dir_state, dirfile_fileh) sm" where
  "tee_fs_dirfile_rename fops uuid dfh oid =
     (if length oid > 64 then io_fail TEE_ERROR_BAD_PARAMETERS
      else
        let dent = \<lparr>de_uuid = uuid,
              de_oid = (if oid \<noteq> [] then oid else [OID_EMPTY_NAME]) @ replicate (64 - max 1 (length oid)) 0,
              de_oidlen = word_of_nat (length oid), de_hash = fh_hash dfh, de_file_number = fh_file_number dfh\<rparr>
        in io_bind (if fh_idx dfh < 0
             then io_try (tee_fs_dirfile_find fops uuid oid) (\<lambda>dfh2. io_ret (fh_idx dfh2))
               (\<lambda>e. if e = TEE_ERROR_ITEM_NOT_FOUND then find_empty_idx fops else io_fail e)
             else io_ret (fh_idx dfh)) (\<lambda>idx.
           io_bind (write_dent fops idx dent) (\<lambda>_. io_ret (dfh\<lparr>fh_idx := idx\<rparr>))))"

definition tee_fs_dirfile_remove :: "'s dirfile_operations \<Rightarrow> dirfile_fileh \<Rightarrow> ('s dir_state, unit) sm" where
  "tee_fs_dirfile_remove fops dfh =
     io_bind (read_dent fops (fh_idx dfh)) (\<lambda>dent.
     io_bind (is_free dent) (\<lambda>free.
       if free then io_ret ()
       else let file_number = de_file_number dent
         in if fh_file_number dfh \<noteq> file_number then io_stuck
            else io_bind (test_file (sint file_number)) (\<lambda>used.
              if \<not> used then io_stuck
              else io_bind (write_dent fops (fh_idx dfh) zero_dent) (\<lambda>_. clear_file (sint file_number)))))"

definition tee_fs_dirfile_update_hash :: "'s dirfile_operations \<Rightarrow> dirfile_fileh \<Rightarrow> ('s dir_state, unit) sm" where
  "tee_fs_dirfile_update_hash fops dfh =
     io_bind (read_dent fops (fh_idx dfh)) (\<lambda>dent.
       if de_file_number dent \<noteq> fh_file_number dfh then io_stuck
       else io_bind (test_file (sint (de_file_number dent))) (\<lambda>used.
         if \<not> used then io_stuck
         else write_dent fops (fh_idx dfh) (dent\<lparr>de_hash := fh_hash dfh\<rparr>)))"

function next_loop :: "'s dirfile_operations \<Rightarrow> bytes \<Rightarrow> int \<Rightarrow> ('s dir_state, int \<times> dirfile_entry) sm" where
  "next_loop fops uuid i =
     (if 2 ^ 31 \<le> i then io_stuck
      else io_bind (read_dent fops i) (\<lambda>dent.
        if de_uuid dent = uuid then
          io_bind (is_free dent) (\<lambda>free. if free then next_loop fops uuid (i + 1) else io_ret (i, dent))
        else next_loop fops uuid (i + 1)))"
  by pat_completeness auto
termination by (relation "measure (\<lambda>(_, _, i). nat (2 ^ 31 - i))") auto

declare next_loop.simps [simp del]

text \<open>The index found and the identifier, for a buffer of \<open>oidlen\<close> bytes.\<close>

definition tee_fs_dirfile_get_next ::
    "'s dirfile_operations \<Rightarrow> bytes \<Rightarrow> int \<Rightarrow> nat \<Rightarrow> ('s dir_state, int \<times> bytes) sm" where
  "tee_fs_dirfile_get_next fops uuid idx oidlen =
     io_bind (next_loop fops uuid (max 0 (idx + 1))) (\<lambda>(i, dent).
       if oidlen < unat (de_oidlen dent) then io_fail TEE_ERROR_SHORT_BUFFER
       else io_ret (i, take (unat (de_oidlen dent)) (de_oid dent)))"

end
