(* ===== verification/FsDir.thy ===== *)
theory FsDir
  imports FsDirfile
begin

text \<open>
  The directory file is a map: its operations on any file that keeps bytes are operations on a list of
  entries, and those are operations on the map from objects to their files.
\<close>

section \<open>Entries\<close>

definition used_dent :: "dirfile_entry \<Rightarrow> bool" where
  "used_dent e \<longleftrightarrow> de_oidlen e \<noteq> 0 \<or> de_oid e ! 0 \<noteq> 0"

definition dent_ok :: "dirfile_entry \<Rightarrow> bool" where
  "dent_ok e \<longleftrightarrow> length (de_uuid e) = 16 \<and> length (de_oid e) = 64 \<and> unat (de_oidlen e) \<le> 64
     \<and> (de_oidlen e \<noteq> 0 \<or> de_oid e ! 0 = 0 \<or> de_oid e ! 0 = OID_EMPTY_NAME)"

definition dir_bytes :: "dirfile_entry list \<Rightarrow> bytes" where
  "dir_bytes es = concat (map dent_bytes es)"

lemma length_dent_bytes: "dent_ok e \<Longrightarrow> length (dent_bytes e) = dent_size"
  by (simp add: dent_ok_def dent_bytes_def dent_size_def)

lemma le_word: "le_value (le_bytes 4 (unat (w :: 32 word))) = unat w" "le_value (le_bytes 32 (unat (v :: 256 word))) = unat v"
proof -
  have "unat w < 256 ^ 4" by (rule less_le_trans [OF unsigned_less]) simp
  moreover have "unat v < 256 ^ 32" by (rule less_le_trans [OF unsigned_less]) simp
  ultimately show "le_value (le_bytes 4 (unat w)) = unat w" "le_value (le_bytes 32 (unat v)) = unat v"
    by (simp_all only: le_roundtrip)
qed

lemma dent_roundtrip:
  assumes "dent_ok e"
  shows "dent_of_bytes (dent_bytes e) = e"
proof -
  obtain u oid n h f where e: "e = \<lparr>de_uuid = u, de_oid = oid, de_oidlen = n, de_hash = h, de_file_number = f\<rparr>"
    by (cases e)
  have l: "length u = 16" "length oid = 64" using assms by (simp_all add: dent_ok_def e)
  have b: "dent_bytes e = u @ oid @ le_bytes 4 (unat n) @ le_bytes 32 (unat h) @ le_bytes 4 (unat f)"
    by (simp add: dent_bytes_def e)
  have "take 64 (drop 16 (dent_bytes e)) = oid" "take 4 (drop 80 (dent_bytes e)) = le_bytes 4 (unat n)"
    "take 32 (drop 84 (dent_bytes e)) = le_bytes 32 (unat h)" "take 4 (drop 116 (dent_bytes e)) = le_bytes 4 (unat f)"
    "take 16 (dent_bytes e) = u"
    unfolding b using l by simp_all
  then show ?thesis by (simp add: dent_of_bytes_def e le_word)
qed

lemma zero_dent_ok [simp]: "dent_ok zero_dent" "\<not> used_dent zero_dent"
  by (simp_all add: zero_dent_def dent_ok_def used_dent_def)

lemma length_dir_bytes: "\<forall>e \<in> set es. dent_ok e \<Longrightarrow> length (dir_bytes es) = dent_size * length es"
  by (induction es) (simp_all add: dir_bytes_def length_dent_bytes)

lemma dir_bytes_Cons [simp]: "dir_bytes (e # es) = dent_bytes e @ dir_bytes es" "dir_bytes [] = []"
  by (simp_all add: dir_bytes_def)

lemma dir_bytes_read:
  "\<forall>e \<in> set es. dent_ok e \<Longrightarrow> i < length es \<Longrightarrow>
     bytes_read (dent_size * i) dent_size (dir_bytes es) = dent_bytes (es ! i)"
proof (induction es arbitrary: i)
  case (Cons e es)
  then show ?case
  proof (cases i)
    case (Suc j)
    then show ?thesis using Cons by (simp add: bytes_read_def length_dent_bytes)
  qed (simp add: bytes_read_def length_dent_bytes)
qed simp

lemma dir_bytes_past:
  assumes "\<forall>e \<in> set es. dent_ok e" and "length es \<le> i"
  shows "bytes_read (dent_size * i) dent_size (dir_bytes es) = []"
  using assms by (simp add: bytes_read_def length_dir_bytes)

text \<open>An entry written at its place, or added at the end.\<close>

definition put_dent :: "nat \<Rightarrow> dirfile_entry \<Rightarrow> dirfile_entry list \<Rightarrow> dirfile_entry list" where
  "put_dent i e es = (if i < length es then es[i := e] else es @ [e])"

lemma overlay_append:
  "length a = off \<Longrightarrow> overlay (a @ b) off c = a @ c @ drop (length c) b"
  by (simp add: overlay_def)

lemma dir_bytes_write:
  assumes ok: "\<forall>e \<in> set es. dent_ok e" and "dent_ok e" and i: "i \<le> length es"
  shows "bytes_write (dent_size * i) (dent_bytes e) (dir_bytes es) = dir_bytes (put_dent i e es)"
proof -
  have ne: "dent_bytes e \<noteq> []" using length_dent_bytes [OF assms(2)] by (auto simp: dent_size_def)
  have split: "dir_bytes es = dir_bytes (take i es) @ dir_bytes (drop i es)"
    by (simp add: dir_bytes_def flip: concat_append map_append)
  have "\<forall>e \<in> set (take i es). dent_ok e" using ok by (meson in_set_takeD)
  then have len: "length (dir_bytes (take i es)) = dent_size * i" using i by (simp add: length_dir_bytes)
  have "bytes_write (dent_size * i) (dent_bytes e) (dir_bytes es)
      = dir_bytes (take i es) @ dent_bytes e @ drop dent_size (dir_bytes (drop i es))"
    using ne ok i length_dent_bytes [OF assms(2)]
    by (simp add: bytes_write_def length_dir_bytes) (simp add: split overlay_append [OF len])
  also have "\<dots> = dir_bytes (put_dent i e es)"
  proof (cases "i < length es")
    case True
    then have "drop i es = es ! i # drop (Suc i) es" "dent_ok (es ! i)" using ok by (simp_all add: Cons_nth_drop_Suc)
    then show ?thesis using True
      by (simp add: put_dent_def upd_conv_take_nth_drop length_dent_bytes) (simp add: dir_bytes_def)
  next
    case False
    then show ?thesis using i by (simp add: put_dent_def dir_bytes_def)
  qed
  finally show ?thesis .
qed

section \<open>Files the directory can be kept in\<close>

text \<open>
  \<open>trouble\<close>: a call failed. \<open>implements\<close>: on a file with entries \<open>es\<close>, either that, or the result is \<open>r\<close>,
  the handle is then \<open>d'\<close> and the file has the entries \<open>es'\<close>.
\<close>

definition trouble :: "('s \<Rightarrow> bool) \<Rightarrow> ('s \<Rightarrow> bool) \<Rightarrow> 's \<Rightarrow> 'a io \<Rightarrow> 's \<Rightarrow> bool" where
  "trouble sick fine s r s' \<longleftrightarrow> \<not> fine s \<and> sick s' \<and> (\<exists>e. r = Fail e \<and> e \<noteq> TEE_ERROR_ITEM_NOT_FOUND)"

definition is_dir :: "('s \<Rightarrow> bytes \<Rightarrow> bool) \<Rightarrow> 's \<Rightarrow> dirfile_entry list \<Rightarrow> bool" where
  "is_dir file_is s es \<longleftrightarrow> (\<forall>e \<in> set es. dent_ok e) \<and> dent_size * length es < 2 ^ 31 \<and> file_is s (dir_bytes es)"

definition implements ::
    "('s \<Rightarrow> bytes \<Rightarrow> bool) \<Rightarrow> ('s \<Rightarrow> bool) \<Rightarrow> ('s \<Rightarrow> bool) \<Rightarrow> ('s dir_state, 'a) sm
     \<Rightarrow> dirfile_dirh \<Rightarrow> dirfile_entry list \<Rightarrow> 'a io \<Rightarrow> dirfile_dirh \<Rightarrow> dirfile_entry list \<Rightarrow> bool" where
  "implements file_is sick fine m d es r d' es' \<longleftrightarrow> r \<noteq> Stuck
     \<and> (\<forall>s. is_dir file_is s es \<longrightarrow> (case m (d, s) of (r1, (d1, s1)) \<Rightarrow>
         trouble sick fine s r1 s1 \<or> r1 = r \<and> d1 = d' \<and> is_dir file_is s1 es' \<and> (fine s \<longrightarrow> fine s1)))"

lemma implementsI:
  assumes "r \<noteq> Stuck"
    and "\<And>s r1 d1 s1. is_dir file_is s es \<Longrightarrow> m (d, s) = (r1, (d1, s1)) \<Longrightarrow>
      trouble sick fine s r1 s1 \<or> r1 = r \<and> d1 = d' \<and> is_dir file_is s1 es' \<and> (fine s \<longrightarrow> fine s1)"
  shows "implements file_is sick fine m d es r d' es'"
  using assms unfolding implements_def by (auto split: prod.splits)

lemma implementsD:
  assumes "implements file_is sick fine m d es r d' es'" and "is_dir file_is s es" and "m (d, s) = (r1, (d1, s1))"
  shows "trouble sick fine s r1 s1 \<or> r1 = r \<and> d1 = d' \<and> is_dir file_is s1 es' \<and> (fine s \<longrightarrow> fine s1)"
  using assms unfolding implements_def by fastforce

lemma impl_ret [intro!]: "implements file_is sick fine (io_ret x) d es (Ok x) d es"
  by (rule implementsI) (auto simp: io_ret_def)

lemma impl_fail [intro!]: "implements file_is sick fine (io_fail e) d es (Fail e) d es"
  by (rule implementsI) (auto simp: io_fail_def)

lemma impl_dirh: "f d = (x, d') \<Longrightarrow> implements file_is sick fine (on_dirh f) d es (Ok x) d' es"
  by (rule implementsI) (auto simp: on_dirh_def)

lemma impl_bind:
  assumes "implements file_is sick fine m d es (Ok x) d1 es1" and "implements file_is sick fine (k x) d1 es1 r d2 es2"
  shows "implements file_is sick fine (io_bind m k) d es r d2 es2"
proof (rule implementsI)
  show "r \<noteq> Stuck" using assms(2) by (simp add: implements_def)
  fix s r1 d3 s1 assume dir: "is_dir file_is s es" and b: "io_bind m k (d, s) = (r1, d3, s1)"
  obtain r0 d0 s0 where m: "m (d, s) = (r0, (d0, s0))" by (metis prod.exhaust)
  from implementsD [OF assms(1) dir m]
  show "trouble sick fine s r1 s1 \<or> r1 = r \<and> d3 = d2 \<and> is_dir file_is s1 es2 \<and> (fine s \<longrightarrow> fine s1)"
  proof
    assume "trouble sick fine s r0 s0"
    then show ?thesis using b m by (auto simp: io_bind_def trouble_def)
  next
    assume ok: "r0 = Ok x \<and> d0 = d1 \<and> is_dir file_is s0 es1 \<and> (fine s \<longrightarrow> fine s0)"
    then have "k x (d1, s0) = (r1, (d3, s1))" using b m by (simp add: io_bind_def)
    from implementsD [OF assms(2) _ this] ok show ?thesis by (auto simp: trouble_def)
  qed
qed

lemma impl_bind_fail:
  assumes "implements file_is sick fine m d es (Fail e) d1 es1"
  shows "implements file_is sick fine (io_bind m k) d es (Fail e) d1 es1"
proof (rule implementsI)
  fix s r1 d3 s1 assume dir: "is_dir file_is s es" and b: "io_bind m k (d, s) = (r1, d3, s1)"
  obtain r0 d0 s0 where m: "m (d, s) = (r0, (d0, s0))" by (metis prod.exhaust)
  from implementsD [OF assms(1) dir m] b m
  show "trouble sick fine s r1 s1 \<or> r1 = Fail e \<and> d3 = d1 \<and> is_dir file_is s1 es1 \<and> (fine s \<longrightarrow> fine s1)"
    by (auto simp: io_bind_def trouble_def)
qed simp

text \<open>A handler passes on errors other than the end of the file.\<close>

definition passes_on :: "(tee_result \<Rightarrow> ('s, 'a) sm) \<Rightarrow> bool" where
  "passes_on handler \<longleftrightarrow> (\<forall>e. e \<noteq> TEE_ERROR_ITEM_NOT_FOUND \<longrightarrow> (\<exists>e'. handler e = io_fail e' \<and> e' \<noteq> TEE_ERROR_ITEM_NOT_FOUND))"

lemma impl_try:
  assumes "implements file_is sick fine m d es r0 d1 es1" and p: "passes_on handler"
    and k: "\<And>x. r0 = Ok x \<Longrightarrow> implements file_is sick fine (k x) d1 es1 r d2 es2"
    and h: "\<And>e. r0 = Fail e \<Longrightarrow> implements file_is sick fine (handler e) d1 es1 r d2 es2"
  shows "implements file_is sick fine (io_try m k handler) d es r d2 es2"
proof (rule implementsI)
  have r0: "r0 \<noteq> Stuck" using assms(1) by (simp add: implements_def)
  then show "r \<noteq> Stuck" using k h by (cases r0) (auto simp: implements_def)
  fix s r1 d3 s1 assume dir: "is_dir file_is s es" and b: "io_try m k handler (d, s) = (r1, d3, s1)"
  obtain rm dm sm where m: "m (d, s) = (rm, (dm, sm))" by (metis prod.exhaust)
  from implementsD [OF assms(1) dir m]
  show "trouble sick fine s r1 s1 \<or> r1 = r \<and> d3 = d2 \<and> is_dir file_is s1 es2 \<and> (fine s \<longrightarrow> fine s1)"
  proof
    assume t: "trouble sick fine s rm sm"
    then obtain e where e: "rm = Fail e" "e \<noteq> TEE_ERROR_ITEM_NOT_FOUND" by (auto simp: trouble_def)
    then obtain e' where "handler e = io_fail e'" "e' \<noteq> TEE_ERROR_ITEM_NOT_FOUND" using p by (auto simp: passes_on_def)
    then show ?thesis using b m t e by (auto simp: io_try_def io_fail_def trouble_def)
  next
    assume ok: "rm = r0 \<and> dm = d1 \<and> is_dir file_is sm es1 \<and> (fine s \<longrightarrow> fine sm)"
    have "(\<exists>x. r0 = Ok x \<and> k x (d1, sm) = (r1, (d3, s1))) \<or> (\<exists>e. r0 = Fail e \<and> handler e (d1, sm) = (r1, (d3, s1)))"
      using b m ok r0 by (cases r0) (simp_all add: io_try_def)
    then have "trouble sick fine sm r1 s1 \<or> r1 = r \<and> d3 = d2 \<and> is_dir file_is s1 es2 \<and> (fine sm \<longrightarrow> fine s1)"
      using implementsD [OF k] implementsD [OF h] ok by blast
    then show ?thesis using ok by (auto simp: trouble_def)
  qed
qed

section \<open>What the operations do to the entries\<close>

text \<open>The bits cover all file numbers of entries, and positions stay small.\<close>

definition file_no :: "dirfile_entry \<Rightarrow> nat" where
  "file_no e = unat (de_file_number e)"

definition has_bit :: "dirfile_dirh \<Rightarrow> nat \<Rightarrow> bool" where
  "has_bit d i \<longleftrightarrow> i < length (dh_files d) \<and> dh_files d ! i"

definition dir_ok :: "dirfile_dirh \<Rightarrow> dirfile_entry list \<Rightarrow> bool" where
  "dir_ok d es \<longleftrightarrow> (\<forall>e \<in> set es. dent_ok e) \<and> dent_size * length es < 2 ^ 31 \<and> length (dh_files d) < 2 ^ 31
     \<and> (\<forall>e \<in> set es. used_dent e \<longrightarrow> has_bit d (file_no e))"

definition names :: "bytes \<Rightarrow> bytes \<Rightarrow> dirfile_entry \<Rightarrow> bool" where
  "names uuid oid e \<longleftrightarrow> used_dent e \<and> unat (de_oidlen e) = length oid \<and> de_uuid e = uuid
     \<and> take (length oid) (de_oid e) = oid"

text \<open>The first index from \<open>n\<close> on with a property.\<close>

function next_index :: "('a \<Rightarrow> bool) \<Rightarrow> 'a list \<Rightarrow> nat \<Rightarrow> nat option" where
  "next_index P xs n = (if length xs \<le> n then None else if P (xs ! n) then Some n else next_index P xs (Suc n))"
  by pat_completeness auto
termination by (relation "measure (\<lambda>(P, xs, n). length xs - n)") auto

declare next_index.simps [simp del]

lemma next_index_Some:
  "next_index P xs n = Some i \<longleftrightarrow> n \<le> i \<and> i < length xs \<and> P (xs ! i) \<and> (\<forall>j. n \<le> j \<and> j < i \<longrightarrow> \<not> P (xs ! j))"
proof (induction P xs n rule: next_index.induct)
  case (1 P xs n)
  show ?case
  proof (cases "length xs \<le> n")
    case True
    then show ?thesis by (subst next_index.simps) auto
  next
    case outer: False
    show ?thesis
    proof (cases "P (xs ! n)")
      case True
      then show ?thesis using outer by (subst next_index.simps) (auto simp: le_less)
    next
      case False
      then have "next_index P xs n = next_index P xs (Suc n)" using outer by (subst next_index.simps) simp
      moreover have "(n \<le> i \<and> i < length xs \<and> P (xs ! i) \<and> (\<forall>j. n \<le> j \<and> j < i \<longrightarrow> \<not> P (xs ! j)))
          \<longleftrightarrow> (Suc n \<le> i \<and> i < length xs \<and> P (xs ! i) \<and> (\<forall>j. Suc n \<le> j \<and> j < i \<longrightarrow> \<not> P (xs ! j)))"
        using False by (metis Suc_leD Suc_leI le_less)
      ultimately show ?thesis using 1 [OF outer False] by simp
    qed
  qed
qed

lemma next_index_None: "next_index P xs n = None \<longleftrightarrow> (\<forall>j. n \<le> j \<and> j < length xs \<longrightarrow> \<not> P (xs ! j))"
proof (induction P xs n rule: next_index.induct)
  case (1 P xs n)
  then show ?case by (subst next_index.simps) (auto, metis Suc_leI le_neq_implies_less)
qed

lemma sint_file_number: "unat (f :: 32 word) < 2 ^ 31 \<Longrightarrow> sint f = int (unat f)"
  using sint_of_small_nat [of "unat f"] by simp

lemma dh_files_bits: "length (dh_files d) \<le> i \<Longrightarrow> \<not> has_bit d i"
  by (simp add: has_bit_def)

text \<open>The string of bits grown to hold bit \<open>i\<close>, which is set.\<close>

definition with_bit :: "nat \<Rightarrow> dirfile_dirh \<Rightarrow> dirfile_dirh" where
  "with_bit i d = d\<lparr>dh_files := (dh_files d @ replicate (Suc i - length (dh_files d)) False)[i := True]\<rparr>"

definition without_bit :: "nat \<Rightarrow> dirfile_dirh \<Rightarrow> dirfile_dirh" where
  "without_bit i d = d\<lparr>dh_files := (dh_files d)[i := False]\<rparr>"

lemma has_bit_with [simp]: "has_bit (with_bit i d) j \<longleftrightarrow> j = i \<or> has_bit d j"
  by (auto simp: has_bit_def with_bit_def nth_list_update nth_append)

lemma has_bit_without [simp]: "has_bit (without_bit i d) j \<longleftrightarrow> j \<noteq> i \<and> has_bit d j"
  by (cases "j = i") (auto simp: has_bit_def without_bit_def)

lemma has_bit_ndents [simp]: "has_bit (d\<lparr>dh_ndents := n\<rparr>) j = has_bit d j"
  by (simp add: has_bit_def)

lemma length_with_bit: "length (dh_files (with_bit i d)) = max (Suc i) (length (dh_files d))"
  by (auto simp: with_bit_def)

text \<open>The entry a new name is written to.\<close>

definition place_for :: "bytes \<Rightarrow> bytes \<Rightarrow> dirfile_entry list \<Rightarrow> nat" where
  "place_for uuid oid es = (case next_index (names uuid oid) es 0 of Some i \<Rightarrow> i
     | None \<Rightarrow> (case next_index (\<lambda>e. \<not> used_dent e) es 0 of Some i \<Rightarrow> i | None \<Rightarrow> length es))"

lemma place_for_le: "place_for uuid oid es \<le> length es"
  by (auto simp: place_for_def next_index_Some split: option.splits)

definition name_dent :: "bytes \<Rightarrow> dirfile_fileh \<Rightarrow> bytes \<Rightarrow> dirfile_entry" where
  "name_dent uuid dfh oid = \<lparr>de_uuid = uuid,
     de_oid = (if oid \<noteq> [] then oid else [OID_EMPTY_NAME]) @ replicate (64 - max 1 (length oid)) 0,
     de_oidlen = word_of_nat (length oid), de_hash = fh_hash dfh, de_file_number = fh_file_number dfh\<rparr>"

lemma oidlen_exact: "length oid \<le> 64 \<Longrightarrow> unat (word_of_nat (length oid) :: 32 word) = length oid"
  by (rule unat_of_nat_exact) simp

lemma name_dent_ok:
  assumes "length uuid = 16" and "length oid \<le> 64"
  shows "dent_ok (name_dent uuid dfh oid)" and "names u o' (name_dent uuid dfh oid) \<longleftrightarrow> u = uuid \<and> o' = oid"
proof -
  let ?e = "name_dent uuid dfh oid"
  have n: "unat (de_oidlen ?e) = length oid" by (simp only: name_dent_def dirfile_entry.select_convs oidlen_exact [OF assms(2)])
  then have zero: "de_oidlen ?e = 0 \<longleftrightarrow> oid = []" by (metis length_0_conv unat_0 unat_eq_zero)
  have o: "de_oid ?e = (if oid \<noteq> [] then oid else [OID_EMPTY_NAME]) @ replicate (64 - max 1 (length oid)) 0"
    and u: "de_uuid ?e = uuid"
    by (simp_all add: name_dent_def)
  have "length (de_oid ?e) = 64" using assms(2) unfolding o by (cases oid) auto
  then show "dent_ok ?e"
    using assms n zero u o by (cases "oid = []") (simp_all add: dent_ok_def)
  have "used_dent ?e" using zero o by (cases "oid = []") (simp_all add: used_dent_def OID_EMPTY_NAME_def)
  then have "names v o' ?e \<longleftrightarrow> length oid = length o' \<and> uuid = v \<and> take (length o') (de_oid ?e) = o'" for v o'
    unfolding names_def n u by simp
  moreover have "take (length oid) (de_oid ?e) = oid" unfolding o by simp
  ultimately show "names u o' ?e \<longleftrightarrow> u = uuid \<and> o' = oid" by auto
qed

section \<open>The interface to the file\<close>

lemma dent_pos:
  assumes "dent_size * i < 2 ^ 63"
  shows "unat (word_of_int (int dent_size * int i) :: 64 word) = dent_size * i"
proof -
  have "dent_size * i < 2 ^ 64" using assms by (rule less_trans) simp
  moreover have "word_of_int (int dent_size * int i) = (word_of_nat (dent_size * i) :: 64 word)"
    by (simp only: of_nat_mult [symmetric] of_int_of_nat_eq)
  moreover have "unat (word_of_nat n :: 64 word) = n" if "n < 2 ^ 64" for n
    by (rule unat_of_nat_exact) (use that in simp)
  ultimately show ?thesis by metis
qed

text \<open>
  What the directory relies on: reads and writes act on a list of bytes, fail only when some call does, and
  then never with the code that stands for the end of the file.
\<close>

locale byte_store =
  fixes fops :: "'s dirfile_operations" and file_is :: "'s \<Rightarrow> bytes \<Rightarrow> bool"
    and sick :: "'s \<Rightarrow> bool" and fine :: "'s \<Rightarrow> bool"
  assumes read_law: "file_is s f \<Longrightarrow> unat pos + unat len < 2 ^ 64 \<Longrightarrow> fop_read fops pos len s = (r, s') \<Longrightarrow>
      trouble sick fine s r s'
      \<or> r = Ok (bytes_read (unat pos) (unat len) f) \<and> file_is s' f \<and> (fine s \<longrightarrow> fine s')"
    and write_law: "file_is s f \<Longrightarrow> length b = unat len \<Longrightarrow> unat pos + unat len < 2 ^ 31 \<Longrightarrow>
      fop_write fops pos b len s = (u, s') \<Longrightarrow>
      trouble sick fine s u s' \<or> u = Ok () \<and> file_is s' (bytes_write (unat pos) b f) \<and> (fine s \<longrightarrow> fine s')"
    and alloc_law: "file_is s f \<Longrightarrow> fop_alloc fops s = (u, s') \<Longrightarrow>
      trouble sick fine s u s' \<or> u = Ok () \<and> file_is s' f \<and> (fine s \<longrightarrow> fine s')"
begin

abbreviation impl where "impl \<equiv> implements file_is sick fine"

lemma impl_read:
  assumes "\<forall>e \<in> set es. dent_ok e" and "i \<le> length es" and "i < 2 ^ 31"
  shows "impl (read_dent fops (int i)) d es
    (if i < length es then Ok (es ! i) else Fail TEE_ERROR_ITEM_NOT_FOUND) d es"
proof -
  let ?b = "if i < length es then dent_bytes (es ! i) else []"
  have "dent_size * i < 2 ^ 63" using assms(3) by (simp add: dent_size_def)
  then have pos: "unat (word_of_int (int dent_size * int i) :: 64 word) = dent_size * i" by (rule dent_pos)
  have len: "unat (word_of_nat dent_size :: 64 word) = dent_size" by (simp add: dent_size_def)
  have "impl (on_file (fop_read fops (word_of_int (int dent_size * int i)) (word_of_nat dent_size))) d es (Ok ?b) d es"
  proof (rule implementsI)
    fix s r1 d1 s1
    assume dir: "is_dir file_is s es"
      and "on_file (fop_read fops (word_of_int (int dent_size * int i)) (word_of_nat dent_size)) (d, s) = (r1, d1, s1)"
    then have m: "fop_read fops (word_of_int (int dent_size * int i)) (word_of_nat dent_size) s = (r1, s1)" "d1 = d"
      by (auto simp: on_file_def split: prod.splits)
    have f: "file_is s (dir_bytes es)" using dir by (simp add: is_dir_def)
    have fits: "unat (word_of_int (int dent_size * int i) :: 64 word) + unat (word_of_nat dent_size :: 64 word) < 2 ^ 64"
      unfolding pos len using \<open>dent_size * i < 2 ^ 63\<close> by (simp add: dent_size_def)
    have "bytes_read (dent_size * i) dent_size (dir_bytes es) = ?b"
      using dir_bytes_read [OF assms(1)] dir_bytes_past [OF assms(1)] by simp
    then show "trouble sick fine s r1 s1 \<or> r1 = Ok ?b \<and> d1 = d \<and> is_dir file_is s1 es \<and> (fine s \<longrightarrow> fine s1)"
      using read_law [OF f fits m(1)] m(2) dir unfolding pos len is_dir_def by auto
  qed simp
  then show ?thesis
    unfolding read_dent_def
  proof (rule impl_bind)
    have "i < length es \<Longrightarrow> length (dent_bytes (es ! i)) = dent_size \<and> dent_of_bytes (dent_bytes (es ! i)) = es ! i"
      using assms(1) length_dent_bytes dent_roundtrip by simp
    then show "impl (if length ?b \<noteq> dent_size then io_fail TEE_ERROR_ITEM_NOT_FOUND else io_ret (dent_of_bytes ?b)) d es
        (if i < length es then Ok (es ! i) else Fail TEE_ERROR_ITEM_NOT_FOUND) d es"
      using impl_ret [of file_is sick fine "es ! i" d es] impl_fail [of file_is sick fine TEE_ERROR_ITEM_NOT_FOUND d es]
      by (auto simp: dent_size_def)
  qed
qed

lemma impl_write:
  assumes "\<forall>e \<in> set es. dent_ok e" and "dent_ok e" and "i \<le> length es" and "dent_size * Suc i < 2 ^ 31"
  shows "impl (write_dent fops (int i) e) d es (Ok ()) (d\<lparr>dh_ndents := max (dh_ndents d) (Suc i)\<rparr>) (put_dent i e es)"
proof -
  have small: "dent_size * i < 2 ^ 63" "i < 2 ^ 63" "Suc i < 2 ^ 64" using assms(4) by (simp_all add: dent_size_def)
  have len: "unat (word_of_nat dent_size :: 64 word) = dent_size" by (simp add: dent_size_def)
  have exact: "unat (word_of_nat k :: 64 word) = k" if "k < 2 ^ 64" for k
    by (rule unat_of_nat_exact) (use that in simp)
  have "(word_of_int (int i) + 1 :: 64 word) = word_of_nat (Suc i)" by (simp add: add.commute)
  then have n: "unat (word_of_int (int i) :: 64 word) = i" "unat (word_of_int (int i) + 1 :: 64 word) = Suc i"
    using exact [OF small(3)] exact [of i] small(2) by (simp_all only: of_int_of_nat_eq) simp
  note pos = dent_pos [OF small(1)]
  have "impl (on_file (fop_write fops (word_of_int (int dent_size * int i)) (dent_bytes e) (word_of_nat dent_size))) d es
      (Ok ()) d (put_dent i e es)"
  proof (rule implementsI)
    fix s r1 d1 s1
    assume dir: "is_dir file_is s es"
      and "on_file (fop_write fops (word_of_int (int dent_size * int i)) (dent_bytes e) (word_of_nat dent_size)) (d, s)
        = (r1, d1, s1)"
    then have m: "fop_write fops (word_of_int (int dent_size * int i)) (dent_bytes e) (word_of_nat dent_size) s = (r1, s1)"
        "d1 = d"
      by (auto simp: on_file_def split: prod.splits)
    have f: "file_is s (dir_bytes es)" using dir by (simp add: is_dir_def)
    have fits: "length (dent_bytes e) = unat (word_of_nat dent_size :: 64 word)"
      "unat (word_of_int (int dent_size * int i) :: 64 word) + unat (word_of_nat dent_size :: 64 word) < 2 ^ 31"
      unfolding pos len using assms(4) length_dent_bytes [OF assms(2)] by (simp_all add: dent_size_def)
    have "(\<forall>e \<in> set (put_dent i e es). dent_ok e) \<and> dent_size * length (put_dent i e es) < 2 ^ 31"
      using assms dir set_update_subset [of es i e] by (auto simp: put_dent_def is_dir_def)
    then show "trouble sick fine s r1 s1 \<or> r1 = Ok () \<and> d1 = d \<and> is_dir file_is s1 (put_dent i e es) \<and> (fine s \<longrightarrow> fine s1)"
      using write_law [OF f fits m(1)] m(2)
      unfolding pos dir_bytes_write [OF assms(1-3)] is_dir_def by blast
  qed simp
  then show ?thesis
    unfolding write_dent_def n
    by (rule impl_bind) (rule impl_dirh, cases d, simp add: max_def)
qed

lemma impl_alloc: "impl (on_file (fop_alloc fops)) d es (Ok ()) d es"
proof (rule implementsI)
  fix s r1 d1 s1 assume dir: "is_dir file_is s es" and "on_file (fop_alloc fops) (d, s) = (r1, d1, s1)"
  then have m: "fop_alloc fops s = (r1, s1)" "d1 = d" by (auto simp: on_file_def split: prod.splits)
  have "file_is s (dir_bytes es)" using dir by (simp add: is_dir_def)
  from alloc_law [OF this m(1)] m(2) dir
  show "trouble sick fine s r1 s1 \<or> r1 = Ok () \<and> d1 = d \<and> is_dir file_is s1 es \<and> (fine s \<longrightarrow> fine s1)"
    unfolding is_dir_def by blast
qed simp

end

context byte_store begin

lemma impl_is_free: "dent_ok e \<Longrightarrow> impl (is_free e) d es (Ok (\<not> used_dent e)) d es"
  by (auto simp: is_free_def dent_ok_def used_dent_def intro: impl_ret)

lemma impl_nbits: "impl get_nbits d es (Ok (int (length (dh_files d)))) d es"
  unfolding get_nbits_def by (rule impl_dirh) simp

lemma impl_test: "impl (test_file (int i)) d es (Ok (has_bit d i)) d es"
  unfolding test_file_def
  by (rule impl_bind [OF impl_nbits]) (auto simp: has_bit_def intro: impl_dirh impl_ret)

lemma impl_test_used:
  assumes "dir_ok d es" and "e \<in> set es" and "used_dent e"
  shows "impl (test_file (sint (de_file_number e))) d es' (Ok True) d es'"
proof -
  have "has_bit d (file_no e)" "file_no e < 2 ^ 31" using assms by (auto simp: dir_ok_def has_bit_def)
  then show ?thesis using impl_test [of "file_no e" d es'] by (simp add: file_no_def sint_file_number)
qed

lemma impl_read_ok:
  assumes "dir_ok d es" and "i \<le> length es"
  shows "impl (read_dent fops (int i)) d es (if i < length es then Ok (es ! i) else Fail TEE_ERROR_ITEM_NOT_FOUND) d es"
  using assms by (intro impl_read) (auto simp: dir_ok_def dent_size_def)

text \<open>The entries searched for a name, and for a free place.\<close>

lemma impl_find_loop:
  assumes ok: "dir_ok d es" and "n \<le> length es"
  shows "impl (find_loop fops uuid oid n) d es
    (case next_index (names uuid oid) es n of None \<Rightarrow> Fail TEE_ERROR_ITEM_NOT_FOUND | Some i \<Rightarrow> Ok (i, es ! i)) d es"
  using assms(2)
proof (induction "length es - n" arbitrary: n)
  case (0 n)
  then have n: "n = length es" "\<not> 2 ^ 31 \<le> n" using ok by (auto simp: dir_ok_def dent_size_def)
  have "next_index (names uuid oid) es n = None" using n by (auto simp: next_index_None)
  moreover have "impl (read_dent fops (int n)) d es (Fail TEE_ERROR_ITEM_NOT_FOUND) d es"
    using impl_read_ok [OF ok 0(2)] n(1) by simp
  ultimately show ?case using n(2) by (subst find_loop.simps) (simp add: impl_bind_fail)
next
  case (Suc k n)
  then have n: "n < length es" "Suc n \<le> length es" "k = length es - Suc n" "\<not> 2 ^ 31 \<le> n"
    using ok by (auto simp: dir_ok_def dent_size_def)
  note IH = Suc.hyps(1) [OF n(3,2)]
  have e: "es ! n \<in> set es" "dent_ok (es ! n)" using ok n(1) by (auto simp: dir_ok_def)
  have rd: "impl (read_dent fops (int n)) d es (Ok (es ! n)) d es" using impl_read_ok [OF ok Suc.prems] n(1) by simp
  have step: "next_index (names uuid oid) es n
      = (if names uuid oid (es ! n) then Some n else next_index (names uuid oid) es (Suc n))"
    using n(1) by (subst next_index.simps) simp
  show ?case
  proof (cases "\<not> used_dent (es ! n) \<or> unat (de_oidlen (es ! n)) \<noteq> length oid")
    case True
    then have "\<not> names uuid oid (es ! n)" by (auto simp: names_def)
    then show ?thesis
      using True IH n(4) unfolding step
      by (subst find_loop.simps) (simp, intro impl_bind [OF rd] impl_bind [OF impl_is_free [OF e(2)]], simp)
  next
    case False
    have "impl (if de_uuid (es ! n) = uuid \<and> take (length oid) (de_oid (es ! n)) = oid then io_ret (n, es ! n)
        else find_loop fops uuid oid (Suc n)) d es
      (case if names uuid oid (es ! n) then Some n else next_index (names uuid oid) es (Suc n) of
        None \<Rightarrow> Fail TEE_ERROR_ITEM_NOT_FOUND | Some i \<Rightarrow> Ok (i, es ! i)) d es"
      using IH False by (auto simp: names_def intro: impl_ret)
    then have "impl (io_bind (test_file (sint (de_file_number (es ! n)))) (\<lambda>used. if \<not> used then io_stuck
        else if de_uuid (es ! n) = uuid \<and> take (length oid) (de_oid (es ! n)) = oid then io_ret (n, es ! n)
        else find_loop fops uuid oid (Suc n))) d es
      (case if names uuid oid (es ! n) then Some n else next_index (names uuid oid) es (Suc n) of
        None \<Rightarrow> Fail TEE_ERROR_ITEM_NOT_FOUND | Some i \<Rightarrow> Ok (i, es ! i)) d es"
      using False by (intro impl_bind [OF impl_test_used [OF ok e(1)]]) simp_all
    note rest = this
    show ?thesis
      unfolding step
      by (subst find_loop.simps, subst if_not_P [OF n(4)], rule impl_bind [OF rd], rule impl_bind [OF impl_is_free [OF e(2)]])
        (use rest False in simp)
  qed
qed

lemma impl_find_empty:
  assumes ok: "dir_ok d es" and "n \<le> length es"
  shows "impl (find_empty_loop fops n) d es
    (Ok (case next_index (\<lambda>e. \<not> used_dent e) es n of None \<Rightarrow> length es | Some i \<Rightarrow> i)) d es"
  using assms(2)
proof (induction "length es - n" arbitrary: n)
  case (0 n)
  then have n: "n = length es" "\<not> 2 ^ 31 \<le> n" using ok by (auto simp: dir_ok_def dent_size_def)
  have none: "next_index (\<lambda>e. \<not> used_dent e) es n = None" using n by (auto simp: next_index_None)
  have rd: "impl (read_dent fops (int n)) d es (Fail TEE_ERROR_ITEM_NOT_FOUND) d es"
    using impl_read_ok [OF ok 0(2)] n(1) by simp
  show ?case
    using n(2) unfolding none
    by (subst find_empty_loop.simps) (simp, rule impl_try [OF rd], auto simp: passes_on_def n(1) intro: impl_ret)
next
  case (Suc k n)
  then have n: "n < length es" "Suc n \<le> length es" "k = length es - Suc n" "\<not> 2 ^ 31 \<le> n"
    using ok by (auto simp: dir_ok_def dent_size_def)
  note IH = Suc.hyps(1) [OF n(3,2)]
  have e: "dent_ok (es ! n)" using ok n(1) by (auto simp: dir_ok_def)
  have rd: "impl (read_dent fops (int n)) d es (Ok (es ! n)) d es" using impl_read_ok [OF ok Suc.prems] n(1) by simp
  have step: "next_index (\<lambda>e. \<not> used_dent e) es n
      = (if \<not> used_dent (es ! n) then Some n else next_index (\<lambda>e. \<not> used_dent e) es (Suc n))"
    using n(1) by (subst next_index.simps) simp
  have "impl (if \<not> used_dent (es ! n) then io_ret n else find_empty_loop fops (Suc n)) d es
      (Ok (case if \<not> used_dent (es ! n) then Some n else next_index (\<lambda>e. \<not> used_dent e) es (Suc n) of
        None \<Rightarrow> length es | Some i \<Rightarrow> i)) d es"
    using IH by (auto intro: impl_ret)
  then have "impl (io_bind (is_free (es ! n)) (\<lambda>free. if free then io_ret n else find_empty_loop fops (Suc n))) d es
      (Ok (case if \<not> used_dent (es ! n) then Some n else next_index (\<lambda>e. \<not> used_dent e) es (Suc n) of
        None \<Rightarrow> length es | Some i \<Rightarrow> i)) d es"
    by (rule impl_bind [OF impl_is_free [OF e]])
  note body = this
  have "find_empty_loop fops n = io_try (read_dent fops (int n))
      (\<lambda>dent. io_bind (is_free dent) (\<lambda>free. if free then io_ret n else find_empty_loop fops (Suc n)))
      (\<lambda>e. if e = TEE_ERROR_ITEM_NOT_FOUND then io_ret n else io_fail e)"
    using n(4) by (subst find_empty_loop.simps) simp
  then show ?case
    unfolding step using body by (simp only:) (rule impl_try [OF rd], auto simp: passes_on_def)
qed

lemma impl_grow:
  assumes "Suc i < 2 ^ 31"
  shows "impl (maybe_grow_files fops (int i)) d es (Ok ())
    (d\<lparr>dh_files := dh_files d @ replicate (Suc i - length (dh_files d)) False\<rparr>) es"
  unfolding maybe_grow_files_def
proof (rule impl_bind [OF impl_nbits])
  show "impl (if int i < int (length (dh_files d)) then io_ret () else if int i + 1 \<ge> 2 ^ 31 then io_stuck
      else io_try (on_file (fop_alloc fops))
        (\<lambda>_. on_dirh (\<lambda>e. ((), e\<lparr>dh_files := dh_files e @ replicate (nat (int i + 1 - int (length (dh_files d)))) False\<rparr>)))
        (\<lambda>_. io_fail TEE_ERROR_OUT_OF_MEMORY)) d es (Ok ())
      (d\<lparr>dh_files := dh_files d @ replicate (Suc i - length (dh_files d)) False\<rparr>) es"
  proof (cases "i < length (dh_files d)")
    case True
    then show ?thesis using impl_ret [of file_is sick fine "()" d es] by (cases d) simp
  next
    case False
    have eq: "nat (int i + 1 - int (length (dh_files d))) = Suc i - length (dh_files d)" using False by linarith
    have "impl (io_try (on_file (fop_alloc fops))
        (\<lambda>_. on_dirh (\<lambda>e. ((), e\<lparr>dh_files := dh_files e @ replicate (Suc i - length (dh_files d)) False\<rparr>)))
        (\<lambda>_. io_fail TEE_ERROR_OUT_OF_MEMORY)) d es (Ok ())
      (d\<lparr>dh_files := dh_files d @ replicate (Suc i - length (dh_files d)) False\<rparr>) es"
      by (rule impl_try [OF impl_alloc]) (auto simp: passes_on_def intro: impl_dirh)
    moreover have "int (Suc i) < int (2 ^ 31)" using assms by (simp only: of_nat_less_iff)
    then have "\<not> int i < int (length (dh_files d))" "\<not> int i + 1 \<ge> 2 ^ 31" using False by simp_all
    ultimately show ?thesis by (simp only: if_False eq)
  qed
qed

lemma impl_set_file:
  assumes "Suc i < 2 ^ 31"
  shows "impl (set_file fops (int i)) d es (Ok ()) (with_bit i d) es"
  unfolding set_file_def
  by (rule impl_bind [OF impl_grow [OF assms]]) (auto simp: put_bit_def with_bit_def intro: impl_dirh)

lemma impl_clear_file: "impl (clear_file (int i)) d es (Ok ()) (without_bit i d) es"
  unfolding clear_file_def
  by (rule impl_bind [OF impl_nbits], cases "i < length (dh_files d)")
    (auto simp: put_bit_def without_bit_def intro: impl_dirh, metis dirfile_dirh.surjective dirfile_dirh.update_convs(1)
      impl_ret list_update_beyond not_le unit.exhaust)

end

section \<open>The operations on entries\<close>

definition fileh_at :: "dirfile_entry list \<Rightarrow> nat \<Rightarrow> dirfile_fileh" where
  "fileh_at es i = \<lparr>fh_file_number = de_file_number (es ! i), fh_hash = de_hash (es ! i), fh_idx = int i\<rparr>"

definition find_result :: "dirfile_entry list \<Rightarrow> bytes \<Rightarrow> bytes \<Rightarrow> dirfile_fileh io" where
  "find_result es uuid oid = (case next_index (names uuid oid) es 0 of
     None \<Rightarrow> Fail TEE_ERROR_ITEM_NOT_FOUND | Some i \<Rightarrow> Ok (fileh_at es i))"

definition noted :: "nat \<Rightarrow> dirfile_dirh \<Rightarrow> dirfile_dirh" where
  "noted i d = d\<lparr>dh_ndents := max (dh_ndents d) (Suc i)\<rparr>"

lemma has_bit_noted [simp]: "has_bit (noted i d) j = has_bit d j" "dh_files (noted i d) = dh_files d"
  by (simp_all add: noted_def has_bit_def)

text \<open>A number for a new file, taken from the bits.\<close>

definition fresh_number :: "dirfile_dirh \<Rightarrow> nat" where
  "fresh_number d = (case bit_ffc (dh_files d) of None \<Rightarrow> length (dh_files d) | Some i \<Rightarrow> i)"

text \<open>What opening makes of the entries: of two with the same number the second is dropped.\<close>

function opened_dir :: "nat \<Rightarrow> dirfile_dirh \<Rightarrow> dirfile_entry list \<Rightarrow> dirfile_dirh \<times> dirfile_entry list" where
  "opened_dir n d es =
     (if length es \<le> n then (d, es)
      else if \<not> used_dent (es ! n) then opened_dir (Suc n) d es
      else if has_bit d (file_no (es ! n)) then opened_dir (Suc n) (noted n d) (es[n := zero_dent])
      else opened_dir (Suc n) (with_bit (file_no (es ! n)) d) es)"
  by pat_completeness auto
termination by (relation "measure (\<lambda>(n, d, es). length es - n)") auto

declare opened_dir.simps [simp del]

definition numbers_fit :: "dirfile_entry list \<Rightarrow> bool" where
  "numbers_fit es \<longleftrightarrow> (\<forall>e \<in> set es. used_dent e \<longrightarrow> Suc (file_no e) < 2 ^ 31)"

definition dents_ok :: "dirfile_entry list \<Rightarrow> bool" where
  "dents_ok es \<longleftrightarrow> (\<forall>e \<in> set es. dent_ok e) \<and> dent_size * length es < 2 ^ 31"

lemma put_dent_nth: "i < length es \<Longrightarrow> put_dent i e es = es[i := e]"
  by (simp add: put_dent_def)

context byte_store begin

lemma impl_find:
  assumes "dir_ok d es"
  shows "impl (tee_fs_dirfile_find fops uuid oid) d es (find_result es uuid oid) d es"
proof (cases "next_index (names uuid oid) es 0")
  case None
  then show ?thesis
    using impl_find_loop [OF assms, of 0 uuid oid]
    by (auto simp: tee_fs_dirfile_find_def find_result_def intro: impl_bind_fail)
next
  case (Some i)
  then show ?thesis
    using impl_find_loop [OF assms, of 0 uuid oid]
    by (auto simp: tee_fs_dirfile_find_def find_result_def fileh_at_def intro!: impl_bind)
qed

lemma impl_rename_at:
  assumes ok: "dir_ok d es" and "length uuid = 16" "length oid \<le> 64" and "fh_idx dfh = int i"
    and i: "i \<le> length es" "dent_size * Suc i < 2 ^ 31"
  shows "impl (tee_fs_dirfile_rename fops uuid dfh oid) d es (Ok dfh) (noted i d)
    (put_dent i (name_dent uuid dfh oid) es)"
proof -
  have "\<forall>e \<in> set es. dent_ok e" using ok by (simp add: dir_ok_def)
  from impl_write [OF this name_dent_ok(1) [OF assms(2,3)] i]
  have w: "impl (write_dent fops (fh_idx dfh) (name_dent uuid dfh oid)) d es (Ok ()) (noted i d)
      (put_dent i (name_dent uuid dfh oid) es)"
    by (simp add: assms(4) noted_def)
  have "tee_fs_dirfile_rename fops uuid dfh oid
      = io_bind (io_ret (fh_idx dfh)) (\<lambda>idx. io_bind (write_dent fops idx (name_dent uuid dfh oid)) (\<lambda>_. io_ret (dfh\<lparr>fh_idx := idx\<rparr>)))"
    using assms(3,4) by (simp add: tee_fs_dirfile_rename_def name_dent_def)
  then show ?thesis
    by (simp only:) (intro impl_bind [OF impl_ret] impl_bind [OF w], cases dfh, simp add: impl_ret)
qed

lemma impl_rename_new:
  assumes ok: "dir_ok d es" and "length uuid = 16" "length oid \<le> 64" and "fh_idx dfh < 0"
    and room: "dent_size * Suc (length es) < 2 ^ 31"
  shows "impl (tee_fs_dirfile_rename fops uuid dfh oid) d es (Ok (dfh\<lparr>fh_idx := int (place_for uuid oid es)\<rparr>))
    (noted (place_for uuid oid es) d) (put_dent (place_for uuid oid es) (name_dent uuid dfh oid) es)"
proof -
  let ?p = "place_for uuid oid es"
  have p: "?p \<le> length es" by (rule place_for_le)
  then have "dent_size * Suc ?p < 2 ^ 31" using room by (simp add: dent_size_def)
  moreover have "\<forall>e \<in> set es. dent_ok e" using ok by (simp add: dir_ok_def)
  ultimately have w: "impl (write_dent fops (int ?p) (name_dent uuid dfh oid)) d es (Ok ()) (noted ?p d)
      (put_dent ?p (name_dent uuid dfh oid) es)"
    using impl_write [OF _ name_dent_ok(1) [OF assms(2,3)] p] by (simp add: noted_def)
  have "impl (find_empty_idx fops) d es
      (Ok (int (case next_index (\<lambda>e. \<not> used_dent e) es 0 of None \<Rightarrow> length es | Some i \<Rightarrow> i))) d es"
    unfolding find_empty_idx_def by (rule impl_bind [OF impl_find_empty [OF ok]]) (auto intro: impl_ret)
  then have place: "impl (io_try (tee_fs_dirfile_find fops uuid oid) (\<lambda>dfh2. io_ret (fh_idx dfh2))
        (\<lambda>e. if e = TEE_ERROR_ITEM_NOT_FOUND then find_empty_idx fops else io_fail e)) d es (Ok (int ?p)) d es"
    by (intro impl_try [OF impl_find [OF ok]])
      (auto simp: passes_on_def find_result_def place_for_def fileh_at_def intro: impl_ret split: option.splits)
  have "tee_fs_dirfile_rename fops uuid dfh oid
      = io_bind (io_try (tee_fs_dirfile_find fops uuid oid) (\<lambda>dfh2. io_ret (fh_idx dfh2))
          (\<lambda>e. if e = TEE_ERROR_ITEM_NOT_FOUND then find_empty_idx fops else io_fail e))
        (\<lambda>idx. io_bind (write_dent fops idx (name_dent uuid dfh oid)) (\<lambda>_. io_ret (dfh\<lparr>fh_idx := idx\<rparr>)))"
    using assms(3,4) by (simp add: tee_fs_dirfile_rename_def name_dent_def)
  then show ?thesis
    by (simp only:) (intro impl_bind [OF place] impl_bind [OF w] impl_ret)
qed

lemma impl_remove:
  assumes ok: "dir_ok d es" and i: "i < length es" and used: "used_dent (es ! i)"
    and dfh: "fh_idx dfh = int i" "fh_file_number dfh = de_file_number (es ! i)"
  shows "impl (tee_fs_dirfile_remove fops dfh) d es (Ok ()) (without_bit (file_no (es ! i)) (noted i d)) (es[i := zero_dent])"
proof -
  have e: "es ! i \<in> set es" "dent_ok (es ! i)" "\<forall>e \<in> set es. dent_ok e" using ok i by (auto simp: dir_ok_def)
  have rd: "impl (read_dent fops (int i)) d es (Ok (es ! i)) d es" using impl_read_ok [OF ok, of i] i by simp
  have "dent_size * Suc i < 2 ^ 31" using ok i by (auto simp: dir_ok_def dent_size_def)
  from impl_write [OF e(3) zero_dent_ok(1) less_imp_le [OF i] this]
  have w: "impl (write_dent fops (int i) zero_dent) d es (Ok ()) (noted i d) (es[i := zero_dent])"
    by (simp add: put_dent_nth [OF i] noted_def)
  have "file_no (es ! i) < 2 ^ 31" using ok e(1) used by (auto simp: dir_ok_def has_bit_def)
  then have s: "sint (de_file_number (es ! i)) = int (file_no (es ! i))" by (simp add: file_no_def sint_file_number)
  have "impl (io_bind (write_dent fops (int i) zero_dent) (\<lambda>_. clear_file (sint (de_file_number (es ! i))))) d es (Ok ())
      (without_bit (file_no (es ! i)) (noted i d)) (es[i := zero_dent])"
    unfolding s by (rule impl_bind [OF w impl_clear_file])
  then show ?thesis
    unfolding tee_fs_dirfile_remove_def dfh
    by (intro impl_bind [OF rd] impl_bind [OF impl_is_free [OF e(2)]])
      (simp add: used Let_def impl_bind [OF impl_test_used [OF ok e(1) used]])
qed

lemma impl_update_hash:
  assumes ok: "dir_ok d es" and i: "i < length es" and used: "used_dent (es ! i)"
    and dfh: "fh_idx dfh = int i" "fh_file_number dfh = de_file_number (es ! i)"
  shows "impl (tee_fs_dirfile_update_hash fops dfh) d es (Ok ()) (noted i d) (es[i := (es ! i)\<lparr>de_hash := fh_hash dfh\<rparr>])"
proof -
  have e: "es ! i \<in> set es" "dent_ok (es ! i)" "\<forall>e \<in> set es. dent_ok e" using ok i by (auto simp: dir_ok_def)
  have rd: "impl (read_dent fops (int i)) d es (Ok (es ! i)) d es" using impl_read_ok [OF ok, of i] i by simp
  have "dent_size * Suc i < 2 ^ 31" using ok i by (auto simp: dir_ok_def dent_size_def)
  moreover have "dent_ok ((es ! i)\<lparr>de_hash := fh_hash dfh\<rparr>)" using e(2) by (simp add: dent_ok_def)
  ultimately have w: "impl (write_dent fops (int i) ((es ! i)\<lparr>de_hash := fh_hash dfh\<rparr>)) d es (Ok ()) (noted i d)
      (es[i := (es ! i)\<lparr>de_hash := fh_hash dfh\<rparr>])"
    using impl_write [OF e(3) _ less_imp_le [OF i]] by (simp add: put_dent_nth [OF i] noted_def)
  show ?thesis
    unfolding tee_fs_dirfile_update_hash_def dfh
    by (intro impl_bind [OF rd]) (simp add: impl_bind [OF impl_test_used [OF ok e(1) used]] w)
qed

lemma impl_get_tmp:
  assumes "length (dh_files d) < 2 ^ 31 - 1"
  shows "impl (tee_fs_dirfile_get_tmp fops) d es (Ok (word_of_nat (fresh_number d))) (with_bit (fresh_number d) d) es"
proof -
  have "fresh_number d \<le> length (dh_files d)"
    by (auto simp: fresh_number_def bit_ffc_def bit_first_Some split: option.splits)
  then have small: "Suc (fresh_number d) < 2 ^ 31" using assms by linarith
  have n: "impl (on_dirh (\<lambda>d. (case bit_ffc (dh_files d) of None \<Rightarrow> int (length (dh_files d)) | Some i \<Rightarrow> int i, d))) d es
      (Ok (int (fresh_number d))) d es"
    by (rule impl_dirh) (simp add: fresh_number_def split: option.splits)
  show ?thesis
    unfolding tee_fs_dirfile_get_tmp_def
    by (rule impl_bind [OF n], rule impl_bind [OF impl_set_file [OF small]]) (simp add: impl_ret)
qed

end

context byte_store begin

lemma impl_open_loop:
  assumes "dents_ok es" and "numbers_fit es" and "n \<le> length es" and "opened_dir n d es = (d', es')"
  shows "impl (open_loop fops n) d es (Ok (length es)) d' es'"
  using assms
proof (induction "length es - n" arbitrary: n d es)
  case (0 n es d)
  then have n: "n = length es" "\<not> 2 ^ 31 \<le> n" "d' = d" "es' = es"
    by (auto simp: dents_ok_def dent_size_def opened_dir.simps)
  have rd: "impl (read_dent fops (int n)) d es (Fail TEE_ERROR_ITEM_NOT_FOUND) d es"
    using impl_read [of es n d] 0 n(1,2) by (simp add: dents_ok_def)
  show ?case
    unfolding n(3,4)
    by (subst open_loop.simps, subst if_not_P [OF n(2)], rule impl_try [OF rd])
      (auto simp: passes_on_def n(1) intro: impl_ret)
next
  case (Suc k n es d)
  let ?e = "es ! n"
  have n: "n < length es" "Suc n \<le> length es" "k = length es - Suc n" "\<not> 2 ^ 31 \<le> n"
    using Suc.hyps(2) Suc.prems(1) by (auto simp: dents_ok_def dent_size_def)
  have e: "?e \<in> set es" "dent_ok ?e" "\<forall>e \<in> set es. dent_ok e" using Suc.prems(1) n(1) by (auto simp: dents_ok_def)
  have rd: "impl (read_dent fops (int n)) d es (Ok ?e) d es"
    using impl_read [of es n d] e(3) n(1,4) by simp
  have step: "opened_dir n d es = (if \<not> used_dent ?e then opened_dir (Suc n) d es
      else if has_bit d (file_no ?e) then opened_dir (Suc n) (noted n d) (es[n := zero_dent])
      else opened_dir (Suc n) (with_bit (file_no ?e) d) es)"
    using n(1) by (subst opened_dir.simps) simp
  have "impl (if \<not> used_dent ?e then open_loop fops (Suc n)
     else io_bind (test_file (sint (de_file_number ?e))) (\<lambda>used.
       if used then io_bind (write_dent fops (int n) zero_dent) (\<lambda>_. open_loop fops (Suc n))
       else io_bind (set_file fops (sint (de_file_number ?e))) (\<lambda>_. open_loop fops (Suc n)))) d es (Ok (length es)) d' es'"
  proof (cases "used_dent ?e")
    case False
    then show ?thesis
      using Suc.hyps(1) [OF n(3) Suc.prems(1,2) n(2)] Suc.prems(4) step by simp
  next
    case True
    then have fit: "Suc (file_no ?e) < 2 ^ 31" using Suc.prems(2) e(1) by (simp add: numbers_fit_def)
    then have s: "sint (de_file_number ?e) = int (file_no ?e)" by (simp add: file_no_def sint_file_number)
    show ?thesis
    proof (cases "has_bit d (file_no ?e)")
      case bit: True
      have "dent_size * Suc n < 2 ^ 31" using Suc.prems(1) n(1) by (auto simp: dents_ok_def dent_size_def)
      from impl_write [OF e(3) zero_dent_ok(1) less_imp_le [OF n(1)] this]
      have w: "impl (write_dent fops (int n) zero_dent) d es (Ok ()) (noted n d) (es[n := zero_dent])"
        by (simp add: put_dent_nth [OF n(1)] noted_def)
      have "set (es[n := zero_dent]) \<subseteq> insert zero_dent (set es)" by (rule set_update_subset)
      then have "dents_ok (es[n := zero_dent])" "numbers_fit (es[n := zero_dent])"
        using Suc.prems(1,2) by (auto simp: dents_ok_def numbers_fit_def)
      from Suc.hyps(1) [OF _ this, of "Suc n" "noted n d"]
      have "impl (open_loop fops (Suc n)) (noted n d) (es[n := zero_dent]) (Ok (length es)) d' es'"
        using n Suc.prems(4) step True bit by simp
      then have "impl (io_bind (write_dent fops (int n) zero_dent) (\<lambda>_. open_loop fops (Suc n))) d es (Ok (length es)) d' es'"
        by (rule impl_bind [OF w])
      then show ?thesis using True bit unfolding s by simp (rule impl_bind [OF impl_test], simp)
    next
      case bit: False
      from Suc.hyps(1) [OF n(3) Suc.prems(1,2) n(2), of "with_bit (file_no ?e) d"]
      have "impl (open_loop fops (Suc n)) (with_bit (file_no ?e) d) es (Ok (length es)) d' es'"
        using Suc.prems(4) step True bit by simp
      then have "impl (io_bind (set_file fops (int (file_no ?e))) (\<lambda>_. open_loop fops (Suc n))) d es (Ok (length es)) d' es'"
        by (rule impl_bind [OF impl_set_file [OF fit]])
      then show ?thesis using True bit unfolding s by simp (rule impl_bind [OF impl_test], simp)
    qed
  qed
  note rest = this
  show ?case
    by (subst open_loop.simps, subst if_not_P [OF n(4)], rule impl_try [OF rd])
      (use rest in \<open>auto simp: passes_on_def intro: impl_bind [OF impl_is_free [OF e(2)]]\<close>)
qed

lemma impl_next_loop:
  assumes ok: "dir_ok d es" and "n \<le> length es"
  shows "impl (next_loop fops uuid (int n)) d es
    (case next_index (\<lambda>e. de_uuid e = uuid \<and> used_dent e) es n of
       None \<Rightarrow> Fail TEE_ERROR_ITEM_NOT_FOUND | Some i \<Rightarrow> Ok (int i, es ! i)) d es"
  using assms(2)
proof (induction "length es - n" arbitrary: n)
  case (0 n)
  then have n: "n = length es" "\<not> 2 ^ 31 \<le> int n" using ok by (auto simp: dir_ok_def dent_size_def)
  have none: "next_index (\<lambda>e. de_uuid e = uuid \<and> used_dent e) es n = None" using n by (auto simp: next_index_None)
  have rd: "impl (read_dent fops (int n)) d es (Fail TEE_ERROR_ITEM_NOT_FOUND) d es"
    using impl_read_ok [OF ok 0(2)] n(1) by simp
  show ?case
    unfolding none by (subst next_loop.simps, subst if_not_P [OF n(2)]) (simp add: impl_bind_fail [OF rd])
next
  case (Suc k n)
  let ?P = "\<lambda>e. de_uuid e = uuid \<and> used_dent e"
  have n: "n < length es" "Suc n \<le> length es" "k = length es - Suc n" "\<not> 2 ^ 31 \<le> int n"
    using Suc.hyps(2) ok by (auto simp: dir_ok_def dent_size_def)
  note IH = Suc.hyps(1) [OF n(3,2)]
  have e: "dent_ok (es ! n)" using ok n(1) by (auto simp: dir_ok_def)
  have rd: "impl (read_dent fops (int n)) d es (Ok (es ! n)) d es" using impl_read_ok [OF ok Suc.prems] n(1) by simp
  have step: "next_index ?P es n = (if ?P (es ! n) then Some n else next_index ?P es (Suc n))"
    using n(1) by (subst next_index.simps) simp
  have "impl (if de_uuid (es ! n) = uuid then io_bind (is_free (es ! n))
        (\<lambda>free. if free then next_loop fops uuid (int n + 1) else io_ret (int n, es ! n))
      else next_loop fops uuid (int n + 1)) d es
    (case next_index ?P es n of None \<Rightarrow> Fail TEE_ERROR_ITEM_NOT_FOUND | Some i \<Rightarrow> Ok (int i, es ! i)) d es"
    using IH unfolding step
    by (auto simp: add.commute intro: impl_ret impl_bind [OF impl_is_free [OF e]])
  note rest = this
  show ?case
    by (subst next_loop.simps, subst if_not_P [OF n(4)], rule impl_bind [OF rd], rule rest)
qed

end

end
