(* ===== verification/FsHonest.thy ===== *)
theory FsHonest
  imports FsRee
begin

text \<open>
  Which errors the file operations give. A read or write of an open file fails with the code of a call
  that failed, or with one of the codes for corruption and lack of memory; so, unless a call
  answers \<open>TEE_ERROR_ITEM_NOT_FOUND\<close>, which stands for the end of a directory file, it never does.
  Nor do reads touch what is stored, or writes the header and the nodes: the locales
  have both, for any property of the world that answers (\<open>careful_readers\<close>), random numbers and written blocks
  (\<open>careful_worlds\<close>), or commits as well (\<open>careful_commits\<close>) keep.
\<close>

definition honest :: "world \<Rightarrow> bool" where
  "honest w \<longleftrightarrow> TEE_ERROR_ITEM_NOT_FOUND \<notin> fst ` set (w_replies w)"

definition careful :: "('s \<Rightarrow> bool) \<Rightarrow> ('s, 'a) sm \<Rightarrow> bool" where
  "careful hon m \<longleftrightarrow> (\<forall>s. hon s \<longrightarrow> hon (snd (m s)) \<and> fst (m s) \<noteq> Fail TEE_ERROR_ITEM_NOT_FOUND)"

lemma carefulD: "careful hon m \<Longrightarrow> hon s \<Longrightarrow> m s = (r, s') \<Longrightarrow> hon s' \<and> r \<noteq> Fail TEE_ERROR_ITEM_NOT_FOUND"
  by (auto simp: careful_def)

lemma careful_ret [intro!, simp]: "careful hon (io_ret x)" "careful hon io_stuck"
  by (simp_all add: careful_def io_ret_def io_stuck_def)

lemma careful_fail [intro!]: "e \<noteq> TEE_ERROR_ITEM_NOT_FOUND \<Longrightarrow> careful hon (io_fail e)"
  by (simp add: careful_def io_fail_def)

lemma careful_bind [intro!]: "careful hon m \<Longrightarrow> (\<And>x. careful hon (k x)) \<Longrightarrow> careful hon (io_bind m k)"
  unfolding careful_def io_bind_def by (fastforce split: prod.splits io.splits)

lemma careful_pointwise:
  assumes "\<And>s. careful hon (m s)"
  shows "careful hon (\<lambda>s. m s s)"
  using assms unfolding careful_def by blast

lemma honest_next:
  assumes "honest w" and "next_reply w = ((res, reached), w')"
  shows "honest w' \<and> res \<noteq> TEE_ERROR_ITEM_NOT_FOUND"
  using assms by (cases "w_replies w") (auto simp: honest_def)

abbreviation on_hon :: "(world \<Rightarrow> bool) \<Rightarrow> ree_file \<Rightarrow> bool" where
  "on_hon hon \<equiv> \<lambda>s. hon (snd s)"

text \<open>A write behind the end of a file fills the gap first; nothing is cut off.\<close>

lemma write_primitive_grows:
  "ree_fs_write_primitive cr pos buf len =
     (if len = 0 then io_ret ()
      else io_bind get_length (\<lambda>file_size.
        if pos + len < len then io_fail TEE_ERROR_BAD_PARAMETERS
        else io_bind (if file_size < pos then out_of_place_write cr file_size None (pos - file_size) else io_ret ()) (\<lambda>_.
          out_of_place_write cr pos (Some buf) len)))"
proof
  fix s :: ree_file
  obtain h w where s: "s = (h, w)" by (metis prod.exhaust)
  show "ree_fs_write_primitive cr pos buf len s =
     (if len = 0 then io_ret ()
      else io_bind get_length (\<lambda>file_size.
        if pos + len < len then io_fail TEE_ERROR_BAD_PARAMETERS
        else io_bind (if file_size < pos then out_of_place_write cr file_size None (pos - file_size) else io_ret ()) (\<lambda>_.
          out_of_place_write cr pos (Some buf) len))) s"
  proof (cases h)
    case (Some ht)
    have "ree_fs_ftruncate_internal cr pos (h, w) = out_of_place_write cr l None (pos - l) (h, w)"
      if "l = tee_fs_htree_get_meta ht" "l < pos" for l
      using that Some by (simp add: ree_fs_ftruncate_internal_def io_bind_def get_length_def)
    then show ?thesis unfolding s ree_fs_write_primitive_def Some by (simp add: io_bind_def get_length_def)
  qed (simp add: s ree_fs_write_primitive_def io_bind_def get_length_def)
qed

lemma map_io_Fail [simp]: "map_io f r = Fail e \<longleftrightarrow> r = Fail e"
  by (cases r) auto

text \<open>Reading asks for answers only.\<close>

locale careful_readers =
  fixes hon :: "world \<Rightarrow> bool"
  assumes hon_reply: "hon w \<Longrightarrow> next_reply w = ((res, reached), w') \<Longrightarrow> hon w' \<and> res \<noteq> TEE_ERROR_ITEM_NOT_FOUND"
begin

lemma careful_call [intro!, simp]: "careful hon io_call"
  unfolding careful_def
proof (intro allI impI)
  fix w assume h: "hon w"
  obtain res reached w' where n: "next_reply w = ((res, reached), w')" by (metis prod.exhaust)
  from hon_reply [OF h n] show "hon (snd (io_call w)) \<and> fst (io_call w) \<noteq> Fail TEE_ERROR_ITEM_NOT_FOUND"
    by (simp only: io_call_def n) simp
qed

lemma careful_calls [intro!, simp]: "careful hon (io_calls k)"
  by (induction k) auto

lemma careful_authenc [intro!, simp]:
  "careful hon (authenc_init ht ni)" "careful hon (authenc_encrypt_final cr ht a plain)"
  "careful hon (authenc_decrypt_final cr ht a tag crypt)"
  by (auto simp: authenc_init_def authenc_encrypt_final_def authenc_decrypt_final_def split: prod.splits option.splits)

lemma careful_add_nodes [intro!, simp]: "careful hon (add_nodes n node_id ht)"
  by (induction n node_id ht rule: add_nodes.induct) (subst add_nodes.simps, auto simp: Let_def)

lemma careful_get_node [intro!, simp]: "careful hon (get_node create node_id ht)"
  by (auto simp: get_node_def Let_def)

lemma careful_read_block: "careful hon (read_block cr bs num ht)"
proof -
  have "careful hon (\<lambda>w. case st_block (w_stor w) num vers of
      None \<Rightarrow> (Fail TEE_ERROR_CORRUPT_OBJECT, w)
    | Some enc_block \<Rightarrow> if length enc_block \<noteq> bs then (Fail TEE_ERROR_CORRUPT_OBJECT, w)
        else io_bind (authenc_init ht1 (Some iv)) (\<lambda>a. io_bind (authenc_decrypt_final cr ht1 a tag enc_block) (\<lambda>block.
          io_ret (ht1, block))) w)" for vers ht1 iv tag
  proof -
    have run: "careful hon (io_bind (authenc_init ht1 (Some iv)) (\<lambda>a.
        io_bind (authenc_decrypt_final cr ht1 a tag enc) (\<lambda>block. io_ret (ht1, block))))" for enc
      by auto
    show ?thesis
      unfolding careful_def using run by (auto simp: careful_def split: option.splits)
  qed
  then show ?thesis unfolding read_block_def Let_def by (intro careful_bind careful_get_node careful_calls)
qed

text \<open>Operations on an open file.\<close>

lemma careful_closing:
  assumes "careful hon m" and "hon w" and "closing m f w = (r, h, w')"
  shows "hon w' \<and> r \<noteq> Fail TEE_ERROR_ITEM_NOT_FOUND"
  using assms unfolding careful_def closing_def by (fastforce split: prod.splits io.splits)

lemma careful_with_ht:
  assumes "\<And>h w r h' w'. hon w \<Longrightarrow> f h w = (r, h', w') \<Longrightarrow> hon w' \<and> r \<noteq> Fail TEE_ERROR_ITEM_NOT_FOUND"
  shows "careful (on_hon hon) (with_ht f)"
proof -
  have "hon w \<Longrightarrow> hon (snd (snd (f h w))) \<and> fst (f h w) \<noteq> Fail TEE_ERROR_ITEM_NOT_FOUND" for h w
    using assms [of w h "fst (f h w)" "fst (snd (f h w))" "snd (snd (f h w))"] by simp
  then show ?thesis by (auto simp: careful_def with_ht_def)
qed

lemma careful_file_read [intro!, simp]: "careful (on_hon hon) (fd_read_block cr num)"
  unfolding fd_read_block_def
proof (rule careful_with_ht)
  fix h w r h' w'
  assume hw: "hon w" and f: "(case tee_fs_htree_read_block cr BLOCK_SIZE h num w of (r, h1, w1) \<Rightarrow> (map_io snd r, h1, w1))
    = (r, h', w')"
  show "hon w' \<and> r \<noteq> Fail TEE_ERROR_ITEM_NOT_FOUND"
    using f hw careful_closing [OF careful_read_block hw]
    by (cases h) (auto simp: tee_fs_htree_read_block_def split: prod.splits)
qed

lemma careful_tmp [intro!, simp]: "careful (on_hon hon) get_tmp_block"
  unfolding get_tmp_block_def
proof (rule careful_with_ht)
  fix h w r h' w'
  assume hw: "hon w" and f: "(case io_call w of (Ok _, w1) \<Rightarrow> (Ok (), h, w1)
    | (Fail _, w1) \<Rightarrow> (Fail TEE_ERROR_OUT_OF_MEMORY, h, w1) | (Stuck, w1) \<Rightarrow> (Stuck, h, w1)) = (r, h', w')"
  show "hon w' \<and> r \<noteq> Fail TEE_ERROR_ITEM_NOT_FOUND"
    using f carefulD [OF careful_call hw] by (auto split: prod.splits io.splits)
qed

lemma careful_length [intro!, simp]: "careful (on_hon hon) get_length" "careful (on_hon hon) (set_length l)"
  by (auto simp: careful_def get_length_def set_length_def split: option.splits)

lemma careful_read_loop: "careful (on_hon hon) (read_loop cr s e pos remain)"
  by (induction cr s e pos remain rule: read_loop.induct) (subst read_loop.simps, auto simp: Let_def)

lemma careful_read_primitive: "careful (on_hon hon) (ree_fs_read_primitive cr pos len)"
  by (auto simp: ree_fs_read_primitive_def Let_def intro!: careful_read_loop)

text \<open>Opening a file that is there reads only.\<close>

lemma careful_rpc_read [intro!, simp]: "careful hon (rpc_read slot)"
proof -
  have "careful hon (\<lambda>w. case slot (w_stor w) of None \<Rightarrow> (Fail TEE_ERROR_CORRUPT_OBJECT, w) | Some x \<Rightarrow> (Ok x, w))"
    by (auto simp: careful_def split: option.splits)
  then show ?thesis unfolding rpc_read_def by (intro careful_bind careful_calls)
qed

lemma careful_hash [intro!, simp]: "careful hon (calc_node_hash cr ht n meta)"
  by (auto simp: calc_node_hash_def)

lemma careful_traverse: "(\<And>n ht. careful hon (cb n ht)) \<Longrightarrow> careful hon (traverse cb ns ht)"
  by (induction ns arbitrary: ht) auto

lemma careful_init_tree [simp]: "careful hon (init_tree_loop m n ht)"
  by (induction m n ht rule: init_tree_loop.induct)
     (subst init_tree_loop.simps, auto simp: rpc_read_node_def split: option.splits)

lemma careful_head [simp]: "careful hon (init_head_from_data hash)"
  by (auto simp: init_head_from_data_def rpc_read_node_def rpc_read_head_def split: option.splits)

lemma careful_load: "careful hon (load_htree cr uuid hash)"
  by (auto simp: load_htree_def verify_root_def Let_def init_tree_from_data_def verify_tree_def
      htree_traverse_post_order_def verify_node_def intro!: careful_traverse)

end

text \<open>Reads and writes.\<close>

locale careful_worlds = careful_readers +
  assumes hon_randoms: "hon w \<Longrightarrow> hon (w\<lparr>w_randoms := xs\<rparr>)"
    and hon_block: "hon w \<Longrightarrow> hon (w\<lparr>w_stor := put_block num v b (w_stor w)\<rparr>)"
begin

lemma careful_rng [intro!, simp]: "careful hon crypto_rng_read"
  unfolding crypto_rng_read_def
  by (intro careful_bind careful_call) (auto simp: careful_def hon_randoms split: list.splits)

lemma careful_write_final [intro!, simp]: "careful hon (rpc_write_final (put_block num v b))"
  unfolding careful_def
proof (intro allI impI)
  fix w assume h: "hon w"
  obtain res reached w' where n: "next_reply w = ((res, reached), w')" by (metis prod.exhaust)
  from hon_reply [OF h n]
  show "hon (snd (rpc_write_final (put_block num v b) w))
      \<and> fst (rpc_write_final (put_block num v b) w) \<noteq> Fail TEE_ERROR_ITEM_NOT_FOUND"
    by (simp only: rpc_write_final_def n) (simp add: hon_block)
qed

lemma careful_write_block: "careful hon (write_block cr num b ht)"
  by (auto simp: write_block_def Let_def)

lemma careful_file_write [intro!, simp]: "careful (on_hon hon) (fd_write_block cr num b)"
  unfolding fd_write_block_def
proof (rule careful_with_ht)
  fix h w r h' w'
  assume hw: "hon w" and f: "(case tee_fs_htree_write_block cr h num b w of (r, h1, w1) \<Rightarrow> (map_io (\<lambda>_. ()) r, h1, w1))
    = (r, h', w')"
  show "hon w' \<and> r \<noteq> Fail TEE_ERROR_ITEM_NOT_FOUND"
    using f hw careful_closing [OF careful_write_block hw]
    by (cases h) (auto simp: tee_fs_htree_write_block_def split: prod.splits)
qed

lemma careful_write_loop: "careful (on_hon hon) (write_loop cr s e pos remain data)"
  by (induction cr s e pos remain data rule: write_loop.induct) (subst write_loop.simps, auto simp: Let_def)

lemma careful_out_of_place: "careful (on_hon hon) (out_of_place_write cr pos data len)"
  by (auto simp: out_of_place_write_def intro!: careful_write_loop)

lemma careful_write_primitive: "careful (on_hon hon) (ree_fs_write_primitive cr pos buf len)"
  unfolding write_primitive_grows by (auto intro!: careful_out_of_place)

end

text \<open>Properties that commits keep, too.\<close>

locale careful_commits = careful_worlds +
  assumes hon_node: "hon w \<Longrightarrow> hon (w\<lparr>w_stor := put_node i v im (w_stor w)\<rparr>)"
    and hon_head: "hon w \<Longrightarrow> hon (w\<lparr>w_stor := put_head v h (w_stor w)\<rparr>)"
begin

lemma careful_puts [intro!, simp]:
  assumes put: "\<And>w. hon w \<Longrightarrow> hon (w\<lparr>w_stor := put (w_stor w)\<rparr>)"
  shows "careful hon (rpc_write put)"
proof -
  have "careful hon (rpc_write_final put)"
    unfolding careful_def
  proof (intro allI impI)
    fix w assume h: "hon w"
    obtain res reached w' where n: "next_reply w = ((res, reached), w')" by (metis prod.exhaust)
    from hon_reply [OF h n]
    show "hon (snd (rpc_write_final put w)) \<and> fst (rpc_write_final put w) \<noteq> Fail TEE_ERROR_ITEM_NOT_FOUND"
      by (simp only: rpc_write_final_def n) (simp add: put)
  qed
  then show ?thesis unfolding rpc_write_def by (intro careful_bind careful_call)
qed

lemma careful_sync_node: "careful hon (htree_sync_node_to_storage cr n ht)"
  by (auto simp: htree_sync_node_to_storage_def Let_def rpc_write_node_def intro!: hon_node)

lemma careful_sync_dirty: "careful hon (sync_dirty cr ht)"
  by (auto simp: sync_dirty_def htree_traverse_post_order_def update_root_def Let_def rpc_write_head_def
      intro!: careful_traverse careful_sync_node hon_head split: prod.splits)

lemma careful_create: "careful hon (create_htree cr uuid)"
  by (auto simp: create_htree_def init_root_node_def Let_def rpc_write_head_def
      intro!: careful_sync_dirty hon_head split: prod.splits)

lemma careful_sync:
  assumes "hon w" and "tee_fs_htree_sync_to_storage cr (Some ht) w = (r, h, w')"
  shows "hon w' \<and> r \<noteq> Fail TEE_ERROR_ITEM_NOT_FOUND"
proof -
  have run: "careful hon (io_bind (sync_dirty cr ht) (\<lambda>(ht1, h). io_ret (ht1, Some h)))"
    using careful_sync_dirty by (auto split: prod.splits)
  obtain r0 w1 where c: "io_call w = (r0, w1)" by (metis prod.exhaust)
  from carefulD [OF careful_call assms(1) c] show ?thesis
    using assms c careful_closing [OF run, of w1]
    by (auto simp: tee_fs_htree_sync_to_storage_def split: if_splits io.splits)
qed

end

interpretation honest: careful_commits honest
  by unfold_locales (rule honest_next | simp add: honest_def)+

text \<open>A file stays there.\<close>

definition honest_there :: "bool \<Rightarrow> world \<Rightarrow> bool" where
  "honest_there there w \<longleftrightarrow> honest w \<and> st_there (w_stor w) = there"

interpretation there: careful_commits "honest_there b" for b
proof unfold_locales
  fix w res reached w' assume h: "honest_there b w" and n: "next_reply w = ((res, reached), w')"
  have "w_stor w' = w_stor w" using n by (auto split: list.splits)
  then show "honest_there b w' \<and> res \<noteq> TEE_ERROR_ITEM_NOT_FOUND"
    using honest_next [OF _ n] h by (simp add: honest_there_def)
qed (auto simp: honest_there_def honest_def put_block_def put_node_def put_head_def)

text \<open>What is stored of the last commit, apart from its blocks.\<close>

definition honest_at :: "(nat \<Rightarrow> htree_image option) \<Rightarrow> (nat \<Rightarrow> nat \<Rightarrow> node_image option) \<Rightarrow> bool \<Rightarrow> world \<Rightarrow> bool" where
  "honest_at heads nodes there w \<longleftrightarrow> honest w \<and> st_head (w_stor w) = heads \<and> st_node (w_stor w) = nodes
     \<and> st_there (w_stor w) = there"

interpretation steady: careful_worlds "honest_at heads nodes there" for heads nodes there
proof unfold_locales
  fix w res reached w' assume h: "honest_at heads nodes there w" and n: "next_reply w = ((res, reached), w')"
  have "w_stor w' = w_stor w" using n by (auto split: list.splits)
  then show "honest_at heads nodes there w' \<and> res \<noteq> TEE_ERROR_ITEM_NOT_FOUND"
    using honest_next [OF _ n] h by (simp add: honest_at_def)
qed (auto simp: honest_at_def honest_def put_block_def)

text \<open>Reads leave storage as it is.\<close>

definition honest_stor :: "storage \<Rightarrow> world \<Rightarrow> bool" where
  "honest_stor st w \<longleftrightarrow> honest w \<and> w_stor w = st"

interpretation reading: careful_readers "honest_stor st" for st
proof unfold_locales
  fix w res reached w' assume h: "honest_stor st w" and n: "next_reply w = ((res, reached), w')"
  have "w_stor w' = w_stor w" using n by (auto split: list.splits)
  then show "honest_stor st w' \<and> res \<noteq> TEE_ERROR_ITEM_NOT_FOUND"
    using honest_next [OF _ n] h by (simp add: honest_stor_def)
qed

end
