(* ===== verification/FsDirMap.thy ===== *)
theory FsDirMap
  imports FsDir FsHonest
begin

text \<open>
  The directory file kept in a hash tree (the operations \<open>ree_dirf_ops\<close> of \<open>core/tee/tee_ree_fs.c\<close>), and
  the directory as a map from objects, named by the identifier of the application and
  their own, to file numbers and digests.
\<close>

section \<open>Open files\<close>

text \<open>\<open>struct tee_fs_fd\<close>: the tree and \<open>dfh\<close>; the state has a null pointer or an open file.\<close>

record ree_fd =
  fd_ht :: "htree option"
  fd_dfh :: dirfile_fileh

type_synonym fd_state = "ree_fd option \<times> world"

definition on_fd :: "(ree_file, 'a) sm \<Rightarrow> (fd_state, 'a) sm" where
  "on_fd m = (\<lambda>(fdp, w). case fdp of
     None \<Rightarrow> (Stuck, (fdp, w))
   | Some f \<Rightarrow> (case m (fd_ht f, w) of (r, (h, w1)) \<Rightarrow> (r, (Some (f\<lparr>fd_ht := h\<rparr>), w1))))"

definition on_world :: "'a wm \<Rightarrow> (fd_state, 'a) sm" where
  "on_world m = (\<lambda>(fdp, w). case m w of (r, w1) \<Rightarrow> (r, (fdp, w1)))"

text \<open>
  Opening a file takes its name, so memory for it, before normal world is called, which has no file that was
  not created (what such a file holds when it is created is left open); the result is ignored on closing.
\<close>

definition rpc_open_dfh :: "bool \<Rightarrow> (fd_state, unit) sm" where
  "rpc_open_dfh create = io_try (on_world io_call)
     (\<lambda>_. if create then on_world (rpc_write_final (\<lambda>st. st\<lparr>st_there := True\<rparr>))
          else io_bind (on_world io_call) (\<lambda>_ (fdp, w).
            (if st_there (w_stor w) then Ok () else Fail TEE_ERROR_ITEM_NOT_FOUND, (fdp, w))))
     (\<lambda>_. io_fail TEE_ERROR_OUT_OF_MEMORY)"

definition ignoring :: "(fd_state, unit) sm \<Rightarrow> (fd_state, unit) sm" where
  "ignoring m = io_try m io_ret (\<lambda>_. io_ret ())"

definition drop_storage :: "storage \<Rightarrow> storage" where
  "drop_storage st = \<lparr>st_head = \<lambda>_. None, st_node = \<lambda>_ _. None, st_block = \<lambda>_ _. None, st_there = False\<rparr>"

definition tee_fs_rpc_remove_dfh :: "(fd_state, unit) sm" where
  "tee_fs_rpc_remove_dfh = io_try (on_world io_call) (\<lambda>_. on_world (rpc_write_final drop_storage))
     (\<lambda>_. io_fail TEE_ERROR_OUT_OF_MEMORY)"

definition open_tree :: "fs_crypto \<Rightarrow> bool \<Rightarrow> 256 word option \<Rightarrow> bytes \<Rightarrow> (fd_state, htree \<times> 256 word option) sm" where
  "open_tree cr create hash uuid = (\<lambda>(fdp, w). case tee_fs_htree_open cr create hash uuid w of (r, _, w1) \<Rightarrow> (r, (fdp, w1)))"

definition no_dfh :: dirfile_fileh where
  "no_dfh = \<lparr>fh_file_number = 0, fh_hash = 0, fh_idx = - 1\<rparr>"

text \<open>For an object's file the digest is that of \<open>dfh\<close>, which takes the new one on creation.\<close>

definition dfh_of :: "dirfile_fileh option \<Rightarrow> 256 word option \<Rightarrow> dirfile_fileh" where
  "dfh_of dfh h = (case dfh of None \<Rightarrow> no_dfh | Some d \<Rightarrow> (case h of None \<Rightarrow> d | Some x \<Rightarrow> d\<lparr>fh_hash := x\<rparr>))"

definition ree_fs_open_primitive ::
    "fs_crypto \<Rightarrow> bool \<Rightarrow> 256 word option \<Rightarrow> bytes \<Rightarrow> dirfile_fileh option \<Rightarrow> (fd_state, unit) sm" where
  "ree_fs_open_primitive cr create hash uuid dfh =
     io_try (on_world io_call)
      (\<lambda>_. io_try (rpc_open_dfh create)
        (\<lambda>_. io_try (open_tree cr create hash uuid)
          (\<lambda>(ht, h) (fdp, w). (Ok (), (Some \<lparr>fd_ht = Some ht, fd_dfh = dfh_of dfh h\<rparr>, w)))
          (\<lambda>e. io_bind (ignoring (on_world io_call)) (\<lambda>_.
               io_bind (if create then ignoring tee_fs_rpc_remove_dfh else io_ret ()) (\<lambda>_. io_fail e))))
        (\<lambda>e. io_bind (if create then ignoring tee_fs_rpc_remove_dfh else io_ret ()) (\<lambda>_. io_fail e)))
      (\<lambda>_. io_fail TEE_ERROR_OUT_OF_MEMORY)"

definition ree_fs_close_primitive :: "(fd_state, unit) sm" where
  "ree_fs_close_primitive = (\<lambda>(fdp, w). case fdp of
     None \<Rightarrow> (Ok (), (None, w)) | Some f \<Rightarrow> ignoring (on_world io_call) (None, w))"

definition commit_writes_primitive :: "fs_crypto \<Rightarrow> 256 word option \<Rightarrow> (fd_state, 256 word option) sm" where
  "commit_writes_primitive cr hash = (\<lambda>(fdp, w). case fdp of
     None \<Rightarrow> (Stuck, (fdp, w))
   | Some f \<Rightarrow> (case ree_dirf_commit_writes cr (fh_hash (fd_dfh f)) (fd_ht f, w) of
       (Ok d, (h, w1)) \<Rightarrow> (Ok (if hash = None then None else Some d), (Some \<lparr>fd_ht = h, fd_dfh = (fd_dfh f)\<lparr>fh_hash := d\<rparr>\<rparr>, w1))
     | (Fail e, (h, w1)) \<Rightarrow> (Fail e, (Some (f\<lparr>fd_ht := h\<rparr>), w1))
     | (Stuck, (h, w1)) \<Rightarrow> (Stuck, (Some (f\<lparr>fd_ht := h\<rparr>), w1))))"

text \<open>The directory file belongs to no application: its key is made without an identifier.\<close>

definition ree_dirf_ops :: "fs_crypto \<Rightarrow> fd_state dirfile_operations" where
  "ree_dirf_ops cr = \<lparr>fop_open = (\<lambda>create hash. ree_fs_open_primitive cr create hash [] None),
     fop_close = ree_fs_close_primitive,
     fop_read = (\<lambda>pos len. on_fd (ree_fs_read_primitive cr pos len)),
     fop_write = (\<lambda>pos buf len. on_fd (ree_fs_write_primitive cr pos buf len)),
     fop_commit_writes = commit_writes_primitive cr,
     fop_alloc = on_world io_call\<rparr>"

section \<open>The directory file as a file of bytes\<close>

text \<open>An open file with the bytes \<open>f\<close>, of which storage has one of \<open>R\<close>; \<open>fd_sick\<close> is what a failure leaves.\<close>

definition fd_is :: "fs_crypto \<Rightarrow> bytes \<Rightarrow> snapshot set \<Rightarrow> fd_state \<Rightarrow> bytes \<Rightarrow> bool" where
  "fd_is cr uuid R s f \<longleftrightarrow> honest (snd s) \<and> (\<exists>fd ht cur. fst s = Some fd \<and> fd_ht fd = Some ht
     \<and> htree_life cr BLOCK_SIZE uuid (Some ht) (snd s) R cur \<and> written_as f cur)"

definition fd_sick :: "fs_crypto \<Rightarrow> bytes \<Rightarrow> snapshot set \<Rightarrow> fd_state \<Rightarrow> bool" where
  "fd_sick cr uuid R s \<longleftrightarrow> (\<exists>cur. htree_life cr BLOCK_SIZE uuid (Option.bind (fst s) fd_ht) (snd s) R cur)"

abbreviation fd_fine :: "fd_state \<Rightarrow> bool" where
  "fd_fine s \<equiv> calm (snd s)"

definition dirf_is :: "fs_crypto \<Rightarrow> fd_state \<Rightarrow> bytes \<Rightarrow> bool" where
  "dirf_is cr s f \<longleftrightarrow> (\<exists>R. fd_is cr [] R s f)"

text \<open>An operation on the open file that is proved with \<open>fruns\<close>.\<close>

lemma on_fd_law:
  assumes run: "fruns cr uuid R (\<lambda>c. written_as f c) m (\<lambda>x c. x = y \<and> written_as f' c)"
    and careful: "careful (on_hon honest) m" and is_f: "fd_is cr uuid R s f" and m: "on_fd m s = (r, s')"
  shows "trouble (fd_sick cr uuid R) fd_fine s r s' \<or> r = Ok y \<and> fd_is cr uuid R s' f' \<and> (fd_fine s \<longrightarrow> fd_fine s')"
proof -
  obtain fd ht cur where s: "fst s = Some fd" "fd_ht fd = Some ht" "honest (snd s)"
    "htree_life cr BLOCK_SIZE uuid (Some ht) (snd s) R cur" "written_as f cur"
    using is_f by (auto simp: fd_is_def)
  obtain r1 h w where run1: "m (Some ht, snd s) = (r1, (h, w))" by (metis prod.exhaust)
  then have eq: "r1 = r" "s' = (Some (fd\<lparr>fd_ht := h\<rparr>), w)" using m s(1,2) by (auto simp: on_fd_def split: prod.splits)
  have "holds cr uuid R (Some ht) (snd s) (\<lambda>c. written_as f c)" by (rule holdsI) (rule s)+
  then have o: "outcome cr uuid R (snd s) (r, (h, w)) (\<lambda>x c. x = y \<and> written_as f' c)"
    using run run1 eq(1) by (metis fruns_def)
  have h: "honest w \<and> r \<noteq> Fail TEE_ERROR_ITEM_NOT_FOUND"
    using carefulD [OF careful _ run1] s(3) eq(1) by simp
  show ?thesis
  proof (cases r)
    case (Ok x)
    then obtain ht' where "h = Some ht'" "holds cr uuid R h w (\<lambda>c. x = y \<and> written_as f' c)" "calm (snd s) \<longrightarrow> calm w"
      using o by auto
    then show ?thesis using Ok h eq(2) by (auto simp: fd_is_def elim!: holdsE)
  next
    case (Fail e)
    then show ?thesis using o h eq(2) by (auto simp: trouble_def fd_sick_def elim!: holdsE)
  qed (use o in simp)
qed

lemma fruns_at_bytes:
  assumes "\<And>c0. file_ok c0 \<Longrightarrow> file_bytes c0 = f \<Longrightarrow> fruns cr uuid R (\<lambda>c. c = c0) m Q"
  shows "fruns cr uuid R (\<lambda>c. written_as f c) m Q"
  unfolding fruns_def
proof (intro allI impI)
  fix ht w assume "holds cr uuid R (Some ht) w (\<lambda>c. written_as f c)"
  then obtain cur where c: "htree_life cr BLOCK_SIZE uuid (Some ht) w R cur" "written_as f cur" by (rule holdsE)
  then have "fruns cr uuid R (\<lambda>c. c = cur) m Q" using assms by (simp add: written_as_def)
  then show "outcome cr uuid R w (m (Some ht, w)) Q" using c(1) by (rule fruns_at)
qed

text \<open>Reading and writing the bytes of any open file.\<close>

lemma read_fd:
  assumes cr: "crypto_ok cr" and "fd_is cr uuid R s f" and len: "unat pos + unat len < 2 ^ 64"
    and "on_fd (ree_fs_read_primitive cr pos len) s = (r, s')"
  shows "trouble (fd_sick cr uuid R) fd_fine s r s'
    \<or> r = Ok (bytes_read (unat pos) (unat len) f) \<and> fd_is cr uuid R s' f \<and> (fd_fine s \<longrightarrow> fd_fine s')"
proof (rule on_fd_law [OF _ honest.careful_read_primitive assms(2,4)])
  show "fruns cr uuid R (written_as f) (ree_fs_read_primitive cr pos len)
      (\<lambda>x c. x = bytes_read (unat pos) (unat len) f \<and> written_as f c)"
  proof (rule fruns_at_bytes)
    fix c0 assume c0: "file_ok c0" "file_bytes c0 = f"
    show "fruns cr uuid R (\<lambda>c. c = c0) (ree_fs_read_primitive cr pos len)
        (\<lambda>x c. x = bytes_read (unat pos) (unat len) f \<and> written_as f c)"
      by (rule fruns_weaken [OF read_primitive_runs [OF cr c0(1) len]]) (use c0 in \<open>auto simp: written_as_def\<close>)
  qed
qed

lemma write_fd:
  assumes cr: "crypto_ok cr" and "fd_is cr uuid R s f" and buf: "length b = unat len" and len: "unat pos + unat len < 2 ^ 31"
    and "on_fd (ree_fs_write_primitive cr pos b len) s = (r, s')"
  shows "trouble (fd_sick cr uuid R) fd_fine s r s'
    \<or> r = Ok () \<and> fd_is cr uuid R s' (bytes_write (unat pos) b f) \<and> (fd_fine s \<longrightarrow> fd_fine s')"
proof (rule on_fd_law [OF _ honest.careful_write_primitive assms(2,5)])
  show "fruns cr uuid R (written_as f) (ree_fs_write_primitive cr pos b len)
      (\<lambda>x c. x = () \<and> written_as (bytes_write (unat pos) b f) c)"
  proof (rule fruns_at_bytes)
    fix c0 assume c0: "file_ok c0" "file_bytes c0 = f"
    show "fruns cr uuid R (\<lambda>c. c = c0) (ree_fs_write_primitive cr pos b len)
        (\<lambda>x c. x = () \<and> written_as (bytes_write (unat pos) b f) c)"
      by (rule fruns_weaken [OF write_primitive_runs [OF cr c0(1) len buf]]) (use c0 in auto)
  qed
qed

lemma alloc_fd:
  assumes "fd_is cr uuid R s f" and "on_world io_call s = (r, s')"
  shows "trouble (fd_sick cr uuid R) fd_fine s r s' \<or> r = Ok () \<and> fd_is cr uuid R s' f \<and> (fd_fine s \<longrightarrow> fd_fine s')"
proof -
  obtain fd ht cur where s: "fst s = Some fd" "fd_ht fd = Some ht" "honest (snd s)"
    "htree_life cr BLOCK_SIZE uuid (Some ht) (snd s) R cur" "written_as f cur"
    using assms(1) by (auto simp: fd_is_def)
  obtain w where c: "io_call (snd s) = (r, w)" "w_stor w = w_stor (snd s)" "r \<noteq> Stuck"
    using io_call_cases [of "snd s"] assms(2) by (auto simp: on_world_def split: prod.splits)
  have s': "s' = (Some fd, w)" using assms(2) c(1) s(1) by (auto simp: on_world_def split: prod.splits)
  have life: "htree_life cr BLOCK_SIZE uuid (Some ht) w R cur" by (rule answered [OF s(4) c(2)])
  have h: "honest w \<and> r \<noteq> Fail TEE_ERROR_ITEM_NOT_FOUND" by (rule carefulD [OF honest.careful_call s(3) c(1)])
  have "calm (snd s) \<longrightarrow> r = Ok () \<and> w = snd s" using c(1) by auto
  moreover have "fd_is cr uuid R s' f" unfolding fd_is_def s' fst_conv snd_conv using h life s(2,5) by blast
  moreover have "Option.bind (fst s') fd_ht = Some ht" "snd s' = w" using s' s(2) by simp_all
  then have "fd_sick cr uuid R s'" unfolding fd_sick_def using life by metis
  ultimately show ?thesis using c(3) h s' by (cases r) (auto simp: trouble_def)
qed

locale ree_directory =
  fixes cr :: fs_crypto and R :: "snapshot set"
  assumes crypto: "crypto_ok cr"

sublocale ree_directory \<subseteq> byte_store "ree_dirf_ops cr" "fd_is cr [] R" "fd_sick cr [] R" fd_fine
proof unfold_locales
  show "fop_read (ree_dirf_ops cr) pos len s = (r, s') \<Longrightarrow> trouble (fd_sick cr [] R) fd_fine s r s'
      \<or> r = Ok (bytes_read (unat pos) (unat len) f) \<and> fd_is cr [] R s' f \<and> (fd_fine s \<longrightarrow> fd_fine s')"
    if "fd_is cr [] R s f" "unat pos + unat len < 2 ^ 64" for s f pos len r s'
    using read_fd [OF crypto that] by (simp add: ree_dirf_ops_def)
  show "fop_write (ree_dirf_ops cr) pos b len s = (r, s') \<Longrightarrow> trouble (fd_sick cr [] R) fd_fine s r s'
      \<or> r = Ok () \<and> fd_is cr [] R s' (bytes_write (unat pos) b f) \<and> (fd_fine s \<longrightarrow> fd_fine s')"
    if "fd_is cr [] R s f" "length b = unat len" "unat pos + unat len < 2 ^ 31" for s f pos b len r s'
    using write_fd [OF crypto that] by (simp add: ree_dirf_ops_def)
  show "fop_alloc (ree_dirf_ops cr) s = (r, s') \<Longrightarrow> trouble (fd_sick cr [] R) fd_fine s r s'
      \<or> r = Ok () \<and> fd_is cr [] R s' f \<and> (fd_fine s \<longrightarrow> fd_fine s')"
    if "fd_is cr [] R s f" for s f r s'
    using alloc_fd [OF that] by (simp add: ree_dirf_ops_def)
qed

interpretation toy_dir: ree_directory toy_crypto R for R
  by unfold_locales (rule toy_crypto_ok)

section \<open>The directory as a map\<close>

definition dent_key :: "dirfile_entry \<Rightarrow> bytes \<times> bytes" where
  "dent_key e = (de_uuid e, take (unat (de_oidlen e)) (de_oid e))"

definition dent_value :: "dirfile_entry \<Rightarrow> 32 word \<times> 256 word" where
  "dent_value e = (de_file_number e, de_hash e)"

text \<open>No two entries in use name the same object or the same file.\<close>

definition dents_distinct :: "dirfile_entry list \<Rightarrow> bool" where
  "dents_distinct es \<longleftrightarrow> (\<forall>i j. i < length es \<and> j < length es \<and> used_dent (es ! i) \<and> used_dent (es ! j)
     \<and> (dent_key (es ! i) = dent_key (es ! j) \<or> file_no (es ! i) = file_no (es ! j)) \<longrightarrow> i = j)"

definition dir_wf :: "dirfile_dirh \<Rightarrow> dirfile_entry list \<Rightarrow> bool" where
  "dir_wf d es \<longleftrightarrow> dir_ok d es \<and> dents_distinct es"

definition dir_map :: "dirfile_entry list \<Rightarrow> bytes \<times> bytes \<Rightarrow> (32 word \<times> 256 word) option" where
  "dir_map es k = map_option (\<lambda>i. dent_value (es ! i)) (next_index (names (fst k) (snd k)) es 0)"

lemma names_key:
  assumes "dent_ok e"
  shows "names u n e \<longleftrightarrow> used_dent e \<and> dent_key e = (u, n)"
proof -
  have "unat (de_oidlen e) \<le> length (de_oid e)" using assms by (simp add: dent_ok_def)
  then show ?thesis by (auto simp: names_def dent_key_def)
qed

lemma names_at:
  assumes "\<forall>e \<in> set es. dent_ok e" and "dents_distinct es" and "i < length es" and "used_dent (es ! i)"
    and "dent_key (es ! i) = (u, n)"
  shows "next_index (names u n) es 0 = Some i"
proof -
  have ok: "j < length es \<Longrightarrow> dent_ok (es ! j)" for j using assms(1) by simp
  have "\<not> names u n (es ! j)" if "j < i" for j
    using assms(2-5) that names_key [OF ok [of j]] unfolding dents_distinct_def by (metis less_irrefl less_trans)
  then show ?thesis using assms(3-5) names_key [OF ok [of i]] by (simp add: next_index_Some)
qed

lemma dir_map_Some:
  assumes "\<forall>e \<in> set es. dent_ok e" and "dents_distinct es"
  shows "dir_map es k = Some v \<longleftrightarrow> (\<exists>i < length es. used_dent (es ! i) \<and> dent_key (es ! i) = k \<and> dent_value (es ! i) = v)"
proof
  assume "dir_map es k = Some v"
  then obtain i where "next_index (names (fst k) (snd k)) es 0 = Some i" "dent_value (es ! i) = v"
    by (auto simp: dir_map_def)
  then show "\<exists>i < length es. used_dent (es ! i) \<and> dent_key (es ! i) = k \<and> dent_value (es ! i) = v"
    using assms(1) names_key by (auto simp: next_index_Some)
next
  assume "\<exists>i < length es. used_dent (es ! i) \<and> dent_key (es ! i) = k \<and> dent_value (es ! i) = v"
  then obtain i where i: "i < length es" "used_dent (es ! i)" "dent_key (es ! i) = k" "dent_value (es ! i) = v" by blast
  then have "next_index (names (fst k) (snd k)) es 0 = Some i" by (intro names_at [OF assms]) simp_all
  then show "dir_map es k = Some v" using i(4) by (simp add: dir_map_def)
qed

text \<open>Entry \<open>i\<close> is replaced; what it was, if in use, had the name \<open>k\<close>, which no other entry has.\<close>

lemma dir_map_put:
  assumes ok: "\<forall>e \<in> set es. dent_ok e" "dent_ok e" and d: "dents_distinct es" "dents_distinct (put_dent i e es)"
    and i: "i \<le> length es" and k: "used_dent e \<Longrightarrow> dent_key e = k"
    and old: "\<And>j. j < length es \<Longrightarrow> used_dent (es ! j) \<Longrightarrow> dent_key (es ! j) = k \<or> j = i \<Longrightarrow> dent_key (es ! j) = k \<and> j = i"
  shows "dir_map (put_dent i e es) = (dir_map es)(k := if used_dent e then Some (dent_value e) else None)"
proof (rule ext)
  fix k'
  have len: "length (put_dent i e es) = max (length es) (Suc i)" using i by (auto simp: put_dent_def)
  have nth: "j < length (put_dent i e es) \<Longrightarrow> put_dent i e es ! j = (if j = i then e else es ! j)" for j
    using i by (auto simp: put_dent_def nth_append nth_list_update split: if_splits)
  have ok': "\<forall>e \<in> set (put_dent i e es). dent_ok e"
    using ok set_update_subset [of es i e] by (auto simp: put_dent_def)
  have "dir_map (put_dent i e es) k' = Some v \<longleftrightarrow>
      ((dir_map es)(k := if used_dent e then Some (dent_value e) else None)) k' = Some v" for v
  proof (cases "k' = k")
    case True
    have "(\<exists>j < length (put_dent i e es). used_dent (put_dent i e es ! j) \<and> dent_key (put_dent i e es ! j) = k
        \<and> dent_value (put_dent i e es ! j) = v) \<longleftrightarrow> used_dent e \<and> dent_value e = v"
      (is "?l \<longleftrightarrow> ?r")
    proof
      assume ?l
      then obtain j where j: "j < length (put_dent i e es)" "used_dent (put_dent i e es ! j)"
        "dent_key (put_dent i e es ! j) = k" "dent_value (put_dent i e es ! j) = v" by blast
      have "j = i"
      proof (rule ccontr)
        assume ne: "j \<noteq> i"
        then have "j < length es" using j(1) len i by simp
        then show False using old [of j] j nth [of j] ne by simp
      qed
      then show ?r using j nth [of j] by simp
    next
      assume ?r
      moreover have "i < length (put_dent i e es)" using len by simp
      ultimately show ?l using nth [of i] k by auto
    qed
    then show ?thesis using True dir_map_Some [OF ok' d(2)] by auto
  next
    case False
    have "(\<exists>j < length (put_dent i e es). used_dent (put_dent i e es ! j) \<and> dent_key (put_dent i e es ! j) = k'
        \<and> dent_value (put_dent i e es ! j) = v)
      \<longleftrightarrow> (\<exists>j < length es. used_dent (es ! j) \<and> dent_key (es ! j) = k' \<and> dent_value (es ! j) = v)"
      (is "?l \<longleftrightarrow> ?r")
    proof
      assume ?l
      then obtain j where j: "j < length (put_dent i e es)" "used_dent (put_dent i e es ! j)"
        "dent_key (put_dent i e es ! j) = k'" "dent_value (put_dent i e es ! j) = v" by blast
      have ne: "j \<noteq> i" using j nth [of j] k False by auto
      then have "j < length es" using j(1) len i by simp
      then show ?r using j nth [of j] ne by auto
    next
      assume ?r
      then obtain j where j: "j < length es" "used_dent (es ! j)" "dent_key (es ! j) = k'" "dent_value (es ! j) = v" by blast
      then have "j \<noteq> i" using old [of j] False by blast
      moreover have "j < length (put_dent i e es)" using j(1) len by simp
      ultimately show ?l using j nth [of j] by auto
    qed
    then show ?thesis using False dir_map_Some [OF ok' d(2)] dir_map_Some [OF ok(1) d(1)] by simp
  qed
  then show "dir_map (put_dent i e es) k' = ((dir_map es)(k := if used_dent e then Some (dent_value e) else None)) k'"
    by (metis option.exhaust)
qed

section \<open>Calls on the directory\<close>

text \<open>
  Opening an object finds its entry; creating one takes a new file number and gives it the name;
  writing updates the digest; removing frees the entry (\<open>ree_fs_open\<close>, \<open>ree_fs_create\<close> with \<open>set_name\<close>,
  \<open>ree_fs_write\<close>, \<open>ree_fs_remove\<close>, of which these are the parts that use the directory).
\<close>

datatype dir_call =
    Dir_find bytes bytes
  | Dir_add bytes bytes "256 word"
  | Dir_hash bytes bytes "256 word"
  | Dir_remove bytes bytes

fun dir_exec :: "'s dirfile_operations \<Rightarrow> dir_call \<Rightarrow> ('s dir_state, dirfile_fileh) sm" where
  "dir_exec fops (Dir_find uuid oid) = tee_fs_dirfile_find fops uuid oid"
| "dir_exec fops (Dir_add uuid oid hash) = io_bind (tee_fs_dirfile_get_tmp fops) (\<lambda>n.
     tee_fs_dirfile_rename fops uuid \<lparr>fh_file_number = n, fh_hash = hash, fh_idx = - 1\<rparr> oid)"
| "dir_exec fops (Dir_hash uuid oid hash) = io_bind (tee_fs_dirfile_find fops uuid oid) (\<lambda>dfh.
     io_bind (tee_fs_dirfile_update_hash fops (dfh\<lparr>fh_hash := hash\<rparr>)) (\<lambda>_. io_ret (dfh\<lparr>fh_hash := hash\<rparr>)))"
| "dir_exec fops (Dir_remove uuid oid) = io_bind (tee_fs_dirfile_find fops uuid oid) (\<lambda>dfh.
     io_bind (tee_fs_dirfile_remove fops dfh) (\<lambda>_. io_ret dfh))"

fun dir_call_ok :: "dir_call \<Rightarrow> bool" where
  "dir_call_ok (Dir_add uuid oid hash) = (length uuid = 16 \<and> length oid \<le> 64)"
| "dir_call_ok _ = True"

definition dfh_value :: "dirfile_fileh \<Rightarrow> 32 word \<times> 256 word" where
  "dfh_value dfh = (fh_file_number dfh, fh_hash dfh)"

text \<open>What a call does to a map \<open>m\<close>: its result and the map afterwards.\<close>

fun dir_spec :: "(bytes \<times> bytes \<Rightarrow> (32 word \<times> 256 word) option) \<Rightarrow> dir_call \<Rightarrow> dirfile_fileh io
    \<Rightarrow> (bytes \<times> bytes \<Rightarrow> (32 word \<times> 256 word) option) \<Rightarrow> bool" where
  "dir_spec m (Dir_find uuid oid) r m' = (m' = m \<and> (case m (uuid, oid) of
     None \<Rightarrow> r = Fail TEE_ERROR_ITEM_NOT_FOUND | Some v \<Rightarrow> \<exists>dfh. r = Ok dfh \<and> dfh_value dfh = v))"
| "dir_spec m (Dir_add uuid oid hash) r m' = (\<exists>dfh. r = Ok dfh \<and> fh_hash dfh = hash
     \<and> fh_file_number dfh \<notin> fst ` ran m \<and> m' = m((uuid, oid) \<mapsto> dfh_value dfh))"
| "dir_spec m (Dir_hash uuid oid hash) r m' = (case m (uuid, oid) of
     None \<Rightarrow> m' = m \<and> r = Fail TEE_ERROR_ITEM_NOT_FOUND
   | Some v \<Rightarrow> \<exists>dfh. r = Ok dfh \<and> dfh_value dfh = (fst v, hash) \<and> m' = m((uuid, oid) \<mapsto> (fst v, hash)))"
| "dir_spec m (Dir_remove uuid oid) r m' = (case m (uuid, oid) of
     None \<Rightarrow> m' = m \<and> r = Fail TEE_ERROR_ITEM_NOT_FOUND
   | Some v \<Rightarrow> \<exists>dfh. r = Ok dfh \<and> dfh_value dfh = v \<and> m' = m((uuid, oid) := None))"

lemma dir_ok_dents: "dir_ok d es \<Longrightarrow> \<forall>e \<in> set es. dent_ok e"
  by (simp add: dir_ok_def)

lemma fresh_number_free: "\<not> has_bit d (fresh_number d)" "fresh_number d \<le> length (dh_files d)"
  by (auto simp: fresh_number_def bit_ffc_def bit_first_Some has_bit_def split: option.splits)

lemma find_result_map:
  assumes "dir_wf d es"
  shows "case dir_map es (uuid, oid) of
      None \<Rightarrow> find_result es uuid oid = Fail TEE_ERROR_ITEM_NOT_FOUND
    | Some v \<Rightarrow> \<exists>i < length es. find_result es uuid oid = Ok (fileh_at es i) \<and> used_dent (es ! i)
        \<and> dent_key (es ! i) = (uuid, oid) \<and> dent_value (es ! i) = v"
proof (cases "next_index (names uuid oid) es 0")
  case (Some i)
  then have "i < length es" "names uuid oid (es ! i)" by (simp_all add: next_index_Some)
  moreover have "dent_ok (es ! i)" using assms calculation(1) by (simp add: dir_wf_def dir_ok_def)
  ultimately show ?thesis using Some names_key by (auto simp: dir_map_def find_result_def)
qed (simp add: dir_map_def find_result_def)

text \<open>Replacing an entry keeps the directory well formed.\<close>

lemma dents_distinct_put:
  assumes "dents_distinct es" and i: "i \<le> length es"
    and new: "\<And>j. used_dent e \<Longrightarrow> j < length es \<Longrightarrow> j \<noteq> i \<Longrightarrow> used_dent (es ! j) \<Longrightarrow>
      dent_key (es ! j) \<noteq> dent_key e \<and> file_no (es ! j) \<noteq> file_no e"
  shows "dents_distinct (put_dent i e es)"
  unfolding dents_distinct_def
proof (intro allI impI)
  have nth: "j < length (put_dent i e es) \<Longrightarrow> put_dent i e es ! j = (if j = i then e else es ! j)" for j
    using i by (auto simp: put_dent_def nth_append nth_list_update split: if_splits)
  have len: "j < length (put_dent i e es) \<Longrightarrow> j \<noteq> i \<Longrightarrow> j < length es" for j
    using i by (auto simp: put_dent_def split: if_splits)
  fix a b
  assume ab: "a < length (put_dent i e es) \<and> b < length (put_dent i e es) \<and> used_dent (put_dent i e es ! a)
    \<and> used_dent (put_dent i e es ! b) \<and> (dent_key (put_dent i e es ! a) = dent_key (put_dent i e es ! b)
      \<or> file_no (put_dent i e es ! a) = file_no (put_dent i e es ! b))"
  show "a = b"
  proof (cases "a = i \<or> b = i")
    case True
    then show ?thesis using ab nth [of a] nth [of b] len [of a] len [of b] new [of a] new [of b] by (auto split: if_splits)
  next
    case False
    then have "es ! a = put_dent i e es ! a" "es ! b = put_dent i e es ! b" "a < length es" "b < length es"
      using ab nth [of a] nth [of b] len [of a] len [of b] by auto
    then show ?thesis using assms(1) ab unfolding dents_distinct_def by metis
  qed
qed

lemma dir_ok_put:
  assumes "dir_ok d es" and "dent_ok e" and "i \<le> length es" and "dent_size * Suc (length es) < 2 ^ 31 \<or> i < length es"
    and "length (dh_files d') < 2 ^ 31" and "used_dent e \<longrightarrow> has_bit d' (file_no e)"
    and keep: "\<And>j. j < length es \<Longrightarrow> j \<noteq> i \<Longrightarrow> used_dent (es ! j) \<Longrightarrow> has_bit d (file_no (es ! j)) \<Longrightarrow> has_bit d' (file_no (es ! j))"
  shows "dir_ok d' (put_dent i e es)"
proof -
  have "has_bit d' (file_no x)" if x: "x \<in> set (put_dent i e es)" "used_dent x" for x
  proof -
    obtain j where j: "j < length (put_dent i e es)" "x = put_dent i e es ! j" using x(1) by (auto simp: in_set_conv_nth)
    show ?thesis
    proof (cases "j = i")
      case True
      then have "x = e" using j assms(3) by (auto simp: put_dent_def nth_append split: if_splits)
      then show ?thesis using assms(6) x(2) by simp
    next
      case False
      then have "j < length es" "x = es ! j" using j assms(3) by (auto simp: put_dent_def nth_append split: if_splits)
      then show ?thesis using keep [OF _ False] assms(1) x(2) by (auto simp: dir_ok_def)
    qed
  qed
  moreover have "\<forall>x \<in> set (put_dent i e es). dent_ok x" "dent_size * length (put_dent i e es) < 2 ^ 31"
    using assms(1,2,4) set_update_subset [of es i e] by (auto simp: put_dent_def dir_ok_def)
  ultimately show ?thesis using assms(5) by (simp add: dir_ok_def)
qed

text \<open>The result of a call, and what it leaves, as an operation on the entries.\<close>

definition simulated ::
    "(bytes \<times> bytes \<Rightarrow> (32 word \<times> 256 word) option) \<Rightarrow> dir_call \<Rightarrow> (dirfile_fileh io \<Rightarrow> dirfile_dirh \<Rightarrow> dirfile_entry list \<Rightarrow> bool) \<Rightarrow> bool" where
  "simulated m call P \<longleftrightarrow> (\<exists>r d' es'. P r d' es' \<and> dir_wf d' es' \<and> dir_spec m call r (dir_map es'))"

lemma simulatedI: "P r d' es' \<Longrightarrow> dir_wf d' es' \<Longrightarrow> dir_spec m call r (dir_map es') \<Longrightarrow> simulated m call P"
  unfolding simulated_def by blast

context byte_store begin

lemma sim_find:
  assumes wf: "dir_wf d es"
  shows "simulated (dir_map es) (Dir_find uuid oid) (implements file_is sick fine (dir_exec fops (Dir_find uuid oid)) d es)"
proof (rule simulatedI [OF _ wf])
  show "impl (dir_exec fops (Dir_find uuid oid)) d es (find_result es uuid oid) d es"
    using wf impl_find by (simp add: dir_wf_def)
  show "dir_spec (dir_map es) (Dir_find uuid oid) (find_result es uuid oid) (dir_map es)"
    using find_result_map [OF wf, of uuid oid]
    by (auto simp: dfh_value_def dent_value_def fileh_at_def split: option.splits)
qed

lemma sim_add:
  assumes wf: "dir_wf d es" and ok: "length uuid = 16" "length oid \<le> 64"
    and room: "dent_size * Suc (length es) < 2 ^ 31" "length (dh_files d) < 2 ^ 31 - 1"
  shows "simulated (dir_map es) (Dir_add uuid oid hash)
    (implements file_is sick fine (dir_exec fops (Dir_add uuid oid hash)) d es)"
proof -
  let ?n = "fresh_number d" and ?p = "place_for uuid oid es"
  let ?dfh = "\<lparr>fh_file_number = word_of_nat ?n, fh_hash = hash, fh_idx = - 1\<rparr>"
  let ?e = "name_dent uuid ?dfh oid" and ?d1 = "with_bit ?n d"
  have dir: "dir_ok d es" "dents_distinct es" using wf by (simp_all add: dir_wf_def)
  have p: "?p \<le> length es" by (rule place_for_le)
  have small: "Suc ?n < 2 ^ 31" using fresh_number_free(2) [of d] room(2) by linarith
  then have "unat (word_of_nat ?n :: 32 word) = ?n" by (intro unat_of_nat_exact) simp
  then have no: "file_no ?e = ?n" by (simp add: file_no_def name_dent_def)
  have ok_e: "dent_ok ?e" by (rule name_dent_ok(1) [OF ok])
  have "names uuid oid ?e" using name_dent_ok(2) [OF ok] by blast
  then have "used_dent ?e \<and> dent_key ?e = (uuid, oid)" using names_key [OF ok_e] by blast
  moreover have "dent_value ?e = (word_of_nat ?n, hash)" by (simp add: dent_value_def name_dent_def)
  ultimately have e: "dent_ok ?e" "used_dent ?e" "dent_key ?e = (uuid, oid)" "dent_value ?e = (word_of_nat ?n, hash)"
    using ok_e by blast+
  have bits: "length (dh_files ?d1) < 2 ^ 31" using small room(2) by (simp add: length_with_bit)
  have ok1: "dir_ok ?d1 es" using dir(1) bits by (simp add: dir_ok_def)
  have other: "j = ?p" if "j < length es" "used_dent (es ! j)" "dent_key (es ! j) = (uuid, oid)" for j
    using names_at [OF dir_ok_dents [OF dir(1)] dir(2) that] by (simp add: place_for_def)
  have same: "dent_key (es ! ?p) = (uuid, oid)" if "?p < length es" "used_dent (es ! ?p)"
  proof -
    have ok_p: "dent_ok (es ! ?p)" using dir(1) that(1) by (simp add: dir_ok_def)
    have "names uuid oid (es ! ?p)"
    proof (cases "next_index (names uuid oid) es 0")
      case (Some i)
      then have "?p = i" "names uuid oid (es ! i)" by (simp add: place_for_def, simp add: next_index_Some)
      then show ?thesis by simp
    next
      case None
      show ?thesis
      proof (cases "next_index (\<lambda>e. \<not> used_dent e) es 0")
        case (Some i)
        then have "?p = i" "\<not> used_dent (es ! i)" by (simp add: place_for_def None, simp add: next_index_Some)
        then show ?thesis using that(2) by simp
      qed (use that(1) None in \<open>simp add: place_for_def\<close>)
    qed
    then show ?thesis using names_key [OF ok_p] by simp
  qed
  have unused: "j < length es \<Longrightarrow> used_dent (es ! j) \<Longrightarrow> file_no (es ! j) \<noteq> ?n" for j
    using dir(1) fresh_number_free(1) [of d] by (metis dir_ok_def nth_mem)
  have dist: "dents_distinct (put_dent ?p ?e es)"
    by (rule dents_distinct_put [OF dir(2) p]) (use other unused e(3) no in auto)
  let ?d2 = "noted ?p ?d1"
  have "dir_ok ?d2 (put_dent ?p ?e es)"
  proof (rule dir_ok_put [OF dir(1) e(1) p])
    show "dent_size * Suc (length es) < 2 ^ 31 \<or> ?p < length es" using room(1) by blast
    show "length (dh_files ?d2) < 2 ^ 31" using bits by (simp only: has_bit_noted)
    show "used_dent ?e \<longrightarrow> has_bit ?d2 (file_no ?e)" unfolding no has_bit_noted has_bit_with by blast
    show "has_bit ?d2 (file_no (es ! j))" if "has_bit d (file_no (es ! j))" for j
      using that unfolding has_bit_noted has_bit_with by blast
  qed
  then have wf': "dir_wf ?d2 (put_dent ?p ?e es)" unfolding dir_wf_def using dist by blast
  have map: "dir_map (put_dent ?p ?e es) = (dir_map es)((uuid, oid) \<mapsto> (word_of_nat ?n, hash))"
  proof -
    have "dir_map (put_dent ?p ?e es) = (dir_map es)((uuid, oid) := if used_dent ?e then Some (dent_value ?e) else None)"
    proof (rule dir_map_put [OF dir_ok_dents [OF dir(1)] e(1) dir(2) dist p e(3)])
      fix j assume j: "j < length es" "used_dent (es ! j)" "dent_key (es ! j) = (uuid, oid) \<or> j = ?p"
      show "dent_key (es ! j) = (uuid, oid) \<and> j = ?p"
      proof (cases "j = ?p")
        case True
        then show ?thesis using same j(1,2) by blast
      next
        case False
        then show ?thesis using other [OF j(1,2)] j(3) by blast
      qed
    qed
    then show ?thesis unfolding e(4) if_P [OF e(2)] .
  qed
  have "impl (dir_exec fops (Dir_add uuid oid hash)) d es (Ok (?dfh\<lparr>fh_idx := int ?p\<rparr>)) ?d2 (put_dent ?p ?e es)"
    unfolding dir_exec.simps
    by (rule impl_bind [OF impl_get_tmp [OF room(2)] impl_rename_new [OF ok1 ok _ room(1)]]) simp
  moreover have "word_of_nat ?n \<notin> fst ` ran (dir_map es)"
  proof
    assume "word_of_nat ?n \<in> fst ` ran (dir_map es)"
    then obtain k v where "dir_map es k = Some v" "fst v = word_of_nat ?n" by (auto simp: ran_def)
    then obtain j where "j < length es" "used_dent (es ! j)" "de_file_number (es ! j) = word_of_nat ?n"
      using dir_map_Some [OF dir_ok_dents [OF dir(1)] dir(2)] by (auto simp: dent_value_def)
    moreover have "unat (word_of_nat ?n :: 32 word) = ?n" using no by (simp add: file_no_def name_dent_def)
    ultimately show False using unused [of j] by (simp add: file_no_def)
  qed
  ultimately show ?thesis
    by (intro simulatedI [OF _ wf']) (assumption, simp add: map dfh_value_def)
qed

end

text \<open>An entry that stays in use or is freed, in its place.\<close>

lemma kept_entry:
  assumes wf: "dir_wf d es" and i: "i < length es" "used_dent (es ! i)" and e: "dent_ok e"
    and same: "used_dent e \<Longrightarrow> dent_key e = dent_key (es ! i) \<and> file_no e = file_no (es ! i)"
    and bits: "length (dh_files d') = length (dh_files d)" "\<And>n. has_bit d' n \<longleftrightarrow> has_bit d n \<and> (n = file_no (es ! i) \<longrightarrow> used_dent e)"
  shows "dir_wf d' (es[i := e])"
    and "dir_map (es[i := e]) = (dir_map es)(dent_key (es ! i) := if used_dent e then Some (dent_value e) else None)"
proof -
  have dir: "dir_ok d es" "dents_distinct es" using wf by (simp_all add: dir_wf_def)
  have other: "dent_key (es ! j) \<noteq> dent_key (es ! i) \<and> file_no (es ! j) \<noteq> file_no (es ! i)"
    if "j < length es" "j \<noteq> i" "used_dent (es ! j)" for j
    using dir(2) that i unfolding dents_distinct_def by blast
  have put: "put_dent i e es = es[i := e]" using i(1) by (rule put_dent_nth)
  have dist: "dents_distinct (put_dent i e es)"
    by (rule dents_distinct_put [OF dir(2) less_imp_le [OF i(1)]]) (use other same in metis)
  have has: "has_bit d (file_no (es ! i))" using dir(1) i by (simp add: dir_ok_def)
  have "dir_ok d' (put_dent i e es)"
  proof (rule dir_ok_put [OF dir(1) e less_imp_le [OF i(1)]])
    show "length (dh_files d') < 2 ^ 31" using bits(1) dir(1) by (simp add: dir_ok_def)
    show "used_dent e \<longrightarrow> has_bit d' (file_no e)" using same bits(2) has by metis
    show "has_bit d' (file_no (es ! j))"
      if "j < length es" "j \<noteq> i" "used_dent (es ! j)" "has_bit d (file_no (es ! j))" for j
      using other [OF that(1-3)] that(4) bits(2) by blast
  qed (use i(1) in simp)
  then show "dir_wf d' (es[i := e])" using dist by (simp add: dir_wf_def put)
  show "dir_map (es[i := e]) = (dir_map es)(dent_key (es ! i) := if used_dent e then Some (dent_value e) else None)"
    using dir_map_put [OF dir_ok_dents [OF dir(1)] e dir(2) dist less_imp_le [OF i(1)], of "dent_key (es ! i)"] other same
    unfolding put by blast
qed

context byte_store begin

lemma sim_missing:
  assumes wf: "dir_wf d es" and "dir_map es (uuid, oid) = None"
  shows "impl (io_bind (tee_fs_dirfile_find fops uuid oid) k) d es (Fail TEE_ERROR_ITEM_NOT_FOUND) d es"
  using impl_find [of d es uuid oid] find_result_map [OF wf, of uuid oid] assms(2) wf
  by (auto simp: dir_wf_def intro: impl_bind_fail)

lemma sim_hash:
  assumes wf: "dir_wf d es"
  shows "simulated (dir_map es) (Dir_hash uuid oid hash)
    (implements file_is sick fine (dir_exec fops (Dir_hash uuid oid hash)) d es)"
proof (cases "dir_map es (uuid, oid)")
  case None
  show ?thesis
    by (rule simulatedI [OF _ wf]) (use sim_missing [OF wf None] None in simp_all)
next
  case (Some v)
  have dir: "dir_ok d es" using wf by (simp add: dir_wf_def)
  obtain i where i: "i < length es" "find_result es uuid oid = Ok (fileh_at es i)" "used_dent (es ! i)"
    "dent_key (es ! i) = (uuid, oid)" "dent_value (es ! i) = v"
    using find_result_map [OF wf, of uuid oid] Some by auto
  let ?dfh = "(fileh_at es i)\<lparr>fh_hash := hash\<rparr>" and ?e = "(es ! i)\<lparr>de_hash := hash\<rparr>"
  have e: "dent_ok ?e" "used_dent ?e" "dent_key ?e = dent_key (es ! i)" "file_no ?e = file_no (es ! i)"
    "dent_value ?e = (fst v, hash)"
    using dir i by (auto simp: dir_ok_def dent_ok_def used_dent_def dent_key_def file_no_def dent_value_def)
  have run: "impl (dir_exec fops (Dir_hash uuid oid hash)) d es (Ok ?dfh) (noted i d) (es[i := ?e])"
    unfolding dir_exec.simps
    using impl_find [OF dir, of uuid oid] impl_update_hash [OF dir i(1,3), of ?dfh] unfolding i(2)
    by (intro impl_bind impl_ret) (auto simp: fileh_at_def)
  have "dir_wf (noted i d) (es[i := ?e])" "dir_map (es[i := ?e]) = (dir_map es)((uuid, oid) \<mapsto> (fst v, hash))"
    using kept_entry [OF wf i(1,3) e(1), of "noted i d"] e i(4) by simp_all
  then show ?thesis
    using Some i(5) run by (auto intro!: simulatedI simp: dfh_value_def fileh_at_def dent_value_def)
qed

lemma sim_remove:
  assumes wf: "dir_wf d es"
  shows "simulated (dir_map es) (Dir_remove uuid oid)
    (implements file_is sick fine (dir_exec fops (Dir_remove uuid oid)) d es)"
proof (cases "dir_map es (uuid, oid)")
  case None
  show ?thesis
    by (rule simulatedI [OF _ wf]) (use sim_missing [OF wf None] None in simp_all)
next
  case (Some v)
  have dir: "dir_ok d es" using wf by (simp add: dir_wf_def)
  obtain i where i: "i < length es" "find_result es uuid oid = Ok (fileh_at es i)" "used_dent (es ! i)"
    "dent_key (es ! i) = (uuid, oid)" "dent_value (es ! i) = v"
    using find_result_map [OF wf, of uuid oid] Some by auto
  let ?d' = "without_bit (file_no (es ! i)) (noted i d)"
  have run: "impl (dir_exec fops (Dir_remove uuid oid)) d es (Ok (fileh_at es i)) ?d' (es[i := zero_dent])"
    unfolding dir_exec.simps
    using impl_find [OF dir, of uuid oid] impl_remove [OF dir i(1,3), of "fileh_at es i"] unfolding i(2)
    by (intro impl_bind impl_ret) (auto simp: fileh_at_def)
  have "length (dh_files ?d') = length (dh_files d)" by (simp add: without_bit_def)
  then have "dir_wf ?d' (es[i := zero_dent])" "dir_map (es[i := zero_dent]) = (dir_map es)((uuid, oid) := None)"
    using kept_entry [OF wf i(1,3) zero_dent_ok(1), of ?d'] i(4) by auto
  then show ?thesis
    using Some i(5) run by (auto intro!: simulatedI simp: dfh_value_def fileh_at_def dent_value_def)
qed

lemma sim_call:
  assumes "dir_wf d es" and "dir_call_ok call"
    and "dent_size * Suc (length es) < 2 ^ 31" and "length (dh_files d) < 2 ^ 31 - 1"
  shows "simulated (dir_map es) call (implements file_is sick fine (dir_exec fops call) d es)"
  using assms sim_find sim_add sim_hash sim_remove by (cases call) simp_all

end

context ree_directory begin

lemma ree_call:
  assumes "is_dir (fd_is cr [] R) s es" and "dir_wf d es" and "dir_call_ok call"
    and "dent_size * Suc (length es) < 2 ^ 31" and "length (dh_files d) < 2 ^ 31 - 1"
    and "dir_exec (ree_dirf_ops cr) call (d, s) = (r, (d', s'))"
  shows "(\<exists>e. r = Fail e \<and> e \<noteq> TEE_ERROR_ITEM_NOT_FOUND \<and> \<not> calm (snd s))
    \<or> (\<exists>es'. is_dir (fd_is cr [] R) s' es' \<and> dir_wf d' es' \<and> dir_spec (dir_map es) call r (dir_map es')
        \<and> (calm (snd s) \<longrightarrow> calm (snd s')))"
proof -
  obtain r0 d0 es0 where i: "impl (dir_exec (ree_dirf_ops cr) call) d es r0 d0 es0"
    and w: "dir_wf d0 es0" "dir_spec (dir_map es) call r0 (dir_map es0)"
    using sim_call [OF assms(2-5)] unfolding simulated_def by blast
  from implementsD [OF i assms(1,6)] w show ?thesis unfolding trouble_def by blast
qed

end

lemma is_dir_dirf: "is_dir (dirf_is cr) s es \<longleftrightarrow> (\<exists>R. is_dir (fd_is cr [] R) s es)"
  by (auto simp: is_dir_def dirf_is_def)


text \<open>The first object is added to an empty directory.\<close>

lemma toy_dirf:
  "\<exists>s. is_dir (dirf_is toy_crypto) s [] \<and> calm (snd s)"
proof -
  obtain ht w R cur where e: "htree_life toy_crypto BLOCK_SIZE [] (Some ht) w R cur" "calm w" "file_ok cur"
      "file_bytes cur = []"
    using toy_empty by blast
  define s :: fd_state where "s = (Some \<lparr>fd_ht = Some ht, fd_dfh = no_dfh\<rparr>, w)"
  have "written_as [] cur" using e(3,4) by (simp add: written_as_def)
  moreover have "honest w" using e(2) by (simp add: honest_def calm_def)
  ultimately have "dirf_is toy_crypto s []"
    unfolding dirf_is_def fd_is_def s_def fst_conv snd_conv using e(1) by (metis ree_fd.select_convs(1))
  then have "is_dir (dirf_is toy_crypto) s []" by (simp add: is_dir_def)
  moreover have "calm (snd s)" using e(2) by (simp add: s_def)
  ultimately show ?thesis by blast
qed

lemma empty_dir_wf: "dir_wf empty_dirh []"
  by (simp add: dir_wf_def dir_ok_def dents_distinct_def empty_dirh_def)

lemma empty_dir_map [simp]: "dir_map [] k = None"
  by (auto simp: dir_map_def next_index_None)


section \<open>Opening the directory\<close>

lemma close_returns: "\<exists>s'. ree_fs_close_primitive s = (Ok (), s')"
proof (cases s)
  case (Pair fdp w)
  obtain r w1 where "io_call w = (r, w1)" "r \<noteq> Stuck" using io_call_cases [of w] by blast
  then show ?thesis
    by (cases r) (auto simp: Pair ree_fs_close_primitive_def ignoring_def io_try_def on_world_def io_ret_def split: option.splits)
qed

lemma opened_dir_distinct:
  assumes "dents_distinct es" and "numbers_fit es" and "n \<le> length es" and "length (dh_files d) < 2 ^ 31"
    and "\<forall>j. n \<le> j \<and> j < length es \<and> used_dent (es ! j) \<longrightarrow> \<not> has_bit d (file_no (es ! j))"
  shows "\<exists>d'. opened_dir n d es = (d', es) \<and> length (dh_files d') < 2 ^ 31
    \<and> (\<forall>k. has_bit d' k \<longleftrightarrow> has_bit d k \<or> (\<exists>j. n \<le> j \<and> j < length es \<and> used_dent (es ! j) \<and> file_no (es ! j) = k))"
  using assms(3-5)
proof (induction "length es - n" arbitrary: n d)
  case (0 n d)
  then show ?case by (subst opened_dir.simps) auto
next
  case (Suc m n d)
  let ?e = "es ! n"
  have n: "n < length es" "m = length es - Suc n" "Suc n \<le> length es" using Suc.hyps(2) by auto
  have parts: "(\<exists>j. n \<le> j \<and> j < length es \<and> used_dent (es ! j) \<and> file_no (es ! j) = k)
      \<longleftrightarrow> used_dent ?e \<and> file_no ?e = k \<or> (\<exists>j. Suc n \<le> j \<and> j < length es \<and> used_dent (es ! j) \<and> file_no (es ! j) = k)" for k
    using n(1) by (metis Suc_le_eq le_less)
  show ?case
  proof (cases "used_dent ?e")
    case False
    have "opened_dir n d es = opened_dir (Suc n) d es" using n(1) False by (subst opened_dir.simps) simp
    moreover have "\<forall>j. Suc n \<le> j \<and> j < length es \<and> used_dent (es ! j) \<longrightarrow> \<not> has_bit d (file_no (es ! j))"
      using Suc.prems(3) by auto
    ultimately show ?thesis using Suc.hyps(1) [OF n(2,3) Suc.prems(2)] False unfolding parts by auto
  next
    case True
    let ?d = "with_bit (file_no ?e) d"
    have step: "opened_dir n d es = opened_dir (Suc n) ?d es"
      using n(1) True Suc.prems(3) by (subst opened_dir.simps) simp
    have "Suc (file_no ?e) < 2 ^ 31" using assms(2) n(1) True by (simp add: numbers_fit_def)
    then have len: "length (dh_files ?d) < 2 ^ 31" using Suc.prems(2) by (simp add: length_with_bit)
    have "\<forall>j. Suc n \<le> j \<and> j < length es \<and> used_dent (es ! j) \<longrightarrow> \<not> has_bit ?d (file_no (es ! j))"
    proof (intro allI impI)
      fix j assume j: "Suc n \<le> j \<and> j < length es \<and> used_dent (es ! j)"
      then have "j \<noteq> n" "\<not> has_bit d (file_no (es ! j))" using Suc.prems(3) by auto
      then show "\<not> has_bit ?d (file_no (es ! j))" using assms(1) j n(1) True unfolding dents_distinct_def has_bit_with by blast
    qed
    from Suc.hyps(1) [OF n(2,3) len this]
    obtain d' where d': "opened_dir (Suc n) ?d es = (d', es)" "length (dh_files d') < 2 ^ 31"
      "\<And>k. has_bit d' k \<longleftrightarrow> has_bit ?d k
        \<or> (\<exists>j. Suc n \<le> j \<and> j < length es \<and> used_dent (es ! j) \<and> file_no (es ! j) = k)" by blast
    have "has_bit d' k \<longleftrightarrow> has_bit d k \<or> (\<exists>j. n \<le> j \<and> j < length es \<and> used_dent (es ! j) \<and> file_no (es ! j) = k)" for k
      unfolding parts d'(3) has_bit_with using True by blast
    then show ?thesis unfolding step using d'(1,2) by blast
  qed
qed

lemma opened_dir_wf:
  assumes "dents_ok es" and "dents_distinct es" and "numbers_fit es"
  shows "\<exists>d. opened_dir 0 empty_dirh es = (d, es) \<and> dir_wf (d\<lparr>dh_ndents := n\<rparr>) es
    \<and> (\<forall>k. has_bit d k \<longleftrightarrow> (\<exists>e \<in> set es. used_dent e \<and> file_no e = k))"
proof -
  have none: "\<not> has_bit empty_dirh k" "length (dh_files empty_dirh) < 2 ^ 31" for k by (simp_all add: empty_dirh_def has_bit_def)
  obtain d where d: "opened_dir 0 empty_dirh es = (d, es)" "length (dh_files d) < 2 ^ 31"
    "\<And>k. has_bit d k \<longleftrightarrow> (\<exists>j < length es. used_dent (es ! j) \<and> file_no (es ! j) = k)"
    using opened_dir_distinct [OF assms(2,3) _ none(2), of 0] none(1) by auto
  then have bits: "has_bit d k \<longleftrightarrow> (\<exists>e \<in> set es. used_dent e \<and> file_no e = k)" for k by (auto simp: set_conv_nth)
  then have "dir_wf (d\<lparr>dh_ndents := n\<rparr>) es"
    using assms(1,2) d(2) by (auto simp: dir_wf_def dir_ok_def dents_ok_def)
  then show ?thesis using d(1) bits by blast
qed

lemma opened_dir_length:
  "opened_dir n d es = (d', es') \<Longrightarrow> length (dh_files d) \<le> m \<Longrightarrow> \<forall>e \<in> set es. used_dent e \<longrightarrow> file_no e < m \<Longrightarrow>
   length (dh_files d') \<le> m"
proof (induction n d es arbitrary: d' es' rule: opened_dir.induct)
  case (1 n d es)
  show ?case
  proof (cases "n < length es \<and> used_dent (es ! n) \<and> has_bit d (file_no (es ! n))")
    case True
    have "\<forall>e \<in> set (es[n := zero_dent]). used_dent e \<longrightarrow> file_no e < m"
      using 1(6) set_update_subset_insert [of es n zero_dent] by auto
    then show ?thesis using 1 True by (subst (asm) (4) opened_dir.simps) simp
  next
    case False
    then show ?thesis using 1 by (subst (asm) (4) opened_dir.simps) (auto simp: length_with_bit split: if_splits)
  qed
qed

text \<open>Opening with the operations of any file: the entries that are there, and the bits of their numbers.\<close>

context byte_store begin

lemma open_rebuilds:
  assumes "fop_alloc fops s0 = (Ok (), s1)" and "fop_open fops create hash s1 = (Ok (), s2)"
    and "is_dir file_is s2 es" and "dents_distinct es" and "numbers_fit es"
    and close: "\<And>s. \<exists>s'. fop_close fops s = (Ok (), s')" and "tee_fs_dirfile_open fops create hash s0 = (r, s')"
  shows "(\<exists>e. r = Fail e \<and> e \<noteq> TEE_ERROR_ITEM_NOT_FOUND \<and> \<not> fine s2)
    \<or> (\<exists>d. r = Ok d \<and> dir_wf d es \<and> (\<forall>k. has_bit d k \<longleftrightarrow> (\<exists>e \<in> set es. used_dent e \<and> file_no e = k))
        \<and> (\<forall>m. (\<forall>e \<in> set es. used_dent e \<longrightarrow> file_no e < m) \<longrightarrow> length (dh_files d) \<le> m)
        \<and> is_dir file_is s' es \<and> (fine s2 \<longrightarrow> fine s'))"
proof -
  have ok: "dents_ok es" using assms(3) by (simp add: is_dir_def dents_ok_def)
  from opened_dir_wf [OF this assms(4,5), of "length es"]
  obtain d where d: "opened_dir 0 empty_dirh es = (d, es)" "dir_wf (d\<lparr>dh_ndents := length es\<rparr>) es"
    "\<forall>k. has_bit d k \<longleftrightarrow> (\<exists>e \<in> set es. used_dent e \<and> file_no e = k)" by blast
  obtain r1 d1 s3 where l: "open_loop fops 0 (empty_dirh, s2) = (r1, (d1, s3))" by (metis prod.exhaust)
  from implementsD [OF impl_open_loop [OF ok assms(5) _ d(1)] assms(3) l]
  consider (trouble) e where "r1 = Fail e" "e \<noteq> TEE_ERROR_ITEM_NOT_FOUND" "\<not> fine s2"
    | (ready) "r1 = Ok (length es)" "d1 = d" "is_dir file_is s3 es" "fine s2 \<longrightarrow> fine s3"
    unfolding trouble_def by blast
  then show ?thesis
  proof cases
    case trouble
    obtain s4 where "fop_close fops s3 = (Ok (), s4)" using close by blast
    then show ?thesis
      using assms(1,2,7) l trouble
      by (auto simp: tee_fs_dirfile_open_def tee_fs_dirfile_close_def io_try_def io_bind_def on_file_def io_fail_def
          split: io.splits)
  next
    case ready
    then have "r = Ok (d\<lparr>dh_ndents := length es\<rparr>) \<and> s' = s3"
      using assms(1,2,7) l by (simp add: tee_fs_dirfile_open_def io_try_def io_bind_def on_file_def on_dirh_def)
    moreover have "length (dh_files (d\<lparr>dh_ndents := length es\<rparr>)) \<le> m"
      if "\<forall>e \<in> set es. used_dent e \<longrightarrow> file_no e < m" for m
      using opened_dir_length [OF d(1) _ that] by (simp add: empty_dirh_def)
    ultimately show ?thesis using d(2,3) ready(3,4) by auto
  qed
qed

end

context ree_directory begin

lemmas ree_open_rebuilds = open_rebuilds

end


text \<open>A created file is empty: what creation does keeps the length in the header data.\<close>

definition gives :: "('s, 'a) sm \<Rightarrow> ('a \<Rightarrow> bool) \<Rightarrow> bool" where
  "gives m Q \<longleftrightarrow> (\<forall>s x s'. m s = (Ok x, s') \<longrightarrow> Q x)"

lemma gives_any: "gives m (\<lambda>_. True)"
  by (simp add: gives_def)

lemma gives_ret: "Q x \<Longrightarrow> gives (io_ret x) Q"
  by (simp add: gives_def io_ret_def)

lemma gives_bind: "gives m P \<Longrightarrow> (\<And>x. P x \<Longrightarrow> gives (k x) Q) \<Longrightarrow> gives (io_bind m k) Q"
  unfolding gives_def io_bind_Ok by blast

lemma gives_stuck: "gives io_stuck Q"
  by (simp add: gives_def io_stuck_def)

lemma same_imeta [simp]:
  "ht_imeta (set_node n nd ht) = ht_imeta ht" "ht_imeta (touch_parent n ht) = ht_imeta ht"
  by (simp_all add: set_node_def touch_parent_def Let_def)

lemma gives_sync_node: "gives (htree_sync_node_to_storage cr n ht) (\<lambda>h. ht_imeta h = ht_imeta ht)"
  by (auto simp: htree_sync_node_to_storage_def Let_def intro!: gives_stuck gives_ret gives_bind [OF gives_any])

lemma gives_traverse:
  assumes cb: "\<And>n ht. gives (cb n ht) (\<lambda>h. ht_imeta h = ht_imeta ht)"
  shows "gives (traverse cb ns ht) (\<lambda>h. ht_imeta h = ht_imeta ht)"
proof (induction ns arbitrary: ht)
  case (Cons n ns)
  show ?case
    unfolding traverse.simps
  proof (rule gives_bind [OF cb])
    fix h :: htree assume "ht_imeta h = ht_imeta ht"
    then show "gives (traverse cb ns h) (\<lambda>h. ht_imeta h = ht_imeta ht)" using Cons [of h] by simp
  qed
qed (auto intro: gives_ret)

lemma gives_update_root: "gives (update_root cr ht) (\<lambda>h. ht_imeta h = ht_imeta ht)"
  by (auto simp: update_root_def Let_def intro!: gives_ret gives_bind [OF gives_any] split: prod.splits)

lemma gives_sync_dirty: "gives (sync_dirty cr ht) (\<lambda>(h, _). ht_imeta h = ht_imeta ht)"
  unfolding sync_dirty_def htree_traverse_post_order_def
proof (rule gives_bind [OF gives_traverse [OF gives_sync_node]])
  fix h1 :: htree assume h1: "ht_imeta h1 = ht_imeta ht"
  show "gives (io_bind (update_root cr h1) (\<lambda>ht2.
      io_bind (rpc_write_head (unat (im_counter (ht_head ht2)) mod 2) (ht_head ht2)) (\<lambda>_.
        io_ret (ht2\<lparr>ht_dirty := False\<rparr>, ni_hash (nd_image (node_at ht2 1)))))) (\<lambda>(h, _). ht_imeta h = ht_imeta ht)"
    by (rule gives_bind [OF gives_update_root], rule gives_bind [OF gives_any], rule gives_ret) (simp add: h1)
qed

lemma gives_create: "gives (create_htree cr uuid) (\<lambda>(h, _). meta_length (ht_imeta h) = 0)"
proof -
  have init: "gives (init_root_node cr ht) (\<lambda>h. ht_imeta h = ht_imeta ht)" for ht
    by (auto simp: init_root_node_def Let_def intro!: gives_ret gives_bind [OF gives_any])
  have "gives (io_bind (init_root_node cr ht) (\<lambda>ht2. io_bind io_call (\<lambda>_.
      io_bind (sync_dirty cr (ht2\<lparr>ht_dirty := True\<rparr>)) (\<lambda>(ht3, h). io_bind (rpc_write_head 0 zero_head) (\<lambda>_. io_ret (ht3, h))))))
      (\<lambda>(h, _). meta_length (ht_imeta h) = 0)" if ht: "meta_length (ht_imeta ht) = 0" for ht
  proof (rule gives_bind [OF init], rule gives_bind [OF gives_any], rule gives_bind [OF gives_sync_dirty])
    fix h2 :: htree and x :: "htree \<times> 256 word"
    assume "ht_imeta h2 = ht_imeta ht" "case x of (h, _) \<Rightarrow> ht_imeta h = ht_imeta (h2\<lparr>ht_dirty := True\<rparr>)"
    then show "gives (case x of (ht3, h) \<Rightarrow> io_bind (rpc_write_head 0 zero_head) (\<lambda>_. io_ret (ht3, h)))
        (\<lambda>(h, _). meta_length (ht_imeta h) = 0)"
      using ht by (auto intro!: gives_bind [OF gives_any] gives_ret split: prod.splits)
  qed
  note rest = this
  show ?thesis
    unfolding create_htree_def Let_def
    by (rule gives_bind [OF gives_any], rule gives_bind [OF gives_any], rule gives_bind [OF gives_any], rule rest)
      (simp add: empty_htree_def)
qed

text \<open>Creating a directory file under the stand-in for cryptography.\<close>

lemma toy_create:
  "\<exists>s1 s2. fop_alloc (ree_dirf_ops toy_crypto) (None, toy_start) = (Ok (), s1)
     \<and> fop_open (ree_dirf_ops toy_crypto) True None s1 = (Ok (), s2) \<and> is_dir (dirf_is toy_crypto) s2 [] \<and> calm (snd s2)"
proof -
  let ?there = "toy_start\<lparr>w_stor := (w_stor toy_start)\<lparr>st_there := True\<rparr>\<rparr>"
  have start: "calm toy_start" "calm ?there" by (simp_all add: toy_start_def calm_def)
  obtain c d w where c: "tee_fs_htree_open toy_crypto True None [] ?there = (Ok (c, d), Some c, w)" "calm w"
    using create_calm [OF toy_crypto_ok start(2)] by blast
  define s where "s = snapshot_of toy_crypto BLOCK_SIZE c (w_stor w)"
  have life: "htree_life toy_crypto BLOCK_SIZE [] (Some c) w {s} s" by (rule created [OF c(1) s_def])
  have "meta_length (ht_imeta c) = 0"
    using gives_create [of toy_crypto "[]"] c(1)
    by (auto simp: gives_def tee_fs_htree_open_def closing_def io_bind_Ok io_ret_def split: prod.splits io.splits)
  then have "fst s = 0" by (simp add: s_def snapshot_of_def)
  then have "written_as [] s" by (simp add: written_as_def file_ok_def block_count_def blocks_ok_def block_size file_bytes_def)
  moreover have "honest w" using c(2) by (simp add: honest_def calm_def)
  ultimately have "dirf_is toy_crypto (Some \<lparr>fd_ht = Some c, fd_dfh = no_dfh\<rparr>, w) []"
    unfolding dirf_is_def fd_is_def fst_conv snd_conv using life by (metis ree_fd.select_convs(1))
  then have "is_dir (dirf_is toy_crypto) (Some \<lparr>fd_ht = Some c, fd_dfh = no_dfh\<rparr>, w) []" by (simp add: is_dir_def)
  moreover have "fop_alloc (ree_dirf_ops toy_crypto) (None, toy_start) = (Ok (), (None, toy_start))"
    using start by (simp add: ree_dirf_ops_def on_world_def)
  moreover have "fop_open (ree_dirf_ops toy_crypto) True None (None, toy_start)
      = (Ok (), (Some \<lparr>fd_ht = Some c, fd_dfh = no_dfh\<rparr>, w))"
    using start c(1)
    by (simp add: ree_dirf_ops_def ree_fs_open_primitive_def rpc_open_dfh_def io_try_def on_world_def open_tree_def dfh_of_def)
  ultimately show ?thesis using c(2) by (metis snd_conv)
qed


section \<open>File names\<close>

lemma hex_digits_nonempty: "hex_digits n \<noteq> []"
  by (subst hex_digits.simps) simp

lemma hex_digit_set: "d < 16 \<Longrightarrow> hex_digit d \<in> set ''0123456789abcdef''"
  unfolding hex_digit_def by (rule nth_mem) simp

lemma hex_digit_inj: "d < 16 \<Longrightarrow> e < 16 \<Longrightarrow> hex_digit d = hex_digit e \<longleftrightarrow> d = e"
  unfolding hex_digit_def by (rule nth_eq_iff_index_eq) (simp_all)

lemma set_hex_digits: "set (hex_digits n) \<subseteq> set ''0123456789abcdef''"
proof (induction n rule: hex_digits.induct)
  case (1 n)
  show ?case
  proof (cases "n < 16")
    case True
    then show ?thesis using hex_digit_set by (subst hex_digits.simps) simp
  next
    case False
    then show ?thesis using 1 hex_digit_set [of "n mod 16"] by (subst hex_digits.simps) simp
  qed
qed

lemma hex_digits_inj: "hex_digits n = hex_digits m \<Longrightarrow> n = m"
proof (induction n arbitrary: m rule: hex_digits.induct)
  case (1 n)
  have digit: "k < 16 \<Longrightarrow> hex_digits k = [hex_digit k]" for k by (subst hex_digits.simps) simp
  have more: "\<not> k < 16 \<Longrightarrow> hex_digits k = hex_digits (k div 16) @ [hex_digit (k mod 16)]" for k
    by (subst hex_digits.simps) simp
  show ?case
  proof (cases "n < 16"; cases "m < 16")
    assume "n < 16" "m < 16"
    then show ?thesis using 1(2) digit hex_digit_inj by auto
  next
    assume "n < 16" "\<not> m < 16"
    then show ?thesis using 1(2) digit more [of m] hex_digits_nonempty [of "m div 16"] by simp
  next
    assume "\<not> n < 16" "m < 16"
    then show ?thesis using 1(2) digit more [of n] hex_digits_nonempty [of "n div 16"] by simp
  next
    assume big: "\<not> n < 16" "\<not> m < 16"
    then have "n div 16 = m div 16" "n mod 16 = m mod 16"
      using 1 more [of n] more [of m] hex_digit_inj [of "n mod 16" "m mod 16"] by auto
    then show ?thesis by (metis div_mult_mod_eq)
  qed
qed

lemma length_hex_digits: "n < 16 ^ Suc k \<Longrightarrow> length (hex_digits n) \<le> Suc k"
proof (induction k arbitrary: n)
  case (Suc k)
  show ?case
  proof (cases "n < 16")
    case False
    have "n div 16 < 16 ^ Suc k" using Suc.prems by (simp add: less_mult_imp_div_less)
    then show ?thesis using Suc.IH False by (subst hex_digits.simps) simp
  qed (subst hex_digits.simps, simp)
qed (subst hex_digits.simps, simp)

text \<open>
  with room for nine characters every file gets a name, two files the same one only if they have the
  same number, and none gets the name of the directory file.
\<close>
theorem dirfile_names_distinct:
  assumes "9 \<le> n"
  shows "fst (tee_fs_dirfile_fileh_to_fname dfh n) = TEE_SUCCESS
    \<and> (tee_fs_dirfile_fileh_to_fname (Some a) n = tee_fs_dirfile_fileh_to_fname (Some b) n
        \<longleftrightarrow> fh_file_number a = fh_file_number b)
    \<and> tee_fs_dirfile_fileh_to_fname (Some a) n \<noteq> tee_fs_dirfile_fileh_to_fname None n"
proof -
  have "unat (w :: 32 word) < 16 ^ Suc 7" for w by (rule less_le_trans [OF unsigned_less]) simp
  then have len: "length (hex_digits (unat (w :: 32 word))) \<le> 8" for w using length_hex_digits by fastforce
  have name: "tee_fs_dirfile_fileh_to_fname (Some d) n
      = (TEE_SUCCESS, hex_digits (unat (fh_file_number d)), Suc (length (hex_digits (unat (fh_file_number d)))))" for d
    using assms len [of "fh_file_number d"] by (simp add: tee_fs_dirfile_fileh_to_fname_def Let_def)
  have dir: "tee_fs_dirfile_fileh_to_fname None n = (TEE_SUCCESS, ''dirf.db'', 8)"
    using assms by (simp add: tee_fs_dirfile_fileh_to_fname_def Let_def)
  have "CHR ''r'' \<notin> set (hex_digits (unat (fh_file_number a)))" using set_hex_digits by fastforce
  then have "hex_digits (unat (fh_file_number a)) \<noteq> ''dirf.db''" by auto
  moreover have "hex_digits (unat (fh_file_number a)) = hex_digits (unat (fh_file_number b)) \<longleftrightarrow> fh_file_number a = fh_file_number b"
    using hex_digits_inj by (metis unsigned_word_eqI)
  ultimately show ?thesis using name dir by (cases dfh) auto
qed

theorem dirfile_names_distinct_witness:
  "tee_fs_dirfile_fileh_to_fname (Some \<lparr>fh_file_number = 26, fh_hash = 0, fh_idx = 0\<rparr>) 16 = (TEE_SUCCESS, ''1a'', 3)
   \<and> tee_fs_dirfile_fileh_to_fname (Some \<lparr>fh_file_number = 26, fh_hash = 0, fh_idx = 0\<rparr>) 16
     \<noteq> tee_fs_dirfile_fileh_to_fname (Some \<lparr>fh_file_number = 27, fh_hash = 0, fh_idx = 0\<rparr>) 16"
  using dirfile_names_distinct [of 16 None "\<lparr>fh_file_number = 26, fh_hash = 0, fh_idx = 0\<rparr>"
      "\<lparr>fh_file_number = 27, fh_hash = 0, fh_idx = 0\<rparr>"]
  by (simp add: tee_fs_dirfile_fileh_to_fname_def hex_digits.simps hex_digit_def)

section \<open>An error taken for the end of the file\<close>


text \<open>A tree with its root only, a length of one entry, and a normal world that grants the buffer and then
  answers that there is nothing to read.\<close>

definition one_entry_tree :: htree where
  "one_entry_tree = set_meta_length 120 (empty_htree [])"

definition forgetful_world :: world where
  "forgetful_world = toy_start\<lparr>w_replies := [(TEE_SUCCESS, True), (TEE_ERROR_ITEM_NOT_FOUND, True)]\<rparr>"


end
