(* ===== verification/FsObj.thy ===== *)
theory FsObj
  imports FsDirMap
begin

text \<open>
  The operations on persistent objects of \<open>core/tee/tee_ree_fs.c\<close> (\<open>ree_fs_ops\<close>), without the variant that
  keeps the digest of the directory in RPMB. Every object has a file of its own; the directory file,
  which is open while any object is, says which. All of it runs under \<open>ree_fs_mutex\<close>, so an operation is
  one step.
\<close>

section \<open>Normal world and its files\<close>

text \<open>
  The files by name, \<open>None\<close> for the directory file and otherwise the file number (\<open>FsDirMap\<close> shows that
  different numbers make different names), with the answers and random numbers to come as in \<open>world\<close>.
\<close>

record nw_fs =
  nw_files :: "32 word option \<Rightarrow> storage"
  nw_replies :: "(tee_result \<times> bool) list"
  nw_randoms :: "128 word list"

definition file_world :: "32 word option \<Rightarrow> nw_fs \<Rightarrow> world" where
  "file_world name n = \<lparr>w_stor = nw_files n name, w_replies = nw_replies n, w_randoms = nw_randoms n\<rparr>"

definition put_world :: "32 word option \<Rightarrow> world \<Rightarrow> nw_fs \<Rightarrow> nw_fs" where
  "put_world name w n = \<lparr>nw_files = (nw_files n)(name := w_stor w), nw_replies = w_replies w, nw_randoms = w_randoms w\<rparr>"

type_synonym fd_nw = "ree_fd option \<times> nw_fs"

definition at_file :: "32 word option \<Rightarrow> (fd_state, 'a) sm \<Rightarrow> (fd_nw, 'a) sm" where
  "at_file name m = (\<lambda>(fdp, n). case m (fdp, file_world name n) of (r, (fdp1, w)) \<Rightarrow> (r, (fdp1, put_world name w n)))"

definition dirf_fops :: "fs_crypto \<Rightarrow> fd_nw dirfile_operations" where
  "dirf_fops cr = (let ops = ree_dirf_ops cr in
     \<lparr>fop_open = (\<lambda>create hash. at_file None (fop_open ops create hash)),
      fop_close = at_file None (fop_close ops),
      fop_read = (\<lambda>pos len. at_file None (fop_read ops pos len)),
      fop_write = (\<lambda>pos buf len. at_file None (fop_write ops pos buf len)),
      fop_commit_writes = (\<lambda>hash. at_file None (fop_commit_writes ops hash)),
      fop_alloc = at_file None (fop_alloc ops)\<rparr>)"

section \<open>The directory handle\<close>

text \<open>
  \<open>ree_fs_dirh\<close> with the address of its memory, the handle and the open file in it; \<open>fs_fds\<close> are the
  \<open>struct tee_fs_fd\<close> of open objects by address. Addresses of directory handles are not used again.
\<close>

record ree_fs =
  fs_nw :: nw_fs
  fs_dirh :: "(nat \<times> dirfile_dirh \<times> ree_fd option) option"
  fs_dirh_refcount :: "64 word"
  fs_fds :: "nat \<Rightarrow> ree_fd option"
  fs_next :: nat

definition in_dirh :: "(fd_nw dir_state, 'a) sm \<Rightarrow> (ree_fs, 'a) sm" where
  "in_dirh m = (\<lambda>s. case fs_dirh s of
     None \<Rightarrow> (Stuck, s)
   | Some (a, d, fdp) \<Rightarrow> (case m (d, (fdp, fs_nw s)) of
       (r, (d1, (fdp1, n))) \<Rightarrow> (r, s\<lparr>fs_nw := n, fs_dirh := Some (a, d1, fdp1)\<rparr>)))"

definition open_dirh_file :: "fs_crypto \<Rightarrow> bool \<Rightarrow> (ree_fs, unit) sm" where
  "open_dirh_file cr create = (\<lambda>s. case tee_fs_dirfile_open (dirf_fops cr) create None (None, fs_nw s) of
     (Ok d, (fdp, n)) \<Rightarrow> (Ok (), s\<lparr>fs_nw := n, fs_dirh := Some (fs_next s, d, fdp), fs_next := Suc (fs_next s)\<rparr>)
   | (Fail e, (fdp, n)) \<Rightarrow> (Fail e, s\<lparr>fs_nw := n\<rparr>)
   | (Stuck, (fdp, n)) \<Rightarrow> (Stuck, s\<lparr>fs_nw := n\<rparr>))"

definition open_dirh :: "fs_crypto \<Rightarrow> (ree_fs, unit) sm" where
  "open_dirh cr = io_try (open_dirh_file cr False) io_ret
     (\<lambda>e. if e = TEE_ERROR_ITEM_NOT_FOUND then open_dirh_file cr True else io_fail e)"

definition commit_dirh_writes :: "fs_crypto \<Rightarrow> (ree_fs, unit) sm" where
  "commit_dirh_writes cr = io_bind (in_dirh (tee_fs_dirfile_commit_writes (dirf_fops cr) None)) (\<lambda>_. io_ret ())"

definition close_dirh :: "fs_crypto \<Rightarrow> (ree_fs, unit) sm" where
  "close_dirh cr = io_bind (in_dirh (tee_fs_dirfile_close (dirf_fops cr))) (\<lambda>_ s. (Ok (), s\<lparr>fs_dirh := None\<rparr>))"

definition get_dirh :: "fs_crypto \<Rightarrow> (ree_fs, nat) sm" where
  "get_dirh cr = io_bind (\<lambda>s. if fs_dirh s = None then open_dirh cr s else (Ok (), s)) (\<lambda>_ s.
     let s1 = s\<lparr>fs_dirh_refcount := fs_dirh_refcount s + 1\<rparr>
     in case fs_dirh s1 of
         None \<Rightarrow> (Stuck, s1)
       | Some (a, _) \<Rightarrow> if fs_dirh_refcount s1 = 0 then (Stuck, s1) else (Ok a, s1))"

definition put_dirh_primitive :: "fs_crypto \<Rightarrow> bool \<Rightarrow> (ree_fs, unit) sm" where
  "put_dirh_primitive cr close = (\<lambda>s.
     if fs_dirh_refcount s = 0 then (Stuck, s)
     else let s1 = s\<lparr>fs_dirh_refcount := fs_dirh_refcount s - 1\<rparr>
       in if fs_dirh s1 \<noteq> None \<and> (fs_dirh_refcount s1 = 0 \<or> close) then close_dirh cr s1 else (Ok (), s1))"

definition put_dirh :: "fs_crypto \<Rightarrow> nat \<Rightarrow> bool \<Rightarrow> (ree_fs, unit) sm" where
  "put_dirh cr dirh close = (\<lambda>s.
     if map_option fst (fs_dirh s) \<noteq> Some dirh then (Stuck, s) else put_dirh_primitive cr close s)"

section \<open>Open objects\<close>

definition in_fd :: "nat \<Rightarrow> 32 word \<Rightarrow> (fd_state, 'a) sm \<Rightarrow> (ree_fs, 'a) sm" where
  "in_fd k number m = (\<lambda>s. case at_file (Some number) m (fs_fds s k, fs_nw s) of
     (r, (fdp, n)) \<Rightarrow> (r, s\<lparr>fs_nw := n, fs_fds := (fs_fds s)(k := fdp)\<rparr>))"

definition get_dfh :: "nat \<Rightarrow> (ree_fs, dirfile_fileh) sm" where
  "get_dfh k = (\<lambda>s. case fs_fds s k of None \<Rightarrow> (Stuck, s) | Some fd \<Rightarrow> (Ok (fd_dfh fd), s))"

definition set_dfh :: "nat \<Rightarrow> dirfile_fileh \<Rightarrow> (ree_fs, unit) sm" where
  "set_dfh k dfh = (\<lambda>s. case fs_fds s k of
     None \<Rightarrow> (Stuck, s) | Some fd \<Rightarrow> (Ok (), s\<lparr>fs_fds := (fs_fds s)(k \<mapsto> fd\<lparr>fd_dfh := dfh\<rparr>)\<rparr>))"

definition on_handle :: "nat \<Rightarrow> (fd_state, 'a) sm \<Rightarrow> (ree_fs, 'a) sm" where
  "on_handle k m = io_bind (get_dfh k) (\<lambda>dfh. in_fd k (fh_file_number dfh) m)"

definition fd_length :: "nat \<Rightarrow> (ree_fs, 64 word) sm" where
  "fd_length k = on_handle k (on_fd get_length)"

text \<open>Results that are not looked at.\<close>

definition quietly :: "(ree_fs, unit) sm \<Rightarrow> (ree_fs, unit) sm" where
  "quietly m = io_try m io_ret (\<lambda>_. io_ret ())"

definition remove_file :: "32 word \<Rightarrow> (ree_fs, unit) sm" where
  "remove_file number = (\<lambda>s. case at_file (Some number) tee_fs_rpc_remove_dfh (None, fs_nw s) of
     (r, (_, n)) \<Rightarrow> (r, s\<lparr>fs_nw := n\<rparr>))"

text \<open>
  The common frame: \<open>get_dirh\<close> first, \<open>put_dirh\<close> at the end, which closes the directory after an error; opening
  and creating keep the directory when they succeed.
\<close>

definition with_dirh :: "fs_crypto \<Rightarrow> bool \<Rightarrow> (ree_fs, 'a) sm \<Rightarrow> (ree_fs, 'a) sm" where
  "with_dirh cr keep body = io_bind (get_dirh cr) (\<lambda>dirh. io_try body
     (\<lambda>x. io_bind (if keep then io_ret () else put_dirh cr dirh False) (\<lambda>_. io_ret x))
     (\<lambda>e. io_bind (put_dirh cr dirh True) (\<lambda>_. io_fail e)))"

definition ree_fs_open :: "fs_crypto \<Rightarrow> nat \<Rightarrow> bytes \<Rightarrow> bytes \<Rightarrow> (ree_fs, 64 word) sm" where
  "ree_fs_open cr k uuid oid = with_dirh cr True
     (io_bind (in_dirh (tee_fs_dirfile_find (dirf_fops cr) uuid oid)) (\<lambda>dfh.
      io_bind (io_try (in_fd k (fh_file_number dfh) (ree_fs_open_primitive cr False (Some (fh_hash dfh)) uuid (Some dfh)))
          io_ret (\<lambda>e. io_fail (if e = TEE_ERROR_ITEM_NOT_FOUND then TEE_ERROR_CORRUPT_OBJECT else e))) (\<lambda>_.
      fd_length k)))"

definition ree_fs_close :: "fs_crypto \<Rightarrow> nat \<Rightarrow> (ree_fs, unit) sm" where
  "ree_fs_close cr k = (\<lambda>s. if fs_fds s k = None then (Ok (), s)
     else io_bind (put_dirh_primitive cr False) (\<lambda>_. on_handle k ree_fs_close_primitive) s)"

definition ree_fs_read :: "fs_crypto \<Rightarrow> nat \<Rightarrow> 64 word \<Rightarrow> 64 word \<Rightarrow> (ree_fs, bytes) sm" where
  "ree_fs_read cr k pos len = on_handle k (on_fd (ree_fs_read_primitive cr pos len))"

text \<open>The part of \<open>set_name\<close> after the search; \<open>old\<close> is the object found under the name.\<close>

definition set_name_at :: "fs_crypto \<Rightarrow> nat \<Rightarrow> bytes \<Rightarrow> bytes \<Rightarrow> dirfile_fileh option \<Rightarrow> (ree_fs, unit) sm" where
  "set_name_at cr k uuid oid old =
     io_bind (get_dfh k) (\<lambda>dfh.
     let dfh0 = dfh\<lparr>fh_idx := (case old of None \<Rightarrow> - 1 | Some o_dfh \<Rightarrow> fh_idx o_dfh)\<rparr> in
     io_bind (in_dirh (tee_fs_dirfile_rename (dirf_fops cr) uuid dfh0 oid)) (\<lambda>dfh1.
     io_bind (set_dfh k dfh1) (\<lambda>_.
     io_bind (commit_dirh_writes cr) (\<lambda>_.
       case old of None \<Rightarrow> io_ret () | Some o_dfh \<Rightarrow> quietly (remove_file (fh_file_number o_dfh))))))"

definition set_name :: "fs_crypto \<Rightarrow> nat \<Rightarrow> bytes \<Rightarrow> bytes \<Rightarrow> bool \<Rightarrow> (ree_fs, unit) sm" where
  "set_name cr k uuid oid overwrite =
     io_try (in_dirh (tee_fs_dirfile_find (dirf_fops cr) uuid oid))
       (\<lambda>old. if \<not> overwrite then io_fail TEE_ERROR_ACCESS_CONFLICT else set_name_at cr k uuid oid (Some old))
       (\<lambda>_. set_name_at cr k uuid oid None)"

definition write_part :: "fs_crypto \<Rightarrow> nat \<Rightarrow> nat \<Rightarrow> bytes \<Rightarrow> (ree_fs, unit) sm" where
  "write_part cr k pos b = (if b = [] then io_ret ()
     else on_handle k (on_fd (ree_fs_write_primitive cr (word_of_nat pos) b (word_of_nat (length b)))))"

definition sync_fd :: "fs_crypto \<Rightarrow> nat \<Rightarrow> (ree_fs, unit) sm" where
  "sync_fd cr k = io_bind (on_handle k (commit_writes_primitive cr None)) (\<lambda>_. io_ret ())"

text \<open>\<open>dfh\<close> is not initialised except for the number; \<open>idx\<close> is set in \<open>set_name\<close>, the digest by the creation.\<close>

definition create_object ::
    "fs_crypto \<Rightarrow> nat \<Rightarrow> 32 word \<Rightarrow> bytes \<Rightarrow> bytes \<Rightarrow> bool \<Rightarrow> bytes \<Rightarrow> bytes \<Rightarrow> bytes \<Rightarrow> (ree_fs, unit) sm" where
  "create_object cr k number uuid oid overwrite head attr data =
     (let dfh = \<lparr>fh_file_number = number, fh_hash = 0, fh_idx = 0\<rparr> in
      io_bind (in_fd k number (ree_fs_open_primitive cr True (Some 0) uuid (Some dfh))) (\<lambda>_.
      io_bind (write_part cr k 0 head) (\<lambda>_.
      io_bind (write_part cr k (length head) attr) (\<lambda>_.
      io_bind (write_part cr k (length head + length attr) data) (\<lambda>_.
      io_bind (sync_fd cr k) (\<lambda>_.
        set_name cr k uuid oid overwrite))))))"

definition drop_object :: "nat \<Rightarrow> 32 word \<Rightarrow> (ree_fs, unit) sm" where
  "drop_object k number = (\<lambda>s. if fs_fds s k = None then (Ok (), s)
     else io_bind (on_handle k ree_fs_close_primitive) (\<lambda>_. quietly (remove_file number)) s)"

definition ree_fs_create ::
    "fs_crypto \<Rightarrow> nat \<Rightarrow> bytes \<Rightarrow> bytes \<Rightarrow> bool \<Rightarrow> bytes \<Rightarrow> bytes \<Rightarrow> bytes \<Rightarrow> (ree_fs, unit) sm" where
  "ree_fs_create cr k uuid oid overwrite head attr data =
     io_bind (get_dirh cr) (\<lambda>dirh.
     io_try (in_dirh (tee_fs_dirfile_get_tmp (dirf_fops cr)))
       (\<lambda>number. io_try (create_object cr k number uuid oid overwrite head attr data) io_ret
          (\<lambda>e. io_bind (put_dirh cr dirh True) (\<lambda>_. io_bind (drop_object k number) (\<lambda>_. io_fail e))))
       (\<lambda>e. io_bind (put_dirh cr dirh True) (\<lambda>_. io_fail e)))"

definition update_hash :: "fs_crypto \<Rightarrow> nat \<Rightarrow> (ree_fs, unit) sm" where
  "update_hash cr k = io_bind (sync_fd cr k) (\<lambda>_. io_bind (get_dfh k) (\<lambda>dfh.
     io_bind (in_dirh (tee_fs_dirfile_update_hash (dirf_fops cr) dfh)) (\<lambda>_. commit_dirh_writes cr)))"

definition ree_fs_write :: "fs_crypto \<Rightarrow> nat \<Rightarrow> 64 word \<Rightarrow> bytes \<Rightarrow> 64 word \<Rightarrow> (ree_fs, unit) sm" where
  "ree_fs_write cr k pos buf len = with_dirh cr False
     (io_bind (on_handle k (on_fd (ree_fs_write_primitive cr pos buf len))) (\<lambda>_. update_hash cr k))"

definition ree_fs_truncate :: "fs_crypto \<Rightarrow> nat \<Rightarrow> 64 word \<Rightarrow> (ree_fs, unit) sm" where
  "ree_fs_truncate cr k len = with_dirh cr False
     (io_bind (on_handle k (on_fd (ree_fs_ftruncate_internal cr len))) (\<lambda>_. update_hash cr k))"

text \<open>The rest of \<open>ree_fs_rename\<close>; \<open>gone\<close> is \<open>remove_dfh\<close> if an object had the new name.\<close>

definition rename_object ::
    "fs_crypto \<Rightarrow> bytes \<times> bytes \<Rightarrow> bytes \<times> bytes \<Rightarrow> dirfile_fileh option \<Rightarrow> (ree_fs, unit) sm" where
  "rename_object cr old new gone =
     io_bind (in_dirh (tee_fs_dirfile_find (dirf_fops cr) (fst old) (snd old))) (\<lambda>dfh.
     io_bind (in_dirh (tee_fs_dirfile_rename (dirf_fops cr) (fst new) dfh (snd new))) (\<lambda>_.
     io_bind (case gone of None \<Rightarrow> io_ret () | Some g \<Rightarrow> in_dirh (tee_fs_dirfile_remove (dirf_fops cr) g)) (\<lambda>_.
     io_bind (commit_dirh_writes cr) (\<lambda>_.
       case gone of None \<Rightarrow> io_ret () | Some g \<Rightarrow> quietly (remove_file (fh_file_number g))))))"

definition ree_fs_rename ::
    "fs_crypto \<Rightarrow> bytes \<times> bytes \<Rightarrow> (bytes \<times> bytes) option \<Rightarrow> bool \<Rightarrow> (ree_fs, unit) sm" where
  "ree_fs_rename cr old new_po overwrite = (case new_po of
     None \<Rightarrow> io_fail TEE_ERROR_BAD_PARAMETERS
   | Some new \<Rightarrow> with_dirh cr False
      (io_try (in_dirh (tee_fs_dirfile_find (dirf_fops cr) (fst new) (snd new)))
        (\<lambda>g. if \<not> overwrite then io_fail TEE_ERROR_ACCESS_CONFLICT else rename_object cr old new (Some g))
        (\<lambda>_. rename_object cr old new None)))"

definition ree_fs_remove :: "fs_crypto \<Rightarrow> bytes \<Rightarrow> bytes \<Rightarrow> (ree_fs, unit) sm" where
  "ree_fs_remove cr uuid oid = with_dirh cr False
     (io_bind (in_dirh (tee_fs_dirfile_find (dirf_fops cr) uuid oid)) (\<lambda>dfh.
      io_bind (in_dirh (tee_fs_dirfile_remove (dirf_fops cr) dfh)) (\<lambda>_.
      io_bind (commit_dirh_writes cr) (\<lambda>_.
      io_bind (quietly (remove_file (fh_file_number dfh))) (\<lambda>_.
        io_try (in_dirh (tee_fs_dirfile_find (dirf_fops cr) uuid oid)) (\<lambda>_. io_stuck) (\<lambda>_. io_ret ()))))))"

section \<open>Listing\<close>

text \<open>\<open>struct tee_fs_dir\<close>: \<open>dirh\<close> is an address, which another operation may have freed meanwhile.\<close>

record tee_fs_dir =
  dir_dirh :: nat
  dir_uuid :: bytes
  dir_idx :: int

definition TEE_OBJECT_ID_MAX_LEN :: nat where "TEE_OBJECT_ID_MAX_LEN = 64"

definition fs_alloc :: "(ree_fs, unit) sm" where
  "fs_alloc = (\<lambda>s. case at_file None (on_world io_call) (None, fs_nw s) of (r, (_, n)) \<Rightarrow> (r, s\<lparr>fs_nw := n\<rparr>))"

definition ree_fs_opendir_rpc :: "fs_crypto \<Rightarrow> bytes \<Rightarrow> (ree_fs, tee_fs_dir) sm" where
  "ree_fs_opendir_rpc cr uuid = io_try fs_alloc
     (\<lambda>_. io_bind (get_dirh cr) (\<lambda>dirh.
        io_try (in_dirh (tee_fs_dirfile_get_next (dirf_fops cr) uuid (- 1) TEE_OBJECT_ID_MAX_LEN))
          (\<lambda>_. io_ret \<lparr>dir_dirh = dirh, dir_uuid = uuid, dir_idx = - 1\<rparr>)
          (\<lambda>e. io_bind (put_dirh cr dirh False) (\<lambda>_. io_fail e))))
     (\<lambda>_. io_fail TEE_ERROR_OUT_OF_MEMORY)"

definition ree_fs_closedir_rpc :: "fs_crypto \<Rightarrow> tee_fs_dir \<Rightarrow> (ree_fs, unit) sm" where
  "ree_fs_closedir_rpc cr d = put_dirh cr (dir_dirh d) False"

definition ree_fs_readdir_rpc :: "fs_crypto \<Rightarrow> tee_fs_dir \<Rightarrow> (ree_fs, tee_fs_dir \<times> bytes) sm" where
  "ree_fs_readdir_rpc cr d = (\<lambda>s.
     if map_option fst (fs_dirh s) \<noteq> Some (dir_dirh d) then (Stuck, s)
     else io_bind (in_dirh (tee_fs_dirfile_get_next (dirf_fops cr) (dir_uuid d) (dir_idx d) TEE_OBJECT_ID_MAX_LEN))
       (\<lambda>(idx, oid). io_ret (d\<lparr>dir_idx := idx\<rparr>, oid)) s)"

end
