(* ===== verification/FsObjFile.thy ===== *)
theory FsObjFile
  imports FsObj
begin

text \<open>
  One object's file between the operations: it is closed, and then opening it with the digest that the
  directory has for it gives its bytes, or open, with the bytes in memory and the last commit on storage.
  \<open>FsObjMap\<close> puts the files and the directory together.
\<close>

section \<open>The committed tree\<close>

lemma recovers_raw: "recovers cr bs uuid c s st \<Longrightarrow> stored c (raw_blocks c st) st"
  by (auto simp: recovers_def stored_def raw_blocks_def)

text \<open>Headers and nodes determine what is opened.\<close>

lemma same_tree:
  assumes c: "recovers cr bs uuid c s st" and c': "recovers cr bs uuid c' s' st'"
    and same: "st_head st' = st_head st" "st_node st' = st_node st"
  shows "c' = c"
proof -
  let ?w = "\<lparr>w_stor = st', w_replies = [], w_randoms = []\<rparr>"
  have "stored c (raw_blocks c st') st'"
    using recovers_raw [OF c] same by (simp add: stored_def heads_stored_def nodes_stored_def raw_blocks_def)
  then have "recovers cr bs uuid c (snapshot_of cr bs c st') st'" using c by (auto simp: recovers_def)
  from open_recovers(2) [OF this, of ?w] open_recovers(2) [OF c', of ?w] show ?thesis by (simp add: calm_def)
qed

lemma recovers_snapshot: "recovers cr bs uuid c s st \<Longrightarrow> s = snapshot_of cr bs c st"
  by (simp add: recovers_def)

lemma life_recovers:
  assumes "htree_life cr BLOCK_SIZE uuid (Some ht) w {s} cur" and "crypto_ok cr"
  obtains c where "recovers cr BLOCK_SIZE uuid c s (w_stor w)" and "mem_tracks c ht" and "snapshot_of cr BLOCK_SIZE ht (w_stor w) = cur"
  using life_invariant [OF assms] unfolding life_inv_def by blast

text \<open>While a file is open its committed tree stays as long as headers and nodes do.\<close>

lemma recovers_stays:
  assumes cr: "crypto_ok cr" and c: "recovers cr BLOCK_SIZE uuid c s0 (w_stor w)"
    and life: "htree_life cr BLOCK_SIZE uuid (Some ht) w {s} cur"
    and life': "htree_life cr BLOCK_SIZE uuid (Some ht') w' {s} cur'"
    and same: "st_head (w_stor w') = st_head (w_stor w)" "st_node (w_stor w') = st_node (w_stor w)"
  shows "recovers cr BLOCK_SIZE uuid c s (w_stor w') \<and> s0 = s"
proof -
  obtain c1 where c1: "recovers cr BLOCK_SIZE uuid c1 s (w_stor w)" using life_recovers [OF life cr] by blast
  have "c1 = c" by (rule same_tree [OF c c1]) simp_all
  then have s: "s0 = s" using recovers_snapshot [OF c] recovers_snapshot [OF c1] by simp
  obtain c2 where c2: "recovers cr BLOCK_SIZE uuid c2 s (w_stor w')" using life_recovers [OF life' cr] by blast
  have "c2 = c" by (rule same_tree [OF c c2 same])
  then show ?thesis using c2 s by simp
qed

section \<open>Commits\<close>

text \<open>The old root stays in its place, and the counter goes up by one.\<close>

lemma sync_runs_keeps:
  assumes cr: "crypto_ok cr" and valid: "tree_valid cr c" and mem: "mem_tracks c ht"
    and dirty: "ht_dirty ht" and cnt: "unat (im_counter (ht_head ht)) < 2 ^ 32 - 1" and uuid: "ht_uuid ht = uuid"
  shows "runs (keeps c blk st0) (sync_dirty cr ht)
    (\<lambda>(ht', d) st. recovers cr bs uuid ht' (snapshot_of cr bs ht st0) st \<and> d = ni_hash (image_of ht' 1)
      \<and> im_counter (ht_head ht') = im_counter (ht_head c) + 1 \<and> nodes_stored c st)
    (\<lambda>_. True)"
proof -
  have shape: "shape_ok ht" and head: "ht_head ht = ht_head c" using mem by (simp_all add: mem_tracks_def)
  have new: "recovers cr bs uuid ht' (snapshot_of cr bs ht st0) st
      \<and> im_counter (ht_head ht') = im_counter (ht_head c) + 1 \<and> nodes_stored c st"
    if st1: "keeps c blk st0 st1" "commits cr ht ht' st1" "st = put_head (counter_slot ht') (ht_head ht') st1"
    for ht' st st1
  proof -
    have "counter_slot ht = counter_slot c" using head by (simp add: counter_slot_def)
    then have "st_head st1 (counter_slot ht) = Some (ht_head ht)"
      using st1(1) head by (auto simp: keeps_def stored_def heads_stored_def)
    moreover have "st_block st1 = st_block st0" using st1(1) by (simp add: keeps_def)
    moreover have "nodes_stored c st" using st1(1) by (simp add: keeps_def stored_def st1(3) nodes_stored_def)
    ultimately show ?thesis
      using commit_recovers [OF st1(2) cnt _ shape _ uuid] st1(2) head by (simp add: commits_def st1(3))
  qed
  show ?thesis
    by (rule runs_weaken [OF sync_dirty_runs [OF tracks_can_sync [OF valid mem dirty] cr
          commit_fek [OF valid mem] cnt]])
       (use new in auto)
qed

lemma sync_tree:
  assumes cr: "crypto_ok cr" and c: "recovers cr BLOCK_SIZE uuid c s (w_stor w)"
    and life: "htree_life cr BLOCK_SIZE uuid (Some ht) w {s} cur"
    and cnt: "unat (im_counter (ht_head c)) < 2 ^ 32 - 1" and calm: "calm w"
  shows "\<exists>x d c' w'. tee_fs_htree_sync_to_storage cr (Some ht) w = (Ok (x, d), Some c', w') \<and> calm w'
    \<and> htree_life cr BLOCK_SIZE uuid (Some c') w' {cur} cur \<and> recovers cr BLOCK_SIZE uuid c' cur (w_stor w')
    \<and> (d = None \<and> c' = c \<and> w' = w \<and> cur = s
      \<or> d = Some (ni_hash (image_of c' 1)) \<and> im_counter (ht_head c') = im_counter (ht_head c) + 1
        \<and> st_node (w_stor w') 0 (counter_slot c) = Some (image_of c 1))"
proof -
  obtain c1 where c1: "recovers cr BLOCK_SIZE uuid c1 s (w_stor w)" "mem_tracks c1 ht"
    "snapshot_of cr BLOCK_SIZE ht (w_stor w) = cur" using life_recovers [OF life cr] by blast
  have "c1 = c" by (rule same_tree [OF c c1(1)]) simp_all
  note mem = c1(2) [unfolded \<open>c1 = c\<close>]
  have head: "ht_head ht = ht_head c" "ht_uuid ht = uuid" "tree_valid cr c"
    using mem c by (simp_all add: mem_tracks_def recovers_def)
  show ?thesis
  proof (cases "ht_dirty ht")
    case False
    then have ht: "ht = c" using mem by (simp add: mem_tracks_def)
    then have cur: "cur = s" using c1(3) recovers_snapshot [OF c] by simp
    have "tee_fs_htree_sync_to_storage cr (Some ht) w = (Ok (ht, None), Some c, w)"
      using False ht by (simp add: tee_fs_htree_sync_to_storage_def)
    then show ?thesis using c life calm ht cur by blast
  next
    case True
    let ?m = "io_bind (sync_dirty cr ht) (\<lambda>(ht1, h). io_ret (ht1, Some h))"
    obtain r h w' where sync: "tee_fs_htree_sync_to_storage cr (Some ht) w = (r, h, w')" by (metis prod.exhaust)
    then have call: "closing ?m fst w = (r, h, w')" using True calm by (simp add: tee_fs_htree_sync_to_storage_def)
    have run: "runs (keeps c (raw_blocks c (w_stor w)) (w_stor w)) ?m
        (\<lambda>y st. recovers cr BLOCK_SIZE uuid (fst y) cur st \<and> snd y = Some (ni_hash (image_of (fst y) 1))
          \<and> im_counter (ht_head (fst y)) = im_counter (ht_head c) + 1 \<and> nodes_stored c st) (\<lambda>_. True)"
      by (rule runs_bind [OF sync_runs_keeps [OF cr head(3) mem True _ head(2),
              of "raw_blocks c (w_stor w)" "w_stor w" BLOCK_SIZE, unfolded c1(3)]])
         (use cnt head(1) in \<open>auto intro!: runs_ret split: prod.splits\<close>)
    have "keeps c (raw_blocks c (w_stor w)) (w_stor w) (w_stor w)" using recovers_raw [OF c] by (simp add: keeps_def)
    from closing_runs [OF run this call] sync_calm [OF cr calm sync]
    obtain x where x: "r = Ok x" "h = Some (fst x)" "calm w'" "recovers cr BLOCK_SIZE uuid (fst x) cur (w_stor w')"
      "snd x = Some (ni_hash (image_of (fst x) 1))" "im_counter (ht_head (fst x)) = im_counter (ht_head c) + 1"
      "nodes_stored c (w_stor w')" by auto
    have "htree_life cr BLOCK_SIZE uuid (Some (fst x)) w' {cur} cur"
      using committed [OF life, of x h w'] sync x(1,2) cnt head(1) by simp
    moreover have "st_node (w_stor w') 0 (counter_slot c) = Some (image_of c 1)" using x(7) by (simp add: nodes_stored_def)
    ultimately show ?thesis using sync x(1-6) by (metis prod.collapse)
  qed
qed

section \<open>Files between operations\<close>

text \<open>
  \<open>kept\<close>: the file is there, the tree \<open>c\<close> has been committed with the bytes \<open>b\<close>, in at most \<open>n\<close> commits.
  \<open>committed\<close>: opening the file with the digest \<open>h\<close> finds that tree. \<open>held\<close>: somebody has the file open.
\<close>

definition closed_at :: "fs_crypto \<Rightarrow> bytes \<Rightarrow> storage \<Rightarrow> snapshot \<Rightarrow> bool" where
  "closed_at cr uuid st s \<longleftrightarrow> (\<exists>w cur. w_stor w = st \<and> htree_life cr BLOCK_SIZE uuid None w {s} cur)"

definition kept :: "fs_crypto \<Rightarrow> nat \<Rightarrow> bytes \<Rightarrow> storage \<Rightarrow> htree \<Rightarrow> bytes \<Rightarrow> bool" where
  "kept cr n uuid st c b \<longleftrightarrow> st_there st \<and> unat (im_counter (ht_head c)) \<le> n
     \<and> (\<exists>s. recovers cr BLOCK_SIZE uuid c s st \<and> written_as b s \<and> closed_at cr uuid st s)"

definition committed :: "fs_crypto \<Rightarrow> nat \<Rightarrow> bytes \<Rightarrow> storage \<Rightarrow> 256 word \<Rightarrow> bytes \<Rightarrow> bool" where
  "committed cr n uuid st h b \<longleftrightarrow> (\<exists>c. kept cr n uuid st c b \<and> h = ni_hash (image_of c 1) \<and> hash_finds (Some h) c st)"

definition still :: "storage \<Rightarrow> world" where
  "still st = \<lparr>w_stor = st, w_replies = [], w_randoms = []\<rparr>"

definition held :: "fs_crypto \<Rightarrow> bytes \<Rightarrow> storage \<Rightarrow> ree_fd option \<Rightarrow> bytes \<Rightarrow> bool" where
  "held cr uuid st fdp b \<longleftrightarrow> (\<exists>s. fd_is cr uuid {s} (fdp, still st) b)"

lemma still_simps [simp]: "w_stor (still st) = st" "calm (still st)" "honest (still st)"
  by (simp_all add: still_def calm_def honest_def)

lemma calm_honest: "calm w \<Longrightarrow> honest w"
  by (simp add: calm_def honest_def)

lemma kept_mono: "kept cr n uuid st c b \<Longrightarrow> n \<le> m \<Longrightarrow> kept cr m uuid st c b"
  by (auto simp: kept_def)

lemma committed_mono: "committed cr n uuid st h b \<Longrightarrow> n \<le> m \<Longrightarrow> committed cr m uuid st h b"
  using kept_mono unfolding committed_def by blast

lemma hash_finds_cong: "st_node st' = st_node st \<Longrightarrow> hash_finds hash c st' = hash_finds hash c st"
  unfolding hash_finds_def by (cases hash) simp_all

lemma fd_isI:
  "honest w \<Longrightarrow> fd_ht fd = Some ht \<Longrightarrow> htree_life cr BLOCK_SIZE uuid (Some ht) w R cur \<Longrightarrow> written_as b cur \<Longrightarrow>
   fd_is cr uuid R (Some fd, w) b"
  unfolding fd_is_def fst_conv snd_conv by blast

text \<open>An open file is what \<open>fd_is\<close> says, in any world that has the same storage.\<close>

lemma fd_is_answered:
  assumes "fd_is cr uuid R (fdp, w) b" and "w_stor w' = w_stor w" and "honest w'"
  shows "fd_is cr uuid R (fdp, w') b"
proof -
  obtain fd ht cur where "fdp = Some fd" "fd_ht fd = Some ht" "htree_life cr BLOCK_SIZE uuid (Some ht) w R cur" "written_as b cur"
    using assms(1) by (auto simp: fd_is_def)
  moreover from answered [OF this(3) assms(2)] have "htree_life cr BLOCK_SIZE uuid (Some ht) w' R cur" .
  ultimately show ?thesis using assms(3) unfolding fd_is_def fst_conv snd_conv by blast
qed

lemma held_fd: "held cr uuid (w_stor w) fdp b \<Longrightarrow> calm w \<Longrightarrow> \<exists>s. fd_is cr uuid {s} (fdp, w) b"
  unfolding held_def using fd_is_answered [of cr uuid _ fdp "still (w_stor w)" b w] calm_honest by fastforce

lemma fd_held: "fd_is cr uuid {s} (fdp, w) b \<Longrightarrow> held cr uuid (w_stor w) fdp b"
  unfolding held_def using fd_is_answered [of cr uuid "{s}" fdp w b "still (w_stor w)"] by fastforce

text \<open>The handle in memory does not matter.\<close>

lemma fd_is_dfh: "fd_is cr uuid R (Some fd, w) b \<Longrightarrow> fd_is cr uuid R (Some (fd\<lparr>fd_dfh := dfh\<rparr>), w) b"
  unfolding fd_is_def by fastforce

lemma held_dfh: "held cr uuid st (Some fd) b \<Longrightarrow> held cr uuid st (Some (fd\<lparr>fd_dfh := dfh\<rparr>)) b"
  unfolding held_def using fd_is_dfh by blast

section \<open>Reading and writing\<close>

lemma on_fd_keeps_dfh:
  assumes "on_fd m (Some fd, w) = (r, (fdp, w'))"
  shows "\<exists>h. fdp = Some (fd\<lparr>fd_ht := h\<rparr>)"
  using assms by (auto simp: on_fd_def split: prod.splits)

lemma on_fd_careful:
  assumes "careful (on_hon hon) m" and "hon w" and "on_fd m (Some fd, w) = (r, (fdp, w'))"
  shows "hon w'"
proof -
  obtain r1 h w1 where m: "m (fd_ht fd, w) = (r1, (h, w1))" by (metis prod.exhaust)
  from carefulD [OF assms(1) _ m] have "hon w1" using assms(2) by simp
  then show ?thesis using assms(3) m by (auto simp: on_fd_def)
qed

lemma read_held:
  assumes cr: "crypto_ok cr" and held: "held cr uuid (w_stor w) (Some fd) b" and calm: "calm w"
    and len: "unat pos + unat len < 2 ^ 64"
  shows "\<exists>h w'. on_fd (ree_fs_read_primitive cr pos len) (Some fd, w)
      = (Ok (bytes_read (unat pos) (unat len) b), (Some (fd\<lparr>fd_ht := h\<rparr>), w')) \<and> calm w' \<and> w_stor w' = w_stor w
      \<and> held cr uuid (w_stor w') (Some (fd\<lparr>fd_ht := h\<rparr>)) b"
proof -
  obtain s where fd: "fd_is cr uuid {s} (Some fd, w) b" using held_fd [OF held calm] by blast
  obtain r fdp w' where run: "on_fd (ree_fs_read_primitive cr pos len) (Some fd, w) = (r, (fdp, w'))" by (metis prod.exhaust)
  from read_fd [OF cr fd len run] calm
  have r: "r = Ok (bytes_read (unat pos) (unat len) b)" "fd_is cr uuid {s} (fdp, w') b" "calm w'" by (auto simp: trouble_def)
  have "honest_stor (w_stor w) w" using calm by (simp add: honest_stor_def calm_honest)
  from on_fd_careful [OF reading.careful_read_primitive this run] have "w_stor w' = w_stor w" by (simp add: honest_stor_def)
  then show ?thesis using on_fd_keeps_dfh [OF run] run r fd_held [OF r(2)] by auto
qed

text \<open>A write leaves headers and nodes alone, so what was committed stays.\<close>

lemma kept_stays:
  assumes cr: "crypto_ok cr" and kept: "kept cr n uuid (w_stor w) c b0"
    and fd: "fd_is cr uuid {s} (fdp, w) b" and fd': "fd_is cr uuid {s} (fdp', w') b'"
    and same: "st_head (w_stor w') = st_head (w_stor w)" "st_node (w_stor w') = st_node (w_stor w)"
      "st_there (w_stor w') = st_there (w_stor w)"
  shows "kept cr n uuid (w_stor w') c b0 \<and> recovers cr BLOCK_SIZE uuid c s (w_stor w')"
proof -
  obtain s0 where c: "recovers cr BLOCK_SIZE uuid c s0 (w_stor w)" "written_as b0 s0" "st_there (w_stor w)"
    "unat (im_counter (ht_head c)) \<le> n"
    using kept by (auto simp: kept_def)
  obtain ht cur where l: "htree_life cr BLOCK_SIZE uuid (Some ht) w {s} cur" using fd by (auto simp: fd_is_def)
  obtain ht' cur' where l': "htree_life cr BLOCK_SIZE uuid (Some ht') w' {s} cur'" using fd' by (auto simp: fd_is_def)
  from recovers_stays [OF cr c(1) l l' same(1,2)] have r: "recovers cr BLOCK_SIZE uuid c s (w_stor w')" "s0 = s" by simp_all
  have "closed_at cr uuid (w_stor w') s"
    using interrupted [OF l'] unfolding closed_at_def tee_fs_htree_close_def by blast
  then show ?thesis using c(2-4) r same(3) unfolding kept_def by metis
qed

lemma write_held:
  assumes cr: "crypto_ok cr" and kept: "kept cr n uuid (w_stor w) c b0" and fd: "fd_is cr uuid {s} (Some fd, w) b"
    and calm: "calm w" and buf: "length x = unat len" and len: "unat pos + unat len < 2 ^ 31"
  shows "\<exists>h w'. on_fd (ree_fs_write_primitive cr pos x len) (Some fd, w) = (Ok (), (Some (fd\<lparr>fd_ht := h\<rparr>), w')) \<and> calm w'
      \<and> kept cr n uuid (w_stor w') c b0 \<and> fd_is cr uuid {s} (Some (fd\<lparr>fd_ht := h\<rparr>), w') (bytes_write (unat pos) x b)
      \<and> st_node (w_stor w') = st_node (w_stor w)"
proof -
  obtain r fdp w' where run: "on_fd (ree_fs_write_primitive cr pos x len) (Some fd, w) = (r, (fdp, w'))" by (metis prod.exhaust)
  from write_fd [OF cr fd buf len run] calm
  have r: "r = Ok ()" "fd_is cr uuid {s} (fdp, w') (bytes_write (unat pos) x b)" "calm w'" by (auto simp: trouble_def)
  have "honest_at (st_head (w_stor w)) (st_node (w_stor w)) (st_there (w_stor w)) w"
    using calm by (simp add: honest_at_def calm_honest)
  from on_fd_careful [OF steady.careful_write_primitive this run]
  have same: "st_head (w_stor w') = st_head (w_stor w)" "st_node (w_stor w') = st_node (w_stor w)"
    "st_there (w_stor w') = st_there (w_stor w)" by (simp_all add: honest_at_def)
  from kept_stays [OF cr kept fd r(2) same] show ?thesis using on_fd_keeps_dfh [OF run] run r same(2) by auto
qed

section \<open>Commits of open files\<close>

lemma life_closed: "htree_life cr BLOCK_SIZE uuid h w {s} cur \<Longrightarrow> closed_at cr uuid (w_stor w) s"
  unfolding closed_at_def using interrupted [of cr BLOCK_SIZE uuid h w "{s}" cur] unfolding tee_fs_htree_close_def by blast

definition recommitted :: "htree \<Rightarrow> htree \<Rightarrow> storage \<Rightarrow> bool" where
  "recommitted c c' st \<longleftrightarrow> im_counter (ht_head c') = im_counter (ht_head c) + 1
     \<and> st_node st 0 (counter_slot c) = Some (image_of c 1)"

lemma kept_tree:
  assumes cr: "crypto_ok cr" and kept: "kept cr n uuid (w_stor w) c b0" and fd: "fd_is cr uuid {s} (Some fd, w) b"
  obtains ht cur where "fd_ht fd = Some ht" "htree_life cr BLOCK_SIZE uuid (Some ht) w {s} cur" "written_as b cur"
    "recovers cr BLOCK_SIZE uuid c s (w_stor w)" "written_as b0 s"
proof -
  obtain s0 where c: "recovers cr BLOCK_SIZE uuid c s0 (w_stor w)" "written_as b0 s0" using kept by (auto simp: kept_def)
  obtain ht cur where l: "fd_ht fd = Some ht" "htree_life cr BLOCK_SIZE uuid (Some ht) w {s} cur" "written_as b cur"
    using fd by (auto simp: fd_is_def)
  obtain c1 where c1: "recovers cr BLOCK_SIZE uuid c1 s (w_stor w)" using life_recovers [OF l(2) cr] by blast
  have "c1 = c" by (rule same_tree [OF c(1) c1]) simp_all
  then have "s0 = s" using recovers_snapshot [OF c(1)] recovers_snapshot [OF c1] by simp
  then show thesis using that l c by blast
qed

lemma sync_held:
  assumes cr: "crypto_ok cr" and kept: "kept cr n uuid (w_stor w) c b0" and fd: "fd_is cr uuid {s} (Some fd, w) b"
    and calm: "calm w" and n: "n < 2 ^ 32 - 1"
  shows "\<exists>h d w' c'. commit_writes_primitive cr hash (Some fd, w)
      = (Ok (if hash = None then None else Some d), (Some \<lparr>fd_ht = h, fd_dfh = (fd_dfh fd)\<lparr>fh_hash := d\<rparr>\<rparr>, w'))
    \<and> calm w' \<and> kept cr (Suc n) uuid (w_stor w') c' b
    \<and> held cr uuid (w_stor w') (Some \<lparr>fd_ht = h, fd_dfh = (fd_dfh fd)\<lparr>fh_hash := d\<rparr>\<rparr>) b
    \<and> (b0 = b \<and> c' = c \<and> w_stor w' = w_stor w \<and> d = fh_hash (fd_dfh fd)
      \<or> d = ni_hash (image_of c' 1) \<and> recommitted c c' (w_stor w'))"
proof -
  obtain ht cur where t: "fd_ht fd = Some ht" "htree_life cr BLOCK_SIZE uuid (Some ht) w {s} cur" "written_as b cur"
    "recovers cr BLOCK_SIZE uuid c s (w_stor w)" "written_as b0 s" by (rule kept_tree [OF cr kept fd])
  have cnt: "unat (im_counter (ht_head c)) \<le> n" "st_there (w_stor w)" using kept by (simp_all add: kept_def)
  have "unat (im_counter (ht_head c)) < 2 ^ 32 - 1" using cnt(1) n by linarith
  from sync_tree [OF cr t(4,2) this calm]
  obtain x d c' w' where sync: "tee_fs_htree_sync_to_storage cr (Some ht) w = (Ok (x, d), Some c', w')" "calm w'"
    "htree_life cr BLOCK_SIZE uuid (Some c') w' {cur} cur" "recovers cr BLOCK_SIZE uuid c' cur (w_stor w')"
    and how: "d = None \<and> c' = c \<and> w' = w \<and> cur = s
      \<or> d = Some (ni_hash (image_of c' 1)) \<and> im_counter (ht_head c') = im_counter (ht_head c) + 1
        \<and> st_node (w_stor w') 0 (counter_slot c) = Some (image_of c 1)" by blast
  let ?d = "case d of None \<Rightarrow> fh_hash (fd_dfh fd) | Some d1 \<Rightarrow> d1"
  let ?fd = "\<lparr>fd_ht = Some c', fd_dfh = (fd_dfh fd)\<lparr>fh_hash := ?d\<rparr>\<rparr>"
  have run: "commit_writes_primitive cr hash (Some fd, w) = (Ok (if hash = None then None else Some ?d), (Some ?fd, w'))"
    using sync(1) t(1) by (simp add: commit_writes_primitive_def ree_dirf_commit_writes_def with_ht_def)
  have "honest_there True w" using calm_honest [OF calm] cnt(2) by (simp add: honest_there_def)
  from there.careful_sync [OF this sync(1)] have there: "st_there (w_stor w')" by (simp add: honest_there_def)
  have "unat (im_counter (ht_head c')) \<le> Suc n" using how
  proof
    assume "d = Some (ni_hash (image_of c' 1)) \<and> im_counter (ht_head c') = im_counter (ht_head c) + 1
        \<and> st_node (w_stor w') 0 (counter_slot c) = Some (image_of c 1)"
    then show ?thesis using cnt(1) by (simp add: unat_word_ariths)
  qed (use cnt(1) in simp)
  then have "kept cr (Suc n) uuid (w_stor w') c' b"
    using there sync(4) t(3) life_closed [OF sync(3)] unfolding kept_def by blast
  moreover have "fd_is cr uuid {cur} (Some ?fd, w') b"
    by (rule fd_isI [OF calm_honest [OF sync(2)] _ sync(3) t(3)]) simp
  then have "held cr uuid (w_stor w') (Some ?fd) b" by (rule fd_held)
  moreover have "b0 = b \<and> c' = c \<and> w_stor w' = w_stor w \<and> ?d = fh_hash (fd_dfh fd)
      \<or> ?d = ni_hash (image_of c' 1) \<and> recommitted c c' (w_stor w')"
    using how t(3,5) by (auto simp: recommitted_def written_as_def)
  ultimately show ?thesis using run sync(2) by blast
qed

text \<open>The new digest finds the new tree, unless it is that of the tree before.\<close>

lemma recommitted_committed:
  assumes kept: "kept cr n uuid st c' b" and re: "recommitted c c' st"
    and d: "d = ni_hash (image_of c' 1)" "counter_slot c = 0 \<Longrightarrow> d \<noteq> ni_hash (image_of c 1)"
  shows "committed cr n uuid st d b"
proof -
  have "counter_slot c = 0" if "counter_slot c' = 1"
  proof -
    have "even (unat (im_counter (ht_head c)))" if odd: "odd (unat (im_counter (ht_head c) + 1))"
      using odd by (simp add: unat_word_ariths dvd_mod_iff)
    then show ?thesis using that re by (simp add: counter_slot_def recommitted_def odd_iff_mod_2_eq_one even_iff_mod_2_eq_zero)
  qed
  then have "hash_finds (Some d) c' st" using re d by (auto simp: hash_finds_def recommitted_def)
  then show ?thesis using kept d(1) unfolding committed_def by blast
qed

section \<open>Opening, closing, creating and removing\<close>

lemma open_tree_finds:
  assumes c: "recovers cr BLOCK_SIZE uuid c s (w_stor w)" and find: "hash_finds hash c (w_stor w)" and calm: "calm w"
  shows "tee_fs_htree_open cr False hash uuid w = (Ok (c, hash), Some c, w)"
proof -
  have v: "settled c" "head_ok cr c" "ht_uuid c = uuid" "\<forall>n. 1 \<le> n \<and> n \<le> nodes_count c \<longrightarrow> digest_ok cr c n"
    using c by (auto simp: recovers_def tree_valid_def)
  have "load_htree cr uuid hash w = (Ok c, w)"
    using load_stored [OF v(1,2), of "raw_blocks c (w_stor w)" w hash] recovers_raw [OF c] v(3,4) find calm by simp
  then show ?thesis by (simp add: tee_fs_htree_open_def closing_def io_bind_def io_ret_def)
qed

lemma open_kept:
  assumes cr: "crypto_ok cr" and kept: "kept cr n uuid (w_stor w) c b" and find: "hash_finds hash c (w_stor w)" and calm: "calm w"
  shows "ree_fs_open_primitive cr False hash uuid dfh (None, w)
      = (Ok (), (Some \<lparr>fd_ht = Some c, fd_dfh = dfh_of dfh hash\<rparr>, w))"
    and "held cr uuid (w_stor w) (Some \<lparr>fd_ht = Some c, fd_dfh = d\<rparr>) b"
proof -
  obtain s where s: "recovers cr BLOCK_SIZE uuid c s (w_stor w)" "written_as b s" "closed_at cr uuid (w_stor w) s" "st_there (w_stor w)"
    using kept by (auto simp: kept_def)
  show "ree_fs_open_primitive cr False hash uuid dfh (None, w)
      = (Ok (), (Some \<lparr>fd_ht = Some c, fd_dfh = dfh_of dfh hash\<rparr>, w))"
    using open_tree_finds [OF s(1) find calm] calm s(4)
    by (simp add: ree_fs_open_primitive_def rpc_open_dfh_def io_try_def on_world_def open_tree_def io_bind_def)
  obtain w0 cur where w0: "w_stor w0 = w_stor w" "htree_life cr BLOCK_SIZE uuid None w0 {s} cur"
    using s(3) unfolding closed_at_def by blast
  have life0: "htree_life cr BLOCK_SIZE uuid None w {s} cur" by (rule answered [OF w0(2)]) (simp add: w0(1))
  have "hash_finds None c (w_stor w)" by (simp add: hash_finds_def)
  from opened [OF life0 open_tree_finds [OF s(1) this calm] refl]
  have "htree_life cr BLOCK_SIZE uuid (Some c) w {s} s" using recovers_snapshot [OF s(1)] by simp
  then have "fd_is cr uuid {s} (Some \<lparr>fd_ht = Some c, fd_dfh = d\<rparr>, w) b"
    using fd_isI [OF calm_honest [OF calm] _ _ s(2)] by simp
  then show "held cr uuid (w_stor w) (Some \<lparr>fd_ht = Some c, fd_dfh = d\<rparr>) b" by (rule fd_held)
qed

lemma close_calm [simp]: "calm w \<Longrightarrow> ree_fs_close_primitive (fdp, w) = (Ok (), (None, w))"
  by (cases fdp) (simp_all add: ree_fs_close_primitive_def ignoring_def io_try_def on_world_def io_ret_def)

lemma remove_calm [simp]:
  "calm w \<Longrightarrow> tee_fs_rpc_remove_dfh (fdp, w) = (Ok (), (fdp, w\<lparr>w_stor := drop_storage (w_stor w)\<rparr>))"
  by (simp add: tee_fs_rpc_remove_dfh_def io_try_def on_world_def)

text \<open>A created file is empty, and what it held before is gone.\<close>

lemma create_kept:
  assumes cr: "crypto_ok cr" and calm: "calm w"
  shows "\<exists>c h w'. ree_fs_open_primitive cr True hash uuid dfh (None, w)
      = (Ok (), (Some \<lparr>fd_ht = Some c, fd_dfh = dfh_of dfh h\<rparr>, w')) \<and> calm w'
    \<and> kept cr 1 uuid (w_stor w') c [] \<and> held cr uuid (w_stor w') (Some \<lparr>fd_ht = Some c, fd_dfh = dfh_of dfh h\<rparr>) []
    \<and> counter_slot c = 1"
proof -
  let ?w = "w\<lparr>w_stor := (w_stor w)\<lparr>st_there := True\<rparr>\<rparr>"
  have calm1: "calm ?w" using calm by simp
  obtain c d w' where c: "tee_fs_htree_open cr True hash uuid ?w = (Ok (c, d), Some c, w')" "calm w'"
    using create_calm [OF cr calm1] by blast
  define s where "s = snapshot_of cr BLOCK_SIZE c (w_stor w')"
  have life: "htree_life cr BLOCK_SIZE uuid (Some c) w' {s} s" by (rule created [OF c(1) s_def])
  have rec: "recovers cr BLOCK_SIZE uuid c s (w_stor w')" "im_counter (ht_head c) = 1"
    using inv_created [OF cr c(1), of BLOCK_SIZE] by (simp_all add: s_def)
  have "meta_length (ht_imeta c) = 0"
    using gives_create [of cr uuid] c(1)
    by (auto simp: gives_def tee_fs_htree_open_def closing_def io_bind_Ok io_ret_def split: prod.splits io.splits)
  then have "fst s = 0" by (simp add: s_def snapshot_of_def)
  then have bytes: "written_as [] s" by (simp add: written_as_def file_ok_def block_count_def blocks_ok_def block_size file_bytes_def)
  have "careful (honest_there True) (io_bind (create_htree cr uuid) (\<lambda>(ht, h). io_ret (ht, Some h)))"
    using there.careful_create by (auto split: prod.splits)
  moreover have "honest_there True ?w" using calm_honest [OF calm1] by (simp add: honest_there_def)
  moreover have "closing (io_bind (create_htree cr uuid) (\<lambda>(ht, h). io_ret (ht, Some h))) fst ?w = (Ok (c, d), Some c, w')"
    using c(1) by (simp add: tee_fs_htree_open_def)
  ultimately have "honest_there True w'" using there.careful_closing by blast
  then have "kept cr 1 uuid (w_stor w') c []"
    using rec bytes life_closed [OF life] unfolding kept_def honest_there_def by (metis order_refl unat_1)
  moreover have "fd_is cr uuid {s} (Some \<lparr>fd_ht = Some c, fd_dfh = dfh_of dfh d\<rparr>, w') []"
    by (rule fd_isI [OF calm_honest [OF c(2)] _ life bytes]) simp
  then have "held cr uuid (w_stor w') (Some \<lparr>fd_ht = Some c, fd_dfh = dfh_of dfh d\<rparr>) []" by (rule fd_held)
  moreover have "ree_fs_open_primitive cr True hash uuid dfh (None, w)
      = (Ok (), (Some \<lparr>fd_ht = Some c, fd_dfh = dfh_of dfh d\<rparr>, w'))"
    using calm c(1) by (simp add: ree_fs_open_primitive_def rpc_open_dfh_def io_try_def on_world_def open_tree_def)
  moreover have "counter_slot c = 1" using rec(2) by (simp add: counter_slot_def)
  ultimately show ?thesis using c(2) by blast
qed

end
