(* ===== verification/FsObjDir.thy ===== *)
theory FsObjDir
  imports FsObjFile
begin

text \<open>
  The directory of the secure storage that is open in \<open>ree_fs_dirh\<close>, as long as normal world does what it is asked:
  every operation on it has the result and the effect on the entries that \<open>FsDir\<close> says, and leaves the files
  of the objects alone.
\<close>

section \<open>The directory file among the other files\<close>

definition base_of :: "nw_fs \<Rightarrow> (nat \<Rightarrow> htree_image option) \<times> (nat \<Rightarrow> nat \<Rightarrow> node_image option) \<times> bool \<times> (32 word \<Rightarrow> storage)" where
  "base_of n = (st_head (nw_files n None), st_node (nw_files n None), st_there (nw_files n None), \<lambda>i. nw_files n (Some i))"

definition nw_dir :: "fs_crypto \<Rightarrow> snapshot set \<Rightarrow> (nat \<Rightarrow> htree_image option) \<times> (nat \<Rightarrow> nat \<Rightarrow> node_image option) \<times> bool
    \<times> (32 word \<Rightarrow> storage) \<Rightarrow> fd_nw \<Rightarrow> bytes \<Rightarrow> bool" where
  "nw_dir cr R base s f \<longleftrightarrow> fd_is cr [] R (fst s, file_world None (snd s)) f \<and> base_of (snd s) = base"

abbreviation nw_fine :: "fd_nw \<Rightarrow> bool" where
  "nw_fine s \<equiv> nw_replies (snd s) = []"

lemma file_world_simps [simp]:
  "file_world name (put_world name w n) = w" "w_stor (file_world name n) = nw_files n name"
  "calm (file_world name n) \<longleftrightarrow> nw_replies n = []" "nw_replies (put_world name w n) = w_replies w"
  "nw_files (put_world name w n) = (nw_files n)(name := w_stor w)"
  by (simp_all add: file_world_def put_world_def calm_def)

lemma base_of_put: "base_of (put_world None w n) = (st_head (w_stor w), st_node (w_stor w), st_there (w_stor w), \<lambda>i. nw_files n (Some i))"
  by (simp add: base_of_def)

text \<open>An operation of the file that leaves headers and nodes alone.\<close>

lemma at_dir_law:
  assumes law: "\<And>r s'. m (fst s, file_world None (snd s)) = (r, s') \<Longrightarrow>
      trouble (fd_sick cr [] R) fd_fine (fst s, file_world None (snd s)) r s' \<or> r = Ok y \<and> fd_is cr [] R s' f'
        \<and> (fd_fine (fst s, file_world None (snd s)) \<longrightarrow> fd_fine s')"
    and steady: "\<And>r fdp w hds nds t. m (fst s, file_world None (snd s)) = (r, (fdp, w)) \<Longrightarrow>
      honest_at hds nds t (file_world None (snd s)) \<Longrightarrow> honest_at hds nds t w"
    and dir: "nw_dir cr R base s f" and run: "at_file None m s = (r, s')"
  shows "trouble (\<lambda>_. True) nw_fine s r s' \<or> r = Ok y \<and> nw_dir cr R base s' f' \<and> (nw_fine s \<longrightarrow> nw_fine s')"
proof -
  obtain fdp n where s: "s = (fdp, n)" by (metis prod.exhaust)
  obtain fdp1 w where m: "m (fdp, file_world None n) = (r, (fdp1, w))" "s' = (fdp1, put_world None w n)"
    using run by (auto simp: s at_file_def split: prod.splits)
  have fd: "fd_is cr [] R (fdp, file_world None n) f" "base_of n = base" using dir by (simp_all add: nw_dir_def s)
  have "honest (file_world None n)" using fd(1) by (simp add: fd_is_def)
  then have "honest_at (st_head (nw_files n None)) (st_node (nw_files n None)) (st_there (nw_files n None)) w"
    using steady [of r fdp1 w "st_head (nw_files n None)" "st_node (nw_files n None)" "st_there (nw_files n None)"] m(1)
    by (simp add: s honest_at_def)
  then have "base_of (snd s') = base"
    using fd(2) by (simp add: m(2) base_of_def honest_at_def)
  moreover have "nw_fine s' \<longleftrightarrow> calm w" "nw_fine s \<longleftrightarrow> calm (file_world None n)" by (simp_all add: m(2) s calm_def [of w])
  ultimately show ?thesis
    using law [of r "(fdp1, w)"] m by (auto simp: s nw_dir_def trouble_def)
qed

locale nw_directory =
  fixes cr :: fs_crypto and R :: "snapshot set"
    and base :: "(nat \<Rightarrow> htree_image option) \<times> (nat \<Rightarrow> nat \<Rightarrow> node_image option) \<times> bool \<times> (32 word \<Rightarrow> storage)"
  assumes crypto: "crypto_ok cr"

sublocale nw_directory \<subseteq> byte_store "dirf_fops cr" "nw_dir cr R base" "\<lambda>_. True" nw_fine
proof unfold_locales
  have steady: "honest_at hds nds t w'"
    if c: "careful (on_hon (honest_at hds nds t)) m" and ne: "fst s \<noteq> None"
      and run: "on_fd m (fst s, file_world None (snd s)) = (r, (fdp, w'))" and h: "honest_at hds nds t (file_world None (snd s))"
    for hds nds t r fdp w' and s :: fd_nw and m :: "(ree_file, 'x) sm"
  proof -
    obtain fd where "fst s = Some fd" using ne by blast
    then show ?thesis using on_fd_careful [OF c h] run by simp
  qed
  have some: "fst s \<noteq> None" if "nw_dir cr R base s f" for s f using that by (auto simp: nw_dir_def fd_is_def)
  fix s f r s' pos len b u
  assume dir: "nw_dir cr R base s f"
  then have fd: "fd_is cr [] R (fst s, file_world None (snd s)) f" by (simp add: nw_dir_def)
  show "trouble (\<lambda>_. True) nw_fine s r s'
      \<or> r = Ok (bytes_read (unat pos) (unat len) f) \<and> nw_dir cr R base s' f \<and> (nw_fine s \<longrightarrow> nw_fine s')"
    if len: "unat pos + unat len < 2 ^ 64" and run: "fop_read (dirf_fops cr) pos len s = (r, s')"
  proof (rule at_dir_law [OF read_fd [OF crypto fd len] _ dir])
    show "at_file None (on_fd (ree_fs_read_primitive cr pos len)) s = (r, s')"
      using run by (simp add: dirf_fops_def ree_dirf_ops_def Let_def)
  qed (use steady [OF steady.careful_read_primitive some [OF dir]] in blast)+
  show "trouble (\<lambda>_. True) nw_fine s u s'
      \<or> u = Ok () \<and> nw_dir cr R base s' (bytes_write (unat pos) b f) \<and> (nw_fine s \<longrightarrow> nw_fine s')"
    if len: "length b = unat len" "unat pos + unat len < 2 ^ 31" and run: "fop_write (dirf_fops cr) pos b len s = (u, s')"
  proof (rule at_dir_law [OF write_fd [OF crypto fd len] _ dir])
    show "at_file None (on_fd (ree_fs_write_primitive cr pos b len)) s = (u, s')"
      using run by (simp add: dirf_fops_def ree_dirf_ops_def Let_def)
  qed (use steady [OF steady.careful_write_primitive some [OF dir]] in blast)+
  show "trouble (\<lambda>_. True) nw_fine s u s' \<or> u = Ok () \<and> nw_dir cr R base s' f \<and> (nw_fine s \<longrightarrow> nw_fine s')"
    if run: "fop_alloc (dirf_fops cr) s = (u, s')"
  proof (rule at_dir_law [OF alloc_fd [OF fd] _ dir])
    show "at_file None (on_world io_call) s = (u, s')"
      using run by (simp add: dirf_fops_def ree_dirf_ops_def Let_def)
    show "honest_at hds nds t w"
      if "on_world io_call (fst s, file_world None (snd s)) = (r, fdp, w)" "honest_at hds nds t (file_world None (snd s))"
      for r fdp w hds nds t
      using that carefulD [OF steady.careful_call that(2)] by (auto simp: on_world_def split: prod.splits)
  qed
qed

interpretation toy_nw: nw_directory toy_crypto R base for R base
  by unfold_locales (rule toy_crypto_ok)

context nw_directory begin

lemmas nw_find = impl_find and nw_rename_at = impl_rename_at and nw_rename_new = impl_rename_new
  and nw_remove = impl_remove and nw_update_hash = impl_update_hash and nw_get_tmp = impl_get_tmp
  and nw_rebuilds = open_rebuilds

end

section \<open>The open directory\<close>

text \<open>
  \<open>dir_open\<close>: the directory is open with the entries \<open>es\<close>, of which \<open>es0\<close> were committed, in at most \<open>n\<close> commits;
  \<open>dir_closed\<close>: it is closed, or was never made. \<open>alike\<close>: everything else is the same.
\<close>

definition calm_fs :: "ree_fs \<Rightarrow> bool" where
  "calm_fs s \<longleftrightarrow> nw_replies (fs_nw s) = []"

abbreviation fs_file :: "ree_fs \<Rightarrow> 32 word option \<Rightarrow> storage" where
  "fs_file s \<equiv> nw_files (fs_nw s)"

definition dir_open :: "fs_crypto \<Rightarrow> nat \<Rightarrow> ree_fs \<Rightarrow> dirfile_dirh \<Rightarrow> dirfile_entry list \<Rightarrow> dirfile_entry list \<Rightarrow> bool" where
  "dir_open cr n s d es0 es \<longleftrightarrow> calm_fs s \<and> dents_ok es \<and> (\<exists>a fdp c. fs_dirh s = Some (a, d, fdp)
     \<and> kept cr n [] (fs_file s None) c (dir_bytes es0) \<and> held cr [] (fs_file s None) fdp (dir_bytes es))"

definition dir_closed :: "fs_crypto \<Rightarrow> nat \<Rightarrow> ree_fs \<Rightarrow> dirfile_entry list \<Rightarrow> bool" where
  "dir_closed cr n s es \<longleftrightarrow> calm_fs s \<and> fs_dirh s = None
     \<and> (es = [] \<and> \<not> st_there (fs_file s None) \<or> (\<exists>c. kept cr n [] (fs_file s None) c (dir_bytes es)))"

definition alike :: "ree_fs \<Rightarrow> ree_fs \<Rightarrow> bool" where
  "alike s s' \<longleftrightarrow> (\<forall>i. fs_file s' (Some i) = fs_file s (Some i)) \<and> fs_fds s' = fs_fds s
     \<and> fs_dirh_refcount s' = fs_dirh_refcount s"

lemma alike_refl [simp]: "alike s s"
  by (simp add: alike_def)

lemma alike_trans: "alike s s1 \<Longrightarrow> alike s1 s2 \<Longrightarrow> alike s s2"
  by (simp add: alike_def)

lemma is_dir_bytes: "is_dir file_is s es \<longleftrightarrow> dents_ok es \<and> file_is s (dir_bytes es)"
  by (auto simp: is_dir_def dents_ok_def)

lemma dir_openI:
  "calm_fs s \<Longrightarrow> dents_ok es \<Longrightarrow> fs_dirh s = Some (a, d, fdp) \<Longrightarrow> kept cr n [] (fs_file s None) c (dir_bytes es0) \<Longrightarrow>
   held cr [] (fs_file s None) fdp (dir_bytes es) \<Longrightarrow> dir_open cr n s d es0 es"
  unfolding dir_open_def by blast

lemma dir_open_handle: "dir_open cr n s d es0 es \<Longrightarrow> \<exists>a fdp. fs_dirh s = Some (a, d, fdp)"
  by (auto simp: dir_open_def)

text \<open>An operation on the directory does what it does to entries.\<close>

lemma in_dirh_impl:
  assumes cr: "crypto_ok cr" and dir: "dir_open cr n s d es0 es"
    and impl: "\<And>R base. implements (nw_dir cr R base) (\<lambda>_. True) nw_fine m d es r d' es'"
  shows "\<exists>s'. in_dirh m s = (r, s') \<and> dir_open cr n s' d' es0 es' \<and> alike s s'
    \<and> map_option fst (fs_dirh s') = map_option fst (fs_dirh s)"
proof -
  obtain a fdp c where s: "fs_dirh s = Some (a, d, fdp)" "kept cr n [] (fs_file s None) c (dir_bytes es0)"
    "held cr [] (fs_file s None) fdp (dir_bytes es)" "calm_fs s" "dents_ok es"
    using dir unfolding dir_open_def by blast
  have calm: "calm (file_world None (fs_nw s))" using s(4) by (simp add: calm_fs_def)
  obtain s0 where old: "fd_is cr [] {s0} (fdp, file_world None (fs_nw s)) (dir_bytes es)"
    using held_fd [of cr "[]" "file_world None (fs_nw s)" fdp "dir_bytes es"] s(3) calm by auto
  let ?b = "base_of (fs_nw s)"
  have nw: "is_dir (nw_dir cr {s0} ?b) (fdp, fs_nw s) es" using old s(5) by (simp add: is_dir_bytes nw_dir_def)
  obtain r1 d1 fdp1 n1 where m: "m (d, (fdp, fs_nw s)) = (r1, (d1, (fdp1, n1)))" by (metis prod.exhaust)
  from implementsD [OF impl [of "{s0}" ?b] nw m] s(4)
  have o: "r1 = r" "d1 = d'" "is_dir (nw_dir cr {s0} ?b) (fdp1, n1) es'" "nw_replies n1 = []"
    by (auto simp: trouble_def calm_fs_def)
  let ?s = "s\<lparr>fs_nw := n1, fs_dirh := Some (a, d', fdp1)\<rparr>"
  have run: "in_dirh m s = (r, ?s)" using m o(1,2) s(1) by (simp add: in_dirh_def)
  have base: "base_of n1 = ?b" using o(3) by (simp add: is_dir_def nw_dir_def)
  then have files: "nw_files n1 (Some i) = fs_file s (Some i)" for i by (auto simp: base_of_def fun_eq_iff)
  have new: "fd_is cr [] {s0} (fdp1, file_world None n1) (dir_bytes es')" "dents_ok es'"
    using o(3) by (simp_all add: is_dir_bytes nw_dir_def)
  have "kept cr n [] (w_stor (file_world None n1)) c (dir_bytes es0)"
    using kept_stays [OF cr _ old new(1), of n c "dir_bytes es0"] s(2) base by (simp add: base_of_def)
  then have "dir_open cr n ?s d' es0 es'"
    using dir_openI [of ?s es' a d' fdp1 cr n c es0] fd_held [OF new(1)] new(2) o(4) by (simp add: calm_fs_def)
  then show ?thesis using run files s(1) by (auto simp: alike_def)
qed

text \<open>Commits.\<close>

lemma commit_dirh:
  assumes cr: "crypto_ok cr" and dir: "dir_open cr n s d es0 es" and n: "n < 2 ^ 32 - 1"
  shows "\<exists>s'. commit_dirh_writes cr s = (Ok (), s') \<and> dir_open cr (Suc n) s' d es es \<and> alike s s'
    \<and> map_option fst (fs_dirh s') = map_option fst (fs_dirh s)"
proof -
  obtain a fdp c where s: "fs_dirh s = Some (a, d, fdp)" "kept cr n [] (fs_file s None) c (dir_bytes es0)"
    "held cr [] (fs_file s None) fdp (dir_bytes es)" "calm_fs s" "dents_ok es"
    using dir unfolding dir_open_def by blast
  have calm: "calm (file_world None (fs_nw s))" using s(4) by (simp add: calm_fs_def)
  obtain s0 where old: "fd_is cr [] {s0} (fdp, file_world None (fs_nw s)) (dir_bytes es)"
    using held_fd [of cr "[]" "file_world None (fs_nw s)" fdp "dir_bytes es"] s(3) calm by auto
  then obtain f where f: "fdp = Some f" by (auto simp: fd_is_def)
  from sync_held [OF cr _ old [unfolded f] calm n, of c "dir_bytes es0" None] s(2)
  obtain h x w' c' where y: "commit_writes_primitive cr None (Some f, file_world None (fs_nw s))
      = (Ok None, (Some \<lparr>fd_ht = h, fd_dfh = (fd_dfh f)\<lparr>fh_hash := x\<rparr>\<rparr>, w'))"
    "calm w'" "kept cr (Suc n) [] (w_stor w') c' (dir_bytes es)"
    "held cr [] (w_stor w') (Some \<lparr>fd_ht = h, fd_dfh = (fd_dfh f)\<lparr>fh_hash := x\<rparr>\<rparr>) (dir_bytes es)" by auto
  let ?f = "Some \<lparr>fd_ht = h, fd_dfh = (fd_dfh f)\<lparr>fh_hash := x\<rparr>\<rparr>" and ?n = "put_world None w' (fs_nw s)"
  let ?s = "s\<lparr>fs_nw := ?n, fs_dirh := Some (a, d, ?f)\<rparr>"
  have "commit_dirh_writes cr s = (Ok (), ?s)"
    using y(1) s(1) f
    by (simp add: commit_dirh_writes_def in_dirh_def tee_fs_dirfile_commit_writes_def on_file_def dirf_fops_def ree_dirf_ops_def
        Let_def at_file_def io_bind_def io_ret_def)
  moreover have "dir_open cr (Suc n) ?s d es es"
    using dir_openI [of ?s es a d ?f cr "Suc n" c' es] y(2-4) s(5) by (simp add: calm_fs_def calm_def)
  ultimately show ?thesis using s(1) by (auto simp: alike_def)
qed

lemma close_dirh_open:
  assumes "dir_open cr n s d es0 es"
  shows "\<exists>s'. close_dirh cr s = (Ok (), s') \<and> dir_closed cr n s' es0 \<and> alike s s'"
proof -
  obtain a fdp c where s: "fs_dirh s = Some (a, d, fdp)" "kept cr n [] (fs_file s None) c (dir_bytes es0)" "calm_fs s"
    using assms unfolding dir_open_def by blast
  let ?n = "put_world None (file_world None (fs_nw s)) (fs_nw s)"
  have "close_dirh cr s = (Ok (), s\<lparr>fs_nw := ?n, fs_dirh := None\<rparr>)"
    using s(1,3)
    by (simp add: close_dirh_def in_dirh_def tee_fs_dirfile_close_def on_file_def dirf_fops_def ree_dirf_ops_def Let_def
        at_file_def io_bind_def calm_fs_def)
  moreover have "dir_closed cr n (s\<lparr>fs_nw := ?n, fs_dirh := None\<rparr>) es0"
    using s(2,3) by (auto simp: dir_closed_def calm_fs_def file_world_def)
  ultimately show ?thesis by (auto simp: alike_def)
qed

section \<open>Opening the directory\<close>

lemma put_same [simp]: "put_world name (file_world name n) n = n"
  by (simp add: put_world_def file_world_def)

definition dents_in :: "nat \<Rightarrow> dirfile_entry list \<Rightarrow> bool" where
  "dents_in n es \<longleftrightarrow> (\<forall>e \<in> set es. dent_ok e) \<and> dents_distinct es \<and> length es \<le> n
     \<and> (\<forall>e \<in> set es. used_dent e \<longrightarrow> file_no e < n)"

lemma dents_in_ok: "dents_in n es \<Longrightarrow> n < 2 ^ 24 \<Longrightarrow> dents_ok es \<and> numbers_fit es"
  by (fastforce simp: dents_in_def dents_ok_def numbers_fit_def dent_size_def)

lemma dirf_fops_simps:
  "fop_alloc (dirf_fops cr) = at_file None (on_world io_call)"
  "fop_open (dirf_fops cr) create hash = at_file None (ree_fs_open_primitive cr create hash [] None)"
  "fop_close (dirf_fops cr) = at_file None ree_fs_close_primitive"
  by (simp_all add: dirf_fops_def ree_dirf_ops_def Let_def)

lemma nw_alloc: "nw_replies n = [] \<Longrightarrow> fop_alloc (dirf_fops cr) (fdp, n) = (Ok (), (fdp, n))"
  by (simp add: dirf_fops_simps at_file_def on_world_def)

lemma nw_close: "\<exists>s'. fop_close (dirf_fops cr) s = (Ok (), s')"
proof -
  obtain s1 where "ree_fs_close_primitive (fst s, file_world None (snd s)) = (Ok (), s1)" using close_returns by blast
  then show ?thesis by (cases s; cases s1) (auto simp: dirf_fops_simps at_file_def)
qed

text \<open>However the file came to be open, the entries are found.\<close>

lemma open_dirh_file_finds:
  assumes cr: "crypto_ok cr" and n: "n < 2 ^ 24" and es: "dents_in n es" and calm: "calm_fs s"
    and opens: "ree_fs_open_primitive cr create None [] None (None, file_world None (fs_nw s)) = (Ok (), (fdp, w))"
    and w: "calm w" "kept cr n [] (w_stor w) c (dir_bytes es)" "held cr [] (w_stor w) fdp (dir_bytes es)"
  shows "\<exists>s' d. open_dirh_file cr create s = (Ok (), s') \<and> dir_open cr n s' d es es \<and> dir_wf d es \<and> length (dh_files d) \<le> n
    \<and> alike s s'"
proof -
  let ?n = "put_world None w (fs_nw s)" and ?b = "base_of (put_world None w (fs_nw s))"
  obtain s0 where fd: "fd_is cr [] {s0} (fdp, w) (dir_bytes es)" using held_fd [OF w(3,1)] by blast
  have ok: "dents_ok es" "numbers_fit es" "dents_distinct es" "\<forall>e \<in> set es. used_dent e \<longrightarrow> file_no e < n"
    using dents_in_ok [OF es n] es by (simp_all add: dents_in_def)
  have nw: "is_dir (nw_dir cr {s0} ?b) (fdp, ?n) es" using fd ok(1) by (simp add: is_dir_bytes nw_dir_def)
  obtain r fdp1 n1 where x: "tee_fs_dirfile_open (dirf_fops cr) create None (None, fs_nw s) = (r, (fdp1, n1))" by (metis prod.exhaust)
  have alloc: "fop_alloc (dirf_fops cr) (None, fs_nw s) = (Ok (), (None, fs_nw s))" using calm by (simp add: nw_alloc calm_fs_def)
  have op: "fop_open (dirf_fops cr) create None (None, fs_nw s) = (Ok (), (fdp, ?n))"
    using opens by (simp add: dirf_fops_simps at_file_def)
  from nw_directory.nw_rebuilds [OF nw_directory.intro [OF cr] alloc op nw ok(3,2) nw_close x] w(1)
  obtain d where d: "r = Ok d" "dir_wf d es" "is_dir (nw_dir cr {s0} ?b) (fdp1, n1) es" "nw_replies n1 = []"
    "length (dh_files d) \<le> n" using ok(4) by (auto simp: calm_def)
  let ?s = "s\<lparr>fs_nw := n1, fs_dirh := Some (fs_next s, d, fdp1), fs_next := Suc (fs_next s)\<rparr>"
  have run: "open_dirh_file cr create s = (Ok (), ?s)" using x d(1) by (simp add: open_dirh_file_def)
  have new: "fd_is cr [] {s0} (fdp1, file_world None n1) (dir_bytes es)" and base: "base_of n1 = ?b"
    using d(3) by (simp_all add: is_dir_bytes nw_dir_def)
  have "kept cr n [] (w_stor (file_world None n1)) c (dir_bytes es)"
    using kept_stays [OF cr _ fd new, of n c "dir_bytes es"] w(2) base by (simp add: base_of_def)
  then have "dir_open cr n ?s d es es"
    using dir_openI [of ?s es "fs_next s" d fdp1 cr n c es] fd_held [OF new] ok(1) d(4) by (simp add: calm_fs_def)
  moreover have "nw_files n1 (Some i) = fs_file s (Some i)" for i using base by (auto simp: base_of_def fun_eq_iff)
  ultimately show ?thesis using run d(2,5) by (auto simp: alike_def)
qed

lemma open_missing:
  assumes calm: "calm_fs s" and none: "\<not> st_there (fs_file s None)"
  shows "open_dirh_file cr False s = (Fail TEE_ERROR_ITEM_NOT_FOUND, s)"
proof -
  have c: "calm (file_world None (fs_nw s))" using calm by (simp add: calm_fs_def)
  have "ree_fs_open_primitive cr False None [] None (None, file_world None (fs_nw s))
      = (Fail TEE_ERROR_ITEM_NOT_FOUND, (None, file_world None (fs_nw s)))"
    using c none
    by (simp add: ree_fs_open_primitive_def rpc_open_dfh_def io_try_def on_world_def io_bind_def io_ret_def io_fail_def)
  then have "fop_open (dirf_fops cr) False None (None, fs_nw s) = (Fail TEE_ERROR_ITEM_NOT_FOUND, (None, fs_nw s))"
    by (simp add: dirf_fops_simps at_file_def)
  moreover have "fop_close (dirf_fops cr) (None, fs_nw s) = (Ok (), (None, fs_nw s))"
    by (simp add: dirf_fops_simps at_file_def ree_fs_close_primitive_def)
  moreover have "fop_alloc (dirf_fops cr) (None, fs_nw s) = (Ok (), (None, fs_nw s))" using calm by (simp add: nw_alloc calm_fs_def)
  ultimately show ?thesis
    by (simp add: open_dirh_file_def tee_fs_dirfile_open_def io_try_def io_bind_def on_file_def tee_fs_dirfile_close_def
        io_fail_def)
qed

lemma open_dirh_closed:
  assumes cr: "crypto_ok cr" and n: "0 < n" "n < 2 ^ 24" and es: "dents_in n es" and dir: "dir_closed cr n s es"
  shows "\<exists>s' d. open_dirh cr s = (Ok (), s') \<and> dir_open cr n s' d es es \<and> dir_wf d es \<and> length (dh_files d) \<le> n \<and> alike s s'"
proof (cases "\<exists>c. kept cr n [] (fs_file s None) c (dir_bytes es)")
  case True
  then obtain c where c: "kept cr n [] (fs_file s None) c (dir_bytes es)" by blast
  have calm: "calm_fs s" "calm (file_world None (fs_nw s))" using dir by (simp_all add: dir_closed_def calm_fs_def)
  have k: "kept cr n [] (w_stor (file_world None (fs_nw s))) c (dir_bytes es)" using c by simp
  have f: "hash_finds None c (w_stor (file_world None (fs_nw s)))" by (simp add: hash_finds_def)
  from open_dirh_file_finds [OF cr n(2) es calm(1) open_kept(1) [OF cr k f calm(2)] calm(2) k open_kept(2) [OF cr k f calm(2)]]
  show ?thesis by (auto simp: open_dirh_def io_try_def io_ret_def)
next
  case False
  then have new: "es = []" "\<not> st_there (fs_file s None)" and calm: "calm_fs s" "calm (file_world None (fs_nw s))"
    using dir by (auto simp: dir_closed_def calm_fs_def)
  obtain c h w where c: "ree_fs_open_primitive cr True None [] None (None, file_world None (fs_nw s))
      = (Ok (), (Some \<lparr>fd_ht = Some c, fd_dfh = dfh_of None h\<rparr>, w))" "calm w"
    "kept cr 1 [] (w_stor w) c []" "held cr [] (w_stor w) (Some \<lparr>fd_ht = Some c, fd_dfh = dfh_of None h\<rparr>) []"
    using create_kept [OF cr calm(2)] by metis
  have "kept cr n [] (w_stor w) c (dir_bytes [])" using kept_mono [OF c(3)] n(1) by simp
  moreover have "held cr [] (w_stor w) (Some \<lparr>fd_ht = Some c, fd_dfh = dfh_of None h\<rparr>) (dir_bytes [])" using c(4) by simp
  moreover have "dents_in n []" by (simp add: dents_in_def dents_distinct_def)
  ultimately show ?thesis
    using open_dirh_file_finds [OF cr n(2) _ calm(1) c(1,2), of "[]"] open_missing [OF calm(1) new(2)] new(1)
    by (auto simp: open_dirh_def io_try_def io_ret_def)
qed

end
