(* ===== verification/FsObjMap.thy ===== *)
theory FsObjMap
  imports FsObjDir
begin

text \<open>
  Secure storage as its callers see it: a map from objects, named by the identifier of the application and their own,
  to bytes, and handles on objects that are open. As long as normal world does what it is asked,
  the operations of \<open>FsObj\<close> are the operations on that map; what happens when it does not is said of
  each file in \<open>FsRee\<close> and of the directory in \<open>FsDirMap\<close>.
\<close>

section \<open>Objects\<close>

text \<open>A handle is closed, open on an object, or left over from an object that was removed or replaced.\<close>

type_synonym obj_key = "bytes \<times> bytes"

record objects =
  ob_map :: "obj_key \<Rightarrow> bytes option"
  ob_open :: "nat \<Rightarrow> obj_key option option"

definition entry_for :: "fs_crypto \<Rightarrow> nat \<Rightarrow> (32 word option \<Rightarrow> storage) \<Rightarrow> (obj_key \<Rightarrow> bytes option) \<Rightarrow> dirfile_entry \<Rightarrow> bool" where
  "entry_for cr n F M e \<longleftrightarrow> (\<exists>b. M (dent_key e) = Some b
     \<and> committed cr n (fst (dent_key e)) (F (Some (de_file_number e))) (de_hash e) b)"

definition entries_ok ::
    "fs_crypto \<Rightarrow> nat \<Rightarrow> (32 word option \<Rightarrow> storage) \<Rightarrow> dirfile_entry list \<Rightarrow> (obj_key \<Rightarrow> bytes option) \<Rightarrow> bool" where
  "entries_ok cr n F es M \<longleftrightarrow> (\<forall>i < length es. used_dent (es ! i) \<longrightarrow> entry_for cr n F M (es ! i))
     \<and> (\<forall>key. M key \<noteq> None \<longrightarrow> (\<exists>i < length es. used_dent (es ! i) \<and> dent_key (es ! i) = key))"

definition live_at :: "fs_crypto \<Rightarrow> (32 word option \<Rightarrow> storage) \<Rightarrow> dirfile_entry list \<Rightarrow> (obj_key \<Rightarrow> bytes option)
    \<Rightarrow> ree_fd \<Rightarrow> obj_key \<Rightarrow> nat \<Rightarrow> bool" where
  "live_at cr F es M fd key i \<longleftrightarrow> i < length es \<and> used_dent (es ! i) \<and> dent_key (es ! i) = key \<and> fd_dfh fd = fileh_at es i
     \<and> (\<exists>b. M key = Some b \<and> held cr (fst key) (F (Some (de_file_number (es ! i)))) (Some fd) b)"

definition handle_ok :: "fs_crypto \<Rightarrow> (32 word option \<Rightarrow> storage) \<Rightarrow> dirfile_entry list \<Rightarrow> (obj_key \<Rightarrow> bytes option)
    \<Rightarrow> ree_fd option \<Rightarrow> obj_key option option \<Rightarrow> bool" where
  "handle_ok cr F es M fdp ho = (case ho of None \<Rightarrow> fdp = None
     | Some None \<Rightarrow> fdp \<noteq> None
     | Some (Some key) \<Rightarrow> \<exists>fd i. fdp = Some fd \<and> live_at cr F es M fd key i)"

text \<open>All but the directory; \<open>r\<close> operations hold a reference to the directory for themselves.\<close>

definition objs :: "fs_crypto \<Rightarrow> nat \<Rightarrow> ree_fs \<Rightarrow> objects \<Rightarrow> dirfile_entry list \<Rightarrow> nat \<Rightarrow> bool" where
  "objs cr n s a es r \<longleftrightarrow> dents_in n es \<and> entries_ok cr n (fs_file s) es (ob_map a)
     \<and> (\<forall>k. handle_ok cr (fs_file s) es (ob_map a) (fs_fds s k) (ob_open a k))
     \<and> finite (dom (ob_open a)) \<and> card (dom (ob_open a)) \<le> n \<and> unat (fs_dirh_refcount s) = card (dom (ob_open a)) + r"

definition dir_ready :: "fs_crypto \<Rightarrow> nat \<Rightarrow> ree_fs \<Rightarrow> dirfile_dirh \<Rightarrow> dirfile_entry list \<Rightarrow> bool" where
  "dir_ready cr n s d es \<longleftrightarrow> dir_open cr n s d es es \<and> dir_wf d es \<and> length (dh_files d) \<le> n"

definition fs_ok :: "fs_crypto \<Rightarrow> nat \<Rightarrow> ree_fs \<Rightarrow> objects \<Rightarrow> bool" where
  "fs_ok cr n s a \<longleftrightarrow> (\<exists>es. objs cr n s a es 0
     \<and> (dir_closed cr n s es \<or> (\<exists>d. dir_ready cr n s d es) \<and> fs_dirh_refcount s \<noteq> 0))"

lemma objs_alike:
  assumes "alike s s'"
  shows "objs cr n s' a es r = objs cr n s a es r"
proof -
  have f: "fs_file s' (Some i) = fs_file s (Some i)" "fs_fds s' = fs_fds s" "fs_dirh_refcount s' = fs_dirh_refcount s" for i
    using assms by (simp_all add: alike_def)
  show ?thesis
    unfolding objs_def entries_ok_def entry_for_def handle_ok_def live_at_def f ..
qed

lemma dents_in_mono: "dents_in n es \<Longrightarrow> n \<le> m \<Longrightarrow> dents_in m es"
  by (fastforce simp: dents_in_def)

lemma entries_ok_mono: "entries_ok cr n F es M \<Longrightarrow> n \<le> m \<Longrightarrow> entries_ok cr m F es M"
  unfolding entries_ok_def entry_for_def using committed_mono by blast

lemma objs_mono: "objs cr n s a es r \<Longrightarrow> n \<le> m \<Longrightarrow> objs cr m s a es r"
  unfolding objs_def using dents_in_mono entries_ok_mono by (metis order_trans)

lemma dir_open_mono: "dir_open cr n s d es0 es \<Longrightarrow> n \<le> m \<Longrightarrow> dir_open cr m s d es0 es"
  unfolding dir_open_def using kept_mono by blast

lemma dir_closed_mono: "dir_closed cr n s es \<Longrightarrow> n \<le> m \<Longrightarrow> dir_closed cr m s es"
  unfolding dir_closed_def using kept_mono by blast

lemma dir_ready_mono: "dir_ready cr n s d es \<Longrightarrow> n \<le> m \<Longrightarrow> dir_ready cr m s d es"
  unfolding dir_ready_def using dir_open_mono by (metis order_trans)

lemma fs_ok_mono: "fs_ok cr n s a \<Longrightarrow> n \<le> m \<Longrightarrow> fs_ok cr m s a"
  unfolding fs_ok_def using objs_mono dir_closed_mono dir_ready_mono by meson

section \<open>The directory during an operation\<close>

text \<open>\<open>busy\<close>: the operation has a reference to the directory at \<open>x\<close>.\<close>

definition busy :: "fs_crypto \<Rightarrow> nat \<Rightarrow> ree_fs \<Rightarrow> objects \<Rightarrow> nat \<Rightarrow> dirfile_dirh \<Rightarrow> dirfile_entry list \<Rightarrow> bool" where
  "busy cr n s a x d es \<longleftrightarrow> objs cr n s a es 1 \<and> dir_ready cr n s d es \<and> map_option fst (fs_dirh s) = Some x"

lemma busy_mono: "busy cr n s a x d es \<Longrightarrow> n \<le> m \<Longrightarrow> busy cr m s a x d es"
  unfolding busy_def using objs_mono dir_ready_mono by blast

lemma refcount_grows:
  assumes "objs cr n s a es r" and "n < 2 ^ 24" and "r \<le> 1"
  shows "unat (fs_dirh_refcount s + 1) = card (dom (ob_open a)) + Suc r"
proof -
  have "card (dom (ob_open a)) + r < 2 ^ 25" using assms by (simp add: objs_def)
  then have "unat (fs_dirh_refcount s) + unat (1 :: 64 word) < 2 ^ LENGTH(64)" using assms(1) by (simp add: objs_def)
  then have "unat (fs_dirh_refcount s + 1) = unat (fs_dirh_refcount s) + unat (1 :: 64 word)" by (rule unat_add_lem [THEN iffD1])
  then show ?thesis using assms(1) by (simp add: objs_def)
qed

lemma objs_refcount:
  "objs cr n s a es r \<Longrightarrow> unat c = card (dom (ob_open a)) + r' \<Longrightarrow> objs cr n (s\<lparr>fs_dirh_refcount := c\<rparr>) a es r'"
  by (simp add: objs_def)

lemma get_dirh_ok:
  assumes cr: "crypto_ok cr" and n: "0 < n" "n < 2 ^ 24" and ok: "fs_ok cr n s a"
  shows "\<exists>x s' d es. get_dirh cr s = (Ok x, s') \<and> busy cr n s' a x d es \<and> fs_fds s' = fs_fds s"
proof -
  obtain es where es: "objs cr n s a es 0" "dir_closed cr n s es \<or> (\<exists>d. dir_ready cr n s d es)"
    using ok unfolding fs_ok_def by blast
  have "\<exists>s1 d. (if fs_dirh s = None then open_dirh cr s else (Ok (), s)) = (Ok (), s1) \<and> alike s s1 \<and> dir_ready cr n s1 d es"
  proof (cases "dir_closed cr n s es")
    case True
    have "dents_in n es" using es(1) by (simp add: objs_def)
    from open_dirh_closed [OF cr n this True] True show ?thesis by (auto simp: dir_ready_def dir_closed_def)
  next
    case False
    then obtain d where d: "dir_ready cr n s d es" using es(2) by blast
    then have "fs_dirh s \<noteq> None" using dir_open_handle unfolding dir_ready_def by fastforce
    then show ?thesis using d by auto
  qed
  then obtain s1 d where s1: "(if fs_dirh s = None then open_dirh cr s else (Ok (), s)) = (Ok (), s1)" "alike s s1"
    "dir_ready cr n s1 d es" by blast
  let ?s = "s1\<lparr>fs_dirh_refcount := fs_dirh_refcount s1 + 1\<rparr>"
  have objs1: "objs cr n s1 a es 0" using es(1) objs_alike [OF s1(2)] by blast
  have ref: "unat (fs_dirh_refcount s1 + 1) = card (dom (ob_open a)) + 1" using refcount_grows [OF objs1 n(2)] by simp
  then have "fs_dirh_refcount s1 + 1 \<noteq> 0" by (metis Suc_eq_plus1 nat.distinct(1) unat_0)
  moreover obtain x fdp where x: "fs_dirh s1 = Some (x, d, fdp)" using s1(3) dir_open_handle unfolding dir_ready_def by blast
  ultimately have "get_dirh cr s = (Ok x, ?s)" using s1(1) by (simp add: get_dirh_def io_bind_def Let_def)
  moreover have "dir_ready cr n ?s d es" using s1(3) by (simp add: dir_ready_def dir_open_def calm_fs_def)
  ultimately have "get_dirh cr s = (Ok x, ?s) \<and> busy cr n ?s a x d es"
    using objs_refcount [OF objs1 ref] x by (simp add: busy_def)
  moreover have "fs_fds ?s = fs_fds s" using s1(2) by (simp add: alike_def)
  ultimately show ?thesis by blast
qed

lemma put_dirh_primitive_open:
  assumes dir: "dir_open cr n s d es0 es" and ref: "fs_dirh_refcount s \<noteq> 0"
  shows "\<exists>s'. put_dirh_primitive cr close s = (Ok (), s') \<and> alike (s\<lparr>fs_dirh_refcount := fs_dirh_refcount s - 1\<rparr>) s'
    \<and> (dir_closed cr n s' es0 \<or> dir_open cr n s' d es0 es \<and> fs_dirh_refcount s' \<noteq> 0 \<and> \<not> close)"
proof -
  let ?s = "s\<lparr>fs_dirh_refcount := fs_dirh_refcount s - 1\<rparr>"
  have dir1: "dir_open cr n ?s d es0 es" using dir by (simp add: dir_open_def calm_fs_def)
  then obtain a fdp where "fs_dirh ?s = Some (a, d, fdp)" using dir_open_handle by blast
  then have run: "put_dirh_primitive cr close s
      = (if fs_dirh_refcount s - 1 = 0 \<or> close then close_dirh cr ?s else (Ok (), ?s))"
    using ref by (simp add: put_dirh_primitive_def Let_def)
  show ?thesis
  proof (cases "fs_dirh_refcount s - 1 = 0 \<or> close")
    case True
    then show ?thesis using close_dirh_open [OF dir1] run by auto
  next
    case False
    then show ?thesis using dir1 run by auto
  qed
qed

lemma busy_refcount: "busy cr n s a x d es \<Longrightarrow> n < 2 ^ 24 \<Longrightarrow>
    fs_dirh_refcount s \<noteq> 0 \<and> unat (fs_dirh_refcount s - 1) = card (dom (ob_open a))"
proof -
  assume b: "busy cr n s a x d es" "n < 2 ^ 24"
  then have "unat (fs_dirh_refcount s) = Suc (card (dom (ob_open a)))" by (simp add: busy_def objs_def)
  moreover from this have "fs_dirh_refcount s \<noteq> 0" by auto
  ultimately show ?thesis using unat_minus_one [of "fs_dirh_refcount s"] by simp
qed

lemma put_dirh_ok:
  assumes busy: "busy cr n s a x d es" and n: "n < 2 ^ 24"
  shows "\<exists>s'. put_dirh cr x close s = (Ok (), s') \<and> fs_ok cr n s' a"
proof -
  have ref: "fs_dirh_refcount s \<noteq> 0" "unat (fs_dirh_refcount s - 1) = card (dom (ob_open a)) + 0"
    using busy_refcount [OF busy n] by simp_all
  have b: "objs cr n s a es 1" "dir_open cr n s d es es" "dir_wf d es" "length (dh_files d) \<le> n" "map_option fst (fs_dirh s) = Some x"
    using busy by (simp_all add: busy_def dir_ready_def)
  from put_dirh_primitive_open [OF b(2) ref(1), of close]
  obtain s' where s': "put_dirh_primitive cr close s = (Ok (), s')"
    "alike (s\<lparr>fs_dirh_refcount := fs_dirh_refcount s - 1\<rparr>) s'"
    "dir_closed cr n s' es \<or> dir_open cr n s' d es es \<and> fs_dirh_refcount s' \<noteq> 0" by blast
  have "objs cr n s' a es 0" using objs_refcount [OF b(1) ref(2)] objs_alike [OF s'(2)] by blast
  then have "fs_ok cr n s' a" using s'(3) b(3,4) unfolding fs_ok_def dir_ready_def by blast
  then show ?thesis using s'(1) b(5) by (simp add: put_dirh_def)
qed

text \<open>The frame of the operations.\<close>

lemma with_dirh_ok:
  assumes cr: "crypto_ok cr" and n: "0 < n" "n < 2 ^ 24" "n' < 2 ^ 24" and ok: "fs_ok cr n s a"
    and body: "\<And>x s1 d es. busy cr n s1 a x d es \<Longrightarrow> \<exists>r s2. body s1 = (r, s2) \<and> P r \<and> (case r of
        Ok y \<Rightarrow> \<exists>d' es'. busy cr n' s2 (a' y) x d' es' | Fail e \<Rightarrow> \<exists>d' es'. busy cr n' s2 a x d' es' | Stuck \<Rightarrow> False)"
  shows "\<exists>r s'. with_dirh cr False body s = (r, s') \<and> P r
    \<and> (case r of Ok y \<Rightarrow> fs_ok cr n' s' (a' y) | Fail e \<Rightarrow> fs_ok cr n' s' a | Stuck \<Rightarrow> False)"
proof -
  obtain x s1 d es where g: "get_dirh cr s = (Ok x, s1)" "busy cr n s1 a x d es" using get_dirh_ok [OF cr n(1,2) ok] by blast
  obtain r s2 where b: "body s1 = (r, s2)" "P r" and c: "case r of Ok y \<Rightarrow> \<exists>d' es'. busy cr n' s2 (a' y) x d' es'
      | Fail e \<Rightarrow> \<exists>d' es'. busy cr n' s2 a x d' es' | Stuck \<Rightarrow> False"
    using body [OF g(2)] by blast
  show ?thesis
  proof (cases r)
    case (Ok y)
    then obtain d' es' where "busy cr n' s2 (a' y) x d' es'" using c by auto
    from put_dirh_ok [OF this n(3), of False] obtain s' where "put_dirh cr x False s2 = (Ok (), s')" "fs_ok cr n' s' (a' y)" by blast
    then show ?thesis using g(1) b Ok by (simp add: with_dirh_def io_bind_def io_try_def io_ret_def)
  next
    case (Fail e)
    then obtain d' es' where "busy cr n' s2 a x d' es'" using c by auto
    from put_dirh_ok [OF this n(3), of True] obtain s' where "put_dirh cr x True s2 = (Ok (), s')" "fs_ok cr n' s' a" by blast
    then show ?thesis using g(1) b Fail by (simp add: with_dirh_def io_bind_def io_try_def io_fail_def)
  qed (use c in simp)
qed

section \<open>Searching\<close>

lemma busy_dir: "busy cr n s a x d es \<Longrightarrow> dir_open cr n s d es es \<and> dir_wf d es \<and> dir_ok d es \<and> length (dh_files d) \<le> n
    \<and> calm_fs s \<and> dents_in n es"
  by (simp add: busy_def dir_ready_def dir_wf_def dir_open_def objs_def)

lemma busy_in_dirh:
  assumes cr: "crypto_ok cr" and busy: "busy cr n s a x d es"
    and impl: "\<And>R base. implements (nw_dir cr R base) (\<lambda>_. True) nw_fine m d es r d es"
  shows "\<exists>s'. in_dirh m s = (r, s') \<and> busy cr n s' a x d es \<and> alike s s'"
proof -
  from in_dirh_impl [OF cr _ impl] busy obtain s' where "in_dirh m s = (r, s')" "dir_open cr n s' d es es" "alike s s'"
    "map_option fst (fs_dirh s') = map_option fst (fs_dirh s)"
    unfolding busy_def dir_ready_def by blast
  then show ?thesis using busy objs_alike unfolding busy_def dir_ready_def by metis
qed

lemma find_busy:
  assumes cr: "crypto_ok cr" and busy: "busy cr n s a x d es"
  shows "\<exists>s'. in_dirh (tee_fs_dirfile_find (dirf_fops cr) uuid oid) s = (find_result es uuid oid, s')
    \<and> busy cr n s' a x d es \<and> alike s s'"
  using busy_dir [OF busy] by (intro busy_in_dirh [OF cr busy] nw_directory.nw_find [OF nw_directory.intro [OF cr]]) blast

lemma find_objs:
  assumes "objs cr n s a es r"
  shows "case ob_map a (uuid, oid) of None \<Rightarrow> find_result es uuid oid = Fail TEE_ERROR_ITEM_NOT_FOUND
    | Some b \<Rightarrow> \<exists>i < length es. find_result es uuid oid = Ok (fileh_at es i) \<and> used_dent (es ! i) \<and> dent_key (es ! i) = (uuid, oid)"
proof -
  have es: "\<forall>e \<in> set es. dent_ok e" "dents_distinct es" "entries_ok cr n (fs_file s) es (ob_map a)"
    using assms by (simp_all add: objs_def dents_in_def)
  show ?thesis
  proof (cases "ob_map a (uuid, oid)")
    case None
    have "\<not> names uuid oid (es ! i)" if "i < length es" for i
      using es(1,3) None that names_key [of "es ! i" uuid oid] unfolding entries_ok_def entry_for_def
      by (metis nth_mem option.distinct(1))
    then have "next_index (names uuid oid) es 0 = None" by (simp add: next_index_None)
    then show ?thesis using None by (simp add: find_result_def)
  next
    case (Some b)
    then obtain i where i: "i < length es" "used_dent (es ! i)" "dent_key (es ! i) = (uuid, oid)"
      using es(3) unfolding entries_ok_def by blast
    from names_at [OF es(1,2) i] have "find_result es uuid oid = Ok (fileh_at es i)" by (simp add: find_result_def)
    then show ?thesis using Some i by auto
  qed
qed

section \<open>Handles\<close>

lemma fs_same: "s\<lparr>fs_nw := fs_nw s, fs_fds := x\<rparr> = s\<lparr>fs_fds := x\<rparr>" "s\<lparr>fs_nw := fs_nw s\<rparr> = s"
  by (cases s, simp)+

lemma in_fd_run:
  "m (fs_fds s k, file_world (Some num) (fs_nw s)) = (r, (fdp, w)) \<Longrightarrow>
   in_fd k num m s = (r, s\<lparr>fs_nw := put_world (Some num) w (fs_nw s), fs_fds := (fs_fds s)(k := fdp)\<rparr>)"
  by (simp add: in_fd_def at_file_def)

lemma on_handle_run:
  "fs_fds s k = Some fd \<Longrightarrow> m (Some fd, file_world (Some (fh_file_number (fd_dfh fd))) (fs_nw s)) = (r, (fdp, w)) \<Longrightarrow>
   on_handle k m s
     = (r, s\<lparr>fs_nw := put_world (Some (fh_file_number (fd_dfh fd))) w (fs_nw s), fs_fds := (fs_fds s)(k := fdp)\<rparr>)"
  by (simp add: on_handle_def io_bind_def get_dfh_def in_fd_run)

lemma fileh_at_number [simp]: "fh_file_number (fileh_at es i) = de_file_number (es ! i)" "fh_hash (fileh_at es i) = de_hash (es ! i)"
  "fh_idx (fileh_at es i) = int i"
  by (simp_all add: fileh_at_def)

lemma live_handle:
  assumes "objs cr n s a es r" and "ob_open a k = Some (Some key)"
  obtains fd i b where "fs_fds s k = Some fd" "i < length es" "used_dent (es ! i)" "dent_key (es ! i) = key"
    "fd_dfh fd = fileh_at es i" "ob_map a key = Some b" "held cr (fst key) (fs_file s (Some (de_file_number (es ! i)))) (Some fd) b"
    "committed cr n (fst key) (fs_file s (Some (de_file_number (es ! i)))) (de_hash (es ! i)) b"
proof -
  have "handle_ok cr (fs_file s) es (ob_map a) (fs_fds s k) (Some (Some key))" using assms unfolding objs_def by metis
  then obtain fd i where f: "fs_fds s k = Some fd" "live_at cr (fs_file s) es (ob_map a) fd key i" by (auto simp: handle_ok_def)
  then have "entry_for cr n (fs_file s) (ob_map a) (es ! i)" using assms(1) by (simp add: objs_def entries_ok_def live_at_def)
  then show thesis using that f unfolding live_at_def entry_for_def by force
qed

text \<open>A handle changes without a change to files.\<close>

lemma objs_fd:
  assumes objs: "objs cr n s a es r" and files: "\<And>i. nw_files n1 (Some i) = fs_file s (Some i)"
    and k: "handle_ok cr (fs_file s) es (ob_map a) fdp ho" and ho: "(ob_open a k = None) = (ho = None)"
  shows "objs cr n (s\<lparr>fs_nw := n1, fs_fds := (fs_fds s)(k := fdp)\<rparr>) (a\<lparr>ob_open := (ob_open a)(k := ho)\<rparr>) es r"
proof -
  have dom: "dom ((ob_open a)(k := ho)) = dom (ob_open a)" using ho by (auto simp: dom_def)
  have "live_at cr (nw_files n1) es M = live_at cr (fs_file s) es M" for M
    using files by (simp add: live_at_def fun_eq_iff)
  then have "handle_ok cr (nw_files n1) es M p h = handle_ok cr (fs_file s) es M p h" for M p h
    by (auto simp: handle_ok_def split: option.splits)
  moreover have "entries_ok cr n (nw_files n1) es M = entries_ok cr n (fs_file s) es M" for M
    using files by (simp add: entries_ok_def entry_for_def)
  ultimately show ?thesis using objs k by (simp add: objs_def dom del: dom_fun_upd)
qed

lemma length_held:
  assumes cr: "crypto_ok cr" and "held cr uuid (w_stor w) (Some fd) b" and "calm w"
  shows "on_fd get_length (Some fd, w) = (Ok (word_of_nat (length b)), (Some fd, w))"
proof -
  obtain s where fd: "fd_is cr uuid {s} (Some fd, w) b" using held_fd [OF assms(2,3)] by blast
  then obtain ht cur where t: "fd_ht fd = Some ht" "htree_life cr BLOCK_SIZE uuid (Some ht) w {s} cur" "written_as b cur"
    unfolding fd_is_def by auto
  have "unat (fst cur) = length b" "tee_fs_htree_get_meta ht = fst cur"
    using written_asD [OF t(3)] life_open(1) [OF t(2) cr] by simp_all
  then have "tee_fs_htree_get_meta ht = word_of_nat (length b)" by (metis of_nat_unat ucast_id)
  moreover have "fd\<lparr>fd_ht := Some ht\<rparr> = fd" using t(1) by (cases fd) simp
  ultimately show ?thesis using t(1) by (simp add: on_fd_def get_length_def)
qed

section \<open>Reading and closing\<close>

lemma read_objs:
  assumes cr: "crypto_ok cr" and ok: "fs_ok cr n s a" and k: "ob_open a k = Some (Some key)" "ob_map a key = Some b"
    and len: "unat pos + unat len < 2 ^ 64"
  shows "\<exists>s'. ree_fs_read cr k pos len s = (Ok (bytes_read (unat pos) (unat len) b), s') \<and> fs_ok cr n s' a"
proof -
  obtain es where es: "objs cr n s a es 0" "dir_closed cr n s es \<or> (\<exists>d. dir_ready cr n s d es) \<and> fs_dirh_refcount s \<noteq> 0"
    using ok unfolding fs_ok_def by blast
  obtain fd i where f: "fs_fds s k = Some fd" "i < length es" "used_dent (es ! i)" "dent_key (es ! i) = key"
    "fd_dfh fd = fileh_at es i" "held cr (fst key) (fs_file s (Some (de_file_number (es ! i)))) (Some fd) b"
    using live_handle [OF es(1) k(1)] k(2) by (metis option.inject)
  let ?name = "Some (de_file_number (es ! i))"
  have calm: "calm (file_world ?name (fs_nw s))" using es(2) by (auto simp: dir_closed_def dir_ready_def dir_open_def calm_fs_def)
  from read_held [OF cr _ calm len, of "fst key" fd b] f(6)
  obtain h w where w: "on_fd (ree_fs_read_primitive cr pos len) (Some fd, file_world ?name (fs_nw s))
      = (Ok (bytes_read (unat pos) (unat len) b), (Some (fd\<lparr>fd_ht := h\<rparr>), w))" "calm w" "w_stor w = fs_file s ?name"
    "held cr (fst key) (w_stor w) (Some (fd\<lparr>fd_ht := h\<rparr>)) b" by auto
  let ?n = "put_world ?name w (fs_nw s)"
  let ?s = "s\<lparr>fs_nw := ?n, fs_fds := (fs_fds s)(k := Some (fd\<lparr>fd_ht := h\<rparr>))\<rparr>"
  have run: "ree_fs_read cr k pos len s = (Ok (bytes_read (unat pos) (unat len) b), ?s)"
    using on_handle_run [of s k fd "on_fd (ree_fs_read_primitive cr pos len)"] f(1,5) w(1) by (simp add: ree_fs_read_def)
  have files: "nw_files ?n = fs_file s" using w(3) by (simp add: fun_eq_iff)
  have "live_at cr (fs_file s) es (ob_map a) (fd\<lparr>fd_ht := h\<rparr>) key i"
    using f(2-5) w(3,4) k(2) by (simp add: live_at_def)
  then have "handle_ok cr (fs_file s) es (ob_map a) (Some (fd\<lparr>fd_ht := h\<rparr>)) (Some (Some key))"
    by (auto simp: handle_ok_def)
  moreover have "nw_files ?n (Some i) = fs_file s (Some i)" for i by (simp only: files)
  ultimately have "objs cr n ?s (a\<lparr>ob_open := (ob_open a)(k := Some (Some key))\<rparr>) es 0"
    using k(1) by (intro objs_fd [OF es(1)]) simp_all
  then have "objs cr n ?s a es 0" using k(1) by (simp add: fun_upd_idem)
  moreover have "dir_closed cr n ?s es = dir_closed cr n s es" "dir_ready cr n ?s d es = dir_ready cr n s d es" for d
    using files w(2) es(2) by (auto simp: dir_closed_def dir_ready_def dir_open_def calm_fs_def calm_def)
  ultimately show ?thesis using run es(2) unfolding fs_ok_def by auto
qed

text \<open>A handle is added or goes.\<close>

lemma objs_handle:
  assumes objs: "objs cr n s a es r" and files: "\<And>i. fs_file s' (Some i) = fs_file s (Some i)"
    and fds: "fs_fds s' = (fs_fds s)(k := fdp)" and k: "handle_ok cr (fs_file s) es (ob_map a) fdp ho"
    and n: "card (dom ((ob_open a)(k := ho))) \<le> m" "n \<le> m"
    and ref: "unat (fs_dirh_refcount s') = card (dom ((ob_open a)(k := ho))) + r'"
  shows "objs cr m s' (a\<lparr>ob_open := (ob_open a)(k := ho)\<rparr>) es r'"
proof -
  have "live_at cr (fs_file s') es M = live_at cr (fs_file s) es M" for M
    using files by (simp add: live_at_def fun_eq_iff)
  then have "handle_ok cr (fs_file s') es M p h = handle_ok cr (fs_file s) es M p h" for M p h
    by (auto simp: handle_ok_def split: option.splits)
  moreover have "entries_ok cr m (fs_file s) es (ob_map a)"
    using entries_ok_mono [OF _ n(2)] objs unfolding objs_def by blast
  moreover have "entries_ok cr m (fs_file s') es M = entries_ok cr m (fs_file s) es M" for M
    by (simp add: entries_ok_def entry_for_def files)
  moreover have "finite (dom ((ob_open a)(k := ho)))" using objs by (simp add: objs_def)
  moreover have "dents_in m es" using objs dents_in_mono n(2) by (auto simp: objs_def)
  moreover have "\<forall>j. handle_ok cr (fs_file s) es (ob_map a) (fs_fds s' j) (((ob_open a)(k := ho)) j)"
    using objs k by (simp add: objs_def fds)
  ultimately show ?thesis unfolding objs_def using n(1) ref by simp
qed

lemma close_objs:
  assumes cr: "crypto_ok cr" and n: "n < 2 ^ 24" and ok: "fs_ok cr n s a" and k: "ob_open a k = Some ho"
  shows "\<exists>s'. ree_fs_close cr k s = (Ok (), s') \<and> fs_ok cr n s' (a\<lparr>ob_open := (ob_open a)(k := None)\<rparr>)"
proof -
  obtain es where es: "objs cr n s a es 0" "dir_closed cr n s es \<or> (\<exists>d. dir_ready cr n s d es) \<and> fs_dirh_refcount s \<noteq> 0"
    using ok unfolding fs_ok_def by blast
  have "handle_ok cr (fs_file s) es (ob_map a) (fs_fds s k) (Some ho)" using es(1) k unfolding objs_def by metis
  then obtain fd where fd: "fs_fds s k = Some fd" by (auto simp: handle_ok_def split: option.splits)
  have fin: "finite (dom (ob_open a))" "k \<in> dom (ob_open a)" using es(1) k by (auto simp: objs_def)
  then have card: "card (dom (ob_open a)) = Suc (card (dom ((ob_open a)(k := None))))"
    using card_Suc_Diff1 [of "dom (ob_open a)" k] by simp
  then have cnt: "unat (fs_dirh_refcount s) = Suc (card (dom ((ob_open a)(k := None))))" using es(1) by (simp add: objs_def)
  then have "fs_dirh_refcount s \<noteq> 0" by auto
  then have ref: "fs_dirh_refcount s \<noteq> 0" "unat (fs_dirh_refcount s - 1) = card (dom ((ob_open a)(k := None)))"
    using cnt unat_minus_one [of "fs_dirh_refcount s"] by simp_all
  have "\<exists>s1. put_dirh_primitive cr False s = (Ok (), s1) \<and> alike (s\<lparr>fs_dirh_refcount := fs_dirh_refcount s - 1\<rparr>) s1
      \<and> (dir_closed cr n s1 es \<or> (\<exists>d. dir_ready cr n s1 d es) \<and> fs_dirh_refcount s1 \<noteq> 0)"
  proof (cases "dir_closed cr n s es")
    case True
    then show ?thesis using ref(1) by (auto simp: put_dirh_primitive_def Let_def dir_closed_def calm_fs_def)
  next
    case False
    then obtain d where d: "dir_ready cr n s d es" using es(2) by blast
    then have "dir_open cr n s d es es" by (simp add: dir_ready_def)
    from put_dirh_primitive_open [OF this ref(1), of False] d show ?thesis unfolding dir_ready_def by blast
  qed
  then obtain s1 where s1: "put_dirh_primitive cr False s = (Ok (), s1)"
    "alike (s\<lparr>fs_dirh_refcount := fs_dirh_refcount s - 1\<rparr>) s1"
    "dir_closed cr n s1 es \<or> (\<exists>d. dir_ready cr n s1 d es) \<and> fs_dirh_refcount s1 \<noteq> 0" by blast
  let ?name = "Some (fh_file_number (fd_dfh fd))"
  let ?s = "s1\<lparr>fs_nw := put_world ?name (file_world ?name (fs_nw s1)) (fs_nw s1), fs_fds := (fs_fds s1)(k := None)\<rparr>"
  have calm: "calm (file_world ?name (fs_nw s1))"
    using s1(3) by (auto simp: dir_closed_def dir_ready_def dir_open_def calm_fs_def)
  have fd1: "fs_fds s1 k = Some fd" using s1(2) fd by (simp add: alike_def)
  have "on_handle k ree_fs_close_primitive s1 = (Ok (), ?s)" by (rule on_handle_run [of s1 k fd ree_fs_close_primitive, OF fd1 close_calm [OF calm]])
  then have run: "ree_fs_close cr k s = (Ok (), ?s)" using s1(1) fd by (simp add: ree_fs_close_def io_bind_def)
  have "objs cr n ?s (a\<lparr>ob_open := (ob_open a)(k := None)\<rparr>) es 0"
  proof (rule objs_handle [OF es(1)])
    show "fs_file ?s (Some i) = fs_file s (Some i)" for i using s1(2) by (simp add: alike_def)
    show "fs_fds ?s = (fs_fds s)(k := None)" using s1(2) by (simp add: alike_def)
    show "handle_ok cr (fs_file s) es (ob_map a) None None" by (simp add: handle_ok_def)
    show "card (dom ((ob_open a)(k := None))) \<le> n" using es(1) card by (simp add: objs_def)
    show "unat (fs_dirh_refcount ?s) = card (dom ((ob_open a)(k := None))) + 0" using s1(2) ref(2) by (simp add: alike_def)
  qed simp
  moreover have "dir_closed cr n ?s es = dir_closed cr n s1 es" "dir_ready cr n ?s d es = dir_ready cr n s1 d es" for d
    by (simp_all add: dir_closed_def dir_ready_def dir_open_def calm_fs_def)
  ultimately show ?thesis using run s1(3) unfolding fs_ok_def by auto
qed

section \<open>Opening\<close>

lemma open_objs:
  assumes cr: "crypto_ok cr" and n: "0 < n" "Suc n < 2 ^ 24" and ok: "fs_ok cr n s a" and k: "ob_open a k = None"
  shows "\<exists>r s'. ree_fs_open cr k uuid oid s = (r, s')
    \<and> (case ob_map a (uuid, oid) of
        None \<Rightarrow> r = Fail TEE_ERROR_ITEM_NOT_FOUND \<and> fs_ok cr (Suc n) s' a
      | Some b \<Rightarrow> r = Ok (word_of_nat (length b)) \<and> fs_ok cr (Suc n) s' (a\<lparr>ob_open := (ob_open a)(k := Some (Some (uuid, oid)))\<rparr>))"
proof -
  have n': "n < 2 ^ 24" using n(2) by simp
  obtain x s1 d es where g: "get_dirh cr s = (Ok x, s1)" "busy cr n s1 a x d es" using get_dirh_ok [OF cr n(1) n' ok] by blast
  obtain s2 where f: "in_dirh (tee_fs_dirfile_find (dirf_fops cr) uuid oid) s1 = (find_result es uuid oid, s2)"
    "busy cr n s2 a x d es" using find_busy [OF cr g(2)] by blast
  have objs: "objs cr n s2 a es 1" using f(2) by (simp add: busy_def)
  show ?thesis
  proof (cases "ob_map a (uuid, oid)")
    case None
    then have e: "find_result es uuid oid = Fail TEE_ERROR_ITEM_NOT_FOUND" using find_objs [OF objs, of uuid oid] by simp
    from put_dirh_ok [OF f(2) n', of True] obtain s' where "put_dirh cr x True s2 = (Ok (), s')" "fs_ok cr n s' a" by blast
    then show ?thesis using None g(1) f(1) e fs_ok_mono [of cr n s' a "Suc n"]
      by (auto simp: ree_fs_open_def with_dirh_def io_bind_def io_try_def io_fail_def)
  next
    case (Some b)
    then obtain i where i: "find_result es uuid oid = Ok (fileh_at es i)" "i < length es" "used_dent (es ! i)"
      "dent_key (es ! i) = (uuid, oid)"
      using find_objs [OF objs, of uuid oid] by auto
    let ?name = "Some (de_file_number (es ! i))" and ?h = "de_hash (es ! i)"
    have "entry_for cr n (fs_file s2) (ob_map a) (es ! i)" using objs i(2,3) by (simp add: objs_def entries_ok_def)
    then obtain c where c: "kept cr n uuid (w_stor (file_world ?name (fs_nw s2))) c b" "?h = ni_hash (image_of c 1)"
      "hash_finds (Some ?h) c (w_stor (file_world ?name (fs_nw s2)))"
      using Some i(4) by (auto simp: entry_for_def committed_def)
    have calm: "calm (file_world ?name (fs_nw s2))" using busy_dir [OF f(2)] by (simp add: calm_fs_def)
    let ?fd = "\<lparr>fd_ht = Some c, fd_dfh = fileh_at es i\<rparr>"
    have dfh: "dfh_of (Some (fileh_at es i)) (Some ?h) = fileh_at es i" by (simp add: dfh_of_def fileh_at_def)
    have none: "fs_fds s2 k = None"
    proof -
      have "handle_ok cr (fs_file s2) es (ob_map a) (fs_fds s2 k) None" using objs k unfolding objs_def by metis
      then show ?thesis by (simp add: handle_ok_def)
    qed
    let ?s = "s2\<lparr>fs_fds := (fs_fds s2)(k := Some ?fd)\<rparr>"
    have open1: "in_fd k (fh_file_number (fileh_at es i)) (ree_fs_open_primitive cr False (Some (fh_hash (fileh_at es i))) uuid
        (Some (fileh_at es i))) s2 = (Ok (), ?s)"
      using open_kept(1) [OF cr c(1,3) calm, of "Some (fileh_at es i)"] none dfh by (simp add: in_fd_def at_file_def fs_same)
    have held: "held cr uuid (w_stor (file_world ?name (fs_nw s2))) (Some ?fd) b" by (rule open_kept(2) [OF cr c(1,3) calm])
    have len: "fd_length k ?s = (Ok (word_of_nat (length b)), ?s)"
      using length_held [OF cr held calm]
      by (simp add: fd_length_def on_handle_def io_bind_def get_dfh_def in_fd_def at_file_def fs_same)
    have run: "ree_fs_open cr k uuid oid s = (Ok (word_of_nat (length b)), ?s)"
      using g(1) f(1) i(1) open1 len by (simp add: ree_fs_open_def with_dirh_def io_bind_def io_try_def io_ret_def)
    have card: "card (dom ((ob_open a)(k := Some (Some (uuid, oid))))) = Suc (card (dom (ob_open a)))"
      using objs k by (simp add: objs_def domIff)
    have "objs cr (Suc n) ?s (a\<lparr>ob_open := (ob_open a)(k := Some (Some (uuid, oid)))\<rparr>) es 0"
    proof (rule objs_handle [OF objs])
      show "handle_ok cr (fs_file s2) es (ob_map a) (Some ?fd) (Some (Some (uuid, oid)))"
        using i(2-4) Some held by (auto simp: handle_ok_def live_at_def)
    qed (use card objs in \<open>simp_all add: objs_def del: dom_fun_upd\<close>)
    moreover have "dir_ready cr (Suc n) ?s d es" using dir_ready_mono [of cr n s2 d es "Suc n"] f(2)
      by (simp add: busy_def dir_ready_def dir_open_def calm_fs_def)
    moreover have "fs_dirh_refcount ?s \<noteq> 0" using busy_refcount [OF f(2) n'] by simp
    ultimately show ?thesis using run Some unfolding fs_ok_def by auto
  qed
qed

section \<open>Changing an entry\<close>

lemma put_dent_at:
  assumes "i \<le> length es"
  shows "length (put_dent i e es) = max (length es) (Suc i)"
    and "j < length (put_dent i e es) \<Longrightarrow> put_dent i e es ! j = (if j = i then e else es ! j)"
  using assms by (auto simp: put_dent_def nth_append nth_list_update split: if_splits)

definition map_put :: "nat \<Rightarrow> dirfile_entry \<Rightarrow> bytes \<Rightarrow> dirfile_entry list \<Rightarrow> (obj_key \<Rightarrow> bytes option) \<Rightarrow> obj_key \<Rightarrow> bytes option" where
  "map_put i e b es M = (let M1 = (if i < length es \<and> used_dent (es ! i) then M(dent_key (es ! i) := None) else M)
     in if used_dent e then M1(dent_key e \<mapsto> b) else M1)"

lemma entries_put:
  assumes ok: "entries_ok cr n F es M" and d: "dents_distinct es" "dents_distinct (put_dent i e es)" and i: "i \<le> length es"
    and new: "used_dent e \<Longrightarrow> committed cr m (fst (dent_key e)) (F' (Some (de_file_number e))) (de_hash e) b" and n: "n \<le> m"
    and same: "\<And>j. j < length es \<Longrightarrow> j \<noteq> i \<Longrightarrow> used_dent (es ! j) \<Longrightarrow>
      F' (Some (de_file_number (es ! j))) = F (Some (de_file_number (es ! j)))"
  shows "entries_ok cr m F' (put_dent i e es) (map_put i e b es M)"
proof -
  let ?es = "put_dent i e es" and ?M = "map_put i e b es M"
  note at = put_dent_at [OF i]
  have here: "i < length ?es" "?es ! i = e" using at(1) at(2) [of i] by simp_all
  have there: "j < length ?es \<and> ?es ! j = es ! j" if "j < length es" "j \<noteq> i" for j
    using at(1) at(2) [of j] that by simp
  have other: "?M (dent_key (es ! j)) = M (dent_key (es ! j))" if j: "j < length es" "j \<noteq> i" "used_dent (es ! j)" for j
  proof -
    have "used_dent e \<Longrightarrow> dent_key (es ! j) \<noteq> dent_key e"
      using d(2) here there [OF j(1,2)] j(2,3) unfolding dents_distinct_def by metis
    moreover have "i < length es \<Longrightarrow> used_dent (es ! i) \<Longrightarrow> dent_key (es ! j) \<noteq> dent_key (es ! i)"
      using d(1) j unfolding dents_distinct_def by metis
    ultimately show ?thesis by (simp add: map_put_def Let_def)
  qed
  have "entry_for cr m F' ?M (?es ! j)" if j: "j < length ?es" "used_dent (?es ! j)" for j
  proof (cases "j = i")
    case True
    then have "?M (dent_key e) = Some b" "used_dent e" using j here by (simp_all add: map_put_def Let_def)
    then show ?thesis using True here new by (auto simp: entry_for_def)
  next
    case False
    then have l: "j < length es" "?es ! j = es ! j" using j(1) at(1) at(2) [of j] i by auto
    then have "entry_for cr n F M (es ! j)" using ok j(2) by (simp add: entries_ok_def)
    then show ?thesis using l other [of j] False j(2) same [of j] committed_mono [OF _ n] by (auto simp: entry_for_def)
  qed
  moreover have "\<exists>j < length ?es. used_dent (?es ! j) \<and> dent_key (?es ! j) = key" if key: "?M key \<noteq> None" for key
  proof (cases "used_dent e \<and> key = dent_key e")
    case True
    then show ?thesis using here by auto
  next
    case False
    then have k: "M key \<noteq> None" "i < length es \<Longrightarrow> used_dent (es ! i) \<Longrightarrow> key \<noteq> dent_key (es ! i)"
      using key by (auto simp: map_put_def Let_def split: if_splits)
    then obtain j where "j < length es" "used_dent (es ! j)" "dent_key (es ! j) = key" using ok unfolding entries_ok_def by blast
    moreover from this k(2) have "j \<noteq> i" by auto
    ultimately show ?thesis using there [of j] by auto
  qed
  ultimately show ?thesis unfolding entries_ok_def by blast
qed

lemma live_put:
  assumes "live_at cr F es M fd key j" and "j \<noteq> i" and i: "i \<le> length es"
    and "F' (Some (de_file_number (es ! j))) = F (Some (de_file_number (es ! j)))" and "M' key = M key"
  shows "live_at cr F' (put_dent i e es) M' fd key j"
  using assms put_dent_at(1) [OF i, of e] put_dent_at(2) [OF i, of j e] by (auto simp: live_at_def fileh_at_def)

lemma dents_in_put:
  assumes "dents_in n es" and "dents_distinct (put_dent i e es)" and "dent_ok e" and i: "i \<le> length es" and "length es < m" "n \<le> m"
    and "used_dent e \<Longrightarrow> file_no e < m"
  shows "dents_in m (put_dent i e es)"
proof -
  have "x \<in> insert e (set es)" if "x \<in> set (put_dent i e es)" for x
    using that set_update_subset_insert [of es i e] by (auto simp: put_dent_def split: if_splits)
  then show ?thesis using assms put_dent_at(1) [OF i, of e] by (fastforce simp: dents_in_def)
qed

text \<open>Files with numbers of their own.\<close>

lemma other_number:
  assumes "dents_distinct es" and "i < length es" and "j < length es" and "j \<noteq> i" and "used_dent (es ! i)" and "used_dent (es ! j)"
  shows "de_file_number (es ! j) \<noteq> de_file_number (es ! i)" and "dent_key (es ! j) \<noteq> dent_key (es ! i)"
  using assms unfolding dents_distinct_def file_no_def by metis+

section \<open>Writing\<close>

text \<open>Two commits with one digest; for digests that are SHA-256 this does not happen.\<close>

definition digest_repeats :: "nat \<Rightarrow> ree_fs \<Rightarrow> ree_fs \<Rightarrow> bool" where
  "digest_repeats k s s' \<longleftrightarrow> (case (fs_fds s k, fs_fds s' k) of
     (Some fd, Some fd') \<Rightarrow> fh_hash (fd_dfh fd') = fh_hash (fd_dfh fd) | _ \<Rightarrow> False)"

definition with_fd :: "nat \<Rightarrow> 32 word \<Rightarrow> ree_fd option \<Rightarrow> world \<Rightarrow> ree_fs \<Rightarrow> ree_fs" where
  "with_fd k num fdp w s = s\<lparr>fs_nw := put_world (Some num) w (fs_nw s), fs_fds := (fs_fds s)(k := fdp)\<rparr>"

lemma with_fd_simps [simp]:
  "fs_fds (with_fd k num fdp w s) = (fs_fds s)(k := fdp)" "fs_file (with_fd k num fdp w s) = (fs_file s)(Some num := w_stor w)"
  "file_world (Some num) (fs_nw (with_fd k num fdp w s)) = w" "fs_dirh (with_fd k num fdp w s) = fs_dirh s"
  "fs_dirh_refcount (with_fd k num fdp w s) = fs_dirh_refcount s" "calm_fs (with_fd k num fdp w s) = calm w"
  "with_fd k num fdp w (with_fd k num fdp' w' s) = with_fd k num fdp w s"
  by (simp_all add: with_fd_def calm_fs_def calm_def put_world_def file_world_def)

lemma on_handle_with_fd:
  "fs_fds s k = Some fd \<Longrightarrow> fh_file_number (fd_dfh fd) = num \<Longrightarrow> m (Some fd, file_world (Some num) (fs_nw s)) = (r, (fdp, w)) \<Longrightarrow>
   on_handle k m s = (r, with_fd k num fdp w s)"
  using on_handle_run [of s k fd m r fdp w] by (simp add: with_fd_def)

lemma dir_open_with_fd: "calm w \<Longrightarrow> dir_open cr n s d es0 es \<Longrightarrow> dir_open cr n (with_fd k num fdp w s) d es0 es"
  by (simp add: dir_open_def)

text \<open>The file of a handle is written and committed.\<close>

lemma write_and_sync:
  assumes cr: "crypto_ok cr" and fd: "fs_fds s k = Some fd" "fh_file_number (fd_dfh fd) = num" and calm: "calm_fs s"
    and held: "held cr uuid (fs_file s (Some num)) (Some fd) b"
    and com: "committed cr n uuid (fs_file s (Some num)) (fh_hash (fd_dfh fd)) b"
    and buf: "length x = unat len" and len: "unat pos + unat len < 2 ^ 31" and n: "n < 2 ^ 32 - 1"
  shows "\<exists>h d w. io_bind (on_handle k (on_fd (ree_fs_write_primitive cr pos x len))) (\<lambda>_. sync_fd cr k) s
      = (Ok (), with_fd k num (Some \<lparr>fd_ht = h, fd_dfh = (fd_dfh fd)\<lparr>fh_hash := d\<rparr>\<rparr>) w s) \<and> calm w
    \<and> held cr uuid (w_stor w) (Some \<lparr>fd_ht = h, fd_dfh = (fd_dfh fd)\<lparr>fh_hash := d\<rparr>\<rparr>) (bytes_write (unat pos) x b)
    \<and> (d \<noteq> fh_hash (fd_dfh fd) \<longrightarrow> committed cr (Suc n) uuid (w_stor w) d (bytes_write (unat pos) x b))"
proof -
  let ?w = "file_world (Some num) (fs_nw s)" and ?b = "bytes_write (unat pos) x b" and ?h = "fh_hash (fd_dfh fd)"
  have calm1: "calm ?w" using calm by (simp add: calm_fs_def)
  obtain c where c: "kept cr n uuid (w_stor ?w) c b" "?h = ni_hash (image_of c 1)" "hash_finds (Some ?h) c (w_stor ?w)"
    using com by (auto simp: committed_def)
  obtain s0 where s0: "fd_is cr uuid {s0} (Some fd, ?w) b" using held_fd [of cr uuid ?w "Some fd" b] held calm1 by auto
  from write_held [OF cr c(1) s0 calm1 buf len]
  obtain h1 w1 where w1: "on_fd (ree_fs_write_primitive cr pos x len) (Some fd, ?w) = (Ok (), (Some (fd\<lparr>fd_ht := h1\<rparr>), w1))"
    "calm w1" "kept cr n uuid (w_stor w1) c b" "fd_is cr uuid {s0} (Some (fd\<lparr>fd_ht := h1\<rparr>), w1) ?b"
    "st_node (w_stor w1) = st_node (w_stor ?w)" by blast
  from sync_held [OF cr w1(3,4,2) n, of None]
  obtain h d w2 c' where w2: "commit_writes_primitive cr None (Some (fd\<lparr>fd_ht := h1\<rparr>), w1)
      = (Ok None, (Some \<lparr>fd_ht = h, fd_dfh = (fd_dfh fd)\<lparr>fh_hash := d\<rparr>\<rparr>, w2))" "calm w2" "kept cr (Suc n) uuid (w_stor w2) c' ?b"
    "held cr uuid (w_stor w2) (Some \<lparr>fd_ht = h, fd_dfh = (fd_dfh fd)\<lparr>fh_hash := d\<rparr>\<rparr>) ?b"
    and how: "b = ?b \<and> c' = c \<and> w_stor w2 = w_stor w1 \<and> d = ?h \<or> d = ni_hash (image_of c' 1) \<and> recommitted c c' (w_stor w2)"
    by auto
  let ?s1 = "with_fd k num (Some (fd\<lparr>fd_ht := h1\<rparr>)) w1 s"
  have r1: "on_handle k (on_fd (ree_fs_write_primitive cr pos x len)) s = (Ok (), ?s1)"
    by (rule on_handle_with_fd [of s k fd num "on_fd (ree_fs_write_primitive cr pos x len)", OF fd w1(1)])
  have "on_handle k (commit_writes_primitive cr None) ?s1
      = (Ok None, with_fd k num (Some \<lparr>fd_ht = h, fd_dfh = (fd_dfh fd)\<lparr>fh_hash := d\<rparr>\<rparr>) w2 ?s1)"
    by (rule on_handle_with_fd [of _ _ "fd\<lparr>fd_ht := h1\<rparr>"]) (simp_all add: fd w2(1))
  then have run: "io_bind (on_handle k (on_fd (ree_fs_write_primitive cr pos x len))) (\<lambda>_. sync_fd cr k) s
      = (Ok (), with_fd k num (Some \<lparr>fd_ht = h, fd_dfh = (fd_dfh fd)\<lparr>fh_hash := d\<rparr>\<rparr>) w2 s)"
    using r1 by (simp add: io_bind_def sync_fd_def io_ret_def)
  have "committed cr (Suc n) uuid (w_stor w2) d ?b" if "d \<noteq> ?h"
    using how recommitted_committed [OF w2(3)] c(2) that by metis
  then show ?thesis using run w2(2,4) by blast
qed

lemma held_number: "fd_dfh fd = fileh_at es i \<Longrightarrow> (fileh_at es i)\<lparr>fh_hash := x\<rparr> = fileh_at (es[i := (es ! i)\<lparr>de_hash := x\<rparr>]) i"
  if "i < length es"
  using that by (simp add: fileh_at_def)

lemma hash_dent [simp]:
  "used_dent (e\<lparr>de_hash := x\<rparr>) = used_dent e" "dent_key (e\<lparr>de_hash := x\<rparr>) = dent_key e" "file_no (e\<lparr>de_hash := x\<rparr>) = file_no e"
  "dent_ok (e\<lparr>de_hash := x\<rparr>) = dent_ok e"
  by (simp_all add: used_dent_def dent_key_def file_no_def dent_ok_def)

text \<open>The directory takes the new digest.\<close>

lemma update_hash_objs:
  assumes cr: "crypto_ok cr" and n: "n < 2 ^ 24" and dir: "dir_ready cr n s d es" and objs: "objs cr n s0 a es 1"
    and fds: "fs_fds s = (fs_fds s0)(k := Some fd)" and files: "fs_file s = (fs_file s0)(Some (de_file_number (es ! i)) := st)"
    and ref: "fs_dirh_refcount s = fs_dirh_refcount s0"
    and k: "ob_open a k = Some (Some key)" "\<And>j. ob_open a j = Some (Some key) \<Longrightarrow> j = k"
    and i: "i < length es" "used_dent (es ! i)" "dent_key (es ! i) = key" "fd_dfh fd = (fileh_at es i)\<lparr>fh_hash := x\<rparr>"
    and held: "held cr (fst key) st (Some fd) b"
  shows "\<exists>s' d' es'. io_bind (get_dfh k) (\<lambda>dfh. io_bind (in_dirh (tee_fs_dirfile_update_hash (dirf_fops cr) dfh))
      (\<lambda>_. commit_dirh_writes cr)) s = (Ok (), s')
    \<and> (committed cr (Suc n) (fst key) st x b \<longrightarrow> objs cr (Suc n) s' (a\<lparr>ob_map := (ob_map a)(key \<mapsto> b)\<rparr>) es' 1)
    \<and> dir_ready cr (Suc n) s' d' es' \<and> map_option fst (fs_dirh s') = map_option fst (fs_dirh s) \<and> alike s s'"
proof -
  let ?e = "(es ! i)\<lparr>de_hash := x\<rparr>" and ?es = "es[i := (es ! i)\<lparr>de_hash := x\<rparr>]" and ?M = "(ob_map a)(key \<mapsto> b)"
  have dir0: "dir_open cr n s d es es" "dir_wf d es" "dir_ok d es" "length (dh_files d) \<le> n"
    using dir by (simp_all add: dir_ready_def dir_wf_def)
  have es: "dents_in n es" "dents_distinct es" "entries_ok cr n (fs_file s0) es (ob_map a)" "dent_ok (es ! i)"
    "\<forall>j. handle_ok cr (fs_file s0) es (ob_map a) (fs_fds s0 j) (ob_open a j)"
    using objs i(1) by (auto simp: objs_def dents_in_def)
  have idx: "fh_idx (fd_dfh fd) = int i" "fh_file_number (fd_dfh fd) = de_file_number (es ! i)" "fh_hash (fd_dfh fd) = x"
    by (simp_all add: i(4))
  from in_dirh_impl [OF cr dir0(1) nw_directory.nw_update_hash [OF nw_directory.intro [OF cr] dir0(3) i(1,2) idx(1,2)]] idx(3)
  obtain s1 where s1: "in_dirh (tee_fs_dirfile_update_hash (dirf_fops cr) (fd_dfh fd)) s = (Ok (), s1)"
    "dir_open cr n s1 (noted i d) es ?es" "alike s s1" "map_option fst (fs_dirh s1) = map_option fst (fs_dirh s)" by auto
  have "n < 2 ^ 32 - 1" using n by simp
  from commit_dirh [OF cr s1(2) this]
  obtain s2 where s2: "commit_dirh_writes cr s1 = (Ok (), s2)" "dir_open cr (Suc n) s2 (noted i d) ?es ?es" "alike s1 s2"
    "map_option fst (fs_dirh s2) = map_option fst (fs_dirh s1)" by blast
  have al: "alike s s2" by (rule alike_trans [OF s1(3) s2(3)])
  have wf: "dir_wf (noted i d) ?es" by (rule kept_entry(1) [OF dir0(2) i(1,2)]) (use es(4) i(2) in simp_all)
  have put: "?es = put_dent i ?e es" using i(1) by (simp add: put_dent_nth)
  have dist: "dents_distinct (put_dent i ?e es)" using wf put by (simp add: dir_wf_def)
  have other: "fs_file s (Some (de_file_number (es ! j))) = fs_file s0 (Some (de_file_number (es ! j)))"
    if "j < length es" "j \<noteq> i" "used_dent (es ! j)" for j
    using other_number(1) [OF es(2) i(1) that(1,2) i(2) that(3)] by (simp add: files)
  have M: "map_put i ?e b es (ob_map a) = ?M" using i by (simp add: map_put_def Let_def)
  have "entries_ok cr (Suc n) (fs_file s) ?es ?M" if com: "committed cr (Suc n) (fst key) st x b"
    unfolding put M [symmetric]
    by (rule entries_put [OF es(3,2) dist less_imp_le [OF i(1)] _ le_SucI [OF order_refl] other])
       (use i(3) com in \<open>simp_all add: files\<close>)
  moreover have "handle_ok cr (fs_file s) ?es ?M (fs_fds s j) (ob_open a j)" for j
  proof (cases "j = k")
    case True
    have "live_at cr (fs_file s) ?es ?M fd key i"
      using i held by (simp add: live_at_def files fileh_at_def)
    then show ?thesis using True k(1) by (auto simp: handle_ok_def fds)
  next
    case False
    have h: "handle_ok cr (fs_file s0) es (ob_map a) (fs_fds s0 j) (ob_open a j)" using es(5) by blast
    show ?thesis
    proof (cases "\<exists>key'. ob_open a j = Some (Some key')")
      case True
      then obtain key' fd' j' where l: "ob_open a j = Some (Some key')" "fs_fds s0 j = Some fd'"
        "live_at cr (fs_file s0) es (ob_map a) fd' key' j'" using h by (auto simp: handle_ok_def)
      then have ne: "key' \<noteq> key" using k(2) False by blast
      then have "j' \<noteq> i" "j' < length es" "used_dent (es ! j')" using l(3) i(3) by (auto simp: live_at_def)
      then have "live_at cr (fs_file s) ?es ?M fd' key' j'"
        unfolding put using ne other [of j'] by (intro live_put [OF l(3) _ less_imp_le [OF i(1)]]) simp_all
      then show ?thesis using l False by (auto simp: handle_ok_def fds)
    next
      case other: False
      then show ?thesis using h False by (auto simp: handle_ok_def fds split: option.splits)
    qed
  qed
  moreover have "dents_in (Suc n) ?es"
    unfolding put by (rule dents_in_put [OF es(1) dist _ less_imp_le [OF i(1)]]) (use es(1,4) i in \<open>auto simp: dents_in_def less_Suc_eq\<close>)
  ultimately have "objs cr (Suc n) s (a\<lparr>ob_map := ?M\<rparr>) ?es 1" if "committed cr (Suc n) (fst key) st x b"
    using objs ref that by (auto simp: objs_def)
  then have "committed cr (Suc n) (fst key) st x b \<longrightarrow> objs cr (Suc n) s2 (a\<lparr>ob_map := ?M\<rparr>) ?es 1"
    using objs_alike [OF al] by blast
  moreover have "dir_ready cr (Suc n) s2 (noted i d) ?es" using s2(2) wf dir0(4) by (simp add: dir_ready_def)
  moreover have "io_bind (get_dfh k) (\<lambda>dfh. io_bind (in_dirh (tee_fs_dirfile_update_hash (dirf_fops cr) dfh))
      (\<lambda>_. commit_dirh_writes cr)) s = (Ok (), s2)"
    using s1(1) s2(1) by (simp add: io_bind_def get_dfh_def fds)
  ultimately show ?thesis using s1(4) s2(4) al by metis
qed

lemma busy_handle:
  assumes "alike s s1" and "fs_fds s k = Some fd"
  shows "fs_fds s1 k = Some fd"
  using assms by (simp add: alike_def)

lemma write_objs:
  assumes cr: "crypto_ok cr" and n: "0 < n" "Suc n < 2 ^ 24" and ok: "fs_ok cr n s a"
    and k: "ob_open a k = Some (Some key)" "\<And>j. ob_open a j = Some (Some key) \<Longrightarrow> j = k" "ob_map a key = Some b"
    and buf: "length x = unat len" and len: "unat pos + unat len < 2 ^ 31"
  shows "\<exists>s'. ree_fs_write cr k pos x len s = (Ok (), s')
    \<and> (digest_repeats k s s' \<or> fs_ok cr (Suc n) s' (a\<lparr>ob_map := (ob_map a)(key \<mapsto> bytes_write (unat pos) x b)\<rparr>))"
proof -
  have n': "n < 2 ^ 24" using n(2) by simp
  obtain y s1 d es where g: "get_dirh cr s = (Ok y, s1)" "busy cr n s1 a y d es" "fs_fds s1 = fs_fds s" using get_dirh_ok [OF cr n(1) n' ok] by blast
  have objs: "objs cr n s1 a es 1" and dir: "dir_ready cr n s1 d es" and calm: "calm_fs s1"
    using g(2) busy_dir [OF g(2)] by (simp_all add: busy_def)
  obtain fd i where f: "fs_fds s1 k = Some fd" "i < length es" "used_dent (es ! i)" "dent_key (es ! i) = key"
    "fd_dfh fd = fileh_at es i" "held cr (fst key) (fs_file s1 (Some (de_file_number (es ! i)))) (Some fd) b"
    "committed cr n (fst key) (fs_file s1 (Some (de_file_number (es ! i)))) (fh_hash (fd_dfh fd)) b"
    using live_handle [OF objs k(1)] k(3) by (metis fileh_at_number(2) option.inject)
  let ?num = "de_file_number (es ! i)" and ?b = "bytes_write (unat pos) x b"
  have num: "fh_file_number (fd_dfh fd) = ?num" using f(5) by simp
  have "n < 2 ^ 32 - 1" using n' by simp
  from write_and_sync [OF cr f(1) num calm f(6,7) buf len this]
  obtain h z w where w: "io_bind (on_handle k (on_fd (ree_fs_write_primitive cr pos x len))) (\<lambda>_. sync_fd cr k) s1
      = (Ok (), with_fd k ?num (Some \<lparr>fd_ht = h, fd_dfh = (fd_dfh fd)\<lparr>fh_hash := z\<rparr>\<rparr>) w s1)" "calm w"
    "held cr (fst key) (w_stor w) (Some \<lparr>fd_ht = h, fd_dfh = (fd_dfh fd)\<lparr>fh_hash := z\<rparr>\<rparr>) ?b"
    "z \<noteq> fh_hash (fd_dfh fd) \<longrightarrow> committed cr (Suc n) (fst key) (w_stor w) z ?b" by blast
  let ?fd = "\<lparr>fd_ht = h, fd_dfh = (fd_dfh fd)\<lparr>fh_hash := z\<rparr>\<rparr>" and ?s2 = "with_fd k ?num (Some \<lparr>fd_ht = h, fd_dfh = (fd_dfh fd)\<lparr>fh_hash := z\<rparr>\<rparr>) w s1"
  have dfh: "fd_dfh ?fd = (fileh_at es i)\<lparr>fh_hash := z\<rparr>" using f(5) by simp
  have "dir_ready cr n ?s2 d es" using dir dir_open_with_fd [OF w(2)] by (simp add: dir_ready_def)
  from update_hash_objs [OF cr n' this objs _ _ _ k(1,2) f(2-4) dfh w(3)]
  obtain s3 d' es' where u: "io_bind (get_dfh k) (\<lambda>dfh. io_bind (in_dirh (tee_fs_dirfile_update_hash (dirf_fops cr) dfh))
      (\<lambda>_. commit_dirh_writes cr)) ?s2 = (Ok (), s3)"
    "committed cr (Suc n) (fst key) (w_stor w) z ?b \<longrightarrow> objs cr (Suc n) s3 (a\<lparr>ob_map := (ob_map a)(key \<mapsto> ?b)\<rparr>) es' 1"
    "dir_ready cr (Suc n) s3 d' es'" "map_option fst (fs_dirh s3) = map_option fst (fs_dirh ?s2)" "alike ?s2 s3"
    by auto
  let ?body = "io_bind (on_handle k (on_fd (ree_fs_write_primitive cr pos x len))) (\<lambda>_. update_hash cr k)"
  have body: "?body s1 = (Ok (), s3)"
    using w(1) u(1) by (auto simp: io_bind_def update_hash_def split: prod.splits io.splits)
  have y: "map_option fst (fs_dirh s3) = Some y" using u(4) g(2) by (simp add: busy_def)
  have "dir_open cr (Suc n) s3 d' es' es'" "fs_dirh_refcount s3 \<noteq> 0"
    using u(3,5) busy_refcount [OF g(2) n'] by (simp_all add: dir_ready_def alike_def)
  from put_dirh_primitive_open [OF this, of False]
  obtain s' where p: "put_dirh cr y False s3 = (Ok (), s')" "alike (s3\<lparr>fs_dirh_refcount := fs_dirh_refcount s3 - 1\<rparr>) s'"
    using y by (auto simp: put_dirh_def)
  have run: "ree_fs_write cr k pos x len s = (Ok (), s')"
    using g(1) body p(1) by (simp add: ree_fs_write_def with_dirh_def io_bind_def io_try_def io_ret_def)
  show ?thesis
  proof (cases "z = fh_hash (fd_dfh fd)")
    case True
    have "fs_fds s' k = Some ?fd" using p(2) u(5) by (simp add: alike_def)
    moreover have "fs_fds s k = Some fd" using f(1) g(3) by simp
    ultimately show ?thesis using run True by (auto simp: digest_repeats_def)
  next
    case False
    then have "busy cr (Suc n) s3 (a\<lparr>ob_map := (ob_map a)(key \<mapsto> ?b)\<rparr>) y d' es'" using u(2,3) w(4) y by (simp add: busy_def)
    from put_dirh_ok [OF this n(2), of False] show ?thesis using p(1) run by auto
  qed
qed

section \<open>Names that come and go\<close>

definition store_ok :: "fs_crypto \<Rightarrow> nat \<Rightarrow> (32 word option \<Rightarrow> storage) \<Rightarrow> (nat \<Rightarrow> ree_fd option) \<Rightarrow> dirfile_entry list
    \<Rightarrow> objects \<Rightarrow> bool" where
  "store_ok cr n F fds es a \<longleftrightarrow> dents_in n es \<and> entries_ok cr n F es (ob_map a)
     \<and> (\<forall>k. handle_ok cr F es (ob_map a) (fds k) (ob_open a k))"

lemma objs_store:
  "objs cr n s a es r \<longleftrightarrow> store_ok cr n (fs_file s) (fs_fds s) es a \<and> finite (dom (ob_open a))
     \<and> card (dom (ob_open a)) \<le> n \<and> unat (fs_dirh_refcount s) = card (dom (ob_open a)) + r"
  by (auto simp: objs_def store_ok_def)

text \<open>Handles on an object that is removed are left over; those on one that is renamed follow it.\<close>

definition orphan :: "obj_key \<Rightarrow> objects \<Rightarrow> objects" where
  "orphan key a = \<lparr>ob_map = (ob_map a)(key := None),
     ob_open = (\<lambda>k. if ob_open a k = Some (Some key) then Some None else ob_open a k)\<rparr>"

definition renamed :: "obj_key \<Rightarrow> obj_key \<Rightarrow> objects \<Rightarrow> objects" where
  "renamed old new a = \<lparr>ob_map = (ob_map a)(old := None, new := ob_map a old),
     ob_open = (\<lambda>k. if ob_open a k = Some (Some old) then Some (Some new) else ob_open a k)\<rparr>"

lemma dom_open [simp]: "dom (ob_open (orphan key a)) = dom (ob_open a)" "dom (ob_open (renamed old new a)) = dom (ob_open a)"
  by (auto simp: orphan_def renamed_def split: if_splits)

text \<open>A handle on another entry.\<close>

lemma handle_ok_put:
  assumes h: "handle_ok cr F es M fdp ho" and i: "i \<le> length es"
    and ho: "i < length es \<Longrightarrow> used_dent (es ! i) \<Longrightarrow> ho \<noteq> Some (Some (dent_key (es ! i)))"
    and same: "\<And>j. j < length es \<Longrightarrow> j \<noteq> i \<Longrightarrow> used_dent (es ! j) \<Longrightarrow>
      F' (Some (de_file_number (es ! j))) = F (Some (de_file_number (es ! j))) \<and> M' (dent_key (es ! j)) = M (dent_key (es ! j))"
  shows "handle_ok cr F' (put_dent i e es) M' fdp ho"
proof (cases "\<exists>key. ho = Some (Some key)")
  case True
  then obtain key fd j where l: "ho = Some (Some key)" "fdp = Some fd" "live_at cr F es M fd key j"
    using h by (auto simp: handle_ok_def)
  then have j: "j < length es" "used_dent (es ! j)" "dent_key (es ! j) = key" by (simp_all add: live_at_def)
  then have "j \<noteq> i" using ho l(1) by auto
  then have "live_at cr F' (put_dent i e es) M' fd key j" using same [OF j(1) _ j(2)] j(3) by (intro live_put [OF l(3) _ i]) simp_all
  then show ?thesis using l(1,2) by (auto simp: handle_ok_def)
next
  case False
  then show ?thesis using h by (auto simp: handle_ok_def split: option.splits)
qed

lemma store_free:
  assumes ok: "store_ok cr n F fds es a" and i: "i < length es" "used_dent (es ! i)" "dent_key (es ! i) = key"
    and same: "\<And>j. j < length es \<Longrightarrow> j \<noteq> i \<Longrightarrow> used_dent (es ! j) \<Longrightarrow>
      F' (Some (de_file_number (es ! j))) = F (Some (de_file_number (es ! j)))" and n: "n < m"
  shows "store_ok cr m F' fds (es[i := zero_dent]) (orphan key a)"
proof -
  have ok': "dents_in n es" "dents_distinct es" "entries_ok cr n F es (ob_map a)"
    "\<And>k. handle_ok cr F es (ob_map a) (fds k) (ob_open a k)"
    using ok by (simp_all add: store_ok_def dents_in_def)
  have put: "es[i := zero_dent] = put_dent i zero_dent es" using i(1) by (simp add: put_dent_nth)
  have le: "i \<le> length es" using i(1) by simp
  have dist: "dents_distinct (put_dent i zero_dent es)" by (rule dents_distinct_put [OF ok'(2) le]) simp
  have M: "map_put i zero_dent [] es (ob_map a) = ob_map (orphan key a)" using i by (simp add: map_put_def Let_def orphan_def)
  have "entries_ok cr m F' (put_dent i zero_dent es) (ob_map (orphan key a))"
    unfolding M [symmetric] by (rule entries_put [OF ok'(3,2) dist le _ _ same]) (use n in simp_all)
  moreover have "dents_in m (put_dent i zero_dent es)"
    by (rule dents_in_put [OF ok'(1) dist _ le]) (use n ok'(1) i in \<open>auto simp: dents_in_def\<close>)
  moreover have "handle_ok cr F' (put_dent i zero_dent es) (ob_map (orphan key a)) (fds k) (ob_open (orphan key a) k)" for k
  proof (cases "ob_open a k = Some (Some key)")
    case True
    then show ?thesis using ok'(4) [of k] by (auto simp: handle_ok_def orphan_def)
  next
    case False
    have "handle_ok cr F' (put_dent i zero_dent es) (ob_map (orphan key a)) (fds k) (ob_open a k)"
    proof (rule handle_ok_put [OF ok'(4) le])
      show "F' (Some (de_file_number (es ! j))) = F (Some (de_file_number (es ! j)))
          \<and> ob_map (orphan key a) (dent_key (es ! j)) = ob_map a (dent_key (es ! j))"
        if "j < length es" "j \<noteq> i" "used_dent (es ! j)" for j
        using same [OF that] other_number(2) [OF ok'(2) i(1) that(1,2) i(2) that(3)] i(3) by (simp add: orphan_def)
    qed (use False i(3) in simp)
    then show ?thesis using False by (simp add: orphan_def)
  qed
  ultimately show ?thesis by (simp add: store_ok_def put)
qed

text \<open>A new name in a free place.\<close>

lemma free_name: "entries_ok cr n F es M \<Longrightarrow> M key = None \<Longrightarrow> j < length es \<Longrightarrow> used_dent (es ! j) \<Longrightarrow> dent_key (es ! j) \<noteq> key"
  unfolding entries_ok_def entry_for_def by fastforce

lemma store_put:
  assumes ok: "store_ok cr n F fds es a" and i: "i \<le> length es" "i < length es \<Longrightarrow> \<not> used_dent (es ! i)"
    and e: "dent_ok e" "used_dent e" "ob_map a (dent_key e) = None" "file_no e < m"
    and com: "committed cr m (fst (dent_key e)) (F' (Some (de_file_number e))) (de_hash e) b" and n: "n < m"
    and same: "\<And>j. j < length es \<Longrightarrow> used_dent (es ! j) \<Longrightarrow> de_file_number (es ! j) \<noteq> de_file_number e
      \<and> F' (Some (de_file_number (es ! j))) = F (Some (de_file_number (es ! j)))"
  shows "store_ok cr m F' fds (put_dent i e es) (a\<lparr>ob_map := (ob_map a)(dent_key e \<mapsto> b)\<rparr>)"
proof -
  have ok': "dents_in n es" "dents_distinct es" "entries_ok cr n F es (ob_map a)"
    "\<And>k. handle_ok cr F es (ob_map a) (fds k) (ob_open a k)"
    using ok by (simp_all add: store_ok_def dents_in_def)
  have key: "j < length es \<Longrightarrow> used_dent (es ! j) \<Longrightarrow> dent_key (es ! j) \<noteq> dent_key e" for j
    using free_name [OF ok'(3) e(3)] by blast
  have dist: "dents_distinct (put_dent i e es)"
    by (rule dents_distinct_put [OF ok'(2) i(1)]) (use key same in \<open>auto simp: file_no_def simp flip: word_unat_eq_iff\<close>)
  have M: "map_put i e b es (ob_map a) = (ob_map a)(dent_key e \<mapsto> b)" using i(2) e(2) by (auto simp: map_put_def Let_def)
  have "entries_ok cr m F' (put_dent i e es) ((ob_map a)(dent_key e \<mapsto> b))"
    unfolding M [symmetric] by (rule entries_put [OF ok'(3,2) dist i(1)]) (use com n same in auto)
  moreover have "dents_in m (put_dent i e es)"
    by (rule dents_in_put [OF ok'(1) dist e(1) i(1)]) (use n ok'(1) e(4) in \<open>auto simp: dents_in_def\<close>)
  moreover have "handle_ok cr F' (put_dent i e es) ((ob_map a)(dent_key e \<mapsto> b)) (fds k) (ob_open a k)" for k
    by (rule handle_ok_put [OF ok'(4) i(1)]) (use i(2) key same in auto)
  ultimately show ?thesis by (simp add: store_ok_def)
qed

text \<open>A new name for an entry, with its file.\<close>

lemma name_dent_simps:
  assumes "length uuid = 16" and "length oid \<le> 64"
  shows "dent_ok (name_dent uuid dfh oid)" "used_dent (name_dent uuid dfh oid)" "dent_key (name_dent uuid dfh oid) = (uuid, oid)"
    "de_file_number (name_dent uuid dfh oid) = fh_file_number dfh" "de_hash (name_dent uuid dfh oid) = fh_hash dfh"
proof -
  show ok: "dent_ok (name_dent uuid dfh oid)" by (rule name_dent_ok(1) [OF assms])
  have "names uuid oid (name_dent uuid dfh oid)" using name_dent_ok(2) [OF assms] by blast
  then show "used_dent (name_dent uuid dfh oid)" "dent_key (name_dent uuid dfh oid) = (uuid, oid)"
    using names_key [OF ok] by blast+
qed (simp_all add: name_dent_def)

lemma store_rename:
  assumes ok: "store_ok cr n F fds es a" and i: "i < length es" "used_dent (es ! i)" "dent_key (es ! i) = old"
    and e: "dent_ok e" "used_dent e" "dent_key e = new" "de_file_number e = de_file_number (es ! i)" "de_hash e = de_hash (es ! i)"
    and new: "ob_map a new = None" "fst new = fst old"
  shows "store_ok cr (Suc n) F fds (es[i := e]) (renamed old new a)"
proof -
  have ok': "dents_in n es" "dents_distinct es" "entries_ok cr n F es (ob_map a)"
    "\<And>k. handle_ok cr F es (ob_map a) (fds k) (ob_open a k)"
    using ok by (simp_all add: store_ok_def dents_in_def)
  have put: "es[i := e] = put_dent i e es" using i(1) by (simp add: put_dent_nth)
  have le: "i \<le> length es" using i(1) by simp
  have key: "j < length es \<Longrightarrow> used_dent (es ! j) \<Longrightarrow> dent_key (es ! j) \<noteq> new" for j using free_name [OF ok'(3) new(1)] by blast
  have other: "de_file_number (es ! j) \<noteq> de_file_number (es ! i)" "dent_key (es ! j) \<noteq> old"
    if "j < length es" "j \<noteq> i" "used_dent (es ! j)" for j
    using other_number [OF ok'(2) i(1) that(1,2) i(2) that(3)] i(3) by simp_all
  have dist: "dents_distinct (put_dent i e es)"
    by (rule dents_distinct_put [OF ok'(2) le])
       (use key other(1) e(3,4) in \<open>auto simp: file_no_def simp flip: word_unat_eq_iff\<close>)
  have "entry_for cr n F (ob_map a) (es ! i)" using ok'(3) i(1,2) by (simp add: entries_ok_def)
  then obtain b where b: "ob_map a old = Some b" "committed cr n (fst old) (F (Some (de_file_number (es ! i)))) (de_hash (es ! i)) b"
    using i(3) by (auto simp: entry_for_def)
  have ne: "new \<noteq> old" using b(1) new(1) by auto
  have M: "map_put i e b es (ob_map a) = ob_map (renamed old new a)" using i e b(1) by (simp add: map_put_def Let_def renamed_def)
  have "entries_ok cr (Suc n) F (put_dent i e es) (ob_map (renamed old new a))"
    unfolding M [symmetric]
    by (rule entries_put [OF ok'(3,2) dist le]) (use b(2) e new(2) committed_mono in auto)
  moreover have "dents_in (Suc n) (put_dent i e es)"
    by (rule dents_in_put [OF ok'(1) dist e(1) le]) (use ok'(1) i e(4) in \<open>auto simp: dents_in_def file_no_def less_Suc_eq\<close>)
  moreover have "handle_ok cr F (put_dent i e es) (ob_map (renamed old new a)) (fds k) (ob_open (renamed old new a) k)" for k
  proof (cases "ob_open a k = Some (Some old)")
    case True
    then obtain fd j where l: "fds k = Some fd" "live_at cr F es (ob_map a) fd old j" using ok'(4) [of k] by (auto simp: handle_ok_def)
    then have "j = i" using other(2) by (auto simp: live_at_def)
    then have "live_at cr F (put_dent i e es) (ob_map (renamed old new a)) fd new i"
      using l(2) i e new(2) put_dent_at(1) [OF le, of e] put_dent_at(2) [OF le, of i e]
      by (auto simp: live_at_def fileh_at_def renamed_def)
    then show ?thesis using True l(1) by (auto simp: handle_ok_def renamed_def)
  next
    case False
    have "handle_ok cr F (put_dent i e es) (ob_map (renamed old new a)) (fds k) (ob_open a k)"
      by (rule handle_ok_put [OF ok'(4) le]) (use False i(3) other(2) key in \<open>auto simp: renamed_def\<close>)
    then show ?thesis using False by (simp add: renamed_def)
  qed
  ultimately show ?thesis by (simp add: store_ok_def put)
qed

text \<open>Files that no entry names do not matter.\<close>

lemma store_files:
  assumes ok: "store_ok cr n F fds es a"
    and same: "\<And>j. j < length es \<Longrightarrow> used_dent (es ! j) \<Longrightarrow> F' (Some (de_file_number (es ! j))) = F (Some (de_file_number (es ! j)))"
  shows "store_ok cr n F' fds es a"
proof -
  have "handle_ok cr F' es (ob_map a) (fds k) (ob_open a k)" for k
  proof -
    have "handle_ok cr F es (ob_map a) (fds k) (ob_open a k)" using ok by (simp add: store_ok_def)
    then show ?thesis using same by (fastforce simp: handle_ok_def live_at_def split: option.splits)
  qed
  moreover have "entries_ok cr n F' es (ob_map a)" using ok same by (simp add: store_ok_def entries_ok_def entry_for_def)
  ultimately show ?thesis using ok by (simp add: store_ok_def)
qed

section \<open>Removing\<close>

lemma remove_file_calm:
  assumes "calm_fs s"
  shows "\<exists>s'. quietly (remove_file num) s = (Ok (), s') \<and> fs_file s' = (fs_file s)(Some num := drop_storage (fs_file s (Some num)))
    \<and> fs_fds s' = fs_fds s \<and> fs_dirh s' = fs_dirh s \<and> fs_dirh_refcount s' = fs_dirh_refcount s \<and> calm_fs s'"
  using assms by (simp add: quietly_def remove_file_def at_file_def io_try_def io_ret_def calm_fs_def calm_def put_world_def file_world_def)

lemma dir_ready_files:
  "fs_dirh s' = fs_dirh s \<Longrightarrow> fs_file s' None = fs_file s None \<Longrightarrow> calm_fs s' \<Longrightarrow> dir_ready cr n s d es \<Longrightarrow> dir_ready cr n s' d es"
  by (simp add: dir_ready_def dir_open_def)

lemma length_without [simp]: "length (dh_files (without_bit i d)) = length (dh_files d)"
  by (simp add: without_bit_def)

lemma wf_free:
  assumes "dir_wf d es" and "i < length es" and "used_dent (es ! i)"
  shows "dir_wf (without_bit (file_no (es ! i)) (noted i d)) (es[i := zero_dent])"
  by (rule kept_entry(1) [OF assms]) auto

text \<open>After the entry of a file has been freed and that committed, the file goes.\<close>

lemma drop_file_store:
  assumes store: "store_ok cr n (fs_file s) (fs_fds s) es a" and dir: "dir_ready cr n s d es"
    and free: "\<And>j. j < length es \<Longrightarrow> used_dent (es ! j) \<Longrightarrow> de_file_number (es ! j) \<noteq> num"
  shows "\<exists>s'. quietly (remove_file num) s = (Ok (), s') \<and> store_ok cr n (fs_file s') (fs_fds s') es a \<and> dir_ready cr n s' d es
    \<and> fs_dirh s' = fs_dirh s \<and> fs_dirh_refcount s' = fs_dirh_refcount s"
proof -
  have "calm_fs s" using dir by (simp add: dir_ready_def dir_open_def)
  from remove_file_calm [OF this] obtain s' where s': "quietly (remove_file num) s = (Ok (), s')"
    "fs_file s' = (fs_file s)(Some num := drop_storage (fs_file s (Some num)))" "fs_fds s' = fs_fds s" "fs_dirh s' = fs_dirh s"
    "fs_dirh_refcount s' = fs_dirh_refcount s" "calm_fs s'" by blast
  have "store_ok cr n (fs_file s') (fs_fds s) es a"
    by (rule store_files [OF store]) (use free s'(2) in simp)
  moreover have "dir_ready cr n s' d es" by (rule dir_ready_files [OF s'(4) _ s'(6) dir]) (simp add: s'(2))
  ultimately show ?thesis using s'(1,3,4,5) by auto
qed

lemma store_alike:
  assumes "alike s0 s"
  shows "store_ok cr n (fs_file s) (fs_fds s) es a = store_ok cr n (fs_file s0) (fs_fds s0) es a"
  using assms store_files [of cr n "fs_file s" "fs_fds s" es a "fs_file s0"] store_files [of cr n "fs_file s0" "fs_fds s" es a "fs_file s"]
  by (auto simp: alike_def)

lemma drop_file_objs:
  assumes store: "store_ok cr n (fs_file s0) (fs_fds s0) es a" and al: "alike s0 s" and dir: "dir_ready cr n s d es"
    and free: "\<And>j. j < length es \<Longrightarrow> used_dent (es ! j) \<Longrightarrow> de_file_number (es ! j) \<noteq> num"
    and dom: "finite (dom (ob_open a))" "card (dom (ob_open a)) \<le> n" "unat (fs_dirh_refcount s0) = card (dom (ob_open a)) + 1"
    and x: "map_option fst (fs_dirh s) = Some x"
  shows "\<exists>s'. quietly (remove_file num) s = (Ok (), s') \<and> busy cr n s' a x d es"
proof -
  have "store_ok cr n (fs_file s) (fs_fds s) es a" using store store_alike [OF al] by blast
  from drop_file_store [OF this dir free] obtain s' where s': "quietly (remove_file num) s = (Ok (), s')"
    "store_ok cr n (fs_file s') (fs_fds s') es a" "dir_ready cr n s' d es" "fs_dirh s' = fs_dirh s"
    "fs_dirh_refcount s' = fs_dirh_refcount s" by blast
  moreover have "fs_dirh_refcount s = fs_dirh_refcount s0" using al by (simp add: alike_def)
  ultimately show ?thesis using dom x by (auto simp: busy_def objs_store)
qed

lemma orphan_none: "ob_map (orphan key a) key = None"
  by (simp add: orphan_def)

lemma remove_objs:
  assumes cr: "crypto_ok cr" and n: "0 < n" "Suc n < 2 ^ 24" and ok: "fs_ok cr n s a"
  shows "\<exists>r s'. ree_fs_remove cr uuid oid s = (r, s') \<and> (case ob_map a (uuid, oid) of
      None \<Rightarrow> r = Fail TEE_ERROR_ITEM_NOT_FOUND \<and> fs_ok cr (Suc n) s' a
    | Some b \<Rightarrow> r = Ok () \<and> fs_ok cr (Suc n) s' (orphan (uuid, oid) a))"
proof -
  have n': "n < 2 ^ 24" using n(2) by simp
  let ?key = "(uuid, oid)" and ?find = "in_dirh (tee_fs_dirfile_find (dirf_fops cr) uuid oid)"
  let ?body = "io_bind ?find (\<lambda>dfh. io_bind (in_dirh (tee_fs_dirfile_remove (dirf_fops cr) dfh)) (\<lambda>_.
      io_bind (commit_dirh_writes cr) (\<lambda>_. io_bind (quietly (remove_file (fh_file_number dfh))) (\<lambda>_.
        io_try ?find (\<lambda>_. io_stuck) (\<lambda>_. io_ret ())))))"
  have "\<exists>r s2. ?body s1 = (r, s2) \<and> (r = (if ob_map a ?key = None then Fail TEE_ERROR_ITEM_NOT_FOUND else Ok ()))
      \<and> (case r of Ok y \<Rightarrow> \<exists>d' es'. busy cr (Suc n) s2 (orphan ?key a) x d' es'
        | Fail e \<Rightarrow> \<exists>d' es'. busy cr (Suc n) s2 a x d' es' | Stuck \<Rightarrow> False)"
    if busy: "busy cr n s1 a x d es" for x s1 d es
  proof -
    obtain s2 where f: "?find s1 = (find_result es uuid oid, s2)" "busy cr n s2 a x d es" using find_busy [OF cr busy] by blast
    have objs: "objs cr n s2 a es 1" and x: "map_option fst (fs_dirh s2) = Some x" using f(2) by (simp_all add: busy_def)
    show ?thesis
    proof (cases "ob_map a ?key")
      case None
      then have "find_result es uuid oid = Fail TEE_ERROR_ITEM_NOT_FOUND" using find_objs [OF objs, of uuid oid] by simp
      moreover have "busy cr (Suc n) s2 a x d es"
        using busy_mono [OF f(2)] by simp
      ultimately show ?thesis using f(1) None by (auto simp: io_bind_def)
    next
      case (Some b)
      then obtain i where i: "find_result es uuid oid = Ok (fileh_at es i)" "i < length es" "used_dent (es ! i)" "dent_key (es ! i) = ?key"
        using find_objs [OF objs, of uuid oid] by auto
      have dir: "dir_open cr n s2 d es es" "dir_wf d es" "dir_ok d es" "length (dh_files d) \<le> n" using busy_dir [OF f(2)] by simp_all
      let ?d = "without_bit (file_no (es ! i)) (noted i d)" and ?es = "es[i := zero_dent]"
      from in_dirh_impl [OF cr dir(1) nw_directory.nw_remove [OF nw_directory.intro [OF cr] dir(3) i(2,3),
            of "fileh_at es i"]]
      obtain s3 where s3: "in_dirh (tee_fs_dirfile_remove (dirf_fops cr) (fileh_at es i)) s2 = (Ok (), s3)"
        "dir_open cr n s3 ?d es ?es" "alike s2 s3" "map_option fst (fs_dirh s3) = map_option fst (fs_dirh s2)" by auto
      have "n < 2 ^ 32 - 1" using n' by simp
      from commit_dirh [OF cr s3(2) this]
      obtain s4 where s4: "commit_dirh_writes cr s3 = (Ok (), s4)" "dir_open cr (Suc n) s4 ?d ?es ?es" "alike s3 s4"
        "map_option fst (fs_dirh s4) = map_option fst (fs_dirh s3)" by blast
      have store: "store_ok cr n (fs_file s2) (fs_fds s2) es a" and dom: "finite (dom (ob_open a))" "card (dom (ob_open a)) \<le> n"
        "unat (fs_dirh_refcount s2) = card (dom (ob_open a)) + 1"
        using objs by (simp_all add: objs_store)
      have free: "store_ok cr (Suc n) (fs_file s2) (fs_fds s2) ?es (orphan ?key a)"
        by (rule store_free [OF store i(2-4)]) simp_all
      have ready: "dir_ready cr (Suc n) s4 ?d ?es"
        using s4(2) wf_free [OF dir(2) i(2,3)] dir(4) by (simp add: dir_ready_def)
      have gone: "de_file_number (?es ! j) \<noteq> de_file_number (es ! i)" if "j < length ?es" "used_dent (?es ! j)" for j
      proof -
        have "j \<noteq> i" using that(2) i(2) by (cases "j = i") simp_all
        then show ?thesis using that other_number(1) [of es i j] dir(2) i(2,3) by (simp add: dir_wf_def)
      qed
      have "alike s2 s4" by (rule alike_trans [OF s3(3) s4(3)])
      from drop_file_objs [OF free this ready gone] dom s3(4) s4(4) x
      obtain s5 where s5: "quietly (remove_file (de_file_number (es ! i))) s4 = (Ok (), s5)"
        "busy cr (Suc n) s5 (orphan ?key a) x ?d ?es" by auto
      obtain s6 where s6: "?find s5 = (find_result ?es uuid oid, s6)" "busy cr (Suc n) s6 (orphan ?key a) x ?d ?es"
        using find_busy [OF cr s5(2)] by blast
      have "objs cr (Suc n) s6 (orphan ?key a) ?es 1" using s6(2) by (simp add: busy_def)
      from find_objs [OF this, of uuid oid] have "find_result ?es uuid oid = Fail TEE_ERROR_ITEM_NOT_FOUND"
        by (simp add: orphan_none)
      then show ?thesis
        using f(1) i(1) s3(1) s4(1) s5(1) s6 Some by (auto simp: io_bind_def io_try_def io_ret_def)
    qed
  qed
  note body = this
  have "\<exists>r s'. ree_fs_remove cr uuid oid s = (r, s') \<and> r = (if ob_map a ?key = None then Fail TEE_ERROR_ITEM_NOT_FOUND else Ok ())
    \<and> (case r of Ok y \<Rightarrow> fs_ok cr (Suc n) s' (orphan ?key a) | Fail e \<Rightarrow> fs_ok cr (Suc n) s' a | Stuck \<Rightarrow> False)"
    unfolding ree_fs_remove_def by (rule with_dirh_ok [OF cr n(1) n' n(2) ok]) (rule body)
  then obtain r s' where "ree_fs_remove cr uuid oid s = (r, s')" "r = (if ob_map a ?key = None then Fail TEE_ERROR_ITEM_NOT_FOUND else Ok ())"
    "case r of Ok y \<Rightarrow> fs_ok cr (Suc n) s' (orphan ?key a) | Fail e \<Rightarrow> fs_ok cr (Suc n) s' a | Stuck \<Rightarrow> False" by blast
  then show ?thesis by (cases "ob_map a ?key") auto
qed

section \<open>Renaming\<close>

lemma ok_renamed:
  assumes "dir_ok d es" and i: "i < length es" "used_dent (es ! i)" and e: "dent_ok e" "file_no e = file_no (es ! i)"
  shows "dir_ok (noted i d) (es[i := e])"
proof -
  have "has_bit d (file_no (es ! i))" "length (dh_files d) < 2 ^ 31" using assms(1) i by (simp_all add: dir_ok_def)
  then have "dir_ok (noted i d) (put_dent i e es)" by (intro dir_ok_put [OF assms(1) e(1) less_imp_le [OF i(1)]]) (simp_all add: i(1) e(2))
  then show ?thesis using i(1) by (simp add: put_dent_nth)
qed

lemma ok_freed:
  assumes "dir_ok d es" and i: "i < length es" "used_dent (es ! i)"
    and alone: "\<And>j. j < length es \<Longrightarrow> j \<noteq> i \<Longrightarrow> used_dent (es ! j) \<Longrightarrow> file_no (es ! j) \<noteq> file_no (es ! i)"
  shows "dir_ok (without_bit (file_no (es ! i)) (noted i d)) (es[i := zero_dent])"
proof -
  have "length (dh_files d) < 2 ^ 31" using assms(1) by (simp add: dir_ok_def)
  then have "dir_ok (without_bit (file_no (es ! i)) (noted i d)) (put_dent i zero_dent es)"
    by (intro dir_ok_put [OF assms(1) _ less_imp_le [OF i(1)]]) (use i alone in auto)
  then show ?thesis using i(1) by (simp add: put_dent_nth)
qed

text \<open>The entry gets its new name, and that of an object with this name goes.\<close>

definition gone_of :: "dirfile_entry list \<Rightarrow> nat option \<Rightarrow> dirfile_fileh option" where
  "gone_of es g = map_option (fileh_at es) g"

lemma rename_dir:
  assumes cr: "crypto_ok cr" and n: "n < 2 ^ 24" and dir: "dir_ready cr n s d es" and es: "dents_in n es"
    and i: "i < length es" "used_dent (es ! i)"
    and g: "\<And>j. g = Some j \<Longrightarrow> j < length es \<and> used_dent (es ! j) \<and> j \<noteq> i"
    and new: "length uuid = 16" "length oid \<le> 64"
    and e: "e = name_dent uuid (fileh_at es i) oid" and es': "es' = (case g of None \<Rightarrow> es | Some j \<Rightarrow> es[j := zero_dent])[i := e]"
    and dist: "dents_distinct es'"
  shows "\<exists>s' d'. io_bind (in_dirh (tee_fs_dirfile_rename (dirf_fops cr) uuid (fileh_at es i) oid)) (\<lambda>_.
      io_bind (case gone_of es g of None \<Rightarrow> io_ret () | Some f \<Rightarrow> in_dirh (tee_fs_dirfile_remove (dirf_fops cr) f)) (\<lambda>_.
      commit_dirh_writes cr)) s = (Ok (), s') \<and> dir_ready cr (Suc n) s' d' es' \<and> alike s s'
      \<and> map_option fst (fs_dirh s') = map_option fst (fs_dirh s)"
proof -
  note loc = nw_directory.intro [OF cr]
  have dir0: "dir_open cr n s d es es" "dir_ok d es" "length (dh_files d) \<le> n" using dir by (simp_all add: dir_ready_def dir_wf_def)
  have n32: "n < 2 ^ 32 - 1" using n by simp
  have room: "dent_size * Suc i < 2 ^ 31" using es i(1) n by (simp add: dents_in_def dent_size_def)
  have le: "i \<le> length es" using i(1) by simp
  have e': "dent_ok e" "file_no e = file_no (es ! i)" "used_dent e"
    unfolding e file_no_def name_dent_simps(4) [OF new] using name_dent_simps(1,2) [OF new] by simp_all
  let ?es1 = "es[i := e]" and ?d1 = "noted i d"
  have put: "put_dent i e es = ?es1" using i(1) by (rule put_dent_nth)
  from in_dirh_impl [OF cr dir0(1) nw_directory.nw_rename_at [OF loc dir0(2) new fileh_at_number(3) [of es i] le room, folded e, unfolded put]]
  obtain s1 where s1: "in_dirh (tee_fs_dirfile_rename (dirf_fops cr) uuid (fileh_at es i) oid) s = (Ok (fileh_at es i), s1)"
    "dir_open cr n s1 ?d1 es ?es1" "alike s s1" "map_option fst (fs_dirh s1) = map_option fst (fs_dirh s)" by blast
  have ok1: "dir_ok ?d1 ?es1" by (rule ok_renamed [OF dir0(2) i e'(1,2)])
  have "\<exists>s2 d'. (case gone_of es g of None \<Rightarrow> io_ret () | Some f \<Rightarrow> in_dirh (tee_fs_dirfile_remove (dirf_fops cr) f)) s1 = (Ok (), s2)
      \<and> dir_open cr n s2 d' es es' \<and> alike s1 s2 \<and> map_option fst (fs_dirh s2) = map_option fst (fs_dirh s1) \<and> dir_ok d' es'
      \<and> length (dh_files d') \<le> n"
  proof (cases g)
    case None
    then show ?thesis using s1(2) ok1 dir0(3) es' by (auto simp: gone_of_def io_ret_def)
  next
    case (Some j)
    then have j: "j < length es" "used_dent (es ! j)" "j \<noteq> i" using g by simp_all
    then have j1: "j < length ?es1" "used_dent (?es1 ! j)" "fh_idx (fileh_at es j) = int j"
      "fh_file_number (fileh_at es j) = de_file_number (?es1 ! j)" "?es1 ! j = es ! j" by simp_all
    from in_dirh_impl [OF cr s1(2) nw_directory.nw_remove [OF loc ok1 j1(1-4)]] j1(5)
    obtain s2 where s2: "in_dirh (tee_fs_dirfile_remove (dirf_fops cr) (fileh_at es j)) s1 = (Ok (), s2)"
      "dir_open cr n s2 (without_bit (file_no (es ! j)) (noted j ?d1)) es (?es1[j := zero_dent])" "alike s1 s2"
      "map_option fst (fs_dirh s2) = map_option fst (fs_dirh s1)" by auto
    have swap: "?es1[j := zero_dent] = es'" using Some j(3) es' by (simp add: list_update_swap)
    have "file_no (?es1 ! l) \<noteq> file_no (?es1 ! j)" if l: "l < length ?es1" "l \<noteq> j" "used_dent (?es1 ! l)" for l
    proof -
      have "file_no (es ! l') \<noteq> file_no (es ! j)" if "l' < length es" "l' \<noteq> j" "used_dent (es ! l')" for l'
        using other_number(1) [of es j l'] es j(1,2) that by (simp add: dents_in_def file_no_def word_unat_eq_iff)
      from this [of "if l = i then i else l"] show ?thesis using l i j e'(2) by (cases "l = i") auto
    qed
    from ok_freed [OF ok1 j1(1,2) this] have "dir_ok (without_bit (file_no (es ! j)) (noted j ?d1)) es'"
      unfolding swap [symmetric] using j1(5) by simp
    then show ?thesis using s2 swap Some dir0(3) by (auto simp: gone_of_def)
  qed
  then obtain s2 d' where s2: "(case gone_of es g of None \<Rightarrow> io_ret () | Some f \<Rightarrow> in_dirh (tee_fs_dirfile_remove (dirf_fops cr) f)) s1 = (Ok (), s2)"
    "dir_open cr n s2 d' es es'" "alike s1 s2" "map_option fst (fs_dirh s2) = map_option fst (fs_dirh s1)" "dir_ok d' es'"
    "length (dh_files d') \<le> n" by blast
  from commit_dirh [OF cr s2(2) n32]
  obtain s3 where s3: "commit_dirh_writes cr s2 = (Ok (), s3)" "dir_open cr (Suc n) s3 d' es' es'" "alike s2 s3"
    "map_option fst (fs_dirh s3) = map_option fst (fs_dirh s2)" by blast
  have "alike s s3" using alike_trans [OF alike_trans [OF s1(3) s2(3)] s3(3)] .
  moreover have "dir_ready cr (Suc n) s3 d' es'" using s3(2) s2(5,6) dist by (simp add: dir_ready_def dir_wf_def)
  ultimately show ?thesis using s1(1,4) s2(1,4) s3(1,4) by (auto simp: io_bind_def)
qed

lemma bind3:
  "io_bind A (\<lambda>_. io_bind B (\<lambda>_. C)) s = (Ok x, s') \<Longrightarrow> io_bind A (\<lambda>_. io_bind B (\<lambda>_. io_bind C D)) s = D x s'"
  by (auto simp: io_bind_def split: prod.splits io.splits)

lemma rename_objs:
  assumes cr: "crypto_ok cr" and n: "0 < n" "n + 2 < 2 ^ 24" and ok: "fs_ok cr n s a"
    and new: "length uuid = 16" "length oid \<le> 64" and old: "fst old = uuid" "old \<noteq> (uuid, oid)"
  shows "\<exists>r s'. ree_fs_rename cr old (Some (uuid, oid)) overwrite s = (r, s')
    \<and> r = (if ob_map a (uuid, oid) \<noteq> None \<and> \<not> overwrite then Fail TEE_ERROR_ACCESS_CONFLICT
        else if ob_map a old = None then Fail TEE_ERROR_ITEM_NOT_FOUND else Ok ())
    \<and> (case r of Ok y \<Rightarrow> fs_ok cr (n + 2) s' (renamed old (uuid, oid) (if ob_map a (uuid, oid) = None then a else orphan (uuid, oid) a))
       | Fail e \<Rightarrow> fs_ok cr (n + 2) s' a | Stuck \<Rightarrow> False)"
proof -
  let ?new = "(uuid, oid)" and ?find = "\<lambda>key. in_dirh (tee_fs_dirfile_find (dirf_fops cr) (fst key) (snd key))"
  define a1 where "a1 = (if ob_map a ?new = None then a else orphan ?new a)"
  let ?r = "if ob_map a ?new \<noteq> None \<and> \<not> overwrite then Fail TEE_ERROR_ACCESS_CONFLICT
        else if ob_map a old = None then Fail TEE_ERROR_ITEM_NOT_FOUND else Ok ()"
  have n': "n < 2 ^ 24" using n(2) by simp
  have object: "\<exists>r s2. rename_object cr old ?new (gone_of es g) s1 = (r, s2)
      \<and> r = (if ob_map a old = None then Fail TEE_ERROR_ITEM_NOT_FOUND else Ok ())
      \<and> (case r of Ok y \<Rightarrow> \<exists>d' es'. busy cr (n + 2) s2 (renamed old ?new a1) x d' es'
         | Fail e \<Rightarrow> \<exists>d' es'. busy cr (n + 2) s2 a x d' es' | Stuck \<Rightarrow> False)"
    if busy: "busy cr n s1 a x d es" and g: "case g of None \<Rightarrow> ob_map a ?new = None
        | Some j \<Rightarrow> ob_map a ?new \<noteq> None \<and> j < length es \<and> used_dent (es ! j) \<and> dent_key (es ! j) = ?new" for x s1 d es g
  proof -
    obtain s2 where f: "?find old s1 = (find_result es (fst old) (snd old), s2)" "busy cr n s2 a x d es"
      using find_busy [OF cr busy] by blast
    have objs: "objs cr n s2 a es 1" and x: "map_option fst (fs_dirh s2) = Some x" and dir: "dir_ready cr n s2 d es"
      using f(2) by (simp_all add: busy_def)
    show ?thesis
    proof (cases "ob_map a old")
      case None
      then have "find_result es (fst old) (snd old) = Fail TEE_ERROR_ITEM_NOT_FOUND"
        using find_objs [OF objs, of "fst old" "snd old"] by simp
      moreover have "busy cr (n + 2) s2 a x d es" using busy_mono [OF f(2)] by simp
      ultimately show ?thesis using f(1) None by (auto simp: io_bind_def rename_object_def)
    next
      case (Some b)
      then obtain i where i: "find_result es (fst old) (snd old) = Ok (fileh_at es i)" "i < length es" "used_dent (es ! i)"
        "dent_key (es ! i) = old"
        using find_objs [OF objs, of "fst old" "snd old"] by auto
      let ?e = "name_dent uuid (fileh_at es i) oid" and ?es0 = "case g of None \<Rightarrow> es | Some j \<Rightarrow> es[j := zero_dent]"
      have store: "store_ok cr n (fs_file s2) (fs_fds s2) es a" and dom: "finite (dom (ob_open a))" "card (dom (ob_open a)) \<le> n"
        "unat (fs_dirh_refcount s2) = card (dom (ob_open a)) + 1"
        using objs by (simp_all add: objs_store)
      have gi: "j < length es \<and> used_dent (es ! j) \<and> j \<noteq> i \<and> dent_key (es ! j) = ?new" if "g = Some j" for j
        using that g i(4) old(2) by auto
      have store0: "store_ok cr (Suc n) (fs_file s2) (fs_fds s2) ?es0 a1"
      proof (cases g)
        case None
        then have "a1 = a" using g by (simp add: a1_def)
        moreover have "store_ok cr (Suc n) (fs_file s2) (fs_fds s2) es a"
          using store dents_in_mono [of n es "Suc n"] entries_ok_mono [of cr n _ es _ "Suc n"] by (simp add: store_ok_def)
        ultimately show ?thesis using None by simp
      next
        case (Some j)
        then have "a1 = orphan ?new a" using g by (auto simp: a1_def)
        moreover have "store_ok cr (Suc n) (fs_file s2) (fs_fds s2) (es[j := zero_dent]) (orphan ?new a)"
          using gi [OF Some] by (intro store_free [OF store]) simp_all
        ultimately show ?thesis using Some by simp
      qed
      have at_i: "i < length ?es0" "?es0 ! i = es ! i" using i(2) gi by (auto split: option.splits)
      have "ob_map a1 ?new = None" by (simp add: orphan_none a1_def)
      then have store1: "store_ok cr (Suc (Suc n)) (fs_file s2) (fs_fds s2) (?es0[i := ?e]) (renamed old ?new a1)"
        using name_dent_simps [OF new, of "fileh_at es i"] i(3,4) at_i old(1)
        by (intro store_rename [OF store0]) simp_all
      then have dist: "dents_distinct (?es0[i := ?e])" by (simp add: store_ok_def dents_in_def)
      have es: "dents_in n es" using objs by (simp add: objs_def)
      have g3: "j < length es \<and> used_dent (es ! j) \<and> j \<noteq> i" if "g = Some j" for j using gi [OF that] by simp
      from rename_dir [OF cr n' dir es i(2,3) g3 new refl refl dist]
      obtain s3 d' where s3: "io_bind (in_dirh (tee_fs_dirfile_rename (dirf_fops cr) uuid (fileh_at es i) oid)) (\<lambda>_.
          io_bind (case gone_of es g of None \<Rightarrow> io_ret () | Some f \<Rightarrow> in_dirh (tee_fs_dirfile_remove (dirf_fops cr) f)) (\<lambda>_.
          commit_dirh_writes cr)) s2 = (Ok (), s3)" "dir_ready cr (Suc n) s3 d' (?es0[i := ?e])" "alike s2 s3"
        "map_option fst (fs_dirh s3) = map_option fst (fs_dirh s2)" by blast
      have run: "rename_object cr old ?new (gone_of es g) s1
          = (case gone_of es g of None \<Rightarrow> io_ret () | Some h \<Rightarrow> quietly (remove_file (fh_file_number h))) s3"
        using f(1) i(1) bind3 [OF s3(1)] by (simp add: rename_object_def io_bind_def [of "?find old"])
      have dom': "finite (dom (ob_open (renamed old ?new a1)))" "card (dom (ob_open (renamed old ?new a1))) \<le> Suc (Suc n)"
        "unat (fs_dirh_refcount s2) = card (dom (ob_open (renamed old ?new a1))) + 1" using dom by (simp_all add: a1_def)
      have ready: "dir_ready cr (Suc (Suc n)) s3 d' (?es0[i := ?e])" by (rule dir_ready_mono [OF s3(2)]) simp
      have x3: "map_option fst (fs_dirh s3) = Some x" using s3(4) x by simp
      show ?thesis
      proof (cases g)
        case None
        have "objs cr (Suc (Suc n)) s2 (renamed old ?new a1) (?es0[i := ?e]) 1"
          unfolding objs_store using store1 dom' by blast
        then have "objs cr (Suc (Suc n)) s3 (renamed old ?new a1) (?es0[i := ?e]) 1" using objs_alike [OF s3(3)] by blast
        then have "busy cr (n + 2) s3 (renamed old ?new a1) x d' (?es0[i := ?e])" using ready x3 by (simp add: busy_def)
        moreover have "rename_object cr old ?new (gone_of es g) s1 = (Ok (), s3)" using run None by (simp add: gone_of_def io_ret_def)
        ultimately show ?thesis using Some by auto
      next
        case g: (Some j)
        have free: "de_file_number ((?es0[i := ?e]) ! l) \<noteq> de_file_number (es ! j)"
          if l: "l < length (?es0[i := ?e])" "used_dent ((?es0[i := ?e]) ! l)" for l
        proof -
          have "l \<noteq> j" using l g gi by auto
          then show ?thesis using l g gi [OF g] i(2,3) other_number(1) [of es j] es name_dent_simps(4) [OF new, of "fileh_at es i"]
            by (cases "l = i") (auto simp: dents_in_def)
        qed
        from drop_file_objs [OF store1 s3(3) ready free dom' x3]
        obtain s4 where "quietly (remove_file (de_file_number (es ! j))) s3 = (Ok (), s4)"
          "busy cr (n + 2) s4 (renamed old ?new a1) x d' (?es0[i := ?e])" by auto
        then show ?thesis using run g Some by (auto simp: gone_of_def)
      qed
    qed
  qed
  let ?body = "io_try (?find ?new)
      (\<lambda>g. if \<not> overwrite then io_fail TEE_ERROR_ACCESS_CONFLICT else rename_object cr old ?new (Some g))
      (\<lambda>_. rename_object cr old ?new None)"
  have body: "\<exists>r s2. ?body s1 = (r, s2) \<and> r = ?r \<and> (case r of Ok y \<Rightarrow> \<exists>d' es'. busy cr (n + 2) s2 (renamed old ?new a1) x d' es'
         | Fail e \<Rightarrow> \<exists>d' es'. busy cr (n + 2) s2 a x d' es' | Stuck \<Rightarrow> False)"
    if busy: "busy cr n s1 a x d es" for x s1 d es
  proof -
    obtain s2 where f: "?find ?new s1 = (find_result es uuid oid, s2)" "busy cr n s2 a x d es" using find_busy [OF cr busy] by fastforce
    have objs: "objs cr n s2 a es 1" using f(2) by (simp add: busy_def)
    show ?thesis
    proof (cases "ob_map a ?new")
      case None
      then have "find_result es uuid oid = Fail TEE_ERROR_ITEM_NOT_FOUND" using find_objs [OF objs, of uuid oid] by simp
      then show ?thesis using object [OF f(2), of None] f(1) None by (simp add: io_try_def gone_of_def)
    next
      case (Some b)
      then obtain j where j: "find_result es uuid oid = Ok (fileh_at es j)" "j < length es" "used_dent (es ! j)" "dent_key (es ! j) = ?new"
        using find_objs [OF objs, of uuid oid] by auto
      have "busy cr (n + 2) s2 a x d es" using busy_mono [OF f(2)] by simp
      then show ?thesis using object [OF f(2), of "Some j"] f(1) Some j by (cases overwrite) (auto simp: io_try_def gone_of_def io_fail_def)
    qed
  qed
  have "\<exists>r s'. with_dirh cr False ?body s = (r, s') \<and> r = ?r
    \<and> (case r of Ok y \<Rightarrow> fs_ok cr (n + 2) s' (renamed old ?new a1) | Fail e \<Rightarrow> fs_ok cr (n + 2) s' a | Stuck \<Rightarrow> False)"
    by (rule with_dirh_ok [OF cr n(1) n' n(2) ok]) (rule body)
  then show ?thesis unfolding ree_fs_rename_def option.case a1_def [symmetric] .
qed

section \<open>Creating\<close>

text \<open>The parts of a new object are appended.\<close>

lemma bytes_write_end: "bytes_write (length f) b f = f @ b"
  by (cases "b = []") (simp_all add: bytes_write_def overlay_def)

lemma with_fd_same:
  assumes "fs_fds s k = Some fd"
  shows "with_fd k num (Some fd) (file_world (Some num) (fs_nw s)) s = s"
proof -
  have "(fs_fds s)(k := Some fd) = fs_fds s" using assms by (simp add: fun_upd_idem)
  then show ?thesis by (cases s) (simp add: with_fd_def)
qed

lemma write_part_held:
  assumes cr: "crypto_ok cr" and fd: "fs_fds s k = Some fd" "fh_file_number (fd_dfh fd) = num" and calm: "calm_fs s"
    and kept: "kept cr n uuid (fs_file s (Some num)) c b0"
    and is_f: "fd_is cr uuid {s0} (Some fd, file_world (Some num) (fs_nw s)) f"
    and pos: "pos = length f" and len: "length f + length b < 2 ^ 31"
  shows "\<exists>h w. write_part cr k pos b s = (Ok (), with_fd k num (Some (fd\<lparr>fd_ht := h\<rparr>)) w s) \<and> calm w
    \<and> kept cr n uuid (w_stor w) c b0 \<and> fd_is cr uuid {s0} (Some (fd\<lparr>fd_ht := h\<rparr>), w) (f @ b)"
proof (cases "b = []")
  case True
  have "fd\<lparr>fd_ht := fd_ht fd\<rparr> = fd" by simp
  moreover have "calm (file_world (Some num) (fs_nw s))" using calm by (simp add: calm_fs_def)
  ultimately show ?thesis using True with_fd_same [OF fd(1), of num] kept is_f
    by (intro exI [of _ "fd_ht fd"] exI [of _ "file_world (Some num) (fs_nw s)"]) (simp add: write_part_def io_ret_def)
next
  case False
  let ?w = "file_world (Some num) (fs_nw s)"
  have "length b < 2 ^ 64" "length f < 2 ^ 64" using len by simp_all
  then have u: "unat (word_of_nat (length b) :: 64 word) = length b" "unat (word_of_nat (length f) :: 64 word) = length f"
    by (intro unat_of_nat_exact, simp)+
  have calm1: "calm ?w" "kept cr n uuid (w_stor ?w) c b0" using calm kept by (simp_all add: calm_fs_def)
  from write_held [OF cr calm1(2) is_f calm1(1), of b "word_of_nat (length b)" "word_of_nat (length f)"] u len
  obtain h w where w: "on_fd (ree_fs_write_primitive cr (word_of_nat (length f)) b (word_of_nat (length b))) (Some fd, ?w)
      = (Ok (), (Some (fd\<lparr>fd_ht := h\<rparr>), w))" "calm w" "kept cr n uuid (w_stor w) c b0"
    "fd_is cr uuid {s0} (Some (fd\<lparr>fd_ht := h\<rparr>), w) (bytes_write (length f) b f)" by auto
  have "write_part cr k pos b s = (Ok (), with_fd k num (Some (fd\<lparr>fd_ht := h\<rparr>)) w s)"
    using False on_handle_with_fd [of s k fd num "on_fd (ree_fs_write_primitive cr (word_of_nat (length f)) b (word_of_nat (length b)))",
        OF fd w(1)] by (simp add: write_part_def pos)
  then show ?thesis using w(2-4) by (auto simp: bytes_write_end)
qed

lemma create_file:
  assumes cr: "crypto_ok cr" and none: "fs_fds s k = None" and calm: "calm_fs s"
    and len: "length head + length attr + length data < 2 ^ 31" and head: "head \<noteq> []"
  shows "\<exists>h d idx w. (\<forall>rest :: (ree_fs, unit) sm. io_bind (in_fd k num (ree_fs_open_primitive cr True (Some 0) uuid
        (Some \<lparr>fh_file_number = num, fh_hash = 0, fh_idx = 0\<rparr>))) (\<lambda>_.
      io_bind (write_part cr k 0 head) (\<lambda>_. io_bind (write_part cr k (length head) attr) (\<lambda>_.
      io_bind (write_part cr k (length head + length attr) data) (\<lambda>_. io_bind (sync_fd cr k) (\<lambda>_. rest))))) s
      = rest (with_fd k num (Some \<lparr>fd_ht = h, fd_dfh = \<lparr>fh_file_number = num, fh_hash = d, fh_idx = idx\<rparr>\<rparr>) w s)) \<and> calm w
    \<and> held cr uuid (w_stor w) (Some \<lparr>fd_ht = h, fd_dfh = \<lparr>fh_file_number = num, fh_hash = d, fh_idx = idx\<rparr>\<rparr>) (head @ attr @ data)
    \<and> committed cr 2 uuid (w_stor w) d (head @ attr @ data)"
proof -
  let ?dfh = "\<lparr>fh_file_number = num, fh_hash = 0, fh_idx = 0\<rparr>"
  have calm0: "calm (file_world (Some num) (fs_nw s))" using calm by (simp add: calm_fs_def)
  obtain c h0 w0 where w0: "ree_fs_open_primitive cr True (Some 0) uuid (Some ?dfh) (None, file_world (Some num) (fs_nw s))
      = (Ok (), (Some \<lparr>fd_ht = Some c, fd_dfh = dfh_of (Some ?dfh) h0\<rparr>, w0))" "calm w0" "kept cr 1 uuid (w_stor w0) c []"
    "held cr uuid (w_stor w0) (Some \<lparr>fd_ht = Some c, fd_dfh = dfh_of (Some ?dfh) h0\<rparr>) []" "counter_slot c = 1"
    using create_kept [OF cr calm0, of "Some 0" uuid "Some ?dfh"] by blast
  obtain s0 where is0: "fd_is cr uuid {s0} (Some \<lparr>fd_ht = Some c, fd_dfh = dfh_of (Some ?dfh) h0\<rparr>, w0) []"
    using held_fd [OF w0(4,2)] by blast
  define f0 where "f0 = dfh_of (Some ?dfh) h0"
  have f0: "fh_file_number f0 = num" by (simp add: f0_def dfh_of_def split: option.splits)
  let ?fd = "\<lambda>h. \<lparr>fd_ht = h, fd_dfh = f0\<rparr>"
  define s1 where "s1 = with_fd k num (Some (?fd (Some c))) w0 s"
  have r0: "in_fd k num (ree_fs_open_primitive cr True (Some 0) uuid (Some ?dfh)) s = (Ok (), s1)"
    using w0(1) none by (simp add: in_fd_def at_file_def s1_def with_fd_def f0_def)
  have upd: "\<lparr>fd_ht = x, fd_dfh = f0\<rparr>\<lparr>fd_ht := y\<rparr> = ?fd y" for x y by simp
  have p1: "fs_fds s1 k = Some (?fd (Some c))" "calm_fs s1" "kept cr 1 uuid (fs_file s1 (Some num)) c []"
    "fd_is cr uuid {s0} (Some (?fd (Some c)), file_world (Some num) (fs_nw s1)) []"
    using w0(2,3) is0 by (simp_all add: s1_def f0_def)
  from write_part_held [OF cr p1(1) _ p1(2-4), of 0 head, unfolded upd] f0 len
  obtain h1 w1 where w1: "write_part cr k 0 head s1 = (Ok (), with_fd k num (Some (?fd h1)) w1 s1)" "calm w1"
    "kept cr 1 uuid (w_stor w1) c []" "fd_is cr uuid {s0} (Some (?fd h1), w1) head" by auto
  define s2 where "s2 = with_fd k num (Some (?fd h1)) w1 s1"
  have p2: "fs_fds s2 k = Some (?fd h1)" "calm_fs s2" "kept cr 1 uuid (fs_file s2 (Some num)) c []"
    "fd_is cr uuid {s0} (Some (?fd h1), file_world (Some num) (fs_nw s2)) head"
    using w1 by (simp_all add: s2_def)
  from write_part_held [OF cr p2(1) _ p2(2-4) refl, of attr, unfolded upd] f0 len
  obtain h2 w2 where w2: "write_part cr k (length head) attr s2 = (Ok (), with_fd k num (Some (?fd h2)) w2 s2)" "calm w2"
    "kept cr 1 uuid (w_stor w2) c []" "fd_is cr uuid {s0} (Some (?fd h2), w2) (head @ attr)" by auto
  define s3 where "s3 = with_fd k num (Some (?fd h2)) w2 s2"
  have p3: "fs_fds s3 k = Some (?fd h2)" "calm_fs s3" "kept cr 1 uuid (fs_file s3 (Some num)) c []"
    "fd_is cr uuid {s0} (Some (?fd h2), file_world (Some num) (fs_nw s3)) (head @ attr)"
    using w2 by (simp_all add: s3_def)
  from write_part_held [OF cr p3(1) _ p3(2-4), of "length head + length attr" data, unfolded upd] f0 len
  obtain h3 w3 where w3: "write_part cr k (length head + length attr) data s3 = (Ok (), with_fd k num (Some (?fd h3)) w3 s3)"
    "calm w3" "kept cr 1 uuid (w_stor w3) c []" "fd_is cr uuid {s0} (Some (?fd h3), w3) (head @ attr @ data)" by auto
  define s4 where "s4 = with_fd k num (Some (?fd h3)) w3 s3"
  have "(1 :: nat) < 2 ^ 32 - 1" by simp
  from sync_held [OF cr w3(3,4,2) this, of None] head
  obtain h d w' c' where y: "commit_writes_primitive cr None (Some (?fd h3), w3)
      = (Ok None, (Some \<lparr>fd_ht = h, fd_dfh = f0\<lparr>fh_hash := d\<rparr>\<rparr>, w'))" "calm w'"
    "kept cr 2 uuid (w_stor w') c' (head @ attr @ data)"
    "held cr uuid (w_stor w') (Some \<lparr>fd_ht = h, fd_dfh = f0\<lparr>fh_hash := d\<rparr>\<rparr>) (head @ attr @ data)"
    "d = ni_hash (image_of c' 1)" "recommitted c c' (w_stor w')" by (auto simp: numeral_2_eq_2)
  have com: "committed cr 2 uuid (w_stor w') d (head @ attr @ data)"
    by (rule recommitted_committed [OF y(3,6,5)]) (simp add: w0(5))
  have dfh: "f0\<lparr>fh_hash := d\<rparr> = \<lparr>fh_file_number = num, fh_hash = d, fh_idx = fh_idx f0\<rparr>" using f0 by (cases f0) simp
  have "on_handle k (commit_writes_primitive cr None) s4 = (Ok None, with_fd k num (Some \<lparr>fd_ht = h, fd_dfh = f0\<lparr>fh_hash := d\<rparr>\<rparr>) w' s4)"
    by (rule on_handle_with_fd [of _ _ "?fd h3"]) (simp_all add: s4_def f0 y(1))
  then have "sync_fd cr k s4 = (Ok (), with_fd k num (Some \<lparr>fd_ht = h, fd_dfh = f0\<lparr>fh_hash := d\<rparr>\<rparr>) w' s)"
    by (simp add: sync_fd_def io_bind_def io_ret_def s4_def s3_def s2_def s1_def)
  then show ?thesis
    using r0 w1(1) [folded s2_def] w2(1) [folded s3_def] w3(1) [folded s4_def] y(2,4) com dfh
    by (intro exI [of _ h] exI [of _ d] exI [of _ "fh_idx f0"] exI [of _ w']) (simp add: io_bind_def)
qed

text \<open>The new object gets its name: in the place of the one that had it, or in a free one.\<close>

definition place_at :: "bytes \<Rightarrow> bytes \<Rightarrow> dirfile_entry list \<Rightarrow> nat option \<Rightarrow> nat" where
  "place_at uuid oid es g = (case g of None \<Rightarrow> place_for uuid oid es | Some i \<Rightarrow> i)"

lemma dir_open_fds: "dir_open cr n (s\<lparr>fs_fds := f\<rparr>) d es0 es = dir_open cr n s d es0 es"
  by (simp add: dir_open_def calm_fs_def)

lemma name_dir:
  assumes cr: "crypto_ok cr" and n: "n < 2 ^ 24" and dir: "dir_ready cr n s d es" and es: "dents_in n es"
    and fd: "fs_fds s k = Some fd" "fh_file_number (fd_dfh fd) = num" "fh_hash (fd_dfh fd) = x"
    and g: "\<And>i. g = Some i \<Longrightarrow> i < length es"
    and new: "length uuid = 16" "length oid \<le> 64"
    and p: "p = place_at uuid oid es g" and e: "e = name_dent uuid \<lparr>fh_file_number = num, fh_hash = x, fh_idx = 0\<rparr> oid"
    and dist: "dents_distinct (put_dent p e es)" and bit: "has_bit d (unat num)"
  shows "\<exists>s' d'. io_bind (get_dfh k) (\<lambda>dfh.
      let dfh0 = dfh\<lparr>fh_idx := (case gone_of es g of None \<Rightarrow> - 1 | Some o_dfh \<Rightarrow> fh_idx o_dfh)\<rparr> in
      io_bind (in_dirh (tee_fs_dirfile_rename (dirf_fops cr) uuid dfh0 oid)) (\<lambda>dfh1.
      io_bind (set_dfh k dfh1) (\<lambda>_. commit_dirh_writes cr))) s = (Ok (), s')
    \<and> dir_ready cr (Suc n) s' d' (put_dent p e es)
    \<and> alike (s\<lparr>fs_fds := (fs_fds s)(k \<mapsto> fd\<lparr>fd_dfh := fileh_at (put_dent p e es) p\<rparr>)\<rparr>) s'
    \<and> map_option fst (fs_dirh s') = map_option fst (fs_dirh s)"
proof -
  note loc = nw_directory.intro [OF cr]
  have dir0: "dir_open cr n s d es es" "dir_ok d es" "length (dh_files d) \<le> n" using dir by (simp_all add: dir_ready_def dir_wf_def)
  let ?es = "put_dent p e es" and ?dfh0 = "(fd_dfh fd)\<lparr>fh_idx := (case gone_of es g of None \<Rightarrow> - 1 | Some o_dfh \<Rightarrow> fh_idx o_dfh)\<rparr>"
  have room: "dent_size * Suc (length es) < 2 ^ 31" using es n by (simp add: dents_in_def dent_size_def)
  have name: "name_dent uuid ?dfh0 oid = e" using fd by (simp add: e name_dent_def)
  have ple: "p \<le> length es" using g place_for_le [of uuid oid es] by (auto simp: p place_at_def less_imp_le split: option.splits)
  have at: "?es ! p = e" using put_dent_at(1) [OF ple, of e] put_dent_at(2) [OF ple, of p e] by simp
  have fileh: "?dfh0\<lparr>fh_idx := int p\<rparr> = fileh_at ?es p"
    using fd at by (cases "fd_dfh fd") (simp add: fileh_at_def e name_dent_def)
  have impl: "implements (nw_dir cr R base) (\<lambda>_. True) nw_fine (tee_fs_dirfile_rename (dirf_fops cr) uuid ?dfh0 oid) d es
      (Ok (fileh_at ?es p)) (noted p d) ?es" for R base
  proof (cases g)
    case None
    then have "p = place_for uuid oid es" "fh_idx ?dfh0 < 0" by (simp_all add: p place_at_def gone_of_def)
    from nw_directory.nw_rename_new [OF loc dir0(2) new this(2) room, folded this(1)] show ?thesis
      unfolding name fileh .
  next
    case (Some i)
    then have i: "p = i" "fh_idx ?dfh0 = int p" by (simp_all add: p place_at_def gone_of_def)
    have "dent_size * Suc p < 2 ^ 31" using room ple by (simp add: dent_size_def)
    moreover have "?dfh0\<lparr>fh_idx := int p\<rparr> = ?dfh0" using i(2) by simp
    ultimately show ?thesis using nw_directory.nw_rename_at [OF loc dir0(2) new i(2) ple, of R base] name fileh by simp
  qed
  from in_dirh_impl [OF cr dir0(1) impl]
  obtain s1 where s1: "in_dirh (tee_fs_dirfile_rename (dirf_fops cr) uuid ?dfh0 oid) s = (Ok (fileh_at ?es p), s1)"
    "dir_open cr n s1 (noted p d) es ?es" "alike s s1" "map_option fst (fs_dirh s1) = map_option fst (fs_dirh s)" by blast
  have fd1: "fs_fds s1 k = Some fd" using s1(3) fd(1) by (simp add: alike_def)
  let ?s2 = "s1\<lparr>fs_fds := (fs_fds s1)(k \<mapsto> fd\<lparr>fd_dfh := fileh_at ?es p\<rparr>)\<rparr>"
  have set: "set_dfh k (fileh_at ?es p) s1 = (Ok (), ?s2)" using fd1 by (simp add: set_dfh_def)
  have dir2: "dir_open cr n ?s2 (noted p d) es ?es" unfolding dir_open_fds by (rule s1(2))
  have "n < 2 ^ 32 - 1" using n by simp
  from commit_dirh [OF cr dir2 this]
  obtain s3 where s3: "commit_dirh_writes cr ?s2 = (Ok (), s3)" "dir_open cr (Suc n) s3 (noted p d) ?es ?es" "alike ?s2 s3"
    "map_option fst (fs_dirh s3) = map_option fst (fs_dirh ?s2)" by blast
  have "dir_ok (noted p d) ?es"
  proof (rule dir_ok_put [OF dir0(2) _ ple])
    show "dent_ok e" unfolding e by (rule name_dent_simps(1) [OF new])
    show "used_dent e \<longrightarrow> has_bit (noted p d) (file_no e)" using bit by (simp add: e name_dent_def file_no_def)
    show "length (dh_files (noted p d)) < 2 ^ 31" using dir0(3) n by simp
  qed (use room in simp_all)
  then have "dir_ready cr (Suc n) s3 (noted p d) ?es" using s3(2) dist dir0(3) by (simp add: dir_ready_def dir_wf_def)
  moreover have "alike (s\<lparr>fs_fds := (fs_fds s)(k \<mapsto> fd\<lparr>fd_dfh := fileh_at ?es p\<rparr>)\<rparr>) s3"
    using s1(3) s3(3) by (simp add: alike_def)
  moreover have "io_bind (get_dfh k) (\<lambda>dfh.
      let dfh0 = dfh\<lparr>fh_idx := (case gone_of es g of None \<Rightarrow> - 1 | Some o_dfh \<Rightarrow> fh_idx o_dfh)\<rparr> in
      io_bind (in_dirh (tee_fs_dirfile_rename (dirf_fops cr) uuid dfh0 oid)) (\<lambda>dfh1.
      io_bind (set_dfh k dfh1) (\<lambda>_. commit_dirh_writes cr))) s = (Ok (), s3)"
    using s1(1) set s3(1) fd(1) by (simp add: io_bind_def get_dfh_def Let_def)
  ultimately show ?thesis using s1(4) s3(4) by auto
qed

definition created :: "nat \<Rightarrow> obj_key \<Rightarrow> bytes \<Rightarrow> objects \<Rightarrow> objects" where
  "created k key f a = (let a1 = (if ob_map a key = None then a else orphan key a)
     in a1\<lparr>ob_map := (ob_map a1)(key \<mapsto> f), ob_open := (ob_open a1)(k \<mapsto> Some key)\<rparr>)"

lemma store_mono: "store_ok cr n F fds es a \<Longrightarrow> n \<le> m \<Longrightarrow> store_ok cr m F fds es a"
  unfolding store_ok_def using dents_in_mono entries_ok_mono by blast

lemma store_handle:
  "store_ok cr n F fds es a \<Longrightarrow> handle_ok cr F es (ob_map a) fdp ho \<Longrightarrow>
   store_ok cr n F (fds(k := fdp)) es (a\<lparr>ob_open := (ob_open a)(k := ho)\<rparr>)"
  by (simp add: store_ok_def)

text \<open>The store with the new object and its handle.\<close>

lemma store_created:
  assumes store: "store_ok cr n F fds es a" and n: "2 \<le> n"
    and g: "case g of None \<Rightarrow> ob_map a (uuid, oid) = None
        | Some i \<Rightarrow> ob_map a (uuid, oid) \<noteq> None \<and> i < length es \<and> used_dent (es ! i) \<and> dent_key (es ! i) = (uuid, oid)"
    and new: "length uuid = 16" "length oid \<le> 64" and fresh: "\<And>j. j < length es \<Longrightarrow> used_dent (es ! j) \<Longrightarrow> de_file_number (es ! j) \<noteq> num"
    and num: "unat num \<le> n" and p: "p = place_at uuid oid es g"
    and e: "e = name_dent uuid \<lparr>fh_file_number = num, fh_hash = x, fh_idx = 0\<rparr> oid"
    and com: "committed cr 2 uuid st x f" and held: "held cr uuid st (Some fd) f" and fd: "fd_dfh fd = fileh_at (put_dent p e es) p"
  shows "store_ok cr (n + 2) (F(Some num := st)) (fds(k \<mapsto> fd)) (put_dent p e es) (created k (uuid, oid) f a)"
proof -
  let ?key = "(uuid, oid)"
  define es0 where "es0 = (case g of None \<Rightarrow> es | Some i \<Rightarrow> es[i := zero_dent])"
  define a1 where "a1 = (if ob_map a ?key = None then a else orphan ?key a)"
  have dents: "dents_in n es" "entries_ok cr n F es (ob_map a)" using store by (simp_all add: store_ok_def)
  have store0: "store_ok cr (Suc n) F fds es0 a1"
  proof (cases g)
    case None
    then show ?thesis using g store_mono [OF store, of "Suc n"] by (simp add: a1_def es0_def)
  next
    case (Some i)
    then have "store_ok cr (Suc n) F fds (es[i := zero_dent]) (orphan ?key a)" using g by (intro store_free [OF store]) simp_all
    then show ?thesis using Some g by (auto simp: a1_def es0_def)
  qed
  have names: "names uuid oid (es ! j) \<Longrightarrow> j < length es \<Longrightarrow> ob_map a ?key \<noteq> None" for j
    using dents names_key [of "es ! j" uuid oid] by (auto simp: dents_in_def entries_ok_def entry_for_def)
  have place: "p \<le> length es0" "p < length es0 \<Longrightarrow> \<not> used_dent (es0 ! p)"
  proof -
    have "p \<le> length es" using g place_for_le [of uuid oid es] by (auto simp: p place_at_def split: option.splits)
    then show "p \<le> length es0" by (simp add: es0_def split: option.splits)
    show "\<not> used_dent (es0 ! p)" if l: "p < length es0"
    proof (cases g)
      case None
      then have "next_index (names uuid oid) es 0 = None" using g names by (auto simp: next_index_None)
      then show ?thesis
      proof (cases "next_index (\<lambda>e. \<not> used_dent e) es 0")
        case None
        then have "p = length es" using \<open>g = None\<close> \<open>next_index (names uuid oid) es 0 = None\<close> by (simp add: p place_at_def place_for_def)
        then show ?thesis using l \<open>g = None\<close> by (simp add: es0_def)
      next
        case (Some q)
        then have "p = q" using \<open>g = None\<close> \<open>next_index (names uuid oid) es 0 = None\<close> by (simp add: p place_at_def place_for_def)
        moreover have "\<not> used_dent (es ! q)" using Some by (simp add: next_index_Some)
        ultimately show ?thesis using \<open>g = None\<close> by (simp add: es0_def)
      qed
    next
      case (Some i)
      then show ?thesis using g by (simp add: p place_at_def es0_def)
    qed
  qed
  have same: "put_dent p e es0 = put_dent p e es"
    using g by (cases g) (auto simp: es0_def put_dent_def p place_at_def)
  have es0: "length es0 = length es" "\<And>j. j < length es \<Longrightarrow> used_dent (es0 ! j) \<Longrightarrow> es0 ! j = es ! j"
  proof -
    show "length es0 = length es" by (simp add: es0_def split: option.splits)
    show "es0 ! j = es ! j" if "j < length es" "used_dent (es0 ! j)" for j
      using that g by (cases g) (auto simp: es0_def nth_list_update split: if_splits)
  qed
  have ne: "dent_ok e" "used_dent e" "dent_key e = ?key" "de_file_number e = num" "de_hash e = x"
    using name_dent_simps [OF new, of "\<lparr>fh_file_number = num, fh_hash = x, fh_idx = 0\<rparr>"] by (simp_all add: e)
  have M: "ob_map a1 ?key = None" by (simp add: a1_def orphan_none)
  have "store_ok cr (n + 2) (F(Some num := st)) fds (put_dent p e es0) (a1\<lparr>ob_map := (ob_map a1)(dent_key e \<mapsto> f)\<rparr>)"
  proof (rule store_put [OF store0 place ne(1,2)])
    show "committed cr (n + 2) (fst (dent_key e)) ((F(Some num := st)) (Some (de_file_number e))) (de_hash e) f"
      using com committed_mono n by (simp add: ne)
    show "de_file_number (es0 ! j) \<noteq> de_file_number e \<and> (F(Some num := st)) (Some (de_file_number (es0 ! j)))
        = F (Some (de_file_number (es0 ! j)))" if "j < length es0" "used_dent (es0 ! j)" for j
      using that es0 fresh [of j] by (simp add: ne)
  qed (use M num ne in \<open>simp_all add: file_no_def\<close>)
  then have "store_ok cr (n + 2) (F(Some num := st)) fds (put_dent p e es) (a1\<lparr>ob_map := (ob_map a1)(?key \<mapsto> f)\<rparr>)"
    using same ne(3) by simp
  moreover have "live_at cr (F(Some num := st)) (put_dent p e es) ((ob_map a1)(?key \<mapsto> f)) fd ?key p"
    using place(1) es0(1) put_dent_at(1) [of p es e] put_dent_at(2) [of p es p e] ne held fd by (simp add: live_at_def)
  ultimately have "store_ok cr (n + 2) (F(Some num := st)) (fds(k \<mapsto> fd)) (put_dent p e es)
      ((a1\<lparr>ob_map := (ob_map a1)(?key \<mapsto> f)\<rparr>)\<lparr>ob_open := (ob_open (a1\<lparr>ob_map := (ob_map a1)(?key \<mapsto> f)\<rparr>))(k := Some (Some ?key))\<rparr>)"
    by (intro store_handle) (auto simp: handle_ok_def)
  then show ?thesis by (simp add: created_def a1_def [symmetric] Let_def)
qed

lemma get_tmp_ready:
  assumes cr: "crypto_ok cr" and n: "n < 2 ^ 24" and dir: "dir_ready cr n s d es"
  shows "\<exists>s' num d'. in_dirh (tee_fs_dirfile_get_tmp (dirf_fops cr)) s = (Ok num, s') \<and> dir_ready cr (Suc n) s' d' es \<and> alike s s'
    \<and> map_option fst (fs_dirh s') = map_option fst (fs_dirh s) \<and> has_bit d' (unat num) \<and> unat num \<le> n
    \<and> (\<forall>j < length es. used_dent (es ! j) \<longrightarrow> de_file_number (es ! j) \<noteq> num)"
proof -
  have dir0: "dir_open cr n s d es es" "dir_wf d es" "length (dh_files d) \<le> n" using dir by (simp_all add: dir_ready_def)
  let ?f = "fresh_number d" and ?d = "with_bit (fresh_number d) d"
  have f: "\<not> has_bit d ?f" "?f \<le> n" using fresh_number_free [of d] dir0(3) by simp_all
  have u: "unat (word_of_nat ?f :: 32 word) = ?f" by (rule unat_of_nat_exact) (use f(2) n in simp)
  have "length (dh_files d) < 2 ^ 31 - 1" using dir0(3) n by simp
  from in_dirh_impl [OF cr dir0(1) nw_directory.nw_get_tmp [OF nw_directory.intro [OF cr] this]]
  obtain s' where s': "in_dirh (tee_fs_dirfile_get_tmp (dirf_fops cr)) s = (Ok (word_of_nat ?f), s')"
    "dir_open cr n s' ?d es es" "alike s s'" "map_option fst (fs_dirh s') = map_option fst (fs_dirh s)" by blast
  have "length (dh_files ?d) \<le> Suc n" using f(2) dir0(3) by (simp add: length_with_bit)
  moreover from this have "dir_wf ?d es" using dir0(2) n by (simp add: dir_wf_def dir_ok_def)
  ultimately have "dir_ready cr (Suc n) s' ?d es" using dir_open_mono [OF s'(2), of "Suc n"] by (simp add: dir_ready_def)
  moreover have "de_file_number (es ! j) \<noteq> word_of_nat ?f" if "j < length es" "used_dent (es ! j)" for j
  proof
    assume eq: "de_file_number (es ! j) = word_of_nat ?f"
    have "has_bit d (file_no (es ! j))" using dir0(2) that by (simp add: dir_wf_def dir_ok_def)
    then show False using f(1) u by (simp add: file_no_def eq)
  qed
  ultimately show ?thesis using s'(1,3,4) f(2) u by auto
qed

text \<open>What is left when the name is taken.\<close>

lemma drop_new:
  assumes store: "store_ok cr n F fds es a" and n: "n < 2 ^ 24" and dir: "dir_ready cr n s d es" and k: "fds k = None"
    and s: "fs_fds s = fds(k \<mapsto> fd)" "\<And>i. fs_file s (Some i) = (F(Some num := st)) (Some i)" "fh_file_number (fd_dfh fd) = num"
    and dom: "finite (dom (ob_open a))" "card (dom (ob_open a)) \<le> n" "unat (fs_dirh_refcount s) = card (dom (ob_open a)) + 1"
    and x: "map_option fst (fs_dirh s) = Some x"
    and free: "\<And>j. j < length es \<Longrightarrow> used_dent (es ! j) \<Longrightarrow> de_file_number (es ! j) \<noteq> num"
  shows "\<exists>s'. io_bind (put_dirh cr x True) (\<lambda>_. drop_object k num) s = (Ok (), s') \<and> fs_ok cr n s' a"
proof -
  have cnt: "fs_dirh_refcount s \<noteq> 0" "unat (fs_dirh_refcount s - 1) = card (dom (ob_open a))"
  proof -
    have "unat (fs_dirh_refcount s) \<noteq> 0" using dom(3) by simp
    then show "fs_dirh_refcount s \<noteq> 0" by (simp add: unat_eq_0)
    then show "unat (fs_dirh_refcount s - 1) = card (dom (ob_open a))" using dom(3) unat_minus_one [of "fs_dirh_refcount s"] by simp
  qed
  have "dir_open cr n s d es es" using dir by (simp add: dir_ready_def)
  from put_dirh_primitive_open [OF this cnt(1), of True]
  obtain s1 where s1: "put_dirh cr x True s = (Ok (), s1)" "alike (s\<lparr>fs_dirh_refcount := fs_dirh_refcount s - 1\<rparr>) s1"
    "dir_closed cr n s1 es" using x by (auto simp: put_dirh_def)
  have fd1: "fs_fds s1 k = Some fd" using s1(2) s(1) by (simp add: alike_def)
  have calm: "calm_fs s1" using s1(3) by (simp add: dir_closed_def)
  let ?s2 = "with_fd k num None (file_world (Some num) (fs_nw s1)) s1"
  have close: "on_handle k ree_fs_close_primitive s1 = (Ok (), ?s2)"
    by (rule on_handle_with_fd [of s1 k fd num ree_fs_close_primitive, OF fd1 s(3) close_calm]) (use calm in \<open>simp add: calm_fs_def\<close>)
  have "calm_fs ?s2" unfolding with_fd_simps file_world_simps using calm by (simp add: calm_fs_def)
  from remove_file_calm [OF this] obtain s3 where s3: "quietly (remove_file num) ?s2 = (Ok (), s3)"
    "fs_file s3 = (fs_file ?s2)(Some num := drop_storage (fs_file ?s2 (Some num)))" "fs_fds s3 = fs_fds ?s2" "fs_dirh s3 = fs_dirh ?s2"
    "fs_dirh_refcount s3 = fs_dirh_refcount ?s2" "calm_fs s3" by blast
  have run: "io_bind (put_dirh cr x True) (\<lambda>_. drop_object k num) s = (Ok (), s3)"
    using s1(1) fd1 close s3(1) by (simp add: io_bind_def drop_object_def)
  have fds: "fs_fds s3 = fds"
  proof -
    have "fs_fds s3 = (fs_fds s1)(k := None)" by (simp add: s3(3))
    moreover have "fs_fds s1 = fds(k \<mapsto> fd)" using s1(2) s(1) by (simp add: alike_def)
    moreover have "fds(k := None) = fds" using k by (simp add: fun_upd_idem)
    ultimately show ?thesis by simp
  qed
  have stored: "fs_file s3 (Some i) = (if i = num then drop_storage (fs_file s1 (Some num)) else F (Some i))" for i
    using s1(2) s(2) by (simp add: s3(2) alike_def)
  have "store_ok cr n (fs_file s3) fds es a"
    by (rule store_files [OF store]) (use free stored in simp)
  then have "objs cr n s3 a es 0" using fds dom(1,2) cnt(2) s3(5) s1(2) by (simp add: objs_store alike_def)
  moreover have "dir_closed cr n s3 es" using s1(3) s3(2,4,6) by (simp add: dir_closed_def)
  ultimately show ?thesis using run unfolding fs_ok_def by blast
qed

lemma create_objs:
  assumes cr: "crypto_ok cr" and n: "2 \<le> n" "n + 3 < 2 ^ 24" and ok: "fs_ok cr n s a" and k: "ob_open a k = None"
    and new: "length uuid = 16" "length oid \<le> 64"
    and len: "length head + length attr + length data < 2 ^ 31" and head: "head \<noteq> []"
  shows "\<exists>r s'. ree_fs_create cr k uuid oid overwrite head attr data s = (r, s')
    \<and> r = (if ob_map a (uuid, oid) \<noteq> None \<and> \<not> overwrite then Fail TEE_ERROR_ACCESS_CONFLICT else Ok ())
    \<and> (case r of Ok y \<Rightarrow> fs_ok cr (n + 3) s' (created k (uuid, oid) (head @ attr @ data) a)
       | Fail e \<Rightarrow> fs_ok cr (n + 3) s' a | Stuck \<Rightarrow> False)"
proof -
  let ?key = "(uuid, oid)" and ?f = "head @ attr @ data" and ?find = "in_dirh (tee_fs_dirfile_find (dirf_fops cr) uuid oid)"
  have n': "0 < n" "n < 2 ^ 24" "Suc n < 2 ^ 24" using n by simp_all
  obtain x s1 d es where g: "get_dirh cr s = (Ok x, s1)" "busy cr n s1 a x d es" using get_dirh_ok [OF cr n'(1,2) ok] by blast
  have b: "objs cr n s1 a es 1" "dir_ready cr n s1 d es" "map_option fst (fs_dirh s1) = Some x" using g(2) by (simp_all add: busy_def)
  from get_tmp_ready [OF cr n'(2) b(2)]
  obtain s2 num d2 where s2: "in_dirh (tee_fs_dirfile_get_tmp (dirf_fops cr)) s1 = (Ok num, s2)" "dir_ready cr (Suc n) s2 d2 es"
    "alike s1 s2" "map_option fst (fs_dirh s2) = map_option fst (fs_dirh s1)" "has_bit d2 (unat num)" "unat num \<le> n"
    "\<forall>j < length es. used_dent (es ! j) \<longrightarrow> de_file_number (es ! j) \<noteq> num" by blast
  have objs: "objs cr n s2 a es 1" using b(1) objs_alike [OF s2(3)] by blast
  have store: "store_ok cr n (fs_file s2) (fs_fds s2) es a" and dom: "finite (dom (ob_open a))" "card (dom (ob_open a)) \<le> n"
    "unat (fs_dirh_refcount s2) = card (dom (ob_open a)) + 1"
    using objs by (simp_all add: objs_store)
  have es: "dents_in n es" using store by (simp add: store_ok_def)
  have none: "fs_fds s2 k = None"
  proof -
    have "handle_ok cr (fs_file s2) es (ob_map a) (fs_fds s2 k) None" using objs k unfolding objs_def by metis
    then show ?thesis by (simp add: handle_ok_def)
  qed
  have calm: "calm_fs s2" using s2(2) by (simp add: dir_ready_def dir_open_def)
  from create_file [OF cr none calm len head, of num uuid]
  obtain h z idx w where c: "\<And>rest :: (ree_fs, unit) sm. io_bind (in_fd k num (ree_fs_open_primitive cr True (Some 0) uuid
        (Some \<lparr>fh_file_number = num, fh_hash = 0, fh_idx = 0\<rparr>))) (\<lambda>_.
      io_bind (write_part cr k 0 head) (\<lambda>_. io_bind (write_part cr k (length head) attr) (\<lambda>_.
      io_bind (write_part cr k (length head + length attr) data) (\<lambda>_. io_bind (sync_fd cr k) (\<lambda>_. rest))))) s2
      = rest (with_fd k num (Some \<lparr>fd_ht = h, fd_dfh = \<lparr>fh_file_number = num, fh_hash = z, fh_idx = idx\<rparr>\<rparr>) w s2)" "calm w"
    "held cr uuid (w_stor w) (Some \<lparr>fd_ht = h, fd_dfh = \<lparr>fh_file_number = num, fh_hash = z, fh_idx = idx\<rparr>\<rparr>) ?f"
    "committed cr 2 uuid (w_stor w) z ?f" by blast
  let ?fd = "\<lparr>fd_ht = h, fd_dfh = \<lparr>fh_file_number = num, fh_hash = z, fh_idx = idx\<rparr>\<rparr>"
  define s3 where "s3 = with_fd k num (Some ?fd) w s2"
  have made: "create_object cr k num uuid oid overwrite head attr data s2 = set_name cr k uuid oid overwrite s3"
    unfolding create_object_def Let_def s3_def by (rule c(1))
  have dir3: "dir_ready cr (Suc n) s3 d2 es" using s2(2) dir_open_with_fd [OF c(2)] by (simp add: dir_ready_def s3_def)
  then have d3: "dir_open cr (Suc n) s3 d2 es es" "dir_ok d2 es" by (simp_all add: dir_ready_def dir_wf_def)
  from in_dirh_impl [OF cr d3(1) nw_directory.nw_find [OF nw_directory.intro [OF cr] d3(2)], of uuid oid]
  obtain s4 where s4: "?find s3 = (find_result es uuid oid, s4)" "dir_open cr (Suc n) s4 d2 es es" "alike s3 s4"
    "map_option fst (fs_dirh s4) = map_option fst (fs_dirh s3)" by blast
  have dir4: "dir_ready cr (Suc n) s4 d2 es" using s4(2) dir3 by (simp add: dir_ready_def)
  have fds4: "fs_fds s4 = (fs_fds s2)(k \<mapsto> ?fd)" and ref4: "fs_dirh_refcount s4 = fs_dirh_refcount s2"
    and file4: "fs_file s4 (Some i) = ((fs_file s2)(Some num := w_stor w)) (Some i)" for i
    using s4(3) by (simp_all add: alike_def s3_def)
  have x4: "map_option fst (fs_dirh s4) = Some x" using s4(4) s2(4) b(3) by (simp add: s3_def)
  have named: "\<exists>s'. set_name_at cr k uuid oid (gone_of es g) s4 = (Ok (), s') \<and> fs_ok cr (n + 3) s' (created k ?key ?f a)"
    if g: "case g of None \<Rightarrow> ob_map a ?key = None
        | Some i \<Rightarrow> ob_map a ?key \<noteq> None \<and> i < length es \<and> used_dent (es ! i) \<and> dent_key (es ! i) = ?key" for g
  proof -
    define p where "p = place_at uuid oid es g"
    define e where "e = name_dent uuid \<lparr>fh_file_number = num, fh_hash = z, fh_idx = 0\<rparr> oid"
    let ?es = "put_dent p e es"
    let ?fd1 = "?fd\<lparr>fd_dfh := fileh_at ?es p\<rparr>"
    have held: "held cr uuid (w_stor w) (Some ?fd1) ?f" by (rule held_dfh [OF c(3)])
    have store1: "store_ok cr (n + 2) ((fs_file s2)(Some num := w_stor w)) ((fs_fds s2)(k \<mapsto> ?fd1)) ?es (created k ?key ?f a)"
      by (rule store_created [OF store n(1) g new _ s2(6) p_def e_def c(4) held]) (use s2(7) in simp_all)
    then have dist: "dents_distinct ?es" by (simp add: store_ok_def dents_in_def)
    have gl: "i < length es" if "g = Some i" for i using g that by simp
    have fd4: "fs_fds s4 k = Some ?fd" "fh_file_number (fd_dfh ?fd) = num" "fh_hash (fd_dfh ?fd) = z" by (simp_all add: fds4)
    from name_dir [OF cr n'(3) dir4 dents_in_mono [OF es] fd4 gl new p_def e_def dist s2(5)]
    obtain s5 d5 where s5: "io_bind (get_dfh k) (\<lambda>dfh.
      let dfh0 = dfh\<lparr>fh_idx := (case gone_of es g of None \<Rightarrow> - 1 | Some o_dfh \<Rightarrow> fh_idx o_dfh)\<rparr> in
      io_bind (in_dirh (tee_fs_dirfile_rename (dirf_fops cr) uuid dfh0 oid)) (\<lambda>dfh1.
      io_bind (set_dfh k dfh1) (\<lambda>_. commit_dirh_writes cr))) s4 = (Ok (), s5)" "dir_ready cr (Suc (Suc n)) s5 d5 ?es"
      "alike (s4\<lparr>fs_fds := (fs_fds s4)(k \<mapsto> ?fd1)\<rparr>) s5" by auto
    have run: "set_name_at cr k uuid oid (gone_of es g) s4
        = (case gone_of es g of None \<Rightarrow> io_ret () | Some o_dfh \<Rightarrow> quietly (remove_file (fh_file_number o_dfh))) s5"
      using s5(1) by (auto simp: set_name_at_def io_bind_def Let_def split: prod.splits io.splits)
    have "store_ok cr (n + 2) (fs_file s5) (fs_fds s5) ?es (created k ?key ?f a)"
    proof -
      have "fs_fds s5 = (fs_fds s2)(k \<mapsto> ?fd1)" using s5(3) by (simp add: alike_def fds4)
      moreover have "store_ok cr (n + 2) (fs_file s5) ((fs_fds s2)(k \<mapsto> ?fd1)) ?es (created k ?key ?f a)"
        by (rule store_files [OF store1]) (use s5(3) file4 in \<open>simp add: alike_def\<close>)
      ultimately show ?thesis by simp
    qed
    then have store5: "store_ok cr (n + 3) (fs_file s5) (fs_fds s5) ?es (created k ?key ?f a)" by (rule store_mono) simp
    have dir5: "dir_ready cr (n + 3) s5 d5 ?es" by (rule dir_ready_mono [OF s5(2)]) simp
    have cdom: "dom (ob_open (created k ?key ?f a)) = insert k (dom (ob_open a))"
      by (auto simp: created_def Let_def orphan_def split: if_splits)
    have ref5: "unat (fs_dirh_refcount s5) = card (dom (ob_open (created k ?key ?f a)))"
      using s5(3) dom k by (simp add: alike_def ref4 cdom domIff)
    have dom5: "finite (dom (ob_open (created k ?key ?f a)))" "card (dom (ob_open (created k ?key ?f a))) \<le> n + 3"
      using dom k by (simp_all add: cdom domIff)
    have nz: "fs_dirh_refcount s5 \<noteq> 0" using ref5 dom k by (auto simp: cdom domIff)
    show ?thesis
    proof (cases g)
      case None
      have "fs_ok cr (n + 3) s5 (created k ?key ?f a)"
        using store5 dir5 ref5 dom5 nz unfolding fs_ok_def objs_store by auto
      then show ?thesis using run None by (simp add: gone_of_def io_ret_def)
    next
      case (Some i)
      have "de_file_number (?es ! j) \<noteq> de_file_number (es ! i)" if j: "j < length ?es" "used_dent (?es ! j)" for j
      proof -
        have i: "i < length es" "used_dent (es ! i)" "p = i" using g Some by (simp_all add: p_def place_at_def)
        have "?es ! j = (if j = i then e else es ! j)" "length ?es = length es" using i by (auto simp: put_dent_def nth_list_update)
        moreover have "de_file_number e = num" by (simp add: e_def name_dent_def)
        ultimately show ?thesis
          using j i s2(7) other_number(1) [of es i j] es by (cases "j = i") (auto simp: dents_in_def)
      qed
      from drop_file_store [OF store5 dir5 this]
      obtain s6 where s6: "quietly (remove_file (de_file_number (es ! i))) s5 = (Ok (), s6)"
        "store_ok cr (n + 3) (fs_file s6) (fs_fds s6) ?es (created k ?key ?f a)" "dir_ready cr (n + 3) s6 d5 ?es"
        "fs_dirh_refcount s6 = fs_dirh_refcount s5" by blast
      have "fs_ok cr (n + 3) s6 (created k ?key ?f a)"
        using s6(2-4) ref5 dom5 nz unfolding fs_ok_def objs_store by auto
      then show ?thesis using run Some s6(1) by (simp add: gone_of_def)
    qed
  qed
  have start: "ree_fs_create cr k uuid oid overwrite head attr data s
      = io_try (set_name cr k uuid oid overwrite) io_ret
          (\<lambda>e. io_bind (put_dirh cr x True) (\<lambda>_. io_bind (drop_object k num) (\<lambda>_. io_fail e))) s3"
    using g(1) s2(1) made by (simp add: ree_fs_create_def io_bind_def [of "get_dirh cr"] io_try_def)
  show ?thesis
  proof (cases "ob_map a ?key")
    case None
    then have "find_result es uuid oid = Fail TEE_ERROR_ITEM_NOT_FOUND" using find_objs [OF objs, of uuid oid] by simp
    moreover obtain s' where "set_name_at cr k uuid oid None s4 = (Ok (), s')" "fs_ok cr (n + 3) s' (created k ?key ?f a)"
      using named [of None] None by (auto simp: gone_of_def)
    ultimately show ?thesis using start s4(1) None by (simp add: set_name_def io_try_def io_ret_def)
  next
    case (Some f0)
    then obtain i where i: "find_result es uuid oid = Ok (fileh_at es i)" "i < length es" "used_dent (es ! i)" "dent_key (es ! i) = ?key"
      using find_objs [OF objs, of uuid oid] by auto
    show ?thesis
    proof (cases overwrite)
      case True
      obtain s' where "set_name_at cr k uuid oid (Some (fileh_at es i)) s4 = (Ok (), s')" "fs_ok cr (n + 3) s' (created k ?key ?f a)"
        using named [of "Some i"] Some i by (auto simp: gone_of_def)
      then show ?thesis using start s4(1) i(1) True by (simp add: set_name_def io_try_def io_ret_def)
    next
      case False
      have "store_ok cr (Suc n) (fs_file s2) (fs_fds s2) es a" by (rule store_mono [OF store]) simp
      from drop_new [OF this n'(3) dir4 none fds4 file4 _ dom(1) _ _ x4] s2(7) dom ref4
      obtain s' where s': "io_bind (put_dirh cr x True) (\<lambda>_. drop_object k num) s4 = (Ok (), s')" "fs_ok cr (Suc n) s' a" by auto
      then have "io_bind (put_dirh cr x True) (\<lambda>_. io_bind (drop_object k num) (\<lambda>_. io_fail e :: (ree_fs, unit) sm)) s4 = (Fail e, s')"
        for e :: tee_result
        by (auto simp: io_bind_def io_fail_def split: prod.splits io.splits)
      moreover have "fs_ok cr (n + 3) s' a" by (rule fs_ok_mono [OF s'(2)]) simp
      ultimately show ?thesis using start s4(1) i(1) False Some by (simp add: set_name_def io_try_def io_fail_def)
    qed
  qed
qed

end
