(* ===== verification/FsObjects.thy ===== *)
theory FsObjects
  imports FsObjMap
begin

text \<open>
  The calls on secure storage and what they are to do to a map of objects, and that they do it.
\<close>

section \<open>Calls\<close>

text \<open>
  The operations of \<open>ree_fs_ops\<close> on objects except \<open>truncate\<close>, which does not keep the tree intact (\<open>FsTrunc\<close>),
  and the listing. Handles are the addresses the caller gets.
\<close>

datatype obj_call =
    Obj_open nat bytes bytes
  | Obj_create nat bytes bytes bool bytes bytes bytes
  | Obj_close nat
  | Obj_read nat "64 word" "64 word"
  | Obj_write nat "64 word" bytes
  | Obj_rename "bytes \<times> bytes" bytes bool
  | Obj_remove bytes bytes

datatype obj_value = Val_done | Val_length "64 word" | Val_bytes bytes

fun obj_exec :: "fs_crypto \<Rightarrow> obj_call \<Rightarrow> (ree_fs, obj_value) sm" where
  "obj_exec cr (Obj_open k uuid oid) = io_bind (ree_fs_open cr k uuid oid) (\<lambda>l. io_ret (Val_length l))"
| "obj_exec cr (Obj_create k uuid oid overwrite head attr data) =
     io_bind (ree_fs_create cr k uuid oid overwrite head attr data) (\<lambda>_. io_ret Val_done)"
| "obj_exec cr (Obj_close k) = io_bind (ree_fs_close cr k) (\<lambda>_. io_ret Val_done)"
| "obj_exec cr (Obj_read k pos len) = io_bind (ree_fs_read cr k pos len) (\<lambda>b. io_ret (Val_bytes b))"
| "obj_exec cr (Obj_write k pos buf) = io_bind (ree_fs_write cr k pos buf (word_of_nat (length buf))) (\<lambda>_. io_ret Val_done)"
| "obj_exec cr (Obj_rename old oid overwrite) =
     io_bind (ree_fs_rename cr old (Some (fst old, oid)) overwrite) (\<lambda>_. io_ret Val_done)"
| "obj_exec cr (Obj_remove uuid oid) = io_bind (ree_fs_remove cr uuid oid) (\<lambda>_. io_ret Val_done)"

section \<open>What the calls are to do\<close>

fun obj_spec :: "objects \<Rightarrow> obj_call \<Rightarrow> obj_value io \<times> objects" where
  "obj_spec a (Obj_open k uuid oid) = (case ob_map a (uuid, oid) of
     None \<Rightarrow> (Fail TEE_ERROR_ITEM_NOT_FOUND, a)
   | Some b \<Rightarrow> (Ok (Val_length (word_of_nat (length b))), a\<lparr>ob_open := (ob_open a)(k := Some (Some (uuid, oid)))\<rparr>))"
| "obj_spec a (Obj_create k uuid oid overwrite head attr data) =
     (if ob_map a (uuid, oid) \<noteq> None \<and> \<not> overwrite then (Fail TEE_ERROR_ACCESS_CONFLICT, a)
      else (Ok Val_done, created k (uuid, oid) (head @ attr @ data) a))"
| "obj_spec a (Obj_close k) = (Ok Val_done, a\<lparr>ob_open := (ob_open a)(k := None)\<rparr>)"
| "obj_spec a (Obj_read k pos len) = (case ob_open a k of
     Some (Some key) \<Rightarrow> (case ob_map a key of
       Some b \<Rightarrow> (Ok (Val_bytes (bytes_read (unat pos) (unat len) b)), a) | None \<Rightarrow> (Stuck, a))
   | _ \<Rightarrow> (Stuck, a))"
| "obj_spec a (Obj_write k pos buf) = (case ob_open a k of
     Some (Some key) \<Rightarrow> (case ob_map a key of
       Some b \<Rightarrow> (Ok Val_done, a\<lparr>ob_map := (ob_map a)(key \<mapsto> bytes_write (unat pos) buf b)\<rparr>) | None \<Rightarrow> (Stuck, a))
   | _ \<Rightarrow> (Stuck, a))"
| "obj_spec a (Obj_rename old oid overwrite) = (let new = (fst old, oid) in
     if ob_map a new \<noteq> None \<and> \<not> overwrite then (Fail TEE_ERROR_ACCESS_CONFLICT, a)
     else if ob_map a old = None then (Fail TEE_ERROR_ITEM_NOT_FOUND, a)
     else (Ok Val_done, renamed old new (if ob_map a new = None then a else orphan new a)))"
| "obj_spec a (Obj_remove uuid oid) =
     (if ob_map a (uuid, oid) = None then (Fail TEE_ERROR_ITEM_NOT_FOUND, a) else (Ok Val_done, orphan (uuid, oid) a))"

text \<open>
  What a caller keeps to, as \<open>core/tee/tee_svc_storage.c\<close> does: handles are used while they are open,
  identifiers have their sizes, and lengths stay below \<open>2 ^ 31\<close>. Of an object that is written no other handle is open:
  each handle has a tree of its own in memory, which a write through another one does not update.
\<close>

definition sole_handle :: "objects \<Rightarrow> nat \<Rightarrow> obj_key \<Rightarrow> bool" where
  "sole_handle a k key \<longleftrightarrow> (\<forall>j. ob_open a j = Some (Some key) \<longrightarrow> j = k)"

fun obj_ok :: "objects \<Rightarrow> obj_call \<Rightarrow> bool" where
  "obj_ok a (Obj_open k uuid oid) = (ob_open a k = None)"
| "obj_ok a (Obj_create k uuid oid overwrite head attr data) = (ob_open a k = None \<and> length uuid = 16 \<and> length oid \<le> 64
     \<and> head \<noteq> [] \<and> length head + length attr + length data < 2 ^ 31)"
| "obj_ok a (Obj_close k) = (ob_open a k \<noteq> None)"
| "obj_ok a (Obj_read k pos len) = ((case ob_open a k of Some (Some key) \<Rightarrow> True | _ \<Rightarrow> False) \<and> unat pos + unat len < 2 ^ 64)"
| "obj_ok a (Obj_write k pos buf) = ((case ob_open a k of Some (Some key) \<Rightarrow> sole_handle a k key | _ \<Rightarrow> False)
     \<and> buf \<noteq> [] \<and> unat pos + length buf < 2 ^ 31)"
| "obj_ok a (Obj_rename old oid overwrite) = (length (fst old) = 16 \<and> length oid \<le> 64 \<and> oid \<noteq> snd old)"
| "obj_ok a (Obj_remove uuid oid) = True"

fun repeats :: "obj_call \<Rightarrow> ree_fs \<Rightarrow> ree_fs \<Rightarrow> bool" where
  "repeats (Obj_write k pos buf) s s' = digest_repeats k s s'"
| "repeats _ s s' = False"

section \<open>The refinement\<close>

lemma open_handle:
  assumes "fs_ok cr n s a" and "ob_open a k = Some (Some key)"
  shows "\<exists>b. ob_map a key = Some b"
proof -
  obtain es where "objs cr n s a es 0" using assms(1) unfolding fs_ok_def by blast
  from live_handle [OF this assms(2)] show ?thesis by blast
qed

lemma obj_step:
  assumes cr: "crypto_ok cr" and n: "2 \<le> n" "n + 3 < 2 ^ 24" and ok: "fs_ok cr n s a" and call: "obj_ok a call"
    and run: "obj_exec cr call s = (r, s')"
  shows "repeats call s s' \<or> r = fst (obj_spec a call) \<and> fs_ok cr (n + 3) s' (snd (obj_spec a call))"
proof -
  have n': "0 < n" "Suc n < 2 ^ 24" "n < 2 ^ 24" "n + 2 < 2 ^ 24" using n by simp_all
  have mono: "fs_ok cr (Suc n) s1 a1 \<Longrightarrow> fs_ok cr (n + 3) s1 a1" "fs_ok cr n s1 a1 \<Longrightarrow> fs_ok cr (n + 3) s1 a1"
    "fs_ok cr (n + 2) s1 a1 \<Longrightarrow> fs_ok cr (n + 3) s1 a1" for s1 a1
    by (erule fs_ok_mono, simp)+
  show ?thesis
  proof (cases call)
    case (Obj_open k uuid oid)
    then have "ob_open a k = None" using call by simp
    from open_objs [OF cr n'(1,2) ok this, of uuid oid] show ?thesis
      using run Obj_open mono(1) by (auto simp: io_bind_def io_ret_def split: option.splits)
  next
    case (Obj_create k uuid oid overwrite head attr data)
    then have c: "ob_open a k = None" "length uuid = 16" "length oid \<le> 64" "length head + length attr + length data < 2 ^ 31"
      "head \<noteq> []" using call by simp_all
    from create_objs [OF cr n ok c, of overwrite] show ?thesis
      using run Obj_create by (auto simp: io_bind_def io_ret_def split: if_splits)
  next
    case (Obj_close k)
    then obtain ho where "ob_open a k = Some ho" using call by auto
    from close_objs [OF cr n'(3) ok this] show ?thesis
      using run Obj_close mono(2) by (auto simp: io_bind_def io_ret_def)
  next
    case (Obj_read k pos len)
    then obtain key where k: "ob_open a k = Some (Some key)" "unat pos + unat len < 2 ^ 64"
      using call by (auto split: option.splits)
    obtain b where b: "ob_map a key = Some b" using open_handle [OF ok k(1)] by blast
    from read_objs [OF cr ok k(1) b k(2)] show ?thesis
      using run Obj_read mono(2) k(1) b by (auto simp: io_bind_def io_ret_def)
  next
    case (Obj_write k pos buf)
    then obtain key where k: "ob_open a k = Some (Some key)" "sole_handle a k key" "unat pos + length buf < 2 ^ 31"
      using call by (auto split: option.splits)
    obtain b where b: "ob_map a key = Some b" using open_handle [OF ok k(1)] by blast
    have len: "length buf = unat (word_of_nat (length buf) :: 64 word)"
      by (rule unat_of_nat_exact [symmetric]) (use k(3) in simp)
    have sole: "ob_open a j = Some (Some key) \<Longrightarrow> j = k" for j using k(2) by (simp add: sole_handle_def)
    have pos: "unat pos + unat (word_of_nat (length buf) :: 64 word) < 2 ^ 31" using k(3) len by simp
    from write_objs [OF cr n'(1,2) ok k(1) sole b len pos] show ?thesis
      using run Obj_write mono(1) k(1) b by (auto simp: io_bind_def io_ret_def)
  next
    case (Obj_rename old oid overwrite)
    then have c: "length (fst old) = 16" "length oid \<le> 64" "fst old = fst old" "old \<noteq> (fst old, oid)"
      using call by (auto simp: prod_eq_iff)
    from rename_objs [OF cr n'(1,4) ok c, of overwrite] show ?thesis
      using run Obj_rename mono(3) by (auto simp: io_bind_def io_ret_def Let_def split: if_splits)
  next
    case (Obj_remove uuid oid)
    from remove_objs [OF cr n'(1,2) ok, of uuid oid] show ?thesis
      using run Obj_remove mono(1) by (auto simp: io_bind_def io_ret_def split: option.splits)
  qed
qed

section \<open>Runs\<close>

fun obj_run :: "fs_crypto \<Rightarrow> obj_call list \<Rightarrow> ree_fs \<Rightarrow> obj_value io list \<times> ree_fs" where
  "obj_run cr [] s = ([], s)"
| "obj_run cr (c # cs) s = (case obj_exec cr c s of (r, s1) \<Rightarrow> (case obj_run cr cs s1 of (rs, s2) \<Rightarrow> (r # rs, s2)))"

fun spec_run :: "objects \<Rightarrow> obj_call list \<Rightarrow> obj_value io list \<times> objects" where
  "spec_run a [] = ([], a)"
| "spec_run a (c # cs) = (case obj_spec a c of (r, a1) \<Rightarrow> (case spec_run a1 cs of (rs, a2) \<Rightarrow> (r # rs, a2)))"

fun calls_ok :: "objects \<Rightarrow> obj_call list \<Rightarrow> bool" where
  "calls_ok a [] = True"
| "calls_ok a (c # cs) = (obj_ok a c \<and> calls_ok (snd (obj_spec a c)) cs)"

fun some_repeat :: "fs_crypto \<Rightarrow> obj_call list \<Rightarrow> ree_fs \<Rightarrow> bool" where
  "some_repeat cr [] s = False"
| "some_repeat cr (c # cs) s = (let s1 = snd (obj_exec cr c s) in repeats c s s1 \<or> some_repeat cr cs s1)"

text \<open>A store that was never used.\<close>

definition fs_start :: ree_fs where
  "fs_start = \<lparr>fs_nw = \<lparr>nw_files = \<lambda>_. drop_storage \<lparr>st_head = \<lambda>_. None, st_node = \<lambda>_ _. None, st_block = \<lambda>_ _. None, st_there = False\<rparr>,
       nw_replies = [], nw_randoms = []\<rparr>,
     fs_dirh = None, fs_dirh_refcount = 0, fs_fds = \<lambda>_. None, fs_next = 0\<rparr>"

definition no_objects :: objects where
  "no_objects = \<lparr>ob_map = \<lambda>_. None, ob_open = \<lambda>_. None\<rparr>"

lemma fs_start_ok: "fs_ok cr n fs_start no_objects"
proof -
  have "objs cr n fs_start no_objects [] 0"
    by (simp add: objs_def fs_start_def no_objects_def dents_in_def dents_distinct_def entries_ok_def handle_ok_def)
  moreover have "dir_closed cr n fs_start []" by (simp add: dir_closed_def fs_start_def calm_fs_def drop_storage_def)
  ultimately show ?thesis unfolding fs_ok_def by blast
qed

text \<open>
  C3: secure storage is a map from objects to bytes. In any state the operations lead to (\<open>fs_ok\<close>, which a store that
  was never used satisfies), every sequence of opening, creating, reading, writing, renaming, removing and closing
  objects has the results that the map has, with the objects kept in encrypted files that the directory names by number
  and digest, and ends in such a state, as long as normal world does what it is asked; the only other outcome
  is that a commit gives a root the digest that the root before it had.
\<close>
theorem ree_fs_refines_objects:
  assumes "crypto_ok cr" and "fs_ok cr n s a" and "2 \<le> n" and "n + 3 * length calls < 2 ^ 24" and "calls_ok a calls"
    and "obj_run cr calls s = (rs, s')"
  shows "some_repeat cr calls s
    \<or> rs = fst (spec_run a calls) \<and> fs_ok cr (n + 3 * length calls) s' (snd (spec_run a calls))"
  using assms(2-6)
proof (induction calls arbitrary: n s a rs)
  case (Cons c cs)
  obtain r s1 where r: "obj_exec cr c s = (r, s1)" by (metis prod.exhaust)
  obtain rs1 where rs: "obj_run cr cs s1 = (rs1, s')" "rs = r # rs1" using Cons.prems(5) r by (auto split: prod.splits)
  have "n + 3 < 2 ^ 24" "obj_ok a c" using Cons.prems(3,4) by simp_all
  from obj_step [OF assms(1) Cons.prems(2) this(1) Cons.prems(1) this(2) r] show ?case
  proof
    assume "repeats c s s1"
    then show ?thesis using r by (simp add: Let_def)
  next
    assume ok: "r = fst (obj_spec a c) \<and> fs_ok cr (n + 3) s1 (snd (obj_spec a c))"
    have "2 \<le> n + 3" "n + 3 + 3 * length cs < 2 ^ 24" "calls_ok (snd (obj_spec a c)) cs" using Cons.prems(3,4) by simp_all
    from Cons.IH [OF conjunct2 [OF ok] this rs(1)] show ?thesis
    proof
      assume "some_repeat cr cs s1"
      then show ?thesis using r by (simp add: Let_def)
    next
      assume t: "rs1 = fst (spec_run (snd (obj_spec a c)) cs)
        \<and> fs_ok cr (n + 3 + 3 * length cs) s' (snd (spec_run (snd (obj_spec a c)) cs))"
      have len: "n + 3 * length (c # cs) = n + 3 + 3 * length cs" by simp
      have "rs = fst (spec_run a (c # cs))" using t ok rs(2) by (simp add: split_beta)
      moreover have "fs_ok cr (n + 3 * length (c # cs)) s' (snd (spec_run a (c # cs)))"
        unfolding len using t by (simp add: split_beta)
      ultimately show ?thesis by blast
    qed
  qed
qed simp

definition life_of_object :: "obj_call list" where
  "life_of_object = (let u = replicate 16 7; o1 = [1, 2]; o2 = [3] in
     [Obj_create 0 u o1 False [5] [] [6, 7], Obj_create 1 u o1 False [8] [] [], Obj_close 0, Obj_rename (u, o1) o2 False,
      Obj_open 1 u o1, Obj_open 1 u o2, Obj_read 1 1 5, Obj_remove u o2, Obj_close 1])"

theorem ree_fs_refines_objects_witness:
  "fst (obj_run toy_crypto life_of_object fs_start)
     = [Ok Val_done, Fail TEE_ERROR_ACCESS_CONFLICT, Ok Val_done, Ok Val_done, Fail TEE_ERROR_ITEM_NOT_FOUND,
        Ok (Val_length 3), Ok (Val_bytes [6, 7]), Ok Val_done, Ok Val_done]"
proof -
  obtain rs s' where run: "obj_run toy_crypto life_of_object fs_start = (rs, s')" by (metis prod.exhaust)
  have ok: "calls_ok no_objects life_of_object"
    by (simp add: life_of_object_def no_objects_def created_def renamed_def orphan_def Let_def)
  have "\<not> some_repeat toy_crypto life_of_object fs_start" by (simp add: life_of_object_def Let_def)
  moreover have "2 + 3 * length life_of_object < 2 ^ 24" by (simp add: life_of_object_def Let_def)
  ultimately have "rs = fst (spec_run no_objects life_of_object)"
    using ree_fs_refines_objects [OF toy_crypto_ok fs_start_ok order_refl _ ok run] by blast
  also have "\<dots> = [Ok Val_done, Fail TEE_ERROR_ACCESS_CONFLICT, Ok Val_done, Ok Val_done, Fail TEE_ERROR_ITEM_NOT_FOUND,
        Ok (Val_length 3), Ok (Val_bytes [6, 7]), Ok Val_done, Ok Val_done]"
    by (simp add: life_of_object_def no_objects_def created_def renamed_def orphan_def Let_def bytes_read_def)
  finally show ?thesis using run by simp
qed

end
