(* ===== verification/Vm.thy ===== *)
theory Vm
  imports Effects
begin

text \<open>
  The address space of a user-mode context (\<open>core/mm/vm.c\<close>): a list of regions ordered by address, each a range of
  virtual addresses that shows a part of a memory object. Memory objects (pointers; \<open>0\<close> is null), the user
  address range and the sizes of translation tables are parameters. Translation tables and the pager are behind calls: each
  call is recorded as an event, and those that may fail take their answer from a script. The context is the active one.
\<close>

section \<open>Constants\<close>

definition SMALL_PAGE_SIZE :: "64 word" where "SMALL_PAGE_SIZE = 4096"
definition SMALL_PAGE_MASK :: "64 word" where "SMALL_PAGE_MASK = 4095"
definition CORE_MMU_USER_CODE_SIZE :: "64 word" where "CORE_MMU_USER_CODE_SIZE = SMALL_PAGE_SIZE"
definition CORE_MMU_USER_PARAM_SIZE :: "64 word" where "CORE_MMU_USER_PARAM_SIZE = SMALL_PAGE_SIZE"

definition TEE_MATTR_VALID_BLOCK :: "16 word" where "TEE_MATTR_VALID_BLOCK = 1"
definition TEE_MATTR_PR :: "16 word" where "TEE_MATTR_PR = 0x10"
definition TEE_MATTR_PW :: "16 word" where "TEE_MATTR_PW = 0x20"
definition TEE_MATTR_UR :: "16 word" where "TEE_MATTR_UR = 0x80"
definition TEE_MATTR_UW :: "16 word" where "TEE_MATTR_UW = 0x100"
definition TEE_MATTR_PROT_MASK :: "16 word" where "TEE_MATTR_PROT_MASK = 0x83F0"
definition TEE_MATTR_SECURE :: "16 word" where "TEE_MATTR_SECURE = 0x800"
definition TEE_MATTR_MEM_TYPE_SHIFT :: nat where "TEE_MATTR_MEM_TYPE_SHIFT = 12"

definition VM_FLAG_EPHEMERAL :: "16 word" where "VM_FLAG_EPHEMERAL = 1"
definition VM_FLAG_PERMANENT :: "16 word" where "VM_FLAG_PERMANENT = 2"
definition VM_FLAG_SHAREABLE :: "16 word" where "VM_FLAG_SHAREABLE = 4"

definition VM_FLAGS_NONPRIV :: "16 word" where
  "VM_FLAGS_NONPRIV = VM_FLAG_EPHEMERAL OR VM_FLAG_PERMANENT OR VM_FLAG_SHAREABLE"

definition TEE_MEMORY_ACCESS_READ :: "32 word" where "TEE_MEMORY_ACCESS_READ = 1"
definition TEE_MEMORY_ACCESS_WRITE :: "32 word" where "TEE_MEMORY_ACCESS_WRITE = 2"
definition TEE_MEMORY_ACCESS_ANY_OWNER :: "32 word" where "TEE_MEMORY_ACCESS_ANY_OWNER = 4"
definition TEE_MEMORY_ACCESS_NONSECURE :: "32 word" where "TEE_MEMORY_ACCESS_NONSECURE = 0x10000000"
definition TEE_MEMORY_ACCESS_SECURE :: "32 word" where "TEE_MEMORY_ACCESS_SECURE = 0x20000000"

section \<open>Data\<close>

record vm_region =
  r_mobj :: nat
  r_offset :: "64 word"
  r_va :: "64 word"
  r_size :: "64 word"
  r_attr :: "16 word"
  r_flags :: "16 word"

record vm_platform =
  pl_va_base :: "64 word"
  pl_va_size :: "64 word"
  pl_pgdir_size :: "64 word"
  pl_lpae :: bool
  mo_size :: "nat \<Rightarrow> 64 word"
  mo_granule :: "nat \<Rightarrow> 64 word"
  mo_is_paged :: "nat \<Rightarrow> bool"
  mo_is_secure :: "nat \<Rightarrow> bool"
  mo_mem_type :: "nat \<Rightarrow> tee_result + 16 word"
  mo_phys_offs :: "nat \<Rightarrow> 64 word \<Rightarrow> 64 word"
  mo_pa :: "nat \<Rightarrow> 64 word \<Rightarrow> 64 word \<Rightarrow> tee_result + 64 word"
  mo_fobj :: "nat \<Rightarrow> nat"

text \<open>
  What the translation tables, the caches and the pager are told: \<open>set_um_region\<close>, \<open>pgt_clear_range\<close>,
  \<open>pgt_flush_range\<close>, \<open>pgt_flush\<close>, the \<open>tlbi\<close> and \<open>cache_op_inner\<close> calls, \<open>vm_set_ctx\<close>, \<open>asid_free\<close>
  and the functions of the pager.
\<close>

datatype vm_event =
    Set_region vm_region
  | Clear_range "64 word" "64 word"
  | Flush_tables "64 word" "64 word"
  | Flush_all
  | Tlb_range "64 word" "64 word"
  | Tlb_asid "32 word"
  | Asid_free "32 word"
  | Dcache_clean "64 word" "64 word"
  | Icache_invalidate
  | Set_ctx
  | Pager_add "64 word" nat "16 word"
  | Pager_rem "64 word" "64 word"
  | Pager_rem_all
  | Pager_split "64 word"
  | Pager_merge "64 word" "64 word"
  | Pager_attr "64 word" "64 word" "16 word"

text \<open>\<open>um_refs\<close> counts the references to memory objects that the context has taken and not given back.\<close>

record user_mode_ctx =
  um_regions :: "vm_region list"
  um_asid :: "32 word"
  um_refs :: "nat \<Rightarrow> int"
  um_events :: "vm_event list"
  um_replies :: "nat \<Rightarrow> tee_result"

type_synonym 'a vm = "(user_mode_ctx, 'a) sm"

definition vm_call :: "unit vm" where
  "vm_call = (\<lambda>s. (if um_replies s 0 = TEE_SUCCESS then Ok () else Fail (um_replies s 0), s\<lparr>um_replies := \<lambda>n. um_replies s (Suc n)\<rparr>))"

definition vm_event :: "vm_event \<Rightarrow> unit vm" where
  "vm_event e = (\<lambda>s. (Ok (), s\<lparr>um_events := um_events s @ [e]\<rparr>))"

definition get_regions :: "vm_region list vm" where
  "get_regions = (\<lambda>s. (Ok (um_regions s), s))"

definition set_regions :: "vm_region list \<Rightarrow> unit vm" where
  "set_regions rs = (\<lambda>s. (Ok (), s\<lparr>um_regions := rs\<rparr>))"

definition mobj_get :: "nat \<Rightarrow> unit vm" where
  "mobj_get m = (\<lambda>s. (Ok (), if m = 0 then s else s\<lparr>um_refs := (um_refs s)(m := um_refs s m + 1)\<rparr>))"

definition mobj_put :: "nat \<Rightarrow> unit vm" where
  "mobj_put m = (\<lambda>s. (Ok (), if m = 0 then s else s\<lparr>um_refs := (um_refs s)(m := um_refs s m - 1)\<rparr>))"

text \<open>A null pointer from \<open>calloc\<close>, and no page tables in \<open>alloc_pgt\<close>.\<close>

definition vm_memory :: "unit vm" where
  "vm_memory = io_try vm_call io_ret (\<lambda>_. io_fail TEE_ERROR_OUT_OF_MEMORY)"

definition alloc_pgt :: "unit vm" where
  "alloc_pgt = vm_memory"

section \<open>Arithmetic\<close>

definition add_overflow :: "64 word \<Rightarrow> 64 word \<Rightarrow> 64 word option" where
  "add_overflow a b = (if a + b < a then None else Some (a + b))"

definition ROUNDUP_OVERFLOW :: "64 word \<Rightarrow> 64 word \<Rightarrow> 64 word option" where
  "ROUNDUP_OVERFLOW v sz = (case add_overflow v (sz - 1) of None \<Rightarrow> None | Some w \<Rightarrow> Some (w AND NOT (sz - 1)))"

definition IS_POWER_OF_TWO :: "64 word \<Rightarrow> bool" where
  "IS_POWER_OF_TWO x \<longleftrightarrow> x \<noteq> 0 \<and> x AND (NOT x + 1) = x"

definition is_valid_conf_and_notnull_size :: "64 word \<Rightarrow> 64 word \<Rightarrow> 64 word \<Rightarrow> 64 word \<Rightarrow> bool" where
  "is_valid_conf_and_notnull_size b bl a al = (if b - 1 + bl < b \<or> a - 1 + al < a then False else bl \<noteq> 0 \<and> al \<noteq> 0)"

definition core_is_buffer_inside :: "64 word \<Rightarrow> 64 word \<Rightarrow> 64 word \<Rightarrow> 64 word \<Rightarrow> bool" where
  "core_is_buffer_inside b bl a al = (is_valid_conf_and_notnull_size b bl a al \<and> a \<le> b \<and> b - 1 + bl \<le> a - 1 + al)"

definition core_is_buffer_intersect :: "64 word \<Rightarrow> 64 word \<Rightarrow> 64 word \<Rightarrow> 64 word \<Rightarrow> bool" where
  "core_is_buffer_intersect b bl a al = (is_valid_conf_and_notnull_size b bl a al \<and> \<not> (b + bl - 1 < a \<or> a + al - 1 < b))"

section \<open>Adding a region\<close>

definition separating_flags :: "16 word" where
  "separating_flags = VM_FLAG_EPHEMERAL OR VM_FLAG_PERMANENT OR VM_FLAG_SHAREABLE"

definition va_pad :: "vm_region \<Rightarrow> vm_region \<Rightarrow> 64 word" where
  "va_pad other reg = (if r_flags other \<noteq> 0 \<and> r_flags other AND separating_flags \<noteq> r_flags reg AND separating_flags
     then SMALL_PAGE_SIZE else 0)"

definition va_granul :: "vm_platform \<Rightarrow> vm_region \<Rightarrow> vm_region \<Rightarrow> 64 word \<Rightarrow> 64 word" where
  "va_granul pl other reg granul = (if \<not> pl_lpae pl \<and> r_attr other AND TEE_MATTR_SECURE \<noteq> r_attr reg AND TEE_MATTR_SECURE
     then pl_pgdir_size pl else granul)"

definition select_va_in_range ::
    "vm_platform \<Rightarrow> vm_region \<Rightarrow> vm_region \<Rightarrow> vm_region \<Rightarrow> 64 word \<Rightarrow> 64 word \<Rightarrow> 64 word \<Rightarrow> 64 word" where
  "select_va_in_range pl prev_reg next_reg reg pad_begin pad_end granul =
     (let granul1 = va_granul pl prev_reg reg granul; granul2 = va_granul pl next_reg reg granul1 in
      case Option.bind (Option.bind (Option.bind (add_overflow (r_va prev_reg) (r_size prev_reg))
          (\<lambda>v. add_overflow v pad_begin)) (\<lambda>v. add_overflow v (va_pad prev_reg reg))) (\<lambda>v. ROUNDUP_OVERFLOW v granul1) of
        None \<Rightarrow> 0
      | Some lowest \<Rightarrow>
          if r_va reg \<noteq> 0 \<and> r_va reg < lowest then 0
          else let begin_va = (if r_va reg \<noteq> 0 then r_va reg else lowest) in
            case Option.bind (Option.bind (Option.bind (add_overflow begin_va (r_size reg))
                (\<lambda>v. add_overflow v pad_end)) (\<lambda>v. add_overflow v (va_pad next_reg reg))) (\<lambda>v. ROUNDUP_OVERFLOW v granul2) of
              None \<Rightarrow> 0
            | Some end_va \<Rightarrow> if end_va \<le> r_va next_reg then begin_va else 0)"

definition dummy_region :: "64 word \<Rightarrow> vm_region" where
  "dummy_region va = \<lparr>r_mobj = 0, r_offset = 0, r_va = va, r_size = 0, r_attr = 0, r_flags = 0\<rparr>"

text \<open>The region is put before the first one it fits in front of; the result is its address and the list.\<close>

fun place_region :: "vm_platform \<Rightarrow> vm_region \<Rightarrow> 64 word \<Rightarrow> 64 word \<Rightarrow> 64 word \<Rightarrow> vm_region \<Rightarrow> vm_region list \<Rightarrow>
    (nat \<times> 64 word) option" where
  "place_region pl reg pad_begin pad_end granul prev_r [] =
     (let va = select_va_in_range pl prev_r (dummy_region (pl_va_base pl + pl_va_size pl)) reg pad_begin pad_end granul in
      if va \<noteq> 0 then Some (0, va) else None)"
| "place_region pl reg pad_begin pad_end granul prev_r (r # rs) =
     (let va = select_va_in_range pl prev_r r reg pad_begin pad_end granul in
      if va \<noteq> 0 then Some (0, va)
      else map_option (\<lambda>(i, va). (Suc i, va)) (place_region pl reg pad_begin pad_end granul r rs))"

text \<open>A region is named by its position in the list, where the code has a pointer to it.\<close>

definition insert_at :: "nat \<Rightarrow> 'a \<Rightarrow> 'a list \<Rightarrow> 'a list" where
  "insert_at i x xs = take i xs @ x # drop i xs"

definition remove_at :: "nat \<Rightarrow> 'a list \<Rightarrow> 'a list" where
  "remove_at i xs = take i xs @ drop (Suc i) xs"

definition umap_add_region :: "vm_platform \<Rightarrow> vm_region \<Rightarrow> 64 word \<Rightarrow> 64 word \<Rightarrow> 64 word \<Rightarrow> (nat \<times> 64 word) vm" where
  "umap_add_region pl reg pad_begin pad_end align = io_bind get_regions (\<lambda>rs.
     if (r_va reg OR r_size reg OR pad_begin OR pad_end) AND SMALL_PAGE_MASK \<noteq> 0 then io_fail TEE_ERROR_ACCESS_CONFLICT
     else case add_overflow (r_offset reg) (r_size reg) of
       None \<Rightarrow> io_fail TEE_ERROR_BAD_PARAMETERS
     | Some offs_plus_size \<Rightarrow>
         if offs_plus_size > ROUNDUP (mo_size pl (r_mobj reg)) SMALL_PAGE_SIZE then io_fail TEE_ERROR_BAD_PARAMETERS
         else let granul = max align SMALL_PAGE_SIZE in
           if \<not> IS_POWER_OF_TWO granul then io_fail TEE_ERROR_BAD_PARAMETERS
           else case place_region pl reg pad_begin pad_end granul (dummy_region (pl_va_base pl)) rs of
               None \<Rightarrow> io_fail TEE_ERROR_ACCESS_CONFLICT
             | Some (i, va) \<Rightarrow> io_bind (set_regions (insert_at i (reg\<lparr>r_va := va\<rparr>) rs)) (\<lambda>_. io_ret (i, va)))"

definition list_remove :: "nat \<Rightarrow> unit vm" where
  "list_remove i = io_bind get_regions (\<lambda>rs. set_regions (remove_at i rs))"

definition umap_remove_region :: "nat \<Rightarrow> unit vm" where
  "umap_remove_region i = io_bind get_regions (\<lambda>rs. io_bind (list_remove i) (\<lambda>_. mobj_put (r_mobj (rs ! i))))"

text \<open>The mapping of a region that has been added, by the tables or the pager.\<close>

definition show_region :: "vm_platform \<Rightarrow> vm_region \<Rightarrow> 16 word \<Rightarrow> unit vm" where
  "show_region pl reg prot = (if mo_is_paged pl (r_mobj reg)
     then if mo_fobj pl (r_mobj reg) = 0 then io_fail TEE_ERROR_GENERIC
       else io_bind vm_call (\<lambda>_. vm_event (Pager_add (r_va reg) (mo_fobj pl (r_mobj reg)) prot))
     else vm_event (Set_region reg))"

definition region_attr :: "vm_platform \<Rightarrow> nat \<Rightarrow> 16 word \<Rightarrow> 16 word" where
  "region_attr pl mobj mem_type = push_bit TEE_MATTR_MEM_TYPE_SHIFT mem_type OR TEE_MATTR_VALID_BLOCK
     OR (if mo_is_secure pl mobj then TEE_MATTR_SECURE else 0)"

text \<open>The second half of \<open>vm_map_pad\<close>: from the call of \<open>umap_add_region\<close> on, with the ways out of it.\<close>

definition add_mapping :: "vm_platform \<Rightarrow> vm_region \<Rightarrow> 64 word \<Rightarrow> 64 word \<Rightarrow> 64 word \<Rightarrow> 16 word \<Rightarrow> 64 word vm" where
  "add_mapping pl reg pad_begin pad_end align prot =
     io_try (umap_add_region pl reg pad_begin pad_end align)
       (\<lambda>(i, va). io_try (io_bind alloc_pgt (\<lambda>_. show_region pl (reg\<lparr>r_va := va\<rparr>) prot))
          (\<lambda>_. io_bind (vm_event Set_ctx) (\<lambda>_. io_ret va))
          (\<lambda>e. io_bind (list_remove i) (\<lambda>_. io_bind (mobj_put (r_mobj reg)) (\<lambda>_. io_fail e))))
       (\<lambda>e. io_bind (mobj_put (r_mobj reg)) (\<lambda>_. io_fail e))"

definition vm_map_pad ::
    "vm_platform \<Rightarrow> 64 word \<Rightarrow> 64 word \<Rightarrow> 32 word \<Rightarrow> 32 word \<Rightarrow> nat \<Rightarrow> 64 word \<Rightarrow> 64 word \<Rightarrow> 64 word \<Rightarrow> 64 word \<Rightarrow> 64 word vm" where
  "vm_map_pad pl va len prot flags mobj offs pad_begin pad_end align =
     (if prot AND NOT (ucast TEE_MATTR_PROT_MASK) \<noteq> 0 then io_fail TEE_ERROR_BAD_PARAMETERS
      else io_bind vm_memory (\<lambda>_.
        case (if mo_is_paged pl mobj then Inr 0 else mo_mem_type pl mobj) of
          Inl e \<Rightarrow> io_fail e
        | Inr mem_type \<Rightarrow> io_bind (mobj_get mobj) (\<lambda>_.
            add_mapping pl \<lparr>r_mobj = mobj, r_offset = offs, r_va = va, r_size = ROUNDUP len SMALL_PAGE_SIZE,
              r_attr = region_attr pl mobj mem_type OR ucast prot, r_flags = ucast flags\<rparr> pad_begin pad_end align (ucast prot))))"

definition vm_map :: "vm_platform \<Rightarrow> 64 word \<Rightarrow> 64 word \<Rightarrow> 32 word \<Rightarrow> 32 word \<Rightarrow> nat \<Rightarrow> 64 word \<Rightarrow> 64 word vm" where
  "vm_map pl va len prot flags mobj offs = vm_map_pad pl va len prot flags mobj offs 0 0 0"

section \<open>Taking a region out\<close>

text \<open>
  \<open>rem_um_region\<close> runs while the region is still in the list: its neighbours say which translation tables serve
  no other region.
\<close>

definition flush_bounds :: "vm_platform \<Rightarrow> vm_region list \<Rightarrow> nat \<Rightarrow> 64 word \<times> 64 word" where
  "flush_bounds pl rs i =
     (let r = rs ! i;
          first = ROUNDDOWN (r_va r) (pl_pgdir_size pl);
          last1 = ROUNDUP (r_va r + r_size r) (pl_pgdir_size pl);
          last2 = (if Suc i < length rs then min last1 (ROUNDDOWN (r_va (rs ! Suc i)) (pl_pgdir_size pl)) else last1);
          first2 = (if 0 < i then max first (ROUNDUP (r_va (rs ! (i - 1)) + r_size (rs ! (i - 1))) (pl_pgdir_size pl)) else first)
      in (first2, last2))"

definition rem_um_region :: "vm_platform \<Rightarrow> nat \<Rightarrow> unit vm" where
  "rem_um_region pl i = io_bind get_regions (\<lambda>rs.
     let r = rs ! i; (first, end_va) = flush_bounds pl rs i in
     io_bind (if mo_is_paged pl (r_mobj r) then vm_event (Pager_rem (r_va r) (r_size r))
       else io_bind (vm_event (Clear_range (r_va r) (r_va r + r_size r))) (\<lambda>_. vm_event (Tlb_range (r_va r) (r_size r)))) (\<lambda>_.
     if first < end_va then vm_event (Flush_tables first end_va) else io_ret ()))"

section \<open>Finding, splitting and merging\<close>

fun find_vm_region :: "vm_region list \<Rightarrow> 64 word \<Rightarrow> nat option" where
  "find_vm_region [] va = None"
| "find_vm_region (r # rs) va =
     (if r_va r \<le> va \<and> va < r_va r + r_size r then Some 0 else map_option Suc (find_vm_region rs va))"

type_synonym region_test = "vm_region \<Rightarrow> vm_region \<Rightarrow> vm_region \<Rightarrow> bool"

fun contiguous_from :: "region_test \<Rightarrow> vm_region \<Rightarrow> 64 word \<Rightarrow> vm_region \<Rightarrow> vm_region list \<Rightarrow> bool" where
  "contiguous_from cmp r0 end_va r [] = (r_va r + r_size r \<ge> end_va)"
| "contiguous_from cmp r0 end_va r (r_next # rs) =
     (if r_va r + r_size r \<ge> end_va then True
      else if r_va r + r_size r \<noteq> r_va r_next then False
      else if \<not> cmp r0 r r_next then False
      else contiguous_from cmp r0 end_va r_next rs)"

definition va_range_is_contiguous :: "vm_region list \<Rightarrow> nat \<Rightarrow> 64 word \<Rightarrow> 64 word \<Rightarrow> region_test \<Rightarrow> bool" where
  "va_range_is_contiguous rs i va len cmp = (case add_overflow va len of
     None \<Rightarrow> False | Some end_va \<Rightarrow> contiguous_from cmp (rs ! i) end_va (rs ! i) (drop (Suc i) rs))"

text \<open>The absent comparison.\<close>

definition any_region :: region_test where
  "any_region r0 r rn = True"

definition split_vm_region :: "vm_platform \<Rightarrow> nat \<Rightarrow> 64 word \<Rightarrow> unit vm" where
  "split_vm_region pl i va = io_bind get_regions (\<lambda>rs.
     let r = rs ! i; diff = va - r_va r in
     if \<not> (diff \<noteq> 0 \<and> diff < r_size r) then io_stuck
     else io_bind vm_memory (\<lambda>_.
       io_bind (if mo_is_paged pl (r_mobj r) then io_bind vm_call (\<lambda>_. vm_event (Pager_split va)) else io_ret ()) (\<lambda>_.
       io_bind (mobj_get (r_mobj r)) (\<lambda>_.
       set_regions (take i rs @ [r\<lparr>r_size := diff\<rparr>, r\<lparr>r_offset := r_offset r + diff, r_va := va, r_size := r_size r - diff\<rparr>]
         @ drop (Suc i) rs)))))"

text \<open>The result is the first region of the range.\<close>

definition split_vm_range :: "vm_platform \<Rightarrow> 64 word \<Rightarrow> 64 word \<Rightarrow> region_test \<Rightarrow> nat vm" where
  "split_vm_range pl va len cmp =
     (if (va OR len) AND SMALL_PAGE_MASK \<noteq> 0 then io_fail TEE_ERROR_BAD_PARAMETERS
      else case add_overflow va len of
        None \<Rightarrow> io_fail TEE_ERROR_BAD_PARAMETERS
      | Some end_va \<Rightarrow> io_bind get_regions (\<lambda>rs.
          case find_vm_region rs va of
            None \<Rightarrow> io_fail TEE_ERROR_BAD_PARAMETERS
          | Some i \<Rightarrow>
              if \<not> va_range_is_contiguous rs i va len cmp then io_fail TEE_ERROR_BAD_PARAMETERS
              else io_bind (if va \<noteq> r_va (rs ! i) then io_bind (split_vm_region pl i va) (\<lambda>_. io_ret (Suc i)) else io_ret i) (\<lambda>i0.
                io_bind get_regions (\<lambda>rs1.
                case find_vm_region rs1 (va + len - 1) of
                  None \<Rightarrow> io_fail TEE_ERROR_BAD_PARAMETERS
                | Some j \<Rightarrow>
                    if end_va \<noteq> r_va (rs1 ! j) + r_size (rs1 ! j)
                    then io_bind (split_vm_region pl j end_va) (\<lambda>_. io_ret i0) else io_ret i0))))"

text \<open>The list after merging, and the objects whose references are given back.\<close>

fun merge_from :: "64 word \<Rightarrow> 64 word \<Rightarrow> vm_region list \<Rightarrow> vm_region list \<times> nat list" where
  "merge_from va end_va [] = ([], [])"
| "merge_from va end_va [r] = ([r], [])"
| "merge_from va end_va (r # r_next # rs) =
     (if r_va r + r_size r < va then let (rs1, puts) = merge_from va end_va (r_next # rs) in (r # rs1, puts)
      else if r_va r > end_va then (r # r_next # rs, [])
      else if r_va r + r_size r \<noteq> r_va r_next \<or> r_mobj r \<noteq> r_mobj r_next \<or> r_flags r \<noteq> r_flags r_next \<or> r_attr r \<noteq> r_attr r_next \<or>
          r_offset r + r_size r \<noteq> r_offset r_next
        then let (rs1, puts) = merge_from va end_va (r_next # rs) in (r # rs1, puts)
      else let (rs1, puts) = merge_from va end_va (r\<lparr>r_size := r_size r + r_size r_next\<rparr> # rs) in (rs1, r_mobj r_next # puts))"

definition merge_vm_range :: "64 word \<Rightarrow> 64 word \<Rightarrow> unit vm" where
  "merge_vm_range va len = (case add_overflow va len of
     None \<Rightarrow> io_ret ()
   | Some end_va \<Rightarrow> io_bind (vm_event (Pager_merge va len)) (\<lambda>_. io_bind get_regions (\<lambda>rs.
       if rs = [] then io_stuck
       else let (rs1, puts) = merge_from va end_va rs in
         io_bind (set_regions rs1) (\<lambda>_. for_each mobj_put puts))))"

end
