(* ===== verification/VmOps.thy ===== *)
theory VmOps
  imports Vm
begin

text \<open>
  The operations on the address space of a user-mode context (\<open>core/mm/vm.c\<close>) over the regions of \<open>Vm\<close>:
  changing the protection of a range, moving and unmapping it, the set-up and the end of a context, the deprecated
  read/write memory, and the questions the rest of the system asks: to whom a buffer belongs, what an address shows,
  and whether a buffer may be accessed.
\<close>

section \<open>Questions on ranges\<close>

definition cmp_region_for_remap :: region_test where
  "cmp_region_for_remap r0 r rn =
     (r_flags r0 = r_flags r \<and> r_attr r0 = r_attr r \<and> r_mobj r0 = r_mobj r \<and> r_offset rn = r_offset r + r_size r)"

definition cmp_region_for_get_flags :: region_test where
  "cmp_region_for_get_flags r0 r rn = (r_flags r0 = r_flags r)"

definition cmp_region_for_get_prot :: region_test where
  "cmp_region_for_get_prot r0 r rn = (r_attr r0 AND TEE_MATTR_PROT_MASK = r_attr r AND TEE_MATTR_PROT_MASK)"

definition vm_get_flags :: "64 word \<Rightarrow> 64 word \<Rightarrow> 16 word vm" where
  "vm_get_flags va len =
     (if len = 0 \<or> (len OR va) AND SMALL_PAGE_MASK \<noteq> 0 then io_fail TEE_ERROR_BAD_PARAMETERS
      else io_bind get_regions (\<lambda>rs. case find_vm_region rs va of
          None \<Rightarrow> io_fail TEE_ERROR_BAD_PARAMETERS
        | Some i \<Rightarrow>
            if \<not> va_range_is_contiguous rs i va len cmp_region_for_get_flags then io_fail TEE_ERROR_BAD_PARAMETERS
            else io_ret (r_flags (rs ! i))))"

definition vm_get_prot :: "64 word \<Rightarrow> 64 word \<Rightarrow> 16 word vm" where
  "vm_get_prot va len =
     (if len = 0 \<or> (len OR va) AND SMALL_PAGE_MASK \<noteq> 0 then io_fail TEE_ERROR_BAD_PARAMETERS
      else io_bind get_regions (\<lambda>rs. case find_vm_region rs va of
          None \<Rightarrow> io_fail TEE_ERROR_BAD_PARAMETERS
        | Some i \<Rightarrow>
            if \<not> va_range_is_contiguous rs i va len cmp_region_for_get_prot then io_fail TEE_ERROR_BAD_PARAMETERS
            else io_ret (r_attr (rs ! i) AND TEE_MATTR_PROT_MASK)))"

section \<open>Changing the protection of a range\<close>

text \<open>The regions of a range: those from the first one on that end within it.\<close>

definition in_range :: "64 word \<Rightarrow> vm_region \<Rightarrow> bool" where
  "in_range end_va r = (\<not> r_va r + r_size r > end_va)"

definition new_prot :: "16 word \<Rightarrow> vm_region \<Rightarrow> vm_region" where
  "new_prot prot r = r\<lparr>r_attr := (r_attr r AND NOT TEE_MATTR_PROT_MASK) OR prot\<rparr>"

definition is_writeable :: "vm_region \<Rightarrow> bool" where
  "is_writeable r = (r_attr r AND (TEE_MATTR_UW OR TEE_MATTR_PW) \<noteq> 0)"

definition show_new_prot :: "vm_platform \<Rightarrow> vm_region \<Rightarrow> unit vm" where
  "show_new_prot pl r = (if mo_is_paged pl (r_mobj r) then io_ret ()
     else io_bind (vm_event (Set_region r)) (\<lambda>_. vm_event (Tlb_range (r_va r) (r_size r))))"

definition sync_new_prot :: "vm_platform \<Rightarrow> bool \<Rightarrow> 16 word \<Rightarrow> vm_region \<Rightarrow> unit vm" where
  "sync_new_prot pl was_writeable prot r = (if mo_is_paged pl (r_mobj r)
     then io_try vm_call (\<lambda>_. vm_event (Pager_attr (r_va r) (r_size r) prot)) (\<lambda>_. io_stuck)
     else if was_writeable then vm_event (Dcache_clean (r_va r) (r_size r)) else io_ret ())"

definition vm_set_prot :: "vm_platform \<Rightarrow> 64 word \<Rightarrow> 64 word \<Rightarrow> 32 word \<Rightarrow> unit vm" where
  "vm_set_prot pl va len prot =
     (if prot AND NOT (ucast TEE_MATTR_PROT_MASK) \<noteq> 0 \<or> len = 0 then io_fail TEE_ERROR_BAD_PARAMETERS
      else io_bind (split_vm_range pl va len any_region) (\<lambda>i. io_bind get_regions (\<lambda>rs.
        let regs = takeWhile (in_range (va + len)) (drop i rs);
            regs1 = map (new_prot (ucast prot)) regs;
            was_writeable = list_ex is_writeable regs;
            need_sync = list_ex (\<lambda>r. \<not> mo_is_paged pl (r_mobj r)) regs in
        io_bind (set_regions (take i rs @ regs1 @ drop (i + length regs) rs)) (\<lambda>_.
        io_bind (for_each (show_new_prot pl) regs1) (\<lambda>_.
        io_bind (for_each (sync_new_prot pl was_writeable (ucast prot)) regs1) (\<lambda>_.
        io_bind (if need_sync \<and> was_writeable then vm_event Icache_invalidate else io_ret ()) (\<lambda>_.
        merge_vm_range va len)))))))"

section \<open>Unmapping\<close>

text \<open>The regions from the first one of the range to the end of the list are the second argument of the loop.\<close>

fun unmap_regions :: "vm_platform \<Rightarrow> 64 word \<Rightarrow> nat \<Rightarrow> vm_region list \<Rightarrow> unit vm" where
  "unmap_regions pl end_va i [] = io_stuck"
| "unmap_regions pl end_va i (r # rs) =
     io_bind (rem_um_region pl i) (\<lambda>_. io_bind (umap_remove_region i) (\<lambda>_.
     if rs = [] \<or> r_va r + r_size r = end_va then io_ret () else unmap_regions pl end_va i rs))"

definition vm_unmap :: "vm_platform \<Rightarrow> 64 word \<Rightarrow> 64 word \<Rightarrow> unit vm" where
  "vm_unmap pl va len = (case ROUNDUP_OVERFLOW len SMALL_PAGE_SIZE of
     None \<Rightarrow> io_fail TEE_ERROR_BAD_PARAMETERS
   | Some l \<Rightarrow>
       if l = 0 \<or> va AND SMALL_PAGE_MASK \<noteq> 0 then io_fail TEE_ERROR_BAD_PARAMETERS
       else case add_overflow va l of
         None \<Rightarrow> io_fail TEE_ERROR_BAD_PARAMETERS
       | Some end_va \<Rightarrow> io_bind (split_vm_range pl va l any_region) (\<lambda>i.
           io_bind get_regions (\<lambda>rs. unmap_regions pl end_va i (drop i rs))))"

fun clean_regions :: "vm_platform \<Rightarrow> nat \<Rightarrow> vm_region list \<Rightarrow> unit vm" where
  "clean_regions pl i [] = io_ret ()"
| "clean_regions pl i (r # rs) =
     (if r_flags r AND VM_FLAG_EPHEMERAL \<noteq> 0
      then io_bind (rem_um_region pl i) (\<lambda>_. io_bind (umap_remove_region i) (\<lambda>_. clean_regions pl i rs))
      else clean_regions pl (Suc i) rs)"

definition vm_clean_param :: "vm_platform \<Rightarrow> unit vm" where
  "vm_clean_param pl = io_bind get_regions (\<lambda>rs. clean_regions pl 0 rs)"

section \<open>Moving a range\<close>

text \<open>The regions of the range leave the list and are collected.\<close>

fun take_regions :: "vm_platform \<Rightarrow> 64 word \<Rightarrow> nat \<Rightarrow> vm_region list \<Rightarrow> vm_region list vm" where
  "take_regions pl end_va i [] = io_ret []"
| "take_regions pl end_va i (r # rs) =
     (if r_va r + r_size r > end_va then io_ret []
      else io_bind (rem_um_region pl i) (\<lambda>_. io_bind (list_remove i) (\<lambda>_.
        io_bind (take_regions pl end_va i rs) (\<lambda>regs. io_ret (r # regs)))))"

definition show_moved :: "vm_platform \<Rightarrow> nat \<Rightarrow> vm_region \<Rightarrow> unit vm" where
  "show_moved pl fobj r = io_bind alloc_pgt (\<lambda>_.
     if fobj = 0 then vm_event (Set_region r)
     else io_bind vm_call (\<lambda>_. vm_event (Pager_add (r_va r) fobj (r_attr r))))"

text \<open>A failure on the way back is a panic.\<close>

fun restore_regions :: "vm_platform \<Rightarrow> nat \<Rightarrow> 64 word \<Rightarrow> vm_region list \<Rightarrow> unit vm" where
  "restore_regions pl fobj next_va [] = io_ret ()"
| "restore_regions pl fobj next_va (r # regs) =
     io_try (io_bind (umap_add_region pl (r\<lparr>r_va := next_va\<rparr>) 0 0 0) (\<lambda>(i, va). show_moved pl fobj (r\<lparr>r_va := va\<rparr>)))
       (\<lambda>_. restore_regions pl fobj (next_va + r_size r) regs) (\<lambda>_. io_stuck)"

text \<open>
  What follows a failure: the regions from the first to the last one added leave the list, go before the remaining
  ones (the one that could not be added among them), and all return to the old range.
\<close>

definition undo_remap :: "vm_platform \<Rightarrow> nat \<Rightarrow> 64 word \<Rightarrow> nat \<Rightarrow> nat \<Rightarrow> vm_region list \<Rightarrow> tee_result \<Rightarrow> 64 word vm" where
  "undo_remap pl fobj old_va first newest regs e = io_bind get_regions (\<lambda>rs.
     io_bind (set_regions (take first rs @ drop (Suc newest) rs)) (\<lambda>_.
     io_bind (restore_regions pl fobj old_va (drop first (take (Suc newest) rs) @ regs)) (\<lambda>_.
     io_bind (vm_event Set_ctx) (\<lambda>_. io_fail e))))"

text \<open>The regions after the first one; \<open>end_va\<close> is the end of the one before.\<close>

fun move_regions :: "vm_platform \<Rightarrow> nat \<Rightarrow> 64 word \<Rightarrow> nat \<Rightarrow> 64 word \<Rightarrow> nat \<Rightarrow> 64 word \<Rightarrow> vm_region list \<Rightarrow> 64 word vm" where
  "move_regions pl fobj old_va first va newest end_va [] = io_bind (vm_event Set_ctx) (\<lambda>_. io_ret va)"
| "move_regions pl fobj old_va first va newest end_va (r # regs) =
     io_try (umap_add_region pl (r\<lparr>r_va := end_va\<rparr>) 0 0 0)
       (\<lambda>(i, va1). io_try (show_moved pl fobj (r\<lparr>r_va := va1\<rparr>))
          (\<lambda>_. move_regions pl fobj old_va first va i (va1 + r_size r) regs)
          (undo_remap pl fobj old_va first i regs))
       (undo_remap pl fobj old_va first newest (r # regs))"

text \<open>
  When the first region cannot be added, the clean-up takes the collected regions for elements of the list of the
  context: the list is left with a tail pointer into the stack of the function, which is \<open>Stuck\<close> here.
\<close>

definition vm_remap :: "vm_platform \<Rightarrow> 64 word \<Rightarrow> 64 word \<Rightarrow> 64 word \<Rightarrow> 64 word \<Rightarrow> 64 word \<Rightarrow> 64 word vm" where
  "vm_remap pl new_va old_va len pad_begin pad_end =
     (if len = 0 \<or> (len OR old_va) AND SMALL_PAGE_MASK \<noteq> 0 then io_fail TEE_ERROR_BAD_PARAMETERS
      else io_bind (split_vm_range pl old_va len cmp_region_for_remap) (\<lambda>i0. io_bind get_regions (\<lambda>rs.
        let m0 = r_mobj (rs ! i0); fobj = (if mo_is_paged pl m0 then mo_fobj pl m0 else 0) in
        if mo_is_paged pl m0 \<and> fobj = 0 then io_stuck
        else io_bind (take_regions pl (old_va + len) i0 (drop i0 rs)) (\<lambda>regs. io_bind (vm_event Set_ctx) (\<lambda>_.
          case regs of
            [] \<Rightarrow> io_stuck
          | r # rest \<Rightarrow>
              io_try (umap_add_region pl (r\<lparr>r_va := new_va\<rparr>) pad_begin (pad_end + len - r_size r) 0)
                (\<lambda>(i, va). io_try (show_moved pl fobj (r\<lparr>r_va := va\<rparr>))
                   (\<lambda>_. move_regions pl fobj old_va i va i (va + r_size r) rest)
                   (undo_remap pl fobj old_va i i rest))
                (\<lambda>_. io_stuck))))))"

section \<open>The life of a context\<close>

definition vm_info_final :: "unit vm" where
  "vm_info_final = (\<lambda>s. if um_asid s = 0 then (Ok (), s)
     else io_bind (vm_event Flush_all) (\<lambda>_. io_bind (vm_event Pager_rem_all) (\<lambda>_.
       io_bind (vm_event (Tlb_asid (um_asid s))) (\<lambda>_. io_bind (vm_event (Asid_free (um_asid s))) (\<lambda>_.
       io_bind (for_each (\<lambda>r. umap_remove_region 0) (um_regions s)) (\<lambda>_.
       \<lambda>s1. (Ok (), s1\<lparr>um_regions := [], um_asid := 0\<rparr>)))))) s)"

text \<open>
  The code and the data of the core that user mode must see: object, offset, address and size of each, as
  \<open>thread_get_user_kcode\<close> and \<open>thread_get_user_kdata\<close> give them; \<open>prx\<close> and \<open>prw\<close> are the protections used.
\<close>

type_synonym kernel_part = "nat \<times> 64 word \<times> 64 word \<times> 64 word"

definition map_kpart :: "vm_platform \<Rightarrow> kernel_part \<Rightarrow> 32 word \<Rightarrow> unit vm" where
  "map_kpart pl part prot = (case part of (mobj, offs, va, sz) \<Rightarrow>
     if sz \<noteq> 0 then io_bind (vm_map pl va sz prot (ucast VM_FLAG_PERMANENT) mobj offs) (\<lambda>_. io_ret ()) else io_ret ())"

definition map_kinit :: "vm_platform \<Rightarrow> bool \<Rightarrow> kernel_part \<Rightarrow> kernel_part \<Rightarrow> unit vm" where
  "map_kinit pl bti kcode kdata =
     io_bind (map_kpart pl kcode (if bti then 0x8050 else 0x50)) (\<lambda>_. map_kpart pl kdata 0x30)"

text \<open>\<open>asid\<close> is what \<open>asid_alloc\<close> returns.\<close>

definition vm_info_init :: "vm_platform \<Rightarrow> bool \<Rightarrow> kernel_part \<Rightarrow> kernel_part \<Rightarrow> 32 word \<Rightarrow> unit vm" where
  "vm_info_init pl bti kcode kdata asid =
     (if asid = 0 then io_fail TEE_ERROR_GENERIC
      else io_bind (\<lambda>s. (Ok (), s\<lparr>um_regions := [], um_asid := asid\<rparr>)) (\<lambda>_.
        io_try (map_kinit pl bti kcode kdata) io_ret (\<lambda>e. io_bind vm_info_final (\<lambda>_. io_fail e))))"

text \<open>Here the region takes over the reference of the caller.\<close>

definition vm_add_rwmem :: "vm_platform \<Rightarrow> nat \<Rightarrow> 64 word vm" where
  "vm_add_rwmem pl mobj =
     (if \<not> mo_is_secure pl mobj \<or> \<not> mo_is_paged pl mobj then io_fail TEE_ERROR_BAD_PARAMETERS
      else io_bind vm_memory (\<lambda>_.
        let reg = \<lparr>r_mobj = mobj, r_offset = 0, r_va = 0, r_size = ROUNDUP (mo_size pl mobj) SMALL_PAGE_SIZE,
          r_attr = TEE_MATTR_SECURE, r_flags = 0\<rparr> in
        io_bind (umap_add_region pl reg 0 0 0) (\<lambda>(i, va).
        io_try alloc_pgt (\<lambda>_. io_ret va) (\<lambda>e. io_bind (umap_remove_region i) (\<lambda>_. io_fail e)))))"

fun find_rwmem :: "nat \<Rightarrow> 64 word \<Rightarrow> vm_region list \<Rightarrow> nat option" where
  "find_rwmem mobj va [] = None"
| "find_rwmem mobj va (r # rs) = (if r_mobj r = mobj \<and> r_va r = va then Some 0 else map_option Suc (find_rwmem mobj va rs))"

definition vm_rem_rwmem :: "vm_platform \<Rightarrow> nat \<Rightarrow> 64 word \<Rightarrow> unit vm" where
  "vm_rem_rwmem pl mobj va = io_bind get_regions (\<lambda>rs. case find_rwmem mobj va rs of
     None \<Rightarrow> io_ret () | Some i \<Rightarrow> io_bind (rem_um_region pl i) (\<lambda>_. umap_remove_region i))"

section \<open>Buffers and addresses\<close>

definition vm_buf_is_inside_um_private :: "vm_region list \<Rightarrow> 64 word \<Rightarrow> 64 word \<Rightarrow> bool" where
  "vm_buf_is_inside_um_private rs va sz =
     list_ex (\<lambda>r. r_flags r AND VM_FLAGS_NONPRIV = 0 \<and> core_is_buffer_inside va sz (r_va r) (r_size r)) rs"

text \<open>This function tests the attributes, not the flags, of a region.\<close>

definition vm_buf_intersects_um_private :: "vm_region list \<Rightarrow> 64 word \<Rightarrow> 64 word \<Rightarrow> bool" where
  "vm_buf_intersects_um_private rs va sz =
     list_ex (\<lambda>r. r_attr r AND VM_FLAGS_NONPRIV = 0 \<and> core_is_buffer_intersect va sz (r_va r) (r_size r)) rs"

fun vm_buf_to_mboj_offs :: "vm_platform \<Rightarrow> vm_region list \<Rightarrow> 64 word \<Rightarrow> 64 word \<Rightarrow> tee_result + nat \<times> 64 word" where
  "vm_buf_to_mboj_offs pl [] va sz = Inl TEE_ERROR_BAD_PARAMETERS"
| "vm_buf_to_mboj_offs pl (r # rs) va sz =
     (if r_mobj r \<noteq> 0 \<and> core_is_buffer_inside va sz (r_va r) (r_size r)
      then Inr (r_mobj r, va - r_va r + r_offset r - mo_phys_offs pl (r_mobj r) CORE_MMU_USER_PARAM_SIZE)
      else vm_buf_to_mboj_offs pl rs va sz)"

text \<open>The region that shows an address, and the attributes that are read there.\<close>

fun region_of_addr :: "vm_region list \<Rightarrow> 64 word \<Rightarrow> vm_region option" where
  "region_of_addr [] ua = None"
| "region_of_addr (r # rs) ua = (if core_is_buffer_inside ua 1 (r_va r) (r_size r) then Some r else region_of_addr rs ua)"

definition user_va2attr :: "vm_region list \<Rightarrow> 64 word \<Rightarrow> tee_result + 16 word" where
  "user_va2attr rs ua = (case region_of_addr rs ua of None \<Rightarrow> Inl TEE_ERROR_ACCESS_DENIED | Some r \<Rightarrow> Inr (r_attr r))"

text \<open>\<open>None\<close>: the assertion on the granule fails.\<close>

definition vm_va2pa :: "vm_platform \<Rightarrow> vm_region list \<Rightarrow> 64 word \<Rightarrow> (tee_result + 64 word) option" where
  "vm_va2pa pl rs ua = (case region_of_addr rs ua of
     None \<Rightarrow> Some (Inl TEE_ERROR_ACCESS_DENIED)
   | Some r \<Rightarrow>
       let granule = max (mo_granule pl (r_mobj r)) SMALL_PAGE_SIZE in
       if granule \<noteq> 0 \<and> \<not> IS_POWER_OF_TWO granule then None
       else case mo_pa pl (r_mobj r) (r_offset r + ROUNDDOWN (ua - r_va r) granule) granule of
         Inl e \<Rightarrow> Some (Inl e)
       | Inr p \<Rightarrow> Some (Inr (p OR (ua AND (granule - 1)))))"

text \<open>The scan of one region for a physical address; it may not end, and compares the offset with the size.\<close>

partial_function (option) scan_region ::
    "vm_platform \<Rightarrow> vm_region \<Rightarrow> 64 word \<Rightarrow> 64 word \<Rightarrow> 64 word \<Rightarrow> 64 word option option" where
  "scan_region pl r pa pa_size ofs =
     (if \<not> ofs < r_size r then Some None
      else let granule = mo_granule pl (r_mobj r);
               sz = (if granule \<noteq> 0 then min (granule - (ofs AND (granule - 1))) (r_size r - ofs) else r_size r) in
        case mo_pa pl (r_mobj r) ofs granule of
          Inl e \<Rightarrow> scan_region pl r pa pa_size (ofs + sz)
        | Inr p \<Rightarrow> if core_is_buffer_inside pa pa_size p sz then Some (Some (r_va r + (ofs - r_offset r) + (pa - p)))
            else scan_region pl r pa pa_size (ofs + sz))"

text \<open>The outer \<open>None\<close>: the assertion fails or the scan does not end; the inner one: a null pointer.\<close>

fun vm_pa2va :: "vm_platform \<Rightarrow> vm_region list \<Rightarrow> 64 word \<Rightarrow> 64 word \<Rightarrow> 64 word option option" where
  "vm_pa2va pl [] pa pa_size = Some None"
| "vm_pa2va pl (r # rs) pa pa_size =
     (if r_mobj r = 0 then vm_pa2va pl rs pa pa_size
      else if mo_granule pl (r_mobj r) \<noteq> 0 \<and> \<not> IS_POWER_OF_TWO (mo_granule pl (r_mobj r)) then None
      else case scan_region pl r pa pa_size (r_offset r) of
          None \<Rightarrow> None | Some (Some va) \<Rightarrow> Some (Some va) | Some None \<Rightarrow> vm_pa2va pl rs pa pa_size)"

definition access_refused :: "32 word \<Rightarrow> 16 word \<Rightarrow> bool" where
  "access_refused flags attr =
     (flags AND TEE_MEMORY_ACCESS_NONSECURE \<noteq> 0 \<and> attr AND TEE_MATTR_SECURE \<noteq> 0 \<or>
      flags AND TEE_MEMORY_ACCESS_SECURE \<noteq> 0 \<and> attr AND TEE_MATTR_SECURE = 0 \<or>
      flags AND TEE_MEMORY_ACCESS_WRITE \<noteq> 0 \<and> attr AND TEE_MATTR_UW = 0 \<or>
      flags AND TEE_MEMORY_ACCESS_READ \<noteq> 0 \<and> attr AND TEE_MATTR_UR = 0)"

text \<open>The loop over the pages of a buffer; the address may wrap around, so that it need not end.\<close>

partial_function (option) check_pages :: "vm_region list \<Rightarrow> 32 word \<Rightarrow> 64 word \<Rightarrow> 64 word \<Rightarrow> tee_result option" where
  "check_pages rs flags end_addr a =
     (if \<not> a < end_addr then Some TEE_SUCCESS
      else case user_va2attr rs a of
          Inl e \<Rightarrow> Some e
        | Inr attr \<Rightarrow> if access_refused flags attr then Some TEE_ERROR_ACCESS_DENIED
            else check_pages rs flags end_addr (a + min CORE_MMU_USER_CODE_SIZE CORE_MMU_USER_PARAM_SIZE))"

definition vm_check_access_rights :: "vm_region list \<Rightarrow> 32 word \<Rightarrow> 64 word \<Rightarrow> 64 word \<Rightarrow> tee_result option" where
  "vm_check_access_rights rs flags uaddr len = (case add_overflow uaddr len of
     None \<Rightarrow> Some TEE_ERROR_ACCESS_DENIED
   | Some end_addr \<Rightarrow>
       if flags AND TEE_MEMORY_ACCESS_NONSECURE \<noteq> 0 \<and> flags AND TEE_MEMORY_ACCESS_SECURE \<noteq> 0
       then Some TEE_ERROR_ACCESS_DENIED
       else if flags AND TEE_MEMORY_ACCESS_ANY_OWNER = 0 \<and> \<not> vm_buf_is_inside_um_private rs uaddr len
       then Some TEE_ERROR_ACCESS_DENIED
       else check_pages rs flags end_addr (ROUNDDOWN uaddr (min CORE_MMU_USER_CODE_SIZE CORE_MMU_USER_PARAM_SIZE)))"

text \<open>The object that shows an address, with the part of the range that lies in its region.\<close>

definition vm_get_mobj :: "64 word \<Rightarrow> 64 word \<Rightarrow> (nat \<times> 64 word \<times> 16 word \<times> 64 word) option vm" where
  "vm_get_mobj va len =
     (if (len OR va) AND SMALL_PAGE_MASK \<noteq> 0 then io_ret None
      else io_bind get_regions (\<lambda>rs. case find_vm_region rs va of
          None \<Rightarrow> io_ret None
        | Some i \<Rightarrow> let r = rs ! i; r_offs = va - r_va r in
            io_bind (mobj_get (r_mobj r)) (\<lambda>_. io_ret (Some (r_mobj r, min (r_size r - r_offs) len,
              r_attr r AND TEE_MATTR_PROT_MASK, r_offset r + r_offs)))))"

end
