(* ===== verification/VmWf.thy ===== *)
theory VmWf
  imports VmOps
begin

text \<open>
  Well-formed lists of regions, and what a list shows: the invariant of an address space and the abstract view that the
  contracts of the operations of \<open>VmOps\<close> are stated with. Addresses are read as natural numbers.
\<close>

section \<open>Arithmetic of pages\<close>

lemma or_mask_zero: "((a OR b) AND m = 0) = (a AND m = 0 \<and> b AND m = (0 :: 'a::len word))"
  by (simp add: word_ao_dist or_eq_0_iff)

lemma mask_zero_iff: "(x AND SMALL_PAGE_MASK = 0) = (unat x mod 4096 = 0)"
proof -
  have m: "SMALL_PAGE_MASK = mask 12" by (simp add: SMALL_PAGE_MASK_def mask_eq_exp_minus_1)
  have "(x AND SMALL_PAGE_MASK = 0) = (unat (take_bit 12 x) = 0)"
    by (simp add: m take_bit_eq_mask[symmetric] unat_eq_zero)
  also have "\<dots> = (unat x mod 4096 = 0)"
    by (simp only: unsigned_take_bit_eq) (simp add: take_bit_eq_mod)
  finally show ?thesis .
qed

lemma add_overflow_Some: "add_overflow a b = Some c \<longleftrightarrow> unat a + unat b < 2 ^ 64 \<and> c = a + b"
proof -
  have m: "unat (a + b) = (unat a + unat b) mod 2 ^ 64" by (simp add: unat_word_ariths)
  have lt: "unat a < 2 ^ 64" "unat b < 2 ^ 64" using unsigned_less [of a, where ?'a = nat] unsigned_less [of b, where ?'a = nat] by simp_all
  have "a + b < a \<longleftrightarrow> \<not> unat a + unat b < 2 ^ 64"
  proof (cases "unat a + unat b < 2 ^ 64")
    case False
    then have "unat (a + b) = unat a + unat b - 2 ^ 64" using m lt by (simp add: mod_if)
    then show ?thesis using False lt by (simp add: word_less_nat_alt)
  qed (use m in \<open>simp add: word_less_nat_alt\<close>)
  then show ?thesis by (auto simp: add_overflow_def)
qed

lemma add_overflow_unat: "add_overflow a b = Some c \<Longrightarrow> unat c = unat a + unat b"
  by (auto simp: add_overflow_Some unat_add_exact)

lemma nat_power_of_two: "0 < (n :: nat) \<Longrightarrow> and n (n - 1) = 0 \<Longrightarrow> \<exists>k. n = 2 ^ k"
proof (induction n rule: less_induct)
  case (less n)
  show ?case
  proof (cases "even n")
    case True
    then obtain m where n: "n = 2 * m" by blast
    with less.prems have "0 < m" by simp
    have "and n (n - 1) = 2 * and m (m - 1)"
    proof -
      have "(n - 1) div 2 = m - 1" and "n div 2 = m" using n \<open>0 < m\<close> by auto
      then show ?thesis using n by (subst and_rec) simp
    qed
    then have "and m (m - 1) = 0" using less.prems by simp
    then obtain k where "m = 2 ^ k" using less.IH [of m] n \<open>0 < m\<close> by auto
    then have "n = 2 ^ Suc k" using n by simp
    then show ?thesis by blast
  next
    case False
    then obtain m where n: "n = 2 * m + 1" by (blast elim: oddE)
    have "and n (n - 1) = 2 * m" using n by (subst and_rec) simp
    then have "n = 2 ^ 0" using less.prems n by simp
    then show ?thesis by blast
  qed
qed

lemma power_of_two_test: "(x AND (NOT x + 1) = x) = (x AND (x - 1) = (0 :: 64 word))"
proof -
  have m: "NOT x + 1 = NOT (x - 1)" by (simp add: not_eq_complement)
  show ?thesis unfolding m by (auto simp: bit_eq_iff bit_simps)
qed

lemma IS_POWER_OF_TWO_obtains:
  assumes "IS_POWER_OF_TWO x"
  obtains k where "x = push_bit k 1" and "unat x = 2 ^ k" and "k < 64"
proof -
  have "x \<noteq> 0" and z: "x AND (x - 1) = 0" using assms unfolding IS_POWER_OF_TWO_def power_of_two_test by simp_all
  then have pos: "0 < unat x" by (simp add: unat_gt_0)
  have "unat (x - 1) = unat x - 1" using pos by (subst unat_sub_exact) simp_all
  then have "and (unat x) (unat x - 1) = 0"
    using z by (metis unsigned_and_eq unsigned_0)
  then obtain k where k: "unat x = 2 ^ k" using nat_power_of_two [of "unat x"] pos by blast
  have "(2 :: nat) ^ k < 2 ^ 64" using k unsigned_less [of x, where ?'a = nat] by simp
  then have "k < 64" by (rule power_less_imp_less_exp [rotated]) simp
  moreover have "x = push_bit k 1"
    by (rule unsigned_word_eqI [where ?'a = nat]) (use k power_strict_increasing [OF \<open>k < 64\<close>, of "2 :: nat"] in \<open>simp add: unat_push_bit del: push_bit_of_1\<close>)
  ultimately show thesis using that k by blast
qed

lemma ROUNDDOWN_unat: "unat (ROUNDDOWN v (push_bit k 1)) = unat v div 2 ^ k * 2 ^ k"
  by (simp only: ROUNDDOWN_def unat_round_down)

lemma ROUNDUP_OVERFLOW_Some:
  assumes "ROUNDUP_OVERFLOW v (push_bit k 1) = Some w" and "k < 64"
  shows "unat v \<le> unat w" and "unat w mod 2 ^ k = 0" and "unat w < unat v + 2 ^ k"
proof -
  have one: "unat (push_bit k 1 :: 64 word) = 2 ^ k"
    using power_strict_increasing [OF assms(2), of "2 :: nat"] by (simp add: unat_push_bit del: push_bit_of_1)
  have lt: "unat v + unat (push_bit k 1 - 1 :: 64 word) < 2 ^ 64"
    and w: "w = (v + (push_bit k 1 - 1)) AND NOT (push_bit k 1 - 1)"
    using assms(1) by (auto simp: ROUNDUP_OVERFLOW_def add_overflow_Some split: option.splits simp del: push_bit_of_1)
  have m: "unat (push_bit k 1 - 1 :: 64 word) = 2 ^ k - 1"
    by (subst unat_sub_exact) (simp_all add: one del: push_bit_of_1)
  have "unat (v + (push_bit k 1 - 1)) = unat v + (2 ^ k - 1)"
    using lt m by (subst unat_add_exact) (simp_all del: push_bit_of_1)
  then have u: "unat w = (unat v + (2 ^ k - 1)) div 2 ^ k * 2 ^ k" by (simp only: w unat_round_down)
  show "unat w mod 2 ^ k = 0" by (simp add: u)
  have d: "(unat v + (2 ^ k - 1)) div 2 ^ k * 2 ^ k + (unat v + (2 ^ k - 1)) mod 2 ^ k = unat v + (2 ^ k - 1)"
    by (rule div_mult_mod_eq)
  have "(unat v + (2 ^ k - 1)) mod 2 ^ k < 2 ^ k" by simp
  then have "(unat v + (2 ^ k - 1)) mod 2 ^ k \<le> 2 ^ k - 1" by linarith
  then show "unat v \<le> unat w" using d u by linarith
  have "(1 :: nat) \<le> 2 ^ k" by simp
  then show "unat w < unat v + 2 ^ k" using d u by linarith
qed

lemma page_size_push: "SMALL_PAGE_SIZE = push_bit 12 1"
  by (simp add: SMALL_PAGE_SIZE_def)

lemma power_of_two_page:
  assumes "IS_POWER_OF_TWO g" and "SMALL_PAGE_SIZE \<le> g" and "unat x mod unat g = 0"
  shows "unat x mod 4096 = 0"
proof -
  obtain k where k: "unat g = 2 ^ k" using assms(1) by (rule IS_POWER_OF_TWO_obtains)
  have "(2 :: nat) ^ 12 \<le> 2 ^ k" using assms(2) k by (simp add: word_le_nat_alt SMALL_PAGE_SIZE_def)
  then have "12 \<le> k" by (rule power_le_imp_le_exp [rotated]) simp
  then have "(4096 :: nat) dvd 2 ^ k" using le_imp_power_dvd [of 12 k "2 :: nat"] by simp
  then show ?thesis using assms(3) k by (metis dvd_trans mod_0_imp_dvd mod_eq_0_iff_dvd)
qed

section \<open>Well-formed lists\<close>

definition r_beg :: "vm_region \<Rightarrow> nat" where
  "r_beg r = unat (r_va r)"

definition r_end :: "vm_region \<Rightarrow> nat" where
  "r_end r = unat (r_va r) + unat (r_size r)"

text \<open>A region is not empty, consists of pages, and the offsets of its bytes do not wrap around.\<close>

definition region_ok :: "vm_region \<Rightarrow> bool" where
  "region_ok r = (0 < unat (r_size r) \<and> r_beg r mod 4096 = 0 \<and> unat (r_size r) mod 4096 = 0 \<and> unat (r_offset r) + unat (r_size r) < 2 ^ 64)"

fun chain :: "nat \<Rightarrow> vm_region list \<Rightarrow> nat \<Rightarrow> bool" where
  "chain lo [] hi = (lo \<le> hi)"
| "chain lo (r # rs) hi = (region_ok r \<and> lo \<le> r_beg r \<and> chain (r_end r) rs hi)"

definition platform_ok :: "vm_platform \<Rightarrow> bool" where
  "platform_ok pl = (IS_POWER_OF_TWO (pl_pgdir_size pl) \<and> SMALL_PAGE_SIZE \<le> pl_pgdir_size pl \<and>
     0 < unat (pl_va_base pl) \<and> unat (pl_va_base pl) mod 4096 = 0 \<and> unat (pl_va_size pl) mod 4096 = 0 \<and>
     unat (pl_va_base pl) + unat (pl_va_size pl) + unat (pl_pgdir_size pl) \<le> 2 ^ 64)"

text \<open>The invariant: the regions are in order, apart, made of pages and inside the range of user mode.\<close>

definition vm_wf :: "vm_platform \<Rightarrow> vm_region list \<Rightarrow> bool" where
  "vm_wf pl rs = chain (unat (pl_va_base pl)) rs (unat (pl_va_base pl) + unat (pl_va_size pl))"

text \<open>What an address shows: a byte of an object, with the attributes and the flags of its region.\<close>

fun vm_shows :: "vm_region list \<Rightarrow> nat \<Rightarrow> (nat \<times> nat \<times> 16 word \<times> 16 word) option" where
  "vm_shows [] a = None"
| "vm_shows (r # rs) a =
     (if r_beg r \<le> a \<and> a < r_end r then Some (r_mobj r, unat (r_offset r) + (a - r_beg r), r_attr r, r_flags r)
      else vm_shows rs a)"

text \<open>The references to an object that are not those of a region.\<close>

definition vm_balance :: "user_mode_ctx \<Rightarrow> nat \<Rightarrow> int" where
  "vm_balance s m = (if m = 0 then 0 else um_refs s m - int (length (filter (\<lambda>r. r_mobj r = m) (um_regions s))))"

lemma chain_le: "chain lo rs hi \<Longrightarrow> lo \<le> hi"
proof (induction rs arbitrary: lo)
  case (Cons r rs)
  then have "r_end r \<le> hi" and "lo \<le> r_beg r" by auto
  then show ?case by (simp add: r_beg_def r_end_def)
qed simp

lemma chain_mono: "chain lo rs hi \<Longrightarrow> lo1 \<le> lo \<Longrightarrow> hi \<le> hi1 \<Longrightarrow> chain lo1 rs hi1"
proof (induction rs arbitrary: lo lo1)
  case (Cons r rs)
  then show ?case by (auto intro: Cons.IH [of "r_end r"])
qed simp

lemma chain_append: "chain lo (xs @ ys) hi \<longleftrightarrow> (\<exists>m. chain lo xs m \<and> chain m ys hi)"
proof (induction xs arbitrary: lo)
  case Nil
  show ?case by (auto intro: chain_mono)
next
  case (Cons r xs)
  then show ?case by auto
qed

lemma chain_snoc: "chain lo (xs @ [r]) hi \<longleftrightarrow> chain lo xs (r_beg r) \<and> region_ok r \<and> r_end r \<le> hi"
proof (induction xs arbitrary: lo)
  case Nil
  show ?case by auto
next
  case (Cons x xs)
  then show ?case by auto
qed

lemma chain_split: "chain lo (xs @ r # ys) hi \<longleftrightarrow> chain lo xs (r_beg r) \<and> region_ok r \<and> chain (r_end r) ys hi"
proof (induction xs arbitrary: lo)
  case Nil
  show ?case by auto
next
  case (Cons x xs)
  then show ?case by auto
qed

lemma chain_region_ok: "chain lo rs hi \<Longrightarrow> r \<in> set rs \<Longrightarrow> region_ok r \<and> lo \<le> r_beg r \<and> r_end r \<le> hi"
proof (induction rs arbitrary: lo)
  case (Cons x rs)
  have le: "r_beg x \<le> r_end x" by (simp add: r_beg_def r_end_def)
  show ?case
  proof (cases "r = x")
    case True
    then show ?thesis using Cons.prems chain_le [of "r_end x" rs hi] by simp
  next
    case False
    then have "region_ok r \<and> r_end x \<le> r_beg r \<and> r_end r \<le> hi" using Cons.prems by (intro Cons.IH) auto
    then show ?thesis using Cons.prems le by simp
  qed
qed simp

lemma vm_shows_None: "chain lo rs hi \<Longrightarrow> a < lo \<or> hi \<le> a \<Longrightarrow> vm_shows rs a = None"
proof (induction rs arbitrary: lo)
  case (Cons r rs)
  have le: "r_beg r \<le> r_end r" by (simp add: r_beg_def r_end_def)
  have hi: "r_end r \<le> hi" using Cons.prems(1) chain_le by auto
  have "a < r_end r \<or> hi \<le> a" using Cons.prems le by auto
  then have "vm_shows rs a = None" using Cons.prems(1) by (intro Cons.IH) auto
  then show ?case using Cons.prems hi by auto
qed simp

lemma vm_shows_append: "vm_shows (xs @ ys) a = (case vm_shows xs a of None \<Rightarrow> vm_shows ys a | Some b \<Rightarrow> Some b)"
  by (induction xs) auto

lemma vm_shows_parts:
  assumes "chain lo (xs @ ys) hi" and "chain lo xs m" and "chain m ys hi"
  shows "vm_shows (xs @ ys) a = (if a < m then vm_shows xs a else vm_shows ys a)"
  using vm_shows_None [OF assms(2), of a] vm_shows_None [OF assms(3), of a]
  by (auto simp: vm_shows_append split: option.splits)

end
