(* ===== verification/VmMap.thy ===== *)
theory VmMap
  imports VmWf
begin

text \<open>
  Adding a region: where \<open>umap_add_region\<close> puts it, and the contract of \<open>vm_map_pad\<close>, which shows a part of an object at
  addresses that were free or leaves the address space as it was.
\<close>

lemmas io_defs = io_bind_def io_ret_def io_fail_def io_stuck_def io_try_def
lemmas vm_defs = io_defs get_regions_def set_regions_def vm_event_def mobj_get_def mobj_put_def

lemma get_regions_bind: "io_bind get_regions k s = k (um_regions s) s"
  by (simp add: io_bind_def get_regions_def)

lemma set_regions_bind: "io_bind (set_regions rs) k s = k () (s\<lparr>um_regions := rs\<rparr>)"
  by (simp add: io_bind_def set_regions_def)

lemma vm_event_bind: "io_bind (vm_event e) k s = k () (s\<lparr>um_events := um_events s @ [e]\<rparr>)"
  by (simp add: io_bind_def vm_event_def)

lemmas region_binds = get_regions_bind set_regions_bind vm_event_bind

section \<open>A gap between two regions\<close>

definition granul_ok :: "64 word \<Rightarrow> bool" where
  "granul_ok g = (IS_POWER_OF_TWO g \<and> SMALL_PAGE_SIZE \<le> g)"

lemma va_granul_ok: "platform_ok pl \<Longrightarrow> granul_ok g \<Longrightarrow> granul_ok (va_granul pl other reg g)"
  by (simp add: granul_ok_def platform_ok_def va_granul_def)

lemma ROUNDUP_granul:
  assumes "ROUNDUP_OVERFLOW v g = Some w" and "granul_ok g"
  shows "unat v \<le> unat w \<and> unat w mod 4096 = 0"
proof -
  obtain k where g: "g = push_bit k 1" "unat g = 2 ^ k" "k < 64"
    using assms(2) by (auto simp: granul_ok_def elim: IS_POWER_OF_TWO_obtains)
  have r: "ROUNDUP_OVERFLOW v (push_bit k 1) = Some w" using assms(1) g(1) by simp
  have "unat w mod unat g = 0" using ROUNDUP_OVERFLOW_Some(2) [OF r g(3)] g(2) by simp
  then have "unat w mod 4096 = 0" using assms(2) by (auto simp: granul_ok_def intro: power_of_two_page)
  then show ?thesis using ROUNDUP_OVERFLOW_Some(1) [OF r g(3)] by simp
qed

lemma select_va_fits:
  assumes "platform_ok pl" and "granul_ok g" and "unat (r_va reg) mod 4096 = 0"
    and "select_va_in_range pl prev_r next_r reg pad_begin pad_end g = va" and "va \<noteq> 0"
  shows "r_end prev_r + unat pad_begin \<le> unat va" and "unat va + unat (r_size reg) + unat pad_end \<le> r_beg next_r"
    and "unat va mod 4096 = 0" and "r_va reg \<noteq> 0 \<Longrightarrow> va = r_va reg"
proof -
  let ?g1 = "va_granul pl prev_r reg g" let ?g2 = "va_granul pl next_r reg ?g1"
  have g: "granul_ok ?g1" "granul_ok ?g2" using va_granul_ok assms(1,2) by blast+
  let ?lo = "Option.bind (Option.bind (Option.bind (add_overflow (r_va prev_r) (r_size prev_r))
    (\<lambda>v. add_overflow v pad_begin)) (\<lambda>v. add_overflow v (va_pad prev_r reg))) (\<lambda>v. ROUNDUP_OVERFLOW v ?g1)"
  obtain lowest where lowest: "?lo = Some lowest"
    using assms(4,5) by (cases ?lo) (simp_all add: select_va_in_range_def Let_def)
  then obtain v1 v2 v3 where low: "add_overflow (r_va prev_r) (r_size prev_r) = Some v1" "add_overflow v1 pad_begin = Some v2"
      "add_overflow v2 (va_pad prev_r reg) = Some v3" "ROUNDUP_OVERFLOW v3 ?g1 = Some lowest"
    by (auto simp: bind_eq_Some_conv)
  have not: "\<not> (r_va reg \<noteq> 0 \<and> r_va reg < lowest)"
    using assms(4,5) lowest by (auto simp: select_va_in_range_def Let_def)
  define b where "b = (if r_va reg \<noteq> 0 then r_va reg else lowest)"
  let ?hi = "Option.bind (Option.bind (Option.bind (add_overflow b (r_size reg))
    (\<lambda>v. add_overflow v pad_end)) (\<lambda>v. add_overflow v (va_pad next_r reg))) (\<lambda>v. ROUNDUP_OVERFLOW v ?g2)"
  have va_eq: "va = (case ?hi of None \<Rightarrow> 0 | Some end_va \<Rightarrow> if end_va \<le> r_va next_r then b else 0)"
    using assms(4) lowest not unfolding select_va_in_range_def Let_def b_def by (simp only: option.case if_False)
  obtain end_va where end_va: "?hi = Some end_va" using va_eq assms(5) by (cases ?hi) simp_all
  then have le: "end_va \<le> r_va next_r" and va: "va = b"
    using va_eq assms(5) by (simp_all split: if_splits)
  obtain w1 w2 w3 where top: "add_overflow b (r_size reg) = Some w1" "add_overflow w1 pad_end = Some w2"
      "add_overflow w2 (va_pad next_r reg) = Some w3" "ROUNDUP_OVERFLOW w3 ?g2 = Some end_va"
    using end_va by (auto simp: bind_eq_Some_conv)
  have l: "unat v3 \<le> unat lowest" "unat lowest mod 4096 = 0" using ROUNDUP_granul [OF low(4) g(1)] by auto
  have e: "unat w3 \<le> unat end_va" using ROUNDUP_granul [OF top(4) g(2)] by auto
  have lb: "unat lowest \<le> unat b" using not by (auto simp: b_def word_le_nat_alt not_less)
  show "r_end prev_r + unat pad_begin \<le> unat va"
    using low(1-3)[THEN add_overflow_unat] l(1) lb va by (simp add: r_end_def)
  show "unat va + unat (r_size reg) + unat pad_end \<le> r_beg next_r"
    using top(1-3)[THEN add_overflow_unat] e le va by (simp add: r_beg_def word_le_nat_alt)
  show "unat va mod 4096 = 0" using va l(2) assms(3) by (simp add: b_def)
  show "va = r_va reg" if "r_va reg \<noteq> 0" using that va by (simp add: b_def)
qed

definition range_end :: "vm_platform \<Rightarrow> nat" where
  "range_end pl = unat (pl_va_base pl) + unat (pl_va_size pl)"

lemma range_end_dummy: "platform_ok pl \<Longrightarrow> r_beg (dummy_region (pl_va_base pl + pl_va_size pl)) = range_end pl"
proof -
  assume ok: "platform_ok pl"
  then have "unat (pl_va_base pl) + unat (pl_va_size pl) < 2 ^ 64"
    by (auto simp: platform_ok_def word_le_nat_alt SMALL_PAGE_SIZE_def)
  then show ?thesis by (simp add: r_beg_def dummy_region_def range_end_def unat_add_exact)
qed

lemma place_region_fits:
  assumes "platform_ok pl" and "granul_ok g" and "unat (r_va reg) mod 4096 = 0"
  shows "place_region pl reg pad_begin pad_end g prev_r rs = Some (i, va) \<Longrightarrow> chain (r_end prev_r) rs (range_end pl) \<Longrightarrow>
    \<exists>xs ys m. rs = xs @ ys \<and> i = length xs \<and> chain (r_end prev_r) xs m \<and> m + unat pad_begin \<le> unat va \<and>
      chain (unat va + unat (r_size reg) + unat pad_end) ys (range_end pl) \<and> unat va mod 4096 = 0 \<and> (r_va reg = 0 \<or> va = r_va reg)"
proof (induction rs arbitrary: prev_r i)
  case Nil
  then have "select_va_in_range pl prev_r (dummy_region (pl_va_base pl + pl_va_size pl)) reg pad_begin pad_end g = va" "va \<noteq> 0" "i = 0"
    by (auto simp: Let_def split: if_splits)
  note f = select_va_fits [OF assms this(1,2)]
  show ?case
    using f Nil.prems(2) \<open>i = 0\<close> range_end_dummy [OF assms(1)]
    by (intro exI [of _ "[]"] exI [of _ "r_end prev_r"]) (auto simp: )
next
  case (Cons r rs)
  let ?va = "select_va_in_range pl prev_r r reg pad_begin pad_end g"
  show ?case
  proof (cases "?va \<noteq> 0")
    case True
    then have va: "?va = va" "va \<noteq> 0" "i = 0" using Cons.prems(1) by (auto simp: Let_def)
    note f = select_va_fits [OF assms va(1,2)]
    show ?thesis
      using f Cons.prems(2) va(3)
      by (intro exI [of _ "[]"] exI [of _ "r # rs"] exI [of _ "r_end prev_r"]) auto
  next
    case False
    then obtain j where j: "place_region pl reg pad_begin pad_end g r rs = Some (j, va)" "i = Suc j"
      using Cons.prems(1) by (auto simp: Let_def)
    have c: "region_ok r" "r_end prev_r \<le> r_beg r" "chain (r_end r) rs (range_end pl)" using Cons.prems(2) by auto
    from Cons.IH [OF j(1) c(3)] obtain xs ys m where
      x: "rs = xs @ ys" "j = length xs" "chain (r_end r) xs m" "m + unat pad_begin \<le> unat va"
        "chain (unat va + unat (r_size reg) + unat pad_end) ys (range_end pl)" "unat va mod 4096 = 0" "r_va reg = 0 \<or> va = r_va reg"
      by (elim exE conjE) (rule that; assumption)
    have "r # rs = (r # xs) @ ys" and "i = length (r # xs)" and "chain (r_end prev_r) (r # xs) m"
      using x(1,2,3) c j(2) by simp_all
    then show ?thesis using x(4-7) by (intro exI [of _ "r # xs"] exI [of _ ys] exI [of _ m] conjI)
  qed
qed

section \<open>Adding a region to a list\<close>

lemma max_granul_ok: "IS_POWER_OF_TWO (max align SMALL_PAGE_SIZE) \<Longrightarrow> granul_ok (max align SMALL_PAGE_SIZE)"
  by (simp add: granul_ok_def)

lemma umap_add_region_Ok:
  assumes "umap_add_region pl reg pad_begin pad_end align s = (Ok (i, va), s1)"
    and "platform_ok pl" and "vm_wf pl (um_regions s)"
  shows "\<exists>xs ys m. um_regions s = xs @ ys \<and> i = length xs \<and> s1 = s\<lparr>um_regions := xs @ reg\<lparr>r_va := va\<rparr> # ys\<rparr> \<and>
      chain (unat (pl_va_base pl)) xs m \<and> m + unat pad_begin \<le> unat va \<and>
      chain (unat va + unat (r_size reg) + unat pad_end) ys (range_end pl) \<and> unat va mod 4096 = 0 \<and> (r_va reg = 0 \<or> va = r_va reg)"
    and "unat (r_offset reg) + unat (r_size reg) < 2 ^ 64" and "unat (r_size reg) mod 4096 = 0"
proof -
  let ?g = "max align SMALL_PAGE_SIZE" let ?d = "dummy_region (pl_va_base pl)"
  have al: "(r_va reg OR r_size reg OR pad_begin OR pad_end) AND SMALL_PAGE_MASK = 0"
    and off: "\<exists>ops. add_overflow (r_offset reg) (r_size reg) = Some ops"
    and g: "IS_POWER_OF_TWO ?g"
    and p: "place_region pl reg pad_begin pad_end ?g ?d (um_regions s) = Some (i, va)"
    and s1: "s1 = s\<lparr>um_regions := insert_at i (reg\<lparr>r_va := va\<rparr>) (um_regions s)\<rparr>"
    using assms(1) by (auto simp: umap_add_region_def Let_def vm_defs split: if_splits option.splits)
  have al2: "unat (r_va reg) mod 4096 = 0" "unat (r_size reg) mod 4096 = 0"
    using al by (simp_all only: or_mask_zero flip: mask_zero_iff)
  have e: "r_end ?d = unat (pl_va_base pl)" by (simp add: r_end_def dummy_region_def)
  have c: "chain (r_end ?d) (um_regions s) (range_end pl)" using assms(3) e by (simp add: vm_wf_def range_end_def)
  show "\<exists>xs ys m. um_regions s = xs @ ys \<and> i = length xs \<and> s1 = s\<lparr>um_regions := xs @ reg\<lparr>r_va := va\<rparr> # ys\<rparr> \<and>
      chain (unat (pl_va_base pl)) xs m \<and> m + unat pad_begin \<le> unat va \<and>
      chain (unat va + unat (r_size reg) + unat pad_end) ys (range_end pl) \<and> unat va mod 4096 = 0 \<and> (r_va reg = 0 \<or> va = r_va reg)"
    using place_region_fits [OF assms(2) max_granul_ok [OF g] al2(1) p c] unfolding e s1
    by (elim exE conjE) (intro exI conjI, assumption, assumption, simp add: insert_at_def, assumption+)
  show "unat (r_offset reg) + unat (r_size reg) < 2 ^ 64" using off by (auto simp: add_overflow_Some)
  show "unat (r_size reg) mod 4096 = 0" by (rule al2(2))
qed

lemma umap_add_region_Fail: "umap_add_region pl reg pad_begin pad_end align s = (Fail e, s1) \<Longrightarrow> s1 = s"
  by (auto simp: umap_add_region_def Let_def vm_defs split: if_splits option.splits)

lemma umap_add_region_not_Stuck: "umap_add_region pl reg pad_begin pad_end align s \<noteq> (Stuck, s1)"
  by (auto simp: umap_add_region_def Let_def vm_defs split: if_splits option.splits)

text \<open>What a list shows when a region is put into a gap.\<close>

lemma vm_shows_insert:
  assumes "chain lo xs (r_beg r)" and "chain (r_end r) ys hi"
  shows "vm_shows (xs @ r # ys) a = (if r_beg r \<le> a \<and> a < r_end r
    then Some (r_mobj r, unat (r_offset r) + (a - r_beg r), r_attr r, r_flags r) else vm_shows (xs @ ys) a)"
  using vm_shows_None [OF assms(1), of a] vm_shows_None [OF assms(2), of a] by (auto simp: vm_shows_append split: option.splits)

lemma vm_shows_gap:
  assumes "chain lo xs m" and "chain n ys hi" and "m \<le> a" and "a < n"
  shows "vm_shows (xs @ ys) a = None"
  using vm_shows_None [OF assms(1), of a] vm_shows_None [OF assms(2), of a] assms(3,4) by (simp add: vm_shows_append)

lemma chain_insert:
  assumes "chain lo xs m" and "m \<le> r_beg r" and "region_ok r" and "chain n ys hi" and "r_end r \<le> n"
  shows "chain lo (xs @ r # ys) hi"
  using assms by (auto simp: chain_split intro: chain_mono)

lemma remove_at_middle: "remove_at (length xs) (xs @ r # ys) = xs @ ys"
  by (simp add: remove_at_def)

section \<open>Computations that leave the regions alone\<close>

text \<open>A computation that does not change what \<open>v\<close> reads of the state.\<close>

definition preserves :: "('s \<Rightarrow> 'v) \<Rightarrow> ('s, 'a) sm \<Rightarrow> bool" where
  "preserves v m = (\<forall>s. v (snd (m s)) = v s)"

lemma preservesD: "preserves v m \<Longrightarrow> m s = (x, s1) \<Longrightarrow> v s1 = v s"
  by (metis preserves_def snd_conv)

lemma preserves_bind: "preserves v m \<Longrightarrow> (\<And>x. preserves v (k x)) \<Longrightarrow> preserves v (io_bind m k)"
  by (simp add: preserves_def io_bind_def split: prod.split io.split) (metis snd_conv)

lemma preserves_try: "preserves v m \<Longrightarrow> (\<And>x. preserves v (k x)) \<Longrightarrow> (\<And>e. preserves v (h e)) \<Longrightarrow> preserves v (io_try m k h)"
  by (simp add: preserves_def io_try_def split: prod.split io.split) (metis snd_conv)

lemma preserves_pure: "preserves v (io_ret x)" "preserves v (io_fail e)" "preserves v io_stuck"
  by (simp_all add: preserves_def io_defs)

lemma preserves_for_each: "(\<And>x. preserves v (f x)) \<Longrightarrow> preserves v (for_each f xs)"
  by (induction xs) (auto intro!: preserves_bind preserves_pure)

lemmas preserves_intros = preserves_bind preserves_try preserves_pure preserves_for_each

definition quiet :: "'a vm \<Rightarrow> bool" where
  "quiet m = preserves (\<lambda>s. (um_regions s, um_refs s)) m"

definition never_stuck :: "'a vm \<Rightarrow> bool" where
  "never_stuck m = (\<forall>s. fst (m s) \<noteq> Stuck)"

lemma quietD: "quiet m \<Longrightarrow> m s = (x, s1) \<Longrightarrow> um_regions s1 = um_regions s \<and> um_refs s1 = um_refs s"
  by (simp add: quiet_def) (drule (1) preservesD, simp)

lemma never_stuckD: "never_stuck m \<Longrightarrow> m s \<noteq> (Stuck, s1)"
  by (metis never_stuck_def fst_conv)

lemma quiet_bind: "quiet m \<Longrightarrow> (\<And>x. quiet (k x)) \<Longrightarrow> quiet (io_bind m k)"
  unfolding quiet_def by (rule preserves_bind)

lemma quiet_try: "quiet m \<Longrightarrow> (\<And>x. quiet (k x)) \<Longrightarrow> (\<And>e. quiet (h e)) \<Longrightarrow> quiet (io_try m k h)"
  unfolding quiet_def by (rule preserves_try)

lemma never_stuck_bind: "never_stuck m \<Longrightarrow> (\<And>x. never_stuck (k x)) \<Longrightarrow> never_stuck (io_bind m k)"
  by (simp add: never_stuck_def io_bind_def split: prod.split io.split) (metis fst_conv)

lemma never_stuck_try: "never_stuck m \<Longrightarrow> (\<And>x. never_stuck (k x)) \<Longrightarrow> (\<And>e. never_stuck (h e)) \<Longrightarrow> never_stuck (io_try m k h)"
  by (simp add: never_stuck_def io_try_def split: prod.split io.split) (metis fst_conv)

lemma quiet_basic: "quiet (io_ret x)" "quiet (io_fail e)" "quiet io_stuck" "quiet (vm_event ev)" "quiet vm_call" "quiet get_regions"
  by (simp_all add: quiet_def preserves_def vm_defs vm_call_def)

lemma never_stuck_basic: "never_stuck (io_ret x)" "never_stuck (io_fail e)" "never_stuck (vm_event ev)" "never_stuck vm_call"
    "never_stuck get_regions" "never_stuck (set_regions rs)" "never_stuck (mobj_get m)" "never_stuck (mobj_put m)"
  by (simp_all add: never_stuck_def vm_defs vm_call_def)

lemma quiet_calls: "quiet vm_memory" "quiet alloc_pgt" "quiet (show_region pl r prot)" "quiet (show_moved pl fobj r)"
    "quiet (show_new_prot pl r)" "quiet (sync_new_prot pl w prot r)" "quiet (rem_um_region pl i)"
  by (auto simp: vm_memory_def alloc_pgt_def show_region_def show_moved_def show_new_prot_def sync_new_prot_def rem_um_region_def
      Let_def intro!: quiet_bind quiet_try quiet_basic split: prod.split)

lemma never_stuck_calls: "never_stuck vm_memory" "never_stuck alloc_pgt" "never_stuck (show_region pl r prot)"
    "never_stuck (show_moved pl fobj r)" "never_stuck (show_new_prot pl r)" "never_stuck (rem_um_region pl i)"
  by (auto simp: vm_memory_def alloc_pgt_def show_region_def show_moved_def show_new_prot_def rem_um_region_def
      Let_def intro!: never_stuck_bind never_stuck_try never_stuck_basic split: prod.split)

text \<open>A list operation that is a computation.\<close>

lemma list_remove_run: "list_remove i s = (Ok (), s\<lparr>um_regions := remove_at i (um_regions s)\<rparr>)"
  by (simp add: list_remove_def vm_defs)

lemma umap_remove_region_run:
  "umap_remove_region i s = (Ok (), snd (mobj_put (r_mobj (um_regions s ! i)) (s\<lparr>um_regions := remove_at i (um_regions s)\<rparr>)))"
  by (simp add: umap_remove_region_def list_remove_run vm_defs)

section \<open>Mapping\<close>

lemma vm_map_region_ok:
  assumes "0 < unat len" and "unat len + 4096 \<le> 2 ^ 64"
  shows "0 < unat (ROUNDUP len SMALL_PAGE_SIZE)"
proof -
  have "unat (ROUNDUP len SMALL_PAGE_SIZE) = (unat len + 4095) div 4096 * 4096"
    using ROUNDUP_nat [of len 12] assms by (simp add: SMALL_PAGE_SIZE_def)
  moreover have "0 < (unat len + 4095) div 4096" using assms(1) by (simp add: div_greater_zero_iff)
  ultimately show ?thesis by simp
qed

text \<open>The attributes of a region that \<open>vm_map_pad\<close> makes.\<close>

definition mapped_attr :: "vm_platform \<Rightarrow> nat \<Rightarrow> 32 word \<Rightarrow> 16 word \<Rightarrow> bool" where
  "mapped_attr pl mobj prot attr = (\<exists>mt. (if mo_is_paged pl mobj then Inr 0 else mo_mem_type pl mobj) = Inr mt \<and>
     attr = region_attr pl mobj mt OR ucast prot)"

text \<open>What has happened when a region was added: the gap it is in, and the counts of references.\<close>

definition added :: "vm_platform \<Rightarrow> vm_region \<Rightarrow> 64 word \<Rightarrow> 64 word \<Rightarrow> user_mode_ctx \<Rightarrow> 64 word \<Rightarrow> user_mode_ctx \<Rightarrow> bool" where
  "added pl reg pad_begin pad_end s va s1 = (\<exists>xs ys m. um_regions s = xs @ ys \<and> um_regions s1 = xs @ reg\<lparr>r_va := va\<rparr> # ys \<and>
     chain (unat (pl_va_base pl)) xs m \<and> m + unat pad_begin \<le> unat va \<and>
     chain (unat va + unat (r_size reg) + unat pad_end) ys (range_end pl) \<and> unat va mod 4096 = 0 \<and>
     (r_va reg = 0 \<or> va = r_va reg) \<and> unat (r_offset reg) + unat (r_size reg) < 2 ^ 64 \<and> unat (r_size reg) mod 4096 = 0)"

lemma umap_add_region_added:
  assumes "umap_add_region pl reg pad_begin pad_end align s = (Ok (i, va), s1)"
    and "platform_ok pl" and "vm_wf pl (um_regions s)"
  shows "added pl reg pad_begin pad_end s va s1" and "um_refs s1 = um_refs s"
    and "remove_at i (um_regions s1) = um_regions s"
proof -
  from umap_add_region_Ok(1) [OF assms] obtain xs ys m where
    f: "um_regions s = xs @ ys" "i = length xs" "s1 = s\<lparr>um_regions := xs @ reg\<lparr>r_va := va\<rparr> # ys\<rparr>"
      "chain (unat (pl_va_base pl)) xs m" "m + unat pad_begin \<le> unat va"
      "chain (unat va + unat (r_size reg) + unat pad_end) ys (range_end pl)" "unat va mod 4096 = 0" "r_va reg = 0 \<or> va = r_va reg"
    by (elim exE conjE) (rule that; assumption)
  have "um_regions s1 = xs @ reg\<lparr>r_va := va\<rparr> # ys" using f(3) by simp
  then show "added pl reg pad_begin pad_end s va s1"
    unfolding added_def using f(1,4-8) umap_add_region_Ok(2,3) [OF assms] by (intro exI conjI)
  show "um_refs s1 = um_refs s" using f(3) by simp
  show "remove_at i (um_regions s1) = um_regions s" using f(1-3) by (simp add: remove_at_middle)
qed

lemma added_wf:
  assumes "added pl reg pad_begin pad_end s va s1" and "0 < unat (r_size reg)"
  shows "vm_wf pl (um_regions s1)"
    and "vm_shows (um_regions s1) a = (if unat va \<le> a \<and> a < unat va + unat (r_size reg)
      then Some (r_mobj reg, unat (r_offset reg) + (a - unat va), r_attr reg, r_flags reg) else vm_shows (um_regions s) a)"
    and "unat va - unat pad_begin \<le> a \<Longrightarrow> a < unat va + unat (r_size reg) + unat pad_end \<Longrightarrow> vm_shows (um_regions s) a = None"
    and "r_va reg = 0 \<or> va = r_va reg" and "unat va mod 4096 = 0"
    and "m \<noteq> 0 \<Longrightarrow> length (filter (\<lambda>r. r_mobj r = m) (um_regions s1)) =
      length (filter (\<lambda>r. r_mobj r = m) (um_regions s)) + (if r_mobj reg = m then 1 else 0)"
proof -
  from assms(1)[unfolded added_def] obtain xs ys n where
    f: "um_regions s = xs @ ys" "um_regions s1 = xs @ reg\<lparr>r_va := va\<rparr> # ys"
      "chain (unat (pl_va_base pl)) xs n" "n + unat pad_begin \<le> unat va"
      "chain (unat va + unat (r_size reg) + unat pad_end) ys (range_end pl)" "unat va mod 4096 = 0" "r_va reg = 0 \<or> va = r_va reg"
      "unat (r_offset reg) + unat (r_size reg) < 2 ^ 64" "unat (r_size reg) mod 4096 = 0"
    by (elim exE conjE) (rule that; assumption)
  let ?r = "reg\<lparr>r_va := va\<rparr>"
  have e: "r_beg ?r = unat va" "r_end ?r = unat va + unat (r_size reg)" by (simp_all add: r_beg_def r_end_def)
  have c1: "chain (unat (pl_va_base pl)) xs (r_beg ?r)" using f(3,4) e by (auto intro: chain_mono)
  have c2: "chain (r_end ?r) ys (range_end pl)" using f(5) e by (auto intro: chain_mono)
  have ok: "region_ok ?r" using assms(2) f(6,8,9) by (simp add: region_ok_def r_beg_def)
  show "vm_wf pl (um_regions s1)" using c1 c2 ok f(2) by (simp add: vm_wf_def chain_split range_end_def)
  show "vm_shows (um_regions s1) a = (if unat va \<le> a \<and> a < unat va + unat (r_size reg)
      then Some (r_mobj reg, unat (r_offset reg) + (a - unat va), r_attr reg, r_flags reg) else vm_shows (um_regions s) a)"
    unfolding f(1,2) vm_shows_insert [OF c1 c2] e by simp
  show "vm_shows (um_regions s) a = None" if "unat va - unat pad_begin \<le> a" "a < unat va + unat (r_size reg) + unat pad_end"
    unfolding f(1) using that f(4) by (intro vm_shows_gap [OF f(3,5)]) simp_all
  show "r_va reg = 0 \<or> va = r_va reg" by (rule f(7))
  show "unat va mod 4096 = 0" by (rule f(6))
  show "length (filter (\<lambda>r. r_mobj r = m) (um_regions s1)) =
      length (filter (\<lambda>r. r_mobj r = m) (um_regions s)) + (if r_mobj reg = m then 1 else 0)" if "m \<noteq> 0"
    unfolding f(1,2) by simp
qed

lemma add_mapping_result:
  assumes "platform_ok pl" and "vm_wf pl (um_regions s)"
  shows "case add_mapping pl reg pad_begin pad_end align prot s of
      (Ok va, s1) \<Rightarrow> added pl reg pad_begin pad_end s va s1 \<and> um_refs s1 = um_refs s
    | (Fail e, s1) \<Rightarrow> um_regions s1 = um_regions s \<and> um_refs s1 = um_refs (snd (mobj_put (r_mobj reg) s))
    | (Stuck, s1) \<Rightarrow> False"
proof (cases "umap_add_region pl reg pad_begin pad_end align s")
  case (Pair r s2)
  show ?thesis
  proof (cases r)
    case (Ok p)
    obtain i va where p: "p = (i, va)" by (cases p)
    note run = Pair[unfolded Ok p]
    note f = umap_add_region_added [OF run assms]
    let ?show = "io_bind alloc_pgt (\<lambda>_. show_region pl (reg\<lparr>r_va := va\<rparr>) prot)"
    obtain r3 s3 where s3: "?show s2 = (r3, s3)" by (cases "?show s2")
    have q: "um_regions s3 = um_regions s2 \<and> um_refs s3 = um_refs s2"
      by (rule quietD [where m = ?show, OF _ s3]) (intro quiet_bind quiet_calls)
    have n: "r3 \<noteq> Stuck" using never_stuckD [of ?show s2 s3] s3 by (metis never_stuck_bind never_stuck_calls)
    have a: "added pl reg pad_begin pad_end s va s1" if "um_regions s1 = um_regions s2" for s1
      using f(1) that by (simp add: added_def)
    show ?thesis
    proof (cases r3)
      case Ok
      then show ?thesis
        using run s3 q f(2) a by (simp add: add_mapping_def io_try_def vm_defs)
    next
      case (Fail e)
      then show ?thesis
        using run s3 q f by (simp add: add_mapping_def io_try_def list_remove_run io_bind_step io_fail_def mobj_put_def io_bind_def)
    qed (use n in simp)
  next
    case (Fail e)
    then show ?thesis
      using Pair umap_add_region_Fail [of pl reg pad_begin pad_end align s e s2]
      by (simp add: add_mapping_def io_try_def io_bind_def io_fail_def mobj_put_def)
  qed (use Pair umap_add_region_not_Stuck in auto)
qed

lemma balance_added:
  assumes "added pl reg pad_begin pad_end s va s1" and "0 < unat (r_size reg)"
    and "um_regions s0 = um_regions s" and "um_refs s = um_refs (snd (mobj_get (r_mobj reg) s0))" and "um_refs s1 = um_refs s"
  shows "vm_balance s1 = vm_balance s0"
proof (rule ext)
  fix m
  show "vm_balance s1 m = vm_balance s0 m"
    using added_wf(6) [OF assms(1,2), of m] assms(3-5) by (simp add: vm_balance_def mobj_get_def)
qed

lemma vm_map_pad_result:
  assumes "platform_ok pl" and "vm_wf pl (um_regions s)" and "0 < unat len" and "unat len + 4096 \<le> 2 ^ 64"
  shows "case vm_map_pad pl va len prot flags mobj offs pad_begin pad_end align s of
      (Ok va1, s1) \<Rightarrow>
        vm_wf pl (um_regions s1) \<and> vm_balance s1 = vm_balance s \<and> va \<in> {0, va1} \<and> unat va1 mod 4096 = 0 \<and>
        (\<exists>attr. mapped_attr pl mobj prot attr \<and> (let l = unat (ROUNDUP len SMALL_PAGE_SIZE) in
          (\<forall>a. vm_shows (um_regions s1) a = (if unat va1 \<le> a \<and> a < unat va1 + l
             then Some (mobj, unat offs + (a - unat va1), attr, ucast flags) else vm_shows (um_regions s) a)) \<and>
          (\<forall>a. unat va1 - unat pad_begin \<le> a \<and> a < unat va1 + l + unat pad_end \<longrightarrow> vm_shows (um_regions s) a = None)))
    | (Fail e, s1) \<Rightarrow> um_regions s1 = um_regions s \<and> um_refs s1 = um_refs s
    | (Stuck, s1) \<Rightarrow> False"
proof (cases "prot AND NOT (ucast TEE_MATTR_PROT_MASK) \<noteq> 0")
  case True
  then show ?thesis by (simp add: vm_map_pad_def io_fail_def)
next
  case False
  obtain r0 s0 where s0: "vm_memory s = (r0, s0)" by (cases "vm_memory s")
  note q0 = quietD [OF quiet_calls(1) s0]
  have n0: "r0 \<noteq> Stuck" using never_stuckD [OF never_stuck_calls(1), of s s0] s0 by auto
  show ?thesis
  proof (cases r0)
    case (Ok u)
    show ?thesis
    proof (cases "if mo_is_paged pl mobj then Inr 0 else mo_mem_type pl mobj")
      case (Inl e)
      then show ?thesis using False s0 Ok q0 by (simp add: vm_map_pad_def io_bind_def io_fail_def)
    next
      case (Inr mt)
      let ?reg = "\<lparr>r_mobj = mobj, r_offset = offs, r_va = va, r_size = ROUNDUP len SMALL_PAGE_SIZE,
              r_attr = region_attr pl mobj mt OR ucast prot, r_flags = ucast flags\<rparr>"
      define s2 where "s2 = snd (mobj_get mobj s0)"
      have s2: "um_regions s2 = um_regions s" "um_refs s2 = um_refs (snd (mobj_get mobj s))"
        using q0 by (simp_all add: s2_def mobj_get_def)
      have undone: "um_refs (snd (mobj_put mobj s2)) = um_refs s"
        using s2(2) by (simp add: mobj_get_def mobj_put_def fun_eq_iff)
      have run: "vm_map_pad pl va len prot flags mobj offs pad_begin pad_end align s =
          add_mapping pl ?reg pad_begin pad_end align (ucast prot) s2"
        using False s0 Ok Inr by (simp add: vm_map_pad_def io_bind_def s2_def mobj_get_def)
      have pos: "0 < unat (r_size ?reg)" using vm_map_region_ok [OF assms(3,4)] by simp
      have ma: "mapped_attr pl mobj prot (r_attr ?reg)" using Inr by (auto simp: mapped_attr_def)
      have res: "case add_mapping pl ?reg pad_begin pad_end align (ucast prot) s2 of
          (Ok va, s1) \<Rightarrow> added pl ?reg pad_begin pad_end s2 va s1 \<and> um_refs s1 = um_refs s2
        | (Fail e, s1) \<Rightarrow> um_regions s1 = um_regions s2 \<and> um_refs s1 = um_refs (snd (mobj_put (r_mobj ?reg) s2))
        | (Stuck, s1) \<Rightarrow> False"
        by (rule add_mapping_result) (use assms(1,2) s2(1) in simp_all)
      show ?thesis
      proof (cases "add_mapping pl ?reg pad_begin pad_end align (ucast prot) s2")
        case (Pair r s1)
        show ?thesis
        proof (cases r)
          case (Ok va1)
          then have a: "added pl ?reg pad_begin pad_end s2 va1 s1" and q: "um_refs s1 = um_refs s2" using res Pair by simp_all
          have b: "vm_balance s1 = vm_balance s" by (rule balance_added [OF a pos]) (use s2 q in simp_all)
          have "va \<in> {0, va1}" using added_wf(4) [OF a pos] by auto
          then show ?thesis
            unfolding run Pair Ok
            using added_wf(1-3,5) [OF a pos] b ma s2(1) by (auto simp: Let_def intro!: exI [of _ "r_attr ?reg"])
        next
          case (Fail e)
          then show ?thesis using run Pair res s2(1) undone by simp
        next
          case Stuck
          then show ?thesis using Pair res by simp
        qed
      qed
    qed
  next
    case (Fail e)
    then show ?thesis using False s0 q0 by (simp add: vm_map_pad_def io_bind_def)
  qed (use n0 in simp)
qed

text \<open>
  C4: A successful \<open>vm_map_pad\<close> shows the wanted bytes of the object at the returned address, where nothing was mapped
  before, not even in the paddings; it changes nothing elsewhere, takes the address asked for when there is one, keeps the
  list of regions well-formed and holds one reference for the new region. A refused one leaves the regions and the
  references as they were, and no assertion fails.
\<close>

theorem vm_map_refines:
  assumes "platform_ok pl" and "vm_wf pl (um_regions s)" and "0 < unat len" and "unat len + 4096 \<le> 2 ^ 64"
  shows "case vm_map_pad pl va len prot flags mobj offs pad_begin pad_end align s of
      (Ok va1, s1) \<Rightarrow>
        vm_wf pl (um_regions s1) \<and> vm_balance s1 = vm_balance s \<and> va \<in> {0, va1} \<and> unat va1 mod 4096 = 0 \<and>
        (\<exists>attr. mapped_attr pl mobj prot attr \<and> (let l = unat (ROUNDUP len SMALL_PAGE_SIZE) in
          (\<forall>a. vm_shows (um_regions s1) a = (if unat va1 \<le> a \<and> a < unat va1 + l
             then Some (mobj, unat offs + (a - unat va1), attr, ucast flags) else vm_shows (um_regions s) a)) \<and>
          (\<forall>a. unat va1 - unat pad_begin \<le> a \<and> a < unat va1 + l + unat pad_end \<longrightarrow> vm_shows (um_regions s) a = None)))
    | (Fail e, s1) \<Rightarrow> um_regions s1 = um_regions s \<and> um_refs s1 = um_refs s
    | (Stuck, s1) \<Rightarrow> False"
  by (rule vm_map_pad_result [OF assms])

text \<open>A platform and a context with two regions, for the examples: object 1 holds plain memory, object 2 is paged.\<close>

definition sample_platform :: vm_platform where
  "sample_platform = \<lparr>pl_va_base = 0x40000000, pl_va_size = 0x40000000, pl_pgdir_size = 0x200000, pl_lpae = True,
     mo_size = (\<lambda>m. 0x10000), mo_granule = (\<lambda>m. 0x1000), mo_is_paged = (\<lambda>m. m = 2), mo_is_secure = (\<lambda>m. True),
     mo_mem_type = (\<lambda>m. Inr 1), mo_phys_offs = (\<lambda>m g. 0), mo_pa = (\<lambda>m offs g. Inr (0x80000000 + offs)), mo_fobj = (\<lambda>m. m)\<rparr>"

definition sample_ctx :: user_mode_ctx where
  "sample_ctx = \<lparr>um_regions =
       [\<lparr>r_mobj = 1, r_offset = 0, r_va = 0x40000000, r_size = 0x3000, r_attr = 0x19B1, r_flags = 0\<rparr>,
        \<lparr>r_mobj = 1, r_offset = 0x3000, r_va = 0x40003000, r_size = 0x2000, r_attr = 0x1891, r_flags = 0\<rparr>],
     um_asid = 1, um_refs = (\<lambda>m. if m = 1 then 2 else 0), um_events = [], um_replies = (\<lambda>n. TEE_SUCCESS)\<rparr>"

lemma sample_ok: "platform_ok sample_platform" "vm_wf sample_platform (um_regions sample_ctx)"
  by (simp_all add: platform_ok_def sample_platform_def IS_POWER_OF_TWO_def SMALL_PAGE_SIZE_def sample_ctx_def vm_wf_def
      region_ok_def r_beg_def r_end_def)

theorem vm_map_refines_witness:
  "fst (vm_map_pad sample_platform 0 0x1800 0x1B0 0 1 0 0x1000 0 0 sample_ctx) = Ok 0x40006000 \<and>
   vm_shows (um_regions (snd (vm_map_pad sample_platform 0 0x1800 0x1B0 0 1 0 0x1000 0 0 sample_ctx))) 0x40003010 = Some (1, 0x3010, 0x1891, 0) \<and>
   vm_shows (um_regions sample_ctx) 0x40005010 = None"
proof -
  let ?m = "vm_map_pad sample_platform 0 0x1800 0x1B0 0 1 0 0x1000 0 0 sample_ctx"
  have r: "fst ?m = Ok 0x40006000" by code_simp
  have l: "unat (ROUNDUP 0x1800 SMALL_PAGE_SIZE) = 0x2000" by code_simp
  obtain s1 where s1: "?m = (Ok 0x40006000, s1)" using r by (cases ?m) simp
  have res: "(\<exists>attr. mapped_attr sample_platform 1 0x1B0 attr \<and> (let l = unat (ROUNDUP 0x1800 SMALL_PAGE_SIZE) in
      (\<forall>a. vm_shows (um_regions s1) a = (if unat (0x40006000 :: 64 word) \<le> a \<and> a < unat (0x40006000 :: 64 word) + l
         then Some (1, unat (0 :: 64 word) + (a - unat (0x40006000 :: 64 word)), attr, ucast (0 :: 32 word)) else vm_shows (um_regions sample_ctx) a)) \<and>
      (\<forall>a. unat (0x40006000 :: 64 word) - unat (0x1000 :: 64 word) \<le> a \<and> a < unat (0x40006000 :: 64 word) + l + unat (0 :: 64 word)
         \<longrightarrow> vm_shows (um_regions sample_ctx) a = None)))"
    using vm_map_refines [OF sample_ok, where len = "0x1800" and va = 0 and prot = "0x1B0" and flags = 0 and mobj = 1
        and offs = 0 and pad_begin = "0x1000" and pad_end = 0 and align = 0] unfolding s1 prod.case io.case by simp
  have old: "vm_shows (um_regions s1) 0x40003010 = vm_shows (um_regions sample_ctx) 0x40003010"
    and free: "vm_shows (um_regions sample_ctx) 0x40005010 = None"
    using res l by (auto simp: Let_def)
  have "vm_shows (um_regions sample_ctx) 0x40003010 = Some (1, 0x3010, 0x1891, 0)"
    by (simp add: sample_ctx_def r_beg_def r_end_def)
  then show ?thesis using old free unfolding s1 by simp
qed

end
