(* ===== verification/VmSplit.thy ===== *)
theory VmSplit
  imports VmMap
begin

text \<open>
  Ranges of addresses in a list of regions: finding the region of an address, regions that touch, and what
  splitting at the ends of a range and merging afterwards do to the list. None of it changes what is shown.
\<close>

section \<open>Finding a region\<close>

text \<open>Ends of regions as words.\<close>

lemma chain_word_end:
  assumes "chain lo rs hi" and "hi < 2 ^ 64" and "r \<in> set rs"
  shows "unat (r_va r + r_size r) = r_end r"
proof -
  have "r_end r < 2 ^ 64" using chain_region_ok [OF assms(1,3)] assms(2) by simp
  then show ?thesis by (simp add: r_end_def unat_add_exact)
qed

lemma platform_range: "platform_ok pl \<Longrightarrow> range_end pl < 2 ^ 64"
  by (auto simp: platform_ok_def range_end_def word_le_nat_alt SMALL_PAGE_SIZE_def)

lemma find_vm_region_Some:
  assumes "find_vm_region rs va = Some i" and "chain lo rs hi" and "hi < 2 ^ 64"
  obtains xs r ys where "rs = xs @ r # ys" and "i = length xs" and "r_beg r \<le> unat va" and "unat va < r_end r"
  using assms
proof (induction rs arbitrary: i lo thesis)
  case (Cons r rs)
  have e: "unat (r_va r + r_size r) = r_end r" using chain_word_end [OF Cons.prems(3,4)] by simp
  show ?case
  proof (cases "r_va r \<le> va \<and> va < r_va r + r_size r")
    case True
    then have "i = 0" using Cons.prems(2) by simp
    then show ?thesis
      using True e by (intro Cons.prems(1) [of "[]" r rs]) (simp_all add: r_beg_def word_le_nat_alt word_less_nat_alt)
  next
    case False
    then obtain j where j: "find_vm_region rs va = Some j" "i = Suc j" using Cons.prems(2) by auto
    have c: "chain (r_end r) rs hi" using Cons.prems(3) by simp
    obtain xs q ys where f: "rs = xs @ q # ys" "j = length xs" "r_beg q \<le> unat va" "unat va < r_end q"
      using Cons.IH [OF _ j(1) c Cons.prems(4)] by metis
    show ?thesis using f j(2) by (intro Cons.prems(1) [of "r # xs" q ys]) simp_all
  qed
qed simp

lemma find_vm_region_at:
  assumes "chain lo (xs @ r # ys) hi" and "hi < 2 ^ 64" and "r_beg r \<le> unat va" and "unat va < r_end r"
  shows "find_vm_region (xs @ r # ys) va = Some (length xs)"
  using assms(1)
proof (induction xs arbitrary: lo)
  case Nil
  have "unat (r_va r + r_size r) = r_end r" using chain_word_end [OF Nil assms(2)] by simp
  then show ?case using assms(3,4) by (simp add: r_beg_def word_le_nat_alt word_less_nat_alt)
next
  case (Cons x xs)
  have "unat (r_va x + r_size x) = r_end x" using chain_word_end [OF Cons.prems assms(2)] by simp
  moreover have "r_end x \<le> r_beg r" using Cons.prems by (auto simp: chain_split dest: chain_le)
  ultimately have "\<not> va < r_va x + r_size x" using assms(3) by (simp add: word_less_nat_alt)
  moreover have "find_vm_region (xs @ r # ys) va = Some (length xs)" using Cons.prems by (intro Cons.IH) auto
  ultimately show ?case by simp
qed

lemma find_vm_region_None:
  assumes "find_vm_region rs va = None" and "chain lo rs hi" and "hi < 2 ^ 64"
  shows "vm_shows rs (unat va) = None"
  using assms
proof (induction rs arbitrary: lo)
  case (Cons r rs)
  have "unat (r_va r + r_size r) = r_end r" using chain_word_end [OF Cons.prems(2,3)] by simp
  then have "\<not> (r_beg r \<le> unat va \<and> unat va < r_end r)"
    using Cons.prems(1) by (auto simp: r_beg_def word_le_nat_alt word_less_nat_alt split: if_splits)
  moreover have "vm_shows rs (unat va) = None" using Cons.prems by (intro Cons.IH [of "r_end r"]) (auto split: if_splits)
  ultimately show ?case by auto
qed simp

section \<open>Regions that touch\<close>

text \<open>The regions fill the addresses from the first number up to the second.\<close>

fun touching :: "nat \<Rightarrow> vm_region list \<Rightarrow> nat \<Rightarrow> bool" where
  "touching b [] e = (b = e)"
| "touching b (r # rs) e = (r_beg r = b \<and> touching (r_end r) rs e)"

lemma touching_append: "touching b (xs @ ys) e \<longleftrightarrow> (\<exists>m. touching b xs m \<and> touching m ys e)"
  by (induction xs arbitrary: b) auto

lemma touching_snoc: "touching b (xs @ [r]) e \<longleftrightarrow> touching b xs (r_beg r) \<and> e = r_end r"
  by (auto simp: touching_append)

lemma touching_le: "touching b rs e \<Longrightarrow> b \<le> e"
proof (induction rs arbitrary: b)
  case (Cons r rs)
  then have "r_end r \<le> e" by auto
  then show ?case using Cons.prems by (auto simp: r_beg_def r_end_def)
qed simp

lemma touching_shows: "touching b rs e \<Longrightarrow> b \<le> a \<Longrightarrow> a < e \<Longrightarrow> vm_shows rs a \<noteq> None"
proof (induction rs arbitrary: b)
  case (Cons r rs)
  then show ?case by (cases "a < r_end r") auto
qed simp

lemma touching_shows_outside: "touching b rs e \<Longrightarrow> \<not> (b \<le> a \<and> a < e) \<Longrightarrow> vm_shows rs a = None"
proof (induction rs arbitrary: b)
  case (Cons r rs)
  have "r_end r \<le> e" using Cons.prems(1) touching_le by auto
  moreover have "r_beg r \<le> r_end r" by (simp add: r_beg_def r_end_def)
  ultimately have "\<not> (r_end r \<le> a \<and> a < e)" "\<not> (r_beg r \<le> a \<and> a < r_end r)" using Cons.prems by auto
  moreover have "vm_shows rs a = None" using Cons.prems(1) calculation(1) by (intro Cons.IH) auto
  ultimately show ?case by (auto simp del: not_le not_less)
qed simp

text \<open>A positive answer to the question for a contiguous range names the regions that contain it.\<close>

fun steps_ok :: "region_test \<Rightarrow> vm_region \<Rightarrow> vm_region list \<Rightarrow> bool" where
  "steps_ok cmp r0 (x # y # rs) = (cmp r0 x y \<and> steps_ok cmp r0 (y # rs))"
| "steps_ok cmp r0 rs = True"

lemma contiguous_from_regions:
  assumes "contiguous_from cmp r0 end_va r rs" and "chain lo (r # rs) hi" and "hi < 2 ^ 64" and "r_beg r < unat end_va"
  obtains ms l ys where "r # rs = (ms @ [l]) @ ys" and "touching (r_beg r) (ms @ [l]) (r_end l)"
    and "r_beg l < unat end_va" and "unat end_va \<le> r_end l" and "steps_ok cmp r0 (ms @ [l])"
  using assms
proof (induction rs arbitrary: r lo thesis)
  case Nil
  have "unat (r_va r + r_size r) = r_end r" using chain_word_end [OF Nil.prems(3,4)] by simp
  then have "unat end_va \<le> r_end r" using Nil.prems(2) by (simp add: word_le_nat_alt)
  then show ?case using Nil.prems(5) by (intro Nil.prems(1) [of "[]" r "[]"]) simp_all
next
  case (Cons q rs)
  have e: "unat (r_va r + r_size r) = r_end r" using chain_word_end [OF Cons.prems(3,4)] by simp
  show ?case
  proof (cases "r_va r + r_size r \<ge> end_va")
    case True
    then show ?thesis using Cons.prems(5) e by (intro Cons.prems(1) [of "[]" r "q # rs"]) (simp_all add: word_le_nat_alt)
  next
    case False
    then have q: "r_va r + r_size r = r_va q" and c: "cmp r0 r q" and k: "contiguous_from cmp r0 end_va q rs"
      using Cons.prems(2) by (auto split: if_splits)
    have b: "r_beg q = r_end r" using e q by (simp add: r_beg_def)
    then have "r_beg q < unat end_va" using False e by (simp add: word_le_nat_alt)
    moreover have "chain (r_end r) (q # rs) hi" using Cons.prems(3) by simp
    ultimately obtain ms l ys where f: "q # rs = (ms @ [l]) @ ys" "touching (r_beg q) (ms @ [l]) (r_end l)"
        "r_beg l < unat end_va" "unat end_va \<le> r_end l" "steps_ok cmp r0 (ms @ [l])"
      using Cons.IH [OF _ k _ Cons.prems(4)] by metis
    have "steps_ok cmp r0 (r # ms @ [l])"
    proof (cases ms)
      case Nil
      then show ?thesis using f(1) c by simp
    next
      case (Cons m ms2)
      then show ?thesis using f(1,5) c by simp
    qed
    moreover have "touching (r_beg r) ((r # ms) @ [l]) (r_end l)" using f(2) b by simp
    ultimately show ?thesis using f(1,3,4) by (intro Cons.prems(1) [of "r # ms" l ys]) simp_all
  qed
qed

lemma range_regions:
  assumes "find_vm_region rs va = Some i" and "va_range_is_contiguous rs i va len cmp"
    and "chain lo rs hi" and "hi < 2 ^ 64" and "0 < unat len"
  obtains xs ms l ys where "rs = xs @ (ms @ [l]) @ ys" and "i = length xs"
    and "r_beg (rs ! i) \<le> unat va" and "unat va < r_end (rs ! i)" and "touching (r_beg (rs ! i)) (ms @ [l]) (r_end l)"
    and "r_beg l < unat va + unat len" and "unat va + unat len \<le> r_end l" and "steps_ok cmp (rs ! i) (ms @ [l])"
proof -
  obtain xs r zs where f: "rs = xs @ r # zs" "i = length xs" "r_beg r \<le> unat va" "unat va < r_end r"
    using find_vm_region_Some [OF assms(1,3,4)] by metis
  have ri: "rs ! i = r" and d: "drop (Suc i) rs = zs" using f by simp_all
  obtain e where e: "add_overflow va len = Some e" "contiguous_from cmp r e r zs"
    using assms(2) ri d by (auto simp: va_range_is_contiguous_def split: option.splits)
  note u = add_overflow_unat [OF e(1)]
  have c: "chain (r_beg r) (r # zs) hi" using assms(3) f(1) by (simp add: chain_split)
  have b: "r_beg r < unat e" using f(3) u assms(5) by simp
  obtain ms l ys where g: "r # zs = (ms @ [l]) @ ys" "touching (r_beg r) (ms @ [l]) (r_end l)"
      "r_beg l < unat e" "unat e \<le> r_end l" "steps_ok cmp r (ms @ [l])"
    using contiguous_from_regions [OF e(2) c assms(4) b] by metis
  show thesis
    using f g u ri by (intro that [of xs ms l ys]) simp_all
qed

section \<open>Splitting a region\<close>

definition lower_part :: "64 word \<Rightarrow> vm_region \<Rightarrow> vm_region" where
  "lower_part va r = r\<lparr>r_size := va - r_va r\<rparr>"

definition upper_part :: "64 word \<Rightarrow> vm_region \<Rightarrow> vm_region" where
  "upper_part va r = r\<lparr>r_offset := r_offset r + (va - r_va r), r_va := va, r_size := r_size r - (va - r_va r)\<rparr>"

lemma parts:
  assumes "region_ok r" and "r_beg r < unat va" and "unat va < r_end r" and "unat va mod 4096 = 0"
  shows "region_ok (lower_part va r)" and "region_ok (upper_part va r)"
    and "r_beg (lower_part va r) = r_beg r" and "r_end (lower_part va r) = unat va"
    and "r_beg (upper_part va r) = unat va" and "r_end (upper_part va r) = r_end r"
    and "vm_shows (lower_part va r # upper_part va r # rs) a = vm_shows (r # rs) a"
    and "r_mobj (lower_part va r) = r_mobj r" and "r_mobj (upper_part va r) = r_mobj r"
proof -
  have d: "unat (va - r_va r) = unat va - r_beg r"
    using assms(2) by (subst unat_sub_exact) (simp_all add: r_beg_def)
  have sz: "unat (r_size r - (va - r_va r)) = r_end r - unat va"
    using assms(2,3) d by (subst unat_sub_exact) (simp_all add: r_beg_def r_end_def)
  have off: "unat (r_offset r + (va - r_va r)) = unat (r_offset r) + (unat va - r_beg r)"
  proof -
    have "unat (r_offset r) + unat (va - r_va r) < 2 ^ 64"
      using assms(1,2,3) unfolding d region_ok_def r_beg_def r_end_def by linarith
    then show ?thesis using d by (subst unat_add_exact) simp_all
  qed
  have m: "r_end r mod 4096 = 0" "r_beg r mod 4096 = 0"
    using assms(1) by (auto simp: region_ok_def r_beg_def r_end_def mod_add_eq [symmetric])
  have md: "(x - y) mod 4096 = 0" if "x mod 4096 = 0" "y mod 4096 = (0 :: nat)" for x y
    using that by (metis dvd_diff_nat mod_0_imp_dvd dvd_imp_mod_0)
  show low: "r_beg (lower_part va r) = r_beg r" "r_end (lower_part va r) = unat va"
    using d assms(2) by (simp_all add: lower_part_def r_beg_def r_end_def)
  show up: "r_beg (upper_part va r) = unat va" "r_end (upper_part va r) = r_end r"
    using sz assms(3) by (simp_all add: upper_part_def r_beg_def r_end_def)
  show "region_ok (lower_part va r)"
    using d assms m md [OF assms(4) m(2)] by (auto simp: region_ok_def lower_part_def r_beg_def r_end_def)
  show "region_ok (upper_part va r)"
    using sz off assms m md [OF m(1) assms(4)] by (auto simp: region_ok_def upper_part_def r_beg_def r_end_def)
  have p: "r_mobj (lower_part va r) = r_mobj r" "r_offset (lower_part va r) = r_offset r"
      "r_attr (lower_part va r) = r_attr r" "r_flags (lower_part va r) = r_flags r"
      "r_mobj (upper_part va r) = r_mobj r" "unat (r_offset (upper_part va r)) = unat (r_offset r) + (unat va - r_beg r)"
      "r_attr (upper_part va r) = r_attr r" "r_flags (upper_part va r) = r_flags r"
    using off by (simp_all add: lower_part_def upper_part_def)
  show "vm_shows (lower_part va r # upper_part va r # rs) a = vm_shows (r # rs) a"
    using assms(2,3) by (auto simp: low up p)
  show "r_mobj (lower_part va r) = r_mobj r" "r_mobj (upper_part va r) = r_mobj r" using p by simp_all
qed

text \<open>Two contexts that show the same and hold the same references beside those of their regions.\<close>

definition vm_same :: "vm_platform \<Rightarrow> user_mode_ctx \<Rightarrow> user_mode_ctx \<Rightarrow> bool" where
  "vm_same pl s s1 = (vm_wf pl (um_regions s1) \<and> vm_shows (um_regions s1) = vm_shows (um_regions s) \<and> vm_balance s1 = vm_balance s)"

lemma vm_same_refl: "vm_wf pl (um_regions s) \<Longrightarrow> vm_same pl s s"
  by (simp add: vm_same_def)

lemma vm_same_trans: "vm_same pl s s1 \<Longrightarrow> vm_same pl s1 s2 \<Longrightarrow> vm_same pl s s2"
  by (simp add: vm_same_def)

lemma vm_same_quiet:
  "vm_wf pl (um_regions s) \<Longrightarrow> um_regions s1 = um_regions s \<Longrightarrow> um_refs s1 = um_refs s \<Longrightarrow> vm_same pl s s1"
  by (simp add: vm_same_def vm_balance_def fun_eq_iff)

lemma split_vm_region_result:
  assumes "um_regions s = xs @ r # ys" and "vm_wf pl (um_regions s)"
    and "r_beg r < unat va" and "unat va < r_end r" and "unat va mod 4096 = 0"
  shows "case split_vm_region pl (length xs) va s of
      (Ok u, s1) \<Rightarrow> um_regions s1 = xs @ lower_part va r # upper_part va r # ys \<and> vm_same pl s s1
    | (Fail e, s1) \<Rightarrow> vm_same pl s s1
    | (Stuck, s1) \<Rightarrow> False"
proof -
  have wf: "chain (unat (pl_va_base pl)) xs (r_beg r)" "region_ok r" "chain (r_end r) ys (range_end pl)"
    using assms(1,2) by (simp_all add: vm_wf_def chain_split range_end_def)
  note p = parts [OF wf(2) assms(3-5)]
  have d: "unat (va - r_va r) = unat va - r_beg r"
    using assms(3) by (subst unat_sub_exact) (simp_all add: r_beg_def)
  then have ok: "va - r_va r \<noteq> 0" "va - r_va r < r_size r"
    using assms(3,4) by (auto simp: r_end_def r_beg_def word_less_nat_alt)
  have i: "um_regions s ! length xs = r" "take (length xs) (um_regions s) = xs" "drop (Suc (length xs)) (um_regions s) = ys"
    using assms(1) by simp_all
  let ?calls = "io_bind vm_memory (\<lambda>_. if mo_is_paged pl (r_mobj r) then io_bind vm_call (\<lambda>_. vm_event (Pager_split va)) else io_ret ())"
  have run: "split_vm_region pl (length xs) va s = io_bind ?calls (\<lambda>_. io_bind (mobj_get (r_mobj r)) (\<lambda>_.
      set_regions (xs @ lower_part va r # upper_part va r # ys))) s"
    using ok i by (simp add: split_vm_region_def io_bind_def get_regions_def Let_def lower_part_def upper_part_def split: prod.split io.split)
  obtain r1 s1 where s1: "?calls s = (r1, s1)" by (cases "?calls s")
  have q: "um_regions s1 = um_regions s \<and> um_refs s1 = um_refs s"
    by (rule quietD [where m = ?calls, OF _ s1]) (auto intro!: quiet_bind quiet_basic quiet_calls)
  have n: "r1 \<noteq> Stuck"
    using never_stuckD [of ?calls s s1] s1 by (auto intro!: never_stuck_bind never_stuck_basic never_stuck_calls split: if_splits)
  let ?s2 = "snd (mobj_get (r_mobj r) s1)\<lparr>um_regions := xs @ lower_part va r # upper_part va r # ys\<rparr>"
  have same: "vm_same pl s ?s2"
    unfolding vm_same_def
  proof (intro conjI)
    show "vm_wf pl (um_regions ?s2)" using wf p(1-6) by (simp add: vm_wf_def chain_split range_end_def)
    show "vm_shows (um_regions ?s2) = vm_shows (um_regions s)"
      using p(7) assms(1) by (intro ext) (simp add: vm_shows_append split: option.split)
    show "vm_balance ?s2 = vm_balance s"
      using p(8,9) assms(1) q by (intro ext) (simp add: vm_balance_def mobj_get_def)
  qed
  show ?thesis
  proof (cases r1)
    case (Ok u)
    then show ?thesis using run s1 same by (simp add: io_bind_def mobj_get_def set_regions_def)
  next
    case (Fail e)
    then show ?thesis using run s1 q assms(2) by (simp add: io_bind_def vm_same_quiet)
  qed (use n in simp)
qed

section \<open>Splitting at the ends of a range\<close>

text \<open>The regions from position \<open>i\<close> on fill the range.\<close>

definition range_at :: "user_mode_ctx \<Rightarrow> nat \<Rightarrow> 64 word \<Rightarrow> 64 word \<Rightarrow> bool" where
  "range_at s i va len = (\<exists>xs ms ys. um_regions s = xs @ ms @ ys \<and> i = length xs \<and> ms \<noteq> [] \<and>
     touching (unat va) ms (unat va + unat len) \<and> unat va + unat len < 2 ^ 64)"

text \<open>The first step: the range begins with a region, and is inside those up to \<open>l\<close>.\<close>

definition range_open :: "user_mode_ctx \<Rightarrow> nat \<Rightarrow> 64 word \<Rightarrow> 64 word \<Rightarrow> bool" where
  "range_open s i va len = (\<exists>xs ms l ys. um_regions s = xs @ (ms @ [l]) @ ys \<and> i = length xs \<and>
     touching (unat va) (ms @ [l]) (r_end l) \<and> r_beg l < unat va + unat len \<and> unat va + unat len \<le> r_end l)"

definition split_first :: "vm_platform \<Rightarrow> vm_region list \<Rightarrow> nat \<Rightarrow> 64 word \<Rightarrow> nat vm" where
  "split_first pl rs i va = (if va \<noteq> r_va (rs ! i) then io_bind (split_vm_region pl i va) (\<lambda>_. io_ret (Suc i)) else io_ret i)"

definition split_last :: "vm_platform \<Rightarrow> nat \<Rightarrow> 64 word \<Rightarrow> 64 word \<Rightarrow> nat vm" where
  "split_last pl i0 last_va end_va = io_bind get_regions (\<lambda>rs1.
     case find_vm_region rs1 last_va of
       None \<Rightarrow> io_fail TEE_ERROR_BAD_PARAMETERS
     | Some j \<Rightarrow>
         if end_va \<noteq> r_va (rs1 ! j) + r_size (rs1 ! j)
         then io_bind (split_vm_region pl j end_va) (\<lambda>_. io_ret i0) else io_ret i0)"

lemma split_first_result:
  assumes "um_regions s = xs @ (ms @ [l]) @ ys" and "vm_wf pl (um_regions s)" and "r_beg (um_regions s ! length xs) \<le> unat va"
    and "unat va < r_end (um_regions s ! length xs)" and "touching (r_beg (um_regions s ! length xs)) (ms @ [l]) (r_end l)"
    and "r_beg l < unat va + unat len" and "unat va + unat len \<le> r_end l" and "unat va mod 4096 = 0" and "0 < unat len"
  shows "case split_first pl (um_regions s) (length xs) va s of
      (Ok i0, s1) \<Rightarrow> vm_same pl s s1 \<and> range_open s1 i0 va len
    | (Fail e, s1) \<Rightarrow> vm_same pl s s1
    | (Stuck, s1) \<Rightarrow> False"
proof (cases "va = r_va (um_regions s ! length xs)")
  case True
  then have "touching (unat va) (ms @ [l]) (r_end l)" using assms(5) by (simp add: r_beg_def)
  then have "range_open s (length xs) va len" unfolding range_open_def using assms(1,6,7) by blast
  then show ?thesis using True vm_same_refl [OF assms(2)] by (simp add: split_first_def io_ret_def)
next
  case False
  obtain r rest where r: "ms @ [l] = r # rest" by (cases "ms @ [l]") simp_all
  have rs: "um_regions s = xs @ r # rest @ ys" using assms(1) r by (metis append_Cons)
  then have i: "um_regions s ! length xs = r" by simp
  have lt: "r_beg r < unat va" using False assms(3) i by (simp add: r_beg_def order_less_le) (metis word_unat_eq_iff)
  have ok: "region_ok r" using assms(2) rs by (simp add: vm_wf_def chain_split)
  have va: "unat va < r_end r" using assms(4) i by simp
  note p = parts [OF ok lt va assms(8)]
  have t: "touching (r_end r) rest (r_end l)" using assms(5) i r by simp
  have opened: "range_open s1 (Suc (length xs)) va len"
    if "um_regions s1 = xs @ lower_part va r # upper_part va r # rest @ ys" for s1
  proof (cases ms)
    case Nil
    then have "r = l" "rest = []" using r by simp_all
    then have "um_regions s1 = (xs @ [lower_part va r]) @ ([] @ [upper_part va r]) @ ys" using that by simp
    moreover have "touching (unat va) ([] @ [upper_part va r]) (r_end (upper_part va r))" using p by simp
    moreover have "r_beg (upper_part va r) < unat va + unat len" "unat va + unat len \<le> r_end (upper_part va r)"
      using p assms(7,9) \<open>r = l\<close> by simp_all
    moreover have "Suc (length xs) = length (xs @ [lower_part va r])" by simp
    ultimately show ?thesis unfolding range_open_def by blast
  next
    case (Cons m ms2)
    then have "rest = ms2 @ [l]" using r by simp
    then have "um_regions s1 = (xs @ [lower_part va r]) @ ((upper_part va r # ms2) @ [l]) @ ys" using that by simp
    moreover have "touching (unat va) ((upper_part va r # ms2) @ [l]) (r_end l)" using p t \<open>rest = ms2 @ [l]\<close> by simp
    moreover have "Suc (length xs) = length (xs @ [lower_part va r])" by simp
    ultimately show ?thesis unfolding range_open_def using assms(6,7) by blast
  qed
  from split_vm_region_result [OF rs assms(2) lt va assms(8)] show ?thesis
    using False opened by (cases "split_vm_region pl (length xs) va s"; cases "fst (split_vm_region pl (length xs) va s)")
      (auto simp: split_first_def io_bind_def io_ret_def)
qed

lemma split_last_result:
  assumes "platform_ok pl" and "range_open s i va len" and "vm_wf pl (um_regions s)" and "unat va mod 4096 = 0"
    and "unat len mod 4096 = 0" and "0 < unat len" and "unat va + unat len < 2 ^ 64"
  shows "case split_last pl i (va + len - 1) (va + len) s of
      (Ok i0, s1) \<Rightarrow> vm_same pl s s1 \<and> range_at s1 i0 va len
    | (Fail e, s1) \<Rightarrow> vm_same pl s s1
    | (Stuck, s1) \<Rightarrow> False"
proof -
  obtain xs ms l ys where o: "um_regions s = xs @ (ms @ [l]) @ ys" "i = length xs"
      "touching (unat va) (ms @ [l]) (r_end l)" "r_beg l < unat va + unat len" "unat va + unat len \<le> r_end l"
    using assms(2) unfolding range_open_def by blast
  have e: "unat (va + len) = unat va + unat len" using assms(7) by (simp add: unat_add_exact)
  then have e1: "unat (va + len - 1) = unat va + unat len - 1"
    using assms(6) by (subst unat_sub_exact) simp_all
  have rs: "um_regions s = (xs @ ms) @ l # ys" using o(1) by simp
  have c: "chain (unat (pl_va_base pl)) ((xs @ ms) @ l # ys) (range_end pl)" using assms(3) rs by (simp add: vm_wf_def range_end_def)
  have f: "find_vm_region (um_regions s) (va + len - 1) = Some (length (xs @ ms))"
    unfolding rs using o(4,5) assms(6) e1 by (intro find_vm_region_at [OF c platform_range [OF assms(1)]]) simp_all
  have j: "um_regions s ! length (xs @ ms) = l" unfolding rs by simp
  have we: "unat (r_va l + r_size l) = r_end l" using chain_word_end [OF c platform_range [OF assms(1)], of l] by simp
  show ?thesis
  proof (cases "va + len = r_va l + r_size l")
    case True
    then have "unat va + unat len = r_end l" using e we by simp
    then have "range_at s i va len" using o assms(7) unfolding range_at_def by (intro exI [of _ xs] exI [of _ "ms @ [l]"] exI [of _ ys]) simp
    then show ?thesis using True f j vm_same_refl [OF assms(3)] by (simp add: split_last_def io_bind_def get_regions_def io_ret_def)
  next
    case False
    have "unat va + unat len \<noteq> r_end l" using False e we by (metis word_unat_eq_iff)
    then have lt: "r_beg l < unat (va + len)" "unat (va + len) < r_end l" using o(4,5) e by simp_all
    have al: "unat (va + len) mod 4096 = 0" using e assms(4,5) by (simp add: mod_add_eq [symmetric])
    have ok: "region_ok l" using chain_region_ok [OF c, of l] by simp
    note p = parts [OF ok lt al]
    have closed: "range_at s1 i va len" if "um_regions s1 = (xs @ ms) @ lower_part (va + len) l # upper_part (va + len) l # ys" for s1
    proof -
      have "um_regions s1 = xs @ (ms @ [lower_part (va + len) l]) @ (upper_part (va + len) l # ys)" using that by simp
      moreover have "touching (unat va) (ms @ [lower_part (va + len) l]) (unat va + unat len)"
        using o(3) p(3,4) e by (simp add: touching_snoc)
      ultimately show ?thesis unfolding range_at_def using o(2) assms(7) by blast
    qed
    have run: "split_last pl i (va + len - 1) (va + len) s = io_bind (split_vm_region pl (length (xs @ ms)) (va + len)) (\<lambda>_. io_ret i) s"
      using False f j by (simp add: split_last_def io_bind_def get_regions_def)
    from split_vm_region_result [OF rs assms(3) lt al] show ?thesis
      unfolding run using closed
      by (cases "split_vm_region pl (length (xs @ ms)) (va + len) s"; cases "fst (split_vm_region pl (length (xs @ ms)) (va + len) s)")
        (auto simp: io_bind_def io_ret_def)
  qed
qed

text \<open>\<open>split_vm_range\<close> is the composition of both steps after its tests.\<close>

lemma split_vm_range_steps:
  "split_vm_range pl va len cmp s =
     (if (va OR len) AND SMALL_PAGE_MASK \<noteq> 0 then io_fail TEE_ERROR_BAD_PARAMETERS s
      else case add_overflow va len of
        None \<Rightarrow> io_fail TEE_ERROR_BAD_PARAMETERS s
      | Some end_va \<Rightarrow> (case find_vm_region (um_regions s) va of
            None \<Rightarrow> io_fail TEE_ERROR_BAD_PARAMETERS s
          | Some i \<Rightarrow>
              if \<not> va_range_is_contiguous (um_regions s) i va len cmp then io_fail TEE_ERROR_BAD_PARAMETERS s
              else io_bind (split_first pl (um_regions s) i va) (\<lambda>i0. split_last pl i0 (va + len - 1) end_va) s))"
  by (simp add: split_vm_range_def split_first_def split_last_def io_bind_def get_regions_def split: option.split)

lemma split_vm_range_result:
  assumes "platform_ok pl" and "vm_wf pl (um_regions s)" and "0 < unat len"
  shows "case split_vm_range pl va len cmp s of
      (Ok i, s1) \<Rightarrow> vm_same pl s s1 \<and> range_at s1 i va len \<and> unat va mod 4096 = 0 \<and> unat len mod 4096 = 0
    | (Fail e, s1) \<Rightarrow> vm_same pl s s1
    | (Stuck, s1) \<Rightarrow> False"
proof (cases "(va OR len) AND SMALL_PAGE_MASK = 0 \<and> add_overflow va len \<noteq> None \<and> (\<exists>i. find_vm_region (um_regions s) va = Some i \<and>
    va_range_is_contiguous (um_regions s) i va len cmp)")
  case False
  then have "\<exists>e. split_vm_range pl va len cmp s = (Fail e, s)"
    by (auto simp: split_vm_range_steps io_fail_def split: option.split)
  then show ?thesis using vm_same_refl [OF assms(2)] by auto
next
  case True
  then have al: "unat va mod 4096 = 0" "unat len mod 4096 = 0" by (simp_all only: or_mask_zero flip: mask_zero_iff)
  obtain e i where e: "add_overflow va len = Some e" and i: "find_vm_region (um_regions s) va = Some i"
      and k: "va_range_is_contiguous (um_regions s) i va len cmp" using True by blast
  have lt: "unat va + unat len < 2 ^ 64" "e = va + len" using e by (simp_all add: add_overflow_Some)
  have c: "chain (unat (pl_va_base pl)) (um_regions s) (range_end pl)" using assms(2) by (simp add: vm_wf_def range_end_def)
  obtain xs ms l ys where f: "um_regions s = xs @ (ms @ [l]) @ ys" "i = length xs" "r_beg (um_regions s ! i) \<le> unat va"
      "unat va < r_end (um_regions s ! i)" "touching (r_beg (um_regions s ! i)) (ms @ [l]) (r_end l)"
      "r_beg l < unat va + unat len" "unat va + unat len \<le> r_end l"
    using range_regions [OF i k c platform_range [OF assms(1)] assms(3)] by metis
  have run: "split_vm_range pl va len cmp s = io_bind (split_first pl (um_regions s) i va) (\<lambda>i0. split_last pl i0 (va + len - 1) (va + len)) s"
    using True e i k lt(2) by (simp add: split_vm_range_steps)
  have first: "case split_first pl (um_regions s) i va s of
      (Ok i0, s1) \<Rightarrow> vm_same pl s s1 \<and> range_open s1 i0 va len
    | (Fail e, s1) \<Rightarrow> vm_same pl s s1
    | (Stuck, s1) \<Rightarrow> False"
    unfolding f(2) by (rule split_first_result [OF f(1) assms(2) f(3-5)[unfolded f(2)] f(6,7) al(1) assms(3)])
  show ?thesis
  proof (cases "split_first pl (um_regions s) i va s")
    case (Pair r s1)
    show ?thesis
    proof (cases r)
      case (Ok i0)
      then have s1: "vm_same pl s s1" "range_open s1 i0 va len" using first Pair by simp_all
      have "vm_wf pl (um_regions s1)" using s1(1) by (simp add: vm_same_def)
      from split_last_result [OF assms(1) s1(2) this al assms(3) lt(1)] show ?thesis
        unfolding run io_bind_step [where m = "split_first pl (um_regions s) i va", OF Pair[unfolded Ok]]
        using vm_same_trans [OF s1(1)] al
        by (cases "split_last pl i0 (va + len - 1) (va + len) s1"; cases "fst (split_last pl i0 (va + len - 1) (va + len) s1)") auto
    next
      case (Fail e)
      then show ?thesis unfolding run using Pair first by (simp add: io_bind_def)
    next
      case Stuck
      then show ?thesis using Pair first by simp
    qed
  qed
qed

section \<open>Merging\<close>

lemma merge_two:
  assumes "region_ok r" and "region_ok q" and "r_end r = r_beg q" and "r_end q < 2 ^ 64"
    and "r_mobj r = r_mobj q" and "r_flags r = r_flags q" and "r_attr r = r_attr q" and "r_offset r + r_size r = r_offset q"
  shows "region_ok (r\<lparr>r_size := r_size r + r_size q\<rparr>)" and "r_beg (r\<lparr>r_size := r_size r + r_size q\<rparr>) = r_beg r"
    and "r_end (r\<lparr>r_size := r_size r + r_size q\<rparr>) = r_end q"
    and "vm_shows (r\<lparr>r_size := r_size r + r_size q\<rparr> # rs) a = vm_shows (r # q # rs) a"
proof -
  have sz: "unat (r_size r + r_size q) = unat (r_size r) + unat (r_size q)"
    using assms(3,4) by (subst unat_add_exact) (simp_all add: r_beg_def r_end_def)
  have off: "unat (r_offset q) = unat (r_offset r) + unat (r_size r)"
    using assms(1) unfolding assms(8) [symmetric] by (subst unat_add_exact) (simp_all add: region_ok_def)
  show b: "r_beg (r\<lparr>r_size := r_size r + r_size q\<rparr>) = r_beg r" by (simp add: r_beg_def)
  show e: "r_end (r\<lparr>r_size := r_size r + r_size q\<rparr>) = r_end q" using sz assms(3) by (simp add: r_beg_def r_end_def)
  show "region_ok (r\<lparr>r_size := r_size r + r_size q\<rparr>)"
    using assms(1,2) sz off by (auto simp: region_ok_def r_beg_def mod_add_eq [symmetric])
  show "vm_shows (r\<lparr>r_size := r_size r + r_size q\<rparr> # rs) a = vm_shows (r # q # rs) a"
    using assms(3,5-7) off b e by (auto simp: r_beg_def r_end_def)
qed

lemma merge_from_same:
  assumes "merge_from va end_va rs = (rs1, puts)" and "chain lo rs hi" and "hi < 2 ^ 64"
  shows "chain lo rs1 hi \<and> vm_shows rs1 = vm_shows rs \<and> (rs \<noteq> [] \<longrightarrow> rs1 \<noteq> []) \<and>
    (\<forall>m. length (filter (\<lambda>r. r_mobj r = m) rs) = length (filter (\<lambda>r. r_mobj r = m) rs1) + length (filter (\<lambda>p. p = m) puts))"
  using assms
proof (induction va end_va rs arbitrary: rs1 puts lo rule: merge_from.induct)
  case (3 va end_va r q rs)
  have e: "unat (r_va r + r_size r) = r_end r" using chain_word_end [OF 3(5) 3(6), of r] by simp
  have c: "region_ok r" "lo \<le> r_beg r" "chain (r_end r) (q # rs) hi" "region_ok q" "r_end r \<le> r_beg q" "chain (r_end q) rs hi"
    using 3(5) by simp_all
  have keep: ?case if "merge_from va end_va (q # rs) = (rs2, puts)" "rs1 = r # rs2"
      "chain (r_end r) rs2 hi \<and> vm_shows rs2 = vm_shows (q # rs) \<and> (q # rs \<noteq> [] \<longrightarrow> rs2 \<noteq> []) \<and>
        (\<forall>m. length (filter (\<lambda>r. r_mobj r = m) (q # rs)) = length (filter (\<lambda>r. r_mobj r = m) rs2) + length (filter (\<lambda>p. p = m) puts))" for rs2
    using that c by (auto simp: fun_eq_iff)
  let ?differ = "r_va r + r_size r \<noteq> r_va q \<or> r_mobj r \<noteq> r_mobj q \<or> r_flags r \<noteq> r_flags q \<or> r_attr r \<noteq> r_attr q \<or>
    r_offset r + r_size r \<noteq> r_offset q"
  consider (early) "r_va r + r_size r < va" | (past) "\<not> r_va r + r_size r < va" "r_va r > end_va"
    | (differ) "\<not> r_va r + r_size r < va" "\<not> r_va r > end_va" "?differ"
    | (merge) "\<not> r_va r + r_size r < va" "\<not> r_va r > end_va" "\<not> ?differ" by blast
  then show ?case
  proof cases
    case early
    then obtain rs2 where m: "merge_from va end_va (q # rs) = (rs2, puts)" "rs1 = r # rs2"
      using 3(4) by (auto split: prod.splits)
    show ?thesis by (rule keep [OF m]) (rule 3(1) [OF early m(1) c(3) 3(6)])
  next
    case past
    then show ?thesis using 3(4,5) by simp
  next
    case differ
    then obtain rs2 where m: "merge_from va end_va (q # rs) = (rs2, puts)" "rs1 = r # rs2"
      using 3(4) by (auto split: prod.splits)
    show ?thesis by (rule keep [OF m]) (rule 3(2) [OF differ m(1) c(3) 3(6)])
  next
    case merge
    let ?r = "r\<lparr>r_size := r_size r + r_size q\<rparr>"
    obtain puts2 where m: "merge_from va end_va (?r # rs) = (rs1, puts2)" "puts = r_mobj q # puts2"
      using 3(4) merge by (auto split: prod.splits)
    have hi: "r_end q < 2 ^ 64" using chain_le [OF c(6)] 3(6) by simp
    have t: "r_end r = r_beg q" using e merge(3) by (simp add: r_beg_def)
    have f: "r_mobj r = r_mobj q" "r_flags r = r_flags q" "r_attr r = r_attr q" "r_offset r + r_size r = r_offset q"
      using merge(3) by simp_all
    note two = merge_two [OF c(1,4) t hi f]
    have "chain lo (?r # rs) hi" using two c(2,6) by simp
    from 3(3) [OF merge m(1) this 3(6)] have i: "chain lo rs1 hi" "vm_shows rs1 = vm_shows (?r # rs)" "rs1 \<noteq> []"
        "length (filter (\<lambda>r. r_mobj r = n) (?r # rs)) = length (filter (\<lambda>r. r_mobj r = n) rs1) + length (filter (\<lambda>p. p = n) puts2)" for n
      by (simp_all del: vm_shows.simps filter.simps)
    have "length (filter (\<lambda>r. r_mobj r = n) (r # q # rs)) = length (filter (\<lambda>r. r_mobj r = n) rs1) + length (filter (\<lambda>p. p = n) puts)" for n
      using i(4) [of n] f(1) m(2) by (cases "r_mobj q = n") simp_all
    moreover have "vm_shows rs1 = vm_shows (r # q # rs)" unfolding i(2) by (rule ext) (rule two(4))
    ultimately show ?thesis using i(1,3) by simp
  qed
qed simp_all

lemma for_each_put:
  "for_each mobj_put ms s = (Ok (), s\<lparr>um_refs := \<lambda>m. if m = 0 then um_refs s 0 else um_refs s m - int (length (filter (\<lambda>p. p = m) ms))\<rparr>)"
proof (induction ms arbitrary: s)
  case Nil
  have "(\<lambda>m. if m = 0 then um_refs s 0 else um_refs s m) = um_refs s" by auto
  then show ?case by (simp add: io_ret_def cong: if_cong)
next
  case (Cons p ms)
  have st: "mobj_put p s = (Ok (), snd (mobj_put p s))" by (simp add: mobj_put_def)
  show ?case
    unfolding for_each.simps io_bind_step [where m = "mobj_put p", OF st] Cons.IH
    by (auto simp: mobj_put_def fun_eq_iff intro!: user_mode_ctx.equality)
qed

lemma merge_vm_range_result:
  assumes "platform_ok pl" and "vm_wf pl (um_regions s)" and "um_regions s \<noteq> []" and "unat va + unat len < 2 ^ 64"
  shows "\<exists>s1. merge_vm_range va len s = (Ok (), s1) \<and> vm_same pl s s1"
proof -
  obtain rs1 puts where m: "merge_from va (va + len) (um_regions s) = (rs1, puts)" by (cases "merge_from va (va + len) (um_regions s)")
  have f: "chain (unat (pl_va_base pl)) rs1 (range_end pl)" "vm_shows rs1 = vm_shows (um_regions s)"
      "length (filter (\<lambda>r. r_mobj r = n) (um_regions s)) = length (filter (\<lambda>r. r_mobj r = n) rs1) + length (filter (\<lambda>p. p = n) puts)" for n
    using merge_from_same [OF m, of "unat (pl_va_base pl)" "range_end pl"] assms(2) platform_range [OF assms(1)]
    by (auto simp: vm_wf_def range_end_def)
  have o: "add_overflow va len = Some (va + len)" using assms(4) by (simp add: add_overflow_Some)
  obtain s1 where s1: "merge_vm_range va len s = (Ok (), s1)" "um_regions s1 = rs1"
      "um_refs s1 = (\<lambda>m. if m = 0 then um_refs s 0 else um_refs s m - int (length (filter (\<lambda>p. p = m) puts)))"
    using o m assms(3) by (simp add: merge_vm_range_def io_bind_def vm_event_def get_regions_def set_regions_def for_each_put cong: if_cong)
  have "vm_same pl s s1"
    unfolding vm_same_def using s1(2,3) f by (auto simp: vm_wf_def range_end_def vm_balance_def fun_eq_iff)
  then show ?thesis using s1(1) by blast
qed

end
