(* ===== verification/VmRange.thy ===== *)
theory VmRange
  imports VmSplit
begin

text \<open>
  The contracts of the operations on ranges: \<open>vm_unmap\<close> shows nothing in its range and changes nothing else,
  \<open>vm_set_prot\<close> changes the protection bits of its range alone, and \<open>vm_clean_param\<close> removes what was mapped for an
  invocation.
\<close>

section \<open>Taking regions out\<close>

lemma rem_um_region_run: "\<exists>s1. rem_um_region pl i s = (Ok (), s1) \<and> um_regions s1 = um_regions s \<and> um_refs s1 = um_refs s"
proof (cases "rem_um_region pl i s")
  case (Pair r s1)
  have "r = Ok ()"
    using Pair by (auto simp: rem_um_region_def io_bind_def get_regions_def vm_event_def io_ret_def Let_def split: prod.splits if_splits)
  then show ?thesis using Pair quietD [OF quiet_calls(7) Pair] by simp
qed

lemma drop_region:
  assumes "um_regions s = xs @ r # ys" and "vm_wf pl (um_regions s)"
  obtains s1 where "\<And>k :: 'a vm. io_bind (rem_um_region pl (length xs)) (\<lambda>_. io_bind (umap_remove_region (length xs)) (\<lambda>_. k)) s = k s1"
    and "um_regions s1 = xs @ ys" and "vm_wf pl (um_regions s1)" and "vm_balance s1 = vm_balance s"
proof -
  obtain s0 where s0: "rem_um_region pl (length xs) s = (Ok (), s0)" "um_regions s0 = um_regions s" "um_refs s0 = um_refs s"
    using rem_um_region_run by blast
  let ?s1 = "snd (mobj_put (r_mobj r) (s0\<lparr>um_regions := xs @ ys\<rparr>))"
  have run: "umap_remove_region (length xs) s0 = (Ok (), ?s1)"
    using assms(1) s0(2) by (simp add: umap_remove_region_run remove_at_middle)
  have regs: "um_regions ?s1 = xs @ ys" by (simp add: mobj_put_def)
  show thesis
  proof (rule that [of ?s1])
    show "io_bind (rem_um_region pl (length xs)) (\<lambda>_. io_bind (umap_remove_region (length xs)) (\<lambda>_. k)) s = k ?s1" for k :: "'a vm"
      by (simp only: io_bind_step [where m = "rem_um_region pl (length xs)", OF s0(1)] io_bind_step [where m = "umap_remove_region (length xs)", OF run])
    show "um_regions ?s1 = xs @ ys" by (rule regs)
    have le: "r_beg r \<le> r_end r" by (simp add: r_beg_def r_end_def)
    have c: "chain (unat (pl_va_base pl)) xs (r_beg r)" "chain (r_end r) ys (range_end pl)"
      using assms by (simp_all add: vm_wf_def chain_split range_end_def)
    have "chain (r_beg r) ys (range_end pl)" by (rule chain_mono [OF c(2) le order_refl])
    then show "vm_wf pl (um_regions ?s1)"
      unfolding regs vm_wf_def chain_append range_end_def [symmetric] using c(1) by blast
    show "vm_balance ?s1 = vm_balance s"
      using assms(1) s0(3) by (intro ext) (simp add: vm_balance_def mobj_put_def)
  qed
qed

lemma chain_touching: "chain m rs n \<Longrightarrow> touching b rs e \<Longrightarrow> rs \<noteq> [] \<Longrightarrow> m \<le> b \<and> e \<le> n"
proof (induction rs arbitrary: m b)
  case (Cons r rs)
  show ?case
  proof (cases "rs = []")
    case True
    then show ?thesis using Cons.prems by auto
  next
    case False
    then have "e \<le> n" using Cons.IH [of "r_end r" "r_end r"] Cons.prems by simp
    then show ?thesis using Cons.prems by simp
  qed
qed simp

lemma vm_shows_without:
  assumes "chain lo (xs @ ms @ ys) hi" and "touching b ms e" and "ms \<noteq> []"
  shows "vm_shows (xs @ ys) a = (if b \<le> a \<and> a < e then None else vm_shows (xs @ ms @ ys) a)"
    and "b \<le> a \<Longrightarrow> a < e \<Longrightarrow> vm_shows (xs @ ms @ ys) a = vm_shows ms a \<and> vm_shows ms a \<noteq> None"
    and "chain lo (xs @ ys) hi"
proof -
  obtain m n where c: "chain lo xs m" "chain m ms n" "chain n ys hi" using assms(1) by (auto simp: chain_append)
  have le: "m \<le> b" "e \<le> n" using chain_touching [OF c(2) assms(2,3)] by simp_all
  have mn: "m \<le> n" using chain_le [OF c(2)] .
  have none: "vm_shows (xs @ ys) a = None" if "b \<le> a" "a < e" using that le by (intro vm_shows_gap [OF c(1,3)]) simp_all
  have out: "vm_shows ms a = None" if "\<not> (b \<le> a \<and> a < e)" by (rule touching_shows_outside [OF assms(2) that])
  show "vm_shows (xs @ ys) a = (if b \<le> a \<and> a < e then None else vm_shows (xs @ ms @ ys) a)"
    using none out by (simp add: vm_shows_append split: option.split)
  show "vm_shows (xs @ ms @ ys) a = vm_shows ms a \<and> vm_shows ms a \<noteq> None" if "b \<le> a" "a < e"
    using that vm_shows_None [OF c(1), of a] le touching_shows [OF assms(2) that] by (auto simp: vm_shows_append split: option.split)
  show "chain lo (xs @ ys) hi" using c mn by (auto simp: chain_append intro: chain_mono)
qed

section \<open>Unmapping\<close>

lemma unmap_regions_result:
  assumes "um_regions s = xs @ ms @ ys" and "vm_wf pl (um_regions s)" and "platform_ok pl" and "ms \<noteq> []"
    and "touching b ms (unat end_va)"
  shows "\<exists>s1. unmap_regions pl end_va (length xs) (ms @ ys) s = (Ok (), s1) \<and> um_regions s1 = xs @ ys \<and>
    vm_wf pl (um_regions s1) \<and> vm_balance s1 = vm_balance s"
  using assms
proof (induction ms arbitrary: s b)
  case (Cons r ms)
  have rs: "um_regions s = xs @ r # ms @ ys" using Cons.prems(1) by simp
  obtain s1 where s1: "\<And>k :: unit vm. io_bind (rem_um_region pl (length xs)) (\<lambda>_. io_bind (umap_remove_region (length xs)) (\<lambda>_. k)) s = k s1"
      "um_regions s1 = xs @ ms @ ys" "vm_wf pl (um_regions s1)" "vm_balance s1 = vm_balance s"
    using drop_region [OF rs Cons.prems(2)] by metis
  have c: "chain (unat (pl_va_base pl)) (um_regions s) (range_end pl)" using Cons.prems(2) by (simp add: vm_wf_def range_end_def)
  have e: "unat (r_va r + r_size r) = r_end r" using chain_word_end [OF c platform_range [OF assms(3)], of r] rs by simp
  show ?case
  proof (cases "ms = []")
    case True
    then have "r_end r = unat end_va" using Cons.prems(5) by simp
    then have "r_va r + r_size r = end_va" using e by (metis word_unat_eq_iff)
    then show ?thesis using True s1 by (simp add: io_ret_def)
  next
    case False
    then obtain q ms2 where q: "ms = q # ms2" by (cases ms) simp_all
    have "region_ok q" using chain_region_ok [OF c, of q] rs q by simp
    then have "r_beg q < r_end q" by (simp add: region_ok_def r_beg_def r_end_def)
    moreover have t: "touching (r_end r) ms (unat end_va)" using Cons.prems(5) by simp
    ultimately have "r_end r < unat end_va" using touching_le [of "r_end q" ms2 "unat end_va"] q by simp
    then have "r_va r + r_size r \<noteq> end_va" using e by auto
    then have "unmap_regions pl end_va (length xs) ((r # ms) @ ys) s = unmap_regions pl end_va (length xs) (ms @ ys) s1"
      using q s1(1) by simp
    then show ?thesis using Cons.IH [OF s1(2,3) assms(3) False t] s1(4) by simp
  qed
qed simp

lemma ROUNDUP_OVERFLOW_page:
  assumes "ROUNDUP_OVERFLOW len SMALL_PAGE_SIZE = Some l"
  shows "unat len \<le> unat l" and "unat l mod 4096 = 0"
  using ROUNDUP_granul [OF assms] by (simp_all add: granul_ok_def IS_POWER_OF_TWO_def SMALL_PAGE_SIZE_def)

lemma vm_unmap_result:
  assumes "platform_ok pl" and "vm_wf pl (um_regions s)"
  shows "case vm_unmap pl va len s of
      (Ok u, s1) \<Rightarrow> vm_wf pl (um_regions s1) \<and> vm_balance s1 = vm_balance s \<and>
        (\<exists>l. ROUNDUP_OVERFLOW len SMALL_PAGE_SIZE = Some l \<and>
          (\<forall>a. vm_shows (um_regions s1) a = (if unat va \<le> a \<and> a < unat va + unat l then None else vm_shows (um_regions s) a)) \<and>
          (\<forall>a. unat va \<le> a \<and> a < unat va + unat l \<longrightarrow> vm_shows (um_regions s) a \<noteq> None))
    | (Fail e, s1) \<Rightarrow> vm_same pl s s1
    | (Stuck, s1) \<Rightarrow> False"
proof (cases "\<exists>l. ROUNDUP_OVERFLOW len SMALL_PAGE_SIZE = Some l \<and> l \<noteq> 0 \<and> va AND SMALL_PAGE_MASK = 0 \<and> add_overflow va l \<noteq> None")
  case False
  then have "\<exists>e. vm_unmap pl va len s = (Fail e, s)"
    by (auto simp: vm_unmap_def io_fail_def split: option.split)
  then show ?thesis using vm_same_refl [OF assms(2)] by auto
next
  case True
  then obtain l end_va where l: "ROUNDUP_OVERFLOW len SMALL_PAGE_SIZE = Some l" "l \<noteq> 0" "va AND SMALL_PAGE_MASK = 0"
      and e: "add_overflow va l = Some end_va" by blast
  have pos: "0 < unat l" using l(2) by (simp add: unat_gt_0)
  have run: "vm_unmap pl va len s = io_bind (split_vm_range pl va l any_region) (\<lambda>i. io_bind get_regions (\<lambda>rs. unmap_regions pl end_va i (drop i rs))) s"
    using l e by (simp add: vm_unmap_def)
  note split = split_vm_range_result [OF assms pos, of va any_region]
  show ?thesis
  proof (cases "split_vm_range pl va l any_region s")
    case (Pair r s1)
    show ?thesis
    proof (cases r)
      case (Ok i)
      then have s1: "vm_same pl s s1" "range_at s1 i va l" using split Pair by simp_all
      obtain xs ms ys where f: "um_regions s1 = xs @ ms @ ys" "i = length xs" "ms \<noteq> []" "touching (unat va) ms (unat va + unat l)"
        using s1(2) unfolding range_at_def by blast
      have wf: "vm_wf pl (um_regions s1)" using s1(1) by (simp add: vm_same_def)
      have t: "touching (unat va) ms (unat end_va)" using f(4) add_overflow_unat [OF e] by simp
      obtain s2 where s2: "unmap_regions pl end_va (length xs) (ms @ ys) s1 = (Ok (), s2)" "um_regions s2 = xs @ ys"
          "vm_wf pl (um_regions s2)" "vm_balance s2 = vm_balance s1"
        using unmap_regions_result [OF f(1) wf assms(1) f(3) t] by blast
      have fin: "vm_unmap pl va len s = (Ok (), s2)"
        unfolding run io_bind_step [where m = "split_vm_range pl va l any_region", OF Pair[unfolded Ok]]
        using f(1,2) s2(1) by (simp add: io_bind_def get_regions_def)
      have c: "chain (unat (pl_va_base pl)) (xs @ ms @ ys) (range_end pl)" using wf f(1) by (simp add: vm_wf_def range_end_def)
      note w = vm_shows_without [OF c f(4,3)]
      have "vm_shows (um_regions s) = vm_shows (xs @ ms @ ys)" "vm_balance s1 = vm_balance s"
        using s1(1) f(1) by (simp_all add: vm_same_def)
      then show ?thesis unfolding fin using s2(2-4) l(1) w(1,2) by simp
    next
      case (Fail e)
      then show ?thesis unfolding run using Pair split by (simp add: io_bind_def)
    next
      case Stuck
      then show ?thesis using Pair split by simp
    qed
  qed
qed

text \<open>
  C16: A successful \<open>vm_unmap\<close> removes exactly the pages of its range, all of which were mapped: nothing is shown there
  afterwards, every other address shows what it did, the list stays well-formed, and the references of the removed regions are
  given back. A refused one may have split a region, which changes nothing that is shown, and no assertion fails.
\<close>

theorem vm_unmap_removes_range:
  assumes "platform_ok pl" and "vm_wf pl (um_regions s)"
  shows "case vm_unmap pl va len s of
      (Ok u, s1) \<Rightarrow> vm_wf pl (um_regions s1) \<and> vm_balance s1 = vm_balance s \<and>
        (\<exists>l. ROUNDUP_OVERFLOW len SMALL_PAGE_SIZE = Some l \<and>
          (\<forall>a. vm_shows (um_regions s1) a = (if unat va \<le> a \<and> a < unat va + unat l then None else vm_shows (um_regions s) a)) \<and>
          (\<forall>a. unat va \<le> a \<and> a < unat va + unat l \<longrightarrow> vm_shows (um_regions s) a \<noteq> None))
    | (Fail e, s1) \<Rightarrow> vm_same pl s s1
    | (Stuck, s1) \<Rightarrow> False"
  by (rule vm_unmap_result [OF assms])

theorem vm_unmap_removes_range_witness:
  "vm_shows (um_regions (snd (vm_unmap sample_platform 0x40001000 0x2800 sample_ctx))) 0x40001000 = None \<and>
   vm_shows (um_regions (snd (vm_unmap sample_platform 0x40001000 0x2800 sample_ctx))) 0x40004000 = Some (1, 0x4000, 0x1891, 0)"
proof -
  let ?m = "vm_unmap sample_platform 0x40001000 0x2800 sample_ctx"
  have r: "fst ?m = Ok ()" by code_simp
  obtain s1 where s1: "?m = (Ok (), s1)" using r by (cases ?m) simp
  have l: "ROUNDUP_OVERFLOW 0x2800 SMALL_PAGE_SIZE = Some 0x3000" by code_simp
  show ?thesis
    using vm_unmap_removes_range [OF sample_ok, where va = "0x40001000" and len = "0x2800"] unfolding s1
    by (simp add: l) (simp add: sample_ctx_def r_beg_def r_end_def)
qed

section \<open>Changing the protection\<close>

lemma new_prot_simps [simp]:
  "r_beg (new_prot p r) = r_beg r" "r_end (new_prot p r) = r_end r" "r_mobj (new_prot p r) = r_mobj r"
  "r_offset (new_prot p r) = r_offset r" "r_flags (new_prot p r) = r_flags r" "region_ok (new_prot p r) = region_ok r"
  "r_attr (new_prot p r) = (r_attr r AND NOT TEE_MATTR_PROT_MASK) OR p"
  by (simp_all add: new_prot_def r_beg_def r_end_def region_ok_def)

lemma new_prot_list:
  "chain lo (map (new_prot p) rs) hi = chain lo rs hi" "touching b (map (new_prot p) rs) e = touching b rs e"
  "vm_shows (map (new_prot p) rs) a = map_option (\<lambda>(m, offs, attr, flags). (m, offs, (attr AND NOT TEE_MATTR_PROT_MASK) OR p, flags)) (vm_shows rs a)"
  by (induction rs arbitrary: lo b) auto

lemma chain_replace: "chain lo (xs @ ms @ ys) hi \<Longrightarrow> (\<And>m n. chain m ms n \<Longrightarrow> chain m ns n) \<Longrightarrow> chain lo (xs @ ns @ ys) hi"
  by (auto simp: chain_append)

text \<open>The loops of \<open>vm_set_prot\<close> run over the regions of the range.\<close>

lemma takeWhile_range:
  assumes "chain lo (ms @ ys) hi" and "hi < 2 ^ 64" and "touching b ms (unat end_va)" and "ms \<noteq> []"
  shows "takeWhile (in_range end_va) (ms @ ys) = ms"
proof -
  have c: "\<exists>m n. chain m ms n \<and> chain n ys hi" using assms(1) by (auto simp: chain_append)
  have inr: "in_range end_va r" if "r \<in> set ms" for r
  proof -
    have "r_end r \<le> unat end_va" using assms(3) that
    proof (induction ms arbitrary: b)
      case (Cons x ms)
      then show ?case using touching_le [of "r_end x" ms "unat end_va"] by auto
    qed simp
    moreover have "unat (r_va r + r_size r) = r_end r" using chain_word_end [OF assms(1,2), of r] that by simp
    ultimately show ?thesis by (simp add: in_range_def not_less word_le_nat_alt)
  qed
  have out: "\<not> in_range end_va y" if "ys = y # ys2" "ms \<noteq> []" for y ys2
  proof -
    obtain m n where mn: "chain m ms n" "chain n ys hi" using c by blast
    have "unat end_va \<le> n" using chain_touching [OF mn(1) assms(3) that(2)] by simp
    moreover have "n \<le> r_beg y" "region_ok y" using mn(2) that(1) by simp_all
    ultimately have "unat end_va < r_end y" by (simp add: region_ok_def r_beg_def r_end_def)
    moreover have "unat (r_va y + r_size y) = r_end y" using chain_word_end [OF assms(1,2), of y] that by simp
    ultimately show ?thesis by (simp add: in_range_def word_less_nat_alt)
  qed
  have gen: "takeWhile P (ms @ ys) = ms" if "\<forall>r\<in>set ms. P r" "\<And>y zs. ys = y # zs \<Longrightarrow> \<not> P y" for P
    using that by (cases ys) (simp_all add: takeWhile_append)
  show ?thesis using inr out assms(4) by (intro gen) auto
qed

lemma for_each_quiet:
  assumes "\<And>x. quiet (f x)"
  shows "quiet (for_each f xs)"
  using assms unfolding quiet_def by (rule preserves_for_each)

lemma for_each_ok:
  assumes "\<And>x s. x \<in> set xs \<Longrightarrow> fst (f x s) = Ok ()"
  shows "fst (for_each f xs s) = Ok ()"
  using assms
proof (induction xs arbitrary: s)
  case (Cons x xs)
  obtain s1 where "f x s = (Ok (), s1)" using Cons.prems [of x s] by (cases "f x s") simp
  then show ?case using Cons by (simp add: io_bind_def)
qed (simp add: io_ret_def)

lemma show_new_prot_ok: "fst (show_new_prot pl r s) = Ok ()"
  by (simp add: show_new_prot_def vm_defs)

lemma sync_new_prot_result: "fst (sync_new_prot pl w p r s) = Ok () \<or> (fst (sync_new_prot pl w p r s) = Stuck \<and> mo_is_paged pl (r_mobj r))"
  by (simp add: sync_new_prot_def vm_defs vm_call_def)

lemma for_each_ok_or_stuck:
  assumes "\<And>x s. x \<in> set xs \<Longrightarrow> fst (f x s) = Ok () \<or> (fst (f x s) = Stuck \<and> P x)"
  shows "fst (for_each f xs s) = Ok () \<or> (fst (for_each f xs s) = Stuck \<and> (\<exists>x\<in>set xs. P x))"
  using assms
proof (induction xs arbitrary: s)
  case (Cons x xs)
  obtain r s1 where f: "f x s = (r, s1)" by (cases "f x s")
  from Cons.prems [of x s] f consider "r = Ok ()" | "r = Stuck" "P x" by auto
  then show ?case
  proof cases
    case 1
    then show ?thesis using Cons.IH [of s1] Cons.prems f by (auto simp: io_bind_def)
  qed (use f in \<open>simp add: io_bind_def\<close>)
qed (simp add: io_ret_def)

lemma vm_shows_member:
  assumes "chain lo rs hi" and "x \<in> set rs" and "r_beg x \<le> a" and "a < r_end x"
  shows "vm_shows rs a = Some (r_mobj x, unat (r_offset x) + (a - r_beg x), r_attr x, r_flags x)"
proof -
  obtain xs ys where rs: "rs = xs @ x # ys" using assms(2) by (auto dest: split_list)
  then have "chain lo xs (r_beg x)" "chain (r_end x) ys hi" using assms(1) by (simp_all add: chain_split)
  then show ?thesis using assms(3,4) rs by (simp add: vm_shows_insert)
qed

text \<open>What follows the change of the list.\<close>

definition finish_set_prot :: "vm_platform \<Rightarrow> 64 word \<Rightarrow> 64 word \<Rightarrow> 16 word \<Rightarrow> bool \<Rightarrow> bool \<Rightarrow> vm_region list \<Rightarrow> unit vm" where
  "finish_set_prot pl va len prot was_writeable need_sync regs1 =
     io_bind (for_each (show_new_prot pl) regs1) (\<lambda>_.
     io_bind (for_each (sync_new_prot pl was_writeable prot) regs1) (\<lambda>_.
     io_bind (if need_sync \<and> was_writeable then vm_event Icache_invalidate else io_ret ()) (\<lambda>_.
     merge_vm_range va len)))"

lemma finish_set_prot_result:
  assumes "platform_ok pl" and "vm_wf pl (um_regions s)" and "um_regions s \<noteq> []" and "unat va + unat len < 2 ^ 64"
  shows "case finish_set_prot pl va len prot w n regs s of
      (Ok u, s1) \<Rightarrow> vm_same pl s s1
    | (Fail e, s1) \<Rightarrow> False
    | (Stuck, s1) \<Rightarrow> \<exists>r\<in>set regs. mo_is_paged pl (r_mobj r)"
proof -
  let ?show = "for_each (show_new_prot pl) regs" let ?sync = "for_each (sync_new_prot pl w prot) regs"
  let ?ic = "if n \<and> w then vm_event Icache_invalidate else io_ret ()"
  have q: "quiet ?show" "quiet ?sync" "quiet ?ic" by (auto intro!: for_each_quiet quiet_calls quiet_basic)
  obtain s1 where s1: "?show s = (Ok (), s1)"
    using for_each_ok [of regs "show_new_prot pl" s] show_new_prot_ok by (cases "?show s") auto
  obtain r2 s2 where s2: "?sync s1 = (r2, s2)" by (cases "?sync s1")
  have r2: "r2 = Ok () \<or> (r2 = Stuck \<and> (\<exists>r\<in>set regs. mo_is_paged pl (r_mobj r)))"
    using for_each_ok_or_stuck [of regs "sync_new_prot pl w prot" "\<lambda>r. mo_is_paged pl (r_mobj r)" s1] sync_new_prot_result s2 by auto
  obtain s3 where s3: "?ic s2 = (Ok (), s3)" by (cases "n \<and> w") (auto simp: vm_event_def io_ret_def)
  have same: "um_regions s3 = um_regions s" "um_refs s3 = um_refs s"
    using quietD [OF q(1) s1] quietD [OF q(2) s2] quietD [OF q(3) s3] by simp_all
  have m3: "vm_wf pl (um_regions s3)" "um_regions s3 \<noteq> []" using same assms(2,3) by simp_all
  obtain s4 where s4: "merge_vm_range va len s3 = (Ok (), s4)" "vm_same pl s3 s4"
    using merge_vm_range_result [OF assms(1) m3 assms(4)] by blast
  have same4: "vm_same pl s s4" by (rule vm_same_trans [OF vm_same_quiet [OF assms(2) same] s4(2)])
  have run: "finish_set_prot pl va len prot w n regs s =
      io_bind ?sync (\<lambda>_. io_bind ?ic (\<lambda>_. merge_vm_range va len)) s1"
    unfolding finish_set_prot_def by (rule io_bind_step [where m = ?show, OF s1])
  from r2 show ?thesis
  proof
    assume "r2 = Ok ()"
    note ok = s2[unfolded this]
    have "finish_set_prot pl va len prot w n regs s = (Ok (), s4)"
      unfolding run io_bind_step [where m = ?sync, OF ok] io_bind_step [where m = ?ic, OF s3] by (rule s4(1))
    then show ?thesis using same4 by simp
  next
    assume "r2 = Stuck \<and> (\<exists>r\<in>set regs. mo_is_paged pl (r_mobj r))"
    then show ?thesis unfolding run using s2 by (simp add: io_bind_def)
  qed
qed

lemma vm_set_prot_result:
  assumes "platform_ok pl" and "vm_wf pl (um_regions s)"
  shows "case vm_set_prot pl va len prot s of
      (Ok u, s1) \<Rightarrow> vm_wf pl (um_regions s1) \<and> vm_balance s1 = vm_balance s \<and>
        (\<forall>a. vm_shows (um_regions s1) a = (if unat va \<le> a \<and> a < unat va + unat len
           then map_option (\<lambda>(m, offs, attr, flags). (m, offs, (attr AND NOT TEE_MATTR_PROT_MASK) OR ucast prot, flags)) (vm_shows (um_regions s) a)
           else vm_shows (um_regions s) a)) \<and>
        (\<forall>a. unat va \<le> a \<and> a < unat va + unat len \<longrightarrow> vm_shows (um_regions s) a \<noteq> None)
    | (Fail e, s1) \<Rightarrow> vm_same pl s s1
    | (Stuck, s1) \<Rightarrow> \<exists>a m x. unat va \<le> a \<and> a < unat va + unat len \<and> vm_shows (um_regions s) a = Some (m, x) \<and> mo_is_paged pl m"
proof (cases "prot AND NOT (ucast TEE_MATTR_PROT_MASK) \<noteq> 0 \<or> len = 0")
  case True
  then have "vm_set_prot pl va len prot s = (Fail TEE_ERROR_BAD_PARAMETERS, s)" by (simp only: vm_set_prot_def if_True io_fail_def)
  then show ?thesis using vm_same_refl [OF assms(2)] by simp
next
  case False
  then have pos: "0 < unat len" by (simp add: unat_gt_0)
  let ?split = "split_vm_range pl va len any_region"
  note split = split_vm_range_result [OF assms pos, of va any_region]
  show ?thesis
  proof (cases "?split s")
    case (Pair r s1)
    show ?thesis
    proof (cases r)
      case (Ok i)
      then have s1: "vm_same pl s s1" "range_at s1 i va len" using split Pair by simp_all
      obtain xs ms ys where f: "um_regions s1 = xs @ ms @ ys" "i = length xs" "ms \<noteq> []" "touching (unat va) ms (unat va + unat len)"
          "unat va + unat len < 2 ^ 64"
        using s1(2) unfolding range_at_def by blast
      have e: "unat (va + len) = unat va + unat len" using f(5) by (simp add: unat_add_exact)
      have c: "chain (unat (pl_va_base pl)) (xs @ ms @ ys) (range_end pl)" using s1(1) f(1) by (simp add: vm_same_def vm_wf_def range_end_def)
      obtain m where c2: "chain m (ms @ ys) (range_end pl)" using c unfolding chain_append by blast
      have tw: "takeWhile (in_range (va + len)) (ms @ ys) = ms"
        by (rule takeWhile_range [OF c2 platform_range [OF assms(1)] _ f(3)]) (use f(4) e in simp)
      let ?ns = "map (new_prot (ucast prot)) ms"
      let ?s2 = "s1\<lparr>um_regions := xs @ ?ns @ ys\<rparr>"
      let ?fin = "finish_set_prot pl va len (ucast prot) (list_ex is_writeable ms) (list_ex (\<lambda>r. \<not> mo_is_paged pl (r_mobj r)) ms) ?ns"
      have run: "vm_set_prot pl va len prot s = ?fin ?s2"
        unfolding vm_set_prot_def if_not_P [OF False] io_bind_step [where m = ?split, OF Pair[unfolded Ok]]
        using f(1,2) tw by (simp add: region_binds Let_def finish_set_prot_def)
      have c3: "chain (unat (pl_va_base pl)) (xs @ ?ns @ ys) (range_end pl)"
        by (rule chain_replace [OF c]) (simp add: new_prot_list)
      then have wf2: "vm_wf pl (um_regions ?s2)" by (simp add: vm_wf_def range_end_def)
      have bal2: "vm_balance ?s2 = vm_balance s1"
        using f(1) by (intro ext) (simp add: vm_balance_def filter_map comp_def)
      have t3: "touching (unat va) ?ns (unat va + unat len)" using f(4) by (simp add: new_prot_list)
      have n3: "?ns \<noteq> []" using f(3) by simp
      note w = vm_shows_without [OF c f(4,3)] and w3 = vm_shows_without [OF c3 t3 n3]
      have sh1: "vm_shows (um_regions s) = vm_shows (xs @ ms @ ys)" and bal1: "vm_balance s1 = vm_balance s"
        using s1(1) f(1) by (simp_all add: vm_same_def)
      have sh: "vm_shows (xs @ ?ns @ ys) a = (if unat va \<le> a \<and> a < unat va + unat len
           then map_option (\<lambda>(m, offs, attr, flags). (m, offs, (attr AND NOT TEE_MATTR_PROT_MASK) OR ucast prot, flags)) (vm_shows (xs @ ms @ ys) a)
           else vm_shows (xs @ ms @ ys) a)" for a
        using w(1,2) [of a] w3(1,2) [of a] by (cases "unat va \<le> a \<and> a < unat va + unat len") (auto simp: new_prot_list)
      have fin: "case ?fin ?s2 of (Ok u, s3) \<Rightarrow> vm_same pl ?s2 s3 | (Fail e, s3) \<Rightarrow> False
          | (Stuck, s3) \<Rightarrow> \<exists>r\<in>set ?ns. mo_is_paged pl (r_mobj r)"
        by (rule finish_set_prot_result [OF assms(1) wf2 _ f(5)]) (use f(3) in simp)
      have stuck: "\<exists>a m x. unat va \<le> a \<and> a < unat va + unat len \<and> vm_shows (xs @ ms @ ys) a = Some (m, x) \<and> mo_is_paged pl m"
        if paged: "\<exists>r\<in>set ?ns. mo_is_paged pl (r_mobj r)"
      proof -
        obtain q where q: "q \<in> set ms" "mo_is_paged pl (r_mobj q)" using paged by auto
        have ok: "region_ok q" using chain_region_ok [OF c, of q] q(1) by simp
        then have lt: "r_beg q < r_end q" by (simp add: region_ok_def r_beg_def r_end_def)
        have mem: "vm_shows (xs @ ms @ ys) (r_beg q) = Some (r_mobj q, unat (r_offset q) + (r_beg q - r_beg q), r_attr q, r_flags q)"
          by (rule vm_shows_member [OF c _ order_refl lt]) (use q(1) in simp)
        have "vm_shows ms (r_beg q) \<noteq> None"
        proof -
          obtain m n where "chain m ms n" using c unfolding chain_append by blast
          from vm_shows_member [OF this q(1) order_refl lt] show ?thesis by simp
        qed
        then have "unat va \<le> r_beg q \<and> r_beg q < unat va + unat len" by (metis touching_shows_outside [OF f(4)])
        then show ?thesis using mem q(2) by blast
      qed
      show ?thesis
      proof (cases "?fin ?s2")
        case (Pair r3 s3)
        then show ?thesis
          unfolding run Pair using fin[unfolded Pair] sh w(2) stuck sh1 bal1 bal2 by (cases r3) (auto simp: vm_same_def)
      qed
    next
      case (Fail e)
      then show ?thesis unfolding vm_set_prot_def if_not_P [OF False] using Pair split by (simp add: io_bind_def)
    next
      case Stuck
      then show ?thesis using Pair split by simp
    qed
  qed
qed

text \<open>
  C15: A successful \<open>vm_set_prot\<close> gives every byte of its range, all of which were mapped, the wanted protection bits,
  keeps object, offset, flags and the other attributes, and changes nothing outside. The list stays well-formed, whatever
  was split and merged. A refused one changes nothing that is shown; only the pager can make it panic.
\<close>

theorem vm_set_prot_changes_range:
  assumes "platform_ok pl" and "vm_wf pl (um_regions s)"
  shows "case vm_set_prot pl va len prot s of
      (Ok u, s1) \<Rightarrow> vm_wf pl (um_regions s1) \<and> vm_balance s1 = vm_balance s \<and>
        (\<forall>a. vm_shows (um_regions s1) a = (if unat va \<le> a \<and> a < unat va + unat len
           then map_option (\<lambda>(m, offs, attr, flags). (m, offs, (attr AND NOT TEE_MATTR_PROT_MASK) OR ucast prot, flags)) (vm_shows (um_regions s) a)
           else vm_shows (um_regions s) a)) \<and>
        (\<forall>a. unat va \<le> a \<and> a < unat va + unat len \<longrightarrow> vm_shows (um_regions s) a \<noteq> None)
    | (Fail e, s1) \<Rightarrow> vm_same pl s s1
    | (Stuck, s1) \<Rightarrow> \<exists>a m x. unat va \<le> a \<and> a < unat va + unat len \<and> vm_shows (um_regions s) a = Some (m, x) \<and> mo_is_paged pl m"
  by (rule vm_set_prot_result [OF assms])

theorem vm_set_prot_changes_range_witness:
  "vm_shows (um_regions (snd (vm_set_prot sample_platform 0x40002000 0x2000 0x90 sample_ctx))) 0x40002010 = Some (1, 0x2010, 0x1891, 0) \<and>
   vm_shows (um_regions (snd (vm_set_prot sample_platform 0x40002000 0x2000 0x90 sample_ctx))) 0x40001010 = Some (1, 0x1010, 0x19B1, 0)"
proof -
  let ?m = "vm_set_prot sample_platform 0x40002000 0x2000 0x90 sample_ctx"
  have r: "fst ?m = Ok ()" by code_simp
  obtain s1 where s1: "?m = (Ok (), s1)" using r by (cases ?m) simp
  show ?thesis
    using vm_set_prot_changes_range [OF sample_ok, where va = "0x40002000" and len = "0x2000" and prot = "0x90"] unfolding s1
    by simp (simp add: sample_ctx_def r_beg_def r_end_def TEE_MATTR_PROT_MASK_def)
qed

end
