(* ===== verification/VmMove.thy ===== *)
theory VmMove
  imports VmRange
begin

text \<open>
  The contract of \<open>vm_remap\<close>: the regions of a range leave the list and are put at a new place one after the other, or
  are put back where they were. \<open>relocate\<close> is the list of the moved regions.
\<close>

section \<open>Regions at a new place\<close>

fun relocate :: "64 word \<Rightarrow> vm_region list \<Rightarrow> vm_region list" where
  "relocate va [] = []"
| "relocate va (r # rs) = r\<lparr>r_va := va\<rparr> # relocate (va + r_size r) rs"

lemma relocate_append:
  "relocate va (xs @ ys) = relocate va xs @ relocate (va + (\<Sum>r\<leftarrow>xs. r_size r)) ys"
  by (induction xs arbitrary: va) (simp_all add: add.assoc)

lemma relocate_relocate: "relocate va (relocate v rs @ ys) = relocate va (rs @ ys)"
  by (induction rs arbitrary: va v) simp_all

lemma relocate_props:
  assumes "touching b rs e" and "unat va + (e - b) < 2 ^ 64"
  shows "touching (unat va) (relocate va rs) (unat va + (e - b))"
    and "\<And>d. d < e - b \<Longrightarrow> vm_shows (relocate va rs) (unat va + d) = vm_shows rs (b + d)"
    and "length (filter (\<lambda>r. r_mobj r = m) (relocate va rs)) = length (filter (\<lambda>r. r_mobj r = m) rs)"
  using assms
proof (induction rs arbitrary: b va)
  case (Cons r rs)
  { case 1
    have le: "r_end r \<le> e" "r_beg r = b" using 1 touching_le by auto
    have sz: "r_end r = b + unat (r_size r)" using le by (simp add: r_end_def r_beg_def)
    have v: "unat (va + r_size r) = unat va + unat (r_size r)" using 1(2) le sz by (subst unat_add_exact) simp_all
    have lt: "unat (va + r_size r) + (e - r_end r) < 2 ^ 64" using 1(2) v sz le by simp
    have t: "touching (r_end r) rs e" using 1 by simp
    show ?case using Cons.IH(1) [OF t lt] v sz le by (simp add: r_beg_def r_end_def) }
  { case (2 d)
    have le: "r_end r \<le> e" "r_beg r = b" using 2 touching_le by auto
    have sz: "r_end r = b + unat (r_size r)" using le by (simp add: r_end_def r_beg_def)
    have v: "unat (va + r_size r) = unat va + unat (r_size r)" using 2(3) le sz by (subst unat_add_exact) simp_all
    have lt: "unat (va + r_size r) + (e - r_end r) < 2 ^ 64" using 2(3) v sz le by simp
    have t: "touching (r_end r) rs e" using 2 by simp
    show ?case
    proof (cases "d < unat (r_size r)")
      case True
      then show ?thesis using le sz by (simp add: r_beg_def r_end_def)
    next
      case False
      then obtain d2 where d: "d = unat (r_size r) + d2" by (metis le_Suc_ex not_le)
      have "vm_shows (relocate (va + r_size r) rs) (unat (va + r_size r) + d2) = vm_shows rs (r_end r + d2)"
        using 2(1) d sz le by (intro Cons.IH(2) [OF _ t lt]) simp
      then show ?thesis using d v sz le by (simp add: r_beg_def r_end_def add.assoc)
    qed }
  { case 3
    have le: "r_end r \<le> e" "r_beg r = b" using 3 touching_le by auto
    have sz: "r_end r = b + unat (r_size r)" using le by (simp add: r_end_def r_beg_def)
    have v: "unat (va + r_size r) = unat va + unat (r_size r)" using 3(2) le sz by (subst unat_add_exact) simp_all
    have lt: "unat (va + r_size r) + (e - r_end r) < 2 ^ 64" using 3(2) v sz le by simp
    have t: "touching (r_end r) rs e" using 3 by simp
    show ?case using Cons.IH(3) [OF t lt] by simp }
qed auto

lemma relocate_same: "touching b rs e \<Longrightarrow> unat va = b \<Longrightarrow> e < 2 ^ 64 \<Longrightarrow> relocate va rs = rs"
proof (induction rs arbitrary: b va)
  case (Cons r rs)
  have va: "va = r_va r" using Cons.prems(1,2) by (simp add: r_beg_def) (metis word_unat_eq_iff)
  have t: "touching (r_end r) rs e" using Cons.prems(1) by simp
  then have "r_end r < 2 ^ 64" using touching_le [OF t] Cons.prems(3) by simp
  then have "unat (r_va r + r_size r) = r_end r" by (simp add: r_end_def unat_add_exact)
  then show ?case using Cons.IH [OF t _ Cons.prems(3)] va by simp
qed simp

section \<open>Adding the next region\<close>

lemma split_unique:
  assumes "xs1 @ ys1 = xs2 @ ys2" and "\<forall>x\<in>set xs1 \<union> set xs2. P x" and "\<forall>y\<in>set ys1 \<union> set ys2. \<not> P y"
  shows "xs1 = xs2 \<and> ys1 = ys2"
proof -
  have "takeWhile P (xs @ ys) = xs" if "\<forall>x\<in>set xs. P x" "\<forall>y\<in>set ys. \<not> P y" for xs ys
    using that by (cases ys) (simp_all add: takeWhile_append)
  then have "xs1 = xs2" using assms by (metis UnCI)
  then show ?thesis using assms(1) by simp
qed

text \<open>A region whose address is the end of another one goes right behind it.\<close>

lemma add_behind:
  assumes "umap_add_region pl (r\<lparr>r_va := end_va\<rparr>) 0 pad_end align s = (Ok (i, va), s1)" and "platform_ok pl"
    and "vm_wf pl (um_regions s)" and "um_regions s = us @ vs" and "us \<noteq> []" and "r_end (last us) = unat end_va" and "0 < unat (r_size r)"
  shows "va = end_va" and "i = length us" and "s1 = s\<lparr>um_regions := us @ r\<lparr>r_va := end_va\<rparr> # vs\<rparr>" and "vm_wf pl (um_regions s1)"
    and "unat end_va + unat (r_size r) < 2 ^ 64"
proof -
  obtain ts q where us: "us = ts @ [q]" using assms(5) by (metis append_butlast_last_id)
  then have q: "r_end q = unat end_va" using assms(6) by simp
  have c: "chain (unat (pl_va_base pl)) (ts @ q # vs) (range_end pl)" using assms(3,4) us by (simp add: vm_wf_def range_end_def)
  then have okq: "region_ok q" and cts: "chain (unat (pl_va_base pl)) ts (r_beg q)" and cvs: "chain (r_end q) vs (range_end pl)"
    by (simp_all add: chain_split)
  have nz: "end_va \<noteq> 0" using q okq by (auto simp: region_ok_def r_end_def)
  from umap_add_region_Ok(1) [OF assms(1-3)] obtain xs ys m where
    f: "um_regions s = xs @ ys" "i = length xs" "s1 = s\<lparr>um_regions := xs @ r\<lparr>r_va := end_va\<rparr>\<lparr>r_va := va\<rparr> # ys\<rparr>"
      "chain (unat (pl_va_base pl)) xs m" "m + unat (0 :: 64 word) \<le> unat va"
      "chain (unat va + unat (r_size (r\<lparr>r_va := end_va\<rparr>)) + unat pad_end) ys (range_end pl)" "unat va mod 4096 = 0"
      "r_va (r\<lparr>r_va := end_va\<rparr>) = 0 \<or> va = r_va (r\<lparr>r_va := end_va\<rparr>)"
    by (elim exE conjE) (rule that; assumption)
  show va: "va = end_va" using f(8) nz by simp
  have nonempty: "r_beg x < r_end x" if "region_ok x" for x using that by (simp add: region_ok_def r_beg_def r_end_def)
  let ?P = "\<lambda>x. r_beg x < unat end_va"
  have xs: "\<forall>x\<in>set xs. ?P x"
    using chain_region_ok [OF f(4)] f(5) va nonempty by (metis add_0_right le_trans less_le_trans unat_0)
  have ys: "\<forall>y\<in>set ys. \<not> ?P y"
  proof
    fix y assume "y \<in> set ys"
    then have "unat va + unat (r_size (r\<lparr>r_va := end_va\<rparr>)) + unat pad_end \<le> r_beg y" using chain_region_ok [OF f(6)] by blast
    then show "\<not> ?P y" using va by simp
  qed
  have us2: "\<forall>x\<in>set us. ?P x"
  proof
    fix x assume "x \<in> set us"
    then consider "x = q" | "x \<in> set ts" using us by auto
    then show "?P x"
    proof cases
      case 1
      then show ?thesis using nonempty [OF okq] q by simp
    next
      case 2
      then have "region_ok x" "r_end x \<le> r_beg q" using chain_region_ok [OF cts] by simp_all
      then show ?thesis using nonempty [of x] nonempty [OF okq] q by simp
    qed
  qed
  have vs2: "\<forall>y\<in>set vs. \<not> ?P y" using chain_region_ok [OF cvs] q by fastforce
  have "xs = us \<and> ys = vs"
    by (rule split_unique [where P = ?P]) (use f(1) assms(4) xs ys us2 vs2 in auto)
  then show "i = length us" and s1: "s1 = s\<lparr>um_regions := us @ r\<lparr>r_va := end_va\<rparr> # vs\<rparr>" using f(2,3) va by simp_all
  note ad = umap_add_region_added(1) [OF assms(1-3)]
  have pos: "0 < unat (r_size (r\<lparr>r_va := end_va\<rparr>))" using assms(7) by simp
  show wf: "vm_wf pl (um_regions s1)" using added_wf(1) [OF ad pos] .
  have "r_end (r\<lparr>r_va := end_va\<rparr>) \<le> range_end pl"
    using wf s1 chain_region_ok [of "unat (pl_va_base pl)" "um_regions s1" "range_end pl" "r\<lparr>r_va := end_va\<rparr>"]
    by (simp add: vm_wf_def range_end_def)
  then show "unat end_va + unat (r_size r) < 2 ^ 64" using platform_range [OF assms(2)] by (simp add: r_end_def)
qed

section \<open>Putting regions back\<close>

text \<open>The regions of a list are made of pages, whatever their addresses.\<close>

definition sizes_ok :: "vm_region list \<Rightarrow> bool" where
  "sizes_ok rs = (\<forall>r\<in>set rs. 0 < unat (r_size r))"

lemma quiet_show_moved: "show_moved pl fobj r s = (x, s1) \<Longrightarrow> um_regions s1 = um_regions s \<and> um_refs s1 = um_refs s"
  by (rule quietD [OF quiet_calls(4)])

lemma restore_behind:
  assumes "restore_regions pl fobj va regs s = (Ok u, s1)" and "platform_ok pl" and "vm_wf pl (um_regions s)"
    and "um_regions s = us @ vs" and "us \<noteq> []" and "r_end (last us) = unat va" and "sizes_ok regs"
  shows "um_regions s1 = us @ relocate va regs @ vs \<and> vm_wf pl (um_regions s1) \<and> um_refs s1 = um_refs s"
  using assms(1,3-7)
proof (induction regs arbitrary: va us s)
  case Nil
  then show ?case by (simp add: io_ret_def)
next
  case (Cons r regs)
  let ?add = "umap_add_region pl (r\<lparr>r_va := va\<rparr>) 0 0 0"
  obtain x s2 where x: "?add s = (x, s2)" by (cases "?add s")
  obtain i va1 where ok: "x = Ok (i, va1)"
    using Cons.prems(1) x by (cases x) (auto simp: io_try_def io_bind_def io_stuck_def)
  have sz: "0 < unat (r_size r)" using Cons.prems(6) by (simp add: sizes_ok_def)
  note f = add_behind [OF x[unfolded ok] assms(2) Cons.prems(2-5) sz]
  obtain y s3 where y: "show_moved pl fobj (r\<lparr>r_va := va1\<rparr>) s2 = (y, s3)" by (cases "show_moved pl fobj (r\<lparr>r_va := va1\<rparr>) s2")
  have rest: "restore_regions pl fobj (va + r_size r) regs s3 = (Ok u, s1)"
    using Cons.prems(1) x ok y by (cases y) (auto simp: io_try_def io_bind_def io_stuck_def)
  note q = quiet_show_moved [OF y]
  have r3: "um_regions s3 = (us @ [r\<lparr>r_va := va\<rparr>]) @ vs" using q f(3) by simp
  have e: "r_end (last (us @ [r\<lparr>r_va := va\<rparr>])) = unat (va + r_size r)"
    using f(5) by (simp add: r_end_def unat_add_exact)
  have w: "vm_wf pl (um_regions s3)" using f(4) q by simp
  have so: "sizes_ok regs" using Cons.prems(6) by (simp add: sizes_ok_def)
  have "us @ [r\<lparr>r_va := va\<rparr>] \<noteq> []" by simp
  note ih = Cons.IH [OF rest w r3 this e so]
  have i: "um_regions s1 = us @ relocate va (r # regs) @ vs" "vm_wf pl (um_regions s1)" "um_refs s1 = um_refs s3"
    using ih by (simp, blast, blast)
  have "um_refs s1 = um_refs s" using i(3) q f(3) by simp
  then show ?case using i(1,2) by blast
qed

lemma restore_regions_result:
  assumes "restore_regions pl fobj va regs s = (Ok u, s1)" and "platform_ok pl" and "vm_wf pl (um_regions s)"
    and "va \<noteq> 0" and "sizes_ok regs"
  shows "\<exists>us vs. um_regions s = us @ vs \<and> um_regions s1 = us @ relocate va regs @ vs \<and> vm_wf pl (um_regions s1) \<and> um_refs s1 = um_refs s"
proof (cases regs)
  case Nil
  then have "s1 = s" using assms(1) by (simp add: io_ret_def)
  then show ?thesis using Nil assms(3) by (intro exI [of _ "um_regions s"] exI [of _ "[]"]) simp
next
  case (Cons r rest)
  let ?add = "umap_add_region pl (r\<lparr>r_va := va\<rparr>) 0 0 0"
  obtain x s2 where x: "?add s = (x, s2)" by (cases "?add s")
  obtain i va1 where ok: "x = Ok (i, va1)"
    using assms(1) Cons x by (cases x) (auto simp: io_try_def io_bind_def io_stuck_def)
  have sz: "0 < unat (r_size (r\<lparr>r_va := va\<rparr>))" using assms(5) Cons by (simp add: sizes_ok_def)
  note ad = umap_add_region_added(1) [OF x[unfolded ok] assms(2,3)] and refs2 = umap_add_region_added(2) [OF x[unfolded ok] assms(2,3)]
  have va: "va1 = va" using added_wf(4) [OF ad sz] assms(4) by simp
  obtain us vs where uv: "um_regions s = us @ vs" "um_regions s2 = us @ r\<lparr>r_va := va\<rparr> # vs"
    using ad va unfolding added_def by auto
  obtain y s3 where y: "show_moved pl fobj (r\<lparr>r_va := va1\<rparr>) s2 = (y, s3)" by (cases "show_moved pl fobj (r\<lparr>r_va := va1\<rparr>) s2")
  have rest: "restore_regions pl fobj (va + r_size r) rest s3 = (Ok u, s1)"
    using assms(1) Cons x ok y by (cases y) (auto simp: io_try_def io_bind_def io_stuck_def)
  note q = quiet_show_moved [OF y]
  have r3: "um_regions s3 = (us @ [r\<lparr>r_va := va\<rparr>]) @ vs" using q uv(2) by simp
  have w: "vm_wf pl (um_regions s3)" using added_wf(1) [OF ad sz] q by simp
  have "r_end (r\<lparr>r_va := va\<rparr>) \<le> range_end pl"
    using w r3 chain_region_ok [of "unat (pl_va_base pl)" "um_regions s3" "range_end pl" "r\<lparr>r_va := va\<rparr>"]
    by (simp add: vm_wf_def range_end_def)
  then have e: "r_end (last (us @ [r\<lparr>r_va := va\<rparr>])) = unat (va + r_size r)"
    using platform_range [OF assms(2)] by (simp add: r_end_def unat_add_exact)
  have so: "sizes_ok rest" using assms(5) Cons by (simp add: sizes_ok_def)
  have "us @ [r\<lparr>r_va := va\<rparr>] \<noteq> []" by simp
  note rb = restore_behind [OF rest assms(2) w r3 this e so]
  have "um_regions s1 = us @ relocate va regs @ vs" "vm_wf pl (um_regions s1)" "um_refs s1 = um_refs s"
    using rb Cons q refs2 by (simp, blast, simp)
  then show ?thesis using uv(1) by blast
qed

text \<open>What a failure leaves: the regions that were added are taken out and all go back.\<close>

lemma undo_remap_result:
  assumes "undo_remap pl fobj old_va (length us) newest regs e s = (Fail e1, s1)" and "platform_ok pl"
    and "um_regions s = us @ placed @ vs" and "vm_wf pl (us @ vs)" and "newest = length us + length placed - 1" and "placed \<noteq> []"
    and "old_va \<noteq> 0" and "sizes_ok (placed @ regs)"
  shows "\<exists>us1 vs1. us @ vs = us1 @ vs1 \<and> um_regions s1 = us1 @ relocate old_va (placed @ regs) @ vs1 \<and>
    vm_wf pl (um_regions s1) \<and> um_refs s1 = um_refs s"
proof -
  have n: "Suc newest = length us + length placed" using assms(5,6) by (cases placed) simp_all
  have parts: "take (length us) (um_regions s) = us" "drop (Suc newest) (um_regions s) = vs"
      "drop (length us) (take (Suc newest) (um_regions s)) = placed"
    using assms(3) n by simp_all
  let ?s0 = "s\<lparr>um_regions := us @ vs\<rparr>" let ?restore = "restore_regions pl fobj old_va (placed @ regs)"
  have run: "undo_remap pl fobj old_va (length us) newest regs e s = io_bind ?restore (\<lambda>_. io_bind (vm_event Set_ctx) (\<lambda>_. io_fail e)) ?s0"
    by (simp add: undo_remap_def region_binds parts)
  obtain x s2 where x: "?restore ?s0 = (x, s2)" by (cases "?restore ?s0")
  have noFail: "fst (restore_regions pl fobj va rs t) \<noteq> Fail e2" for va rs t e2
    by (induction rs arbitrary: va t) (auto simp: io_ret_def io_try_def io_stuck_def split: prod.split io.split)
  have ok: "\<exists>u. x = Ok u"
    using assms(1) run x noFail [of old_va "placed @ regs" ?s0] by (cases x) (auto simp: io_bind_def)
  then obtain u where u: "?restore ?s0 = (Ok u, s2)" using x by auto
  have s1: "s1 = s2\<lparr>um_events := um_events s2 @ [Set_ctx]\<rparr>"
    using assms(1) run u by (simp add: io_bind_def vm_event_def io_fail_def)
  have w: "vm_wf pl (um_regions ?s0)" using assms(4) by simp
  from restore_regions_result [OF u assms(2) w assms(7,8)] show ?thesis using s1 by auto
qed

section \<open>Moving\<close>

lemma undo_remap_not_Ok: "undo_remap pl fobj old_va first newest regs e s \<noteq> (Ok x, s1)"
  by (auto simp: undo_remap_def io_bind_def io_fail_def split: prod.splits io.splits)

lemma relocate_update: "relocate va (xs @ r\<lparr>r_va := w\<rparr> # ys) = relocate va (xs @ r # ys)"
  by (induction xs arbitrary: va) simp_all

lemma chain_without: "chain lo (xs @ ms @ ys) hi \<Longrightarrow> chain lo (xs @ ys) hi"
proof -
  assume "chain lo (xs @ ms @ ys) hi"
  then obtain m n where "chain lo xs m" "chain m ms n" "chain n ys hi" by (auto simp: chain_append)
  then show ?thesis unfolding chain_append using chain_le [of m ms n] chain_mono [of n ys hi m hi] by blast
qed

lemma wf_without: "vm_wf pl (xs @ ms @ ys) \<Longrightarrow> vm_wf pl (xs @ ys)"
  by (simp add: vm_wf_def chain_without)

definition moved_back :: "vm_platform \<Rightarrow> 64 word \<Rightarrow> vm_region list \<Rightarrow> vm_region list \<Rightarrow> user_mode_ctx \<Rightarrow> user_mode_ctx \<Rightarrow> bool" where
  "moved_back pl old_va others regs s s1 = (\<exists>us vs. others = us @ vs \<and> um_regions s1 = us @ relocate old_va regs @ vs \<and>
     vm_wf pl (um_regions s1) \<and> um_refs s1 = um_refs s)"

lemma undo_moves_back:
  assumes "platform_ok pl" and "vm_wf pl (um_regions s)" and "um_regions s = us @ placed @ vs" and "placed \<noteq> []"
    and "newest = length us + length placed - 1" and "sizes_ok (placed @ regs)" and "old_va \<noteq> 0"
  shows "case undo_remap pl fobj old_va (length us) newest regs e s of
      (Ok x, s1) \<Rightarrow> False | (Fail e, s1) \<Rightarrow> moved_back pl old_va (us @ vs) (placed @ regs) s s1 | (Stuck, s1) \<Rightarrow> True"
proof (cases "undo_remap pl fobj old_va (length us) newest regs e s")
  case (Pair r s1)
  have w: "vm_wf pl (us @ vs)" using assms(2,3) wf_without by simp
  show ?thesis
  proof (cases r)
    case (Ok x)
    then show ?thesis using Pair undo_remap_not_Ok by blast
  next
    case (Fail e1)
    show ?thesis
      using undo_remap_result [OF Pair[unfolded Fail] assms(1,3) w assms(5,4,7,6)] unfolding Pair Fail moved_back_def by simp
  next
    case Stuck
    then show ?thesis using Pair by simp
  qed
qed

lemma move_regions_result:
  assumes "platform_ok pl" and "vm_wf pl (um_regions s)" and "um_regions s = us @ placed @ vs" and "placed \<noteq> []"
    and "newest = length us + length placed - 1" and "r_end (last placed) = unat end_va" and "sizes_ok (placed @ regs)" and "old_va \<noteq> 0"
  shows "case move_regions pl fobj old_va (length us) va newest end_va regs s of
      (Ok va1, s1) \<Rightarrow> va1 = va \<and> um_regions s1 = us @ placed @ relocate end_va regs @ vs \<and> vm_wf pl (um_regions s1) \<and> um_refs s1 = um_refs s
    | (Fail e, s1) \<Rightarrow> moved_back pl old_va (us @ vs) (placed @ regs) s s1
    | (Stuck, s1) \<Rightarrow> True"
  using assms(2-7)
proof (induction regs arbitrary: placed newest end_va s)
  case Nil
  then show ?case by (simp add: io_bind_def vm_event_def io_ret_def)
next
  case (Cons r regs)
  let ?add = "umap_add_region pl (r\<lparr>r_va := end_va\<rparr>) 0 0 0"
  obtain x s2 where x: "?add s = (x, s2)" by (cases "?add s")
  show ?case
  proof (cases x)
    case (Fail e)
    have s2: "s2 = s" using umap_add_region_Fail x Fail by blast
    have run: "move_regions pl fobj old_va (length us) va newest end_va (r # regs) s =
        undo_remap pl fobj old_va (length us) newest (r # regs) e s"
      using x Fail s2 by (simp add: io_try_def)
    show ?thesis
      unfolding run using undo_moves_back [OF assms(1) Cons.prems(1-4,6) assms(8), of fobj e]
      by (auto split: prod.splits io.splits)
  next
    case (Ok p)
    obtain i va1 where p: "p = (i, va1)" by (cases p)
    have sz: "0 < unat (r_size r)" using Cons.prems(6) by (simp add: sizes_ok_def)
    have rs: "um_regions s = (us @ placed) @ vs" using Cons.prems(2) by simp
    have ne: "us @ placed \<noteq> []" using Cons.prems(3) by simp
    have en: "r_end (last (us @ placed)) = unat end_va" using Cons.prems(3,5) by simp
    note f = add_behind [OF x[unfolded Ok p] assms(1) Cons.prems(1) rs ne en sz]
    let ?r = "r\<lparr>r_va := end_va\<rparr>"
    obtain y s3 where y: "show_moved pl fobj (r\<lparr>r_va := va1\<rparr>) s2 = (y, s3)" by (cases "show_moved pl fobj (r\<lparr>r_va := va1\<rparr>) s2")
    note q = quiet_show_moved [OF y]
    have r3: "um_regions s3 = us @ (placed @ [?r]) @ vs" using q f(3) by simp
    have w3: "vm_wf pl (um_regions s3)" using q f(4) by simp
    have refs3: "um_refs s3 = um_refs s" using q f(3) by simp
    have i3: "i = length us + length (placed @ [?r]) - 1" using f(2) by simp
    have e3: "r_end (last (placed @ [?r])) = unat (end_va + r_size r)" using f(5) by (simp add: r_end_def unat_add_exact)
    have so: "sizes_ok ((placed @ [?r]) @ regs)" using Cons.prems(6) by (auto simp: sizes_ok_def)
    have ne3: "placed @ [?r] \<noteq> []" by simp
    have reloc: "relocate old_va ((placed @ [?r]) @ regs) = relocate old_va (placed @ r # regs)"
      by (simp add: relocate_update)
    have go: "moved_back pl old_va (us @ vs) ((placed @ [?r]) @ regs) s3 t = moved_back pl old_va (us @ vs) (placed @ r # regs) s t" for t
      unfolding moved_back_def reloc refs3 by (rule refl)
    show ?thesis
    proof (cases y)
      case Stuck
      then show ?thesis using x Ok p y by (simp add: io_try_def)
    next
      case (Fail e)
      have run: "move_regions pl fobj old_va (length us) va newest end_va (r # regs) s =
          undo_remap pl fobj old_va (length us) i regs e s3"
        using x Ok p y Fail by (simp add: io_try_def)
      show ?thesis
        unfolding run using undo_moves_back [OF assms(1) w3 r3 ne3 i3 so assms(8), of fobj e]
        by (simp only: go) (auto split: prod.splits io.splits)
    next
      case Ok2: (Ok u)
      have run: "move_regions pl fobj old_va (length us) va newest end_va (r # regs) s =
          move_regions pl fobj old_va (length us) va i (end_va + r_size r) regs s3"
        using x Ok p y Ok2 f(1) by (simp add: io_try_def)
      show ?thesis
        unfolding run using Cons.IH [OF w3 r3 ne3 i3 e3 so]
        by (simp only: go) (auto simp: refs3 split: prod.splits io.splits)
    qed
  next
    case Stuck
    then show ?thesis using x umap_add_region_not_Stuck by blast
  qed
qed

lemma take_regions_result:
  assumes "um_regions s = xs @ ms @ ys" and "vm_wf pl (um_regions s)" and "platform_ok pl" and "touching b ms (unat end_va)" and "ms \<noteq> []"
  shows "\<exists>s1. take_regions pl end_va (length xs) (ms @ ys) s = (Ok ms, s1) \<and> um_regions s1 = xs @ ys \<and> um_refs s1 = um_refs s"
proof -
  have step: "\<exists>s1. take_regions pl end_va (length xs) (takeWhile (in_range end_va) rs @ dropWhile (in_range end_va) rs) s =
      (Ok (takeWhile (in_range end_va) rs), s1) \<and> um_regions s1 = xs @ dropWhile (in_range end_va) rs \<and> um_refs s1 = um_refs s"
    if "um_regions s = xs @ rs" for rs s
    using that
  proof (induction rs arbitrary: s)
    case Nil
    then show ?case by (simp add: io_ret_def)
  next
    case (Cons r rs)
    show ?case
    proof (cases "in_range end_va r")
      case False
      then show ?thesis using Cons.prems by (simp add: in_range_def io_ret_def)
    next
      case True
      obtain s0 where s0: "rem_um_region pl (length xs) s = (Ok (), s0)" "um_regions s0 = um_regions s" "um_refs s0 = um_refs s"
        using rem_um_region_run by blast
      let ?s1 = "s0\<lparr>um_regions := xs @ rs\<rparr>"
      have rem: "list_remove (length xs) s0 = (Ok (), ?s1)" using s0(2) Cons.prems by (simp add: list_remove_run remove_at_middle)
      obtain s2 where s2: "take_regions pl end_va (length xs) (takeWhile (in_range end_va) rs @ dropWhile (in_range end_va) rs) ?s1 =
          (Ok (takeWhile (in_range end_va) rs), s2)" "um_regions s2 = xs @ dropWhile (in_range end_va) rs" "um_refs s2 = um_refs ?s1"
        using Cons.IH [of ?s1] by auto
      have "take_regions pl end_va (length xs) (r # rs) s = (Ok (r # takeWhile (in_range end_va) rs), s2)"
        using True s0(1) rem s2(1) by (simp add: in_range_def io_bind_def io_ret_def)
      then show ?thesis using True s2 s0(3) by simp
    qed
  qed
  obtain m where c: "chain m (ms @ ys) (range_end pl)" using assms(1,2) by (auto simp: vm_wf_def range_end_def chain_append)
  have tw: "takeWhile (in_range end_va) (ms @ ys) = ms" by (rule takeWhile_range [OF c platform_range [OF assms(3)] assms(4,5)])
  then have dw: "dropWhile (in_range end_va) (ms @ ys) = ys" by (metis same_append_eq takeWhile_dropWhile_id)
  show ?thesis using step [OF assms(1)] unfolding tw dw by simp
qed

section \<open>The contract of a move\<close>

lemma relocate_bound:
  "chain m (relocate va rs) n \<Longrightarrow> n < 2 ^ 64 \<Longrightarrow> touching b rs e \<Longrightarrow> rs \<noteq> [] \<Longrightarrow> unat va + (e - b) \<le> n"
proof (induction rs arbitrary: m va b)
  case (Cons r rs)
  have c: "chain (unat va + unat (r_size r)) (relocate (va + r_size r) rs) n" using Cons.prems(1) by (simp add: r_end_def)
  have le: "unat va + unat (r_size r) \<le> n" using chain_le [OF c] .
  then have v: "unat (va + r_size r) = unat va + unat (r_size r)" using Cons.prems(2) by (subst unat_add_exact) simp_all
  have t: "touching (r_end r) rs e" and b: "r_beg r = b" using Cons.prems(3) by simp_all
  have sz: "r_end r = b + unat (r_size r)" using b by (simp add: r_end_def r_beg_def)
  show ?case
  proof (cases "rs = []")
    case True
    then show ?thesis using t sz le by simp
  next
    case False
    have "unat (va + r_size r) + (e - r_end r) \<le> n" by (rule Cons.IH [OF c Cons.prems(2) t False])
    then show ?thesis using v sz touching_le [OF t] by simp
  qed
qed simp

lemma moved_shows:
  assumes "platform_ok pl" and "vm_wf pl (xs @ ms @ ys)" and "touching b ms e" and "ms \<noteq> []" and "xs @ ys = us @ vs"
    and "vm_wf pl (us @ relocate va ms @ vs)"
  shows "vm_shows (us @ relocate va ms @ vs) a = (if unat va \<le> a \<and> a < unat va + (e - b) then vm_shows (xs @ ms @ ys) (b + (a - unat va))
      else if b \<le> a \<and> a < e then None else vm_shows (xs @ ms @ ys) a)"
    and "length (filter (\<lambda>r. r_mobj r = m) (us @ relocate va ms @ vs)) = length (filter (\<lambda>r. r_mobj r = m) (xs @ ms @ ys))"
proof -
  have c: "chain (unat (pl_va_base pl)) (xs @ ms @ ys) (range_end pl)" and c2: "chain (unat (pl_va_base pl)) (us @ relocate va ms @ vs) (range_end pl)"
    using assms(2,6) by (simp_all add: vm_wf_def range_end_def)
  obtain p n where pn: "chain p (relocate va ms) n" "chain n vs (range_end pl)" using c2 by (auto simp: chain_append)
  have n: "n < 2 ^ 64" using chain_le [OF pn(2)] platform_range [OF assms(1)] by simp
  have lt: "unat va + (e - b) < 2 ^ 64" using relocate_bound [OF pn(1) n assms(3,4)] n by simp
  note r = relocate_props [OF assms(3) lt]
  have ne: "relocate va ms \<noteq> []" using assms(4) by (cases ms) simp_all
  note w = vm_shows_without [OF c assms(3,4)] and w2 = vm_shows_without [OF c2 r(1) ne]
  show "vm_shows (us @ relocate va ms @ vs) a = (if unat va \<le> a \<and> a < unat va + (e - b) then vm_shows (xs @ ms @ ys) (b + (a - unat va))
      else if b \<le> a \<and> a < e then None else vm_shows (xs @ ms @ ys) a)"
  proof (cases "unat va \<le> a \<and> a < unat va + (e - b)")
    case True
    then obtain d where d: "a = unat va + d" "d < e - b" by (metis add_less_cancel_left le_Suc_ex)
    have "vm_shows (us @ relocate va ms @ vs) a = vm_shows (relocate va ms) a" using w2(2) [of a] True by blast
    also have "\<dots> = vm_shows ms (b + d)" using r(2) [OF d(2)] d(1) by simp
    also have "\<dots> = vm_shows (xs @ ms @ ys) (b + d)" using w(2) [of "b + d"] d(2) by simp
    finally show ?thesis unfolding if_P [OF True] using d(1) by simp
  next
    case False
    have "vm_shows (us @ vs) a = vm_shows (us @ relocate va ms @ vs) a" using w2(1) [of a] unfolding if_not_P [OF False] .
    then have "vm_shows (us @ relocate va ms @ vs) a = (if b \<le> a \<and> a < e then None else vm_shows (xs @ ms @ ys) a)"
      using w(1) [of a] assms(5) by simp
    then show ?thesis unfolding if_not_P [OF False] .
  qed
  have "length (filter (\<lambda>r. r_mobj r = m) (us @ vs)) = length (filter (\<lambda>r. r_mobj r = m) (xs @ ys))" using assms(5) by simp
  then show "length (filter (\<lambda>r. r_mobj r = m) (us @ relocate va ms @ vs)) = length (filter (\<lambda>r. r_mobj r = m) (xs @ ms @ ys))"
    using r(3) [of m] by simp
qed

text \<open>The part of \<open>vm_remap\<close> after the regions have left the list.\<close>

definition place_moved :: "vm_platform \<Rightarrow> nat \<Rightarrow> 64 word \<Rightarrow> 64 word \<Rightarrow> 64 word \<Rightarrow> 64 word \<Rightarrow> vm_region \<Rightarrow> vm_region list \<Rightarrow> 64 word vm" where
  "place_moved pl fobj new_va old_va pad_begin pad_end r rest =
     io_try (umap_add_region pl (r\<lparr>r_va := new_va\<rparr>) pad_begin pad_end 0)
       (\<lambda>(i, va). io_try (show_moved pl fobj (r\<lparr>r_va := va\<rparr>))
          (\<lambda>_. move_regions pl fobj old_va i va i (va + r_size r) rest)
          (undo_remap pl fobj old_va i i rest))
       (\<lambda>_. io_stuck)"

lemma place_moved_result:
  assumes "platform_ok pl" and "vm_wf pl (um_regions s)" and "sizes_ok (r # rest)" and "old_va \<noteq> 0"
  shows "case place_moved pl fobj new_va old_va pad_begin pad_end r rest s of
      (Ok va, s1) \<Rightarrow> new_va \<in> {0, va} \<and> moved_back pl va (um_regions s) (r # rest) s s1
    | (Fail e, s1) \<Rightarrow> moved_back pl old_va (um_regions s) (r # rest) s s1
    | (Stuck, s1) \<Rightarrow> True"
proof -
  let ?add = "umap_add_region pl (r\<lparr>r_va := new_va\<rparr>) pad_begin pad_end 0"
  obtain x s2 where x: "?add s = (x, s2)" by (cases "?add s")
  show ?thesis
  proof (cases x)
    case (Ok p)
    obtain i va where p: "p = (i, va)" by (cases p)
    from umap_add_region_Ok(1) [OF x[unfolded Ok p] assms(1,2)] obtain us vs where
      f: "um_regions s = us @ vs" "i = length us" "s2 = s\<lparr>um_regions := us @ r\<lparr>r_va := new_va\<rparr>\<lparr>r_va := va\<rparr> # vs\<rparr>"
      by (elim exE conjE) (rule that; assumption)
    note ad = umap_add_region_added(1) [OF x[unfolded Ok p] assms(1,2)]
    have sz: "0 < unat (r_size (r\<lparr>r_va := new_va\<rparr>))" using assms(3) by (simp add: sizes_ok_def)
    have va: "new_va \<in> {0, va}" using added_wf(4) [OF ad sz] by auto
    let ?r = "r\<lparr>r_va := va\<rparr>"
    obtain y s3 where y: "show_moved pl fobj ?r s2 = (y, s3)" by (cases "show_moved pl fobj ?r s2")
    note q = quiet_show_moved [OF y]
    have r3: "um_regions s3 = us @ [?r] @ vs" using q f(3) by simp
    have w3: "vm_wf pl (um_regions s3)" using added_wf(1) [OF ad sz] q by simp
    have refs3: "um_refs s3 = um_refs s" using q f(3) by simp
    have i3: "i = length us + length [?r] - 1" using f(2) by simp
    have so: "sizes_ok ([?r] @ rest)" using assms(3) by (simp add: sizes_ok_def)
    have ne: "[?r] \<noteq> []" by simp
    have "r_end ?r \<le> range_end pl"
      using w3 r3 chain_region_ok [of "unat (pl_va_base pl)" "um_regions s3" "range_end pl" ?r] by (simp add: vm_wf_def range_end_def)
    then have e3: "r_end (last [?r]) = unat (va + r_size r)"
      using platform_range [OF assms(1)] by (simp add: r_end_def unat_add_exact)
    have go: "moved_back pl v (us @ vs) ([?r] @ rest) s3 t = moved_back pl v (us @ vs) (r # rest) s t" for t v
      unfolding moved_back_def refs3 by simp
    show ?thesis
    proof (cases y)
      case Stuck
      then show ?thesis using x Ok p y by (simp add: place_moved_def io_try_def)
    next
      case (Fail e)
      have run: "place_moved pl fobj new_va old_va pad_begin pad_end r rest s = undo_remap pl fobj old_va (length us) i rest e s3"
        using x Ok p y Fail f(2) by (simp add: place_moved_def io_try_def)
      show ?thesis
        unfolding run f(1) using undo_moves_back [OF assms(1) w3 r3 ne i3 so assms(4), of fobj e]
        by (simp only: go) (auto split: prod.splits io.splits)
    next
      case Ok2: (Ok u)
      have run: "place_moved pl fobj new_va old_va pad_begin pad_end r rest s =
          move_regions pl fobj old_va (length us) va i (va + r_size r) rest s3"
        using x Ok p y Ok2 f(2) by (simp add: place_moved_def io_try_def)
      have here: "moved_back pl va (us @ vs) (r # rest) s t"
        if "um_regions t = us @ [?r] @ relocate (va + r_size r) rest @ vs" "vm_wf pl (um_regions t)" "um_refs t = um_refs s3" for t
        unfolding moved_back_def using that refs3 by (intro exI [of _ us] exI [of _ vs] conjI) simp_all
      show ?thesis
        unfolding run f(1) using move_regions_result [OF assms(1) w3 r3 ne i3 e3 so assms(4), where fobj = fobj and va = va] va here
        by (simp only: go) (auto split: prod.splits io.splits)
    qed
  next
    case (Fail e)
    then show ?thesis using x by (simp add: place_moved_def io_try_def io_stuck_def)
  next
    case Stuck
    then show ?thesis using x umap_add_region_not_Stuck by blast
  qed
qed

lemma moved_back_shows:
  assumes "moved_back pl va (xs @ ys) ms s0 s1" and "platform_ok pl" and "vm_wf pl (xs @ ms @ ys)" and "touching b ms e" and "ms \<noteq> []"
    and "um_regions s = xs @ ms @ ys" and "um_refs s0 = um_refs s"
  shows "vm_wf pl (um_regions s1)" and "vm_balance s1 = vm_balance s"
    and "vm_shows (um_regions s1) a = (if unat va \<le> a \<and> a < unat va + (e - b) then vm_shows (um_regions s) (b + (a - unat va))
      else if b \<le> a \<and> a < e then None else vm_shows (um_regions s) a)"
proof -
  obtain us vs where f: "xs @ ys = us @ vs" "um_regions s1 = us @ relocate va ms @ vs" "vm_wf pl (um_regions s1)" "um_refs s1 = um_refs s0"
    using assms(1) unfolding moved_back_def by blast
  note m = moved_shows [OF assms(2-5) f(1) f(3)[unfolded f(2)]]
  show "vm_wf pl (um_regions s1)" by (rule f(3))
  show "vm_shows (um_regions s1) a = (if unat va \<le> a \<and> a < unat va + (e - b) then vm_shows (um_regions s) (b + (a - unat va))
      else if b \<le> a \<and> a < e then None else vm_shows (um_regions s) a)"
    unfolding f(2) assms(6) by (rule m(1))
  show "vm_balance s1 = vm_balance s"
    using m(2) f(2,4) assms(6,7) by (intro ext) (simp add: vm_balance_def del: filter_append)
qed

lemma vm_remap_result:
  assumes "platform_ok pl" and "vm_wf pl (um_regions s)"
  shows "case vm_remap pl new_va old_va len pad_begin pad_end s of
      (Ok va, s1) \<Rightarrow> vm_wf pl (um_regions s1) \<and> vm_balance s1 = vm_balance s \<and> new_va \<in> {0, va} \<and>
        (\<forall>a. vm_shows (um_regions s1) a =
          (if unat va \<le> a \<and> a < unat va + unat len then vm_shows (um_regions s) (unat old_va + (a - unat va))
           else if unat old_va \<le> a \<and> a < unat old_va + unat len then None else vm_shows (um_regions s) a)) \<and>
        (\<forall>a. unat old_va \<le> a \<and> a < unat old_va + unat len \<longrightarrow> vm_shows (um_regions s) a \<noteq> None)
    | (Fail e, s1) \<Rightarrow> vm_same pl s s1
    | (Stuck, s1) \<Rightarrow> True"
proof (cases "len = 0 \<or> (len OR old_va) AND SMALL_PAGE_MASK \<noteq> 0")
  case True
  then have "vm_remap pl new_va old_va len pad_begin pad_end s = (Fail TEE_ERROR_BAD_PARAMETERS, s)"
    by (simp only: vm_remap_def if_True io_fail_def)
  then show ?thesis using vm_same_refl [OF assms(2)] by simp
next
  case False
  then have pos: "0 < unat len" by (simp add: unat_gt_0)
  let ?split = "split_vm_range pl old_va len cmp_region_for_remap"
  note split = split_vm_range_result [OF assms pos, of old_va cmp_region_for_remap]
  show ?thesis
  proof (cases "?split s")
    case (Pair r s1)
    show ?thesis
    proof (cases r)
      case (Ok i)
      then have s1: "vm_same pl s s1" "range_at s1 i old_va len" using split Pair by simp_all
      obtain xs ms ys where f: "um_regions s1 = xs @ ms @ ys" "i = length xs" "ms \<noteq> []"
          "touching (unat old_va) ms (unat old_va + unat len)" "unat old_va + unat len < 2 ^ 64"
        using s1(2) unfolding range_at_def by blast
      obtain q rest where ms: "ms = q # rest" using f(3) by (cases ms) simp_all
      have wf: "vm_wf pl (um_regions s1)" using s1(1) by (simp add: vm_same_def)
      have wfm: "vm_wf pl (xs @ ms @ ys)" using wf f(1) by simp
      have c: "chain (unat (pl_va_base pl)) (xs @ ms @ ys) (range_end pl)" using wfm by (simp add: vm_wf_def range_end_def)
      have so: "sizes_ok ms" unfolding sizes_ok_def
      proof
        fix r assume "r \<in> set ms"
        then show "0 < unat (r_size r)" using chain_region_ok [OF c, of r] by (simp add: region_ok_def)
      qed
      have old: "old_va \<noteq> 0"
      proof -
        have "unat (pl_va_base pl) \<le> r_beg q" using chain_region_ok [OF c, of q] ms by simp
        then show ?thesis using assms(1) f(4) ms by (auto simp: platform_ok_def)
      qed
      have e: "unat (old_va + len) = unat old_va + unat len" using f(5) by (simp add: unat_add_exact)
      have t: "touching (unat old_va) ms (unat (old_va + len))" using f(4) e by simp
      obtain s2 where s2: "take_regions pl (old_va + len) (length xs) (ms @ ys) s1 = (Ok ms, s2)" "um_regions s2 = xs @ ys" "um_refs s2 = um_refs s1"
        using take_regions_result [OF f(1) wf assms(1) t f(3)] by blast
      let ?s3 = "s2\<lparr>um_events := um_events s2 @ [Set_ctx]\<rparr>"
      let ?fobj = "if mo_is_paged pl (r_mobj q) then mo_fobj pl (r_mobj q) else 0"
      let ?place = "place_moved pl ?fobj new_va old_va pad_begin (pad_end + len - r_size q) q rest"
      have run: "vm_remap pl new_va old_va len pad_begin pad_end s =
          (if mo_is_paged pl (r_mobj q) \<and> ?fobj = 0 then (Stuck, s1) else ?place ?s3)"
        unfolding vm_remap_def if_not_P [OF False] io_bind_step [where m = ?split, OF Pair[unfolded Ok]] place_moved_def
        using f(1,2) s2(1) ms by (simp add: region_binds Let_def io_stuck_def io_bind_step)
      have regs3: "um_regions ?s3 = xs @ ys" using s2(2) by simp
      have w3: "vm_wf pl (um_regions ?s3)" using s2(2) wfm wf_without by simp
      have place: "case ?place ?s3 of
          (Ok va, t) \<Rightarrow> new_va \<in> {0, va} \<and> moved_back pl va (xs @ ys) ms ?s3 t
        | (Fail e, t) \<Rightarrow> moved_back pl old_va (xs @ ys) ms ?s3 t
        | (Stuck, t) \<Rightarrow> True"
        unfolding ms by (rule place_moved_result [OF assms(1) w3 so[unfolded ms] old, unfolded regs3])
      have refs3: "um_refs ?s3 = um_refs s1" using s2(3) by simp
      have sh1: "vm_shows (um_regions s1) = vm_shows (um_regions s)" and bal1: "vm_balance s1 = vm_balance s"
        using s1(1) by (simp_all add: vm_same_def)
      have mapped: "vm_shows (um_regions s) a \<noteq> None" if "unat old_va \<le> a" "a < unat old_va + unat len" for a
        using vm_shows_without(2) [OF c f(4,3) that] sh1 f(1) by simp
      note mv = moved_back_shows [OF _ assms(1) wfm f(4,3,1) refs3]
      show ?thesis
      proof (cases "mo_is_paged pl (r_mobj q) \<and> ?fobj = 0")
        case True
        then show ?thesis unfolding run if_P [OF True] by simp
      next
        case False
        show ?thesis
        proof (cases "?place ?s3")
          case (Pair x t)
          show ?thesis
          proof (cases x)
            case (Ok va)
            then have "moved_back pl va (xs @ ys) ms ?s3 t" "new_va \<in> {0, va}" using place Pair by simp_all
            then show ?thesis
              unfolding run if_not_P [OF False] Pair Ok using mv(1,2) mv(3) sh1 bal1 mapped by simp
          next
            case (Fail e)
            then have "moved_back pl old_va (xs @ ys) ms ?s3 t" using place Pair by simp
            then show ?thesis
              unfolding run if_not_P [OF False] Pair Fail using mv(1,2) mv(3) sh1 bal1 by (auto simp: vm_same_def fun_eq_iff)
          next
            case Stuck
            then show ?thesis unfolding run if_not_P [OF False] Pair by simp
          qed
        qed
      qed
    next
      case (Fail e)
      then show ?thesis unfolding vm_remap_def if_not_P [OF False] using Pair split by (simp add: io_bind_def)
    next
      case Stuck
      then show ?thesis using Pair split by simp
    qed
  qed
qed



end
