(* ===== verification/VmAccess.thy ===== *)
theory VmAccess
  imports VmRange
begin

text \<open>
  The questions on an address space: \<open>vm_check_access_rights\<close> answers exactly when every byte of the pages of the buffer is
  mapped with the rights, the tests for private memory, what \<open>vm_get_prot\<close> says of a range, and which
  translation tables \<open>rem_um_region\<close> gives back.
\<close>

section \<open>Buffers\<close>

lemma core_is_buffer_inside_iff:
  assumes "0 < unat a" and "0 < unat al" and "unat a + unat al < 2 ^ 64"
  shows "core_is_buffer_inside b bl a al \<longleftrightarrow> 0 < unat bl \<and> unat a \<le> unat b \<and> unat b + unat bl \<le> unat a + unat al"
proof (cases "unat a \<le> unat b \<and> 0 < unat bl")
  case False
  then show ?thesis by (auto simp: core_is_buffer_inside_def is_valid_conf_and_notnull_size_def word_le_nat_alt unat_gt_0)
next
  case True
  have a1: "unat (a - 1) = unat a - 1" using assms(1) by (subst unat_sub_exact) simp_all
  have b1: "unat (b - 1) = unat b - 1" using True assms(1) by (subst unat_sub_exact) simp_all
  have al: "unat (a - 1 + al) = unat a - 1 + unat al" using assms a1 by (subst unat_add_exact) simp_all
  have v: "\<not> a - 1 + al < a" "al \<noteq> 0" "bl \<noteq> 0" using al assms True by (auto simp: word_less_nat_alt)
  have ab: "a \<le> b" using True by (simp add: word_le_nat_alt)
  have d: "core_is_buffer_inside b bl a al \<longleftrightarrow> \<not> b - 1 + bl < b \<and> b - 1 + bl \<le> a - 1 + al"
    using v ab by (simp add: core_is_buffer_inside_def is_valid_conf_and_notnull_size_def)
  show ?thesis
  proof (cases "unat b - 1 + unat bl < 2 ^ 64")
    case nowrap: True
    then have "unat (b - 1 + bl) = unat b - 1 + unat bl" using b1 by (subst unat_add_exact) simp_all
    then show ?thesis using d al True assms(1) by (auto simp: word_less_nat_alt word_le_nat_alt)
  next
    case False
    have "unat (b - 1 + bl) = (unat b - 1 + unat bl) mod 2 ^ 64" using b1 by (simp add: unat_word_ariths)
    moreover have lt: "unat b < 2 ^ 64" "unat bl < 2 ^ 64"
      using unsigned_less [of b, where ?'a = nat] unsigned_less [of bl, where ?'a = nat] by simp_all
    moreover have "(unat b - 1 + unat bl) mod 2 ^ 64 = unat b - 1 + unat bl - 2 ^ 64"
      using False lt by (subst le_mod_geq) (simp_all add: mod_less)
    ultimately have "unat (b - 1 + bl) < unat b" using True assms(1) by linarith
    then have "b - 1 + bl < b" by (simp add: word_less_nat_alt)
    then show ?thesis using d False assms(3) by auto
  qed
qed

lemma region_inside_iff:
  assumes "chain lo rs hi" and "hi < 2 ^ 64" and "0 < lo" and "r \<in> set rs"
  shows "core_is_buffer_inside b bl (r_va r) (r_size r) \<longleftrightarrow> 0 < unat bl \<and> r_beg r \<le> unat b \<and> unat b + unat bl \<le> r_end r"
  using chain_region_ok [OF assms(1,4)] assms(2,3) core_is_buffer_inside_iff [of "r_va r" "r_size r" b bl]
  by (simp add: region_ok_def r_beg_def r_end_def)

lemma region_of_addr_result:
  assumes "chain lo rs hi" and "hi < 2 ^ 64" and "0 < lo"
  shows "case region_of_addr rs ua of None \<Rightarrow> vm_shows rs (unat ua) = None
    | Some r \<Rightarrow> r \<in> set rs \<and> r_beg r \<le> unat ua \<and> unat ua < r_end r"
  using assms
proof (induction rs arbitrary: lo)
  case (Cons r rs)
  have i: "core_is_buffer_inside ua 1 (r_va r) (r_size r) \<longleftrightarrow> r_beg r \<le> unat ua \<and> unat ua < r_end r"
    using region_inside_iff [OF Cons.prems, of r ua 1] by auto
  have pos: "0 < r_end r" using Cons.prems by (auto simp: region_ok_def r_end_def)
  have c: "chain (r_end r) rs hi" using Cons.prems(1) by simp
  show ?case
    using i Cons.IH [OF c Cons.prems(2) pos] by (auto split: option.splits)
qed simp

section \<open>Access rights\<close>

text \<open>A byte that is mapped and whose attributes allow the access.\<close>

definition accessible :: "vm_region list \<Rightarrow> 32 word \<Rightarrow> nat \<Rightarrow> bool" where
  "accessible rs flags a = (case vm_shows rs a of None \<Rightarrow> False | Some (m, offs, attr, f) \<Rightarrow> \<not> access_refused flags attr)"

lemma platform_low: "platform_ok pl \<Longrightarrow> 0 < unat (pl_va_base pl)"
  by (simp add: platform_ok_def)

lemma platform_high: "platform_ok pl \<Longrightarrow> range_end pl + 4096 \<le> 2 ^ 64"
  by (auto simp: platform_ok_def range_end_def word_le_nat_alt SMALL_PAGE_SIZE_def)

lemma wf_chain: "vm_wf pl rs \<Longrightarrow> chain (unat (pl_va_base pl)) rs (range_end pl)"
  by (simp add: vm_wf_def range_end_def)

lemma page_accessible:
  assumes "platform_ok pl" and "vm_wf pl rs" and "unat a mod 4096 = 0"
  shows "case user_va2attr rs a of
      Inl e \<Rightarrow> e = TEE_ERROR_ACCESS_DENIED \<and> \<not> accessible rs flags (unat a)
    | Inr attr \<Rightarrow> unat a + 4096 \<le> range_end pl \<and>
        (\<forall>x. unat a \<le> x \<and> x < unat a + 4096 \<longrightarrow> accessible rs flags x = (\<not> access_refused flags attr))"
proof -
  note c = wf_chain [OF assms(2)]
  note res = region_of_addr_result [OF c platform_range [OF assms(1)] platform_low [OF assms(1)], of a]
  show ?thesis
  proof (cases "region_of_addr rs a")
    case None
    then show ?thesis using res by (simp add: user_va2attr_def accessible_def)
  next
    case (Some r)
    then have r: "r \<in> set rs" "r_beg r \<le> unat a" "unat a < r_end r" using res by simp_all
    have ok: "region_ok r" "r_end r \<le> range_end pl" using chain_region_ok [OF c r(1)] by simp_all
    have m: "r_end r mod 4096 = 0" using ok(1) by (auto simp: region_ok_def r_beg_def r_end_def mod_add_eq [symmetric])
    have "unat a + 4096 \<le> r_end r"
    proof -
      have "(r_end r - unat a) mod 4096 = 0" using m assms(3) by (metis dvd_diff_nat mod_0_imp_dvd dvd_imp_mod_0)
      moreover have "0 < r_end r - unat a" using r(3) by simp
      ultimately have "4096 \<le> r_end r - unat a" by (metis dvd_imp_le mod_0_imp_dvd)
      then show ?thesis using r(3) by simp
    qed
    then show ?thesis
      using Some ok(2) r(2) vm_shows_member [OF c r(1)] by (auto simp: user_va2attr_def accessible_def)
  qed
qed

lemma check_pages_result:
  assumes "platform_ok pl" and "vm_wf pl rs" and "unat a mod 4096 = 0"
  shows "\<exists>res. check_pages rs flags end_addr a = Some res \<and>
    (res = TEE_SUCCESS \<longleftrightarrow> (\<forall>x. unat a \<le> x \<and> x < unat end_addr \<longrightarrow> accessible rs flags x))"
  using assms(3)
proof (induction "unat end_addr - unat a" arbitrary: a rule: less_induct)
  case less
  show ?case
  proof (cases "a < end_addr")
    case False
    then show ?thesis by (subst check_pages.simps) (auto simp: word_less_nat_alt)
  next
    case True
    then have lt: "unat a < unat end_addr" by (simp add: word_less_nat_alt)
    note page = page_accessible [OF assms(1,2) less.prems, of flags]
    show ?thesis
    proof (cases "user_va2attr rs a")
      case (Inl e)
      then have "e = TEE_ERROR_ACCESS_DENIED" "\<not> accessible rs flags (unat a)" using page by simp_all
      then show ?thesis using True lt Inl by (subst check_pages.simps) auto
    next
      case (Inr attr)
      then have top: "unat a + 4096 \<le> range_end pl"
        and acc: "\<And>x. unat a \<le> x \<Longrightarrow> x < unat a + 4096 \<Longrightarrow> accessible rs flags x = (\<not> access_refused flags attr)"
        using page by simp_all
      show ?thesis
      proof (cases "access_refused flags attr")
        case True2: True
        then have "\<not> accessible rs flags (unat a)" using acc [of "unat a"] by simp
        then show ?thesis using True lt Inr True2 by (subst check_pages.simps) auto
      next
        case False
        have u: "unat (a + 4096) = unat a + 4096"
          using top platform_range [OF assms(1)] by (subst unat_add_exact) simp_all
        have step: "check_pages rs flags end_addr a = check_pages rs flags end_addr (a + 4096)"
          using True Inr False by (subst check_pages.simps) (simp add: CORE_MMU_USER_CODE_SIZE_def CORE_MMU_USER_PARAM_SIZE_def SMALL_PAGE_SIZE_def)
        have m: "unat end_addr - unat (a + 4096) < unat end_addr - unat a" "unat (a + 4096) mod 4096 = 0"
          using lt u less.prems by simp_all
        from less.hyps [OF m] obtain res where res: "check_pages rs flags end_addr (a + 4096) = Some res"
            "res = TEE_SUCCESS \<longleftrightarrow> (\<forall>x. unat (a + 4096) \<le> x \<and> x < unat end_addr \<longrightarrow> accessible rs flags x)"
          by (elim exE conjE) (rule that; assumption)
        have "(\<forall>x. unat (a + 4096) \<le> x \<and> x < unat end_addr \<longrightarrow> accessible rs flags x) \<longleftrightarrow>
            (\<forall>x. unat a \<le> x \<and> x < unat end_addr \<longrightarrow> accessible rs flags x)"
        proof (intro iffI allI impI)
          fix x assume later: "\<forall>x. unat (a + 4096) \<le> x \<and> x < unat end_addr \<longrightarrow> accessible rs flags x"
            and x: "unat a \<le> x \<and> x < unat end_addr"
          then show "accessible rs flags x" using acc [of x] False u by (cases "x < unat a + 4096") simp_all
        next
          fix x assume all: "\<forall>x. unat a \<le> x \<and> x < unat end_addr \<longrightarrow> accessible rs flags x"
            and x: "unat (a + 4096) \<le> x \<and> x < unat end_addr"
          then show "accessible rs flags x" using u by simp
        qed
        then show ?thesis using step res by simp
      qed
    qed
  qed
qed

lemma ROUNDDOWN_page: "unat (ROUNDDOWN v SMALL_PAGE_SIZE) = unat v div 4096 * 4096"
  using ROUNDDOWN_unat [of v 12] by (simp add: SMALL_PAGE_SIZE_def)

lemma private_iff:
  assumes "platform_ok pl" and "vm_wf pl rs"
  shows "vm_buf_is_inside_um_private rs va sz \<longleftrightarrow> 0 < unat sz \<and>
    (\<exists>r\<in>set rs. r_flags r AND VM_FLAGS_NONPRIV = 0 \<and> r_beg r \<le> unat va \<and> unat va + unat sz \<le> r_end r)"
  using region_inside_iff [OF wf_chain [OF assms(2)] platform_range [OF assms(1)] platform_low [OF assms(1)], of _ va sz]
  by (auto simp: vm_buf_is_inside_um_private_def list_ex_iff)

text \<open>
  C6: \<open>vm_check_access_rights\<close> always answers: its loop over the pages ends although its address is a word. It grants
  the access exactly when the buffer does not wrap around, the caller does not ask for secure and non-secure memory at once, the
  buffer lies in one private region unless any owner will do, and every byte from the start of its first page to its end is mapped with
  attributes that allow the access.
\<close>

theorem vm_check_access_rights_exact:
  assumes "platform_ok pl" and "vm_wf pl rs"
  shows "\<exists>res. vm_check_access_rights rs flags uaddr len = Some res \<and>
    (res = TEE_SUCCESS \<longleftrightarrow>
       unat uaddr + unat len < 2 ^ 64 \<and>
       (flags AND TEE_MEMORY_ACCESS_NONSECURE = 0 \<or> flags AND TEE_MEMORY_ACCESS_SECURE = 0) \<and>
       (flags AND TEE_MEMORY_ACCESS_ANY_OWNER \<noteq> 0 \<or>
        0 < unat len \<and> (\<exists>r\<in>set rs. r_flags r AND VM_FLAGS_NONPRIV = 0 \<and> r_beg r \<le> unat uaddr \<and> unat uaddr + unat len \<le> r_end r)) \<and>
       (\<forall>a. unat uaddr div 4096 * 4096 \<le> a \<and> a < unat uaddr + unat len \<longrightarrow> accessible rs flags a))"
proof (cases "unat uaddr + unat len < 2 ^ 64")
  case False
  then have "add_overflow uaddr len = None" by (cases "add_overflow uaddr len") (simp_all add: add_overflow_Some)
  then show ?thesis using False by (auto simp: vm_check_access_rights_def)
next
  case True
  then have o: "add_overflow uaddr len = Some (uaddr + len)" by (simp add: add_overflow_Some)
  have e: "unat (uaddr + len) = unat uaddr + unat len" using True by (simp add: unat_add_exact)
  let ?a = "ROUNDDOWN uaddr SMALL_PAGE_SIZE"
  have a: "min CORE_MMU_USER_CODE_SIZE CORE_MMU_USER_PARAM_SIZE = SMALL_PAGE_SIZE"
    by (simp add: CORE_MMU_USER_CODE_SIZE_def CORE_MMU_USER_PARAM_SIZE_def)
  have m: "unat ?a mod 4096 = 0" by (simp add: ROUNDDOWN_page)
  from check_pages_result [OF assms m, of flags "uaddr + len"] obtain res where "check_pages rs flags (uaddr + len) ?a = Some res"
      "res = TEE_SUCCESS \<longleftrightarrow> (\<forall>x. unat uaddr div 4096 * 4096 \<le> x \<and> x < unat uaddr + unat len \<longrightarrow> accessible rs flags x)"
    unfolding ROUNDDOWN_page e by (elim exE conjE) (rule that; assumption)
  then show ?thesis
    using o True private_iff [OF assms, of uaddr len] unfolding vm_check_access_rights_def a by auto
qed

lemma sample_regions: "um_regions sample_ctx =
    [\<lparr>r_mobj = 1, r_offset = 0, r_va = 0x40000000, r_size = 0x3000, r_attr = 0x19B1, r_flags = 0\<rparr>,
     \<lparr>r_mobj = 1, r_offset = 0x3000, r_va = 0x40003000, r_size = 0x2000, r_attr = 0x1891, r_flags = 0\<rparr>]"
  by (simp add: sample_ctx_def)

lemma sample_accessible:
  "accessible (um_regions sample_ctx) 7 a = (0x40000000 \<le> a \<and> a < 0x40003000)"
  by (auto simp: sample_regions accessible_def r_beg_def r_end_def access_refused_def TEE_MEMORY_ACCESS_NONSECURE_def
      TEE_MEMORY_ACCESS_SECURE_def TEE_MEMORY_ACCESS_WRITE_def TEE_MEMORY_ACCESS_READ_def TEE_MATTR_UW_def TEE_MATTR_UR_def)

theorem vm_check_access_rights_exact_witness:
  "vm_check_access_rights (um_regions sample_ctx) 7 0x40000FF0 0x2000 = Some TEE_SUCCESS \<and>
   vm_check_access_rights (um_regions sample_ctx) 7 0x40002FF0 0x20 \<noteq> Some TEE_SUCCESS"
proof
  have f: "(7 :: 32 word) AND TEE_MEMORY_ACCESS_NONSECURE = 0" "(7 :: 32 word) AND TEE_MEMORY_ACCESS_ANY_OWNER \<noteq> 0"
    by (simp_all add: TEE_MEMORY_ACCESS_NONSECURE_def TEE_MEMORY_ACCESS_ANY_OWNER_def)
  show "vm_check_access_rights (um_regions sample_ctx) 7 0x40000FF0 0x2000 = Some TEE_SUCCESS"
    using vm_check_access_rights_exact [OF sample_ok, of 7 "0x40000FF0" "0x2000"] f by (auto simp: sample_accessible)
  have "\<not> accessible (um_regions sample_ctx) 7 0x40003000" by (simp add: sample_accessible)
  then show "vm_check_access_rights (um_regions sample_ctx) 7 0x40002FF0 0x20 \<noteq> Some TEE_SUCCESS"
    using vm_check_access_rights_exact [OF sample_ok, of 7 "0x40002FF0" "0x20"] by auto
qed

section \<open>The protection of a range\<close>

lemma steps_ok_members: "steps_ok cmp r0 (ms @ [l]) \<Longrightarrow> r \<in> set ms \<Longrightarrow> \<exists>q. cmp r0 r q"
proof (induction ms)
  case (Cons x ms)
  show ?case
  proof (cases ms)
    case Nil
    then show ?thesis using Cons.prems by auto
  next
    case (Cons y ys)
    then show ?thesis using Cons.prems Cons.IH by auto
  qed
qed simp

lemma vm_shows_Some_member:
  "vm_shows rs a = Some x \<Longrightarrow> \<exists>r\<in>set rs. r_beg r \<le> a \<and> a < r_end r \<and>
    x = (r_mobj r, unat (r_offset r) + (a - r_beg r), r_attr r, r_flags r)"
  by (induction rs) (auto split: if_splits)

lemma vm_get_prot_facts:
  assumes "platform_ok pl" and "vm_wf pl (um_regions s)" and "vm_get_prot va len s = (Ok prot, s1)"
  shows "s1 = s" and "unat va + unat len < 2 ^ 64"
    and "\<exists>l\<in>set (um_regions s). r_beg l < unat va + unat len \<and> unat va + unat len \<le> r_end l \<and>
      (\<forall>a. unat va \<le> a \<and> a < unat va + unat len \<longrightarrow> (\<exists>m offs attr flags. vm_shows (um_regions s) a = Some (m, offs, attr, flags) \<and>
        (a < r_beg l \<or> r_beg l \<le> unat va \<longrightarrow> attr AND TEE_MATTR_PROT_MASK = prot)))"
proof -
  show "s1 = s"
    using assms(3) by (auto simp: vm_get_prot_def io_bind_def get_regions_def io_fail_def io_ret_def split: if_splits option.splits)
  have pos: "0 < unat len"
    using assms(3) by (auto simp: vm_get_prot_def io_fail_def unat_gt_0 split: if_splits)
  obtain i where i: "find_vm_region (um_regions s) va = Some i" and k: "va_range_is_contiguous (um_regions s) i va len cmp_region_for_get_prot"
      and prot: "prot = r_attr (um_regions s ! i) AND TEE_MATTR_PROT_MASK"
    using assms(3) by (auto simp: vm_get_prot_def io_bind_def get_regions_def io_fail_def io_ret_def split: if_splits option.splits)
  show "unat va + unat len < 2 ^ 64"
    using k by (auto simp: va_range_is_contiguous_def add_overflow_Some split: option.splits)
  note c = wf_chain [OF assms(2)]
  obtain xs ms l ys where f: "um_regions s = xs @ (ms @ [l]) @ ys" "i = length xs"
      "r_beg (um_regions s ! i) \<le> unat va" "unat va < r_end (um_regions s ! i)"
      "touching (r_beg (um_regions s ! i)) (ms @ [l]) (r_end l)"
      "r_beg l < unat va + unat len" "unat va + unat len \<le> r_end l" "steps_ok cmp_region_for_get_prot (um_regions s ! i) (ms @ [l])"
    using range_regions [OF i k c platform_range [OF assms(1)] pos] by metis
  let ?r0 = "um_regions s ! i"
  have r0: "?r0 = hd (ms @ [l])" unfolding f(1) f(2) by (cases ms) simp_all
  have same: "r_attr r AND TEE_MATTR_PROT_MASK = prot" if "r \<in> set ms" for r
    using steps_ok_members [OF f(8) that] prot by (auto simp: cmp_region_for_get_prot_def)
  have wf2: "chain (unat (pl_va_base pl)) (xs @ (ms @ [l]) @ ys) (range_end pl)" using c f(1) by simp
  then have front: "chain (unat (pl_va_base pl)) (xs @ ms) (r_beg l)"
    using chain_split [of "unat (pl_va_base pl)" "xs @ ms" l ys "range_end pl"] by simp
  have only: "r_attr l AND TEE_MATTR_PROT_MASK = prot" if "r_beg l \<le> unat va"
  proof (cases ms)
    case Nil
    then show ?thesis using r0 prot by simp
  next
    case (Cons r ms2)
    then have "r_end ?r0 \<le> r_beg l" using r0 chain_region_ok [OF front, of ?r0] by simp
    then show ?thesis using that f(4) by simp
  qed
  show "\<exists>l\<in>set (um_regions s). r_beg l < unat va + unat len \<and> unat va + unat len \<le> r_end l \<and>
      (\<forall>a. unat va \<le> a \<and> a < unat va + unat len \<longrightarrow> (\<exists>m offs attr flags. vm_shows (um_regions s) a = Some (m, offs, attr, flags) \<and>
        (a < r_beg l \<or> r_beg l \<le> unat va \<longrightarrow> attr AND TEE_MATTR_PROT_MASK = prot)))"
  proof (intro bexI [of _ l] conjI allI impI)
    fix a assume a: "unat va \<le> a \<and> a < unat va + unat len"
    then have in1: "r_beg ?r0 \<le> a" "a < r_end l" using f(3,7) by simp_all
    have "ms @ [l] \<noteq> []" by simp
    note w = vm_shows_without(2) [OF wf2 f(5) this in1]
    then obtain x where x: "vm_shows (ms @ [l]) a = Some x" by blast
    obtain r where r: "r \<in> set (ms @ [l])" "r_beg r \<le> a" "a < r_end r"
        "x = (r_mobj r, unat (r_offset r) + (a - r_beg r), r_attr r, r_flags r)"
      using vm_shows_Some_member [OF x] by blast
    have "r_attr r AND TEE_MATTR_PROT_MASK = prot" if "a < r_beg l \<or> r_beg l \<le> unat va"
      using that r(1,2) same only by auto
    then show "\<exists>m offs attr flags. vm_shows (um_regions s) a = Some (m, offs, attr, flags) \<and>
        (a < r_beg l \<or> r_beg l \<le> unat va \<longrightarrow> attr AND TEE_MATTR_PROT_MASK = prot)"
      using w x r(4) f(1) by simp
  qed (use f in simp_all)
qed



section \<open>Private memory\<close>

text \<open>
  C40: The test whether a buffer lies in private memory is exact. The test whether a buffer meets private memory
  finds nothing in an address space whose regions are valid blocks, as all those of \<open>vm_map_pad\<close> are: it compares the
  attributes with the bits of the flags, one of which is the bit of a valid block.
\<close>

theorem vm_private_tests:
  assumes "platform_ok pl" and "vm_wf pl rs" and "\<forall>r\<in>set rs. r_attr r AND TEE_MATTR_VALID_BLOCK \<noteq> 0"
  shows "(vm_buf_is_inside_um_private rs va sz \<longleftrightarrow> 0 < unat sz \<and>
      (\<exists>r\<in>set rs. r_flags r AND VM_FLAGS_NONPRIV = 0 \<and> r_beg r \<le> unat va \<and> unat va + unat sz \<le> r_end r)) \<and>
    \<not> vm_buf_intersects_um_private rs va sz"
proof
  show "vm_buf_is_inside_um_private rs va sz \<longleftrightarrow> 0 < unat sz \<and>
      (\<exists>r\<in>set rs. r_flags r AND VM_FLAGS_NONPRIV = 0 \<and> r_beg r \<le> unat va \<and> unat va + unat sz \<le> r_end r)"
    by (rule private_iff [OF assms(1,2)])
  have "x AND TEE_MATTR_VALID_BLOCK = 0" if "x AND VM_FLAGS_NONPRIV = 0" for x :: "16 word"
  proof -
    have "TEE_MATTR_VALID_BLOCK = VM_FLAGS_NONPRIV AND TEE_MATTR_VALID_BLOCK"
      by (simp add: VM_FLAGS_NONPRIV_def VM_FLAG_EPHEMERAL_def VM_FLAG_PERMANENT_def VM_FLAG_SHAREABLE_def TEE_MATTR_VALID_BLOCK_def)
    then have "x AND TEE_MATTR_VALID_BLOCK = (x AND VM_FLAGS_NONPRIV) AND TEE_MATTR_VALID_BLOCK" by (metis and.assoc)
    then show ?thesis using that by simp
  qed
  then show "\<not> vm_buf_intersects_um_private rs va sz"
    using assms(3) by (auto simp: vm_buf_intersects_um_private_def list_ex_iff)
qed

theorem vm_private_tests_witness:
  "vm_buf_is_inside_um_private (um_regions sample_ctx) 0x40001000 0x10 \<and>
   \<not> vm_buf_intersects_um_private (um_regions sample_ctx) 0x40001000 0x10"
proof -
  have v: "\<forall>r\<in>set (um_regions sample_ctx). r_attr r AND TEE_MATTR_VALID_BLOCK \<noteq> 0"
    by (simp add: sample_regions TEE_MATTR_VALID_BLOCK_def)
  show ?thesis
    using vm_private_tests [OF sample_ok v, of "0x40001000" "0x10"] by (simp add: sample_regions r_beg_def r_end_def)
qed

section \<open>Translation tables\<close>

text \<open>A translation table serves \<open>p\<close> bytes; number \<open>k\<close> is used by a region that meets its addresses.\<close>

definition uses_table :: "nat \<Rightarrow> vm_region \<Rightarrow> nat \<Rightarrow> bool" where
  "uses_table p r k = (k * p < r_end r \<and> r_beg r < (k + 1) * p)"

definition flushes :: "nat \<Rightarrow> vm_event list \<Rightarrow> nat \<Rightarrow> bool" where
  "flushes p evs k = (\<exists>first end_va. Flush_tables first end_va \<in> set evs \<and> unat first \<le> k * p \<and> (k + 1) * p \<le> unat end_va)"

lemma round_down_le: "0 < p \<Longrightarrow> x div p * p \<le> k * p \<longleftrightarrow> x < (k + 1) * (p :: nat)"
proof -
  assume pos: "0 < p"
  have "x div p * p \<le> k * p \<longleftrightarrow> x div p < k + 1" using pos by auto
  also have "\<dots> \<longleftrightarrow> x < (k + 1) * p" by (rule div_less_iff_less_mult [OF pos])
  finally show ?thesis .
qed

lemma le_round_down: "0 < p \<Longrightarrow> k * p \<le> x div p * p \<longleftrightarrow> k * p \<le> (x :: nat)"
  by (simp only: mult_le_cancel2 less_eq_div_iff_mult_less_eq) simp

lemma round_up_le: "0 < p \<Longrightarrow> (x + (p - 1)) div p * p \<le> k * p \<longleftrightarrow> x \<le> k * (p :: nat)"
  by (subst round_down_le) (auto simp: algebra_simps)

lemma le_round_up: "0 < p \<Longrightarrow> (k + 1) * p \<le> (x + (p - 1)) div p * p \<longleftrightarrow> k * p < (x :: nat)"
  by (subst le_round_down) (auto simp: algebra_simps)

lemma unat_min: "unat (min a b) = min (unat a) (unat (b :: 64 word))"
  by (simp add: min_def word_le_nat_alt)

lemma unat_max: "unat (max a b) = max (unat a) (unat (b :: 64 word))"
  by (simp add: max_def word_le_nat_alt)

lemma pgdir_round:
  assumes "platform_ok pl"
  shows "0 < unat (pl_pgdir_size pl)"
    and "unat (ROUNDDOWN v (pl_pgdir_size pl)) = unat v div unat (pl_pgdir_size pl) * unat (pl_pgdir_size pl)"
    and "unat v \<le> range_end pl \<Longrightarrow>
      unat (ROUNDUP v (pl_pgdir_size pl)) = (unat v + (unat (pl_pgdir_size pl) - 1)) div unat (pl_pgdir_size pl) * unat (pl_pgdir_size pl)"
proof -
  obtain n where n: "pl_pgdir_size pl = push_bit n 1" "unat (pl_pgdir_size pl) = 2 ^ n" "n < 64"
    using assms by (auto simp: platform_ok_def elim: IS_POWER_OF_TWO_obtains)
  show "0 < unat (pl_pgdir_size pl)" using n(2) by simp
  show "unat (ROUNDDOWN v (pl_pgdir_size pl)) = unat v div unat (pl_pgdir_size pl) * unat (pl_pgdir_size pl)"
    unfolding n(2) unfolding n(1) by (rule ROUNDDOWN_unat)
  show "unat (ROUNDUP v (pl_pgdir_size pl)) = (unat v + (unat (pl_pgdir_size pl) - 1)) div unat (pl_pgdir_size pl) * unat (pl_pgdir_size pl)"
    if "unat v \<le> range_end pl"
  proof -
    have "unat v + 2 ^ n \<le> 2 ^ 64" using that assms n(2) by (simp add: platform_ok_def range_end_def)
    then show ?thesis unfolding n(2) unfolding n(1) using n(3) by (intro ROUNDUP_nat)
  qed
qed

lemma flush_bounds_iff:
  assumes "platform_ok pl" and "vm_wf pl (xs @ r # ys)" and "flush_bounds pl (xs @ r # ys) (length xs) = (first, end_va)"
  defines "p \<equiv> unat (pl_pgdir_size pl)"
  shows "unat first \<le> k * p \<and> (k + 1) * p \<le> unat end_va \<longleftrightarrow> uses_table p r k \<and> (\<forall>q\<in>set (xs @ ys). \<not> uses_table p q k)"
proof -
  note c = wf_chain [OF assms(2)] and hi = platform_range [OF assms(1)]
  note rd = pgdir_round [OF assms(1), folded p_def]
  have e: "unat (r_va q + r_size q) = r_end q" "r_end q \<le> range_end pl" "r_beg q < r_end q" if "q \<in> set (xs @ r # ys)" for q
    using chain_word_end [OF c hi that] chain_region_ok [OF c that] by (simp_all add: region_ok_def r_beg_def r_end_def)
  have cx: "chain (unat (pl_va_base pl)) xs (r_beg r)" and cy: "chain (r_end r) ys (range_end pl)"
    using c by (simp_all add: chain_split)
  have down: "unat (ROUNDDOWN (r_va q) (pl_pgdir_size pl)) = r_beg q div p * p" for q using rd(2) by (simp add: r_beg_def)
  have up: "unat (ROUNDUP (r_va q + r_size q) (pl_pgdir_size pl)) = (r_end q + (p - 1)) div p * p" if "q \<in> set (xs @ r # ys)" for q
    using rd(3) [of "r_va q + r_size q"] e [OF that] by simp
  have first: "unat first \<le> k * p \<longleftrightarrow> r_beg r < (k + 1) * p \<and> (xs \<noteq> [] \<longrightarrow> r_end (last xs) \<le> k * p)"
  proof (cases "xs = []")
    case True
    then show ?thesis using assms(3) down [of r] round_down_le [OF rd(1), of "r_beg r" k] by (auto simp: flush_bounds_def Let_def)
  next
    case False
    then have "(xs @ r # ys) ! (length xs - 1) = last xs" by (simp add: nth_append last_conv_nth)
    then have "unat first = max (r_beg r div p * p) ((r_end (last xs) + (p - 1)) div p * p)"
      using assms(3) False down [of r] up [of "last xs"] by (auto simp: flush_bounds_def Let_def unat_max)
    then show ?thesis
      using False round_down_le [OF rd(1), of "r_beg r" k] round_up_le [OF rd(1), of "r_end (last xs)" k] by simp
  qed
  have last: "(k + 1) * p \<le> unat end_va \<longleftrightarrow> k * p < r_end r \<and> (ys \<noteq> [] \<longrightarrow> (k + 1) * p \<le> r_beg (hd ys))"
  proof (cases ys)
    case Nil
    then show ?thesis using assms(3) up [of r] le_round_up [OF rd(1), of k "r_end r"] by (auto simp: flush_bounds_def Let_def)
  next
    case (Cons y zs)
    then have "unat end_va = min ((r_end r + (p - 1)) div p * p) (r_beg y div p * p)"
      using assms(3) down [of y] up [of r] by (auto simp: flush_bounds_def Let_def unat_min nth_append)
    then show ?thesis
      using Cons le_round_up [OF rd(1), of k "r_end r"] le_round_down [OF rd(1), of "k + 1" "r_beg y"] by simp
  qed
  have before: "(xs \<noteq> [] \<longrightarrow> r_end (last xs) \<le> k * p) \<longleftrightarrow> (\<forall>q\<in>set xs. \<not> uses_table p q k)" if "r_beg r < (k + 1) * p"
  proof (cases "xs = []")
    case False
    then obtain zs q where q: "xs = zs @ [q]" by (metis append_butlast_last_id)
    have "r_end q \<le> r_beg r" "r_beg q < r_end q" using chain_region_ok [OF cx, of q] e(3) [of q] q by simp_all
    moreover have "r_end z \<le> r_end q" if "z \<in> set zs" for z
      using cx that q e(3) [of q] chain_region_ok [of "unat (pl_va_base pl)" zs "r_beg q" z] by (simp add: chain_snoc)
    ultimately show ?thesis using that q by (fastforce simp: uses_table_def not_less)
  qed simp
  have after: "(ys \<noteq> [] \<longrightarrow> (k + 1) * p \<le> r_beg (hd ys)) \<longleftrightarrow> (\<forall>q\<in>set ys. \<not> uses_table p q k)" if "k * p < r_end r"
  proof (cases ys)
    case (Cons y zs)
    have "r_end r \<le> r_beg y" "r_beg y < r_end y" using cy Cons e(3) [of y] by simp_all
    moreover have "r_beg y \<le> r_beg z" if "z \<in> set zs" for z
      using cy Cons that e(3) [of y] chain_region_ok [of "r_end y" zs "range_end pl" z] by simp
    ultimately show ?thesis using that Cons by (fastforce simp: uses_table_def not_less)
  qed simp
  show ?thesis using first last before after by (auto simp: uses_table_def)
qed

text \<open>
  C17: When a region is taken out, \<open>rem_um_region\<close> gives back exactly the translation tables that served this region and
  no other one: as the comment in the code says, flushing too many or too few tables can be fatal.
\<close>

theorem rem_um_region_flushes_exactly:
  assumes "platform_ok pl" and "vm_wf pl (um_regions s)" and "um_regions s = xs @ r # ys"
  shows "\<exists>evs. um_events (snd (rem_um_region pl (length xs) s)) = um_events s @ evs \<and>
    (\<forall>k. flushes (unat (pl_pgdir_size pl)) evs k \<longleftrightarrow>
      uses_table (unat (pl_pgdir_size pl)) r k \<and> (\<forall>q\<in>set (xs @ ys). \<not> uses_table (unat (pl_pgdir_size pl)) q k))"
proof -
  obtain first end_va where b: "flush_bounds pl (xs @ r # ys) (length xs) = (first, end_va)"
    by (cases "flush_bounds pl (xs @ r # ys) (length xs)")
  note iff = flush_bounds_iff [OF assms(1) assms(2)[unfolded assms(3)] b]
  let ?p = "unat (pl_pgdir_size pl)"
  have pos: "0 < ?p" by (rule pgdir_round(1) [OF assms(1)])
  let ?evs = "(if mo_is_paged pl (r_mobj r) then [Pager_rem (r_va r) (r_size r)]
      else [Clear_range (r_va r) (r_va r + r_size r), Tlb_range (r_va r) (r_size r)]) @ (if first < end_va then [Flush_tables first end_va] else [])"
  have evs: "um_events (snd (rem_um_region pl (length xs) s)) = um_events s @ ?evs"
    using assms(3) b by (simp add: rem_um_region_def vm_defs Let_def)
  have "flushes ?p ?evs k \<longleftrightarrow> unat first \<le> k * ?p \<and> (k + 1) * ?p \<le> unat end_va" for k
  proof (cases "first < end_va")
    case False
    then have "unat end_va \<le> unat first" by (simp add: word_less_nat_alt)
    moreover have "k * ?p < (k + 1) * ?p" using pos by simp
    ultimately show ?thesis using False by (auto simp: flushes_def)
  qed (auto simp: flushes_def)
  then show ?thesis using evs iff by blast
qed

text \<open>The two regions of the sample share a table, which no removal of one of them gives back.\<close>

theorem rem_um_region_flushes_exactly_witness:
  "\<not> flushes 0x200000 (um_events (snd (rem_um_region sample_platform 0 sample_ctx))) 0x200"
proof -
  have p: "unat (pl_pgdir_size sample_platform) = 0x200000" by (simp add: sample_platform_def)
  obtain r q where rs: "um_regions sample_ctx = [] @ r # [q]" "r_beg q = 0x40003000" "r_end q = 0x40005000"
    by (simp add: sample_regions r_beg_def r_end_def)
  have "um_events sample_ctx = []" by (simp add: sample_ctx_def)
  then show ?thesis
    using rem_um_region_flushes_exactly [OF sample_ok rs(1)] rs(2,3) unfolding p by (auto simp: uses_table_def)
qed

end
