(* ===== verification/VmParam.thy ===== *)
theory VmParam
  imports VmOps
begin

text \<open>
  The memory of the parameters of an invocation (\<open>vm_map_param\<close> of \<open>core/mm/vm.c\<close>): the buffers of up to four
  parameters are rounded to pages, sorted and merged, and each merged range is mapped for the time of the call.
\<close>

section \<open>The ranges of the parameters\<close>

record param_mem =
  pm_mobj :: nat
  pm_size :: "64 word"
  pm_offs :: "64 word"

record tee_ta_param =
  tp_types :: "32 word"
  tp_mem :: "param_mem list"

definition TEE_NUM_PARAMS :: nat where "TEE_NUM_PARAMS = 4"

definition TEE_PARAM_TYPE_GET :: "32 word \<Rightarrow> nat \<Rightarrow> 32 word" where
  "TEE_PARAM_TYPE_GET t i = drop_bit (i * 4) t AND 0xF"

text \<open>The types of input, output and in-out memory references.\<close>

definition is_memref :: "tee_ta_param \<Rightarrow> nat \<Rightarrow> bool" where
  "is_memref p n = (TEE_PARAM_TYPE_GET (tp_types p) n \<in> {5, 6, 7})"

definition phys_offs_of :: "vm_platform \<Rightarrow> nat \<Rightarrow> 64 word" where
  "phys_offs_of pl mobj = (if mobj = 0 then 0 else mo_phys_offs pl mobj CORE_MMU_USER_PARAM_SIZE)"

definition page_range :: "vm_platform \<Rightarrow> param_mem \<Rightarrow> param_mem" where
  "page_range pl m =
     (let start = phys_offs_of pl (pm_mobj m) + pm_offs m;
          offs = ROUNDDOWN start CORE_MMU_USER_PARAM_SIZE;
          sz = ROUNDUP (start - offs + pm_size m) CORE_MMU_USER_PARAM_SIZE in
      \<lparr>pm_mobj = pm_mobj m, pm_size = (if sz = 0 then CORE_MMU_USER_PARAM_SIZE else sz), pm_offs = offs\<rparr>)"

definition no_mem :: param_mem where
  "no_mem = \<lparr>pm_mobj = 0, pm_size = 0, pm_offs = 0\<rparr>"

definition param_ranges :: "vm_platform \<Rightarrow> tee_ta_param \<Rightarrow> param_mem list" where
  "param_ranges pl p = map (\<lambda>n. if is_memref p n then page_range pl (tp_mem p ! n) else no_mem) [0..<TEE_NUM_PARAMS]"

definition CMP_TRILEAN :: "'a::linorder \<Rightarrow> 'a \<Rightarrow> int" where
  "CMP_TRILEAN a b = (if a < b then -1 else if a > b then 1 else 0)"

definition cmp_param_mem :: "vm_platform \<Rightarrow> param_mem \<Rightarrow> param_mem \<Rightarrow> int" where
  "cmp_param_mem pl m0 m1 =
     (if pm_mobj m0 = 0 \<and> pm_mobj m1 = 0 then 0
      else if pm_mobj m0 = 0 then 1
      else if pm_mobj m1 = 0 then -1
      else let c = CMP_TRILEAN (mo_is_secure pl (pm_mobj m0)) (mo_is_secure pl (pm_mobj m1)) in
        if c \<noteq> 0 then c
        else let c = CMP_TRILEAN (pm_mobj m0) (pm_mobj m1) in
          if c \<noteq> 0 then c
          else let c = CMP_TRILEAN (pm_offs m0) (pm_offs m1) in
            if c \<noteq> 0 then c else CMP_TRILEAN (pm_size m0) (pm_size m1))"

text \<open>\<open>qsort\<close> of the C library; elements that compare as equal are equal, or unused.\<close>

fun insert_mem :: "vm_platform \<Rightarrow> param_mem \<Rightarrow> param_mem list \<Rightarrow> param_mem list" where
  "insert_mem pl x [] = [x]"
| "insert_mem pl x (y # ys) = (if cmp_param_mem pl x y \<le> 0 then x # y # ys else y # insert_mem pl x ys)"

definition sort_mem :: "vm_platform \<Rightarrow> param_mem list \<Rightarrow> param_mem list" where
  "sort_mem pl xs = foldr (insert_mem pl) xs []"

fun merge_mem :: "param_mem \<Rightarrow> param_mem list \<Rightarrow> param_mem list" where
  "merge_mem cur [] = [cur]"
| "merge_mem cur (x # xs) =
     (if pm_mobj x = 0 then [cur]
      else if pm_mobj x = pm_mobj cur \<and>
          (pm_offs x = pm_offs cur + pm_size cur \<or> core_is_buffer_intersect (pm_offs cur) (pm_size cur) (pm_offs x) (pm_size x))
        then merge_mem (cur\<lparr>pm_size := pm_offs x + pm_size x - pm_offs cur\<rparr>) xs
      else cur # merge_mem x xs)"

definition merged_ranges :: "vm_platform \<Rightarrow> tee_ta_param \<Rightarrow> param_mem list" where
  "merged_ranges pl p = (case sort_mem pl (param_ranges pl p) of
     [] \<Rightarrow> [] | x # xs \<Rightarrow> if pm_mobj x = 0 then [] else merge_mem x xs)"

section \<open>Mapping them\<close>

definition check_param_map_empty :: "unit vm" where
  "check_param_map_empty = io_bind get_regions (\<lambda>rs.
     if list_ex (\<lambda>r. r_flags r AND VM_FLAG_EPHEMERAL \<noteq> 0) rs then io_stuck else io_ret ())"

fun param_mem_to_user_va :: "vm_platform \<Rightarrow> vm_region list \<Rightarrow> param_mem \<Rightarrow> tee_result + 64 word" where
  "param_mem_to_user_va pl [] m = Inl TEE_ERROR_GENERIC"
| "param_mem_to_user_va pl (r # rs) m =
     (let phys_offs = phys_offs_of pl (pm_mobj m) + pm_offs m in
      if r_flags r AND VM_FLAG_EPHEMERAL = 0 \<or> pm_mobj m \<noteq> r_mobj r \<or> phys_offs < r_offset r \<or> phys_offs \<ge> r_offset r + r_size r
      then param_mem_to_user_va pl rs m
      else Inr (r_va r + phys_offs - r_offset r))"

definition map_range :: "vm_platform \<Rightarrow> param_mem \<Rightarrow> unit vm" where
  "map_range pl m = io_bind (vm_map pl 0 (pm_size m) (ucast (TEE_MATTR_PR OR TEE_MATTR_PW OR TEE_MATTR_UR OR TEE_MATTR_UW))
     (ucast (VM_FLAG_EPHEMERAL OR VM_FLAG_SHAREABLE)) (pm_mobj m) (pm_offs m)) (\<lambda>_. io_ret ())"

text \<open>The addresses of the parameters from position \<open>n\<close> on; \<open>None\<close> where the entry of the array is left alone.\<close>

fun param_addrs :: "vm_platform \<Rightarrow> vm_region list \<Rightarrow> tee_ta_param \<Rightarrow> nat list \<Rightarrow> tee_result + 64 word option list" where
  "param_addrs pl rs p [] = Inr []"
| "param_addrs pl rs p (n # ns) =
     (case (if \<not> is_memref p n \<or> pm_mobj (tp_mem p ! n) = 0 then Inr None
        else map_sum id Some (param_mem_to_user_va pl rs (tp_mem p ! n))) of
        Inl e \<Rightarrow> Inl e
      | Inr a \<Rightarrow> map_sum id (\<lambda>as. a # as) (param_addrs pl rs p ns))"

definition vm_map_param :: "vm_platform \<Rightarrow> tee_ta_param \<Rightarrow> 64 word option list vm" where
  "vm_map_param pl p = io_bind check_param_map_empty (\<lambda>_.
     io_try (io_bind (for_each (map_range pl) (merged_ranges pl p)) (\<lambda>_. io_bind get_regions (\<lambda>rs.
         case param_addrs pl rs p [0..<TEE_NUM_PARAMS] of
           Inl e \<Rightarrow> io_fail e
         | Inr addrs \<Rightarrow> io_bind alloc_pgt (\<lambda>_. io_ret addrs))))
       io_ret (\<lambda>e. io_bind (vm_clean_param pl) (\<lambda>_. io_fail e)))"

end
