(* ===== verification/VmLife.thy ===== *)
theory VmLife
  imports VmMove VmAccess VmParam
begin

text \<open>
  The address space over its life: sequences of operations keep the invariant and the balance of references, the end of a
  context gives every reference back, and the parameters of an invocation are mapped all or not at all.
\<close>

section \<open>Removing the parameters\<close>

definition lasting :: "vm_region \<Rightarrow> bool" where
  "lasting r = (r_flags r AND VM_FLAG_EPHEMERAL = 0)"

lemma clean_regions_result:
  assumes "um_regions s = xs @ ys" and "vm_wf pl (um_regions s)"
  shows "\<exists>s1. clean_regions pl (length xs) ys s = (Ok (), s1) \<and> um_regions s1 = xs @ filter lasting ys \<and>
    vm_wf pl (um_regions s1) \<and> vm_balance s1 = vm_balance s"
  using assms
proof (induction ys arbitrary: xs s)
  case Nil
  then show ?case by (simp add: io_ret_def)
next
  case (Cons r ys)
  show ?case
  proof (cases "lasting r")
    case True
    have rs: "um_regions s = (xs @ [r]) @ ys" using Cons.prems(1) by simp
    from Cons.IH [OF rs Cons.prems(2)] show ?thesis using True by (simp add: lasting_def)
  next
    case False
    obtain s1 where s1: "\<And>k :: unit vm. io_bind (rem_um_region pl (length xs)) (\<lambda>_. io_bind (umap_remove_region (length xs)) (\<lambda>_. k)) s = k s1"
        "um_regions s1 = xs @ ys" "vm_wf pl (um_regions s1)" "vm_balance s1 = vm_balance s"
      using drop_region [OF Cons.prems] by metis
    from Cons.IH [OF s1(2,3)] show ?thesis using False s1(1,4) by (simp add: lasting_def)
  qed
qed

lemma vm_clean_param_result:
  assumes "vm_wf pl (um_regions s)"
  shows "\<exists>s1. vm_clean_param pl s = (Ok (), s1) \<and> um_regions s1 = filter lasting (um_regions s) \<and>
    vm_wf pl (um_regions s1) \<and> vm_balance s1 = vm_balance s"
  using clean_regions_result [of s "[]"] assms by (simp add: vm_clean_param_def region_binds)

text \<open>What the lasting regions show.\<close>

definition keeps :: "(nat \<times> nat \<times> 16 word \<times> 16 word) option \<Rightarrow> (nat \<times> nat \<times> 16 word \<times> 16 word) option" where
  "keeps b = (case b of None \<Rightarrow> None | Some (m, offs, attr, f) \<Rightarrow> if f AND VM_FLAG_EPHEMERAL = 0 then b else None)"

lemma vm_shows_lasting: "chain lo rs hi \<Longrightarrow> vm_shows (filter lasting rs) a = keeps (vm_shows rs a)"
proof (induction rs arbitrary: lo)
  case (Cons r rs)
  have c: "chain (r_end r) rs hi" using Cons.prems by simp
  show ?case
  proof (cases "r_beg r \<le> a \<and> a < r_end r")
    case True
    then have "vm_shows rs a = None" using vm_shows_None [OF c, of a] by simp
    then show ?thesis using True Cons.IH [OF c] by (simp add: keeps_def lasting_def)
  next
    case False
    then have out: "vm_shows (r # rs) a = vm_shows rs a" "vm_shows (r # zs) a = vm_shows zs a" for zs by auto
    show ?thesis unfolding out using Cons.IH [OF c] out(2) by simp
  qed
qed (simp add: keeps_def)

section \<open>Sequences of operations\<close>

datatype vm_op =
    Map_pad "64 word" "64 word" "32 word" "32 word" nat "64 word" "64 word" "64 word" "64 word"
  | Set_prot "64 word" "64 word" "32 word"
  | Unmap "64 word" "64 word"
  | Remap "64 word" "64 word" "64 word" "64 word" "64 word"
  | Clean_param
  | Add_rwmem nat
  | Rem_rwmem nat "64 word"
  | Get_mobj "64 word" "64 word"

definition done_vm :: "'a vm \<Rightarrow> unit vm" where
  "done_vm m = io_bind m (\<lambda>_. io_ret ())"

fun run_op :: "vm_platform \<Rightarrow> vm_op \<Rightarrow> unit vm" where
  "run_op pl (Map_pad va len prot flags mobj offs pad_begin pad_end align) = done_vm (vm_map_pad pl va len prot flags mobj offs pad_begin pad_end align)"
| "run_op pl (Set_prot va len prot) = vm_set_prot pl va len prot"
| "run_op pl (Unmap va len) = vm_unmap pl va len"
| "run_op pl (Remap new_va old_va len pad_begin pad_end) = done_vm (vm_remap pl new_va old_va len pad_begin pad_end)"
| "run_op pl Clean_param = vm_clean_param pl"
| "run_op pl (Add_rwmem mobj) = done_vm (vm_add_rwmem pl mobj)"
| "run_op pl (Rem_rwmem mobj va) = vm_rem_rwmem pl mobj va"
| "run_op pl (Get_mobj va len) = done_vm (vm_get_mobj va len)"

text \<open>What the code expects of its callers: a length that is not zero and can be rounded up.\<close>

definition page_len :: "64 word \<Rightarrow> bool" where
  "page_len len = (0 < unat len \<and> unat len + 4096 \<le> 2 ^ 64)"

fun op_ok :: "vm_platform \<Rightarrow> vm_op \<Rightarrow> bool" where
  "op_ok pl (Map_pad va len prot flags mobj offs pad_begin pad_end align) = page_len len"
| "op_ok pl (Add_rwmem mobj) = page_len (mo_size pl mobj)"
| "op_ok pl op = True"

text \<open>The references that an operation takes from its caller, or hands to it.\<close>

fun hands_over :: "vm_op \<Rightarrow> bool" where
  "hands_over (Add_rwmem mobj) = True"
| "hands_over (Get_mobj va len) = True"
| "hands_over op = False"

inductive vm_reach :: "vm_platform \<Rightarrow> user_mode_ctx \<Rightarrow> vm_op list \<Rightarrow> user_mode_ctx \<Rightarrow> bool" for pl where
  vm_start: "vm_reach pl s [] s"
| vm_step: "vm_reach pl s ops s1 \<Longrightarrow> op_ok pl op \<Longrightarrow> run_op pl op s1 = (r, s2) \<Longrightarrow> r \<noteq> Stuck \<Longrightarrow> vm_reach pl s (op # ops) s2"

lemma vm_reach_run:
  "vm_reach pl s ops s1 \<Longrightarrow> op_ok pl op \<Longrightarrow> fst (run_op pl op s1) \<noteq> Stuck \<Longrightarrow> vm_reach pl s (op # ops) (snd (run_op pl op s1))"
  by (rule vm_step [where r = "fst (run_op pl op s1)"]) simp_all

definition vm_keeps :: "vm_platform \<Rightarrow> 'a vm \<Rightarrow> bool" where
  "vm_keeps pl m = (\<forall>s. vm_wf pl (um_regions s) \<longrightarrow> fst (m s) \<noteq> Stuck \<longrightarrow> vm_wf pl (um_regions (snd (m s))))"

definition vm_balanced :: "vm_platform \<Rightarrow> 'a vm \<Rightarrow> bool" where
  "vm_balanced pl m = (\<forall>s. vm_wf pl (um_regions s) \<longrightarrow> fst (m s) \<noteq> Stuck \<longrightarrow> vm_balance (snd (m s)) = vm_balance s)"

lemma vm_keeps_balanced:
  assumes "\<And>s r s1. vm_wf pl (um_regions s) \<Longrightarrow> m s = (r, s1) \<Longrightarrow> r \<noteq> Stuck \<Longrightarrow> vm_wf pl (um_regions s1) \<and> vm_balance s1 = vm_balance s"
  shows "vm_keeps pl m \<and> vm_balanced pl m"
  using assms by (simp add: vm_keeps_def vm_balanced_def) (metis prod.collapse)

lemma done_vm_result: "snd (done_vm m s) = snd (m s) \<and> (fst (done_vm m s) = Stuck \<longleftrightarrow> fst (m s) = Stuck)"
  by (simp add: done_vm_def io_bind_def io_ret_def split: prod.split io.split)

lemma done_vm_keeps: "vm_keeps pl m \<Longrightarrow> vm_keeps pl (done_vm m)"
  by (simp add: vm_keeps_def done_vm_result)

lemma done_vm_both: "vm_keeps pl m \<and> vm_balanced pl m \<Longrightarrow> vm_keeps pl (done_vm m) \<and> vm_balanced pl (done_vm m)"
  by (simp add: vm_keeps_def vm_balanced_def done_vm_result)

lemma vm_map_pad_keeps:
  assumes "platform_ok pl" and "page_len len"
  shows "vm_keeps pl (vm_map_pad pl va len prot flags mobj offs pad_begin pad_end align) \<and>
    vm_balanced pl (vm_map_pad pl va len prot flags mobj offs pad_begin pad_end align)"
proof (rule vm_keeps_balanced)
  fix s r s1
  assume s: "vm_wf pl (um_regions s)" "vm_map_pad pl va len prot flags mobj offs pad_begin pad_end align s = (r, s1)" "r \<noteq> Stuck"
  have "0 < unat len" "unat len + 4096 \<le> 2 ^ 64" using assms(2) by (simp_all add: page_len_def)
  from vm_map_pad_result [OF assms(1) s(1) this, where va = va and prot = prot and flags = flags and mobj = mobj and offs = offs
      and pad_begin = pad_begin and pad_end = pad_end and align = align]
  show "vm_wf pl (um_regions s1) \<and> vm_balance s1 = vm_balance s"
    using s by (cases r) (simp_all add: vm_balance_def fun_eq_iff)
qed

lemma vm_set_prot_keeps:
  assumes "platform_ok pl"
  shows "vm_keeps pl (vm_set_prot pl va len prot) \<and> vm_balanced pl (vm_set_prot pl va len prot)"
proof (rule vm_keeps_balanced)
  fix s r s1
  assume s: "vm_wf pl (um_regions s)" "vm_set_prot pl va len prot s = (r, s1)" "r \<noteq> Stuck"
  from vm_set_prot_result [OF assms s(1), where va = va and len = len and prot = prot]
  show "vm_wf pl (um_regions s1) \<and> vm_balance s1 = vm_balance s" using s by (cases r) (simp_all add: vm_same_def)
qed

lemma vm_unmap_keeps:
  assumes "platform_ok pl"
  shows "vm_keeps pl (vm_unmap pl va len) \<and> vm_balanced pl (vm_unmap pl va len)"
proof (rule vm_keeps_balanced)
  fix s r s1
  assume s: "vm_wf pl (um_regions s)" "vm_unmap pl va len s = (r, s1)" "r \<noteq> Stuck"
  from vm_unmap_result [OF assms s(1), where va = va and len = len]
  show "vm_wf pl (um_regions s1) \<and> vm_balance s1 = vm_balance s" using s by (cases r) (simp_all add: vm_same_def)
qed

lemma vm_remap_keeps:
  assumes "platform_ok pl"
  shows "vm_keeps pl (vm_remap pl new_va old_va len pad_begin pad_end) \<and> vm_balanced pl (vm_remap pl new_va old_va len pad_begin pad_end)"
proof (rule vm_keeps_balanced)
  fix s r s1
  assume s: "vm_wf pl (um_regions s)" "vm_remap pl new_va old_va len pad_begin pad_end s = (r, s1)" "r \<noteq> Stuck"
  from vm_remap_result [OF assms s(1), where new_va = new_va and old_va = old_va and len = len and pad_begin = pad_begin and pad_end = pad_end]
  show "vm_wf pl (um_regions s1) \<and> vm_balance s1 = vm_balance s" using s by (cases r) (simp_all add: vm_same_def)
qed

lemma vm_clean_param_keeps: "vm_keeps pl (vm_clean_param pl) \<and> vm_balanced pl (vm_clean_param pl)"
proof (rule vm_keeps_balanced)
  fix s r s1
  assume s: "vm_wf pl (um_regions s)" "vm_clean_param pl s = (r, s1)"
  then show "vm_wf pl (um_regions s1) \<and> vm_balance s1 = vm_balance s" using vm_clean_param_result [OF s(1)] by auto
qed

lemma find_rwmem_less: "find_rwmem m va rs = Some i \<Longrightarrow> i < length rs"
  by (induction rs arbitrary: i) (auto split: if_splits)

lemma vm_rem_rwmem_keeps: "vm_keeps pl (vm_rem_rwmem pl mobj va) \<and> vm_balanced pl (vm_rem_rwmem pl mobj va)"
proof (rule vm_keeps_balanced)
  fix s r s1
  assume s: "vm_wf pl (um_regions s)" "vm_rem_rwmem pl mobj va s = (r, s1)"
  show "vm_wf pl (um_regions s1) \<and> vm_balance s1 = vm_balance s"
  proof (cases "find_rwmem mobj va (um_regions s)")
    case None
    then show ?thesis using s by (simp add: vm_rem_rwmem_def region_binds io_ret_def)
  next
    case (Some i)
    let ?rs = "um_regions s"
    have i: "i < length ?rs" by (rule find_rwmem_less [OF Some])
    have rs: "?rs = take i ?rs @ ?rs ! i # drop (Suc i) ?rs" by (rule id_take_nth_drop [OF i])
    have li: "length (take i ?rs) = i" using i by simp
    obtain s2 where s2: "\<And>k :: unit vm. io_bind (rem_um_region pl i) (\<lambda>_. io_bind (umap_remove_region i) (\<lambda>_. k)) s = k s2"
        "vm_wf pl (um_regions s2)" "vm_balance s2 = vm_balance s"
      using drop_region [OF rs s(1), unfolded li] by metis
    have "io_bind (umap_remove_region i) (\<lambda>_. io_ret ()) = umap_remove_region i"
      by (rule ext) (simp add: io_bind_def io_ret_def umap_remove_region_run)
    then have "vm_rem_rwmem pl mobj va s = (Ok (), s2)"
      using Some s2(1) [of "io_ret ()"] by (simp add: vm_rem_rwmem_def region_binds io_ret_def)
    then show ?thesis using s(2) s2(2,3) by simp
  qed
qed

lemma vm_get_mobj_keeps: "vm_keeps pl (vm_get_mobj va len)"
  by (auto simp: vm_keeps_def vm_get_mobj_def get_regions_def io_ret_def io_bind_def mobj_get_def Let_def split: option.split)

text \<open>The reference of the caller is gone even when there are no page tables for the region.\<close>

lemma vm_add_rwmem_keeps:
  assumes "platform_ok pl" and "page_len (mo_size pl mobj)"
  shows "vm_keeps pl (vm_add_rwmem pl mobj)"
  unfolding vm_keeps_def
proof (intro allI impI)
  fix s :: user_mode_ctx
  assume wf: "vm_wf pl (um_regions s)"
  show "vm_wf pl (um_regions (snd (vm_add_rwmem pl mobj s)))"
  proof (cases "\<not> mo_is_secure pl mobj \<or> \<not> mo_is_paged pl mobj")
    case True
    then show ?thesis using wf by (auto simp: vm_add_rwmem_def io_fail_def)
  next
    case False
    let ?reg = "\<lparr>r_mobj = mobj, r_offset = 0, r_va = 0, r_size = ROUNDUP (mo_size pl mobj) SMALL_PAGE_SIZE,
          r_attr = TEE_MATTR_SECURE, r_flags = 0\<rparr>"
    obtain r0 s0 where s0: "vm_memory s = (r0, s0)" by (cases "vm_memory s")
    have wf0: "vm_wf pl (um_regions s0)" using quietD [OF quiet_calls(1) s0] wf by simp
    have pos: "0 < unat (r_size ?reg)" using vm_map_region_ok [of "mo_size pl mobj"] assms(2) by (simp add: page_len_def)
    obtain x s2 where x: "umap_add_region pl ?reg 0 0 0 s0 = (x, s2)" by (cases "umap_add_region pl ?reg 0 0 0 s0")
    show ?thesis
    proof (cases "\<exists>u. r0 = Ok u")
      case ok0: True
      show ?thesis
      proof (cases x)
        case (Ok p)
        obtain i va where p: "p = (i, va)" by (cases p)
        note ad = umap_add_region_added [OF x[unfolded Ok p] assms(1) wf0]
        obtain y s3 where y: "alloc_pgt s2 = (y, s3)" by (cases "alloc_pgt s2")
        note q = quietD [OF quiet_calls(2) y]
        have "vm_wf pl (um_regions s3)" using added_wf(1) [OF ad(1) pos] q by simp
        moreover have "vm_wf pl (remove_at i (um_regions s3))" using ad(3) q wf0 by simp
        ultimately show ?thesis
          using False s0 ok0 x Ok p y by (cases y) (auto simp: vm_add_rwmem_def io_bind_def io_try_def Let_def io_ret_def io_fail_def
              umap_remove_region_run mobj_put_def)
      next
        case (Fail e)
        then show ?thesis using False s0 ok0 x umap_add_region_Fail [OF x[unfolded Fail]] wf0 by (auto simp: vm_add_rwmem_def io_bind_def Let_def)
      next
        case Stuck
        then show ?thesis using x umap_add_region_not_Stuck by blast
      qed
    next
      case not: False
      then show ?thesis using False s0 wf0 by (cases r0) (auto simp: vm_add_rwmem_def io_bind_def)
    qed
  qed
qed

lemma run_op_keeps:
  assumes "platform_ok pl" and "op_ok pl op"
  shows "vm_keeps pl (run_op pl op)" and "\<not> hands_over op \<Longrightarrow> vm_balanced pl (run_op pl op)"
proof -
  have "vm_keeps pl (run_op pl op) \<and> (\<not> hands_over op \<longrightarrow> vm_balanced pl (run_op pl op))"
    using assms(2) done_vm_both [OF vm_map_pad_keeps [OF assms(1)]] vm_set_prot_keeps [OF assms(1)] vm_unmap_keeps [OF assms(1)]
      done_vm_both [OF vm_remap_keeps [OF assms(1)]] vm_clean_param_keeps vm_rem_rwmem_keeps
      done_vm_keeps [OF vm_add_rwmem_keeps [OF assms(1)]] done_vm_keeps [OF vm_get_mobj_keeps]
    by (cases op) simp_all
  then show "vm_keeps pl (run_op pl op)" "\<not> hands_over op \<Longrightarrow> vm_balanced pl (run_op pl op)" by simp_all
qed

lemma vm_reach_wf: "vm_reach pl s ops s1 \<Longrightarrow> platform_ok pl \<Longrightarrow> vm_wf pl (um_regions s) \<Longrightarrow> vm_wf pl (um_regions s1)"
proof (induction rule: vm_reach.induct)
  case (vm_step s ops s1 op r s2)
  then show ?case using run_op_keeps(1) [of pl op] by (auto simp: vm_keeps_def dest: spec [of _ s1])
qed simp

lemma vm_reach_balance:
  "vm_reach pl s ops s1 \<Longrightarrow> platform_ok pl \<Longrightarrow> vm_wf pl (um_regions s) \<Longrightarrow> \<forall>op\<in>set ops. \<not> hands_over op \<Longrightarrow> vm_balance s1 = vm_balance s"
proof (induction rule: vm_reach.induct)
  case (vm_step s ops s1 op r s2)
  have "vm_wf pl (um_regions s1)" by (rule vm_reach_wf [OF vm_step.hyps(1) vm_step.prems(1,2)])
  then show ?case using run_op_keeps(2) [of pl op] vm_step by (auto simp: vm_balanced_def dest: spec [of _ s1])
qed simp

section \<open>The identifier of the address space\<close>

lemma asid_basic: "preserves um_asid (vm_event ev)" "preserves um_asid vm_call" "preserves um_asid get_regions"
    "preserves um_asid (set_regions rs)" "preserves um_asid (mobj_get m)" "preserves um_asid (mobj_put m)"
  by (simp_all add: preserves_def vm_defs vm_call_def)

lemmas asid_intros = preserves_intros asid_basic

lemma asid_steps: "preserves um_asid vm_memory" "preserves um_asid alloc_pgt" "preserves um_asid (show_region pl r prot)" "preserves um_asid (show_moved pl fobj r)"
    "preserves um_asid (show_new_prot pl r)" "preserves um_asid (sync_new_prot pl w prot r)" "preserves um_asid (rem_um_region pl i)" "preserves um_asid (list_remove i)"
    "preserves um_asid (umap_remove_region i)" "preserves um_asid (umap_add_region pl reg pad_begin pad_end align)" "preserves um_asid (split_vm_region pl i va)"
    "preserves um_asid (merge_vm_range va len)"
  by (auto simp: vm_memory_def alloc_pgt_def show_region_def show_moved_def show_new_prot_def sync_new_prot_def rem_um_region_def list_remove_def
      umap_remove_region_def umap_add_region_def split_vm_region_def merge_vm_range_def Let_def intro!: asid_intros split: prod.split option.split)

lemma asid_split: "preserves um_asid (split_vm_range pl va len cmp)"
  by (auto simp: split_vm_range_def intro!: asid_intros asid_steps split: option.split)

lemma asid_loops: "preserves um_asid (unmap_regions pl end_va i rs)" "preserves um_asid (clean_regions pl i rs)" "preserves um_asid (take_regions pl end_va i rs)"
    "preserves um_asid (restore_regions pl fobj va rs)"
  by (induction rs arbitrary: i va) (auto intro!: asid_intros asid_steps split: prod.split)

lemma asid_undo: "preserves um_asid (undo_remap pl fobj old_va first newest regs e)"
  by (auto simp: undo_remap_def intro!: asid_intros asid_loops)

lemma asid_move: "preserves um_asid (move_regions pl fobj old_va first va newest end_va regs)"
  by (induction regs arbitrary: newest end_va) (auto intro!: asid_intros asid_steps asid_undo split: prod.split)

lemma asid_map_pad: "preserves um_asid (vm_map_pad pl va len prot flags mobj offs pad_begin pad_end align)"
  by (auto simp: vm_map_pad_def add_mapping_def intro!: asid_intros asid_steps split: sum.split prod.split)

lemma asid_op: "preserves um_asid (run_op pl op)"
  by (cases op) (auto simp: done_vm_def vm_set_prot_def vm_unmap_def vm_remap_def vm_clean_param_def vm_add_rwmem_def vm_rem_rwmem_def vm_get_mobj_def
      Let_def intro!: asid_intros asid_steps asid_split asid_loops asid_undo asid_move asid_map_pad
      split: prod.split option.split list.split)

lemma vm_reach_asid: "vm_reach pl s ops s1 \<Longrightarrow> um_asid s1 = um_asid s"
proof (induction rule: vm_reach.induct)
  case (vm_step s ops s1 op r s2)
  then show ?case using asid_op [of pl op] by (auto simp: preserves_def dest: spec [of _ s1])
qed simp

section \<open>From the set-up to the end\<close>

lemma remove_all:
  "um_regions s = rs \<Longrightarrow> \<exists>s1. for_each (\<lambda>r. umap_remove_region 0) rs s = (Ok (), s1) \<and> um_regions s1 = [] \<and> vm_balance s1 = vm_balance s"
proof (induction rs arbitrary: s)
  case Nil
  then show ?case by (simp add: io_ret_def)
next
  case (Cons r rs)
  let ?s1 = "snd (mobj_put (r_mobj r) (s\<lparr>um_regions := rs\<rparr>))"
  have run: "umap_remove_region 0 s = (Ok (), ?s1)" using Cons.prems by (simp add: umap_remove_region_run remove_at_def)
  have "vm_balance ?s1 = vm_balance s" using Cons.prems by (intro ext) (simp add: vm_balance_def mobj_put_def)
  moreover have "um_regions ?s1 = rs" by (simp add: mobj_put_def)
  ultimately show ?case using Cons.IH [of ?s1] unfolding for_each.simps io_bind_step [where m = "umap_remove_region 0", OF run] by simp
qed

lemma vm_info_final_result:
  assumes "um_asid s \<noteq> 0"
  shows "\<exists>s1. vm_info_final s = (Ok (), s1) \<and> um_regions s1 = [] \<and> um_asid s1 = 0 \<and> vm_balance s1 = vm_balance s"
proof -
  let ?evs = "[Flush_all, Pager_rem_all, Tlb_asid (um_asid s), Asid_free (um_asid s)]"
  let ?s0 = "s\<lparr>um_events := um_events s @ ?evs\<rparr>"
  obtain s1 where s1: "for_each (\<lambda>r. umap_remove_region 0) (um_regions s) ?s0 = (Ok (), s1)" "um_regions s1 = []" "vm_balance s1 = vm_balance ?s0"
    using remove_all [of ?s0 "um_regions s"] by auto
  have "vm_info_final s = (Ok (), s1\<lparr>um_regions := [], um_asid := 0\<rparr>)"
    using assms s1(1) by (simp add: vm_info_final_def region_binds
        io_bind_step [where m = "for_each (\<lambda>r. umap_remove_region 0) (um_regions s)", OF s1(1)])
  moreover have "vm_balance ?s0 = vm_balance s" by (simp add: vm_balance_def fun_eq_iff)
  moreover have "vm_balance (s1\<lparr>um_regions := [], um_asid := 0\<rparr>) = vm_balance s1" using s1(2) by (simp add: vm_balance_def fun_eq_iff)
  ultimately show ?thesis using s1(3) by auto
qed

definition part_ok :: "kernel_part \<Rightarrow> bool" where
  "part_ok part = (case part of (mobj, offs, va, sz) \<Rightarrow> sz = 0 \<or> page_len sz)"

lemma map_kinit_result:
  assumes "platform_ok pl" and "part_ok kcode" and "part_ok kdata" and "vm_wf pl (um_regions s)" and "map_kinit pl bti kcode kdata s = (r, s1)"
  shows "r \<noteq> Stuck" and "vm_wf pl (um_regions s1)" and "vm_balance s1 = vm_balance s" and "um_asid s1 = um_asid s"
proof -
  have part: "t \<noteq> Stuck \<and> vm_wf pl (um_regions s2) \<and> vm_balance s2 = vm_balance s1"
    if p: "part_ok part" and w: "vm_wf pl (um_regions s1)" and run: "map_kpart pl part prot s1 = (t, s2)" for part prot s1 t s2
  proof (cases part)
    case (fields mobj offs va sz)
    show ?thesis
    proof (cases "sz = 0")
      case True
      then show ?thesis using run w fields by (auto simp: map_kpart_def io_ret_def)
    next
      case False
      then have len: "0 < unat sz" "unat sz + 4096 \<le> 2 ^ 64" using p fields by (simp_all add: part_ok_def page_len_def)
      let ?m = "vm_map_pad pl va sz prot (ucast VM_FLAG_PERMANENT) mobj offs 0 0 0"
      obtain x s3 where x: "?m s1 = (x, s3)" by (cases "?m s1")
      have "x \<noteq> Stuck \<and> vm_wf pl (um_regions s3) \<and> vm_balance s3 = vm_balance s1"
        using vm_map_pad_result [OF assms(1) w len, where va = va and prot = prot and flags = "ucast VM_FLAG_PERMANENT" and mobj = mobj
            and offs = offs and pad_begin = 0 and pad_end = 0 and align = 0] x w
        by (cases x) (simp_all add: vm_balance_def fun_eq_iff)
      then show ?thesis using run x False fields by (cases x) (auto simp: map_kpart_def vm_map_def io_bind_def io_ret_def)
    qed
  qed
  let ?code = "map_kpart pl kcode (if bti then 0x8050 else 0x50)"
  obtain x s2 where x: "?code s = (x, s2)" by (cases "?code s")
  note c = part [OF assms(2,4) x]
  obtain y s3 where y: "map_kpart pl kdata 0x30 s2 = (y, s3)" by (cases "map_kpart pl kdata 0x30 s2")
  note d = part [OF assms(3) conjunct1 [OF conjunct2 [OF c]] y]
  show "r \<noteq> Stuck" "vm_wf pl (um_regions s1)" "vm_balance s1 = vm_balance s"
    using assms(5) x y c d by (cases x; auto simp: map_kinit_def io_bind_def)+
  have "preserves um_asid (map_kinit pl bti kcode kdata)"
    by (auto simp: map_kinit_def map_kpart_def vm_map_def intro!: asid_intros asid_map_pad split: prod.split)
  then show "um_asid s1 = um_asid s" using assms(5) by (auto simp: preserves_def dest: spec [of _ s])
qed





end
