(* ===== verification/VmCall.thy ===== *)
theory VmCall
  imports VmLife "HOL-Library.Product_Lexorder"
begin

text \<open>
  The memory of the parameters of an invocation is mapped all or not at all (\<open>vm_map_param\<close>), and which buffers the merged
  ranges cover.
\<close>

section \<open>The sizes of the ranges\<close>

text \<open>A buffer whose rounded range does not wrap around.\<close>

definition mem_ok :: "vm_platform \<Rightarrow> param_mem \<Rightarrow> bool" where
  "mem_ok pl m = (unat (phys_offs_of pl (pm_mobj m)) + unat (pm_offs m) + unat (pm_size m) + 8192 \<le> 2 ^ 64)"

definition params_ok :: "vm_platform \<Rightarrow> tee_ta_param \<Rightarrow> bool" where
  "params_ok pl p = (\<forall>n<TEE_NUM_PARAMS. is_memref p n \<longrightarrow> mem_ok pl (tp_mem p ! n))"

text \<open>A range of pages that is not empty and does not wrap around.\<close>

definition range_ok :: "param_mem \<Rightarrow> bool" where
  "range_ok m = (0 < unat (pm_size m) \<and> unat (pm_size m) mod 4096 = 0 \<and> unat (pm_offs m) mod 4096 = 0 \<and>
     unat (pm_offs m) + unat (pm_size m) < 2 ^ 64)"

definition m_beg :: "param_mem \<Rightarrow> nat" where "m_beg m = unat (pm_offs m)"
definition m_end :: "param_mem \<Rightarrow> nat" where "m_end m = unat (pm_offs m) + unat (pm_size m)"

lemma page_range_result:
  assumes "mem_ok pl m"
  defines "start \<equiv> unat (phys_offs_of pl (pm_mobj m)) + unat (pm_offs m)"
  shows "range_ok (page_range pl m)" and "pm_mobj (page_range pl m) = pm_mobj m"
    and "m_beg (page_range pl m) \<le> start" and "start < m_end (page_range pl m)" and "start + unat (pm_size m) \<le> m_end (page_range pl m)"
proof -
  let ?s = "phys_offs_of pl (pm_mobj m) + pm_offs m"
  let ?o = "ROUNDDOWN ?s CORE_MMU_USER_PARAM_SIZE"
  have page: "CORE_MMU_USER_PARAM_SIZE = push_bit 12 1" by (simp add: CORE_MMU_USER_PARAM_SIZE_def SMALL_PAGE_SIZE_def)
  have s: "unat ?s = start" using assms(1) by (simp add: mem_ok_def start_def unat_add_exact)
  have o: "unat ?o = start div 4096 * 4096" unfolding page ROUNDDOWN_unat s by simp
  have split: "start div 4096 * 4096 + start mod 4096 = start" by (rule div_mult_mod_eq)
  have d: "unat (?s - ?o) = start mod 4096" using s o split by (subst unat_sub_exact) linarith+
  have lt: "start mod 4096 + unat (pm_size m) + 4096 \<le> 2 ^ 64"
    using assms(1) split by (simp add: mem_ok_def start_def)
  have l: "unat (?s - ?o + pm_size m) = start mod 4096 + unat (pm_size m)" using d lt by (subst unat_add_exact) simp_all
  let ?z = "ROUNDUP (?s - ?o + pm_size m) CORE_MMU_USER_PARAM_SIZE"
  define c where "c = (start mod 4096 + unat (pm_size m) + 4095) div 4096"
  have z: "unat ?z = c * 4096"
    using ROUNDUP_nat [where v = "?s - ?o + pm_size m" and sh = 12, folded page] lt l by (simp add: c_def)
  have cb: "start mod 4096 + unat (pm_size m) \<le> c * 4096" "c * 4096 < start mod 4096 + unat (pm_size m) + 4096"
    unfolding c_def by (linarith, linarith)
  let ?r = "page_range pl m"
  have zero: "?z = 0 \<longleftrightarrow> c = 0" using z by (simp flip: unat_eq_zero)
  have offs: "unat (pm_offs ?r) = start div 4096 * 4096" using o by (simp add: page_range_def Let_def)
  have sz: "unat (pm_size ?r) = (if c = 0 then 4096 else c * 4096)"
    using z zero by (simp add: page_range_def Let_def CORE_MMU_USER_PARAM_SIZE_def SMALL_PAGE_SIZE_def)
  have total: "start + unat (pm_size m) + 8192 \<le> 2 ^ 64" using assms(1) by (simp add: mem_ok_def start_def)
  show "range_ok ?r" unfolding range_ok_def sz offs using cb(2) split total by (auto simp: mod_mult_self2_is_0)
  show "pm_mobj ?r = pm_mobj m" by (simp add: page_range_def Let_def)
  have m: "start mod 4096 < 4096" by simp
  show "m_beg ?r \<le> start" unfolding m_beg_def offs using split by linarith
  show "start < m_end ?r" unfolding m_end_def offs sz using split cb(1) m by (cases "c = 0") simp_all
  show "start + unat (pm_size m) \<le> m_end ?r"
    unfolding m_end_def offs sz using split cb(1) by (cases "c = 0"; simp only: if_True if_False; linarith)
qed

section \<open>Sorting and merging\<close>

text \<open>The order of \<open>cmp_param_mem\<close> as a key; entries without an object come last and are all alike.\<close>

definition mem_key :: "vm_platform \<Rightarrow> param_mem \<Rightarrow> bool \<times> bool \<times> nat \<times> 64 word \<times> 64 word" where
  "mem_key pl m = (if pm_mobj m = 0 then (True, False, 0, 0, 0) else (False, mo_is_secure pl (pm_mobj m), pm_mobj m, pm_offs m, pm_size m))"

lemma cmp_param_mem_key: "cmp_param_mem pl m0 m1 \<le> 0 \<longleftrightarrow> mem_key pl m0 \<le> mem_key pl m1"
  by (auto simp: cmp_param_mem_def mem_key_def CMP_TRILEAN_def Let_def)

lemma sort_mem_key: "sort_mem pl xs = sort_key (mem_key pl) xs"
proof -
  have "insert_mem pl x ys = insort_key (mem_key pl) x ys" for x ys
    by (induction ys) (simp_all add: cmp_param_mem_key)
  then have "insert_mem pl = insort_key (mem_key pl)" by (intro ext)
  then show ?thesis by (simp add: sort_mem_def sort_key_def)
qed

lemma ranges_of_params:
  assumes "params_ok pl p" and "x \<in> set (param_ranges pl p)" and "pm_mobj x \<noteq> 0"
  shows "range_ok x"
  using assms page_range_result(1) by (auto simp: param_ranges_def params_ok_def no_mem_def split: if_splits)

definition joinable :: "param_mem \<Rightarrow> param_mem \<Rightarrow> bool" where
  "joinable cur x = (pm_mobj x = pm_mobj cur \<and>
     (pm_offs x = pm_offs cur + pm_size cur \<or> core_is_buffer_intersect (pm_offs cur) (pm_size cur) (pm_offs x) (pm_size x)))"

definition joined :: "param_mem \<Rightarrow> param_mem \<Rightarrow> param_mem" where
  "joined cur x = cur\<lparr>pm_size := pm_offs x + pm_size x - pm_offs cur\<rparr>"

lemma merge_mem_Cons:
  "merge_mem cur (x # xs) = (if pm_mobj x = 0 then [cur] else if joinable cur x then merge_mem (joined cur x) xs else cur # merge_mem x xs)"
  unfolding joinable_def joined_def by (rule merge_mem.simps(2))

lemma joined_result:
  assumes "range_ok cur" and "range_ok x" and "joinable cur x"
  shows "range_ok (joined cur x)" and "m_beg (joined cur x) = m_beg cur" and "m_end (joined cur x) = m_end x"
    and "pm_mobj (joined cur x) = pm_mobj cur"
proof -
  have e: "unat (pm_offs x + pm_size x) = m_end x" "unat (pm_offs cur + pm_size cur) = m_end cur"
    using assms(1,2) by (simp_all add: range_ok_def m_end_def unat_add_exact)
  have lt: "m_beg cur < m_end x"
  proof (cases "pm_offs x = pm_offs cur + pm_size cur")
    case True
    then have "m_beg x = m_end cur" using e(2) by (simp add: m_beg_def)
    then show ?thesis using assms(1,2) by (simp add: range_ok_def m_beg_def m_end_def)
  next
    case False
    then have "\<not> pm_offs x + pm_size x - 1 < pm_offs cur"
      using assms(3) by (simp add: joinable_def core_is_buffer_intersect_def)
    moreover have pos: "0 < m_end x" using assms(2) by (simp add: range_ok_def m_end_def)
    moreover have "unat (pm_offs x + pm_size x - 1) = m_end x - 1" using e(1) pos by (subst unat_sub_exact) simp_all
    ultimately show ?thesis by (simp add: word_less_nat_alt m_beg_def)
  qed
  then have sz: "unat (pm_offs x + pm_size x - pm_offs cur) = m_end x - m_beg cur"
    using e(1) by (subst unat_sub_exact) (simp_all add: m_beg_def)
  have md: "(a - b) mod 4096 = 0" if "a mod 4096 = 0" "b mod 4096 = (0 :: nat)" for a b
    using that by (metis dvd_diff_nat mod_0_imp_dvd dvd_imp_mod_0)
  have m: "m_end x mod 4096 = 0" "m_beg cur mod 4096 = 0" using assms(1,2) by (auto simp: range_ok_def m_end_def m_beg_def)
  have "m_end x < 2 ^ 64" using assms(2) by (simp add: range_ok_def m_end_def)
  then show "range_ok (joined cur x)"
    using sz lt md [OF m] assms(1) by (simp add: range_ok_def joined_def m_beg_def)
  show "m_beg (joined cur x) = m_beg cur" "pm_mobj (joined cur x) = pm_mobj cur" by (simp_all add: joined_def m_beg_def)
  show "m_end (joined cur x) = m_end x" using sz lt by (simp add: joined_def m_beg_def m_end_def)
qed

lemma merge_mem_ok:
  assumes "range_ok cur" and "\<forall>x\<in>set xs. pm_mobj x \<noteq> 0 \<longrightarrow> range_ok x"
  shows "\<forall>r\<in>set (merge_mem cur xs). range_ok r"
  using assms
proof (induction xs arbitrary: cur)
  case (Cons x xs)
  then show ?case using joined_result(1) [of cur x] by (auto simp: merge_mem_Cons simp del: merge_mem.simps(2))
qed simp

lemma merged_ranges_ok:
  assumes "params_ok pl p"
  shows "\<forall>r\<in>set (merged_ranges pl p). range_ok r"
proof (cases "sort_mem pl (param_ranges pl p)")
  case Nil
  then show ?thesis by (simp add: merged_ranges_def)
next
  case (Cons x xs)
  have "set (x # xs) = set (param_ranges pl p)" unfolding Cons [symmetric] sort_mem_key by simp
  then have "\<forall>y\<in>set (x # xs). pm_mobj y \<noteq> 0 \<longrightarrow> range_ok y" using ranges_of_params [OF assms] by simp
  then show ?thesis using Cons merge_mem_ok [of x xs] by (simp add: merged_ranges_def)
qed

text \<open>A range lies in one of the merged ones.\<close>

definition covered_by :: "param_mem list \<Rightarrow> param_mem \<Rightarrow> bool" where
  "covered_by rs x = (\<exists>r\<in>set rs. pm_mobj r = pm_mobj x \<and> m_beg r \<le> m_beg x \<and> m_end x \<le> m_end r)"

definition ends_ordered :: "param_mem \<Rightarrow> param_mem \<Rightarrow> bool" where
  "ends_ordered x y = (pm_mobj x = pm_mobj y \<longrightarrow> m_end x \<le> m_end y)"

lemma merge_mem_covers:
  assumes "range_ok cur" and "pm_mobj cur \<noteq> 0" and "\<forall>x\<in>set xs. pm_mobj x \<noteq> 0 \<longrightarrow> range_ok x"
    and "sorted_wrt (\<lambda>x y. pm_mobj x = 0 \<longrightarrow> pm_mobj y = 0) xs"
    and "sorted_wrt (\<lambda>x y. pm_mobj x = pm_mobj y \<and> pm_mobj x \<noteq> 0 \<longrightarrow> m_beg x \<le> m_beg y \<and> m_end x \<le> m_end y) (cur # xs)"
  shows "covered_by (merge_mem cur xs) cur \<and> (\<forall>x\<in>set xs. pm_mobj x \<noteq> 0 \<longrightarrow> covered_by (merge_mem cur xs) x)"
  using assms
proof (induction xs arbitrary: cur)
  case Nil
  then show ?case by (simp add: covered_by_def)
next
  case (Cons x xs)
  show ?case
  proof (cases "pm_mobj x = 0")
    case True
    then have "\<forall>y\<in>set (x # xs). pm_mobj y = 0" using Cons.prems(4) by auto
    then show ?thesis using True by (auto simp: covered_by_def)
  next
    case False
    then have ok: "range_ok x" using Cons.prems(3) by simp
    show ?thesis
    proof (cases "joinable cur x")
      case True
      note j = joined_result [OF Cons.prems(1) ok True]
      have mobj: "pm_mobj x = pm_mobj cur" using True by (simp add: joinable_def)
      have le: "m_beg cur \<le> m_beg x" "m_end cur \<le> m_end x" using Cons.prems(5) mobj False by simp_all
      have s: "sorted_wrt (\<lambda>x y. pm_mobj x = pm_mobj y \<and> pm_mobj x \<noteq> 0 \<longrightarrow> m_beg x \<le> m_beg y \<and> m_end x \<le> m_end y) (joined cur x # xs)"
        using Cons.prems(5) j(2-4) mobj by simp
      have ih: "covered_by (merge_mem (joined cur x) xs) (joined cur x) \<and>
          (\<forall>y\<in>set xs. pm_mobj y \<noteq> 0 \<longrightarrow> covered_by (merge_mem (joined cur x) xs) y)"
        using Cons.prems(2-4) by (intro Cons.IH [OF j(1) _ _ _ s]) (simp_all add: j(4))
      have "covered_by rs cur \<and> covered_by rs x" if "covered_by rs (joined cur x)" for rs
        using that le mobj unfolding covered_by_def j(2-4) by (metis le_trans)
      then show ?thesis using ih True False by (simp add: merge_mem_Cons del: merge_mem.simps(2))
    next
      case nj: False
      have ih: "covered_by (merge_mem x xs) x \<and> (\<forall>y\<in>set xs. pm_mobj y \<noteq> 0 \<longrightarrow> covered_by (merge_mem x xs) y)"
        using Cons.prems(3-5) by (intro Cons.IH [OF ok False]) simp_all
      have "covered_by (cur # rs) y" if "covered_by rs y" for rs y using that by (auto simp: covered_by_def)
      moreover have "covered_by (cur # merge_mem x xs) cur" by (simp add: covered_by_def)
      ultimately show ?thesis using ih nj False by (simp add: merge_mem_Cons del: merge_mem.simps(2))
    qed
  qed
qed

lemma sorted_wrt_conj: "sorted_wrt P xs \<Longrightarrow> sorted_wrt Q xs \<Longrightarrow> sorted_wrt (\<lambda>a b. P a b \<and> Q a b) xs"
  by (induction xs) auto

text \<open>
  The buffer of every parameter lies in one of the merged ranges, when among the sorted ranges of one object none ends
  before an earlier one. Without that the merged range is cut at the end of the later one: merging takes
  the end of the range it adds, not the larger of the two ends.
\<close>

theorem merged_ranges_cover:
  assumes "params_ok pl p" and "sorted_wrt ends_ordered (sort_mem pl (param_ranges pl p))"
    and "n < TEE_NUM_PARAMS" and "is_memref p n" and "pm_mobj (tp_mem p ! n) \<noteq> 0"
  shows "\<exists>r\<in>set (merged_ranges pl p). pm_mobj r = pm_mobj (tp_mem p ! n) \<and>
    m_beg r \<le> unat (phys_offs_of pl (pm_mobj r)) + unat (pm_offs (tp_mem p ! n)) \<and>
    unat (phys_offs_of pl (pm_mobj r)) + unat (pm_offs (tp_mem p ! n)) + unat (pm_size (tp_mem p ! n)) \<le> m_end r"
proof -
  let ?m = "tp_mem p ! n"
  have ok: "mem_ok pl ?m" using assms(1,3,4) by (simp add: params_ok_def)
  note pr = page_range_result [OF ok]
  have mem: "page_range pl ?m \<in> set (param_ranges pl p)" using assms(3,4) by (auto simp: param_ranges_def)
  obtain x xs where sorted: "sort_mem pl (param_ranges pl p) = x # xs"
    using mem unfolding sort_mem_key by (cases "sort_key (mem_key pl) (param_ranges pl p)") (simp_all, metis empty_iff list.set(1) set_sort)
  have set: "set (x # xs) = set (param_ranges pl p)" unfolding sorted [symmetric] sort_mem_key by simp
  have keys: "sorted_wrt (\<lambda>a b. mem_key pl a \<le> mem_key pl b) (x # xs)"
    unfolding sorted [symmetric] sort_mem_key using sorted_sort_key [of "mem_key pl" "param_ranges pl p"] by (simp add: sorted_map)
  have zero: "sorted_wrt (\<lambda>a b. pm_mobj a = 0 \<longrightarrow> pm_mobj b = 0) (x # xs)"
    by (rule sorted_wrt_mono_rel [OF _ keys]) (auto simp: mem_key_def split: if_splits)
  have both: "sorted_wrt (\<lambda>a b. mem_key pl a \<le> mem_key pl b \<and> ends_ordered a b) (x # xs)"
    using keys assms(2) unfolding sorted by (rule sorted_wrt_conj)
  have ord: "sorted_wrt (\<lambda>a b. pm_mobj a = pm_mobj b \<and> pm_mobj a \<noteq> 0 \<longrightarrow> m_beg a \<le> m_beg b \<and> m_end a \<le> m_end b) (x # xs)"
    by (rule sorted_wrt_mono_rel [OF _ both]) (auto simp: mem_key_def ends_ordered_def m_beg_def word_le_nat_alt word_less_nat_alt)
  have here: "page_range pl ?m \<in> set (x # xs)" using mem set by simp
  have x0: "pm_mobj x \<noteq> 0" using zero here pr(2) assms(5) by auto
  have okx: "\<forall>y\<in>set (x # xs). pm_mobj y \<noteq> 0 \<longrightarrow> range_ok y" using ranges_of_params [OF assms(1)] set by blast
  have "covered_by (merge_mem x xs) x \<and> (\<forall>y\<in>set xs. pm_mobj y \<noteq> 0 \<longrightarrow> covered_by (merge_mem x xs) y)"
    using okx x0 zero by (intro merge_mem_covers [OF _ x0 _ _ ord]) simp_all
  then have "covered_by (merge_mem x xs) (page_range pl ?m)" using here pr(2) assms(5) by auto
  then have "covered_by (merged_ranges pl p) (page_range pl ?m)" using sorted x0 by (simp add: merged_ranges_def)
  then show ?thesis
    unfolding covered_by_def pr(2) by (elim bexE conjE) (rule bexI, use pr(3,5) in auto)
qed

text \<open>
  Two parameters of the sample: the second buffer follows in the same object. In the last line the second buffer lies inside the
  first one, and the merged range of the two has lost the last page of the first.
\<close>

definition sample_params :: tee_ta_param where
  "sample_params = \<lparr>tp_types = 0x56, tp_mem = [\<lparr>pm_mobj = 1, pm_size = 0x1800, pm_offs = 0\<rparr>, \<lparr>pm_mobj = 1, pm_size = 0x1000, pm_offs = 0x1800\<rparr>,
     no_mem, no_mem]\<rparr>"

definition nested_params :: tee_ta_param where
  "nested_params = \<lparr>tp_types = 0x56, tp_mem = [\<lparr>pm_mobj = 1, pm_size = 0x3000, pm_offs = 0\<rparr>, \<lparr>pm_mobj = 1, pm_size = 0x1000, pm_offs = 0x1000\<rparr>,
     no_mem, no_mem]\<rparr>"

lemma sample_memref: "is_memref sample_params n \<longleftrightarrow> n = 0 \<or> n = 1" if "n < 4"
proof -
  have "n = 0 \<or> n = 1 \<or> n = 2 \<or> n = 3" using that by auto
  then show ?thesis by (auto simp: is_memref_def sample_params_def TEE_PARAM_TYPE_GET_def)
qed

lemma sample_params_ok: "params_ok sample_platform sample_params"
proof -
  have "mem_ok sample_platform (tp_mem sample_params ! n)" if "n = 0 \<or> n = 1" for n
    using that by (auto simp: sample_params_def mem_ok_def phys_offs_of_def sample_platform_def)
  then show ?thesis using sample_memref by (simp add: params_ok_def TEE_NUM_PARAMS_def)
qed

theorem merged_ranges_cover_witness:
  "(\<exists>r\<in>set (merged_ranges sample_platform sample_params). m_beg r \<le> 0x1800 \<and> 0x2800 \<le> m_end r) \<and>
   merged_ranges sample_platform nested_params = [\<lparr>pm_mobj = 1, pm_size = 0x2000, pm_offs = 0\<rparr>]"
proof
  have s: "sort_mem sample_platform (param_ranges sample_platform sample_params) =
      [\<lparr>pm_mobj = 1, pm_size = 0x2000, pm_offs = 0\<rparr>, \<lparr>pm_mobj = 1, pm_size = 0x2000, pm_offs = 0x1000\<rparr>, no_mem, no_mem]"
    by code_simp
  have o: "sorted_wrt ends_ordered (sort_mem sample_platform (param_ranges sample_platform sample_params))"
    unfolding s by (simp add: ends_ordered_def m_end_def no_mem_def)
  have m: "tp_mem sample_params ! 1 = \<lparr>pm_mobj = 1, pm_size = 0x1000, pm_offs = 0x1800\<rparr>" by (simp add: sample_params_def)
  have n: "1 < TEE_NUM_PARAMS" "is_memref sample_params 1" "pm_mobj (tp_mem sample_params ! 1) \<noteq> 0"
    using sample_memref m by (simp_all add: TEE_NUM_PARAMS_def)
  have p: "phys_offs_of sample_platform k = 0" for k by (simp add: phys_offs_of_def sample_platform_def)
  show "\<exists>r\<in>set (merged_ranges sample_platform sample_params). m_beg r \<le> 0x1800 \<and> 0x2800 \<le> m_end r"
    using merged_ranges_cover [OF sample_params_ok o n] unfolding p m by auto
  show "merged_ranges sample_platform nested_params = [\<lparr>pm_mobj = 1, pm_size = 0x2000, pm_offs = 0\<rparr>]"
    by code_simp
qed

section \<open>Mapping the parameters\<close>

text \<open>What stays true while the ranges are mapped: only regions of the invocation are added to the address space \<open>s\<close>.\<close>

definition for_call :: "vm_platform \<Rightarrow> user_mode_ctx \<Rightarrow> user_mode_ctx \<Rightarrow> bool" where
  "for_call pl s t = (vm_wf pl (um_regions t) \<and> vm_balance t = vm_balance s \<and>
     (\<forall>a. keeps (vm_shows (um_regions t) a) = keeps (vm_shows (um_regions s) a)) \<and>
     (\<forall>a x. vm_shows (um_regions s) a = Some x \<longrightarrow> vm_shows (um_regions t) a = Some x))"

lemma for_call_quiet: "for_call pl s t \<Longrightarrow> um_regions t1 = um_regions t \<Longrightarrow> um_refs t1 = um_refs t \<Longrightarrow> for_call pl s t1"
proof -
  assume f: "for_call pl s t" and r: "um_regions t1 = um_regions t" and n: "um_refs t1 = um_refs t"
  have "vm_balance t1 = vm_balance t" by (intro ext) (simp add: vm_balance_def r n)
  moreover have "vm_balance t = vm_balance s" using f by (simp only: for_call_def)
  ultimately have "vm_balance t1 = vm_balance s" by simp
  then show ?thesis using f unfolding for_call_def r by blast
qed

lemma range_ok_len: "range_ok m \<Longrightarrow> 0 < unat (pm_size m) \<and> unat (pm_size m) + 4096 \<le> 2 ^ 64"
proof -
  assume r: "range_ok m"
  then obtain k where k: "unat (pm_size m) = 4096 * k" by (auto simp: range_ok_def mod_eq_0_iff_dvd)
  have "unat (pm_size m) < 2 ^ 64" using r by (simp add: range_ok_def)
  then have "k < 2 ^ 52" unfolding k by simp
  then have "unat (pm_size m) + 4096 \<le> 2 ^ 64" unfolding k by simp
  then show ?thesis using r by (simp add: range_ok_def)
qed

lemma map_range_result:
  assumes "platform_ok pl" and "range_ok m" and "for_call pl s t" and "map_range pl m t = (r, t1)"
  shows "r \<noteq> Stuck \<and> for_call pl s t1"
proof -
  let ?flags = "ucast (VM_FLAG_EPHEMERAL OR VM_FLAG_SHAREABLE) :: 32 word"
  let ?prot = "ucast (TEE_MATTR_PR OR TEE_MATTR_PW OR TEE_MATTR_UR OR TEE_MATTR_UW) :: 32 word"
  let ?map = "vm_map_pad pl 0 (pm_size m) ?prot ?flags (pm_mobj m) (pm_offs m) 0 0 0"
  have wf: "vm_wf pl (um_regions t)" using assms(3) by (simp add: for_call_def)
  have len: "0 < unat (pm_size m)" "unat (pm_size m) + 4096 \<le> 2 ^ 64" using range_ok_len [OF assms(2)] by simp_all
  have eph: "(ucast ?flags :: 16 word) AND VM_FLAG_EPHEMERAL \<noteq> 0" by (simp add: VM_FLAG_EPHEMERAL_def VM_FLAG_SHAREABLE_def)
  note res = vm_map_pad_result [OF assms(1) wf len, where va = 0 and prot = ?prot and flags = ?flags and mobj = "pm_mobj m"
      and offs = "pm_offs m" and pad_begin = 0 and pad_end = 0 and align = 0]
  obtain x t2 where x: "?map t = (x, t2)" by (cases "?map t")
  show ?thesis
  proof (cases x)
    case (Ok va)
    then have fin: "r = Ok ()" "t1 = t2" using assms(4) x by (simp_all add: map_range_def vm_map_def io_bind_def io_ret_def)
    let ?in = "\<lambda>a. unat va \<le> a \<and> a < unat va + unat (ROUNDUP (pm_size m) SMALL_PAGE_SIZE)"
    obtain attr where new: "\<And>a. vm_shows (um_regions t2) a = (if ?in a then Some (pm_mobj m, unat (pm_offs m) + (a - unat va), attr, ucast ?flags)
          else vm_shows (um_regions t) a)" and free: "\<And>a. ?in a \<Longrightarrow> vm_shows (um_regions t) a = None"
      and w: "vm_wf pl (um_regions t2)" and b: "vm_balance t2 = vm_balance t"
      using res x Ok by (auto simp: Let_def)
    have kept: "vm_shows (um_regions t) a = Some y" if "vm_shows (um_regions s) a = Some y" for a y
      using assms(3) that unfolding for_call_def by blast
    have old: "vm_shows (um_regions s) a = None" if "?in a" for a
      using free [OF that] kept [of a] by (cases "vm_shows (um_regions s) a") simp_all
    have "keeps (vm_shows (um_regions t2) a) = keeps (vm_shows (um_regions s) a)" for a
    proof (cases "?in a")
      case True
      then show ?thesis using eph by (simp add: new old keeps_def)
    next
      case False
      have "vm_shows (um_regions t2) a = vm_shows (um_regions t) a" unfolding new by (rule if_not_P [OF False])
      then show ?thesis using assms(3) by (simp only: for_call_def)
    qed
    moreover have "vm_shows (um_regions t2) a = Some y" if "vm_shows (um_regions s) a = Some y" for a y
    proof -
      have "\<not> ?in a" using that old [of a] by fastforce
      then have "vm_shows (um_regions t2) a = vm_shows (um_regions t) a" unfolding new by (rule if_not_P)
      then show ?thesis using kept [OF that] by simp
    qed
    moreover have "vm_balance t2 = vm_balance s" using b assms(3) by (simp only: for_call_def)
    ultimately show ?thesis using w unfolding for_call_def fin by blast
  next
    case (Fail e)
    then have "r = Fail e" "t1 = t2" using assms(4) x by (simp_all add: map_range_def vm_map_def io_bind_def)
    moreover have "um_regions t2 = um_regions t" "um_refs t2 = um_refs t" using res x Fail by simp_all
    ultimately show ?thesis using for_call_quiet [OF assms(3)] by simp
  next
    case Stuck
    then show ?thesis using res x by simp
  qed
qed

lemma map_ranges_result:
  assumes "platform_ok pl" and "\<forall>m\<in>set ms. range_ok m" and "for_call pl s t" and "for_each (map_range pl) ms t = (r, t1)"
  shows "r \<noteq> Stuck \<and> for_call pl s t1"
  using assms(2-4)
proof (induction ms arbitrary: t)
  case Nil
  then show ?case by (auto simp: io_ret_def)
next
  case (Cons m ms)
  obtain x t2 where x: "map_range pl m t = (x, t2)" by (cases "map_range pl m t")
  have m: "range_ok m" using Cons.prems(1) by simp
  note f = map_range_result [OF assms(1) m Cons.prems(2) x]
  show ?case
  proof (cases x)
    case (Ok u)
    then have "for_each (map_range pl) ms t2 = (r, t1)" using Cons.prems(3) x by (simp add: io_bind_def)
    then show ?thesis using Cons.IH [of t2] Cons.prems(1) f by simp
  next
    case (Fail e)
    then show ?thesis using Cons.prems(3) x f by (auto simp: io_bind_def)
  next
    case Stuck
    then show ?thesis using f by simp
  qed
qed

lemma param_mem_to_user_va_result:
  assumes "param_mem_to_user_va pl rs m = Inr va" and "chain lo rs hi" and "hi < 2 ^ 64" and "mem_ok pl m"
  shows "\<exists>attr f. vm_shows rs (unat va) = Some (pm_mobj m, unat (phys_offs_of pl (pm_mobj m)) + unat (pm_offs m), attr, f) \<and>
    f AND VM_FLAG_EPHEMERAL \<noteq> 0"
proof -
  let ?o = "phys_offs_of pl (pm_mobj m) + pm_offs m"
  have o: "unat ?o = unat (phys_offs_of pl (pm_mobj m)) + unat (pm_offs m)" using assms(4) by (simp add: mem_ok_def unat_add_exact)
  have "\<exists>r\<in>set rs. r_flags r AND VM_FLAG_EPHEMERAL \<noteq> 0 \<and> pm_mobj m = r_mobj r \<and> r_offset r \<le> ?o \<and> ?o < r_offset r + r_size r \<and>
      va = r_va r + ?o - r_offset r"
    using assms(1) by (induction rs) (auto simp: Let_def not_less not_le split: if_splits)
  then obtain r where r: "r \<in> set rs" "r_flags r AND VM_FLAG_EPHEMERAL \<noteq> 0" "pm_mobj m = r_mobj r" "r_offset r \<le> ?o" "?o < r_offset r + r_size r"
      "va = r_va r + ?o - r_offset r" by blast
  have ok: "region_ok r" "r_end r \<le> hi" using chain_region_ok [OF assms(2) r(1)] by simp_all
  have e: "unat (r_offset r + r_size r) = unat (r_offset r) + unat (r_size r)" using ok(1) by (simp add: region_ok_def unat_add_exact)
  have d: "unat (?o - r_offset r) = unat ?o - unat (r_offset r)" using r(4) by (subst unat_sub_exact) (simp_all add: word_le_nat_alt)
  have lt: "unat ?o - unat (r_offset r) < unat (r_size r)" using r(4,5) e by (simp add: word_le_nat_alt word_less_nat_alt)
  have "unat (r_va r + (?o - r_offset r)) = r_beg r + (unat ?o - unat (r_offset r))"
    using d lt ok(2) assms(3) by (subst unat_add_exact) (simp_all add: r_beg_def r_end_def)
  then have va: "unat va = r_beg r + (unat ?o - unat (r_offset r))" using r(6) by (simp add: add_diff_eq)
  have "vm_shows rs (unat va) = Some (r_mobj r, unat (r_offset r) + (unat va - r_beg r), r_attr r, r_flags r)"
    by (rule vm_shows_member [OF assms(2) r(1)]) (use va lt in \<open>simp_all add: r_beg_def r_end_def\<close>)
  then show ?thesis using r(2-4) va o by (simp add: word_le_nat_alt)
qed

lemma param_addrs_result:
  "param_addrs pl rs p ns = Inr addrs \<Longrightarrow> length addrs = length ns \<and>
    (\<forall>i<length ns. is_memref p (ns ! i) \<and> pm_mobj (tp_mem p ! (ns ! i)) \<noteq> 0 \<longrightarrow>
      (\<exists>va. addrs ! i = Some va \<and> param_mem_to_user_va pl rs (tp_mem p ! (ns ! i)) = Inr va))"
proof (induction ns arbitrary: addrs)
  case (Cons n ns)
  let ?first = "if \<not> is_memref p n \<or> pm_mobj (tp_mem p ! n) = 0 then Inr None else map_sum id Some (param_mem_to_user_va pl rs (tp_mem p ! n))"
  obtain a where a: "?first = Inr a" using Cons.prems by (cases ?first) simp_all
  obtain rest where rest: "param_addrs pl rs p ns = Inr rest" "addrs = a # rest"
    using Cons.prems a by (cases "param_addrs pl rs p ns") simp_all
  note ih = Cons.IH [OF rest(1)]
  have head: "\<exists>va. a = Some va \<and> param_mem_to_user_va pl rs (tp_mem p ! n) = Inr va" if "is_memref p n" "pm_mobj (tp_mem p ! n) \<noteq> 0"
    using a that by (cases "param_mem_to_user_va pl rs (tp_mem p ! n)") simp_all
  show ?case
  proof (intro conjI allI impI)
    show "length addrs = length (n # ns)" using ih rest(2) by simp
    fix i assume i: "i < length (n # ns)" and m: "is_memref p ((n # ns) ! i) \<and> pm_mobj (tp_mem p ! ((n # ns) ! i)) \<noteq> 0"
    show "\<exists>va. addrs ! i = Some va \<and> param_mem_to_user_va pl rs (tp_mem p ! ((n # ns) ! i)) = Inr va"
    proof (cases i)
      case 0
      then show ?thesis using head m rest(2) by simp
    next
      case (Suc j)
      then show ?thesis using ih i m rest(2) by simp
    qed
  qed
qed simp

text \<open>The body of the call, before the cleaning of a failure.\<close>

lemma map_param_body_result:
  assumes "platform_ok pl" and "params_ok pl p" and "vm_wf pl (um_regions s)"
    and "io_bind (for_each (map_range pl) (merged_ranges pl p)) (\<lambda>_. io_bind get_regions (\<lambda>rs.
         case param_addrs pl rs p [0..<TEE_NUM_PARAMS] of
           Inl e \<Rightarrow> io_fail e | Inr addrs \<Rightarrow> io_bind alloc_pgt (\<lambda>_. io_ret addrs))) s = (r, t)"
  shows "r \<noteq> Stuck \<and> for_call pl s t \<and>
    (\<forall>addrs. r = Ok addrs \<longrightarrow> param_addrs pl (um_regions t) p [0..<TEE_NUM_PARAMS] = Inr addrs)"
proof -
  have s: "for_call pl s s" using assms(3) by (simp add: for_call_def)
  obtain x t1 where x: "for_each (map_range pl) (merged_ranges pl p) s = (x, t1)" by (cases "for_each (map_range pl) (merged_ranges pl p) s")
  have "\<forall>m\<in>set (merged_ranges pl p). range_ok m" using merged_ranges_ok [OF assms(2)] by simp
  note f = map_ranges_result [OF assms(1) this s x]
  show ?thesis
  proof (cases x)
    case (Ok u)
    show ?thesis
    proof (cases "param_addrs pl (um_regions t1) p [0..<TEE_NUM_PARAMS]")
      case (Inl e)
      then have "r = Fail e" "t = t1" using assms(4) x Ok by (simp_all add: io_bind_def get_regions_def io_fail_def)
      then show ?thesis using f by simp
    next
      case (Inr addrs)
      obtain y t2 where y: "alloc_pgt t1 = (y, t2)" by (cases "alloc_pgt t1")
      have q: "um_regions t2 = um_regions t1" "um_refs t2 = um_refs t1" using quietD [OF quiet_calls(2) y] by simp_all
      have c: "for_call pl s t2" using for_call_quiet [OF _ q] f by simp
      have ns: "y \<noteq> Stuck" using never_stuck_calls(2) y by (auto simp: never_stuck_def dest: spec [of _ t1])
      have fin: "(r, t) = (case y of Ok _ \<Rightarrow> (Ok addrs, t2) | Fail e \<Rightarrow> (Fail e, t2) | Stuck \<Rightarrow> (Stuck, t2))"
        using assms(4) x y Ok Inr by (cases y) (simp_all add: io_bind_def get_regions_def io_ret_def)
      show ?thesis using fin c ns Inr q by (cases y) simp_all
    qed
  next
    case (Fail e)
    then have "r = Fail e" "t = t1" using assms(4) x by (simp_all add: io_bind_def)
    then show ?thesis using f by simp
  next
    case Stuck
    then show ?thesis using f by simp
  qed
qed

lemma keeps_lasting: "\<forall>r\<in>set rs. lasting r \<Longrightarrow> chain lo rs hi \<Longrightarrow> keeps (vm_shows rs a) = vm_shows rs a"
  using vm_shows_lasting [of lo rs hi a] by simp

lemma vm_map_param_result:
  assumes "platform_ok pl" and "vm_wf pl (um_regions s)" and "params_ok pl p"
  shows "case vm_map_param pl p s of
      (Ok addrs, s1) \<Rightarrow> vm_wf pl (um_regions s1) \<and> vm_balance s1 = vm_balance s \<and>
        (\<forall>a. keeps (vm_shows (um_regions s1) a) = vm_shows (um_regions s) a) \<and> length addrs = TEE_NUM_PARAMS \<and>
        (\<forall>n<TEE_NUM_PARAMS. is_memref p n \<and> pm_mobj (tp_mem p ! n) \<noteq> 0 \<longrightarrow>
           (\<exists>va attr f. addrs ! n = Some va \<and> f AND VM_FLAG_EPHEMERAL \<noteq> 0 \<and>
              vm_shows (um_regions s1) (unat va) =
                Some (pm_mobj (tp_mem p ! n), unat (phys_offs_of pl (pm_mobj (tp_mem p ! n))) + unat (pm_offs (tp_mem p ! n)), attr, f)))
    | (Fail e, s1) \<Rightarrow> vm_same pl s s1
    | (Stuck, s1) \<Rightarrow> \<exists>r\<in>set (um_regions s). r_flags r AND VM_FLAG_EPHEMERAL \<noteq> 0"
proof (cases "\<forall>r\<in>set (um_regions s). lasting r")
  case False
  then have "list_ex (\<lambda>r. r_flags r AND VM_FLAG_EPHEMERAL \<noteq> 0) (um_regions s)" by (auto simp: list_ex_iff lasting_def)
  then have "vm_map_param pl p s = (Stuck, s)"
    by (simp add: vm_map_param_def check_param_map_empty_def io_bind_def get_regions_def io_stuck_def)
  then show ?thesis using False by (auto simp: lasting_def)
next
  case True
  let ?body = "io_bind (for_each (map_range pl) (merged_ranges pl p)) (\<lambda>_. io_bind get_regions (\<lambda>rs.
         case param_addrs pl rs p [0..<TEE_NUM_PARAMS] of
           Inl e \<Rightarrow> io_fail e | Inr addrs \<Rightarrow> io_bind alloc_pgt (\<lambda>_. io_ret addrs)))"
  obtain r t where b: "?body s = (r, t)" by (cases "?body s")
  note res = map_param_body_result [OF assms(1,3,2) b]
  have ch: "chain (unat (pl_va_base pl)) (um_regions s) (range_end pl)" by (rule wf_chain [OF assms(2)])
  have old: "keeps (vm_shows (um_regions s) a) = vm_shows (um_regions s) a" for a by (rule keeps_lasting [OF True ch])
  have t: "vm_wf pl (um_regions t)" "vm_balance t = vm_balance s" "\<And>a. keeps (vm_shows (um_regions t) a) = vm_shows (um_regions s) a"
    using res old by (simp_all only: for_call_def)
  have ct: "chain (unat (pl_va_base pl)) (um_regions t) (range_end pl)" by (rule wf_chain [OF t(1)])
  have hi: "range_end pl < 2 ^ 64" using platform_high [OF assms(1)] by simp
  have "\<not> list_ex (\<lambda>r. r_flags r AND VM_FLAG_EPHEMERAL \<noteq> 0) (um_regions s)" using True by (auto simp: list_ex_iff lasting_def)
  then have "check_param_map_empty s = (Ok (), s)"
    by (simp add: check_param_map_empty_def io_bind_def get_regions_def io_ret_def)
  then have run: "vm_map_param pl p s = io_try ?body io_ret (\<lambda>e. io_bind (vm_clean_param pl) (\<lambda>_. io_fail e)) s"
    unfolding vm_map_param_def by (rule io_bind_step)
  show ?thesis
  proof (cases r)
    case (Ok addrs)
    have a: "param_addrs pl (um_regions t) p [0..<TEE_NUM_PARAMS] = Inr addrs" using res Ok by simp
    have "\<exists>va attr f. addrs ! n = Some va \<and> f AND VM_FLAG_EPHEMERAL \<noteq> 0 \<and> vm_shows (um_regions t) (unat va) =
        Some (pm_mobj (tp_mem p ! n), unat (phys_offs_of pl (pm_mobj (tp_mem p ! n))) + unat (pm_offs (tp_mem p ! n)), attr, f)"
      if n: "n < TEE_NUM_PARAMS" "is_memref p n" "pm_mobj (tp_mem p ! n) \<noteq> 0" for n
    proof -
      obtain va where va: "addrs ! n = Some va" "param_mem_to_user_va pl (um_regions t) (tp_mem p ! n) = Inr va"
        using param_addrs_result [OF a] n by auto
      have "mem_ok pl (tp_mem p ! n)" using assms(3) n by (simp add: params_ok_def)
      from param_mem_to_user_va_result [OF va(2) ct hi this] show ?thesis using va(1) by blast
    qed
    moreover have "length addrs = TEE_NUM_PARAMS" using param_addrs_result [OF a] by simp
    moreover have "vm_map_param pl p s = (Ok addrs, t)" unfolding run using b Ok by (simp add: io_try_def io_ret_def)
    ultimately show ?thesis using t by simp
  next
    case (Fail e)
    obtain s1 where c: "vm_clean_param pl t = (Ok (), s1)" "um_regions s1 = filter lasting (um_regions t)" "vm_wf pl (um_regions s1)"
        "vm_balance s1 = vm_balance t"
      using vm_clean_param_result [OF t(1)] by blast
    have "vm_shows (um_regions s1) = vm_shows (um_regions s)" unfolding c(2) by (intro ext) (simp add: vm_shows_lasting [OF ct] t(3))
    then have "vm_same pl s s1" using c t(2) by (simp add: vm_same_def)
    moreover have "vm_map_param pl p s = (Fail e, s1)" unfolding run using b Fail c(1) by (simp add: io_try_def io_bind_step io_fail_def)
    ultimately show ?thesis by simp
  next
    case Stuck
    then show ?thesis using res by simp
  qed
qed



end
