(* ===== verification/Spec2Isabelle.thy ===== *)
theory Spec2Isabelle
  imports Prelude Handle TeeMm Refcount RecMutex LockdepThreads ScmiProps Clk Notif Pobj FsMerkle FsRee FsObjects VmCall
begin

text \<open>
  A verification library of the core of OP-TEE OS (the directory \<open>projects/optee_os-master\<close> of the
  repository; all paths below are in it). OP-TEE is the operating system of the secure world: it
  schedules nothing itself, runs on threads lent by the normal world, manages the memory of trusted
  applications, gives them persistent storage that normal world keeps but cannot read or forge, and
  serves requests of firmware interfaces such as SCMI. The library models the parts with logic of
  their own as functions of the state they keep, in the order of their code, and proves what their users
  rely on.

  \<^bold>\<open>The theories and the code.\<close>

  \<^item> \<open>Prelude\<close>: result codes, rounding macros, and lemmas on lists and words the others share; \<open>Effects\<close>:
    computations on a state that may fail.
  \<^item> \<open>Handle\<close>: \<open>core/kernel/handle.c\<close> and \<open>ta/pkcs11/src/handle.c\<close>. A database is an array of pointers
    that grows; \<open>handle_get\<close>, \<open>handle_put\<close>, \<open>handle_lookup\<close> are the operations of the code with the array
    sizes at their width. The locale \<open>handle_store\<close> is the contract of a finite map with fresh keys, which
    both databases give; \<open>tee_heap\<close> is what they ask of \<open>realloc\<close>.
  \<^item> \<open>Regions\<close> and \<open>TeeMm\<close>: \<open>core/mm/tee_mm.c\<close>. A pool is its list of entries ordered by address; the
    allocation from either end, at an address, release, search and statistics follow the code at its widths
    (offsets of 32 bits, addresses of 64, the page number of \<open>tee_mm_find\<close> of 16). The locale
    \<open>region_allocator\<close> is the contract (disjoint live regions), interpreted on pools.
  \<^item> \<open>Refcount\<close>: \<open>core/kernel/refcount.c\<close>, loops around compare-and-swap against any interference.
  \<^item> \<open>Mutex\<close>: \<open>core/kernel/mutex.c\<close>, \<open>wait_queue.c\<close>. Each spinlock section is one step; a thread is a
    program counter between them, and \<open>mutex_step\<close> interleaves the threads. \<open>RecMutex\<close> puts the
    recursive mutex on that system, one step per access to owner and depth.
  \<^item> \<open>Lockdep\<close>: \<open>core/kernel/lockdep.c\<close>, the graph of the order of locks with its nodes in memory.
    \<open>LockdepSort\<close> is about the depth-first sort (its recursion has more fuel than there are nodes),
    \<open>LockdepCycle\<close> about the breadth-first search of a shortest cycle, \<open>LockdepAcquire\<close> about the operations,
    and \<open>LockdepThreads\<close> puts \<open>mutex_lockdep.c\<close> under threads that run in any interleaving.
  \<^item> \<open>ScmiMsg\<close>, \<open>ScmiBase\<close>, \<open>ScmiClock\<close>, \<open>ScmiReset\<close>, \<open>ScmiVoltage\<close>, \<open>ScmiServer\<close>, \<open>ScmiProps\<close>: the SCMI
    server \<open>core/drivers/scmi-msg\<close>, one theory per protocol file; platform callbacks are the fields
    of a record, with the contract \<open>scmi_platform\<close> interpreted on the weak functions of the code and on a
    platform with one clock. Messages are bytes; each read of memory shared with normal world is an input.
  \<^item> \<open>Clk\<close>: \<open>core/drivers/clk/clk.c\<close>, a forest of clocks with reference counters; recursion towards the root
    has the number of clocks as fuel, which suffices as \<open>clk_enable_disable_balanced\<close> shows for forests.
  \<^item> \<open>Bitstring\<close> and \<open>Notif\<close>: bit strings of \<open>bitstring.h\<close>; the values of \<open>core/kernel/notif.c\<close> and
    their delivery.
  \<^item> \<open>Pobj\<close>: \<open>core/tee/tee_pobj.c\<close>, the open persistent objects and their sharing rules.
  \<^item> \<open>FsHtree\<close> is \<open>core/tee/fs_htree.c\<close>: the tree in memory, its operations and the storage behind it.
    \<open>FsTree\<close>, \<open>FsCommit\<close>, \<open>FsSync\<close>, \<open>FsAtomic\<close> prove, bottom up, the traversal, opening,
    writing back and committing; \<open>FsLife\<close> runs any sequence of operations, failures and
    power losses; \<open>FsTrunc\<close> treats truncation, \<open>FsMerkle\<close> authenticity.
  \<^item> \<open>FsRee\<close>: the byte-level file operations and the file layout of \<open>core/tee/tee_ree_fs.c\<close>.
  \<^item> \<open>FsDirfile\<close>: \<open>core/tee/fs_dirfile.c\<close>, the directory file, over any file operations
    (\<open>dirfile_operations\<close>). \<open>FsDir\<close> proves each of its operations inside the locale \<open>byte_store\<close>, the
    contract of a file of bytes whose calls may fail; \<open>FsHonest\<close> shows which error codes the file operations
    can give; \<open>FsDirMap\<close> has \<open>ree_dirf_ops\<close> and opening and closing of \<open>tee_ree_fs.c\<close>, shows that they keep
    the contract (the sublocale of \<open>ree_directory\<close>), and that the directory is a map.
  \<^item> \<open>FsObj\<close>: the operations \<open>ree_fs_ops\<close> of \<open>tee_ree_fs.c\<close> on objects, with the directory handle
    all of them share. \<open>FsObjFile\<close> says what is true of the file of one object between operations,
    \<open>FsObjDir\<close> puts the directory on the many files of normal world (the locale \<open>nw_directory\<close>, a
    sublocale of \<open>byte_store\<close>), \<open>FsObjMap\<close> has the invariant of the whole store and one lemma for
    each operation, and \<open>FsObjects\<close> the refinement of a map of objects by any sequence of calls.
  \<^item> \<open>Vm\<close>, \<open>VmOps\<close>, \<open>VmParam\<close>: \<open>core/mm/vm.c\<close>, the address space of a user-mode context as its list of regions.
    \<open>VmWf\<close> has the invariant (\<open>vm_wf\<close>), what an address shows (\<open>vm_shows\<close>) and the balance of references to memory
    objects; \<open>VmMap\<close> is about adding a region, \<open>VmSplit\<close> about splitting and merging, \<open>VmRange\<close> about protection
    and unmapping, \<open>VmMove\<close> about \<open>vm_remap\<close>, \<open>VmAccess\<close> about access checks and the freeing of translation
    tables, \<open>VmLife\<close> about sequences of operations, and \<open>VmCall\<close> about the parameters of an invocation.

  \<^bold>\<open>How the parts meet.\<close> An object handle of a trusted application (\<open>Pobj\<close>) names a file of the normal-world
  file system (\<open>FsRee\<close>), which keeps it as a hash tree (\<open>FsHtree\<close>) on untrusted storage. Reading and writing
  bytes is proved on \<open>htree_life\<close>, the relation of \<open>FsLife\<close>, so the file-level theorems hold after
  any history of writes, commits, failures and crashes. The directory file (\<open>FsDirfile\<close>) is such a file and
  says which file holds which object and with which digest; \<open>FsObjects\<close> shows that both together are a map
  from objects to bytes. The SCMI server uses platform clocks only through
  its contract; clocks are counted with \<open>Clk\<close>.

  \<^bold>\<open>What the groups of theorems show.\<close> For allocators and handle databases: the abstract contract, each
  branch of each operation, and that refusals are right (an allocation is refused exactly when there is no
  room). For the lock checker: it refuses exactly the acquisitions that make the order of locks circular, and what it lets
  through does not deadlock. For locks: exclusion and no lost wake-up in every interleaving. For SCMI: every answer fits its
  buffer, only valid requests reach the platform, requests do not influence each other. For clocks: balance
  of enabling and disabling on any tree. For storage: after a crash at any point a file opens with a
  committed content; a commit that returned is durable; reading gives what was written; an equal digest
  means an equal file, up to collisions; a file is its list of bytes whatever blocks are touched; the
  directory is a map from objects to files. For address spaces: each operation does to the view of user mode what it
  says, on the pages it names and no others, or nothing at all; a buffer is accepted exactly when all of it may be accessed.
  Where the code falls short a theorem shows it on a concrete state (truncation, SCMI answers into small
  buffers, the 16-bit page number, an error taken for the end of a directory, a protection that is not compared, and
  others).

  \<^bold>\<open>Bounds and hypotheses.\<close> Machine integers have their width. The storage theorems assume that the counter
  of a header stays below \<open>2 ^ 32 - 1\<close> at each commit (it selects the valid header), that a file has fewer than
  \<open>2 ^ 32 - 1\<close> nodes, and at byte level positions below \<open>2 ^ 31\<close>, since the code converts them to \<open>int\<close>. Calls
  that can fail (allocation, remote calls, random numbers) take their answer from a script in the world, so
  that every theorem covers every pattern of failures; \<open>calm\<close> is the script without failures. Encryption
  and digests are parameters: \<open>crypto_ok\<close> asks only that decryption undoes encryption. A place on storage
  (header, node, block) is written whole or not at all. The theorem on objects, which is about several files at once,
  assumes the calm script: with failures an operation may stop half-way, which the theorems on one file and on the
  directory describe. It bounds calls and numbers by \<open>2 ^ 24\<close> (each call uses at most three entries of the
  directory, whose positions stay below \<open>2 ^ 31\<close>), wants a single handle on an object that is written,
  and leaves out truncation, whose flaw \<open>FsTrunc\<close> shows. Its alternative, a commit that gives a root the
  digest of the root before it, is a collision of the digest. Threads in \<open>Mutex\<close> are at most 32767, the range of the
  reader count. The user range of an address space (\<open>platform_ok\<close>) is made of whole pages, does not start at
  address \<open>0\<close> and leaves room for one more translation table below \<open>2 ^ 64\<close>; lengths that are mapped are not empty and do not wrap around when rounded to pages.

  \<^bold>\<open>Not modelled.\<close> Architecture code and drivers other than those above (registers and timing), vendored
  libraries (mbedTLS, LibTomCrypt, libfdt, zlib and others), the cryptographic service layer, the entries of translation
  tables, memory objects and the pager (parameters and events of \<open>Vm\<close>), the RPMB file system and the TA
  database, system calls and sessions, trusted applications and their libraries except the handle database of
  PKCS#11, the loader, and tests.
\<close>

end
